(* ===== verification/Prelude.thy ===== *)
theory Prelude
  imports Main "HOL-Library.Word" "HOL-Library.Stream"
begin

text \<open>
  What every component shares: status codes (\<open>include/oi/status.h\<close>), bytes, the answers of the
  C allocator, the capacity-doubling loop that the growable buffers of \<open>src/\<close> repeat, and the two
  interfaces most components implement: an append-only buffer and a byte-fed machine.
\<close>

unbundle bit_operations_syntax


section \<open>Bytes, sizes, status codes\<close>

type_synonym byte = "8 word"
type_synonym bytes = "byte list"

definition bytes_of :: "string \<Rightarrow> bytes" where
  "bytes_of s = map of_char s"

text \<open>\<open>SIZE_MAX\<close>, that is \<open>(size_t)-1\<close> on the 64-bit targets of the project.\<close>

definition size_max :: nat where
  "size_max = 18446744073709551615"

datatype oi_status =
    OI_OK | OI_ERR_INVAL | OI_ERR_NOMEM | OI_ERR_IO | OI_ERR_AGAIN | OI_ERR_PARSE
  | OI_ERR_CLOSED | OI_ERR_EXISTS | OI_ERR_NOTFOUND | OI_ERR_DENIED | OI_ERR_TIMEOUT

fun oi_status_str :: "oi_status \<Rightarrow> string" where
  "oi_status_str OI_OK = ''ok''"
| "oi_status_str OI_ERR_INVAL = ''invalid argument''"
| "oi_status_str OI_ERR_NOMEM = ''out of memory''"
| "oi_status_str OI_ERR_IO = ''I/O error''"
| "oi_status_str OI_ERR_AGAIN = ''would block''"
| "oi_status_str OI_ERR_PARSE = ''parse error''"
| "oi_status_str OI_ERR_CLOSED = ''closed''"
| "oi_status_str OI_ERR_EXISTS = ''already exists''"
| "oi_status_str OI_ERR_NOTFOUND = ''not found''"
| "oi_status_str OI_ERR_DENIED = ''denied''"
| "oi_status_str OI_ERR_TIMEOUT = ''timeout''"

section \<open>The C allocator\<close>

text \<open>
  \<open>malloc\<close> and \<open>realloc\<close> are the environment's choice. Each object carries the stream of answers
  its requests will get; taking an answer is one request. A theorem for every \<open>heap\<close> holds whatever
  the allocator does; \<open>heap_ok\<close> is the allocator that never fails.
\<close>

type_synonym heap = "bool stream"

definition heap_ok :: heap where
  "heap_ok = sconst True"

lemma heap_ok_sel [simp]: "shd heap_ok = True" "stl heap_ok = heap_ok"
  by (simp_all add: heap_ok_def)

text \<open>
  A function that allocates and fails with a status: its answer and the requests left. \<open>alloc_try\<close> is one
  request, \<open>alloc_then\<close> the sequencing \<open>if (st == OI_OK) st = ...\<close>. An object created on the way gets answers
  of its own: \<open>heap_child\<close>, which leaves \<open>heap_rest\<close> to its creator; any two streams can be the two.
\<close>

definition heap_child :: "heap \<Rightarrow> heap" where
  "heap_child h = smap (\<lambda>n. h !! (2 * n)) nats"

definition heap_rest :: "heap \<Rightarrow> heap" where
  "heap_rest h = smap (\<lambda>n. h !! (2 * n + 1)) nats"

lemma heap_child_ok [simp]: "heap_child heap_ok = heap_ok" "heap_rest heap_ok = heap_ok"
  by (simp_all add: heap_ok_def heap_child_def heap_rest_def smap_alt)

lemma heap_split_any: "\<exists>h. heap_child h = a \<and> heap_rest h = b"
proof (intro exI conjI)
  let ?h = "smap (\<lambda>n. if even n then a !! (n div 2) else b !! (n div 2)) nats"
  show "heap_child ?h = a" "heap_rest ?h = b"
    by (simp_all add: heap_child_def heap_rest_def smap_alt)
qed

type_synonym 'a alloc = "(oi_status + 'a) \<times> heap"

definition alloc_try :: "heap \<Rightarrow> 'a \<Rightarrow> 'a alloc" where
  "alloc_try h x = (if shd h then Inr x else Inl OI_ERR_NOMEM, stl h)"

definition alloc_then :: "'a alloc \<Rightarrow> ('a \<Rightarrow> heap \<Rightarrow> 'b alloc) \<Rightarrow> 'b alloc" where
  "alloc_then r k = (case r of (Inl st, h) \<Rightarrow> (Inl st, h) | (Inr x, h) \<Rightarrow> k x h)"

lemma alloc_try_ok [simp]: "alloc_try heap_ok x = (Inr x, heap_ok)"
  by (simp add: alloc_try_def)

lemma alloc_try_Inr [simp]: "alloc_try h x = (Inr y, h') \<longleftrightarrow> shd h \<and> x = y \<and> h' = stl h"
  by (auto simp: alloc_try_def)

lemma alloc_then_ok [simp]: "alloc_then (Inr x, h) k = k x h" "alloc_then (Inl st, h) k = (Inl st, h)"
  by (simp_all add: alloc_then_def)

lemma alloc_then_Inr [simp]:
  "alloc_then r k = (Inr y, h') \<longleftrightarrow> (\<exists>x h. r = (Inr x, h) \<and> k x h = (Inr y, h'))"
  by (auto simp: alloc_then_def split: prod.splits sum.splits)

section \<open>Capacity doubling\<close>

text \<open>
  The loop \<open>while (cap < needed) { if (cap > SIZE_MAX / 2) return OI_ERR_NOMEM; cap *= 2; }\<close>
  of \<open>cli_bytebuf.c\<close>, \<open>json_parse.c\<close> and \<open>json_write.c\<close>. In C it would spin for ever on
  \<open>cap = 0\<close>; every caller keeps the capacity positive, which is part of each component's invariant,
  and the model answers \<open>None\<close> there.
\<close>

function grow_cap :: "nat \<Rightarrow> nat \<Rightarrow> nat option" where
  "grow_cap cap needed =
     (if cap < needed then
        if cap = 0 \<or> cap > size_max div 2 then None else grow_cap (2 * cap) needed
      else Some cap)"
  by pat_completeness auto
termination
  by (relation "measure (\<lambda>(cap, needed). needed - cap)") auto

declare grow_cap.simps [simp del]

lemma grow_cap_Some: "grow_cap cap needed = Some c \<Longrightarrow> needed \<le> c \<and> cap \<le> c"
proof (induction cap needed rule: grow_cap.induct)
  case (1 cap needed)
  then show ?case
    by (auto simp: grow_cap.simps [of cap needed] split: if_splits)
qed

lemma grow_cap_pos: "grow_cap cap needed = Some c \<Longrightarrow> 0 < cap \<Longrightarrow> 0 < c"
  using grow_cap_Some by fastforce

lemma grow_cap_bound:
  "grow_cap cap needed = Some c \<Longrightarrow> cap \<le> size_max \<Longrightarrow> c \<le> size_max"
proof (induction cap needed rule: grow_cap.induct)
  case (1 cap needed)
  show ?case
  proof (cases "cap < needed \<and> cap \<noteq> 0 \<and> \<not> cap > size_max div 2")
    case True
    with "1.prems" have "grow_cap (2 * cap) needed = Some c"
      by (auto simp: grow_cap.simps [of cap needed])
    moreover have "2 * cap \<le> size_max" using True by auto
    ultimately show ?thesis using "1.IH" True by auto
  next
    case False
    with "1.prems" show ?thesis
      by (auto simp: grow_cap.simps [of cap needed] split: if_splits)
  qed
qed

lemma grow_cap_double: "grow_cap cap n = Some c \<Longrightarrow> c = cap \<or> c < 2 * n"
proof (induction cap n rule: grow_cap.induct)
  case (1 cap n)
  show ?case
  proof (cases "cap < n \<and> \<not> (cap = 0 \<or> cap > size_max div 2)")
    case True
    with "1.prems" have "grow_cap (2 * cap) n = Some c" by (simp add: grow_cap.simps [of cap n])
    with 1 True show ?thesis by auto
  next
    case False
    with "1.prems" show ?thesis by (auto simp: grow_cap.simps [of cap n] split: if_split_asm)
  qed
qed

lemma grow_cap_enough:
  "0 < cap \<Longrightarrow> needed \<le> size_max div 2 \<Longrightarrow> \<exists>c. grow_cap cap needed = Some c"
proof (induction cap needed rule: grow_cap.induct)
  case (1 cap needed)
  then show ?case
    by (cases "cap < needed") (auto simp: grow_cap.simps [of cap needed])
qed

section \<open>Interface: an append-only buffer\<close>

text \<open>
  The contract of \<open>oi_cli_bytebuf_append\<close>, of the JSON writer's \<open>append_bytes\<close> and of the JSON
  parser's \<open>str_buf_append_bytes\<close>: a call either appends all its bytes or, failing with
  \<open>OI_ERR_NOMEM\<close>, leaves the bytes already there alone.
\<close>

locale append_buffer =
  fixes append_op :: "'s \<Rightarrow> bytes \<Rightarrow> oi_status \<times> 's"
    and contents :: "'s \<Rightarrow> bytes"
  assumes append_ok: "append_op s xs = (OI_OK, s') \<Longrightarrow> contents s' = contents s @ xs"
    and append_fail: "append_op s xs = (st, s') \<Longrightarrow> st \<noteq> OI_OK \<Longrightarrow>
                        st = OI_ERR_NOMEM \<and> contents s' = contents s"
begin

lemma append_status: "fst (append_op s xs) = OI_OK \<or> fst (append_op s xs) = OI_ERR_NOMEM"
  using append_fail [of s xs "fst (append_op s xs)" "snd (append_op s xs)"] by auto

lemma append_contents:
  "contents (snd (append_op s xs)) =
     (if fst (append_op s xs) = OI_OK then contents s @ xs else contents s)"
  using append_ok [of s xs "snd (append_op s xs)"]
    append_fail [of s xs "fst (append_op s xs)" "snd (append_op s xs)"]
  by (metis prod.collapse)

lemma append_prefix: "\<exists>ys. contents (snd (append_op s xs)) = contents s @ ys"
  by (simp add: append_contents)

end

section \<open>Interface: a machine fed with bytes\<close>

text \<open>
  The incremental parsers and filters run a step function over the bytes they are given; a step may
  refuse to consume its byte, in which case the loop offers it again to the new state. The contract:
  \<open>feed\<close> is the loop over \<open>step\<close>, and a step that does not consume leaves a state that will.
\<close>

locale byte_machine =
  fixes step :: "'s \<Rightarrow> byte \<Rightarrow> oi_status \<times> 's \<times> bool"
    and feed :: "'s \<Rightarrow> bytes \<Rightarrow> oi_status \<times> 's"
  assumes feed_Nil: "feed s [] = (OI_OK, s)"
    and feed_Cons: "feed s (b # bs) =
          (case step s b of (st, s', consumed) \<Rightarrow>
             if st \<noteq> OI_OK then (st, s')
             else if consumed then feed s' bs else feed s' (b # bs))"
    and reprocess: "step s b = (OI_OK, s', False) \<Longrightarrow>
          \<exists>st s'' c. step s' b = (st, s'', c) \<and> (st = OI_OK \<longrightarrow> c)"
begin

lemma feed_one:
  "feed s (b # bs) =
     (case feed s [b] of (st, s') \<Rightarrow> if st = OI_OK then feed s' bs else (st, s'))"
proof (cases "step s b")
  case (fields st s' c)
  show ?thesis
  proof (cases "st = OI_OK \<and> \<not> c")
    case True
    with fields have "step s b = (OI_OK, s', False)" by simp
    from reprocess [OF this] obtain st' s'' c'
      where "step s' b = (st', s'', c')" and "st' = OI_OK \<longrightarrow> c'" by blast
    with True fields show ?thesis by (simp add: feed_Cons feed_Nil)
  next
    case False
    with fields show ?thesis by (auto simp: feed_Cons feed_Nil)
  qed
qed

lemma feed_append:
  "feed s (xs @ ys) =
     (case feed s xs of (st, s') \<Rightarrow> if st = OI_OK then feed s' ys else (st, s'))"
proof (induction xs arbitrary: s)
  case Nil
  then show ?case by (simp add: feed_Nil)
next
  case (Cons x xs)
  show ?case
    by (simp only: append_Cons feed_one [of s x "xs @ ys"] feed_one [of s x xs] Cons.IH)
       (auto split: prod.split)
qed

lemma feed_append_ok: "feed s xs = (OI_OK, s') \<Longrightarrow> feed s (xs @ ys) = feed s' ys"
  by (simp add: feed_append)

lemma feed_append_err: "feed s xs = (st, s') \<Longrightarrow> st \<noteq> OI_OK \<Longrightarrow> feed s (xs @ ys) = (st, s')"
  by (simp add: feed_append)

lemma feed_single_inv:
  assumes "\<And>s b st s' c. I s \<Longrightarrow> step s b = (st, s', c) \<Longrightarrow> I s'"
    and "I s"
  shows "I (snd (feed s [b]))"
proof (cases "step s b")
  case (fields st s' c)
  with assms have I': "I s'" by blast
  show ?thesis
  proof (cases "st = OI_OK \<and> \<not> c")
    case True
    with fields have "step s b = (OI_OK, s', False)" by simp
    from reprocess [OF this] obtain st' s'' c'
      where s2: "step s' b = (st', s'', c')" "st' = OI_OK \<longrightarrow> c'" by blast
    then have "I s''" using assms(1) I' by blast
    with True fields s2 show ?thesis by (simp add: feed_Cons feed_Nil)
  next
    case False
    with fields I' show ?thesis by (auto simp: feed_Cons feed_Nil)
  qed
qed

text \<open>An invariant of the step is an invariant of the loop.\<close>

lemma feed_invariant:
  assumes step_inv: "\<And>s b st s' c. I s \<Longrightarrow> step s b = (st, s', c) \<Longrightarrow> I s'"
  shows "I s \<Longrightarrow> I (snd (feed s bs))"
proof (induction bs arbitrary: s)
  case Nil
  then show ?case by (simp add: feed_Nil)
next
  case (Cons b bs)
  have "I (snd (feed s [b]))" by (rule feed_single_inv [of I]) (use step_inv Cons.prems in blast)+
  then show ?case
    using Cons.IH [of "snd (feed s [b])"]
    by (subst feed_one) (auto split: prod.split)
qed

end

section \<open>Characters and C strings\<close>

text \<open>
  \<open>strcasecmp\<close> in the C locale, the value of a string of digits, and the part of an array that a
  function reading a C string sees.
\<close>

definition lower_char :: "byte \<Rightarrow> byte" where
  "lower_char c = (if 0x41 \<le> c \<and> c \<le> 0x5A then c + 0x20 else c)"

definition equals_ignore_case :: "bytes \<Rightarrow> bytes \<Rightarrow> bool" where
  "equals_ignore_case a b \<longleftrightarrow> map lower_char a = map lower_char b"

definition digit_value :: "byte \<Rightarrow> nat" where
  "digit_value c = unat (c - 0x30)"

definition dec_value :: "int \<Rightarrow> bytes \<Rightarrow> int" where
  "dec_value v ds = foldl (\<lambda>v c. v * 10 + int (digit_value c)) v ds"

lemma dec_value_ge: "0 \<le> v \<Longrightarrow> v \<le> dec_value v ds"
proof (induction ds arbitrary: v)
  case (Cons c ds)
  have "v \<le> v * 10 + int (digit_value c)" using Cons.prems by simp
  also have "\<dots> \<le> dec_value (v * 10 + int (digit_value c)) ds" using Cons by simp
  finally show ?case by (simp add: dec_value_def)
qed (simp add: dec_value_def)

definition c_string :: "bytes \<Rightarrow> bytes" where
  "c_string s = takeWhile (\<lambda>b. b \<noteq> 0) s"

lemma c_string_id: "0 \<notin> set key \<Longrightarrow> c_string key = key"
  unfolding c_string_def by (rule takeWhile_eq_all_conv [THEN iffD2]) auto

section \<open>Lists\<close>

lemma takeWhile_all: "\<forall>b \<in> set (takeWhile P xs). P b"
  by (meson set_takeWhileD)

lemma drop_takeWhile: "drop (length (takeWhile P xs)) xs = dropWhile P xs"
  by (simp add: dropWhile_eq_drop)

lemma drop_run: "2 * length (dropWhile P bs) \<le> Suc (2 * length bs)"
  using length_dropWhile_le [of P bs] by linarith

section \<open>Words\<close>

lemma byte_less_256 [simp]: "unat (b :: byte) < 256"
  using unsigned_less [of b] by simp

lemma byte_cases:
  assumes "\<And>n. n < 256 \<Longrightarrow> P (word_of_nat n :: byte)"
  shows "P b"
  using assms [of "unat b"] by simp

lemma byte_all_iff: "(\<forall>b :: byte. P b) \<longleftrightarrow> (\<forall>n < 256. P (word_of_nat n))"
  using byte_cases by blast

lemma unat_and_mask: "unat (x AND mask k :: 'a::len word) = unat x mod 2 ^ k"
  by (simp only: take_bit_eq_mask [symmetric] unsigned_take_bit_eq) (simp only: take_bit_eq_mod)
lemma unat_push_bit:
  "unat (x :: 'a::len word) * 2 ^ k < 2 ^ LENGTH('a) \<Longrightarrow> unat (push_bit k x) = unat x * 2 ^ k"
  by (subst unsigned_push_bit_eq) (simp add: push_bit_eq_mult take_bit_eq_mod)
lemma nat_or_disjoint: "a mod 2 ^ k = 0 \<Longrightarrow> b < 2 ^ k \<Longrightarrow> (a :: nat) OR b = a + b"
proof -
  assume a: "a mod 2 ^ k = 0" and b: "b < 2 ^ k"
  from a have "take_bit k a = 0" by (simp only: take_bit_eq_mod)
  moreover from b have "take_bit k b = b" by (simp add: take_bit_nat_eq_self)
  ultimately have "\<not> bit a n \<or> \<not> bit b n" for n
    by (metis bit_0_eq bit_take_bit_iff bot_apply bot_bool_def)
  then show ?thesis by (simp add: disjunctive_add)
qed
lemma unat_or_disjoint:
  "unat a mod 2 ^ k = 0 \<Longrightarrow> unat b < 2 ^ k \<Longrightarrow> unat (a OR b :: 'a::len word) = unat a + unat b"
  by (simp only: unsigned_or_eq nat_or_disjoint)

lemma ucast_nat: "unat (w :: 32 word) = n \<Longrightarrow> (ucast w :: byte) = word_of_nat n"
  by (metis of_nat_unat)

lemma unat_drop: "unat (drop_bit k (w :: 32 word)) = unat w div 2 ^ k"
  by (simp only: unat_drop_bit_eq) (simp only: drop_bit_eq_div)

end
