(* ===== verification/Utf8.thy ===== *)
theory Utf8
  imports Prelude
begin

text \<open>
  \<open>src/cli_utf8.c\<close>: classification, validation, boundary movement, decoding and display width of
  UTF-8. A \<open>char *\<close> with its length is a byte list; an out-parameter with its status is
  \<open>oi_status + 'a\<close>. \<open>utf8_encode\<close> is the encoding table of RFC 3629 on code points as numbers, the
  specification the routines are compared with.
\<close>

section \<open>The routines\<close>

definition is_continuation :: "byte \<Rightarrow> bool" where
  "is_continuation b \<longleftrightarrow> b AND 0xC0 = 0x80"

definition oi_cli_utf8_lead_length :: "byte \<Rightarrow> oi_status + nat" where
  "oi_cli_utf8_lead_length first =
     (if first \<le> 0x7F then Inr 1
      else if 0xC2 \<le> first \<and> first \<le> 0xDF then Inr 2
      else if 0xE0 \<le> first \<and> first \<le> 0xEF then Inr 3
      else if 0xF0 \<le> first \<and> first \<le> 0xF4 then Inr 4
      else Inl OI_ERR_PARSE)"

definition oi_cli_utf8_sequence_length :: "bytes \<Rightarrow> oi_status + nat" where
  "oi_cli_utf8_sequence_length data =
     (if data = [] then Inl OI_ERR_PARSE
      else let first = data ! 0 in
        (case oi_cli_utf8_lead_length first of
           Inl e \<Rightarrow> Inl e
         | Inr n \<Rightarrow>
             if n = 1 then Inr 1
             else if length data < n then Inl OI_ERR_PARSE
             else if \<not> is_continuation (data ! 1) then Inl OI_ERR_PARSE
             else if 3 \<le> n \<and> \<not> is_continuation (data ! 2) then Inl OI_ERR_PARSE
             else if n = 4 \<and> \<not> is_continuation (data ! 3) then Inl OI_ERR_PARSE
             else if first = 0xE0 \<and> data ! 1 < 0xA0 then Inl OI_ERR_PARSE
             else if first = 0xED \<and> data ! 1 > 0x9F then Inl OI_ERR_PARSE
             else if first = 0xF0 \<and> data ! 1 < 0x90 then Inl OI_ERR_PARSE
             else if first = 0xF4 \<and> data ! 1 > 0x8F then Inl OI_ERR_PARSE
             else Inr n))"

lemma lead_length_range: "oi_cli_utf8_lead_length b = Inr n \<Longrightarrow> 1 \<le> n \<and> n \<le> 4"
  by (auto simp: oi_cli_utf8_lead_length_def split: if_splits)

lemma sequence_length_range:
  "oi_cli_utf8_sequence_length data = Inr n \<Longrightarrow> 1 \<le> n \<and> n \<le> 4 \<and> n \<le> length data"
  by (cases data)
     (auto simp: oi_cli_utf8_sequence_length_def Let_def
       split: sum.splits if_splits dest: lead_length_range)

lemma sequence_length_err:
  "oi_cli_utf8_sequence_length data = Inl e \<Longrightarrow> e = OI_ERR_PARSE"
  by (auto simp: oi_cli_utf8_sequence_length_def oi_cli_utf8_lead_length_def Let_def
       split: sum.splits if_splits)

text \<open>The validation loop; \<open>data + offset\<close> is the remaining suffix.\<close>

function oi_cli_utf8_validate :: "bytes \<Rightarrow> oi_status" where
  "oi_cli_utf8_validate data =
     (if data = [] then OI_OK
      else (case oi_cli_utf8_sequence_length data of
              Inl e \<Rightarrow> e
            | Inr n \<Rightarrow> oi_cli_utf8_validate (drop n data)))"
  by pat_completeness auto
termination
  by (relation "measure length") (auto dest: sequence_length_range)

declare oi_cli_utf8_validate.simps [simp del]

definition oi_cli_utf8_next_boundary :: "bytes \<Rightarrow> nat \<Rightarrow> oi_status + nat" where
  "oi_cli_utf8_next_boundary data offset =
     (if offset > length data then Inl OI_ERR_INVAL
      else if offset = length data then Inl OI_ERR_INVAL
      else (case oi_cli_utf8_sequence_length (drop offset data) of
              Inl e \<Rightarrow> Inl e
            | Inr n \<Rightarrow> Inr (offset + n)))"

text \<open>\<open>while (start > 0 && is_continuation(data[start])) start--;\<close>\<close>

fun skip_back :: "bytes \<Rightarrow> nat \<Rightarrow> nat" where
  "skip_back data 0 = 0"
| "skip_back data (Suc start) =
     (if is_continuation (data ! Suc start) then skip_back data start else Suc start)"

definition oi_cli_utf8_previous_boundary :: "bytes \<Rightarrow> nat \<Rightarrow> oi_status + nat" where
  "oi_cli_utf8_previous_boundary data offset =
     (if offset > length data then Inl OI_ERR_INVAL
      else if offset = 0 then Inl OI_ERR_INVAL
      else let start = skip_back data (offset - 1) in
        (case oi_cli_utf8_sequence_length (take (offset - start) (drop start data)) of
           Inl e \<Rightarrow> Inl e
         | Inr n \<Rightarrow> if start + n \<noteq> offset then Inl OI_ERR_PARSE else Inr start))"

definition oi_cli_utf8_decode :: "bytes \<Rightarrow> oi_status + 32 word" where
  "oi_cli_utf8_decode bytes =
     (let b = (\<lambda>i. ucast (bytes ! i) :: 32 word) in
      if length bytes < 1 \<or> length bytes > 4 then Inl OI_ERR_INVAL
      else if length bytes = 1 then Inr (b 0)
      else if length bytes = 2 then
        Inr (push_bit 6 (b 0 AND 0x1F) OR (b 1 AND 0x3F))
      else if length bytes = 3 then
        Inr (push_bit 12 (b 0 AND 0x0F) OR push_bit 6 (b 1 AND 0x3F) OR (b 2 AND 0x3F))
      else
        Inr (push_bit 18 (b 0 AND 0x07) OR push_bit 12 (b 1 AND 0x3F)
             OR push_bit 6 (b 2 AND 0x3F) OR (b 3 AND 0x3F)))"

definition in_range :: "32 word \<Rightarrow> 32 word \<Rightarrow> 32 word \<Rightarrow> bool" where
  "in_range cp low high \<longleftrightarrow> low \<le> cp \<and> cp \<le> high"

definition oi_cli_utf8_codepoint_width :: "32 word \<Rightarrow> nat" where
  "oi_cli_utf8_codepoint_width cp =
     (if cp \<le> 0x1F \<or> cp = 0x7F then 0
      else if in_range cp 0x0300 0x036F \<or> in_range cp 0x200B 0x200F \<or> in_range cp 0xFE00 0xFE0F
        \<or> in_range cp 0xFE20 0xFE2F \<or> in_range cp 0x20D0 0x20FF then 0
      else if in_range cp 0x1100 0x115F \<or> in_range cp 0x2E80 0x303E \<or> in_range cp 0x3041 0x33FF
        \<or> in_range cp 0x3400 0x4DBF \<or> in_range cp 0x4E00 0x9FFF \<or> in_range cp 0xA000 0xA4CF
        \<or> in_range cp 0xAC00 0xD7A3 \<or> in_range cp 0xF900 0xFAFF \<or> in_range cp 0xFF00 0xFF60
        \<or> in_range cp 0xFFE0 0xFFE6 \<or> in_range cp 0x20000 0x2FFFD
        \<or> in_range cp 0x30000 0x3FFFD then 2
      else 1)"

section \<open>Specification: RFC 3629\<close>

definition scalar_value :: "nat \<Rightarrow> bool" where
  "scalar_value cp \<longleftrightarrow> cp < 0x110000 \<and> \<not> (0xD800 \<le> cp \<and> cp \<le> 0xDFFF)"

definition utf8_encode :: "nat \<Rightarrow> bytes" where
  "utf8_encode cp =
     (if cp < 0x80 then [word_of_nat cp]
      else if cp < 0x800 then
        [word_of_nat (0xC0 + cp div 64), word_of_nat (0x80 + cp mod 64)]
      else if cp < 0x10000 then
        [word_of_nat (0xE0 + cp div 4096), word_of_nat (0x80 + cp div 64 mod 64),
         word_of_nat (0x80 + cp mod 64)]
      else
        [word_of_nat (0xF0 + cp div 262144), word_of_nat (0x80 + cp div 4096 mod 64),
         word_of_nat (0x80 + cp div 64 mod 64), word_of_nat (0x80 + cp mod 64)])"

text \<open>A text is well formed when it is the encoding of a sequence of scalar values.\<close>

definition utf8_text :: "bytes \<Rightarrow> bool" where
  "utf8_text data \<longleftrightarrow>
     (\<exists>cps. (\<forall>cp \<in> set cps. scalar_value cp) \<and> data = concat (map utf8_encode cps))"

section \<open>Bytes as numbers\<close>

lemma bit_C0: "bit (0xC0 :: byte) n \<longleftrightarrow> 6 \<le> n \<and> n < 8"
proof -
  have c: "(0xC0 :: byte) = push_bit 6 (mask 2)" by (simp add: mask_eq_exp_minus_1)
  show ?thesis unfolding c by (simp only: bit_push_bit_iff bit_mask_iff) auto
qed
lemma unat_and_C0: "unat ((b :: byte) AND 0xC0) = unat b div 64 * 64"
proof -
  have "b AND 0xC0 = push_bit 6 (drop_bit 6 b)"
    by (rule bit_word_eqI) (simp only: bit_and_iff bit_C0 bit_push_bit_iff bit_drop_bit_eq o_apply,
        auto)
  moreover have "unat (drop_bit 6 b) = unat b div 64"
    by (subst unsigned_drop_bit_eq) (simp add: drop_bit_eq_div take_bit_eq_mod)
  moreover have "unat b div 64 * 64 < 256" using byte_less_256 [of b] by linarith
  ultimately show ?thesis by (simp only:) (subst unat_push_bit, simp_all)
qed

lemma is_continuation_iff: "is_continuation b \<longleftrightarrow> 0x80 \<le> unat b \<and> unat b < 0xC0"
proof -
  have "is_continuation b \<longleftrightarrow> unat b div 64 * 64 = 128"
    by (simp add: is_continuation_def word_unat_eq_iff unat_and_C0)
  also have "\<dots> \<longleftrightarrow> 0x80 \<le> unat b \<and> unat b < 0xC0" by auto
  finally show ?thesis .
qed

lemmas byte_nat = word_le_nat_alt word_less_nat_alt word_unat_eq_iff

fun decode_nat :: "nat list \<Rightarrow> nat" where
  "decode_nat [a] = a"
| "decode_nat [a, b] = a mod 32 * 64 + b mod 64"
| "decode_nat [a, b, c] = a mod 16 * 4096 + b mod 64 * 64 + c mod 64"
| "decode_nat [a, b, c, d] = a mod 8 * 262144 + b mod 64 * 4096 + c mod 64 * 64 + d mod 64"
| "decode_nat _ = 0"

lemma unat_ucast_byte [simp]: "unat (ucast (b :: byte) :: 32 word) = unat b"
  by (simp add: unsigned_ucast_eq take_bit_nat_eq_self less_trans [OF byte_less_256])

lemma mask_consts: "(0x3F :: 32 word) = mask 6" "(0x1F :: 32 word) = mask 5"
    "(0x0F :: 32 word) = mask 4" "(0x07 :: 32 word) = mask 3"
  by (simp_all add: mask_eq_exp_minus_1)

lemma unat_shift_or:
  fixes x y :: "32 word"
  assumes "unat x * 2 ^ k < 2 ^ 32" and "unat y < 2 ^ k"
  shows "unat (push_bit k x OR y) = unat x * 2 ^ k + unat y"
proof -
  have "unat (push_bit k x) = unat x * 2 ^ k" using assms(1) by (simp add: unat_push_bit)
  then show ?thesis using assms(2) by (subst unat_or_disjoint [where k = k]) simp_all
qed

section \<open>Decoding is the inverse of the table\<close>

lemma decode_unat:
  "oi_cli_utf8_decode [a] = Inr (word_of_nat (decode_nat [unat a]))"
  "oi_cli_utf8_decode [a, b] = Inr (word_of_nat (decode_nat [unat a, unat b]))"
  "oi_cli_utf8_decode [a, b, c] = Inr (word_of_nat (decode_nat [unat a, unat b, unat c]))"
  "oi_cli_utf8_decode [a, b, c, d] =
     Inr (word_of_nat (decode_nat [unat a, unat b, unat c, unat d]))"
proof -
  let ?w = "\<lambda>x :: byte. ucast x :: 32 word"
  have m6: "unat (?w x AND 0x3F) = unat x mod 64" and m5: "unat (?w x AND 0x1F) = unat x mod 32"
    and m4: "unat (?w x AND 0x0F) = unat x mod 16" and m3: "unat (?w x AND 0x07) = unat x mod 8" for x
    by (simp only: mask_consts unat_and_mask unat_ucast_byte, simp)+
  have l: "x mod 64 < (64::nat)" "x mod 32 < (32::nat)" "x mod 16 < (16::nat)" "x mod 8 < (8::nat)" for x
    by simp_all
  have d2: "unat (push_bit 6 (?w a AND 0x1F) OR (?w b AND 0x3F))
      = decode_nat [unat a, unat b]"
    using l(2) [of "unat a"] by (subst unat_shift_or) (simp_all add: m6 m5)
  have two: "unat (push_bit 6 (?w x AND 0x3F) OR (?w y AND 0x3F))
      = unat x mod 64 * 64 + unat y mod 64" for x y
    using l(1) [of "unat x"] by (subst unat_shift_or) (simp_all add: m6)
  have two': "unat x mod 64 * 64 + unat y mod 64 < 4096" for x y :: byte
    using l(1) [of "unat x"] l(1) [of "unat y"] by linarith
  have three: "unat (push_bit 12 (?w x AND 0x3F) OR push_bit 6 (?w y AND 0x3F) OR (?w z AND 0x3F))
      = unat x mod 64 * 4096 + (unat y mod 64 * 64 + unat z mod 64)" for x y z
    using l(1) [of "unat x"] two' [of y z] by (subst unat_shift_or) (simp_all add: m6 two del: push_bit_and)
  have three': "unat x mod 64 * 4096 + (unat y mod 64 * 64 + unat z mod 64) < 262144" for x y z :: byte
    using l(1) [of "unat x"] two' [of y z] by linarith
  have d3: "unat (push_bit 12 (?w a AND 0x0F) OR push_bit 6 (?w b AND 0x3F) OR (?w c AND 0x3F))
      = decode_nat [unat a, unat b, unat c]"
    using l(3) [of "unat a"] two' [of b c] by (subst unat_shift_or) (simp_all add: m4 two del: push_bit_and)
  have d4: "unat (push_bit 18 (?w a AND 0x07) OR push_bit 12 (?w b AND 0x3F)
        OR push_bit 6 (?w c AND 0x3F) OR (?w d AND 0x3F))
      = decode_nat [unat a, unat b, unat c, unat d]"
    using l(4) [of "unat a"] three' [of b c d] by (subst unat_shift_or) (simp_all add: m3 three del: push_bit_and)
  show "oi_cli_utf8_decode [a] = Inr (word_of_nat (decode_nat [unat a]))"
    by (simp add: oi_cli_utf8_decode_def Let_def unsigned_ucast_eq word_unat_eq_iff)
  show "oi_cli_utf8_decode [a, b] = Inr (word_of_nat (decode_nat [unat a, unat b]))"
    by (simp only: d2 [symmetric]) (simp add: oi_cli_utf8_decode_def Let_def)
  show "oi_cli_utf8_decode [a, b, c] = Inr (word_of_nat (decode_nat [unat a, unat b, unat c]))"
    by (simp only: d3 [symmetric]) (simp add: oi_cli_utf8_decode_def Let_def)
  show "oi_cli_utf8_decode [a, b, c, d] =
     Inr (word_of_nat (decode_nat [unat a, unat b, unat c, unat d]))"
    by (simp only: d4 [symmetric]) (simp add: oi_cli_utf8_decode_def Let_def)
qed

lemma word_of_unat: "unat a = n \<Longrightarrow> word_of_nat n = (a :: byte)"
  by auto

lemma encode1: "unat a < 128 \<Longrightarrow> utf8_encode (decode_nat [unat a]) = [a]"
  by (simp add: utf8_encode_def)


lemma cont_obtain:
  assumes "is_continuation b" obtains x where "unat b = 0x80 + x" "x < 64"
  using assms that [of "unat b - 0x80"] by (auto simp: is_continuation_iff)

lemma cont_mod: "(0x80 + x) mod 64 = x mod (64::nat)"
  using mod_mult_self1 [of x 2 64] by (simp add: add.commute)

lemma byte_offset:
  assumes "k \<le> unat a" "unat a < k + n" obtains x where "unat a = k + x" "x < n"
  using assms that [of "unat a - k"] by auto


lemma lead_mod: "k = q * m + r \<Longrightarrow> x + r < m \<Longrightarrow> (k + x) mod m = x + (r::nat)"
  by (metis add.assoc add.commute mod_less mod_mult_self3)


lemma digit64: "n = p * 64 + y \<Longrightarrow> y < 64 \<Longrightarrow> n div 64 = p \<and> n mod 64 = (y :: nat)"
  by simp

lemma utf8_encode_2:
  assumes cp: "cp = p * 64 + y" and "y < 64" "2 \<le> p" "p < 32"
  shows "utf8_encode cp = [word_of_nat (0xC0 + p), word_of_nat (0x80 + y)] \<and> scalar_value cp"
proof -
  have "\<not> cp < 128" "cp < 2048" using assms by linarith+
  with digit64 [OF cp] assms(2) show ?thesis
    unfolding utf8_encode_def scalar_value_def by simp
qed

lemma utf8_encode_3:
  assumes cp: "cp = q * 64 + z" and q: "q = p * 64 + y" and d: "z < 64" "y < 64" "p < 16"
    and r: "p = 0 \<Longrightarrow> 32 \<le> y" "p = 13 \<Longrightarrow> y < 32"
  shows "utf8_encode cp = [word_of_nat (0xE0 + p), word_of_nat (0x80 + y), word_of_nat (0x80 + z)]
    \<and> scalar_value cp"
proof -
  have lo: "\<not> cp < 128" "\<not> cp < 2048" using assms by (cases "p = 0"; linarith)+
  have hi: "cp < 65536" using assms by linarith
  have s: "\<not> (0xD800 \<le> cp \<and> cp \<le> 0xDFFF)"
  proof (cases "p = 13")
    case True
    with r(2) have "y < 32" by simp
    with True cp q d show ?thesis by simp
  next
    case False
    then have "p \<le> 12 \<or> 14 \<le> p" by auto
    with cp q d show ?thesis by auto
  qed
  have "cp div 4096 = p" using digit64 [OF cp d(1)] digit64 [OF q d(2)]
    by (simp add: div_mult2_eq [of cp 64 64, simplified])
  with lo hi s digit64 [OF cp d(1)] digit64 [OF q d(2)] show ?thesis
    unfolding utf8_encode_def scalar_value_def by simp
qed

lemma utf8_encode_4:
  assumes cp: "cp = s * 64 + w" and s: "s = q * 64 + z" and q: "q = p * 64 + y"
    and d: "w < 64" "z < 64" "y < 64" "p < 5"
    and r: "p = 0 \<Longrightarrow> 16 \<le> y" "p = 4 \<Longrightarrow> y < 16"
  shows "utf8_encode cp = [word_of_nat (0xF0 + p), word_of_nat (0x80 + y), word_of_nat (0x80 + z),
      word_of_nat (0x80 + w)] \<and> scalar_value cp"
proof -
  have lo: "\<not> cp < 128" "\<not> cp < 2048" "\<not> cp < 65536"
    using assms by (cases "p = 0"; linarith)+
  have hi: "cp < 0x110000"
  proof (cases "p = 4")
    case True
    with r(2) have "y < 16" by simp
    with True cp s q d show ?thesis by simp
  next
    case False
    with d(4) have "p \<le> 3" by simp
    with cp s q d show ?thesis by simp
  qed
  have "cp div 4096 = q" "cp div 262144 = p"
    using digit64 [OF cp d(1)] digit64 [OF s d(2)] digit64 [OF q d(3)]
    by (simp_all add: div_mult2_eq [of cp 64 64, simplified] div_mult2_eq [of cp 64 4096, simplified]
       div_mult2_eq [of s 64 64, simplified])
  with lo hi digit64 [OF cp d(1)] digit64 [OF s d(2)] digit64 [OF q d(3)] show ?thesis
    unfolding utf8_encode_def scalar_value_def by simp
qed

lemma encode2:
  assumes "0xC2 \<le> unat a" "unat a \<le> 0xDF" "is_continuation b"
  shows "scalar_value (decode_nat [unat a, unat b]) \<and>
    utf8_encode (decode_nat [unat a, unat b]) = [a, b]"
proof -
  obtain x where x: "unat a = 0xC2 + x" "x < 30" using assms(1,2) byte_offset [of "0xC2" a 30] by auto
  obtain y where y: "unat b = 0x80 + y" "y < 64" using assms(3) cont_obtain by blast
  have d: "decode_nat [unat a, unat b] = (x + 2) * 64 + y"
    using x y lead_mod [of 194 6 32 2 x] by (simp add: cont_mod)
  show ?thesis
    using utf8_encode_2 [OF d] x y word_of_unat [OF x(1)] word_of_unat [OF y(1)] by simp
qed

lemma encode3:
  assumes "0xE0 \<le> unat a" "unat a \<le> 0xEF" "is_continuation b" "is_continuation c"
    "unat a = 0xE0 \<longrightarrow> 0xA0 \<le> unat b" "unat a = 0xED \<longrightarrow> unat b \<le> 0x9F"
  shows "scalar_value (decode_nat [unat a, unat b, unat c]) \<and>
    utf8_encode (decode_nat [unat a, unat b, unat c]) = [a, b, c]"
proof -
  obtain x where x: "unat a = 0xE0 + x" "x < 16" using assms(1,2) byte_offset [of "0xE0" a 16] by auto
  obtain y where y: "unat b = 0x80 + y" "y < 64" using assms(3) cont_obtain by blast
  obtain z where z: "unat c = 0x80 + z" "z < 64" using assms(4) cont_obtain by blast
  have d: "decode_nat [unat a, unat b, unat c] = (x * 64 + y) * 64 + z"
    using x y z lead_mod [of 224 14 16 0 x] by (simp add: cont_mod)
  have "x = 0 \<Longrightarrow> 32 \<le> y" "x = 13 \<Longrightarrow> y < 32" using assms(5,6) x y by auto
  then show ?thesis
    using utf8_encode_3 [OF d refl z(2) y(2) x(2)] word_of_unat [OF x(1)] word_of_unat [OF y(1)]
      word_of_unat [OF z(1)] by simp
qed

lemma encode4:
  assumes "0xF0 \<le> unat a" "unat a \<le> 0xF4" "is_continuation b" "is_continuation c" "is_continuation d"
    "unat a = 0xF0 \<longrightarrow> 0x90 \<le> unat b" "unat a = 0xF4 \<longrightarrow> unat b \<le> 0x8F"
  shows "scalar_value (decode_nat [unat a, unat b, unat c, unat d]) \<and>
    utf8_encode (decode_nat [unat a, unat b, unat c, unat d]) = [a, b, c, d]"
proof -
  obtain x where x: "unat a = 0xF0 + x" "x < 5" using assms(1,2) byte_offset [of "0xF0" a 5] by auto
  obtain y where y: "unat b = 0x80 + y" "y < 64" using assms(3) cont_obtain by blast
  obtain z where z: "unat c = 0x80 + z" "z < 64" using assms(4) cont_obtain by blast
  obtain w where w: "unat d = 0x80 + w" "w < 64" using assms(5) cont_obtain by blast
  have d: "decode_nat [unat a, unat b, unat c, unat d] = ((x * 64 + y) * 64 + z) * 64 + w"
    using x y z w lead_mod [of 240 30 8 0 x] by (simp add: cont_mod)
  have "x = 0 \<Longrightarrow> 16 \<le> y" "x = 4 \<Longrightarrow> y < 16" using assms(6,7) x y by auto
  then show ?thesis
    using utf8_encode_4 [OF d refl refl w(2) z(2) y(2) x(2)] word_of_unat [OF x(1)]
      word_of_unat [OF y(1)] word_of_unat [OF z(1)] word_of_unat [OF w(1)] by simp
qed

lemma decode_nat_1: "scalar_value (unat (a::byte))"
  using byte_less_256 [of a] by (simp add: scalar_value_def del: byte_less_256)

lemma sequence_length_decode:
  assumes s: "oi_cli_utf8_sequence_length data = Inr n"
  shows "\<exists>cp. scalar_value cp \<and> take n data = utf8_encode cp \<and>
           oi_cli_utf8_decode (take n data) = Inr (word_of_nat cp)"
proof -
  have len: "1 \<le> n" "n \<le> 4" "n \<le> length data" using sequence_length_range [OF s] by auto
  then obtain a t where data: "data = a # t" by (cases data) auto
  note unf = s [unfolded data oi_cli_utf8_sequence_length_def oi_cli_utf8_lead_length_def Let_def]
  consider "n = 1" | "n = 2" | "n = 3" | "n = 4" using len by linarith
  then show ?thesis
  proof cases
    case 1
    with unf have "unat a < 128" by (auto simp: byte_nat split: if_splits)
    with 1 data encode1 [of a] show ?thesis
      by (intro exI [of _ "decode_nat [unat a]"]) (simp add: decode_unat decode_nat_1)
  next
    case 2
    with len data obtain b u where t: "t = b # u" by (cases t) auto
    from unf 2 t have "0xC2 \<le> unat a" "unat a \<le> 0xDF" "is_continuation b"
      by (auto simp: byte_nat split: if_splits)
    from encode2 [OF this] 2 data t show ?thesis
      by (intro exI [of _ "decode_nat [unat a, unat b]"]) (simp add: decode_unat del: decode_nat.simps)
  next
    case 3
    with len data obtain b c u where t: "t = b # c # u" by (cases t; cases "tl t") auto
    from unf 3 t have "0xE0 \<le> unat a" "unat a \<le> 0xEF" "is_continuation b" "is_continuation c"
      "unat a = 0xE0 \<longrightarrow> 0xA0 \<le> unat b" "unat a = 0xED \<longrightarrow> unat b \<le> 0x9F"
      by (auto simp: byte_nat split: if_splits)
    from encode3 [OF this] 3 data t show ?thesis
      by (intro exI [of _ "decode_nat [unat a, unat b, unat c]"])
         (simp add: decode_unat numeral_3_eq_3 del: decode_nat.simps)
  next
    case 4
    with len data obtain b c d u where t: "t = b # c # d # u"
      by (cases t; cases "tl t"; cases "tl (tl t)") auto
    from unf 4 t have "0xF0 \<le> unat a" "unat a \<le> 0xF4" "is_continuation b" "is_continuation c"
      "is_continuation d" "unat a = 0xF0 \<longrightarrow> 0x90 \<le> unat b" "unat a = 0xF4 \<longrightarrow> unat b \<le> 0x8F"
      by (auto simp: byte_nat split: if_splits)
    from encode4 [OF this] 4 data t show ?thesis
      by (intro exI [of _ "decode_nat [unat a, unat b, unat c, unat d]"])
         (simp add: decode_unat eval_nat_numeral del: decode_nat.simps)
  qed
qed

lemma cont_word: "y < 64 \<Longrightarrow> is_continuation (word_of_nat (0x80 + y))"
  by (simp add: is_continuation_iff unat_of_nat del: of_nat_add)

lemma unat_small: "n < 256 \<Longrightarrow> unat (word_of_nat n :: byte) = n"
  by (simp add: unat_of_nat)

lemmas sequence_defs = oi_cli_utf8_sequence_length_def oi_cli_utf8_lead_length_def Let_def byte_nat
  unat_small cont_word

lemma sequence_length_3:
  assumes "p < 16" "y < 64" "z < 64" "p = 0 \<Longrightarrow> 32 \<le> y" "p = 13 \<Longrightarrow> y < 32"
  shows "oi_cli_utf8_sequence_length
     (word_of_nat (0xE0 + p) # word_of_nat (0x80 + y) # word_of_nat (0x80 + z) # rest) = Inr 3"
  using assms by (cases "p = 0"; cases "p = 13") (simp_all add: sequence_defs del: of_nat_add)

lemma sequence_length_4:
  assumes "p < 5" "y < 64" "z < 64" "w < 64" "p = 0 \<Longrightarrow> 16 \<le> y" "p = 4 \<Longrightarrow> y < 16"
  shows "oi_cli_utf8_sequence_length (word_of_nat (0xF0 + p) # word_of_nat (0x80 + y)
     # word_of_nat (0x80 + z) # word_of_nat (0x80 + w) # rest) = Inr 4"
  using assms by (cases "p = 0"; cases "p = 4") (simp_all add: sequence_defs del: of_nat_add)

lemma sequence_length_encode:
  assumes "scalar_value cp"
  shows "oi_cli_utf8_sequence_length (utf8_encode cp @ rest) = Inr (length (utf8_encode cp))"
proof -
  consider "cp < 128" | "128 \<le> cp" "cp < 2048" | "2048 \<le> cp" "cp < 65536"
    | "65536 \<le> cp" "cp < 0x110000"
    using assms unfolding scalar_value_def by linarith
  then show ?thesis
  proof cases
    case 1
    then show ?thesis by (simp add: sequence_defs utf8_encode_def)
  next
    case 2
    then have "2 \<le> cp div 64" "cp div 64 < 32" by auto
    with 2 show ?thesis by (simp add: sequence_defs utf8_encode_def del: of_nat_add)
  next
    case 3
    then have r: "cp div 4096 < 16" by auto
    have q: "32 \<le> cp div 64 mod 64" if "cp div 4096 = 0"
      using 3 that by auto
    have s: "cp div 64 mod 64 < 32" if h: "cp div 4096 = 13"
    proof -
      have "cp div 64 div 64 = 13" using h by (simp add: div_mult2_eq [of cp 64 64, simplified])
      then have "cp div 64 = 13 * 64 + cp div 64 mod 64"
        using div_mult_mod_eq [of "cp div 64" 64] by simp
      moreover have "53248 \<le> cp" "cp < 57344" using h by auto
      then have "cp < 55296" using assms unfolding scalar_value_def by linarith
      then have "cp div 64 < 864" by auto
      ultimately show ?thesis by linarith
    qed
    show ?thesis
      using 3 sequence_length_3 [OF r _ _ q s, of "cp mod 64" rest]
      by (simp add: utf8_encode_def del: of_nat_add)
  next
    case 4
    then have r: "cp div 262144 < 5" by auto
    have q: "16 \<le> cp div 4096 mod 64" if "cp div 262144 = 0"
      using 4 that by auto
    have s: "cp div 4096 mod 64 < 16" if h: "cp div 262144 = 4"
    proof -
      have "cp div 4096 div 64 = 4" using h by (simp add: div_mult2_eq [of cp 4096 64, simplified])
      then have "cp div 4096 = 4 * 64 + cp div 4096 mod 64"
        using div_mult_mod_eq [of "cp div 4096" 64] by simp
      moreover have "cp div 4096 < 272" using 4 by auto
      ultimately show ?thesis by linarith
    qed
    show ?thesis
      using 4 sequence_length_4 [OF r _ _ _ q s, of "cp div 64 mod 64" "cp mod 64" rest]
      by (simp add: utf8_encode_def del: of_nat_add)
  qed
qed

lemma utf8_encode_length: "1 \<le> length (utf8_encode cp)" "length (utf8_encode cp) \<le> 4"
  by (simp_all add: utf8_encode_def)

lemma utf8_encode_nonempty [simp]: "utf8_encode cp \<noteq> []"
  by (simp add: utf8_encode_def)

lemma utf8_text_Nil [simp]: "utf8_text []"
  unfolding utf8_text_def by (rule exI [of _ "[]"]) simp

lemma utf8_text_encode: "scalar_value cp \<Longrightarrow> utf8_text data \<Longrightarrow> utf8_text (utf8_encode cp @ data)"
proof -
  assume c: "scalar_value cp" and "utf8_text data"
  then obtain cps where "\<forall>x \<in> set cps. scalar_value x" "data = concat (map utf8_encode cps)"
    by (auto simp: utf8_text_def)
  with c show ?thesis unfolding utf8_text_def by (intro exI [of _ "cp # cps"]) simp
qed

lemma utf8_text_append: "utf8_text xs \<Longrightarrow> utf8_text ys \<Longrightarrow> utf8_text (xs @ ys)"
  unfolding utf8_text_def
proof clarify
  fix a b assume "\<forall>x \<in> set a. scalar_value x" "\<forall>x \<in> set b. scalar_value x"
  then show "\<exists>cps. (\<forall>cp\<in>set cps. scalar_value cp) \<and>
      concat (map utf8_encode a) @ concat (map utf8_encode b) = concat (map utf8_encode cps)"
    by (intro exI [of _ "a @ b"]) auto
qed

lemma ascii_text: "\<forall>b \<in> set xs. b < 0x80 \<Longrightarrow> utf8_text xs"
proof (induction xs)
  case (Cons b xs)
  then have "unat b < 128" by (simp add: byte_nat)
  then have "utf8_encode (unat b) = [b]" "scalar_value (unat b)"
    by (simp_all add: utf8_encode_def scalar_value_def)
  with Cons utf8_text_encode [of "unat b" xs] show ?case by simp
qed simp

lemma validate_Nil: "oi_cli_utf8_validate [] = OI_OK"
  by (subst oi_cli_utf8_validate.simps) simp

lemma validate_encode:
  "scalar_value cp \<Longrightarrow>
     oi_cli_utf8_validate (utf8_encode cp @ rest) = oi_cli_utf8_validate rest"
  by (subst oi_cli_utf8_validate.simps) (simp add: sequence_length_encode)

lemma validate_text: "utf8_text data \<Longrightarrow> oi_cli_utf8_validate data = OI_OK"
proof -
  assume "utf8_text data"
  then obtain cps where c: "\<forall>cp \<in> set cps. scalar_value cp" "data = concat (map utf8_encode cps)"
    by (auto simp: utf8_text_def)
  from c(1) have "oi_cli_utf8_validate (concat (map utf8_encode cps)) = OI_OK"
    by (induction cps) (simp_all add: validate_encode validate_Nil)
  with c(2) show ?thesis by simp
qed

lemma text_validate: "oi_cli_utf8_validate data = OI_OK \<Longrightarrow> utf8_text data"
proof (induction data rule: oi_cli_utf8_validate.induct)
  case (1 data)
  show ?case
  proof (cases "data = []")
    case False
    with "1.prems" obtain n where n: "oi_cli_utf8_sequence_length data = Inr n"
      "oi_cli_utf8_validate (drop n data) = OI_OK"
      by (subst (asm) oi_cli_utf8_validate.simps)
         (auto split: sum.splits dest: sequence_length_err)
    from sequence_length_decode [OF n(1)] obtain cp
      where "scalar_value cp" "take n data = utf8_encode cp" by blast
    moreover have "utf8_text (drop n data)" using "1.IH" False n by blast
    ultimately show ?thesis
      using utf8_text_encode [of cp "drop n data"] by (metis append_take_drop_id)
  qed simp
qed

lemma validate_iff: "oi_cli_utf8_validate data = OI_OK \<longleftrightarrow> utf8_text data"
  using validate_text text_validate by blast

lemma validate_result: "oi_cli_utf8_validate data \<in> {OI_OK, OI_ERR_PARSE}"
proof (induction data rule: oi_cli_utf8_validate.induct)
  case (1 data)
  then show ?case
    by (subst oi_cli_utf8_validate.simps) (auto split: sum.splits dest: sequence_length_err)
qed

section \<open>Boundaries\<close>

lemma lead_not_continuation:
  "oi_cli_utf8_lead_length b = Inr n \<Longrightarrow> \<not> is_continuation b"
  by (auto simp: oi_cli_utf8_lead_length_def is_continuation_iff byte_nat split: if_splits)

lemma lead_Inr: "oi_cli_utf8_sequence_length data = Inr n \<Longrightarrow>
    oi_cli_utf8_lead_length (data ! 0) = Inr n"
  by (auto simp: oi_cli_utf8_sequence_length_def Let_def split: sum.splits if_splits)

lemma tail_continuation:
  "oi_cli_utf8_sequence_length data = Inr n \<Longrightarrow> 0 < i \<Longrightarrow> i < n \<Longrightarrow> is_continuation (data ! i)"
proof -
  assume s: "oi_cli_utf8_sequence_length data = Inr n" and i: "0 < i" "i < n"
  have "n \<le> 4" using sequence_length_range [OF s] by simp
  with i have "(i = 1 \<and> 2 \<le> n) \<or> (i = 2 \<and> 3 \<le> n) \<or> (i = 3 \<and> n = 4)" by auto
  with s i show ?thesis
    by (auto simp: oi_cli_utf8_sequence_length_def Let_def split: sum.splits if_splits)
qed

lemma skip_back_stop:
  "s \<le> k \<Longrightarrow> \<not> is_continuation (data ! s) \<Longrightarrow>
   (\<And>i. s < i \<Longrightarrow> i \<le> k \<Longrightarrow> is_continuation (data ! i)) \<Longrightarrow> skip_back data k = s"
  by (induction k) (auto simp: le_Suc_eq)

lemma next_boundary_encode:
  "scalar_value cp \<Longrightarrow>
   oi_cli_utf8_next_boundary (pre @ utf8_encode cp @ post) (length pre)
     = Inr (length pre + length (utf8_encode cp))"
  by (simp add: oi_cli_utf8_next_boundary_def sequence_length_encode)

lemma previous_boundary_encode:
  assumes cp: "scalar_value cp"
  shows "oi_cli_utf8_previous_boundary (pre @ utf8_encode cp @ post)
      (length pre + length (utf8_encode cp)) = Inr (length pre)"
proof -
  let ?e = "utf8_encode cp" and ?d = "pre @ utf8_encode cp @ post"
  have s: "oi_cli_utf8_sequence_length (?e @ []) = Inr (length ?e)"
    by (rule sequence_length_encode [OF cp])
  have n: "1 \<le> length ?e" by (rule utf8_encode_length)
  have "skip_back ?d (length pre + length ?e - 1) = length pre"
  proof (rule skip_back_stop)
    show "length pre \<le> length pre + length ?e - 1" using n by simp
    show "\<not> is_continuation (?d ! length pre)"
      using lead_not_continuation [OF lead_Inr [OF s]] n by (simp add: nth_append)
  next
    fix i assume i: "length pre < i" "i \<le> length pre + length ?e - 1"
    then have "is_continuation ((?e @ []) ! (i - length pre))"
      by (intro tail_continuation [OF s]) (use n in linarith)+
    moreover have "i - length pre < length ?e" using i n by linarith
    ultimately show "is_continuation (?d ! i)" using i by (simp add: nth_append)
  qed
  with n s show ?thesis
    by (simp add: oi_cli_utf8_previous_boundary_def Let_def)
qed

lemma ascii_in_encode:
  assumes "scalar_value cp" and "b < 0x80"
  shows "b \<in> set (utf8_encode cp) \<longleftrightarrow> cp = unat b"
proof -
  have b: "unat b < 128" using assms(2) by (simp add: byte_nat)
  have big: "b \<noteq> word_of_nat n" if "128 \<le> n" "n < 256" for n
    using b that by (auto simp: unat_of_nat)
  have "cp < 0x110000" using assms(1) by (simp add: scalar_value_def)
  then have d: "cp div 262144 < 8" "cp div 4096 < 16 \<or> 0x10000 \<le> cp" "cp div 64 < 32 \<or> 0x800 \<le> cp" by auto
  show ?thesis
  proof (cases "cp < 0x80")
    case True
    then show ?thesis by (auto simp: utf8_encode_def unat_of_nat)
  next
    case False
    have m: "n mod 64 < 64" for n :: nat by simp
    have "b \<notin> set (utf8_encode cp)"
      using False d big [of "0xC0 + cp div 64"] big [of "0xE0 + cp div 4096"] big [of "0xF0 + cp div 262144"]
        big [of "0x80 + cp mod 64"] big [of "0x80 + cp div 64 mod 64"] big [of "0x80 + cp div 4096 mod 64"]
        m [of cp] m [of "cp div 64"] m [of "cp div 4096"]
      by (auto simp: utf8_encode_def simp del: of_nat_add)
    moreover have "cp \<noteq> unat b" using b False by simp
    ultimately show ?thesis by simp
  qed
qed

lemma text_cases:
  assumes "utf8_text data" "data \<noteq> []"
  obtains cp rest where "scalar_value cp" "data = utf8_encode cp @ rest" "utf8_text rest"
proof -
  from assms(1) obtain cps where c: "\<forall>cp \<in> set cps. scalar_value cp"
      "data = concat (map utf8_encode cps)"
    by (auto simp: utf8_text_def)
  with assms(2) obtain cp cps' where "cps = cp # cps'" by (cases cps) auto
  with c show thesis by (intro that [of cp "concat (map utf8_encode cps')"])
      (auto simp: utf8_text_def)
qed

lemma unat_cont: "unat (word_of_nat (128 + x mod 64) :: byte) = 128 + x mod 64"
  by (rule unat_small) (use mod_less_divisor [of 64 x] in linarith)

lemma decode_encode:
  assumes "scalar_value cp"
  shows "oi_cli_utf8_decode (utf8_encode cp) = Inr (word_of_nat cp)"
proof -
  have j: "cp div 4096 * 4096 + cp div 64 mod 64 * 64 + cp mod 64 = cp"
    using div_mult_mod_eq [of "cp div 64" 64] div_mult_mod_eq [of cp 64]
    unfolding div_mult2_eq [of cp 64 64, simplified] by linarith
  have k: "cp div 262144 * 262144 + cp div 4096 mod 64 * 4096 + cp div 64 mod 64 * 64 + cp mod 64 = cp"
    using div_mult_mod_eq [of "cp div 4096" 64] j
    unfolding div_mult2_eq [of cp 4096 64, simplified] by linarith
  consider "cp < 128" | "128 \<le> cp" "cp < 2048" | "2048 \<le> cp" "cp < 65536"
    | "65536 \<le> cp" "cp < 0x110000"
    using assms unfolding scalar_value_def by linarith
  then show ?thesis
  proof cases
    case 1
    then show ?thesis by (simp add: utf8_encode_def decode_unat unat_small)
  next
    case 2
    then have "cp div 64 + 0 < 32" by auto
    from lead_mod [OF _ this, of 192 6] 2 show ?thesis
      by (simp add: utf8_encode_def decode_unat unat_small cont_mod del: of_nat_add)
  next
    case 3
    then have "cp div 4096 + 0 < 16" by auto
    from lead_mod [OF _ this, of 224 14] 3 this j show ?thesis
      by (simp add: utf8_encode_def decode_unat unat_small cont_mod del: of_nat_add)
  next
    case 4
    then have r: "cp div 262144 + 0 < 8" "cp div 262144 < 5" by auto
    from lead_mod [OF _ r(1), of 240 30] 4 r(2) k show ?thesis
      by (simp add: utf8_encode_def decode_unat unat_small unat_cont cont_mod del: of_nat_add)
  qed
qed

section \<open>Properties\<close>

text \<open>
  C16. \<open>oi_cli_utf8_validate\<close> accepts exactly the well-formed UTF-8 of RFC 3629: the concatenations
  of encodings of scalar values, so no overlong form, no surrogate and nothing above U+10FFFF.
\<close>

theorem utf8_validate_correct:
  "oi_cli_utf8_validate data = OI_OK \<longleftrightarrow>
     (\<exists>cps. (\<forall>cp \<in> set cps. scalar_value cp) \<and> data = concat (map utf8_encode cps))"
  by (simp add: validate_iff utf8_text_def)

theorem utf8_validate_correct_witness: "oi_cli_utf8_validate [0xC3, 0xA9, 0x41] = OI_OK"
proof -
  have "(\<forall>cp \<in> set [0xE9, 0x41]. scalar_value cp) \<and> [0xC3, 0xA9, 0x41] = concat (map utf8_encode [0xE9, 0x41])"
    by (simp add: scalar_value_def utf8_encode_def)
  then show ?thesis by (subst utf8_validate_correct) blast
qed

text \<open>
  Reading the encoding of any scalar value, whatever bytes follow, finds its length and decodes
  back to the value.
\<close>

theorem utf8_decode_roundtrip:
  assumes "scalar_value cp"
  shows "oi_cli_utf8_sequence_length (utf8_encode cp @ rest) = Inr (length (utf8_encode cp))
    \<and> oi_cli_utf8_decode (utf8_encode cp) = Inr (word_of_nat cp)"
  using assms by (simp add: sequence_length_encode decode_encode)

theorem utf8_decode_roundtrip_witness:
  "oi_cli_utf8_sequence_length ([0xE2, 0x82, 0xAC] @ [0x41]) = Inr 3
    \<and> oi_cli_utf8_decode [0xE2, 0x82, 0xAC] = Inr 0x20AC"
proof -
  have e: "utf8_encode 0x20AC = [0xE2, 0x82, 0xAC]" by (simp add: utf8_encode_def)
  have "scalar_value 0x20AC" by (simp add: scalar_value_def)
  from utf8_decode_roundtrip [OF this, of "[0x41]"] show ?thesis by (simp add: e)
qed

text \<open>
  Cursor movement over well-formed text: from every code point boundary before the end,
  \<open>next_boundary\<close> moves to a boundary further on, and \<open>previous_boundary\<close> moves back to exactly
  where it came from.
\<close>

theorem boundary_moves_inverse:
  assumes "utf8_text (take off data)" and "utf8_text (drop off data)" and "off < length data"
  shows "\<exists>off'. oi_cli_utf8_next_boundary data off = Inr off' \<and> off < off' \<and> off' \<le> length data
    \<and> utf8_text (take off' data) \<and> utf8_text (drop off' data)
    \<and> oi_cli_utf8_previous_boundary data off' = Inr off"
proof -
  from assms(2,3) obtain cp rest
    where cp: "scalar_value cp" "drop off data = utf8_encode cp @ rest" "utf8_text rest"
    by (metis text_cases drop_eq_Nil linorder_not_le)
  let ?pre = "take off data" and ?n = "length (utf8_encode cp)"
  have d: "data = ?pre @ utf8_encode cp @ rest" using cp(2) by (metis append_take_drop_id)
  have l: "length ?pre = off" using assms(3) by simp
  have gen: "take (off + length e) (p @ e @ r) = p @ e \<and> drop (off + length e) (p @ e @ r) = r"
    if "length p = off" for p e r :: bytes using that by simp
  have "take (off + ?n) data = ?pre @ utf8_encode cp" "drop (off + ?n) data = rest"
    using gen [OF l, of "utf8_encode cp" rest] unfolding d [symmetric] by blast+
  moreover have "off + ?n \<le> length data" 
    using arg_cong [OF d, of length] l by (simp only: length_append)
  moreover have "utf8_text (?pre @ utf8_encode cp)"
    using utf8_text_append [OF assms(1)] utf8_text_encode [OF cp(1) utf8_text_Nil] by simp
  ultimately show ?thesis
    using next_boundary_encode [OF cp(1), of ?pre rest] previous_boundary_encode [OF cp(1), of ?pre rest]
      cp(3) utf8_encode_length(1) [of cp]
    unfolding d [symmetric] l by (intro exI [of _ "off + ?n"]) simp
qed

theorem boundary_moves_inverse_witness:
  "\<exists>off'. oi_cli_utf8_next_boundary [0xC3, 0xA9, 0x41] 0 = Inr off' \<and> 0 < off'
    \<and> off' \<le> length [0xC3, 0xA9, 0x41 :: byte]
    \<and> utf8_text (take off' [0xC3, 0xA9, 0x41]) \<and> utf8_text (drop off' [0xC3, 0xA9, 0x41])
    \<and> oi_cli_utf8_previous_boundary [0xC3, 0xA9, 0x41] off' = Inr 0"
proof (rule boundary_moves_inverse)
  show "utf8_text (take 0 [0xC3, 0xA9, 0x41])" by simp
  have "utf8_text (utf8_encode 0xE9 @ utf8_encode 0x41 @ [])"
    by (intro utf8_text_encode utf8_text_Nil) (simp_all add: scalar_value_def)
  then show "utf8_text (drop 0 [0xC3, 0xA9, 0x41])" by (simp add: utf8_encode_def)
qed simp

end
