(* ===== verification/Bytebuf.thy ===== *)
theory Bytebuf
  imports Prelude
begin

text \<open>
  \<open>src/cli_bytebuf.c\<close>: the growable byte buffer of the rendering pipeline. \<open>len\<close> is the length of
  \<open>bb_data\<close>; \<open>bb_heap\<close> holds the answers \<open>realloc\<close> will give to this buffer.
\<close>

record bytebuf =
  bb_data :: bytes
  bb_cap :: nat
  bb_heap :: heap

definition oi_cli_bytebuf_init :: "heap \<Rightarrow> bytebuf" where
  "oi_cli_bytebuf_init h = \<lparr>bb_data = [], bb_cap = 0, bb_heap = h\<rparr>"

definition oi_cli_bytebuf_append :: "bytebuf \<Rightarrow> bytes \<Rightarrow> oi_status \<times> bytebuf" where
  "oi_cli_bytebuf_append buf xs =
     (if length xs > size_max - length (bb_data buf) then (OI_ERR_NOMEM, buf)
      else let required = length (bb_data buf) + length xs in
        if required \<le> bb_cap buf then (OI_OK, buf\<lparr>bb_data := bb_data buf @ xs\<rparr>)
        else (case grow_cap (if bb_cap buf = 0 then 128 else bb_cap buf) required of
                None \<Rightarrow> (OI_ERR_NOMEM, buf)
              | Some cap \<Rightarrow>
                  if \<not> shd (bb_heap buf) then (OI_ERR_NOMEM, buf\<lparr>bb_heap := stl (bb_heap buf)\<rparr>)
                  else (OI_OK, buf\<lparr>bb_data := bb_data buf @ xs, bb_cap := cap,
                                   bb_heap := stl (bb_heap buf)\<rparr>)))"

definition oi_cli_bytebuf_reset :: "bytebuf \<Rightarrow> bytebuf" where
  "oi_cli_bytebuf_reset buf = buf\<lparr>bb_data := []\<rparr>"

definition oi_cli_bytebuf_free :: "bytebuf \<Rightarrow> bytebuf" where
  "oi_cli_bytebuf_free buf = buf\<lparr>bb_data := [], bb_cap := 0\<rparr>"

lemma bytebuf_init_sel [simp]:
  "bb_data (oi_cli_bytebuf_init h) = []" "bb_heap (oi_cli_bytebuf_init h) = h"
  by (simp_all add: oi_cli_bytebuf_init_def)

section \<open>Contract\<close>

interpretation bytebuf: append_buffer oi_cli_bytebuf_append bb_data
  by unfold_locales
     (auto simp: oi_cli_bytebuf_append_def Let_def split: if_splits option.splits)

text \<open>The memory the buffer owns always holds its contents.\<close>

definition bytebuf_inv :: "bytebuf \<Rightarrow> bool" where
  "bytebuf_inv buf \<longleftrightarrow> length (bb_data buf) \<le> bb_cap buf \<and> bb_cap buf \<le> size_max"

lemma bytebuf_inv_init [simp]: "bytebuf_inv (oi_cli_bytebuf_init h)"
  by (simp add: bytebuf_inv_def oi_cli_bytebuf_init_def)

lemma bytebuf_inv_append:
  "bytebuf_inv buf \<Longrightarrow> bytebuf_inv (snd (oi_cli_bytebuf_append buf xs))"
  by (auto simp: bytebuf_inv_def oi_cli_bytebuf_append_def Let_def size_max_def
      dest: grow_cap_Some grow_cap_bound split: option.splits)

lemma bytebuf_inv_reset: "bytebuf_inv buf \<Longrightarrow> bytebuf_inv (oi_cli_bytebuf_reset buf)"
  by (simp add: bytebuf_inv_def oi_cli_bytebuf_reset_def)

lemma bytebuf_inv_free: "bytebuf_inv (oi_cli_bytebuf_free buf)"
  by (simp add: bytebuf_inv_def oi_cli_bytebuf_free_def)

text \<open>While the allocator does not fail, an append of a size that can exist succeeds.\<close>

lemma bytebuf_append_total:
  assumes "bb_heap buf = heap_ok" and "length (bb_data buf) + length xs \<le> size_max div 2"
  obtains c where "oi_cli_bytebuf_append buf xs
    = (OI_OK, buf\<lparr>bb_data := bb_data buf @ xs, bb_cap := c, bb_heap := heap_ok\<rparr>)"
proof -
  have n: "\<not> length xs > size_max - length (bb_data buf)"
    using assms(2) by (simp add: size_max_def)
  have "0 < (if bb_cap buf = 0 then 128 else bb_cap buf)" by simp
  from grow_cap_enough [OF this assms(2)]
  obtain c where g: "grow_cap (if bb_cap buf = 0 then 128 else bb_cap buf)
      (length (bb_data buf) + length xs) = Some c" by blast
  show thesis
  proof (cases "length (bb_data buf) + length xs \<le> bb_cap buf")
    case True
    then have "oi_cli_bytebuf_append buf xs
      = (OI_OK, buf\<lparr>bb_data := bb_data buf @ xs, bb_cap := bb_cap buf, bb_heap := heap_ok\<rparr>)"
      using n assms(1) by (simp add: oi_cli_bytebuf_append_def)
    then show ?thesis by (rule that)
  next
    case False
    then have "oi_cli_bytebuf_append buf xs
      = (OI_OK, buf\<lparr>bb_data := bb_data buf @ xs, bb_cap := c, bb_heap := heap_ok\<rparr>)"
      using n g assms(1) by (simp add: oi_cli_bytebuf_append_def)
    then show ?thesis by (rule that)
  qed
qed

end
