(* ===== verification/Byte_Filter.thy ===== *)
theory Byte_Filter
  imports Bytebuf
begin

text \<open>
  The interface shared by the two filters of the rendering pipeline (\<open>oi_cli_utf8_stream_feed\<close> and
  \<open>oi_cli_sanitize_feed\<close>). Both run the same loop: while the filter is idle a run of plain bytes is
  copied with one append, every other byte goes through a step that may ask to see its byte again.
  The contract relates the step to a byte-at-a-time specification without buffer; the lemmas lift it
  to the loop.
\<close>

locale byte_filter =
  fixes idle :: "'s \<Rightarrow> bool"
    and plain :: "byte \<Rightarrow> bool"
    and one :: "'s \<Rightarrow> byte \<Rightarrow> bytebuf \<Rightarrow> oi_status \<times> 's \<times> bytebuf \<times> bool"
    and feed :: "'s \<Rightarrow> bytes \<Rightarrow> bytebuf \<Rightarrow> oi_status \<times> 's \<times> bytebuf"
    and spec :: "'s \<Rightarrow> byte \<Rightarrow> 's \<times> bytes"
    and specs :: "'s \<Rightarrow> bytes \<Rightarrow> 's \<times> bytes"
    and inv :: "'s \<Rightarrow> bool"
    and cost :: "'s \<Rightarrow> nat"
    and width :: nat
  assumes feed_Nil: "feed s [] out = (OI_OK, s, out)"
    and feed_run: "idle s \<Longrightarrow> plain b \<Longrightarrow>
          oi_cli_bytebuf_append out (takeWhile plain (b # bs)) = (st1, out1) \<Longrightarrow>
          feed s (b # bs) out
            = (if st1 \<noteq> OI_OK then (st1, s, out1) else feed s (dropWhile plain (b # bs)) out1)"
    and feed_step: "\<not> (idle s \<and> plain b) \<Longrightarrow> one s b out = (st1, s1, out1, r) \<Longrightarrow>
          feed s (b # bs) out
            = (if st1 \<noteq> OI_OK then (st1, s1, out1)
               else if r then feed s1 (b # bs) out1 else feed s1 bs out1)"
    and specs_Nil: "specs s [] = (s, [])"
    and specs_Cons: "specs s (b # bs) =
          (case spec s b of (s', e) \<Rightarrow> (case specs s' bs of (s'', e') \<Rightarrow> (s'', e @ e')))"
    and reprocess: "one s b out = (OI_OK, s', out', True) \<Longrightarrow> \<not> idle s \<and> idle s'"
    and spec_plain: "idle s \<Longrightarrow> plain b \<Longrightarrow> spec s b = (s, [b])"
    and one_spec: "one s b out = (OI_OK, s', out', r) \<Longrightarrow>
          \<exists>e. bb_data out' = bb_data out @ e \<and>
              spec s b = (if r then (case spec s' b of (s'', e') \<Rightarrow> (s'', e @ e')) else (s', e))"
    and one_inv: "inv s \<Longrightarrow> one s b out = (st, s', out', r) \<Longrightarrow> inv s'"
    and one_total: "bb_heap out = heap_ok \<Longrightarrow> inv s \<Longrightarrow>
          length (bb_data out) + cost s + width \<le> size_max div 2 \<Longrightarrow>
          \<exists>s' out' r. one s b out = (OI_OK, s', out', r) \<and> bb_heap out' = heap_ok \<and>
            length (bb_data out') + cost s'
              \<le> length (bb_data out) + cost s + (if r then 0 else width)"
    and width_pos: "1 \<le> width"
begin

text \<open>Induction along the loop: a byte that is offered again counts as half a byte of progress.\<close>

lemma feed_induct:
  assumes Nil: "\<And>s out. P s [] out"
    and run: "\<And>s b bs out. idle s \<Longrightarrow> plain b \<Longrightarrow>
          (\<And>out'. P s (dropWhile plain (b # bs)) out') \<Longrightarrow> P s (b # bs) out"
    and step: "\<And>s b bs out. \<not> (idle s \<and> plain b) \<Longrightarrow>
          (\<And>s' out'. P s' bs out') \<Longrightarrow>
          (\<And>s' out'. one s b out = (OI_OK, s', out', True) \<Longrightarrow> P s' (b # bs) out') \<Longrightarrow>
          P s (b # bs) out"
  shows "P s xs out"
proof (induction "2 * length xs + (if idle s then 0 else 1)" arbitrary: s xs out rule: less_induct)
  case (less s xs out)
  show ?case
  proof (cases xs)
    case Nil
    with assms(1) show ?thesis by simp
  next
    case (Cons b bs)
    show ?thesis
    proof (cases "idle s \<and> plain b")
      case True
      then have "length (dropWhile plain (b # bs)) \<le> length bs"
        using length_dropWhile_le [of plain bs] by simp
      then have lt: "2 * length (dropWhile plain (b # bs)) + k < 2 * length xs + k" for k
        by (simp add: Cons del: dropWhile.simps)
      show ?thesis unfolding Cons
      proof (rule run)
        fix out' show "P s (dropWhile plain (b # bs)) out'" by (rule less.hyps [OF lt])
      qed (use True in simp_all)
    next
      case False
      show ?thesis unfolding Cons
      proof (rule step [OF False])
        fix s' out'
        show "P s' bs out'" by (rule less.hyps) (simp add: Cons)
      next
        fix s' out'
        assume o: "one s b out = (OI_OK, s', out', True)"
        show "P s' (b # bs) out'"
          by (rule less.hyps) (use reprocess [OF o] in \<open>simp add: Cons\<close>)
      qed
    qed
  qed
qed

text \<open>What the append of a plain run and the step keep, the loop keeps.\<close>

lemma feed_invariant:
  assumes run: "\<And>s out xs. P s out \<Longrightarrow> \<forall>b \<in> set xs. plain b \<Longrightarrow>
        P s (snd (oi_cli_bytebuf_append out xs))"
    and one: "\<And>s b out st s' out' r. P s out \<Longrightarrow> one s b out = (st, s', out', r) \<Longrightarrow> P s' out'"
  shows "P s out \<Longrightarrow> feed s xs out = (st, s', out') \<Longrightarrow> P s' out'"
proof (induction s xs out rule: feed_induct)
  case (1 s out)
  then show ?case by (simp add: feed_Nil)
next
  case (2 s b bs out)
  obtain st1 out1 where a: "oi_cli_bytebuf_append out (takeWhile plain (b # bs)) = (st1, out1)"
    by fastforce
  have "P s (snd (oi_cli_bytebuf_append out (takeWhile plain (b # bs))))"
    by (rule run [OF "2.prems"(1) takeWhile_all])
  then have "P s out1" by (simp only: a snd_conv)
  then show ?case
    using "2.IH" [of out1] "2.prems"(2) feed_run [OF "2.hyps" a]
    by (cases "st1 = OI_OK") (simp_all del: dropWhile.simps)
next
  case (3 s b bs out)
  obtain st1 s1 out1 r where o: "one s b out = (st1, s1, out1, r)" by (metis surj_pair)
  have p: "P s1 out1" by (rule one [OF "3.prems"(1) o])
  show ?case
  proof (cases "st1 = OI_OK")
    case True
    with p "3.prems"(2) feed_step [OF "3.hyps" o, of bs] "3.IH"(1) [OF p] "3.IH"(2) [OF _ p] o
    show ?thesis by (cases r) simp_all
  next
    case False
    with p "3.prems"(2) feed_step [OF "3.hyps" o, of bs] show ?thesis by simp
  qed
qed

lemma feed_inv: "inv s \<Longrightarrow> feed s xs out = (st, s', out') \<Longrightarrow> inv s'"
  by (rule feed_invariant [of "\<lambda>s out. inv s"]) (auto dest: one_inv)

text \<open>The specification over lists, and the refinement.\<close>

lemma specs_append:
  "specs s (xs @ ys) =
     (case specs s xs of (s', e) \<Rightarrow> (case specs s' ys of (s'', e') \<Rightarrow> (s'', e @ e')))"
  by (induction xs arbitrary: s) (auto simp: specs_Nil specs_Cons split: prod.splits)

lemma specs_plain: "idle s \<Longrightarrow> \<forall>b \<in> set xs. plain b \<Longrightarrow> specs s xs = (s, xs)"
  by (induction xs) (simp_all add: specs_Nil specs_Cons spec_plain)

lemma feed_refines:
  "feed s xs out = (OI_OK, s', out') \<Longrightarrow>
     \<exists>e. specs s xs = (s', e) \<and> bb_data out' = bb_data out @ e"
proof (induction s xs out rule: feed_induct)
  case (1 s out)
  then show ?case by (simp add: feed_Nil specs_Nil)
next
  case (2 s b bs out)
  let ?run = "takeWhile plain (b # bs)" and ?rest = "dropWhile plain (b # bs)"
  obtain st1 out1 where a: "oi_cli_bytebuf_append out ?run = (st1, out1)" by fastforce
  from feed_run [OF "2.hyps" a] "2.prems" have ok: "st1 = OI_OK"
    and f: "feed s ?rest out1 = (OI_OK, s', out')"
    by (metis prod.inject)+
  from "2.IH" [OF f] obtain e where e: "specs s ?rest = (s', e)" "bb_data out' = bb_data out1 @ e"
    by blast
  have "specs s ?run = (s, ?run)"
    by (rule specs_plain [OF "2.hyps"(1) takeWhile_all])
  then have "specs s (?run @ ?rest) = (s', ?run @ e)"
    by (simp only: specs_append e(1) prod.case)
  then show ?case using e(2) bytebuf.append_ok [of out ?run out1] a ok
    by (intro exI [of _ "?run @ e"]) (simp only: takeWhile_dropWhile_id append_assoc simp_thms)
next
  case (3 s b bs out)
  obtain st1 s1 out1 r where o: "one s b out = (st1, s1, out1, r)" by (metis surj_pair)
  from feed_step [OF "3.hyps" o, of bs] "3.prems" have ok: "st1 = OI_OK"
    and f: "feed s1 (if r then b # bs else bs) out1 = (OI_OK, s', out')"
    by (auto split: if_splits)
  have "\<exists>e. specs s1 (if r then b # bs else bs) = (s', e) \<and> bb_data out' = bb_data out1 @ e"
    using "3.IH"(1) [of s1 out1] "3.IH"(2) [of s1 out1] o ok f by (cases r) auto
  with one_spec [OF o [unfolded ok]] show ?case
    by (cases r) (auto simp: specs_Cons split: prod.splits)
qed

lemma feed_total:
  "bb_heap out = heap_ok \<Longrightarrow> inv s \<Longrightarrow>
   length (bb_data out) + cost s + width * length xs \<le> size_max div 2 \<Longrightarrow>
   \<exists>s' out'. feed s xs out = (OI_OK, s', out') \<and> bb_heap out' = heap_ok
     \<and> length (bb_data out') + cost s' \<le> length (bb_data out) + cost s + width * length xs"
proof (induction s xs out rule: feed_induct)
  case (1 s out)
  then show ?case by (simp add: feed_Nil)
next
  case (2 s b bs out)
  define run rest where "run = takeWhile plain (b # bs)" and "rest = dropWhile plain (b # bs)"
  note d = this
  have l: "length run + length rest = length (b # bs)"
    unfolding d by (metis length_append takeWhile_dropWhile_id)
  then have w: "length run + width * length rest \<le> width * length (b # bs)"
    by (metis add_le_mono1 distrib_left mult_le_mono1 nat_mult_1 width_pos)
  then have "length (bb_data out) + length run \<le> size_max div 2"
    using "2.prems"(3) by linarith
  from bytebuf_append_total [OF "2.prems"(1) this]
  obtain c where a: "oi_cli_bytebuf_append out run
    = (OI_OK, out\<lparr>bb_data := bb_data out @ run, bb_cap := c, bb_heap := heap_ok\<rparr>)" .
  show ?case
    using "2.IH" [of "out\<lparr>bb_data := bb_data out @ run, bb_cap := c, bb_heap := heap_ok\<rparr>"]
      "2.prems" w feed_run [OF "2.hyps" a [unfolded d(1)]]
    unfolding d [symmetric] by fastforce
next
  case (3 s b bs out)
  have "length (bb_data out) + cost s + width \<le> size_max div 2"
    using "3.prems"(3) by simp
  from one_total [OF "3.prems"(1,2) this, of b]
  obtain s1 out1 r where o: "one s b out = (OI_OK, s1, out1, r)" "bb_heap out1 = heap_ok"
    "length (bb_data out1) + cost s1 \<le> length (bb_data out) + cost s + (if r then 0 else width)"
    by blast
  note i = one_inv [OF "3.prems"(2) o(1)]
  show ?case
    using "3.IH"(1) [of out1 s1] "3.IH"(2) [of s1 out1] o i "3.prems"(3)
      feed_step [OF "3.hyps" o(1), of bs]
    by (cases r) fastforce+
qed

text \<open>Chunking does not matter: two feeds are one feed of the concatenation.\<close>

lemma feed_chunks:
  assumes "bb_heap out = heap_ok" and "inv s"
    and "length (bb_data out) + cost s + width * (length xs + length ys) \<le> size_max div 2"
  shows "\<exists>s1 out1 s2 out2 out2'.
      feed s xs out = (OI_OK, s1, out1) \<and> feed s1 ys out1 = (OI_OK, s2, out2)
    \<and> feed s (xs @ ys) out = (OI_OK, s2, out2') \<and> bb_data out2' = bb_data out2
    \<and> (s2, bb_data out2) = (case specs s (xs @ ys) of (s', e) \<Rightarrow> (s', bb_data out @ e))"
proof -
  have sz: "length (bb_data out) + cost s + width * length xs + width * length ys \<le> size_max div 2"
    using assms(3) by (simp add: algebra_simps)
  obtain s1 out1 where 1: "feed s xs out = (OI_OK, s1, out1)" "bb_heap out1 = heap_ok"
    "length (bb_data out1) + cost s1 \<le> length (bb_data out) + cost s + width * length xs"
    using feed_total [OF assms(1,2), of xs] sz by force
  obtain s2 out2 where 2: "feed s1 ys out1 = (OI_OK, s2, out2)"
    using feed_total [OF 1(2) feed_inv [OF assms(2) 1(1)], of ys] 1(3) sz by force
  obtain s3 out3 where 3: "feed s (xs @ ys) out = (OI_OK, s3, out3)"
    using feed_total [OF assms(1,2), of "xs @ ys"] assms(3) by force
  from feed_refines [OF 1(1)] feed_refines [OF 2] feed_refines [OF 3] show ?thesis
    by (auto simp: 1(1) 2 3 specs_append)
qed

end

end
