(* ===== verification/Utf8_Stream.thy ===== *)
theory Utf8_Stream
  imports Utf8 Byte_Filter
begin

text \<open>
  \<open>src/cli_utf8_stream.c\<close>: the incremental fixer that carries a partial sequence across calls and
  replaces malformed input by U+FFFD. \<open>pending_len\<close> is the length of \<open>pending\<close>.
\<close>

record utf8_stream =
  pending :: bytes
  expected_len :: nat

definition replacement :: bytes where
  "replacement = [0xEF, 0xBF, 0xBD]"

definition oi_cli_utf8_stream_init :: utf8_stream where
  "oi_cli_utf8_stream_init = \<lparr>pending = [], expected_len = 0\<rparr>"

definition emit_replacement :: "bytebuf \<Rightarrow> oi_status \<times> bytebuf" where
  "emit_replacement out = oi_cli_bytebuf_append out replacement"

definition flush_pending :: "utf8_stream \<Rightarrow> bytebuf \<Rightarrow> oi_status \<times> utf8_stream \<times> bytebuf" where
  "flush_pending stream out =
     (let stream' = stream\<lparr>pending := []\<rparr> in
      if oi_cli_utf8_sequence_length (pending stream) \<noteq> Inr (length (pending stream))
      then (case emit_replacement out of (st, out') \<Rightarrow> (st, stream', out'))
      else (case oi_cli_bytebuf_append out (pending stream) of (st, out') \<Rightarrow> (st, stream', out')))"

text \<open>One byte; the last component says that the byte must be offered again.\<close>

definition feed_one ::
  "utf8_stream \<Rightarrow> byte \<Rightarrow> bytebuf \<Rightarrow> oi_status \<times> utf8_stream \<times> bytebuf \<times> bool" where
  "feed_one stream byte out =
     (if pending stream = [] then
        (case oi_cli_utf8_lead_length byte of
           Inl _ \<Rightarrow> (case emit_replacement out of (st, out') \<Rightarrow> (st, stream, out', False))
         | Inr lead_len \<Rightarrow>
             if lead_len = 1
             then (case oi_cli_bytebuf_append out [byte] of (st, out') \<Rightarrow> (st, stream, out', False))
             else (OI_OK, \<lparr>pending = [byte], expected_len = lead_len\<rparr>, out, False))
      else if \<not> is_continuation byte then
        (case emit_replacement out of (st, out') \<Rightarrow>
           (st, stream\<lparr>pending := []\<rparr>, out', st = OI_OK))
      else let stream' = stream\<lparr>pending := pending stream @ [byte]\<rparr> in
        if length (pending stream') < expected_len stream' then (OI_OK, stream', out, False)
        else (case flush_pending stream' out of (st, s'', out') \<Rightarrow> (st, s'', out', False)))"

lemma feed_one_reprocess:
  "feed_one s b out = (st, s', out', True) \<Longrightarrow> pending s \<noteq> [] \<and> pending s' = []"
  by (auto simp: feed_one_def Let_def split: if_splits sum.splits prod.splits)

text \<open>The loop over the input, with the shortcut that copies a run of ASCII bytes at once.\<close>

function oi_cli_utf8_stream_feed ::
  "utf8_stream \<Rightarrow> bytes \<Rightarrow> bytebuf \<Rightarrow> oi_status \<times> utf8_stream \<times> bytebuf" where
  "oi_cli_utf8_stream_feed stream [] out = (OI_OK, stream, out)"
| "oi_cli_utf8_stream_feed stream (b # bs) out =
     (if pending stream = [] \<and> b < 0x80 then
        (case oi_cli_bytebuf_append out (takeWhile (\<lambda>c. c < 0x80) (b # bs)) of (st, out') \<Rightarrow>
           if st \<noteq> OI_OK then (st, stream, out')
           else oi_cli_utf8_stream_feed stream (dropWhile (\<lambda>c. c < 0x80) (b # bs)) out')
      else (case feed_one stream b out of (st, stream', out', reprocess) \<Rightarrow>
           if st \<noteq> OI_OK then (st, stream', out')
           else if reprocess then oi_cli_utf8_stream_feed stream' (b # bs) out'
           else oi_cli_utf8_stream_feed stream' bs out'))"
  by pat_completeness auto
termination
  by (relation "measure (\<lambda>(s, bs, out). 2 * length bs + (if pending s = [] then 0 else 1))")
     (auto simp: less_Suc_eq_le drop_run dest: feed_one_reprocess [OF sym] split: if_splits)

definition oi_cli_utf8_stream_finish ::
  "utf8_stream \<Rightarrow> bytebuf \<Rightarrow> oi_status \<times> utf8_stream \<times> bytebuf" where
  "oi_cli_utf8_stream_finish stream out =
     (if pending stream = [] then (OI_OK, stream, out)
      else (case emit_replacement out of (st, out') \<Rightarrow> (st, stream\<lparr>pending := []\<rparr>, out')))"

section \<open>Specification\<close>

text \<open>
  The same filter without buffer, allocator or shortcut: each byte yields the bytes it releases.
\<close>

definition start_byte :: "utf8_stream \<Rightarrow> byte \<Rightarrow> utf8_stream \<times> bytes" where
  "start_byte s b =
     (case oi_cli_utf8_lead_length b of
        Inl _ \<Rightarrow> (s, replacement)
      | Inr n \<Rightarrow> if n = 1 then (s, [b]) else (\<lparr>pending = [b], expected_len = n\<rparr>, []))"

definition fix_byte :: "utf8_stream \<Rightarrow> byte \<Rightarrow> utf8_stream \<times> bytes" where
  "fix_byte s b =
     (if pending s = [] then start_byte s b
      else if \<not> is_continuation b then
        (case start_byte (s\<lparr>pending := []\<rparr>) b of (s', e) \<Rightarrow> (s', replacement @ e))
      else let p = pending s @ [b] in
        if length p < expected_len s then (s\<lparr>pending := p\<rparr>, [])
        else (s\<lparr>pending := []\<rparr>,
              if oi_cli_utf8_sequence_length p = Inr (length p) then p else replacement))"

fun fix_bytes :: "utf8_stream \<Rightarrow> bytes \<Rightarrow> utf8_stream \<times> bytes" where
  "fix_bytes s [] = (s, [])"
| "fix_bytes s (b # bs) =
     (case fix_byte s b of (s', e) \<Rightarrow> (case fix_bytes s' bs of (s'', e') \<Rightarrow> (s'', e @ e')))"

section \<open>The code refines the specification\<close>

lemma ascii_lead: "(b < 0x80) = (oi_cli_utf8_lead_length b = Inr 1)"
  by (auto simp: oi_cli_utf8_lead_length_def byte_nat)

lemma feed_one_refines:
  assumes "feed_one s b out = (OI_OK, s', out', r)"
  shows "\<exists>e. bb_data out' = bb_data out @ e \<and>
    fix_byte s b = (if r then (case fix_byte s' b of (s'', e') \<Rightarrow> (s'', e @ e')) else (s', e))"
  using assms
  by (auto simp: feed_one_def fix_byte_def start_byte_def flush_pending_def emit_replacement_def Let_def
      split del: if_split split: if_split_asm sum.split_asm prod.split_asm dest: bytebuf.append_ok)

lemma feed_run:
  "pending s = [] \<and> b < 0x80 \<Longrightarrow>
   oi_cli_bytebuf_append out (takeWhile (\<lambda>c. c < 0x80) (b # bs)) = (st1, out1) \<Longrightarrow>
   oi_cli_utf8_stream_feed s (b # bs) out = (if st1 \<noteq> OI_OK then (st1, s, out1)
     else oi_cli_utf8_stream_feed s (dropWhile (\<lambda>c. c < 0x80) (b # bs)) out1)"
  by (subst oi_cli_utf8_stream_feed.simps) (simp only: if_True prod.case simp_thms)

lemma feed_step:
  "\<not> (pending s = [] \<and> b < 0x80) \<Longrightarrow> feed_one s b out = (st1, s1, out1, r) \<Longrightarrow>
   oi_cli_utf8_stream_feed s (b # bs) out = (if st1 \<noteq> OI_OK then (st1, s1, out1)
     else if r then oi_cli_utf8_stream_feed s1 (b # bs) out1
     else oi_cli_utf8_stream_feed s1 bs out1)"
  by (subst oi_cli_utf8_stream_feed.simps) (simp only: if_False prod.case)

section \<open>The pending prefix fits its four bytes\<close>

definition utf8_stream_inv :: "utf8_stream \<Rightarrow> bool" where
  "utf8_stream_inv s \<longleftrightarrow> pending s = [] \<or> length (pending s) < expected_len s \<and> expected_len s \<le> 4"

lemma utf8_stream_inv_init [simp]: "utf8_stream_inv oi_cli_utf8_stream_init"
  by (simp add: utf8_stream_inv_def oi_cli_utf8_stream_init_def)

lemma feed_one_inv:
  "utf8_stream_inv s \<Longrightarrow> feed_one s b out = (st, s', out', r) \<Longrightarrow> utf8_stream_inv s'"
  by (auto simp: utf8_stream_inv_def feed_one_def flush_pending_def Let_def
      dest: lead_length_range split: if_splits sum.splits prod.splits)

section \<open>Well-formed output\<close>

lemma replacement_text: "utf8_text replacement"
proof -
  have "utf8_text (utf8_encode 0xFFFD @ [])"
    by (intro utf8_text_encode) (simp_all add: scalar_value_def)
  then show ?thesis by (simp add: utf8_encode_def replacement_def)
qed

lemma sequence_text: "oi_cli_utf8_sequence_length xs = Inr (length xs) \<Longrightarrow> utf8_text xs"
  using sequence_length_decode [of xs "length xs"] utf8_text_encode [OF _ utf8_text_Nil] by auto

lemma append_text:
  "utf8_text (bb_data out) \<Longrightarrow> utf8_text xs \<Longrightarrow>
     utf8_text (bb_data (snd (oi_cli_bytebuf_append out xs)))"
  by (simp add: bytebuf.append_contents utf8_text_append)

lemma feed_one_text:
  assumes "utf8_text (bb_data out)" and "feed_one s b out = (st, s', out', r)"
  shows "utf8_text (bb_data out')"
proof -
  have b1: "utf8_text [b]" if "oi_cli_utf8_lead_length b = Inr (Suc 0)"
    using ascii_text [of "[b]"] that by (simp add: ascii_lead)
  from assms show ?thesis
    using append_text [OF assms(1) replacement_text] append_text [OF assms(1) b1]
      append_text [OF assms(1) sequence_text, of "pending s @ [b]"]
    by (auto simp: feed_one_def flush_pending_def emit_replacement_def Let_def
        split del: if_split split: if_split_asm sum.split_asm prod.split_asm)
qed

section \<open>Totality\<close>

definition stream_cost :: "utf8_stream \<Rightarrow> nat" where
  "stream_cost s = (if pending s = [] then 0 else 3)"

lemma replacement_length [simp]: "length replacement = 3"
  by (simp add: replacement_def)

lemma feed_one_total:
  assumes "bb_heap out = heap_ok" "utf8_stream_inv s"
    "length (bb_data out) + stream_cost s + 3 \<le> size_max div 2"
  shows "\<exists>s' out' r. feed_one s b out = (OI_OK, s', out', r) \<and> bb_heap out' = heap_ok
    \<and> length (bb_data out') + stream_cost s' \<le> length (bb_data out) + stream_cost s + (if r then 0 else 3)"
proof -
  have rep: "\<exists>c. oi_cli_bytebuf_append out xs
      = (OI_OK, out\<lparr>bb_data := bb_data out @ xs, bb_cap := c, bb_heap := heap_ok\<rparr>)"
    if "length xs \<le> stream_cost s + 3" for xs
  proof -
    have "length (bb_data out) + length xs \<le> size_max div 2" using that assms(3) by linarith
    from bytebuf_append_total [OF assms(1) this] show ?thesis by blast
  qed
  obtain c where r1: "oi_cli_bytebuf_append out replacement
      = (OI_OK, out\<lparr>bb_data := bb_data out @ replacement, bb_cap := c, bb_heap := heap_ok\<rparr>)"
    using rep [of replacement] by auto
  obtain c where r2: "oi_cli_bytebuf_append out [b]
      = (OI_OK, out\<lparr>bb_data := bb_data out @ [b], bb_cap := c, bb_heap := heap_ok\<rparr>)"
    using rep [of "[b]"] by auto
  have "pending s \<noteq> [] \<Longrightarrow> \<exists>c. oi_cli_bytebuf_append out (pending s @ [b])
      = (OI_OK, out\<lparr>bb_data := bb_data out @ (pending s @ [b]), bb_cap := c, bb_heap := heap_ok\<rparr>)"
    by (rule rep) (use assms(2) in \<open>simp add: utf8_stream_inv_def stream_cost_def\<close>)
  then obtain c where r3: "pending s \<noteq> [] \<Longrightarrow> oi_cli_bytebuf_append out (pending s @ [b])
      = (OI_OK, out\<lparr>bb_data := bb_data out @ (pending s @ [b]), bb_cap := c, bb_heap := heap_ok\<rparr>)"
    by blast
  consider e where "pending s = []" "oi_cli_utf8_lead_length b = Inl e"
    | n where "pending s = []" "oi_cli_utf8_lead_length b = Inr n"
    | "pending s \<noteq> []" "\<not> is_continuation b"
    | "pending s \<noteq> []" "is_continuation b" "length (pending s @ [b]) < expected_len s"
    | "pending s \<noteq> []" "is_continuation b" "\<not> length (pending s @ [b]) < expected_len s"
    by (cases "oi_cli_utf8_lead_length b") blast+
  then show ?thesis
  proof cases
    case 1
    with r1 show ?thesis by (auto simp: feed_one_def emit_replacement_def stream_cost_def)
  next
    case 2
    with r2 assms(1) show ?thesis by (auto simp: feed_one_def stream_cost_def)
  next
    case 3
    with r1 show ?thesis by (auto simp: feed_one_def emit_replacement_def stream_cost_def)
  next
    case 4
    with assms(1) show ?thesis by (auto simp: feed_one_def stream_cost_def)
  next
    case 5
    then have "length (pending s) \<le> 3" using assms(2) by (simp add: utf8_stream_inv_def)
    with 5 r1 r3 show ?thesis
      by (auto simp: feed_one_def flush_pending_def emit_replacement_def Let_def stream_cost_def)
  qed
qed

section \<open>The interface\<close>

interpretation fixer: byte_filter "\<lambda>s. pending s = []" "\<lambda>b. b < 0x80" feed_one
    oi_cli_utf8_stream_feed fix_byte fix_bytes utf8_stream_inv stream_cost 3
proof (unfold_locales, goal_cases)
  case (2 s b out st1 out1 bs)
  then show ?case by (intro feed_run) simp_all
next
  case (3 s b out st1 s1 out1 r bs)
  then show ?case by (rule feed_step)
next
  case (6 s b out s' out')
  then show ?case by (auto dest: feed_one_reprocess)
next
  case (8 s b out s' out' r)
  then show ?case by (rule feed_one_refines)
next
  case (9 s b out st s' out' r)
  then show ?case by (rule feed_one_inv)
next
  case (10 out s b)
  then show ?case by (rule feed_one_total)
qed (auto simp: fix_byte_def start_byte_def ascii_lead)

lemma feed_text:
  "utf8_text (bb_data out) \<Longrightarrow> oi_cli_utf8_stream_feed s xs out = (st, s', out') \<Longrightarrow>
     utf8_text (bb_data out')"
  by (rule fixer.feed_invariant [of "\<lambda>s out. utf8_text (bb_data out)"])
     (auto intro: append_text ascii_text dest: feed_one_text)

lemma finish_text:
  "utf8_text (bb_data out) \<Longrightarrow>
     utf8_text (bb_data (snd (snd (oi_cli_utf8_stream_finish s out))))"
  using append_text [OF _ replacement_text, of out]
  by (auto simp: oi_cli_utf8_stream_finish_def emit_replacement_def split: prod.splits)

lemma finish_total:
  assumes "bb_heap out = heap_ok" "length (bb_data out) + stream_cost s \<le> size_max div 2"
  shows "\<exists>out'. oi_cli_utf8_stream_finish s out = (OI_OK, s\<lparr>pending := []\<rparr>, out')
    \<and> bb_data out' = bb_data out @ (if pending s = [] then [] else replacement)"
proof (cases "pending s = []")
  case True
  then show ?thesis by (simp add: oi_cli_utf8_stream_finish_def)
next
  case False
  with assms have "length (bb_data out) + length replacement \<le> size_max div 2"
    by (simp add: stream_cost_def)
  from bytebuf_append_total [OF assms(1) this]
  obtain c where "oi_cli_bytebuf_append out replacement
    = (OI_OK, out\<lparr>bb_data := bb_data out @ replacement, bb_cap := c, bb_heap := heap_ok\<rparr>)" .
  with False show ?thesis
    by (simp add: oi_cli_utf8_stream_finish_def emit_replacement_def)
qed

section \<open>Well-formed input passes unchanged\<close>

lemma fix_encode:
  assumes cp: "scalar_value cp" and s: "pending s = []"
  shows "\<exists>s'. pending s' = [] \<and> fix_bytes s (utf8_encode cp) = (s', utf8_encode cp)"
proof -
  let ?e = "utf8_encode cp"
  have q: "oi_cli_utf8_sequence_length ?e = Inr (length ?e)"
    using sequence_length_encode [OF cp, of "[]"] by simp
  note lead = lead_Inr [OF q] and tail = tail_continuation [OF q]
  have n: "1 \<le> length ?e" "length ?e \<le> 4" by (rule utf8_encode_length)+
  then consider a where "?e = [a]" | a b where "?e = [a, b]" | a b c where "?e = [a, b, c]"
    | a b c d where "?e = [a, b, c, d]"
    by (auto simp: utf8_encode_def split: if_splits)
  then show ?thesis
  proof cases
    case 1
    with lead s show ?thesis by (simp add: fix_byte_def start_byte_def)
  next
    case 2
    with lead s q tail [of 1] show ?thesis by (simp add: fix_byte_def start_byte_def)
  next
    case 3
    with lead s q tail [of 1] tail [of 2] show ?thesis by (simp add: fix_byte_def start_byte_def)
  next
    case 4
    with lead s q tail [of 1] tail [of 2] tail [of 3] show ?thesis
      by (simp add: fix_byte_def start_byte_def)
  qed
qed

lemma fix_text:
  "utf8_text xs \<Longrightarrow> pending s = [] \<Longrightarrow> \<exists>s'. pending s' = [] \<and> fix_bytes s xs = (s', xs)"
proof -
  assume "utf8_text xs" and s: "pending s = []"
  then obtain cps where c: "\<forall>cp \<in> set cps. scalar_value cp" "xs = concat (map utf8_encode cps)"
    by (auto simp: utf8_text_def)
  from c(1) s have "\<exists>s'. pending s' = [] \<and>
      fix_bytes s (concat (map utf8_encode cps)) = (s', concat (map utf8_encode cps))"
  proof (induction cps arbitrary: s)
    case (Cons cp cps)
    then obtain s1 where 1: "pending s1 = []" "fix_bytes s (utf8_encode cp) = (s1, utf8_encode cp)"
      using fix_encode by (meson list.set_intros(1))
    from Cons obtain s2 where "pending s2 = []"
      "fix_bytes s1 (concat (map utf8_encode cps)) = (s2, concat (map utf8_encode cps))"
      using 1(1) by (meson list.set_intros(2))
    with 1 show ?case by (simp add: fixer.specs_append)
  qed simp
  with c(2) show ?thesis by simp
qed

section \<open>Properties\<close>

text \<open>
  C40. The fixer's output is well-formed UTF-8 whatever bytes it is given and however the allocator
  behaves: \<open>feed\<close> and \<open>finish\<close> extend a well-formed buffer to a well-formed buffer.
\<close>

theorem utf8_stream_output_wellformed:
  assumes "utf8_text (bb_data out)"
  shows "utf8_text (bb_data (snd (snd (oi_cli_utf8_stream_feed s xs out))))
    \<and> utf8_text (bb_data (snd (snd (oi_cli_utf8_stream_finish s out))))"
  using feed_text [OF assms, of s xs] finish_text [OF assms] by (metis prod.collapse)

theorem utf8_stream_output_wellformed_witness:
  "utf8_text (bb_data (snd (snd (oi_cli_utf8_stream_feed oi_cli_utf8_stream_init [0xC3, 0x28, 0xFF]
      (oi_cli_bytebuf_init heap_ok)))))"
  using utf8_stream_output_wellformed
    [of "oi_cli_bytebuf_init heap_ok" oi_cli_utf8_stream_init "[0xC3, 0x28, 0xFF]"]
  by (simp add: oi_cli_bytebuf_init_def)

text \<open>
  While memory lasts, feeding succeeds, appends exactly what the byte-at-a-time specification
  releases, and depends only on the concatenation of the chunks: feeding \<open>xs\<close> and then \<open>ys\<close> leaves
  the state and the text that feeding \<open>xs @ ys\<close> leaves.
\<close>

theorem utf8_stream_chunks:
  assumes "bb_heap out = heap_ok" and "utf8_stream_inv s"
    and "length (bb_data out) + 3 + 3 * (length xs + length ys) \<le> size_max div 2"
  shows "\<exists>s1 out1 s2 out2 out2'.
      oi_cli_utf8_stream_feed s xs out = (OI_OK, s1, out1)
    \<and> oi_cli_utf8_stream_feed s1 ys out1 = (OI_OK, s2, out2)
    \<and> oi_cli_utf8_stream_feed s (xs @ ys) out = (OI_OK, s2, out2')
    \<and> bb_data out2' = bb_data out2
    \<and> (s2, bb_data out2) = (case fix_bytes s (xs @ ys) of (s', e) \<Rightarrow> (s', bb_data out @ e))"
  by (rule fixer.feed_chunks [OF assms(1,2)])
     (use assms(3) in \<open>simp add: stream_cost_def algebra_simps\<close>)

theorem utf8_stream_chunks_witness:
  "\<exists>s1 out1 s2 out2 out2'.
      oi_cli_utf8_stream_feed oi_cli_utf8_stream_init [0xE2, 0x82] (oi_cli_bytebuf_init heap_ok)
        = (OI_OK, s1, out1)
    \<and> oi_cli_utf8_stream_feed s1 [0xAC] out1 = (OI_OK, s2, out2)
    \<and> oi_cli_utf8_stream_feed oi_cli_utf8_stream_init ([0xE2, 0x82] @ [0xAC])
        (oi_cli_bytebuf_init heap_ok) = (OI_OK, s2, out2')
    \<and> bb_data out2' = bb_data out2
    \<and> (s2, bb_data out2) = (case fix_bytes oi_cli_utf8_stream_init ([0xE2, 0x82] @ [0xAC]) of
         (s', e) \<Rightarrow> (s', bb_data (oi_cli_bytebuf_init heap_ok) @ e))"
  by (rule utf8_stream_chunks) (simp_all add: oi_cli_bytebuf_init_def size_max_def)

text \<open>
  Well-formed text is passed through unchanged and leaves nothing pending: feeding it from the
  initial state and finishing appends exactly its bytes.
\<close>

theorem utf8_stream_identity:
  assumes "utf8_text xs" and "bb_heap out = heap_ok"
    and "length (bb_data out) + 3 + 3 * length xs \<le> size_max div 2"
  shows "\<exists>s' out'. oi_cli_utf8_stream_feed oi_cli_utf8_stream_init xs out = (OI_OK, s', out')
    \<and> bb_data out' = bb_data out @ xs
    \<and> oi_cli_utf8_stream_finish s' out' = (OI_OK, s', out')"
proof -
  have p: "pending oi_cli_utf8_stream_init = []" by (simp add: oi_cli_utf8_stream_init_def)
  have "stream_cost oi_cli_utf8_stream_init = 0" by (simp add: stream_cost_def p)
  then obtain s1 out1
    where 1: "oi_cli_utf8_stream_feed oi_cli_utf8_stream_init xs out = (OI_OK, s1, out1)"
    using fixer.feed_total [OF assms(2) utf8_stream_inv_init, of xs] assms(3) by force
  from fix_text [OF assms(1) p] fixer.feed_refines [OF 1]
  show ?thesis by (auto simp: 1 oi_cli_utf8_stream_finish_def)
qed

theorem utf8_stream_identity_witness:
  "\<exists>s' out'. oi_cli_utf8_stream_feed oi_cli_utf8_stream_init [0x41] (oi_cli_bytebuf_init heap_ok)
      = (OI_OK, s', out')
    \<and> bb_data out' = bb_data (oi_cli_bytebuf_init heap_ok) @ [0x41]
    \<and> oi_cli_utf8_stream_finish s' out' = (OI_OK, s', out')"
proof (rule utf8_stream_identity)
  show "utf8_text [0x41]" by (rule ascii_text) simp
qed (simp_all add: oi_cli_bytebuf_init_def size_max_def)

end
