(* ===== verification/Sanitize.thy ===== *)
theory Sanitize
  imports Utf8 Byte_Filter
begin

text \<open>
  \<open>src/cli_render_sanitize.c\<close>: the control-byte and escape-sequence stripper behind the fixer of
  \<open>Utf8_Stream\<close>. A machine of six phases with a byte budget per escape sequence.
\<close>

definition oi_cli_sanitize_max_sequence :: nat where
  "oi_cli_sanitize_max_sequence = 4096"

datatype sanitize_phase = NORMAL | SAW_C2 | ESCAPE | CSI | STRING | STRING_ESC

record sanitize_state =
  phase :: sanitize_phase
  sequence_bytes :: nat

definition oi_cli_sanitize_init :: sanitize_state where
  "oi_cli_sanitize_init = \<lparr>phase = NORMAL, sequence_bytes = 0\<rparr>"

definition check_cap :: "sanitize_state \<Rightarrow> sanitize_state" where
  "check_cap state =
     (if sequence_bytes state \<ge> oi_cli_sanitize_max_sequence
      then state\<lparr>phase := NORMAL, sequence_bytes := 0\<rparr> else state)"

definition is_string_introducer :: "byte \<Rightarrow> bool" where
  "is_string_introducer b \<longleftrightarrow> b = 0x50 \<or> b = 0x5D \<or> b = 0x58 \<or> b = 0x5E \<or> b = 0x5F"

definition is_plain_passthrough :: "byte \<Rightarrow> bool" where
  "is_plain_passthrough b =
     (if b = 0x1B \<or> b = 0xC2 then False
      else if b = 0x0A \<or> b = 0x09 then True
      else if b < 0x20 \<or> b = 0x7F then False
      else True)"

definition sanitize_feed_one ::
  "sanitize_state \<Rightarrow> byte \<Rightarrow> bytebuf \<Rightarrow> oi_status \<times> sanitize_state \<times> bytebuf \<times> bool" where
  "sanitize_feed_one state b out =
     (let normal = state\<lparr>phase := NORMAL, sequence_bytes := 0\<rparr>;
          bumped = state\<lparr>sequence_bytes := sequence_bytes state + 1\<rparr> in
      case phase state of
        NORMAL \<Rightarrow>
          if b = 0x1B then (OI_OK, state\<lparr>phase := ESCAPE, sequence_bytes := 1\<rparr>, out, False)
          else if b = 0xC2 then (OI_OK, state\<lparr>phase := SAW_C2\<rparr>, out, False)
          else if is_plain_passthrough b then
            (case oi_cli_bytebuf_append out [b] of (st, out') \<Rightarrow> (st, state, out', False))
          else (OI_OK, state, out, False)
      | SAW_C2 \<Rightarrow>
          (let state' = state\<lparr>phase := NORMAL\<rparr> in
           if 0x80 \<le> b \<and> b \<le> 0x9F then (OI_OK, state', out, False)
           else (case oi_cli_bytebuf_append out [0xC2] of (st, out') \<Rightarrow>
                   (st, state', out', st = OI_OK)))
      | ESCAPE \<Rightarrow>
          if b = 0x5B then (OI_OK, check_cap (bumped\<lparr>phase := CSI\<rparr>), out, False)
          else if is_string_introducer b then
            (OI_OK, check_cap (bumped\<lparr>phase := STRING\<rparr>), out, False)
          else if 0x20 \<le> b \<and> b \<le> 0x7E then (OI_OK, normal, out, False)
          else (OI_OK, normal, out, True)
      | CSI \<Rightarrow>
          if 0x40 \<le> b \<and> b \<le> 0x7E then (OI_OK, normal, out, False)
          else (OI_OK, check_cap bumped, out, False)
      | STRING \<Rightarrow>
          if b = 0x07 then (OI_OK, normal, out, False)
          else if b = 0x1B then (OI_OK, check_cap (bumped\<lparr>phase := STRING_ESC\<rparr>), out, False)
          else (OI_OK, check_cap bumped, out, False)
      | STRING_ESC \<Rightarrow>
          if b = 0x5C then (OI_OK, normal, out, False)
          else (OI_OK, check_cap (bumped\<lparr>phase := STRING\<rparr>), out, False))"

lemma sanitize_reprocess:
  "sanitize_feed_one s b out = (st, s', out', True) \<Longrightarrow> phase s \<noteq> NORMAL \<and> phase s' = NORMAL"
  by (auto simp: sanitize_feed_one_def Let_def split: if_splits sanitize_phase.splits prod.splits)

function oi_cli_sanitize_feed ::
  "sanitize_state \<Rightarrow> bytes \<Rightarrow> bytebuf \<Rightarrow> oi_status \<times> sanitize_state \<times> bytebuf" where
  "oi_cli_sanitize_feed state [] out = (OI_OK, state, out)"
| "oi_cli_sanitize_feed state (b # bs) out =
     (if phase state = NORMAL \<and> is_plain_passthrough b then
        (case oi_cli_bytebuf_append out (takeWhile is_plain_passthrough (b # bs)) of (st, out') \<Rightarrow>
           if st \<noteq> OI_OK then (st, state, out')
           else oi_cli_sanitize_feed state (dropWhile is_plain_passthrough (b # bs)) out')
      else (case sanitize_feed_one state b out of (st, state', out', reprocess) \<Rightarrow>
           if st \<noteq> OI_OK then (st, state', out')
           else if reprocess then oi_cli_sanitize_feed state' (b # bs) out'
           else oi_cli_sanitize_feed state' bs out'))"
  by pat_completeness auto
termination
  by (relation "measure (\<lambda>(s, bs, out). 2 * length bs + (if phase s = NORMAL then 0 else 1))")
     (auto simp: less_Suc_eq_le drop_run dest: sanitize_reprocess [OF sym] split: if_splits)

definition oi_cli_sanitize_finish :: "sanitize_state \<Rightarrow> sanitize_state" where
  "oi_cli_sanitize_finish state = state\<lparr>phase := NORMAL, sequence_bytes := 0\<rparr>"

section \<open>Specification\<close>

text \<open>One byte without buffer or allocator: the next state and what is let through.\<close>

definition strip_normal :: "sanitize_state \<Rightarrow> byte \<Rightarrow> sanitize_state \<times> bytes" where
  "strip_normal s b =
     (if b = 0x1B then (s\<lparr>phase := ESCAPE, sequence_bytes := 1\<rparr>, [])
      else if b = 0xC2 then (s\<lparr>phase := SAW_C2\<rparr>, [])
      else (s, if is_plain_passthrough b then [b] else []))"

definition strip_byte :: "sanitize_state \<Rightarrow> byte \<Rightarrow> sanitize_state \<times> bytes" where
  "strip_byte s b =
     (let normal = s\<lparr>phase := NORMAL, sequence_bytes := 0\<rparr>;
          bumped = s\<lparr>sequence_bytes := sequence_bytes s + 1\<rparr> in
      case phase s of
        NORMAL \<Rightarrow> strip_normal s b
      | SAW_C2 \<Rightarrow>
          if 0x80 \<le> b \<and> b \<le> 0x9F then (s\<lparr>phase := NORMAL\<rparr>, [])
          else (case strip_normal (s\<lparr>phase := NORMAL\<rparr>) b of (s', e) \<Rightarrow> (s', 0xC2 # e))
      | ESCAPE \<Rightarrow>
          if b = 0x5B then (check_cap (bumped\<lparr>phase := CSI\<rparr>), [])
          else if is_string_introducer b then (check_cap (bumped\<lparr>phase := STRING\<rparr>), [])
          else if 0x20 \<le> b \<and> b \<le> 0x7E then (normal, [])
          else strip_normal normal b
      | CSI \<Rightarrow>
          if 0x40 \<le> b \<and> b \<le> 0x7E then (normal, []) else (check_cap bumped, [])
      | STRING \<Rightarrow>
          if b = 0x07 then (normal, [])
          else (check_cap (if b = 0x1B then bumped\<lparr>phase := STRING_ESC\<rparr> else bumped), [])
      | STRING_ESC \<Rightarrow>
          if b = 0x5C then (normal, []) else (check_cap (bumped\<lparr>phase := STRING\<rparr>), []))"

fun strip_bytes :: "sanitize_state \<Rightarrow> bytes \<Rightarrow> sanitize_state \<times> bytes" where
  "strip_bytes s [] = (s, [])"
| "strip_bytes s (b # bs) =
     (case strip_byte s b of (s', e) \<Rightarrow> (case strip_bytes s' bs of (s'', e') \<Rightarrow> (s'', e @ e')))"

section \<open>The code refines the specification\<close>

lemma sanitize_plain_iff:
  "is_plain_passthrough b \<longleftrightarrow> b = 0x0A \<or> b = 0x09 \<or> (0x20 \<le> b \<and> b \<noteq> 0x7F \<and> b \<noteq> 0xC2)"
  by (auto simp: is_plain_passthrough_def)

lemma sanitize_run:
  "phase s = NORMAL \<Longrightarrow> is_plain_passthrough b \<Longrightarrow>
   oi_cli_bytebuf_append out (takeWhile is_plain_passthrough (b # bs)) = (st1, out1) \<Longrightarrow>
   oi_cli_sanitize_feed s (b # bs) out = (if st1 \<noteq> OI_OK then (st1, s, out1)
     else oi_cli_sanitize_feed s (dropWhile is_plain_passthrough (b # bs)) out1)"
  by (subst oi_cli_sanitize_feed.simps) (simp only: if_True prod.case simp_thms)

lemma sanitize_step:
  "\<not> (phase s = NORMAL \<and> is_plain_passthrough b) \<Longrightarrow>
   sanitize_feed_one s b out = (st1, s1, out1, r) \<Longrightarrow>
   oi_cli_sanitize_feed s (b # bs) out = (if st1 \<noteq> OI_OK then (st1, s1, out1)
     else if r then oi_cli_sanitize_feed s1 (b # bs) out1
     else oi_cli_sanitize_feed s1 bs out1)"
  by (subst oi_cli_sanitize_feed.simps) (simp only: if_False prod.case)

lemma sanitize_one_refines:
  assumes "sanitize_feed_one s b out = (OI_OK, s', out', r)"
  shows "\<exists>e. bb_data out' = bb_data out @ e \<and>
    strip_byte s b = (if r then (case strip_byte s' b of (s'', e') \<Rightarrow> (s'', e @ e')) else (s', e))"
proof (cases "phase s")
  case NORMAL
  with assms show ?thesis
    by (auto simp: sanitize_feed_one_def strip_byte_def strip_normal_def Let_def
        split del: if_split split: if_split_asm prod.split_asm dest: bytebuf.append_ok)
next
  case SAW_C2
  with assms show ?thesis
    by (auto simp: sanitize_feed_one_def strip_byte_def Let_def
        split del: if_split split: if_split_asm prod.split_asm dest: bytebuf.append_ok)
next
  case ESCAPE
  with assms show ?thesis
    by (auto simp: sanitize_feed_one_def strip_byte_def Let_def
        split del: if_split split: if_split_asm prod.split)
qed (use assms in \<open>auto simp: sanitize_feed_one_def strip_byte_def Let_def
    split del: if_split split: if_split_asm\<close>)

text \<open>Outside an escape sequence nothing is counted; inside one the count stays below the cap.\<close>

definition sanitize_inv :: "sanitize_state \<Rightarrow> bool" where
  "sanitize_inv s \<longleftrightarrow> sequence_bytes s < oi_cli_sanitize_max_sequence
     \<and> (phase s = NORMAL \<or> phase s = SAW_C2 \<longleftrightarrow> sequence_bytes s = 0)"

lemma sanitize_inv_init [simp]: "sanitize_inv oi_cli_sanitize_init"
  by (simp add: sanitize_inv_def oi_cli_sanitize_init_def oi_cli_sanitize_max_sequence_def)

lemma check_cap_inv:
  "phase s \<noteq> NORMAL \<Longrightarrow> phase s \<noteq> SAW_C2 \<Longrightarrow> 0 < sequence_bytes s \<Longrightarrow> sanitize_inv (check_cap s)"
  by (simp add: sanitize_inv_def check_cap_def oi_cli_sanitize_max_sequence_def)

lemma sanitize_one_inv:
  assumes "sanitize_inv s" "sanitize_feed_one s b out = (st, s', out', r)"
  shows "sanitize_inv s'"
proof -
  have n: "sanitize_inv (t\<lparr>phase := NORMAL, sequence_bytes := 0\<rparr>)" for t :: sanitize_state
    by (simp add: sanitize_inv_def oi_cli_sanitize_max_sequence_def)
  show ?thesis
  proof (cases "phase s")
    case NORMAL
    with assms show ?thesis
      by (auto simp: sanitize_feed_one_def sanitize_inv_def oi_cli_sanitize_max_sequence_def
          split: if_splits prod.splits)
  next
    case SAW_C2
    with assms show ?thesis
      by (auto simp: sanitize_feed_one_def sanitize_inv_def Let_def split: if_splits prod.splits)
  qed (use assms n in \<open>auto simp: sanitize_feed_one_def Let_def split: if_splits
      intro!: check_cap_inv\<close>)
qed

definition c2_cost :: "sanitize_state \<Rightarrow> nat" where
  "c2_cost s = (if phase s = SAW_C2 then 1 else 0)"

lemma sanitize_append1:
  assumes "bb_heap out = heap_ok" "length (bb_data out) + 1 \<le> size_max div 2"
  obtains c where "oi_cli_bytebuf_append out [b]
    = (OI_OK, out\<lparr>bb_data := bb_data out @ [b], bb_cap := c, bb_heap := heap_ok\<rparr>)"
  using bytebuf_append_total [OF assms(1), of "[b]"] assms(2) by auto

lemma check_cap_c2 [simp]: "phase s \<noteq> SAW_C2 \<Longrightarrow> c2_cost (check_cap s) = 0"
  by (simp add: c2_cost_def check_cap_def)

lemma sanitize_one_total:
  assumes h: "bb_heap out = heap_ok" and "length (bb_data out) + c2_cost s + 1 \<le> size_max div 2"
  shows "\<exists>s' out' r. sanitize_feed_one s b out = (OI_OK, s', out', r) \<and> bb_heap out' = heap_ok
    \<and> length (bb_data out') + c2_cost s' \<le> length (bb_data out) + c2_cost s + (if r then 0 else 1)"
proof -
  have "length (bb_data out) + 1 \<le> size_max div 2" using assms(2) by linarith
  note a = sanitize_append1 [OF h this]
  obtain c where b: "oi_cli_bytebuf_append out [b]
    = (OI_OK, out\<lparr>bb_data := bb_data out @ [b], bb_cap := c, bb_heap := heap_ok\<rparr>)"
    by (rule a)
  obtain d where c2: "oi_cli_bytebuf_append out [0xC2]
    = (OI_OK, out\<lparr>bb_data := bb_data out @ [0xC2], bb_cap := d, bb_heap := heap_ok\<rparr>)"
    by (rule a)
  show ?thesis
    by (cases "phase s") (auto simp: sanitize_feed_one_def b c2 h Let_def c2_cost_def check_cap_def)
qed

interpretation sanitizer: byte_filter "\<lambda>s. phase s = NORMAL" is_plain_passthrough sanitize_feed_one
    oi_cli_sanitize_feed strip_byte strip_bytes sanitize_inv c2_cost 1
proof (unfold_locales, goal_cases)
  case (2 s b out st1 out1 bs)
  then show ?case by (rule sanitize_run)
next
  case (3 s b out st1 s1 out1 r bs)
  then show ?case by (rule sanitize_step)
next
  case (6 s b out s' out')
  then show ?case by (rule sanitize_reprocess)
next
  case (7 s b)
  then show ?case by (cases "b = 0x1B \<or> b = 0xC2") (auto simp: strip_byte_def strip_normal_def is_plain_passthrough_def)
next
  case (8 s b out s' out' r)
  then show ?case by (rule sanitize_one_refines)
next
  case (9 s b out st s' out' r)
  then show ?case by (rule sanitize_one_inv)
next
  case (10 out s b)
  then show ?case using sanitize_one_total by blast
qed auto

section \<open>What is removed and what passes\<close>

text \<open>A byte that may reach the terminal, and a text without an encoded C1 control.\<close>

definition safe_byte :: "byte \<Rightarrow> bool" where
  "safe_byte b \<longleftrightarrow> b = 0x0A \<or> b = 0x09 \<or> (0x20 \<le> b \<and> b \<noteq> 0x7F)"

fun c1_free :: "bytes \<Rightarrow> bool" where
  "c1_free (a # b # xs) = (\<not> (a = 0xC2 \<and> 0x80 \<le> b \<and> b \<le> 0x9F) \<and> c1_free (b # xs))"
| "c1_free _ = True"

definition printable :: "nat \<Rightarrow> bool" where
  "printable cp \<longleftrightarrow> cp = 0x0A \<or> cp = 0x09 \<or> (0x20 \<le> cp \<and> cp \<noteq> 0x7F \<and> \<not> (0x80 \<le> cp \<and> cp \<le> 0x9F))"

lemma plain_safe: "is_plain_passthrough b \<Longrightarrow> safe_byte b"
  by (auto simp: sanitize_plain_iff safe_byte_def)

lemma safe_C2: "safe_byte 0xC2"
  by (simp add: safe_byte_def)

lemma append_safe:
  assumes "\<forall>b \<in> set (bb_data out). safe_byte b" "\<forall>b \<in> set xs. safe_byte b"
  shows "\<forall>b \<in> set (bb_data (snd (oi_cli_bytebuf_append out xs))). safe_byte b"
  using assms by (simp add: bytebuf.append_contents ball_Un)

lemma sanitize_one_safe:
  assumes "\<forall>b \<in> set (bb_data out). safe_byte b" "sanitize_feed_one s b out = (st, s', out', r)"
  shows "\<forall>b \<in> set (bb_data out'). safe_byte b"
proof -
  have "out' = out \<or> is_plain_passthrough b \<and> out' = snd (oi_cli_bytebuf_append out [b])
      \<or> out' = snd (oi_cli_bytebuf_append out [0xC2])"
    using assms(2)
    by (cases "phase s") (auto simp: sanitize_feed_one_def Let_def split: if_splits prod.splits)
  with append_safe [OF assms(1), of "[b]"] append_safe [OF assms(1), of "[0xC2]"] assms(1)
  show ?thesis by (auto dest: plain_safe simp: safe_C2)
qed

lemma strip_normal_plain:
  "phase s = NORMAL \<Longrightarrow> \<forall>b \<in> set xs. is_plain_passthrough b \<Longrightarrow> strip_bytes s xs = (s, xs)"
  by (rule sanitizer.specs_plain)

lemma plain_hi: "0x80 \<le> unat b \<Longrightarrow> unat b \<noteq> 0xC2 \<Longrightarrow> is_plain_passthrough b"
  by (auto simp: is_plain_passthrough_def byte_nat)

lemma plain_code: "0x80 \<le> n \<Longrightarrow> n < 256 \<Longrightarrow> n \<noteq> 0xC2 \<Longrightarrow> is_plain_passthrough (word_of_nat n)"
  by (rule plain_hi) (simp_all only: unat_small not_False_eq_True)

lemma plain_cont: "is_plain_passthrough (word_of_nat (0x80 + x mod 64))"
  proof (rule plain_code)
  have "x mod 64 < 64" by simp
  then show "0x80 + x mod 64 < 256" "0x80 + x mod 64 \<noteq> 0xC2" by linarith+
qed simp

lemma strip_ascii:
  assumes "cp < 0x80" "cp \<noteq> 0x1B" "phase s = NORMAL"
  shows "strip_byte s (word_of_nat cp) = (s, if printable cp then [word_of_nat cp] else [])"
proof -
  have "unat (word_of_nat cp :: byte) = cp" using assms(1) by (simp add: unat_small)
  then show ?thesis using assms
    by (simp add: strip_byte_def strip_normal_def sanitize_plain_iff printable_def byte_nat)
qed

lemma strip_encode:
  assumes "scalar_value cp" "cp \<noteq> 0x1B" and s: "phase s = NORMAL"
  shows "strip_bytes s (utf8_encode cp) = (s, if printable cp then utf8_encode cp else [])"
proof -
  consider "cp < 0x80" | "0x80 \<le> cp" "cp < 0xC0" | "0xC0 \<le> cp" "cp < 0x800"
    | "0x800 \<le> cp" "cp < 0x10000" | "0x10000 \<le> cp" "cp < 0x110000"
    using assms(1) unfolding scalar_value_def by linarith
  then show ?thesis
  proof cases
    case 1
    with strip_ascii [OF 1 assms(2) s] show ?thesis by (simp add: utf8_encode_def)
  next
    case 2
    then have d: "cp div 64 = 2" by simp
    have e: "utf8_encode cp = [0xC2, word_of_nat (0x80 + cp mod 64)]"
      using 2 by (simp add: utf8_encode_def d)
    have m: "0x80 + cp mod 64 = cp" using 2 d by (metis div_mult_mod_eq mult_numeral_left_semiring_numeral num_double numeral_times_numeral)
    have u: "unat (word_of_nat cp :: byte) = cp" using 2 by (simp add: unat_small)
    have i: "is_plain_passthrough (word_of_nat cp)" by (rule plain_hi) (use 2 u in auto)
    have k: "word_of_nat cp \<noteq> (0x1B :: byte)" "word_of_nat cp \<noteq> (0xC2 :: byte)"
      using u 2 by (auto simp: byte_nat)
    show ?thesis using s 2 u i k unfolding e m
      by (auto simp: strip_byte_def strip_normal_def printable_def byte_nat)
  next
    case 3
    then have d: "3 \<le> cp div 64" "cp div 64 < 32" by auto
    then have "is_plain_passthrough (word_of_nat (0xC0 + cp div 64))"
      by (intro plain_code) auto
    with 3 plain_cont [of cp] strip_normal_plain [OF s, of "utf8_encode cp"] show ?thesis
      by (simp add: utf8_encode_def printable_def)
  next
    case 4
    then have "cp div 4096 < 16" by auto
    then have "is_plain_passthrough (word_of_nat (0xE0 + cp div 4096))"
      by (intro plain_code) auto
    with 4 plain_cont [of cp] plain_cont [of "cp div 64"] strip_normal_plain [OF s, of "utf8_encode cp"]
    show ?thesis by (simp add: utf8_encode_def printable_def)
  next
    case 5
    then have "cp div 262144 < 5" by auto
    then have "is_plain_passthrough (word_of_nat (0xF0 + cp div 262144))"
      by (intro plain_code) auto
    with 5 plain_cont [of cp] plain_cont [of "cp div 64"] plain_cont [of "cp div 4096"]
      strip_normal_plain [OF s, of "utf8_encode cp"]
    show ?thesis by (simp add: utf8_encode_def printable_def)
  qed
qed

lemma strip_cps:
  "\<forall>cp \<in> set cps. scalar_value cp \<and> cp \<noteq> 0x1B \<Longrightarrow> phase s = NORMAL \<Longrightarrow>
   strip_bytes s (concat (map utf8_encode cps))
     = (s, concat (map utf8_encode (filter printable cps)))"
  by (induction cps) (simp_all add: sanitizer.specs_append strip_encode)

section \<open>No C1 control in the output for well-formed input\<close>

fun c2_paired :: "bytes \<Rightarrow> bool" where
  "c2_paired [] = True"
| "c2_paired (a # xs) = ((a = 0xC2 \<longrightarrow> xs = [] \<or> is_continuation (hd xs)) \<and> c2_paired xs)"

lemma byte_ne: "n < 256 \<Longrightarrow> n \<noteq> 0xC2 \<Longrightarrow> word_of_nat n \<noteq> (0xC2 :: byte)"
  using unat_small [of n] by auto

lemma c2_paired_encode:
  assumes "scalar_value cp" "c2_paired xs"
  shows "c2_paired (utf8_encode cp @ xs)"
proof -
  have c: "is_continuation (word_of_nat (0x80 + y mod 64))" for y by (rule cont_word) simp
  have n: "word_of_nat (0x80 + y mod 64) \<noteq> (0xC2 :: byte)" for y
    using c [of y] by (auto simp: is_continuation_iff)
  have 4: "word_of_nat (0xF0 + cp div 262144) \<noteq> (0xC2 :: byte)"
    by (rule byte_ne) (use assms(1) in \<open>auto simp: scalar_value_def\<close>)
  have 3: "cp < 65536 \<Longrightarrow> word_of_nat (0xE0 + cp div 4096) \<noteq> (0xC2 :: byte)"
    by (rule byte_ne) auto
  have 1: "cp < 128 \<Longrightarrow> word_of_nat cp \<noteq> (0xC2 :: byte)" by (rule byte_ne) auto
  show ?thesis using assms(2) 1 3 4
    by (simp add: utf8_encode_def c n del: of_nat_add of_nat_numeral)
qed

lemma c2_paired_text: "utf8_text xs \<Longrightarrow> c2_paired xs"
proof -
  assume "utf8_text xs"
  then obtain cps where c: "\<forall>cp \<in> set cps. scalar_value cp" "xs = concat (map utf8_encode cps)"
    by (auto simp: utf8_text_def)
  from c(1) have "c2_paired (concat (map utf8_encode cps))"
    by (induction cps) (simp_all add: c2_paired_encode)
  with c(2) show ?thesis by simp
qed

text \<open>What one byte releases is nothing, one byte other than C2, or C2 with its continuation.\<close>

lemma check_cap_phase: "phase (check_cap s) = SAW_C2 \<Longrightarrow> phase s = SAW_C2"
  by (simp add: check_cap_def split: if_splits)

lemma strip_byte_cases:
  assumes "strip_byte s b = (s', e)" "phase s = SAW_C2 \<longrightarrow> is_continuation b"
  shows "(e = [] \<or> (\<exists>x. e = [x] \<and> x \<noteq> 0xC2)
           \<or> e = [0xC2, b] \<and> b \<noteq> 0xC2 \<and> \<not> (0x80 \<le> b \<and> b \<le> 0x9F))
    \<and> (phase s' = SAW_C2 \<longrightarrow> b = 0xC2)"
proof (cases "phase s")
  case NORMAL
  with assms show ?thesis
    by (auto simp: strip_byte_def strip_normal_def Let_def split: if_splits)
next
  case SAW_C2
  with assms(2) have "is_plain_passthrough b" "b \<noteq> 0x1B" "b \<noteq> 0xC2"
    by (auto simp: is_continuation_iff intro!: plain_hi)
  with SAW_C2 assms(1) show ?thesis
    by (auto simp: strip_byte_def strip_normal_def Let_def split: if_splits)
next
  case ESCAPE
  with assms show ?thesis
    by (auto simp: strip_byte_def strip_normal_def Let_def split: if_splits
        dest!: arg_cong [of _ _ phase] check_cap_phase)
qed (use assms in \<open>auto simp: strip_byte_def Let_def split: if_splits
        dest!: arg_cong [of _ _ phase] check_cap_phase\<close>)

lemma c1_free_Cons: "a \<noteq> 0xC2 \<Longrightarrow> c1_free (a # xs) = c1_free xs"
  by (cases xs) auto

lemma strip_c1_free:
  "c2_paired xs \<Longrightarrow> (phase s = SAW_C2 \<longrightarrow> xs = [] \<or> is_continuation (hd xs)) \<Longrightarrow>
     c1_free (snd (strip_bytes s xs))"
proof (induction xs arbitrary: s)
  case (Cons b xs)
  obtain s' e where b: "strip_byte s b = (s', e)" by fastforce
  note c = strip_byte_cases [OF b]
  have "c1_free (snd (strip_bytes s' xs))"
    by (rule Cons.IH) (use Cons.prems c in auto)
  with c Cons.prems(2) b show ?case
    by (auto simp: c1_free_Cons split: prod.splits)
qed simp

section \<open>Escape sequences\<close>

lemma strip_count:
  "ph = CSI \<and> (\<forall>b \<in> set ps. \<not> (0x40 \<le> b \<and> b \<le> 0x7E)) \<or> ph = STRING \<and> (\<forall>b \<in> set ps. b \<noteq> 0x07 \<and> b \<noteq> 0x1B) \<Longrightarrow>
   n + length ps < oi_cli_sanitize_max_sequence \<Longrightarrow>
   strip_bytes \<lparr>phase = ph, sequence_bytes = n\<rparr> ps = (\<lparr>phase = ph, sequence_bytes = n + length ps\<rparr>, [])"
  by (induction ps arbitrary: n) (auto simp: strip_byte_def check_cap_def)

lemma strip_intro:
  "strip_bytes oi_cli_sanitize_init [0x1B, 0x5B] = (\<lparr>phase = CSI, sequence_bytes = 2\<rparr>, [])"
  "is_string_introducer i \<Longrightarrow>
     strip_bytes oi_cli_sanitize_init [0x1B, i] = (\<lparr>phase = STRING, sequence_bytes = 2\<rparr>, [])"
  by (auto simp: oi_cli_sanitize_init_def strip_byte_def strip_normal_def check_cap_def
      oi_cli_sanitize_max_sequence_def is_string_introducer_def)

text \<open>A complete escape sequence, as ECMA-48 writes it.\<close>

definition escape_sequence :: "bytes \<Rightarrow> bool" where
  "escape_sequence xs \<longleftrightarrow>
     (\<exists>ps f. xs = [0x1B, 0x5B] @ ps @ [f] \<and> (\<forall>b \<in> set ps. \<not> (0x40 \<le> b \<and> b \<le> 0x7E))
        \<and> 0x40 \<le> f \<and> f \<le> 0x7E)
   \<or> (\<exists>i ps e. xs = [0x1B, i] @ ps @ e \<and> is_string_introducer i
        \<and> (\<forall>b \<in> set ps. b \<noteq> 0x07 \<and> b \<noteq> 0x1B) \<and> (e = [0x07] \<or> e = [0x1B, 0x5C]))
   \<or> (\<exists>f. xs = [0x1B, f] \<and> 0x20 \<le> f \<and> f \<le> 0x7E \<and> f \<noteq> 0x5B \<and> \<not> is_string_introducer f)"

lemma strip_escape:
  assumes "escape_sequence xs" "length xs < oi_cli_sanitize_max_sequence"
  shows "strip_bytes oi_cli_sanitize_init xs = (oi_cli_sanitize_init, [])"
proof -
  from assms(1) consider
      (csi) ps f where "xs = [0x1B, 0x5B] @ ps @ [f]" "\<forall>b \<in> set ps. \<not> (0x40 \<le> b \<and> b \<le> 0x7E)"
        "0x40 \<le> f" "f \<le> 0x7E"
    | (str) i ps e where "xs = [0x1B, i] @ ps @ e" "is_string_introducer i"
        "\<forall>b \<in> set ps. b \<noteq> 0x07 \<and> b \<noteq> 0x1B" "e = [0x07] \<or> e = [0x1B, 0x5C]"
    | (two) f where "xs = [0x1B, f]" "0x20 \<le> f" "f \<le> 0x7E" "f \<noteq> 0x5B" "\<not> is_string_introducer f"
    unfolding escape_sequence_def by blast
  then show ?thesis
  proof cases
    case csi
    have "strip_bytes \<lparr>phase = CSI, sequence_bytes = 2\<rparr> ps
      = (\<lparr>phase = CSI, sequence_bytes = 2 + length ps\<rparr>, [])"
      by (rule strip_count) (use csi assms(2) in auto)
    with csi(3,4) show ?thesis unfolding csi(1)
      by (simp only: sanitizer.specs_append strip_intro prod.case) (simp add: strip_byte_def oi_cli_sanitize_init_def)
  next
    case str
    have "strip_bytes \<lparr>phase = STRING, sequence_bytes = 2\<rparr> ps
      = (\<lparr>phase = STRING, sequence_bytes = 2 + length ps\<rparr>, [])"
      by (rule strip_count) (use str assms(2) in auto)
    with str(4) assms(2) show ?thesis unfolding str(1)
      by (simp only: sanitizer.specs_append strip_intro(2) [OF str(2)] prod.case)
         (auto simp: strip_byte_def oi_cli_sanitize_init_def check_cap_def)
  next
    case two
    then show ?thesis
      by (simp add: oi_cli_sanitize_init_def strip_byte_def strip_normal_def)
  qed
qed

section \<open>Properties\<close>

declare oi_cli_sanitize_feed.simps [simp del]

lemma sanitize_total:
  assumes "bb_heap out = heap_ok" "length (bb_data out) + length xs \<le> size_max div 2"
  shows "\<exists>s' out'. oi_cli_sanitize_feed oi_cli_sanitize_init xs out = (OI_OK, s', out')"
proof -
  have "c2_cost oi_cli_sanitize_init = 0" by (simp add: oi_cli_sanitize_init_def c2_cost_def)
  with sanitizer.feed_total [OF assms(1) sanitize_inv_init, of xs] assms(2) show ?thesis by auto
qed

text \<open>
  C17. Whatever bytes the stripper is given, in whatever state and however the allocator behaves, it
  appends no ESC, no DEL, no NUL and no other C0 control than newline and tab.
\<close>

theorem sanitize_output_safe:
  assumes "list_all safe_byte (bb_data out)"
  shows "list_all safe_byte (bb_data (snd (snd (oi_cli_sanitize_feed s xs out))))"
proof -
  obtain st s' out' where f: "oi_cli_sanitize_feed s xs out = (st, s', out')" by (metis surj_pair)
  have "\<forall>b \<in> set (bb_data out'). safe_byte b"
    by (rule sanitizer.feed_invariant
        [of "\<lambda>s out. \<forall>b \<in> set (bb_data out). safe_byte b", OF _ _ assms [unfolded list_all_iff] f])
       (use append_safe plain_safe in blast, rule sanitize_one_safe)
  with f show ?thesis by (simp add: list_all_iff)
qed

theorem sanitize_output_safe_witness:
  "list_all safe_byte (bb_data (snd (snd (oi_cli_sanitize_feed oi_cli_sanitize_init [0x1B, 0x63, 0x07, 0x41]
      (oi_cli_bytebuf_init heap_ok)))))"
  by (rule sanitize_output_safe) (simp add: oi_cli_bytebuf_init_def)

text \<open>
  On well-formed UTF-8, which is what the fixer hands over, the output holds no encoded C1
  control either: no C2 byte is followed by a byte of 80 to 9F.
\<close>

theorem sanitize_no_c1:
  assumes "utf8_text xs"
    and "oi_cli_sanitize_feed oi_cli_sanitize_init xs (oi_cli_bytebuf_init h) = (OI_OK, s', out')"
  shows "c1_free (bb_data out')"
proof -
  have "c1_free (snd (strip_bytes oi_cli_sanitize_init xs))"
    by (rule strip_c1_free [OF c2_paired_text [OF assms(1)]]) (simp add: oi_cli_sanitize_init_def)
  with sanitizer.feed_refines [OF assms(2)] show ?thesis
    by (auto simp: oi_cli_bytebuf_init_def)
qed

theorem sanitize_no_c1_witness:
  "\<exists>s' out'. oi_cli_sanitize_feed oi_cli_sanitize_init [0xC2, 0x9B, 0xC2, 0xA9]
      (oi_cli_bytebuf_init heap_ok) = (OI_OK, s', out') \<and> c1_free (bb_data out')"
proof -
  have "utf8_text [0xC2, 0x9B, 0xC2, 0xA9]"
    by (subst validate_iff [symmetric])
       (simp add: oi_cli_utf8_validate.simps oi_cli_utf8_sequence_length_def
         oi_cli_utf8_lead_length_def is_continuation_def)
  moreover obtain s' out' where "oi_cli_sanitize_feed oi_cli_sanitize_init [0xC2, 0x9B, 0xC2, 0xA9]
      (oi_cli_bytebuf_init heap_ok) = (OI_OK, s', out')"
    using sanitize_total [of "oi_cli_bytebuf_init heap_ok" "[0xC2, 0x9B, 0xC2, 0xA9]"]
    by (auto simp: size_max_def)
  ultimately show ?thesis using sanitize_no_c1 by blast
qed

text \<open>
  A text without ESC loses exactly its control characters: C0 other than newline and tab, DEL
  and C1 are dropped, every other character passes unchanged, and the stripper ends idle.
\<close>

theorem sanitize_filters_text:
  assumes "\<forall>cp \<in> set cps. scalar_value cp \<and> cp \<noteq> 0x1B" and "bb_heap out = heap_ok"
    and "length (bb_data out) + length (concat (map utf8_encode cps)) \<le> size_max div 2"
  shows "\<exists>out'. oi_cli_sanitize_feed oi_cli_sanitize_init (concat (map utf8_encode cps)) out
      = (OI_OK, oi_cli_sanitize_init, out')
    \<and> bb_data out' = bb_data out @ concat (map utf8_encode (filter printable cps))"
proof -
  have p: "phase oi_cli_sanitize_init = NORMAL" by (simp add: oi_cli_sanitize_init_def)
  obtain s' out' where f:
    "oi_cli_sanitize_feed oi_cli_sanitize_init (concat (map utf8_encode cps)) out = (OI_OK, s', out')"
    using sanitize_total [OF assms(2,3)] by blast
  from sanitizer.feed_refines [OF f] strip_cps [OF assms(1) p] f show ?thesis by auto
qed

theorem sanitize_filters_text_witness:
  "\<exists>out'. oi_cli_sanitize_feed oi_cli_sanitize_init (concat (map utf8_encode [0x41, 0x9B, 0x20AC]))
      (oi_cli_bytebuf_init heap_ok) = (OI_OK, oi_cli_sanitize_init, out')
    \<and> bb_data out' = bb_data (oi_cli_bytebuf_init heap_ok)
        @ concat (map utf8_encode (filter printable [0x41, 0x9B, 0x20AC]))"
  by (rule sanitize_filters_text)
     (simp_all add: scalar_value_def oi_cli_bytebuf_init_def size_max_def utf8_encode_def)

text \<open>
  A complete escape sequence (CSI with its parameters and final byte, an OSC/DCS/SOS/PM/APC
  string with BEL or ESC-backslash at its end, or a two-byte escape) shorter than the cap is removed
  with nothing left behind, and the stripper is idle again.
\<close>

theorem sanitize_removes_escape:
  assumes "escape_sequence xs" and "length xs < oi_cli_sanitize_max_sequence"
    and "bb_heap out = heap_ok" and "length (bb_data out) + length xs \<le> size_max div 2"
  shows "\<exists>out'. oi_cli_sanitize_feed oi_cli_sanitize_init xs out = (OI_OK, oi_cli_sanitize_init, out')
    \<and> bb_data out' = bb_data out"
proof -
  obtain s' out' where f: "oi_cli_sanitize_feed oi_cli_sanitize_init xs out = (OI_OK, s', out')"
    using sanitize_total [OF assms(3,4)] by blast
  from sanitizer.feed_refines [OF f] strip_escape [OF assms(1,2)] f show ?thesis by auto
qed

theorem sanitize_removes_escape_witness:
  "\<exists>out'. oi_cli_sanitize_feed oi_cli_sanitize_init ([0x1B, 0x5B] @ [0x33, 0x31] @ [0x6D])
      (oi_cli_bytebuf_init heap_ok) = (OI_OK, oi_cli_sanitize_init, out')
    \<and> bb_data out' = bb_data (oi_cli_bytebuf_init heap_ok)"
proof (rule sanitize_removes_escape)
  show "escape_sequence ([0x1B, 0x5B] @ [0x33, 0x31] @ [0x6D])"
    unfolding escape_sequence_def
    by (intro disjI1 exI [of _ "[0x33, 0x31]"] exI [of _ "0x6D"]) simp
qed (simp_all add: oi_cli_sanitize_max_sequence_def oi_cli_bytebuf_init_def size_max_def)

text \<open>
  The cap on the length of a sequence can fall inside a character: there is a well-formed text
  whose sanitized form is not well formed, because only the last byte of a character is let through.
\<close>

theorem sanitize_cap_splits_character:
  "\<exists>xs s' out'. utf8_text xs
    \<and> oi_cli_sanitize_feed oi_cli_sanitize_init xs (oi_cli_bytebuf_init heap_ok) = (OI_OK, s', out')
    \<and> bb_data out' = [0xA9] \<and> \<not> utf8_text (bb_data out')"
proof -
  let ?ps = "replicate 4093 (0x30 :: byte)"
  let ?xs = "[0x1B, 0x5B] @ ?ps @ [0xC2, 0xA9]"
  have "utf8_text ([0x1B, 0x5B] @ ?ps)"
    by (rule ascii_text) auto
  moreover have c: "utf8_text [0xC2, 0xA9]" "\<not> utf8_text [0xA9]"
    by (simp_all add: validate_iff [symmetric] oi_cli_utf8_validate.simps
        oi_cli_utf8_sequence_length_def oi_cli_utf8_lead_length_def is_continuation_def)
  ultimately have t: "utf8_text ?xs" using utf8_text_append by force
  have "strip_bytes \<lparr>phase = CSI, sequence_bytes = 2\<rparr> ?ps
      = (\<lparr>phase = CSI, sequence_bytes = 2 + length ?ps\<rparr>, [])"
    by (rule strip_count) (auto simp: oi_cli_sanitize_max_sequence_def)
  then have s: "strip_bytes oi_cli_sanitize_init ?xs = (oi_cli_sanitize_init, [0xA9])"
    by (simp only: sanitizer.specs_append strip_intro prod.case length_replicate)
       (simp add: strip_byte_def strip_normal_def check_cap_def oi_cli_sanitize_init_def
         oi_cli_sanitize_max_sequence_def is_plain_passthrough_def)
  obtain s' out' where f: "oi_cli_sanitize_feed oi_cli_sanitize_init ?xs
      (oi_cli_bytebuf_init heap_ok) = (OI_OK, s', out')"
    using sanitize_total [of "oi_cli_bytebuf_init heap_ok" ?xs]
    by (auto simp: size_max_def)
  from sanitizer.feed_refines [OF f] s have "bb_data out' = [0xA9]"
    by (simp add: oi_cli_bytebuf_init_def)
  with t f c(2) show ?thesis by metis
qed

end
