(* ===== verification/Arena.thy ===== *)
theory Arena
  imports Prelude
begin

text \<open>
  \<open>src/arena.c\<close>: the bump allocator. The chain of blocks is a list, \<open>ar_current\<close> the index of the
  current block, and a pointer is a block index with an offset into the block's data. Sizes are 64-bit
  words, as in the code, because \<open>round_up\<close> could wrap around.
\<close>

type_synonym size_t = "64 word"

record oi_block =
  blk_capacity :: size_t
  blk_used :: size_t

record oi_arena =
  ar_blocks :: "oi_block list"
  ar_current :: nat
  ar_block_size :: size_t
  arena_heap :: heap

type_synonym pointer = "nat \<times> size_t"

definition oi_arena_default_block_size :: size_t where
  "oi_arena_default_block_size = 64 * 1024"

text \<open>\<open>_Alignof(max_align_t)\<close>, and \<open>sizeof(struct oi_block)\<close>: three 8-byte fields padded to it.\<close>

definition oi_arena_align :: size_t where
  "oi_arena_align = 16"

definition sizeof_block :: size_t where
  "sizeof_block = 32"

definition block_alloc :: "heap \<Rightarrow> size_t \<Rightarrow> oi_block option \<times> heap" where
  "block_alloc h cap =
     (if cap > (- 1) - sizeof_block then (None, h)
      else (if shd h then Some \<lparr>blk_capacity = cap, blk_used = 0\<rparr> else None, stl h))"

definition round_up :: "size_t \<Rightarrow> size_t \<Rightarrow> size_t" where
  "round_up n align = (n + (align - 1)) AND NOT (align - 1)"

definition oi_arena_create :: "heap \<Rightarrow> size_t \<Rightarrow> oi_arena option" where
  "oi_arena_create h block_sz =
     (let block_sz = (if block_sz = 0 then oi_arena_default_block_size else block_sz) in
      if \<not> shd h then None
      else (case block_alloc (stl h) block_sz of
              (None, _) \<Rightarrow> None
            | (Some first, h') \<Rightarrow>
                Some \<lparr>ar_blocks = [first], ar_current = 0, ar_block_size = block_sz, arena_heap = h'\<rparr>))"

text \<open>\<open>None\<close> when the chain has to grow and the allocator fails.\<close>

definition advance_block :: "oi_arena \<Rightarrow> bool \<times> oi_arena" where
  "advance_block a =
     (if ar_current a + 1 < length (ar_blocks a) then (True, a\<lparr>ar_current := ar_current a + 1\<rparr>)
      else (case block_alloc (arena_heap a) (ar_block_size a) of
              (None, h) \<Rightarrow> (False, a\<lparr>arena_heap := h\<rparr>)
            | (Some nb, h) \<Rightarrow>
                (True, a\<lparr>ar_blocks := ar_blocks a @ [nb], ar_current := ar_current a + 1, arena_heap := h\<rparr>)))"

definition set_used :: "oi_arena \<Rightarrow> size_t \<Rightarrow> oi_arena" where
  "set_used a n =
     a\<lparr>ar_blocks := (ar_blocks a)[ar_current a := (ar_blocks a ! ar_current a)\<lparr>blk_used := n\<rparr>]\<rparr>"

definition oi_arena_alloc :: "oi_arena \<Rightarrow> size_t \<Rightarrow> pointer option \<times> oi_arena" where
  "oi_arena_alloc a sz =
     (if sz = 0 \<or> sz > ar_block_size a then (None, a)
      else
        let b = ar_blocks a ! ar_current a; aligned = round_up (blk_used b) oi_arena_align in
        if aligned > blk_capacity b \<or> sz > blk_capacity b - aligned then
          (case advance_block a of
             (False, a') \<Rightarrow> (None, a')
           | (True, a') \<Rightarrow> (Some (ar_current a', 0), set_used a' (0 + sz)))
        else (Some (ar_current a, aligned), set_used a (aligned + sz)))"

definition oi_arena_reset :: "oi_arena \<Rightarrow> oi_arena" where
  "oi_arena_reset a = a\<lparr>ar_blocks := map (\<lambda>b. b\<lparr>blk_used := 0\<rparr>) (ar_blocks a), ar_current := 0\<rparr>"

definition oi_arena_used :: "oi_arena \<Rightarrow> size_t" where
  "oi_arena_used a = foldl (\<lambda>total b. total + blk_used b) 0 (ar_blocks a)"

section \<open>Rounding up\<close>

lemma and_not_mask_nat:
  "unat (x AND NOT (mask k) :: 'a::len word) = unat x - unat x mod 2 ^ k"
proof -
  have "x - (x AND mask k) = x AND NOT (x AND mask k)"
    by (rule disjunctive_diff) (simp add: bit_simps)
  also have "\<dots> = x AND NOT (mask k)"
    by (rule bit_word_eqI) (auto simp: bit_simps)
  finally have e: "x AND NOT (mask k) = x - (x AND mask k)" ..
  have "x AND mask k \<le> x"
    by (simp add: word_le_nat_alt unat_and_mask)
  then show ?thesis by (simp only: e unat_sub unat_and_mask)
qed

lemma round_up_nat:
  assumes "unat n + 15 < 2 ^ 64"
  shows "unat (round_up n oi_arena_align) = (unat n + 15) div 16 * 16"
proof -
  have a: "oi_arena_align - 1 = mask 4" by (simp add: oi_arena_align_def mask_eq_exp_minus_1)
  have m: "unat (mask 4 :: size_t) = 15" by (simp add: mask_eq_exp_minus_1)
  have "unat (n + mask 4) = unat n + 15"
    using assms by (subst unat_add_lem [THEN iffD1]) (simp_all only: m len_of_numeral_defs, simp_all)
  then show ?thesis
    by (simp only: round_up_def a and_not_mask_nat) (simp add: minus_mod_eq_div_mult)
qed

section \<open>Invariant\<close>

text \<open>
  All blocks have the arena's block size, no block is filled beyond it, and the blocks after the
  current one are empty, which is what lets \<open>oi_arena_alloc\<close> start at offset 0 there.
\<close>

definition arena_inv :: "oi_arena \<Rightarrow> bool" where
  "arena_inv a \<longleftrightarrow>
     ar_current a < length (ar_blocks a)
   \<and> 0 < unat (ar_block_size a) \<and> unat (ar_block_size a) + 32 < 2 ^ 64
   \<and> (\<forall>b \<in> set (ar_blocks a). blk_capacity b = ar_block_size a \<and> unat (blk_used b) \<le> unat (ar_block_size a))
   \<and> (\<forall>i < length (ar_blocks a). ar_current a < i \<longrightarrow> blk_used (ar_blocks a ! i) = 0)"

lemma arena_inv_nth:
  "arena_inv a \<Longrightarrow> i < length (ar_blocks a) \<Longrightarrow>
     blk_capacity (ar_blocks a ! i) = ar_block_size a \<and> unat (blk_used (ar_blocks a ! i)) \<le> unat (ar_block_size a)"
  by (simp add: arena_inv_def)

lemma block_alloc_Some:
  "block_alloc h cap = (Some b, h') \<Longrightarrow>
     b = \<lparr>blk_capacity = cap, blk_used = 0\<rparr> \<and> h' = stl h \<and> shd h \<and> unat cap + 32 < 2 ^ 64"
proof -
  assume a: "block_alloc h cap = (Some b, h')"
  then have "\<not> cap > (- 1) - sizeof_block" by (auto simp: block_alloc_def split: if_splits)
  then have "unat cap \<le> 2 ^ 64 - 33" by (simp add: linorder_not_less word_le_nat_alt sizeof_block_def)
  with a show ?thesis by (auto simp: block_alloc_def split: if_splits)
qed

lemma block_alloc_heap_ok:
  "unat cap + 32 < 2 ^ 64 \<Longrightarrow>
     block_alloc heap_ok cap = (Some \<lparr>blk_capacity = cap, blk_used = 0\<rparr>, heap_ok)"
  by (auto simp: block_alloc_def sizeof_block_def word_le_nat_alt word_less_nat_alt)

lemma create_inv: "oi_arena_create h n = Some a \<Longrightarrow> arena_inv a"
proof -
  assume c: "oi_arena_create h n = Some a"
  let ?n = "if n = 0 then oi_arena_default_block_size else n"
  have "unat ?n \<noteq> 0" by (simp add: oi_arena_default_block_size_def unat_eq_0)
  with c show ?thesis
    by (auto simp: oi_arena_create_def Let_def arena_inv_def
        split: if_splits option.splits prod.splits dest!: block_alloc_Some)
qed

lemma reset_inv: "arena_inv a \<Longrightarrow> arena_inv (oi_arena_reset a)"
  by (auto simp: arena_inv_def oi_arena_reset_def)

lemma advance_inv:
  assumes "arena_inv a" "advance_block a = (ok, a')"
  shows "arena_inv a' \<and> ar_block_size a' = ar_block_size a
    \<and> (if ok then ar_current a' = ar_current a + 1 \<and> blk_used (ar_blocks a' ! ar_current a') = 0
         \<and> take (length (ar_blocks a)) (ar_blocks a') = ar_blocks a
         \<and> (if ar_current a + 1 < length (ar_blocks a) then ar_blocks a' = ar_blocks a \<and> arena_heap a' = arena_heap a
            else length (ar_blocks a') = length (ar_blocks a) + 1)
       else ar_blocks a' = ar_blocks a \<and> ar_current a' = ar_current a)"
proof (cases "ar_current a + 1 < length (ar_blocks a)")
  case True
  with assms show ?thesis by (auto simp: advance_block_def arena_inv_def)
next
  case False
  with assms(1) have "ar_current a + 1 = length (ar_blocks a)" by (auto simp: arena_inv_def)
  with assms show ?thesis
    by (auto simp: advance_block_def arena_inv_def nth_append split: option.splits prod.splits
        dest!: block_alloc_Some)
qed

lemma set_used_sel [simp]:
  "ar_current (set_used a n) = ar_current a" "ar_block_size (set_used a n) = ar_block_size a"
  "arena_heap (set_used a n) = arena_heap a" "length (ar_blocks (set_used a n)) = length (ar_blocks a)"
  by (simp_all add: set_used_def)

lemma set_used_nth:
  "i < length (ar_blocks a) \<Longrightarrow> ar_blocks (set_used a n) ! i
     = (if i = ar_current a then (ar_blocks a ! i)\<lparr>blk_used := n\<rparr> else ar_blocks a ! i)"
  by (auto simp: set_used_def nth_list_update)

lemma set_used_inv:
  assumes "arena_inv a" "unat n \<le> unat (ar_block_size a)"
  shows "arena_inv (set_used a n)"
  using assms unfolding arena_inv_def all_set_conv_all_nth
  by (auto simp: set_used_nth)

text \<open>The whole contract of an allocation.\<close>

lemma alloc_Some:
  assumes inv: "arena_inv a" and al: "oi_arena_alloc a n = (Some (i, off), a')"
  shows "arena_inv a' \<and> ar_block_size a' = ar_block_size a \<and> i = ar_current a'
    \<and> unat off mod 16 = 0 \<and> 0 < unat n \<and> unat off + unat n \<le> unat (ar_block_size a)
    \<and> unat (blk_used (ar_blocks a' ! i)) = unat off + unat n
    \<and> length (ar_blocks a) \<le> length (ar_blocks a')
    \<and> (i = ar_current a \<and> unat (blk_used (ar_blocks a ! i)) \<le> unat off \<or> i = ar_current a + 1)"
proof -
  let ?b = "ar_blocks a ! ar_current a"
  let ?al = "round_up (blk_used ?b) oi_arena_align"
  have cur: "ar_current a < length (ar_blocks a)" using inv by (simp add: arena_inv_def)
  note b = arena_inv_nth [OF inv cur]
  have n: "n \<noteq> 0" "\<not> n > ar_block_size a" using al by (auto simp: oi_arena_alloc_def split: if_splits)
  then have n': "0 < unat n" "unat n \<le> unat (ar_block_size a)"
    by (simp_all add: linorder_not_less word_le_nat_alt unat_gt_0)
  have bs: "unat (ar_block_size a) + 32 < 2 ^ 64" using inv by (simp add: arena_inv_def)
  have "unat (blk_used ?b) + 15 < 2 ^ 64" using b bs by simp
  then have ru: "unat ?al = (unat (blk_used ?b) + 15) div 16 * 16" by (rule round_up_nat)
  then have ge: "unat (blk_used ?b) \<le> unat ?al" by simp
  show ?thesis
  proof (cases "?al > blk_capacity ?b \<or> n > blk_capacity ?b - ?al")
    case True
    with al n obtain a1 where ad: "advance_block a = (True, a1)"
      and r: "i = ar_current a1" "off = 0" "a' = set_used a1 n"
      by (cases "advance_block a") (auto simp: oi_arena_alloc_def Let_def split: bool.splits)
    from advance_inv [OF inv ad] have i1: "arena_inv a1" "ar_block_size a1 = ar_block_size a"
      "ar_current a1 = ar_current a + 1"
      "length (ar_blocks a) \<le> length (ar_blocks a1)"
      by (auto split: if_splits)
    then have "ar_current a1 < length (ar_blocks a1)" by (simp add: arena_inv_def)
    with set_used_inv [OF i1(1), of n] i1 n' r show ?thesis
      by (auto simp: set_used_nth)
  next
    case False
    then have f: "?al \<le> ar_block_size a" "n \<le> ar_block_size a - ?al" using b by auto
    then have sum: "unat ?al + unat n \<le> unat (ar_block_size a)"
      by (simp add: word_le_nat_alt unat_sub)
    then have s: "unat (?al + n) = unat ?al + unat n"
      using bs by (subst unat_add_lem [THEN iffD1]) auto
    from False al n b have r: "i = ar_current a" "off = ?al" "a' = set_used a (?al + n)"
      by (auto simp: oi_arena_alloc_def Let_def)
    have "unat ?al mod 16 = 0" by (simp add: ru)
    with set_used_inv [OF inv, of "?al + n"] r n' sum s cur ge show ?thesis
      by (simp add: set_used_nth)
  qed
qed

lemma alloc_None:
  assumes inv: "arena_inv a" and al: "oi_arena_alloc a n = (None, a')"
  shows "arena_inv a' \<and> ar_blocks a' = ar_blocks a \<and> ar_current a' = ar_current a
    \<and> ar_block_size a' = ar_block_size a"
proof (cases "n = 0 \<or> n > ar_block_size a")
  case True
  with al inv show ?thesis by (auto simp: oi_arena_alloc_def)
next
  case False
  with al have "advance_block a = (False, a')"
    by (cases "advance_block a") (auto simp: oi_arena_alloc_def Let_def split: bool.splits if_splits)
  from advance_inv [OF inv this] show ?thesis by auto
qed

lemma alloc_heap_ok:
  assumes "arena_inv a" "arena_heap a = heap_ok" "0 < unat n" "unat n \<le> unat (ar_block_size a)"
  shows "\<exists>p a'. oi_arena_alloc a n = (Some p, a') \<and> arena_heap a' = heap_ok"
proof -
  have "unat (ar_block_size a) + 32 < 2 ^ 64" using assms(1) by (simp add: arena_inv_def)
  from block_alloc_heap_ok [OF this] assms(2)
  have "\<exists>a'. advance_block a = (True, a') \<and> arena_heap a' = heap_ok"
    by (simp add: advance_block_def)
  moreover have "n \<noteq> 0" "\<not> n > ar_block_size a"
    using assms(3,4) by (auto simp: linorder_not_less word_le_nat_alt)
  ultimately show ?thesis using assms(2)
    by (auto simp: oi_arena_alloc_def Let_def)
qed

section \<open>Sequences of requests\<close>

text \<open>
  The client's calls, with the regions it may use: what it obtained since the last reset, each a
  block, an offset and a size.
\<close>

datatype arena_op = Alloc size_t | Reset

type_synonym region = "nat \<times> size_t \<times> size_t"

fun arena_step :: "oi_arena \<times> region list \<Rightarrow> arena_op \<Rightarrow> oi_arena \<times> region list" where
  "arena_step (a, live) (Alloc n) =
     (case oi_arena_alloc a n of
        (None, a') \<Rightarrow> (a', live)
      | (Some (i, off), a') \<Rightarrow> (a', live @ [(i, off, n)]))"
| "arena_step (a, live) Reset = (oi_arena_reset a, [])"

definition arena_run :: "oi_arena \<Rightarrow> arena_op list \<Rightarrow> oi_arena \<times> region list" where
  "arena_run a ops = foldl arena_step (a, []) ops"

fun region_ok :: "oi_arena \<Rightarrow> region \<Rightarrow> bool" where
  "region_ok a (i, off, n) \<longleftrightarrow>
     i < length (ar_blocks a) \<and> unat off mod 16 = 0 \<and> 0 < unat n
   \<and> unat off + unat n \<le> unat (blk_capacity (ar_blocks a ! i))"

fun disjoint_regions :: "region \<Rightarrow> region \<Rightarrow> bool" where
  "disjoint_regions (i, off, n) (j, off', m) \<longleftrightarrow>
     i \<noteq> j \<or> unat off + unat n \<le> unat off' \<or> unat off' + unat m \<le> unat off"

text \<open>The bump pointer lies behind every live region, which is why a new one is disjoint from them.\<close>

fun before_bump :: "oi_arena \<Rightarrow> region \<Rightarrow> bool" where
  "before_bump a (i, off, n) \<longleftrightarrow>
     i < ar_current a \<or> i = ar_current a \<and> unat off + unat n \<le> unat (blk_used (ar_blocks a ! i))"

definition run_inv :: "oi_arena \<times> region list \<Rightarrow> bool" where
  "run_inv st \<longleftrightarrow> (case st of (a, live) \<Rightarrow>
     arena_inv a \<and> (\<forall>r \<in> set live. region_ok a r \<and> before_bump a r)
     \<and> sorted_wrt disjoint_regions live)"

lemma region_ok_mono:
  assumes "arena_inv a" "arena_inv a'" "ar_block_size a' = ar_block_size a"
    "length (ar_blocks a) \<le> length (ar_blocks a')" "region_ok a r"
  shows "region_ok a' r"
proof (cases r)
  case (fields i off n)
  with assms(5) have "i < length (ar_blocks a)" by simp
  with assms arena_inv_nth [OF assms(1), of i] arena_inv_nth [OF assms(2), of i] fields
  show ?thesis by simp
qed

text \<open>A region before the bump pointer stays before it, and is disjoint from the new region.\<close>

lemma alloc_behind:
  assumes "arena_inv a" "oi_arena_alloc a n = (Some (i, off), a')" "before_bump a r"
  shows "before_bump a' r \<and> disjoint_regions r (i, off, n)"
proof (cases r)
  case (fields j off' m)
  note f = alloc_Some [OF assms(1,2)]
  then have i: "i = ar_current a'" and u: "unat (blk_used (ar_blocks a' ! i)) = unat off + unat n"
    by blast+
  from f have "i = ar_current a \<and> unat (blk_used (ar_blocks a ! i)) \<le> unat off \<or> i = ar_current a + 1"
    by blast
  then show ?thesis
  proof
    assume c: "i = ar_current a \<and> unat (blk_used (ar_blocks a ! i)) \<le> unat off"
    with assms(3) fields have "j < i \<or> j = i \<and> unat off' + unat m \<le> unat off" by auto
    with i u fields show ?thesis by (auto simp del: unat_add_lem)
  next
    assume c: "i = ar_current a + 1"
    with assms(3) fields have "j < i" by auto
    with i fields show ?thesis by simp
  qed
qed

lemma arena_step_inv: "run_inv st \<Longrightarrow> run_inv (arena_step st op)"
proof (induction st op rule: arena_step.induct)
  case (1 a live n)
  then have inv: "arena_inv a" and live: "\<forall>r \<in> set live. region_ok a r \<and> before_bump a r"
    and dis: "sorted_wrt disjoint_regions live"
    by (simp_all add: run_inv_def)
  show ?case
  proof (cases "oi_arena_alloc a n")
    case (Pair res a')
    show ?thesis
    proof (cases res)
      case None
      with Pair have al: "oi_arena_alloc a n = (None, a')" by simp
      note f = alloc_None [OF inv al]
      have "before_bump a' r = before_bump a r" "region_ok a' r = region_ok a r" for r
        using f by (cases r, simp)+
      then have "run_inv (a', live)" using live dis f by (simp add: run_inv_def)
      with al show ?thesis by simp
    next
      case (Some p)
      obtain i off where p: "p = (i, off)" by fastforce
      with Some Pair have al: "oi_arena_alloc a n = (Some (i, off), a')" by simp
      note f = alloc_Some [OF inv al]
      then have i: "arena_inv a'" "i = ar_current a'" "i < length (ar_blocks a')"
        by (auto simp: arena_inv_def)
      from arena_inv_nth [OF i(1,3)] f have "blk_capacity (ar_blocks a' ! i) = ar_block_size a"
        by simp
      then have new: "region_ok a' (i, off, n) \<and> before_bump a' (i, off, n)"
        using f i(2,3) by (simp del: unat_add_lem)
      have "length (ar_blocks a) \<le> length (ar_blocks a')" "ar_block_size a' = ar_block_size a"
        using f by blast+
      with live region_ok_mono [OF inv i(1)] alloc_behind [OF inv al]
      have old: "region_ok a' r \<and> before_bump a' r \<and> disjoint_regions r (i, off, n)"
        if "r \<in> set live" for r
        using that by blast
      have "arena_step (a, live) (Alloc n) = (a', live @ [(i, off, n)])" by (simp add: al)
      with new old dis i(1) show ?thesis
        by (simp add: run_inv_def sorted_wrt_append ball_Un del: region_ok.simps before_bump.simps
            disjoint_regions.simps arena_step.simps)
    qed
  qed
next
  case (2 a live)
  then show ?case by (simp add: run_inv_def reset_inv)
qed

lemma run_inv_run:
  assumes "arena_inv a"
  shows "run_inv (arena_run a ops)"
proof -
  have "run_inv st \<Longrightarrow> run_inv (foldl arena_step st ops)" for st
    by (induction ops arbitrary: st) (simp_all add: arena_step_inv)
  moreover have "run_inv (a, [])" using assms by (simp add: run_inv_def)
  ultimately show ?thesis unfolding arena_run_def by blast
qed

section \<open>Properties\<close>

text \<open>
  C15. Memory safety of the arena. After any sequence of allocations and resets on a fresh arena,
  whatever \<open>malloc\<close> answers, every region handed out since the last reset lies inside its block,
  starts at a multiple of 16, and the regions do not overlap.
\<close>

theorem arena_regions_disjoint:
  assumes "oi_arena_create h bs = Some a" and "arena_run a ops = (a', live)"
  shows "(\<forall>r \<in> set live. region_ok a' r) \<and> sorted_wrt disjoint_regions live"
  using run_inv_run [OF create_inv [OF assms(1)], of ops] assms(2) by (simp add: run_inv_def)

theorem arena_regions_disjoint_witness:
  "\<exists>a a' live. oi_arena_create heap_ok 64 = Some a
    \<and> arena_run a [Alloc 3, Alloc 40, Reset, Alloc 8, Alloc 64] = (a', live) \<and> length live = 2
    \<and> (\<forall>r \<in> set live. region_ok a' r) \<and> sorted_wrt disjoint_regions live"
proof -
  let ?a = "\<lparr>ar_blocks = [\<lparr>blk_capacity = 64, blk_used = 0\<rparr>], ar_current = 0, ar_block_size = 64,
    arena_heap = heap_ok\<rparr>"
  let ?ops = "[Alloc 3, Alloc 40, Reset, Alloc 8, Alloc 64]"
  have c: "oi_arena_create heap_ok 64 = Some ?a"
    by (simp add: oi_arena_create_def block_alloc_def sizeof_block_def)
  obtain a' live where r: "arena_run ?a ?ops = (a', live)" by fastforce
  moreover have "length (snd (arena_run ?a ?ops)) = 2"
    by (simp add: arena_run_def oi_arena_alloc_def Let_def round_up_def oi_arena_align_def
        advance_block_def block_alloc_def sizeof_block_def set_used_def oi_arena_reset_def)
  ultimately show ?thesis using arena_regions_disjoint [OF c r] c by auto
qed

text \<open>
  When \<open>malloc\<close> does not fail, an allocation succeeds exactly for the sizes from 1 to the block
  size.
\<close>

theorem arena_alloc_succeeds:
  assumes "arena_inv a" and "arena_heap a = heap_ok"
  shows "(\<exists>p a'. oi_arena_alloc a n = (Some p, a')) \<longleftrightarrow> 0 < n \<and> n \<le> ar_block_size a"
proof -
  have "unat n \<le> unat (ar_block_size a) \<longleftrightarrow> n \<le> ar_block_size a" "0 < unat n \<longleftrightarrow> 0 < n"
    by (simp_all add: word_le_nat_alt word_less_nat_alt)
  then show ?thesis
    using alloc_heap_ok [OF assms, of n] by (auto simp: oi_arena_alloc_def word_gt_0)
qed

theorem arena_alloc_succeeds_witness:
  "\<exists>a. oi_arena_create heap_ok 64 = Some a \<and> (\<exists>p a'. oi_arena_alloc a 64 = (Some p, a'))"
proof -
  have "\<exists>a. oi_arena_create heap_ok 64 = Some a \<and> arena_heap a = heap_ok \<and> ar_block_size a = 64"
    by (simp add: oi_arena_create_def block_alloc_def sizeof_block_def)
  then show ?thesis using arena_alloc_succeeds [of _ 64] create_inv by auto
qed

text \<open>A list of requests and the pointers they obtain.\<close>

fun alloc_all :: "oi_arena \<Rightarrow> size_t list \<Rightarrow> pointer option list \<times> oi_arena" where
  "alloc_all a [] = ([], a)"
| "alloc_all a (n # ns) =
     (case oi_arena_alloc a n of (p, a1) \<Rightarrow> (case alloc_all a1 ns of (ps, a2) \<Rightarrow> (p # ps, a2)))"

text \<open>
  An arena \<open>r\<close> that has at least the blocks of \<open>a\<close> and agrees with it up to the current block
  answers as \<open>a\<close> does, without asking the allocator.
\<close>

definition ahead :: "oi_arena \<Rightarrow> oi_arena \<Rightarrow> bool" where
  "ahead a r \<longleftrightarrow> arena_inv a \<and> arena_inv r \<and> ar_current r = ar_current a
     \<and> ar_block_size r = ar_block_size a \<and> length (ar_blocks a) = Suc (ar_current a)
     \<and> blk_used (ar_blocks r ! ar_current a) = blk_used (ar_blocks a ! ar_current a)"

lemma alloc_length:
  assumes "arena_inv a" "oi_arena_alloc a n = (p, a')"
  shows "arena_inv a' \<and> length (ar_blocks a) \<le> length (ar_blocks a') \<and> ar_block_size a' = ar_block_size a"
proof (cases p)
  case None
  with alloc_None [OF assms(1), of n a'] assms(2) show ?thesis by simp
next
  case (Some q)
  with alloc_Some [OF assms(1), of n "fst q" "snd q" a'] assms(2) show ?thesis
    by (simp only: prod.collapse)
qed

lemma alloc_all_length:
  "arena_inv a \<Longrightarrow> alloc_all a ns = (ps, a') \<Longrightarrow> length (ar_blocks a) \<le> length (ar_blocks a')"
proof (induction ns arbitrary: a ps)
  case (Cons n ns)
  obtain p a1 where 1: "oi_arena_alloc a n = (p, a1)" by fastforce
  with Cons.prems(2) obtain ps' where "alloc_all a1 ns = (ps', a')"
    by (auto split: prod.splits)
  with Cons.IH [of a1 ps'] alloc_length [OF Cons.prems(1) 1] show ?case by simp
qed simp

lemma ahead_alloc:
  assumes ah: "ahead a r" and al: "oi_arena_alloc a n = (Some p, a')"
    and len: "length (ar_blocks a') \<le> length (ar_blocks r)"
  shows "\<exists>r'. oi_arena_alloc r n = (Some p, r') \<and> ahead a' r' \<and> arena_heap r' = arena_heap r
    \<and> length (ar_blocks r') = length (ar_blocks r)"
proof -
  let ?b = "ar_blocks a ! ar_current a"
  let ?al = "round_up (blk_used ?b) oi_arena_align"
  from ah have inv: "arena_inv a" "arena_inv r" and cur: "ar_current r = ar_current a"
    "length (ar_blocks a) = Suc (ar_current a)" and bs: "ar_block_size r = ar_block_size a"
    and us: "blk_used (ar_blocks r ! ar_current a) = blk_used ?b"
    by (simp_all add: ahead_def)
  have cr: "ar_current a < length (ar_blocks r)" "ar_current a < length (ar_blocks a)"
    using inv cur by (auto simp: arena_inv_def)
  have cap: "blk_capacity (ar_blocks r ! ar_current a) = blk_capacity ?b"
    using arena_inv_nth [OF inv(2) cr(1)] arena_inv_nth [OF inv(1) cr(2)] bs by simp
  have n: "n \<noteq> 0" "\<not> n > ar_block_size a"
    using al by (auto simp: oi_arena_alloc_def split: if_splits)
  obtain i off where p: "p = (i, off)" by fastforce
  note ok = alloc_Some [OF inv(1) al [unfolded p]]
  show ?thesis
  proof (cases "?al > blk_capacity ?b \<or> n > blk_capacity ?b - ?al")
    case True
    with al n obtain a1 where ad: "advance_block a = (True, a1)"
      and r: "p = (ar_current a1, 0)" "a' = set_used a1 n"
      by (cases "advance_block a") (auto simp: oi_arena_alloc_def Let_def split: bool.splits)
    from advance_inv [OF inv(1) ad] cur(2)
    have a1: "ar_current a1 = Suc (ar_current a)" "length (ar_blocks a1) = Suc (Suc (ar_current a))"
      "ar_block_size a1 = ar_block_size a"
      by (auto split: if_splits)
    let ?r1 = "r\<lparr>ar_current := Suc (ar_current a)\<rparr>"
    from len r(2) a1 have nx: "Suc (ar_current a) < length (ar_blocks r)" by simp
    then have ad': "advance_block r = (True, ?r1)" by (simp add: advance_block_def cur(1))
    then have "oi_arena_alloc r n = (Some p, set_used ?r1 n)"
      using True n cur(1) cap us bs a1(1) r(1) by (simp add: oi_arena_alloc_def Let_def)
    moreover from alloc_Some [OF inv(2) this [unfolded p]]
    have "ahead a' (set_used ?r1 n)"
      using ok nx a1 r bs cur by (simp add: ahead_def set_used_nth)
    ultimately show ?thesis by simp
  next
    case False
    with al n have r: "p = (ar_current a, ?al)" "a' = set_used a (?al + n)"
      by (auto simp: oi_arena_alloc_def Let_def)
    have al': "oi_arena_alloc r n = (Some p, set_used r (?al + n))"
      using False n cur cap us bs r(1) by (simp add: oi_arena_alloc_def Let_def)
    moreover from alloc_Some [OF inv(2) al' [unfolded p]]
    have "ahead a' (set_used r (?al + n))"
      using ok r bs cur cr by (simp add: ahead_def set_used_nth)
    ultimately show ?thesis by simp
  qed
qed

lemma ahead_alloc_all:
  "ahead a r \<Longrightarrow> alloc_all a ns = (ps, a') \<Longrightarrow> None \<notin> set ps \<Longrightarrow>
   length (ar_blocks a') \<le> length (ar_blocks r) \<Longrightarrow>
   \<exists>r'. alloc_all r ns = (ps, r') \<and> arena_heap r' = arena_heap r
     \<and> length (ar_blocks r') = length (ar_blocks r)"
proof (induction ns arbitrary: a r ps)
  case (Cons n ns)
  obtain q a1 where 1: "oi_arena_alloc a n = (q, a1)" by fastforce
  with Cons.prems(2) obtain ps' where 2: "alloc_all a1 ns = (ps', a')" "ps = q # ps'"
    by (auto split: prod.splits)
  with Cons.prems(3) obtain p where q: "q = Some p" by (cases q) auto
  have inv: "arena_inv a" using Cons.prems(1) by (simp add: ahead_def)
  have "length (ar_blocks a1) \<le> length (ar_blocks r)"
    using alloc_all_length [OF conjunct1 [OF alloc_length [OF inv 1]] 2(1)] Cons.prems(4) by simp
  from ahead_alloc [OF Cons.prems(1) 1 [unfolded q] this] obtain r1
    where r1: "oi_arena_alloc r n = (Some p, r1)" "ahead a1 r1" "arena_heap r1 = arena_heap r"
      "length (ar_blocks r1) = length (ar_blocks r)" by blast
  from Cons.IH [OF r1(2) 2(1)] Cons.prems(3,4) 2(2) r1(4) obtain r'
    where "alloc_all r1 ns = (ps', r')" "arena_heap r' = arena_heap r1"
      "length (ar_blocks r') = length (ar_blocks r1)" by auto
  with r1 2(2) q show ?case by simp
qed simp

lemma alloc_all_inv: "arena_inv a \<Longrightarrow> alloc_all a ns = (ps, a') \<Longrightarrow> arena_inv a' \<and> ar_block_size a' = ar_block_size a"
proof (induction ns arbitrary: a ps)
  case (Cons n ns)
  obtain q a1 where 1: "oi_arena_alloc a n = (q, a1)" by fastforce
  with Cons.prems(2) obtain ps' where 2: "alloc_all a1 ns = (ps', a')"
    by (auto split: prod.splits)
  with Cons.IH [OF _ 2] alloc_length [OF Cons.prems(1) 1] show ?case by simp
qed simp

text \<open>
  A reset keeps the memory: the requests that a fresh arena could serve are served again after
  the reset with the same pointers, without one call of \<open>malloc\<close> and without a new block.
\<close>

theorem arena_reset_reuses:
  assumes "oi_arena_create h bs = Some a" and "alloc_all a ns = (ps, a')" and "None \<notin> set ps"
  shows "\<exists>r'. alloc_all (oi_arena_reset a') ns = (ps, r') \<and> arena_heap r' = arena_heap a'
    \<and> length (ar_blocks r') = length (ar_blocks a')"
proof -
  note inv = create_inv [OF assms(1)]
  have f: "length (ar_blocks a) = 1" "ar_current a = 0" "blk_used (ar_blocks a ! 0) = 0"
    using assms(1) by (auto simp: oi_arena_create_def Let_def split: if_splits option.splits prod.splits
        dest!: block_alloc_Some)
  note inv' = alloc_all_inv [OF inv assms(2)]
  have "0 < length (ar_blocks a')" using inv' by (auto simp: arena_inv_def)
  then have "ahead a (oi_arena_reset a')"
    using f inv inv' reset_inv [of a'] by (simp add: ahead_def) (simp add: oi_arena_reset_def)
  from ahead_alloc_all [OF this assms(2,3)] show ?thesis
    by (simp add: oi_arena_reset_def)
qed

theorem arena_reset_reuses_witness:
  "\<exists>a a' ps. oi_arena_create heap_ok 64 = Some a \<and> alloc_all a [40, 40] = (ps, a')
    \<and> ps = [Some (0, 0), Some (1, 0)]
    \<and> (\<exists>r'. alloc_all (oi_arena_reset a') [40, 40] = (ps, r') \<and> arena_heap r' = arena_heap a'
        \<and> length (ar_blocks r') = length (ar_blocks a'))"
proof -
  let ?a = "\<lparr>ar_blocks = [\<lparr>blk_capacity = 64, blk_used = 0\<rparr>], ar_current = 0, ar_block_size = 64,
    arena_heap = heap_ok\<rparr>"
  have c: "oi_arena_create heap_ok 64 = Some ?a"
    by (simp add: oi_arena_create_def block_alloc_def sizeof_block_def)
  have "\<exists>a'. alloc_all ?a [40, 40] = ([Some (0, 0), Some (1, 0)], a')"
    by (simp add: oi_arena_alloc_def Let_def round_up_def oi_arena_align_def
        advance_block_def block_alloc_def sizeof_block_def set_used_def)
  then obtain a' where r: "alloc_all ?a [40, 40] = ([Some (0, 0), Some (1, 0)], a')" ..
  from arena_reset_reuses [OF c r] c r show ?thesis by auto
qed

text \<open>
  \<open>oi_arena_used\<close> counts the alignment padding as well: two one-byte allocations on a fresh arena
  make it 17, not the 2 bytes handed out.
\<close>

theorem arena_used_counts_padding:
  "\<exists>a a'. oi_arena_create heap_ok 64 = Some a
    \<and> alloc_all a [1, 1] = ([Some (0, 0), Some (0, 16)], a') \<and> oi_arena_used a' = 17"
  by (simp add: oi_arena_create_def block_alloc_def sizeof_block_def oi_arena_alloc_def Let_def
      round_up_def oi_arena_align_def set_used_def oi_arena_used_def)

end
