(* ===== verification/Json_Value.thy ===== *)
theory Json_Value
  imports Arena
begin

text \<open>
  \<open>src/json_value.c\<close> and \<open>src/json_internal.h\<close>: the value tree, its arena-backed constructors and the
  accessors. The tree is a datatype; what is kept of its memory is the arena each constructor takes
  its nodes from, and the capacity of an array. A \<open>double\<close> is its IEEE-754 bit pattern.
\<close>

type_synonym double = "64 word"

datatype oi_json_value =
    JSON_NULL
  | JSON_BOOL bool
  | JSON_NUMBER double
  | JSON_STRING bytes
  | JSON_ARRAY "oi_json_value list" nat
  | JSON_OBJECT "(bytes \<times> oi_json_value) list"

datatype oi_json_type =
  OI_JSON_NULL | OI_JSON_BOOL | OI_JSON_NUMBER | OI_JSON_STRING | OI_JSON_ARRAY | OI_JSON_OBJECT

text \<open>\<open>sizeof(oi_json_value)\<close>, \<open>sizeof(struct oi_json_member)\<close> and \<open>sizeof(oi_json_value *)\<close>.\<close>

definition sizeof_value :: nat where "sizeof_value = 32"
definition sizeof_member :: nat where "sizeof_member = 32"
definition sizeof_pointer :: nat where "sizeof_pointer = 8"

section \<open>Constructors\<close>

definition arena_take :: "oi_arena \<Rightarrow> nat \<Rightarrow> bool \<times> oi_arena" where
  "arena_take a n = (case oi_arena_alloc a (word_of_nat n) of (p, a') \<Rightarrow> (p \<noteq> None, a'))"

definition oi_json_new_null :: "oi_arena \<Rightarrow> oi_json_value option \<times> oi_arena" where
  "oi_json_new_null a =
     (case arena_take a sizeof_value of (ok, a') \<Rightarrow> (if ok then Some JSON_NULL else None, a'))"

definition oi_json_new_bool :: "oi_arena \<Rightarrow> bool \<Rightarrow> oi_json_value option \<times> oi_arena" where
  "oi_json_new_bool a value =
     (case arena_take a sizeof_value of (ok, a') \<Rightarrow> (if ok then Some (JSON_BOOL value) else None, a'))"

definition oi_json_new_number :: "oi_arena \<Rightarrow> double \<Rightarrow> oi_json_value option \<times> oi_arena" where
  "oi_json_new_number a value =
     (case arena_take a sizeof_value of (ok, a') \<Rightarrow> (if ok then Some (JSON_NUMBER value) else None, a'))"

definition oi_json_new_string :: "oi_arena \<Rightarrow> bytes \<Rightarrow> oi_json_value option \<times> oi_arena" where
  "oi_json_new_string a s =
     (if length s = size_max then (None, a)
      else (case arena_take a sizeof_value of
              (False, a1) \<Rightarrow> (None, a1)
            | (True, a1) \<Rightarrow>
                (case arena_take a1 (length s + 1) of
                   (ok, a2) \<Rightarrow> (if ok then Some (JSON_STRING s) else None, a2))))"

definition oi_json_new_array :: "oi_arena \<Rightarrow> oi_json_value option \<times> oi_arena" where
  "oi_json_new_array a =
     (case arena_take a sizeof_value of (ok, a') \<Rightarrow> (if ok then Some (JSON_ARRAY [] 0) else None, a'))"

definition oi_json_new_object :: "oi_arena \<Rightarrow> oi_json_value option \<times> oi_arena" where
  "oi_json_new_object a =
     (case arena_take a sizeof_value of (ok, a') \<Rightarrow> (if ok then Some (JSON_OBJECT []) else None, a'))"

text \<open>
  The two mutators take the container and return it changed. The type assertions of the C code hold
  by the callers; on another constructor the model answers \<open>OI_ERR_INVAL\<close>.
\<close>

fun oi_json_array_push ::
  "oi_arena \<Rightarrow> oi_json_value \<Rightarrow> oi_json_value \<Rightarrow> oi_status \<times> oi_json_value \<times> oi_arena" where
  "oi_json_array_push a (JSON_ARRAY items cap) item =
     (if length items = cap then
        if cap > size_max div 2 then (OI_ERR_NOMEM, JSON_ARRAY items cap, a)
        else let new_capacity = (if cap = 0 then 4 else cap * 2) in
          if new_capacity > size_max div sizeof_pointer then (OI_ERR_NOMEM, JSON_ARRAY items cap, a)
          else (case arena_take a (new_capacity * sizeof_pointer) of
                  (False, a') \<Rightarrow> (OI_ERR_NOMEM, JSON_ARRAY items cap, a')
                | (True, a') \<Rightarrow> (OI_OK, JSON_ARRAY (items @ [item]) new_capacity, a'))
      else (OI_OK, JSON_ARRAY (items @ [item]) cap, a))"
| "oi_json_array_push a v item = (OI_ERR_INVAL, v, a)"

fun oi_json_object_append ::
  "oi_arena \<Rightarrow> oi_json_value \<Rightarrow> bytes \<Rightarrow> oi_json_value \<Rightarrow> oi_status \<times> oi_json_value \<times> oi_arena" where
  "oi_json_object_append a (JSON_OBJECT ms) key v =
     (if length key = size_max then (OI_ERR_NOMEM, JSON_OBJECT ms, a)
      else (case arena_take a (length key + 1) of
              (False, a1) \<Rightarrow> (OI_ERR_NOMEM, JSON_OBJECT ms, a1)
            | (True, a1) \<Rightarrow>
                (case arena_take a1 sizeof_member of
                   (False, a2) \<Rightarrow> (OI_ERR_NOMEM, JSON_OBJECT ms, a2)
                 | (True, a2) \<Rightarrow> (OI_OK, JSON_OBJECT (ms @ [(key, v)]), a2))))"
| "oi_json_object_append a obj key v = (OI_ERR_INVAL, obj, a)"

section \<open>Accessors\<close>

text \<open>A value argument that may be NULL is an option.\<close>

fun oi_json_type_of :: "oi_json_value \<Rightarrow> oi_json_type" where
  "oi_json_type_of JSON_NULL = OI_JSON_NULL"
| "oi_json_type_of (JSON_BOOL _) = OI_JSON_BOOL"
| "oi_json_type_of (JSON_NUMBER _) = OI_JSON_NUMBER"
| "oi_json_type_of (JSON_STRING _) = OI_JSON_STRING"
| "oi_json_type_of (JSON_ARRAY _ _) = OI_JSON_ARRAY"
| "oi_json_type_of (JSON_OBJECT _) = OI_JSON_OBJECT"

fun oi_json_get_bool :: "oi_json_value option \<Rightarrow> oi_status + bool" where
  "oi_json_get_bool (Some (JSON_BOOL b)) = Inr b"
| "oi_json_get_bool _ = Inl OI_ERR_INVAL"

fun oi_json_get_number :: "oi_json_value option \<Rightarrow> oi_status + double" where
  "oi_json_get_number (Some (JSON_NUMBER d)) = Inr d"
| "oi_json_get_number _ = Inl OI_ERR_INVAL"

fun oi_json_get_string :: "oi_json_value option \<Rightarrow> oi_status + bytes" where
  "oi_json_get_string (Some (JSON_STRING s)) = Inr s"
| "oi_json_get_string _ = Inl OI_ERR_INVAL"

fun oi_json_array_len :: "oi_json_value option \<Rightarrow> nat" where
  "oi_json_array_len (Some (JSON_ARRAY items _)) = length items"
| "oi_json_array_len _ = 0"

fun oi_json_array_get :: "oi_json_value option \<Rightarrow> nat \<Rightarrow> oi_json_value option" where
  "oi_json_array_get (Some (JSON_ARRAY items _)) index =
     (if index \<ge> length items then None else Some (items ! index))"
| "oi_json_array_get _ _ = None"

fun oi_json_object_len :: "oi_json_value option \<Rightarrow> nat" where
  "oi_json_object_len (Some (JSON_OBJECT ms)) = length ms"
| "oi_json_object_len _ = 0"

fun object_scan :: "(bytes \<times> oi_json_value) list \<Rightarrow> bytes \<Rightarrow> oi_json_value option" where
  "object_scan [] key = None"
| "object_scan ((k, v) # ms) key =
     (if length k = length key \<and> k = key then Some v else object_scan ms key)"

text \<open>\<open>key\<close> is NUL-terminated: the scan compares with the bytes before its first NUL.\<close>

fun oi_json_object_get :: "oi_json_value option \<Rightarrow> bytes \<Rightarrow> oi_json_value option" where
  "oi_json_object_get (Some (JSON_OBJECT ms)) key = object_scan ms (c_string key)"
| "oi_json_object_get _ key = None"

section \<open>Memory\<close>

text \<open>
  A well-formed tree: the items of every array fit its capacity. \<open>value_cap n\<close> is the capacity that
  \<open>n\<close> pushes onto a new array lead to.
\<close>

fun value_cap :: "nat \<Rightarrow> nat" where
  "value_cap 0 = 0"
| "value_cap (Suc n) =
     (if n = value_cap n then (if n = 0 then 4 else 2 * n) else value_cap n)"

lemma value_cap_le: "n \<le> value_cap n"
  by (induction n) auto

lemma value_cap_bound: "value_cap n \<le> 2 * n + 4"
  by (induction n) auto

lemma arena_take_inv:
  assumes "arena_inv a" "arena_take a n = (ok, a')"
  shows "arena_inv a' \<and> ar_block_size a' = ar_block_size a"
  using alloc_length [OF assms(1)] assms(2) by (auto simp: arena_take_def split: prod.splits)

text \<open>The arena of an allocator that does not fail, with blocks for requests up to \<open>n\<close> bytes.\<close>

definition roomy :: "nat \<Rightarrow> oi_arena \<Rightarrow> bool" where
  "roomy n a \<longleftrightarrow> arena_inv a \<and> arena_heap a = heap_ok \<and> n \<le> unat (ar_block_size a)"

lemma roomy_take:
  assumes "roomy N a" "0 < n" "n \<le> N"
  shows "\<exists>a'. arena_take a n = (True, a') \<and> roomy N a'"
proof -
  have "n < 2 ^ 64" using assms by (auto simp: roomy_def arena_inv_def)
  then have u: "unat (word_of_nat n :: size_t) = n" by (simp add: unsigned_of_nat take_bit_nat_eq_self)
  with assms alloc_heap_ok [of a "word_of_nat n"] obtain p a' where
    al: "oi_arena_alloc a (word_of_nat n) = (Some p, a')" "arena_heap a' = heap_ok"
    by (auto simp: roomy_def)
  then have "arena_take a n = (True, a')" by (simp add: arena_take_def)
  with arena_take_inv [of a n True a'] al assms show ?thesis by (simp add: roomy_def)
qed

lemma roomy_new:
  assumes "roomy N a" "sizeof_value \<le> N"
  shows "\<exists>a'. oi_json_new_null a = (Some JSON_NULL, a') \<and> roomy N a'"
    "\<exists>a'. oi_json_new_bool a b = (Some (JSON_BOOL b), a') \<and> roomy N a'"
    "\<exists>a'. oi_json_new_number a d = (Some (JSON_NUMBER d), a') \<and> roomy N a'"
    "\<exists>a'. oi_json_new_array a = (Some (JSON_ARRAY [] 0), a') \<and> roomy N a'"
    "\<exists>a'. oi_json_new_object a = (Some (JSON_OBJECT []), a') \<and> roomy N a'"
proof -
  from roomy_take [OF assms(1) _ assms(2)] obtain a'
    where "arena_take a sizeof_value = (True, a')" "roomy N a'" by (auto simp: sizeof_value_def)
  then show "\<exists>a'. oi_json_new_null a = (Some JSON_NULL, a') \<and> roomy N a'"
    "\<exists>a'. oi_json_new_bool a b = (Some (JSON_BOOL b), a') \<and> roomy N a'"
    "\<exists>a'. oi_json_new_number a d = (Some (JSON_NUMBER d), a') \<and> roomy N a'"
    "\<exists>a'. oi_json_new_array a = (Some (JSON_ARRAY [] 0), a') \<and> roomy N a'"
    "\<exists>a'. oi_json_new_object a = (Some (JSON_OBJECT []), a') \<and> roomy N a'"
    by (simp_all add: oi_json_new_null_def oi_json_new_bool_def oi_json_new_number_def
        oi_json_new_array_def oi_json_new_object_def)
qed

lemma roomy_le: "roomy N a \<Longrightarrow> N + 32 < 2 ^ 64"
  by (auto simp: roomy_def arena_inv_def)

lemma roomy_string:
  assumes "roomy N a" "sizeof_value \<le> N" "length s + 1 \<le> N"
  shows "\<exists>a'. oi_json_new_string a s = (Some (JSON_STRING s), a') \<and> roomy N a'"
proof -
  have l: "length s \<noteq> size_max" using assms(3) roomy_le [OF assms(1)] by (simp add: size_max_def)
  obtain a1 where 1: "arena_take a sizeof_value = (True, a1)" "roomy N a1"
    using roomy_take [OF assms(1) _ assms(2)] by (auto simp: sizeof_value_def)
  obtain a2 where "arena_take a1 (length s + 1) = (True, a2)" "roomy N a2"
    using roomy_take [OF 1(2) _ assms(3)] by auto
  with 1 l show ?thesis by (simp add: oi_json_new_string_def)
qed

lemma roomy_push:
  assumes "roomy N a" "16 * length items + 32 \<le> N"
  shows "\<exists>a'. oi_json_array_push a (JSON_ARRAY items (value_cap (length items))) item
      = (OI_OK, JSON_ARRAY (items @ [item]) (value_cap (length (items @ [item]))), a') \<and> roomy N a'"
proof (cases "length items = value_cap (length items)")
  case True
  let ?c = "if length items = 0 then 4 else length items * 2"
  have c: "0 < ?c * sizeof_pointer" "?c * sizeof_pointer \<le> N"
    using assms(2) by (auto simp: sizeof_pointer_def)
  obtain a' where a': "arena_take a (?c * sizeof_pointer) = (True, a')" "roomy N a'"
    using roomy_take [OF assms(1) c] by blast
  have "\<not> length items > size_max div 2" "\<not> ?c > size_max div sizeof_pointer"
    using roomy_le [OF assms(1)] assms(2) by (auto simp: size_max_def sizeof_pointer_def)
  with a' True show ?thesis by (auto simp: Let_def)
next
  case False
  with assms show ?thesis by auto
qed

lemma roomy_append:
  assumes "roomy N a" "sizeof_member \<le> N" "length key + 1 \<le> N"
  shows "\<exists>a'. oi_json_object_append a (JSON_OBJECT ms) key v = (OI_OK, JSON_OBJECT (ms @ [(key, v)]), a')
    \<and> roomy N a'"
proof -
  have l: "length key \<noteq> size_max" using assms(3) roomy_le [OF assms(1)] by (simp add: size_max_def)
  obtain a1 where 1: "arena_take a (length key + 1) = (True, a1)" "roomy N a1"
    using roomy_take [OF assms(1) _ assms(3)] by auto
  obtain a2 where "arena_take a1 sizeof_member = (True, a2)" "roomy N a2"
    using roomy_take [OF 1(2) _ assms(2)] by (auto simp: sizeof_member_def)
  with 1 l show ?thesis by simp
qed

section \<open>Properties\<close>

lemma object_scan_map_of: "object_scan ms key = map_of ms key"
  by (induction ms key rule: object_scan.induct) auto

text \<open>
  The object contract. A successful append makes the object one longer and looks up, for every
  key without NUL, as before for the keys it already had, and as the new member otherwise: of
  duplicate keys the first one wins.
\<close>

theorem json_object_append_get:
  assumes "oi_json_object_append a obj key v = (OI_OK, obj', a')" and "0 \<notin> set k"
  shows "oi_json_object_len (Some obj') = oi_json_object_len (Some obj) + 1
    \<and> oi_json_object_get (Some obj') k =
      (case oi_json_object_get (Some obj) k of
         Some w \<Rightarrow> Some w | None \<Rightarrow> if k = key then Some v else None)"
proof -
  from assms(1) obtain ms where "obj = JSON_OBJECT ms" "obj' = JSON_OBJECT (ms @ [(key, v)])"
    by (cases obj) (auto split: if_splits prod.splits bool.splits)
  with c_string_id [OF assms(2)] show ?thesis
    by (auto simp: object_scan_map_of map_add_def split: option.splits)
qed

text \<open>
  The array contract. A successful push keeps the elements at their indices, adds the item behind
  them, and keeps the length within the capacity.
\<close>

theorem json_array_push_get:
  assumes "oi_json_array_push a (JSON_ARRAY items cap) item = (OI_OK, arr, a')"
    and "length items \<le> cap"
  shows "oi_json_array_len (Some arr) = length items + 1
    \<and> (\<forall>i. oi_json_array_get (Some arr) i =
         (if i = length items then Some item else oi_json_array_get (Some (JSON_ARRAY items cap)) i))
    \<and> (\<exists>items' cap'. arr = JSON_ARRAY items' cap' \<and> length items' \<le> cap')"
  using assms by (auto simp: Let_def nth_append Suc_le_eq split: if_splits prod.splits bool.splits)

text \<open>Witnesses for the two contracts on a fresh arena.\<close>

lemma fresh_arena:
  "\<exists>a. oi_arena_create heap_ok 1024 = Some a \<and> roomy 1024 a"
proof -
  have "\<exists>a. oi_arena_create heap_ok 1024 = Some a \<and> arena_heap a = heap_ok \<and> ar_block_size a = 1024"
    by (simp add: oi_arena_create_def block_alloc_def sizeof_block_def)
  then show ?thesis using create_inv by (auto simp: roomy_def)
qed

theorem json_object_append_get_witness:
  "\<exists>a a' obj'. oi_arena_create heap_ok 1024 = Some a
    \<and> oi_json_object_append a (JSON_OBJECT [([0x61], JSON_NULL)]) [0x61] (JSON_BOOL True) = (OI_OK, obj', a')
    \<and> oi_json_object_len (Some obj') = 2
    \<and> oi_json_object_get (Some obj') [0x61] = Some JSON_NULL"
proof -
  obtain a where a: "oi_arena_create heap_ok 1024 = Some a" "roomy 1024 a" using fresh_arena by blast
  obtain a' where p: "oi_json_object_append a (JSON_OBJECT [([0x61], JSON_NULL)]) [0x61] (JSON_BOOL True)
      = (OI_OK, JSON_OBJECT ([([0x61], JSON_NULL)] @ [([0x61], JSON_BOOL True)]), a')"
    using roomy_append [OF a(2), of "[0x61]" "[([0x61], JSON_NULL)]" "JSON_BOOL True"]
    by (auto simp: sizeof_member_def)
  from json_object_append_get [OF p, of "[0x61]"] p a(1) show ?thesis
    by (auto simp: c_string_def)
qed

theorem json_array_push_get_witness:
  "\<exists>a a' arr. oi_arena_create heap_ok 1024 = Some a
    \<and> oi_json_array_push a (JSON_ARRAY [] 0) JSON_NULL = (OI_OK, arr, a')
    \<and> oi_json_array_get (Some arr) 0 = Some JSON_NULL"
proof -
  obtain a where a: "oi_arena_create heap_ok 1024 = Some a" "roomy 1024 a" using fresh_arena by blast
  obtain a' arr where p: "oi_json_array_push a (JSON_ARRAY [] 0) JSON_NULL = (OI_OK, arr, a')"
    using roomy_push [OF a(2), of "[]" JSON_NULL] by auto
  from json_array_push_get [OF p] have "oi_json_array_get (Some arr) 0 = Some JSON_NULL" by simp
  with p a(1) show ?thesis by blast
qed

lemma block_arena:
  assumes "0 < n" "n < 2 ^ 62"
  shows "\<exists>a. oi_arena_create heap_ok (word_of_nat n) = Some a \<and> roomy n a"
proof -
  have u: "unat (word_of_nat n :: size_t) = n" using assms by (simp add: unsigned_of_nat take_bit_nat_eq_self)
  then have "(word_of_nat n :: size_t) \<noteq> 0" using assms(1) by (metis unat_0 less_irrefl)
  then have "\<exists>a. oi_arena_create heap_ok (word_of_nat n) = Some a \<and> arena_heap a = heap_ok \<and> ar_block_size a = word_of_nat n"
    using u assms(2) by (simp add: oi_arena_create_def block_alloc_def sizeof_block_def word_less_nat_alt unat_sub_if_size Let_def)
  then show ?thesis using create_inv u by (auto simp: roomy_def)
qed

end
