(* ===== verification/Json_Parse.thy ===== *)
theory Json_Parse
  imports Json_Value Utf8
begin

text \<open>
  \<open>src/json_parse.c\<close>: the incremental parser. \<open>ps_frames\<close> is the stack of open containers with the
  innermost first (its length is \<open>depth\<close>), \<open>str_len\<close> and \<open>num_len\<close> are the lengths of \<open>str_buf\<close> and
  \<open>num_buf\<close>, \<open>ps_heap\<close> answers the parser's own \<open>malloc\<close> and \<open>realloc\<close> calls. The C library's
  \<open>strtod\<close> is a parameter: it gives the value and the number of bytes it consumed.
\<close>

definition oi_json_max_depth :: nat where "oi_json_max_depth = 1000"
definition oi_json_max_number_len :: nat where "oi_json_max_number_len = 512"

datatype ps_state =
    PS_VALUE | PS_STRING | PS_STRING_ESCAPE | PS_STRING_UNICODE | PS_NUMBER | PS_LITERAL
  | PS_DONE | PS_ERROR

datatype frame_kind = FRAME_ARRAY | FRAME_OBJECT

datatype frame_expect =
    EXPECT_ELEM_OR_CLOSE | EXPECT_ELEM | EXPECT_COMMA_OR_CLOSE | EXPECT_COLON | EXPECT_VALUE

record frame =
  fr_kind :: frame_kind
  fr_container :: oi_json_value
  fr_pending_key :: bytes
  fr_expect :: frame_expect

record oi_json_parser =
  ps_arena :: oi_arena
  ps_state :: ps_state
  ps_root :: "oi_json_value option"
  ps_frames :: "frame list"
  frame_cap :: nat
  str_buf :: bytes
  str_cap :: nat
  parsing_key :: bool
  pending_high_surrogate :: bool
  high_surrogate_value :: "32 word"
  unicode_value :: "32 word"
  unicode_hex_count :: nat
  num_buf :: bytes
  ps_literal :: bytes
  ps_literal_index :: nat
  ps_heap :: heap

type_synonym strtod = "bytes \<Rightarrow> double \<times> nat"

section \<open>Life cycle\<close>

definition is_ws :: "byte \<Rightarrow> bool" where
  "is_ws c \<longleftrightarrow> c = 0x20 \<or> c = 0x09 \<or> c = 0x0A \<or> c = 0x0D"

definition is_digit :: "byte \<Rightarrow> bool" where
  "is_digit c \<longleftrightarrow> 0x30 \<le> c \<and> c \<le> 0x39"

definition is_number_continuation :: "byte \<Rightarrow> bool" where
  "is_number_continuation c \<longleftrightarrow>
     is_digit c \<or> c = 0x2E \<or> c = 0x65 \<or> c = 0x45 \<or> c = 0x2B \<or> c = 0x2D"

definition reset_transient :: "oi_json_parser \<Rightarrow> oi_json_parser" where
  "reset_transient p = p\<lparr>ps_state := PS_VALUE, ps_root := None, ps_frames := [], str_buf := [],
     parsing_key := False, pending_high_surrogate := False, high_surrogate_value := 0,
     unicode_value := 0, unicode_hex_count := 0, num_buf := [], ps_literal := [], ps_literal_index := 0\<rparr>"

text \<open>Three requests: the parser, its ps_frames, its string buffer.\<close>

definition oi_json_parser_create :: "heap \<Rightarrow> oi_arena \<Rightarrow> oi_json_parser option" where
  "oi_json_parser_create h arena =
     (if \<not> shd h then None
      else if \<not> shd (stl h) then None
      else if \<not> shd (stl (stl h)) then None
      else Some (reset_transient
        \<lparr>ps_arena = arena, ps_state = PS_VALUE, ps_root = None, ps_frames = [], frame_cap = 16,
         str_buf = [], str_cap = 64, parsing_key = False, pending_high_surrogate = False,
         high_surrogate_value = 0, unicode_value = 0, unicode_hex_count = 0, num_buf = [],
         ps_literal = [], ps_literal_index = 0, ps_heap = stl (stl (stl h))\<rparr>))"

definition oi_json_parser_reset :: "oi_json_parser \<Rightarrow> oi_json_parser" where
  "oi_json_parser_reset p = reset_transient p"

definition oi_json_parser_done :: "oi_json_parser \<Rightarrow> bool" where
  "oi_json_parser_done p \<longleftrightarrow> ps_state p = PS_DONE"

definition oi_json_parser_failed :: "oi_json_parser \<Rightarrow> bool" where
  "oi_json_parser_failed p \<longleftrightarrow> ps_state p = PS_ERROR"

definition oi_json_parser_root :: "oi_json_parser \<Rightarrow> oi_json_value option" where
  "oi_json_parser_root p = (if ps_state p \<noteq> PS_DONE then None else ps_root p)"

text \<open>\<open>p->state = PS_ERROR; return st;\<close>\<close>

definition ps_fail :: "oi_status \<Rightarrow> oi_json_parser \<Rightarrow> oi_status \<times> oi_json_parser" where
  "ps_fail st p = (st, p\<lparr>ps_state := PS_ERROR\<rparr>)"

section \<open>Scratch buffer\<close>

definition str_buf_reserve :: "oi_json_parser \<Rightarrow> nat \<Rightarrow> oi_status \<times> oi_json_parser" where
  "str_buf_reserve p additional =
     (if additional > size_max - length (str_buf p) then (OI_ERR_NOMEM, p)
      else let needed = length (str_buf p) + additional in
        if needed \<le> str_cap p then (OI_OK, p)
        else (case grow_cap (str_cap p) needed of
                None \<Rightarrow> (OI_ERR_NOMEM, p)
              | Some new_cap \<Rightarrow>
                  if \<not> shd (ps_heap p) then (OI_ERR_NOMEM, p\<lparr>ps_heap := stl (ps_heap p)\<rparr>)
                  else (OI_OK, p\<lparr>str_cap := new_cap, ps_heap := stl (ps_heap p)\<rparr>)))"

definition str_buf_append_bytes :: "oi_json_parser \<Rightarrow> bytes \<Rightarrow> oi_status \<times> oi_json_parser" where
  "str_buf_append_bytes p bs =
     (case str_buf_reserve p (length bs) of
        (st, p') \<Rightarrow> if st \<noteq> OI_OK then ps_fail st p' else (OI_OK, p'\<lparr>str_buf := str_buf p' @ bs\<rparr>))"

definition str_buf_append_byte :: "oi_json_parser \<Rightarrow> byte \<Rightarrow> oi_status \<times> oi_json_parser" where
  "str_buf_append_byte p c = str_buf_append_bytes p [c]"

text \<open>The bytes \<open>emit_utf8\<close> puts together, in 32-bit arithmetic.\<close>

definition utf8_bytes :: "32 word \<Rightarrow> bytes" where
  "utf8_bytes cp =
     (if cp \<le> 0x7F then [ucast cp]
      else if cp \<le> 0x7FF then
        [ucast (0xC0 OR drop_bit 6 cp), ucast (0x80 OR (cp AND 0x3F))]
      else if cp \<le> 0xFFFF then
        [ucast (0xE0 OR drop_bit 12 cp), ucast (0x80 OR (drop_bit 6 cp AND 0x3F)),
         ucast (0x80 OR (cp AND 0x3F))]
      else
        [ucast (0xF0 OR drop_bit 18 cp), ucast (0x80 OR (drop_bit 12 cp AND 0x3F)),
         ucast (0x80 OR (drop_bit 6 cp AND 0x3F)), ucast (0x80 OR (cp AND 0x3F))])"

definition emit_utf8 :: "oi_json_parser \<Rightarrow> 32 word \<Rightarrow> oi_status \<times> oi_json_parser" where
  "emit_utf8 p cp = str_buf_append_bytes p (utf8_bytes cp)"

section \<open>Frames\<close>

definition push_frame :: "oi_json_parser \<Rightarrow> frame_kind \<Rightarrow> oi_status \<times> oi_json_parser" where
  "push_frame p k =
     (if length (ps_frames p) \<ge> oi_json_max_depth then ps_fail OI_ERR_PARSE p
      else
        let new_cap = min (frame_cap p * 2) oi_json_max_depth;
            (grown, p1) =
              (if length (ps_frames p) = frame_cap p then
                 (if \<not> shd (ps_heap p) then (False, p\<lparr>ps_heap := stl (ps_heap p)\<rparr>)
                  else (True, p\<lparr>frame_cap := new_cap, ps_heap := stl (ps_heap p)\<rparr>))
               else (True, p)) in
        if \<not> grown then ps_fail OI_ERR_NOMEM p1
        else (case (if k = FRAME_ARRAY then oi_json_new_array (ps_arena p1)
                    else oi_json_new_object (ps_arena p1)) of
                (None, a) \<Rightarrow> ps_fail OI_ERR_NOMEM (p1\<lparr>ps_arena := a\<rparr>)
              | (Some c, a) \<Rightarrow>
                  (OI_OK, p1\<lparr>ps_arena := a,
                     ps_frames := \<lparr>fr_kind = k, fr_container = c, fr_pending_key = [],
                                fr_expect = EXPECT_ELEM_OR_CLOSE\<rparr> # ps_frames p1\<rparr>)))"

definition attach_completed :: "oi_json_parser \<Rightarrow> oi_json_value \<Rightarrow> oi_status \<times> oi_json_parser" where
  "attach_completed p v =
     (case ps_frames p of
        [] \<Rightarrow> (OI_OK, p\<lparr>ps_root := Some v, ps_state := PS_DONE\<rparr>)
      | f0 # rest \<Rightarrow>
          let (st, f1, a) =
            (if fr_kind f0 = FRAME_ARRAY then
               (case oi_json_array_push (ps_arena p) (fr_container f0) v of
                  (st, c, a) \<Rightarrow> (st, f0\<lparr>fr_container := c\<rparr>, a))
             else
               (case oi_json_object_append (ps_arena p) (fr_container f0) (fr_pending_key f0) v of
                  (st, c, a) \<Rightarrow> (st, f0\<lparr>fr_container := c, fr_pending_key := []\<rparr>, a)));
            p1 = p\<lparr>ps_arena := a, ps_frames := f1 # rest\<rparr> in
          if st \<noteq> OI_OK then ps_fail st p1
          else (OI_OK, p1\<lparr>ps_frames := f1\<lparr>fr_expect := EXPECT_COMMA_OR_CLOSE\<rparr> # rest,
                          ps_state := PS_VALUE\<rparr>))"

definition set_top :: "oi_json_parser \<Rightarrow> frame \<Rightarrow> oi_json_parser" where
  "set_top p f = p\<lparr>ps_frames := f # tl (ps_frames p)\<rparr>"

definition attach_completed_key :: "oi_json_parser \<Rightarrow> oi_status \<times> oi_json_parser" where
  "attach_completed_key p =
     (case arena_take (ps_arena p) (length (str_buf p) + 1) of
        (False, a) \<Rightarrow> ps_fail OI_ERR_NOMEM (p\<lparr>ps_arena := a\<rparr>)
      | (True, a) \<Rightarrow>
          (OI_OK, set_top (p\<lparr>ps_arena := a, ps_state := PS_VALUE\<rparr>)
             ((hd (ps_frames p))\<lparr>fr_pending_key := str_buf p, fr_expect := EXPECT_COLON\<rparr>)))"

definition pop_container :: "oi_json_parser \<Rightarrow> oi_status \<times> oi_json_parser" where
  "pop_container p = attach_completed (p\<lparr>ps_frames := tl (ps_frames p)\<rparr>) (fr_container (hd (ps_frames p)))"

section \<open>Between tokens\<close>

definition dispatch_value_start :: "oi_json_parser \<Rightarrow> byte \<Rightarrow> oi_status \<times> oi_json_parser" where
  "dispatch_value_start p0 c =
     (let key = (ps_frames p0 \<noteq> [] \<and> fr_kind (hd (ps_frames p0)) = FRAME_OBJECT
                 \<and> (fr_expect (hd (ps_frames p0)) = EXPECT_ELEM_OR_CLOSE
                    \<or> fr_expect (hd (ps_frames p0)) = EXPECT_ELEM));
          p = p0\<lparr>parsing_key := False\<rparr> in
      if key \<and> c \<noteq> 0x22 then ps_fail OI_ERR_PARSE p
      else let p = p\<lparr>parsing_key := key\<rparr> in
        if c = 0x7B then push_frame p FRAME_OBJECT
        else if c = 0x5B then push_frame p FRAME_ARRAY
        else if c = 0x22 then
          (OI_OK, p\<lparr>ps_state := PS_STRING, str_buf := [], pending_high_surrogate := False\<rparr>)
        else if c = 0x74 then
          (OI_OK, p\<lparr>ps_state := PS_LITERAL, ps_literal := bytes_of ''true'', ps_literal_index := 1\<rparr>)
        else if c = 0x66 then
          (OI_OK, p\<lparr>ps_state := PS_LITERAL, ps_literal := bytes_of ''false'', ps_literal_index := 1\<rparr>)
        else if c = 0x6E then
          (OI_OK, p\<lparr>ps_state := PS_LITERAL, ps_literal := bytes_of ''null'', ps_literal_index := 1\<rparr>)
        else if c = 0x2D then (OI_OK, p\<lparr>ps_state := PS_NUMBER, num_buf := [0x2D]\<rparr>)
        else if is_digit c then (OI_OK, p\<lparr>ps_state := PS_NUMBER, num_buf := [c]\<rparr>)
        else ps_fail OI_ERR_PARSE p)"

definition process_between_tokens :: "oi_json_parser \<Rightarrow> byte \<Rightarrow> oi_status \<times> oi_json_parser" where
  "process_between_tokens p c =
     (if is_ws c then (OI_OK, p)
      else (case ps_frames p of
          [] \<Rightarrow> dispatch_value_start p c
        | f0 # _ \<Rightarrow>
            let close_char = (if fr_kind f0 = FRAME_ARRAY then 0x5D else 0x7D) in
            (case fr_expect f0 of
               EXPECT_ELEM_OR_CLOSE \<Rightarrow>
                 if c = close_char then pop_container p else dispatch_value_start p c
             | EXPECT_ELEM \<Rightarrow> dispatch_value_start p c
             | EXPECT_COMMA_OR_CLOSE \<Rightarrow>
                 if c = close_char then pop_container p
                 else if c = 0x2C then (OI_OK, set_top p (f0\<lparr>fr_expect := EXPECT_ELEM\<rparr>))
                 else ps_fail OI_ERR_PARSE p
             | EXPECT_COLON \<Rightarrow>
                 if c = 0x3A then (OI_OK, set_top p (f0\<lparr>fr_expect := EXPECT_VALUE\<rparr>))
                 else ps_fail OI_ERR_PARSE p
             | EXPECT_VALUE \<Rightarrow> dispatch_value_start p c)))"

section \<open>Strings\<close>

definition finalize_string_value :: "oi_json_parser \<Rightarrow> oi_status \<times> oi_json_parser" where
  "finalize_string_value p =
     (if parsing_key p then attach_completed_key p
      else (case oi_json_new_string (ps_arena p) (str_buf p) of
              (None, a) \<Rightarrow> ps_fail OI_ERR_NOMEM (p\<lparr>ps_arena := a\<rparr>)
            | (Some v, a) \<Rightarrow> attach_completed (p\<lparr>ps_arena := a\<rparr>) v))"

definition handle_string_byte :: "oi_json_parser \<Rightarrow> byte \<Rightarrow> oi_status \<times> oi_json_parser" where
  "handle_string_byte p c =
     (if c = 0x22 then
        (if pending_high_surrogate p then ps_fail OI_ERR_PARSE p else finalize_string_value p)
      else if c = 0x5C then (OI_OK, p\<lparr>ps_state := PS_STRING_ESCAPE\<rparr>)
      else if pending_high_surrogate p then ps_fail OI_ERR_PARSE p
      else if c < 0x20 then ps_fail OI_ERR_PARSE p
      else str_buf_append_byte p c)"

definition escape_map :: "byte \<Rightarrow> byte option" where
  "escape_map c =
     (if c = 0x22 then Some 0x22 else if c = 0x5C then Some 0x5C else if c = 0x2F then Some 0x2F
      else if c = 0x62 then Some 0x08 else if c = 0x66 then Some 0x0C else if c = 0x6E then Some 0x0A
      else if c = 0x72 then Some 0x0D else if c = 0x74 then Some 0x09 else None)"

definition handle_string_escape_byte :: "oi_json_parser \<Rightarrow> byte \<Rightarrow> oi_status \<times> oi_json_parser" where
  "handle_string_escape_byte p c =
     (if pending_high_surrogate p \<and> c \<noteq> 0x75 then ps_fail OI_ERR_PARSE p
      else if c = 0x75 then
        (OI_OK, p\<lparr>ps_state := PS_STRING_UNICODE, unicode_value := 0, unicode_hex_count := 0\<rparr>)
      else (case escape_map c of
              None \<Rightarrow> ps_fail OI_ERR_PARSE p
            | Some mapped \<Rightarrow> str_buf_append_byte (p\<lparr>ps_state := PS_STRING\<rparr>) mapped))"

definition hex_digit :: "byte \<Rightarrow> 32 word option" where
  "hex_digit c =
     (if 0x30 \<le> c \<and> c \<le> 0x39 then Some (ucast (c - 0x30))
      else if 0x61 \<le> c \<and> c \<le> 0x66 then Some (10 + ucast (c - 0x61))
      else if 0x41 \<le> c \<and> c \<le> 0x46 then Some (10 + ucast (c - 0x41))
      else None)"

definition handle_string_unicode_byte :: "oi_json_parser \<Rightarrow> byte \<Rightarrow> oi_status \<times> oi_json_parser" where
  "handle_string_unicode_byte p c =
     (case hex_digit c of
        None \<Rightarrow> ps_fail OI_ERR_PARSE p
      | Some digit \<Rightarrow>
          let p1 = p\<lparr>unicode_value := push_bit 4 (unicode_value p) OR digit,
                     unicode_hex_count := unicode_hex_count p + 1\<rparr> in
          if unicode_hex_count p1 < 4 then (OI_OK, p1)
          else let cp = unicode_value p1; p2 = p1\<lparr>ps_state := PS_STRING\<rparr> in
            if pending_high_surrogate p2 then
              (if cp < 0xDC00 \<or> cp > 0xDFFF then ps_fail OI_ERR_PARSE p2
               else emit_utf8 (p2\<lparr>pending_high_surrogate := False\<rparr>)
                 (0x10000 + push_bit 10 (high_surrogate_value p2 - 0xD800) + (cp - 0xDC00)))
            else if cp \<ge> 0xD800 \<and> cp \<le> 0xDBFF then
              (OI_OK, p2\<lparr>pending_high_surrogate := True, high_surrogate_value := cp\<rparr>)
            else if cp \<ge> 0xDC00 \<and> cp \<le> 0xDFFF then ps_fail OI_ERR_PARSE p2
            else emit_utf8 p2 cp)"

section \<open>Numbers\<close>

text \<open>
  \<open>validate_json_number\<close> with the bytes from index \<open>i\<close> on in place of \<open>i\<close>: \<open>i < len\<close> is a non-empty
  rest, and the digit loop drops the leading digits.
\<close>

definition some_digits :: "bytes \<Rightarrow> bytes option" where
  "some_digits s = (if s \<noteq> [] \<and> is_digit (hd s) then Some (dropWhile is_digit s) else None)"

definition skip_int :: "bytes \<Rightarrow> bytes option" where
  "skip_int s =
     (if s = [] then None else if hd s = 0x30 then Some (tl s) else some_digits s)"

definition skip_frac :: "bytes \<Rightarrow> bytes option" where
  "skip_frac s = (if s \<noteq> [] \<and> hd s = 0x2E then some_digits (tl s) else Some s)"

definition skip_exp :: "bytes \<Rightarrow> bytes option" where
  "skip_exp s =
     (if s \<noteq> [] \<and> (hd s = 0x65 \<or> hd s = 0x45) then
        let t = tl s in
        some_digits (if t \<noteq> [] \<and> (hd t = 0x2B \<or> hd t = 0x2D) then tl t else t)
      else Some s)"

definition validate_json_number :: "bytes \<Rightarrow> bool" where
  "validate_json_number s =
     (let s = (if s \<noteq> [] \<and> hd s = 0x2D then tl s else s) in
      case skip_int s of None \<Rightarrow> False
      | Some s \<Rightarrow> (case skip_frac s of None \<Rightarrow> False
      | Some s \<Rightarrow> (case skip_exp s of None \<Rightarrow> False
      | Some s \<Rightarrow> s = [])))"

definition finalize_number :: "strtod \<Rightarrow> oi_json_parser \<Rightarrow> oi_status \<times> oi_json_parser" where
  "finalize_number strtod p =
     (if \<not> validate_json_number (num_buf p) then ps_fail OI_ERR_PARSE p
      else (case strtod (num_buf p) of (v, n) \<Rightarrow>
        if n \<noteq> length (num_buf p) then ps_fail OI_ERR_PARSE p
        else (case oi_json_new_number (ps_arena p) v of
                (None, a) \<Rightarrow> ps_fail OI_ERR_NOMEM (p\<lparr>ps_arena := a\<rparr>)
              | (Some v, a) \<Rightarrow> attach_completed (p\<lparr>ps_arena := a\<rparr>) v)))"

text \<open>The last component says whether the byte was consumed.\<close>

definition handle_number_byte ::
  "strtod \<Rightarrow> oi_json_parser \<Rightarrow> byte \<Rightarrow> oi_status \<times> oi_json_parser \<times> bool" where
  "handle_number_byte strtod p c =
     (if is_number_continuation c then
        (if length (num_buf p) \<ge> oi_json_max_number_len - 1 then
           (case ps_fail OI_ERR_PARSE p of (st, p') \<Rightarrow> (st, p', True))
         else (OI_OK, p\<lparr>num_buf := num_buf p @ [c]\<rparr>, True))
      else (case finalize_number strtod p of (st, p') \<Rightarrow> (st, p', False)))"

section \<open>Literals and dispatch\<close>

text \<open>A C string read at an index: the terminating NUL follows the last byte.\<close>

definition char_at :: "bytes \<Rightarrow> nat \<Rightarrow> byte" where
  "char_at s i = (if i < length s then s ! i else 0)"

definition handle_literal_byte :: "oi_json_parser \<Rightarrow> byte \<Rightarrow> oi_status \<times> oi_json_parser" where
  "handle_literal_byte p c =
     (if c \<noteq> char_at (ps_literal p) (ps_literal_index p) then ps_fail OI_ERR_PARSE p
      else let p1 = p\<lparr>ps_literal_index := ps_literal_index p + 1\<rparr> in
        if char_at (ps_literal p1) (ps_literal_index p1) \<noteq> 0 then (OI_OK, p1)
        else (case (if char_at (ps_literal p1) 0 = 0x6E then oi_json_new_null (ps_arena p1)
                    else oi_json_new_bool (ps_arena p1) (char_at (ps_literal p1) 0 = 0x74)) of
                (None, a) \<Rightarrow> ps_fail OI_ERR_NOMEM (p1\<lparr>ps_arena := a\<rparr>)
              | (Some v, a) \<Rightarrow> attach_completed (p1\<lparr>ps_arena := a\<rparr>) v))"

definition json_step :: "strtod \<Rightarrow> oi_json_parser \<Rightarrow> byte \<Rightarrow> oi_status \<times> oi_json_parser \<times> bool" where
  "json_step strtod p c =
     (let consume = (\<lambda>(st, p'). (st, p', True)) in
      case ps_state p of
        PS_VALUE \<Rightarrow> consume (process_between_tokens p c)
      | PS_STRING \<Rightarrow> consume (handle_string_byte p c)
      | PS_STRING_ESCAPE \<Rightarrow> consume (handle_string_escape_byte p c)
      | PS_STRING_UNICODE \<Rightarrow> consume (handle_string_unicode_byte p c)
      | PS_NUMBER \<Rightarrow> handle_number_byte strtod p c
      | PS_LITERAL \<Rightarrow> consume (handle_literal_byte p c)
      | PS_DONE \<Rightarrow> if is_ws c then (OI_OK, p, True) else consume (ps_fail OI_ERR_PARSE p)
      | PS_ERROR \<Rightarrow> (OI_ERR_PARSE, p, True))"

lemma ps_fail_status [simp]: "fst (ps_fail st p) = st" "ps_state (snd (ps_fail st p)) = PS_ERROR"
  by (simp_all add: ps_fail_def)

lemma attach_ok_state:
  "attach_completed p v = (OI_OK, p') \<Longrightarrow> ps_state p' = PS_DONE \<or> ps_state p' = PS_VALUE"
  by (auto simp: attach_completed_def ps_fail_def Let_def split: list.splits prod.splits if_splits)

lemma json_reprocess:
  assumes "json_step strtod p c = (OI_OK, p', False)"
  shows "ps_state p = PS_NUMBER \<and> (ps_state p' = PS_DONE \<or> ps_state p' = PS_VALUE)"
proof (cases "ps_state p = PS_NUMBER")
  case True
  with assms show ?thesis
    by (auto simp: json_step_def handle_number_byte_def finalize_number_def ps_fail_def
        split: prod.splits if_splits option.splits dest: attach_ok_state)
next
  case False
  with assms show ?thesis
    by (cases "ps_state p") (auto simp: json_step_def split: prod.splits if_splits)
qed

function oi_json_parser_feed ::
  "strtod \<Rightarrow> oi_json_parser \<Rightarrow> bytes \<Rightarrow> oi_status \<times> oi_json_parser" where
  "oi_json_parser_feed strtod p [] = (OI_OK, p)"
| "oi_json_parser_feed strtod p (c # cs) =
     (case json_step strtod p c of (st, p', consumed) \<Rightarrow>
        if st \<noteq> OI_OK then (st, p')
        else if consumed then oi_json_parser_feed strtod p' cs
        else oi_json_parser_feed strtod p' (c # cs))"
  by pat_completeness auto
termination
  by (relation "measure (\<lambda>(_, p, cs). 2 * length cs + (if ps_state p = PS_NUMBER then 1 else 0))")
     (auto dest: json_reprocess [OF sym])

definition oi_json_parser_finish :: "strtod \<Rightarrow> oi_json_parser \<Rightarrow> oi_status \<times> oi_json_parser" where
  "oi_json_parser_finish strtod p =
     (if ps_state p = PS_DONE then (OI_OK, p)
      else if ps_state p = PS_NUMBER then
        (case finalize_number strtod p of (st, p') \<Rightarrow>
           if st \<noteq> OI_OK then (st, p')
           else if ps_state p' = PS_DONE then (OI_OK, p')
           else ps_fail OI_ERR_PARSE p')
      else ps_fail OI_ERR_PARSE p)"

section \<open>Interfaces\<close>

interpretation strbuf: append_buffer str_buf_append_bytes str_buf
  by unfold_locales
     (auto simp: str_buf_append_bytes_def str_buf_reserve_def ps_fail_def Let_def
       split: if_splits option.splits)

lemma between_consumes: "ps_state p' = PS_DONE \<or> ps_state p' = PS_VALUE \<Longrightarrow>
    \<exists>st p'' c'. json_step strtod p' c = (st, p'', c') \<and> (st = OI_OK \<longrightarrow> c')"
  by (auto simp: json_step_def split: prod.splits)

declare oi_json_parser_feed.simps [simp del]

interpretation json: byte_machine "json_step strtod" "oi_json_parser_feed strtod" for strtod
proof (unfold_locales, goal_cases)
  case (3 s b s')
  from between_consumes json_reprocess [OF 3] show ?case by blast
qed (simp_all add: oi_json_parser_feed.simps split: prod.split)

end
