(* ===== verification/Json_Safety.thy ===== *)
theory Json_Safety
  imports Json_Parse
begin

text \<open>
  Safety of the parser of \<open>Json_Parse\<close>: the invariant that bounds its buffers and stacks and makes the
  type assertions of \<open>src/json_value.c\<close> true, sticky errors, and independence from the chunking.
\<close>

section \<open>The invariant\<close>

text \<open>A frame's container is of the frame's kind, and a colon is only awaited in an object.\<close>

definition frame_ok :: "frame \<Rightarrow> bool" where
  "frame_ok f \<longleftrightarrow>
     (case fr_container f of
        JSON_ARRAY items cap \<Rightarrow> fr_kind f = FRAME_ARRAY \<and> length items \<le> cap
          \<and> fr_expect f \<noteq> EXPECT_COLON \<and> fr_expect f \<noteq> EXPECT_VALUE
      | JSON_OBJECT _ \<Rightarrow> fr_kind f = FRAME_OBJECT
      | _ \<Rightarrow> False)"

definition json_core :: "oi_json_parser \<Rightarrow> bool" where
  "json_core p \<longleftrightarrow>
     length (ps_frames p) \<le> frame_cap p \<and> 16 \<le> frame_cap p \<and> frame_cap p \<le> oi_json_max_depth
   \<and> (\<forall>f \<in> set (ps_frames p). frame_ok f)
   \<and> length (str_buf p) \<le> str_cap p \<and> 64 \<le> str_cap p \<and> str_cap p \<le> size_max
   \<and> length (num_buf p) < oi_json_max_number_len"

text \<open>A string that is a key is read inside an object whose key is due.\<close>

definition string_ok :: "oi_json_parser \<Rightarrow> bool" where
  "string_ok p \<longleftrightarrow> (parsing_key p \<longrightarrow> ps_frames p \<noteq> [] \<and> fr_kind (hd (ps_frames p)) = FRAME_OBJECT)
     \<and> (pending_high_surrogate p \<longrightarrow> 0xD800 \<le> high_surrogate_value p \<and> high_surrogate_value p \<le> 0xDBFF)"

definition literal_ok :: "oi_json_parser \<Rightarrow> bool" where
  "literal_ok p \<longleftrightarrow> ps_literal p \<in> {bytes_of ''true'', bytes_of ''false'', bytes_of ''null''}
     \<and> 0 < ps_literal_index p \<and> ps_literal_index p < length (ps_literal p)"

definition json_inv :: "oi_json_parser \<Rightarrow> bool" where
  "json_inv p \<longleftrightarrow> json_core p \<and>
     (case ps_state p of
        PS_STRING \<Rightarrow> string_ok p
      | PS_STRING_ESCAPE \<Rightarrow> string_ok p
      | PS_STRING_UNICODE \<Rightarrow> string_ok p \<and> unicode_hex_count p < 4
      | PS_LITERAL \<Rightarrow> literal_ok p
      | PS_DONE \<Rightarrow> ps_frames p = [] \<and> ps_root p \<noteq> None
      | _ \<Rightarrow> True)"

lemma json_inv_core: "json_inv p \<Longrightarrow> json_core p"
  by (simp add: json_inv_def)

lemma fail_inv: "json_core p \<Longrightarrow> ps_fail st p = (st', p') \<Longrightarrow> json_inv p'"
  by (auto simp: ps_fail_def json_inv_def json_core_def)

lemma create_json_inv: "oi_json_parser_create h a = Some p \<Longrightarrow> json_inv p"
  by (auto simp: oi_json_parser_create_def reset_transient_def json_inv_def json_core_def
      oi_json_max_depth_def oi_json_max_number_len_def size_max_def split: if_splits)

lemma reset_json_inv: "json_inv p \<Longrightarrow> json_inv (oi_json_parser_reset p)"
  by (auto simp: oi_json_parser_reset_def reset_transient_def json_inv_def json_core_def
      oi_json_max_number_len_def)

lemma append_bytes_core:
  "json_core p \<Longrightarrow> str_buf_append_bytes p bs = (st, p') \<Longrightarrow>
     json_core p' \<and> (st \<noteq> OI_OK \<longrightarrow> ps_state p' = PS_ERROR)
   \<and> (st = OI_OK \<longrightarrow> ps_state p' = ps_state p) \<and> ps_frames p' = ps_frames p
   \<and> parsing_key p' = parsing_key p \<and> pending_high_surrogate p' = pending_high_surrogate p
   \<and> high_surrogate_value p' = high_surrogate_value p"
  by (auto simp: str_buf_append_bytes_def str_buf_reserve_def ps_fail_def json_core_def Let_def
      split: if_splits option.splits dest: grow_cap_Some grow_cap_bound)

lemma append_string_inv:
  assumes "json_core p" "string_ok p" "ps_state p = PS_STRING" "str_buf_append_bytes p bs = (st, p')"
  shows "json_inv p'"
  using append_bytes_core [OF assms(1,4)] assms(2,3)
  by (cases "st = OI_OK") (simp_all add: json_inv_def string_ok_def)

lemma attach_inv:
  assumes c: "json_core p" and at: "attach_completed p v = (st, p')"
  shows "json_inv p'"
proof (cases "ps_frames p")
  case Nil
  with c at show ?thesis by (auto simp: attach_completed_def json_inv_def json_core_def)
next
  case (Cons f0 rest)
  with c have ok: "frame_ok f0" by (simp add: json_core_def)
  show ?thesis
  proof (cases "fr_container f0")
    case (JSON_ARRAY items cap)
    with ok have k: "fr_kind f0 = FRAME_ARRAY" "length items \<le> cap" by (simp_all add: frame_ok_def)
    obtain st1 c1 a1 where p: "oi_json_array_push (ps_arena p) (JSON_ARRAY items cap) v = (st1, c1, a1)"
      by (metis surj_pair)
    then have "\<exists>items' cap'. c1 = JSON_ARRAY items' cap' \<and> length items' \<le> cap'"
      using k(2) by (auto simp: Let_def Suc_le_eq split: if_splits prod.splits bool.splits)
    with at c ok k Cons JSON_ARRAY p show ?thesis
      by (auto simp: attach_completed_def Let_def ps_fail_def json_inv_def json_core_def frame_ok_def
          split: if_splits)
  next
    case (JSON_OBJECT ms)
    with ok have k: "fr_kind f0 = FRAME_OBJECT" by (simp add: frame_ok_def)
    obtain st1 c1 a1 where p:
      "oi_json_object_append (ps_arena p) (JSON_OBJECT ms) (fr_pending_key f0) v = (st1, c1, a1)"
      by (metis surj_pair)
    then have "\<exists>ms'. c1 = JSON_OBJECT ms'"
      by (auto split: if_splits prod.splits bool.splits)
    with at c ok k Cons JSON_OBJECT p show ?thesis
      by (auto simp: attach_completed_def Let_def ps_fail_def json_inv_def json_core_def frame_ok_def
          split: if_splits)
  qed (use ok in \<open>simp_all add: frame_ok_def\<close>)
qed

lemma pop_inv: "json_core p \<Longrightarrow> pop_container p = (st, p') \<Longrightarrow> json_inv p'"
  unfolding pop_container_def
  by (rule attach_inv [of "p\<lparr>ps_frames := tl (ps_frames p)\<rparr>"])
     (cases "ps_frames p", auto simp: json_core_def)

lemma new_container:
  "oi_json_new_array a = (Some c, a') \<Longrightarrow> c = JSON_ARRAY [] 0"
  "oi_json_new_object a = (Some c, a') \<Longrightarrow> c = JSON_OBJECT []"
  by (auto simp: oi_json_new_array_def oi_json_new_object_def split: prod.splits if_splits)

lemma push_frame_inv:
  assumes "json_core p" "ps_state p = PS_VALUE" "push_frame p k = (st, p')"
  shows "json_inv p'"
  using assms
  by (cases k)
     (auto simp: push_frame_def Let_def ps_fail_def json_inv_def json_core_def frame_ok_def
       oi_json_max_depth_def dest!: new_container split: if_splits option.splits prod.splits)

definition key_due :: "oi_json_parser \<Rightarrow> bool" where
  "key_due p \<longleftrightarrow> ps_frames p \<noteq> [] \<and> fr_kind (hd (ps_frames p)) = FRAME_OBJECT
     \<and> (fr_expect (hd (ps_frames p)) = EXPECT_ELEM_OR_CLOSE \<or> fr_expect (hd (ps_frames p)) = EXPECT_ELEM)"

lemma dispatch_eq:
  "dispatch_value_start p c =
     (if key_due p \<and> c \<noteq> 0x22 then ps_fail OI_ERR_PARSE (p\<lparr>parsing_key := False\<rparr>)
      else let p = p\<lparr>parsing_key := key_due p\<rparr> in
        if c = 0x7B then push_frame p FRAME_OBJECT
        else if c = 0x5B then push_frame p FRAME_ARRAY
        else if c = 0x22 then
          (OI_OK, p\<lparr>ps_state := PS_STRING, str_buf := [], pending_high_surrogate := False\<rparr>)
        else if c = 0x74 then
          (OI_OK, p\<lparr>ps_state := PS_LITERAL, ps_literal := bytes_of ''true'', ps_literal_index := 1\<rparr>)
        else if c = 0x66 then
          (OI_OK, p\<lparr>ps_state := PS_LITERAL, ps_literal := bytes_of ''false'', ps_literal_index := 1\<rparr>)
        else if c = 0x6E then
          (OI_OK, p\<lparr>ps_state := PS_LITERAL, ps_literal := bytes_of ''null'', ps_literal_index := 1\<rparr>)
        else if c = 0x2D then (OI_OK, p\<lparr>ps_state := PS_NUMBER, num_buf := [0x2D]\<rparr>)
        else if is_digit c then (OI_OK, p\<lparr>ps_state := PS_NUMBER, num_buf := [c]\<rparr>)
        else ps_fail OI_ERR_PARSE p)"
  unfolding dispatch_value_start_def key_due_def [symmetric] Let_def by simp

lemma dispatch_inv:
  assumes "json_core p" "ps_state p = PS_VALUE" "dispatch_value_start p c = (st, p')"
  shows "json_inv p'"
proof -
  let ?p = "p\<lparr>parsing_key := key_due p\<rparr>"
  have core: "json_core (p\<lparr>parsing_key := k\<rparr>)" for k
    using assms(1) by (simp add: json_core_def)
  have st: "ps_state ?p = PS_VALUE" using assms(2) by simp
  have key: "key_due p \<Longrightarrow> ps_frames p \<noteq> [] \<and> fr_kind (hd (ps_frames p)) = FRAME_OBJECT"
    by (simp add: key_due_def)
  have str: "json_inv (?p\<lparr>ps_state := PS_STRING, str_buf := [], pending_high_surrogate := False\<rparr>)"
    using assms(1) key by (auto simp: json_inv_def json_core_def string_ok_def)
  have lit: "json_inv (?p\<lparr>ps_state := PS_LITERAL, ps_literal := l, ps_literal_index := 1\<rparr>)"
    if "l \<in> {bytes_of ''true'', bytes_of ''false'', bytes_of ''null''}" for l
    using assms(1) that by (auto simp: json_inv_def json_core_def literal_ok_def bytes_of_def)
  have num: "json_inv (?p\<lparr>ps_state := PS_NUMBER, num_buf := [b]\<rparr>)" for b
    using assms(1) by (auto simp: json_inv_def json_core_def oi_json_max_number_len_def)
  from assms(3) show ?thesis
    unfolding dispatch_eq Let_def
    using fail_inv [OF core] push_frame_inv [OF core st] str num lit
    by (auto split: if_split_asm)
qed

lemma set_top_core:
  "json_core p \<Longrightarrow> ps_frames p \<noteq> [] \<Longrightarrow> frame_ok f \<Longrightarrow> json_core (set_top p f)"
  by (cases "ps_frames p") (auto simp: json_core_def set_top_def)

lemma between_inv:
  assumes core: "json_core p" and st: "ps_state p = PS_VALUE"
    and r: "process_between_tokens p c = (st', p')"
  shows "json_inv p'"
proof (cases "ps_frames p")
  case Nil
  with assms dispatch_inv [OF core st] show ?thesis
    by (auto simp: process_between_tokens_def json_inv_def split: if_splits)
next
  case (Cons f0 rest)
  then have ok: "frame_ok f0" using core by (simp add: json_core_def)
  have top: "json_inv (set_top p (f0\<lparr>fr_expect := e\<rparr>))"
    if "frame_ok (f0\<lparr>fr_expect := e\<rparr>)" for e
    using set_top_core [OF core _ that] Cons st by (simp add: json_inv_def set_top_def)
  have e: "frame_ok (f0\<lparr>fr_expect := EXPECT_ELEM\<rparr>)"
    "fr_expect f0 = EXPECT_COLON \<Longrightarrow> frame_ok (f0\<lparr>fr_expect := EXPECT_VALUE\<rparr>)"
    using ok by (auto simp: frame_ok_def split: oi_json_value.splits)
  show ?thesis
    using r Cons dispatch_inv [OF core st] pop_inv [OF core] fail_inv [OF core] top e
      core st
    by (cases "fr_expect f0")
       (auto simp: process_between_tokens_def Let_def json_inv_def split: if_splits)
qed

lemma attach_key_inv:
  assumes "json_core p" "ps_frames p \<noteq> []" "fr_kind (hd (ps_frames p)) = FRAME_OBJECT"
    "attach_completed_key p = (st, p')"
  shows "json_inv p'"
proof (cases "ps_frames p")
  case (Cons f0 rest)
  with assms have ok: "frame_ok (f0\<lparr>fr_pending_key := k, fr_expect := EXPECT_COLON\<rparr>)" for k
    by (auto simp: json_core_def frame_ok_def split: oi_json_value.splits)
  with assms(1,4) Cons show ?thesis
    by (auto simp: attach_completed_key_def set_top_def ps_fail_def json_inv_def json_core_def
        split: prod.splits bool.splits)
qed (use assms in simp)

lemma arena_core: "json_core (p\<lparr>ps_arena := a\<rparr>) = json_core p"
  by (simp add: json_core_def)

lemma finalize_string_inv:
  assumes "json_core p" "string_ok p" "finalize_string_value p = (st, p')"
  shows "json_inv p'"
proof (cases "parsing_key p")
  case True
  with assms attach_key_inv [OF assms(1)] show ?thesis
    by (auto simp: finalize_string_value_def string_ok_def)
next
  case False
  have core: "json_core (p\<lparr>ps_arena := a\<rparr>)" for a using assms(1) by (simp add: arena_core)
  from False assms(3) fail_inv [OF core] attach_inv [OF core] show ?thesis
    by (auto simp: finalize_string_value_def split: option.splits prod.splits)
qed

lemma string_byte_inv:
  assumes "json_core p" "string_ok p" "ps_state p = PS_STRING" "handle_string_byte p c = (st, p')"
  shows "json_inv p'"
proof -
  have "json_inv (p\<lparr>ps_state := PS_STRING_ESCAPE\<rparr>)"
    using assms by (simp add: json_inv_def json_core_def string_ok_def)
  with assms(4) fail_inv [OF assms(1)] finalize_string_inv [OF assms(1,2)]
    append_string_inv [OF assms(1-3)] show ?thesis
    by (auto simp: handle_string_byte_def str_buf_append_byte_def split: if_splits)
qed

lemma escape_byte_inv:
  assumes "json_core p" "string_ok p" "handle_string_escape_byte p c = (st, p')"
  shows "json_inv p'"
proof -
  have "json_core (p\<lparr>ps_state := PS_STRING\<rparr>)" "string_ok (p\<lparr>ps_state := PS_STRING\<rparr>)"
    using assms by (simp_all add: json_core_def string_ok_def)
  note a = append_string_inv [OF this, simplified]
  have "json_inv (p\<lparr>ps_state := PS_STRING_UNICODE, unicode_value := 0, unicode_hex_count := 0\<rparr>)"
    using assms by (simp add: json_inv_def json_core_def string_ok_def)
  with assms(3) fail_inv [OF assms(1)] a show ?thesis
    by (auto simp: handle_string_escape_byte_def str_buf_append_byte_def split: if_splits option.splits)
qed

lemma unicode_byte_inv:
  assumes c: "json_core p" and s: "string_ok p" and n: "unicode_hex_count p < 4"
    and st: "ps_state p = PS_STRING_UNICODE" and r: "handle_string_unicode_byte p c = (st', p')"
  shows "json_inv p'"
proof (cases "hex_digit c")
  case None
  with r fail_inv [OF c] show ?thesis by (simp add: handle_string_unicode_byte_def)
next
  case (Some d)
  define cp where "cp = (push_bit 4 (unicode_value p) OR d)"
  define p1 where "p1 = p\<lparr>unicode_value := cp, unicode_hex_count := unicode_hex_count p + 1\<rparr>"
  define p2 where "p2 = p1\<lparr>ps_state := PS_STRING\<rparr>"
  have core: "json_core p1" "json_core p2" "json_core (p2\<lparr>pending_high_surrogate := False\<rparr>)"
    using c by (simp_all add: p1_def p2_def json_core_def)
  have ok: "string_ok p1" "string_ok p2" "string_ok (p2\<lparr>pending_high_surrogate := False\<rparr>)"
    using s by (auto simp: p1_def p2_def string_ok_def)
  have sp: "ps_state p1 = PS_STRING_UNICODE" "ps_state p2 = PS_STRING"
    "ps_state (p2\<lparr>pending_high_surrogate := False\<rparr>) = PS_STRING"
    by (simp_all add: p1_def p2_def st)
  have hi: "json_inv (p2\<lparr>pending_high_surrogate := True, high_surrogate_value := cp\<rparr>)"
    if "0xD800 \<le> cp" "cp \<le> 0xDBFF"
    using core(2) ok(2) that sp(2) by (simp add: json_inv_def json_core_def string_ok_def)
  have "unicode_hex_count p1 < 4 \<Longrightarrow> json_inv p1"
    using core(1) ok(1) sp(1) by (simp add: json_inv_def)
  moreover have "unicode_value p1 = cp" by (simp add: p1_def)
  moreover from r Some have "(if unicode_hex_count p1 < 4 then (OI_OK, p1)
          else if pending_high_surrogate p2 then
              (if cp < 0xDC00 \<or> cp > 0xDFFF then ps_fail OI_ERR_PARSE p2
               else emit_utf8 (p2\<lparr>pending_high_surrogate := False\<rparr>)
                 (0x10000 + push_bit 10 (high_surrogate_value p2 - 0xD800) + (cp - 0xDC00)))
            else if cp \<ge> 0xD800 \<and> cp \<le> 0xDBFF then
              (OI_OK, p2\<lparr>pending_high_surrogate := True, high_surrogate_value := cp\<rparr>)
            else if cp \<ge> 0xDC00 \<and> cp \<le> 0xDFFF then ps_fail OI_ERR_PARSE p2
            else emit_utf8 p2 cp) = (st', p')"
    unfolding handle_string_unicode_byte_def Let_def by (simp add: p1_def p2_def cp_def cong: if_cong)
  ultimately show ?thesis
    using fail_inv [OF core(2)] append_string_inv [OF core(2) ok(2) sp(2)]
      append_string_inv [OF core(3) ok(3) sp(3)] hi
    by (auto simp: emit_utf8_def split: if_split_asm)
qed

lemma finalize_number_inv:
  assumes "json_core p" "finalize_number strtod p = (st, p')"
  shows "json_inv p'"
proof -
  have core: "json_core (p\<lparr>ps_arena := a\<rparr>)" for a using assms(1) by (simp add: arena_core)
  from assms fail_inv [OF core] fail_inv [OF assms(1)] attach_inv [OF core] show ?thesis
    by (auto simp: finalize_number_def split: option.splits prod.splits if_splits)
qed

lemma number_byte_inv:
  assumes "json_core p" "ps_state p = PS_NUMBER" "handle_number_byte strtod p c = (st, p', consumed)"
  shows "json_inv p'"
proof -
  have "length (num_buf p) < oi_json_max_number_len - 1 \<Longrightarrow> json_inv (p\<lparr>num_buf := num_buf p @ [c]\<rparr>)"
    using assms by (simp add: json_inv_def json_core_def)
  with assms(3) fail_inv [OF assms(1)] finalize_number_inv [OF assms(1)] show ?thesis
    by (auto simp: handle_number_byte_def split: if_splits prod.splits)
qed

lemma literal_byte_inv:
  assumes c: "json_core p" and l: "literal_ok p" and s: "ps_state p = PS_LITERAL"
    and r: "handle_literal_byte p c = (st, p')"
  shows "json_inv p'"
proof -
  define p1 where "p1 = p\<lparr>ps_literal_index := ps_literal_index p + 1\<rparr>"
  have core: "json_core p1" "json_core (p1\<lparr>ps_arena := a\<rparr>)" for a
    using c by (simp_all add: p1_def json_core_def)
  have "char_at (ps_literal p1) (ps_literal_index p1) \<noteq> 0 \<Longrightarrow> json_inv p1"
    using core(1) l s by (auto simp: json_inv_def p1_def literal_ok_def char_at_def split: if_splits)
  with r fail_inv [OF c] fail_inv [OF core(2)] attach_inv [OF core(2)] show ?thesis
    unfolding handle_literal_byte_def p1_def [symmetric] Let_def
    by (auto split: if_split_asm option.splits prod.splits)
qed

lemma json_step_inv:
  assumes inv: "json_inv p" and r: "json_step strtod p c = (st, p', consumed)"
  shows "json_inv p'"
proof -
  note core = json_inv_core [OF inv]
  show ?thesis
  proof (cases "ps_state p")
    case PS_VALUE
    with r between_inv [OF core] show ?thesis by (auto simp: json_step_def split: prod.splits)
  next
    case PS_STRING
    with r inv string_byte_inv [OF core] show ?thesis
      by (auto simp: json_step_def json_inv_def split: prod.splits)
  next
    case PS_STRING_ESCAPE
    with r inv escape_byte_inv [OF core] show ?thesis
      by (auto simp: json_step_def json_inv_def split: prod.splits)
  next
    case PS_STRING_UNICODE
    with r inv unicode_byte_inv [OF core] show ?thesis
      by (auto simp: json_step_def json_inv_def split: prod.splits)
  next
    case PS_NUMBER
    with r number_byte_inv [OF core] show ?thesis by (auto simp: json_step_def)
  next
    case PS_LITERAL
    with r inv literal_byte_inv [OF core] show ?thesis
      by (auto simp: json_step_def json_inv_def split: prod.splits)
  next
    case PS_DONE
    with r inv fail_inv [OF core] show ?thesis
      by (auto simp: json_step_def split: prod.splits if_splits)
  next
    case PS_ERROR
    with r inv show ?thesis by (auto simp: json_step_def)
  qed
qed

lemma feed_json_inv: "json_inv p \<Longrightarrow> json_inv (snd (oi_json_parser_feed strtod p bs))"
  by (rule json.feed_invariant) (rule json_step_inv)

section \<open>Errors are sticky\<close>

named_theorems error_state \<open>an operation of the parser that fails leaves it in \<open>PS_ERROR\<close>\<close>

lemma fail_error [error_state]: "ps_fail st p = (st', p') \<Longrightarrow> ps_state p' = PS_ERROR"
  by (auto simp: ps_fail_def)

lemma append_bytes_error [error_state]:
  "str_buf_append_bytes p bs = (st, p') \<Longrightarrow> st \<noteq> OI_OK \<Longrightarrow> ps_state p' = PS_ERROR"
  by (auto simp: str_buf_append_bytes_def ps_fail_def split: if_splits prod.splits)

lemma attach_error [error_state]:
  "attach_completed p v = (st, p') \<Longrightarrow> st \<noteq> OI_OK \<Longrightarrow> ps_state p' = PS_ERROR"
  by (auto simp: attach_completed_def ps_fail_def Let_def split: list.splits prod.splits if_split_asm)

lemma push_frame_error [error_state]:
  "push_frame p k = (st, p') \<Longrightarrow> st \<noteq> OI_OK \<Longrightarrow> ps_state p' = PS_ERROR"
  by (auto simp: push_frame_def ps_fail_def Let_def split: prod.splits option.splits if_split_asm)

lemma attach_key_error [error_state]:
  "attach_completed_key p = (st, p') \<Longrightarrow> st \<noteq> OI_OK \<Longrightarrow> ps_state p' = PS_ERROR"
  by (auto simp: attach_completed_key_def ps_fail_def split: prod.splits bool.splits)

lemma finalize_string_error [error_state]:
  "finalize_string_value p = (st, p') \<Longrightarrow> st \<noteq> OI_OK \<Longrightarrow> ps_state p' = PS_ERROR"
  by (auto simp: finalize_string_value_def split: if_split_asm prod.splits option.splits
      dest: error_state)

lemma finalize_number_error [error_state]:
  "finalize_number strtod p = (st, p') \<Longrightarrow> st \<noteq> OI_OK \<Longrightarrow> ps_state p' = PS_ERROR"
  by (auto simp: finalize_number_def split: if_split_asm prod.splits option.splits dest: error_state)

lemma dispatch_error [error_state]:
  "dispatch_value_start p c = (st, p') \<Longrightarrow> st \<noteq> OI_OK \<Longrightarrow> ps_state p' = PS_ERROR"
  unfolding dispatch_eq Let_def by (auto split: if_split_asm dest: error_state)

lemma between_error [error_state]:
  "process_between_tokens p c = (st, p') \<Longrightarrow> st \<noteq> OI_OK \<Longrightarrow> ps_state p' = PS_ERROR"
  by (auto simp: process_between_tokens_def pop_container_def Let_def
      split: if_split_asm list.splits frame_expect.splits dest: error_state)

lemma json_step_error:
  assumes "json_step strtod p c = (st, p', consumed)" "st \<noteq> OI_OK"
  shows "ps_state p' = PS_ERROR"
proof (cases "ps_state p")
  case PS_STRING_UNICODE
  with assms show ?thesis
    unfolding json_step_def handle_string_unicode_byte_def Let_def emit_utf8_def
    by (auto split: prod.splits option.splits if_split_asm dest: error_state)
qed (use assms in \<open>auto simp: json_step_def handle_string_byte_def handle_string_escape_byte_def
       handle_number_byte_def handle_literal_byte_def str_buf_append_byte_def Let_def
       split: prod.splits option.splits if_split_asm dest: error_state\<close>)

lemma feed_error:
  "oi_json_parser_feed strtod p bs = (st, p') \<Longrightarrow> st \<noteq> OI_OK \<Longrightarrow> ps_state p' = PS_ERROR"
proof (induction strtod p bs rule: oi_json_parser_feed.induct)
  case (2 strtod p c cs)
  obtain st1 p1 consumed where s: "json_step strtod p c = (st1, p1, consumed)" by (metis surj_pair)
  show ?case
  proof (cases "st1 = OI_OK")
    case True
    with 2 s show ?thesis
      by (cases consumed) (simp_all add: oi_json_parser_feed.simps)
  next
    case False
    with "2.prems" s json_step_error [OF s] show ?thesis
      by (simp add: oi_json_parser_feed.simps)
  qed
qed (simp add: oi_json_parser_feed.simps)

section \<open>Properties\<close>

text \<open>
  Chunking does not matter: feeding the concatenation of two chunks is feeding the first and, when
  it is accepted, the second, with the same status, the same state and the same allocations.
\<close>

theorem json_feed_chunks:
  "oi_json_parser_feed strtod p (xs @ ys) =
     (case oi_json_parser_feed strtod p xs of
        (st, p') \<Rightarrow> if st = OI_OK then oi_json_parser_feed strtod p' ys else (st, p'))"
  by (rule json.feed_append)

text \<open>
  C3. Bounds and types on any input, whatever the allocator answers: at most 1000 open containers
  within the frame array, a number token that leaves room for its NUL in \<open>num_buf\<close>, a scratch string
  within its buffer, every frame's container of the frame's kind, and a root when parsing is done.
\<close>

theorem json_parser_safe:
  assumes "oi_json_parser_create h a = Some p0" and "oi_json_parser_feed strtod p0 bs = (st, p)"
  shows "length (ps_frames p) \<le> frame_cap p \<and> frame_cap p \<le> 1000
    \<and> length (num_buf p) \<le> 511 \<and> length (str_buf p) \<le> str_cap p
    \<and> (\<forall>f \<in> set (ps_frames p). frame_ok f)
    \<and> (oi_json_parser_done p \<longrightarrow> ps_frames p = [] \<and> oi_json_parser_root p \<noteq> None)"
proof -
  have "json_inv p"
    using feed_json_inv [OF create_json_inv [OF assms(1)], of strtod bs] assms(2) by simp
  then show ?thesis
    by (auto simp: json_inv_def json_core_def oi_json_max_depth_def oi_json_max_number_len_def
        oi_json_parser_done_def oi_json_parser_root_def)
qed

theorem json_parser_safe_witness:
  "\<exists>a p0 st p. oi_json_parser_create heap_ok a = Some p0
    \<and> oi_json_parser_feed (\<lambda>_. (0, 0)) p0 [0x5B, 0x5B, 0x20] = (st, p) \<and> length (ps_frames p) \<le> frame_cap p"
proof -
  obtain a p0 where a: "oi_json_parser_create heap_ok a = Some p0"
    by (simp add: oi_json_parser_create_def)
  obtain st p where f: "oi_json_parser_feed (\<lambda>_. (0, 0)) p0 [0x5B, 0x5B, 0x20] = (st, p)"
    by fastforce
  from json_parser_safe [OF a f] a f show ?thesis by blast
qed

text \<open>
  Errors are sticky: when a feed fails, with whatever status, the parser reports failure, has no
  root, and answers \<open>OI_ERR_PARSE\<close> to every further byte without changing.
\<close>

theorem json_errors_sticky:
  assumes "oi_json_parser_feed strtod p bs = (st, p')" and "st \<noteq> OI_OK"
  shows "oi_json_parser_failed p' \<and> oi_json_parser_root p' = None
    \<and> oi_json_parser_feed strtod p' (c # cs) = (OI_ERR_PARSE, p')"
  using feed_error [OF assms]
  by (simp add: oi_json_parser_failed_def oi_json_parser_root_def oi_json_parser_feed.simps json_step_def)

theorem json_errors_sticky_witness:
  "\<exists>a p0 p. oi_json_parser_create heap_ok a = Some p0
    \<and> oi_json_parser_feed (\<lambda>_. (0, 0)) p0 [0x20, 0x5D] = (OI_ERR_PARSE, p)
    \<and> oi_json_parser_feed (\<lambda>_. (0, 0)) p (0x20 # []) = (OI_ERR_PARSE, p)"
proof -
  obtain a p0 where a: "oi_json_parser_create heap_ok a = Some p0"
    by (simp add: oi_json_parser_create_def)
  then obtain p where f: "oi_json_parser_feed (\<lambda>_. (0, 0)) p0 [0x20, 0x5D] = (OI_ERR_PARSE, p)"
    by (auto simp: oi_json_parser_create_def reset_transient_def oi_json_parser_feed.simps json_step_def
        process_between_tokens_def dispatch_value_start_def is_ws_def is_digit_def ps_fail_def Let_def)
  from json_errors_sticky [OF f, of "0x20" "[]"] a f show ?thesis by blast
qed

end
