(* ===== verification/Json_Number.thy ===== *)
theory Json_Number
  imports Json_Parse
begin

text \<open>
  The number check of \<open>src/json_parse.c\<close> accepts the grammar of RFC 8259.
\<close>

section \<open>Numbers: RFC 8259\<close>

definition digits1 :: "bytes \<Rightarrow> bool" where
  "digits1 s \<longleftrightarrow> s \<noteq> [] \<and> (\<forall>c \<in> set s. is_digit c)"

definition int_part :: "bytes \<Rightarrow> bool" where
  "int_part s \<longleftrightarrow> s = [0x30] \<or> (\<exists>d ds. s = d # ds \<and> d \<noteq> 0x30 \<and> digits1 s)"

definition frac_part :: "bytes \<Rightarrow> bool" where
  "frac_part s \<longleftrightarrow> s = [] \<or> (\<exists>ds. s = 0x2E # ds \<and> digits1 ds)"

definition exp_part :: "bytes \<Rightarrow> bool" where
  "exp_part s \<longleftrightarrow> s = [] \<or>
     (\<exists>e sg ds. s = e # sg @ ds \<and> (e = 0x65 \<or> e = 0x45) \<and> (sg = [] \<or> sg = [0x2B] \<or> sg = [0x2D])
        \<and> digits1 ds)"

definition json_number :: "bytes \<Rightarrow> bool" where
  "json_number s \<longleftrightarrow> (\<exists>m i f e. s = m @ i @ f @ e \<and> (m = [] \<or> m = [0x2D])
     \<and> int_part i \<and> frac_part f \<and> exp_part e)"

definition no_digit :: "bytes \<Rightarrow> bool" where
  "no_digit s \<longleftrightarrow> s = [] \<or> \<not> is_digit (hd s)"

lemma not_digit [simp]: "\<not> is_digit 0x2E" "\<not> is_digit 0x65" "\<not> is_digit 0x45" "\<not> is_digit 0x2B"
  "\<not> is_digit 0x2D" "is_digit 0x30"
  by (simp_all add: is_digit_def)

lemma some_digits_iff:
  "some_digits s = Some r \<longleftrightarrow> (\<exists>ds. s = ds @ r \<and> digits1 ds \<and> no_digit r)"
proof
  assume "some_digits s = Some r"
  then have s: "s \<noteq> []" "is_digit (hd s)" "r = dropWhile is_digit s"
    by (auto simp: some_digits_def split: if_splits)
  then have "takeWhile is_digit s \<noteq> []" by (cases s) auto
  then have "digits1 (takeWhile is_digit s)" unfolding digits1_def using takeWhile_all [of is_digit s] by simp
  moreover have "no_digit r" unfolding no_digit_def s(3) using hd_dropWhile [of is_digit s] by (cases "dropWhile is_digit s = []") simp_all
  moreover have "s = takeWhile is_digit s @ r" using s(3) by simp
  ultimately show "\<exists>ds. s = ds @ r \<and> digits1 ds \<and> no_digit r" by blast
next
  assume "\<exists>ds. s = ds @ r \<and> digits1 ds \<and> no_digit r"
  then obtain ds where d: "s = ds @ r" "digits1 ds" "no_digit r" by (elim exE conjE)
  then have "dropWhile is_digit s = dropWhile is_digit r" by (simp add: digits1_def)
  also have "\<dots> = r" using d(3) by (cases r) (auto simp: no_digit_def)
  finally have "dropWhile is_digit s = r" .
  moreover have "s \<noteq> []" "is_digit (hd s)" using d(1,2) by (auto simp: digits1_def)
  ultimately show "some_digits s = Some r" by (simp add: some_digits_def)
qed

lemma skip_exp_iff:
  "skip_exp s = Some [] \<longleftrightarrow> exp_part s"
proof (cases "s \<noteq> [] \<and> (hd s = 0x65 \<or> hd s = 0x45)")
  case False
  then show ?thesis by (auto simp: skip_exp_def exp_part_def)
next
  case True
  then obtain e t where s: "s = e # t" "e = 0x65 \<or> e = 0x45" by (cases s) auto
  let ?t = "if t \<noteq> [] \<and> (hd t = 0x2B \<or> hd t = 0x2D) then tl t else t"
  have "skip_exp s = some_digits ?t" using s by (auto simp: skip_exp_def Let_def)
  then have "skip_exp s = Some [] \<longleftrightarrow> digits1 ?t"
    by (simp only: some_digits_iff) (simp add: no_digit_def)
  also have "\<dots> \<longleftrightarrow> (\<exists>sg ds. t = sg @ ds \<and> (sg = [] \<or> sg = [0x2B] \<or> sg = [0x2D]) \<and> digits1 ds)"
  proof
    assume "digits1 ?t"
    then show "\<exists>sg ds. t = sg @ ds \<and> (sg = [] \<or> sg = [0x2B] \<or> sg = [0x2D]) \<and> digits1 ds"
      by (intro exI [of _ "if t \<noteq> [] \<and> (hd t = 0x2B \<or> hd t = 0x2D) then [hd t] else []"] exI [of _ ?t])
         (cases t; auto)
  next
    assume "\<exists>sg ds. t = sg @ ds \<and> (sg = [] \<or> sg = [0x2B] \<or> sg = [0x2D]) \<and> digits1 ds"
    then show "digits1 ?t" by (cases t) (auto simp: digits1_def)
  qed
  also have "\<dots> \<longleftrightarrow> exp_part s" using s by (auto simp: exp_part_def)
  finally show ?thesis .
qed

lemma exp_no_digit: "exp_part s \<Longrightarrow> no_digit s"
  by (auto simp: exp_part_def no_digit_def)

lemma frac_exp_no_digit: "frac_part f \<Longrightarrow> exp_part e \<Longrightarrow> no_digit (f @ e)"
  by (auto simp: frac_part_def no_digit_def dest: exp_no_digit)

lemma skip_frac_iff:
  "(\<exists>r. skip_frac s = Some r \<and> exp_part r) \<longleftrightarrow> (\<exists>f e. s = f @ e \<and> frac_part f \<and> exp_part e)"
proof (cases "s \<noteq> [] \<and> hd s = 0x2E")
  case True
  then obtain t where s: "s = 0x2E # t" by (cases s) auto
  have ne: "\<not> exp_part s" using s by (auto simp: exp_part_def)
  have "(\<exists>r. skip_frac s = Some r \<and> exp_part r) \<longleftrightarrow> (\<exists>ds r. t = ds @ r \<and> digits1 ds \<and> exp_part r)"
    using s exp_no_digit by (auto simp: skip_frac_def some_digits_iff)
  also have "\<dots> \<longleftrightarrow> (\<exists>f e. s = f @ e \<and> frac_part f \<and> exp_part e)"
    unfolding frac_part_def using s ne by (auto simp: Cons_eq_append_conv)
  finally show ?thesis .
next
  case False
  then show ?thesis
    by (auto simp: skip_frac_def frac_part_def)
qed

lemma skip_int_iff:
  "(\<exists>r. skip_int s = Some r \<and> (\<exists>f e. r = f @ e \<and> frac_part f \<and> exp_part e))
     \<longleftrightarrow> (\<exists>i f e. s = i @ f @ e \<and> int_part i \<and> frac_part f \<and> exp_part e)"
proof (cases s)
  case Nil
  then show ?thesis by (auto simp: skip_int_def int_part_def)
next
  case (Cons c t)
  show ?thesis
  proof (cases "c = 0x30")
    case True
    have z: "i = [0x30]" if "int_part i" "s = i @ r" for i r
      using that Cons True by (cases i) (auto simp: int_part_def digits1_def)
    have "int_part [0x30]" by (simp add: int_part_def)
    moreover have "skip_int s = Some t" using Cons True by (simp add: skip_int_def)
    ultimately show ?thesis using Cons True
      by simp (metis z append_Cons append_Nil list.inject)
  next
    case False
    have e: "int_part i = digits1 i" if "s = i @ r" for i r
      using that Cons False by (cases i) (auto simp: int_part_def digits1_def)
    have "(\<exists>r. skip_int s = Some r \<and> (\<exists>f e. r = f @ e \<and> frac_part f \<and> exp_part e))
        \<longleftrightarrow> (\<exists>i f e. s = i @ f @ e \<and> digits1 i \<and> frac_part f \<and> exp_part e)"
      using Cons False frac_exp_no_digit by (auto simp: skip_int_def some_digits_iff)
    also have "\<dots> \<longleftrightarrow> (\<exists>i f e. s = i @ f @ e \<and> int_part i \<and> frac_part f \<and> exp_part e)"
      using e by blast
    finally show ?thesis .
  qed
qed

lemma validate_parts:
  "validate_json_number s \<longleftrightarrow>
     (\<exists>i f e. (if s \<noteq> [] \<and> hd s = 0x2D then tl s else s) = i @ f @ e
        \<and> int_part i \<and> frac_part f \<and> exp_part e)"
proof -
  let ?s = "if s \<noteq> [] \<and> hd s = 0x2D then tl s else s"
  have "validate_json_number s \<longleftrightarrow>
      (\<exists>r. skip_int ?s = Some r \<and> (\<exists>q. skip_frac r = Some q \<and> skip_exp q = Some []))"
    unfolding validate_json_number_def Let_def by (auto split: option.splits)
  then show ?thesis by (simp only: skip_exp_iff skip_frac_iff skip_int_iff)
qed

definition unsigned_number :: "bytes \<Rightarrow> bool" where
  "unsigned_number s \<longleftrightarrow> (\<exists>i f e. s = i @ f @ e \<and> int_part i \<and> frac_part f \<and> exp_part e)"

lemma unsigned_no_minus: "unsigned_number s \<Longrightarrow> s \<noteq> [] \<and> hd s \<noteq> 0x2D"
  by (auto simp: unsigned_number_def int_part_def digits1_def)

lemma json_number_iff:
  "json_number s \<longleftrightarrow> unsigned_number s \<or> (\<exists>t. s = 0x2D # t \<and> unsigned_number t)"
proof
  assume "json_number s"
  then obtain m i f e where "s = m @ i @ f @ e" "m = [] \<or> m = [0x2D]" "int_part i" "frac_part f"
    "exp_part e" unfolding json_number_def by blast
  moreover from this have "unsigned_number (i @ f @ e)" unfolding unsigned_number_def by blast
  ultimately show "unsigned_number s \<or> (\<exists>t. s = 0x2D # t \<and> unsigned_number t)" by auto
next
  assume "unsigned_number s \<or> (\<exists>t. s = 0x2D # t \<and> unsigned_number t)"
  then obtain m t where m: "s = m @ t" "m = [] \<or> m = [0x2D]" "unsigned_number t"
    by (metis append_Cons append_Nil)
  then show "json_number s" unfolding json_number_def unsigned_number_def by blast
qed

lemma validate_iff_number: "validate_json_number s \<longleftrightarrow> json_number s"
proof -
  have "validate_json_number s = unsigned_number (if s \<noteq> [] \<and> hd s = 0x2D then tl s else s)"
    by (simp only: validate_parts unsigned_number_def)
  also have "\<dots> = json_number s"
    using unsigned_no_minus [of s] unsigned_no_minus [of "[]"]
    by (cases s) (auto simp: json_number_iff)
  finally show ?thesis .
qed

text \<open>
  \<open>validate_json_number\<close> accepts exactly the numbers of RFC 8259: an optional minus, an integer
  part without leading zero, an optional fraction and an optional exponent.
\<close>

theorem validate_json_number_correct: "validate_json_number s \<longleftrightarrow> json_number s"
  by (rule validate_iff_number)

end
