(* ===== verification/Json_Write.thy ===== *)
theory Json_Write
  imports Json_Value
begin

text \<open>
  \<open>src/json_write.c\<close>: the streaming writer. \<open>wr_buf\<close> is the text without its NUL (its length is
  \<open>len\<close>), \<open>wr_frames\<close> the stack of open containers with the innermost first (its length is
  \<open>frame_count\<close>). The text that \<open>snprintf\<close> gives for \<open>%.17g\<close> is a parameter.
\<close>

record wframe =
  is_object :: bool
  wf_count :: nat
  awaiting_value :: bool

record oi_json_writer =
  wr_buf :: bytes
  wr_cap :: nat
  wr_frames :: "wframe list"
  wr_frame_cap :: nat
  have_root :: bool
  wr_failed :: bool
  wr_heap :: heap

type_synonym fmt = "double \<Rightarrow> bytes"

definition sizeof_wframe :: nat where "sizeof_wframe = 24"

definition oi_json_writer_create :: "heap \<Rightarrow> oi_json_writer option" where
  "oi_json_writer_create h =
     (if \<not> shd h then None
      else if \<not> shd (stl h) then None
      else if \<not> shd (stl (stl h)) then None
      else Some \<lparr>wr_buf = [], wr_cap = 64, wr_frames = [], wr_frame_cap = 8, have_root = False,
                 wr_failed = False, wr_heap = stl (stl (stl h))\<rparr>)"

definition ensure_buf :: "oi_json_writer \<Rightarrow> nat \<Rightarrow> oi_status \<times> oi_json_writer" where
  "ensure_buf w additional =
     (if additional > size_max - length (wr_buf w) - 1 then (OI_ERR_NOMEM, w)
      else let needed = length (wr_buf w) + additional + 1 in
        if needed \<le> wr_cap w then (OI_OK, w)
        else (case grow_cap (wr_cap w) needed of
                None \<Rightarrow> (OI_ERR_NOMEM, w)
              | Some new_cap \<Rightarrow>
                  if \<not> shd (wr_heap w) then (OI_ERR_NOMEM, w\<lparr>wr_heap := stl (wr_heap w)\<rparr>)
                  else (OI_OK, w\<lparr>wr_cap := new_cap, wr_heap := stl (wr_heap w)\<rparr>)))"

definition append_bytes :: "oi_json_writer \<Rightarrow> bytes \<Rightarrow> oi_status \<times> oi_json_writer" where
  "append_bytes w bs =
     (case ensure_buf w (length bs) of
        (st, w') \<Rightarrow> if st \<noteq> OI_OK then (st, w') else (OI_OK, w'\<lparr>wr_buf := wr_buf w' @ bs\<rparr>))"

definition append_str :: "oi_json_writer \<Rightarrow> string \<Rightarrow> oi_status \<times> oi_json_writer" where
  "append_str w s = append_bytes w (bytes_of s)"

definition push_wframe :: "oi_json_writer \<Rightarrow> bool \<Rightarrow> oi_status \<times> oi_json_writer" where
  "push_wframe w obj =
     (let new = \<lparr>is_object = obj, wf_count = 0, awaiting_value = False\<rparr> in
      if length (wr_frames w) = wr_frame_cap w then
        (if wr_frame_cap w > size_max div 2 div sizeof_wframe then (OI_ERR_NOMEM, w)
         else if \<not> shd (wr_heap w) then (OI_ERR_NOMEM, w\<lparr>wr_heap := stl (wr_heap w)\<rparr>)
         else (OI_OK, w\<lparr>wr_frame_cap := wr_frame_cap w * 2, wr_heap := stl (wr_heap w),
                        wr_frames := new # wr_frames w\<rparr>))
      else (OI_OK, w\<lparr>wr_frames := new # wr_frames w\<rparr>))"

definition misuse :: "oi_json_writer \<Rightarrow> oi_status \<times> oi_json_writer" where
  "misuse w = (OI_ERR_INVAL, w\<lparr>wr_failed := True\<rparr>)"

definition begin_value :: "oi_json_writer \<Rightarrow> oi_status \<times> oi_json_writer" where
  "begin_value w =
     (if wr_failed w then (OI_ERR_INVAL, w)
      else (case wr_frames w of
          [] \<Rightarrow> if have_root w then misuse w else (OI_OK, w)
        | f0 # _ \<Rightarrow>
            if is_object f0 then (if \<not> awaiting_value f0 then misuse w else (OI_OK, w))
            else if wf_count f0 > 0 then append_bytes w (bytes_of '','')
            else (OI_OK, w)))"

definition end_value :: "oi_json_writer \<Rightarrow> oi_json_writer" where
  "end_value w =
     (case wr_frames w of
        [] \<Rightarrow> w\<lparr>have_root := True\<rparr>
      | f0 # rest \<Rightarrow>
          w\<lparr>wr_frames := f0\<lparr>wf_count := wf_count f0 + 1, awaiting_value := False\<rparr> # rest\<rparr>)"

text \<open>The sequencing \<open>st = f(w); if (st != OI_OK) return st; ...\<close>\<close>

definition wr_then ::
  "oi_status \<times> oi_json_writer \<Rightarrow> (oi_json_writer \<Rightarrow> oi_status \<times> oi_json_writer) \<Rightarrow> oi_status \<times> oi_json_writer" where
  "wr_then r k = (case r of (st, w) \<Rightarrow> if st \<noteq> OI_OK then (st, w) else k w)"

definition wr_done :: "oi_json_writer \<Rightarrow> oi_status \<times> oi_json_writer" where
  "wr_done w = (OI_OK, end_value w)"

definition oi_json_write_null :: "oi_json_writer \<Rightarrow> oi_status \<times> oi_json_writer" where
  "oi_json_write_null w =
     wr_then (begin_value w) (\<lambda>w. wr_then (append_str w ''null'') wr_done)"

definition oi_json_write_bool :: "oi_json_writer \<Rightarrow> bool \<Rightarrow> oi_status \<times> oi_json_writer" where
  "oi_json_write_bool w b =
     wr_then (begin_value w) (\<lambda>w. wr_then (append_str w (if b then ''true'' else ''false'')) wr_done)"

text \<open>\<open>isfinite\<close>: the exponent field is not all ones.\<close>

definition isfinite :: "double \<Rightarrow> bool" where
  "isfinite d \<longleftrightarrow> drop_bit 52 d AND 0x7FF \<noteq> 0x7FF"

definition oi_json_write_number :: "fmt \<Rightarrow> oi_json_writer \<Rightarrow> double \<Rightarrow> oi_status \<times> oi_json_writer" where
  "oi_json_write_number fmt w d =
     (if \<not> isfinite d then (OI_ERR_INVAL, w)
      else wr_then (begin_value w) (\<lambda>w.
        if length (fmt d) \<ge> 64 then (OI_ERR_INVAL, w)
        else wr_then (append_bytes w (fmt d)) wr_done))"

text \<open>\<open>snprintf(esc, sizeof esc, "\\u%04x", c)\<close> for a byte.\<close>

definition hex_char :: "nat \<Rightarrow> byte" where
  "hex_char n = (if n < 10 then word_of_nat (0x30 + n) else word_of_nat (0x61 + (n - 10)))"

definition u_escape :: "byte \<Rightarrow> bytes" where
  "u_escape c = [0x5C, 0x75, 0x30, 0x30, hex_char (unat c div 16), hex_char (unat c mod 16)]"

definition escape_byte :: "byte \<Rightarrow> bytes" where
  "escape_byte c =
     (if c = 0x22 then [0x5C, 0x22] else if c = 0x5C then [0x5C, 0x5C]
      else if c = 0x08 then [0x5C, 0x62] else if c = 0x0C then [0x5C, 0x66]
      else if c = 0x0A then [0x5C, 0x6E] else if c = 0x0D then [0x5C, 0x72]
      else if c = 0x09 then [0x5C, 0x74]
      else if c < 0x20 then u_escape c
      else [c])"

fun append_escaped :: "oi_json_writer \<Rightarrow> bytes \<Rightarrow> oi_status \<times> oi_json_writer" where
  "append_escaped w [] = (OI_OK, w)"
| "append_escaped w (c # cs) = wr_then (append_bytes w (escape_byte c)) (\<lambda>w. append_escaped w cs)"

definition append_escaped_string :: "oi_json_writer \<Rightarrow> bytes \<Rightarrow> oi_status \<times> oi_json_writer" where
  "append_escaped_string w s =
     (if length s > (size_max - 2) div 6 then (OI_ERR_NOMEM, w)
      else wr_then (append_bytes w [0x22]) (\<lambda>w.
        wr_then (append_escaped w s) (\<lambda>w. append_bytes w [0x22])))"

definition oi_json_write_string :: "oi_json_writer \<Rightarrow> bytes \<Rightarrow> oi_status \<times> oi_json_writer" where
  "oi_json_write_string w s =
     wr_then (begin_value w) (\<lambda>w. wr_then (append_escaped_string w s) wr_done)"

definition begin_container :: "oi_json_writer \<Rightarrow> bool \<Rightarrow> oi_status \<times> oi_json_writer" where
  "begin_container w obj =
     wr_then (begin_value w) (\<lambda>w.
       wr_then (append_bytes w (bytes_of (if obj then ''{'' else ''['')))
         (\<lambda>w. push_wframe (end_value w) obj))"

definition end_container :: "oi_json_writer \<Rightarrow> bool \<Rightarrow> oi_status \<times> oi_json_writer" where
  "end_container w obj =
     (if wr_failed w then (OI_ERR_INVAL, w)
      else (case wr_frames w of
          [] \<Rightarrow> misuse w
        | f0 # rest \<Rightarrow>
            if is_object f0 \<noteq> obj \<or> is_object f0 \<and> awaiting_value f0 then misuse w
            else wr_then (append_bytes w (bytes_of (if obj then ''}'' else '']'')))
              (\<lambda>w. wr_done (w\<lparr>wr_frames := tl (wr_frames w)\<rparr>))))"

definition oi_json_write_array_begin :: "oi_json_writer \<Rightarrow> oi_status \<times> oi_json_writer" where
  "oi_json_write_array_begin w = begin_container w False"

definition oi_json_write_array_end :: "oi_json_writer \<Rightarrow> oi_status \<times> oi_json_writer" where
  "oi_json_write_array_end w = end_container w False"

definition oi_json_write_object_begin :: "oi_json_writer \<Rightarrow> oi_status \<times> oi_json_writer" where
  "oi_json_write_object_begin w = begin_container w True"

definition oi_json_write_object_end :: "oi_json_writer \<Rightarrow> oi_status \<times> oi_json_writer" where
  "oi_json_write_object_end w = end_container w True"

definition oi_json_write_object_key :: "oi_json_writer \<Rightarrow> bytes \<Rightarrow> oi_status \<times> oi_json_writer" where
  "oi_json_write_object_key w key =
     (if wr_failed w then (OI_ERR_INVAL, w)
      else (case wr_frames w of
          [] \<Rightarrow> misuse w
        | f0 # _ \<Rightarrow>
            if \<not> is_object f0 \<or> awaiting_value f0 then misuse w
            else wr_then (if wf_count f0 > 0 then append_bytes w (bytes_of '','') else (OI_OK, w)) (\<lambda>w.
              wr_then (append_escaped_string w key) (\<lambda>w.
              wr_then (append_bytes w (bytes_of '':'')) (\<lambda>w.
                (OI_OK, w\<lparr>wr_frames := (hd (wr_frames w))\<lparr>awaiting_value := True\<rparr> # tl (wr_frames w)\<rparr>))))))"

definition oi_json_writer_data :: "oi_json_writer \<Rightarrow> bytes" where
  "oi_json_writer_data w = wr_buf w"

section \<open>The buffer contract\<close>

interpretation wrbuf: append_buffer append_bytes wr_buf
  by unfold_locales
     (auto simp: append_bytes_def ensure_buf_def Let_def split: if_splits option.splits)

text \<open>An append leaves everything but the buffer and the allocator alone.\<close>

lemma append_bytes_frame:
  "append_bytes w bs = (st, w') \<Longrightarrow> wr_frames w' = wr_frames w \<and> have_root w' = have_root w
     \<and> wr_failed w' = wr_failed w \<and> wr_frame_cap w' = wr_frame_cap w"
  by (auto simp: append_bytes_def ensure_buf_def Let_def split: if_splits option.splits)

lemma append_bytes_ok:
  "append_bytes w bs = (OI_OK, w') \<Longrightarrow> wr_buf w' = wr_buf w @ bs \<and> wr_frames w' = wr_frames w
     \<and> have_root w' = have_root w \<and> wr_failed w' = wr_failed w"
  using append_bytes_frame [of w bs OI_OK w'] wrbuf.append_ok by blast

section \<open>The calls of a client\<close>

datatype w_op =
    W_null | W_bool bool | W_number double | W_string bytes
  | W_array_begin | W_array_end | W_object_begin | W_key bytes | W_object_end

fun write_call :: "fmt \<Rightarrow> oi_json_writer \<Rightarrow> w_op \<Rightarrow> oi_status \<times> oi_json_writer" where
  "write_call fmt w W_null = oi_json_write_null w"
| "write_call fmt w (W_bool b) = oi_json_write_bool w b"
| "write_call fmt w (W_number d) = oi_json_write_number fmt w d"
| "write_call fmt w (W_string s) = oi_json_write_string w s"
| "write_call fmt w W_array_begin = oi_json_write_array_begin w"
| "write_call fmt w W_array_end = oi_json_write_array_end w"
| "write_call fmt w W_object_begin = oi_json_write_object_begin w"
| "write_call fmt w (W_key k) = oi_json_write_object_key w k"
| "write_call fmt w W_object_end = oi_json_write_object_end w"

text \<open>A client that stops at the first status that is not \<open>OI_OK\<close>.\<close>

fun write_calls :: "fmt \<Rightarrow> oi_json_writer \<Rightarrow> w_op list \<Rightarrow> oi_status \<times> oi_json_writer" where
  "write_calls fmt w [] = (OI_OK, w)"
| "write_calls fmt w (c # cs) = wr_then (write_call fmt w c) (\<lambda>w. write_calls fmt w cs)"

section \<open>The text of a value\<close>

definition quote :: "bytes \<Rightarrow> bytes" where
  "quote s = 0x22 # concat (map escape_byte s) @ [0x22]"

fun comma_join :: "bytes list \<Rightarrow> bytes" where
  "comma_join [] = []"
| "comma_join [x] = x"
| "comma_join (x # xs) = x @ 0x2C # comma_join xs"

fun render :: "fmt \<Rightarrow> oi_json_value \<Rightarrow> bytes" where
  "render fmt JSON_NULL = bytes_of ''null''"
| "render fmt (JSON_BOOL b) = bytes_of (if b then ''true'' else ''false'')"
| "render fmt (JSON_NUMBER d) = fmt d"
| "render fmt (JSON_STRING s) = quote s"
| "render fmt (JSON_ARRAY vs c) = 0x5B # comma_join (map (render fmt) vs) @ [0x5D]"
| "render fmt (JSON_OBJECT ms) =
     0x7B # comma_join (map (\<lambda>(k, v). quote k @ 0x3A # render fmt v) ms) @ [0x7D]"

text \<open>The values the writer can be asked for: finite numbers; array capacities as pushes leave them.\<close>

fun writable :: "fmt \<Rightarrow> oi_json_value \<Rightarrow> bool" where
  "writable fmt (JSON_NUMBER d) \<longleftrightarrow> isfinite d \<and> length (fmt d) < 64"
| "writable fmt (JSON_ARRAY vs c) \<longleftrightarrow> c = value_cap (length vs) \<and> (\<forall>v \<in> set vs. writable fmt v)"
| "writable fmt (JSON_OBJECT ms) \<longleftrightarrow> (\<forall>m \<in> set ms. writable fmt (snd m))"
| "writable fmt _ \<longleftrightarrow> True"

lemma comma_join_snoc: "comma_join (xs @ [x]) = (if xs = [] then x else comma_join xs @ 0x2C # x)"
  by (induction xs rule: comma_join.induct) auto

section \<open>Partial documents\<close>

text \<open>
  An open container with what it already holds; an object may hold a key whose value is due. The text
  of a stack of open containers (innermost first) is the text before its top, then the top's.
\<close>

datatype ctx = CArr "oi_json_value list" | CObj "(bytes \<times> oi_json_value) list" "bytes option"

abbreviation member_text :: "fmt \<Rightarrow> bytes \<times> oi_json_value \<Rightarrow> bytes" where
  "member_text fmt \<equiv> (\<lambda>(k, v). quote k @ 0x3A # render fmt v)"

fun ctx_open :: "fmt \<Rightarrow> ctx \<Rightarrow> bytes" where
  "ctx_open fmt (CArr vs) = 0x5B # comma_join (map (render fmt) vs)"
| "ctx_open fmt (CObj ms k) = 0x7B # comma_join (map (member_text fmt) ms) @
     (case k of None \<Rightarrow> [] | Some k \<Rightarrow> (if ms = [] then [] else [0x2C]) @ quote k @ [0x3A])"

fun ctx_sep :: "ctx \<Rightarrow> bytes" where
  "ctx_sep (CArr vs) = (if vs = [] then [] else [0x2C])"
| "ctx_sep (CObj ms k) = []"

fun ctx_prefix :: "fmt \<Rightarrow> ctx list \<Rightarrow> bytes" where
  "ctx_prefix fmt [] = []"
| "ctx_prefix fmt (c # cs) = ctx_prefix fmt cs @ ctx_open fmt c @ ctx_sep c"

fun ctx_add :: "oi_json_value \<Rightarrow> ctx \<Rightarrow> ctx" where
  "ctx_add v (CArr vs) = CArr (vs @ [v])"
| "ctx_add v (CObj ms (Some k)) = CObj (ms @ [(k, v)]) None"
| "ctx_add v (CObj ms None) = CObj ms None"

fun ctx_takes :: "ctx \<Rightarrow> bool" where
  "ctx_takes (CArr vs) = True"
| "ctx_takes (CObj ms k) = (k \<noteq> None)"

fun ctx_writable :: "fmt \<Rightarrow> ctx \<Rightarrow> bool" where
  "ctx_writable fmt (CArr vs) \<longleftrightarrow> (\<forall>v \<in> set vs. writable fmt v)"
| "ctx_writable fmt (CObj ms k) \<longleftrightarrow> (\<forall>m \<in> set ms. writable fmt (snd m))"

fun ctx_value :: "ctx \<Rightarrow> oi_json_value" where
  "ctx_value (CArr vs) = JSON_ARRAY vs (value_cap (length vs))"
| "ctx_value (CObj ms k) = JSON_OBJECT ms"

lemma ctx_add_open:
  "ctx_takes c \<Longrightarrow> ctx_open fmt (ctx_add v c) = ctx_open fmt c @ ctx_sep c @ render fmt v"
  by (cases "(v, c)" rule: ctx_add.cases) (auto simp: comma_join_snoc)

section \<open>The invariant\<close>

fun is_obj :: "ctx \<Rightarrow> bool" where
  "is_obj (CArr vs) = False" | "is_obj (CObj ms k) = True"

fun ctx_empty :: "ctx \<Rightarrow> bool" where
  "ctx_empty (CArr vs) = (vs = [])" | "ctx_empty (CObj ms k) = (ms = [])"

fun key_written :: "ctx \<Rightarrow> bool" where
  "key_written (CArr vs) = False" | "key_written (CObj ms k) = (k \<noteq> None)"

text \<open>The frame of the innermost container, and of one that waits for an inner one to close.\<close>

definition top_ok :: "wframe \<Rightarrow> ctx \<Rightarrow> bool" where
  "top_ok f c \<longleftrightarrow> is_object f = is_obj c \<and> (wf_count f > 0 \<longleftrightarrow> \<not> ctx_empty c)
     \<and> (awaiting_value f \<longleftrightarrow> key_written c)"

definition rest_ok :: "wframe \<Rightarrow> ctx \<Rightarrow> bool" where
  "rest_ok f c \<longleftrightarrow> is_object f = is_obj c \<and> ctx_takes c"

definition wr_inv :: "fmt \<Rightarrow> oi_json_value option \<Rightarrow> ctx list \<Rightarrow> oi_json_writer \<Rightarrow> bool" where
  "wr_inv fmt root cs w \<longleftrightarrow> \<not> wr_failed w \<and> (\<forall>c \<in> set cs. ctx_writable fmt c) \<and>
     (case cs of
        [] \<Rightarrow> wr_frames w = [] \<and>
          (case root of None \<Rightarrow> \<not> have_root w \<and> wr_buf w = []
           | Some v \<Rightarrow> have_root w \<and> wr_buf w = render fmt v \<and> writable fmt v)
      | c # ds \<Rightarrow> root = None \<and> have_root w \<and> wr_buf w = ctx_prefix fmt ds @ ctx_open fmt c \<and>
          (\<exists>f fs. wr_frames w = f # fs \<and> top_ok f c \<and> list_all2 rest_ok fs ds))"

text \<open>What each call adds to the document: a root that is complete, or the open containers.\<close>

definition doc_put :: "oi_json_value \<Rightarrow> ctx list \<Rightarrow> oi_json_value option \<times> ctx list" where
  "doc_put v cs = (case cs of [] \<Rightarrow> (Some v, []) | c # ds \<Rightarrow> (None, ctx_add v c # ds))"

definition doc_close :: "ctx list \<Rightarrow> oi_json_value option \<times> ctx list" where
  "doc_close cs = (case cs of [] \<Rightarrow> (None, []) | c # ds \<Rightarrow> doc_put (ctx_value c) ds)"

fun doc_key :: "bytes \<Rightarrow> ctx list \<Rightarrow> ctx list" where
  "doc_key k (CObj ms _ # ds) = CObj ms (Some k) # ds"
| "doc_key k cs = cs"

fun doc_step :: "w_op \<Rightarrow> oi_json_value option \<times> ctx list \<Rightarrow> oi_json_value option \<times> ctx list" where
  "doc_step W_null d = doc_put JSON_NULL (snd d)"
| "doc_step (W_bool b) d = doc_put (JSON_BOOL b) (snd d)"
| "doc_step (W_number n) d = doc_put (JSON_NUMBER n) (snd d)"
| "doc_step (W_string s) d = doc_put (JSON_STRING s) (snd d)"
| "doc_step W_array_begin d = (None, CArr [] # snd d)"
| "doc_step W_object_begin d = (None, CObj [] None # snd d)"
| "doc_step W_array_end d = doc_close (snd d)"
| "doc_step W_object_end d = doc_close (snd d)"
| "doc_step (W_key k) d = (None, doc_key k (snd d))"

abbreviation doc_inv :: "fmt \<Rightarrow> oi_json_value option \<times> ctx list \<Rightarrow> oi_json_writer \<Rightarrow> bool" where
  "doc_inv fmt d w \<equiv> wr_inv fmt (fst d) (snd d) w"

text \<open>Between \<open>begin_value\<close> and \<open>end_value\<close>: the text \<open>t\<close> stands in a slot for a value.\<close>

definition in_slot :: "fmt \<Rightarrow> ctx list \<Rightarrow> bytes \<Rightarrow> oi_json_writer \<Rightarrow> bool" where
  "in_slot fmt cs t w \<longleftrightarrow> \<not> wr_failed w \<and> (\<forall>c \<in> set cs. ctx_writable fmt c)
     \<and> list_all2 rest_ok (wr_frames w) cs \<and> wr_buf w = ctx_prefix fmt cs @ t \<and> (cs \<noteq> [] \<longrightarrow> have_root w)"

lemma begin_slot:
  assumes "wr_inv fmt root cs w" "begin_value w = (OI_OK, w')"
  shows "in_slot fmt cs [] w' \<and> root = None \<and> (cs = [] \<longrightarrow> \<not> have_root w')"
proof (cases cs)
  case Nil
  with assms show ?thesis
    by (auto simp: wr_inv_def in_slot_def begin_value_def misuse_def split: if_splits option.splits)
next
  case (Cons c ds)
  with assms(1) obtain f fs where w: "\<not> wr_failed w" "root = None" "have_root w"
    "wr_buf w = ctx_prefix fmt ds @ ctx_open fmt c" "wr_frames w = f # fs" "top_ok f c"
    "list_all2 rest_ok fs ds" "\<forall>c \<in> set cs. ctx_writable fmt c"
    by (auto simp: wr_inv_def)
  show ?thesis
  proof (cases c)
    case (CArr vs)
    with assms(2) w Cons show ?thesis
      by (cases "vs = []")
         (auto simp: begin_value_def top_ok_def rest_ok_def in_slot_def bytes_of_def dest!: append_bytes_ok)
  next
    case (CObj ms k)
    with assms(2) w Cons show ?thesis
      by (auto simp: begin_value_def top_ok_def rest_ok_def in_slot_def misuse_def split: if_splits)
  qed
qed

lemma slot_append:
  "in_slot fmt cs t w \<Longrightarrow> append_bytes w bs = (OI_OK, w') \<Longrightarrow>
     in_slot fmt cs (t @ bs) w' \<and> have_root w' = have_root w"
  by (auto simp: in_slot_def dest!: append_bytes_ok)

lemma slot_end:
  assumes "in_slot fmt cs (render fmt v) w" "writable fmt v"
  shows "doc_inv fmt (doc_put v cs) (end_value w)"
proof (cases cs)
  case Nil
  with assms show ?thesis by (simp add: wr_inv_def in_slot_def end_value_def doc_put_def)
next
  case (Cons c ds)
  with assms(1) obtain f fs where w: "\<not> wr_failed w" "have_root w"
    "wr_buf w = ctx_prefix fmt ds @ ctx_open fmt c @ ctx_sep c @ render fmt v" "wr_frames w = f # fs"
    "rest_ok f c" "list_all2 rest_ok fs ds" "\<forall>c \<in> set cs. ctx_writable fmt c"
    by (auto simp: in_slot_def list_all2_Cons2)
  have "top_ok (f\<lparr>wf_count := wf_count f + 1, awaiting_value := False\<rparr>) (ctx_add v c)"
    "ctx_writable fmt (ctx_add v c)"
    using w(5,7) Cons assms(2)
    by (cases "(v, c)" rule: ctx_add.cases; auto simp: top_ok_def rest_ok_def)+
  with w Cons show ?thesis
    by (simp add: wr_inv_def end_value_def ctx_add_open rest_ok_def doc_put_def)
qed

lemma wr_then_ok: "wr_then r k = (OI_OK, w') \<longleftrightarrow> (\<exists>w. r = (OI_OK, w) \<and> k w = (OI_OK, w'))"
  by (cases r) (auto simp: wr_then_def)

lemma append_escaped_ok:
  "append_escaped w s = (OI_OK, w') \<Longrightarrow>
     wr_buf w' = wr_buf w @ concat (map escape_byte s) \<and> wr_frames w' = wr_frames w
     \<and> have_root w' = have_root w \<and> wr_failed w' = wr_failed w"
proof (induction s arbitrary: w)
  case (Cons c s)
  from Cons.prems obtain w1 where 1: "append_bytes w (escape_byte c) = (OI_OK, w1)"
    "append_escaped w1 s = (OI_OK, w')" by (auto simp: wr_then_ok)
  from append_bytes_ok [OF 1(1)] Cons.IH [OF 1(2)] show ?case by simp
qed simp

lemma escaped_string_ok:
  assumes "append_escaped_string w s = (OI_OK, w')"
  shows "wr_buf w' = wr_buf w @ quote s \<and> wr_frames w' = wr_frames w
     \<and> have_root w' = have_root w \<and> wr_failed w' = wr_failed w"
proof -
  from assms obtain w1 w2 where "append_bytes w [0x22] = (OI_OK, w1)"
    "append_escaped w1 s = (OI_OK, w2)" "append_bytes w2 [0x22] = (OI_OK, w')"
    by (auto simp: append_escaped_string_def wr_then_ok split: if_splits)
  from append_bytes_ok [OF this(1)] append_escaped_ok [OF this(2)] append_bytes_ok [OF this(3)]
  show ?thesis by (simp add: quote_def)
qed

text \<open>A scalar: begin, append its text, end.\<close>

lemma scalar_step:
  assumes inv: "wr_inv fmt root cs w" and b: "begin_value w = (OI_OK, w1)"
    and a: "wr_buf w2 = wr_buf w1 @ render fmt v" "wr_frames w2 = wr_frames w1"
      "have_root w2 = have_root w1" "wr_failed w2 = wr_failed w1"
    and v: "writable fmt v"
  shows "doc_inv fmt (doc_put v cs) (end_value w2)"
proof -
  from begin_slot [OF inv b] a have "in_slot fmt cs (render fmt v) w2"
    by (simp add: in_slot_def)
  from slot_end [OF this v] show ?thesis .
qed

lemma open_step:
  assumes inv: "wr_inv fmt root cs w" and r: "begin_container w obj = (OI_OK, w')"
  shows "wr_inv fmt None ((if obj then CObj [] None else CArr []) # cs) w'"
proof -
  let ?b = "if obj then [0x7B] else [0x5B] :: bytes"
  from r obtain w1 w2 where 1: "begin_value w = (OI_OK, w1)" "append_bytes w1 ?b = (OI_OK, w2)"
    "push_wframe (end_value w2) obj = (OI_OK, w')"
    by (auto simp: begin_container_def wr_then_ok bytes_of_def split: if_splits)
  have s: "in_slot fmt cs ?b w2" using slot_append [OF conjunct1 [OF begin_slot [OF inv 1(1)]] 1(2)] by simp
  let ?c = "if obj then CObj [] None else CArr []"
  have "wr_buf w' = wr_buf (end_value w2)" "have_root w' = have_root (end_value w2)"
    "wr_failed w' = wr_failed (end_value w2)"
    "wr_frames w' = \<lparr>is_object = obj, wf_count = 0, awaiting_value = False\<rparr> # wr_frames (end_value w2)"
    using 1(3) by (auto simp: push_wframe_def Let_def split: if_splits)
  moreover have "wr_buf (end_value w2) = wr_buf w2" "wr_failed (end_value w2) = wr_failed w2"
    "have_root (end_value w2)" "list_all2 rest_ok (wr_frames (end_value w2)) cs"
    using s by (cases cs; auto simp: in_slot_def end_value_def rest_ok_def list_all2_Cons2)+
  ultimately show "wr_inv fmt None (?c # cs) w'"
    using s by (auto simp: wr_inv_def in_slot_def top_ok_def)
qed

lemma close_step:
  assumes inv: "wr_inv fmt root cs w" and r: "end_container w obj = (OI_OK, w')"
  shows "doc_inv fmt (doc_close cs) w'"
proof (cases cs)
  case Nil
  with assms show ?thesis
    by (auto simp: wr_inv_def end_container_def misuse_def split: option.splits)
next
  case (Cons c ds)
  with inv obtain f fs where w: "\<not> wr_failed w" "have_root w"
    "wr_buf w = ctx_prefix fmt ds @ ctx_open fmt c" "wr_frames w = f # fs" "top_ok f c"
    "list_all2 rest_ok fs ds" "\<forall>c \<in> set cs. ctx_writable fmt c"
    by (auto simp: wr_inv_def)
  let ?b = "if obj then [0x7D] else [0x5D] :: bytes"
  from r w(1,4) obtain w1 where 1: "append_bytes w ?b = (OI_OK, w1)" "is_object f = obj"
    "\<not> (is_object f \<and> awaiting_value f)" "w' = end_value (w1\<lparr>wr_frames := tl (wr_frames w1)\<rparr>)"
    by (auto simp: end_container_def wr_then_ok wr_done_def misuse_def bytes_of_def split: if_splits)
  from w(5) 1(2,3) have "ctx_open fmt c @ ?b = render fmt (ctx_value c)" "writable fmt (ctx_value c)"
    using w(7) Cons by (cases c; auto simp: top_ok_def)+
  with append_bytes_ok [OF 1(1)] w Cons
  have "in_slot fmt ds (render fmt (ctx_value c)) (w1\<lparr>wr_frames := tl (wr_frames w1)\<rparr>)"
    by (simp add: in_slot_def)
  from slot_end [OF this \<open>writable fmt (ctx_value c)\<close>] 1(4) Cons show ?thesis by (simp add: doc_close_def)
qed

lemma key_step:
  assumes inv: "wr_inv fmt root cs w" and r: "oi_json_write_object_key w key = (OI_OK, w')"
  shows "wr_inv fmt None (doc_key key cs) w'"
proof (cases cs)
  case Nil
  with assms show ?thesis
    by (auto simp: wr_inv_def oi_json_write_object_key_def misuse_def split: option.splits)
next
  case (Cons c ds)
  with inv obtain f fs where w: "\<not> wr_failed w" "have_root w"
    "wr_buf w = ctx_prefix fmt ds @ ctx_open fmt c" "wr_frames w = f # fs" "top_ok f c"
    "list_all2 rest_ok fs ds" "\<forall>c \<in> set cs. ctx_writable fmt c"
    by (auto simp: wr_inv_def)
  let ?sep = "if wf_count f > 0 then [0x2C] else [] :: bytes"
  from r w(1,4) obtain w1 w2 w3 where 1:
    "(if wf_count f > 0 then append_bytes w [0x2C] else (OI_OK, w)) = (OI_OK, w1)"
    "append_escaped_string w1 key = (OI_OK, w2)" "append_bytes w2 [0x3A] = (OI_OK, w3)"
    "is_object f" "\<not> awaiting_value f"
    "w' = w3\<lparr>wr_frames := (hd (wr_frames w3))\<lparr>awaiting_value := True\<rparr> # tl (wr_frames w3)\<rparr>"
    by (auto simp: oi_json_write_object_key_def wr_then_ok misuse_def bytes_of_def split: if_splits)
  obtain ms where c: "c = CObj ms None" using w(5) 1(4,5) by (cases c) (auto simp: top_ok_def)
  have "wr_buf w1 = wr_buf w @ ?sep" "wr_frames w1 = wr_frames w" "have_root w1 = have_root w"
    "wr_failed w1 = wr_failed w"
    using 1(1) append_bytes_ok [of w "[0x2C]" w1] by (auto split: if_splits)
  with escaped_string_ok [OF 1(2)] append_bytes_ok [OF 1(3)] w c 1(6) Cons
  show ?thesis by (auto simp: wr_inv_def top_ok_def)
qed

lemma call_step:
  assumes inv: "wr_inv fmt root cs w" and r: "write_call fmt w c = (OI_OK, w')"
  shows "doc_inv fmt (doc_step c (root, cs)) w'"
proof (cases c)
  case n: W_null
  from n r obtain w1 w2 where "begin_value w = (OI_OK, w1)" "append_str w1 ''null'' = (OI_OK, w2)"
    "w' = end_value w2" by (auto simp: oi_json_write_null_def wr_then_ok wr_done_def)
  with scalar_step [OF inv, of w1 w2 JSON_NULL] append_bytes_ok [of w1 "bytes_of ''null''" w2]
  show ?thesis unfolding n by (simp add: append_str_def)
next
  case b: (W_bool b)
  let ?t = "if b then ''true'' else ''false''"
  from b r obtain w1 w2 where "begin_value w = (OI_OK, w1)" "append_str w1 ?t = (OI_OK, w2)"
    "w' = end_value w2" by (auto simp: oi_json_write_bool_def wr_then_ok wr_done_def)
  with scalar_step [OF inv, of w1 w2 "JSON_BOOL b"] append_bytes_ok [of w1 "bytes_of ?t" w2]
  show ?thesis unfolding b by (simp add: append_str_def)
next
  case d: (W_number d)
  from d r obtain w1 w2 where "begin_value w = (OI_OK, w1)" "append_bytes w1 (fmt d) = (OI_OK, w2)"
    "w' = end_value w2" "isfinite d" "length (fmt d) < 64"
    by (auto simp: oi_json_write_number_def wr_then_ok wr_done_def split: if_splits)
  with scalar_step [OF inv, of w1 w2 "JSON_NUMBER d"] append_bytes_ok [of w1 "fmt d" w2]
  show ?thesis unfolding d by simp
next
  case s: (W_string s)
  from s r obtain w1 w2 where "begin_value w = (OI_OK, w1)" "append_escaped_string w1 s = (OI_OK, w2)"
    "w' = end_value w2" by (auto simp: oi_json_write_string_def wr_then_ok wr_done_def)
  with scalar_step [OF inv, of w1 w2 "JSON_STRING s"] escaped_string_ok [of w1 s w2]
  show ?thesis unfolding s by simp
next
  case (W_key k)
  with r key_step [OF inv] show ?thesis by simp
qed (use r open_step [OF inv, of False] open_step [OF inv, of True] close_step [OF inv] in
       \<open>simp_all add: oi_json_write_array_begin_def oi_json_write_array_end_def oi_json_write_object_begin_def
         oi_json_write_object_end_def\<close>)

lemma calls_step:
  "doc_inv fmt d w \<Longrightarrow> write_calls fmt w ops = (OI_OK, w') \<Longrightarrow> doc_inv fmt (fold doc_step ops d) w'"
proof (induction ops arbitrary: d w)
  case (Cons c ops)
  then obtain w1 where 1: "write_call fmt w c = (OI_OK, w1)" "write_calls fmt w1 ops = (OI_OK, w')"
    by (auto simp: wr_then_ok)
  with call_step [OF Cons.prems(1) 1(1)] Cons.IH show ?case by simp
qed simp

lemma create_wr_inv: "oi_json_writer_create h = Some w \<Longrightarrow> wr_inv fmt None [] w"
  by (auto simp: oi_json_writer_create_def wr_inv_def split: if_splits)

section \<open>Writing a value\<close>

text \<open>The calls that write a value.\<close>

fun ops_of :: "oi_json_value \<Rightarrow> w_op list" where
  "ops_of JSON_NULL = [W_null]"
| "ops_of (JSON_BOOL b) = [W_bool b]"
| "ops_of (JSON_NUMBER d) = [W_number d]"
| "ops_of (JSON_STRING s) = [W_string s]"
| "ops_of (JSON_ARRAY vs c) = W_array_begin # concat (map ops_of vs) @ [W_array_end]"
| "ops_of (JSON_OBJECT ms) =
     W_object_begin # concat (map (\<lambda>(k, v). W_key k # ops_of v) ms) @ [W_object_end]"

text \<open>Texts up to this length never meet an overflow check.\<close>

definition text_limit :: nat where "text_limit = size_max div 512"

definition wr_room :: "oi_json_writer \<Rightarrow> bool" where
  "wr_room w \<longleftrightarrow> wr_heap w = heap_ok \<and> 0 < wr_cap w \<and> length (wr_frames w) \<le> length (wr_buf w)
     \<and> wr_frame_cap w \<le> 8 + 2 * length (wr_buf w) \<and> \<not> wr_failed w"

lemma append_room:
  assumes "wr_room w" "length (wr_buf w) + length bs \<le> text_limit"
  shows "\<exists>w'. append_bytes w bs = (OI_OK, w') \<and> wr_room w' \<and> wr_buf w' = wr_buf w @ bs
    \<and> wr_frames w' = wr_frames w \<and> have_root w' = have_root w"
proof -
  have n: "\<not> length bs > size_max - length (wr_buf w) - 1"
    "length (wr_buf w) + length bs + 1 \<le> size_max div 2"
    using assms(2) by (simp_all add: text_limit_def size_max_def)
  obtain c where g: "grow_cap (wr_cap w) (length (wr_buf w) + length bs + 1) = Some c"
    using grow_cap_enough [OF _ n(2), of "wr_cap w"] assms(1) by (auto simp: wr_room_def)
  have "0 < c" using grow_cap_pos [OF g] assms(1) by (simp add: wr_room_def)
  then show ?thesis using n(1) g assms(1)
    by (cases "length (wr_buf w) + length bs + 1 \<le> wr_cap w")
       (auto simp: append_bytes_def ensure_buf_def wr_room_def)
qed

lemma append_escaped_room:
  "wr_room w \<Longrightarrow> length (wr_buf w) + length (concat (map escape_byte s)) \<le> text_limit \<Longrightarrow>
   \<exists>w'. append_escaped w s = (OI_OK, w') \<and> wr_room w'"
proof (induction s arbitrary: w)
  case (Cons c s)
  have "length (wr_buf w) + length (escape_byte c) \<le> text_limit" using Cons.prems(2) by simp
  from append_room [OF Cons.prems(1) this] obtain w1
    where 1: "append_bytes w (escape_byte c) = (OI_OK, w1)" "wr_room w1"
      "wr_buf w1 = wr_buf w @ escape_byte c" by blast
  from Cons.IH [OF 1(2)] Cons.prems(2) 1 show ?case by (auto simp: wr_then_def)
qed simp

lemma escape_byte_pos: "1 \<le> length (escape_byte c)"
  by (simp add: escape_byte_def u_escape_def)

lemma escape_length: "length s \<le> length (concat (map escape_byte s))"
proof (induction s)
  case (Cons c s)
  with escape_byte_pos [of c] show ?case by simp
qed simp

lemma quote_length: "length s + 2 \<le> length (quote s)"
  using escape_length [of s] by (simp add: quote_def)

lemma escaped_string_room:
  assumes "wr_room w" "length (wr_buf w) + length (quote s) \<le> text_limit"
  shows "\<exists>w'. append_escaped_string w s = (OI_OK, w') \<and> wr_room w' \<and> wr_buf w' = wr_buf w @ quote s
    \<and> wr_frames w' = wr_frames w \<and> have_root w' = have_root w"
proof -
  have "length (wr_buf w) + length [0x22 :: byte] \<le> text_limit" using assms(2) by (simp add: quote_def)
  from append_room [OF assms(1) this] obtain w1
    where 1: "append_bytes w [0x22] = (OI_OK, w1)" "wr_room w1" "wr_buf w1 = wr_buf w @ [0x22]" by blast
  have "length (wr_buf w1) + length (concat (map escape_byte s)) \<le> text_limit"
    using assms(2) 1(3) by (simp add: quote_def)
  from append_escaped_room [OF 1(2) this] obtain w2
    where 2: "append_escaped w1 s = (OI_OK, w2)" "wr_room w2" by blast
  have "length (wr_buf w2) + length [0x22 :: byte] \<le> text_limit"
    using assms(2) 1(3) append_escaped_ok [OF 2(1)] by (simp add: quote_def)
  from append_room [OF 2(2) this] obtain w3
    where 3: "append_bytes w2 [0x22] = (OI_OK, w3)" "wr_room w3" by blast
  have "length s \<le> (size_max - 2) div 6"
    using quote_length [of s] assms(2) by (simp add: text_limit_def size_max_def)
  then have r: "append_escaped_string w s = (OI_OK, w3)"
    using 1 2 3 by (simp add: append_escaped_string_def wr_then_def)
  from escaped_string_ok [OF r] r 3(2) show ?thesis by blast
qed

text \<open>A writer that can take a value, what the comma rule puts before it, and the frames after it.\<close>

definition wr_ready :: "oi_json_writer \<Rightarrow> bool" where
  "wr_ready w \<longleftrightarrow> (case wr_frames w of [] \<Rightarrow> \<not> have_root w | f # _ \<Rightarrow> is_object f \<longrightarrow> awaiting_value f)"

definition wr_sep :: "oi_json_writer \<Rightarrow> bytes" where
  "wr_sep w = (case wr_frames w of [] \<Rightarrow> []
     | f # _ \<Rightarrow> if \<not> is_object f \<and> wf_count f > 0 then [0x2C] else [])"

definition wr_bumped :: "wframe list \<Rightarrow> oi_json_writer \<Rightarrow> bool" where
  "wr_bumped fs w \<longleftrightarrow> (case fs of [] \<Rightarrow> wr_frames w = [] \<and> have_root w
     | f # rest \<Rightarrow> \<exists>n > 0. wr_frames w = f\<lparr>wf_count := wf_count f + n, awaiting_value := False\<rparr> # rest)"

lemma begin_room:
  assumes "wr_room w" "wr_ready w" "length (wr_buf w) + length (wr_sep w) \<le> text_limit"
  shows "\<exists>w'. begin_value w = (OI_OK, w') \<and> wr_room w' \<and> wr_buf w' = wr_buf w @ wr_sep w
    \<and> wr_frames w' = wr_frames w"
proof (cases "wr_sep w = []")
  case True
  with assms show ?thesis
    by (auto simp: begin_value_def wr_room_def wr_ready_def wr_sep_def split: list.splits if_splits)
next
  case False
  then obtain f fs where f: "wr_frames w = f # fs" "\<not> is_object f" "wf_count f > 0" "wr_sep w = [0x2C]"
    by (auto simp: wr_sep_def split: list.splits if_splits)
  with append_room [OF assms(1), of "[0x2C]"] assms(1,3) show ?thesis
    by (auto simp: begin_value_def wr_room_def bytes_of_def)
qed

lemma end_room: "wr_room w \<Longrightarrow> wr_room (end_value w) \<and> wr_buf (end_value w) = wr_buf w
    \<and> wr_bumped (wr_frames w) (end_value w)"
  by (auto simp: wr_room_def end_value_def wr_bumped_def split: list.splits)

definition writes :: "fmt \<Rightarrow> oi_json_writer \<Rightarrow> w_op list \<Rightarrow> bytes \<Rightarrow> bool" where
  "writes fmt w ops t \<longleftrightarrow> (\<exists>w'. write_calls fmt w ops = (OI_OK, w') \<and> wr_room w'
     \<and> wr_buf w' = wr_buf w @ wr_sep w @ t \<and> wr_bumped (wr_frames w) w')"

lemma scalar_writes:
  assumes r: "wr_room w" "wr_ready w" "length (wr_buf w) + length (wr_sep w) + length t \<le> text_limit"
    and c: "\<And>w1 w2. begin_value w = (OI_OK, w1) \<Longrightarrow> a w1 = (OI_OK, w2) \<Longrightarrow>
      write_call fmt w c = (OI_OK, end_value w2)"
    and a: "\<And>w1. wr_room w1 \<Longrightarrow> length (wr_buf w1) + length t \<le> text_limit \<Longrightarrow>
      \<exists>w2. a w1 = (OI_OK, w2) \<and> wr_room w2 \<and> wr_buf w2 = wr_buf w1 @ t \<and> wr_frames w2 = wr_frames w1"
  shows "writes fmt w [c] t"
proof -
  from begin_room [OF r(1,2)] r(3) obtain w1 where 1: "begin_value w = (OI_OK, w1)" "wr_room w1"
    "wr_buf w1 = wr_buf w @ wr_sep w" "wr_frames w1 = wr_frames w" by auto
  from a [OF 1(2)] 1(3) r(3) obtain w2 where 2: "a w1 = (OI_OK, w2)" "wr_room w2"
    "wr_buf w2 = wr_buf w1 @ t" "wr_frames w2 = wr_frames w1" by auto
  from c [OF 1(1) 2(1)] end_room [OF 2(2)] 1 2 show ?thesis
    by (simp add: writes_def wr_then_def)
qed

lemma scalar_writes':
  assumes "wr_room w" "wr_ready w" "length (wr_buf w) + length (wr_sep w) + length t \<le> text_limit"
    and c: "\<And>w1 w2. begin_value w = (OI_OK, w1) \<Longrightarrow> append_bytes w1 t = (OI_OK, w2) \<Longrightarrow>
      write_call fmt w c = (OI_OK, end_value w2)"
  shows "writes fmt w [c] t"
  by (rule scalar_writes [OF assms(1-3), where a = "\<lambda>w. append_bytes w t"])
     (use c append_room in blast)+

lemma write_calls_append:
  "write_calls fmt w (xs @ ys) = wr_then (write_calls fmt w xs) (\<lambda>w. write_calls fmt w ys)"
  by (induction xs arbitrary: w) (auto simp: wr_then_def split: prod.splits)

lemma comma_join_Cons: "comma_join (x # xs) = x @ (if xs = [] then [] else 0x2C # comma_join xs)"
  by (cases xs) auto

text \<open>\<open>n\<close> more elements in the innermost frame.\<close>

definition more :: "nat \<Rightarrow> wframe \<Rightarrow> wframe" where
  "more n f = f\<lparr>wf_count := wf_count f + n, awaiting_value := False\<rparr>"

lemma more_sel [simp]: "is_object (more n f) = is_object f" "wf_count (more n f) = wf_count f + n"
  "awaiting_value (more n f) = False" "more m (more n f) = more (n + m) f"
  by (simp_all add: more_def)

lemma bumped_Cons: "wr_bumped (f # fs) w \<longleftrightarrow> (\<exists>n > 0. wr_frames w = more n f # fs)"
  by (simp add: wr_bumped_def more_def)

lemma array_loop:
  assumes IH: "\<And>v w. v \<in> set vs \<Longrightarrow> wr_room w \<Longrightarrow> wr_ready w \<Longrightarrow>
      length (wr_buf w) + length (wr_sep w) + length (render fmt v) \<le> text_limit \<Longrightarrow>
      writes fmt w (ops_of v) (render fmt v)"
  shows "wr_room w \<Longrightarrow> wr_frames w = f # fs \<Longrightarrow> \<not> is_object f \<Longrightarrow>
    length (wr_buf w) + 1 + length (comma_join (map (render fmt) vs)) \<le> text_limit \<Longrightarrow>
    \<exists>w' n. write_calls fmt w (concat (map ops_of vs)) = (OI_OK, w') \<and> wr_room w'
      \<and> wr_buf w' = wr_buf w @ (if vs = [] then [] else wr_sep w @ comma_join (map (render fmt) vs))
      \<and> wr_frames w' = (if vs = [] then f else more n f) # fs"
  using IH
proof (induction vs arbitrary: w f)
  case (Cons v vs)
  have sep: "length (wr_sep w) \<le> 1" by (simp add: wr_sep_def split: list.splits)
  have "writes fmt w (ops_of v) (render fmt v)"
    by (rule Cons.prems(5)) (use Cons.prems sep in \<open>auto simp: wr_ready_def comma_join_Cons\<close>)
  then obtain w1 n where 1: "write_calls fmt w (ops_of v) = (OI_OK, w1)" "wr_room w1"
    "wr_buf w1 = wr_buf w @ wr_sep w @ render fmt v" "0 < n" "wr_frames w1 = more n f # fs"
    using Cons.prems(2) by (auto simp: writes_def bumped_Cons)
  have s1: "wr_sep w1 = [0x2C]" using 1 Cons.prems(3) by (simp add: wr_sep_def)
  show ?case
  proof (cases "vs = []")
    case True
    with 1 show ?thesis by (auto simp: wr_then_def)
  next
    case False
    have "\<exists>w' m. write_calls fmt w1 (concat (map ops_of vs)) = (OI_OK, w') \<and> wr_room w'
      \<and> wr_buf w' = wr_buf w1 @ (if vs = [] then [] else wr_sep w1 @ comma_join (map (render fmt) vs))
      \<and> wr_frames w' = (if vs = [] then more n f else more m (more n f)) # fs"
      by (rule Cons.IH) (use 1 sep False Cons.prems in \<open>auto simp: comma_join_Cons\<close>)
    with 1 s1 False show ?thesis
      by (auto simp: write_calls_append wr_then_def comma_join_Cons)
  qed
qed auto

lemma key_room:
  assumes "wr_room w" "wr_frames w = f # fs" "is_object f" "\<not> awaiting_value f"
    "length (wr_buf w) + length (quote k) + 2 \<le> text_limit"
  shows "\<exists>w'. write_call fmt w (W_key k) = (OI_OK, w') \<and> wr_room w'
    \<and> wr_buf w' = wr_buf w @ (if wf_count f > 0 then [0x2C] else []) @ quote k @ [0x3A]
    \<and> wr_frames w' = f\<lparr>awaiting_value := True\<rparr> # fs"
proof -
  let ?sep = "if wf_count f > 0 then [0x2C] else [] :: bytes"
  have "\<exists>w1. (if wf_count f > 0 then append_bytes w [0x2C] else (OI_OK, w)) = (OI_OK, w1) \<and> wr_room w1
      \<and> wr_buf w1 = wr_buf w @ ?sep \<and> wr_frames w1 = wr_frames w"
    using append_room [OF assms(1), of "[0x2C]"] assms(1,5) by auto
  then obtain w1 where 1: "(if wf_count f > 0 then append_bytes w [0x2C] else (OI_OK, w)) = (OI_OK, w1)"
    "wr_room w1" "wr_buf w1 = wr_buf w @ ?sep" "wr_frames w1 = wr_frames w" by blast
  have "length (wr_buf w1) + length (quote k) \<le> text_limit" using 1(3) assms(5) by simp
  from escaped_string_room [OF 1(2) this] obtain w2 where 2: "append_escaped_string w1 k = (OI_OK, w2)"
    "wr_room w2" "wr_buf w2 = wr_buf w1 @ quote k" "wr_frames w2 = wr_frames w1" by blast
  have "length (wr_buf w2) + length [0x3A :: byte] \<le> text_limit" using 1(3) 2(3) assms(5) by simp
  from append_room [OF 2(2) this] obtain w3 where 3: "append_bytes w2 [0x3A] = (OI_OK, w3)"
    "wr_room w3" "wr_buf w3 = wr_buf w2 @ [0x3A]" "wr_frames w3 = wr_frames w2" by blast
  have "\<not> wr_failed w" using assms(1) by (simp add: wr_room_def)
  with 1 2 3 assms(2-4) show ?thesis
    by (auto simp: oi_json_write_object_key_def wr_then_def bytes_of_def wr_room_def)
qed

lemma object_loop:
  assumes IH: "\<And>k v w. (k, v) \<in> set ms \<Longrightarrow> wr_room w \<Longrightarrow> wr_ready w \<Longrightarrow>
      length (wr_buf w) + length (wr_sep w) + length (render fmt v) \<le> text_limit \<Longrightarrow>
      writes fmt w (ops_of v) (render fmt v)"
  shows "wr_room w \<Longrightarrow> wr_frames w = f # fs \<Longrightarrow> is_object f \<Longrightarrow> \<not> awaiting_value f \<Longrightarrow>
    length (wr_buf w) + 1 + length (comma_join (map (member_text fmt) ms)) \<le> text_limit \<Longrightarrow>
    \<exists>w' n. write_calls fmt w (concat (map (\<lambda>(k, v). W_key k # ops_of v) ms)) = (OI_OK, w') \<and> wr_room w'
      \<and> wr_buf w' = wr_buf w @ (if ms = [] then []
          else (if wf_count f > 0 then [0x2C] else []) @ comma_join (map (member_text fmt) ms))
      \<and> wr_frames w' = (if ms = [] then f else more n f) # fs"
  using IH
proof (induction ms arbitrary: w f)
  case (Cons m ms)
  obtain k v where m: "m = (k, v)" by fastforce
  have sz: "length (wr_buf w) + 1 + (length (quote k) + 1 + length (render fmt v)
      + (if ms = [] then 0 else 1 + length (comma_join (map (member_text fmt) ms)))) \<le> text_limit"
    using Cons.prems(5) unfolding m by (auto simp: comma_join_Cons)
  have "length (wr_buf w) + length (quote k) + 2 \<le> text_limit" using sz by linarith
  from key_room [OF Cons.prems(1-4) this] obtain w1 where 1: "write_call fmt w (W_key k) = (OI_OK, w1)"
    "wr_room w1" "wr_buf w1 = wr_buf w @ (if wf_count f > 0 then [0x2C] else []) @ quote k @ [0x3A]"
    "wr_frames w1 = f\<lparr>awaiting_value := True\<rparr> # fs" by blast
  have s1: "wr_sep w1 = []" using 1(4) Cons.prems(3) by (simp add: wr_sep_def)
  have "writes fmt w1 (ops_of v) (render fmt v)"
  proof (rule Cons.prems(6))
    show "(k, v) \<in> set (m # ms)" by (simp add: m)
    show "wr_ready w1" using 1(4) by (simp add: wr_ready_def)
    show "length (wr_buf w1) + length (wr_sep w1) + length (render fmt v) \<le> text_limit"
      using sz 1(3) s1 by (simp split: if_splits)
  qed (rule 1(2))
  then obtain w2 n where 2: "write_calls fmt w1 (ops_of v) = (OI_OK, w2)" "wr_room w2"
    "wr_buf w2 = wr_buf w1 @ render fmt v" "0 < n" "wr_frames w2 = more n f # fs"
    using 1(4) s1 by (auto simp: writes_def bumped_Cons more_def)
  show ?case
  proof (cases "ms = []")
    case True
    with 1 2 show ?thesis unfolding m by (auto simp: wr_then_def)
  next
    case False
    have "\<exists>w' j. write_calls fmt w2 (concat (map (\<lambda>(k, v). W_key k # ops_of v) ms)) = (OI_OK, w') \<and> wr_room w'
      \<and> wr_buf w' = wr_buf w2 @ (if ms = [] then []
          else (if wf_count (more n f) > 0 then [0x2C] else []) @ comma_join (map (member_text fmt) ms))
      \<and> wr_frames w' = (if ms = [] then more n f else more j (more n f)) # fs"
    proof (rule Cons.IH)
      show "length (wr_buf w2) + 1 + length (comma_join (map (member_text fmt) ms)) \<le> text_limit"
        using sz 1(3) 2(3) False by (simp split: if_splits)
      show "\<And>k v w. (k, v) \<in> set ms \<Longrightarrow> wr_room w \<Longrightarrow> wr_ready w \<Longrightarrow>
        length (wr_buf w) + length (wr_sep w) + length (render fmt v) \<le> text_limit \<Longrightarrow>
        writes fmt w (ops_of v) (render fmt v)" using Cons.prems(6) by (meson list.set_intros(2))
    qed (use 2 Cons.prems(3) in auto)
    then obtain w3 j where 3: "write_calls fmt w2 (concat (map (\<lambda>(k, v). W_key k # ops_of v) ms)) = (OI_OK, w3)"
      "wr_room w3" "wr_buf w3 = wr_buf w2 @ 0x2C # comma_join (map (member_text fmt) ms)"
      "wr_frames w3 = more (n + j) f # fs" using False 2(4) by auto
    have "write_calls fmt w (concat (map (\<lambda>(k, v). W_key k # ops_of v) (m # ms))) = (OI_OK, w3)"
      using 1(1) 2(1) 3(1) unfolding m by (simp add: write_calls_append wr_then_def del: write_call.simps)
    moreover have "wr_buf w3 = wr_buf w @ (if wf_count f > 0 then [0x2C] else [])
        @ comma_join (map (member_text fmt) (m # ms))"
      using 1(3) 2(3) 3(3) False unfolding m by (simp add: comma_join_Cons)
    ultimately show ?thesis using 3(2,4) by auto
  qed
qed auto

lemma begin_container_room:
  assumes r: "wr_room w" "wr_ready w" "length (wr_buf w) + length (wr_sep w) + 1 \<le> text_limit"
  shows "\<exists>w'. begin_container w obj = (OI_OK, w') \<and> wr_room w'
    \<and> wr_buf w' = wr_buf w @ wr_sep w @ (if obj then [0x7B] else [0x5B])
    \<and> (\<exists>fs'. wr_frames w' = \<lparr>is_object = obj, wf_count = 0, awaiting_value = False\<rparr> # fs'
         \<and> wr_bumped (wr_frames w) (w'\<lparr>wr_frames := fs'\<rparr>))"
proof -
  let ?b = "if obj then [0x7B] else [0x5B] :: bytes"
  let ?new = "\<lparr>is_object = obj, wf_count = 0, awaiting_value = False\<rparr>"
  from begin_room [OF r(1,2)] r(3) obtain w1 where 1: "begin_value w = (OI_OK, w1)" "wr_room w1"
    "wr_buf w1 = wr_buf w @ wr_sep w" "wr_frames w1 = wr_frames w" by auto
  have "length (wr_buf w1) + length ?b \<le> text_limit" using 1(3) r(3) by simp
  from append_room [OF 1(2) this] obtain w2 where 2: "append_bytes w1 ?b = (OI_OK, w2)" "wr_room w2"
    "wr_buf w2 = wr_buf w1 @ ?b" "wr_frames w2 = wr_frames w1" by blast
  define w3 where "w3 = end_value w2"
  from end_room [OF 2(2)] have 3: "wr_room w3" "wr_buf w3 = wr_buf w2" "wr_bumped (wr_frames w) w3"
    using 1(4) 2(4) by (simp_all add: w3_def)
  have len: "length (wr_frames w3) < length (wr_buf w3)"
  proof -
    have "length (wr_frames w3) = length (wr_frames w)"
      using 3(3) by (auto simp: wr_bumped_def split: list.splits)
    also have "\<dots> \<le> length (wr_buf w)" using r(1) by (simp add: wr_room_def)
    also have "\<dots> < length (wr_buf w3)" using 1(3) 2(3) 3(2) by simp
    finally show ?thesis .
  qed
  have "length (wr_buf w3) = length (wr_buf w) + length (wr_sep w) + 1"
    using 1(3) 2(3) 3(2) by (cases obj) simp_all
  then have cap: "\<not> wr_frame_cap w3 > size_max div 2 div sizeof_wframe"
    using 3(1) r(3) by (simp add: wr_room_def text_limit_def size_max_def sizeof_wframe_def)
  have b: "wr_bumped (wr_frames w) (w'\<lparr>wr_frames := wr_frames w3\<rparr>)" if "have_root w' = have_root w3" for w'
    using 3(3) that by (auto simp: wr_bumped_def split: list.splits)
  let ?w' = "snd (push_wframe w3 obj)"
  have p: "push_wframe w3 obj = (OI_OK, ?w')" "wr_room ?w'" "wr_buf ?w' = wr_buf w3"
    "wr_frames ?w' = ?new # wr_frames w3" "have_root ?w' = have_root w3"
    using 3(1) len cap by (auto simp: push_wframe_def Let_def wr_room_def)
  have "begin_container w obj = (OI_OK, ?w')"
    using 1(1) 2(1) p(1) by (cases obj) (simp_all add: begin_container_def wr_then_def w3_def bytes_of_def)
  with p b [OF p(5)] 1(3) 2(3) 3(2) show ?thesis by (intro exI [of _ ?w']) auto
qed

lemma end_container_room:
  assumes "wr_room w" "wr_frames w = f # fs" "is_object f = obj" "\<not> awaiting_value f"
    "length (wr_buf w) + 1 \<le> text_limit"
  shows "\<exists>w'. end_container w obj = (OI_OK, w') \<and> wr_room w'
    \<and> wr_buf w' = wr_buf w @ (if obj then [0x7D] else [0x5D]) \<and> wr_bumped fs w'"
proof -
  let ?b = "if obj then [0x7D] else [0x5D] :: bytes"
  have "length (wr_buf w) + length ?b \<le> text_limit" using assms(5) by simp
  from append_room [OF assms(1) this] obtain w1 where 1: "append_bytes w ?b = (OI_OK, w1)" "wr_room w1"
    "wr_buf w1 = wr_buf w @ ?b" "wr_frames w1 = wr_frames w" by blast
  let ?w2 = "w1\<lparr>wr_frames := tl (wr_frames w1)\<rparr>"
  have "wr_room ?w2" using 1(2) by (auto simp: wr_room_def)
  from end_room [OF this] have "wr_room (end_value ?w2)" "wr_buf (end_value ?w2) = wr_buf w @ ?b"
    "wr_bumped fs (end_value ?w2)"
    using 1(3,4) assms(2) by simp_all
  moreover have "end_container w obj = (OI_OK, end_value ?w2)"
    using 1(1) assms(1-4) by (auto simp: end_container_def wr_then_def wr_done_def wr_room_def bytes_of_def)
  ultimately show ?thesis by blast
qed

lemma bumped_frames: "wr_bumped fs w \<Longrightarrow> wr_bumped (wr_frames w) w' \<Longrightarrow> wr_bumped fs w'"
proof (cases fs)
  case (Cons f rest)
  assume "wr_bumped fs w" and b: "wr_bumped (wr_frames w) w'"
  with Cons obtain n where n: "0 < n" "wr_frames w = more n f # rest" by (auto simp: bumped_Cons)
  with b obtain m where "wr_frames w' = more (n + m) f # rest" by (auto simp: bumped_Cons)
  with n(1) Cons show ?thesis by (auto simp: bumped_Cons)
qed (simp add: wr_bumped_def)

text \<open>A container: open, the loop over its contents, close.\<close>

lemma container_writes:
  assumes r: "wr_room w" "wr_ready w" "length (wr_buf w) + length (wr_sep w) + length body + 2 \<le> text_limit"
    and loop: "\<And>w1 f fs. wr_room w1 \<Longrightarrow> wr_frames w1 = f # fs \<Longrightarrow> is_object f = obj \<Longrightarrow>
      wf_count f = 0 \<Longrightarrow> \<not> awaiting_value f \<Longrightarrow> length (wr_buf w1) + 1 + length body \<le> text_limit \<Longrightarrow>
      \<exists>w2 f2. write_calls fmt w1 ops = (OI_OK, w2) \<and> wr_room w2 \<and> wr_buf w2 = wr_buf w1 @ body
        \<and> wr_frames w2 = f2 # fs \<and> is_object f2 = obj \<and> \<not> awaiting_value f2"
    and open': "\<And>w. write_call fmt w bc = begin_container w obj"
    and close: "\<And>w. write_call fmt w ec = end_container w obj"
  shows "writes fmt w (bc # ops @ [ec]) ((if obj then [0x7B] else [0x5B]) @ body @ (if obj then [0x7D] else [0x5D]))"
proof -
  have sz: "length (wr_buf w) + length (wr_sep w) + 1 \<le> text_limit" using r(3) by simp
  from begin_container_room [OF r(1,2) sz, of obj] obtain w1 fs' where 1: "begin_container w obj = (OI_OK, w1)"
    "wr_room w1" "wr_buf w1 = wr_buf w @ wr_sep w @ (if obj then [0x7B] else [0x5B])"
    "wr_frames w1 = \<lparr>is_object = obj, wf_count = 0, awaiting_value = False\<rparr> # fs'"
    "wr_bumped (wr_frames w) (w1\<lparr>wr_frames := fs'\<rparr>)" by blast
  have "length (wr_buf w1) + 1 + length body \<le> text_limit" using 1(3) r(3) by simp
  from loop [OF 1(2,4) _ _ _ this] obtain w2 f2 where 2: "write_calls fmt w1 ops = (OI_OK, w2)" "wr_room w2"
    "wr_buf w2 = wr_buf w1 @ body" "wr_frames w2 = f2 # fs'" "is_object f2 = obj" "\<not> awaiting_value f2"
    by auto
  have "length (wr_buf w2) + 1 \<le> text_limit" using 1(3) 2(3) r(3) by simp
  from end_container_room [OF 2(2,4,5,6) this] obtain w3 where 3: "end_container w2 obj = (OI_OK, w3)"
    "wr_room w3" "wr_buf w3 = wr_buf w2 @ (if obj then [0x7D] else [0x5D])" "wr_bumped fs' w3" by blast
  have "wr_bumped (wr_frames w) w3" using bumped_frames [OF 1(5)] 3(4) by simp
  with 1 2 3 show ?thesis
    by (auto simp: writes_def wr_then_def open' close write_calls_append)
qed

lemma value_writes:
  "writable fmt v \<Longrightarrow> wr_room w \<Longrightarrow> wr_ready w \<Longrightarrow>
   length (wr_buf w) + length (wr_sep w) + length (render fmt v) \<le> text_limit \<Longrightarrow>
   writes fmt w (ops_of v) (render fmt v)"
proof (induction v arbitrary: w)
  case JSON_NULL
  show ?case unfolding ops_of.simps
    by (rule scalar_writes') (use JSON_NULL in \<open>simp_all add: oi_json_write_null_def append_str_def wr_then_def wr_done_def\<close>)
next
  case (JSON_BOOL b)
  show ?case unfolding ops_of.simps
    by (rule scalar_writes') (use JSON_BOOL in \<open>simp_all add: oi_json_write_bool_def append_str_def wr_then_def wr_done_def\<close>)
next
  case (JSON_NUMBER d)
  show ?case unfolding ops_of.simps
    by (rule scalar_writes') (use JSON_NUMBER in \<open>simp_all add: oi_json_write_number_def wr_then_def wr_done_def\<close>)
next
  case (JSON_STRING s)
  show ?case unfolding ops_of.simps
  proof (rule scalar_writes [where a = "\<lambda>w. append_escaped_string w s"])
    fix w1 assume "wr_room w1" "length (wr_buf w1) + length (render fmt (JSON_STRING s)) \<le> text_limit"
    then show "\<exists>w2. append_escaped_string w1 s = (OI_OK, w2) \<and> wr_room w2
      \<and> wr_buf w2 = wr_buf w1 @ render fmt (JSON_STRING s) \<and> wr_frames w2 = wr_frames w1"
      using escaped_string_room [of w1 s] by auto
  qed (use JSON_STRING in \<open>simp_all add: oi_json_write_string_def wr_then_def wr_done_def\<close>)
next
  case (JSON_ARRAY vs c)
  have IH: "writes fmt w' (ops_of v) (render fmt v)"
    if "v \<in> set vs" "wr_room w'" "wr_ready w'"
      "length (wr_buf w') + length (wr_sep w') + length (render fmt v) \<le> text_limit" for v w'
    using JSON_ARRAY that by simp
  let ?body = "comma_join (map (render fmt) vs)"
  have "writes fmt w (W_array_begin # concat (map ops_of vs) @ [W_array_end])
      ((if False then [0x7B] else [0x5B]) @ ?body @ (if False then [0x7D] else [0x5D]))"
  proof (rule container_writes)
    fix w1 f fs assume w1: "wr_room w1" "wr_frames w1 = f # fs" "is_object f = False" "wf_count f = 0"
      "\<not> awaiting_value f" "length (wr_buf w1) + 1 + length ?body \<le> text_limit"
    then have "wr_sep w1 = []" by (simp add: wr_sep_def)
    with array_loop [OF IH w1(1,2) _ w1(6)] w1
    show "\<exists>w2 f2. write_calls fmt w1 (concat (map ops_of vs)) = (OI_OK, w2) \<and> wr_room w2
        \<and> wr_buf w2 = wr_buf w1 @ ?body \<and> wr_frames w2 = f2 # fs \<and> is_object f2 = False \<and> \<not> awaiting_value f2"
      by (cases "vs = []") auto
  qed (use JSON_ARRAY.prems in \<open>simp_all add: oi_json_write_array_begin_def oi_json_write_array_end_def\<close>)
  then show ?case by simp
next
  case (JSON_OBJECT ms)
  have IH: "writes fmt w' (ops_of v) (render fmt v)"
    if "(k, v) \<in> set ms" "wr_room w'" "wr_ready w'"
      "length (wr_buf w') + length (wr_sep w') + length (render fmt v) \<le> text_limit" for k v w'
    using JSON_OBJECT.IH [of "(k, v)" v w'] JSON_OBJECT.prems(1) that by force
  let ?body = "comma_join (map (member_text fmt) ms)"
  have "writes fmt w (W_object_begin # concat (map (\<lambda>(k, v). W_key k # ops_of v) ms) @ [W_object_end])
      ((if True then [0x7B] else [0x5B]) @ ?body @ (if True then [0x7D] else [0x5D]))"
  proof (rule container_writes)
    fix w1 f fs assume w1: "wr_room w1" "wr_frames w1 = f # fs" "is_object f = True" "wf_count f = 0"
      "\<not> awaiting_value f" "length (wr_buf w1) + 1 + length ?body \<le> text_limit"
    have "\<exists>w' n. write_calls fmt w1 (concat (map (\<lambda>(k, v). W_key k # ops_of v) ms)) = (OI_OK, w') \<and> wr_room w'
      \<and> wr_buf w' = wr_buf w1 @ (if ms = [] then [] else (if wf_count f > 0 then [0x2C] else []) @ ?body)
      \<and> wr_frames w' = (if ms = [] then f else more n f) # fs"
      by (rule object_loop) (use w1 in \<open>auto intro: IH\<close>)
    with w1 show "\<exists>w2 f2. write_calls fmt w1 (concat (map (\<lambda>(k, v). W_key k # ops_of v) ms)) = (OI_OK, w2)
        \<and> wr_room w2 \<and> wr_buf w2 = wr_buf w1 @ ?body \<and> wr_frames w2 = f2 # fs \<and> is_object f2 = True
        \<and> \<not> awaiting_value f2"
      by (cases "ms = []") auto
  qed (use JSON_OBJECT.prems in \<open>simp_all add: oi_json_write_object_begin_def oi_json_write_object_end_def\<close>)
  then show ?case by simp
qed

section \<open>Properties\<close>

text \<open>
  C2. Well-formed output by construction. Whatever sequence of calls a client makes on a new writer
  and whatever the allocator answers, if every call is accepted and all containers are closed, the text
  is the JSON text of a value: commas, colons, quotes and brackets are in place.
\<close>

theorem json_writer_wellformed:
  assumes "oi_json_writer_create h = Some w0" and "write_calls fmt w0 ops = (OI_OK, w)"
    and "wr_frames w = []" and "have_root w"
  shows "\<exists>v. writable fmt v \<and> oi_json_writer_data w = render fmt v"
proof -
  obtain root cs where "wr_inv fmt root cs w"
    using calls_step [of fmt "(None, [])"] create_wr_inv [OF assms(1)] assms(2) by fastforce
  with assms(3,4) show ?thesis
    by (auto simp: wr_inv_def oi_json_writer_data_def split: list.splits option.splits)
qed

theorem json_writer_wellformed_witness:
  "\<exists>w0 w. oi_json_writer_create heap_ok = Some w0
    \<and> write_calls (\<lambda>_. []) w0 [W_array_begin, W_null, W_array_begin, W_array_end, W_array_end] = (OI_OK, w)
    \<and> (\<exists>v. writable (\<lambda>_. []) v \<and> oi_json_writer_data w = render (\<lambda>_. []) v)"
proof -
  obtain w0 where c: "oi_json_writer_create heap_ok = Some w0" by (simp add: oi_json_writer_create_def)
  let ?v = "JSON_ARRAY [JSON_NULL, JSON_ARRAY [] 0] 4"
  have "writes (\<lambda>_. []) w0 (ops_of ?v) (render (\<lambda>_. []) ?v)"
    by (rule value_writes) (use c in \<open>auto simp: oi_json_writer_create_def wr_room_def wr_ready_def
        wr_sep_def text_limit_def size_max_def bytes_of_def\<close>)
  then obtain w where "write_calls (\<lambda>_. []) w0 [W_array_begin, W_null, W_array_begin, W_array_end, W_array_end]
      = (OI_OK, w)" "wr_bumped (wr_frames w0) w"
    by (auto simp: writes_def simp del: write_calls.simps)
  moreover from this c have "wr_frames w = []" "have_root w"
    by (auto simp: oi_json_writer_create_def wr_bumped_def)
  ultimately show ?thesis using json_writer_wellformed [OF c] c by blast
qed

lemma written_value:
  assumes "oi_json_writer_create heap_ok = Some w0" and "writable fmt v"
    and "length (render fmt v) \<le> text_limit"
  shows "\<exists>w. write_calls fmt w0 (ops_of v) = (OI_OK, w) \<and> oi_json_writer_data w = render fmt v
    \<and> wr_frames w = [] \<and> have_root w"
proof -
  have w0: "wr_room w0" "wr_ready w0" "wr_sep w0 = []" "wr_buf w0 = []" "wr_frames w0 = []"
    using assms(1) by (auto simp: oi_json_writer_create_def wr_room_def wr_ready_def wr_sep_def)
  have "writes fmt w0 (ops_of v) (render fmt v)"
    by (rule value_writes [OF assms(2) w0(1,2)]) (use w0 assms(3) in simp)
  with w0 show ?thesis by (auto simp: writes_def wr_bumped_def oi_json_writer_data_def)
qed

text \<open>
  Every value can be written: when memory lasts, the calls for a value are all accepted, produce
  exactly its text, and leave the document complete.
\<close>

theorem json_writer_writes_value:
  assumes "oi_json_writer_create heap_ok = Some w0" and "writable fmt v"
    and "length (render fmt v) \<le> text_limit"
  shows "\<exists>w. write_calls fmt w0 (ops_of v) = (OI_OK, w) \<and> oi_json_writer_data w = render fmt v
    \<and> wr_frames w = [] \<and> have_root w"
  by (rule written_value [OF assms])

theorem json_writer_writes_value_witness:
  "\<exists>w0 w. oi_json_writer_create heap_ok = Some w0
    \<and> write_calls (\<lambda>_. []) w0 (ops_of (JSON_OBJECT [([0x61], JSON_BOOL True)])) = (OI_OK, w)
    \<and> oi_json_writer_data w = bytes_of ''{\"a\":true}''"
proof -
  obtain w0 where c: "oi_json_writer_create heap_ok = Some w0" by (simp add: oi_json_writer_create_def)
  have r: "render (\<lambda>_. []) (JSON_OBJECT [([0x61], JSON_BOOL True)]) = bytes_of ''{\"a\":true}''"
    by (simp add: quote_def escape_byte_def bytes_of_def)
  have "\<exists>w. write_calls (\<lambda>_. []) w0 (ops_of (JSON_OBJECT [([0x61], JSON_BOOL True)])) = (OI_OK, w)
    \<and> oi_json_writer_data w = render (\<lambda>_. []) (JSON_OBJECT [([0x61], JSON_BOOL True)])
    \<and> wr_frames w = [] \<and> have_root w"
    by (rule json_writer_writes_value [OF c])
       (simp_all only: r, simp_all add: text_limit_def size_max_def bytes_of_def)
  then show ?thesis using c unfolding r by blast
qed

lemma no_inval: "append_bytes w bs = (st, w') \<Longrightarrow> st \<noteq> OI_ERR_INVAL"
  using wrbuf.append_status [of w bs] by auto

lemma escaped_no_inval: "append_escaped w s = (st, w') \<Longrightarrow> st \<noteq> OI_ERR_INVAL"
  by (induction s arbitrary: w) (auto simp: wr_then_def dest: no_inval split: prod.splits if_splits)

lemma string_no_inval: "append_escaped_string w s = (st, w') \<Longrightarrow> st \<noteq> OI_ERR_INVAL"
  by (auto simp: append_escaped_string_def wr_then_def dest: no_inval escaped_no_inval
      split: prod.splits if_splits)

lemma begin_inval:
  "begin_value w = (OI_ERR_INVAL, w') \<Longrightarrow> wr_failed w' \<and> wr_buf w' = wr_buf w"
  by (auto simp: begin_value_def misuse_def dest: no_inval split: if_splits list.splits)

lemma push_no_inval: "push_wframe w obj = (st, w') \<Longrightarrow> st \<noteq> OI_ERR_INVAL"
  by (auto simp: push_wframe_def Let_def split: if_splits)

lemma then_inval:
  "wr_then r k = (OI_ERR_INVAL, w') \<Longrightarrow> (\<And>w st w'. k w = (st, w') \<Longrightarrow> st \<noteq> OI_ERR_INVAL) \<Longrightarrow>
     r = (OI_ERR_INVAL, w')"
  by (auto simp: wr_then_def split: prod.splits if_splits)

lemma then_no_inval:
  "wr_then r k = (st, w') \<Longrightarrow> fst r \<noteq> OI_ERR_INVAL \<Longrightarrow> (\<And>w st w'. k w = (st, w') \<Longrightarrow> st \<noteq> OI_ERR_INVAL) \<Longrightarrow>
     st \<noteq> OI_ERR_INVAL"
  by (auto simp: wr_then_def split: prod.splits if_splits)

lemma done_no_inval: "wr_done w = (st, w') \<Longrightarrow> st \<noteq> OI_ERR_INVAL"
  by (simp add: wr_done_def)

lemma container_inval:
  "begin_container w obj = (OI_ERR_INVAL, w') \<Longrightarrow> begin_value w = (OI_ERR_INVAL, w')"
  by (auto simp: begin_container_def wr_then_def dest: no_inval push_no_inval split: prod.splits if_splits)

text \<open>A failed writer answers \<open>OI_ERR_INVAL\<close> to everything and does not change.\<close>

lemma failed_call: "wr_failed w \<Longrightarrow> write_call fmt w op = (OI_ERR_INVAL, w)"
  by (cases op) (simp_all add: oi_json_write_null_def oi_json_write_bool_def oi_json_write_number_def
      oi_json_write_string_def oi_json_write_array_begin_def oi_json_write_array_end_def
      oi_json_write_object_begin_def oi_json_write_object_end_def oi_json_write_object_key_def
      begin_container_def end_container_def begin_value_def wr_then_def)

lemma call_inval:
  assumes "write_call fmt w op = (OI_ERR_INVAL, w')" "\<And>d. op \<noteq> W_number d"
  shows "wr_failed w' \<and> wr_buf w' = wr_buf w"
proof (cases op)
  case (W_key k)
  with assms(1) show ?thesis
    by (auto simp: oi_json_write_object_key_def misuse_def wr_then_def dest: no_inval string_no_inval
        split: if_splits list.splits prod.splits)
qed (use assms in \<open>auto simp: oi_json_write_null_def oi_json_write_bool_def
      oi_json_write_string_def oi_json_write_array_begin_def oi_json_write_array_end_def
      oi_json_write_object_begin_def oi_json_write_object_end_def end_container_def append_str_def
      misuse_def wr_then_def wr_done_def
      dest: no_inval string_no_inval begin_inval container_inval
      split: if_splits list.splits prod.splits\<close>)

text \<open>
  Structural misuse is sticky: a call other than \<open>oi_json_write_number\<close> that answers
  \<open>OI_ERR_INVAL\<close> wrote nothing, and from then on every call of every kind answers \<open>OI_ERR_INVAL\<close>
  and leaves the writer as it is.
\<close>

theorem json_writer_misuse_sticky:
  assumes "write_call fmt w op = (OI_ERR_INVAL, w')" and "\<And>d. op \<noteq> W_number d"
  shows "oi_json_writer_data w' = oi_json_writer_data w \<and> (\<forall>op'. write_call fmt w' op' = (OI_ERR_INVAL, w'))"
  using call_inval [OF assms] failed_call by (simp add: oi_json_writer_data_def)

theorem json_writer_misuse_sticky_witness:
  "\<exists>w0 w'. oi_json_writer_create heap_ok = Some w0
    \<and> write_call (\<lambda>_. []) w0 W_array_end = (OI_ERR_INVAL, w') \<and> oi_json_writer_data w' = []
    \<and> write_call (\<lambda>_. []) w' W_null = (OI_ERR_INVAL, w')"
proof -
  obtain w0 where c: "oi_json_writer_create heap_ok = Some w0" by (simp add: oi_json_writer_create_def)
  then obtain w' where f: "write_call (\<lambda>_. []) w0 W_array_end = (OI_ERR_INVAL, w')"
    by (auto simp: oi_json_writer_create_def oi_json_write_array_end_def end_container_def misuse_def)
  from json_writer_misuse_sticky [OF f] f c show ?thesis
    by (auto simp: oi_json_writer_create_def oi_json_writer_data_def simp del: write_call.simps)
qed

text \<open>
  The comments of the code on \<open>count\<close> (``members/elements already fully written'') and
  \<open>have_root\<close> (``top-level value fully written'') describe something else than the code does: after
  \<open>[[]\<close> the outer array has one element but its count is 2, and the root counts as written although
  the outer array is still open. Only \<open>count > 0\<close> is ever used.
\<close>

theorem json_writer_counts_containers_twice:
  "\<exists>w0 w f. oi_json_writer_create heap_ok = Some w0
    \<and> write_calls fmt w0 [W_array_begin, W_array_begin, W_array_end] = (OI_OK, w)
    \<and> oi_json_writer_data w = bytes_of ''[[]'' \<and> wr_frames w = [f] \<and> wf_count f = 2 \<and> have_root w"
  by (simp add: oi_json_writer_create_def oi_json_write_array_begin_def oi_json_write_array_end_def
      begin_container_def end_container_def begin_value_def append_bytes_def ensure_buf_def
      push_wframe_def end_value_def wr_then_def wr_done_def oi_json_writer_data_def bytes_of_def size_max_def)

lemma fold_ops: "writable fmt v \<Longrightarrow> fold doc_step (ops_of v) d = doc_put v (snd d)"
proof (induction v arbitrary: d)
  case (JSON_ARRAY vs c)
  have "fold doc_step (concat (map ops_of us)) (None, CArr es # cs) = (None, CArr (es @ us) # cs)"
    if "set us \<subseteq> set vs" for us es cs
    using that
  proof (induction us arbitrary: es)
    case (Cons u us)
    with JSON_ARRAY.IH [of u "(None, CArr es # cs)"] JSON_ARRAY.prems show ?case by (simp add: doc_put_def)
  qed simp
  from this [of vs "[]" "snd d"] JSON_ARRAY.prems show ?case by (simp add: doc_close_def)
next
  case (JSON_OBJECT ms)
  have "fold doc_step (concat (map (\<lambda>(k, v). W_key k # ops_of v) us)) (None, CObj es None # cs)
      = (None, CObj (es @ us) None # cs)" if "set us \<subseteq> set ms" for us es cs
    using that
  proof (induction us arbitrary: es)
    case (Cons u us)
    obtain k v where u: "u = (k, v)" by (cases u)
    have "fold doc_step (ops_of v) (None, CObj es (Some k) # cs) = (None, CObj (es @ [u]) None # cs)"
      using JSON_OBJECT.IH [of u v "(None, CObj es (Some k) # cs)"] JSON_OBJECT.prems Cons.prems
      by (force simp: u doc_put_def)
    with Cons u show ?case by simp
  qed simp
  from this [of ms "[]" "snd d"] show ?case by (simp add: doc_close_def)
qed simp_all

text \<open>Whatever the allocator answers: when the calls for a value succeed, they have written its text.\<close>

lemma written_text:
  assumes "oi_json_writer_create h = Some w0" "write_calls fmt w0 (ops_of v) = (OI_OK, w)" "writable fmt v"
  shows "oi_json_writer_data w = render fmt v"
  using calls_step [of fmt "(None, [])" w0 "ops_of v" w] create_wr_inv [OF assms(1)] assms(2,3)
  by (simp add: fold_ops doc_put_def wr_inv_def oi_json_writer_data_def)

end
