(* ===== verification/Json_Roundtrip.thy ===== *)
theory Json_Roundtrip
  imports Json_Safety Json_Number Json_Write
begin

text \<open>
  The writer of \<open>Json_Write\<close> and the parser of \<open>Json_Parse\<close> together: what the one writes the other
  reads back, and what \<open>\u\<close> escapes stand for.
\<close>

section \<open>One byte of a feed\<close>

abbreviation continue_feed ::
  "strtod \<Rightarrow> bytes \<Rightarrow> oi_status \<times> oi_json_parser \<Rightarrow> oi_status \<times> oi_json_parser" where
  "continue_feed strtod cs r \<equiv>
     (case r of (st, q) \<Rightarrow> if st = OI_OK then oi_json_parser_feed strtod q cs else (st, q))"

lemma feed_Nil [simp]: "oi_json_parser_feed strtod p [] = (OI_OK, p)"
  by (simp add: oi_json_parser_feed.simps)

lemma feed_value:
  "ps_state p = PS_VALUE \<Longrightarrow>
     oi_json_parser_feed strtod p (c # cs) = continue_feed strtod cs (process_between_tokens p c)"
  by (auto simp: oi_json_parser_feed.simps json_step_def split: prod.splits)

lemma feed_string:
  "ps_state p = PS_STRING \<Longrightarrow>
     oi_json_parser_feed strtod p (c # cs) = continue_feed strtod cs (handle_string_byte p c)"
  by (auto simp: oi_json_parser_feed.simps json_step_def split: prod.splits)

lemma feed_escape:
  "ps_state p = PS_STRING_ESCAPE \<Longrightarrow>
     oi_json_parser_feed strtod p (c # cs) = continue_feed strtod cs (handle_string_escape_byte p c)"
  by (auto simp: oi_json_parser_feed.simps json_step_def split: prod.splits)

lemma feed_unicode:
  "ps_state p = PS_STRING_UNICODE \<Longrightarrow>
     oi_json_parser_feed strtod p (c # cs) = continue_feed strtod cs (handle_string_unicode_byte p c)"
  by (auto simp: oi_json_parser_feed.simps json_step_def split: prod.splits)

lemma feed_literal:
  "ps_state p = PS_LITERAL \<Longrightarrow>
     oi_json_parser_feed strtod p (c # cs) = continue_feed strtod cs (handle_literal_byte p c)"
  by (auto simp: oi_json_parser_feed.simps json_step_def split: prod.splits)

section \<open>Unicode escapes\<close>

text \<open>What \<open>handle_string_unicode_byte\<close> does with the fourth digit.\<close>

definition unicode_done :: "oi_json_parser \<Rightarrow> 32 word \<Rightarrow> oi_status \<times> oi_json_parser" where
  "unicode_done p cp =
     (if pending_high_surrogate p then
        (if cp < 0xDC00 \<or> cp > 0xDFFF then ps_fail OI_ERR_PARSE p
         else emit_utf8 (p\<lparr>pending_high_surrogate := False\<rparr>)
           (0x10000 + push_bit 10 (high_surrogate_value p - 0xD800) + (cp - 0xDC00)))
      else if cp \<ge> 0xD800 \<and> cp \<le> 0xDBFF then
        (OI_OK, p\<lparr>pending_high_surrogate := True, high_surrogate_value := cp\<rparr>)
      else if cp \<ge> 0xDC00 \<and> cp \<le> 0xDFFF then ps_fail OI_ERR_PARSE p
      else emit_utf8 p cp)"

lemma unicode_byte_more:
  "hex_digit c = Some d \<Longrightarrow> unicode_hex_count p < 3 \<Longrightarrow>
   handle_string_unicode_byte p c =
     (OI_OK, p\<lparr>unicode_value := push_bit 4 (unicode_value p) OR d,
               unicode_hex_count := unicode_hex_count p + 1\<rparr>)"
  by (simp add: handle_string_unicode_byte_def)

lemma unicode_byte_last:
  assumes "hex_digit c = Some d" "unicode_hex_count p = 3"
  shows "handle_string_unicode_byte p c =
     unicode_done (p\<lparr>unicode_value := push_bit 4 (unicode_value p) OR d, unicode_hex_count := 4,
                     ps_state := PS_STRING\<rparr>) (push_bit 4 (unicode_value p) OR d)"
  using assms unfolding handle_string_unicode_byte_def unicode_done_def Let_def by simp

text \<open>Four hexadecimal digits.\<close>

definition hex4 :: "nat \<Rightarrow> bytes" where
  "hex4 n = [hex_char (n div 4096 mod 16), hex_char (n div 256 mod 16), hex_char (n div 16 mod 16),
             hex_char (n mod 16)]"

lemma hex_digit_char: "n < 16 \<Longrightarrow> hex_digit (hex_char n) = Some (word_of_nat n)"
proof -
  assume "n < 16"
  then consider "n = 0" | "n = 1" | "n = 2" | "n = 3" | "n = 4" | "n = 5" | "n = 6" | "n = 7" | "n = 8"
    | "n = 9" | "n = 10" | "n = 11" | "n = 12" | "n = 13" | "n = 14" | "n = 15"
  proof -
    have "n \<in> {..<16}" using \<open>n < 16\<close> by simp
    then show thesis using that by (auto simp: lessThan_nat_numeral lessThan_Suc)
  qed
  then show ?thesis by cases (simp_all add: hex_char_def hex_digit_def)
qed

lemma hex_shift:
  assumes "x < 2 ^ 28" "d < 16"
  shows "push_bit 4 (word_of_nat x :: 32 word) OR word_of_nat d = word_of_nat (16 * x + d)"
proof -
  have u: "unat (word_of_nat x :: 32 word) = x" "unat (word_of_nat d :: 32 word) = d"
    using assms by (simp_all add: unsigned_of_nat take_bit_nat_eq_self)
  have p: "unat (push_bit 4 (word_of_nat x :: 32 word)) = x * 16"
    by (subst unat_push_bit) (use assms(1) u in simp_all)
  have "unat (push_bit 4 (word_of_nat x :: 32 word) OR word_of_nat d) = x * 16 + d"
    by (subst unat_or_disjoint [where k = 4]) (use assms(2) u p in simp_all)
  also have "\<dots> = unat (word_of_nat (16 * x + d) :: 32 word)"
    using assms by (simp only: unsigned_of_nat) (simp add: take_bit_nat_eq_self)
  finally show ?thesis by (simp only: word_unat_eq_iff)
qed

lemma feed_hex4:
  assumes s: "ps_state p = PS_STRING_UNICODE" "unicode_value p = 0" "unicode_hex_count p = 0"
    and n: "n < 0x10000"
  shows "oi_json_parser_feed strtod p (hex4 n @ cs) =
    continue_feed strtod cs (unicode_done (p\<lparr>unicode_value := word_of_nat n, unicode_hex_count := 4,
       ps_state := PS_STRING\<rparr>) (word_of_nat n))"
proof -
  define a where "a = n div 4096 mod 16"
  define b where "b = n div 256 mod 16"
  define c where "c = n div 16 mod 16"
  define d where "d = n mod 16"
  have lt: "a < 16" "b < 16" "c < 16" "d < 16" by (simp_all add: a_def b_def c_def d_def)
  have e: "n = 16 * (16 * (16 * a + b) + c) + d"
  proof -
    have 1: "n = 16 * (n div 16) + d" by (simp add: d_def)
    have 2: "n div 16 = 16 * (n div 256) + c"
      using div_mult_mod_eq [of "n div 16" 16] by (simp add: c_def div_mult2_eq [of n 16 16, simplified])
    have 3: "n div 256 = 16 * (n div 4096) + b"
      using div_mult_mod_eq [of "n div 256" 16] by (simp add: b_def div_mult2_eq [of n 256 16, simplified])
    have "n div 4096 < 16" using n by auto
    then have "n div 4096 = a" by (simp add: a_def)
    with 1 2 3 show ?thesis by simp
  qed
  define wa wb wc wd where w: "wa = (word_of_nat a :: 32 word)" "wb = (word_of_nat b :: 32 word)"
    "wc = (word_of_nat c :: 32 word)" "wd = (word_of_nat d :: 32 word)"
  define w1 where "w1 = (word_of_nat (16 * a + b) :: 32 word)"
  define w2 where "w2 = (word_of_nat (16 * (16 * a + b) + c) :: 32 word)"
  define wn where "wn = (word_of_nat n :: 32 word)"
  have v: "push_bit 4 wa OR wb = w1" "push_bit 4 w1 OR wc = w2" "push_bit 4 w2 OR wd = wn"
    unfolding w w1_def w2_def wn_def e by (rule hex_shift; use lt in simp)+
  note h = hex_digit_char [OF lt(1), folded w] hex_digit_char [OF lt(2), folded w]
    hex_digit_char [OF lt(3), folded w] hex_digit_char [OF lt(4), folded w]
  have x: "hex4 n = [hex_char a, hex_char b, hex_char c, hex_char d]"
    by (simp add: hex4_def a_def b_def c_def d_def)
  show ?thesis unfolding x
    unfolding wn_def [symmetric]
    by (simp add: feed_unicode s unicode_byte_more [OF h(1)] unicode_byte_more [OF h(2)]
        unicode_byte_more [OF h(3)] unicode_byte_last [OF h(4)] v)
qed

lemma lead_byte:
  "unat (c :: 32 word) mod 2 ^ k = 0 \<Longrightarrow> unat y < 2 ^ k \<Longrightarrow>
     (ucast (c OR y) :: byte) = word_of_nat (unat c + unat y)"
  by (rule ucast_nat) (rule unat_or_disjoint)

lemma cont_byte: "(ucast (0x80 OR (y AND 0x3F) :: 32 word) :: byte) = word_of_nat (0x80 + unat y mod 64)"
proof -
  have "unat (y AND 0x3F) = unat y mod 64" using unat_and_mask [of y 6] by (simp add: mask_consts)
  then show ?thesis using lead_byte [of "0x80" 6 "y AND 0x3F"] by simp
qed

text \<open>The parser's encoder is UTF-8.\<close>

lemma utf8_bytes_encode:
  assumes "unat cp < 0x110000"
  shows "utf8_bytes cp = utf8_encode (unat cp)"
proof -
  have c: "cp \<le> 0x7F \<longleftrightarrow> unat cp < 0x80" "cp \<le> 0x7FF \<longleftrightarrow> unat cp < 0x800"
    "cp \<le> 0xFFFF \<longleftrightarrow> unat cp < 0x10000"
    by (auto simp: word_le_nat_alt)
  note d = unat_drop [of 6 cp] unat_drop [of 12 cp] unat_drop [of 18 cp]
  have 2: "(ucast (0xC0 OR drop_bit 6 cp) :: byte) = word_of_nat (0xC0 + unat cp div 64)" if "unat cp < 0x800"
    using lead_byte [of "0xC0" 6 "drop_bit 6 cp"] that d(1) by simp
  have 3: "(ucast (0xE0 OR drop_bit 12 cp) :: byte) = word_of_nat (0xE0 + unat cp div 4096)" if "unat cp < 0x10000"
    using lead_byte [of "0xE0" 4 "drop_bit 12 cp"] that d(2) by simp
  have 4: "(ucast (0xF0 OR drop_bit 18 cp) :: byte) = word_of_nat (0xF0 + unat cp div 262144)"
    using lead_byte [of "0xF0" 4 "drop_bit 18 cp"] assms d(3) by simp
  show ?thesis
    unfolding utf8_bytes_def utf8_encode_def c cont_byte d
    using 2 3 4 ucast_nat [of cp] by (simp del: of_nat_add of_nat_numeral)
qed

section \<open>A parser with memory\<close>

definition ps_room :: "nat \<Rightarrow> oi_json_parser \<Rightarrow> bool" where
  "ps_room N p \<longleftrightarrow> json_inv p \<and> roomy N (ps_arena p) \<and> ps_heap p = heap_ok"

text \<open>\<open>q\<close> is \<open>p\<close> with another scratch string and unicode register.\<close>

definition same_frames :: "oi_json_parser \<Rightarrow> oi_json_parser \<Rightarrow> bool" where
  "same_frames p q \<longleftrightarrow> ps_frames q = ps_frames p \<and> parsing_key q = parsing_key p \<and> ps_arena q = ps_arena p
     \<and> ps_root q = ps_root p"

lemma feed_json_inv': "json_inv p \<Longrightarrow> oi_json_parser_feed strtod p bs = (st, q) \<Longrightarrow> json_inv q"
  using feed_json_inv [of p strtod bs] by simp

lemma append_string_room:
  assumes "0 < str_cap p" "ps_heap p = heap_ok" "length (str_buf p) + length bs \<le> size_max div 2"
  shows "\<exists>q. str_buf_append_bytes p bs = (OI_OK, q) \<and> str_buf q = str_buf p @ bs \<and> ps_heap q = heap_ok
    \<and> ps_state q = ps_state p \<and> same_frames p q \<and> pending_high_surrogate q = pending_high_surrogate p
    \<and> 0 < str_cap q"
proof -
  have n: "\<not> length bs > size_max - length (str_buf p)"
    using assms(3) by (simp add: size_max_def)
  obtain c where g: "grow_cap (str_cap p) (length (str_buf p) + length bs) = Some c"
    using grow_cap_enough [OF assms(1,3)] by blast
  have "0 < c" using grow_cap_pos [OF g assms(1)] .
  with n g assms show ?thesis
    by (cases "length (str_buf p) + length bs \<le> str_cap p")
       (auto simp: str_buf_append_bytes_def str_buf_reserve_def same_frames_def)
qed

text \<open>A string being read: where one is after the opening quote.\<close>

definition in_string :: "nat \<Rightarrow> oi_json_parser \<Rightarrow> bytes \<Rightarrow> oi_json_parser \<Rightarrow> bool" where
  "in_string N p s q \<longleftrightarrow> ps_room N q \<and> ps_state q = PS_STRING \<and> \<not> pending_high_surrogate q
     \<and> str_buf q = s \<and> same_frames p q"

lemma in_string_cap: "in_string N p s q \<Longrightarrow> 0 < str_cap q"
  by (auto simp: in_string_def ps_room_def json_inv_def json_core_def)

lemma same_frames_trans: "same_frames p q \<Longrightarrow> same_frames q r \<Longrightarrow> same_frames p r"
  by (simp add: same_frames_def)

lemma append_in_string:
  assumes s: "in_string N p s q" and len: "length s + length bs \<le> size_max div 2"
    and q1: "ps_state q1 = PS_STRING" "\<not> pending_high_surrogate q1" "str_buf q1 = s" "same_frames q q1"
      "str_cap q1 = str_cap q" "ps_heap q1 = ps_heap q"
    and f: "\<And>cs. oi_json_parser_feed strtod q (t @ cs) = continue_feed strtod cs (str_buf_append_bytes q1 bs)"
  shows "\<exists>r. (\<forall>cs. oi_json_parser_feed strtod q (t @ cs) = oi_json_parser_feed strtod r cs)
    \<and> in_string N p (s @ bs) r"
proof -
  have "0 < str_cap q1" "ps_heap q1 = heap_ok" "length (str_buf q1) + length bs \<le> size_max div 2"
    using in_string_cap [OF s] s q1 len by (simp_all add: in_string_def ps_room_def)
  from append_string_room [OF this] obtain r where r: "str_buf_append_bytes q1 bs = (OI_OK, r)"
    "str_buf r = s @ bs" "ps_heap r = heap_ok" "ps_state r = PS_STRING" "same_frames q1 r"
    "\<not> pending_high_surrogate r" using q1 by auto
  have e: "oi_json_parser_feed strtod q t = (OI_OK, r)" using f [of "[]"] r(1) by simp
  have inv: "json_inv r" by (rule feed_json_inv' [OF _ e]) (use s in \<open>simp add: in_string_def ps_room_def\<close>)
  have "same_frames p r"
    using s q1(4) r(5) same_frames_trans unfolding in_string_def by blast
  moreover have "ps_arena r = ps_arena q" using r(5) q1(4) by (simp add: same_frames_def)
  then have "roomy N (ps_arena r)" using s by (simp add: in_string_def ps_room_def)
  ultimately show ?thesis using f r inv by (intro exI [of _ r]) (simp add: in_string_def ps_room_def)
qed

text \<open>Each escaped byte is read back.\<close>

lemma read_plain:
  assumes s: "in_string N p s q" and len: "length s + 1 \<le> size_max div 2"
    and c: "0x20 \<le> c" "c \<noteq> 0x22" "c \<noteq> 0x5C"
  shows "\<exists>r. (\<forall>cs. oi_json_parser_feed strtod q ([c] @ cs) = oi_json_parser_feed strtod r cs)
    \<and> in_string N p (s @ [c]) r"
proof (rule append_in_string [OF s, where ?q1.0 = q])
  have "\<not> c < 0x20" using c(1) by simp
  with s c show "oi_json_parser_feed strtod q ([c] @ cs) = continue_feed strtod cs (str_buf_append_bytes q [c])" for cs
    by (simp add: in_string_def feed_string handle_string_byte_def str_buf_append_byte_def)
qed (use s len in \<open>simp_all add: in_string_def same_frames_def\<close>)

lemma read_simple_escape:
  assumes s: "in_string N p s q" and len: "length s + 1 \<le> size_max div 2"
    and c: "escape_map e = Some c" "e \<noteq> 0x75"
  shows "\<exists>r. (\<forall>cs. oi_json_parser_feed strtod q ([0x5C, e] @ cs) = oi_json_parser_feed strtod r cs)
    \<and> in_string N p (s @ [c]) r"
proof (rule append_in_string [OF s, where ?q1.0 = "q\<lparr>ps_state := PS_STRING\<rparr>"])
  show "oi_json_parser_feed strtod q ([0x5C, e] @ cs)
      = continue_feed strtod cs (str_buf_append_bytes (q\<lparr>ps_state := PS_STRING\<rparr>) [c])" for cs
    using s c by (simp add: in_string_def feed_string handle_string_byte_def feed_escape
        handle_string_escape_byte_def str_buf_append_byte_def)
qed (use s len in \<open>simp_all add: in_string_def same_frames_def\<close>)

text \<open>A \<open>\u\<close> escape of a scalar value of the basic plane.\<close>

lemma feed_u:
  assumes "ps_state q = PS_STRING" "n < 0x10000"
  shows "oi_json_parser_feed strtod q ([0x5C, 0x75] @ hex4 n @ cs) =
    continue_feed strtod cs (unicode_done (q\<lparr>unicode_value := word_of_nat n, unicode_hex_count := 4,
       ps_state := PS_STRING\<rparr>) (word_of_nat n))"
proof -
  let ?q = "q\<lparr>ps_state := PS_STRING_UNICODE, unicode_value := 0, unicode_hex_count := 0\<rparr>"
  have 1: "oi_json_parser_feed strtod q ([0x5C, 0x75] @ hex4 n @ cs) = oi_json_parser_feed strtod ?q (hex4 n @ cs)"
    using assms(1)
    by (simp add: feed_string handle_string_byte_def feed_escape handle_string_escape_byte_def)
  show ?thesis unfolding 1
    by (subst feed_hex4) (use assms(2) in simp_all)
qed

lemma word_small: "n < 2 ^ 32 \<Longrightarrow> unat (word_of_nat n :: 32 word) = n"
  by (simp add: unsigned_of_nat take_bit_nat_eq_self)

lemma read_u:
  assumes s: "in_string N p s q" and len: "length s + 4 \<le> size_max div 2"
    and n: "n < 0x10000" "scalar_value n"
  shows "\<exists>r. (\<forall>cs. oi_json_parser_feed strtod q (([0x5C, 0x75] @ hex4 n) @ cs) = oi_json_parser_feed strtod r cs)
    \<and> in_string N p (s @ utf8_encode n) r"
proof (rule append_in_string [OF s, where ?q1.0 = "q\<lparr>unicode_value := word_of_nat n, unicode_hex_count := 4,
       ps_state := PS_STRING\<rparr>"])
  let ?q1 = "q\<lparr>unicode_value := word_of_nat n, unicode_hex_count := 4, ps_state := PS_STRING\<rparr>"
  have u: "unat (word_of_nat n :: 32 word) = n" using n(1) by (simp add: word_small)
  have r: "\<not> (0xD800 \<le> (word_of_nat n :: 32 word) \<and> (word_of_nat n :: 32 word) \<le> 0xDBFF)"
    "\<not> (0xDC00 \<le> (word_of_nat n :: 32 word) \<and> (word_of_nat n :: 32 word) \<le> 0xDFFF)"
    using n(2) by (auto simp: word_le_nat_alt u scalar_value_def)
  have b: "utf8_bytes (word_of_nat n) = utf8_encode n"
    using utf8_bytes_encode [of "word_of_nat n"] n(1) u by simp
  have h: "\<not> pending_high_surrogate ?q1" using s by (simp add: in_string_def)
  have e: "unicode_done ?q1 (word_of_nat n) = str_buf_append_bytes ?q1 (utf8_encode n)"
    by (simp only: unicode_done_def emit_utf8_def b if_not_P [OF h] if_not_P [OF r(1)] if_not_P [OF r(2)])
  have q: "ps_state q = PS_STRING" using s by (simp add: in_string_def)
  show "oi_json_parser_feed strtod q (([0x5C, 0x75] @ hex4 n) @ cs)
      = continue_feed strtod cs (str_buf_append_bytes ?q1 (utf8_encode n))" for cs
    by (simp only: append_assoc feed_u [OF q n(1)] e)
  show "length s + length (utf8_encode n) \<le> size_max div 2"
    using len utf8_encode_length(2) [of n] by linarith
qed (use s in \<open>simp_all add: in_string_def same_frames_def\<close>)

lemma read_byte:
  assumes s: "in_string N p s q" and len: "length s + 4 \<le> size_max div 2"
  shows "\<exists>r. (\<forall>cs. oi_json_parser_feed strtod q (escape_byte c @ cs) = oi_json_parser_feed strtod r cs)
    \<and> in_string N p (s @ [c]) r"
proof -
  have len1: "length s + 1 \<le> size_max div 2" using len by simp
  note e = read_simple_escape [OF s len1]
  show ?thesis
  proof (cases "c \<in> {0x22, 0x5C, 0x08, 0x0C, 0x0A, 0x0D, 0x09}")
    case True
    then have "\<exists>e. escape_byte c = [0x5C, e] \<and> escape_map e = Some c \<and> e \<noteq> 0x75"
      by (auto simp: escape_byte_def escape_map_def)
    with e show ?thesis by metis
  next
    case False
    show ?thesis
    proof (cases "c < 0x20")
      case True
      then have n: "unat c < 0x20" by (simp add: word_less_nat_alt)
      have "escape_byte c = u_escape c" using False True by (simp add: escape_byte_def)
      also have "\<dots> = [0x5C, 0x75] @ hex4 (unat c)"
        using n by (simp add: u_escape_def hex4_def hex_char_def)
      finally have esc: "escape_byte c = [0x5C, 0x75] @ hex4 (unat c)" .
      have "utf8_encode (unat c) = [c]" "scalar_value (unat c)"
        using n by (simp_all add: utf8_encode_def scalar_value_def)
      with read_u [OF s len, of "unat c"] n esc show ?thesis by simp
    next
      case c: False
      with False have "escape_byte c = [c]" by (simp add: escape_byte_def)
      with read_plain [OF s len1, of c] c False show ?thesis by simp
    qed
  qed
qed

lemma read_bytes:
  "in_string N p s q \<Longrightarrow> length s + length t + 4 \<le> size_max div 2 \<Longrightarrow>
   \<exists>r. (\<forall>cs. oi_json_parser_feed strtod q (concat (map escape_byte t) @ cs) = oi_json_parser_feed strtod r cs)
    \<and> in_string N p (s @ t) r"
proof (induction t arbitrary: s q)
  case (Cons c t)
  have "length s + 4 \<le> size_max div 2" using Cons.prems(2) by simp
  from read_byte [OF Cons.prems(1) this] obtain r1 where
    1: "\<And>cs. oi_json_parser_feed strtod q (escape_byte c @ cs) = oi_json_parser_feed strtod r1 cs"
      "in_string N p (s @ [c]) r1" by blast
  have "length (s @ [c]) + length t + 4 \<le> size_max div 2" using Cons.prems(2) by simp
  from Cons.IH [OF 1(2) this] obtain r where
    "\<And>cs. oi_json_parser_feed strtod r1 (concat (map escape_byte t) @ cs) = oi_json_parser_feed strtod r cs"
      "in_string N p (s @ [c] @ t) r" by auto
  with 1(1) show ?case by (intro exI [of _ r]) simp
qed auto

text \<open>The escape of a scalar value: beyond the basic plane it is a surrogate pair.\<close>

definition json_escape :: "nat \<Rightarrow> bytes" where
  "json_escape cp =
     (if cp < 0x10000 then [0x5C, 0x75] @ hex4 cp
      else [0x5C, 0x75] @ hex4 (0xD800 + (cp - 0x10000) div 1024)
         @ [0x5C, 0x75] @ hex4 (0xDC00 + (cp - 0x10000) mod 1024))"

lemma word_diff: "k \<le> n \<Longrightarrow> n < 2 ^ 32 \<Longrightarrow> (word_of_nat n - word_of_nat k :: 32 word) = word_of_nat (n - k)"
  by simp

lemma pair_value:
  assumes "a < 1024" "b < 1024"
  shows "unat (0x10000 + push_bit 10 (word_of_nat a) + word_of_nat b :: 32 word) = 0x10000 + 1024 * a + b"
proof -
  have "push_bit 10 (word_of_nat a) = (word_of_nat (1024 * a) :: 32 word)"
    by (simp add: push_bit_eq_mult)
  then have "(0x10000 + push_bit 10 (word_of_nat a) + word_of_nat b :: 32 word)
      = word_of_nat (0x10000 + 1024 * a + b)" by simp
  moreover have "unat (word_of_nat (0x10000 + 1024 * a + b) :: 32 word) = 0x10000 + 1024 * a + b"
    by (rule word_small) (use assms in simp)
  ultimately show ?thesis by (simp only:)
qed

lemma surrogate_done:
  assumes "pending_high_surrogate p" "high_surrogate_value p = word_of_nat (0xD800 + a)"
    and ab: "a < 1024" "b < 1024"
  shows "unicode_done p (word_of_nat (0xDC00 + b))
    = str_buf_append_bytes (p\<lparr>pending_high_surrogate := False\<rparr>) (utf8_encode (0x10000 + 1024 * a + b))"
proof -
  have u: "unat (word_of_nat (0xDC00 + b) :: 32 word) = 0xDC00 + b" by (rule word_small) (use ab in simp)
  have lo: "\<not> ((word_of_nat (0xDC00 + b) :: 32 word) < 0xDC00 \<or> (word_of_nat (0xDC00 + b) :: 32 word) > 0xDFFF)"
    unfolding word_less_nat_alt u using ab by simp
  have d: "(word_of_nat (0xD800 + a) - 0xD800 :: 32 word) = word_of_nat a"
    "(word_of_nat (0xDC00 + b) - 0xDC00 :: 32 word) = word_of_nat b" by simp_all
  have "utf8_bytes (0x10000 + push_bit 10 (word_of_nat a) + word_of_nat b)
      = utf8_encode (0x10000 + 1024 * a + b)"
    using utf8_bytes_encode [of "0x10000 + push_bit 10 (word_of_nat a) + word_of_nat b", unfolded pair_value [OF ab]]
      ab by simp
  then show ?thesis
    by (simp only: unicode_done_def if_P [OF assms(1)] if_not_P [OF lo] assms(2) d emit_utf8_def)
qed

lemma read_pair:
  assumes s: "in_string N p s q" and len: "length s + 4 \<le> size_max div 2"
    and cp: "0x10000 \<le> cp" "cp < 0x110000"
  shows "\<exists>r. (\<forall>cs. oi_json_parser_feed strtod q (json_escape cp @ cs) = oi_json_parser_feed strtod r cs)
    \<and> in_string N p (s @ utf8_encode cp) r"
proof -
  define a where "a = (cp - 0x10000) div 1024"
  define b where "b = (cp - 0x10000) mod 1024"
  have "a * 1024 + b = cp - 0x10000" unfolding a_def b_def by (rule div_mult_mod_eq)
  then have e: "cp = 0x10000 + 1024 * a + b" using cp(1) by linarith
  have ab: "a < 1024" "b < 1024" using cp by (auto simp: a_def b_def)
  have x: "json_escape cp = [0x5C, 0x75] @ hex4 (0xD800 + a) @ [0x5C, 0x75] @ hex4 (0xDC00 + b)"
    using cp(1) by (simp add: json_escape_def a_def b_def)
  let ?hi = "word_of_nat (0xD800 + a) :: 32 word"
  let ?q1 = "q\<lparr>unicode_value := ?hi, unicode_hex_count := 4, ps_state := PS_STRING,
    pending_high_surrogate := True, high_surrogate_value := ?hi\<rparr>"
  have q: "ps_state q = PS_STRING" "\<not> pending_high_surrogate q" using s by (simp_all add: in_string_def)
  have u: "unat ?hi = 0xD800 + a" by (rule word_small) (use ab in simp)
  have hi: "0xD800 \<le> ?hi \<and> ?hi \<le> 0xDBFF" unfolding word_le_nat_alt u using ab by simp
  have 1: "oi_json_parser_feed strtod q ([0x5C, 0x75] @ hex4 (0xD800 + a) @ cs) = oi_json_parser_feed strtod ?q1 cs" for cs
    using q hi ab by (subst feed_u) (simp_all add: unicode_done_def del: of_nat_add of_nat_numeral)
  let ?lo = "word_of_nat (0xDC00 + b) :: 32 word"
  let ?q2 = "?q1\<lparr>unicode_value := ?lo, unicode_hex_count := 4, ps_state := PS_STRING\<rparr>"
  have 2: "oi_json_parser_feed strtod ?q1 ([0x5C, 0x75] @ hex4 (0xDC00 + b) @ cs)
    = continue_feed strtod cs (str_buf_append_bytes (?q2\<lparr>pending_high_surrogate := False\<rparr>) (utf8_encode cp))" for cs
  proof -
    have "oi_json_parser_feed strtod ?q1 ([0x5C, 0x75] @ hex4 (0xDC00 + b) @ cs)
        = continue_feed strtod cs (unicode_done ?q2 ?lo)"
      by (rule feed_u) (use ab in simp_all)
    also have "unicode_done ?q2 ?lo = str_buf_append_bytes (?q2\<lparr>pending_high_surrogate := False\<rparr>) (utf8_encode cp)"
      unfolding e by (rule surrogate_done) (use ab in simp_all)
    finally show ?thesis .
  qed
  show ?thesis
  proof (rule append_in_string [OF s, where ?q1.0 = "?q2\<lparr>pending_high_surrogate := False\<rparr>"])
    show "oi_json_parser_feed strtod q (json_escape cp @ cs)
      = continue_feed strtod cs (str_buf_append_bytes (?q2\<lparr>pending_high_surrogate := False\<rparr>) (utf8_encode cp))" for cs
      by (simp only: x append_assoc 1 2)
    show "length s + length (utf8_encode cp) \<le> size_max div 2"
      using len utf8_encode_length(2) [of cp] by linarith
  qed (use s in \<open>simp_all add: in_string_def same_frames_def\<close>)
qed

lemma create_room:
  assumes "roomy N a"
  shows "\<exists>p. oi_json_parser_create heap_ok a = Some p \<and> ps_room N p \<and> ps_state p = PS_VALUE
    \<and> ps_frames p = [] \<and> \<not> pending_high_surrogate p \<and> str_buf p = [] \<and> \<not> parsing_key p"
proof -
  have "\<exists>p. oi_json_parser_create heap_ok a = Some p \<and> ps_arena p = a \<and> ps_heap p = heap_ok
    \<and> ps_state p = PS_VALUE \<and> ps_frames p = [] \<and> \<not> pending_high_surrogate p \<and> str_buf p = [] \<and> \<not> parsing_key p"
    by (simp add: oi_json_parser_create_def reset_transient_def)
  with create_json_inv assms show ?thesis by (auto simp: ps_room_def)
qed

text \<open>
  Unicode escapes. Inside a string, the escape of any Unicode scalar value, a single \<open>\uXXXX\<close> or a
  surrogate pair, appends exactly the UTF-8 encoding of that value.
\<close>

theorem json_unicode_escape:
  assumes "ps_room N p" and "ps_state p = PS_STRING" and "\<not> pending_high_surrogate p"
    and "length (str_buf p) + 4 \<le> size_max div 2" and "scalar_value cp"
  shows "\<exists>q. oi_json_parser_feed strtod p (json_escape cp) = (OI_OK, q)
    \<and> ps_state q = PS_STRING \<and> \<not> pending_high_surrogate q \<and> str_buf q = str_buf p @ utf8_encode cp"
proof -
  have s: "in_string N p (str_buf p) p" using assms by (simp add: in_string_def same_frames_def)
  have "\<exists>r. (\<forall>cs. oi_json_parser_feed strtod p (json_escape cp @ cs) = oi_json_parser_feed strtod r cs)
    \<and> in_string N p (str_buf p @ utf8_encode cp) r"
  proof (cases "cp < 0x10000")
    case True
    with read_u [OF s assms(4) True assms(5)] show ?thesis by (simp add: json_escape_def)
  next
    case False
    then show ?thesis using read_pair [OF s assms(4)] assms(5) by (simp add: scalar_value_def)
  qed
  then obtain r where "\<And>cs. oi_json_parser_feed strtod p (json_escape cp @ cs) = oi_json_parser_feed strtod r cs"
    "in_string N p (str_buf p @ utf8_encode cp) r" by blast
  from this(1) [of "[]"] this(2) show ?thesis by (auto simp: in_string_def)
qed

theorem json_unicode_escape_witness:
  "\<exists>a p q. oi_arena_create heap_ok 1024 = Some a \<and> oi_json_parser_create heap_ok a = Some p
    \<and> oi_json_parser_feed (\<lambda>_. (0, 0)) (p\<lparr>ps_state := PS_STRING\<rparr>) (json_escape 0x1F600) = (OI_OK, q)
    \<and> str_buf q = utf8_encode 0x1F600"
proof -
  obtain a where a: "oi_arena_create heap_ok 1024 = Some a" "roomy 1024 a" using fresh_arena by blast
  obtain p where p: "oi_json_parser_create heap_ok a = Some p" "ps_room 1024 p" "str_buf p = []"
    "\<not> pending_high_surrogate p" "\<not> parsing_key p" "ps_state p = PS_VALUE"
    using create_room [OF a(2)] by blast
  have r: "ps_room 1024 (p\<lparr>ps_state := PS_STRING\<rparr>)"
    using p by (auto simp: ps_room_def json_inv_def json_core_def string_ok_def)
  have "\<exists>q. oi_json_parser_feed (\<lambda>_. (0, 0)) (p\<lparr>ps_state := PS_STRING\<rparr>) (json_escape 0x1F600) = (OI_OK, q)
    \<and> ps_state q = PS_STRING \<and> \<not> pending_high_surrogate q
    \<and> str_buf q = str_buf (p\<lparr>ps_state := PS_STRING\<rparr>) @ utf8_encode 0x1F600"
    by (rule json_unicode_escape [OF r]) (simp_all add: p scalar_value_def size_max_def)
  with a p show ?thesis by auto
qed

section \<open>Completed values\<close>

text \<open>A frame that can take a value with the memory there is, and what it becomes.\<close>

fun frame_room :: "nat \<Rightarrow> oi_json_value \<Rightarrow> frame \<Rightarrow> bool" where
  "frame_room N (JSON_ARRAY items cap) f \<longleftrightarrow> fr_kind f = FRAME_ARRAY \<and> cap = value_cap (length items)
     \<and> 16 * length items + 32 \<le> N"
| "frame_room N (JSON_OBJECT ms) f \<longleftrightarrow> fr_kind f = FRAME_OBJECT \<and> length (fr_pending_key f) + 1 \<le> N"
| "frame_room N _ f = False"

fun filled :: "oi_json_value \<Rightarrow> frame \<Rightarrow> oi_json_value \<Rightarrow> frame" where
  "filled (JSON_ARRAY items cap) f v =
     f\<lparr>fr_container := JSON_ARRAY (items @ [v]) (value_cap (length (items @ [v]))),
       fr_expect := EXPECT_COMMA_OR_CLOSE\<rparr>"
| "filled (JSON_OBJECT ms) f v =
     f\<lparr>fr_container := JSON_OBJECT (ms @ [(fr_pending_key f, v)]), fr_pending_key := [],
       fr_expect := EXPECT_COMMA_OR_CLOSE\<rparr>"
| "filled _ f v = f"

abbreviation fr_room :: "nat \<Rightarrow> frame \<Rightarrow> bool" where
  "fr_room N f \<equiv> frame_room N (fr_container f) f"

abbreviation fr_filled :: "frame \<Rightarrow> oi_json_value \<Rightarrow> frame" where
  "fr_filled f v \<equiv> filled (fr_container f) f v"

text \<open>The parser \<open>q\<close> after the value \<open>v\<close> has been attached below the frames \<open>fs\<close>.\<close>

definition attached :: "nat \<Rightarrow> frame list \<Rightarrow> oi_json_value \<Rightarrow> oi_json_parser \<Rightarrow> bool" where
  "attached N fs v q \<longleftrightarrow> ps_room N q \<and>
     (case fs of [] \<Rightarrow> ps_state q = PS_DONE \<and> ps_root q = Some v \<and> ps_frames q = []
      | f # rest \<Rightarrow> ps_state q = PS_VALUE \<and> ps_frames q = fr_filled f v # rest)"

lemma attach_room:
  assumes core: "json_core p" and r: "roomy N (ps_arena p)" "ps_heap p = heap_ok" "32 \<le> N"
    and f: "ps_frames p \<noteq> [] \<Longrightarrow> fr_room N (hd (ps_frames p))"
  shows "\<exists>q. attach_completed p v = (OI_OK, q) \<and> attached N (ps_frames p) v q"
proof (cases "ps_frames p")
  case Nil
  let ?q = "p\<lparr>ps_root := Some v, ps_state := PS_DONE\<rparr>"
  from Nil have e: "attach_completed p v = (OI_OK, ?q)" by (simp add: attach_completed_def)
  from attach_inv [OF core e] e r Nil show ?thesis by (simp add: attached_def ps_room_def)
next
  case (Cons f0 rest)
  with f have fr: "fr_room N f0" by simp
  show ?thesis
  proof (cases "fr_container f0")
    case (JSON_ARRAY items cap)
    with fr have k: "fr_kind f0 = FRAME_ARRAY" "cap = value_cap (length items)" "16 * length items + 32 \<le> N"
      by simp_all
    from roomy_push [OF r(1) k(3), of v] obtain a where
      "oi_json_array_push (ps_arena p) (JSON_ARRAY items cap) v
        = (OI_OK, JSON_ARRAY (items @ [v]) (value_cap (length (items @ [v]))), a)" "roomy N a"
      unfolding k(2) by blast
    then have e: "attach_completed p v = (OI_OK, p\<lparr>ps_arena := a, ps_frames := fr_filled f0 v # rest,
        ps_state := PS_VALUE\<rparr>)" and "roomy N a"
      using Cons JSON_ARRAY k(1)
      by (simp_all add: attach_completed_def del: oi_json_array_push.simps value_cap.simps)
    with attach_inv [OF core e] r Cons show ?thesis by (simp add: attached_def ps_room_def)
  next
    case (JSON_OBJECT ms)
    with fr have k: "fr_kind f0 = FRAME_OBJECT" "length (fr_pending_key f0) + 1 \<le> N" by simp_all
    have m: "sizeof_member \<le> N" using r(3) by (simp add: sizeof_member_def)
    from roomy_append [OF r(1) m k(2), of ms v] obtain a where
      "oi_json_object_append (ps_arena p) (JSON_OBJECT ms) (fr_pending_key f0) v
        = (OI_OK, JSON_OBJECT (ms @ [(fr_pending_key f0, v)]), a)" "roomy N a" by blast
    then have e: "attach_completed p v = (OI_OK, p\<lparr>ps_arena := a, ps_frames := fr_filled f0 v # rest,
        ps_state := PS_VALUE\<rparr>)" and "roomy N a"
      using Cons JSON_OBJECT k(1)
      by (simp_all add: attach_completed_def del: oi_json_object_append.simps)
    with attach_inv [OF core e] r Cons show ?thesis by (simp add: attached_def ps_room_def)
  qed (use fr in simp_all)
qed

text \<open>A position where a value is due.\<close>

definition value_due :: "nat \<Rightarrow> oi_json_parser \<Rightarrow> bool" where
  "value_due N p \<longleftrightarrow> ps_room N p \<and> ps_state p = PS_VALUE \<and>
     (case ps_frames p of [] \<Rightarrow> True
      | f # _ \<Rightarrow> fr_room N f \<and>
          (if fr_kind f = FRAME_ARRAY then fr_expect f = EXPECT_ELEM_OR_CLOSE \<or> fr_expect f = EXPECT_ELEM
           else fr_expect f = EXPECT_VALUE))"

lemma value_due_dispatch:
  assumes "value_due N p" "\<not> is_ws c" "c \<noteq> 0x5D" "c \<noteq> 0x7D"
  shows "oi_json_parser_feed strtod p (c # cs) = continue_feed strtod cs (dispatch_value_start p c)"
    "\<not> key_due p"
proof -
  from assms have "process_between_tokens p c = dispatch_value_start p c"
    by (auto simp: value_due_def process_between_tokens_def Let_def split: list.splits if_splits)
  with assms(1) show "oi_json_parser_feed strtod p (c # cs) = continue_feed strtod cs (dispatch_value_start p c)"
    by (simp add: value_due_def feed_value)
  show "\<not> key_due p" using assms(1)
    by (auto simp: value_due_def key_due_def split: list.splits)
qed

text \<open>A literal is read to its end and its value attached.\<close>

lemma read_literal:
  assumes d: "value_due N p" and N: "32 \<le> N"
    and t: "(t, v) \<in> {(bytes_of ''null'', JSON_NULL), (bytes_of ''true'', JSON_BOOL True),
                      (bytes_of ''false'', JSON_BOOL False)}"
  shows "\<exists>q. (\<forall>cs. oi_json_parser_feed strtod p (t @ cs) = oi_json_parser_feed strtod q cs)
    \<and> attached N (ps_frames p) v q"
proof -
  let ?n = "length t"
  let ?p = "\<lambda>i. p\<lparr>parsing_key := False, ps_state := PS_LITERAL, ps_literal := t, ps_literal_index := i\<rparr>"
  have room: "roomy N (ps_arena p)" "ps_heap p = heap_ok" "json_core p"
    using d by (auto simp: value_due_def ps_room_def json_inv_def)
  have s: "sizeof_value \<le> N" using N by (simp add: sizeof_value_def)
  obtain a where a: "(if t ! 0 = 0x6E then oi_json_new_null (ps_arena p)
      else oi_json_new_bool (ps_arena p) (t ! 0 = 0x74)) = (Some v, a)" "roomy N a"
    using t roomy_new(1) [OF room(1) s] roomy_new(2) [OF room(1) s, of True]
      roomy_new(2) [OF room(1) s, of False]
    by (auto simp: bytes_of_def)
  let ?l = "(?p ?n)\<lparr>ps_arena := a\<rparr>"
  have "json_core ?l" using room(3) by (simp add: json_core_def)
  then obtain q where q: "attach_completed ?l v = (OI_OK, q)" "attached N (ps_frames p) v q"
    using attach_room [of ?l N v] a(2) room(2) N d by (auto simp: value_due_def split: list.splits)
  have k: "\<not> key_due p" using value_due_dispatch(2) [OF d, of "0x6E"] by (simp add: is_ws_def)
  have "oi_json_parser_feed strtod p (t @ cs) = oi_json_parser_feed strtod q cs" for cs
    using t a(1) q(1) k value_due_dispatch(1) [OF d]
    by (auto simp: bytes_of_def is_ws_def dispatch_eq feed_literal handle_literal_byte_def char_at_def)
  with q(2) show ?thesis by blast
qed

text \<open>A number: its bytes are collected and the byte behind it ends it without being consumed.\<close>

definition number_text :: "strtod \<Rightarrow> double \<Rightarrow> bytes \<Rightarrow> bool" where
  "number_text strtod d t \<longleftrightarrow> json_number t \<and> strtod t = (d, length t) \<and> length t < 64"

lemma digits_continue: "digits1 ds \<Longrightarrow> \<forall>c \<in> set ds. is_number_continuation c"
  by (simp add: digits1_def is_number_continuation_def)

lemma number_continue:
  assumes "json_number t"
  shows "\<forall>c \<in> set t. is_number_continuation c" "t \<noteq> []" "hd t = 0x2D \<or> is_digit (hd t)"
proof -
  have p: "is_number_continuation 0x2D" "is_number_continuation 0x30" "is_number_continuation 0x2E"
    "is_number_continuation 0x65" "is_number_continuation 0x45" "is_number_continuation 0x2B"
    by (simp_all add: is_number_continuation_def)
  from assms obtain m i f e where t: "t = m @ i @ f @ e" "m = [] \<or> m = [0x2D]" "int_part i"
    "frac_part f" "exp_part e" unfolding json_number_def by blast
  have i: "\<forall>c \<in> set i. is_number_continuation c" "i \<noteq> []" "is_digit (hd i)"
    using t(3) digits_continue by (auto simp: int_part_def digits1_def p)
  have f: "\<forall>c \<in> set f. is_number_continuation c"
    using t(4) digits_continue by (auto simp: frac_part_def p)
  have e: "\<forall>c \<in> set e. is_number_continuation c"
    using t(5) digits_continue by (auto simp: exp_part_def p)
  show "\<forall>c \<in> set t. is_number_continuation c" "t \<noteq> []" "hd t = 0x2D \<or> is_digit (hd t)"
    using t(1,2) i f e p by auto
qed

lemma feed_number:
  "ps_state p = PS_NUMBER \<Longrightarrow> \<forall>c \<in> set t. is_number_continuation c \<Longrightarrow>
   length (num_buf p) + length t \<le> 511 \<Longrightarrow>
   oi_json_parser_feed strtod p (t @ cs) = oi_json_parser_feed strtod (p\<lparr>num_buf := num_buf p @ t\<rparr>) cs"
proof (induction t arbitrary: p)
  case (Cons c t)
  then have "json_step strtod p c = (OI_OK, p\<lparr>num_buf := num_buf p @ [c]\<rparr>, True)"
    by (simp add: json_step_def handle_number_byte_def oi_json_max_number_len_def)
  with Cons show ?case by (simp add: oi_json_parser_feed.simps)
qed simp

lemma digit_dispatch:
  assumes "c = 0x2D \<or> is_digit c" "\<not> key_due p"
  shows "dispatch_value_start p c = (OI_OK, p\<lparr>parsing_key := False, ps_state := PS_NUMBER, num_buf := [c]\<rparr>)"
    "\<not> is_ws c" "c \<noteq> 0x5D" "c \<noteq> 0x7D"
proof -
  have n: "is_digit c \<Longrightarrow> c \<notin> {0x7B, 0x5B, 0x22, 0x74, 0x66, 0x6E}" for c
    by (auto simp: is_digit_def)
  show "dispatch_value_start p c = (OI_OK, p\<lparr>parsing_key := False, ps_state := PS_NUMBER, num_buf := [c]\<rparr>)"
  proof (cases "c = 0x2D")
    case True
    then show ?thesis using assms(2) by (simp add: dispatch_eq)
  next
    case False
    with assms(1) have "is_digit c" by simp
    with n [OF this] False assms(2) show ?thesis by (simp add: dispatch_eq)
  qed
  show "\<not> is_ws c" "c \<noteq> 0x5D" "c \<noteq> 0x7D"
    using assms(1) by (auto simp: is_ws_def is_digit_def)
qed

lemma finalize_room:
  assumes d: "value_due N p" and N: "32 \<le> N" and t: "number_text strtod d t"
    and p1: "p1 = p\<lparr>parsing_key := False, ps_state := PS_NUMBER, num_buf := t\<rparr>"
  shows "\<exists>q. finalize_number strtod p1 = (OI_OK, q) \<and> attached N (ps_frames p) (JSON_NUMBER d) q"
proof -
  have room: "roomy N (ps_arena p1)" "ps_heap p1 = heap_ok" "json_core p1"
    using d t by (auto simp: p1 value_due_def ps_room_def json_inv_def json_core_def number_text_def
        oi_json_max_number_len_def)
  have s: "sizeof_value \<le> N" using N by (simp add: sizeof_value_def)
  obtain a where a: "oi_json_new_number (ps_arena p1) d = (Some (JSON_NUMBER d), a)" "roomy N a"
    using roomy_new(3) [OF room(1) s] by blast
  have "json_core (p1\<lparr>ps_arena := a\<rparr>)" using room(3) by (simp add: json_core_def)
  from attach_room [OF this, of N "JSON_NUMBER d"] obtain q where
    "attach_completed (p1\<lparr>ps_arena := a\<rparr>) (JSON_NUMBER d) = (OI_OK, q)" "attached N (ps_frames p) (JSON_NUMBER d) q"
    using a(2) room(2) N d by (auto simp: value_due_def p1 split: list.splits)
  moreover have "validate_json_number t" using t by (simp add: number_text_def validate_iff_number)
  ultimately show ?thesis using a(1) t
    by (auto simp: finalize_number_def number_text_def p1)
qed

lemma read_number:
  assumes d: "value_due N p" and N: "32 \<le> N" and t: "number_text strtod d t"
  shows "oi_json_parser_feed strtod p (t @ cs)
      = oi_json_parser_feed strtod (p\<lparr>parsing_key := False, ps_state := PS_NUMBER, num_buf := t\<rparr>) cs"
proof -
  have j: "json_number t" "length t \<le> 511" using t by (auto simp: number_text_def)
  then obtain c r where c: "t = c # r" using number_continue(2) by (cases t) auto
  note n = number_continue [OF j(1), unfolded c list.sel]
  have k: "\<not> key_due p" using value_due_dispatch(2) [OF d, of "0x6E"] by (simp add: is_ws_def)
  note dd = digit_dispatch [OF n(3) k]
  have "oi_json_parser_feed strtod p (c # r @ cs)
      = oi_json_parser_feed strtod (p\<lparr>parsing_key := False, ps_state := PS_NUMBER, num_buf := [c]\<rparr>) (r @ cs)"
    using value_due_dispatch(1) [OF d dd(2,3,4)] dd(1) by simp
  also have "\<dots> = oi_json_parser_feed strtod (p\<lparr>parsing_key := False, ps_state := PS_NUMBER, num_buf := [c] @ r\<rparr>) cs"
    using n(1) j(2) c by (subst feed_number) simp_all
  finally show ?thesis by (simp add: c)
qed

lemma read_number_delim:
  assumes d: "value_due N p" and N: "32 \<le> N" and t: "number_text strtod d t"
  shows "\<exists>q. (\<forall>c cs. \<not> is_number_continuation c \<longrightarrow>
      oi_json_parser_feed strtod p (t @ c # cs) = oi_json_parser_feed strtod q (c # cs))
    \<and> attached N (ps_frames p) (JSON_NUMBER d) q"
proof -
  let ?p1 = "p\<lparr>parsing_key := False, ps_state := PS_NUMBER, num_buf := t\<rparr>"
  obtain q where q: "finalize_number strtod ?p1 = (OI_OK, q)" "attached N (ps_frames p) (JSON_NUMBER d) q"
    using finalize_room [OF d N t refl] by blast
  have "oi_json_parser_feed strtod ?p1 (c # cs) = oi_json_parser_feed strtod q (c # cs)"
    if "\<not> is_number_continuation c" for c cs
    using q(1) that by (subst oi_json_parser_feed.simps) (simp add: json_step_def handle_number_byte_def)
  then show ?thesis using q(2) read_number [OF d N t] by auto
qed

text \<open>A string: opening quote, bytes, closing quote.\<close>

lemma read_quoted:
  assumes d: "ps_room N p" "ps_state p = PS_VALUE"
    and dis: "\<And>cs. oi_json_parser_feed strtod p (0x22 # cs) = continue_feed strtod cs (dispatch_value_start p 0x22)"
    and len: "length s + 4 \<le> size_max div 2"
  shows "\<exists>q. (\<forall>cs. oi_json_parser_feed strtod p (quote s @ cs) = continue_feed strtod cs (finalize_string_value q))
    \<and> in_string N (p\<lparr>parsing_key := key_due p\<rparr>) s q"
proof -
  let ?p1 = "p\<lparr>parsing_key := key_due p, ps_state := PS_STRING, str_buf := [], pending_high_surrogate := False\<rparr>"
  have ds: "dispatch_value_start p 0x22 = (OI_OK, ?p1)" by (simp add: dispatch_eq Let_def)
  have core: "json_core p" using d(1) by (auto simp: ps_room_def json_inv_def)
  have inv: "json_inv ?p1" using dispatch_inv [OF core d(2) ds] .
  then have "in_string N (p\<lparr>parsing_key := key_due p\<rparr>) [] ?p1"
    using d(1) by (simp add: in_string_def ps_room_def same_frames_def)
  from read_bytes [OF this, of s strtod] len obtain q where
    q: "\<And>cs. oi_json_parser_feed strtod ?p1 (concat (map escape_byte s) @ cs) = oi_json_parser_feed strtod q cs"
      "in_string N (p\<lparr>parsing_key := key_due p\<rparr>) s q" by auto
  have "oi_json_parser_feed strtod q (0x22 # cs) = continue_feed strtod cs (finalize_string_value q)" for cs
    using q(2) by (simp add: in_string_def feed_string handle_string_byte_def)
  then have "oi_json_parser_feed strtod p (quote s @ cs) = continue_feed strtod cs (finalize_string_value q)" for cs
    by (simp add: quote_def dis ds q(1))
  with q(2) show ?thesis by blast
qed

lemma read_string:
  assumes d: "value_due N p" and N: "32 \<le> N" "length s + 4 \<le> N" "N \<le> size_max div 2"
  shows "\<exists>q. (\<forall>cs. oi_json_parser_feed strtod p (quote s @ cs) = oi_json_parser_feed strtod q cs)
    \<and> attached N (ps_frames p) (JSON_STRING s) q"
proof -
  have k: "\<not> key_due p" using value_due_dispatch(2) [OF d, of "0x6E"] by (simp add: is_ws_def)
  have "\<exists>q. (\<forall>cs. oi_json_parser_feed strtod p (quote s @ cs) = continue_feed strtod cs (finalize_string_value q))
    \<and> in_string N (p\<lparr>parsing_key := key_due p\<rparr>) s q"
    by (rule read_quoted) (use d N value_due_dispatch(1) [OF d, of "0x22"] in \<open>auto simp: value_due_def is_ws_def\<close>)
  then obtain q where q: "\<And>cs. oi_json_parser_feed strtod p (quote s @ cs) = continue_feed strtod cs (finalize_string_value q)"
    "in_string N (p\<lparr>parsing_key := key_due p\<rparr>) s q" by blast
  from q(2) k have r: "\<not> parsing_key q" "ps_frames q = ps_frames p" "str_buf q = s" "roomy N (ps_arena q)"
    "ps_heap q = heap_ok" "json_core q"
    by (auto simp: in_string_def same_frames_def ps_room_def json_inv_def)
  have l: "sizeof_value \<le> N" "length s + 1 \<le> N" using N by (simp_all add: sizeof_value_def)
  obtain a where a: "oi_json_new_string (ps_arena q) s = (Some (JSON_STRING s), a)" "roomy N a"
    using roomy_string [OF r(4) l] by blast
  have "json_core (q\<lparr>ps_arena := a\<rparr>)" using r(6) by (simp add: json_core_def)
  from attach_room [OF this, of N "JSON_STRING s"] obtain q2 where
    "attach_completed (q\<lparr>ps_arena := a\<rparr>) (JSON_STRING s) = (OI_OK, q2)" "attached N (ps_frames p) (JSON_STRING s) q2"
    using a(2) r N(1) d by (auto simp: value_due_def split: list.splits)
  moreover from this(1) a(1) r(1,3) have "finalize_string_value q = (OI_OK, q2)"
    by (simp add: finalize_string_value_def)
  ultimately show ?thesis using q(1) by auto
qed

section \<open>Containers\<close>

definition reads :: "strtod \<Rightarrow> nat \<Rightarrow> bytes \<Rightarrow> oi_json_value \<Rightarrow> oi_json_parser \<Rightarrow> bool" where
  "reads strtod N t v p \<longleftrightarrow> (\<exists>q. (\<forall>c cs. \<not> is_number_continuation c \<longrightarrow>
      oi_json_parser_feed strtod p (t @ c # cs) = oi_json_parser_feed strtod q (c # cs))
    \<and> attached N (ps_frames p) v q)"

lemma room_step:
  assumes "ps_room N p" and f: "\<And>cs. oi_json_parser_feed strtod p (t @ cs) = oi_json_parser_feed strtod q cs"
    and "ps_heap q = heap_ok" "roomy N (ps_arena q)"
  shows "ps_room N q"
proof -
  have "oi_json_parser_feed strtod p t = (OI_OK, q)" using f [of "[]"] by simp
  from feed_json_inv' [OF _ this] assms show ?thesis by (simp add: ps_room_def)
qed

lemma delimiters [simp]: "\<not> is_number_continuation 0x2C" "\<not> is_number_continuation 0x5D"
  "\<not> is_number_continuation 0x7D" "\<not> is_number_continuation 0x3A"
  by (simp_all add: is_number_continuation_def is_digit_def)

text \<open>The comma between two elements.\<close>

lemma read_comma:
  assumes r: "ps_room N p" "ps_state p = PS_VALUE" "ps_frames p = f # rest"
    and e: "fr_expect f = EXPECT_COMMA_OR_CLOSE"
  shows "\<exists>q. (\<forall>cs. oi_json_parser_feed strtod p (0x2C # cs) = oi_json_parser_feed strtod q cs)
    \<and> ps_room N q \<and> ps_state q = PS_VALUE \<and> ps_frames q = f\<lparr>fr_expect := EXPECT_ELEM\<rparr> # rest"
proof -
  let ?q = "set_top p (f\<lparr>fr_expect := EXPECT_ELEM\<rparr>)"
  have f: "oi_json_parser_feed strtod p ([0x2C] @ cs) = oi_json_parser_feed strtod ?q cs" for cs
    using r(2,3) e by (simp add: feed_value process_between_tokens_def is_ws_def Let_def)
  have "ps_room N ?q" by (rule room_step [OF r(1) f]) (use r(1) in \<open>simp_all add: ps_room_def set_top_def\<close>)
  with f r(2,3) show ?thesis by (intro exI [of _ ?q]) (simp add: set_top_def)
qed

text \<open>The opening and the closing bracket.\<close>

definition new_frame :: "frame_kind \<Rightarrow> frame" where
  "new_frame k = \<lparr>fr_kind = k, fr_container = (if k = FRAME_ARRAY then JSON_ARRAY [] 0 else JSON_OBJECT []),
     fr_pending_key = [], fr_expect = EXPECT_ELEM_OR_CLOSE\<rparr>"

definition open_char :: "frame_kind \<Rightarrow> byte" where
  "open_char k = (if k = FRAME_ARRAY then 0x5B else 0x7B)"

definition close_char :: "frame_kind \<Rightarrow> byte" where
  "close_char k = (if k = FRAME_ARRAY then 0x5D else 0x7D)"

lemma read_open:
  assumes d: "value_due N p" and N: "32 \<le> N" and dp: "length (ps_frames p) < oi_json_max_depth"
  shows "\<exists>q. (\<forall>cs. oi_json_parser_feed strtod p (open_char k # cs) = oi_json_parser_feed strtod q cs)
    \<and> ps_room N q \<and> ps_state q = PS_VALUE \<and> ps_frames q = new_frame k # ps_frames p"
proof -
  let ?p = "p\<lparr>parsing_key := False\<rparr>"
  have c: "\<not> is_ws (open_char k)" "open_char k \<noteq> 0x5D" "open_char k \<noteq> 0x7D"
    by (simp_all add: open_char_def is_ws_def)
  note vd = value_due_dispatch [OF d c]
  have room: "ps_room N p" "ps_state p = PS_VALUE" "roomy N (ps_arena p)" "ps_heap p = heap_ok"
    using d by (auto simp: value_due_def ps_room_def)
  have s: "sizeof_value \<le> N" using N by (simp add: sizeof_value_def)
  obtain a where a: "(if k = FRAME_ARRAY then oi_json_new_array (ps_arena p) else oi_json_new_object (ps_arena p))
      = (Some (fr_container (new_frame k)), a)" "roomy N a"
    using roomy_new(4,5) [OF room(3) s] by (cases k) (auto simp: new_frame_def)
  have "dispatch_value_start p (open_char k) = push_frame ?p k"
    using vd(2) by (cases k) (simp_all add: dispatch_eq open_char_def)
  moreover have "\<exists>q. push_frame ?p k = (OI_OK, q) \<and> ps_arena q = a \<and> ps_heap q = heap_ok
      \<and> ps_state q = PS_VALUE \<and> ps_frames q = new_frame k # ps_frames p"
    using dp a(1) room(2,4)
    by (cases "length (ps_frames p) = frame_cap p") (auto simp: push_frame_def Let_def new_frame_def)
  ultimately obtain q where e: "dispatch_value_start p (open_char k) = (OI_OK, q)" "ps_arena q = a"
    "ps_heap q = heap_ok" "ps_state q = PS_VALUE" "ps_frames q = new_frame k # ps_frames p" by auto
  have f: "oi_json_parser_feed strtod p ([open_char k] @ cs) = oi_json_parser_feed strtod q cs" for cs
    using vd(1) e(1) by simp
  have "ps_room N q" by (rule room_step [OF room(1) f]) (use e a in simp_all)
  with f e show ?thesis by (intro exI [of _ q]) simp
qed

lemma read_close:
  assumes r: "ps_room N p" "ps_state p = PS_VALUE" "ps_frames p = f # rest" and N: "32 \<le> N"
    and e: "fr_expect f = EXPECT_COMMA_OR_CLOSE \<or> fr_expect f = EXPECT_ELEM_OR_CLOSE"
    and up: "rest \<noteq> [] \<Longrightarrow> fr_room N (hd rest)"
  shows "\<exists>q. (\<forall>cs. oi_json_parser_feed strtod p (close_char (fr_kind f) # cs) = oi_json_parser_feed strtod q cs)
    \<and> attached N rest (fr_container f) q"
proof -
  let ?p = "p\<lparr>ps_frames := rest\<rparr>"
  have core: "json_core ?p" using r by (auto simp: ps_room_def json_inv_def json_core_def)
  from attach_room [OF core _ _ N, of "fr_container f"] obtain q where
    q: "attach_completed ?p (fr_container f) = (OI_OK, q)" "attached N rest (fr_container f) q"
    using r up by (auto simp: ps_room_def)
  have "process_between_tokens p (close_char (fr_kind f)) = pop_container p"
    using r(3) e by (auto simp: process_between_tokens_def close_char_def is_ws_def Let_def)
  also have "\<dots> = (OI_OK, q)" using r(3) q(1) by (simp add: pop_container_def)
  finally show ?thesis using q(2) r(2) by (auto simp: feed_value)
qed

lemma read_array_loop:
  assumes IH: "\<And>v p. v \<in> set vs \<Longrightarrow> value_due N p \<Longrightarrow> length (ps_frames p) = Suc (length rest) \<Longrightarrow>
      reads strtod N (render fmt v) v p"
  shows "vs \<noteq> [] \<Longrightarrow> ps_room N p \<Longrightarrow> ps_state p = PS_VALUE \<Longrightarrow> ps_frames p = f # rest \<Longrightarrow>
    fr_kind f = FRAME_ARRAY \<Longrightarrow> fr_container f = JSON_ARRAY items (value_cap (length items)) \<Longrightarrow>
    fr_expect f = EXPECT_ELEM_OR_CLOSE \<or> fr_expect f = EXPECT_ELEM \<Longrightarrow>
    16 * (length items + length vs) + 32 \<le> N \<Longrightarrow>
    \<exists>q. (\<forall>cs. oi_json_parser_feed strtod p (comma_join (map (render fmt) vs) @ 0x5D # cs)
          = oi_json_parser_feed strtod q (0x5D # cs))
      \<and> ps_room N q \<and> ps_state q = PS_VALUE
      \<and> ps_frames q = f\<lparr>fr_container := JSON_ARRAY (items @ vs) (value_cap (length (items @ vs))),
                        fr_expect := EXPECT_COMMA_OR_CLOSE\<rparr> # rest"
  using IH
proof (induction vs arbitrary: p f items)
  case (Cons v vs)
  have due: "value_due N p" using Cons.prems(2-8) by (auto simp: value_due_def)
  have "reads strtod N (render fmt v) v p" using Cons.prems(9) [OF _ due] Cons.prems(4) by simp
  then obtain q where q: "\<And>c cs. \<not> is_number_continuation c \<Longrightarrow>
      oi_json_parser_feed strtod p (render fmt v @ c # cs) = oi_json_parser_feed strtod q (c # cs)"
    "attached N (ps_frames p) v q" by (auto simp: reads_def)
  let ?f = "f\<lparr>fr_container := JSON_ARRAY (items @ [v]) (value_cap (length (items @ [v]))),
    fr_expect := EXPECT_COMMA_OR_CLOSE\<rparr>"
  from q(2) Cons.prems(4,6) have q': "ps_room N q" "ps_state q = PS_VALUE" "ps_frames q = ?f # rest"
    by (simp_all add: attached_def del: value_cap.simps)
  show ?case
  proof (cases "vs = []")
    case True
    with q q' show ?thesis by (intro exI [of _ q]) (simp del: value_cap.simps)
  next
    case False
    from read_comma [OF q', of strtod] obtain r where r: "\<And>cs. oi_json_parser_feed strtod q (0x2C # cs) = oi_json_parser_feed strtod r cs"
      "ps_room N r" "ps_state r = PS_VALUE" "ps_frames r = ?f\<lparr>fr_expect := EXPECT_ELEM\<rparr> # rest" by auto
    have "\<exists>q. (\<forall>cs. oi_json_parser_feed strtod r (comma_join (map (render fmt) vs) @ 0x5D # cs)
          = oi_json_parser_feed strtod q (0x5D # cs))
      \<and> ps_room N q \<and> ps_state q = PS_VALUE
      \<and> ps_frames q = ?f\<lparr>fr_expect := EXPECT_ELEM\<rparr>\<lparr>fr_container := JSON_ARRAY ((items @ [v]) @ vs)
          (value_cap (length ((items @ [v]) @ vs))), fr_expect := EXPECT_COMMA_OR_CLOSE\<rparr> # rest"
      by (rule Cons.IH [OF False r(2-4)]) (use Cons.prems in simp_all)
    then obtain q2 where "\<And>cs. oi_json_parser_feed strtod r (comma_join (map (render fmt) vs) @ 0x5D # cs)
          = oi_json_parser_feed strtod q2 (0x5D # cs)"
      "ps_room N q2 \<and> ps_state q2 = PS_VALUE \<and> ps_frames q2 = f\<lparr>fr_container := JSON_ARRAY (items @ v # vs)
          (value_cap (length (items @ v # vs))), fr_expect := EXPECT_COMMA_OR_CLOSE\<rparr> # rest"
      by (auto simp del: value_cap.simps)
    with q(1) r(1) False show ?thesis
      by (intro exI [of _ q2]) (simp add: comma_join_Cons)
  qed
qed simp

lemma read_key:
  assumes r: "ps_room N p" "ps_state p = PS_VALUE" "ps_frames p = f # rest"
    and o: "fr_kind f = FRAME_OBJECT" "fr_expect f = EXPECT_ELEM_OR_CLOSE \<or> fr_expect f = EXPECT_ELEM"
    and N: "length k + 4 \<le> N" "N \<le> size_max div 2"
  shows "\<exists>q. (\<forall>cs. oi_json_parser_feed strtod p (quote k @ 0x3A # cs) = oi_json_parser_feed strtod q cs)
    \<and> ps_room N q \<and> ps_state q = PS_VALUE
    \<and> ps_frames q = f\<lparr>fr_pending_key := k, fr_expect := EXPECT_VALUE\<rparr> # rest"
proof -
  have due: "key_due p" using r(3) o by (auto simp: key_due_def)
  have dis: "oi_json_parser_feed strtod p (0x22 # cs) = continue_feed strtod cs (dispatch_value_start p 0x22)" for cs
    using r(2,3) o by (auto simp: feed_value process_between_tokens_def is_ws_def Let_def)
  from read_quoted [OF r(1,2) dis, of k] N obtain q where
    q: "\<And>cs. oi_json_parser_feed strtod p (quote k @ cs) = continue_feed strtod cs (finalize_string_value q)"
      "in_string N (p\<lparr>parsing_key := key_due p\<rparr>) k q" by auto
  from q(2) due r(3) have s: "parsing_key q" "ps_frames q = f # rest" "str_buf q = k" "roomy N (ps_arena q)"
    "ps_heap q = heap_ok"
    by (auto simp: in_string_def same_frames_def ps_room_def)
  obtain a where a: "arena_take (ps_arena q) (length k + 1) = (True, a)" "roomy N a"
    using roomy_take [OF s(4), of "length k + 1"] N(1) by auto
  let ?q1 = "set_top (q\<lparr>ps_arena := a, ps_state := PS_VALUE\<rparr>) (f\<lparr>fr_pending_key := k, fr_expect := EXPECT_COLON\<rparr>)"
  have "finalize_string_value q = (OI_OK, ?q1)"
    using s a by (simp add: finalize_string_value_def attach_completed_key_def)
  then have 1: "oi_json_parser_feed strtod p (quote k @ cs) = oi_json_parser_feed strtod ?q1 cs" for cs
    using q(1) by simp
  let ?q2 = "set_top ?q1 (f\<lparr>fr_pending_key := k, fr_expect := EXPECT_VALUE\<rparr>)"
  have 2: "oi_json_parser_feed strtod ?q1 (0x3A # cs) = oi_json_parser_feed strtod ?q2 cs" for cs
    by (simp add: set_top_def feed_value process_between_tokens_def is_ws_def Let_def)
  have 3: "oi_json_parser_feed strtod p ((quote k @ [0x3A]) @ cs) = oi_json_parser_feed strtod ?q2 cs" for cs
    by (simp only: append_assoc append_Cons append_Nil 1 2)
  have "ps_room N ?q2" by (rule room_step [OF r(1) 3]) (use s a in \<open>simp_all add: set_top_def\<close>)
  with 3 s(2) show ?thesis by (intro exI [of _ ?q2]) (simp add: set_top_def)
qed

lemma read_object_loop:
  assumes IH: "\<And>k v p. (k, v) \<in> set ms \<Longrightarrow> value_due N p \<Longrightarrow> length (ps_frames p) = Suc (length rest) \<Longrightarrow>
      reads strtod N (render fmt v) v p"
  shows "ms \<noteq> [] \<Longrightarrow> ps_room N p \<Longrightarrow> ps_state p = PS_VALUE \<Longrightarrow> ps_frames p = f # rest \<Longrightarrow>
    fr_kind f = FRAME_OBJECT \<Longrightarrow> fr_container f = JSON_OBJECT ms0 \<Longrightarrow>
    fr_expect f = EXPECT_ELEM_OR_CLOSE \<or> fr_expect f = EXPECT_ELEM \<Longrightarrow>
    \<forall>m \<in> set ms. length (fst m) + 4 \<le> N \<Longrightarrow> N \<le> size_max div 2 \<Longrightarrow>
    \<exists>q. (\<forall>cs. oi_json_parser_feed strtod p (comma_join (map (member_text fmt) ms) @ 0x7D # cs)
          = oi_json_parser_feed strtod q (0x7D # cs))
      \<and> ps_room N q \<and> ps_state q = PS_VALUE
      \<and> ps_frames q = f\<lparr>fr_container := JSON_OBJECT (ms0 @ ms), fr_pending_key := [],
                        fr_expect := EXPECT_COMMA_OR_CLOSE\<rparr> # rest"
  using IH
proof (induction ms arbitrary: p f ms0)
  case (Cons m ms)
  obtain k v where m: "m = (k, v)" by fastforce
  have kN: "length k + 4 \<le> N" using Cons.prems(8) m by simp
  from read_key [OF Cons.prems(2-5,7) kN Cons.prems(9), of strtod] obtain p1 where
    1: "\<And>cs. oi_json_parser_feed strtod p (quote k @ 0x3A # cs) = oi_json_parser_feed strtod p1 cs"
      "ps_room N p1" "ps_state p1 = PS_VALUE"
      "ps_frames p1 = f\<lparr>fr_pending_key := k, fr_expect := EXPECT_VALUE\<rparr> # rest" by blast
  have due: "value_due N p1" using 1 Cons.prems(5,6) kN by (simp add: value_due_def)
  have "reads strtod N (render fmt v) v p1" using Cons.prems(10) [of k v, OF _ due] 1(4) m by simp
  then obtain q where q: "\<And>c cs. \<not> is_number_continuation c \<Longrightarrow>
      oi_json_parser_feed strtod p1 (render fmt v @ c # cs) = oi_json_parser_feed strtod q (c # cs)"
    "attached N (ps_frames p1) v q" by (auto simp: reads_def)
  let ?f = "f\<lparr>fr_container := JSON_OBJECT (ms0 @ [(k, v)]), fr_pending_key := [],
    fr_expect := EXPECT_COMMA_OR_CLOSE\<rparr>"
  from q(2) 1(4) Cons.prems(6) have q': "ps_room N q" "ps_state q = PS_VALUE" "ps_frames q = ?f # rest"
    by (simp_all add: attached_def)
  show ?case
  proof (cases "ms = []")
    case True
    with 1(1) q(1) q' show ?thesis unfolding m by (intro exI [of _ q]) simp
  next
    case False
    from read_comma [OF q', of strtod] obtain r where r: "\<And>cs. oi_json_parser_feed strtod q (0x2C # cs) = oi_json_parser_feed strtod r cs"
      "ps_room N r" "ps_state r = PS_VALUE" "ps_frames r = ?f\<lparr>fr_expect := EXPECT_ELEM\<rparr> # rest" by auto
    have "\<exists>q. (\<forall>cs. oi_json_parser_feed strtod r (comma_join (map (member_text fmt) ms) @ 0x7D # cs)
          = oi_json_parser_feed strtod q (0x7D # cs))
      \<and> ps_room N q \<and> ps_state q = PS_VALUE
      \<and> ps_frames q = ?f\<lparr>fr_expect := EXPECT_ELEM\<rparr>\<lparr>fr_container := JSON_OBJECT ((ms0 @ [(k, v)]) @ ms),
          fr_pending_key := [], fr_expect := EXPECT_COMMA_OR_CLOSE\<rparr> # rest"
    proof (rule Cons.IH [OF False r(2-4)])
      show "\<And>k v p. (k, v) \<in> set ms \<Longrightarrow> value_due N p \<Longrightarrow> length (ps_frames p) = Suc (length rest) \<Longrightarrow>
        reads strtod N (render fmt v) v p" using Cons.prems(10) by (meson list.set_intros(2))
    qed (use Cons.prems in simp_all)
    then obtain q2 where "\<And>cs. oi_json_parser_feed strtod r (comma_join (map (member_text fmt) ms) @ 0x7D # cs)
          = oi_json_parser_feed strtod q2 (0x7D # cs)"
      "ps_room N q2 \<and> ps_state q2 = PS_VALUE \<and> ps_frames q2 = f\<lparr>fr_container := JSON_OBJECT (ms0 @ (k, v) # ms),
          fr_pending_key := [], fr_expect := EXPECT_COMMA_OR_CLOSE\<rparr> # rest"
      by auto
    with 1(1) q(1) r(1) False show ?thesis unfolding m
      by (intro exI [of _ q2]) (simp add: comma_join_Cons)
  qed
qed simp

section \<open>Every written value is read back\<close>

fun json_depth :: "oi_json_value \<Rightarrow> nat" where
  "json_depth (JSON_ARRAY vs c) = Suc (fold max (map json_depth vs) 0)"
| "json_depth (JSON_OBJECT ms) = Suc (fold max (map (\<lambda>m. json_depth (snd m)) ms) 0)"
| "json_depth _ = 0"

lemma fold_max_ge: "x \<in> set xs \<or> x \<le> a \<Longrightarrow> x \<le> fold max xs (a :: nat)"
  by (induction xs arbitrary: a) (auto simp: le_max_iff_disj)

text \<open>What the code relies on in the C library: \<open>%.17g\<close> prints a finite number as a JSON number of
  fewer than 64 bytes that \<open>strtod\<close> reads back exactly.\<close>

definition printf_strtod_roundtrip :: "fmt \<Rightarrow> strtod \<Rightarrow> bool" where
  "printf_strtod_roundtrip fmt strtod \<longleftrightarrow> (\<forall>d. isfinite d \<longrightarrow> number_text strtod d (fmt d))"

lemma comma_join_length: "x \<in> set xs \<Longrightarrow> length x \<le> length (comma_join xs)"
  by (induction xs) (auto simp: comma_join_Cons)

lemma comma_join_count: "length xs \<le> length (comma_join xs) + 1"
  by (induction xs) (auto simp: comma_join_Cons)

lemma open_close: "0x5D = close_char FRAME_ARRAY" "0x7D = close_char FRAME_OBJECT"
  "0x5B = open_char FRAME_ARRAY" "0x7B = open_char FRAME_OBJECT"
  by (simp_all add: open_char_def close_char_def)

lemma reads_scalar:
  "(\<exists>q. (\<forall>cs. oi_json_parser_feed strtod p (t @ cs) = oi_json_parser_feed strtod q cs)
    \<and> attached N (ps_frames p) v q) \<Longrightarrow> reads strtod N t v p"
  by (auto simp: reads_def)

text \<open>A container: the bracket, its contents if any, the closing bracket.\<close>

lemma reads_container:
  assumes d: "value_due N p" and N: "32 \<le> N" and dp: "length (ps_frames p) < oi_json_max_depth"
    and v: "fr_container f = v" "fr_kind f = k" "fr_expect f = EXPECT_COMMA_OR_CLOSE \<or> fr_expect f = EXPECT_ELEM_OR_CLOSE"
    and loop: "\<And>p1. ps_room N p1 \<Longrightarrow> ps_state p1 = PS_VALUE \<Longrightarrow> ps_frames p1 = new_frame k # ps_frames p \<Longrightarrow>
      \<exists>q. (\<forall>cs. oi_json_parser_feed strtod p1 (body @ close_char k # cs) = oi_json_parser_feed strtod q (close_char k # cs))
        \<and> ps_room N q \<and> ps_state q = PS_VALUE \<and> ps_frames q = f # ps_frames p"
  shows "\<exists>q. (\<forall>cs. oi_json_parser_feed strtod p ((open_char k # body @ [close_char k]) @ cs) = oi_json_parser_feed strtod q cs)
    \<and> attached N (ps_frames p) v q"
proof -
  from read_open [OF d N dp, of strtod k] obtain p1 where
    1: "\<And>cs. oi_json_parser_feed strtod p (open_char k # cs) = oi_json_parser_feed strtod p1 cs"
      "ps_room N p1" "ps_state p1 = PS_VALUE" "ps_frames p1 = new_frame k # ps_frames p" by blast
  from loop [OF 1(2-4)] obtain q where
    q: "\<And>cs. oi_json_parser_feed strtod p1 (body @ close_char k # cs) = oi_json_parser_feed strtod q (close_char k # cs)"
      "ps_room N q" "ps_state q = PS_VALUE" "ps_frames q = f # ps_frames p" by blast
  have up: "ps_frames p \<noteq> [] \<Longrightarrow> fr_room N (hd (ps_frames p))"
    using d by (auto simp: value_due_def split: list.splits)
  from read_close [OF q(2-4) N v(3) up, of strtod] obtain r where
    "\<And>cs. oi_json_parser_feed strtod q (close_char k # cs) = oi_json_parser_feed strtod r cs"
    "attached N (ps_frames p) v r" unfolding v(1,2) by blast
  with 1(1) q(1) show ?thesis by (intro exI [of _ r]) simp
qed

lemma array_reads:
  assumes d: "value_due N p" and N32: "32 \<le> N" and dp: "length (ps_frames p) < oi_json_max_depth"
    and sub: "\<And>v p1. v \<in> set vs \<Longrightarrow> value_due N p1 \<Longrightarrow> length (ps_frames p1) = Suc (length (ps_frames p)) \<Longrightarrow>
      reads strtod N (render fmt v) v p1"
    and cnt: "16 * length vs + 32 \<le> N"
  shows "reads strtod N (render fmt (JSON_ARRAY vs (value_cap (length vs)))) (JSON_ARRAY vs (value_cap (length vs))) p"
proof -
  let ?v = "JSON_ARRAY vs (value_cap (length vs))"
  let ?f = "(new_frame FRAME_ARRAY)\<lparr>fr_container := ?v,
    fr_expect := (if vs = [] then EXPECT_ELEM_OR_CLOSE else EXPECT_COMMA_OR_CLOSE)\<rparr>"
  have "\<exists>q. (\<forall>cs. oi_json_parser_feed strtod p ((open_char FRAME_ARRAY # comma_join (map (render fmt) vs)
        @ [close_char FRAME_ARRAY]) @ cs) = oi_json_parser_feed strtod q cs)
    \<and> attached N (ps_frames p) ?v q"
  proof (rule reads_container [OF d N32 dp, where f = ?f])
    fix p1 assume p1: "ps_room N p1" "ps_state p1 = PS_VALUE" "ps_frames p1 = new_frame FRAME_ARRAY # ps_frames p"
    show "\<exists>q. (\<forall>cs. oi_json_parser_feed strtod p1 (comma_join (map (render fmt) vs) @ close_char FRAME_ARRAY # cs)
          = oi_json_parser_feed strtod q (close_char FRAME_ARRAY # cs))
        \<and> ps_room N q \<and> ps_state q = PS_VALUE \<and> ps_frames q = ?f # ps_frames p"
    proof (cases "vs = []")
      case True
      then show ?thesis using p1 by (intro exI [of _ p1]) (simp add: new_frame_def)
    next
      case False
      have n: "fr_kind (new_frame FRAME_ARRAY) = FRAME_ARRAY"
        "fr_container (new_frame FRAME_ARRAY) = JSON_ARRAY [] (value_cap (length ([] :: oi_json_value list)))"
        "fr_expect (new_frame FRAME_ARRAY) = EXPECT_ELEM_OR_CLOSE \<or> fr_expect (new_frame FRAME_ARRAY) = EXPECT_ELEM"
        "16 * (length ([] :: oi_json_value list) + length vs) + 32 \<le> N"
        using cnt by (simp_all add: new_frame_def)
      from read_array_loop [OF sub False p1(1,2,3) n] False
      show ?thesis by (simp only: open_close append_Nil if_False simp_thms)
    qed
  qed (simp_all add: new_frame_def)
  then have "reads strtod N (open_char FRAME_ARRAY # comma_join (map (render fmt) vs) @ [close_char FRAME_ARRAY]) ?v p"
    by (rule reads_scalar)
  then show ?thesis by (simp only: render.simps open_close)
qed

lemma object_reads:
  assumes d: "value_due N p" and N: "32 \<le> N" "N \<le> size_max div 2"
    and dp: "length (ps_frames p) < oi_json_max_depth"
    and sub: "\<And>k v p1. (k, v) \<in> set ms \<Longrightarrow> value_due N p1 \<Longrightarrow> length (ps_frames p1) = Suc (length (ps_frames p)) \<Longrightarrow>
      reads strtod N (render fmt v) v p1"
    and keys: "\<forall>m \<in> set ms. length (fst m) + 4 \<le> N"
  shows "reads strtod N (render fmt (JSON_OBJECT ms)) (JSON_OBJECT ms) p"
proof -
  let ?f = "(new_frame FRAME_OBJECT)\<lparr>fr_container := JSON_OBJECT ms, fr_pending_key := [],
    fr_expect := (if ms = [] then EXPECT_ELEM_OR_CLOSE else EXPECT_COMMA_OR_CLOSE)\<rparr>"
  have "\<exists>q. (\<forall>cs. oi_json_parser_feed strtod p ((open_char FRAME_OBJECT # comma_join (map (member_text fmt) ms)
        @ [close_char FRAME_OBJECT]) @ cs) = oi_json_parser_feed strtod q cs)
    \<and> attached N (ps_frames p) (JSON_OBJECT ms) q"
  proof (rule reads_container [OF d N(1) dp, where f = ?f])
    fix p1 assume p1: "ps_room N p1" "ps_state p1 = PS_VALUE" "ps_frames p1 = new_frame FRAME_OBJECT # ps_frames p"
    show "\<exists>q. (\<forall>cs. oi_json_parser_feed strtod p1 (comma_join (map (member_text fmt) ms) @ close_char FRAME_OBJECT # cs)
          = oi_json_parser_feed strtod q (close_char FRAME_OBJECT # cs))
        \<and> ps_room N q \<and> ps_state q = PS_VALUE \<and> ps_frames q = ?f # ps_frames p"
    proof (cases "ms = []")
      case True
      then show ?thesis using p1 by (intro exI [of _ p1]) (simp add: new_frame_def)
    next
      case False
      have n: "fr_kind (new_frame FRAME_OBJECT) = FRAME_OBJECT"
        "fr_container (new_frame FRAME_OBJECT) = JSON_OBJECT []"
        "fr_expect (new_frame FRAME_OBJECT) = EXPECT_ELEM_OR_CLOSE \<or> fr_expect (new_frame FRAME_OBJECT) = EXPECT_ELEM"
        by (simp_all add: new_frame_def)
      from read_object_loop [OF sub False p1(1,2,3) n keys N(2)] False
      show ?thesis by (simp only: open_close append_Nil if_False simp_thms)
    qed
  qed (simp_all add: new_frame_def)
  then have "reads strtod N (open_char FRAME_OBJECT # comma_join (map (member_text fmt) ms) @ [close_char FRAME_OBJECT])
      (JSON_OBJECT ms) p"
    by (rule reads_scalar)
  then show ?thesis by (simp only: render.simps open_close)
qed

text \<open>
  The single allocations that reading a value takes: \<open>fits N v\<close> says that none is above \<open>N\<close> bytes.
\<close>

fun fits :: "nat \<Rightarrow> oi_json_value \<Rightarrow> bool" where
  "fits N (JSON_STRING s) \<longleftrightarrow> length s + 4 \<le> N"
| "fits N (JSON_ARRAY vs c) \<longleftrightarrow> 16 * length vs + 32 \<le> N \<and> (\<forall>v \<in> set vs. fits N v)"
| "fits N (JSON_OBJECT ms) \<longleftrightarrow> (\<forall>m \<in> set ms. length (fst m) + 4 \<le> N \<and> fits N (snd m))"
| "fits N _ \<longleftrightarrow> True"

lemma member_in_text:
  assumes "m \<in> set ms"
  shows "length (quote (fst m)) + 1 + length (render fmt (snd m)) \<le> length (comma_join (map (member_text fmt) ms))"
  using comma_join_length [of "member_text fmt m" "map (member_text fmt) ms"] assms
  by (cases m) (simp add: rev_image_eqI)

lemma fits_of_length: "16 * length (render fmt v) + 64 \<le> N \<Longrightarrow> fits N v"
proof (induction v)
  case (JSON_STRING s)
  then show ?case using quote_length [of s] by simp
next
  case (JSON_ARRAY vs c)
  have "fits N v" if "v \<in> set vs" for v
    by (rule JSON_ARRAY.IH [OF that])
       (use comma_join_length [of "render fmt v" "map (render fmt) vs"] that JSON_ARRAY.prems in simp)
  moreover have "16 * length vs + 32 \<le> N"
    using comma_join_count [of "map (render fmt) vs"] JSON_ARRAY.prems by simp
  ultimately show ?case by simp
next
  case (JSON_OBJECT ms)
  have "length (fst m) + 4 \<le> N \<and> fits N (snd m)" if m: "m \<in> set ms" for m
  proof
    note l = member_in_text [OF m, of fmt]
    show "length (fst m) + 4 \<le> N" using l quote_length [of "fst m"] JSON_OBJECT.prems by simp
    show "fits N (snd m)"
      by (rule JSON_OBJECT.IH [OF m]) (use l JSON_OBJECT.prems in \<open>cases m; simp\<close>)+
  qed
  then show ?case by simp
qed simp_all

lemma value_reads:
  assumes F: "printf_strtod_roundtrip fmt strtod" and N: "N \<le> size_max div 2" "32 \<le> N"
  shows "writable fmt v \<Longrightarrow> value_due N p \<Longrightarrow> length (ps_frames p) + json_depth v \<le> oi_json_max_depth \<Longrightarrow>
    fits N v \<Longrightarrow> reads strtod N (render fmt v) v p"
proof (induction v arbitrary: p)
  case JSON_NULL
  then show ?case using N(2) by (intro reads_scalar read_literal) simp_all
next
  case (JSON_BOOL b)
  then show ?case using N(2) by (intro reads_scalar read_literal) simp_all
next
  case (JSON_NUMBER d)
  then have "number_text strtod d (fmt d)" using F by (simp add: printf_strtod_roundtrip_def)
  with JSON_NUMBER N(2) show ?case unfolding reads_def render.simps by (intro read_number_delim) simp_all
next
  case (JSON_STRING s)
  with N show ?case unfolding render.simps by (intro reads_scalar read_string) simp_all
next
  case (JSON_ARRAY vs c)
  have c: "c = value_cap (length vs)" using JSON_ARRAY.prems(1) by simp
  show ?case unfolding c
  proof (rule array_reads [OF JSON_ARRAY.prems(2) N(2)])
    fix v p1
    assume v: "v \<in> set vs" "value_due N p1" "length (ps_frames p1) = Suc (length (ps_frames p))"
    show "reads strtod N (render fmt v) v p1"
    proof (rule JSON_ARRAY.IH [OF v(1) _ v(2)])
      have "json_depth v \<le> fold max (map json_depth vs) 0" using v(1) by (intro fold_max_ge) simp
      then show "length (ps_frames p1) + json_depth v \<le> oi_json_max_depth"
        using JSON_ARRAY.prems(3) v(3) by simp
      show "fits N v" "writable fmt v" using JSON_ARRAY.prems(1,4) v(1) by simp_all
    qed
  qed (use JSON_ARRAY.prems(3,4) in simp_all)
next
  case (JSON_OBJECT ms)
  show ?case
  proof (rule object_reads [OF JSON_OBJECT.prems(2) N(2,1)])
    fix k v p1
    assume v: "(k, v) \<in> set ms" "value_due N p1" "length (ps_frames p1) = Suc (length (ps_frames p))"
    have vs: "v \<in> Basic_BNFs.snds (k, v)" by simp
    show "reads strtod N (render fmt v) v p1"
    proof (rule JSON_OBJECT.IH [OF v(1) vs _ v(2)])
      have "json_depth v \<in> set (map (\<lambda>m. json_depth (snd m)) ms)" using v(1) by force
      then have "json_depth v \<le> fold max (map (\<lambda>m. json_depth (snd m)) ms) 0" by (intro fold_max_ge) simp
      then show "length (ps_frames p1) + json_depth v \<le> oi_json_max_depth"
        using JSON_OBJECT.prems(3) v(3) by simp
      show "fits N v" "writable fmt v" using JSON_OBJECT.prems(1,4) v(1) by force+
    qed
  qed (use JSON_OBJECT.prems(3,4) in simp_all)
qed

text \<open>The end of the input confirms what a following space would have confirmed.\<close>

lemma finish_as_space:
  assumes inv: "json_inv p" and f: "oi_json_parser_feed strtod p [0x20] = (OI_OK, q)" and q: "ps_state q = PS_DONE"
  shows "oi_json_parser_finish strtod p = (OI_OK, q)"
proof (cases "ps_state p")
  case PS_NUMBER
  obtain st r where r: "finalize_number strtod p = (st, r)" by fastforce
  have sp: "is_ws 0x20" "\<not> is_number_continuation 0x20"
    by (simp_all add: is_ws_def is_number_continuation_def is_digit_def)
  have s: "json_step strtod p 0x20 = (st, r, False)"
    using PS_NUMBER sp r by (simp add: json_step_def handle_number_byte_def)
  with f have "st = OI_OK" "oi_json_parser_feed strtod r [0x20] = (OI_OK, q)"
    by (simp_all add: oi_json_parser_feed.simps split: if_splits)
  moreover from this(1) s have "ps_state r = PS_DONE \<or> ps_state r = PS_VALUE"
    using json_reprocess by blast
  ultimately have "r = q" using q sp
    by (auto simp: oi_json_parser_feed.simps json_step_def process_between_tokens_def)
  with r \<open>st = OI_OK\<close> q PS_NUMBER show ?thesis by (simp add: oi_json_parser_finish_def)
next
  case PS_DONE
  with f show ?thesis
    by (simp add: oi_json_parser_feed.simps json_step_def is_ws_def oi_json_parser_finish_def)
next
  case PS_VALUE
  with f q show ?thesis
    by (simp add: feed_value process_between_tokens_def is_ws_def)
next
  case PS_STRING
  then have "ps_state q = PS_STRING \<or> ps_state q = PS_ERROR" using f
    by (auto simp: feed_string handle_string_byte_def str_buf_append_byte_def str_buf_append_bytes_def
        str_buf_reserve_def ps_fail_def Let_def split: prod.splits if_splits option.splits)
  with q show ?thesis by simp
next
  case PS_STRING_ESCAPE
  with f show ?thesis
    by (simp add: feed_escape handle_string_escape_byte_def escape_map_def ps_fail_def split: if_splits)
next
  case PS_STRING_UNICODE
  with f show ?thesis
    by (simp add: feed_unicode handle_string_unicode_byte_def hex_digit_def ps_fail_def)
next
  case PS_LITERAL
  with inv have l: "literal_ok p" by (simp add: json_inv_def)
  then have "char_at (ps_literal p) (ps_literal_index p) \<in> set (ps_literal p)"
    by (simp add: literal_ok_def char_at_def)
  with l have "char_at (ps_literal p) (ps_literal_index p) \<noteq> 0x20"
    by (auto simp: literal_ok_def bytes_of_def)
  with f PS_LITERAL show ?thesis by (auto simp: feed_literal handle_literal_byte_def ps_fail_def)
next
  case PS_ERROR
  with f show ?thesis by (simp add: oi_json_parser_feed.simps json_step_def)
qed

lemma roomy_mono: "roomy N a \<Longrightarrow> M \<le> N \<Longrightarrow> roomy M a"
  by (simp add: roomy_def)

lemma value_read_back:
  assumes F: "printf_strtod_roundtrip fmt strtod"
    and r: "ps_room N p0" "ps_state p0 = PS_VALUE" "ps_frames p0 = []" and N: "N \<le> size_max div 2" "32 \<le> N"
    and v: "writable fmt v" "json_depth v \<le> oi_json_max_depth" "fits N v"
  shows "\<exists>p q. oi_json_parser_feed strtod p0 (render fmt v) = (OI_OK, p)
    \<and> oi_json_parser_finish strtod p = (OI_OK, q) \<and> oi_json_parser_root q = Some v \<and> ps_room N q"
proof -
  have "value_due N p0" using r by (simp add: value_due_def)
  from value_reads [OF F N v(1) this] v(2,3) r(3) obtain q where
    "\<And>c cs. \<not> is_number_continuation c \<Longrightarrow>
       oi_json_parser_feed strtod p0 (render fmt v @ c # cs) = oi_json_parser_feed strtod q (c # cs)"
    and q: "ps_state q = PS_DONE" "ps_root q = Some v" "ps_room N q"
    by (auto simp: reads_def attached_def)
  from this(1) [of "0x20" "[]"] q(1)
  have f: "oi_json_parser_feed strtod p0 (render fmt v @ [0x20]) = (OI_OK, q)"
    by (simp add: is_number_continuation_def is_digit_def oi_json_parser_feed.simps json_step_def is_ws_def)
  then obtain p where p: "oi_json_parser_feed strtod p0 (render fmt v) = (OI_OK, p)"
    "oi_json_parser_feed strtod p [0x20] = (OI_OK, q)"
    by (auto simp: json.feed_append split: prod.splits if_splits)
  have "json_inv p" using feed_json_inv' [OF _ p(1)] r(1) by (simp add: ps_room_def)
  from finish_as_space [OF this p(2) q(1)] p(1) q show ?thesis
    by (auto simp: oi_json_parser_root_def)
qed

lemma json_read_back:
  assumes F: "printf_strtod_roundtrip fmt strtod"
    and p0: "oi_json_parser_create heap_ok a = Some p0"
    and a: "roomy N a" "N \<le> size_max div 2" "32 \<le> N"
    and v: "writable fmt v" "json_depth v \<le> oi_json_max_depth" "fits N v"
  shows "\<exists>p q. oi_json_parser_feed strtod p0 (render fmt v) = (OI_OK, p)
    \<and> oi_json_parser_finish strtod p = (OI_OK, q) \<and> oi_json_parser_root q = Some v"
proof -
  from create_room [OF a(1)] p0 have "ps_room N p0" "ps_state p0 = PS_VALUE" "ps_frames p0 = []" by auto
  from value_read_back [OF F this a(2,3) v] show ?thesis by blast
qed

text \<open>
  C1. Round trip. When memory lasts, a value of finite numbers nested at most 1000 deep that is written
  with the writer and fed to the parser comes back as it was. The C library is assumed to print finite
  doubles as JSON numbers that \<open>strtod\<close> reads back exactly.
\<close>

theorem json_roundtrip:
  assumes "printf_strtod_roundtrip fmt strtod"
    and "oi_json_writer_create heap_ok = Some w0" and "oi_json_parser_create heap_ok a = Some p0"
    and "roomy (16 * length (render fmt v) + 64) a"
    and "writable fmt v" and "json_depth v \<le> oi_json_max_depth" and "length (render fmt v) \<le> text_limit"
  shows "\<exists>w p q. write_calls fmt w0 (ops_of v) = (OI_OK, w)
    \<and> oi_json_parser_feed strtod p0 (oi_json_writer_data w) = (OI_OK, p)
    \<and> oi_json_parser_finish strtod p = (OI_OK, q) \<and> oi_json_parser_root q = Some v"
proof -
  have "16 * length (render fmt v) + 64 \<le> size_max div 2" using assms(7) by (simp add: text_limit_def size_max_def)
  from written_value [OF assms(2,5,7)] json_read_back [OF assms(1,3,4) this _ assms(5,6) fits_of_length]
  show ?thesis by fastforce
qed

text \<open>An instance of the assumption on the C library: the bit pattern as a decimal number.\<close>

fun decimal :: "nat \<Rightarrow> bytes" where
  "decimal n = (if n < 10 then [word_of_nat (0x30 + n)] else decimal (n div 10) @ [word_of_nat (0x30 + n mod 10)])"

declare decimal.simps [simp del]

definition of_decimal :: "bytes \<Rightarrow> nat" where
  "of_decimal ds = foldl (\<lambda>n d. 10 * n + (unat d - 0x30)) 0 ds"

lemma digit_word: "n < 10 \<Longrightarrow> unat (word_of_nat (0x30 + n) :: byte) = 0x30 + n"
  by (rule unat_small) simp

lemma digit_word_is_digit: "n < 10 \<Longrightarrow> is_digit (word_of_nat (0x30 + n))"
  using digit_word [of n] by (simp only: is_digit_def word_le_nat_alt) simp

lemma decimal_correct: "of_decimal (decimal n) = n \<and> digits1 (decimal n) \<and> (0 < n \<longrightarrow> hd (decimal n) \<noteq> 0x30)"
proof (induction n rule: decimal.induct)
  case (1 n)
  show ?case
  proof (cases "n < 10")
    case True
    have "word_of_nat (0x30 + n) \<noteq> (0x30 :: byte)" if "0 < n"
      using digit_word [OF True] that by (auto simp: word_unat_eq_iff simp del: of_nat_add)
    with True digit_word [OF True] digit_word_is_digit [OF True] show ?thesis
      by (subst (1 2 3) decimal.simps) (simp add: of_decimal_def digits1_def del: of_nat_add)
  next
    case False
    then have IH: "of_decimal (decimal (n div 10)) = n div 10" "digits1 (decimal (n div 10))"
      "hd (decimal (n div 10)) \<noteq> 0x30" using 1 by auto
    have m: "n mod 10 < 10" by simp
    have "10 * (n div 10) + n mod 10 = n" by simp
    with False IH digit_word [OF m] digit_word_is_digit [OF m] show ?thesis
      by (subst (1 2 3) decimal.simps) (auto simp: of_decimal_def digits1_def simp del: of_nat_add)
  qed
qed

lemma decimal_length: "n < 10 ^ k \<Longrightarrow> 0 < k \<Longrightarrow> length (decimal n) \<le> k"
proof (induction k arbitrary: n)
  case (Suc k)
  show ?case
  proof (cases "n < 10")
    case True
    then show ?thesis by (subst decimal.simps) simp
  next
    case False
    with Suc.prems have "n div 10 < 10 ^ k" "0 < k"
      by (auto simp: less_mult_imp_div_less mult.commute intro: Nat.gr0I)
    with Suc.IH False show ?thesis by (subst decimal.simps) simp
  qed
qed simp

lemma decimal_roundtrip:
  "printf_strtod_roundtrip (\<lambda>d. decimal (unat d)) (\<lambda>t. (word_of_nat (of_decimal t), length t))"
proof -
  have "number_text (\<lambda>t. (word_of_nat (of_decimal t), length t)) d (decimal (unat d))" for d :: double
  proof -
    let ?t = "decimal (unat d)"
    have "unat d < 2 ^ LENGTH(64)" by (rule unsigned_less)
    then have "unat d < 10 ^ 20" by simp
    then have "length ?t \<le> 20" by (rule decimal_length) simp
    moreover have "int_part ?t"
    proof (cases "unat d = 0")
      case True
      then show ?thesis by (subst decimal.simps) (simp add: int_part_def)
    next
      case False
      with decimal_correct [of "unat d"] show ?thesis
        by (cases ?t) (auto simp: int_part_def digits1_def)
    qed
    then have "json_number ?t" unfolding json_number_def
      by (intro exI [of _ "[]"] exI [of _ ?t]) (auto simp: frac_part_def exp_part_def)
    ultimately show ?thesis using decimal_correct [of "unat d"] by (simp add: number_text_def)
  qed
  then show ?thesis by (simp add: printf_strtod_roundtrip_def)
qed

theorem json_roundtrip_witness:
  "\<exists>fmt strtod a w0 p0 w p q. oi_arena_create heap_ok 1024 = Some a
    \<and> oi_json_writer_create heap_ok = Some w0 \<and> oi_json_parser_create heap_ok a = Some p0
    \<and> write_calls fmt w0 (ops_of (JSON_ARRAY [JSON_STRING [0x0A], JSON_OBJECT [([], JSON_NULL)]] 4)) = (OI_OK, w)
    \<and> oi_json_parser_feed strtod p0 (oi_json_writer_data w) = (OI_OK, p)
    \<and> oi_json_parser_finish strtod p = (OI_OK, q)
    \<and> oi_json_parser_root q = Some (JSON_ARRAY [JSON_STRING [0x0A], JSON_OBJECT [([], JSON_NULL)]] 4)"
proof -
  let ?v = "JSON_ARRAY [JSON_STRING [0x0A], JSON_OBJECT [([], JSON_NULL)]] 4"
  obtain a where a: "oi_arena_create heap_ok 1024 = Some a" "roomy 1024 a" using fresh_arena by blast
  obtain p0 where p0: "oi_json_parser_create heap_ok a = Some p0" using create_room [OF a(2)] by blast
  obtain w0 where w0: "oi_json_writer_create heap_ok = Some w0" by (simp add: oi_json_writer_create_def)
  have r: "length (render (\<lambda>d. decimal (unat d)) ?v) = 16"
    by (simp add: quote_def escape_byte_def bytes_of_def)
  have "roomy (16 * length (render (\<lambda>d. decimal (unat d)) ?v) + 64) a"
    unfolding r by (rule roomy_mono [OF a(2)]) simp
  note rm = this
  have "\<exists>w p q. write_calls (\<lambda>d. decimal (unat d)) w0 (ops_of ?v) = (OI_OK, w)
    \<and> oi_json_parser_feed (\<lambda>t. (word_of_nat (of_decimal t), length t)) p0 (oi_json_writer_data w) = (OI_OK, p)
    \<and> oi_json_parser_finish (\<lambda>t. (word_of_nat (of_decimal t), length t)) p = (OI_OK, q)
    \<and> oi_json_parser_root q = Some ?v"
    by (rule json_roundtrip [OF decimal_roundtrip w0 p0 rm])
       (simp_all only: r, simp_all add: text_limit_def size_max_def oi_json_max_depth_def)
  with a(1) p0 w0 show ?thesis by blast
qed

end
