(* ===== verification/Sse.thy ===== *)
theory Sse
  imports Prelude
begin

text \<open>
  \<open>src/llm_sse.c\<close>: the splitter of an event stream into \<open>data:\<close> payloads. The callback is a function
  from the client's state and a payload to its new state and whether it destroyed the parser
  (\<open>oi_llm_sse_parser_destroy\<close> from inside the callback), or \<open>None\<close> when no callback is set. A parser
  that was destroyed is \<open>None\<close>.
\<close>

definition oi_sse_max_line :: nat where
  "oi_sse_max_line = 1048576"

record oi_llm_sse_parser =
  sse_line :: bytes
  sse_cap :: nat
  sse_heap :: heap

type_synonym 'u sse_callback = "('u \<Rightarrow> bytes \<Rightarrow> 'u \<times> bool) option"

definition oi_llm_sse_parser_create :: "heap \<Rightarrow> oi_llm_sse_parser option" where
  "oi_llm_sse_parser_create h =
     (if \<not> shd h then None
      else if \<not> shd (stl h) then None
      else Some \<lparr>sse_line = [], sse_cap = 256, sse_heap = stl (stl h)\<rparr>)"

definition sse_line_append :: "oi_llm_sse_parser \<Rightarrow> byte \<Rightarrow> oi_status \<times> oi_llm_sse_parser" where
  "sse_line_append p c =
     (if length (sse_line p) \<ge> oi_sse_max_line then (OI_ERR_PARSE, p)
      else if length (sse_line p) = sse_cap p then
        (if \<not> shd (sse_heap p) then (OI_ERR_NOMEM, p\<lparr>sse_heap := stl (sse_heap p)\<rparr>)
         else (OI_OK, p\<lparr>sse_cap := min (sse_cap p * 2) oi_sse_max_line, sse_heap := stl (sse_heap p),
                        sse_line := sse_line p @ [c]\<rparr>))
      else (OI_OK, p\<lparr>sse_line := sse_line p @ [c]\<rparr>))"

text \<open>The payload of a line, when it is a \<open>data:\<close> line.\<close>

definition sse_payload :: "bytes \<Rightarrow> bytes option" where
  "sse_payload line =
     (if length line \<ge> 5 \<and> take 5 line = bytes_of ''data:'' then
        Some (if 5 < length line \<and> line ! 5 = 0x20 then drop 6 line else drop 5 line)
      else None)"

definition process_line :: "'u sse_callback \<Rightarrow> 'u \<Rightarrow> bytes \<Rightarrow> 'u \<times> bool" where
  "process_line cb u line =
     (case sse_payload line of
        None \<Rightarrow> (u, False)
      | Some d \<Rightarrow> (case cb of None \<Rightarrow> (u, False) | Some f \<Rightarrow> f u d))"

definition strip_cr :: "bytes \<Rightarrow> bytes" where
  "strip_cr line = (if line \<noteq> [] \<and> last line = 0x0D then butlast line else line)"

fun oi_llm_sse_parser_feed ::
  "'u sse_callback \<Rightarrow> oi_llm_sse_parser \<Rightarrow> 'u \<Rightarrow> bytes \<Rightarrow> oi_status \<times> oi_llm_sse_parser option \<times> 'u" where
  "oi_llm_sse_parser_feed cb p u [] = (OI_OK, Some p, u)"
| "oi_llm_sse_parser_feed cb p u (c # cs) =
     (if c = 0x0A then
        (case process_line cb u (strip_cr (sse_line p)) of
           (u', destroyed) \<Rightarrow>
             if destroyed then (OI_OK, None, u')
             else oi_llm_sse_parser_feed cb (p\<lparr>sse_line := []\<rparr>) u' cs)
      else (case sse_line_append p c of
              (st, p') \<Rightarrow> if st \<noteq> OI_OK then (st, Some p', u) else oi_llm_sse_parser_feed cb p' u cs))"

definition oi_llm_sse_parser_finish ::
  "'u sse_callback \<Rightarrow> oi_llm_sse_parser \<Rightarrow> 'u \<Rightarrow> oi_status \<times> oi_llm_sse_parser option \<times> 'u" where
  "oi_llm_sse_parser_finish cb p u =
     (if sse_line p = [] then (OI_OK, Some p, u)
      else (case process_line cb u (sse_line p) of
              (u', destroyed) \<Rightarrow> if destroyed then (OI_OK, None, u') else (OI_OK, Some (p\<lparr>sse_line := []\<rparr>), u')))"

section \<open>As a byte machine\<close>

text \<open>The same loop as a step over the parser, if it still exists, and the client's state.\<close>

definition sse_step ::
  "'u sse_callback \<Rightarrow> oi_llm_sse_parser option \<times> 'u \<Rightarrow> byte \<Rightarrow> oi_status \<times> (oi_llm_sse_parser option \<times> 'u) \<times> bool" where
  "sse_step cb s c =
     (case s of
        (None, u) \<Rightarrow> (OI_OK, (None, u), True)
      | (Some p, u) \<Rightarrow>
          if c = 0x0A then
            (case process_line cb u (strip_cr (sse_line p)) of
               (u', destroyed) \<Rightarrow> (OI_OK, (if destroyed then None else Some (p\<lparr>sse_line := []\<rparr>), u'), True))
          else (case sse_line_append p c of (st, p') \<Rightarrow> (st, (Some p', u), True)))"

definition sse_feed ::
  "'u sse_callback \<Rightarrow> oi_llm_sse_parser option \<times> 'u \<Rightarrow> bytes \<Rightarrow> oi_status \<times> (oi_llm_sse_parser option \<times> 'u)" where
  "sse_feed cb s bs =
     (case s of (None, u) \<Rightarrow> (OI_OK, (None, u)) | (Some p, u) \<Rightarrow> oi_llm_sse_parser_feed cb p u bs)"

interpretation sse: byte_machine "sse_step cb" "sse_feed cb" for cb
  by unfold_locales
     (auto simp: sse_step_def sse_feed_def split: option.splits prod.splits if_splits)

section \<open>Specification\<close>

text \<open>The lines of a text: those that a newline ends, and the rest behind the last newline.\<close>

fun split_lines :: "bytes \<Rightarrow> bytes \<Rightarrow> bytes list \<times> bytes" where
  "split_lines line [] = ([], line)"
| "split_lines line (c # cs) =
     (if c = 0x0A then (case split_lines [] cs of (ls, r) \<Rightarrow> (line # ls, r))
      else split_lines (line @ [c]) cs)"

definition sse_events :: "bytes list \<Rightarrow> bytes list" where
  "sse_events ls = List.map_filter (sse_payload \<circ> strip_cr) ls"

text \<open>The client that records all payloads, and one that gives up after \<open>n\<close> of them.\<close>

definition sse_record :: "bytes list sse_callback" where
  "sse_record = Some (\<lambda>u d. (u @ [d], False))"

definition sse_cancel_after :: "nat \<Rightarrow> bytes list sse_callback" where
  "sse_cancel_after n = Some (\<lambda>u d. (u @ [d], n \<le> length u + 1))"

definition sse_inv :: "oi_llm_sse_parser \<Rightarrow> bool" where
  "sse_inv p \<longleftrightarrow> length (sse_line p) \<le> sse_cap p \<and> 256 \<le> sse_cap p \<and> sse_cap p \<le> oi_sse_max_line"

lemma sse_create_inv: "oi_llm_sse_parser_create h = Some p \<Longrightarrow> sse_inv p"
  by (auto simp: oi_llm_sse_parser_create_def sse_inv_def oi_sse_max_line_def split: if_splits)

lemma sse_append_inv: "sse_inv p \<Longrightarrow> sse_line_append p c = (st, p') \<Longrightarrow> sse_inv p'"
  by (auto simp: sse_line_append_def sse_inv_def oi_sse_max_line_def split: if_splits)

lemma sse_feed_inv:
  "sse_inv p \<Longrightarrow> oi_llm_sse_parser_feed cb p u bs = (st, Some p', u') \<Longrightarrow> sse_inv p'"
proof (induction cb p u bs rule: oi_llm_sse_parser_feed.induct)
  case (2 cb p u c cs)
  have "sse_inv (p\<lparr>sse_line := []\<rparr>)" using "2.prems"(1) by (simp add: sse_inv_def)
  with 2 show ?case
    by (auto split: if_splits prod.splits dest: sse_append_inv)
qed simp

lemma sse_append_ok:
  assumes "sse_inv p" "sse_heap p = heap_ok" "length (sse_line p) < oi_sse_max_line"
  shows "\<exists>p'. sse_line_append p c = (OI_OK, p') \<and> sse_line p' = sse_line p @ [c] \<and> sse_heap p' = heap_ok"
  using assms by (auto simp: sse_line_append_def)

lemma split_first: "\<exists>t. line @ t \<in> set (snd (split_lines line cs) # fst (split_lines line cs))"
proof (induction line cs rule: split_lines.induct)
  case (2 line c cs)
  show ?case
  proof (cases "c = 0x0A")
    case True
    then show ?thesis by (intro exI [of _ "[]"]) (simp split: prod.split)
  next
    case False
    with 2 obtain t where "(line @ [c]) @ t \<in> set (snd (split_lines (line @ [c]) cs) # fst (split_lines (line @ [c]) cs))"
      by blast
    with False show ?thesis by (intro exI [of _ "c # t"]) simp
  qed
qed (auto intro: exI [of _ "[]"])

text \<open>While lines are short enough and memory lasts, the recording client gets the payloads of the
  complete lines, and the rest stays in the line buffer.\<close>

lemma sse_feed_events:
  "sse_inv p \<Longrightarrow> sse_heap p = heap_ok \<Longrightarrow> split_lines (sse_line p) bs = (ls, r) \<Longrightarrow>
   \<forall>l \<in> set (r # ls). length l \<le> oi_sse_max_line \<Longrightarrow>
   \<exists>p'. oi_llm_sse_parser_feed sse_record p u bs = (OI_OK, Some p', u @ sse_events ls)
     \<and> sse_line p' = r \<and> sse_heap p' = heap_ok \<and> sse_inv p'"
proof (induction bs arbitrary: p u ls)
  case Nil
  then show ?case by (auto simp: sse_events_def map_filter_simps)
next
  case (Cons c cs)
  show ?case
  proof (cases "c = 0x0A")
    case True
    with Cons.prems(3) obtain ls' where l: "split_lines [] cs = (ls', r)" "ls = sse_line p # ls'"
      by (auto split: prod.splits)
    let ?p = "p\<lparr>sse_line := []\<rparr>"
    have "sse_inv ?p" using Cons.prems(1) by (simp add: sse_inv_def)
    let ?u = "case sse_payload (strip_cr (sse_line p)) of None \<Rightarrow> u | Some d \<Rightarrow> u @ [d]"
    from Cons.IH [of ?p ls' ?u] Cons.prems l \<open>sse_inv ?p\<close> True show ?thesis
      by (auto simp: sse_events_def map_filter_simps process_line_def sse_record_def split: option.splits)
  next
    case False
    with Cons.prems(3) have l: "split_lines (sse_line p @ [c]) cs = (ls, r)" by simp
    have "length (sse_line p) < oi_sse_max_line"
    proof -
      have "\<exists>t. (sse_line p @ [c]) @ t \<in> set (r # ls)" using l split_first [of "sse_line p @ [c]" cs] by simp
      then obtain t where "(sse_line p @ [c]) @ t \<in> set (r # ls)" ..
      with Cons.prems(4) have "length ((sse_line p @ [c]) @ t) \<le> oi_sse_max_line" by blast
      then show ?thesis by simp
    qed
    from sse_append_ok [OF Cons.prems(1,2) this, of c] obtain p' where
      p': "sse_line_append p c = (OI_OK, p')" "sse_line p' = sse_line p @ [c]" "sse_heap p' = heap_ok" by blast
    from Cons.IH [OF sse_append_inv [OF Cons.prems(1) p'(1)] p'(3)] l Cons.prems(4) p' False
    show ?thesis by simp
  qed
qed

section \<open>Framing\<close>

text \<open>How a server writes an event, and the payloads that survive it: no newline, no final carriage
  return.\<close>

definition sse_frame :: "bytes \<Rightarrow> bytes" where
  "sse_frame d = bytes_of ''data: '' @ d @ [0x0A, 0x0A]"

definition sse_data :: "bytes \<Rightarrow> bool" where
  "sse_data d \<longleftrightarrow> 0x0A \<notin> set d \<and> (d = [] \<or> last d \<noteq> 0x0D) \<and> length d + 6 \<le> oi_sse_max_line"

lemma split_lines_run:
  "0x0A \<notin> set xs \<Longrightarrow> split_lines line (xs @ cs) = split_lines (line @ xs) cs"
  by (induction xs arbitrary: line) auto

lemma frame_payload: "sse_data d \<Longrightarrow> (sse_payload \<circ> strip_cr) (bytes_of ''data: '' @ d) = Some d"
  by (auto simp: strip_cr_def sse_payload_def bytes_of_def sse_data_def)

lemma split_frames:
  "\<forall>d \<in> set ds. sse_data d \<Longrightarrow>
   \<exists>ls. split_lines [] (concat (map sse_frame ds)) = (ls, []) \<and> sse_events ls = ds
     \<and> (\<forall>l \<in> set ls. length l \<le> oi_sse_max_line)"
proof (induction ds)
  case (Cons d ds)
  then obtain ls where ls: "split_lines [] (concat (map sse_frame ds)) = (ls, [])" "sse_events ls = ds"
    "\<forall>l \<in> set ls. length l \<le> oi_sse_max_line" by auto
  let ?l = "bytes_of ''data: '' @ d"
  have n: "0x0A \<notin> set ?l" using Cons.prems by (auto simp: bytes_of_def sse_data_def)
  have "concat (map sse_frame (d # ds)) = ?l @ 0x0A # 0x0A # concat (map sse_frame ds)"
    by (simp add: sse_frame_def)
  then have s: "split_lines [] (concat (map sse_frame (d # ds))) = (?l # [] # ls, [])"
    by (simp only: split_lines_run [OF n]) (simp add: ls(1))
  have e: "sse_events (?l # [] # ls) = d # ds"
    using frame_payload [of d] Cons.prems ls(2)
    by (simp add: sse_events_def map_filter_simps) (simp add: strip_cr_def sse_payload_def)
  have "length ?l \<le> oi_sse_max_line" using Cons.prems by (simp add: sse_data_def bytes_of_def)
  with s e ls(3) show ?case by simp
qed (simp add: sse_events_def map_filter_simps)

section \<open>Cancelling\<close>

lemma process_cancel:
  assumes "process_line (sse_cancel_after n) u line = (u', b)" "length u < n"
  shows "process_line sse_record u line = (u', False) \<and> length u' \<le> n \<and> (b \<longleftrightarrow> length u' = n)"
  using assms by (auto simp: process_line_def sse_cancel_after_def sse_record_def split: option.splits)

lemma record_extends:
  "oi_llm_sse_parser_feed sse_record p u bs = (st, p', u') \<Longrightarrow> \<exists>v. u' = u @ v"
proof (induction "sse_record" p u bs rule: oi_llm_sse_parser_feed.induct)
  case (2 p u c cs)
  then show ?case
    by (fastforce simp: process_line_def sse_record_def split: if_splits prod.splits option.splits)
qed simp

lemma cancel_prefix:
  "length u < n \<Longrightarrow> oi_llm_sse_parser_feed sse_record p u bs = (st, p', u') \<Longrightarrow>
   oi_llm_sse_parser_feed (sse_cancel_after n) p u bs = (st2, p2, u2) \<Longrightarrow>
   u2 = take n u' \<and> (p2 = None \<longleftrightarrow> n \<le> length u')"
proof (induction bs arbitrary: p u)
  case Nil
  then show ?case by auto
next
  case (Cons c cs)
  show ?case
  proof (cases "c = 0x0A")
    case True
    obtain u1 b where c1: "process_line (sse_cancel_after n) u (strip_cr (sse_line p)) = (u1, b)" by fastforce
    note pc = process_cancel [OF c1 Cons.prems(1)]
    show ?thesis
    proof (cases b)
      case b: True
      from Cons.prems(2) pc True obtain v where "u' = u1 @ v"
        using record_extends by (fastforce split: prod.splits)
      with Cons.prems(3) c1 b True pc show ?thesis by auto
    next
      case False
      with pc have "length u1 < n" by auto
      from Cons.IH [OF this, of "p\<lparr>sse_line := []\<rparr>"] Cons.prems(2,3) pc c1 False True show ?thesis by simp
    qed
  next
    case False
    with Cons show ?thesis by (auto split: prod.splits if_splits)
  qed
qed

lemma sse_destroyed_ok: "oi_llm_sse_parser_feed cb p u bs = (st, None, u') \<Longrightarrow> st = OI_OK"
  by (induction cb p u bs rule: oi_llm_sse_parser_feed.induct) (auto split: if_splits prod.splits)

section \<open>Properties\<close>

text \<open>
  Chunking does not matter, for any callback: feeding \<open>xs @ ys\<close> is feeding \<open>xs\<close> and, if the
  parser still exists and no error occurred, feeding \<open>ys\<close>, with the same callbacks in the same order.
\<close>

theorem sse_feed_chunks:
  "oi_llm_sse_parser_feed cb p u (xs @ ys) =
     (case oi_llm_sse_parser_feed cb p u xs of
        (st, None, u') \<Rightarrow> (st, None, u')
      | (st, Some p', u') \<Rightarrow>
          if st = OI_OK then oi_llm_sse_parser_feed cb p' u' ys else (st, Some p', u'))"
  using sse.feed_append [of cb "(Some p, u)" xs ys] sse_destroyed_ok [of cb p u xs]
  by (auto simp: sse_feed_def split: prod.splits option.splits if_splits)

text \<open>
  Round trip. The payloads a server frames as \<open>data: d\<close> followed by an empty line reach the
  callback in order and unchanged, and the parser is ready for the next event. Payloads contain no
  newline, do not end in a carriage return and fit the line limit of 1 MiB.
\<close>

theorem sse_frames_delivered:
  assumes "oi_llm_sse_parser_create heap_ok = Some p" and "\<forall>d \<in> set ds. sse_data d"
  shows "\<exists>p'. oi_llm_sse_parser_feed sse_record p [] (concat (map sse_frame ds)) = (OI_OK, Some p', ds)
    \<and> oi_llm_sse_parser_finish sse_record p' ds = (OI_OK, Some p', ds)"
proof -
  from split_frames [OF assms(2)] obtain ls where ls: "split_lines [] (concat (map sse_frame ds)) = (ls, [])"
    "sse_events ls = ds" "\<forall>l \<in> set ls. length l \<le> oi_sse_max_line" by blast
  have p: "sse_inv p" "sse_heap p = heap_ok" "sse_line p = []"
    using sse_create_inv [OF assms(1)] assms(1) by (auto simp: oi_llm_sse_parser_create_def split: if_splits)
  have "\<exists>p'. oi_llm_sse_parser_feed sse_record p [] (concat (map sse_frame ds)) = (OI_OK, Some p', [] @ sse_events ls)
     \<and> sse_line p' = [] \<and> sse_heap p' = heap_ok \<and> sse_inv p'"
    by (rule sse_feed_events [OF p(1,2)]) (use ls p(3) in auto)
  with ls(2) show ?thesis by (auto simp: oi_llm_sse_parser_finish_def)
qed

theorem sse_frames_delivered_witness:
  "\<exists>p p'. oi_llm_sse_parser_create heap_ok = Some p
    \<and> oi_llm_sse_parser_feed sse_record p [] (concat (map sse_frame [bytes_of ''a'', bytes_of ''[DONE]'']))
        = (OI_OK, Some p', [bytes_of ''a'', bytes_of ''[DONE]''])"
proof -
  obtain p where p: "oi_llm_sse_parser_create heap_ok = Some p" by (simp add: oi_llm_sse_parser_create_def)
  have d: "\<forall>d \<in> set [bytes_of ''a'', bytes_of ''[DONE]'']. sse_data d"
    by (simp add: sse_data_def bytes_of_def oi_sse_max_line_def)
  from sse_frames_delivered [OF p d] p show ?thesis by blast
qed

text \<open>
  Cancelling from inside the callback is safe: a client that destroys the parser in its \<open>n\<close>-th
  callback gets exactly the first \<open>n\<close> of the payloads it would have got, no callback after it, and
  the parser is gone exactly if there were that many.
\<close>

theorem sse_cancel_is_prefix:
  assumes "0 < n" and "oi_llm_sse_parser_feed sse_record p [] bs = (st, p1, all)"
  shows "\<exists>st' p2. oi_llm_sse_parser_feed (sse_cancel_after n) p [] bs = (st', p2, take n all)
    \<and> (p2 = None \<longleftrightarrow> n \<le> length all)"
proof -
  obtain st' p2 got where g: "oi_llm_sse_parser_feed (sse_cancel_after n) p [] bs = (st', p2, got)"
    by (metis surj_pair)
  from cancel_prefix [OF _ assms(2) g] assms(1) g show ?thesis by simp
qed

theorem sse_cancel_is_prefix_witness:
  "\<exists>p st' p2. oi_llm_sse_parser_create heap_ok = Some p
    \<and> oi_llm_sse_parser_feed (sse_cancel_after 1) p [] (bytes_of ''data:a'' @ [0x0A] @ bytes_of ''data:b'' @ [0x0A])
        = (st', p2, [bytes_of ''a'']) \<and> p2 = None"
proof -
  let ?text = "bytes_of ''data:a'' @ [0x0A] @ bytes_of ''data:b'' @ [0x0A]"
  have "\<exists>p p1. oi_llm_sse_parser_create heap_ok = Some p
    \<and> oi_llm_sse_parser_feed sse_record p [] ?text = (OI_OK, p1, [bytes_of ''a'', bytes_of ''b''])"
    by (simp add: oi_llm_sse_parser_create_def bytes_of_def sse_line_append_def oi_sse_max_line_def
        process_line_def sse_payload_def strip_cr_def sse_record_def)
  then obtain p p1 where p: "oi_llm_sse_parser_create heap_ok = Some p"
    and f: "oi_llm_sse_parser_feed sse_record p [] ?text = (OI_OK, p1, [bytes_of ''a'', bytes_of ''b''])" by blast
  from sse_cancel_is_prefix [OF _ f, of 1] p show ?thesis by auto
qed

text \<open>
  \<open>oi_llm_sse_parser_finish\<close> does not treat the last line as a newline would: it keeps the carriage
  return that \<open>oi_llm_sse_parser_feed\<close> strips, so an event stream cut off before its last line feed
  delivers a payload with a carriage return at its end.
\<close>

theorem sse_finish_keeps_carriage_return:
  "\<exists>p p1 p2. oi_llm_sse_parser_create heap_ok = Some p
    \<and> oi_llm_sse_parser_feed sse_record p [] (bytes_of ''data:x'' @ [0x0D, 0x0A]) = (OI_OK, Some p1, [bytes_of ''x''])
    \<and> oi_llm_sse_parser_feed sse_record p [] (bytes_of ''data:x'' @ [0x0D]) = (OI_OK, Some p2, [])
    \<and> (\<exists>p3. oi_llm_sse_parser_finish sse_record p2 [] = (OI_OK, Some p3, [bytes_of ''x'' @ [0x0D]]))"
  by (simp add: oi_llm_sse_parser_create_def bytes_of_def sse_line_append_def oi_sse_max_line_def
      process_line_def sse_payload_def strip_cr_def sse_record_def oi_llm_sse_parser_finish_def)

end
