(* ===== verification/Http.thy ===== *)
theory Http
  imports Prelude
begin

text \<open>
  \<open>src/llm_http.c\<close>: the incremental HTTP response parser. The two callbacks are one handler of
  events; it returns the client's new state and whether it destroyed the parser from inside the
  callback. \<open>http_line\<close> is \<open>line_buf\<close> up to \<open>line_len\<close>; \<open>remaining\<close>, which the code sets only to
  positive lengths and counts down, is a natural number, the \<open>long\<close> accumulators are integers.
\<close>

definition oi_http_max_line :: nat where "oi_http_max_line = 8192"
definition oi_http_max_body_value :: int where "oi_http_max_body_value = 2 ^ 40"

datatype http_state =
    ST_STATUS_LINE | ST_HEADER_LINE | ST_CHUNK_SIZE_LINE | ST_CHUNK_DATA | ST_CHUNK_DATA_CRLF
  | ST_FINAL_CRLF | ST_CONTENT_BODY | ST_DONE | ST_ERROR

record oi_llm_http_parser =
  http_state :: http_state
  http_line :: bytes
  http_cap :: nat
  status_code :: nat
  is_chunked :: bool
  content_length :: int
  remaining :: nat
  http_heap :: heap

datatype http_event = Headers_done nat | Body bytes

type_synonym 'u http_handler = "'u \<Rightarrow> http_event \<Rightarrow> 'u \<times> bool"

definition oi_llm_http_parser_create :: "heap \<Rightarrow> oi_llm_http_parser option" where
  "oi_llm_http_parser_create h =
     (if \<not> shd h then None
      else if \<not> shd (stl h) then None
      else Some \<lparr>http_state = ST_STATUS_LINE, http_line = [], http_cap = 256, status_code = 0,
                 is_chunked = False, content_length = - 1, remaining = 0, http_heap = stl (stl h)\<rparr>)"

definition oi_llm_http_parser_body_done :: "oi_llm_http_parser \<Rightarrow> bool" where
  "oi_llm_http_parser_body_done p \<longleftrightarrow> http_state p = ST_DONE"

definition oi_llm_http_parser_failed :: "oi_llm_http_parser \<Rightarrow> bool" where
  "oi_llm_http_parser_failed p \<longleftrightarrow> http_state p = ST_ERROR"

definition is_digit_c :: "byte \<Rightarrow> bool" where
  "is_digit_c c \<longleftrightarrow> 0x30 \<le> c \<and> c \<le> 0x39"

text \<open>\<open>p->state = ST_ERROR; return OI_ERR_PARSE;\<close>\<close>

definition http_fail :: "oi_llm_http_parser \<Rightarrow> oi_status \<times> oi_llm_http_parser" where
  "http_fail p = (OI_ERR_PARSE, p\<lparr>http_state := ST_ERROR\<rparr>)"

definition http_line_append :: "oi_llm_http_parser \<Rightarrow> byte \<Rightarrow> oi_status \<times> oi_llm_http_parser" where
  "http_line_append p c =
     (if length (http_line p) \<ge> oi_http_max_line then http_fail p
      else if length (http_line p) = http_cap p then
        (if \<not> shd (http_heap p) then
           (OI_ERR_NOMEM, p\<lparr>http_heap := stl (http_heap p), http_state := ST_ERROR\<rparr>)
         else (OI_OK, p\<lparr>http_cap := min (http_cap p * 2) oi_http_max_line,
                        http_heap := stl (http_heap p), http_line := http_line p @ [c]\<rparr>))
      else (OI_OK, p\<lparr>http_line := http_line p @ [c]\<rparr>))"

definition handle_status_line :: "oi_llm_http_parser \<Rightarrow> oi_status \<times> oi_llm_http_parser" where
  "handle_status_line p =
     (let l = http_line p in
      if length l < 12 \<or> (take 9 l \<noteq> bytes_of ''HTTP/1.1 '' \<and> take 9 l \<noteq> bytes_of ''HTTP/1.0 '')
      then http_fail p
      else if \<not> is_digit_c (l ! 9) \<or> \<not> is_digit_c (l ! 10) \<or> \<not> is_digit_c (l ! 11) then http_fail p
      else if 12 < length l \<and> l ! 12 \<noteq> 0x20 then http_fail p
      else (OI_OK, p\<lparr>status_code := digit_value (l ! 9) * 100 + digit_value (l ! 10) * 10
                                     + digit_value (l ! 11),
                     http_state := ST_HEADER_LINE\<rparr>))"

text \<open>The state is settled before the callback runs; with the parser comes whether it was destroyed.\<close>

definition finish_headers ::
  "'u http_handler \<Rightarrow> oi_llm_http_parser \<Rightarrow> 'u \<Rightarrow> oi_status \<times> oi_llm_http_parser \<times> 'u \<times> bool" where
  "finish_headers cb p u =
     (if is_chunked p \<and> content_length p \<ge> 0 then
        (case http_fail p of (st, p') \<Rightarrow> (st, p', u, False))
      else
        let p' = (if is_chunked p then p\<lparr>http_state := ST_CHUNK_SIZE_LINE\<rparr>
                  else if content_length p \<ge> 0 then
                    (if content_length p = 0 then p\<lparr>http_state := ST_DONE\<rparr>
                     else p\<lparr>remaining := nat (content_length p), http_state := ST_CONTENT_BODY\<rparr>)
                  else p\<lparr>http_state := ST_DONE\<rparr>) in
        (case cb u (Headers_done (status_code p')) of (u', destroyed) \<Rightarrow> (OI_OK, p', u', destroyed)))"

text \<open>The digit loop of \<open>Content-Length\<close>, with its test before the multiplication.\<close>

fun parse_length :: "int \<Rightarrow> bytes \<Rightarrow> int option" where
  "parse_length v [] = Some v"
| "parse_length v (c # cs) =
     (if \<not> is_digit_c c then None
      else let digit = int (digit_value c) in
        if v > (oi_http_max_body_value - digit) div 10 then None
        else parse_length (v * 10 + digit) cs)"

definition handle_header_line ::
  "'u http_handler \<Rightarrow> oi_llm_http_parser \<Rightarrow> 'u \<Rightarrow> oi_status \<times> oi_llm_http_parser \<times> 'u \<times> bool" where
  "handle_header_line cb p u =
     (let fail = (case http_fail p of (st, p') \<Rightarrow> (st, p', u, False));
          next_line = (\<lambda>p. (OI_OK, p\<lparr>http_state := ST_HEADER_LINE\<rparr>, u, False)) in
      if http_line p = [] then finish_headers cb p u
      else
        let name = takeWhile (\<lambda>c. c \<noteq> 0x3A) (http_line p);
            value = dropWhile (\<lambda>c. c = 0x20) (drop (length name + 1) (http_line p)) in
        if name = [] \<or> length name \<ge> length (http_line p) then fail
        else if equals_ignore_case name (bytes_of ''Transfer-Encoding'') then
          (if \<not> equals_ignore_case value (bytes_of ''chunked'') then fail
           else next_line (p\<lparr>is_chunked := True\<rparr>))
        else if equals_ignore_case name (bytes_of ''Content-Length'') then
          (if value = [] then fail
           else (case parse_length 0 value of
                   None \<Rightarrow> fail
                 | Some v \<Rightarrow>
                     if content_length p \<ge> 0 \<and> content_length p \<noteq> v then fail
                     else next_line (p\<lparr>content_length := v\<rparr>)))
        else next_line p)"

definition hex_value :: "byte \<Rightarrow> nat option" where
  "hex_value c =
     (if 0x30 \<le> c \<and> c \<le> 0x39 then Some (unat (c - 0x30))
      else if 0x61 \<le> c \<and> c \<le> 0x66 then Some (10 + unat (c - 0x61))
      else if 0x41 \<le> c \<and> c \<le> 0x46 then Some (10 + unat (c - 0x41))
      else None)"

fun parse_chunk_size :: "int \<Rightarrow> bytes \<Rightarrow> int option" where
  "parse_chunk_size sz [] = Some sz"
| "parse_chunk_size sz (c # cs) =
     (if c = 0x3B then Some sz
      else (case hex_value c of
              None \<Rightarrow> None
            | Some v \<Rightarrow>
                if sz > (oi_http_max_body_value - int v) div 16 then None
                else parse_chunk_size (sz * 16 + int v) cs))"

definition handle_chunk_size_line :: "oi_llm_http_parser \<Rightarrow> oi_status \<times> oi_llm_http_parser" where
  "handle_chunk_size_line p =
     (case parse_chunk_size 0 (http_line p) of
        None \<Rightarrow> http_fail p
      | Some sz \<Rightarrow>
          if http_line p = [] \<or> hd (http_line p) = 0x3B then http_fail p
          else if sz = 0 then (OI_OK, p\<lparr>http_state := ST_FINAL_CRLF\<rparr>)
          else (OI_OK, p\<lparr>remaining := nat sz, http_state := ST_CHUNK_DATA\<rparr>))"

definition handle_chunk_data_crlf_line :: "oi_llm_http_parser \<Rightarrow> oi_status \<times> oi_llm_http_parser" where
  "handle_chunk_data_crlf_line p =
     (if http_line p \<noteq> [] then http_fail p else (OI_OK, p\<lparr>http_state := ST_CHUNK_SIZE_LINE\<rparr>))"

definition handle_final_crlf_line :: "oi_llm_http_parser \<Rightarrow> oi_status \<times> oi_llm_http_parser" where
  "handle_final_crlf_line p =
     (if http_line p \<noteq> [] then http_fail p else (OI_OK, p\<lparr>http_state := ST_DONE\<rparr>))"

definition is_line_state :: "http_state \<Rightarrow> bool" where
  "is_line_state s \<longleftrightarrow> s = ST_STATUS_LINE \<or> s = ST_HEADER_LINE \<or> s = ST_CHUNK_SIZE_LINE
     \<or> s = ST_CHUNK_DATA_CRLF \<or> s = ST_FINAL_CRLF"

definition on_line_complete ::
  "'u http_handler \<Rightarrow> oi_llm_http_parser \<Rightarrow> 'u \<Rightarrow> oi_status \<times> oi_llm_http_parser option \<times> 'u" where
  "on_line_complete cb p u =
     (let quiet = (\<lambda>(st, p'). (st, p', u, False)) in
      case (case http_state p of
              ST_STATUS_LINE \<Rightarrow> quiet (handle_status_line p)
            | ST_HEADER_LINE \<Rightarrow> handle_header_line cb p u
            | ST_CHUNK_SIZE_LINE \<Rightarrow> quiet (handle_chunk_size_line p)
            | ST_CHUNK_DATA_CRLF \<Rightarrow> quiet (handle_chunk_data_crlf_line p)
            | ST_FINAL_CRLF \<Rightarrow> quiet (handle_final_crlf_line p)
            | _ \<Rightarrow> quiet (http_fail p)) of
        (st, p', u', destroyed) \<Rightarrow>
          if destroyed then (OI_OK, None, u') else (st, Some (p'\<lparr>http_line := []\<rparr>), u'))"

definition http_strip_cr :: "oi_llm_http_parser \<Rightarrow> oi_llm_http_parser" where
  "http_strip_cr p =
     (if http_line p \<noteq> [] \<and> last (http_line p) = 0x0D then p\<lparr>http_line := butlast (http_line p)\<rparr> else p)"

text \<open>After a run of \<open>n\<close> body bytes.\<close>

definition take_body :: "oi_llm_http_parser \<Rightarrow> nat \<Rightarrow> oi_llm_http_parser" where
  "take_body p n =
     (let p' = p\<lparr>remaining := remaining p - n\<rparr> in
      if remaining p' = 0 then
        p'\<lparr>http_state := (if http_state p' = ST_CHUNK_DATA then ST_CHUNK_DATA_CRLF else ST_DONE)\<rparr>
      else p')"

function oi_llm_http_parser_feed ::
  "'u http_handler \<Rightarrow> oi_llm_http_parser \<Rightarrow> 'u \<Rightarrow> bytes \<Rightarrow> oi_status \<times> oi_llm_http_parser option \<times> 'u" where
  "oi_llm_http_parser_feed cb p u [] = (OI_OK, Some p, u)"
| "oi_llm_http_parser_feed cb p u (c # cs) =
     (if http_state p = ST_ERROR then (OI_ERR_PARSE, Some p, u)
      else if http_state p = ST_DONE then (OI_OK, Some p, u)
      else if is_line_state (http_state p) then
        (if c = 0x0A then
           (case on_line_complete cb (http_strip_cr p) u of
              (st, None, u') \<Rightarrow> (OI_OK, None, u')
            | (st, Some p', u') \<Rightarrow>
                if st \<noteq> OI_OK then (st, Some p', u') else oi_llm_http_parser_feed cb p' u' cs)
         else (case http_line_append p c of
                 (st, p') \<Rightarrow>
                   if st \<noteq> OI_OK then (st, Some p', u) else oi_llm_http_parser_feed cb p' u cs))
      else
        let n = min (remaining p) (length (c # cs)) in
        (case cb u (Body (take n (c # cs))) of
           (u', destroyed) \<Rightarrow>
             if destroyed then (OI_OK, None, u')
             else oi_llm_http_parser_feed cb (take_body p n) u' (drop n (c # cs))))"
  by pat_completeness auto
termination
  by (relation "measure (\<lambda>(cb, p, u, bs). 2 * length bs
        + (if is_line_state (http_state p) \<or> http_state p = ST_DONE then 0 else 1))")
     (auto simp: take_body_def is_line_state_def Let_def)

declare oi_llm_http_parser_feed.simps [simp del]

section \<open>Numbers from the wire\<close>

definition hex_string :: "bytes \<Rightarrow> bool" where
  "hex_string hs \<longleftrightarrow> hs \<noteq> [] \<and> (\<forall>c \<in> set hs. hex_value c \<noteq> None)"

definition hex_number :: "int \<Rightarrow> bytes \<Rightarrow> int" where
  "hex_number v hs = foldl (\<lambda>v c. v * 16 + int (the (hex_value c))) v hs"

lemma hex_number_ge: "0 \<le> v \<Longrightarrow> v \<le> hex_number v hs"
proof (induction hs arbitrary: v)
  case (Cons c hs)
  have "v \<le> v * 16 + int (the (hex_value c))" using Cons.prems by simp
  also have "\<dots> \<le> hex_number (v * 16 + int (the (hex_value c))) hs" using Cons by simp
  finally show ?case by (simp add: hex_number_def)
qed (simp add: hex_number_def)

lemma length_guard: "(v :: int) > (m - d) div 10 \<longleftrightarrow> v * 10 + d > m"
  by linarith

lemma chunk_guard: "(v :: int) > (m - d) div 16 \<longleftrightarrow> v * 16 + d > m"
  by linarith

text \<open>The guards refuse exactly the values above the bound, before anything overflows.\<close>

lemma parse_length_eq:
  "0 \<le> v \<Longrightarrow> v \<le> oi_http_max_body_value \<Longrightarrow>
   parse_length v ds =
     (if (\<forall>c \<in> set ds. is_digit_c c) \<and> dec_value v ds \<le> oi_http_max_body_value
      then Some (dec_value v ds) else None)"
proof (induction ds arbitrary: v)
  case (Cons c ds)
  let ?w = "v * 10 + int (digit_value c)"
  have d: "dec_value v (c # ds) = dec_value ?w ds" by (simp add: dec_value_def)
  show ?case
  proof (cases "is_digit_c c \<and> ?w \<le> oi_http_max_body_value")
    case True
    with Cons.IH [of ?w] Cons.prems show ?thesis by (simp add: Let_def length_guard d)
  next
    case False
    have "?w \<le> dec_value ?w ds" using Cons.prems by (intro dec_value_ge) simp
    with False show ?thesis by (auto simp: Let_def length_guard d)
  qed
qed (simp add: dec_value_def)

lemma hex_no_semicolon: "hex_value 0x3B = None"
  by (simp add: hex_value_def)

lemma parse_chunk_eq:
  "0 \<le> v \<Longrightarrow> \<forall>c \<in> set hs. hex_value c \<noteq> None \<Longrightarrow> hex_number v hs \<le> oi_http_max_body_value \<Longrightarrow>
   ext = [] \<or> hd ext = 0x3B \<Longrightarrow> parse_chunk_size v (hs @ ext) = Some (hex_number v hs)"
proof (induction hs arbitrary: v)
  case (Cons c hs)
  then obtain x where x: "hex_value c = Some x" by auto
  let ?w = "v * 16 + int x"
  have d: "hex_number v (c # hs) = hex_number ?w hs" by (simp add: hex_number_def x)
  have "?w \<le> hex_number ?w hs" using Cons.prems(1) by (intro hex_number_ge) simp
  with Cons.prems(3) d have "?w \<le> oi_http_max_body_value" by simp
  moreover have "c \<noteq> 0x3B" using x hex_no_semicolon by auto
  ultimately show ?case using Cons.IH [of ?w] Cons.prems x d by (simp add: chunk_guard)
next
  case Nil
  then show ?case by (cases ext) (simp_all add: hex_number_def)
qed

lemma parse_chunk_bound:
  "0 \<le> v \<Longrightarrow> v \<le> oi_http_max_body_value \<Longrightarrow> parse_chunk_size v hs = Some n \<Longrightarrow>
     0 \<le> n \<and> n \<le> oi_http_max_body_value"
proof (induction hs arbitrary: v)
  case (Cons c hs)
  show ?case
  proof (cases "c = 0x3B")
    case False
    with Cons.prems(3) obtain x where x: "hex_value c = Some x" "\<not> v > (oi_http_max_body_value - int x) div 16"
      "parse_chunk_size (v * 16 + int x) hs = Some n"
      by (auto split: option.splits if_splits)
    with Cons.IH [OF _ _ x(3)] Cons.prems(1) show ?thesis by (simp add: chunk_guard)
  qed (use Cons.prems in simp)
qed simp

section \<open>Bounds\<close>

definition http_inv :: "oi_llm_http_parser \<Rightarrow> bool" where
  "http_inv p \<longleftrightarrow> length (http_line p) \<le> http_cap p \<and> 256 \<le> http_cap p \<and> http_cap p \<le> oi_http_max_line
     \<and> - 1 \<le> content_length p \<and> content_length p \<le> oi_http_max_body_value
     \<and> int (remaining p) \<le> oi_http_max_body_value
     \<and> (http_state p = ST_CHUNK_DATA \<or> http_state p = ST_CONTENT_BODY \<longrightarrow> 0 < remaining p)"

lemma http_create_inv: "oi_llm_http_parser_create h = Some p \<Longrightarrow> http_inv p"
  by (auto simp: oi_llm_http_parser_create_def http_inv_def oi_http_max_line_def oi_http_max_body_value_def
      split: if_splits)

lemma http_fail_inv: "http_inv p \<Longrightarrow> http_fail p = (st, p') \<Longrightarrow> http_inv p'"
  by (auto simp: http_fail_def http_inv_def)

lemma http_append_inv:
  assumes inv: "http_inv p" and r: "http_line_append p c = (st, p')" and l: "is_line_state (http_state p)"
  shows "http_inv p'"
proof -
  have n: "http_state p \<noteq> ST_CHUNK_DATA" "http_state p \<noteq> ST_CONTENT_BODY" using l by (auto simp: is_line_state_def)
  have "p' = p\<lparr>http_state := ST_ERROR\<rparr>
      \<or> p' = p\<lparr>http_heap := stl (http_heap p), http_state := ST_ERROR\<rparr>
      \<or> length (http_line p) = http_cap p \<and> http_cap p < oi_http_max_line
        \<and> p' = p\<lparr>http_cap := min (http_cap p * 2) oi_http_max_line, http_heap := stl (http_heap p),
                  http_line := http_line p @ [c]\<rparr>
      \<or> length (http_line p) < http_cap p \<and> p' = p\<lparr>http_line := http_line p @ [c]\<rparr>"
    using r inv unfolding http_line_append_def http_fail_def http_inv_def
    by (auto split del: if_split split: if_split_asm)
  then show ?thesis
  proof (elim disjE conjE)
    assume "length (http_line p) = http_cap p" "http_cap p < oi_http_max_line"
      and "p' = p\<lparr>http_cap := min (http_cap p * 2) oi_http_max_line, http_heap := stl (http_heap p),
                  http_line := http_line p @ [c]\<rparr>"
    with inv n show ?thesis by (simp add: http_inv_def)
  qed (use inv n in \<open>simp_all add: http_inv_def\<close>)
qed

lemma finish_headers_inv:
  assumes inv: "http_inv p" and r: "finish_headers cb p u = (st, p', u', b)"
  shows "http_inv p'"
proof -
  have "p' = p\<lparr>http_state := ST_ERROR\<rparr> \<or> p' = p\<lparr>http_state := ST_CHUNK_SIZE_LINE\<rparr>
      \<or> p' = p\<lparr>http_state := ST_DONE\<rparr>
      \<or> (0 < content_length p \<and> p' = p\<lparr>remaining := nat (content_length p), http_state := ST_CONTENT_BODY\<rparr>)"
    using r by (cases "cb u (Headers_done (status_code p))")
      (auto simp: finish_headers_def http_fail_def Let_def split del: if_split split: if_split_asm)
  with inv show ?thesis by (elim disjE) (simp_all add: http_inv_def)
qed

lemma header_line_inv:
  assumes inv: "http_inv p" and r: "handle_header_line cb p u = (st, p', u', b)"
  shows "http_inv p'"
proof -
  have bnd: "v \<le> oi_http_max_body_value \<and> 0 \<le> v" if "parse_length 0 ds = Some v" for ds v
    using that parse_length_eq [of 0 ds] dec_value_ge [of 0 ds]
    by (auto simp: oi_http_max_body_value_def split: if_splits)
  show ?thesis
  proof (cases "http_line p = []")
    case True
    with r finish_headers_inv [OF inv] show ?thesis by (simp add: handle_header_line_def Let_def)
  next
    case False
    have "p' = p\<lparr>http_state := ST_ERROR\<rparr> \<or> p' = p\<lparr>http_state := ST_HEADER_LINE\<rparr>
        \<or> p' = p\<lparr>is_chunked := True, http_state := ST_HEADER_LINE\<rparr>
        \<or> (\<exists>ds v. parse_length 0 ds = Some v \<and> p' = p\<lparr>content_length := v, http_state := ST_HEADER_LINE\<rparr>)"
      using r False unfolding handle_header_line_def Let_def http_fail_def
      by (auto split del: if_split split: if_split_asm option.split_asm)
    with inv show ?thesis by (auto simp: http_inv_def dest: bnd)
  qed
qed

lemma line_handlers_inv:
  assumes inv: "http_inv p"
  shows "http_inv (snd (handle_status_line p))" and "http_inv (snd (handle_chunk_size_line p))"
    and "http_inv (snd (handle_chunk_data_crlf_line p))" and "http_inv (snd (handle_final_crlf_line p))"
    and "http_inv (snd (http_fail p))"
proof -
  show "http_inv (snd (handle_chunk_size_line p))"
  proof (cases "parse_chunk_size 0 (http_line p)")
    case (Some n)
    then have "0 \<le> n \<and> n \<le> oi_http_max_body_value"
      by (rule parse_chunk_bound [rotated 2]) (simp_all add: oi_http_max_body_value_def)
    with Some inv show ?thesis by (simp add: handle_chunk_size_line_def http_fail_def http_inv_def)
  qed (use inv in \<open>simp add: handle_chunk_size_line_def http_fail_def http_inv_def\<close>)
qed (use inv in \<open>simp_all add: handle_status_line_def handle_chunk_data_crlf_line_def
       handle_final_crlf_line_def http_fail_def http_inv_def Let_def\<close>)

lemma line_complete_inv:
  assumes inv: "http_inv p" and r: "on_line_complete cb p u = (st, Some p', u')"
  shows "http_inv p'"
proof -
  have e: "http_inv q \<Longrightarrow> http_inv (q\<lparr>http_line := []\<rparr>)" for q by (simp add: http_inv_def)
  have "\<exists>q. http_inv q \<and> p' = q\<lparr>http_line := []\<rparr>"
  proof (cases "http_state p = ST_HEADER_LINE")
    case True
    obtain st1 q u1 d where h: "handle_header_line cb p u = (st1, q, u1, d)" by (cases "handle_header_line cb p u")
    with header_line_inv [OF inv h] r True show ?thesis
      by (auto simp: on_line_complete_def split: if_split_asm)
  next
    case False
    define q where "q = (case http_state p of ST_STATUS_LINE \<Rightarrow> handle_status_line p
      | ST_CHUNK_SIZE_LINE \<Rightarrow> handle_chunk_size_line p | ST_CHUNK_DATA_CRLF \<Rightarrow> handle_chunk_data_crlf_line p
      | ST_FINAL_CRLF \<Rightarrow> handle_final_crlf_line p | _ \<Rightarrow> http_fail p)"
    have "p' = (snd q)\<lparr>http_line := []\<rparr>"
      using r False unfolding on_line_complete_def q_def
      by (cases "http_state p") (simp_all add: case_prod_unfold)
    moreover have "http_inv (snd q)"
      unfolding q_def using line_handlers_inv [OF inv] by (cases "http_state p") simp_all
    ultimately show ?thesis by blast
  qed
  with e show ?thesis by auto
qed

lemma strip_cr_inv: "http_inv p \<Longrightarrow> http_inv (http_strip_cr p)"
  by (auto simp: http_strip_cr_def http_inv_def)

lemma take_body_inv: "http_inv p \<Longrightarrow> http_inv (take_body p n)"
  by (auto simp: take_body_def http_inv_def Let_def)

lemma http_feed_inv:
  "http_inv p \<Longrightarrow> oi_llm_http_parser_feed cb p u bs = (st, Some p', u') \<Longrightarrow> http_inv p'"
proof (induction cb p u bs rule: oi_llm_http_parser_feed.induct)
  case (2 cb p u c cs)
  show ?case
  proof (cases "http_state p = ST_ERROR \<or> http_state p = ST_DONE")
    case True
    with "2.prems" show ?thesis by (auto simp: oi_llm_http_parser_feed.simps)
  next
    case False
    show ?thesis
    proof (cases "is_line_state (http_state p)")
      case line: True
      show ?thesis
      proof (cases "c = 0x0A")
        case True
        obtain st1 q u1 where r: "on_line_complete cb (http_strip_cr p) u = (st1, q, u1)" by (metis surj_pair)
        show ?thesis
        proof (cases q)
          case (Some q')
          have "http_inv q'" by (rule line_complete_inv [OF strip_cr_inv [OF "2.prems"(1)] r [unfolded Some]])
          with 2 line False True r Some show ?thesis
            by (auto simp: oi_llm_http_parser_feed.simps split: if_splits)
        qed (use "2.prems"(2) line False True r in \<open>simp add: oi_llm_http_parser_feed.simps\<close>)
      next
        case c: False
        obtain st1 q where r: "http_line_append p c = (st1, q)" by fastforce
        have "http_inv q" using http_append_inv [OF "2.prems"(1) r line] .
        with 2 line False c r show ?thesis
          by (auto simp: oi_llm_http_parser_feed.simps split: if_splits)
      qed
    next
      case body: False
      with 2 False take_body_inv show ?thesis
        by (auto simp: oi_llm_http_parser_feed.simps Let_def split: if_splits prod.splits)
    qed
  qed
qed (simp add: oi_llm_http_parser_feed.simps)

section \<open>What the client receives\<close>

text \<open>
  A client that keeps the status codes and the body bytes, and that may destroy the parser when the
  headers are complete.
\<close>

fun http_record :: "(nat \<Rightarrow> bool) \<Rightarrow> (nat list \<times> bytes) http_handler" where
  "http_record stop (codes, body) (Headers_done n) = ((codes @ [n], body), stop n)"
| "http_record stop (codes, body) (Body d) = ((codes, body @ d), False)"

definition http_then ::
  "oi_status \<times> oi_llm_http_parser option \<times> 'u
     \<Rightarrow> (oi_llm_http_parser \<Rightarrow> 'u \<Rightarrow> oi_status \<times> oi_llm_http_parser option \<times> 'u)
     \<Rightarrow> oi_status \<times> oi_llm_http_parser option \<times> 'u" where
  "http_then r k = (case r of (st, None, u) \<Rightarrow> (OI_OK, None, u)
     | (st, Some p, u) \<Rightarrow> if st \<noteq> OI_OK then (st, Some p, u) else k p u)"

lemma http_then_assoc: "http_then (http_then r k) k' = http_then r (\<lambda>p u. http_then (k p u) k')"
  by (auto simp: http_then_def split: prod.splits option.splits)

lemma http_then_ok [simp]: "http_then (OI_OK, Some p, u) k = k p u"
  by (simp add: http_then_def)

lemma feed_newline:
  assumes "is_line_state (http_state p)"
  shows "oi_llm_http_parser_feed cb p u (0x0A # cs) =
    http_then (on_line_complete cb (http_strip_cr p) u) (\<lambda>p u. oi_llm_http_parser_feed cb p u cs)"
  using assms
  by (auto simp: oi_llm_http_parser_feed.simps http_then_def is_line_state_def split: prod.splits option.splits)

lemma feed_char:
  assumes "is_line_state (http_state p)" and "c \<noteq> 0x0A"
  shows "oi_llm_http_parser_feed cb p u (c # cs) =
    (case http_line_append p c of (st, p') \<Rightarrow>
       if st \<noteq> OI_OK then (st, Some p', u) else oi_llm_http_parser_feed cb p' u cs)"
  using assms by (auto simp: oi_llm_http_parser_feed.simps is_line_state_def)

lemma feed_body:
  assumes "\<not> is_line_state (http_state p)" and "http_state p \<noteq> ST_ERROR" and "http_state p \<noteq> ST_DONE"
    and "cs \<noteq> []"
  shows "oi_llm_http_parser_feed cb p u cs =
    (case cb u (Body (take (min (remaining p) (length cs)) cs)) of
       (u', destroyed) \<Rightarrow>
         if destroyed then (OI_OK, None, u')
         else oi_llm_http_parser_feed cb (take_body p (min (remaining p) (length cs))) u'
                (drop (min (remaining p) (length cs)) cs))"
  using assms by (cases cs) (simp_all add: oi_llm_http_parser_feed.simps Let_def split: prod.split)

lemma feed_stopped:
  "http_state p = ST_ERROR \<Longrightarrow> oi_llm_http_parser_feed cb p u (c # cs) = (OI_ERR_PARSE, Some p, u)"
  "http_state p = ST_DONE \<Longrightarrow> oi_llm_http_parser_feed cb p u bs = (OI_OK, Some p, u)"
  by (simp add: oi_llm_http_parser_feed.simps) (cases bs, simp_all add: oi_llm_http_parser_feed.simps)

lemma feed_nil [simp]: "oi_llm_http_parser_feed cb p u [] = (OI_OK, Some p, u)"
  by (simp add: oi_llm_http_parser_feed.simps)

lemma take_body_twice:
  assumes "a < remaining p"
  shows "take_body (take_body p a) b = take_body p (a + b)"
    and "http_state (take_body p a) = http_state p" and "remaining (take_body p a) = remaining p - a"
  using assms by (auto simp: take_body_def Let_def)

lemma http_feed_append:
  "oi_llm_http_parser_feed (http_record stop) p u (xs @ ys) =
     http_then (oi_llm_http_parser_feed (http_record stop) p u xs)
       (\<lambda>p u. oi_llm_http_parser_feed (http_record stop) p u ys)"
proof (induction "http_record stop" p u xs rule: oi_llm_http_parser_feed.induct)
  case (2 p u c cs)
  note IH = 2
  let ?feed = "oi_llm_http_parser_feed (http_record stop)"
  consider "http_state p = ST_ERROR" | "http_state p = ST_DONE"
    | "http_state p \<noteq> ST_ERROR" "http_state p \<noteq> ST_DONE" "is_line_state (http_state p)" "c = 0x0A"
    | "http_state p \<noteq> ST_ERROR" "http_state p \<noteq> ST_DONE" "is_line_state (http_state p)" "c \<noteq> 0x0A"
    | "http_state p \<noteq> ST_ERROR" "http_state p \<noteq> ST_DONE" "\<not> is_line_state (http_state p)" by blast
  then show ?case
  proof cases
    case 1
    then show ?thesis by (simp add: feed_stopped http_then_def)
  next
    case 2
    then show ?thesis by (simp add: feed_stopped)
  next
    case 3
    obtain st q u' where r: "on_line_complete (http_record stop) (http_strip_cr p) u = (st, q, u')" by (metis surj_pair)
    show ?thesis
    proof (cases "q = None \<or> st \<noteq> OI_OK")
      case True
      with 3 r show ?thesis by (auto simp: feed_newline http_then_def split: option.splits)
    next
      case False
      then obtain p' where q: "q = Some p'" "st = OI_OK" by auto
      have "?feed p' u' (cs @ ys) = http_then (?feed p' u' cs) (\<lambda>p u. ?feed p u ys)"
        using IH(1) [OF 3 r [symmetric, unfolded q] _ refl] q by simp
      with 3 r q show ?thesis by (simp add: feed_newline)
    qed
  next
    case 4
    obtain st p' where r: "http_line_append p c = (st, p')" by fastforce
    show ?thesis
    proof (cases "st = OI_OK")
      case True
      have "?feed p' u (cs @ ys) = http_then (?feed p' u cs) (\<lambda>p u. ?feed p u ys)"
        using IH(2) [OF 4 r [symmetric]] True by simp
      with 4 r True show ?thesis by (simp add: feed_char)
    next
      case False
      with 4 r show ?thesis by (simp add: feed_char http_then_def)
    qed
  next
    case 5
    obtain codes body where u: "u = (codes, body)" by fastforce
    let ?n = "min (remaining p) (length (c # cs))" and ?m = "min (remaining p) (length (c # cs @ ys))"
    show ?thesis
    proof (cases "remaining p \<le> length (c # cs)")
      case True
      then have n: "?n = remaining p" "?m = remaining p" by auto
      have "?feed (take_body p ?n) (codes, body @ take ?n (c # cs)) (drop ?n (c # cs) @ ys) =
        http_then (?feed (take_body p ?n) (codes, body @ take ?n (c # cs)) (drop ?n (c # cs))) (\<lambda>p u. ?feed p u ys)"
        using IH(3) [OF 5 refl, of "(codes, body @ take ?n (c # cs))" False] u by simp
      with 5 True u n show ?thesis
        by (simp add: feed_body take_Cons' drop_Cons' split: if_splits)
    next
      case False
      then have n: "?n = length (c # cs)" by auto
      let ?p = "take_body p (length (c # cs))"
      show ?thesis
      proof (cases "ys = []")
        case True
        have "?feed p u (c # cs) = (OI_OK, Some ?p, (codes, body @ c # cs))"
          using 5 n u by (subst feed_body) simp_all
        with True show ?thesis by simp
      next
        case ys: False
        let ?k = "min (remaining ?p) (length ys)"
        have lt: "length (c # cs) < remaining p" using False by simp
        note t = take_body_twice [OF lt]
        have m: "min (remaining p) (length ((c # cs) @ ys)) = length (c # cs) + ?k" using lt t(3) by simp
        have "?feed p u ((c # cs) @ ys) =
            ?feed (take_body p (length (c # cs) + ?k)) (codes, body @ (c # cs) @ take ?k ys) (drop ?k ys)"
          using 5 m u by (subst feed_body) simp_all
        also have "\<dots> = ?feed (take_body ?p ?k) (codes, (body @ c # cs) @ take ?k ys) (drop ?k ys)"
          by (simp only: t(1) append_assoc append_Cons)
        also have "\<dots> = ?feed ?p (codes, body @ c # cs) ys"
          using 5 t(2) ys by (subst (2) feed_body) simp_all
        also have "\<dots> = http_then (?feed p u (c # cs)) (\<lambda>p u. ?feed p u ys)"
          using 5 n u by (subst (2) feed_body) simp_all
        finally show ?thesis .
      qed
    qed
  qed
qed simp

section \<open>Delivery of a response\<close>

definition http_at ::
  "http_state \<Rightarrow> nat \<Rightarrow> bool \<Rightarrow> int \<Rightarrow> oi_llm_http_parser \<Rightarrow> bool" where
  "http_at s code chunked len p \<longleftrightarrow> http_state p = s \<and> http_line p = [] \<and> http_heap p = heap_ok
     \<and> status_code p = code \<and> is_chunked p = chunked \<and> content_length p = len"

definition crlf :: "bytes \<Rightarrow> bytes" where
  "crlf l = l @ [0x0D, 0x0A]"

definition fits_line :: "bytes \<Rightarrow> bool" where
  "fits_line l \<longleftrightarrow> 0x0A \<notin> set l \<and> length l < oi_http_max_line"

definition status_line :: "byte \<Rightarrow> byte \<Rightarrow> byte \<Rightarrow> bytes \<Rightarrow> bytes" where
  "status_line a b c reason = bytes_of ''HTTP/1.1 '' @ [a, b, c] @ reason"

definition status_ok :: "byte \<Rightarrow> byte \<Rightarrow> byte \<Rightarrow> bytes \<Rightarrow> bool" where
  "status_ok a b c reason \<longleftrightarrow> is_digit_c a \<and> is_digit_c b \<and> is_digit_c c
     \<and> (reason = [] \<or> hd reason = 0x20) \<and> fits_line (status_line a b c reason)"

definition code_of :: "byte \<Rightarrow> byte \<Rightarrow> byte \<Rightarrow> nat" where
  "code_of a b c = digit_value a * 100 + digit_value b * 10 + digit_value c"

definition header :: "bytes \<times> bytes \<Rightarrow> bytes" where
  "header h = fst h @ 0x3A # snd h"

definition header_lines :: "(bytes \<times> bytes) list \<Rightarrow> bytes" where
  "header_lines hs = concat (map (\<lambda>h. crlf (header h)) hs)"

text \<open>A header the parser has no interest in.\<close>

definition plain_header :: "bytes \<times> bytes \<Rightarrow> bool" where
  "plain_header h \<longleftrightarrow> fst h \<noteq> [] \<and> 0x3A \<notin> set (fst h) \<and> fits_line (header h)
     \<and> \<not> equals_ignore_case (fst h) (bytes_of ''Transfer-Encoding'')
     \<and> \<not> equals_ignore_case (fst h) (bytes_of ''Content-Length'')"

lemma http_append_ok:
  assumes "http_heap p = heap_ok" and "length (http_line p) < oi_http_max_line"
  shows "\<exists>cap. http_line_append p c = (OI_OK, p\<lparr>http_cap := cap, http_line := http_line p @ [c]\<rparr>)"
  using assms by (cases p) (auto simp: http_line_append_def)

lemma feed_chars:
  assumes "is_line_state (http_state p)" and "http_heap p = heap_ok" and "0x0A \<notin> set l"
    and "length (http_line p) + length l \<le> oi_http_max_line"
  shows "\<exists>cap. oi_llm_http_parser_feed cb p u (l @ rest) =
    oi_llm_http_parser_feed cb (p\<lparr>http_cap := cap, http_line := http_line p @ l\<rparr>) u rest"
  using assms
proof (induction l arbitrary: p)
  case Nil
  show ?case by (rule exI [of _ "http_cap p"]) simp
next
  case (Cons c l)
  have "length (http_line p) < oi_http_max_line" using Cons.prems(4) by simp
  from http_append_ok [OF Cons.prems(2) this] obtain cap where
    a: "http_line_append p c = (OI_OK, p\<lparr>http_cap := cap, http_line := http_line p @ [c]\<rparr>)" by blast
  from Cons.IH [of "p\<lparr>http_cap := cap, http_line := http_line p @ [c]\<rparr>"] Cons.prems
  obtain cap' where "oi_llm_http_parser_feed cb (p\<lparr>http_cap := cap, http_line := http_line p @ [c]\<rparr>) u (l @ rest) =
    oi_llm_http_parser_feed cb (p\<lparr>http_cap := cap', http_line := http_line p @ c # l\<rparr>) u rest" by auto
  then show ?case using Cons.prems(1,3) a by (intro exI [of _ cap']) (simp add: feed_char)
qed

lemma feed_line:
  assumes "http_at s code ch len p" and "is_line_state s" and "fits_line l"
  shows "\<exists>cap. oi_llm_http_parser_feed cb p u (crlf l @ rest) =
    http_then (on_line_complete cb (p\<lparr>http_cap := cap, http_line := l\<rparr>) u)
      (\<lambda>p u. oi_llm_http_parser_feed cb p u rest)"
proof -
  have p: "is_line_state (http_state p)" "http_heap p = heap_ok" "http_line p = []"
    using assms by (auto simp: http_at_def)
  have "0x0A \<notin> set (l @ [0x0D])" "length (http_line p) + length (l @ [0x0D]) \<le> oi_http_max_line"
    using assms(3) p(3) by (auto simp: fits_line_def)
  from feed_chars [OF p(1,2) this, of cb u "0x0A # rest"] p(3) obtain cap where
    "oi_llm_http_parser_feed cb p u (crlf l @ rest) =
      oi_llm_http_parser_feed cb (p\<lparr>http_cap := cap, http_line := l @ [0x0D]\<rparr>) u (0x0A # rest)"
    by (auto simp: crlf_def)
  then show ?thesis using p by (intro exI [of _ cap]) (simp add: feed_newline http_strip_cr_def)
qed

lemma feed_status_line:
  assumes p: "http_at ST_STATUS_LINE code ch len p" and ok: "status_ok a b c reason"
  shows "\<exists>q. http_at ST_HEADER_LINE (code_of a b c) ch len q
    \<and> oi_llm_http_parser_feed cb p u (crlf (status_line a b c reason) @ rest) = oi_llm_http_parser_feed cb q u rest"
proof -
  let ?l = "status_line a b c reason"
  from feed_line [OF p _, of ?l cb u rest] ok obtain cap where
    f: "oi_llm_http_parser_feed cb p u (crlf ?l @ rest) =
      http_then (on_line_complete cb (p\<lparr>http_cap := cap, http_line := ?l\<rparr>) u)
        (\<lambda>p u. oi_llm_http_parser_feed cb p u rest)" by (auto simp: status_ok_def is_line_state_def)
  have h: "handle_status_line (p\<lparr>http_cap := cap, http_line := ?l\<rparr>) =
      (OI_OK, p\<lparr>http_cap := cap, http_line := ?l, status_code := code_of a b c, http_state := ST_HEADER_LINE\<rparr>)"
    using ok by (cases reason)
      (simp_all add: handle_status_line_def status_line_def status_ok_def code_of_def bytes_of_def Let_def)
  let ?q = "p\<lparr>http_cap := cap, status_code := code_of a b c, http_state := ST_HEADER_LINE, http_line := []\<rparr>"
  have "oi_llm_http_parser_feed cb p u (crlf ?l @ rest) = oi_llm_http_parser_feed cb ?q u rest"
    using f h p by (simp add: on_line_complete_def http_at_def)
  moreover have "http_at ST_HEADER_LINE (code_of a b c) ch len ?q" using p by (simp add: http_at_def)
  ultimately show ?thesis by blast
qed

lemma header_split:
  assumes "0x3A \<notin> set n"
  shows "takeWhile (\<lambda>c. c \<noteq> 0x3A) (n @ 0x3A # v) = n" and "drop (length n + 1) (n @ (0x3A :: byte) # v) = v"
  using assms by (subst takeWhile_append2) auto

lemma feed_header:
  assumes p: "http_at ST_HEADER_LINE code ch len p" and l: "fits_line (header h)"
    and n: "0x3A \<notin> set (fst h)" "fst h \<noteq> []"
    and r: "\<And>p. http_at ST_HEADER_LINE code ch len (p\<lparr>http_line := []\<rparr>) \<Longrightarrow> http_line p = header h \<Longrightarrow>
      \<exists>q. http_at ST_HEADER_LINE code ch' len' (q\<lparr>http_line := []\<rparr>) \<and> handle_header_line cb p u = (OI_OK, q, u, False)"
  shows "\<exists>q. http_at ST_HEADER_LINE code ch' len' q
    \<and> oi_llm_http_parser_feed cb p u (crlf (header h) @ rest) = oi_llm_http_parser_feed cb q u rest"
proof -
  from feed_line [OF p _ l, of cb u rest] obtain cap where
    f: "oi_llm_http_parser_feed cb p u (crlf (header h) @ rest) =
      http_then (on_line_complete cb (p\<lparr>http_cap := cap, http_line := header h\<rparr>) u)
        (\<lambda>p u. oi_llm_http_parser_feed cb p u rest)" by (auto simp: is_line_state_def)
  have "http_at ST_HEADER_LINE code ch len ((p\<lparr>http_cap := cap, http_line := header h\<rparr>)\<lparr>http_line := []\<rparr>)"
    using p by (simp add: http_at_def)
  from r [OF this] obtain q where q: "http_at ST_HEADER_LINE code ch' len' (q\<lparr>http_line := []\<rparr>)"
    "handle_header_line cb (p\<lparr>http_cap := cap, http_line := header h\<rparr>) u = (OI_OK, q, u, False)" by auto
  have "http_state p = ST_HEADER_LINE" using p by (simp add: http_at_def)
  with f q show ?thesis by (intro exI [of _ "q\<lparr>http_line := []\<rparr>"]) (simp add: on_line_complete_def)
qed

lemma feed_plain_header:
  assumes p: "http_at ST_HEADER_LINE code ch len p" and h: "plain_header h"
  shows "\<exists>q. http_at ST_HEADER_LINE code ch len q
    \<and> oi_llm_http_parser_feed cb p u (crlf (header h) @ rest) = oi_llm_http_parser_feed cb q u rest"
  using h
  by (intro feed_header [OF p])
    (auto simp: plain_header_def handle_header_line_def header_def header_split http_at_def Let_def)

lemma feed_plain_headers:
  assumes "http_at ST_HEADER_LINE code ch len p" and "\<forall>h \<in> set hs. plain_header h"
  shows "\<exists>q. http_at ST_HEADER_LINE code ch len q
    \<and> oi_llm_http_parser_feed cb p u (header_lines hs @ rest) = oi_llm_http_parser_feed cb q u rest"
  using assms
proof (induction hs arbitrary: p)
  case (Cons h hs)
  from feed_plain_header [OF Cons.prems(1), of h cb u "header_lines hs @ rest"] Cons.prems(2)
  obtain q where q: "http_at ST_HEADER_LINE code ch len q"
    "oi_llm_http_parser_feed cb p u (crlf (header h) @ header_lines hs @ rest) =
     oi_llm_http_parser_feed cb q u (header_lines hs @ rest)" by auto
  from Cons.IH [OF q(1)] Cons.prems(2) q(2) show ?case by (simp add: header_lines_def)
qed (auto simp: header_lines_def)

definition length_header :: "nat \<Rightarrow> bytes \<times> bytes \<Rightarrow> bool" where
  "length_header m h \<longleftrightarrow> equals_ignore_case (fst h) (bytes_of ''Content-Length'') \<and> fits_line (header h)
     \<and> (let ds = dropWhile (\<lambda>c. c = 0x20) (snd h) in
          ds \<noteq> [] \<and> (\<forall>c \<in> set ds. is_digit_c c) \<and> dec_value 0 ds = int m)
     \<and> int m \<le> oi_http_max_body_value"

definition chunked_header :: "bytes \<times> bytes \<Rightarrow> bool" where
  "chunked_header h \<longleftrightarrow> equals_ignore_case (fst h) (bytes_of ''Transfer-Encoding'') \<and> fits_line (header h)
     \<and> equals_ignore_case (dropWhile (\<lambda>c. c = 0x20) (snd h)) (bytes_of ''chunked'')"

lemma lower_colon: "lower_char 0x3A = 0x3A"
  by (simp add: lower_char_def)

lemma equals_no_colon:
  assumes "equals_ignore_case n s" and "0x3A \<notin> lower_char ` set s" and "s \<noteq> []"
  shows "0x3A \<notin> set n" and "n \<noteq> []"
proof -
  have e: "map lower_char n = map lower_char s" using assms(1) by (simp add: equals_ignore_case_def)
  then have "lower_char ` set n = lower_char ` set s" by (metis set_map)
  with assms(2) lower_colon show "0x3A \<notin> set n" by (metis image_eqI)
  from e assms(3) show "n \<noteq> []" by auto
qed

lemma te_not_cl: "equals_ignore_case n (bytes_of ''Content-Length'') \<Longrightarrow> \<not> equals_ignore_case n (bytes_of ''Transfer-Encoding'')"
  by (simp add: equals_ignore_case_def bytes_of_def)

lemmas cl_name = equals_no_colon [of _ "bytes_of ''Content-Length''"]
lemmas te_name = equals_no_colon [of _ "bytes_of ''Transfer-Encoding''"]

lemma feed_length_header:
  assumes p: "http_at ST_HEADER_LINE code ch (- 1) p" and h: "length_header m h"
  shows "\<exists>q. http_at ST_HEADER_LINE code ch (int m) q
    \<and> oi_llm_http_parser_feed cb p u (crlf (header h) @ rest) = oi_llm_http_parser_feed cb q u rest"
proof -
  have n: "0x3A \<notin> set (fst h)" "fst h \<noteq> []"
    using h cl_name [of "fst h"] by (auto simp: length_header_def bytes_of_def lower_char_def)
  define ds where "ds = dropWhile (\<lambda>c. c = 0x20) (snd h)"
  have d: "ds \<noteq> []" "parse_length 0 ds = Some (int m)" "equals_ignore_case (fst h) (bytes_of ''Content-Length'')"
    using h parse_length_eq [of 0 ds]
    by (auto simp: length_header_def ds_def Let_def oi_http_max_body_value_def)
  show ?thesis
    using h
    by (intro feed_header [OF p _ n])
      (use n d te_not_cl [OF d(3)] in
        \<open>auto simp: length_header_def handle_header_line_def header_def header_split http_at_def Let_def
          ds_def [symmetric]\<close>)
qed

lemma feed_chunked_header:
  assumes p: "http_at ST_HEADER_LINE code ch len p" and h: "chunked_header h"
  shows "\<exists>q. http_at ST_HEADER_LINE code True len q
    \<and> oi_llm_http_parser_feed cb p u (crlf (header h) @ rest) = oi_llm_http_parser_feed cb q u rest"
proof -
  have n: "0x3A \<notin> set (fst h)" "fst h \<noteq> []"
    using h te_name [of "fst h"] by (auto simp: chunked_header_def bytes_of_def lower_char_def)
  show ?thesis
    using h
    by (intro feed_header [OF p _ n])
      (use n in \<open>auto simp: chunked_header_def handle_header_line_def header_def header_split http_at_def Let_def\<close>)
qed

lemma fits_nil [simp]: "fits_line []"
  by (simp add: fits_line_def oi_http_max_line_def)

lemma feed_blank_line:
  assumes p: "http_at ST_HEADER_LINE code ch len p" and ok: "\<not> (ch \<and> len \<ge> 0)" and s: "\<not> stop code"
  shows "\<exists>q. http_at (if ch then ST_CHUNK_SIZE_LINE else if len > 0 then ST_CONTENT_BODY else ST_DONE) code ch len q
    \<and> (\<not> ch \<and> len > 0 \<longrightarrow> remaining q = nat len)
    \<and> oi_llm_http_parser_feed (http_record stop) p (codes, body) (crlf [] @ rest)
        = oi_llm_http_parser_feed (http_record stop) q (codes @ [code], body) rest"
proof -
  from feed_line [OF p _ fits_nil, of "http_record stop" "(codes, body)" rest] obtain cap where
    f: "oi_llm_http_parser_feed (http_record stop) p (codes, body) (crlf [] @ rest) =
      http_then (on_line_complete (http_record stop) (p\<lparr>http_cap := cap, http_line := []\<rparr>) (codes, body))
        (\<lambda>p u. oi_llm_http_parser_feed (http_record stop) p u rest)" by (auto simp: is_line_state_def)
  let ?p = "p\<lparr>http_cap := cap, http_line := []\<rparr>"
  let ?q = "if ch then ?p\<lparr>http_state := ST_CHUNK_SIZE_LINE\<rparr>
    else if len > 0 then ?p\<lparr>remaining := nat len, http_state := ST_CONTENT_BODY\<rparr>
    else ?p\<lparr>http_state := ST_DONE\<rparr>"
  have fin: "finish_headers (http_record stop) ?p (codes, body) = (OI_OK, ?q, (codes @ [code], body), False)"
    using p ok s by (auto simp: finish_headers_def http_at_def Let_def)
  have "http_state p = ST_HEADER_LINE" using p by (simp add: http_at_def)
  with f fin p ok show ?thesis
    by (intro exI [of _ "?q\<lparr>http_line := []\<rparr>"])
      (auto simp: on_line_complete_def handle_header_line_def http_at_def Let_def)
qed

lemma feed_body_run:
  assumes "http_state p = ST_CONTENT_BODY \<or> http_state p = ST_CHUNK_DATA"
    and "remaining p = length d" and "d \<noteq> []"
  shows "oi_llm_http_parser_feed (http_record stop) p (codes, body) (d @ rest) =
    oi_llm_http_parser_feed (http_record stop)
      (p\<lparr>remaining := 0, http_state := (if http_state p = ST_CHUNK_DATA then ST_CHUNK_DATA_CRLF else ST_DONE)\<rparr>)
      (codes, body @ d) rest"
  using assms by (subst feed_body) (auto simp: is_line_state_def take_body_def Let_def)

text \<open>A chunk is its length in hexadecimal, an extension, and its data.\<close>

definition chunk_ok :: "bytes \<times> bytes \<times> bytes \<Rightarrow> bool" where
  "chunk_ok c \<longleftrightarrow> (case c of (hs, ext, d) \<Rightarrow> hex_string hs \<and> hex_number 0 hs = int (length d) \<and> d \<noteq> []
     \<and> int (length d) \<le> oi_http_max_body_value \<and> (ext = [] \<or> hd ext = 0x3B) \<and> fits_line (hs @ ext))"

definition chunk_text :: "bytes \<times> bytes \<times> bytes \<Rightarrow> bytes" where
  "chunk_text c = (case c of (hs, ext, d) \<Rightarrow> crlf (hs @ ext) @ d @ crlf [])"

lemma hex_hd: "hex_string hs \<Longrightarrow> hd (hs @ ext) \<noteq> 0x3B"
  using hex_no_semicolon by (cases hs) (auto simp: hex_string_def)

lemma feed_size_line:
  assumes p: "http_at ST_CHUNK_SIZE_LINE code ch len p" and hs: "hex_string hs" "ext = [] \<or> hd ext = 0x3B"
    and f: "fits_line (hs @ ext)" and v: "hex_number 0 hs = int n" "int n \<le> oi_http_max_body_value"
  shows "\<exists>q. http_at (if n = 0 then ST_FINAL_CRLF else ST_CHUNK_DATA) code ch len q \<and> (n > 0 \<longrightarrow> remaining q = n)
    \<and> oi_llm_http_parser_feed cb p u (crlf (hs @ ext) @ rest) = oi_llm_http_parser_feed cb q u rest"
proof -
  from feed_line [OF p _ f, of cb u rest] obtain cap where
    f: "oi_llm_http_parser_feed cb p u (crlf (hs @ ext) @ rest) =
      http_then (on_line_complete cb (p\<lparr>http_cap := cap, http_line := hs @ ext\<rparr>) u)
        (\<lambda>p u. oi_llm_http_parser_feed cb p u rest)" by (auto simp: is_line_state_def)
  have h: "parse_chunk_size 0 (hs @ ext) = Some (int n)" "hs \<noteq> []"
    using parse_chunk_eq [of 0 hs ext] hs v by (auto simp: hex_string_def)
  let ?p = "p\<lparr>http_cap := cap, http_line := hs @ ext\<rparr>"
  let ?q = "if n = 0 then ?p\<lparr>http_state := ST_FINAL_CRLF\<rparr> else ?p\<lparr>remaining := n, http_state := ST_CHUNK_DATA\<rparr>"
  have "handle_chunk_size_line ?p = (OI_OK, ?q)"
    using h hex_hd [OF hs(1), of ext] by (simp add: handle_chunk_size_line_def)
  moreover have "http_state p = ST_CHUNK_SIZE_LINE" using p by (simp add: http_at_def)
  ultimately show ?thesis using f p
    by (intro exI [of _ "?q\<lparr>http_line := []\<rparr>"]) (auto simp: on_line_complete_def http_at_def)
qed

lemma feed_empty_line:
  assumes p: "http_at s code ch len p"
    and s: "s = ST_CHUNK_DATA_CRLF \<and> s' = ST_CHUNK_SIZE_LINE \<or> s = ST_FINAL_CRLF \<and> s' = ST_DONE"
  shows "\<exists>q. http_at s' code ch len q
    \<and> oi_llm_http_parser_feed cb p u (crlf [] @ rest) = oi_llm_http_parser_feed cb q u rest"
proof -
  from feed_line [OF p _ fits_nil, of cb u rest] s obtain cap where
    f: "oi_llm_http_parser_feed cb p u (crlf [] @ rest) =
      http_then (on_line_complete cb (p\<lparr>http_cap := cap, http_line := []\<rparr>) u)
        (\<lambda>p u. oi_llm_http_parser_feed cb p u rest)" by (auto simp: is_line_state_def)
  with p s show ?thesis
    by (intro exI [of _ "p\<lparr>http_cap := cap, http_state := s', http_line := []\<rparr>"])
      (auto simp: on_line_complete_def http_at_def handle_chunk_data_crlf_line_def handle_final_crlf_line_def)
qed

lemma feed_chunk:
  assumes p: "http_at ST_CHUNK_SIZE_LINE code ch len p" and c: "chunk_ok (hs, ext, d)"
  shows "\<exists>q. http_at ST_CHUNK_SIZE_LINE code ch len q
    \<and> oi_llm_http_parser_feed (http_record stop) p (codes, body) (chunk_text (hs, ext, d) @ rest)
        = oi_llm_http_parser_feed (http_record stop) q (codes, body @ d) rest"
proof -
  let ?feed = "oi_llm_http_parser_feed (http_record stop)"
  from c obtain q1 where q1: "http_at ST_CHUNK_DATA code ch len q1" "remaining q1 = length d"
    "?feed p (codes, body) (crlf (hs @ ext) @ d @ crlf [] @ rest) = ?feed q1 (codes, body) (d @ crlf [] @ rest)"
    using feed_size_line [OF p, of hs ext "length d" "http_record stop" "(codes, body)" "d @ crlf [] @ rest"]
    by (auto simp: chunk_ok_def)
  let ?q2 = "q1\<lparr>remaining := 0, http_state := ST_CHUNK_DATA_CRLF\<rparr>"
  have s: "?feed q1 (codes, body) (d @ crlf [] @ rest) = ?feed ?q2 (codes, body @ d) (crlf [] @ rest)"
    using feed_body_run [of q1 d stop codes body "crlf [] @ rest"] q1 c by (auto simp: http_at_def chunk_ok_def)
  have "http_at ST_CHUNK_DATA_CRLF code ch len ?q2" using q1 by (simp add: http_at_def)
  from feed_empty_line [OF this, of ST_CHUNK_SIZE_LINE "http_record stop" "(codes, body @ d)" rest] s q1(3)
  show ?thesis by (auto simp: chunk_text_def)
qed

lemma feed_chunk_list:
  assumes "http_at ST_CHUNK_SIZE_LINE code ch len p" and "\<forall>c \<in> set cs. chunk_ok c"
  shows "\<exists>q. http_at ST_CHUNK_SIZE_LINE code ch len q
    \<and> oi_llm_http_parser_feed (http_record stop) p (codes, body) (concat (map chunk_text cs) @ rest)
        = oi_llm_http_parser_feed (http_record stop) q (codes, body @ concat (map (\<lambda>(hs, ext, d). d) cs)) rest"
  using assms
proof (induction cs arbitrary: p body)
  case (Cons c cs)
  obtain hs ext d where c: "c = (hs, ext, d)" by (metis surj_pair)
  from feed_chunk [OF Cons.prems(1), of hs ext d stop codes body "concat (map chunk_text cs) @ rest"] Cons.prems(2) c
  obtain q where q: "http_at ST_CHUNK_SIZE_LINE code ch len q"
    "oi_llm_http_parser_feed (http_record stop) p (codes, body) (chunk_text c @ concat (map chunk_text cs) @ rest)
     = oi_llm_http_parser_feed (http_record stop) q (codes, body @ d) (concat (map chunk_text cs) @ rest)" by auto
  from Cons.IH [OF q(1), of "body @ d"] Cons.prems(2) q(2) c show ?case by simp
qed auto

lemma http_create_at: "oi_llm_http_parser_create heap_ok = Some p \<Longrightarrow> http_at ST_STATUS_LINE 0 False (- 1) p"
  by (auto simp: oi_llm_http_parser_create_def http_at_def)

lemma done_at: "http_at ST_DONE code ch len q \<Longrightarrow> oi_llm_http_parser_body_done q"
  by (simp add: http_at_def oi_llm_http_parser_body_done_def)

lemma http_fail_state [simp]: "http_state (snd (http_fail p)) = ST_ERROR" "fst (http_fail p) = OI_ERR_PARSE"
  by (simp_all add: http_fail_def)

lemma handlers_failed:
  "fst (handle_status_line p) \<noteq> OI_OK \<longrightarrow> http_state (snd (handle_status_line p)) = ST_ERROR"
  "fst (handle_chunk_size_line p) \<noteq> OI_OK \<longrightarrow> http_state (snd (handle_chunk_size_line p)) = ST_ERROR"
  "fst (handle_chunk_data_crlf_line p) \<noteq> OI_OK \<longrightarrow> http_state (snd (handle_chunk_data_crlf_line p)) = ST_ERROR"
  "fst (handle_final_crlf_line p) \<noteq> OI_OK \<longrightarrow> http_state (snd (handle_final_crlf_line p)) = ST_ERROR"
  "fst (http_line_append p c) \<noteq> OI_OK \<longrightarrow> http_state (snd (http_line_append p c)) = ST_ERROR"
  by (auto simp: handle_status_line_def handle_chunk_size_line_def handle_chunk_data_crlf_line_def
      handle_final_crlf_line_def http_line_append_def Let_def split: option.splits)

lemma finish_headers_failed:
  "finish_headers cb p u = (st, p', u', d) \<Longrightarrow> st \<noteq> OI_OK \<Longrightarrow> http_state p' = ST_ERROR"
  by (auto simp: finish_headers_def http_fail_def Let_def split del: if_split split: if_split_asm prod.splits)

lemma header_line_failed:
  assumes "handle_header_line cb p u = (st, p', u', d)" and "st \<noteq> OI_OK"
  shows "http_state p' = ST_ERROR"
proof (cases "http_line p = []")
  case True
  with assms finish_headers_failed show ?thesis by (simp add: handle_header_line_def Let_def)
next
  case False
  with assms show ?thesis unfolding handle_header_line_def Let_def http_fail_def
    by (auto split del: if_split split: if_split_asm option.split_asm)
qed

lemma line_complete_failed:
  assumes "on_line_complete cb p u = (st, Some p', u')" and "st \<noteq> OI_OK"
  shows "http_state p' = ST_ERROR"
proof (cases "http_state p = ST_HEADER_LINE")
  case True
  obtain st1 q u1 d where "handle_header_line cb p u = (st1, q, u1, d)" by (metis surj_pair)
  with header_line_failed [OF this] assms True show ?thesis
    by (auto simp: on_line_complete_def split: if_split_asm)
next
  case False
  with assms handlers_failed [of p] show ?thesis
    unfolding on_line_complete_def by (cases "http_state p") (auto simp: case_prod_unfold)
qed

lemma http_feed_failed:
  "oi_llm_http_parser_feed cb p u bs = (st, Some p', u') \<Longrightarrow> st \<noteq> OI_OK \<Longrightarrow> http_state p' = ST_ERROR"
proof (induction cb p u bs rule: oi_llm_http_parser_feed.induct)
  case (2 cb p u c cs)
  show ?case
  proof (cases "http_state p = ST_ERROR \<or> http_state p = ST_DONE")
    case True
    with "2.prems" show ?thesis by (auto simp: feed_stopped)
  next
    case False
    then have run: "http_state p \<noteq> ST_ERROR" "http_state p \<noteq> ST_DONE" by auto
    show ?thesis
    proof (cases "is_line_state (http_state p)")
      case line: True
      show ?thesis
      proof (cases "c = 0x0A")
        case c: True
        obtain st1 q u1 where r: "on_line_complete cb (http_strip_cr p) u = (st1, q, u1)" by (metis surj_pair)
        show ?thesis
        proof (cases q)
          case None
          with "2.prems" line c r show ?thesis by (simp add: feed_newline http_then_def)
        next
          case (Some q')
          show ?thesis
          proof (cases "st1 = OI_OK")
            case True
            with "2.prems" "2.IH"(1) [OF run line c r [symmetric, unfolded Some] refl refl] line c r Some show ?thesis by (simp add: feed_newline)
          next
            case False
            with "2.prems" line c r Some line_complete_failed [OF r [unfolded Some]] show ?thesis
              by (simp add: feed_newline http_then_def)
          qed
        qed
      next
        case c: False
        obtain st1 q where r: "http_line_append p c = (st1, q)" by fastforce
        show ?thesis
        proof (cases "st1 = OI_OK")
          case True
          with "2.prems" "2.IH"(2) [OF run line c r [symmetric]] line c r show ?thesis by (simp add: feed_char)
        next
          case False
          with "2.prems" handlers_failed(5) [of p c] line c r show ?thesis by (simp add: feed_char)
        qed
      qed
    next
      case body: False
      obtain u1 d where r: "cb u (Body (take (min (remaining p) (length (c # cs))) (c # cs))) = (u1, d)" by fastforce
      with "2.prems" "2.IH"(3) [OF run body refl r [symmetric]] run body show ?thesis
        by (simp add: feed_body split: if_splits)
    qed
  qed
qed simp

section \<open>Properties\<close>

text \<open>
  Chunking does not matter: feeding \<open>xs @ ys\<close> is feeding \<open>xs\<close> and, if the parser still exists and
  no error occurred, feeding \<open>ys\<close>, with the same parser state, the same status codes and the same body
  bytes for the client, also for one that destroys the parser at some status codes.
\<close>

theorem http_feed_chunks:
  "oi_llm_http_parser_feed (http_record stop) p u (xs @ ys) =
     (case oi_llm_http_parser_feed (http_record stop) p u xs of
        (st, None, u') \<Rightarrow> (OI_OK, None, u')
      | (st, Some p', u') \<Rightarrow>
          if st \<noteq> OI_OK then (st, Some p', u') else oi_llm_http_parser_feed (http_record stop) p' u' ys)"
  using http_feed_append [of stop p u xs ys] by (simp only: http_then_def)

text \<open>
  C19. Bounds on any input, for any client and any allocator: the line stays within 8192 bytes and
  within its buffer, announced lengths and what remains of them within \<open>2 ^ 40\<close> (so the \<open>long\<close>
  accumulators never overflow), and a parser waiting for body bytes still has some to come.
\<close>

theorem http_parser_bounds:
  assumes "oi_llm_http_parser_create h = Some p0" and "oi_llm_http_parser_feed cb p0 u bs = (st, Some p, u')"
  shows "length (http_line p) \<le> http_cap p \<and> http_cap p \<le> 8192
    \<and> - 1 \<le> content_length p \<and> content_length p \<le> 2 ^ 40 \<and> int (remaining p) \<le> 2 ^ 40
    \<and> (http_state p \<in> {ST_CHUNK_DATA, ST_CONTENT_BODY} \<longrightarrow> 0 < remaining p)"
  using http_feed_inv [OF http_create_inv [OF assms(1)] assms(2)]
  by (auto simp: http_inv_def oi_http_max_line_def oi_http_max_body_value_def)

theorem http_parser_bounds_witness:
  "\<exists>p0 st p u'. oi_llm_http_parser_create heap_ok = Some p0
    \<and> oi_llm_http_parser_feed (http_record (\<lambda>_. False)) p0 ([], []) [0x48, 0x54] = (st, Some p, u')
    \<and> length (http_line p) \<le> http_cap p"
proof -
  obtain p0 where p0: "oi_llm_http_parser_create heap_ok = Some p0"
    by (simp add: oi_llm_http_parser_create_def)
  obtain p where p: "oi_llm_http_parser_feed (http_record (\<lambda>_. False)) p0 ([], []) [0x48, 0x54] = (OI_OK, Some p, ([], []))"
    using p0 by (auto simp: oi_llm_http_parser_create_def oi_llm_http_parser_feed.simps is_line_state_def
        http_line_append_def oi_http_max_line_def)
  from http_parser_bounds [OF p0 p] p0 p show ?thesis by blast
qed

text \<open>
  A response with a \<open>Content-Length\<close> is delivered: status code and body reach the client exactly,
  whatever other headers there are and whatever follows the body, and the body is done.
\<close>

theorem http_content_length_delivered:
  assumes "oi_llm_http_parser_create heap_ok = Some p" and "status_ok a b c reason"
    and "\<forall>h \<in> set hs1 \<union> set hs2. plain_header h" and "length_header (length d) lh"
    and "\<not> stop (code_of a b c)"
  shows "\<exists>q. oi_llm_http_parser_feed (http_record stop) p ([], [])
      (crlf (status_line a b c reason) @ header_lines hs1 @ crlf (header lh) @ header_lines hs2 @ crlf [] @ d @ rest)
        = (OI_OK, Some q, ([code_of a b c], d)) \<and> oi_llm_http_parser_body_done q"
proof -
  let ?feed = "oi_llm_http_parser_feed (http_record stop)" and ?c = "code_of a b c"
  let ?r4 = "crlf [] @ d @ rest" let ?r3 = "header_lines hs2 @ ?r4" let ?r2 = "crlf (header lh) @ ?r3"
  let ?r1 = "header_lines hs1 @ ?r2"
  obtain q1 where q1: "http_at ST_HEADER_LINE ?c False (- 1) q1"
      "?feed p ([], []) (crlf (status_line a b c reason) @ ?r1) = ?feed q1 ([], []) ?r1"
    using feed_status_line [OF http_create_at [OF assms(1)] assms(2), of "http_record stop" "([], [])" ?r1] by blast
  obtain q2 where q2: "http_at ST_HEADER_LINE ?c False (- 1) q2" "?feed q1 ([], []) ?r1 = ?feed q2 ([], []) ?r2"
    using feed_plain_headers [OF q1(1), of hs1 "http_record stop" "([], [])" ?r2] assms(3) by auto
  obtain q3 where q3: "http_at ST_HEADER_LINE ?c False (int (length d)) q3"
      "?feed q2 ([], []) ?r2 = ?feed q3 ([], []) ?r3"
    using feed_length_header [OF q2(1) assms(4), of "http_record stop" "([], [])" ?r3] by blast
  obtain q4 where q4: "http_at ST_HEADER_LINE ?c False (int (length d)) q4"
      "?feed q3 ([], []) ?r3 = ?feed q4 ([], []) ?r4"
    using feed_plain_headers [OF q3(1), of hs2 "http_record stop" "([], [])" ?r4] assms(3) by auto
  obtain q5 where q5: "http_at (if d \<noteq> [] then ST_CONTENT_BODY else ST_DONE) ?c False (int (length d)) q5"
      "d \<noteq> [] \<Longrightarrow> remaining q5 = length d" "?feed q4 ([], []) ?r4 = ?feed q5 ([?c], []) (d @ rest)"
    using feed_blank_line [OF q4(1), of stop "[]" "[]" "d @ rest"] assms(5) by auto
  have "\<exists>q. ?feed q5 ([?c], []) (d @ rest) = (OI_OK, Some q, ([?c], d)) \<and> oi_llm_http_parser_body_done q"
  proof (cases "d = []")
    case True
    with q5(1) show ?thesis by (simp add: http_at_def feed_stopped oi_llm_http_parser_body_done_def)
  next
    case False
    with feed_body_run [of q5 d stop "[?c]" "[]" rest] q5(1,2) show ?thesis
      by (auto simp: http_at_def feed_stopped oi_llm_http_parser_body_done_def)
  qed
  with q1(2) q2(2) q3(2) q4(2) q5(3) show ?thesis by simp
qed

theorem http_content_length_delivered_witness:
  "\<exists>p q. oi_llm_http_parser_create heap_ok = Some p
    \<and> oi_llm_http_parser_feed (http_record (\<lambda>_. False)) p ([], [])
        (crlf (status_line 0x32 0x30 0x30 []) @ header_lines [] @ crlf (header (bytes_of ''content-length'', [0x20, 0x32]))
          @ header_lines [([0x41], [0x42])] @ crlf [] @ [0x0A, 0x00] @ [0x58])
      = (OI_OK, Some q, ([code_of 0x32 0x30 0x30], [0x0A, 0x00])) \<and> oi_llm_http_parser_body_done q"
proof -
  obtain p where p: "oi_llm_http_parser_create heap_ok = Some p" by (simp add: oi_llm_http_parser_create_def)
  have s: "status_ok 0x32 0x30 0x30 []"
    by (simp add: status_ok_def status_line_def bytes_of_def fits_line_def is_digit_c_def oi_http_max_line_def)
  have h: "\<forall>h \<in> set [] \<union> set [([0x41], [0x42])]. plain_header h"
    by (simp add: plain_header_def header_def fits_line_def oi_http_max_line_def equals_ignore_case_def
        bytes_of_def)
  have l: "length_header (length [0x0A, 0x00 :: byte]) (bytes_of ''content-length'', [0x20, 0x32])"
    by (simp add: length_header_def header_def fits_line_def oi_http_max_line_def equals_ignore_case_def
        bytes_of_def lower_char_def is_digit_c_def dec_value_def digit_value_def oi_http_max_body_value_def)
  from http_content_length_delivered [OF p s h l, of "\<lambda>_. False" "[0x58]"] p show ?thesis by blast
qed

lemma chunked_delivered:
  assumes "oi_llm_http_parser_create heap_ok = Some p" and "status_ok a b c reason"
    and "\<forall>h \<in> set hs1 \<union> set hs2. plain_header h" and "chunked_header ch"
    and "\<forall>x \<in> set cs. chunk_ok x" and "\<not> stop (code_of a b c)"
  shows "\<exists>q. oi_llm_http_parser_feed (http_record stop) p ([], [])
      (crlf (status_line a b c reason) @ header_lines hs1 @ crlf (header ch) @ header_lines hs2 @ crlf []
        @ concat (map chunk_text cs) @ crlf [0x30] @ crlf [] @ rest)
        = (OI_OK, Some q, ([code_of a b c], concat (map (\<lambda>(hs, ext, d). d) cs))) \<and> oi_llm_http_parser_body_done q"
proof -
  let ?feed = "oi_llm_http_parser_feed (http_record stop)" and ?c = "code_of a b c"
  let ?d = "concat (map (\<lambda>(hs, ext, d). d) cs)"
  let ?r5 = "crlf [0x30] @ crlf [] @ rest" let ?r4 = "concat (map chunk_text cs) @ ?r5"
  let ?r3 = "crlf [] @ ?r4" let ?r2 = "header_lines hs2 @ ?r3" let ?r1 = "crlf (header ch) @ ?r2"
  let ?r0 = "header_lines hs1 @ ?r1"
  obtain q1 where q1: "http_at ST_HEADER_LINE ?c False (- 1) q1"
      "?feed p ([], []) (crlf (status_line a b c reason) @ ?r0) = ?feed q1 ([], []) ?r0"
    using feed_status_line [OF http_create_at [OF assms(1)] assms(2), of "http_record stop" "([], [])" ?r0] by blast
  obtain q2 where q2: "http_at ST_HEADER_LINE ?c False (- 1) q2" "?feed q1 ([], []) ?r0 = ?feed q2 ([], []) ?r1"
    using feed_plain_headers [OF q1(1), of hs1 "http_record stop" "([], [])" ?r1] assms(3) by auto
  obtain q3 where q3: "http_at ST_HEADER_LINE ?c True (- 1) q3" "?feed q2 ([], []) ?r1 = ?feed q3 ([], []) ?r2"
    using feed_chunked_header [OF q2(1) assms(4), of "http_record stop" "([], [])" ?r2] by blast
  obtain q4 where q4: "http_at ST_HEADER_LINE ?c True (- 1) q4" "?feed q3 ([], []) ?r2 = ?feed q4 ([], []) ?r3"
    using feed_plain_headers [OF q3(1), of hs2 "http_record stop" "([], [])" ?r3] assms(3) by auto
  obtain q5 where q5: "http_at ST_CHUNK_SIZE_LINE ?c True (- 1) q5"
      "?feed q4 ([], []) ?r3 = ?feed q5 ([?c], []) ?r4"
    using feed_blank_line [OF q4(1), of stop "[]" "[]" ?r4] assms(6) by auto
  obtain q6 where q6: "http_at ST_CHUNK_SIZE_LINE ?c True (- 1) q6"
      "?feed q5 ([?c], []) ?r4 = ?feed q6 ([?c], ?d) ?r5"
    using feed_chunk_list [OF q5(1) assms(5), of stop "[?c]" "[]" ?r5] by auto
  have "hex_string [0x30]" "hex_number 0 [0x30] = int 0" "fits_line ([0x30] @ [])"
    by (simp_all add: hex_string_def hex_number_def hex_value_def fits_line_def oi_http_max_line_def)
  then obtain q7 where q7: "http_at ST_FINAL_CRLF ?c True (- 1) q7"
      "?feed q6 ([?c], ?d) ?r5 = ?feed q7 ([?c], ?d) (crlf [] @ rest)"
    using feed_size_line [OF q6(1), of "[0x30]" "[]" 0 "http_record stop" "([?c], ?d)" "crlf [] @ rest"]
    by (auto simp: oi_http_max_body_value_def)
  obtain q8 where q8: "http_at ST_DONE ?c True (- 1) q8"
      "?feed q7 ([?c], ?d) (crlf [] @ rest) = ?feed q8 ([?c], ?d) rest"
    using feed_empty_line [OF q7(1), of ST_DONE "http_record stop" "([?c], ?d)" rest] by blast
  have "?feed q8 ([?c], ?d) rest = (OI_OK, Some q8, ([?c], ?d))"
    using q8(1) by (simp add: http_at_def feed_stopped)
  with q1(2) q2(2) q3(2) q4(2) q5(2) q6(2) q7(2) q8 done_at show ?thesis by auto
qed

text \<open>
  C18. A chunked response is delivered: the client gets the status code and the concatenated data of the
  chunks, whatever their extensions and however the lengths are written, and the body is done.
\<close>

theorem http_chunked_delivered:
  assumes "oi_llm_http_parser_create heap_ok = Some p" and "status_ok a b c reason"
    and "\<forall>h \<in> set hs1 \<union> set hs2. plain_header h" and "chunked_header ch"
    and "\<forall>x \<in> set cs. chunk_ok x" and "\<not> stop (code_of a b c)"
  shows "\<exists>q. oi_llm_http_parser_feed (http_record stop) p ([], [])
      (crlf (status_line a b c reason) @ header_lines hs1 @ crlf (header ch) @ header_lines hs2 @ crlf []
        @ concat (map chunk_text cs) @ crlf [0x30] @ crlf [] @ rest)
        = (OI_OK, Some q, ([code_of a b c], concat (map (\<lambda>(hs, ext, d). d) cs))) \<and> oi_llm_http_parser_body_done q"
  using chunked_delivered [OF assms(1-5), of stop rest] assms(6) by blast

theorem http_chunked_delivered_witness:
  "\<exists>p q. oi_llm_http_parser_create heap_ok = Some p
    \<and> oi_llm_http_parser_feed (http_record (\<lambda>_. False)) p ([], [])
        (crlf (status_line 0x32 0x30 0x30 []) @ header_lines []
          @ crlf (header (bytes_of ''Transfer-encoding'', bytes_of '' Chunked'')) @ header_lines [] @ crlf []
          @ concat (map chunk_text [([0x30, 0x32], [0x3B, 0x61], [0x0D, 0x0A]), ([0x31], [], [0x41])])
          @ crlf [0x30] @ crlf [] @ [])
      = (OI_OK, Some q, ([code_of 0x32 0x30 0x30],
           concat (map (\<lambda>(hs, ext, d). d) [([0x30, 0x32 :: byte], [0x3B, 0x61 :: byte], [0x0D, 0x0A]), ([0x31], [], [0x41])])))
      \<and> oi_llm_http_parser_body_done q"
proof -
  obtain p where p: "oi_llm_http_parser_create heap_ok = Some p" by (simp add: oi_llm_http_parser_create_def)
  have s: "status_ok 0x32 0x30 0x30 []"
    by (simp add: status_ok_def status_line_def bytes_of_def fits_line_def is_digit_c_def oi_http_max_line_def)
  have h: "\<forall>h \<in> set [] \<union> set []. plain_header h" by simp
  have t: "chunked_header (bytes_of ''Transfer-encoding'', bytes_of '' Chunked'')"
    by (simp add: chunked_header_def header_def fits_line_def oi_http_max_line_def equals_ignore_case_def
        bytes_of_def lower_char_def)
  have c: "\<forall>x \<in> set [([0x30, 0x32], [0x3B, 0x61], [0x0D, 0x0A]), ([0x31], [], [0x41])]. chunk_ok x"
    by (simp add: chunk_ok_def hex_string_def hex_number_def hex_value_def fits_line_def oi_http_max_line_def
        oi_http_max_body_value_def)
  from http_chunked_delivered [OF p s h t c, of "\<lambda>_. False" "[]"] p show ?thesis by blast
qed

text \<open>
  Errors are sticky, for any client: after a feed that fails the parser reports failure and answers
  \<open>OI_ERR_PARSE\<close> to every further byte without a callback and without changing.
\<close>

theorem http_errors_sticky:
  assumes "oi_llm_http_parser_feed cb p u bs = (st, Some p', u')" and "st \<noteq> OI_OK"
  shows "oi_llm_http_parser_failed p' \<and> oi_llm_http_parser_feed cb p' v (c # cs) = (OI_ERR_PARSE, Some p', v)"
  using http_feed_failed [OF assms] by (simp add: oi_llm_http_parser_failed_def feed_stopped)

theorem http_errors_sticky_witness:
  "\<exists>p p'. oi_llm_http_parser_create heap_ok = Some p
    \<and> oi_llm_http_parser_feed (http_record (\<lambda>_. False)) p ([], []) [0x0A] = (OI_ERR_PARSE, Some p', ([], []))
    \<and> oi_llm_http_parser_feed (http_record (\<lambda>_. False)) p' ([], []) (0x48 # [])
        = (OI_ERR_PARSE, Some p', ([], []))"
proof -
  obtain p where p: "oi_llm_http_parser_create heap_ok = Some p" by (simp add: oi_llm_http_parser_create_def)
  obtain p' where f: "oi_llm_http_parser_feed (http_record (\<lambda>_. False)) p ([], []) [0x0A] = (OI_ERR_PARSE, Some p', ([], []))"
    using p by (auto simp: oi_llm_http_parser_create_def oi_llm_http_parser_feed.simps is_line_state_def
        http_strip_cr_def on_line_complete_def handle_status_line_def http_fail_def)
  have "OI_ERR_PARSE \<noteq> OI_OK" by simp
  from http_errors_sticky [OF f this] p f show ?thesis by blast
qed

end
