(* ===== verification/Sesslog.thy ===== *)
theory Sesslog
  imports Prelude
begin

text \<open>
  \<open>src/sesslog.c\<close>: the append-only session log. The state is the file's content; the lock taken at
  \<open>open\<close> keeps every other process from changing it. What the system calls answer is an argument of
  each operation: whether \<open>open\<close>, \<open>flock\<close>, \<open>fstat\<close>, \<open>ftruncate\<close> and \<open>malloc\<close> succeed, how many
  bytes each \<open>pread\<close> gives at most (or that it fails), and what each \<open>write\<close> does. An operation that
  retries an interrupted \<open>write\<close> for ever has no result.
\<close>

definition oi_sesslog_max_record :: nat where "oi_sesslog_max_record = 67108864"
definition oi_sesslog_magic :: bytes where "oi_sesslog_magic = bytes_of ''OISESLOG''"
definition oi_sesslog_version :: "32 word" where "oi_sesslog_version = 1"
definition oi_sesslog_header_len :: nat where "oi_sesslog_header_len = 12"

datatype write_answer = Wrote nat | Write_eintr | Write_error

record syscalls =
  sys_open :: bool
  sys_flock :: bool
  sys_fstat :: bool
  sys_truncate :: bool
  sys_malloc :: heap
  sys_pread :: "nat option stream"
  sys_write :: "write_answer stream"

definition encode_u32le :: "32 word \<Rightarrow> bytes" where
  "encode_u32le v =
     [ucast (v AND 0xFF), ucast (drop_bit 8 v AND 0xFF), ucast (drop_bit 16 v AND 0xFF),
      ucast (drop_bit 24 v AND 0xFF)]"

definition decode_u32le :: "bytes \<Rightarrow> 32 word" where
  "decode_u32le b =
     ucast (b ! 0) OR push_bit 8 (ucast (b ! 1)) OR push_bit 16 (ucast (b ! 2)) OR push_bit 24 (ucast (b ! 3))"

definition best_effort_truncate :: "syscalls \<Rightarrow> nat \<Rightarrow> bytes \<Rightarrow> bytes" where
  "best_effort_truncate c n file = (if sys_truncate c then take n file else file)"

text \<open>One \<open>pread\<close> of \<open>len\<close> bytes at \<open>pos\<close> that gives at most the answered number of bytes.\<close>

definition pread_bytes :: "nat option \<Rightarrow> bytes \<Rightarrow> nat \<Rightarrow> nat \<Rightarrow> bytes option" where
  "pread_bytes answer file pos len = map_option (\<lambda>k. take (min k len) (drop pos file)) answer"

function scan_for_valid_end :: "nat option stream \<Rightarrow> bytes \<Rightarrow> nat \<Rightarrow> oi_status + nat" where
  "scan_for_valid_end rd file pos =
     (if pos \<le> length file \<and> length file - pos \<ge> 4 then
        (case pread_bytes (shd rd) file pos 4 of
           None \<Rightarrow> Inl OI_ERR_IO
         | Some len_buf \<Rightarrow>
             if length len_buf < 4 then Inr pos
             else let rec_len = unat (decode_u32le len_buf) in
               if rec_len > oi_sesslog_max_record then Inr pos
               else if rec_len > length file - pos - 4 then Inr pos
               else scan_for_valid_end (stl rd) file (pos + 4 + rec_len))
      else Inr pos)"
  by pat_completeness auto
termination
  by (relation "measure (\<lambda>(rd, file, pos). length file - pos)") auto

declare scan_for_valid_end.simps [simp del]

text \<open>One \<open>write\<close> at the end of the file: how many bytes it reports, and the file after it.\<close>

fun write_once :: "write_answer \<Rightarrow> bytes \<Rightarrow> bytes \<Rightarrow> nat option \<times> bytes" where
  "write_once (Wrote n) buf file = (Some (min n (length buf)), file @ take n buf)"
| "write_once Write_eintr buf file = (None, file)"
| "write_once Write_error buf file = (None, file)"

definition header_bytes :: bytes where
  "header_bytes = oi_sesslog_magic @ encode_u32le oi_sesslog_version"

text \<open>The result of \<open>open\<close> and the file's content after it; a file that did not exist is empty.\<close>

definition oi_sesslog_open :: "syscalls \<Rightarrow> bytes \<Rightarrow> oi_status \<times> bytes" where
  "oi_sesslog_open c file =
     (let allocate = (\<lambda>file. if \<not> shd (sys_malloc c) then (OI_ERR_NOMEM, file) else (OI_OK, file)) in
      if \<not> sys_open c then (OI_ERR_IO, file)
      else if \<not> sys_flock c then (OI_ERR_EXISTS, file)
      else if \<not> sys_fstat c then (OI_ERR_IO, file)
      else if length file = 0 then
        (case write_once (shd (sys_write c)) header_bytes file of
           (n, file') \<Rightarrow>
             if n \<noteq> Some oi_sesslog_header_len then (OI_ERR_IO, best_effort_truncate c 0 file')
             else allocate file')
      else if length file < oi_sesslog_header_len then (OI_ERR_PARSE, file)
      else (case pread_bytes (shd (sys_pread c)) file 0 oi_sesslog_header_len of
          None \<Rightarrow> (OI_ERR_IO, file)
        | Some header \<Rightarrow>
            if length header \<noteq> oi_sesslog_header_len then (OI_ERR_IO, file)
            else if take 8 header \<noteq> oi_sesslog_magic then (OI_ERR_PARSE, file)
            else if decode_u32le (drop 8 header) \<noteq> oi_sesslog_version then (OI_ERR_PARSE, file)
            else (case scan_for_valid_end (stl (sys_pread c)) file oi_sesslog_header_len of
                Inl st \<Rightarrow> (st, file)
              | Inr valid_end \<Rightarrow>
                  if valid_end < length file then
                    (if \<not> sys_truncate c then (OI_ERR_IO, file) else allocate (take valid_end file))
                  else allocate file)))"

text \<open>The loop \<open>do { n = write(...); } while (n < 0 && errno == EINTR);\<close>\<close>

partial_function (option) write_retry ::
  "write_answer stream \<Rightarrow> bytes \<Rightarrow> bytes \<Rightarrow> (nat option \<times> bytes) option" where
  "write_retry ws buf file =
     (if shd ws = Write_eintr then write_retry (stl ws) buf file else Some (write_once (shd ws) buf file))"

definition record_bytes :: "bytes \<Rightarrow> bytes" where
  "record_bytes d = encode_u32le (word_of_nat (length d)) @ d"

definition oi_sesslog_append :: "syscalls \<Rightarrow> bytes \<Rightarrow> bytes \<Rightarrow> (oi_status \<times> bytes) option" where
  "oi_sesslog_append c file d =
     (if length d > oi_sesslog_max_record then Some (OI_ERR_INVAL, file)
      else if \<not> sys_fstat c then Some (OI_ERR_IO, file)
      else if \<not> shd (sys_malloc c) then Some (OI_ERR_NOMEM, file)
      else let total = 4 + length d in
        (case write_retry (sys_write c) (record_bytes d) file of
           None \<Rightarrow> None
         | Some (n, file') \<Rightarrow>
             if n \<noteq> Some total then Some (OI_ERR_IO, best_effort_truncate c (length file) file')
             else Some (OI_OK, file')))"

text \<open>The records given to the callback, in order, and the status.\<close>

function replay_from :: "nat option stream \<Rightarrow> heap \<Rightarrow> bytes \<Rightarrow> nat \<Rightarrow> oi_status \<times> bytes list" where
  "replay_from rd h file pos =
     (if pos \<le> length file \<and> length file - pos \<ge> 4 then
        (case pread_bytes (shd rd) file pos 4 of
           None \<Rightarrow> (OI_ERR_IO, [])
         | Some len_buf \<Rightarrow>
             if length len_buf \<noteq> 4 then (OI_ERR_IO, [])
             else let rec_len = unat (decode_u32le len_buf) in
               if rec_len > length file - pos - 4 then (OI_ERR_IO, [])
               else if rec_len = 0 then
                 (case replay_from (stl rd) h file (pos + 4) of (st, ds) \<Rightarrow> (st, [] # ds))
               else if \<not> shd h then (OI_ERR_NOMEM, [])
               else (case pread_bytes (shd (stl rd)) file (pos + 4) rec_len of
                   None \<Rightarrow> (OI_ERR_IO, [])
                 | Some payload \<Rightarrow>
                     if length payload \<noteq> rec_len then (OI_ERR_IO, [])
                     else (case replay_from (stl (stl rd)) (stl h) file (pos + 4 + rec_len) of
                       (st, ds) \<Rightarrow> (st, payload # ds))))
      else (OI_OK, []))"
  by pat_completeness auto
termination
  by (relation "measure (\<lambda>(rd, h, file, pos). length file - pos)") auto

declare replay_from.simps [simp del]

definition oi_sesslog_replay :: "syscalls \<Rightarrow> bytes \<Rightarrow> oi_status \<times> bytes list" where
  "oi_sesslog_replay c file =
     (if \<not> sys_fstat c then (OI_ERR_IO, [])
      else replay_from (sys_pread c) (sys_malloc c) file oi_sesslog_header_len)"

section \<open>Records\<close>

lemma encode_length [simp]: "length (encode_u32le v) = 4"
  by (simp add: encode_u32le_def)

lemma mask_byte: "(0xFF :: 32 word) = mask 8"
  by (simp add: mask_eq_exp_minus_1)

lemma decode_encode_u32 [simp]: "decode_u32le (encode_u32le v) = v"
proof (rule bit_word_eqI)
  fix n assume n: "n < LENGTH(32)"
  then have "n < 8 \<or> 8 \<le> n \<and> n < 16 \<or> 16 \<le> n \<and> n < 24 \<or> 24 \<le> n \<and> n < 32" by fastforce
  then show "bit (decode_u32le (encode_u32le v)) n = bit v n"
    unfolding decode_u32le_def encode_u32le_def mask_byte
    by (elim disjE) (auto simp: bit_simps bit_mask_iff)
qed

lemma record_length: "length d \<le> oi_sesslog_max_record \<Longrightarrow> unat (word_of_nat (length d) :: 32 word) = length d"
  by (simp add: oi_sesslog_max_record_def unat_of_nat)

section \<open>The format of the log\<close>

definition valid_record :: "bytes \<Rightarrow> bool" where
  "valid_record d \<longleftrightarrow> length d \<le> oi_sesslog_max_record"

definition records_bytes :: "bytes list \<Rightarrow> bytes" where
  "records_bytes ds = concat (map record_bytes ds)"

definition log_bytes :: "bytes list \<Rightarrow> bytes" where
  "log_bytes ds = header_bytes @ records_bytes ds"

lemma header_length [simp]: "length header_bytes = oi_sesslog_header_len"
  by (simp add: header_bytes_def oi_sesslog_magic_def bytes_of_def oi_sesslog_header_len_def)

lemma record_bytes_length [simp]: "length (record_bytes d) = 4 + length d"
  by (simp add: record_bytes_def)

lemma records_bytes_simps [simp]:
  "records_bytes [] = []" "records_bytes (d # ds) = record_bytes d @ records_bytes ds"
  "records_bytes (ds @ es) = records_bytes ds @ records_bytes es"
  by (simp_all add: records_bytes_def)

text \<open>Reads that always give what they are asked for.\<close>

definition full_reads :: "nat option stream \<Rightarrow> bool" where
  "full_reads rd \<longleftrightarrow> (\<forall>n. \<exists>k. snth rd n = Some k \<and> size_max \<le> k)"

lemma full_reads_stl [simp]: "full_reads rd \<Longrightarrow> full_reads (stl rd)"
  unfolding full_reads_def by (metis snth.simps(2))

lemma full_reads_const: "full_reads (sconst (Some size_max))"
  by (simp add: full_reads_def)

lemma full_read:
  assumes "full_reads rd" and "len \<le> size_max"
  shows "pread_bytes (shd rd) file pos len = Some (take len (drop pos file))"
proof -
  obtain k where "shd rd = Some k" "size_max \<le> k" using assms(1) by (auto simp: full_reads_def dest: spec [of _ 0])
  with assms(2) show ?thesis by (simp add: pread_bytes_def min_absorb2)
qed

lemma max_record_small: "oi_sesslog_max_record \<le> size_max" "4 \<le> size_max" "oi_sesslog_header_len \<le> size_max"
  by (simp_all add: oi_sesslog_max_record_def size_max_def oi_sesslog_header_len_def)

lemma length_prefix:
  assumes "take 4 (drop pos file) = encode_u32le (word_of_nat (length d))" and "valid_record d"
  shows "unat (decode_u32le (take 4 (drop pos file))) = length d"
  using assms by (simp add: record_length valid_record_def)

lemma record_prefix [simp]:
  "take 4 (record_bytes d @ r) = encode_u32le (word_of_nat (length d))"
  "take 4 (record_bytes d) = encode_u32le (word_of_nat (length d))"
  by (simp_all add: record_bytes_def)

text \<open>A torn record: a proper prefix of one.\<close>

definition torn :: "bytes \<Rightarrow> bool" where
  "torn t \<longleftrightarrow> (\<exists>d k. valid_record d \<and> k < length (record_bytes d) \<and> t = take k (record_bytes d))"

lemma scan_torn:
  assumes "full_reads rd" and "torn t"
  shows "scan_for_valid_end rd (pre @ t) (length pre) = Inr (length pre)"
proof -
  obtain d k where d: "valid_record d" "k < 4 + length d" "t = take k (record_bytes d)"
    using assms(2) by (auto simp: torn_def)
  show ?thesis
  proof (cases "k < 4")
    case True
    with d show ?thesis by (subst scan_for_valid_end.simps) simp
  next
    case False
    then have t: "take 4 t = encode_u32le (word_of_nat (length d))" "length t = k"
      using d by (simp_all add: record_bytes_def)
    have "pread_bytes (shd rd) (pre @ t) (length pre) 4 = Some (encode_u32le (word_of_nat (length d)))"
      using full_read [OF assms(1) max_record_small(2), of "pre @ t" "length pre"] t by simp
    with d False t show ?thesis
      by (subst scan_for_valid_end.simps) (simp add: record_length valid_record_def Let_def less_diff_conv2)
  qed
qed

lemma scan_records:
  assumes "full_reads rd" and "list_all valid_record ds" and "torn t"
  shows "scan_for_valid_end rd (pre @ records_bytes ds @ t) (length pre) = Inr (length pre + length (records_bytes ds))"
  using assms
proof (induction ds arbitrary: rd pre)
  case Nil
  then show ?case using scan_torn by simp
next
  case (Cons d ds)
  let ?f = "pre @ records_bytes (d # ds) @ t"
  have r: "pread_bytes (shd rd) ?f (length pre) 4 = Some (encode_u32le (word_of_nat (length d)))"
    using full_read [OF Cons.prems(1) max_record_small(2), of ?f "length pre"] by simp
  have "scan_for_valid_end rd ?f (length pre) = scan_for_valid_end (stl rd) ?f (length pre + 4 + length d)"
    using r Cons.prems(2) by (subst scan_for_valid_end.simps) (simp add: record_length valid_record_def)
  also have "\<dots> = Inr (length pre + length (records_bytes (d # ds)))"
    using Cons.IH [of "stl rd" "pre @ record_bytes d"] Cons.prems by (simp add: add.assoc)
  finally show ?case .
qed

lemma torn_nil [simp]: "torn []"
  unfolding torn_def by (intro exI [of _ "[]"] exI [of _ 0]) (simp add: valid_record_def)

lemma replay_records:
  assumes "full_reads rd" and "list_all valid_record ds" and "h = heap_ok"
  shows "replay_from rd h (pre @ records_bytes ds) (length pre) = (OI_OK, ds)"
  using assms
proof (induction ds arbitrary: rd pre)
  case Nil
  then show ?case by (subst replay_from.simps) simp
next
  case (Cons d ds)
  let ?f = "pre @ records_bytes (d # ds)"
  have v: "length d \<le> size_max" using Cons.prems(2) max_record_small(1) by (simp add: valid_record_def)
  have r: "pread_bytes (shd rd) ?f (length pre) 4 = Some (encode_u32le (word_of_nat (length d)))"
    using full_read [OF Cons.prems(1) max_record_small(2), of ?f "length pre"] by simp
  have p: "pread_bytes (shd (stl rd)) ?f (length pre + 4) (length d) = Some d"
    using full_read [OF full_reads_stl [OF Cons.prems(1)] v, of ?f "length pre + 4"] by (simp add: record_bytes_def)
  have IH: "replay_from rd' h ?f (length pre + 4 + length d) = (OI_OK, ds)" if "full_reads rd'" for rd'
    using Cons.IH [of rd' "pre @ record_bytes d"] Cons.prems that by (simp add: add.assoc)
  show ?case
  proof (cases "d = []")
    case True
    with r IH [of "stl rd"] Cons.prems show ?thesis
      by (subst replay_from.simps) (simp add: record_length valid_record_def)
  next
    case False
    with r p IH [of "stl (stl rd)"] Cons.prems show ?thesis
      by (subst replay_from.simps) (simp add: record_length valid_record_def)
  qed
qed

section \<open>Writing\<close>

lemma write_retry_Some:
  assumes "write_retry ws buf img = Some r"
  shows "\<exists>a. a \<noteq> Write_eintr \<and> r = write_once a buf img"
proof (rule write_retry.raw_induct [OF _ assms])
  fix wr ws buf img r
  assume IH: "\<And>ws buf img r. wr ws buf img = Some r \<Longrightarrow> \<exists>a. a \<noteq> Write_eintr \<and> r = write_once a buf img"
    and r: "(if shd ws = Write_eintr then wr (stl ws) buf img else Some (write_once (shd ws) buf img)) = Some r"
  show "\<exists>a. a \<noteq> Write_eintr \<and> r = write_once a buf img"
    using IH [of "stl ws" buf img r] r by (auto split: if_split_asm)
qed

lemma write_retry_returns:
  "snth ws n \<noteq> Write_eintr \<Longrightarrow> \<exists>r. write_retry ws buf img = Some r"
proof (induction n arbitrary: ws)
  case 0
  then show ?case by (subst write_retry.simps) simp
next
  case (Suc n)
  then show ?case by (subst write_retry.simps) auto
qed

lemma write_once_cases:
  assumes "write_once a buf img = (n, img')"
  obtains "n = Some (length buf)" "img' = img @ buf"
  | k where "n \<noteq> Some (length buf)" "k < length buf \<or> k = 0" "img' = img @ take k buf"
proof (cases a)
  case (Wrote m)
  show ?thesis
  proof (cases "m < length buf")
    case True
    with assms Wrote show ?thesis by (intro that(2) [of m]) auto
  next
    case False
    with assms Wrote show ?thesis by (intro that(1)) auto
  qed
qed (use assms that(2) [of 0] in auto)

lemma take_torn: "valid_record d \<Longrightarrow> k < 4 + length d \<or> k = 0 \<Longrightarrow> torn (take k (record_bytes d))"
  unfolding torn_def by (intro exI [of _ d] exI [of _ k]) auto

lemma log_bytes_snoc: "log_bytes ds @ record_bytes d = log_bytes (ds @ [d])"
  by (simp add: log_bytes_def)

lemma append_result:
  assumes "oi_sesslog_append c img d = Some (st, img')"
  shows "st = OI_OK \<and> valid_record d \<and> img' = img @ record_bytes d
    \<or> st \<noteq> OI_OK \<and> (\<exists>t. torn t \<and> img' = img @ t) \<and> (sys_truncate c \<longrightarrow> img' = img)"
proof (cases "valid_record d \<and> sys_fstat c \<and> shd (sys_malloc c)")
  case True
  with assms obtain n f1 where w: "write_retry (sys_write c) (record_bytes d) img = Some (n, f1)"
    by (auto simp: oi_sesslog_append_def valid_record_def split: option.splits)
  then obtain a where a: "write_once a (record_bytes d) img = (n, f1)" using write_retry_Some [OF w] by auto
  from a show ?thesis
  proof (cases rule: write_once_cases)
    case 1
    with assms w True show ?thesis by (auto simp: oi_sesslog_append_def valid_record_def)
  next
    case (2 k)
    with assms w True take_torn [of d k] torn_nil show ?thesis
      by (auto simp: oi_sesslog_append_def valid_record_def best_effort_truncate_def)
  qed
next
  case False
  with assms show ?thesis
    by (auto simp: oi_sesslog_append_def valid_record_def split: if_split_asm intro!: exI [of _ "[]"])
qed

lemma encode_decode_u32:
  assumes "length b = 4"
  shows "encode_u32le (decode_u32le b) = b"
proof -
  obtain b0 b1 b2 b3 where b: "b = [b0, b1, b2, b3]"
    using assms by (auto simp: eval_nat_numeral length_Suc_conv)
  have "ucast (decode_u32le b AND 0xFF) = b0" "ucast (drop_bit 8 (decode_u32le b) AND 0xFF) = b1"
    "ucast (drop_bit 16 (decode_u32le b) AND 0xFF) = b2" "ucast (drop_bit 24 (decode_u32le b) AND 0xFF) = b3"
    unfolding b decode_u32le_def mask_byte
    by (rule bit_word_eqI, auto simp: bit_simps bit_mask_iff dest: bit_imp_le_length)+
  then show ?thesis by (simp add: encode_u32le_def b)
qed

section \<open>Opening\<close>

lemma scan_error: "scan_for_valid_end rd img pos = Inl st \<Longrightarrow> st = OI_ERR_IO"
proof (induction rd img pos rule: scan_for_valid_end.induct)
  case (1 rd img pos)
  then show ?case
    by (auto simp: scan_for_valid_end.simps [of rd img pos] Let_def split: if_split_asm option.splits)
qed

text \<open>Whatever the img holds, scanning stops at the end of a run of whole records.\<close>

lemma scan_wellformed:
  "scan_for_valid_end rd img pos = Inr n \<Longrightarrow> pos \<le> length img \<Longrightarrow>
     \<exists>ds. list_all valid_record ds \<and> take n img = take pos img @ records_bytes ds \<and> n \<le> length img"
proof (induction rd img pos rule: scan_for_valid_end.induct)
  case (1 rd img pos)
  show ?case
  proof (cases "length img - pos \<ge> 4 \<and> scan_for_valid_end rd img pos \<noteq> Inr pos")
    case False
    have "n = pos" using 1 False
      by (auto simp: scan_for_valid_end.simps [of rd img pos] split: if_split_asm)
    with "1.prems" show ?thesis by (intro exI [of _ "[]"]) simp
  next
    case True
    with "1.prems"(1) obtain lb where lb: "pread_bytes (shd rd) img pos 4 = Some lb" "\<not> length lb < 4"
      "\<not> unat (decode_u32le lb) > oi_sesslog_max_record" "\<not> unat (decode_u32le lb) > length img - pos - 4"
      "scan_for_valid_end (stl rd) img (pos + 4 + unat (decode_u32le lb)) = Inr n"
      by (auto simp: scan_for_valid_end.simps [of rd img pos] Let_def split: option.splits if_split_asm)
    let ?m = "unat (decode_u32le lb)"
    have le: "pos + 4 + ?m \<le> length img" using lb(4) True by arith
    obtain ds where ds: "list_all valid_record ds" "n \<le> length img"
        "take n img = take (pos + 4 + ?m) img @ records_bytes ds"
      using "1.IH" [OF _ lb(1,2) refl lb(3,4,5) le] True "1.prems"(2) by blast
    define d where "d = take ?m (drop (pos + 4) img)"
    have l: "length d = ?m" using lb(4) True by (simp add: d_def)
    have "lb = take 4 (drop pos img)" "length lb = 4"
      using lb(1,2) True by (auto simp: pread_bytes_def min_def split: if_split_asm)
    then have "encode_u32le (word_of_nat (length d)) = take 4 (drop pos img)"
      using encode_decode_u32 [of lb] by (simp add: l)
    then have "record_bytes d = take 4 (drop pos img) @ take ?m (drop 4 (drop pos img))"
      by (simp only: record_bytes_def d_def drop_drop) (simp add: add.commute)
    also have "\<dots> = take (4 + ?m) (drop pos img)" by (simp only: take_add)
    finally have "take n img = take pos img @ records_bytes (d # ds)"
      using ds(3) by (simp add: take_add add.assoc)
    moreover have "valid_record d" using lb(3) by (simp add: valid_record_def l)
    ultimately show ?thesis using ds(1,2) by (intro exI [of _ "d # ds"]) simp
  qed
qed

lemma open_wellformed:
  assumes "oi_sesslog_open c img = (OI_OK, img')"
  shows "\<exists>ds. list_all valid_record ds \<and> img' = log_bytes ds \<and> (img = [] \<and> ds = [] \<or> img' = take (length img') img)"
proof (cases "img = []")
  case True
  obtain n f1 where w: "write_once (shd (sys_write c)) header_bytes [] = (n, f1)" by fastforce
  then show ?thesis
  proof (cases rule: write_once_cases)
    case 1
    with w assms True have "img' = header_bytes"
      by (auto simp: oi_sesslog_open_def Let_def split: if_split_asm)
    with True show ?thesis by (intro exI [of _ "[]"]) (simp add: log_bytes_def)
  next
    case (2 k)
    with w assms True show ?thesis
      by (auto simp: oi_sesslog_open_def Let_def split: if_split_asm)
  qed
next
  case False
  with assms obtain hd n where h: "pread_bytes (shd (sys_pread c)) img 0 oi_sesslog_header_len = Some hd"
      "length hd = oi_sesslog_header_len" "take 8 hd = oi_sesslog_magic" "decode_u32le (drop 8 hd) = oi_sesslog_version"
    and n: "scan_for_valid_end (stl (sys_pread c)) img oi_sesslog_header_len = Inr n"
      "oi_sesslog_header_len \<le> length img" "img' = take n img"
    by (auto simp: oi_sesslog_open_def Let_def dest: scan_error split: if_split_asm option.splits sum.splits)
  have "drop 8 hd = encode_u32le oi_sesslog_version"
    using encode_decode_u32 [of "drop 8 hd"] h(2,4) by (simp add: oi_sesslog_header_len_def)
  then have "hd = header_bytes" using h(3) by (metis append_take_drop_id header_bytes_def)
  moreover have "hd = take oi_sesslog_header_len img"
    using h(1,2) n(2) by (auto simp: pread_bytes_def min_def split: if_split_asm)
  ultimately obtain ds where "list_all valid_record ds" "take n img = log_bytes ds" "n \<le> length img"
    using scan_wellformed [OF n(1,2)] by (auto simp: log_bytes_def)
  moreover have "take (length (take n img)) img = take n img" by (simp add: min_def)
  ultimately show ?thesis using n(3) by metis
qed

lemma open_recovers:
  assumes "list_all valid_record ds" and "torn t" and "full_reads (sys_pread c)"
    and "oi_sesslog_open c (log_bytes ds @ t) = (OI_OK, img')"
  shows "img' = log_bytes ds"
proof -
  let ?f = "log_bytes ds @ t"
  have l: "oi_sesslog_header_len \<le> length ?f" by (simp add: log_bytes_def)
  then have ne: "?f \<noteq> []" by (auto simp: oi_sesslog_header_len_def)
  have "scan_for_valid_end (stl (sys_pread c)) ?f oi_sesslog_header_len = Inr (length (log_bytes ds))"
    using scan_records [OF full_reads_stl [OF assms(3)] assms(1,2), of header_bytes] by (simp add: log_bytes_def)
  with assms(4) l ne show ?thesis
    by (auto simp: oi_sesslog_open_def Let_def split: if_split_asm option.splits)
qed

section \<open>Properties\<close>

lemma log_bytes_not_nil [simp]: "log_bytes ds \<noteq> []"
proof
  assume "log_bytes ds = []"
  then have "length header_bytes = 0" by (simp add: log_bytes_def)
  then show False by (simp add: oi_sesslog_header_len_def)
qed

text \<open>A run of appends: the accepted records and the file. There is no result if one never returns.\<close>

fun append_all :: "(syscalls \<times> bytes) list \<Rightarrow> bytes \<Rightarrow> (bytes list \<times> bytes) option" where
  "append_all [] file = Some ([], file)"
| "append_all ((c, d) # ops) file =
     (case oi_sesslog_append c file d of
        None \<Rightarrow> None
      | Some (st, file') \<Rightarrow>
          map_option (\<lambda>(acc, f). (if st = OI_OK then d # acc else acc, f)) (append_all ops file'))"

lemma append_all_log:
  assumes "\<forall>op \<in> set ops. sys_truncate (fst op)" and "list_all valid_record ds"
    and "append_all ops (log_bytes ds) = Some (acc, img)"
  shows "list_all valid_record (ds @ acc) \<and> img = log_bytes (ds @ acc)"
  using assms
proof (induction ops arbitrary: ds acc)
  case (Cons op ops)
  obtain c d where op: "op = (c, d)" by fastforce
  with Cons.prems(3) obtain st img1 acc1 where a: "oi_sesslog_append c (log_bytes ds) d = Some (st, img1)"
      "append_all ops img1 = Some (acc1, img)" "acc = (if st = OI_OK then d # acc1 else acc1)"
    by (auto split: option.splits prod.splits)
  show ?case
  proof (cases "st = OI_OK")
    case True
    with append_result [OF a(1)] have "valid_record d" "img1 = log_bytes (ds @ [d])"
      by (simp_all add: log_bytes_snoc)
    with Cons.IH [of "ds @ [d]" acc1] Cons.prems a True show ?thesis by simp
  next
    case False
    with append_result [OF a(1)] Cons.prems(1) op have "img1 = log_bytes ds" by simp
    with Cons.IH [of ds acc1] Cons.prems a False show ?thesis by simp
  qed
qed simp

lemma replay_log:
  assumes "list_all valid_record ds" and "sys_fstat c" and "sys_malloc c = heap_ok" and "full_reads (sys_pread c)"
  shows "oi_sesslog_replay c (log_bytes ds) = (OI_OK, ds)"
  using replay_records [OF assms(4,1,3), of header_bytes] assms(2)
  by (simp add: oi_sesslog_replay_def log_bytes_def)

text \<open>
  C20. Durability across a crash. A new log is opened, any number of appends is tried, each with
  whatever its system calls answer (only a roll-back by \<open>ftruncate\<close> may not fail), and then the process
  dies in the middle of a write, leaving any torn record at the end. When the log is opened again,
  replay delivers exactly the records whose append answered \<open>OI_OK\<close>, in order.
\<close>

theorem sesslog_crash_durability:
  assumes "oi_sesslog_open c0 [] = (OI_OK, img0)" and "\<forall>op \<in> set ops. sys_truncate (fst op)"
    and "append_all ops img0 = Some (accepted, img1)" and "torn t"
    and "oi_sesslog_open c1 (img1 @ t) = (OI_OK, img2)" and "full_reads (sys_pread c1)"
    and "sys_fstat c2" and "sys_malloc c2 = heap_ok" and "full_reads (sys_pread c2)"
  shows "oi_sesslog_replay c2 img2 = (OI_OK, accepted)"
proof -
  have "img0 = log_bytes []" using open_wellformed [OF assms(1)] by auto
  with append_all_log [OF assms(2), of "[]"] assms(3)
  have l: "list_all valid_record accepted" "img1 = log_bytes accepted" by auto
  with open_recovers [OF l(1) assms(4,6)] assms(5) have "img2 = log_bytes accepted" by simp
  with replay_log [OF l(1) assms(7,8,9)] show ?thesis by simp
qed

text \<open>
  Whatever a file holds and whatever the system calls answer, a log that opens is well formed: the
  header followed by whole records of at most 64 MiB, and unless it was new it is a prefix of what the
  file held.
\<close>

theorem sesslog_open_wellformed:
  assumes "oi_sesslog_open c img = (OI_OK, img')"
  shows "\<exists>ds. list_all valid_record ds \<and> img' = log_bytes ds \<and> (img = [] \<and> ds = [] \<or> img' = take (length img') img)"
  by (rule open_wellformed [OF assms])

text \<open>
  An append to a well-formed log returns as soon as some \<open>write\<close> is not interrupted, and it is all
  or nothing: \<open>OI_OK\<close> adds exactly the record; any error leaves the log as it was when the roll-back
  works, and at most a torn record behind it, which the next open removes, when it does not.
\<close>

theorem sesslog_append_atomic:
  assumes "snth (sys_write c) n \<noteq> Write_eintr"
  shows "\<exists>st img'. oi_sesslog_append c (log_bytes ds) d = Some (st, img')
    \<and> (st = OI_OK \<longrightarrow> valid_record d \<and> img' = log_bytes (ds @ [d]))
    \<and> (st \<noteq> OI_OK \<longrightarrow> (sys_truncate c \<longrightarrow> img' = log_bytes ds) \<and> (\<exists>t. torn t \<and> img' = log_bytes ds @ t))"
proof -
  have "oi_sesslog_append c (log_bytes ds) d \<noteq> None"
    using write_retry_returns [OF assms, of "record_bytes d" "log_bytes ds"]
    by (auto simp: oi_sesslog_append_def split: option.splits)
  then obtain st img' where a: "oi_sesslog_append c (log_bytes ds) d = Some (st, img')" by auto
  from append_result [OF a] a show ?thesis by (auto simp: log_bytes_snoc)
qed

definition good_calls :: syscalls where
  "good_calls = \<lparr>sys_open = True, sys_flock = True, sys_fstat = True, sys_truncate = True,
     sys_malloc = heap_ok, sys_pread = sconst (Some size_max), sys_write = sconst (Wrote size_max)\<rparr>"

lemma good_open_new: "oi_sesslog_open good_calls [] = (OI_OK, header_bytes)"
  by (simp add: oi_sesslog_open_def good_calls_def size_max_def oi_sesslog_header_len_def min_def)

lemma good_append:
  "valid_record d \<Longrightarrow> oi_sesslog_append good_calls img d = Some (OI_OK, img @ record_bytes d)"
  using max_record_small(1)
  by (simp add: oi_sesslog_append_def good_calls_def valid_record_def write_retry.simps min_def size_max_def
      oi_sesslog_max_record_def)

lemma good_open:
  assumes "list_all valid_record ds" and "torn t"
  shows "oi_sesslog_open good_calls (log_bytes ds @ t) = (OI_OK, log_bytes ds)"
proof -
  let ?f = "log_bytes ds @ t"
  have r: "full_reads (sconst (Some size_max))" by (rule full_reads_const)
  have f: "?f = header_bytes @ records_bytes ds @ t" by (simp add: log_bytes_def)
  have l: "oi_sesslog_header_len \<le> length ?f" by (simp add: log_bytes_def)
  then have ne: "?f \<noteq> []" by (auto simp: oi_sesslog_header_len_def)
  have h: "pread_bytes (Some size_max) ?f 0 oi_sesslog_header_len = Some header_bytes"
    using full_read [OF r max_record_small(3), of ?f 0] by (simp add: f)
  have s: "scan_for_valid_end (sconst (Some size_max)) ?f oi_sesslog_header_len = Inr (length (log_bytes ds))"
    using scan_records [OF r assms, of header_bytes] by (simp add: log_bytes_def)
  have m: "take 8 header_bytes = oi_sesslog_magic" "drop 8 header_bytes = encode_u32le oi_sesslog_version"
    by (simp_all add: header_bytes_def oi_sesslog_magic_def bytes_of_def)
  from h s m l ne max_record_small(3) show ?thesis
    by (simp add: oi_sesslog_open_def good_calls_def Let_def)
qed

theorem sesslog_crash_durability_witness:
  "\<exists>img1 img2. append_all [(good_calls, [1, 2]), (good_calls\<lparr>sys_write := sconst Write_error\<rparr>, [3]), (good_calls, [])]
        header_bytes = Some ([[1, 2], []], img1)
    \<and> oi_sesslog_open good_calls (img1 @ take 6 (record_bytes [7, 8, 9])) = (OI_OK, img2)
    \<and> oi_sesslog_replay good_calls img2 = (OI_OK, [[1, 2], []])"
proof -
  let ?ops = "[(good_calls, [1, 2]), (good_calls\<lparr>sys_write := sconst Write_error\<rparr>, [3]), (good_calls, [])]"
  have v: "valid_record [1, 2]" "valid_record []" "valid_record [7, 8, 9]"
    by (simp_all add: valid_record_def oi_sesslog_max_record_def)
  have e: "oi_sesslog_append (good_calls\<lparr>sys_write := sconst Write_error\<rparr>) img [3] = Some (OI_ERR_IO, img)" for img
    by (simp add: oi_sesslog_append_def good_calls_def oi_sesslog_max_record_def write_retry.simps
        best_effort_truncate_def)
  have t: "torn (take 6 (record_bytes [7, 8, 9]))" by (rule take_torn [OF v(3)]) simp
  have l: "header_bytes @ record_bytes [1, 2] @ record_bytes [] = log_bytes [[1, 2], []]"
    by (simp add: log_bytes_def)
  have ops: "append_all ?ops header_bytes = Some ([[1, 2], []], log_bytes [[1, 2], []])"
    using v e l by (simp add: good_append)
  have o2: "oi_sesslog_open good_calls (log_bytes [[1, 2], []] @ take 6 (record_bytes [7, 8, 9]))
      = (OI_OK, log_bytes [[1, 2], []])"
    using v by (intro good_open t) simp
  have "oi_sesslog_replay good_calls (log_bytes [[1, 2], []]) = (OI_OK, [[1, 2], []])"
    by (rule sesslog_crash_durability [OF good_open_new _ ops t o2])
      (simp_all add: good_calls_def full_reads_const)
  with ops o2 show ?thesis by blast
qed

theorem sesslog_open_wellformed_witness:
  "\<exists>ds. list_all valid_record ds \<and> header_bytes = log_bytes ds
    \<and> ([] = ([] :: bytes) \<and> ds = [] \<or> header_bytes = take (length header_bytes) [])"
  by (rule sesslog_open_wellformed [OF good_open_new])

theorem sesslog_append_atomic_witness:
  "\<exists>st img'. oi_sesslog_append (good_calls\<lparr>sys_write := Write_eintr ## sconst (Wrote 2)\<rparr>) (log_bytes []) [5]
      = Some (st, img') \<and> st = OI_ERR_IO \<and> img' = log_bytes []"
proof -
  let ?c = "good_calls\<lparr>sys_write := Write_eintr ## sconst (Wrote 2)\<rparr>"
  have "snth (sys_write ?c) 1 \<noteq> Write_eintr" by simp
  from sesslog_append_atomic [OF this, of "[]" "[5]"] obtain st img' where
    a: "oi_sesslog_append ?c (log_bytes []) [5] = Some (st, img')"
      "st \<noteq> OI_OK \<longrightarrow> sys_truncate ?c \<longrightarrow> img' = log_bytes []" by blast
  have "st = OI_ERR_IO"
    using a(1) by (simp add: oi_sesslog_append_def good_calls_def oi_sesslog_max_record_def write_retry.simps)
  with a show ?thesis by (simp add: good_calls_def)
qed

end
