(* ===== verification/Registry.thy ===== *)
theory Registry
  imports Prelude
begin

text \<open>
  What \<open>src/tool_registry.c\<close> and \<open>src/session.c\<close> share: a table of entries with a key, searched from
  the front, that refuses a key it already has, and the code that doubles the table. The locale states
  the contract once; both tables are interpretations of it.
\<close>

section \<open>Growing a table\<close>

text \<open>
  The block under \<open>if (reg->count == reg->cap)\<close>: the new capacity, or \<open>None\<close> for \<open>OI_ERR_NOMEM\<close>.
  \<open>sz\<close> is the size of an element.
\<close>

definition grow_table :: "nat \<Rightarrow> nat \<Rightarrow> nat \<Rightarrow> heap \<Rightarrow> nat option \<times> heap" where
  "grow_table sz count cap h =
     (if count = cap then
        if cap > size_max div 2 then (None, h)
        else let new_cap = (if cap = 0 then 8 else cap * 2) in
          if new_cap > size_max div sz then (None, h)
          else if \<not> shd h then (None, stl h)
          else (Some new_cap, stl h)
      else (Some cap, h))"

lemma grow_table_room: "grow_table sz count cap h = (Some cap', h') \<Longrightarrow> count \<le> cap \<Longrightarrow> count < cap' \<and> cap \<le> cap'"
  by (auto simp: grow_table_def Let_def split: if_split_asm)

lemma map_of_find: "map_of (map (\<lambda>e. (key e, g e)) es) k = map_option g (find (\<lambda>e. key e = k) es)"
  by (induction es) auto

section \<open>The contract\<close>

text \<open>The key of an entry may be read from the state; an addition does not change the keys there are.\<close>

locale keyed_registry =
  fixes entries :: "'r \<Rightarrow> 'e list" and key :: "'r \<Rightarrow> 'e \<Rightarrow> 'k"
    and lookup :: "'r \<Rightarrow> 'k \<Rightarrow> 'e option" and add :: "'r \<Rightarrow> 'e \<Rightarrow> oi_status \<times> 'r"
  assumes lookup_find: "lookup r k = find (\<lambda>e. key r e = k) (entries r)"
    and add_taken: "lookup r (key r e) \<noteq> None \<Longrightarrow> add r e = (OI_ERR_EXISTS, r)"
    and add_ok: "lookup r (key r e) = None \<Longrightarrow> add r e = (OI_OK, r') \<Longrightarrow> entries r' = entries r @ [e]"
    and add_error: "add r e = (st, r') \<Longrightarrow> st \<noteq> OI_OK \<Longrightarrow> entries r' = entries r"
    and add_key: "add r e = (st, r') \<Longrightarrow> key r' = key r"
begin

definition distinct_keys :: "'r \<Rightarrow> bool" where
  "distinct_keys r \<longleftrightarrow> distinct (map (key r) (entries r))"

lemma lookup_Some: "lookup r k = Some e \<Longrightarrow> e \<in> set (entries r) \<and> key r e = k"
  by (auto simp: lookup_find find_Some_iff)

lemma lookup_None: "lookup r k = None \<longleftrightarrow> k \<notin> key r ` set (entries r)"
  by (auto simp: lookup_find find_None_iff)

lemma add_OK_absent: "add r e = (OI_OK, r') \<Longrightarrow> lookup r (key r e) = None"
  using add_taken [of r e] by (cases "lookup r (key r e)") auto

lemma add_OK_entries: "add r e = (OI_OK, r') \<Longrightarrow> entries r' = entries r @ [e]"
  using add_OK_absent add_ok by blast

lemma find_append: "find P (xs @ ys) = (case find P xs of None \<Rightarrow> find P ys | Some x \<Rightarrow> Some x)"
  by (induction xs) auto

lemma lookup_add:
  "add r e = (OI_OK, r') \<Longrightarrow> lookup r' k = (if k = key r e then Some e else lookup r k)"
  using add_OK_absent [of r e r'] add_OK_entries [of r e r'] add_key [of r e OI_OK r']
  by (auto simp: lookup_find find_append split: option.split)

lemma lookup_add_error: "add r e = (st, r') \<Longrightarrow> st \<noteq> OI_OK \<Longrightarrow> lookup r' k = lookup r k"
  using add_error add_key by (simp add: lookup_find)

lemma add_distinct:
  assumes "distinct_keys r" and "add r e = (st, r')"
  shows "distinct_keys r'"
proof (cases "st = OI_OK")
  case True
  with assms show ?thesis
    using add_OK_absent [of r e r'] add_OK_entries [of r e r'] lookup_None [of r "key r e"] add_key [of r e st r']
    by (auto simp: distinct_keys_def)
next
  case False
  with assms add_error add_key show ?thesis by (simp add: distinct_keys_def)
qed

text \<open>A run of additions behaves like a map that keeps the first value of each key.\<close>

fun add_all :: "'e list \<Rightarrow> 'r \<Rightarrow> 'e list \<times> 'r" where
  "add_all [] r = ([], r)"
| "add_all (e # es) r =
     (case add r e of (st, r') \<Rightarrow>
        (case add_all es r' of (acc, r'') \<Rightarrow> (if st = OI_OK then e # acc else acc, r'')))"

lemma add_all_entries: "add_all es r = (acc, r') \<Longrightarrow> entries r' = entries r @ acc"
proof (induction es arbitrary: r acc)
  case (Cons e es)
  obtain st r1 where a: "add r e = (st, r1)" by fastforce
  obtain acc1 where b: "add_all es r1 = (acc1, r')" using Cons.prems a by (auto split: prod.splits)
  show ?case
  proof (cases "st = OI_OK")
    case True
    with a b Cons.prems Cons.IH [OF b] show ?thesis using add_OK_entries [of r e r1] by simp
  next
    case False
    with a b Cons.prems Cons.IH [OF b] show ?thesis using add_error [of r e st r1] by simp
  qed
qed simp

lemma add_all_distinct: "distinct_keys r \<Longrightarrow> add_all es r = (acc, r') \<Longrightarrow> distinct_keys r'"
  by (induction es arbitrary: r acc) (auto split: prod.splits dest: add_distinct)

lemma find_distinct:
  "distinct (map f es) \<Longrightarrow> find (\<lambda>e. f e = k) es = Some e \<longleftrightarrow> e \<in> set es \<and> f e = k"
  by (induction es) (auto simp: rev_image_eqI)

lemma lookup_iff: "distinct_keys r \<Longrightarrow> lookup r k = Some e \<longleftrightarrow> e \<in> set (entries r) \<and> key r e = k"
  by (simp add: lookup_find distinct_keys_def find_distinct)

end

end
