(* ===== verification/Tool_Registry.thy ===== *)
theory Tool_Registry
  imports Registry
begin

text \<open>
  \<open>src/tool_registry.c\<close>: the registry of tools. Names and schemas are C strings, modelled as their bytes
  before the NUL; the \<open>build_argv\<close> function pointer and the user pointer are values of any types.
  \<open>tr_entries\<close> holds the first \<open>count\<close> entries; \<open>tr_heap\<close> the answers of \<open>malloc\<close>.
\<close>

record ('b, 'u) oi_tool_entry =
  te_name :: bytes
  te_json_schema :: bytes
  te_build_argv :: 'b
  te_user_data :: 'u

record ('b, 'u) oi_tool_registry =
  tr_entries :: "('b, 'u) oi_tool_entry list"
  tr_cap :: nat
  tr_heap :: heap

definition sizeof_entry :: nat where "sizeof_entry = 32"

definition oi_tool_registry_create :: "heap \<Rightarrow> ('b, 'u) oi_tool_registry option" where
  "oi_tool_registry_create h =
     (if \<not> shd h then None else Some \<lparr>tr_entries = [], tr_cap = 0, tr_heap = stl h\<rparr>)"

definition find_entry :: "('b, 'u) oi_tool_registry \<Rightarrow> bytes \<Rightarrow> ('b, 'u) oi_tool_entry option" where
  "find_entry reg name = find (\<lambda>e. te_name e = name) (tr_entries reg)"

definition oi_tool_registry_add ::
  "('b, 'u) oi_tool_registry \<Rightarrow> bytes \<Rightarrow> bytes \<Rightarrow> 'b \<Rightarrow> 'u \<Rightarrow> oi_status \<times> ('b, 'u) oi_tool_registry" where
  "oi_tool_registry_add reg name json_schema build_argv user_data =
     (if find_entry reg name \<noteq> None then (OI_ERR_EXISTS, reg)
      else (case grow_table sizeof_entry (length (tr_entries reg)) (tr_cap reg) (tr_heap reg) of
          (None, h) \<Rightarrow> (OI_ERR_NOMEM, reg\<lparr>tr_heap := h\<rparr>)
        | (Some cap, h) \<Rightarrow>
            let reg' = reg\<lparr>tr_cap := cap, tr_heap := stl (stl h)\<rparr> in
            if \<not> shd h \<or> \<not> shd (stl h) then (OI_ERR_NOMEM, reg')
            else (OI_OK, reg'\<lparr>tr_entries := tr_entries reg @
                   [\<lparr>te_name = name, te_json_schema = json_schema, te_build_argv = build_argv,
                     te_user_data = user_data\<rparr>]\<rparr>)))"

definition oi_tool_registry_schema :: "('b, 'u) oi_tool_registry \<Rightarrow> bytes \<Rightarrow> bytes option" where
  "oi_tool_registry_schema reg name = map_option te_json_schema (find_entry reg name)"

definition oi_tool_registry_lookup ::
  "('b, 'u) oi_tool_registry \<Rightarrow> bytes \<Rightarrow> oi_status + 'b \<times> 'u" where
  "oi_tool_registry_lookup reg name =
     (case find_entry reg name of
        None \<Rightarrow> Inl OI_ERR_NOTFOUND
      | Some e \<Rightarrow> Inr (te_build_argv e, te_user_data e))"

section \<open>The contract\<close>

definition add_entry ::
  "('b, 'u) oi_tool_registry \<Rightarrow> ('b, 'u) oi_tool_entry \<Rightarrow> oi_status \<times> ('b, 'u) oi_tool_registry" where
  "add_entry reg e = oi_tool_registry_add reg (te_name e) (te_json_schema e) (te_build_argv e) (te_user_data e)"

lemma add_cases:
  assumes "add_entry reg e = (st, reg')"
  shows "st = OI_ERR_EXISTS \<and> find_entry reg (te_name e) \<noteq> None \<and> reg' = reg
    \<or> find_entry reg (te_name e) = None \<and> st = OI_ERR_NOMEM \<and> tr_entries reg' = tr_entries reg
    \<or> find_entry reg (te_name e) = None \<and> st = OI_OK \<and> tr_entries reg' = tr_entries reg @ [e]"
  using assms
  by (auto simp: add_entry_def oi_tool_registry_add_def Let_def split: if_split_asm prod.splits option.splits)

interpretation tools: keyed_registry tr_entries "\<lambda>_. te_name" find_entry add_entry
proof (unfold_locales, goal_cases)
  case (1 r k)
  show ?case by (simp add: find_entry_def)
next
  case (2 r e)
  then show ?case by (simp add: add_entry_def oi_tool_registry_add_def)
next
  case (3 r e r')
  from add_cases [OF 3(2)] 3(1) show ?case by simp
next
  case (4 r e st r')
  from add_cases [OF 4(1)] 4(2) show ?case by auto
next
  case (5 r e st r')
  show ?case ..
qed

section \<open>Properties\<close>

text \<open>A run of registrations: the calls that were accepted, and the registry.\<close>

fun register_all ::
  "('b, 'u) oi_tool_entry list \<Rightarrow> ('b, 'u) oi_tool_registry \<Rightarrow> ('b, 'u) oi_tool_entry list \<times> ('b, 'u) oi_tool_registry" where
  "register_all [] reg = ([], reg)"
| "register_all (e # es) reg =
     (case oi_tool_registry_add reg (te_name e) (te_json_schema e) (te_build_argv e) (te_user_data e) of
        (st, reg') \<Rightarrow> (case register_all es reg' of
          (acc, reg'') \<Rightarrow> (if st = OI_OK then e # acc else acc, reg'')))"

lemma register_all_add_all: "register_all es reg = tools.add_all es reg"
  by (induction es arbitrary: reg) (simp_all add: add_entry_def)

text \<open>
  After any run of registrations on a new registry, with any behaviour of the allocator, the names
  of the accepted tools are distinct, and looking up a name finds exactly the builder, the user pointer
  and the schema it was accepted with, and nothing for a name that was never accepted.
\<close>

theorem tool_registry_lookup_accepted:
  assumes "oi_tool_registry_create h = Some reg" and "register_all es reg = (acc, reg')"
  shows "distinct (map te_name acc)
    \<and> oi_tool_registry_schema reg' name = map_of (map (\<lambda>e. (te_name e, te_json_schema e)) acc) name
    \<and> oi_tool_registry_lookup reg' name =
        (case map_of (map (\<lambda>e. (te_name e, (te_build_argv e, te_user_data e))) acc) name of
           None \<Rightarrow> Inl OI_ERR_NOTFOUND | Some x \<Rightarrow> Inr x)"
proof -
  have r: "tr_entries reg = []" "tools.distinct_keys reg"
    using assms(1) by (auto simp: oi_tool_registry_create_def tools.distinct_keys_def split: if_split_asm)
  have e: "tr_entries reg' = acc"
    using tools.add_all_entries [of es reg acc reg'] assms(2) r(1) by (simp add: register_all_add_all)
  have d: "distinct (map te_name acc)"
    using tools.add_all_distinct [OF r(2), of es acc reg'] assms(2) e
    by (simp add: register_all_add_all tools.distinct_keys_def)
  show ?thesis
    using d by (simp add: oi_tool_registry_schema_def oi_tool_registry_lookup_def find_entry_def e map_of_find
        option.case_eq_if option.map_sel)
qed

theorem tool_registry_lookup_accepted_witness:
  "\<exists>reg reg'. oi_tool_registry_create heap_ok = Some reg
    \<and> register_all [\<lparr>te_name = [1], te_json_schema = [2], te_build_argv = (3 :: nat), te_user_data = ()\<rparr>,
                   \<lparr>te_name = [1], te_json_schema = [4], te_build_argv = 5, te_user_data = ()\<rparr>] reg
        = ([\<lparr>te_name = [1], te_json_schema = [2], te_build_argv = 3, te_user_data = ()\<rparr>], reg')
    \<and> oi_tool_registry_lookup reg' [1] = Inr (3, ())"
proof -
  let ?e = "\<lparr>te_name = [1], te_json_schema = [2], te_build_argv = (3 :: nat), te_user_data = ()\<rparr>"
    and ?f = "\<lparr>te_name = [1], te_json_schema = [4], te_build_argv = (5 :: nat), te_user_data = ()\<rparr>"
  define reg :: "(nat, unit) oi_tool_registry" where "reg = \<lparr>tr_entries = [], tr_cap = 0, tr_heap = heap_ok\<rparr>"
  have c: "oi_tool_registry_create heap_ok = Some reg" by (simp add: oi_tool_registry_create_def reg_def)
  obtain reg' where r: "register_all [?e, ?f] reg = ([?e], reg')"
    by (simp add: reg_def oi_tool_registry_add_def find_entry_def grow_table_def sizeof_entry_def size_max_def)
  from tool_registry_lookup_accepted [OF c r, of "[1]"] c r show ?thesis by auto
qed

end
