(* ===== verification/Session.thy ===== *)
theory Session
  imports Registry Arena Sesslog
begin

text \<open>
  \<open>src/session.c\<close>: the registry of sessions. Sessions are objects reached through pointers, so they
  live in a store: \<open>w_object\<close> maps an address to the session there, and a freed session is gone. The
  rest of the world is what the sessions' logs touch: the content of each file (\<open>w_files\<close>, a file that
  does not exist being empty) and the files this process has locked. Identifiers and paths are C
  strings, modelled as their bytes before the NUL; a path stands for the file it names.
\<close>

datatype oi_session_state = OI_SESSION_ACTIVE | OI_SESSION_FAILED

record oi_session =
  ses_id :: bytes
  ses_arena :: "oi_arena option"
  ses_log :: "bytes option"
  ses_state :: oi_session_state

record oi_session_registry =
  sr_sessions :: "nat list"
  sr_cap :: nat
  sr_heap :: heap

record world =
  w_object :: "nat \<Rightarrow> oi_session option"
  w_next :: nat
  w_files :: "bytes \<Rightarrow> bytes"
  w_locked :: "bytes list"

type_synonym sessions = "oi_session_registry \<times> world"

definition sizeof_session_pointer :: nat where "sizeof_session_pointer = 8"

definition oi_session_registry_create :: "heap \<Rightarrow> oi_session_registry option" where
  "oi_session_registry_create h =
     (if \<not> shd h then None else Some \<lparr>sr_sessions = [], sr_cap = 0, sr_heap = stl h\<rparr>)"

definition id_at :: "world \<Rightarrow> nat \<Rightarrow> bytes" where
  "id_at w p = (case w_object w p of Some s \<Rightarrow> ses_id s | None \<Rightarrow> [])"

definition open_log :: "syscalls \<Rightarrow> bytes \<Rightarrow> world \<Rightarrow> oi_status \<times> world" where
  "open_log c path w =
     (case oi_sesslog_open (c\<lparr>sys_flock := sys_flock c \<and> path \<notin> set (w_locked w)\<rparr>) (w_files w path) of
        (st, img) \<Rightarrow> (st, w\<lparr>w_files := (w_files w)(path := img),
                         w_locked := (if st = OI_OK then path # w_locked w else w_locked w)\<rparr>))"

definition oi_sesslog_close :: "bytes option \<Rightarrow> world \<Rightarrow> world" where
  "oi_sesslog_close log w =
     (case log of None \<Rightarrow> w | Some path \<Rightarrow> w\<lparr>w_locked := remove1 path (w_locked w)\<rparr>)"

definition free_session :: "nat \<Rightarrow> world \<Rightarrow> world" where
  "free_session p w =
     (case w_object w p of
        None \<Rightarrow> w
      | Some s \<Rightarrow> (oi_sesslog_close (ses_log s) w)\<lparr>w_object := (w_object w)(p := None)\<rparr>)"

definition oi_session_registry_destroy :: "sessions \<Rightarrow> world" where
  "oi_session_registry_destroy r = (case r of (reg, w) \<Rightarrow> fold free_session (sr_sessions reg) w)"

definition find_slot :: "sessions \<Rightarrow> bytes \<Rightarrow> nat option" where
  "find_slot r sid = (case r of (reg, w) \<Rightarrow> find (\<lambda>p. id_at w p = sid) (sr_sessions reg))"

definition oi_session_create ::
  "heap \<Rightarrow> syscalls \<Rightarrow> sessions \<Rightarrow> bytes \<Rightarrow> bytes \<Rightarrow> size_t \<Rightarrow> (oi_status + nat) \<times> sessions" where
  "oi_session_create ha c r sid log_path block_size =
     (if find_slot r sid \<noteq> None then (Inl OI_ERR_EXISTS, r)
      else
        let (reg, w) = r; h = sr_heap reg; reg2 = reg\<lparr>sr_heap := stl (stl h)\<rparr> in
        if \<not> shd h then (Inl OI_ERR_NOMEM, reg\<lparr>sr_heap := stl h\<rparr>, w)
        else if \<not> shd (stl h) then (Inl OI_ERR_NOMEM, reg2, w)
        else (case oi_arena_create ha block_size of
            None \<Rightarrow> (Inl OI_ERR_NOMEM, reg2, w)
          | Some arena \<Rightarrow>
              (case open_log c log_path w of
                (st, w1) \<Rightarrow>
                  if st \<noteq> OI_OK then (Inl st, reg2, w1)
                  else (case grow_table sizeof_session_pointer (length (sr_sessions reg)) (sr_cap reg) (stl (stl h)) of
                      (None, h') \<Rightarrow>
                        (Inl OI_ERR_NOMEM, reg\<lparr>sr_heap := h'\<rparr>, oi_sesslog_close (Some log_path) w1)
                    | (Some cap, h') \<Rightarrow>
                        let p = w_next w1;
                            s = \<lparr>ses_id = sid, ses_arena = Some arena, ses_log = Some log_path,
                                 ses_state = OI_SESSION_ACTIVE\<rparr> in
                        (Inr p, reg\<lparr>sr_sessions := sr_sessions reg @ [p], sr_cap := cap, sr_heap := h'\<rparr>,
                         w1\<lparr>w_object := (w_object w1)(p := Some s), w_next := p + 1\<rparr>)))))"

definition oi_session_lookup :: "sessions \<Rightarrow> bytes \<Rightarrow> nat option" where
  "oi_session_lookup r sid = find_slot r sid"

text \<open>\<open>reg->sessions[i] = reg->sessions[reg->count - 1]; reg->count--;\<close> at the first match.\<close>

fun replace_first :: "'a \<Rightarrow> 'a \<Rightarrow> 'a list \<Rightarrow> 'a list" where
  "replace_first x y [] = []"
| "replace_first x y (z # zs) = (if z = x then y # zs else z # replace_first x y zs)"

definition swap_remove :: "'a \<Rightarrow> 'a list \<Rightarrow> 'a list" where
  "swap_remove x xs = butlast (replace_first x (last xs) xs)"

definition oi_session_destroy :: "sessions \<Rightarrow> nat \<Rightarrow> sessions" where
  "oi_session_destroy r p =
     (case r of (reg, w) \<Rightarrow>
        if p \<in> set (sr_sessions reg) then
          (reg\<lparr>sr_sessions := swap_remove p (sr_sessions reg)\<rparr>, free_session p w)
        else r)"

definition oi_session_id :: "world \<Rightarrow> nat option \<Rightarrow> bytes option" where
  "oi_session_id w p = map_option ses_id (Option.bind p (w_object w))"

definition oi_session_state_of :: "world \<Rightarrow> nat option \<Rightarrow> oi_session_state" where
  "oi_session_state_of w p =
     (case Option.bind p (w_object w) of Some s \<Rightarrow> ses_state s | None \<Rightarrow> OI_SESSION_FAILED)"

definition oi_session_arena :: "world \<Rightarrow> nat option \<Rightarrow> oi_arena option" where
  "oi_session_arena w p = Option.bind (Option.bind p (w_object w)) ses_arena"

definition oi_session_log :: "world \<Rightarrow> nat option \<Rightarrow> bytes option" where
  "oi_session_log w p = Option.bind (Option.bind p (w_object w)) ses_log"

definition oi_session_fail :: "nat \<Rightarrow> world \<Rightarrow> world" where
  "oi_session_fail p w =
     (case w_object w p of
        None \<Rightarrow> w
      | Some s \<Rightarrow>
          if ses_state s = OI_SESSION_FAILED then w
          else (oi_sesslog_close (ses_log s) w)\<lparr>w_object :=
                 (w_object w)(p := Some (s\<lparr>ses_arena := None, ses_log := None, ses_state := OI_SESSION_FAILED\<rparr>))\<rparr>)"

section \<open>The table as a keyed registry\<close>

lemma replace_first_split: "x \<notin> set as \<Longrightarrow> replace_first x y (as @ x # bs) = as @ y # bs"
  by (induction as) auto

lemma swap_remove_split:
  assumes "x \<in> set xs"
  shows "\<exists>as bs. xs = as @ x # bs \<and> x \<notin> set as
    \<and> swap_remove x xs = (if bs = [] then as else as @ last bs # butlast bs)"
proof -
  obtain as bs where xs: "xs = as @ x # bs" "x \<notin> set as" using split_list_first [OF assms] by blast
  then show ?thesis
    by (intro exI [of _ as] exI [of _ bs]) (auto simp: swap_remove_def replace_first_split butlast_append)
qed

lemma swap_remove_set:
  assumes "x \<in> set xs" and "distinct xs"
  shows "set (swap_remove x xs) = set xs - {x}" and "distinct (swap_remove x xs)"
proof -
  obtain as bs where s: "xs = as @ x # bs" "swap_remove x xs = (if bs = [] then as else as @ last bs # butlast bs)"
    using swap_remove_split [OF assms(1)] by blast
  show "set (swap_remove x xs) = set xs - {x}" "distinct (swap_remove x xs)"
    using assms(2) s by (cases bs rule: rev_cases; auto)+
qed

text \<open>The end of \<open>oi_session_create\<close> is an addition to the table.\<close>

definition session_key :: "sessions \<Rightarrow> nat \<Rightarrow> bytes" where
  "session_key r = id_at (snd r)"

definition register_session :: "sessions \<Rightarrow> nat \<Rightarrow> oi_status \<times> sessions" where
  "register_session r p =
     (if find_slot r (session_key r p) \<noteq> None then (OI_ERR_EXISTS, r)
      else (case grow_table sizeof_session_pointer (length (sr_sessions (fst r))) (sr_cap (fst r)) (sr_heap (fst r)) of
          (None, h) \<Rightarrow> (OI_ERR_NOMEM, (fst r)\<lparr>sr_heap := h\<rparr>, snd r)
        | (Some cap, h) \<Rightarrow>
            (OI_OK, (fst r)\<lparr>sr_sessions := sr_sessions (fst r) @ [p], sr_cap := cap, sr_heap := h\<rparr>, snd r)))"

interpretation slots: keyed_registry "\<lambda>r. sr_sessions (fst r)" session_key find_slot register_session
proof (unfold_locales, goal_cases)
  case (1 r k)
  show ?case by (simp add: find_slot_def session_key_def case_prod_unfold)
next
  case (2 r e)
  then show ?case by (simp add: register_session_def)
next
  case (3 r e r')
  then show ?case by (auto simp: register_session_def split: prod.splits option.splits)
next
  case (4 r e st r')
  then show ?case by (auto simp: register_session_def split: if_split_asm prod.splits option.splits)
next
  case (5 r e st r')
  then show ?case by (auto simp: register_session_def session_key_def split: if_split_asm prod.splits option.splits)
qed

section \<open>The invariant\<close>

definition session_ok :: "oi_session \<Rightarrow> bool" where
  "session_ok s \<longleftrightarrow>
     (if ses_state s = OI_SESSION_ACTIVE then ses_arena s \<noteq> None \<and> ses_log s \<noteq> None
      else ses_arena s = None \<and> ses_log s = None)"

definition log_at :: "world \<Rightarrow> nat \<Rightarrow> bytes option" where
  "log_at w p = Option.bind (w_object w p) ses_log"

text \<open>
  The sessions in memory are exactly the registered ones, each once and under an identifier of its own;
  an active session has its arena and its log, a failed one has neither; and the locks of the process
  are exactly the logs of the active sessions, each held by one.
\<close>

definition registry_ok :: "sessions \<Rightarrow> bool" where
  "registry_ok r \<longleftrightarrow> distinct (sr_sessions (fst r)) \<and> slots.distinct_keys r
     \<and> (\<forall>p. w_object (snd r) p \<noteq> None \<longleftrightarrow> p \<in> set (sr_sessions (fst r)))
     \<and> (\<forall>p \<in> set (sr_sessions (fst r)). p < w_next (snd r))"

definition world_ok :: "world \<Rightarrow> bool" where
  "world_ok w \<longleftrightarrow> (\<forall>p s. w_object w p = Some s \<longrightarrow> session_ok s) \<and> distinct (w_locked w)
     \<and> (\<forall>p q path. log_at w p = Some path \<longrightarrow> log_at w q = Some path \<longrightarrow> p = q)
     \<and> (\<forall>path. path \<in> set (w_locked w) \<longleftrightarrow> (\<exists>p. log_at w p = Some path))"

definition sessions_ok :: "sessions \<Rightarrow> bool" where
  "sessions_ok r \<longleftrightarrow> registry_ok r \<and> world_ok (snd r)"

lemma close_sel [simp]:
  "w_object (oi_sesslog_close log w) = w_object w" "w_next (oi_sesslog_close log w) = w_next w"
  "w_files (oi_sesslog_close log w) = w_files w"
  by (simp_all add: oi_sesslog_close_def split: option.split)

lemma open_log_sel:
  assumes "open_log c path w = (st, w1)"
  shows "w_object w1 = w_object w" "w_next w1 = w_next w"
    "w_locked w1 = (if st = OI_OK then path # w_locked w else w_locked w)"
    "st = OI_OK \<Longrightarrow> path \<notin> set (w_locked w)"
proof -
  have e: "fst (oi_sesslog_open (c\<lparr>sys_flock := False\<rparr>) f) \<noteq> OI_OK" for f
    by (simp add: oi_sesslog_open_def)
  show "w_object w1 = w_object w" "w_next w1 = w_next w"
    "w_locked w1 = (if st = OI_OK then path # w_locked w else w_locked w)"
    using assms by (auto simp: open_log_def split: prod.splits)
  show "path \<notin> set (w_locked w)" if "st = OI_OK"
  proof
    assume "path \<in> set (w_locked w)"
    with assms that e [of "w_files w path"] show False by (auto simp: open_log_def split: prod.splits)
  qed
qed

lemma close_open [simp]: "w_locked (oi_sesslog_close (Some path) (w\<lparr>w_locked := path # l\<rparr>)) = l"
  by (simp add: oi_sesslog_close_def)

lemma world_ok_cong:
  "w_object w' = w_object w \<Longrightarrow> w_locked w' = w_locked w \<Longrightarrow> world_ok w' = world_ok w"
  by (simp add: world_ok_def log_at_def)

lemma registry_ok_cong:
  assumes "sr_sessions reg' = sr_sessions reg" and "w_object w' = w_object w" and "w_next w' = w_next w"
  shows "registry_ok (reg', w') = registry_ok (reg, w)"
  using assms by (simp add: registry_ok_def slots.distinct_keys_def session_key_def id_at_def [abs_def])

text \<open>An object that leaves, or loses its log, gives back exactly its own lock.\<close>

lemma world_ok_release:
  assumes "world_ok w" and "w_object w p = Some s"
    and "case x of None \<Rightarrow> True | Some s' \<Rightarrow> session_ok s' \<and> ses_log s' = None"
  shows "world_ok ((oi_sesslog_close (ses_log s) w)\<lparr>w_object := (w_object w)(p := x)\<rparr>)"
proof -
  let ?w = "(oi_sesslog_close (ses_log s) w)\<lparr>w_object := (w_object w)(p := x)\<rparr>"
  have l: "log_at w p = ses_log s" using assms(2) by (simp add: log_at_def)
  have l': "log_at ?w q = (if q = p then None else log_at w q)" for q
    using assms(3) by (auto simp: log_at_def split: option.splits)
  have d: "distinct (w_locked w)" and inj: "\<And>p q path. log_at w p = Some path \<Longrightarrow> log_at w q = Some path \<Longrightarrow> p = q"
    and lk: "\<And>path. path \<in> set (w_locked w) \<longleftrightarrow> (\<exists>p. log_at w p = Some path)"
    using assms(1) unfolding world_ok_def by blast+
  have "w_locked ?w = (case ses_log s of None \<Rightarrow> w_locked w | Some path \<Rightarrow> remove1 path (w_locked w))"
    by (simp add: oi_sesslog_close_def split: option.split)
  with d have d': "distinct (w_locked ?w)" "set (w_locked ?w) = set (w_locked w) - set_option (ses_log s)"
    by (simp_all split: option.splits)
  have "path \<in> set (w_locked ?w) \<longleftrightarrow> (\<exists>q. log_at ?w q = Some path)" for path
  proof (cases "ses_log s = Some path")
    case True
    then have "q = p" if "log_at w q = Some path" for q using that l inj by metis
    with True show ?thesis unfolding d'(2) l' by (metis DiffE elem_set option.distinct(1))
  next
    case False
    then have "q \<noteq> p" if "log_at w q = Some path" for q using that l by auto
    then have "(if q = p then None else log_at w q) = Some path \<longleftrightarrow> log_at w q = Some path" for q by (cases "q = p") auto
    with False lk [of path] show ?thesis unfolding d'(2) l' by (simp add: elem_set)
  qed
  moreover have "log_at ?w q = Some path \<Longrightarrow> log_at ?w q' = Some path \<Longrightarrow> q = q'" for q q' path
    unfolding l' using inj by (metis option.distinct(1))
  moreover have "session_ok s'" if "w_object ?w q = Some s'" for q s'
    using that assms(1,3) unfolding world_ok_def by (auto split: if_split_asm)
  ultimately show ?thesis unfolding world_ok_def using d'(1) by (intro conjI allI impI)
qed

lemma free_session_ok: "world_ok w \<Longrightarrow> world_ok (free_session p w)"
  using world_ok_release [of w p _ None] by (auto simp: free_session_def split: option.split)

lemma fail_ok: "world_ok w \<Longrightarrow> world_ok (oi_session_fail p w)"
  using world_ok_release [of w p _ "Some s" for s]
  by (auto simp: oi_session_fail_def session_ok_def split: option.split)

lemma fail_sel [simp]:
  "id_at (oi_session_fail p w) = id_at w" "w_next (oi_session_fail p w) = w_next w"
  "w_object (oi_session_fail p w) q \<noteq> None \<longleftrightarrow> w_object w q \<noteq> None"
  "q \<noteq> p \<Longrightarrow> w_object (oi_session_fail p w) q = w_object w q"
  by (auto simp: oi_session_fail_def id_at_def split: option.splits)

lemma fail_sessions_ok: "sessions_ok (reg, w) \<Longrightarrow> sessions_ok (reg, oi_session_fail p w)"
  by (simp add: sessions_ok_def registry_ok_def slots.distinct_keys_def session_key_def fail_ok
      del: not_None_eq)

lemma free_sel:
  assumes "w_object w p \<noteq> None"
  shows "w_object (free_session p w) = (w_object w)(p := None)" "w_next (free_session p w) = w_next w"
  using assms by (auto simp: free_session_def split: option.split)

lemma destroy_sessions_ok:
  assumes "sessions_ok r"
  shows "sessions_ok (oi_session_destroy r p)"
proof -
  obtain reg w where r: "r = (reg, w)" by fastforce
  show ?thesis
  proof (cases "p \<in> set (sr_sessions reg)")
    case True
    have ok: "distinct (sr_sessions reg)" "distinct (map (id_at w) (sr_sessions reg))"
      "\<And>q. w_object w q \<noteq> None \<longleftrightarrow> q \<in> set (sr_sessions reg)" "\<And>q. q \<in> set (sr_sessions reg) \<Longrightarrow> q < w_next w"
      using assms by (auto simp: r sessions_ok_def registry_ok_def slots.distinct_keys_def session_key_def)
    let ?s = "swap_remove p (sr_sessions reg)" and ?w = "free_session p w"
    note sw = swap_remove_set [OF True ok(1)]
    have p: "w_object w p \<noteq> None" using ok(3) True by blast
    note f = free_sel [OF this]
    have "map (id_at ?w) ?s = map (id_at w) ?s" using sw(1) by (auto simp: id_at_def f)
    moreover have "distinct (map (id_at w) ?s)"
      using ok(2) sw by (auto simp: distinct_map intro: inj_on_subset)
    ultimately have "distinct (map (id_at ?w) ?s)" by (simp only:)
    moreover have "w_object ?w q \<noteq> None \<longleftrightarrow> q \<in> set ?s" for q
      using ok(3) [of q] sw(1) f by auto
    moreover have "world_ok ?w" using assms free_session_ok by (simp add: r sessions_ok_def)
    ultimately have "sessions_ok (reg\<lparr>sr_sessions := ?s\<rparr>, ?w)"
      unfolding sessions_ok_def registry_ok_def slots.distinct_keys_def session_key_def
      using sw ok(4) f(2) by simp
    with True show ?thesis by (simp add: r oi_session_destroy_def)
  qed (use assms in \<open>simp add: r oi_session_destroy_def\<close>)
qed

lemma create_cases:
  assumes "oi_session_create ha c (reg, w) sid path bs = (res, reg', w')"
  shows "(\<exists>st. res = Inl st) \<and> sr_sessions reg' = sr_sessions reg \<and> w_object w' = w_object w
        \<and> w_next w' = w_next w \<and> w_locked w' = w_locked w
    \<or> (\<exists>a. res = Inr (w_next w) \<and> find_slot (reg, w) sid = None \<and> path \<notin> set (w_locked w)
        \<and> sr_sessions reg' = sr_sessions reg @ [w_next w] \<and> w_locked w' = path # w_locked w \<and> w_next w' = w_next w + 1
        \<and> w_object w' = (w_object w)(w_next w := Some \<lparr>ses_id = sid, ses_arena = Some a, ses_log = Some path,
                                                  ses_state = OI_SESSION_ACTIVE\<rparr>))"
proof -
  obtain st w1 where o1: "open_log c path w = (st, w1)" by fastforce
  note sel = open_log_sel [OF o1]
  have cl: "st = OI_OK \<Longrightarrow> w_locked (oi_sesslog_close (Some path) w1) = w_locked w"
    using sel(3) by (simp add: oi_sesslog_close_def)
  obtain cap h' where g: "grow_table sizeof_session_pointer (length (sr_sessions reg)) (sr_cap reg)
      (stl (stl (sr_heap reg))) = (cap, h')" by fastforce
  show ?thesis
  proof (cases "find_slot (reg, w) sid = None \<and> shd (sr_heap reg) \<and> shd (stl (sr_heap reg))
      \<and> oi_arena_create ha bs \<noteq> None")
    case False
    with assms show ?thesis by (auto simp: oi_session_create_def Let_def split: if_split_asm)
  next
    case True
    then obtain a where a: "oi_arena_create ha bs = Some a" by blast
    consider "st \<noteq> OI_OK" | "st = OI_OK" "cap = None" | n where "st = OI_OK" "cap = Some n" by (cases cap) auto
    then show ?thesis
    proof cases
      case 1
      with assms True a o1 have "res = Inl st" "w' = w1" "sr_sessions reg' = sr_sessions reg"
        by (auto simp: oi_session_create_def Let_def)
      with 1 sel show ?thesis by simp
    next
      case 2
      with assms True a o1 g have "res = Inl OI_ERR_NOMEM" "w' = oi_sesslog_close (Some path) w1"
          "sr_sessions reg' = sr_sessions reg" by (auto simp: oi_session_create_def Let_def)
      with 2 sel cl show ?thesis by simp
    next
      case 3
      with assms True a o1 g sel(2) have "res = Inr (w_next w)" "sr_sessions reg' = sr_sessions reg @ [w_next w]"
          "w_locked w' = w_locked w1" "w_next w' = w_next w + 1"
          "w_object w' = (w_object w1)(w_next w := Some \<lparr>ses_id = sid, ses_arena = Some a, ses_log = Some path,
             ses_state = OI_SESSION_ACTIVE\<rparr>)"
        by (auto simp: oi_session_create_def Let_def)
      with True 3 sel show ?thesis by (intro disjI2 exI [of _ a]) simp
    qed
  qed
qed

lemma create_sessions_ok:
  assumes "sessions_ok (reg, w)" and "oi_session_create ha c (reg, w) sid path bs = (res, reg', w')"
  shows "sessions_ok (reg', w')"
  using create_cases [OF assms(2)]
proof (elim disjE exE conjE)
  assume "sr_sessions reg' = sr_sessions reg" "w_object w' = w_object w" "w_next w' = w_next w" "w_locked w' = w_locked w"
  with assms(1) registry_ok_cong [of reg' reg w' w] world_ok_cong [of w' w] show ?thesis by (simp add: sessions_ok_def)
next
  fix a
  let ?p = "w_next w"
  let ?s = "\<lparr>ses_id = sid, ses_arena = Some a, ses_log = Some path, ses_state = OI_SESSION_ACTIVE\<rparr>"
  assume n: "find_slot (reg, w) sid = None" "path \<notin> set (w_locked w)" "sr_sessions reg' = sr_sessions reg @ [?p]"
    "w_locked w' = path # w_locked w" "w_next w' = ?p + 1" "w_object w' = (w_object w)(?p := Some ?s)"
  have ok: "distinct (sr_sessions reg)" "distinct (map (id_at w) (sr_sessions reg))"
    "\<And>q. w_object w q \<noteq> None \<longleftrightarrow> q \<in> set (sr_sessions reg)" "\<And>q. q \<in> set (sr_sessions reg) \<Longrightarrow> q < ?p" "world_ok w"
    using assms(1) by (auto simp: sessions_ok_def registry_ok_def slots.distinct_keys_def session_key_def)
  have fresh: "?p \<notin> set (sr_sessions reg)" using ok(4) by blast
  have i: "id_at w' ?p = sid" "\<And>q. q \<noteq> ?p \<Longrightarrow> id_at w' q = id_at w q" by (simp_all add: id_at_def n)
  have m: "map (id_at w') (sr_sessions reg) = map (id_at w) (sr_sessions reg)" using i(2) fresh by (intro map_cong refl) metis
  have "sid \<notin> id_at w ` set (sr_sessions reg)"
    using n(1) slots.lookup_None [of "(reg, w)" sid] by (simp add: session_key_def)
  then have "distinct (map (id_at w') (sr_sessions reg'))"
    using ok(2) i(1) n(3) by (simp add: m del: map_eq_conv)
  moreover have "distinct (sr_sessions reg')" using ok(1) fresh n(3) by simp
  moreover have "w_object w' q \<noteq> None \<longleftrightarrow> q \<in> set (sr_sessions reg')" for q
    using ok(3) [of q] n(3,6) by (cases "q = ?p") simp_all
  moreover have "q < w_next w'" if "q \<in> set (sr_sessions reg')" for q
    using that ok(4) [of q] n(3,5) by auto
  ultimately have "registry_ok (reg', w')"
    unfolding registry_ok_def slots.distinct_keys_def session_key_def fst_conv snd_conv by blast
  moreover have "world_ok w'"
  proof -
    have l: "log_at w' q = (if q = ?p then Some path else log_at w q)" for q by (simp add: log_at_def n(6))
    have lk: "path' \<in> set (w_locked w) \<longleftrightarrow> (\<exists>p. log_at w p = Some path')" for path'
      using ok(5) by (simp add: world_ok_def)
    have none: "log_at w ?p = None"
      using ok(3) [of ?p] fresh by (simp add: log_at_def)
    have other: "log_at w q \<noteq> Some path" for q using lk [of path] n(2) by blast
    have "path' \<in> set (w_locked w') \<longleftrightarrow> (\<exists>p. log_at w' p = Some path')" for path'
    proof (cases "path' = path")
      case True
      then show ?thesis unfolding l n(4) by (auto intro: exI [of _ ?p])
    next
      case False
      have "log_at w' q = Some path' \<longleftrightarrow> log_at w q = Some path'" for q
        unfolding l using False none by (cases "q = ?p") auto
      with False lk [of path'] show ?thesis by (simp add: n(4))
    qed
    moreover have "p = q" if "log_at w' p = Some path'" "log_at w' q = Some path'" for p q path'
    proof -
      have inj: "\<And>p q x. log_at w p = Some x \<Longrightarrow> log_at w q = Some x \<Longrightarrow> p = q"
        using ok(5) unfolding world_ok_def by blast
      show ?thesis
        using that other [of p] other [of q] inj [of p path' q] unfolding l by (auto split: if_split_asm)
    qed
    moreover have "session_ok s" if "w_object w' p = Some s" for p s
      using that ok(5) by (auto simp: n(6) world_ok_def session_ok_def split: if_split_asm)
    moreover have "distinct (w_locked w')" using ok(5) n(2,4) by (simp add: world_ok_def)
    ultimately show ?thesis unfolding world_ok_def by (intro conjI allI impI)
  qed
  ultimately show ?thesis by (simp add: sessions_ok_def)
qed

section \<open>What a program can do with sessions\<close>

text \<open>
  A run starts with a new registry, no session in memory and no log locked, and calls the three
  operations that change something in any order, with any answers of the system and the allocator. A
  client destroys or fails only sessions that exist.
\<close>

inductive session_run :: "sessions \<Rightarrow> bool" where
  run_start: "oi_session_registry_create h = Some reg \<Longrightarrow>
    session_run (reg, \<lparr>w_object = \<lambda>_. None, w_next = 0, w_files = files, w_locked = []\<rparr>)"
| run_create: "session_run r \<Longrightarrow> oi_session_create ha c r sid path bs = (res, r') \<Longrightarrow> session_run r'"
| run_fail: "session_run (reg, w) \<Longrightarrow> p \<in> set (sr_sessions reg) \<Longrightarrow> session_run (reg, oi_session_fail p w)"
| run_destroy: "session_run (reg, w) \<Longrightarrow> p \<in> set (sr_sessions reg) \<Longrightarrow> session_run (oi_session_destroy (reg, w) p)"

lemma session_run_ok: "session_run r \<Longrightarrow> sessions_ok r"
proof (induction rule: session_run.induct)
  case (run_start h reg files)
  then show ?case
    by (auto simp: oi_session_registry_create_def sessions_ok_def registry_ok_def world_ok_def log_at_def
        slots.distinct_keys_def split: if_split_asm)
next
  case (run_create r ha c sid path bs res r')
  then show ?case using create_sessions_ok by (metis surj_pair)
next
  case (run_fail reg w p)
  then show ?case using fail_sessions_ok by simp
next
  case (run_destroy reg w p)
  then show ?case using destroy_sessions_ok by simp
qed

lemma lookup_registered:
  assumes "sessions_ok (reg, w)"
  shows "oi_session_lookup (reg, w) sid = Some p \<longleftrightarrow> p \<in> set (sr_sessions reg) \<and> oi_session_id w (Some p) = Some sid"
proof -
  have "slots.distinct_keys (reg, w)" "\<And>q. w_object w q \<noteq> None \<longleftrightarrow> q \<in> set (sr_sessions reg)"
    using assms by (simp_all add: sessions_ok_def registry_ok_def)
  note ok = this
  show ?thesis
  proof (cases "w_object w p")
    case None
    with ok(2) [of p] slots.lookup_Some [of "(reg, w)" sid p] show ?thesis
      by (auto simp: oi_session_lookup_def oi_session_id_def)
  next
    case (Some s)
    with slots.lookup_iff [OF ok(1), of sid p] show ?thesis
      by (simp add: oi_session_lookup_def session_key_def oi_session_id_def id_at_def)
  qed
qed

lemma destroy_other:
  assumes "q \<noteq> p"
  shows "w_object (snd (oi_session_destroy (reg, w) p)) q = w_object w q"
  using assms by (auto simp: oi_session_destroy_def free_session_def split: option.split)

section \<open>A concrete run\<close>

lemma open_new_log:
  "path \<notin> set (w_locked w) \<Longrightarrow> w_files w path = [] \<Longrightarrow>
   open_log good_calls path w = (OI_OK, w\<lparr>w_files := (w_files w)(path := header_bytes), w_locked := path # w_locked w\<rparr>)"
  using good_open_new by (simp add: open_log_def good_calls_def)

lemma create_ok:
  assumes "find_slot (reg, w) sid = None" and "path \<notin> set (w_locked w)" and "w_files w path = []"
    and "sr_heap reg = heap_ok" and "length (sr_sessions reg) < 8" and "sr_cap reg = 0 \<or> sr_cap reg = 8"
    and "oi_arena_create heap_ok 64 = Some a"
  shows "\<exists>reg' w'. oi_session_create heap_ok good_calls (reg, w) sid path 64 = (Inr (w_next w), reg', w')
    \<and> sr_sessions reg' = sr_sessions reg @ [w_next w] \<and> sr_heap reg' = heap_ok
    \<and> (sr_cap reg' = 0 \<or> sr_cap reg' = 8) \<and> w_next w' = w_next w + 1
    \<and> w_files w' = (w_files w)(path := header_bytes) \<and> w_locked w' = path # w_locked w
    \<and> w_object w' = (w_object w)(w_next w := Some \<lparr>ses_id = sid, ses_arena = Some a, ses_log = Some path,
                                              ses_state = OI_SESSION_ACTIVE\<rparr>)"
  using assms open_new_log [OF assms(2,3)]
  by (auto simp: oi_session_create_def grow_table_def sizeof_session_pointer_def size_max_def Let_def)

lemma two_sessions:
  "\<exists>reg w. session_run (reg, w) \<and> sr_sessions reg = [0, 1] \<and> oi_session_id w (Some 0) = Some [1]
     \<and> oi_session_id w (Some 1) = Some [2]"
proof -
  define reg0 where "reg0 = \<lparr>sr_sessions = [], sr_cap = 0, sr_heap = heap_ok\<rparr>"
  define w0 where "w0 = \<lparr>w_object = \<lambda>_. None, w_next = 0, w_files = \<lambda>_. [], w_locked = []\<rparr>"
  obtain a where a: "oi_arena_create heap_ok 64 = Some a"
    by (simp add: oi_arena_create_def block_alloc_def sizeof_block_def size_max_def)
  have r0: "session_run (reg0, w0)"
    unfolding w0_def by (rule run_start [of heap_ok]) (simp add: oi_session_registry_create_def reg0_def)
  obtain reg1 w1 where c1: "oi_session_create heap_ok good_calls (reg0, w0) [1] [3] 64 = (Inr 0, reg1, w1)"
    "sr_sessions reg1 = [0]" "sr_heap reg1 = heap_ok" "sr_cap reg1 = 0 \<or> sr_cap reg1 = 8" "w_next w1 = 1"
    "w_files w1 [4] = []" "w_locked w1 = [[3]]" "oi_session_id w1 (Some 0) = Some [1]" "id_at w1 0 = [1]"
    using create_ok [of reg0 w0 "[1]" "[3]", OF _ _ _ _ _ _ a]
    by (auto simp: reg0_def w0_def find_slot_def oi_session_id_def id_at_def)
  have r1: "session_run (reg1, w1)" by (rule run_create [OF r0 c1(1)])
  obtain reg2 w2 where c2: "oi_session_create heap_ok good_calls (reg1, w1) [2] [4] 64 = (Inr 1, reg2, w2)"
    "sr_sessions reg2 = [0, 1]" "oi_session_id w2 (Some 0) = Some [1]" "oi_session_id w2 (Some 1) = Some [2]"
    using create_ok [of reg1 w1 "[2]" "[4]", OF _ _ _ _ _ _ a] c1
    by (auto simp: find_slot_def oi_session_id_def id_at_def)
  from run_create [OF r1 c2(1)] c2 show ?thesis by blast
qed

section \<open>Properties\<close>

text \<open>
  C21. In every state a program can reach: identifiers of registered sessions are distinct and looking
  one up finds its session; the sessions in memory are exactly the registered ones; active sessions have
  an arena and a log, failed ones neither; and the locks the process holds are exactly the logs of the
  active sessions, each held once, whatever the allocator and the file system answered on the way.
\<close>

theorem session_registry_invariant:
  assumes "session_run (reg, w)"
  shows "distinct (sr_sessions reg)
    \<and> (\<forall>sid p. oi_session_lookup (reg, w) sid = Some p
          \<longleftrightarrow> p \<in> set (sr_sessions reg) \<and> oi_session_id w (Some p) = Some sid)
    \<and> {p. w_object w p \<noteq> None} = set (sr_sessions reg)
    \<and> (\<forall>p \<in> set (sr_sessions reg).
          (oi_session_state_of w (Some p) = OI_SESSION_ACTIVE) = (oi_session_arena w (Some p) \<noteq> None)
        \<and> (oi_session_state_of w (Some p) = OI_SESSION_ACTIVE) = (oi_session_log w (Some p) \<noteq> None))
    \<and> distinct (w_locked w) \<and> set (w_locked w) = {path. \<exists>p. oi_session_log w (Some p) = Some path}
    \<and> (\<forall>p q path. oi_session_log w (Some p) = Some path \<longrightarrow> oi_session_log w (Some q) = Some path \<longrightarrow> p = q)"
proof -
  have s: "sessions_ok (reg, w)" by (rule session_run_ok [OF assms])
  have l: "oi_session_log w (Some p) = log_at w p" for p by (simp add: oi_session_log_def log_at_def)
  have reg: "distinct (sr_sessions reg)" "\<And>p. w_object w p \<noteq> None \<longleftrightarrow> p \<in> set (sr_sessions reg)"
    using s by (simp_all add: sessions_ok_def registry_ok_def)
  have w: "\<And>p s. w_object w p = Some s \<Longrightarrow> session_ok s" "distinct (w_locked w)"
    "\<And>p q path. log_at w p = Some path \<Longrightarrow> log_at w q = Some path \<Longrightarrow> p = q"
    "\<And>path. path \<in> set (w_locked w) \<longleftrightarrow> (\<exists>p. log_at w p = Some path)"
    using s unfolding sessions_ok_def world_ok_def snd_conv by blast+
  have "(oi_session_state_of w (Some p) = OI_SESSION_ACTIVE) = (oi_session_arena w (Some p) \<noteq> None)
      \<and> (oi_session_state_of w (Some p) = OI_SESSION_ACTIVE) = (oi_session_log w (Some p) \<noteq> None)"
    if "p \<in> set (sr_sessions reg)" for p
  proof -
    have "w_object w p \<noteq> None" using reg(2) that by simp
    then obtain x where "w_object w p = Some x" by blast
    with w(1) [OF this] show ?thesis
      by (auto simp: oi_session_state_of_def oi_session_arena_def oi_session_log_def session_ok_def split: if_split_asm)
  qed
  moreover have "set (w_locked w) = {path. \<exists>p. oi_session_log w (Some p) = Some path}"
    using w(4) by (auto simp: l)
  moreover have "{p. w_object w p \<noteq> None} = set (sr_sessions reg)" using reg(2) by blast
  ultimately show ?thesis using reg(1) lookup_registered [OF s] w(2,3) unfolding l by blast
qed

theorem session_registry_invariant_witness:
  "\<exists>reg w. session_run (reg, w) \<and> oi_session_lookup (reg, w) [2] = Some 1 \<and> distinct (w_locked w)"
proof -
  obtain reg w where r: "session_run (reg, w)" "sr_sessions reg = [0, 1]" "oi_session_id w (Some 1) = Some [2]"
    using two_sessions by blast
  from session_registry_invariant [OF r(1)] r show ?thesis by auto
qed

text \<open>What a session that fails or leaves gives back is its own lock, and nothing else.\<close>

lemma release_locks:
  assumes "world_ok w"
  shows "set (w_locked (oi_session_fail p w)) = set (w_locked w) - set_option (oi_session_log w (Some p))"
    and "set (w_locked (free_session p w)) = set (w_locked w) - set_option (oi_session_log w (Some p))"
    and "q \<noteq> p \<Longrightarrow> set_option (oi_session_log w (Some q)) \<subseteq> set (w_locked w) - set_option (oi_session_log w (Some p))"
proof -
  have l: "oi_session_log w (Some r) = log_at w r" for r by (simp add: oi_session_log_def log_at_def)
  have d: "distinct (w_locked w)" and s: "\<And>x. w_object w p = Some x \<Longrightarrow> session_ok x" using assms by (auto simp: world_ok_def)
  have c: "set (w_locked (oi_sesslog_close path w)) = set (w_locked w) - set_option path" for path
    using d by (auto simp: oi_sesslog_close_def split: option.split)
  show "set (w_locked (oi_session_fail p w)) = set (w_locked w) - set_option (oi_session_log w (Some p))"
    using s c by (auto simp: oi_session_fail_def l log_at_def session_ok_def split: option.split)
  show "set (w_locked (free_session p w)) = set (w_locked w) - set_option (oi_session_log w (Some p))"
    using c by (auto simp: free_session_def l log_at_def split: option.split)
  show "set_option (oi_session_log w (Some q)) \<subseteq> set (w_locked w) - set_option (oi_session_log w (Some p))" if "q \<noteq> p"
  proof
    fix path assume "path \<in> set_option (oi_session_log w (Some q))"
    then have q: "log_at w q = Some path" by (simp add: l elem_set)
    with assms that have "path \<in> set (w_locked w)" "log_at w p \<noteq> Some path" unfolding world_ok_def by blast+
    then show "path \<in> set (w_locked w) - set_option (oi_session_log w (Some p))" by (simp add: l elem_set)
  qed
qed

text \<open>
  C22. Fault containment. Failing or destroying a session leaves every other session as it was: it is still found under
  its identifier, with its arena, its log and its state, and the lock of its log is still held; no file changes. The
  failed session stays registered without arena and log, the destroyed one is gone, and of the locks held before exactly
  that of the session is released.
\<close>

theorem session_fault_containment:
  assumes "session_run (reg, w)" and "p \<in> set (sr_sessions reg)" and "q \<in> set (sr_sessions reg)" and "q \<noteq> p"
    and "oi_session_id w (Some q) = Some sid" and "oi_session_id w (Some p) = Some pid"
  shows "w_object (oi_session_fail p w) q = w_object w q \<and> oi_session_lookup (reg, oi_session_fail p w) sid = Some q
    \<and> oi_session_lookup (reg, oi_session_fail p w) pid = Some p
    \<and> oi_session_state_of (oi_session_fail p w) (Some p) = OI_SESSION_FAILED
    \<and> oi_session_log (oi_session_fail p w) (Some p) = None \<and> oi_session_arena (oi_session_fail p w) (Some p) = None
    \<and> w_object (snd (oi_session_destroy (reg, w) p)) q = w_object w q
    \<and> w_object (snd (oi_session_destroy (reg, w) p)) p = None
    \<and> oi_session_lookup (oi_session_destroy (reg, w) p) sid = Some q
    \<and> oi_session_lookup (oi_session_destroy (reg, w) p) pid = None
    \<and> w_files (oi_session_fail p w) = w_files w \<and> w_files (snd (oi_session_destroy (reg, w) p)) = w_files w
    \<and> set (w_locked (oi_session_fail p w)) = set (w_locked w) - set_option (oi_session_log w (Some p))
    \<and> set (w_locked (snd (oi_session_destroy (reg, w) p))) = set (w_locked w) - set_option (oi_session_log w (Some p))
    \<and> set_option (oi_session_log w (Some q)) \<subseteq> set (w_locked w) - set_option (oi_session_log w (Some p))"
proof -
  have ok: "sessions_ok (reg, w)" by (rule session_run_ok [OF assms(1)])
  let ?f = "oi_session_fail p w"
  obtain x where x: "w_object w p = Some x" using ok assms(2) by (auto simp: sessions_ok_def registry_ok_def)
  have id: "oi_session_id ?f (Some r) = oi_session_id w (Some r)" for r
    by (auto simp: oi_session_id_def oi_session_fail_def split: option.splits)
  have fail: "w_object ?f q = w_object w q" "oi_session_state_of ?f (Some p) = OI_SESSION_FAILED"
      "oi_session_log ?f (Some p) = None" "oi_session_arena ?f (Some p) = None" "w_files ?f = w_files w"
    using assms(4) x ok
    by (auto simp: oi_session_fail_def oi_session_state_of_def oi_session_log_def oi_session_arena_def sessions_ok_def world_ok_def
        session_ok_def)
  have lf: "oi_session_lookup (reg, ?f) sid = Some q" "oi_session_lookup (reg, ?f) pid = Some p"
    using lookup_registered [OF fail_sessions_ok [OF ok, of p]] assms(2,3,5,6) id by auto
  obtain reg' w' where d: "oi_session_destroy (reg, w) p = (reg', w')" by fastforce
  have dok: "sessions_ok (reg', w')" using destroy_sessions_ok [OF ok, of p] d by simp
  have dist: "distinct (sr_sessions reg)" using ok by (simp add: sessions_ok_def registry_ok_def)
  have set: "set (sr_sessions reg') = set (sr_sessions reg) - {p}"
  proof -
    have "reg' = reg\<lparr>sr_sessions := swap_remove p (sr_sessions reg)\<rparr>"
      using d assms(2) by (simp add: oi_session_destroy_def)
    with swap_remove_set(1) [OF assms(2) dist] show ?thesis by simp
  qed
  have oth: "w_object w' r = w_object w r" if "r \<noteq> p" for r using destroy_other [OF that, of reg w] d by simp
  have "oi_session_lookup (reg', w') sid = Some q"
    using lookup_registered [OF dok] set assms(3,4,5) oth [OF assms(4)] by (simp add: oi_session_id_def)
  moreover have "oi_session_lookup (reg', w') pid = None"
  proof (rule ccontr)
    assume "oi_session_lookup (reg', w') pid \<noteq> None"
    then obtain r where r: "oi_session_lookup (reg', w') pid = Some r" by blast
    then have "r \<in> set (sr_sessions reg)" "r \<noteq> p" "oi_session_id w (Some r) = Some pid"
      using lookup_registered [OF dok] set oth [of r] by (auto simp: oi_session_id_def)
    then show False using lookup_registered [OF ok] assms(2,6) by (metis option.inject)
  qed
  moreover have "w_object w' p = None" "w_files w' = w_files w" "w' = free_session p w"
    using d assms(2) x by (auto simp: oi_session_destroy_def free_session_def)
  moreover have "world_ok w" using ok by (simp add: sessions_ok_def)
  ultimately show ?thesis using fail lf d oth [OF assms(4)] release_locks [of w p] release_locks(3) [of w q p] assms(4) by simp
qed

theorem session_fault_containment_witness:
  "\<exists>reg w. session_run (reg, w) \<and> oi_session_lookup (reg, oi_session_fail 0 w) [2] = Some 1
    \<and> oi_session_lookup (oi_session_destroy (reg, w) 0) [2] = Some 1
    \<and> oi_session_lookup (oi_session_destroy (reg, w) 0) [1] = None"
proof -
  obtain reg w where r: "session_run (reg, w)" "sr_sessions reg = [0, 1]" "oi_session_id w (Some 0) = Some [1]"
    "oi_session_id w (Some 1) = Some [2]" using two_sessions by blast
  from session_fault_containment [OF r(1), of 0 1 "[2]" "[1]"] r show ?thesis by auto
qed

end
