(* ===== verification/Config.thy ===== *)
theory Config
  imports Prelude
begin

text \<open>
  \<open>src/config.c\<close>: the settings and the key = value file. Strings are C strings, modelled as their bytes
  before the NUL, and a \<open>NULL\<close> field is \<open>None\<close>; \<open>int\<close> fields are integers kept in the range of a 32-bit
  \<open>int\<close> by the parser. \<open>cfg_heap\<close> holds the answers of \<open>strdup\<close>. The environment variable and the
  file are arguments.
\<close>

record oi_config =
  api_key :: "bytes option"
  cfg_host :: "bytes option"
  cfg_port :: int
  use_tls :: bool
  ca_file :: "bytes option"
  cfg_path :: "bytes option"
  cfg_model :: "bytes option"
  timeout_ms :: int
  cfg_heap :: heap

definition int_min :: int where "int_min = - 2147483648"
definition int_max :: int where "int_max = 2147483647"

text \<open>\<open>strdup\<close> and the store through the field pointer: \<open>put\<close> writes the field.\<close>

definition set_string ::
  "(bytes option \<Rightarrow> oi_config \<Rightarrow> oi_config) \<Rightarrow> bytes \<Rightarrow> oi_config \<Rightarrow> oi_status \<times> oi_config" where
  "set_string put value cfg =
     (let cfg' = cfg\<lparr>cfg_heap := stl (cfg_heap cfg)\<rparr> in
      if \<not> shd (cfg_heap cfg) then (OI_ERR_NOMEM, cfg') else (OI_OK, put (Some value) cfg'))"

definition put_api_key :: "bytes option \<Rightarrow> oi_config \<Rightarrow> oi_config" where "put_api_key v cfg = cfg\<lparr>api_key := v\<rparr>"
definition put_host :: "bytes option \<Rightarrow> oi_config \<Rightarrow> oi_config" where "put_host v cfg = cfg\<lparr>cfg_host := v\<rparr>"
definition put_ca_file :: "bytes option \<Rightarrow> oi_config \<Rightarrow> oi_config" where "put_ca_file v cfg = cfg\<lparr>ca_file := v\<rparr>"
definition put_path :: "bytes option \<Rightarrow> oi_config \<Rightarrow> oi_config" where "put_path v cfg = cfg\<lparr>cfg_path := v\<rparr>"
definition put_model :: "bytes option \<Rightarrow> oi_config \<Rightarrow> oi_config" where "put_model v cfg = cfg\<lparr>cfg_model := v\<rparr>"

text \<open>
  \<open>strtol(value, &end, 10)\<close> with the test that it consumed everything: leading white space, a sign, and
  digits. A value outside \<open>long\<close> is reported through \<open>errno\<close>, one outside \<open>int\<close> by the comparison.
\<close>

definition is_space_c :: "byte \<Rightarrow> bool" where
  "is_space_c c \<longleftrightarrow> c = 0x20 \<or> (0x09 \<le> c \<and> c \<le> 0x0D)"

definition is_decimal_c :: "byte \<Rightarrow> bool" where
  "is_decimal_c c \<longleftrightarrow> 0x30 \<le> c \<and> c \<le> 0x39"

definition parse_int :: "bytes \<Rightarrow> oi_status + int" where
  "parse_int value =
     (let s = dropWhile is_space_c value;
          negative = (s \<noteq> [] \<and> hd s = 0x2D);
          digits = (if s \<noteq> [] \<and> (hd s = 0x2D \<or> hd s = 0x2B) then tl s else s);
          v = (if negative then - dec_value 0 digits else dec_value 0 digits) in
      if digits = [] \<or> \<not> list_all is_decimal_c digits \<or> v < int_min \<or> v > int_max then Inl OI_ERR_PARSE
      else Inr v)"

definition parse_bool :: "bytes \<Rightarrow> oi_status + bool" where
  "parse_bool value =
     (if equals_ignore_case value (bytes_of ''true'') \<or> equals_ignore_case value (bytes_of ''1'')
         \<or> equals_ignore_case value (bytes_of ''yes'') then Inr True
      else if equals_ignore_case value (bytes_of ''false'') \<or> equals_ignore_case value (bytes_of ''0'')
         \<or> equals_ignore_case value (bytes_of ''no'') then Inr False
      else Inl OI_ERR_PARSE)"

definition oi_config_init_defaults :: "heap \<Rightarrow> oi_status \<times> oi_config" where
  "oi_config_init_defaults h =
     (let cfg = \<lparr>api_key = None, cfg_host = None, cfg_port = 443, use_tls = True, ca_file = None,
                 cfg_path = None, cfg_model = None, timeout_ms = 60000, cfg_heap = h\<rparr> in
      case set_string put_host (bytes_of ''api.openai.com'') cfg of
        (st, cfg) \<Rightarrow> if st \<noteq> OI_OK then (st, cfg)
          else (case set_string put_path (bytes_of ''/v1/chat/completions'') cfg of
            (st, cfg) \<Rightarrow> if st \<noteq> OI_OK then (st, cfg)
              else set_string put_model (bytes_of ''gpt-4o-mini'') cfg))"

definition oi_config_set :: "oi_config \<Rightarrow> bytes \<Rightarrow> bytes \<Rightarrow> oi_status \<times> oi_config" where
  "oi_config_set cfg key value =
     (if key = bytes_of ''api_key'' then set_string put_api_key value cfg
      else if key = bytes_of ''host'' then set_string put_host value cfg
      else if key = bytes_of ''port'' then
        (case parse_int value of
           Inl st \<Rightarrow> (OI_ERR_PARSE, cfg)
         | Inr port \<Rightarrow> if port < 1 \<or> port > 65535 then (OI_ERR_PARSE, cfg)
                      else (OI_OK, cfg\<lparr>cfg_port := port\<rparr>))
      else if key = bytes_of ''use_tls'' then
        (case parse_bool value of Inl st \<Rightarrow> (st, cfg) | Inr b \<Rightarrow> (OI_OK, cfg\<lparr>use_tls := b\<rparr>))
      else if key = bytes_of ''ca_file'' then set_string put_ca_file value cfg
      else if key = bytes_of ''path'' then set_string put_path value cfg
      else if key = bytes_of ''model'' then set_string put_model value cfg
      else if key = bytes_of ''timeout_ms'' then
        (case parse_int value of
           Inl st \<Rightarrow> (OI_ERR_PARSE, cfg)
         | Inr t \<Rightarrow> if t \<le> 0 then (OI_ERR_PARSE, cfg) else (OI_OK, cfg\<lparr>timeout_ms := t\<rparr>))
      else (OI_ERR_NOTFOUND, cfg))"

text \<open>\<open>env\<close> is what \<open>getenv\<close> answers.\<close>

definition oi_config_load_env :: "bytes option \<Rightarrow> oi_config \<Rightarrow> oi_status \<times> oi_config" where
  "oi_config_load_env env cfg =
     (case env of
        None \<Rightarrow> (OI_OK, cfg)
      | Some v \<Rightarrow> if v = [] then (OI_OK, cfg) else set_string put_api_key v cfg)"

definition trim :: "bytes \<Rightarrow> bytes" where
  "trim s =
     (let s' = dropWhile (\<lambda>c. c = 0x20 \<or> c = 0x09) s in
      rev (dropWhile (\<lambda>c. c = 0x20 \<or> c = 0x09 \<or> c = 0x0D \<or> c = 0x0A) (rev s')))"

definition parse_line :: "oi_config \<Rightarrow> bytes \<Rightarrow> oi_status \<times> oi_config" where
  "parse_line cfg line =
     (let s = trim (c_string line) in
      if s = [] then (OI_OK, cfg)
      else if hd s = 0x23 then (OI_OK, cfg)
      else if 0x3D \<notin> set s then (OI_ERR_PARSE, cfg)
      else
        let key = trim (takeWhile (\<lambda>c. c \<noteq> 0x3D) s); value = trim (drop 1 (dropWhile (\<lambda>c. c \<noteq> 0x3D) s)) in
        if key = [] then (OI_ERR_PARSE, cfg)
        else if key = bytes_of ''api_key'' then (OI_ERR_DENIED, cfg)
        else oi_config_set cfg key value)"

text \<open>
  \<open>fgets\<close> with the buffer of 1024 bytes: up to 1023 bytes, ending after a newline. \<open>File\<close> holds the bytes
  that can be read from the file.
\<close>

datatype fopen_answer = File bytes | No_such_file | Open_failed

definition config_line_max :: nat where "config_line_max = 1023"

definition fgets :: "bytes \<Rightarrow> bytes \<times> bytes" where
  "fgets s =
     (let n = length (takeWhile (\<lambda>c. c \<noteq> 0x0A) s) + 1 in
      (take (min n config_line_max) s, drop (min n config_line_max) s))"

function load_lines :: "oi_config \<Rightarrow> bytes \<Rightarrow> oi_status \<times> oi_config" where
  "load_lines cfg s =
     (if s = [] then (OI_OK, cfg)
      else (case fgets s of (line, rest) \<Rightarrow>
        (case parse_line cfg line of (st, cfg') \<Rightarrow>
           if st \<noteq> OI_OK then (st, cfg') else load_lines cfg' rest)))"
  by pat_completeness auto
termination
  by (relation "measure (\<lambda>(cfg, s). length s)") (auto simp: fgets_def config_line_max_def Let_def)

declare load_lines.simps [simp del]

definition oi_config_load_file :: "oi_config \<Rightarrow> fopen_answer \<Rightarrow> oi_status \<times> oi_config" where
  "oi_config_load_file cfg f =
     (case f of
        No_such_file \<Rightarrow> (OI_ERR_NOTFOUND, cfg)
      | Open_failed \<Rightarrow> (OI_ERR_IO, cfg)
      | File s \<Rightarrow> load_lines cfg s)"

definition oi_config_free :: "oi_config \<Rightarrow> oi_config" where
  "oi_config_free cfg = cfg\<lparr>api_key := None, cfg_host := None, ca_file := None, cfg_path := None, cfg_model := None\<rparr>"

section \<open>What a setting changes\<close>

lemmas put_defs = put_api_key_def put_host_def put_ca_file_def put_path_def put_model_def

definition config_valid :: "oi_config \<Rightarrow> bool" where
  "config_valid cfg \<longleftrightarrow> 1 \<le> cfg_port cfg \<and> cfg_port cfg \<le> 65535 \<and> 0 < timeout_ms cfg \<and> timeout_ms cfg \<le> int_max"

lemma parse_int_range: "parse_int value = Inr v \<Longrightarrow> int_min \<le> v \<and> v \<le> int_max"
  by (auto simp: parse_int_def Let_def split: if_split_asm)

lemma set_string_sel:
  "cfg_port (snd (set_string put_api_key v cfg)) = cfg_port cfg" "timeout_ms (snd (set_string put_api_key v cfg)) = timeout_ms cfg"
  "cfg_port (snd (set_string put_host v cfg)) = cfg_port cfg" "timeout_ms (snd (set_string put_host v cfg)) = timeout_ms cfg"
  "cfg_port (snd (set_string put_ca_file v cfg)) = cfg_port cfg" "timeout_ms (snd (set_string put_ca_file v cfg)) = timeout_ms cfg"
  "cfg_port (snd (set_string put_path v cfg)) = cfg_port cfg" "timeout_ms (snd (set_string put_path v cfg)) = timeout_ms cfg"
  "cfg_port (snd (set_string put_model v cfg)) = cfg_port cfg" "timeout_ms (snd (set_string put_model v cfg)) = timeout_ms cfg"
  "api_key (snd (set_string put_host v cfg)) = api_key cfg" "api_key (snd (set_string put_ca_file v cfg)) = api_key cfg"
  "api_key (snd (set_string put_path v cfg)) = api_key cfg" "api_key (snd (set_string put_model v cfg)) = api_key cfg"
  by (simp_all add: set_string_def put_defs Let_def)

lemma config_valid_cong:
  "cfg_port cfg' = cfg_port cfg \<Longrightarrow> timeout_ms cfg' = timeout_ms cfg \<Longrightarrow> config_valid cfg' = config_valid cfg"
  by (simp add: config_valid_def)

lemma config_set_valid:
  assumes "config_valid cfg"
  shows "config_valid (snd (oi_config_set cfg key value))"
proof -
  have c: "config_valid (snd (set_string p value cfg))"
    if "p \<in> {put_api_key, put_host, put_ca_file, put_path, put_model}" for p
    using that assms config_valid_cong [of "snd (set_string p value cfg)" cfg] by (auto simp: set_string_sel)
  have n: "config_valid (snd (case parse_int value of Inl st \<Rightarrow> (OI_ERR_PARSE, cfg)
      | Inr port \<Rightarrow> if port < 1 \<or> port > 65535 then (OI_ERR_PARSE, cfg) else (OI_OK, cfg\<lparr>cfg_port := port\<rparr>)))"
    using assms by (auto simp: config_valid_def split: sum.split)
  have t: "config_valid (snd (case parse_int value of Inl st \<Rightarrow> (OI_ERR_PARSE, cfg)
      | Inr t \<Rightarrow> if t \<le> 0 then (OI_ERR_PARSE, cfg) else (OI_OK, cfg\<lparr>timeout_ms := t\<rparr>)))"
    using assms parse_int_range [of "value"] by (auto simp: config_valid_def split: sum.split)
  have b: "config_valid (snd (case parse_bool value of Inl st \<Rightarrow> (st, cfg) | Inr b \<Rightarrow> (OI_OK, cfg\<lparr>use_tls := b\<rparr>)))"
    using assms by (auto simp: config_valid_def split: sum.split)
  show ?thesis unfolding oi_config_set_def using c n t b assms by simp
qed

lemma config_set_keeps_key:
  assumes "key \<noteq> bytes_of ''api_key''"
  shows "api_key (snd (oi_config_set cfg key value)) = api_key cfg"
  using assms unfolding oi_config_set_def by (simp add: set_string_sel split: sum.split)

lemma parse_line_safe:
  "config_valid cfg \<Longrightarrow> config_valid (snd (parse_line cfg line))"
  "api_key (snd (parse_line cfg line)) = api_key cfg"
  by (simp_all add: parse_line_def Let_def config_set_valid config_set_keeps_key)

lemma load_lines_safe:
  "(config_valid cfg \<longrightarrow> config_valid (snd (load_lines cfg s))) \<and> api_key (snd (load_lines cfg s)) = api_key cfg"
proof (induction cfg s rule: load_lines.induct)
  case (1 cfg s)
  obtain l r where f: "fgets s = (l, r)" by fastforce
  obtain st cfg' where p: "parse_line cfg l = (st, cfg')" by fastforce
  with parse_line_safe [of cfg l] have c: "config_valid cfg \<longrightarrow> config_valid cfg'" "api_key cfg' = api_key cfg" by simp_all
  show ?case
  proof (cases "s = [] \<or> st \<noteq> OI_OK")
    case True
    with c f p show ?thesis by (auto simp: load_lines.simps [of cfg s])
  next
    case False
    then have "load_lines cfg s = load_lines cfg' r" using f p by (simp add: load_lines.simps [of cfg s])
    with 1 [OF _ f [symmetric] p [symmetric]] False c show ?thesis by simp
  qed
qed

section \<open>Reading a file\<close>

definition trimmed :: "bytes \<Rightarrow> bool" where
  "trimmed s \<longleftrightarrow> s = [] \<or> hd s \<notin> {0x20, 0x09} \<and> last s \<notin> {0x20, 0x09, 0x0D, 0x0A}"

lemma trim_middle:
  assumes "set a \<subseteq> {0x20, 0x09}" and "trimmed s" and "set b \<subseteq> {0x20, 0x09, 0x0D, 0x0A}"
  shows "trim (a @ s @ b) = s"
proof (cases s rule: rev_cases)
  case Nil
  have "\<forall>c \<in> set (dropWhile (\<lambda>c. c = 0x20 \<or> c = 0x09) (a @ b)). c = 0x20 \<or> c = 0x09 \<or> c = 0x0D \<or> c = 0x0A"
    using assms(1,3) set_dropWhileD by fastforce
  with Nil show ?thesis by (simp add: trim_def dropWhile_eq_Nil_conv)
next
  case (snoc s' x)
  have "s \<noteq> []" using snoc by simp
  then obtain y t where y: "s = y # t" by (auto simp: neq_Nil_conv)
  have "dropWhile (\<lambda>c. c = 0x20 \<or> c = 0x09) (a @ s @ b) = s @ b"
    using assms(1,2) by (auto simp: y trimmed_def dropWhile_append2 subset_iff)
  moreover have "dropWhile (\<lambda>c. c = 0x20 \<or> c = 0x09 \<or> c = 0x0D \<or> c = 0x0A) (rev b @ rev s) = rev s"
  proof -
    have "dropWhile (\<lambda>c. c = 0x20 \<or> c = 0x09 \<or> c = 0x0D \<or> c = 0x0A) (rev b @ rev s)
        = dropWhile (\<lambda>c. c = 0x20 \<or> c = 0x09 \<or> c = 0x0D \<or> c = 0x0A) (rev s)"
      using assms(3) by (intro dropWhile_append2) auto
    with assms(2) snoc show ?thesis by (auto simp: trimmed_def)
  qed
  ultimately show ?thesis by (simp add: trim_def)
qed

definition setting_line :: "bytes \<times> bytes \<Rightarrow> bytes" where
  "setting_line kv = fst kv @ [0x20, 0x3D, 0x20] @ snd kv @ [0x0A]"

definition plain_setting :: "bytes \<times> bytes \<Rightarrow> bool" where
  "plain_setting kv \<longleftrightarrow> fst kv \<noteq> [] \<and> hd (fst kv) \<noteq> 0x23 \<and> fst kv \<noteq> bytes_of ''api_key''
     \<and> set (fst kv) \<inter> {0, 0x0A, 0x3D} = {} \<and> set (snd kv) \<inter> {0, 0x0A} = {} \<and> trimmed (fst kv) \<and> trimmed (snd kv)
     \<and> length (setting_line kv) \<le> config_line_max"

fun set_all :: "oi_config \<Rightarrow> (bytes \<times> bytes) list \<Rightarrow> oi_status \<times> oi_config" where
  "set_all cfg [] = (OI_OK, cfg)"
| "set_all cfg (kv # kvs) =
     (case oi_config_set cfg (fst kv) (snd kv) of
        (st, cfg') \<Rightarrow> if st \<noteq> OI_OK then (st, cfg') else set_all cfg' kvs)"

lemma append_no_eq:
  assumes "(0x3D :: byte) \<notin> set k"
  shows "takeWhile (\<lambda>c. c \<noteq> 0x3D) (k @ r) = k @ takeWhile (\<lambda>c. c \<noteq> 0x3D) r"
    and "dropWhile (\<lambda>c. c \<noteq> 0x3D) (k @ r) = dropWhile (\<lambda>c. c \<noteq> 0x3D) r"
  using assms by (induction k) auto

lemma parse_setting_line:
  assumes "plain_setting (k, v)"
  shows "parse_line cfg (setting_line (k, v)) = oi_config_set cfg k v"
proof -
  have k: "k \<noteq> []" "hd k \<noteq> 0x23" "k \<noteq> bytes_of ''api_key''" "0 \<notin> set k" "0x3D \<notin> set k" "trimmed k"
    and v: "0 \<notin> set v" "trimmed v" using assms by (auto simp: plain_setting_def)
  have c: "c_string (setting_line (k, v)) = setting_line (k, v)"
    using k v by (intro c_string_id) (auto simp: setting_line_def)
  let ?s = "if v = [] then k @ [0x20, 0x3D] else k @ [0x20, 0x3D, 0x20] @ v"
  let ?b = "if v = [] then [0x20, 0x0A] else [0x0A]"
  have "trimmed ?s" using k v by (auto simp: trimmed_def)
  then have "trim ([] @ ?s @ ?b) = ?s" by (intro trim_middle) auto
  moreover have "setting_line (k, v) = ?s @ ?b" by (simp add: setting_line_def)
  ultimately have t: "trim (setting_line (k, v)) = ?s" by simp
  have tw: "takeWhile (\<lambda>c. c \<noteq> 0x3D) ?s = k @ [0x20]"
    by (simp add: append_no_eq(1) [OF k(5)])
  have dw: "drop 1 (dropWhile (\<lambda>c. c \<noteq> 0x3D) ?s) = (if v = [] then [] else [0x20] @ v)"
    by (simp add: append_no_eq(2) [OF k(5)])
  have tk: "trim (k @ [0x20]) = k" using trim_middle [of "[]" k "[0x20]"] k(6) by simp
  have tv: "trim (if v = [] then [] else [0x20] @ v) = v"
    using trim_middle [of "[0x20]" v "[]"] v(2) by (simp add: trim_def)
  have "?s \<noteq> []" "hd ?s \<noteq> 0x23" "0x3D \<in> set ?s" using k(1,2) by auto
  then show ?thesis
    unfolding parse_line_def c t Let_def tw dw tk tv using k(1,3) by simp
qed

lemma fgets_line:
  assumes "0x0A \<notin> set l" and "length l < config_line_max"
  shows "fgets (l @ 0x0A # rest) = (l @ [0x0A], rest)"
proof -
  have "takeWhile (\<lambda>c. c \<noteq> 0x0A) (l @ 0x0A # rest) = l" using assms(1) by (subst takeWhile_append2) auto
  with assms(2) show ?thesis by (simp add: fgets_def min_def)
qed

lemma load_settings:
  assumes "\<forall>kv \<in> set kvs. plain_setting kv"
  shows "load_lines cfg (concat (map setting_line kvs)) = set_all cfg kvs"
  using assms
proof (induction kvs arbitrary: cfg)
  case Nil
  then show ?case by (simp add: load_lines.simps)
next
  case (Cons kv kvs)
  obtain k v where kv: "kv = (k, v)" by fastforce
  with Cons.prems have p: "plain_setting (k, v)" by simp
  let ?r = "concat (map setting_line kvs)"
  have "fgets (setting_line (k, v) @ ?r) = (setting_line (k, v), ?r)"
    using p fgets_line [of "k @ [0x20, 0x3D, 0x20] @ v" ?r] by (auto simp: plain_setting_def setting_line_def)
  moreover have "setting_line (k, v) @ ?r \<noteq> []" by (simp add: setting_line_def)
  ultimately have "load_lines cfg (setting_line (k, v) @ ?r) =
      (case oi_config_set cfg k v of (st, cfg') \<Rightarrow> if st \<noteq> OI_OK then (st, cfg') else load_lines cfg' ?r)"
    by (simp only: load_lines.simps [of cfg "setting_line (k, v) @ concat (map setting_line kvs)"] if_False
        prod.case parse_setting_line [OF p])
  with Cons kv show ?case by (auto split: prod.split)
qed

lemma load_long_comment:
  assumes "0x0A \<notin> set s"
  shows "load_lines cfg (0x23 # replicate 1022 0x78 @ s) = load_lines cfg s"
proof -
  let ?c = "0x23 # replicate 1022 0x78 :: bytes"
  have t: "takeWhile (\<lambda>c. c \<noteq> 0x0A) (?c @ s) = ?c @ s" using assms by (intro takeWhile_eq_all_conv [THEN iffD2]) auto
  have "fgets (?c @ s) = (?c, s)" unfolding fgets_def Let_def t config_line_max_def by simp
  moreover have "trimmed ?c" by (simp add: trimmed_def)
  then have "trim ?c = ?c" using trim_middle [of "[]" ?c "[]"] by simp
  moreover have "c_string ?c = ?c" by (intro c_string_id) simp
  ultimately show ?thesis
    by (simp add: load_lines.simps [of cfg "?c @ s", simplified] parse_line_def)
qed

lemma init_defaults_valid: "config_valid (snd (oi_config_init_defaults h)) \<and> api_key (snd (oi_config_init_defaults h)) = None"
  by (simp add: oi_config_init_defaults_def set_string_def put_defs config_valid_def int_max_def Let_def)

section \<open>Properties\<close>

text \<open>What a program does to a configuration: overrides, the environment, and files.\<close>

datatype config_source = Set_option bytes bytes | Load_env "bytes option" | Load_file fopen_answer

fun config_step :: "config_source \<Rightarrow> oi_config \<Rightarrow> oi_status \<times> oi_config" where
  "config_step (Set_option k v) cfg = oi_config_set cfg k v"
| "config_step (Load_env env) cfg = oi_config_load_env env cfg"
| "config_step (Load_file f) cfg = oi_config_load_file cfg f"

definition config_after :: "heap \<Rightarrow> config_source list \<Rightarrow> oi_config" where
  "config_after h steps = foldl (\<lambda>cfg s. snd (config_step s cfg)) (snd (oi_config_init_defaults h)) steps"

lemma load_env_valid: "config_valid cfg \<Longrightarrow> config_valid (snd (oi_config_load_env env cfg))"
  by (auto simp: oi_config_load_env_def set_string_def put_defs config_valid_def Let_def split: option.split)

lemma load_file_safe:
  "config_valid cfg \<Longrightarrow> config_valid (snd (oi_config_load_file cfg f))"
  "api_key (snd (oi_config_load_file cfg f)) = api_key cfg"
  using load_lines_safe by (auto simp: oi_config_load_file_def split: fopen_answer.split)

lemma config_step_valid: "config_valid cfg \<Longrightarrow> config_valid (snd (config_step s cfg))"
  by (cases s) (simp_all add: config_set_valid load_env_valid load_file_safe)

lemma config_after_valid: "config_valid (config_after h steps)"
proof -
  have "config_valid cfg \<Longrightarrow> config_valid (foldl (\<lambda>cfg s. snd (config_step s cfg)) cfg steps)" for cfg
    by (induction steps arbitrary: cfg) (simp_all add: config_step_valid)
  with init_defaults_valid show ?thesis by (simp add: config_after_def)
qed

text \<open>
  C39. Whatever options, environment and files are applied to the defaults, in any order, failing or not,
  and whatever the allocator answers, the port stays within 1 and 65535 and the deadline is a positive
  \<open>int\<close>; and no file, whatever it holds, sets or changes the API key.
\<close>

theorem config_stays_valid:
  "1 \<le> cfg_port (config_after h steps) \<and> cfg_port (config_after h steps) \<le> 65535
   \<and> 0 < timeout_ms (config_after h steps) \<and> timeout_ms (config_after h steps) \<le> 2147483647
   \<and> api_key (snd (oi_config_load_file (config_after h steps) f)) = api_key (config_after h steps)"
  using config_after_valid [of h steps] by (simp add: config_valid_def int_max_def load_file_safe)

text \<open>
  A file of lines \<open>key = value\<close>, each short enough for the line buffer, has the effect of setting its
  pairs one after the other up to the first error.
\<close>

theorem config_file_sets:
  assumes "\<forall>kv \<in> set kvs. plain_setting kv"
  shows "oi_config_load_file cfg (File (concat (map setting_line kvs))) = set_all cfg kvs"
  using load_settings [OF assms] by (simp add: oi_config_load_file_def)

theorem config_file_sets_witness:
  "oi_config_load_file (config_after heap_ok [])
       (File (concat (map setting_line [(bytes_of ''port'', [0x38, 0x30]), (bytes_of ''hots'', [])])))
     = (OI_ERR_NOTFOUND, (config_after heap_ok [])\<lparr>cfg_port := 80\<rparr>)"
proof -
  have "\<forall>kv \<in> set [(bytes_of ''port'', [0x38, 0x30]), (bytes_of ''hots'', [])]. plain_setting kv"
    by (simp add: plain_setting_def bytes_of_def trimmed_def setting_line_def config_line_max_def)
  from config_file_sets [OF this, of "config_after heap_ok []"] show ?thesis
    by (simp add: oi_config_set_def bytes_of_def parse_int_def is_space_c_def is_decimal_c_def dec_value_def
        digit_value_def int_min_def int_max_def Let_def)
qed

text \<open>
  A comment longer than the line buffer is not skipped as a whole: what follows its first 1023 bytes
  is read as a line of its own, so the tail of a comment can set the port.
\<close>

theorem config_long_comment_sets:
  "oi_config_load_file cfg (File (0x23 # replicate 1022 0x78 @ bytes_of ''port=80''))
     = (OI_OK, cfg\<lparr>cfg_port := 80\<rparr>)"
proof -
  have "0x0A \<notin> set (bytes_of ''port=80'')" by (simp add: bytes_of_def)
  from load_long_comment [OF this, of cfg] have
    "oi_config_load_file cfg (File (0x23 # replicate 1022 0x78 @ bytes_of ''port=80'')) = load_lines cfg (bytes_of ''port=80'')"
    by (simp only: oi_config_load_file_def fopen_answer.case)
  also have "\<dots> = (OI_OK, cfg\<lparr>cfg_port := 80\<rparr>)"
    by (simp add: load_lines.simps fgets_def config_line_max_def parse_line_def c_string_def trim_def
        oi_config_set_def bytes_of_def parse_int_def is_space_c_def is_decimal_c_def dec_value_def
        digit_value_def int_min_def int_max_def Let_def)
  finally show ?thesis .
qed

end
