(* ===== verification/Reactor.thy ===== *)
theory Reactor
  imports Prelude
begin

text \<open>
  \<open>src/reactor.c\<close> and \<open>src/reactor_epoll.c\<close>: the event loop. The kernel is what the backend calls:
  \<open>be_epoll\<close> is the interest set of the epoll descriptor for the descriptors of the clients, which
  accepts a descriptor once, \<open>be_watches\<close> the native watches with the token the kernel reports for each
  (their timerfd or pidfd numbers are not represented), and \<open>be_kernel\<close> says whether each further system
  call succeeds. What \<open>epoll_wait\<close> reports is an argument of a step. Timers and processes are objects
  reached through pointers: a store and a linked list of the active ones, newest first.

  A callback is a value of any type \<open>'c\<close> (function pointer and user pointer). What a client does when it
  is called is a program: it makes calls of the reactor one after the other, each depending on the
  answers before it, and ends in a new client state.
\<close>

definition oi_reactor_max_fd :: int where "oi_reactor_max_fd = 1048576"
definition oi_reactor_max_events :: nat where "oi_reactor_max_events = 64"

section \<open>The backend\<close>

record backend =
  be_epoll :: "nat \<Rightarrow> (64 word \<times> int) option"
  be_watches :: "(64 word \<times> 64 word) list"
  be_next_handle :: "64 word"
  be_kernel :: heap

definition next_answer :: "backend \<Rightarrow> bool \<times> backend" where
  "next_answer b = (shd (be_kernel b), b\<lparr>be_kernel := stl (be_kernel b)\<rparr>)"

definition oi_reactor_backend_add :: "backend \<Rightarrow> nat \<Rightarrow> int \<Rightarrow> 64 word \<Rightarrow> oi_status \<times> backend" where
  "oi_reactor_backend_add b fd interest token =
     (if be_epoll b fd \<noteq> None then (OI_ERR_EXISTS, b)
      else (case next_answer b of
        (ok, b') \<Rightarrow> if \<not> ok then (OI_ERR_IO, b')
                    else (OI_OK, b'\<lparr>be_epoll := (be_epoll b)(fd := Some (token, interest))\<rparr>)))"

definition oi_reactor_backend_modify :: "backend \<Rightarrow> nat \<Rightarrow> int \<Rightarrow> 64 word \<Rightarrow> oi_status \<times> backend" where
  "oi_reactor_backend_modify b fd interest token =
     (if be_epoll b fd = None then (OI_ERR_NOTFOUND, b)
      else (case next_answer b of
        (ok, b') \<Rightarrow> if \<not> ok then (OI_ERR_IO, b')
                    else (OI_OK, b'\<lparr>be_epoll := (be_epoll b)(fd := Some (token, interest))\<rparr>)))"

definition oi_reactor_backend_remove :: "backend \<Rightarrow> nat \<Rightarrow> oi_status \<times> backend" where
  "oi_reactor_backend_remove b fd =
     (if be_epoll b fd = None then (OI_ERR_NOTFOUND, b)
      else (case next_answer b of
        (ok, b') \<Rightarrow> if \<not> ok then (OI_ERR_IO, b')
                    else (OI_OK, b'\<lparr>be_epoll := (be_epoll b)(fd := None)\<rparr>)))"

text \<open>The answers are \<open>epoll_ctl\<close>'s and \<open>malloc\<close>'s.\<close>

definition native_watch_add :: "backend \<Rightarrow> 64 word \<Rightarrow> (oi_status + 64 word) \<times> backend" where
  "native_watch_add b token =
     (case next_answer b of (ctl_ok, b1) \<Rightarrow>
        if \<not> ctl_ok then (Inl OI_ERR_IO, b1)
        else (case next_answer b1 of (malloc_ok, b2) \<Rightarrow>
          if \<not> malloc_ok then (Inl OI_ERR_NOMEM, b2)
          else let handle = (if be_next_handle b2 = 0 then 1 else be_next_handle b2) in
            (Inr handle, b2\<lparr>be_next_handle := handle + 1, be_watches := (handle, token) # be_watches b2\<rparr>)))"

fun remove_handle :: "64 word \<Rightarrow> (64 word \<times> 64 word) list \<Rightarrow> (64 word \<times> 64 word) list" where
  "remove_handle h [] = []"
| "remove_handle h (w # ws) = (if fst w = h then ws else w # remove_handle h ws)"

definition native_watch_remove :: "backend \<Rightarrow> 64 word \<Rightarrow> oi_status \<times> backend" where
  "native_watch_remove b handle =
     (if handle \<notin> fst ` set (be_watches b) then (OI_ERR_NOTFOUND, b)
      else (OI_OK, b\<lparr>be_watches := remove_handle handle (be_watches b)\<rparr>))"

text \<open>\<open>timerfd_create\<close> and \<open>timerfd_settime\<close>, then the watch.\<close>

definition oi_reactor_backend_timer_add :: "backend \<Rightarrow> 64 word \<Rightarrow> (oi_status + 64 word) \<times> backend" where
  "oi_reactor_backend_timer_add b token =
     (case next_answer b of (created, b1) \<Rightarrow>
        if \<not> created then (Inl OI_ERR_IO, b1)
        else (case next_answer b1 of (armed, b2) \<Rightarrow>
          if \<not> armed then (Inl OI_ERR_IO, b2) else native_watch_add b2 token))"

definition oi_reactor_backend_process_add :: "backend \<Rightarrow> 64 word \<Rightarrow> (oi_status + 64 word) \<times> backend" where
  "oi_reactor_backend_process_add b token =
     (case next_answer b of (opened, b1) \<Rightarrow>
        if \<not> opened then (Inl OI_ERR_IO, b1) else native_watch_add b1 token)"

section \<open>The reactor\<close>

record 'c fd_entry =
  fe_cb :: "'c option"
  fe_interest :: int
  fe_in_use :: bool
  fe_generation :: "32 word"

record 'c oi_reactor_timer =
  nt_id :: "64 word"
  nt_handle :: "64 word"
  nt_cb :: 'c
  nt_active :: bool

record 'c oi_reactor_process = "'c oi_reactor_timer" +
  pr_pid :: int

record 'c oi_reactor =
  r_backend :: backend
  r_entries :: "'c fd_entry list"
  registered_count :: nat
  stop_requested :: bool
  next_native_id :: "64 word"
  r_timer :: "nat \<Rightarrow> 'c oi_reactor_timer option"
  r_timers :: "nat list"
  r_process :: "nat \<Rightarrow> 'c oi_reactor_process option"
  r_processes :: "nat list"
  r_next_address :: nat
  r_heap :: heap

definition token_payload_mask :: "64 word" where "token_payload_mask = mask 62"
definition token_timer :: "64 word" where "token_timer = push_bit 62 1"
definition token_process :: "64 word" where "token_process = push_bit 62 2"

definition oi_reactor_create :: "heap \<Rightarrow> backend option \<Rightarrow> 'c oi_reactor option" where
  "oi_reactor_create h created =
     (if \<not> shd h then None
      else map_option (\<lambda>b. \<lparr>r_backend = b, r_entries = [], registered_count = 0, stop_requested = False,
             next_native_id = 1, r_timer = \<lambda>_. None, r_timers = [], r_process = \<lambda>_. None, r_processes = [],
             r_next_address = 0, r_heap = stl h\<rparr>) created)"

text \<open>\<open>epoll_create1\<close> and \<open>malloc\<close>.\<close>

definition oi_reactor_backend_create :: "heap \<Rightarrow> backend option" where
  "oi_reactor_backend_create k =
     (if \<not> shd k then None
      else if \<not> shd (stl k) then None
      else Some \<lparr>be_epoll = \<lambda>_. None, be_watches = [], be_next_handle = 1, be_kernel = stl (stl k)\<rparr>)"

definition free_entry :: "'c fd_entry" where
  "free_entry = \<lparr>fe_cb = None, fe_interest = 0, fe_in_use = False, fe_generation = 0\<rparr>"

definition ensure_capacity :: "'c oi_reactor \<Rightarrow> nat \<Rightarrow> oi_status \<times> 'c oi_reactor" where
  "ensure_capacity r fd =
     (if fd < length (r_entries r) then (OI_OK, r)
      else (case grow_cap (if r_entries r = [] then 16 else length (r_entries r)) (fd + 1) of
          None \<Rightarrow> (OI_ERR_NOMEM, r)
        | Some n \<Rightarrow>
            let r' = r\<lparr>r_heap := stl (r_heap r)\<rparr> in
            if \<not> shd (r_heap r) then (OI_ERR_NOMEM, r')
            else (OI_OK, r'\<lparr>r_entries := r_entries r @ replicate (n - length (r_entries r)) free_entry\<rparr>)))"

definition validate_fd_interest :: "int \<Rightarrow> int \<Rightarrow> oi_status" where
  "validate_fd_interest fd interest =
     (if fd < 0 \<or> fd \<ge> oi_reactor_max_fd then OI_ERR_INVAL
      else if interest = 0 \<or> interest AND NOT 3 \<noteq> 0 then OI_ERR_INVAL
      else OI_OK)"

definition registration_token :: "nat \<Rightarrow> 32 word \<Rightarrow> 64 word" where
  "registration_token fd generation =
     (push_bit 32 (ucast generation) OR word_of_nat fd) AND token_payload_mask"

definition next_generation :: "32 word \<Rightarrow> 32 word" where
  "next_generation g = (let g' = (g + 1) AND 0x3fffffff in if g' = 0 then 1 else g')"

definition oi_reactor_add :: "'c oi_reactor \<Rightarrow> int \<Rightarrow> int \<Rightarrow> 'c \<Rightarrow> oi_status \<times> 'c oi_reactor" where
  "oi_reactor_add r ifd interest cb =
     (if validate_fd_interest ifd interest \<noteq> OI_OK then (validate_fd_interest ifd interest, r)
      else let fd = nat ifd in
        (case ensure_capacity r fd of (st, r1) \<Rightarrow>
           if st \<noteq> OI_OK then (st, r1)
           else let generation = next_generation (fe_generation (r_entries r1 ! fd)) in
             (case oi_reactor_backend_add (r_backend r1) fd interest (registration_token fd generation) of
                (st, b) \<Rightarrow>
                  if st \<noteq> OI_OK then (st, r1\<lparr>r_backend := b\<rparr>)
                  else (OI_OK, r1\<lparr>r_backend := b,
                     r_entries := (r_entries r1)[fd := \<lparr>fe_cb = Some cb, fe_interest = interest, fe_in_use = True,
                                                       fe_generation = generation\<rparr>],
                     registered_count := registered_count r1 + 1\<rparr>))))"

definition oi_reactor_modify :: "'c oi_reactor \<Rightarrow> int \<Rightarrow> int \<Rightarrow> oi_status \<times> 'c oi_reactor" where
  "oi_reactor_modify r ifd interest =
     (if validate_fd_interest ifd interest \<noteq> OI_OK then (validate_fd_interest ifd interest, r)
      else
        let fd = nat ifd;
            generation = (if fd < length (r_entries r) then fe_generation (r_entries r ! fd) else 0) in
        (case oi_reactor_backend_modify (r_backend r) fd interest (registration_token fd generation) of
           (st, b) \<Rightarrow>
             if st \<noteq> OI_OK then (st, r\<lparr>r_backend := b\<rparr>)
             else (OI_OK, r\<lparr>r_backend := b,
                    r_entries := (r_entries r)[fd := (r_entries r ! fd)\<lparr>fe_interest := interest\<rparr>]\<rparr>)))"

definition oi_reactor_remove :: "'c oi_reactor \<Rightarrow> int \<Rightarrow> oi_status \<times> 'c oi_reactor" where
  "oi_reactor_remove r ifd =
     (if ifd < 0 \<or> ifd \<ge> oi_reactor_max_fd then (OI_ERR_INVAL, r)
      else let fd = nat ifd in
        (case oi_reactor_backend_remove (r_backend r) fd of
           (st, b) \<Rightarrow>
             if st \<noteq> OI_OK then (st, r\<lparr>r_backend := b\<rparr>)
             else (OI_OK, r\<lparr>r_backend := b,
                    r_entries := (if fd < length (r_entries r)
                      then (r_entries r)[fd := (r_entries r ! fd)\<lparr>fe_cb := None, fe_interest := 0, fe_in_use := False\<rparr>]
                      else r_entries r),
                    registered_count := registered_count r - 1\<rparr>)))"

definition oi_reactor_stop :: "'c oi_reactor \<Rightarrow> 'c oi_reactor" where
  "oi_reactor_stop r = r\<lparr>stop_requested := True\<rparr>"

text \<open>\<open>r->next_native_id++\<close>, starting again at 1 when the identifier leaves the payload.\<close>

definition take_native_id :: "'c oi_reactor \<Rightarrow> 64 word \<times> 'c oi_reactor" where
  "take_native_id r =
     (let i = next_native_id r in
      if i = 0 \<or> i > token_payload_mask then (1, r\<lparr>next_native_id := 2\<rparr>)
      else (i, r\<lparr>next_native_id := i + 1\<rparr>))"

definition oi_reactor_timer_start :: "'c oi_reactor \<Rightarrow> int \<Rightarrow> 'c \<Rightarrow> (oi_status + nat) \<times> 'c oi_reactor" where
  "oi_reactor_timer_start r ms cb =
     (if ms \<le> 0 then (Inl OI_ERR_INVAL, r)
      else if \<not> shd (r_heap r) then (Inl OI_ERR_NOMEM, r\<lparr>r_heap := stl (r_heap r)\<rparr>)
      else (case take_native_id (r\<lparr>r_heap := stl (r_heap r)\<rparr>) of (i, r1) \<Rightarrow>
        (case oi_reactor_backend_timer_add (r_backend r1) (token_timer OR i) of
           (Inl st, b) \<Rightarrow> (Inl st, r1\<lparr>r_backend := b\<rparr>)
         | (Inr h, b) \<Rightarrow>
             let t = r_next_address r1 in
             (Inr t, r1\<lparr>r_backend := b, r_next_address := t + 1,
                r_timer := (r_timer r1)(t := Some \<lparr>nt_id = i, nt_handle = h, nt_cb = cb, nt_active = True\<rparr>),
                r_timers := t # r_timers r1, registered_count := registered_count r1 + 1\<rparr>))))"

text \<open>\<open>free\<close> ends the object; a timer that fired is no longer in the list.\<close>

definition oi_reactor_timer_cancel :: "'c oi_reactor \<Rightarrow> nat \<Rightarrow> 'c oi_reactor" where
  "oi_reactor_timer_cancel r t =
     (case r_timer r t of
        None \<Rightarrow> r
      | Some x \<Rightarrow>
          (if nt_active x then
             r\<lparr>r_timers := remove1 t (r_timers r), r_backend := snd (native_watch_remove (r_backend r) (nt_handle x)),
               registered_count := registered_count r - 1, r_timer := (r_timer r)(t := None)\<rparr>
           else r\<lparr>r_timer := (r_timer r)(t := None)\<rparr>))"

definition oi_reactor_process_start ::
  "'c oi_reactor \<Rightarrow> int \<Rightarrow> 'c \<Rightarrow> (oi_status + nat) \<times> 'c oi_reactor" where
  "oi_reactor_process_start r pid cb =
     (if pid \<le> 0 then (Inl OI_ERR_INVAL, r)
      else if \<not> shd (r_heap r) then (Inl OI_ERR_NOMEM, r\<lparr>r_heap := stl (r_heap r)\<rparr>)
      else (case take_native_id (r\<lparr>r_heap := stl (r_heap r)\<rparr>) of (i, r1) \<Rightarrow>
        (case oi_reactor_backend_process_add (r_backend r1) (token_process OR i) of
           (Inl st, b) \<Rightarrow> (Inl st, r1\<lparr>r_backend := b\<rparr>)
         | (Inr h, b) \<Rightarrow>
             let p = r_next_address r1 in
             (Inr p, r1\<lparr>r_backend := b, r_next_address := p + 1,
                r_process := (r_process r1)(p := Some \<lparr>nt_id = i, nt_handle = h, nt_cb = cb, nt_active = True,
                                                      pr_pid = pid\<rparr>),
                r_processes := p # r_processes r1, registered_count := registered_count r1 + 1\<rparr>))))"

definition oi_reactor_process_cancel :: "'c oi_reactor \<Rightarrow> nat \<Rightarrow> 'c oi_reactor" where
  "oi_reactor_process_cancel r p =
     (case r_process r p of
        None \<Rightarrow> r
      | Some x \<Rightarrow>
          (if nt_active x then
             r\<lparr>r_processes := remove1 p (r_processes r), r_backend := snd (native_watch_remove (r_backend r) (nt_handle x)),
               registered_count := registered_count r - 1, r_process := (r_process r)(p := None)\<rparr>
           else r\<lparr>r_process := (r_process r)(p := None)\<rparr>))"

section \<open>Clients and the loop\<close>

datatype 'c call =
    Add int int 'c | Modify int int | Remove int | Stop
  | Timer_start int 'c | Timer_cancel nat | Process_start int 'c | Process_cancel nat

datatype answer = Status oi_status | Handle nat

datatype ('c, 'u) prog = Return 'u | Call "'c call" "answer \<Rightarrow> ('c, 'u) prog"

datatype fired = Fd_ready nat int | Timer_fired | Process_exited int

type_synonym ('c, 'u) client = "'c \<Rightarrow> fired \<Rightarrow> 'u \<Rightarrow> ('c, 'u) prog"

definition handle_answer :: "(oi_status + nat) \<times> 'c oi_reactor \<Rightarrow> answer \<times> 'c oi_reactor" where
  "handle_answer x = (case x of (Inl st, r) \<Rightarrow> (Status st, r) | (Inr t, r) \<Rightarrow> (Handle t, r))"

fun reactor_call :: "'c call \<Rightarrow> 'c oi_reactor \<Rightarrow> answer \<times> 'c oi_reactor" where
  "reactor_call (Add fd interest cb) r = (case oi_reactor_add r fd interest cb of (st, r') \<Rightarrow> (Status st, r'))"
| "reactor_call (Modify fd interest) r = (case oi_reactor_modify r fd interest of (st, r') \<Rightarrow> (Status st, r'))"
| "reactor_call (Remove fd) r = (case oi_reactor_remove r fd of (st, r') \<Rightarrow> (Status st, r'))"
| "reactor_call Stop r = (Status OI_OK, oi_reactor_stop r)"
| "reactor_call (Timer_start ms cb) r = handle_answer (oi_reactor_timer_start r ms cb)"
| "reactor_call (Timer_cancel t) r = (Status OI_OK, oi_reactor_timer_cancel r t)"
| "reactor_call (Process_start pid cb) r = handle_answer (oi_reactor_process_start r pid cb)"
| "reactor_call (Process_cancel p) r = (Status OI_OK, oi_reactor_process_cancel r p)"

primrec run_prog :: "('c, 'u) prog \<Rightarrow> 'c oi_reactor \<Rightarrow> 'u \<times> 'c oi_reactor" where
  "run_prog (Return u) r = (u, r)"
| "run_prog (Call c k) r = (let x = reactor_call c r in run_prog (k (fst x)) (snd x))"

text \<open>
  One event of a batch: which callback it runs, with what, and the reactor when the callback starts;
  nothing when the event is stale.
\<close>

definition find_timer :: "'c oi_reactor \<Rightarrow> 64 word \<Rightarrow> nat option" where
  "find_timer r i = find (\<lambda>t. map_option nt_id (r_timer r t) = Some i) (r_timers r)"

definition find_process :: "'c oi_reactor \<Rightarrow> 64 word \<Rightarrow> nat option" where
  "find_process r i = find (\<lambda>p. map_option nt_id (r_process r p) = Some i) (r_processes r)"

definition deliver :: "64 word \<Rightarrow> int \<Rightarrow> 'c oi_reactor \<Rightarrow> ('c \<times> fired) option \<times> 'c oi_reactor" where
  "deliver token revents r =
     (let kind = drop_bit 62 token; i = token AND token_payload_mask in
      if kind = 1 then
        (case find_timer r i of
           None \<Rightarrow> (None, r)
         | Some t \<Rightarrow> let x = the (r_timer r t) in
             (Some (nt_cb x, Timer_fired),
              r\<lparr>r_timers := remove1 t (r_timers r), r_backend := snd (native_watch_remove (r_backend r) (nt_handle x)),
                r_timer := (r_timer r)(t := Some (x\<lparr>nt_active := False\<rparr>)), registered_count := registered_count r - 1\<rparr>))
      else if kind = 2 then
        (case find_process r i of
           None \<Rightarrow> (None, r)
         | Some p \<Rightarrow> let x = the (r_process r p) in
             (Some (nt_cb x, Process_exited (pr_pid x)),
              r\<lparr>r_processes := remove1 p (r_processes r),
                r_backend := snd (native_watch_remove (r_backend r) (nt_handle x)),
                r_process := (r_process r)(p := Some (x\<lparr>nt_active := False\<rparr>)), registered_count := registered_count r - 1\<rparr>))
      else
        let fd = unat (ucast token :: 32 word); generation = (ucast (drop_bit 32 token) :: 32 word) in
        if fd \<ge> length (r_entries r) \<or> \<not> fe_in_use (r_entries r ! fd) \<or> fe_generation (r_entries r ! fd) \<noteq> generation
        then (None, r)
        else (Some (the (fe_cb (r_entries r ! fd)), Fd_ready fd revents), r))"

text \<open>The batch \<open>epoll_wait\<close> reported, one event after the other; the number of callbacks run.\<close>

fun dispatch :: "('c, 'u) client \<Rightarrow> (64 word \<times> int) list \<Rightarrow> 'u \<Rightarrow> 'c oi_reactor \<Rightarrow> nat \<times> 'u \<times> 'c oi_reactor" where
  "dispatch client [] u r = (0, u, r)"
| "dispatch client ((token, revents) # evs) u r =
     (case deliver token revents r of
        (None, r') \<Rightarrow> dispatch client evs u r'
      | (Some (cb, what), r') \<Rightarrow>
          (case run_prog (client cb what u) r' of (u', r'') \<Rightarrow>
             (case dispatch client evs u' r'' of (n, x) \<Rightarrow> (Suc n, x))))"

text \<open>\<open>waited\<close> is what the backend's wait answers: \<open>None\<close> when it failed.\<close>

definition oi_reactor_step ::
  "('c, 'u) client \<Rightarrow> (64 word \<times> int) list option \<Rightarrow> 'u \<Rightarrow> 'c oi_reactor \<Rightarrow> (oi_status + nat) \<times> 'u \<times> 'c oi_reactor" where
  "oi_reactor_step client waited u r =
     (case waited of
        None \<Rightarrow> (Inl OI_ERR_IO, u, r)
      | Some evs \<Rightarrow> (case dispatch client (take oi_reactor_max_events evs) u r of (n, x) \<Rightarrow> (Inr n, x)))"

text \<open>The loop of \<open>oi_reactor_run\<close> over the answers of the waits; \<open>None\<close> while it still waits.\<close>

fun run_loop ::
  "('c, 'u) client \<Rightarrow> (64 word \<times> int) list option list \<Rightarrow> 'u \<Rightarrow> 'c oi_reactor \<Rightarrow> (oi_status \<times> 'u \<times> 'c oi_reactor) option" where
  "run_loop client ws u r =
     (if stop_requested r \<or> registered_count r = 0 then Some (OI_OK, u, r\<lparr>stop_requested := False\<rparr>)
      else (case ws of
          [] \<Rightarrow> None
        | w # ws' \<Rightarrow> (case oi_reactor_step client w u r of
              (Inl st, u', r') \<Rightarrow> Some (st, u', r')
            | (Inr n, u', r') \<Rightarrow> run_loop client ws' u' r')))"

declare run_loop.simps [simp del]

definition oi_reactor_run ::
  "('c, 'u) client \<Rightarrow> (64 word \<times> int) list option list \<Rightarrow> 'u \<Rightarrow> 'c oi_reactor \<Rightarrow> (oi_status \<times> 'u \<times> 'c oi_reactor) option" where
  "oi_reactor_run client ws u r = run_loop client ws u (r\<lparr>stop_requested := False\<rparr>)"

section \<open>Tokens and generations\<close>

definition max_generation :: nat where "max_generation = 1073741823"

lemma mask_30: "(0x3fffffff :: 32 word) = mask 30"
  by (simp add: mask_eq_exp_minus_1)

lemma next_generation_nat:
  assumes "unat g \<le> max_generation"
  shows "unat (next_generation g) = (if unat g = max_generation then 1 else unat g + 1)"
proof -
  have "unat (g + 1) = unat g + 1"
    using assms by (subst unat_plus_if') (simp add: max_generation_def)
  then have a: "unat ((g + 1) AND mask 30) = (unat g + 1) mod 2 ^ 30" by (simp add: unat_and_mask)
  show ?thesis
  proof (cases "unat g = max_generation")
    case True
    with a have "unat ((g + 1) AND mask 30) = 0" by (simp add: max_generation_def)
    then have "(g + 1) AND mask 30 = 0" by (simp only: unat_eq_zero)
    with True show ?thesis by (simp add: next_generation_def mask_30)
  next
    case False
    with a assms have u: "unat ((g + 1) AND mask 30) = unat g + 1" by (simp add: max_generation_def)
    then have "(g + 1) AND mask 30 \<noteq> 0" by (metis Suc_eq_plus1 nat.distinct(1) unat_0)
    with False u show ?thesis by (simp add: next_generation_def mask_30)
  qed
qed

lemma next_generation_range: "unat g \<le> max_generation \<Longrightarrow> 1 \<le> unat (next_generation g) \<and> unat (next_generation g) \<le> max_generation"
  by (simp add: next_generation_nat max_generation_def)

lemma generations_nat:
  assumes "1 \<le> unat g" and "unat g \<le> max_generation"
  shows "unat ((next_generation ^^ j) g) = (unat g - 1 + j) mod max_generation + 1"
proof (induction j)
  case 0
  then show ?case using assms by (simp add: max_generation_def)
next
  case (Suc j)
  let ?h = "(next_generation ^^ j) g" and ?m = "(unat g - 1 + j) mod max_generation"
  have m: "?m < max_generation" by (simp add: max_generation_def)
  with Suc have h: "unat ?h = ?m + 1" "unat ?h \<le> max_generation" by simp_all
  have "unat (next_generation ?h) = (if ?m + 1 = max_generation then 1 else ?m + 2)"
    using next_generation_nat [OF h(2)] h(1) by simp
  also have "\<dots> = (unat g - 1 + Suc j) mod max_generation + 1"
    by (simp add: mod_Suc)
  finally show ?case by simp
qed

lemma generations_differ:
  assumes "1 \<le> unat g" and "unat g \<le> max_generation" and "0 < j" and "j < max_generation"
  shows "(next_generation ^^ j) g \<noteq> g"
proof
  assume "(next_generation ^^ j) g = g"
  with generations_nat [OF assms(1,2), of j] have "(unat g - 1 + j) mod max_generation = unat g - 1" using assms(1) by simp
  moreover have "unat g - 1 < max_generation" using assms(1,2) by simp
  ultimately show False using assms(3,4) by (auto simp: mod_if split: if_split_asm)
qed

lemma token_parts:
  assumes "fd < 2 ^ 32" and "unat g \<le> max_generation"
  shows "drop_bit 62 (registration_token fd g) = 0" "unat (ucast (registration_token fd g) :: 32 word) = fd"
    "(ucast (drop_bit 32 (registration_token fd g)) :: 32 word) = g"
proof -
  have g: "\<not> bit g n" if "30 \<le> n" for n
  proof -
    have "unat g < 2 ^ 30" using assms(2) by (simp add: max_generation_def)
    then have "take_bit 30 (unat g) = unat g" by (simp add: take_bit_nat_eq_self)
    then have "bit (unat g) n \<longleftrightarrow> n < 30 \<and> bit (unat g) n" by (metis bit_take_bit_iff)
    with that show ?thesis by (simp add: bit_unsigned_iff)
  qed
  have g': "bit g n \<Longrightarrow> n < 30" for n using g [of n] not_less by blast
  have f: "\<not> bit fd n" if "32 \<le> n" for n
  proof -
    have "take_bit 32 fd = fd" using assms(1) by (simp add: take_bit_nat_eq_self)
    then have "bit fd n \<longleftrightarrow> n < 32 \<and> bit fd n" by (metis bit_take_bit_iff)
    with that show ?thesis by simp
  qed
  have w: "bit (word_of_nat fd :: 64 word) n \<longleftrightarrow> n < 64 \<and> bit fd n" for n by (simp add: Bit_Operations.bit_of_nat_iff)
  have tb: "bit (registration_token fd g) n \<longleftrightarrow> n < 62 \<and> (32 \<le> n \<and> bit g (n - 32) \<or> bit fd n)" for n
    using f by (auto simp: registration_token_def token_payload_mask_def bit_simps bit_mask_iff w)
  show "drop_bit 62 (registration_token fd g) = 0"
    by (rule bit_word_eqI) (simp add: bit_drop_bit_eq tb)
  have "ucast (registration_token fd g) = (word_of_nat fd :: 32 word)"
    by (rule bit_word_eqI) (simp add: bit_simps tb Bit_Operations.bit_of_nat_iff)
  with assms(1) show "unat (ucast (registration_token fd g) :: 32 word) = fd" by (simp add: unat_of_nat)
  show "(ucast (drop_bit 32 (registration_token fd g)) :: 32 word) = g"
    by (rule bit_word_eqI) (use g' f in \<open>auto simp: bit_simps tb\<close>)
qed

section \<open>The invariant\<close>

text \<open>
  The table and the kernel's interest set agree descriptor by descriptor: an entry in use is registered
  with the token of its generation and its interest, and nothing else is registered.
\<close>

definition table_ok :: "'c fd_entry list \<Rightarrow> (nat \<Rightarrow> (64 word \<times> int) option) \<Rightarrow> bool" where
  "table_ok es ep \<longleftrightarrow> length es \<le> 2 ^ 21
     \<and> (\<forall>e \<in> set es. unat (fe_generation e) \<le> max_generation
          \<and> (fe_in_use e \<longrightarrow> 1 \<le> unat (fe_generation e) \<and> fe_cb e \<noteq> None))
     \<and> (\<forall>fd. ep fd = (if fd < length es \<and> fe_in_use (es ! fd)
          then Some (registration_token fd (fe_generation (es ! fd)), fe_interest (es ! fd)) else None))"

text \<open>A linked list of active objects and the store they live in.\<close>

definition list_ok :: "nat \<Rightarrow> (nat \<Rightarrow> ('c, 'z) oi_reactor_timer_scheme option) \<Rightarrow> nat list \<Rightarrow> bool" where
  "list_ok next st l \<longleftrightarrow> distinct l \<and> (\<forall>t. t \<in> set l \<longleftrightarrow> (\<exists>x. st t = Some x \<and> nt_active x))
     \<and> (\<forall>t. st t \<noteq> None \<longrightarrow> t < next)"

definition reactor_ok :: "'c oi_reactor \<Rightarrow> bool" where
  "reactor_ok r \<longleftrightarrow> table_ok (r_entries r) (be_epoll (r_backend r))
     \<and> list_ok (r_next_address r) (r_timer r) (r_timers r)
     \<and> list_ok (r_next_address r) (r_process r) (r_processes r)
     \<and> registered_count r = length (filter fe_in_use (r_entries r)) + length (r_timers r) + length (r_processes r)"

lemma filter_update:
  "i < length xs \<Longrightarrow> length (filter P (xs[i := x])) + (if P (xs ! i) then 1 else 0)
     = length (filter P xs) + (if P x then 1 else 0)"
proof (induction xs arbitrary: i)
  case (Cons y ys)
  then show ?case by (cases i) (auto split: if_split_asm)
qed simp

lemma next_answer_sel:
  assumes "next_answer b = (ok, b')"
  shows "be_epoll b' = be_epoll b"
  using assms by (auto simp: next_answer_def)

lemma backend_add_cases:
  assumes "oi_reactor_backend_add b fd i tok = (st, b')"
  shows "st \<noteq> OI_OK \<and> be_epoll b' = be_epoll b
    \<or> st = OI_OK \<and> be_epoll b fd = None \<and> be_epoll b' = (be_epoll b)(fd := Some (tok, i))"
  using assms by (cases "be_epoll b fd") (auto simp: oi_reactor_backend_add_def dest: next_answer_sel split: if_split_asm prod.splits)

lemma backend_modify_cases:
  assumes "oi_reactor_backend_modify b fd i tok = (st, b')"
  shows "st \<noteq> OI_OK \<and> be_epoll b' = be_epoll b
    \<or> st = OI_OK \<and> be_epoll b fd \<noteq> None \<and> be_epoll b' = (be_epoll b)(fd := Some (tok, i))"
  using assms by (cases "be_epoll b fd") (auto simp: oi_reactor_backend_modify_def dest: next_answer_sel split: if_split_asm prod.splits)

lemma backend_remove_cases:
  assumes "oi_reactor_backend_remove b fd = (st, b')"
  shows "st \<noteq> OI_OK \<and> be_epoll b' = be_epoll b
    \<or> st = OI_OK \<and> be_epoll b fd \<noteq> None \<and> be_epoll b' = (be_epoll b)(fd := None)"
  using assms by (cases "be_epoll b fd") (auto simp: oi_reactor_backend_remove_def dest: next_answer_sel split: if_split_asm prod.splits)

lemma native_add_epoll:
  "be_epoll (snd (native_watch_add b tok)) = be_epoll b"
  "be_epoll (snd (oi_reactor_backend_timer_add b tok)) = be_epoll b"
  "be_epoll (snd (oi_reactor_backend_process_add b tok)) = be_epoll b"
  "be_epoll (snd (native_watch_remove b h)) = be_epoll b"
proof -
  show w: "be_epoll (snd (native_watch_add b tok)) = be_epoll b" for b
    by (simp add: native_watch_add_def next_answer_def Let_def)
  show "be_epoll (snd (oi_reactor_backend_timer_add b tok)) = be_epoll b"
    by (simp add: oi_reactor_backend_timer_add_def next_answer_def w)
  show "be_epoll (snd (oi_reactor_backend_process_add b tok)) = be_epoll b"
    by (simp add: oi_reactor_backend_process_add_def next_answer_def w)
  show "be_epoll (snd (native_watch_remove b h)) = be_epoll b"
    by (simp add: native_watch_remove_def)
qed

lemma free_entry_sel [simp]:
  "\<not> fe_in_use free_entry" "unat (fe_generation free_entry) = 0" "fe_generation free_entry = 0"
  by (simp_all add: free_entry_def)

text \<open>Growing the table adds free entries and changes nothing else.\<close>

lemma ensure_capacity_cases:
  assumes "ensure_capacity r fd = (st, r')" and "fd < nat oi_reactor_max_fd"
  shows "\<exists>n h. r' = r\<lparr>r_heap := h, r_entries := r_entries r @ replicate n free_entry\<rparr>
    \<and> (length (r_entries r) \<le> 2 ^ 21 \<longrightarrow> length (r_entries r') \<le> 2 ^ 21) \<and> (st = OI_OK \<longrightarrow> fd < length (r_entries r'))"
proof (cases "fd < length (r_entries r)")
  case True
  with assms show ?thesis by (intro exI [of _ 0] exI [of _ "r_heap r"]) (auto simp: ensure_capacity_def)
next
  case False
  let ?c = "if r_entries r = [] then 16 else length (r_entries r)"
  show ?thesis
  proof (cases "grow_cap ?c (fd + 1)")
    case None
    with False assms show ?thesis by (intro exI [of _ 0] exI [of _ "r_heap r"]) (auto simp: ensure_capacity_def)
  next
    case (Some n)
    have b: "fd + 1 \<le> n" "n \<le> 2 ^ 21 \<or> n = length (r_entries r)"
      using grow_cap_Some [OF Some] grow_cap_double [OF Some] assms(2)
      by (auto simp: oi_reactor_max_fd_def split: if_split_asm)
    show ?thesis
    proof (cases "shd (r_heap r)")
      case True
      with Some False assms b show ?thesis
        by (intro exI [of _ "n - length (r_entries r)"] exI [of _ "stl (r_heap r)"])
          (auto simp: ensure_capacity_def Let_def)
    next
      case h: False
      with Some False assms show ?thesis
        by (intro exI [of _ 0] exI [of _ "stl (r_heap r)"]) (auto simp: ensure_capacity_def Let_def)
    qed
  qed
qed

lemma table_ok_grow:
  assumes "table_ok es ep" and "length (es @ replicate n free_entry) \<le> 2 ^ 21"
  shows "table_ok (es @ replicate n free_entry) ep"
proof -
  have "ep fd = (if fd < length es \<and> fe_in_use (es ! fd)
      then Some (registration_token fd (fe_generation (es ! fd)), fe_interest (es ! fd)) else None)" for fd
    using assms(1) unfolding table_ok_def by blast
  moreover have "(es @ replicate n free_entry) ! fd = free_entry"
    if "\<not> fd < length es" "fd < length (es @ replicate n free_entry)" for fd
    using that by (simp add: nth_append)
  ultimately have "ep fd = (if fd < length (es @ replicate n free_entry) \<and> fe_in_use ((es @ replicate n free_entry) ! fd)
      then Some (registration_token fd (fe_generation ((es @ replicate n free_entry) ! fd)),
        fe_interest ((es @ replicate n free_entry) ! fd)) else None)" for fd
    by (cases "fd < length es") (auto simp: nth_append)
  moreover have "unat (fe_generation e) \<le> max_generation \<and> (fe_in_use e \<longrightarrow> 1 \<le> unat (fe_generation e) \<and> fe_cb e \<noteq> None)"
    if "e \<in> set (es @ replicate n free_entry)" for e
    using that assms(1) unfolding table_ok_def by (auto split: if_split_asm)
  ultimately show ?thesis using assms(2) unfolding table_ok_def by blast
qed

lemma table_ok_update:
  assumes "table_ok es ep" and "fd < length es"
    and "unat (fe_generation e) \<le> max_generation" "fe_in_use e \<Longrightarrow> 1 \<le> unat (fe_generation e) \<and> fe_cb e \<noteq> None"
    and "x = (if fe_in_use e then Some (registration_token fd (fe_generation e), fe_interest e) else None)"
  shows "table_ok (es[fd := e]) (ep(fd := x))"
proof -
  have t: "length es \<le> 2 ^ 21" "\<And>e. e \<in> set es \<Longrightarrow> unat (fe_generation e) \<le> max_generation
      \<and> (fe_in_use e \<longrightarrow> 1 \<le> unat (fe_generation e) \<and> fe_cb e \<noteq> None)"
    "\<And>fd. ep fd = (if fd < length es \<and> fe_in_use (es ! fd)
      then Some (registration_token fd (fe_generation (es ! fd)), fe_interest (es ! fd)) else None)"
    using assms(1) unfolding table_ok_def by blast+
  have "(ep(fd := x)) k = (if k < length (es[fd := e]) \<and> fe_in_use (es[fd := e] ! k)
      then Some (registration_token k (fe_generation (es[fd := e] ! k)), fe_interest (es[fd := e] ! k)) else None)" for k
    using assms(2,5) t(3) [of k] by (cases "k = fd") simp_all
  moreover have "unat (fe_generation y) \<le> max_generation \<and> (fe_in_use y \<longrightarrow> 1 \<le> unat (fe_generation y) \<and> fe_cb y \<noteq> None)"
    if "y \<in> set (es[fd := e])" for y
  proof -
    have "y = e \<or> y \<in> set es" using that set_update_subset_insert by fastforce
    with t(2) assms(3,4) show ?thesis by blast
  qed
  ultimately show ?thesis using t(1) unfolding table_ok_def by (simp only: length_list_update) blast
qed

section \<open>Every operation keeps the invariant\<close>

lemma list_ok_start:
  assumes "list_ok n st l" and "nt_active x"
  shows "list_ok (n + 1) (st(n := Some x)) (n # l)"
proof -
  have s: "t \<in> set l \<longleftrightarrow> (\<exists>x. st t = Some x \<and> nt_active x)" "st t \<noteq> None \<Longrightarrow> t < n" for t
    using assms(1) unfolding list_ok_def by blast+
  have "n \<notin> set l" using s(1) [of n] s(2) [of n] by auto
  moreover have "distinct l" using assms(1) by (simp add: list_ok_def)
  moreover have "t < n + 1" if "(st(n := Some x)) t \<noteq> None" for t
    using that s(2) [of t] by (cases "t = n") (simp_all add: less_SucI)
  ultimately show ?thesis using assms(2) s(1) unfolding list_ok_def by auto
qed

lemma list_ok_next: "list_ok n st l \<Longrightarrow> list_ok (n + 1) st l"
  unfolding list_ok_def using less_SucI by fastforce

lemma list_ok_stop:
  assumes "list_ok n st l" and "st t = Some x" and "case y of None \<Rightarrow> True | Some y \<Rightarrow> \<not> nt_active y"
  shows "list_ok n (st(t := y)) (remove1 t l)"
proof -
  have s: "distinct l" "\<And>t. t \<in> set l \<longleftrightarrow> (\<exists>x. st t = Some x \<and> nt_active x)" "\<And>t. st t \<noteq> None \<Longrightarrow> t < n"
    using assms(1) unfolding list_ok_def by blast+
  have "u \<in> set (remove1 t l) \<longleftrightarrow> (\<exists>z. (st(t := y)) u = Some z \<and> nt_active z)" for u
    using s(1) s(2) [of u] assms(3) by (cases "u = t") (auto split: option.splits)
  moreover have "u < n" if "(st(t := y)) u \<noteq> None" for u
    using that s(3) [of u] s(3) [of t] assms(2) by (cases "u = t") simp_all
  ultimately show ?thesis using s(1) unfolding list_ok_def by simp
qed

lemma list_ok_length:
  assumes "list_ok n st l" and "st t = Some x" and "nt_active x"
  shows "length (remove1 t l) + 1 = length l"
proof -
  have "t \<in> set l" using assms unfolding list_ok_def by blast
  then show ?thesis by (simp add: length_remove1) (metis Suc_pred length_pos_if_in_set)
qed

lemma reactor_ok_cong:
  "r_entries r' = r_entries r \<Longrightarrow> be_epoll (r_backend r') = be_epoll (r_backend r) \<Longrightarrow>
   r_next_address r' = r_next_address r \<Longrightarrow> r_timer r' = r_timer r \<Longrightarrow> r_timers r' = r_timers r \<Longrightarrow>
   r_process r' = r_process r \<Longrightarrow> r_processes r' = r_processes r \<Longrightarrow> registered_count r' = registered_count r \<Longrightarrow>
   reactor_ok r' = reactor_ok r"
  by (simp add: reactor_ok_def)

lemma create_reactor_ok: "oi_reactor_create h (oi_reactor_backend_create k) = Some r \<Longrightarrow> reactor_ok r"
  by (auto simp: oi_reactor_create_def oi_reactor_backend_create_def reactor_ok_def table_ok_def list_ok_def
      split: if_split_asm)

lemma capacity_reactor_ok:
  assumes "reactor_ok r" and "ensure_capacity r fd = (st, r1)" and "fd < nat oi_reactor_max_fd"
  shows "reactor_ok r1" and "st = OI_OK \<Longrightarrow> fd < length (r_entries r1)"
    and "registered_count r1 = registered_count r" "r_backend r1 = r_backend r"
    and "\<And>k. k < length (r_entries r) \<Longrightarrow> r_entries r1 ! k = r_entries r ! k"
    and "length (r_entries r) \<le> length (r_entries r1)"
proof -
  obtain n h where r1: "r1 = r\<lparr>r_heap := h, r_entries := r_entries r @ replicate n free_entry\<rparr>"
    and l: "length (r_entries r) \<le> 2 ^ 21 \<Longrightarrow> length (r_entries r1) \<le> 2 ^ 21" "st = OI_OK \<Longrightarrow> fd < length (r_entries r1)"
    using ensure_capacity_cases [OF assms(2,3)] by blast
  have t: "table_ok (r_entries r) (be_epoll (r_backend r))" using assms(1) by (simp add: reactor_ok_def)
  then have "length (r_entries r1) \<le> 2 ^ 21" using l(1) by (simp add: table_ok_def)
  then have "table_ok (r_entries r1) (be_epoll (r_backend r))" using table_ok_grow [OF t, of n] by (simp add: r1)
  with assms(1) show "reactor_ok r1" by (simp add: r1 reactor_ok_def)
  show "st = OI_OK \<Longrightarrow> fd < length (r_entries r1)" by (rule l(2))
  show "registered_count r1 = registered_count r" "r_backend r1 = r_backend r" by (simp_all add: r1)
  show "\<And>k. k < length (r_entries r) \<Longrightarrow> r_entries r1 ! k = r_entries r ! k" by (simp add: r1 nth_append)
  show "length (r_entries r) \<le> length (r_entries r1)" by (simp add: r1)
qed

text \<open>What a call does to the entry of one descriptor: nothing, take it, change it, or free it.\<close>

definition entry :: "'c oi_reactor \<Rightarrow> nat \<Rightarrow> 'c fd_entry" where
  "entry r k = (if k < length (r_entries r) then r_entries r ! k else free_entry)"

definition entry_step :: "'c fd_entry \<Rightarrow> 'c fd_entry \<Rightarrow> bool" where
  "entry_step e e' \<longleftrightarrow>
     fe_generation e' = fe_generation e \<and> fe_in_use e' = fe_in_use e \<and> fe_cb e' = fe_cb e
   \<or> fe_generation e' = fe_generation e \<and> fe_in_use e \<and> \<not> fe_in_use e'
   \<or> fe_generation e' = next_generation (fe_generation e) \<and> \<not> fe_in_use e \<and> fe_in_use e'"

lemma entry_step_same [simp]: "entry_step e e"
  by (simp add: entry_step_def)

lemma valid_fd: "validate_fd_interest ifd i = OI_OK \<Longrightarrow> nat ifd < nat oi_reactor_max_fd"
  by (auto simp: validate_fd_interest_def oi_reactor_max_fd_def split: if_split_asm)

lemma reactor_ok_entry: "reactor_ok r \<Longrightarrow> k < length (r_entries r) \<Longrightarrow>
   unat (fe_generation (r_entries r ! k)) \<le> max_generation
   \<and> (fe_in_use (r_entries r ! k) \<longrightarrow> 1 \<le> unat (fe_generation (r_entries r ! k)) \<and> fe_cb (r_entries r ! k) \<noteq> None)"
  unfolding reactor_ok_def table_ok_def using nth_mem by blast

lemma reactor_ok_epoll: "reactor_ok r \<Longrightarrow> be_epoll (r_backend r) k = (if k < length (r_entries r) \<and> fe_in_use (r_entries r ! k)
   then Some (registration_token k (fe_generation (r_entries r ! k)), fe_interest (r_entries r ! k)) else None)"
  unfolding reactor_ok_def table_ok_def by blast

lemma add_reactor_ok:
  assumes "reactor_ok r" and "oi_reactor_add r ifd i cb = (st, r')"
  shows "reactor_ok r'" and "entry_step (entry r k) (entry r' k)"
proof -
  have "reactor_ok r' \<and> entry_step (entry r k) (entry r' k)"
  proof (cases "validate_fd_interest ifd i = OI_OK")
    case False
    with assms show ?thesis by (simp add: oi_reactor_add_def)
  next
    case v: True
    let ?fd = "nat ifd"
    obtain st1 r1 where c: "ensure_capacity r ?fd = (st1, r1)" by fastforce
    note r1 = capacity_reactor_ok [OF assms(1) c valid_fd [OF v]]
    obtain n h where r1': "r1 = r\<lparr>r_heap := h, r_entries := r_entries r @ replicate n free_entry\<rparr>"
      using ensure_capacity_cases [OF c valid_fd [OF v]] by blast
    have e1: "entry r1 k = entry r k" for k by (auto simp: entry_def r1' nth_append)
    show ?thesis
    proof (cases "st1 = OI_OK")
      case False
      with assms v c have "r' = r1" by (simp add: oi_reactor_add_def Let_def)
      with r1(1) e1 show ?thesis by simp
    next
      case True
      note fd = r1(2) [OF True]
      let ?g = "next_generation (fe_generation (r_entries r1 ! ?fd))"
      let ?e = "\<lparr>fe_cb = Some cb, fe_interest = i, fe_in_use = True, fe_generation = ?g\<rparr>"
      obtain st2 b where a: "oi_reactor_backend_add (r_backend r1) ?fd i (registration_token ?fd ?g) = (st2, b)" by fastforce
      from backend_add_cases [OF a] show ?thesis
      proof (elim disjE conjE)
        assume "st2 \<noteq> OI_OK" "be_epoll b = be_epoll (r_backend r1)"
        with assms v c True a have r': "r' = r1\<lparr>r_backend := b\<rparr>" by (simp add: oi_reactor_add_def Let_def)
        have "reactor_ok r'" using r1(1) \<open>be_epoll b = _\<close> by (simp add: r' reactor_ok_def)
        moreover have "entry r' k = entry r1 k" by (simp add: r' entry_def)
        ultimately show ?thesis by (simp add: e1)
      next
        assume ok: "st2 = OI_OK" and free: "be_epoll (r_backend r1) ?fd = None"
          and b: "be_epoll b = (be_epoll (r_backend r1))(?fd := Some (registration_token ?fd ?g, i))"
        with assms v c True a have r': "r' = r1\<lparr>r_backend := b, r_entries := (r_entries r1)[?fd := ?e],
            registered_count := registered_count r1 + 1\<rparr>" by (simp add: oi_reactor_add_def Let_def)
        have nu: "\<not> fe_in_use (r_entries r1 ! ?fd)" using free reactor_ok_epoll [OF r1(1), of ?fd] fd by (auto split: if_split_asm)
        have g: "1 \<le> unat ?g \<and> unat ?g \<le> max_generation"
          using reactor_ok_entry [OF r1(1) fd] by (intro next_generation_range) simp
        have "table_ok ((r_entries r1)[?fd := ?e]) (be_epoll b)"
          unfolding b using r1(1) fd g by (intro table_ok_update) (simp_all add: reactor_ok_def)
        moreover have "length (filter fe_in_use ((r_entries r1)[?fd := ?e])) = length (filter fe_in_use (r_entries r1)) + 1"
          using filter_update [OF fd, of fe_in_use ?e] nu by simp
        ultimately have "reactor_ok r'" using r1(1) by (simp add: r' reactor_ok_def)
        moreover have "entry_step (entry r k) (entry r' k)"
        proof (cases "k = ?fd")
          case True
          then have "entry r' k = ?e" "entry r1 k = r_entries r1 ! ?fd" using fd by (simp_all add: entry_def r')
          with nu e1 [of k] show ?thesis by (simp add: entry_step_def)
        next
          case False
          then have "entry r' k = entry r1 k" by (simp add: entry_def r')
          with e1 show ?thesis by simp
        qed
        ultimately show ?thesis by simp
      qed
    qed
  qed
  then show "reactor_ok r'" and "entry_step (entry r k) (entry r' k)" by simp_all
qed

lemma entry_update:
  "fd < length es \<Longrightarrow> r_entries r = es \<Longrightarrow> r_entries r' = es[fd := e] \<Longrightarrow> entry_step (es ! fd) e \<Longrightarrow>
   entry_step (entry r k) (entry r' k)"
  by (cases "k = fd") (simp_all add: entry_def)

lemma backend_only_ok:
  assumes "reactor_ok r" and "be_epoll b = be_epoll (r_backend r)"
  shows "reactor_ok (r\<lparr>r_backend := b\<rparr>)" and "entry (r\<lparr>r_backend := b\<rparr>) k = entry r k"
  using assms by (simp_all add: reactor_ok_def entry_def)

lemma modify_reactor_ok:
  assumes "reactor_ok r" and "oi_reactor_modify r ifd i = (st, r')"
  shows "reactor_ok r' \<and> entry_step (entry r k) (entry r' k)"
proof (cases "validate_fd_interest ifd i = OI_OK")
  case False
  with assms show ?thesis by (simp add: oi_reactor_modify_def)
next
  case v: True
  let ?fd = "nat ifd" let ?e = "r_entries r ! ?fd"
  let ?g = "if ?fd < length (r_entries r) then fe_generation ?e else 0"
  obtain st2 b where a: "oi_reactor_backend_modify (r_backend r) ?fd i (registration_token ?fd ?g) = (st2, b)" by fastforce
  from backend_modify_cases [OF a] show ?thesis
  proof (elim disjE conjE)
    assume n: "st2 \<noteq> OI_OK" "be_epoll b = be_epoll (r_backend r)"
    with assms v a have "r' = r\<lparr>r_backend := b\<rparr>" by (simp add: oi_reactor_modify_def Let_def)
    with backend_only_ok [OF assms(1) n(2)] show ?thesis by simp
  next
    assume ok: "st2 = OI_OK" "be_epoll (r_backend r) ?fd \<noteq> None"
      and b: "be_epoll b = (be_epoll (r_backend r))(?fd := Some (registration_token ?fd ?g, i))"
    then have fd: "?fd < length (r_entries r)" "fe_in_use ?e" using reactor_ok_epoll [OF assms(1), of ?fd]
      by (auto split: if_split_asm)
    let ?e' = "?e\<lparr>fe_interest := i\<rparr>"
    from assms v a ok have r': "r' = r\<lparr>r_backend := b, r_entries := (r_entries r)[?fd := ?e']\<rparr>"
      by (simp add: oi_reactor_modify_def Let_def)
    have "table_ok ((r_entries r)[?fd := ?e']) (be_epoll b)"
      unfolding b using assms(1) fd reactor_ok_entry [OF assms(1) fd(1)]
      by (intro table_ok_update) (simp_all add: reactor_ok_def)
    moreover have "length (filter fe_in_use ((r_entries r)[?fd := ?e'])) = length (filter fe_in_use (r_entries r))"
      using filter_update [OF fd(1), of fe_in_use ?e'] fd(2) by simp
    ultimately have "reactor_ok r'" using assms(1) by (simp add: r' reactor_ok_def)
    moreover have "entry_step (entry r k) (entry r' k)"
      by (rule entry_update [OF fd(1) refl, of r' ?e']) (simp_all add: r' entry_step_def)
    ultimately show ?thesis ..
  qed
qed

lemma remove_reactor_ok:
  assumes "reactor_ok r" and "oi_reactor_remove r ifd = (st, r')"
  shows "reactor_ok r' \<and> entry_step (entry r k) (entry r' k)"
proof (cases "ifd < 0 \<or> ifd \<ge> oi_reactor_max_fd")
  case True
  with assms show ?thesis by (auto simp: oi_reactor_remove_def)
next
  case v: False
  let ?fd = "nat ifd" let ?e = "r_entries r ! ?fd"
  obtain st2 b where a: "oi_reactor_backend_remove (r_backend r) ?fd = (st2, b)" by fastforce
  from backend_remove_cases [OF a] show ?thesis
  proof (elim disjE conjE)
    assume n: "st2 \<noteq> OI_OK" "be_epoll b = be_epoll (r_backend r)"
    with assms v a have "r' = r\<lparr>r_backend := b\<rparr>" by (simp add: oi_reactor_remove_def Let_def)
    with backend_only_ok [OF assms(1) n(2)] show ?thesis by simp
  next
    assume ok: "st2 = OI_OK" "be_epoll (r_backend r) ?fd \<noteq> None"
      and b: "be_epoll b = (be_epoll (r_backend r))(?fd := None)"
    then have fd: "?fd < length (r_entries r)" "fe_in_use ?e" using reactor_ok_epoll [OF assms(1), of ?fd]
      by (auto split: if_split_asm)
    let ?e' = "?e\<lparr>fe_cb := None, fe_interest := 0, fe_in_use := False\<rparr>"
    from assms v a ok fd have r': "r' = r\<lparr>r_backend := b, r_entries := (r_entries r)[?fd := ?e'],
        registered_count := registered_count r - 1\<rparr>"
      by (simp add: oi_reactor_remove_def Let_def)
    have "table_ok ((r_entries r)[?fd := ?e']) (be_epoll b)"
      unfolding b using assms(1) fd reactor_ok_entry [OF assms(1) fd(1)]
      by (intro table_ok_update) (simp_all add: reactor_ok_def)
    moreover have "length (filter fe_in_use ((r_entries r)[?fd := ?e'])) + 1 = length (filter fe_in_use (r_entries r))"
      using filter_update [OF fd(1), of fe_in_use ?e'] fd(2) by simp
    ultimately have "reactor_ok r'" using assms(1) by (simp add: r' reactor_ok_def)
    moreover have "entry_step (entry r k) (entry r' k)"
      by (rule entry_update [OF fd(1) refl, of r' ?e']) (simp_all add: r' entry_step_def fd(2))
    ultimately show ?thesis ..
  qed
qed

lemma native_id_sel:
  assumes "take_native_id r = (i, r1)"
  shows "r1 = r\<lparr>next_native_id := next_native_id r1\<rparr>"
  using assms by (auto simp: take_native_id_def Let_def split: if_split_asm)

lemma entry_cong: "r_entries r' = r_entries r \<Longrightarrow> entry r' k = entry r k"
  by (simp add: entry_def)

lemma timer_start_ok:
  assumes "reactor_ok r" and "oi_reactor_timer_start r ms cb = (x, r')"
  shows "reactor_ok r' \<and> entry r' k = entry r k"
proof (cases "ms \<le> 0 \<or> \<not> shd (r_heap r)")
  case True
  with assms show ?thesis by (auto simp: oi_reactor_timer_start_def reactor_ok_def entry_def split: if_split_asm)
next
  case False
  let ?r0 = "r\<lparr>r_heap := stl (r_heap r)\<rparr>"
  obtain i r1 where t: "take_native_id ?r0 = (i, r1)" by fastforce
  have r1: "r_entries r1 = r_entries r" "r_backend r1 = r_backend r" "r_next_address r1 = r_next_address r"
      "r_timer r1 = r_timer r" "r_timers r1 = r_timers r" "r_process r1 = r_process r" "r_processes r1 = r_processes r"
      "registered_count r1 = registered_count r"
    by (subst native_id_sel [OF t]; simp)+
  obtain y b where a: "oi_reactor_backend_timer_add (r_backend r1) (token_timer OR i) = (y, b)" by fastforce
  have b: "be_epoll b = be_epoll (r_backend r)" using native_add_epoll(2) [of "r_backend r1" "token_timer OR i"] a r1(2) by simp
  show ?thesis
  proof (cases y)
    case (Inl st)
    with assms(2) False t a have "r' = r1\<lparr>r_backend := b\<rparr>" by (simp add: oi_reactor_timer_start_def)
    with assms(1) b r1 show ?thesis by (simp add: reactor_ok_def entry_def)
  next
    case (Inr h)
    let ?t = "r_next_address r" and ?x = "\<lparr>nt_id = i, nt_handle = h, nt_cb = cb, nt_active = True\<rparr>"
    from assms(2) False t a Inr r1 have r': "r' = r1\<lparr>r_backend := b, r_next_address := ?t + 1,
        r_timer := (r_timer r)(?t := Some ?x), r_timers := ?t # r_timers r, registered_count := registered_count r + 1\<rparr>"
      by (simp add: oi_reactor_timer_start_def Let_def)
    have "list_ok (?t + 1) ((r_timer r)(?t := Some ?x)) (?t # r_timers r)"
      using assms(1) by (intro list_ok_start) (simp_all add: reactor_ok_def)
    moreover have "list_ok (?t + 1) (r_process r) (r_processes r)"
      using assms(1) list_ok_next by (auto simp: reactor_ok_def)
    ultimately show ?thesis using assms(1) b r1 by (simp add: r' reactor_ok_def entry_def)
  qed
qed

lemma process_start_ok:
  assumes "reactor_ok r" and "oi_reactor_process_start r pid cb = (x, r')"
  shows "reactor_ok r' \<and> entry r' k = entry r k"
proof (cases "pid \<le> 0 \<or> \<not> shd (r_heap r)")
  case True
  with assms show ?thesis by (auto simp: oi_reactor_process_start_def reactor_ok_def entry_def split: if_split_asm)
next
  case False
  let ?r0 = "r\<lparr>r_heap := stl (r_heap r)\<rparr>"
  obtain i r1 where t: "take_native_id ?r0 = (i, r1)" by fastforce
  have r1: "r_entries r1 = r_entries r" "r_backend r1 = r_backend r" "r_next_address r1 = r_next_address r"
      "r_timer r1 = r_timer r" "r_timers r1 = r_timers r" "r_process r1 = r_process r" "r_processes r1 = r_processes r"
      "registered_count r1 = registered_count r"
    by (subst native_id_sel [OF t]; simp)+
  obtain y b where a: "oi_reactor_backend_process_add (r_backend r1) (token_process OR i) = (y, b)" by fastforce
  have b: "be_epoll b = be_epoll (r_backend r)" using native_add_epoll(3) [of "r_backend r1" "token_process OR i"] a r1(2) by simp
  show ?thesis
  proof (cases y)
    case (Inl st)
    with assms(2) False t a have "r' = r1\<lparr>r_backend := b\<rparr>" by (simp add: oi_reactor_process_start_def)
    with assms(1) b r1 show ?thesis by (simp add: reactor_ok_def entry_def)
  next
    case (Inr h)
    let ?p = "r_next_address r" and ?x = "\<lparr>nt_id = i, nt_handle = h, nt_cb = cb, nt_active = True, pr_pid = pid\<rparr>"
    from assms(2) False t a Inr r1 have r': "r' = r1\<lparr>r_backend := b, r_next_address := ?p + 1,
        r_process := (r_process r)(?p := Some ?x), r_processes := ?p # r_processes r, registered_count := registered_count r + 1\<rparr>"
      by (simp add: oi_reactor_process_start_def Let_def)
    have "list_ok (?p + 1) ((r_process r)(?p := Some ?x)) (?p # r_processes r)"
      using assms(1) by (intro list_ok_start) (simp_all add: reactor_ok_def)
    moreover have "list_ok (?p + 1) (r_timer r) (r_timers r)"
      using assms(1) list_ok_next by (auto simp: reactor_ok_def)
    ultimately show ?thesis using assms(1) b r1 by (simp add: r' reactor_ok_def entry_def)
  qed
qed

lemma timer_stop_ok:
  assumes "reactor_ok r" and "r_timer r t = Some x" and "nt_active x" and "case y of None \<Rightarrow> True | Some y \<Rightarrow> \<not> nt_active y"
    and "r_timer r' = (r_timer r)(t := y)" and "r_timers r' = remove1 t (r_timers r)"
    and "registered_count r' = registered_count r - 1" and "be_epoll (r_backend r') = be_epoll (r_backend r)"
    and "r_entries r' = r_entries r" and "r_next_address r' = r_next_address r"
    and "r_process r' = r_process r" and "r_processes r' = r_processes r"
  shows "reactor_ok r'"
proof -
  have l: "list_ok (r_next_address r) (r_timer r) (r_timers r)" using assms(1) by (simp add: reactor_ok_def)
  from list_ok_stop [OF l assms(2,4)] list_ok_length [OF l assms(2,3)] assms(1) show ?thesis
    by (simp add: reactor_ok_def assms(5-))
qed

lemma process_stop_ok:
  assumes "reactor_ok r" and "r_process r t = Some x" and "nt_active x" and "case y of None \<Rightarrow> True | Some y \<Rightarrow> \<not> nt_active y"
    and "r_process r' = (r_process r)(t := y)" and "r_processes r' = remove1 t (r_processes r)"
    and "registered_count r' = registered_count r - 1" and "be_epoll (r_backend r') = be_epoll (r_backend r)"
    and "r_entries r' = r_entries r" and "r_next_address r' = r_next_address r"
    and "r_timer r' = r_timer r" and "r_timers r' = r_timers r"
  shows "reactor_ok r'"
proof -
  have l: "list_ok (r_next_address r) (r_process r) (r_processes r)" using assms(1) by (simp add: reactor_ok_def)
  from list_ok_stop [OF l assms(2,4)] list_ok_length [OF l assms(2,3)] assms(1) show ?thesis
    by (simp add: reactor_ok_def assms(5-))
qed

lemma list_ok_free:
  assumes "list_ok n st l" and "st t = Some x" and "\<not> nt_active x"
  shows "list_ok n (st(t := None)) l"
proof -
  have "t \<notin> set l" using assms unfolding list_ok_def by auto
  then have "remove1 t l = l" by (rule remove1_idem)
  with list_ok_stop [OF assms(1,2), of None] show ?thesis by simp
qed

lemma timer_cancel_ok:
  assumes "reactor_ok r"
  shows "reactor_ok (oi_reactor_timer_cancel r t)" and "entry (oi_reactor_timer_cancel r t) k = entry r k"
proof -
  show "reactor_ok (oi_reactor_timer_cancel r t)"
  proof (cases "r_timer r t")
    case None
    with assms show ?thesis by (simp add: oi_reactor_timer_cancel_def)
  next
    case (Some x)
    show ?thesis
    proof (cases "nt_active x")
      case True
      show ?thesis
        by (rule timer_stop_ok [OF assms Some True, of None])
          (simp_all add: oi_reactor_timer_cancel_def Some True native_add_epoll)
    next
      case False
      with Some list_ok_free [of _ "r_timer r" "r_timers r" t x] assms show ?thesis
        by (simp add: oi_reactor_timer_cancel_def reactor_ok_def)
    qed
  qed
  show "entry (oi_reactor_timer_cancel r t) k = entry r k"
    by (simp add: oi_reactor_timer_cancel_def entry_def split: option.split)
qed

lemma process_cancel_ok:
  assumes "reactor_ok r"
  shows "reactor_ok (oi_reactor_process_cancel r t)" and "entry (oi_reactor_process_cancel r t) k = entry r k"
proof -
  show "reactor_ok (oi_reactor_process_cancel r t)"
  proof (cases "r_process r t")
    case None
    with assms show ?thesis by (simp add: oi_reactor_process_cancel_def)
  next
    case (Some x)
    show ?thesis
    proof (cases "nt_active x")
      case True
      show ?thesis
        by (rule process_stop_ok [OF assms Some True, of None])
          (simp_all add: oi_reactor_process_cancel_def Some True native_add_epoll)
    next
      case False
      with Some list_ok_free [of _ "r_process r" "r_processes r" t x] assms show ?thesis
        by (simp add: oi_reactor_process_cancel_def reactor_ok_def)
    qed
  qed
  show "entry (oi_reactor_process_cancel r t) k = entry r k"
    by (simp add: oi_reactor_process_cancel_def entry_def split: option.split)
qed

lemma call_ok:
  assumes "reactor_ok r"
  shows "reactor_ok (snd (reactor_call c r)) \<and> entry_step (entry r k) (entry (snd (reactor_call c r)) k)"
proof (cases c)
  case (Add fd i cb)
  obtain st r' where "oi_reactor_add r fd i cb = (st, r')" by fastforce
  with add_reactor_ok [OF assms this] Add show ?thesis by simp
next
  case (Modify fd i)
  obtain st r' where "oi_reactor_modify r fd i = (st, r')" by fastforce
  with modify_reactor_ok [OF assms this] Modify show ?thesis by simp
next
  case (Remove fd)
  obtain st r' where "oi_reactor_remove r fd = (st, r')" by fastforce
  with remove_reactor_ok [OF assms this] Remove show ?thesis by simp
next
  case Stop
  with assms show ?thesis by (simp add: oi_reactor_stop_def reactor_ok_def entry_def)
next
  case (Timer_start ms cb)
  obtain x r' where x: "oi_reactor_timer_start r ms cb = (x, r')" by fastforce
  have "snd (handle_answer (x, r')) = r'" by (auto simp: handle_answer_def split: sum.split)
  with timer_start_ok [OF assms x] Timer_start x show ?thesis by simp
next
  case (Timer_cancel t)
  with timer_cancel_ok [OF assms] show ?thesis by simp
next
  case (Process_start pid cb)
  obtain x r' where x: "oi_reactor_process_start r pid cb = (x, r')" by fastforce
  have "snd (handle_answer (x, r')) = r'" by (auto simp: handle_answer_def split: sum.split)
  with process_start_ok [OF assms x] Process_start x show ?thesis by simp
next
  case (Process_cancel p)
  with process_cancel_ok [OF assms] show ?thesis by simp
qed

lemma prog_ok: "reactor_ok r \<Longrightarrow> reactor_ok (snd (run_prog p r))"
proof (induction p arbitrary: r)
  case (Call c k)
  then show ?case using call_ok [of r c] by (simp add: Let_def)
qed simp

lemma find_native:
  assumes "list_ok n st l" and "find (\<lambda>t. map_option nt_id (st t) = Some i) l = Some t"
  shows "\<exists>x. st t = Some x \<and> nt_active x \<and> nt_id x = i"
proof -
  have "t \<in> set l" "map_option nt_id (st t) = Some i" using assms(2) by (auto simp: find_Some_iff)
  with assms(1) show ?thesis by (auto simp: list_ok_def)
qed

lemma deliver_ok:
  assumes "reactor_ok r"
  shows "reactor_ok (snd (deliver tok ev r))"
proof -
  let ?i = "tok AND token_payload_mask"
  have kinds: "drop_bit 62 tok = 1 \<or> drop_bit 62 tok = 2 \<or> drop_bit 62 tok \<noteq> 1 \<and> drop_bit 62 tok \<noteq> 2" by blast
  have timers: "list_ok (r_next_address r) (r_timer r) (r_timers r)"
    and processes: "list_ok (r_next_address r) (r_process r) (r_processes r)" using assms by (simp_all add: reactor_ok_def)
  from kinds show ?thesis
  proof (elim disjE)
    assume k: "drop_bit 62 tok = 1"
    show ?thesis
    proof (cases "find_timer r ?i")
      case None
      with k assms show ?thesis by (simp add: deliver_def)
    next
      case (Some t)
      obtain x where x: "r_timer r t = Some x" "nt_active x"
        using find_native [OF timers Some [unfolded find_timer_def]] by blast
      show ?thesis
        by (rule timer_stop_ok [OF assms x, of "Some (x\<lparr>nt_active := False\<rparr>)"])
          (simp_all add: deliver_def k Some x native_add_epoll Let_def)
    qed
  next
    assume k: "drop_bit 62 tok = 2"
    show ?thesis
    proof (cases "find_process r ?i")
      case None
      with k assms show ?thesis by (simp add: deliver_def)
    next
      case (Some t)
      obtain x where x: "r_process r t = Some x" "nt_active x"
        using find_native [OF processes Some [unfolded find_process_def]] by blast
      show ?thesis
        by (rule process_stop_ok [OF assms x, of "Some (x\<lparr>nt_active := False\<rparr>)"])
          (simp_all add: deliver_def k Some x native_add_epoll Let_def)
    qed
  next
    assume "drop_bit 62 tok \<noteq> 1 \<and> drop_bit 62 tok \<noteq> 2"
    with assms show ?thesis by (simp add: deliver_def Let_def)
  qed
qed

lemma dispatch_ok: "reactor_ok r \<Longrightarrow> dispatch client evs u r = (n, u', r') \<Longrightarrow> reactor_ok r'"
proof (induction client evs u r arbitrary: n rule: dispatch.induct)
  case (2 client tok ev evs u r)
  obtain x r1 where d: "deliver tok ev r = (x, r1)" by fastforce
  have r1: "reactor_ok r1" using deliver_ok [OF "2.prems"(1), of tok ev] d by simp
  show ?case
  proof (cases x)
    case None
    with "2.IH"(1) [OF d [symmetric, unfolded None] refl r1] "2.prems"(2) d show ?thesis by simp
  next
    case (Some c)
    obtain cb what where c: "c = (cb, what)" by fastforce
    obtain u1 r2 where p: "run_prog (client cb what u) r1 = (u1, r2)" by fastforce
    have r2: "reactor_ok r2" using prog_ok [OF r1, of "client cb what u"] p by simp
    obtain m where m: "dispatch client evs u1 r2 = (m, u', r')"
      using "2.prems"(2) d Some c p by (auto split: prod.splits)
    show ?thesis
      using "2.IH"(2) [OF d [symmetric, unfolded Some c] refl refl p [symmetric] r2 m] .
  qed
qed simp

lemma step_ok: "reactor_ok r \<Longrightarrow> oi_reactor_step client w u r = (x, u', r') \<Longrightarrow> reactor_ok r'"
  by (auto simp: oi_reactor_step_def split: option.splits prod.splits dest: dispatch_ok)

section \<open>Properties\<close>

text \<open>The reactors a program can hold: created, after any call, after any step of the loop.\<close>

inductive reachable_reactor :: "('c, 'u) client \<Rightarrow> 'c oi_reactor \<Rightarrow> bool" for client :: "('c, 'u) client" where
  created: "oi_reactor_create h (oi_reactor_backend_create k) = Some r \<Longrightarrow> reachable_reactor client r"
| called: "reachable_reactor client r \<Longrightarrow> reachable_reactor client (snd (reactor_call c r))"
| stepped: "reachable_reactor client r \<Longrightarrow> oi_reactor_step client w u r = (x, u', r') \<Longrightarrow> reachable_reactor client r'"

lemma reachable_reactor_ok: "reachable_reactor client r \<Longrightarrow> reactor_ok r"
proof (induction rule: reachable_reactor.induct)
  case (called r c)
  then show ?case using call_ok [of r c] by simp
qed (auto dest: create_reactor_ok step_ok)

definition run_calls :: "'c call list \<Rightarrow> 'c oi_reactor \<Rightarrow> 'c oi_reactor" where
  "run_calls cs r = fold (\<lambda>c r. snd (reactor_call c r)) cs r"

lemma run_calls_simps [simp]:
  "run_calls [] r = r" "run_calls (cs @ [c]) r = snd (reactor_call c (run_calls cs r))"
  by (simp_all add: run_calls_def)

lemma run_calls_ok: "reactor_ok r \<Longrightarrow> reactor_ok (run_calls cs r)"
proof (induction cs rule: rev_induct)
  case (snoc c cs)
  then show ?case using call_ok [of "run_calls cs r" c] by simp
qed simp

lemma all_prefixes_snoc:
  "(\<forall>n \<le> length (xs @ [x]). P (take n (xs @ [x]))) \<longleftrightarrow> (\<forall>n \<le> length xs. P (take n xs)) \<and> P (xs @ [x])"
  by (auto simp: le_Suc_eq)

lemma entry_trace:
  assumes "reactor_ok r" and "fe_in_use (entry r fd)"
  shows "\<exists>j \<le> length cs. fe_generation (entry (run_calls cs r) fd) = (next_generation ^^ j) (fe_generation (entry r fd))
    \<and> (if \<forall>n \<le> length cs. fe_in_use (entry (run_calls (take n cs) r) fd)
       then j = 0 \<and> fe_cb (entry (run_calls cs r) fd) = fe_cb (entry r fd)
       else fe_in_use (entry (run_calls cs r) fd) \<longrightarrow> 0 < j)"
proof (induction cs rule: rev_induct)
  case Nil
  with assms(2) show ?case by simp
next
  case (snoc c cs)
  let ?s = "run_calls cs r" and ?always = "\<forall>n \<le> length cs. fe_in_use (entry (run_calls (take n cs) r) fd)"
  let ?e = "entry ?s fd" and ?e' = "entry (run_calls (cs @ [c]) r) fd"
  obtain j where j: "j \<le> length cs" "fe_generation ?e = (next_generation ^^ j) (fe_generation (entry r fd))"
    "if ?always then j = 0 \<and> fe_cb ?e = fe_cb (entry r fd) else fe_in_use ?e \<longrightarrow> 0 < j"
    using snoc by blast
  have last: "fe_in_use ?e" if ?always using that [rule_format, of "length cs"] by simp
  have always: "(\<forall>n \<le> length (cs @ [c]). fe_in_use (entry (run_calls (take n (cs @ [c])) r) fd)) \<longleftrightarrow> ?always \<and> fe_in_use ?e'"
    by (rule all_prefixes_snoc [of cs c "\<lambda>p. fe_in_use (entry (run_calls p r) fd)"])
  have "entry_step ?e ?e'" using call_ok [OF run_calls_ok [OF assms(1)], of c cs fd] by simp
  then show ?case unfolding entry_step_def
  proof (elim disjE conjE)
    assume "fe_generation ?e' = fe_generation ?e" "fe_in_use ?e' = fe_in_use ?e" "fe_cb ?e' = fe_cb ?e"
    with j last show ?thesis unfolding always by (intro exI [of _ j]) (simp split: if_split_asm)
  next
    assume "fe_generation ?e' = fe_generation ?e" "fe_in_use ?e" "\<not> fe_in_use ?e'"
    with j show ?thesis unfolding always by (intro exI [of _ j]) simp
  next
    assume "fe_generation ?e' = next_generation (fe_generation ?e)" "\<not> fe_in_use ?e" "fe_in_use ?e'"
    with j last show ?thesis unfolding always by (intro exI [of _ "Suc j"]) auto
  qed
qed

lemma deliver_fd:
  assumes "reactor_ok r" and "fd < 2 ^ 32" and "unat g \<le> max_generation"
  shows "fst (deliver (registration_token fd g) ev r) =
    (if fe_in_use (entry r fd) \<and> fe_generation (entry r fd) = g then Some (the (fe_cb (entry r fd)), Fd_ready fd ev) else None)"
  using token_parts [OF assms(2,3)] by (auto simp: deliver_def entry_def free_entry_def Let_def)

lemma entry_in_use_lt: "fe_in_use (entry r fd) \<Longrightarrow> fd < length (r_entries r)"
  by (simp add: entry_def free_entry_def split: if_split_asm)

text \<open>C31. In every state a program can bring a reactor to, whatever the kernel, the allocator and the callbacks do:
  the count of registrations is the number of registered descriptors, running timers and watched processes;
  the kernel's interest set holds exactly the descriptors in use, each with the token of its generation and its
  interest; and the lists hold exactly the timers and processes that have not fired or been cancelled.\<close>

theorem reactor_stays_consistent:
  assumes "reachable_reactor client r"
  shows "registered_count r = length (filter fe_in_use (r_entries r)) + length (r_timers r) + length (r_processes r)
    \<and> (\<forall>fd. be_epoll (r_backend r) fd = (if fe_in_use (entry r fd)
         then Some (registration_token fd (fe_generation (entry r fd)), fe_interest (entry r fd)) else None))
    \<and> distinct (r_timers r) \<and> set (r_timers r) = {t. \<exists>x. r_timer r t = Some x \<and> nt_active x}
    \<and> distinct (r_processes r) \<and> set (r_processes r) = {p. \<exists>x. r_process r p = Some x \<and> nt_active x}"
proof -
  note ok = reachable_reactor_ok [OF assms]
  have "be_epoll (r_backend r) fd = (if fe_in_use (entry r fd)
         then Some (registration_token fd (fe_generation (entry r fd)), fe_interest (entry r fd)) else None)" for fd
    using reactor_ok_epoll [OF ok, of fd] by (simp add: entry_def free_entry_def)
  moreover have "set l = {t. \<exists>x. st t = Some x \<and> nt_active x}" if "list_ok n st l" for n st and l
    using that by (auto simp: list_ok_def)
  ultimately show ?thesis using ok by (simp add: reactor_ok_def list_ok_def set_eq_iff)
qed

text \<open>C30. An event the kernel reported for a registered descriptor is delivered after any calls made meanwhile
  (by the callbacks of the events before it) exactly when the descriptor has stayed registered throughout, and
  then to the callback it was registered with: a descriptor that was removed and added again, by whatever owner,
  never gets the event of the former registration. The bound is the number of generations, 1073741823.\<close>

theorem reactor_drops_stale_events:
  assumes "reachable_reactor client r" and "fe_in_use (entry r fd)" and "length cs < max_generation"
  shows "fst (deliver (registration_token fd (fe_generation (entry r fd))) ev (run_calls cs r)) =
    (if \<forall>n \<le> length cs. fe_in_use (entry (run_calls (take n cs) r) fd)
     then Some (the (fe_cb (entry r fd)), Fd_ready fd ev) else None)"
proof -
  note ok = reachable_reactor_ok [OF assms(1)] and lt = entry_in_use_lt [OF assms(2)]
  let ?g = "fe_generation (entry r fd)" and ?always = "\<forall>n \<le> length cs. fe_in_use (entry (run_calls (take n cs) r) fd)"
  have g: "1 \<le> unat ?g" "unat ?g \<le> max_generation"
    using reactor_ok_entry [OF ok lt] assms(2) lt by (simp_all add: entry_def)
  have "length (r_entries r) \<le> 2 ^ 21" using ok by (simp add: reactor_ok_def table_ok_def)
  with lt have fd: "fd < 2 ^ 32" by simp
  obtain j where j: "j \<le> length cs" "fe_generation (entry (run_calls cs r) fd) = (next_generation ^^ j) ?g"
    "if ?always then j = 0 \<and> fe_cb (entry (run_calls cs r) fd) = fe_cb (entry r fd)
     else fe_in_use (entry (run_calls cs r) fd) \<longrightarrow> 0 < j"
    using entry_trace [OF ok assms(2), of cs] by blast
  have last: "fe_in_use (entry (run_calls cs r) fd)" if ?always using that [rule_format, of "length cs"] by simp
  note d = deliver_fd [OF run_calls_ok [OF ok] fd g(2), of ev cs]
  show ?thesis
  proof (cases ?always)
    case True
    with j last d show ?thesis by simp
  next
    case False
    have "(next_generation ^^ j) ?g \<noteq> ?g" if "0 < j"
      using generations_differ [OF g that] j(1) assms(3) by simp
    with False j d show ?thesis by auto
  qed
qed


lemmas reactor_demo = oi_reactor_create_def oi_reactor_backend_create_def oi_reactor_add_def oi_reactor_modify_def
  oi_reactor_remove_def validate_fd_interest_def oi_reactor_max_fd_def ensure_capacity_def grow_cap.simps [of 16 6] free_entry_def
  oi_reactor_backend_add_def oi_reactor_backend_modify_def oi_reactor_backend_remove_def next_answer_def
  entry_def run_calls_def Let_def

lemma demo_reachable: "reachable_reactor client (the (oi_reactor_create (sconst True) (oi_reactor_backend_create (sconst True))))"
  by (rule reachable_reactor.created [of "sconst True" "sconst True"]) (simp add: oi_reactor_create_def oi_reactor_backend_create_def)

lemma reactor_stays_consistent_witness:
  "let r = snd (reactor_call (Add 5 1 CHR ''r'') (the (oi_reactor_create (sconst True) (oi_reactor_backend_create (sconst True)))))
   in registered_count r = 1 \<and> registered_count r = length (filter fe_in_use (r_entries r)) + length (r_timers r) + length (r_processes r)"
proof -
  let ?r0 = "the (oi_reactor_create (sconst True) (oi_reactor_backend_create (sconst True))) :: char oi_reactor"
  let ?r = "snd (reactor_call (Add 5 1 CHR ''r'') ?r0)"
  have "reachable_reactor (\<lambda>_ _ u. Return u :: (char, unit) prog) ?r"
    by (intro reachable_reactor.called demo_reachable)
  from reactor_stays_consistent [OF this] have "registered_count ?r = length (filter fe_in_use (r_entries ?r)) + length (r_timers ?r) + length (r_processes ?r)" ..
  moreover have "registered_count ?r = 1"
    by (simp add: reactor_demo)
  ultimately show ?thesis by (simp add: Let_def)
qed

lemma reactor_drops_stale_events_witness:
  "let r = snd (reactor_call (Add 5 1 CHR ''r'') (the (oi_reactor_create (sconst True) (oi_reactor_backend_create (sconst True)))));
       token = registration_token 5 (fe_generation (entry r 5))
   in fst (deliver token 1 (run_calls [Modify 5 3] r)) = Some (CHR ''r'', Fd_ready 5 1)
    \<and> fst (deliver token 1 (run_calls [Remove 5, Add 5 1 CHR ''s''] r)) = None"
proof -
  let ?r0 = "the (oi_reactor_create (sconst True) (oi_reactor_backend_create (sconst True))) :: char oi_reactor"
  let ?r = "snd (reactor_call (Add 5 1 CHR ''r'') ?r0)"
  have r: "reachable_reactor (\<lambda>_ _ u. Return u :: (char, unit) prog) ?r"
    by (intro reachable_reactor.called demo_reachable)
  have u: "fe_in_use (entry ?r 5)" "fe_cb (entry ?r 5) = Some CHR ''r''"
    by (simp_all add: reactor_demo)
  note stale = reactor_drops_stale_events [OF r u(1)]
  have "\<forall>n \<le> length [Modify 5 3 :: char call]. fe_in_use (entry (run_calls (take n [Modify 5 3]) ?r) 5)"
    using u by (simp add: reactor_demo le_Suc_eq all_conj_distrib)
  moreover have "\<not> (\<forall>n \<le> length [Remove 5, Add 5 1 CHR ''s'']. fe_in_use (entry (run_calls (take n [Remove 5, Add 5 1 CHR ''s'']) ?r) 5))"
    by (rule notI, drule spec [of _ "Suc 0"]) (simp add: reactor_demo)
  ultimately show ?thesis
    using stale [of "[Modify 5 3]" 1] stale [of "[Remove 5, Add 5 1 CHR ''s'']" 1] u(2) by (simp add: max_generation_def)
qed

end
