(* ===== verification/Editor.thy ===== *)
theory Editor
  imports Utf8
begin

text \<open>
  \<open>src/cli_editor.c\<close>: the text being edited at the prompt. \<open>len\<close> is the length of \<open>ed_data\<close>, which the C
  code keeps NUL-terminated; \<open>ed_cap = 0\<close> is the \<open>NULL\<close> buffer. Guards against \<open>NULL\<close> arguments are not
  represented. The abstract editor is a pair of code point sequences, before and after the cursor.
\<close>

definition oi_cli_editor_max_bytes :: nat where
  "oi_cli_editor_max_bytes = 1048576"

record oi_cli_editor =
  ed_data :: bytes
  ed_cap :: nat
  ed_cursor :: nat
  ed_heap :: heap

text \<open>The loop that doubles \<open>new_cap\<close>; it starts from 64 or more.\<close>

function editor_grow :: "nat \<Rightarrow> nat \<Rightarrow> nat" where
  "editor_grow cap required =
     (if cap < required \<and> cap \<noteq> 0
      then if cap > (oi_cli_editor_max_bytes + 1) div 2 then oi_cli_editor_max_bytes + 1
           else editor_grow (cap * 2) required
      else cap)"
  by pat_completeness auto
termination
  by (relation "measure (\<lambda>(cap, required). required - cap)") auto

declare editor_grow.simps [simp del]

definition editor_reserve :: "oi_cli_editor \<Rightarrow> nat \<Rightarrow> oi_status \<times> oi_cli_editor" where
  "editor_reserve e required_len =
     (if required_len > oi_cli_editor_max_bytes then (OI_ERR_INVAL, e)
      else if ed_cap e \<ge> required_len + 1 then (OI_OK, e)
      else let new_cap = editor_grow (if ed_cap e = 0 then 64 else ed_cap e) (required_len + 1);
               e' = e\<lparr>ed_heap := stl (ed_heap e)\<rparr> in
        if \<not> shd (ed_heap e) then (OI_ERR_NOMEM, e') else (OI_OK, e'\<lparr>ed_cap := new_cap\<rparr>))"

definition validate_editor_text :: "bytes \<Rightarrow> oi_status" where
  "validate_editor_text text =
     (if length text > oi_cli_editor_max_bytes then OI_ERR_INVAL
      else if 0 \<in> set text then OI_ERR_PARSE
      else oi_cli_utf8_validate text)"

definition oi_cli_editor_init :: "heap \<Rightarrow> oi_cli_editor" where
  "oi_cli_editor_init h = \<lparr>ed_data = [], ed_cap = 0, ed_cursor = 0, ed_heap = h\<rparr>"

definition oi_cli_editor_free :: "oi_cli_editor \<Rightarrow> oi_cli_editor" where
  "oi_cli_editor_free e = oi_cli_editor_init (ed_heap e)"

definition oi_cli_editor_clear :: "oi_cli_editor \<Rightarrow> oi_cli_editor" where
  "oi_cli_editor_clear e = e\<lparr>ed_data := [], ed_cursor := 0\<rparr>"

definition oi_cli_editor_set :: "oi_cli_editor \<Rightarrow> bytes \<Rightarrow> oi_status \<times> oi_cli_editor" where
  "oi_cli_editor_set e text =
     (let status = validate_editor_text text in
      if status \<noteq> OI_OK then (status, e)
      else (case editor_reserve e (length text) of
        (status, e') \<Rightarrow>
          if status \<noteq> OI_OK then (status, e')
          else (OI_OK, e'\<lparr>ed_data := text, ed_cursor := length text\<rparr>)))"

definition oi_cli_editor_insert :: "oi_cli_editor \<Rightarrow> bytes \<Rightarrow> oi_status \<times> oi_cli_editor" where
  "oi_cli_editor_insert e text =
     (if ed_cursor e > length (ed_data e) then (OI_ERR_INVAL, e)
      else let status = validate_editor_text text in
        if status \<noteq> OI_OK then (status, e)
        else if length text > oi_cli_editor_max_bytes - length (ed_data e) then (OI_ERR_INVAL, e)
        else if text = [] then (OI_OK, e)
        else (case editor_reserve e (length (ed_data e) + length text) of
          (status, e') \<Rightarrow>
            if status \<noteq> OI_OK then (status, e')
            else (OI_OK, e'\<lparr>ed_data := take (ed_cursor e') (ed_data e') @ text @ drop (ed_cursor e') (ed_data e'),
                            ed_cursor := ed_cursor e' + length text\<rparr>)))"

definition oi_cli_editor_move_left :: "oi_cli_editor \<Rightarrow> oi_status \<times> oi_cli_editor" where
  "oi_cli_editor_move_left e =
     (if ed_cursor e > length (ed_data e) then (OI_ERR_INVAL, e)
      else if ed_cursor e = 0 then (OI_OK, e)
      else (case oi_cli_utf8_previous_boundary (ed_data e) (ed_cursor e) of
          Inl status \<Rightarrow> (status, e)
        | Inr previous \<Rightarrow> (OI_OK, e\<lparr>ed_cursor := previous\<rparr>)))"

definition oi_cli_editor_move_right :: "oi_cli_editor \<Rightarrow> oi_status \<times> oi_cli_editor" where
  "oi_cli_editor_move_right e =
     (if ed_cursor e > length (ed_data e) then (OI_ERR_INVAL, e)
      else if ed_cursor e = length (ed_data e) then (OI_OK, e)
      else (case oi_cli_utf8_next_boundary (ed_data e) (ed_cursor e) of
          Inl status \<Rightarrow> (status, e)
        | Inr next' \<Rightarrow> (OI_OK, e\<lparr>ed_cursor := next'\<rparr>)))"

text \<open>\<open>while (cursor > 0 && data[cursor - 1] != LF) cursor--;\<close> and its counterpart to the right.\<close>

fun back_to_line :: "bytes \<Rightarrow> nat \<Rightarrow> nat" where
  "back_to_line data 0 = 0"
| "back_to_line data (Suc c) = (if data ! c \<noteq> 0x0A then back_to_line data c else Suc c)"

definition oi_cli_editor_move_line_start :: "oi_cli_editor \<Rightarrow> oi_cli_editor" where
  "oi_cli_editor_move_line_start e =
     (if ed_cursor e > length (ed_data e) then e else e\<lparr>ed_cursor := back_to_line (ed_data e) (ed_cursor e)\<rparr>)"

definition oi_cli_editor_move_line_end :: "oi_cli_editor \<Rightarrow> oi_cli_editor" where
  "oi_cli_editor_move_line_end e =
     (if ed_cursor e > length (ed_data e) then e
      else e\<lparr>ed_cursor := ed_cursor e + length (takeWhile (\<lambda>b. b \<noteq> 0x0A) (drop (ed_cursor e) (ed_data e)))\<rparr>)"

definition oi_cli_editor_backspace :: "oi_cli_editor \<Rightarrow> oi_status \<times> oi_cli_editor" where
  "oi_cli_editor_backspace e =
     (if ed_cursor e > length (ed_data e) then (OI_ERR_INVAL, e)
      else if ed_cursor e = 0 then (OI_OK, e)
      else (case oi_cli_utf8_previous_boundary (ed_data e) (ed_cursor e) of
          Inl status \<Rightarrow> (status, e)
        | Inr previous \<Rightarrow> (OI_OK, e\<lparr>ed_data := take previous (ed_data e) @ drop (ed_cursor e) (ed_data e),
                                    ed_cursor := previous\<rparr>)))"

definition oi_cli_editor_delete :: "oi_cli_editor \<Rightarrow> oi_status \<times> oi_cli_editor" where
  "oi_cli_editor_delete e =
     (if ed_cursor e > length (ed_data e) then (OI_ERR_INVAL, e)
      else if ed_cursor e = length (ed_data e) then (OI_OK, e)
      else (case oi_cli_utf8_next_boundary (ed_data e) (ed_cursor e) of
          Inl status \<Rightarrow> (status, e)
        | Inr next' \<Rightarrow> (OI_OK, e\<lparr>ed_data := take (ed_cursor e) (ed_data e) @ drop next' (ed_data e)\<rparr>)))"

section \<open>The abstract editor\<close>

datatype edit = Ed_set bytes | Ed_insert bytes | Ed_left | Ed_right | Ed_line_start | Ed_line_end
  | Ed_backspace | Ed_delete | Ed_clear

fun edit_apply :: "edit \<Rightarrow> oi_cli_editor \<Rightarrow> oi_status \<times> oi_cli_editor" where
  "edit_apply (Ed_set t) e = oi_cli_editor_set e t"
| "edit_apply (Ed_insert t) e = oi_cli_editor_insert e t"
| "edit_apply Ed_left e = oi_cli_editor_move_left e"
| "edit_apply Ed_right e = oi_cli_editor_move_right e"
| "edit_apply Ed_line_start e = (OI_OK, oi_cli_editor_move_line_start e)"
| "edit_apply Ed_line_end e = (OI_OK, oi_cli_editor_move_line_end e)"
| "edit_apply Ed_backspace e = oi_cli_editor_backspace e"
| "edit_apply Ed_delete e = oi_cli_editor_delete e"
| "edit_apply Ed_clear e = (OI_OK, oi_cli_editor_clear e)"

text \<open>The code points of a text.\<close>

function points :: "bytes \<Rightarrow> nat list" where
  "points data =
     (if data = [] then []
      else (case oi_cli_utf8_sequence_length data of
          Inl _ \<Rightarrow> []
        | Inr n \<Rightarrow> (case oi_cli_utf8_decode (take n data) of
              Inl _ \<Rightarrow> []
            | Inr cp \<Rightarrow> unat cp # points (drop n data))))"
  by pat_completeness auto
termination
  by (relation "measure length") (auto dest: sequence_length_range)

declare points.simps [simp del]

fun edit_spec :: "edit \<Rightarrow> nat list \<times> nat list \<Rightarrow> nat list \<times> nat list" where
  "edit_spec (Ed_set t) (us, vs) = (points t, [])"
| "edit_spec (Ed_insert t) (us, vs) = (us @ points t, vs)"
| "edit_spec Ed_left (us, vs) = (if us = [] then (us, vs) else (butlast us, last us # vs))"
| "edit_spec Ed_right (us, vs) = (if vs = [] then (us, vs) else (us @ [hd vs], tl vs))"
| "edit_spec Ed_line_start (us, vs) =
     (let line = takeWhile (\<lambda>c. c \<noteq> 10) (rev us) in (take (length us - length line) us, rev line @ vs))"
| "edit_spec Ed_line_end (us, vs) = (us @ takeWhile (\<lambda>c. c \<noteq> 10) vs, dropWhile (\<lambda>c. c \<noteq> 10) vs)"
| "edit_spec Ed_backspace (us, vs) = (butlast us, vs)"
| "edit_spec Ed_delete (us, vs) = (us, tl vs)"
| "edit_spec Ed_clear (us, vs) = ([], [])"

abbreviation encode_text :: "nat list \<Rightarrow> bytes" where
  "encode_text cps \<equiv> concat (map utf8_encode cps)"

definition text_points :: "nat list \<Rightarrow> bool" where
  "text_points cps \<longleftrightarrow> (\<forall>cp \<in> set cps. scalar_value cp \<and> cp \<noteq> 0)"

definition editor_buffer_ok :: "bytes \<Rightarrow> nat \<Rightarrow> bool" where
  "editor_buffer_ok data cap \<longleftrightarrow> length data \<le> oi_cli_editor_max_bytes \<and> cap \<le> oi_cli_editor_max_bytes + 1
     \<and> (if cap = 0 then data = [] else 64 \<le> cap \<and> length data < cap)"

definition editor_rep :: "oi_cli_editor \<Rightarrow> nat list \<times> nat list \<Rightarrow> bool" where
  "editor_rep e s \<longleftrightarrow> text_points (fst s @ snd s)
     \<and> ed_data e = encode_text (fst s) @ encode_text (snd s) \<and> ed_cursor e = length (encode_text (fst s))
     \<and> editor_buffer_ok (ed_data e) (ed_cap e)"

section \<open>Encoded text\<close>

lemma points_encode: "\<forall>cp \<in> set cps. scalar_value cp \<Longrightarrow> points (encode_text cps) = cps"
proof (induction cps)
  case Nil
  show ?case by (simp add: points.simps)
next
  case (Cons cp cps)
  then have cp: "scalar_value cp" by simp
  then have "unat (word_of_nat cp :: 32 word) = cp" by (simp add: unat_of_nat scalar_value_def)
  with cp Cons show ?case
    by (subst points.simps) (simp add: sequence_length_encode decode_encode)
qed

lemma validate_editor_text_points:
  assumes "validate_editor_text t = OI_OK"
  shows "text_points (points t)" and "encode_text (points t) = t" and "length t \<le> oi_cli_editor_max_bytes"
proof -
  have t: "oi_cli_utf8_validate t = OI_OK" "0 \<notin> set t" and "length t \<le> oi_cli_editor_max_bytes"
    using assms by (auto simp: validate_editor_text_def split: if_split_asm)
  then show "length t \<le> oi_cli_editor_max_bytes" by simp
  obtain cps where cps: "\<forall>cp \<in> set cps. scalar_value cp" "t = encode_text cps"
    using t(1) by (auto simp: validate_iff utf8_text_def)
  have "cp \<noteq> 0" if "cp \<in> set cps" for cp
    using t(2) that cps ascii_in_encode [of cp 0] by auto
  then show "text_points (points t)" and "encode_text (points t) = t"
    using cps points_encode [OF cps(1)] by (simp_all add: text_points_def)
qed

lemma takeWhile_encode:
  "\<forall>cp \<in> set vs. scalar_value cp \<Longrightarrow> takeWhile (\<lambda>b. b \<noteq> 0x0A) (encode_text vs) = encode_text (takeWhile (\<lambda>c. c \<noteq> 10) vs)"
proof (induction vs)
  case (Cons v vs)
  have e: "0x0A \<in> set (utf8_encode v) \<longleftrightarrow> v = 10" using ascii_in_encode [of v "0x0A"] Cons.prems by simp
  show ?case
  proof (cases "v = 10")
    case True
    then show ?thesis by (simp add: utf8_encode_def)
  next
    case False
    then have "\<And>b. b \<in> set (utf8_encode v) \<Longrightarrow> b \<noteq> 0x0A" using e by blast
    with False Cons show ?thesis by simp
  qed
qed simp

lemma back_to_line_skip:
  "(\<And>i. a \<le> i \<Longrightarrow> i < a + n \<Longrightarrow> data ! i \<noteq> 0x0A) \<Longrightarrow> back_to_line data (a + n) = back_to_line data a"
  by (induction n) auto

lemma back_to_line_encode:
  "\<forall>cp \<in> set us. scalar_value cp \<Longrightarrow> back_to_line (encode_text us @ r) (length (encode_text us))
     = length (encode_text (take (length us - length (takeWhile (\<lambda>c. c \<noteq> 10) (rev us))) us))"
proof (induction us arbitrary: r rule: rev_induct)
  case (snoc u us)
  let ?e = "utf8_encode u" and ?d = "encode_text us @ utf8_encode u @ r"
  have e: "0x0A \<in> set ?e \<longleftrightarrow> u = 10" using ascii_in_encode [of u "0x0A"] snoc.prems by simp
  show ?case
  proof (cases "u = 10")
    case True
    then have "?e = [0x0A]" by (simp add: utf8_encode_def)
    then show ?thesis by (simp add: True nth_append)
  next
    case False
    have "back_to_line ?d (length (encode_text us) + length ?e) = back_to_line ?d (length (encode_text us))"
    proof (rule back_to_line_skip)
      fix i assume i: "length (encode_text us) \<le> i" "i < length (encode_text us) + length ?e"
      then have "i - length (encode_text us) < length ?e" by linarith
      with i(1) have "?d ! i \<in> set ?e" by (simp add: nth_append)
      with e False show "?d ! i \<noteq> 0x0A" by metis
    qed
    with snoc False show ?thesis by (simp add: Suc_diff_le length_takeWhile_le)
  qed
qed simp

section \<open>Refinement\<close>

lemma editor_grow_bounds:
  "64 \<le> cap \<Longrightarrow> cap \<le> oi_cli_editor_max_bytes + 1 \<Longrightarrow> required \<le> oi_cli_editor_max_bytes + 1 \<Longrightarrow>
   required \<le> editor_grow cap required \<and> cap \<le> editor_grow cap required
   \<and> editor_grow cap required \<le> oi_cli_editor_max_bytes + 1"
proof (induction cap required rule: editor_grow.induct)
  case (1 cap required)
  show ?case
  proof (cases "cap < required \<and> \<not> cap > (oi_cli_editor_max_bytes + 1) div 2")
    case True
    then have "cap * 2 \<le> oi_cli_editor_max_bytes + 1" by (simp add: oi_cli_editor_max_bytes_def)
    with 1 True show ?thesis by (subst editor_grow.simps, subst (2) editor_grow.simps, subst (3) editor_grow.simps) simp
  next
    case False
    with "1.prems" show ?thesis by (auto simp: editor_grow.simps [of cap required])
  qed
qed

lemma reserve_cases:
  assumes "editor_rep e s" and "editor_reserve e n = (st, e')"
  shows "ed_data e' = ed_data e \<and> ed_cursor e' = ed_cursor e \<and>
    (if st = OI_OK then n < ed_cap e' \<and> 64 \<le> ed_cap e' \<and> ed_cap e' \<le> oi_cli_editor_max_bytes + 1
     else ed_cap e' = ed_cap e \<and> st = (if n > oi_cli_editor_max_bytes then OI_ERR_INVAL else OI_ERR_NOMEM))"
proof -
  let ?c = "if ed_cap e = 0 then 64 else ed_cap e"
  have c: "64 \<le> ?c" "?c \<le> oi_cli_editor_max_bytes + 1"
    using assms(1) by (auto simp: editor_rep_def editor_buffer_ok_def oi_cli_editor_max_bytes_def split: if_split_asm)
  show ?thesis
  proof (cases "n > oi_cli_editor_max_bytes \<or> ed_cap e \<ge> n + 1")
    case True
    with assms c show ?thesis by (auto simp: editor_reserve_def split: if_split_asm)
  next
    case False
    then have "n + 1 \<le> oi_cli_editor_max_bytes + 1" by simp
    from editor_grow_bounds [OF c this] False assms(2) c show ?thesis
      by (auto simp: editor_reserve_def Let_def split: if_split_asm)
  qed
qed

lemma rep_cong:
  assumes "editor_rep e s" and "ed_data e' = ed_data e" and "ed_cursor e' = ed_cursor e" and "ed_cap e' = ed_cap e"
  shows "editor_rep e' s"
  using assms(1) unfolding editor_rep_def assms(2-4) .

lemma set_refines:
  assumes "editor_rep e s" and "oi_cli_editor_set e t = (st, e')"
  shows "if st = OI_OK then editor_rep e' (edit_spec (Ed_set t) s) else editor_rep e' s \<and> ed_data e' = ed_data e"
proof (cases "validate_editor_text t = OI_OK")
  case False
  with assms show ?thesis by (simp add: oi_cli_editor_set_def Let_def)
next
  case True
  note t = validate_editor_text_points [OF True]
  obtain us vs where s: "s = (us, vs)" by fastforce
  obtain st1 e1 where r: "editor_reserve e (length t) = (st1, e1)" by fastforce
  note c = reserve_cases [OF assms(1) r]
  show ?thesis
  proof (cases "st1 = OI_OK")
    case False
    with assms(2) True r c have "st \<noteq> OI_OK" "e' = e1" by (simp_all add: oi_cli_editor_set_def Let_def)
    with rep_cong [OF assms(1), of e1] c False show ?thesis by simp
  next
    case ok: True
    with assms(2) True r have e': "st = OI_OK" "e' = e1\<lparr>ed_data := t, ed_cursor := length t\<rparr>"
      by (simp_all add: oi_cli_editor_set_def Let_def)
    have "editor_rep e' (points t, [])"
      unfolding editor_rep_def editor_buffer_ok_def using t c ok by (simp add: e')
    with e' s show ?thesis by simp
  qed
qed

lemma insert_refines:
  assumes "editor_rep e s" and "oi_cli_editor_insert e t = (st, e')"
  shows "if st = OI_OK then editor_rep e' (edit_spec (Ed_insert t) s) else editor_rep e' s \<and> ed_data e' = ed_data e"
proof -
  obtain us vs where s: "s = (us, vs)" by fastforce
  have d: "ed_data e = encode_text us @ encode_text vs" "ed_cursor e = length (encode_text us)"
    using assms(1) by (simp_all add: editor_rep_def s)
  have cur: "\<not> ed_cursor e > length (ed_data e)" by (simp only: d length_append not_less le_add1)
  show ?thesis
  proof (cases "validate_editor_text t = OI_OK \<and> \<not> length t > oi_cli_editor_max_bytes - length (ed_data e)")
    case False
    with assms cur have "st \<noteq> OI_OK \<and> e' = e" by (auto simp: oi_cli_editor_insert_def Let_def split: if_split_asm)
    with assms(1) show ?thesis by simp
  next
    case True
    then have v: "validate_editor_text t = OI_OK" and fits: "\<not> length t > oi_cli_editor_max_bytes - length (ed_data e)" by simp_all
    note t = validate_editor_text_points [OF v]
    show ?thesis
    proof (cases "t = []")
      case nil: True
      with assms(2) cur v fits have "st = OI_OK" "e' = e" by (simp_all add: oi_cli_editor_insert_def)
      with assms(1) nil show ?thesis by (simp add: s points.simps)
    next
      case ne: False
      obtain st1 e1 where r: "editor_reserve e (length (ed_data e) + length t) = (st1, e1)" by fastforce
      note c = reserve_cases [OF assms(1) r]
      have ins: "oi_cli_editor_insert e t = (if st1 \<noteq> OI_OK then (st1, e1) else (OI_OK, e1\<lparr>ed_data := take (ed_cursor e1) (ed_data e1) @ t @ drop (ed_cursor e1) (ed_data e1),
            ed_cursor := ed_cursor e1 + length t\<rparr>))"
        using cur v fits ne r by (simp only: oi_cli_editor_insert_def Let_def if_False prod.case simp_thms)
      show ?thesis
      proof (cases "st1 = OI_OK")
        case False
        with assms(2) ins have "st \<noteq> OI_OK" "e' = e1" by simp_all
        with rep_cong [OF assms(1), of e1] c False show ?thesis by simp
      next
        case ok: True
        have e': "st = OI_OK" "e' = e1\<lparr>ed_data := encode_text us @ t @ encode_text vs, ed_cursor := length (encode_text us) + length t\<rparr>"
          using assms(2) ins ok c d by (simp_all del: length_concat)
        have "length (ed_data e) \<le> oi_cli_editor_max_bytes" "text_points (us @ vs)"
          using assms(1) unfolding editor_rep_def editor_buffer_ok_def s fst_conv snd_conv by blast+
        then have "length (encode_text us @ t @ encode_text vs) \<le> oi_cli_editor_max_bytes" using fits d(1) by (simp del: length_concat)
        moreover have "length (encode_text us @ t @ encode_text vs) < ed_cap e1" using c ok d(1) by (simp del: length_concat)
        ultimately have "editor_rep e' (us @ points t, vs)"
          using t(1,2) c ok \<open>text_points (us @ vs)\<close> unfolding editor_rep_def editor_buffer_ok_def text_points_def
          by (simp add: e' ball_Un del: length_concat)
        with e' s show ?thesis by simp
      qed
    qed
  qed
qed

lemma rep_parts:
  assumes "editor_rep e (us, vs)"
  shows "ed_data e = encode_text us @ encode_text vs" and "ed_cursor e = length (encode_text us)"
    and "\<not> ed_cursor e > length (ed_data e)" and "text_points (us @ vs)"
    and "\<And>cp. cp \<in> set us \<Longrightarrow> scalar_value cp" and "\<And>cp. cp \<in> set vs \<Longrightarrow> scalar_value cp"
proof -
  show d: "ed_data e = encode_text us @ encode_text vs" and c: "ed_cursor e = length (encode_text us)"
    and t: "text_points (us @ vs)"
    using assms unfolding editor_rep_def fst_conv snd_conv by blast+
  show "\<not> ed_cursor e > length (ed_data e)" by (simp only: d c length_append not_less le_add1)
  show "\<And>cp. cp \<in> set us \<Longrightarrow> scalar_value cp" "\<And>cp. cp \<in> set vs \<Longrightarrow> scalar_value cp"
    using t by (simp_all add: text_points_def)
qed

lemma rep_move:
  assumes "editor_rep e (us, vs)" and "us @ vs = us' @ vs'" and "ed_data e' = ed_data e" and "ed_cap e' = ed_cap e"
    and "ed_cursor e' = length (encode_text us')"
  shows "editor_rep e' (us', vs')"
proof -
  have "encode_text us @ encode_text vs = encode_text (us' @ vs')" by (simp flip: assms(2))
  then show ?thesis using assms(1) unfolding editor_rep_def fst_conv snd_conv assms(2-5)
    by (elim conjE) (simp del: length_concat)
qed

lemma buffer_ok_shorter: "editor_buffer_ok d c \<Longrightarrow> length d' \<le> length d \<Longrightarrow> editor_buffer_ok d' c"
  by (auto simp: editor_buffer_ok_def split: if_split_asm)

lemma rep_shrink:
  assumes "editor_rep e (us, vs)" and "set (us' @ vs') \<subseteq> set (us @ vs)"
    and "length (encode_text us' @ encode_text vs') \<le> length (encode_text us @ encode_text vs)"
    and "ed_data e' = encode_text us' @ encode_text vs'" and "ed_cap e' = ed_cap e"
    and "ed_cursor e' = length (encode_text us')"
  shows "editor_rep e' (us', vs')"
proof -
  have "text_points (us' @ vs')" using rep_parts(4) [OF assms(1)] assms(2) unfolding text_points_def by blast
  moreover have "editor_buffer_ok (ed_data e) (ed_cap e)" using assms(1) unfolding editor_rep_def by blast
  then have "editor_buffer_ok (ed_data e') (ed_cap e')"
    using assms(3) unfolding assms(4,5) rep_parts(1) [OF assms(1)] by (rule buffer_ok_shorter)
  ultimately show ?thesis using assms(4,6) unfolding editor_rep_def fst_conv snd_conv by blast
qed

lemma left_refines:
  assumes "editor_rep e s" and "oi_cli_editor_move_left e = (st, e')"
  shows "st = OI_OK \<and> editor_rep e' (edit_spec Ed_left s)"
proof -
  obtain us vs where s: "s = (us, vs)" by fastforce
  note p = rep_parts [OF assms(1) [unfolded s]]
  show ?thesis
  proof (cases us rule: rev_cases)
    case Nil
    with p(2,3) assms show ?thesis by (simp add: s oi_cli_editor_move_left_def)
  next
    case (snoc us0 u)
    then have u: "scalar_value u" using p(5) by simp
    have "oi_cli_utf8_previous_boundary (ed_data e) (ed_cursor e) = Inr (length (encode_text us0))"
      using previous_boundary_encode [OF u, of "encode_text us0" "encode_text vs"] by (simp add: p(1,2) snoc del: length_concat)
    moreover have "ed_cursor e \<noteq> 0" by (simp add: p(2) snoc)
    ultimately have "st = OI_OK" "e' = e\<lparr>ed_cursor := length (encode_text us0)\<rparr>"
      using assms(2) p(3) by (simp_all add: oi_cli_editor_move_left_def)
    moreover have "editor_rep (e\<lparr>ed_cursor := length (encode_text us0)\<rparr>) (us0, u # vs)"
      by (rule rep_move [OF assms(1) [unfolded s]]) (simp_all add: snoc)
    ultimately show ?thesis by (simp add: s snoc)
  qed
qed

lemma right_refines:
  assumes "editor_rep e s" and "oi_cli_editor_move_right e = (st, e')"
  shows "st = OI_OK \<and> editor_rep e' (edit_spec Ed_right s)"
proof -
  obtain us vs where s: "s = (us, vs)" by fastforce
  note p = rep_parts [OF assms(1) [unfolded s]]
  show ?thesis
  proof (cases vs)
    case Nil
    with p(1-3) assms show ?thesis by (simp add: s oi_cli_editor_move_right_def)
  next
    case (Cons v vs')
    then have v: "scalar_value v" using p(6) by simp
    have "oi_cli_utf8_next_boundary (ed_data e) (ed_cursor e) = Inr (length (encode_text (us @ [v])))"
      using next_boundary_encode [OF v, of "encode_text us" "encode_text vs'"] by (simp add: p(1,2) Cons del: length_concat)
    moreover have "ed_cursor e \<noteq> length (ed_data e)" by (simp add: p(1,2) Cons)
    ultimately have "st = OI_OK" "e' = e\<lparr>ed_cursor := length (encode_text (us @ [v]))\<rparr>"
      using assms(2) p(3) by (simp_all add: oi_cli_editor_move_right_def)
    moreover have "editor_rep (e\<lparr>ed_cursor := length (encode_text (us @ [v]))\<rparr>) (us @ [v], vs')"
      by (rule rep_move [OF assms(1) [unfolded s]]) (simp_all add: Cons)
    ultimately show ?thesis by (simp add: s Cons)
  qed
qed

lemma backspace_refines:
  assumes "editor_rep e s" and "oi_cli_editor_backspace e = (st, e')"
  shows "st = OI_OK \<and> editor_rep e' (edit_spec Ed_backspace s)"
proof -
  obtain us vs where s: "s = (us, vs)" by fastforce
  note p = rep_parts [OF assms(1) [unfolded s]]
  show ?thesis
  proof (cases us rule: rev_cases)
    case Nil
    with p(2,3) assms show ?thesis by (simp add: s oi_cli_editor_backspace_def)
  next
    case (snoc us0 u)
    then have u: "scalar_value u" using p(5) by simp
    have "oi_cli_utf8_previous_boundary (ed_data e) (ed_cursor e) = Inr (length (encode_text us0))"
      using previous_boundary_encode [OF u, of "encode_text us0" "encode_text vs"] by (simp add: p(1,2) snoc del: length_concat)
    moreover have "ed_cursor e \<noteq> 0" by (simp add: p(2) snoc)
    ultimately have e': "st = OI_OK" "e' = e\<lparr>ed_data := encode_text us0 @ encode_text vs, ed_cursor := length (encode_text us0)\<rparr>"
      using assms(2) p(1-3) by (simp_all add: oi_cli_editor_backspace_def snoc del: length_concat)
    have "editor_rep e' (us0, vs)" unfolding e'(2)
      by (rule rep_shrink [OF assms(1) [unfolded s]]) (auto simp: snoc)
    with e' show ?thesis by (simp add: s snoc)
  qed
qed

lemma delete_refines:
  assumes "editor_rep e s" and "oi_cli_editor_delete e = (st, e')"
  shows "st = OI_OK \<and> editor_rep e' (edit_spec Ed_delete s)"
proof -
  obtain us vs where s: "s = (us, vs)" by fastforce
  note p = rep_parts [OF assms(1) [unfolded s]]
  show ?thesis
  proof (cases vs)
    case Nil
    with p(1-3) assms show ?thesis by (simp add: s oi_cli_editor_delete_def)
  next
    case (Cons v vs')
    then have v: "scalar_value v" using p(6) by simp
    have "oi_cli_utf8_next_boundary (ed_data e) (ed_cursor e) = Inr (length (encode_text us) + length (utf8_encode v))"
      using next_boundary_encode [OF v, of "encode_text us" "encode_text vs'"] by (simp add: p(1,2) Cons del: length_concat)
    moreover have "ed_cursor e \<noteq> length (ed_data e)" by (simp add: p(1,2) Cons)
    ultimately have e': "st = OI_OK" "e' = e\<lparr>ed_data := encode_text us @ encode_text vs'\<rparr>"
      using assms(2) p(1-3) by (simp_all add: oi_cli_editor_delete_def Cons del: length_concat)
    have "editor_rep e' (us, vs')" unfolding e'(2)
      by (rule rep_shrink [OF assms(1) [unfolded s]]) (auto simp: Cons p(2))
    with e' show ?thesis by (simp add: s Cons)
  qed
qed

lemma line_start_refines:
  assumes "editor_rep e s"
  shows "editor_rep (oi_cli_editor_move_line_start e) (edit_spec Ed_line_start s)"
proof -
  obtain us vs where s: "s = (us, vs)" by fastforce
  note p = rep_parts [OF assms(1) [unfolded s]]
  let ?line = "takeWhile (\<lambda>c. c \<noteq> 10) (rev us)"
  have e': "oi_cli_editor_move_line_start e = e\<lparr>ed_cursor := length (encode_text (take (length us - length ?line) us))\<rparr>"
    using p(3,5) back_to_line_encode [of us "encode_text vs"] by (simp add: oi_cli_editor_move_line_start_def p(1,2) del: length_concat)
  have "rev us = ?line @ dropWhile (\<lambda>c. c \<noteq> 10) (rev us)" by simp
  then have u: "us = rev (dropWhile (\<lambda>c. c \<noteq> 10) (rev us)) @ rev ?line" by (metis rev_append rev_rev_ident)
  have "take (length us - length ?line) us @ rev ?line = us"
    by (subst (2 4) u) (metis append_eq_conv_conj length_append length_rev u add_diff_cancel_right')
  then have "us @ vs = take (length us - length ?line) us @ rev ?line @ vs" by (metis append_assoc)
  from rep_move [OF assms(1) [unfolded s] this] show ?thesis unfolding e' s edit_spec.simps Let_def by simp
qed

lemma line_end_refines:
  assumes "editor_rep e s"
  shows "editor_rep (oi_cli_editor_move_line_end e) (edit_spec Ed_line_end s)"
proof -
  obtain us vs where s: "s = (us, vs)" by fastforce
  note p = rep_parts [OF assms(1) [unfolded s]]
  have e': "oi_cli_editor_move_line_end e = e\<lparr>ed_cursor := length (encode_text (us @ takeWhile (\<lambda>c. c \<noteq> 10) vs))\<rparr>"
    using p(3,6) takeWhile_encode [of vs] by (simp add: oi_cli_editor_move_line_end_def p(1,2) del: length_concat)
  show ?thesis unfolding e' s edit_spec.simps
    by (rule rep_move [OF assms(1) [unfolded s]]) simp_all
qed

lemma edit_refines:
  assumes "editor_rep e s" and "edit_apply op e = (st, e')"
  shows "if st = OI_OK then editor_rep e' (edit_spec op s)
    else editor_rep e' s \<and> ed_data e' = ed_data e \<and> (\<exists>t. op = Ed_set t \<or> op = Ed_insert t)"
proof (cases op)
  case (Ed_set t)
  with set_refines [OF assms(1), of t] assms(2) show ?thesis by auto
next
  case (Ed_insert t)
  with insert_refines [OF assms(1), of t] assms(2) show ?thesis by auto
next
  case Ed_clear
  obtain us vs where s: "s = (us, vs)" by fastforce
  have "editor_rep (oi_cli_editor_clear e) ([], [])"
    by (rule rep_shrink [OF assms(1) [unfolded s]]) (simp_all add: oi_cli_editor_clear_def)
  with Ed_clear assms(2) s show ?thesis by simp
qed (use assms in \<open>auto dest: left_refines right_refines backspace_refines delete_refines
      intro: line_start_refines line_end_refines simp del: edit_spec.simps\<close>)

text \<open>What a sequence of operations answered, and the editor after it.\<close>

fun edit_log :: "edit list \<Rightarrow> oi_cli_editor \<Rightarrow> (edit \<times> oi_status) list \<times> oi_cli_editor" where
  "edit_log [] e = ([], e)"
| "edit_log (op # ops) e =
     (case edit_apply op e of (st, e') \<Rightarrow> case edit_log ops e' of (log, e'') \<Rightarrow> ((op, st) # log, e''))"

definition accepted_edits :: "(edit \<times> oi_status) list \<Rightarrow> edit list" where
  "accepted_edits log = map fst (filter (\<lambda>x. snd x = OI_OK) log)"

lemma edit_log_refines:
  "editor_rep e s \<Longrightarrow> edit_log ops e = (log, e') \<Longrightarrow> editor_rep e' (fold edit_spec (accepted_edits log) s)
   \<and> list_all (\<lambda>(op, st). st = OI_OK \<or> (\<exists>t. op = Ed_set t \<or> op = Ed_insert t)) log"
proof (induction ops arbitrary: e s log)
  case (Cons op ops)
  obtain st e1 where a: "edit_apply op e = (st, e1)" by fastforce
  obtain log1 where l: "edit_log ops e1 = (log1, e')" "log = (op, st) # log1"
    using Cons.prems(2) a by (auto split: prod.splits)
  note r = edit_refines [OF Cons.prems(1) a]
  show ?case
  proof (cases "st = OI_OK")
    case True
    with Cons.IH [of e1 "edit_spec op s"] r l show ?thesis by (simp add: accepted_edits_def)
  next
    case False
    with Cons.IH [of e1 s] r l show ?thesis by (simp add: accepted_edits_def)
  qed
qed (simp add: accepted_edits_def)

lemma init_rep: "editor_rep (oi_cli_editor_init h) ([], [])"
  by (simp add: editor_rep_def editor_buffer_ok_def text_points_def oi_cli_editor_init_def)

text \<open>
  C33. The editor is a text of Unicode code points with a cursor between two of them: after any operations on a
  new editor, whatever bytes they are given and however the allocator behaves, its bytes are the UTF-8 encoding
  of the text that the abstract editor reaches by the operations that answered \<open>OI_OK\<close>, the cursor stands at the
  abstract one's place, no NUL is in the text and it is at most 1 MiB. Only \<open>set\<close> and \<open>insert\<close> can fail.
\<close>

theorem editor_refines_text:
  "case edit_log ops (oi_cli_editor_init h) of (log, e) \<Rightarrow>
     case fold edit_spec (accepted_edits log) ([], []) of (us, vs) \<Rightarrow>
       ed_data e = encode_text (us @ vs) \<and> ed_cursor e = length (encode_text us)
     \<and> list_all (\<lambda>cp. scalar_value cp \<and> cp \<noteq> 0) (us @ vs) \<and> length (ed_data e) \<le> oi_cli_editor_max_bytes
     \<and> list_all (\<lambda>(op, st). st = OI_OK \<or> (\<exists>t. op = Ed_set t \<or> op = Ed_insert t)) log"
proof -
  obtain log e where l: "edit_log ops (oi_cli_editor_init h) = (log, e)" by fastforce
  obtain us vs where f: "fold edit_spec (accepted_edits log) ([], []) = (us, vs)" by fastforce
  have r: "editor_rep e (us, vs)" and log: "list_all (\<lambda>(op, st). st = OI_OK \<or> (\<exists>t. op = Ed_set t \<or> op = Ed_insert t)) log"
    using edit_log_refines [OF init_rep l] by (simp_all add: f)
  have "length (ed_data e) \<le> oi_cli_editor_max_bytes" using r unfolding editor_rep_def editor_buffer_ok_def by blast
  with rep_parts(1,2,4) [OF r] log show ?thesis
    by (simp add: l f text_points_def list_all_iff del: length_concat)
qed

end
