(* ===== verification/Input.thy ===== *)
theory Input
  imports Utf8
begin

text \<open>
  \<open>src/cli_input.c\<close>: bytes from the terminal become keys, text and pastes. \<open>text_len\<close> of an event is the
  length of its text. A call answers its status, the number of bytes consumed, the event and the decoder.
\<close>

datatype oi_cli_input_event_type =
    INPUT_NONE | INPUT_TEXT | INPUT_ENTER | INPUT_NEWLINE | INPUT_LEFT | INPUT_RIGHT | INPUT_UP | INPUT_DOWN
  | INPUT_HOME | INPUT_END | INPUT_BACKSPACE | INPUT_DELETE | INPUT_TAB | INPUT_CTRL_C | INPUT_CTRL_D
  | INPUT_ESCAPE | INPUT_PASTE_BEGIN | INPUT_PASTE_END | INPUT_INVALID

record oi_cli_input_event =
  ev_type :: oi_cli_input_event_type
  ev_text :: bytes
  ev_pasted :: bool

record oi_cli_input_decoder =
  dec_pasting :: bool

type_synonym decoded = "oi_status \<times> nat \<times> oi_cli_input_event \<times> oi_cli_input_decoder"

definition set_simple_event :: "oi_cli_input_event_type \<Rightarrow> oi_cli_input_event" where
  "set_simple_event t = \<lparr>ev_type = t, ev_text = [], ev_pasted = False\<rparr>"

definition escape_mappings :: "(bytes \<times> oi_cli_input_event_type) list" where
  "escape_mappings =
    [([0x1B, 0x5B, 0x41], INPUT_UP), ([0x1B, 0x5B, 0x42], INPUT_DOWN), ([0x1B, 0x5B, 0x43], INPUT_RIGHT),
     ([0x1B, 0x5B, 0x44], INPUT_LEFT), ([0x1B, 0x5B, 0x48], INPUT_HOME), ([0x1B, 0x5B, 0x46], INPUT_END),
     ([0x1B, 0x5B, 0x31, 0x7E], INPUT_HOME), ([0x1B, 0x5B, 0x34, 0x7E], INPUT_END),
     ([0x1B, 0x5B, 0x37, 0x7E], INPUT_HOME), ([0x1B, 0x5B, 0x38, 0x7E], INPUT_END),
     ([0x1B, 0x5B, 0x33, 0x7E], INPUT_DELETE), ([0x1B, 0x5B, 0x32, 0x30, 0x30, 0x7E], INPUT_PASTE_BEGIN)]"

definition paste_end :: bytes where
  "paste_end = [0x1B, 0x5B, 0x32, 0x30, 0x31, 0x7E]"

definition decode_text :: "oi_cli_input_decoder \<Rightarrow> bytes \<Rightarrow> bool \<Rightarrow> decoded" where
  "decode_text d data pasted =
     (let b = data ! 0;
          expected = (if b \<le> 0x7F then 1 else if 0xC2 \<le> b \<and> b \<le> 0xDF then 2
                      else if 0xE0 \<le> b \<and> b \<le> 0xEF then 3 else if 0xF0 \<le> b \<and> b \<le> 0xF4 then 4 else 0) in
      if expected = 0 then (OI_OK, 1, set_simple_event INPUT_INVALID, d)
      else if length data < expected then (OI_ERR_AGAIN, 0, set_simple_event INPUT_NONE, d)
      else (case oi_cli_utf8_sequence_length data of
          Inl _ \<Rightarrow> (OI_OK, 1, set_simple_event INPUT_INVALID, d)
        | Inr n \<Rightarrow> (OI_OK, n, \<lparr>ev_type = INPUT_TEXT, ev_text = take n data, ev_pasted = pasted\<rparr>, d)))"

text \<open>The loop over the mappings: the first one the data starts with, or whether the data starts one.\<close>

fun match_escape :: "bytes \<Rightarrow> (bytes \<times> oi_cli_input_event_type) list \<Rightarrow> bool \<Rightarrow> (bytes \<times> oi_cli_input_event_type) option \<times> bool" where
  "match_escape data [] has_prefix = (None, has_prefix)"
| "match_escape data ((sq, t) # ms) has_prefix =
     (let compared = min (length data) (length sq) in
      if take compared data \<noteq> take compared sq then match_escape data ms has_prefix
      else if length data < length sq then match_escape data ms True
      else (Some (sq, t), has_prefix))"

definition decode_escape :: "oi_cli_input_decoder \<Rightarrow> bytes \<Rightarrow> decoded" where
  "decode_escape d data =
     (case match_escape data escape_mappings False of
        (Some (sq, t), _) \<Rightarrow>
          (OI_OK, length sq, set_simple_event t, if t = INPUT_PASTE_BEGIN then d\<lparr>dec_pasting := True\<rparr> else d)
      | (None, has_prefix) \<Rightarrow>
          if has_prefix \<or> length data = 1 then (OI_ERR_AGAIN, 0, set_simple_event INPUT_NONE, d)
          else (OI_OK, 1, set_simple_event INPUT_INVALID, d))"

definition decode_pasted :: "oi_cli_input_decoder \<Rightarrow> bytes \<Rightarrow> decoded" where
  "decode_pasted d data =
     (if data ! 0 = 0x1B \<and> length data < 6 \<and> data = take (length data) paste_end
      then (OI_ERR_AGAIN, 0, set_simple_event INPUT_NONE, d)
      else if data ! 0 = 0x1B \<and> length data \<ge> 6 \<and> take 6 data = paste_end
      then (OI_OK, 6, set_simple_event INPUT_PASTE_END, d\<lparr>dec_pasting := False\<rparr>)
      else if data ! 0 = 0 then (OI_OK, 1, set_simple_event INPUT_INVALID, d)
      else decode_text d data True)"

definition oi_cli_input_decoder_init :: oi_cli_input_decoder where
  "oi_cli_input_decoder_init = \<lparr>dec_pasting = False\<rparr>"

definition oi_cli_input_decode :: "oi_cli_input_decoder \<Rightarrow> bytes \<Rightarrow> decoded" where
  "oi_cli_input_decode d data =
     (if data = [] then (OI_ERR_AGAIN, 0, set_simple_event INPUT_NONE, d)
      else if dec_pasting d then decode_pasted d data
      else let b = data ! 0; key = (\<lambda>t. (OI_OK, 1, set_simple_event t, d)) in
        if b = 0x1B then decode_escape d data
        else if b = 0x0D then key INPUT_ENTER
        else if b = 0x0A then key INPUT_NEWLINE
        else if b = 0x03 then key INPUT_CTRL_C
        else if b = 0x04 then key INPUT_CTRL_D
        else if b = 0x7F \<or> b = 0x08 then key INPUT_BACKSPACE
        else if b = 0x09 then key INPUT_TAB
        else if b = 0x01 then key INPUT_HOME
        else if b = 0x05 then key INPUT_END
        else if b < 0x20 then key INPUT_INVALID
        else decode_text d data False)"

definition oi_cli_input_decode_escape :: "nat \<times> oi_cli_input_event" where
  "oi_cli_input_decode_escape = (1, set_simple_event INPUT_ESCAPE)"

section \<open>Progress\<close>

lemma decode_text_cases:
  assumes "decode_text d data p = (st, n, ev, d')" and "data \<noteq> []"
  shows "d' = d \<and> (st = OI_OK \<and> 1 \<le> n \<and> n \<le> length data \<or> st = OI_ERR_AGAIN \<and> length data < 4)"
  using assms by (auto simp: decode_text_def Let_def Suc_le_eq dest: sequence_length_range split: if_split_asm sum.splits)

lemma match_escape_Some:
  "match_escape data ms h = (Some (sq, t), h') \<Longrightarrow> (sq, t) \<in> set ms \<and> length sq \<le> length data \<and> take (length sq) data = sq"
proof (induction data ms h rule: match_escape.induct)
  case (2 data sq' t' ms h)
  then show ?case by (auto simp: Let_def min_def split: if_split_asm)
qed simp

lemma match_escape_prefix:
  "match_escape data ms h = (None, True) \<Longrightarrow> \<not> h \<Longrightarrow> \<exists>sq t. (sq, t) \<in> set ms \<and> length data < length sq"
proof (induction data ms h rule: match_escape.induct)
  case (2 data sq' t' ms h)
  then show ?case by (cases "length data < length sq'") (auto simp: Let_def split: if_split_asm)
qed simp

lemma decode_escape_cases:
  assumes "decode_escape d data = (st, n, ev, d')" and "data \<noteq> []"
  shows "st = OI_OK \<and> 1 \<le> n \<and> n \<le> length data \<or> st = OI_ERR_AGAIN \<and> d' = d \<and> length data < 6"
proof -
  obtain m h where m: "match_escape data escape_mappings False = (m, h)" by fastforce
  show ?thesis
  proof (cases m)
    case None
    have "length data < 6" if h
    proof -
      from match_escape_prefix [of data escape_mappings False] m None that
      obtain sq t where "(sq, t) \<in> set escape_mappings" "length data < length sq" by auto
      then show ?thesis by (auto simp: escape_mappings_def)
    qed
    with None m assms show ?thesis by (auto simp: decode_escape_def Suc_le_eq split: if_split_asm)
  next
    case (Some x)
    obtain sq t where x: "x = (sq, t)" by fastforce
    with match_escape_Some [OF m [unfolded Some x]] have "(sq, t) \<in> set escape_mappings" "length sq \<le> length data" by simp_all
    then have "1 \<le> length sq" by (auto simp: escape_mappings_def)
    with Some x m assms \<open>length sq \<le> _\<close> show ?thesis by (simp add: decode_escape_def)
  qed
qed

lemma decode_cases:
  assumes "oi_cli_input_decode d data = (st, n, ev, d')"
  shows "st = OI_OK \<and> 1 \<le> n \<and> n \<le> length data \<or> st = OI_ERR_AGAIN \<and> d' = d \<and> length data < 6"
proof (cases "data = []")
  case True
  with assms show ?thesis by (simp add: oi_cli_input_decode_def)
next
  case False
  then have l: "1 \<le> length data" by (simp add: Suc_le_eq)
  show ?thesis
  proof (cases "dec_pasting d")
    case True
    with assms False have p: "decode_pasted d data = (st, n, ev, d')" by (simp add: oi_cli_input_decode_def)
    show ?thesis
    proof (cases "decode_text d data True = (st, n, ev, d')")
      case True
      then show ?thesis using decode_text_cases [OF _ False] by fastforce
    next
      case False
      with p l show ?thesis by (auto simp: decode_pasted_def split: if_split_asm)
    qed
  next
    case np: False
    show ?thesis
    proof (cases "decode_text d data False = (st, n, ev, d') \<or> decode_escape d data = (st, n, ev, d')")
      case True
      then show ?thesis using decode_text_cases [OF _ False] decode_escape_cases [OF _ False] by fastforce
    next
      case no: False
      with assms False np l show ?thesis by (auto simp: oi_cli_input_decode_def Let_def split: if_split_asm)
    qed
  qed
qed

section \<open>More bytes do not change an event\<close>

lemma take_append_eq: "n \<le> length xs \<Longrightarrow> take n (xs @ ys) = take n xs" by simp

lemma sequence_length_append:
  assumes "data \<noteq> []" and "\<And>n. oi_cli_utf8_lead_length (data ! 0) = Inr n \<Longrightarrow> n \<le> length data"
  shows "oi_cli_utf8_sequence_length (data @ ys) = oi_cli_utf8_sequence_length data"
proof (cases "oi_cli_utf8_lead_length (data ! 0)")
  case (Inl e)
  with assms(1) show ?thesis by (simp add: oi_cli_utf8_sequence_length_def nth_append)
next
  case (Inr n)
  have n: "n \<le> length data" using assms(2) Inr .
  then have "(data @ ys) ! i = data ! i" if "i < n" for i using that by (simp add: nth_append)
  then show ?thesis
    using Inr n assms(1) lead_length_range [OF Inr] by (auto simp: oi_cli_utf8_sequence_length_def Let_def nth_append)
qed

lemma decode_text_append:
  assumes "decode_text d data p = (OI_OK, n, ev, d')" and "data \<noteq> []"
  shows "decode_text d (data @ ys) p = (OI_OK, n, ev, d')"
proof -
  let ?b = "data ! 0"
  define expected :: nat where "expected = (if ?b \<le> 0x7F then 1 else if 0xC2 \<le> ?b \<and> ?b \<le> 0xDF then 2
                      else if 0xE0 \<le> ?b \<and> ?b \<le> 0xEF then 3 else if 0xF0 \<le> ?b \<and> ?b \<le> 0xF4 then 4 else 0)"
  have b: "(data @ ys) ! 0 = ?b" using assms(2) by (simp add: nth_append)
  have lead: "oi_cli_utf8_lead_length ?b = Inr n \<Longrightarrow> n = expected" for n
    by (auto simp: oi_cli_utf8_lead_length_def expected_def split: if_split_asm)
  show ?thesis
  proof (cases "expected = 0")
    case True
    with assms(1) show ?thesis unfolding decode_text_def Let_def b expected_def [symmetric] by simp
  next
    case False
    then have e: "\<not> length data < expected"
      using assms(1) unfolding decode_text_def Let_def expected_def [symmetric] by (simp split: if_split_asm)
    then have s: "oi_cli_utf8_sequence_length (data @ ys) = oi_cli_utf8_sequence_length data"
      using lead by (intro sequence_length_append [OF assms(2)]) fastforce
    from assms(1) e False show ?thesis
      unfolding decode_text_def Let_def b expected_def [symmetric] s
      by (auto split: sum.splits dest: sequence_length_range)
  qed
qed

lemma mismatch_append:
  assumes "take (min (length data) (length sq)) data \<noteq> take (min (length data) (length sq)) sq"
  shows "take (min (length (data @ ys)) (length sq)) (data @ ys) \<noteq> take (min (length (data @ ys)) (length sq)) sq"
proof
  let ?c = "min (length data) (length sq)" and ?c' = "min (length (data @ ys)) (length sq)"
  assume "take ?c' (data @ ys) = take ?c' sq"
  then have "take ?c (take ?c' (data @ ys)) = take ?c (take ?c' sq)" by simp
  moreover have "min ?c ?c' = ?c" by simp
  ultimately have "take ?c (data @ ys) = take ?c sq" by (metis take_take)
  with assms show False by simp
qed

lemma match_escape_append:
  assumes "match_escape data ms h = (Some (sq, t), h')"
    and "\<And>sq' t'. (sq', t') \<in> set ms \<Longrightarrow> length sq < length sq' \<Longrightarrow> take (length sq) sq' \<noteq> sq"
  shows "match_escape (data @ ys) ms h = (Some (sq, t), h')"
  using assms
proof (induction ms arbitrary: h)
  case (Cons m ms)
  obtain sq1 t1 where m: "m = (sq1, t1)" by fastforce
  let ?c = "min (length data) (length sq1)"
  show ?case
  proof (cases "take ?c data \<noteq> take ?c sq1")
    case True
    have "match_escape data ms h = (Some (sq, t), h')" using Cons.prems(1) True by (simp add: m Let_def)
    then have "match_escape (data @ ys) ms h = (Some (sq, t), h')"
    proof (rule Cons.IH)
      fix sq' t' assume "(sq', t') \<in> set ms" "length sq < length sq'"
      then show "take (length sq) sq' \<noteq> sq" using Cons.prems(2) [of sq' t'] by simp
    qed
    with mismatch_append [OF True, of ys] show ?thesis by (simp add: m Let_def)
  next
    case match: False
    show ?thesis
    proof (cases "length data < length sq1")
      case True
      then have d: "take (length data) sq1 = data" using match by (simp add: min_def)
      have "match_escape data ms True = (Some (sq, t), h')" using Cons.prems(1) match True by (simp add: m Let_def)
      from match_escape_Some [OF this] have "length sq \<le> length data" "take (length sq) data = sq" by simp_all
      then have "length sq < length sq1 \<and> take (length sq) sq1 = sq" using d True by (metis le_less_trans min.absorb1 take_take)
      with Cons.prems(2) [of sq1 t1] m show ?thesis by simp
    next
      case False
      then have l: "length sq1 \<le> length data" "take (length sq1) data = sq1" using match by simp_all
      then have "match_escape (data @ ys) (m # ms) h = (Some (sq1, t1), h)" "match_escape data (m # ms) h = (Some (sq1, t1), h)"
        by (simp_all add: m Let_def)
      with Cons.prems(1) show ?thesis by simp
    qed
  qed
qed simp

lemma match_escape_no_prefix:
  "match_escape data ms h = (None, False) \<Longrightarrow> match_escape (data @ ys) ms h = (None, False)"
proof (induction ms arbitrary: h)
  case (Cons m ms)
  obtain sq1 t1 where m: "m = (sq1, t1)" by fastforce
  have never: "snd (match_escape data ms True)" if "fst (match_escape data ms True) = None" for ms
    using that by (induction ms) (auto simp: Let_def)
  let ?c = "min (length data) (length sq1)"
  show ?case
  proof (cases "take ?c data \<noteq> take ?c sq1")
    case True
    with Cons mismatch_append [OF True, of ys] show ?thesis by (simp add: m Let_def)
  next
    case False
    with Cons.prems never [of ms] show ?thesis by (auto simp: m Let_def split: if_split_asm)
  qed
qed simp

lemma mappings_prefix_free:
  "(sq, t) \<in> set escape_mappings \<Longrightarrow> (sq', t') \<in> set escape_mappings \<Longrightarrow> length sq < length sq' \<Longrightarrow> take (length sq) sq' \<noteq> sq"
  by (auto simp: escape_mappings_def)

lemma decode_escape_append:
  assumes "decode_escape d data = (OI_OK, n, ev, d')" and "data \<noteq> []"
  shows "decode_escape d (data @ ys) = (OI_OK, n, ev, d')"
proof -
  obtain m h where m: "match_escape data escape_mappings False = (m, h)" by fastforce
  show ?thesis
  proof (cases m)
    case None
    with assms m have h: "\<not> h" "length data \<noteq> 1" by (auto simp: decode_escape_def split: if_split_asm)
    moreover have "match_escape (data @ ys) escape_mappings False = (None, False)"
      by (rule match_escape_no_prefix) (use m None h in simp)
    moreover have "length (data @ ys) \<noteq> 1" using h(2) assms(2) by (cases data) auto
    ultimately show ?thesis using assms(1) m None by (simp add: decode_escape_def)
  next
    case (Some x)
    obtain sq t where x: "x = (sq, t)" by fastforce
    have "(sq, t) \<in> set escape_mappings" using match_escape_Some m Some x by blast
    then have "match_escape (data @ ys) escape_mappings False = (Some (sq, t), h)"
      using mappings_prefix_free by (intro match_escape_append) (use m Some x in auto)
    with assms(1) m Some x show ?thesis by (simp add: decode_escape_def)
  qed
qed

lemma decode_pasted_append:
  assumes "decode_pasted d data = (OI_OK, n, ev, d')" and "data \<noteq> []"
  shows "decode_pasted d (data @ ys) = (OI_OK, n, ev, d')"
proof -
  have b: "(data @ ys) ! 0 = data ! 0" using assms(2) by (simp add: nth_append)
  have again: "\<not> (data ! 0 = 0x1B \<and> length data < 6 \<and> data = take (length data) paste_end)"
    using assms(1) by (auto simp: decode_pasted_def)
  have again': "\<not> (data ! 0 = 0x1B \<and> length (data @ ys) < 6 \<and> data @ ys = take (length (data @ ys)) paste_end)"
  proof
    assume a: "data ! 0 = 0x1B \<and> length (data @ ys) < 6 \<and> data @ ys = take (length (data @ ys)) paste_end"
    then have "take (length data) (data @ ys) = take (length data) (take (length (data @ ys)) paste_end)" by metis
    also have "\<dots> = take (min (length data) (length (data @ ys))) paste_end" by (simp only: take_take)
    also have "min (length data) (length (data @ ys)) = length data" by simp
    finally have "data = take (length data) paste_end" by simp
    with a again show False by simp
  qed
  show ?thesis
  proof (cases "data ! 0 = 0x1B \<and> length data \<ge> 6 \<and> take 6 data = paste_end")
    case True
    with assms(1) again' b show ?thesis unfolding decode_pasted_def by auto
  next
    case False
    have "\<not> (data ! 0 = 0x1B \<and> length (data @ ys) \<ge> 6 \<and> take 6 (data @ ys) = paste_end)"
    proof
      assume a: "data ! 0 = 0x1B \<and> length (data @ ys) \<ge> 6 \<and> take 6 (data @ ys) = paste_end"
      show False
      proof (cases "length data \<ge> 6")
        case True
        with a False show False by simp
      next
        case short: False
        then have "data = take (length data) paste_end" using a by (metis append_eq_conv_conj min.absorb1 nle_le take_take)
        with a again short show False by simp
      qed
    qed
    with False again again' assms b decode_text_append [OF _ assms(2)] show ?thesis
      unfolding decode_pasted_def by (auto split: if_split_asm)
  qed
qed

lemma decode_append:
  assumes "oi_cli_input_decode d data = (OI_OK, n, ev, d')"
  shows "oi_cli_input_decode d (data @ ys) = (OI_OK, n, ev, d')"
proof -
  have ne: "data \<noteq> []" using assms by (auto simp: oi_cli_input_decode_def)
  then have b: "(data @ ys) ! 0 = data ! 0" by (simp add: nth_append)
  show ?thesis
    using assms ne decode_pasted_append [OF _ ne] decode_escape_append [OF _ ne] decode_text_append [OF _ ne]
    unfolding oi_cli_input_decode_def Let_def b by (auto split: if_split_asm)
qed

section \<open>The events of an input\<close>

text \<open>The loop its callers run over the bytes they hold: the events, the bytes left and the decoder.\<close>

lemma decode_shrinks:
  assumes "(OI_OK, n, ev, d') = oi_cli_input_decode d data"
  shows "length data - n < length data"
  using decode_cases [OF assms [symmetric]] by auto

function input_events ::
  "oi_cli_input_decoder \<Rightarrow> bytes \<Rightarrow> oi_cli_input_event list \<times> bytes \<times> oi_cli_input_decoder" where
  "input_events d data =
     (case oi_cli_input_decode d data of (st, n, ev, d') \<Rightarrow>
        if st \<noteq> OI_OK then ([], data, d')
        else (case input_events d' (drop n data) of (evs, x) \<Rightarrow> (ev # evs, x)))"
  by pat_completeness auto
termination
  by (relation "measure (\<lambda>(d, data). length data)") (auto dest: decode_shrinks)

declare input_events.simps [simp del]

lemma input_events_step:
  "oi_cli_input_decode d data = (OI_OK, n, ev, d') \<Longrightarrow>
   input_events d data = (ev # fst (input_events d' (drop n data)), snd (input_events d' (drop n data)))"
  by (subst input_events.simps) (simp split: prod.split)

lemma input_events_stop:
  "oi_cli_input_decode d data = (st, n, ev, d') \<Longrightarrow> st \<noteq> OI_OK \<Longrightarrow> input_events d data = ([], data, d)"
  using decode_cases [of d data st n ev d'] by (subst input_events.simps) simp

lemma input_events_append:
  "input_events d (xs @ ys) =
     (case input_events d xs of (evs, left, d1) \<Rightarrow> case input_events d1 (left @ ys) of (evs', x) \<Rightarrow> (evs @ evs', x))"
proof (induction d xs rule: input_events.induct)
  case (1 d xs)
  obtain st n ev d' where c: "oi_cli_input_decode d xs = (st, n, ev, d')" by (metis prod_cases4)
  show ?case
  proof (cases "st = OI_OK")
    case True
    note c = c [unfolded True]
    have n: "n \<le> length xs" using decode_cases [OF c] by simp
    have "input_events d' (drop n xs @ ys) = (case input_events d' (drop n xs) of (evs, left, d1) \<Rightarrow>
        case input_events d1 (left @ ys) of (evs', x) \<Rightarrow> (evs @ evs', x))"
      using "1.IH" [OF c [symmetric]] by simp
    with n show ?thesis
      by (simp add: input_events_step [OF c] input_events_step [OF decode_append [OF c]] split: prod.split)
  next
    case False
    then show ?thesis by (simp add: input_events_stop [OF c] split: prod.split)
  qed
qed

lemma input_events_rest: "input_events d data = (evs, left, d') \<Longrightarrow> length left < 6"
proof (induction d data arbitrary: evs rule: input_events.induct)
  case (1 d data)
  obtain st n ev d1 where c: "oi_cli_input_decode d data = (st, n, ev, d1)" by (metis prod_cases4)
  show ?case
  proof (cases "st = OI_OK")
    case True
    note c = c [unfolded True]
    have "snd (input_events d1 (drop n data)) = (left, d')" using "1.prems" by (simp add: input_events_step [OF c])
    then show ?thesis using "1.IH" [OF c [symmetric]] by (metis prod.collapse)
  next
    case False
    with "1.prems" decode_cases [OF c] show ?thesis by (simp add: input_events_stop [OF c])
  qed
qed

lemma input_events_left: "input_events d data = (evs, left, d') \<Longrightarrow> input_events d' left = ([], left, d')"
proof (induction d data arbitrary: evs rule: input_events.induct)
  case (1 d data)
  obtain st n ev d1 where c: "oi_cli_input_decode d data = (st, n, ev, d1)" by (metis prod_cases4)
  show ?case
  proof (cases "st = OI_OK")
    case True
    note c = c [unfolded True]
    have "snd (input_events d1 (drop n data)) = (left, d')" using "1.prems" by (simp add: input_events_step [OF c])
    then show ?thesis using "1.IH" [OF c [symmetric]] by (metis prod.collapse)
  next
    case False
    with "1.prems" input_events_stop [OF c] show ?thesis by auto
  qed
qed

text \<open>Text.\<close>

definition text_event :: "bool \<Rightarrow> nat \<Rightarrow> oi_cli_input_event" where
  "text_event pasted cp = \<lparr>ev_type = INPUT_TEXT, ev_text = utf8_encode cp, ev_pasted = pasted\<rparr>"

lemma decode_text_encode:
  assumes "scalar_value cp"
  shows "decode_text d (utf8_encode cp @ rest) p = (OI_OK, length (utf8_encode cp), text_event p cp, d)"
proof -
  let ?data = "utf8_encode cp @ rest"
  have s: "oi_cli_utf8_sequence_length ?data = Inr (length (utf8_encode cp))" by (rule sequence_length_encode [OF assms])
  have l: "oi_cli_utf8_lead_length (?data ! 0) = Inr (length (utf8_encode cp))" by (rule lead_Inr [OF s])
  have n: "\<not> length ?data < length (utf8_encode cp)" by simp
  define n where "n = length (utf8_encode cp)"
  have "1 \<le> n" unfolding n_def by (rule utf8_encode_length)
  with l n s show ?thesis
    unfolding decode_text_def oi_cli_utf8_lead_length_def Let_def n_def [symmetric] text_event_def
    by (auto simp: n_def split: if_split_asm)
qed

lemma encode_first: "scalar_value cp \<Longrightarrow> b < 0x80 \<Longrightarrow> (utf8_encode cp @ rest) ! 0 = b \<longleftrightarrow> cp = unat b"
proof -
  assume cp: "scalar_value cp" and b: "b < 0x80"
  have "(utf8_encode cp @ rest) ! 0 = hd (utf8_encode cp)" by (simp add: nth_append hd_conv_nth)
  moreover have "hd (utf8_encode cp) = b" if "cp = unat b" using that b by (simp add: utf8_encode_def byte_nat)
  moreover have "cp = unat b" if "hd (utf8_encode cp) = b"
    using that ascii_in_encode [OF cp b] hd_in_set [OF utf8_encode_nonempty, of cp] by simp
  ultimately show ?thesis by metis
qed

lemma decode_pasted_encode:
  assumes "scalar_value cp" and "cp \<noteq> 0" and "cp \<noteq> 27" and "dec_pasting d"
  shows "oi_cli_input_decode d (utf8_encode cp @ rest) = (OI_OK, length (utf8_encode cp), text_event True cp, d)"
  using assms encode_first [OF assms(1), of 0 rest] encode_first [OF assms(1), of "0x1B" rest]
  by (simp add: oi_cli_input_decode_def decode_pasted_def decode_text_encode)

definition pastable :: "nat \<Rightarrow> bool" where
  "pastable cp \<longleftrightarrow> scalar_value cp \<and> cp \<noteq> 0 \<and> cp \<noteq> 27"

lemma pasted_events:
  assumes "\<forall>cp \<in> set cps. pastable cp" and "dec_pasting d"
  shows "input_events d (concat (map utf8_encode cps) @ rest) =
    (map (text_event True) cps @ fst (input_events d rest), snd (input_events d rest))"
  using assms(1)
proof (induction cps)
  case (Cons cp cps)
  then have "oi_cli_input_decode d (utf8_encode cp @ concat (map utf8_encode cps) @ rest)
      = (OI_OK, length (utf8_encode cp), text_event True cp, d)"
    by (intro decode_pasted_encode) (simp_all add: pastable_def assms(2))
  from input_events_step [OF this] Cons show ?case by simp
qed simp

definition paste_begin :: bytes where
  "paste_begin = [0x1B, 0x5B, 0x32, 0x30, 0x30, 0x7E]"

lemma bracketed_paste_events:
  assumes "\<forall>cp \<in> set cps. pastable cp" and "\<not> dec_pasting d"
  shows "input_events d (paste_begin @ concat (map utf8_encode cps) @ paste_end @ rest) =
    (set_simple_event INPUT_PASTE_BEGIN # map (text_event True) cps @ set_simple_event INPUT_PASTE_END # fst (input_events d rest),
     snd (input_events d rest))"
proof -
  let ?d = "d\<lparr>dec_pasting := True\<rparr>"
  have e: "oi_cli_input_decode ?d (paste_end @ rest) = (OI_OK, 6, set_simple_event INPUT_PASTE_END, d)"
    using assms(2) by (simp add: oi_cli_input_decode_def decode_pasted_def paste_end_def)
  have "oi_cli_input_decode d (paste_begin @ r) = (OI_OK, 6, set_simple_event INPUT_PASTE_BEGIN, ?d)" for r
    using assms(2) by (simp add: oi_cli_input_decode_def decode_escape_def escape_mappings_def paste_begin_def Let_def min_def)
  from input_events_step [OF this, of "concat (map utf8_encode cps) @ paste_end @ rest"] pasted_events [OF assms(1), of ?d "paste_end @ rest"] input_events_step [OF e]
  show ?thesis by (simp add: paste_begin_def paste_end_def)
qed

section \<open>Properties\<close>

text \<open>
  How the bytes of the terminal are cut into reads does not matter: decoding a concatenation gives the events
  of the first part, and then those of its undecoded rest followed by the second part. Every event takes at least
  one byte, and never more than five bytes wait for the next read.
\<close>

theorem input_feed_chunks:
  "input_events d (xs @ ys) =
     (case input_events d xs of (evs, left, d1) \<Rightarrow> case input_events d1 (left @ ys) of (evs', x) \<Rightarrow> (evs @ evs', x))
   \<and> length (fst (snd (input_events d xs))) < 6"
  using input_events_append [of d xs ys] input_events_rest [of d xs "fst (input_events d xs)"]
  by (metis prod.collapse)

end
