(* ===== verification/Input_History.thy ===== *)
theory Input_History
  imports Utf8
begin

text \<open>
  \<open>src/cli_input_history.c\<close>: the lines submitted before, and walking through them from a draft. The lengths
  the C code keeps beside each text are the lengths of the lists; \<open>ih_draft = None\<close> is the \<open>NULL\<close> draft.
\<close>

definition history_max_entries :: nat where "history_max_entries = 256"
definition history_max_bytes :: nat where "history_max_bytes = 4194304"

record oi_cli_input_history =
  ih_entries :: "bytes list"
  ih_cap :: nat
  ih_bytes :: nat
  ih_draft :: "bytes option"
  ih_index :: nat
  ih_navigating :: bool
  ih_heap :: heap

definition validate_history_text :: "bytes \<Rightarrow> bool \<Rightarrow> oi_status" where
  "validate_history_text text allow_empty =
     (if \<not> allow_empty \<and> text = [] then OI_ERR_INVAL
      else if length text > history_max_bytes then OI_ERR_INVAL
      else if 0 \<in> set text then OI_ERR_PARSE
      else oi_cli_utf8_validate text)"

definition reset_navigation :: "oi_cli_input_history \<Rightarrow> oi_cli_input_history" where
  "reset_navigation h = h\<lparr>ih_draft := None, ih_index := length (ih_entries h), ih_navigating := False\<rparr>"

definition remove_oldest :: "oi_cli_input_history \<Rightarrow> oi_cli_input_history" where
  "remove_oldest h = h\<lparr>ih_entries := tl (ih_entries h), ih_bytes := ih_bytes h - length (hd (ih_entries h))\<rparr>"

definition reserve_entries :: "oi_cli_input_history \<Rightarrow> oi_status \<times> oi_cli_input_history" where
  "reserve_entries h =
     (if length (ih_entries h) < ih_cap h then (OI_OK, h)
      else let new_cap = min (if ih_cap h = 0 then 16 else ih_cap h * 2) history_max_entries;
               h' = h\<lparr>ih_heap := stl (ih_heap h)\<rparr> in
        if \<not> shd (ih_heap h) then (OI_ERR_NOMEM, h') else (OI_OK, h'\<lparr>ih_cap := new_cap\<rparr>))"

definition oi_cli_input_history_init :: "heap \<Rightarrow> oi_cli_input_history" where
  "oi_cli_input_history_init h = \<lparr>ih_entries = [], ih_cap = 0, ih_bytes = 0, ih_draft = None, ih_index = 0,
     ih_navigating = False, ih_heap = h\<rparr>"

definition oi_cli_input_history_free :: "oi_cli_input_history \<Rightarrow> oi_cli_input_history" where
  "oi_cli_input_history_free h = oi_cli_input_history_init (ih_heap h)"

text \<open>The loop that makes room for a text of \<open>n\<close> bytes.\<close>

function make_room :: "nat \<Rightarrow> oi_cli_input_history \<Rightarrow> oi_cli_input_history" where
  "make_room n h =
     (if ih_entries h \<noteq> [] \<and> (length (ih_entries h) \<ge> history_max_entries \<or> ih_bytes h > history_max_bytes - n)
      then make_room n (remove_oldest h) else h)"
  by pat_completeness auto
termination
  by (relation "measure (\<lambda>(n, h). length (ih_entries h))") (auto simp: remove_oldest_def)

declare make_room.simps [simp del]

definition oi_cli_input_history_append :: "oi_cli_input_history \<Rightarrow> bytes \<Rightarrow> oi_status \<times> oi_cli_input_history" where
  "oi_cli_input_history_append h text =
     (let status = validate_history_text text False in
      if status \<noteq> OI_OK then (status, h)
      else if ih_entries h \<noteq> [] \<and> last (ih_entries h) = text then (OI_OK, reset_navigation h)
      else if \<not> shd (ih_heap h) then (OI_ERR_NOMEM, h\<lparr>ih_heap := stl (ih_heap h)\<rparr>)
      else (case reserve_entries (make_room (length text) (h\<lparr>ih_heap := stl (ih_heap h)\<rparr>)) of
        (status, h') \<Rightarrow>
          if status \<noteq> OI_OK then (status, h')
          else (OI_OK, reset_navigation (h'\<lparr>ih_entries := ih_entries h' @ [text],
                                          ih_bytes := ih_bytes h' + length text\<rparr>))))"

definition oi_cli_input_history_previous ::
  "oi_cli_input_history \<Rightarrow> bytes \<Rightarrow> (oi_status + bytes) \<times> oi_cli_input_history" where
  "oi_cli_input_history_previous h draft =
     (let back = (\<lambda>h. (Inr (ih_entries h ! (ih_index h - 1)), h\<lparr>ih_index := ih_index h - 1\<rparr>)) in
      if ih_entries h = [] \<or> (ih_navigating h \<and> ih_index h = 0) then (Inl OI_ERR_NOTFOUND, h)
      else if ih_navigating h then back h
      else let status = validate_history_text draft True in
        if status \<noteq> OI_OK then (Inl status, h)
        else let h' = h\<lparr>ih_heap := stl (ih_heap h)\<rparr> in
          if \<not> shd (ih_heap h) then (Inl OI_ERR_NOMEM, h')
          else back (h'\<lparr>ih_draft := Some draft, ih_index := length (ih_entries h), ih_navigating := True\<rparr>))"

definition oi_cli_input_history_next :: "oi_cli_input_history \<Rightarrow> (oi_status + bytes) \<times> oi_cli_input_history" where
  "oi_cli_input_history_next h =
     (if \<not> ih_navigating h \<or> ih_index h = length (ih_entries h) then (Inl OI_ERR_NOTFOUND, h)
      else let h' = h\<lparr>ih_index := ih_index h + 1\<rparr> in
        if ih_index h' = length (ih_entries h')
        then (Inr (case ih_draft h' of None \<Rightarrow> [] | Some d \<Rightarrow> d), h')
        else (Inr (ih_entries h' ! ih_index h'), h'))"

section \<open>What is kept\<close>

text \<open>The specification: the longest recent part within the two bounds.\<close>

definition within_bounds :: "bytes list \<Rightarrow> bool" where
  "within_bounds es \<longleftrightarrow> length es \<le> history_max_entries \<and> sum_list (map length es) \<le> history_max_bytes"

fun keep_recent :: "bytes list \<Rightarrow> bytes list" where
  "keep_recent [] = []"
| "keep_recent (e # es) = (if within_bounds (e # es) then e # es else keep_recent es)"

definition history_text :: "bytes \<Rightarrow> bool" where
  "history_text t \<longleftrightarrow> validate_history_text t False = OI_OK"

definition history_ok :: "oi_cli_input_history \<Rightarrow> bool" where
  "history_ok h \<longleftrightarrow> within_bounds (ih_entries h) \<and> length (ih_entries h) \<le> ih_cap h \<and> ih_cap h \<le> history_max_entries
     \<and> ih_bytes h = sum_list (map length (ih_entries h)) \<and> (\<forall>t \<in> set (ih_entries h). history_text t)
     \<and> (if ih_navigating h then ih_index h \<le> length (ih_entries h) \<and> ih_draft h \<noteq> None
        else ih_index h = length (ih_entries h) \<and> ih_draft h = None)"

lemma within_bounds_tl: "within_bounds (e # es) \<Longrightarrow> within_bounds es"
  by (simp add: within_bounds_def)

lemma keep_recent_within: "within_bounds es \<Longrightarrow> keep_recent es = es"
  by (cases es) simp_all

lemma keep_recent_bounds: "within_bounds (keep_recent es)"
  by (induction es) (simp_all add: within_bounds_def)

lemma keep_recent_subset: "set (keep_recent es) \<subseteq> set es"
  by (induction es) auto

lemma keep_recent_snoc: "keep_recent (keep_recent es @ [t]) = keep_recent (es @ [t])"
proof (induction es)
  case (Cons e es)
  show ?case
  proof (cases "within_bounds (e # es)")
    case False
    then have "\<not> within_bounds (e # es @ [t])" by (auto simp: within_bounds_def)
    with False Cons show ?thesis by simp
  qed simp
qed simp

lemma history_text_bounds: "history_text t \<Longrightarrow> t \<noteq> [] \<and> length t \<le> history_max_bytes"
  by (auto simp: history_text_def validate_history_text_def split: if_split_asm)

lemma keep_recent_last:
  "es \<noteq> [] \<Longrightarrow> \<forall>t \<in> set es. history_text t \<Longrightarrow> keep_recent es \<noteq> [] \<and> last (keep_recent es) = last es"
proof (induction es)
  case (Cons e es)
  then show ?case
    by (cases "es = []") (auto simp: within_bounds_def history_max_entries_def dest: history_text_bounds)
qed simp

lemma make_room_keeps:
  assumes "ih_bytes h = sum_list (map length (ih_entries h))" and "length t \<le> history_max_bytes"
  shows "ih_entries (make_room (length t) h) @ [t] = keep_recent (ih_entries h @ [t])
    \<and> ih_bytes (make_room (length t) h) = sum_list (map length (ih_entries (make_room (length t) h)))
    \<and> ih_cap (make_room (length t) h) = ih_cap h \<and> ih_heap (make_room (length t) h) = ih_heap h
    \<and> (make_room (length t) h = h \<and> length (ih_entries h) < history_max_entries
       \<or> length (ih_entries (make_room (length t) h)) < length (ih_entries h))"
  using assms
proof (induction "length t" h rule: make_room.induct)
  case (1 h)
  let ?full = "ih_entries h \<noteq> [] \<and> (length (ih_entries h) \<ge> history_max_entries \<or> ih_bytes h > history_max_bytes - length t)"
  show ?case
  proof (cases ?full)
    case True
    then obtain e es where e: "ih_entries h = e # es" by (cases "ih_entries h") auto
    have r: "ih_entries (remove_oldest h) = es" "ih_cap (remove_oldest h) = ih_cap h" "ih_heap (remove_oldest h) = ih_heap h"
      "ih_bytes (remove_oldest h) = sum_list (map length es)"
      using "1.prems" e by (simp_all add: remove_oldest_def)
    have "\<not> within_bounds (e # es @ [t])"
      using True e "1.prems" by (auto simp: within_bounds_def)
    then have "keep_recent (ih_entries h @ [t]) = keep_recent (es @ [t])" by (simp add: e)
    with "1.hyps" [OF True] "1.prems"(2) r True show ?thesis
      by (subst (1 2 3 4 5 6 7) make_room.simps) (auto simp: e)
  next
    case False
    then have "make_room (length t) h = h" by (subst make_room.simps) (rule if_not_P)
    moreover have "within_bounds (ih_entries h @ [t])"
      using False "1.prems" by (auto simp: within_bounds_def history_max_entries_def)
    moreover have "length (ih_entries h) < history_max_entries" using False by (auto simp: history_max_entries_def)
    ultimately show ?thesis using "1.prems" by (simp add: keep_recent_within)
  qed
qed

lemma append_cases:
  assumes "history_ok h" and "oi_cli_input_history_append h t = (st, h')"
  shows "history_ok h' \<and>
    (if st = OI_OK then history_text t \<and> \<not> ih_navigating h' \<and> ih_entries h' =
       (if ih_entries h \<noteq> [] \<and> last (ih_entries h) = t then ih_entries h else keep_recent (ih_entries h @ [t]))
     else ih_entries h' = ih_entries h \<and> ih_draft h' = ih_draft h \<and> ih_index h' = ih_index h
        \<and> ih_navigating h' = ih_navigating h)"
proof (cases "history_text t")
  case False
  with assms have "st \<noteq> OI_OK \<and> h' = h" by (auto simp: oi_cli_input_history_append_def history_text_def Let_def)
  with assms(1) show ?thesis by simp
next
  case t: True
  then have v: "validate_history_text t False = OI_OK" by (simp add: history_text_def)
  show ?thesis
  proof (cases "ih_entries h \<noteq> [] \<and> last (ih_entries h) = t \<or> \<not> shd (ih_heap h)")
    case True
    with assms t show ?thesis
      by (auto simp: oi_cli_input_history_append_def v reset_navigation_def history_ok_def split: if_split_asm)
  next
    case False
    let ?h = "h\<lparr>ih_heap := stl (ih_heap h)\<rparr>" and ?m = "make_room (length t) (h\<lparr>ih_heap := stl (ih_heap h)\<rparr>)"
    have len: "length t \<le> history_max_bytes" using history_text_bounds [OF t] by simp
    have m: "ih_entries ?m @ [t] = keep_recent (ih_entries h @ [t])" "ih_bytes ?m = sum_list (map length (ih_entries ?m))"
      "ih_cap ?m = ih_cap h" "?m = ?h \<and> length (ih_entries h) < history_max_entries
         \<or> length (ih_entries ?m) < length (ih_entries h)"
      using make_room_keeps [of ?h t] assms(1) len by (simp_all add: history_ok_def)
    have cap: "length (ih_entries h) \<le> ih_cap h" "ih_cap h \<le> history_max_entries" using assms(1) by (simp_all add: history_ok_def)
    obtain st1 h1 where r: "reserve_entries ?m = (st1, h1)" by fastforce
    have same: "ih_entries h1 = ih_entries ?m" "ih_bytes h1 = ih_bytes ?m" "ih_index h1 = ih_index ?m"
        "ih_draft h1 = ih_draft ?m" "ih_navigating h1 = ih_navigating ?m"
      using r by (auto simp: reserve_entries_def Let_def split: if_split_asm)
    show ?thesis
    proof (cases "st1 = OI_OK")
      case True
      have "length (ih_entries ?m) < ih_cap h1 \<and> ih_cap h1 \<le> history_max_entries"
        using r True cap m(3,4) by (auto simp: reserve_entries_def Let_def history_max_entries_def split: if_split_asm)
      moreover have h': "st = OI_OK" "h' = reset_navigation (h1\<lparr>ih_entries := ih_entries h1 @ [t], ih_bytes := ih_bytes h1 + length t\<rparr>)"
        using assms(2) False v r True by (auto simp: oi_cli_input_history_append_def)
      moreover have "\<forall>x \<in> set (ih_entries h @ [t]). history_text x" using assms(1) t by (simp add: history_ok_def)
      then have "\<forall>x \<in> set (ih_entries ?m @ [t]). history_text x"
        unfolding m(1) using keep_recent_subset [of "ih_entries h @ [t]"] by blast
      moreover have "within_bounds (ih_entries ?m @ [t])" unfolding m(1) by (rule keep_recent_bounds)
      ultimately show ?thesis using m(2) t False same
        by (auto simp: history_ok_def reset_navigation_def m(1) [symmetric])
    next
      case st1: False
      then have full: "\<not> length (ih_entries ?m) < ih_cap h" using r m(3) by (auto simp: reserve_entries_def)
      then have m: "?m = ?h" using cap m(4) by linarith
      have "st = st1 \<and> h' = h1" using assms(2) False v r st1 by (auto simp: oi_cli_input_history_append_def)
      moreover have "ih_cap h1 = ih_cap ?m" using r st1 by (auto simp: reserve_entries_def Let_def split: if_split_asm)
      ultimately show ?thesis using st1 same assms(1) unfolding m by (simp add: history_ok_def)
    qed
  qed
qed


lemma previous_cases:
  assumes "history_ok h" and "oi_cli_input_history_previous h d = (x, h')"
  shows "history_ok h' \<and> ih_entries h' = ih_entries h"
  using assms by (auto simp: oi_cli_input_history_previous_def history_ok_def Let_def split: if_split_asm)

lemma next_cases:
  assumes "history_ok h" and "oi_cli_input_history_next h = (x, h')"
  shows "history_ok h' \<and> ih_entries h' = ih_entries h"
  using assms by (auto simp: oi_cli_input_history_next_def history_ok_def Let_def split: if_split_asm)

section \<open>Properties\<close>

datatype history_op = Append bytes | Previous bytes | Next

fun history_step :: "history_op \<Rightarrow> oi_cli_input_history \<Rightarrow> (oi_status + bytes) \<times> oi_cli_input_history" where
  "history_step (Append t) h = (case oi_cli_input_history_append h t of (st, h') \<Rightarrow> (if st = OI_OK then Inr t else Inl st, h'))"
| "history_step (Previous d) h = oi_cli_input_history_previous h d"
| "history_step Next h = oi_cli_input_history_next h"

fun history_run :: "history_op list \<Rightarrow> oi_cli_input_history \<Rightarrow> (history_op \<times> (oi_status + bytes)) list \<times> oi_cli_input_history" where
  "history_run [] h = ([], h)"
| "history_run (op # ops) h =
     (case history_step op h of (x, h') \<Rightarrow> case history_run ops h' of (log, h'') \<Rightarrow> ((op, x) # log, h''))"

fun accepted_texts :: "(history_op \<times> (oi_status + bytes)) list \<Rightarrow> bytes list" where
  "accepted_texts [] = []"
| "accepted_texts ((Append _, Inr t) # log) = t # accepted_texts log"
| "accepted_texts (_ # log) = accepted_texts log"

lemma remdups_adj_snoc: "remdups_adj (xs @ [t]) = (if xs \<noteq> [] \<and> last xs = t then remdups_adj xs else remdups_adj xs @ [t])"
  by (induction xs rule: remdups_adj.induct) auto

lemma history_run_ok:
  assumes "history_ok h" and "ih_entries h = keep_recent (remdups_adj ts)" and "\<forall>t \<in> set ts. history_text t"
    and "history_run ops h = (log, h')"
  shows "history_ok h' \<and> ih_entries h' = keep_recent (remdups_adj (ts @ accepted_texts log))"
  using assms
proof (induction ops arbitrary: h ts log)
  case (Cons op ops)
  obtain x h1 where s: "history_step op h = (x, h1)" by fastforce
  obtain log1 where l: "history_run ops h1 = (log1, h')" "log = (op, x) # log1"
    using Cons.prems(4) s by (auto split: prod.splits)
  show ?case
  proof (cases "\<exists>t. op = Append t \<and> x = Inr t")
    case True
    then obtain t where t: "op = Append t" "x = Inr t" by blast
    then have "oi_cli_input_history_append h t = (OI_OK, h1)" using s by (auto split: prod.splits if_split_asm)
    note a = append_cases [OF Cons.prems(1) this]
    have all_ok: "\<forall>t \<in> set (remdups_adj ts). history_text t" using Cons.prems(3) by simp
    have "ih_entries h1 = keep_recent (remdups_adj (ts @ [t]))"
    proof (cases "ts = []")
      case True
      with a Cons.prems(2) show ?thesis by simp
    next
      case False
      then have "last (ih_entries h) = last ts \<and> ih_entries h \<noteq> []"
        using keep_recent_last [OF _ all_ok] Cons.prems(2) by simp
      with a False Cons.prems(2) show ?thesis by (auto simp: remdups_adj_snoc keep_recent_snoc)
    qed
    with Cons.IH [OF _ _ _ l(1), of "ts @ [t]"] a Cons.prems(3) l(2) t show ?thesis by simp
  next
    case False
    have "history_ok h1 \<and> ih_entries h1 = ih_entries h"
    proof (cases op)
      case (Append t)
      with s False obtain st where "oi_cli_input_history_append h t = (st, h1)" "st \<noteq> OI_OK" by (auto split: prod.splits if_split_asm)
      with append_cases [OF Cons.prems(1) this(1)] show ?thesis by simp
    next
      case (Previous d)
      with s previous_cases [OF Cons.prems(1), of d x h1] show ?thesis by simp
    next
      case Next
      with s next_cases [OF Cons.prems(1), of x h1] show ?thesis by simp
    qed
    moreover have "accepted_texts log = accepted_texts log1"
    proof (cases op)
      case (Append t)
      with False s obtain st where "x = Inl st" by (auto split: prod.splits if_split_asm)
      with Append l(2) show ?thesis by simp
    qed (simp_all add: l(2))
    ultimately show ?thesis using Cons.IH [OF _ _ Cons.prems(3) l(1)] Cons.prems(2) by simp
  qed
qed simp

lemma history_run_append:
  "history_run (xs @ ys) h = (case history_run xs h of (log, h') \<Rightarrow> case history_run ys h' of (log', h'') \<Rightarrow> (log @ log', h''))"
  by (induction xs arbitrary: h) (auto split: prod.splits)

lemma walk_back:
  "ih_navigating h \<Longrightarrow> ih_entries h \<noteq> [] \<Longrightarrow> j \<le> ih_index h \<Longrightarrow>
   \<exists>log. history_run (replicate j (Previous d)) h = (log, h\<lparr>ih_index := ih_index h - j\<rparr>)
     \<and> map snd log = map (\<lambda>i. Inr (ih_entries h ! (ih_index h - 1 - i))) [0..<j]"
proof (induction j arbitrary: h)
  case (Suc j)
  let ?h = "h\<lparr>ih_index := ih_index h - 1\<rparr>"
  have s: "history_step (Previous d) h = (Inr (ih_entries h ! (ih_index h - 1)), ?h)"
    using Suc.prems by (simp add: oi_cli_input_history_previous_def Let_def)
  obtain log where log: "history_run (replicate j (Previous d)) ?h = (log, ?h\<lparr>ih_index := ih_index ?h - j\<rparr>)"
    "map snd log = map (\<lambda>i. Inr (ih_entries ?h ! (ih_index ?h - 1 - i))) [0..<j]"
    using Suc.IH [of ?h] Suc.prems by fastforce
  show ?case
    by (rule exI [of _ "(Previous d, Inr (ih_entries h ! (ih_index h - 1))) # log"])
      (use log in \<open>simp add: s map_upt_Suc del: upt_Suc history_step.simps\<close>)
qed simp

lemma walk_forward:
  "ih_navigating h \<Longrightarrow> ih_draft h = Some d \<Longrightarrow> ih_index h + j \<le> length (ih_entries h) \<Longrightarrow>
   \<exists>log. history_run (replicate j Next) h = (log, h\<lparr>ih_index := ih_index h + j\<rparr>)
     \<and> map snd log = map (\<lambda>i. Inr ((ih_entries h @ [d]) ! (ih_index h + 1 + i))) [0..<j]"
proof (induction j arbitrary: h)
  case (Suc j)
  let ?h = "h\<lparr>ih_index := ih_index h + 1\<rparr>"
  have s: "history_step Next h = (Inr ((ih_entries h @ [d]) ! (ih_index h + 1)), ?h)"
    using Suc.prems by (simp add: oi_cli_input_history_next_def Let_def nth_append)
  obtain log where log: "history_run (replicate j Next) ?h = (log, ?h\<lparr>ih_index := ih_index ?h + j\<rparr>)"
    "map snd log = map (\<lambda>i. Inr ((ih_entries ?h @ [d]) ! (ih_index ?h + 1 + i))) [0..<j]"
    using Suc.IH [of ?h] Suc.prems by auto
  show ?case
    by (rule exI [of _ "(Next, Inr ((ih_entries h @ [d]) ! (ih_index h + 1))) # log"])
      (use log in \<open>simp add: s map_upt_Suc del: upt_Suc history_step.simps\<close>)
qed simp

lemma rev_nth_map: "k \<le> length xs \<Longrightarrow> map (\<lambda>i. xs ! (length xs - 1 - i)) [0..<k] = rev (drop (length xs - k) xs)"
  by (rule nth_equalityI) (auto simp: rev_nth)

lemma walk_history:
  assumes "history_ok h" and "\<not> ih_navigating h" and "validate_history_text d True = OI_OK" and "shd (ih_heap h)"
    and "0 < k" and "k \<le> length (ih_entries h)"
  shows "map snd (fst (history_run (replicate k (Previous d) @ replicate k Next) h)) =
    map Inr (rev (drop (length (ih_entries h) - k) (ih_entries h)) @ tl (drop (length (ih_entries h) - k) (ih_entries h)) @ [d])"
proof -
  let ?n = "length (ih_entries h)" and ?es = "ih_entries h"
  let ?h = "h\<lparr>ih_heap := stl (ih_heap h), ih_draft := Some d, ih_index := ?n - 1, ih_navigating := True\<rparr>"
  obtain j where k: "k = Suc j" using assms(5) by (cases k) auto
  have k_le: "j \<le> ?n - 1" "?es \<noteq> []" using assms(6) k by auto
  have s: "history_step (Previous d) h = (Inr (?es ! (?n - 1)), ?h)"
    using assms by (auto simp: oi_cli_input_history_previous_def Let_def)
  obtain bk where bk: "history_run (replicate j (Previous d)) ?h = (bk, ?h\<lparr>ih_index := ?n - 1 - j\<rparr>)"
    "map snd bk = map (\<lambda>i. Inr (?es ! (?n - 1 - 1 - i))) [0..<j]"
    using walk_back [of ?h j d] k_le by fastforce
  let ?h2 = "?h\<lparr>ih_index := ?n - k\<rparr>"
  obtain fwd where fwd: "history_run (replicate k Next) ?h2 = (fwd, ?h2\<lparr>ih_index := ?n - k + k\<rparr>)"
    "map snd fwd = map (\<lambda>i. Inr ((?es @ [d]) ! (?n - k + 1 + i))) [0..<k]"
    using walk_forward [of ?h2 d k] assms(6) by auto
  have "map snd (fst (history_run (replicate k (Previous d) @ replicate k Next) h))
    = map Inr (map (\<lambda>i. ?es ! (?n - 1 - i)) [0..<k]) @ map Inr (map (\<lambda>i. (?es @ [d]) ! (?n - k + 1 + i)) [0..<k])"
    using bk fwd by (simp add: history_run_append k s map_upt_Suc del: upt_Suc history_step.simps)
  also have "map (\<lambda>i. (?es @ [d]) ! (?n - k + 1 + i)) [0..<k] = drop (Suc (?n - k)) (?es @ [d])"
    by (rule nth_equalityI) (use assms(5,6) in \<open>auto simp del: drop_append\<close>)
  also have "\<dots> = tl (drop (?n - k) ?es) @ [d]"
    using assms(5,6) by (simp add: drop_Suc tl_drop)
  also note rev_nth_map [OF assms(6)]
  finally show ?thesis by simp
qed


lemma history_init_ok: "history_ok (oi_cli_input_history_init h)"
  by (simp add: history_ok_def oi_cli_input_history_init_def within_bounds_def)

text \<open>
  C36. The history holds the longest recent part of what was submitted that has at most 256 entries and 4 MiB,
  immediate repetitions counted once: after any submissions and walks from a new history, whatever texts are
  given and however the allocator behaves. A submission that is refused (empty, too long, with a NUL, not UTF-8,
  no memory) changes nothing, the counted bytes are the bytes of the entries, and the array has room for them.
\<close>

theorem history_keeps_recent:
  "case history_run ops (oi_cli_input_history_init heap) of (log, h) \<Rightarrow>
     ih_entries h = keep_recent (remdups_adj (accepted_texts log))
   \<and> ih_bytes h = sum_list (map length (ih_entries h)) \<and> ih_bytes h \<le> history_max_bytes
   \<and> length (ih_entries h) \<le> ih_cap h \<and> ih_cap h \<le> history_max_entries"
proof -
  obtain log h where r: "history_run ops (oi_cli_input_history_init heap) = (log, h)" by fastforce
  have "ih_entries (oi_cli_input_history_init heap) = keep_recent (remdups_adj [])" by (simp add: oi_cli_input_history_init_def)
  from history_run_ok [OF history_init_ok this _ r] have ok: "history_ok h"
    and e: "ih_entries h = keep_recent (remdups_adj (accepted_texts log))" by simp_all
  from ok have "ih_bytes h = sum_list (map length (ih_entries h)) \<and> ih_bytes h \<le> history_max_bytes
      \<and> length (ih_entries h) \<le> ih_cap h \<and> ih_cap h \<le> history_max_entries"
    by (simp add: history_ok_def within_bounds_def)
  with e show ?thesis unfolding r prod.case by blast
qed

text \<open>
  Walking the history: from a draft, \<open>k\<close> steps back give the last \<open>k\<close> entries, newest first, and \<open>k\<close>
  steps forward give them in order and then the draft as it was.
\<close>

theorem history_walk_returns_draft:
  assumes "history_run ops (oi_cli_input_history_init heap) = (log, h)" and "\<not> ih_navigating h"
    and "validate_history_text d True = OI_OK" and "shd (ih_heap h)" and "0 < k" and "k \<le> length (ih_entries h)"
  shows "map snd (fst (history_run (replicate k (Previous d) @ replicate k Next) h)) =
    map Inr (rev (drop (length (ih_entries h) - k) (ih_entries h)) @ tl (drop (length (ih_entries h) - k) (ih_entries h)) @ [d])"
proof -
  have "ih_entries (oi_cli_input_history_init heap) = keep_recent (remdups_adj [])" by (simp add: oi_cli_input_history_init_def)
  with history_run_ok [OF history_init_ok _ _ assms(1), of "[]"] have "history_ok h" by simp
  from walk_history [OF this assms(2-)] show ?thesis .
qed

theorem history_walk_returns_draft_witness:
  "map snd (fst (history_run [Previous [0x64], Previous [0x64], Next, Next]
     (snd (history_run [Append [0x61], Append [0x62]] (oi_cli_input_history_init heap_ok)))))
   = [Inr [0x62], Inr [0x61], Inr [0x62], Inr [0x64]]"
proof -
  let ?r = "history_run [Append [0x61], Append [0x62]] (oi_cli_input_history_init heap_ok)"
  let ?h = "snd ?r"
  have v: "validate_history_text [b] e = OI_OK" if "b = 0x61 \<or> b = 0x62 \<or> b = 0x64" for b e
    using that validate_text [OF ascii_text, of "[b]"] by (auto simp: validate_history_text_def history_max_bytes_def)
  have h: "ih_entries ?h = [[0x61], [0x62]]" "\<not> ih_navigating ?h" "shd (ih_heap ?h)"
    by (simp_all add: oi_cli_input_history_append_def oi_cli_input_history_init_def Let_def v reserve_entries_def
        make_room.simps remove_oldest_def reset_navigation_def history_max_entries_def history_max_bytes_def)
  have "?r = (fst ?r, ?h)" by simp
  from history_walk_returns_draft [OF this h(2) v [of "0x64" True] h(3), of 2] h(1) show ?thesis
    by (simp add: numeral_2_eq_2 del: history_run.simps)
qed

end
