(* ===== verification/Commands.thy ===== *)
theory Commands
  imports Prelude
begin

text \<open>
  \<open>src/cli_commands.c\<close>: the slash commands, which of them a beginning matches, and how a submitted line is
  taken apart. A command is referred to by its index in the table, as in the C code.
\<close>

datatype oi_cli_command_id = COMMAND_HELP | COMMAND_EXIT | COMMAND_SESSION | COMMAND_MODEL | COMMAND_PERMISSIONS
  | COMMAND_STATUS | COMMAND_COMPACT | COMMAND_CWD

datatype oi_cli_command_scope = READ_ONLY | PROCESS_SCOPED | SESSION_SCOPED

record oi_cli_command_definition =
  cmd_id :: oi_cli_command_id
  cmd_name :: bytes
  cmd_usage :: bytes
  cmd_description :: bytes
  cmd_scope :: oi_cli_command_scope

definition command :: "oi_cli_command_id \<Rightarrow> string \<Rightarrow> string \<Rightarrow> string \<Rightarrow> oi_cli_command_scope \<Rightarrow> oi_cli_command_definition" where
  "command i name usage description scope = \<lparr>cmd_id = i, cmd_name = bytes_of name, cmd_usage = bytes_of usage,
     cmd_description = bytes_of description, cmd_scope = scope\<rparr>"

definition commands :: "oi_cli_command_definition list" where
  "commands =
    [command COMMAND_HELP ''/help'' ''/help'' ''Show commands and key bindings'' READ_ONLY,
     command COMMAND_EXIT ''/exit'' ''/exit'' ''Exit after the current safe boundary'' PROCESS_SCOPED,
     command COMMAND_SESSION ''/session'' ''/session [list|current|switch|...]''
       ''List, switch, rename, trash, restore, or import sessions'' SESSION_SCOPED,
     command COMMAND_MODEL ''/model'' ''/model [name]'' ''Show or change the session model'' SESSION_SCOPED,
     command COMMAND_PERMISSIONS ''/permissions'' ''/permissions [ask|allow|deny]''
       ''Show or change tool permissions'' PROCESS_SCOPED,
     command COMMAND_STATUS ''/status'' ''/status'' ''Show current runtime and session status'' READ_ONLY,
     command COMMAND_COMPACT ''/compact'' ''/compact [turns]'' ''Compact older model context'' SESSION_SCOPED,
     command COMMAND_CWD ''/cwd'' ''/cwd [path]'' ''Show or change the session working directory'' SESSION_SCOPED]"

definition is_space :: "byte \<Rightarrow> bool" where
  "is_space b \<longleftrightarrow> b = 0x20 \<or> b = 0x09 \<or> b = 0x0D \<or> b = 0x0A"

definition oi_cli_command_count :: nat where
  "oi_cli_command_count = length commands"

definition oi_cli_command_at :: "nat \<Rightarrow> oi_cli_command_definition option" where
  "oi_cli_command_at i = (if i < oi_cli_command_count then Some (commands ! i) else None)"

text \<open>The number of matches, and the indices written into an array of \<open>capacity\<close>.\<close>

definition oi_cli_command_filter :: "bytes \<Rightarrow> nat \<Rightarrow> nat \<times> nat list" where
  "oi_cli_command_filter text capacity =
     (if text = [] \<or> text ! 0 \<noteq> 0x2F \<or> (length text > 1 \<and> text ! 1 = 0x2F) then (0, [])
      else if list_ex is_space text then (0, [])
      else let matching = filter (\<lambda>i. length text \<le> length (cmd_name (commands ! i))
                                    \<and> take (length text) (cmd_name (commands ! i)) = text) [0..<oi_cli_command_count]
        in (length matching, take capacity matching))"

datatype oi_cli_command_parse_kind = PARSE_MESSAGE | PARSE_LITERAL_SLASH | PARSE_COMMAND | PARSE_UNKNOWN

record oi_cli_command_parse =
  parse_kind :: oi_cli_command_parse_kind
  parse_command :: "oi_cli_command_definition option"
  parse_arguments :: "bytes option"

definition oi_cli_command_parse_text :: "bytes \<Rightarrow> oi_cli_command_parse" where
  "oi_cli_command_parse_text text =
     (if text = [] \<or> text ! 0 \<noteq> 0x2F
      then \<lparr>parse_kind = PARSE_MESSAGE, parse_command = None, parse_arguments = None\<rparr>
      else if length text > 1 \<and> text ! 1 = 0x2F
      then \<lparr>parse_kind = PARSE_LITERAL_SLASH, parse_command = None, parse_arguments = Some (drop 1 text)\<rparr>
      else let token = takeWhile (\<lambda>b. \<not> is_space b) text in
        (case find (\<lambda>c. cmd_name c = token) commands of
           None \<Rightarrow> \<lparr>parse_kind = PARSE_UNKNOWN, parse_command = None, parse_arguments = None\<rparr>
         | Some c \<Rightarrow>
             let from_arguments = dropWhile is_space (drop (length token) text);
                 arguments = rev (dropWhile is_space (rev from_arguments)) in
             \<lparr>parse_kind = PARSE_COMMAND, parse_command = Some c, parse_arguments = Some arguments\<rparr>))"

section \<open>The table\<close>

lemma names: "map cmd_name commands = map bytes_of [''/help'', ''/exit'', ''/session'', ''/model'', ''/permissions'', ''/status'', ''/compact'', ''/cwd'']"
  by (simp add: commands_def command_def)

lemma command_count [simp]: "oi_cli_command_count = 8"
  by (simp add: oi_cli_command_count_def commands_def)

lemma names_ok: "list_all (\<lambda>n. n \<noteq> [] \<and> n ! 0 = 0x2F \<and> length n > 1 \<and> n ! 1 \<noteq> 0x2F \<and> \<not> list_ex is_space n \<and> length n \<le> 12
    \<and> list_all (\<lambda>b. b < 0x80 \<and> b \<noteq> 0) n) (map cmd_name commands)"
  unfolding names by (simp add: bytes_of_def is_space_def)

lemma names_distinct: "distinct (map cmd_name commands)"
  unfolding names by (simp add: bytes_of_def)

lemma command_name:
  assumes "c \<in> set commands"
  shows "cmd_name c \<noteq> []" "cmd_name c ! 0 = 0x2F" "length (cmd_name c) > 1" "cmd_name c ! 1 \<noteq> 0x2F" "\<not> list_ex is_space (cmd_name c)"
    "length (cmd_name c) \<le> 12" "list_all (\<lambda>b. b < 0x80 \<and> b \<noteq> 0) (cmd_name c)"
  using names_ok assms by (simp_all add: list_all_iff)

lemma find_command: "c \<in> set commands \<Longrightarrow> find (\<lambda>x. cmd_name x = cmd_name c) commands = Some c"
proof -
  assume c: "c \<in> set commands"
  then obtain x where x: "find (\<lambda>x. cmd_name x = cmd_name c) commands = Some x"
    by (metis (mono_tags, lifting) find_None_iff not_Some_eq)
  then have "x \<in> set commands" "cmd_name x = cmd_name c" by (auto simp: find_Some_iff)
  then have "x = c" using names_distinct c by (simp add: distinct_map inj_on_def)
  with x show ?thesis by simp
qed

section \<open>Properties\<close>

lemma filter_guards:
  assumes "text \<noteq> []" and "c \<in> set commands" and "take (length text) (cmd_name c) = text"
  shows "text ! 0 = 0x2F" and "\<not> (length text > 1 \<and> text ! 1 = 0x2F)" and "\<not> list_ex is_space text"
    and "length text \<le> length (cmd_name c)"
proof -
  note c = command_name [OF assms(2)]
  have n: "text ! i = cmd_name c ! i" if "i < length text" for i
    using assms(3) that by (metis nth_take)
  show "text ! 0 = 0x2F" using n [of 0] c(2) assms(1) by simp
  show "\<not> (length text > 1 \<and> text ! 1 = 0x2F)" using n [of 1] c(4) by auto
  show "\<not> list_ex is_space text" using assms(3) c(5) by (metis in_set_takeD list_ex_iff)
  show "length text \<le> length (cmd_name c)" using assms(3) by (metis length_take min.cobounded1)
qed

lemma filter_prefixes:
  "oi_cli_command_filter text 8 =
     (let matching = filter (\<lambda>i. text \<noteq> [] \<and> take (length text) (cmd_name (commands ! i)) = text) [0..<8]
      in (length matching, matching))"
proof -
  let ?m = "filter (\<lambda>i. text \<noteq> [] \<and> take (length text) (cmd_name (commands ! i)) = text) [0..<8]"
  have mem: "commands ! i \<in> set commands" if "i < 8" for i
    using that command_count by (simp add: oi_cli_command_count_def del: command_count)
  show ?thesis
  proof (cases "text = [] \<or> text ! 0 \<noteq> 0x2F \<or> (length text > 1 \<and> text ! 1 = 0x2F) \<or> list_ex is_space text")
    case True
    have "?m = []"
      using True filter_guards [OF _ mem] by (auto simp: filter_empty_conv)
    moreover have "oi_cli_command_filter text 8 = (0, [])" using True unfolding oi_cli_command_filter_def by (cases "text = [] \<or> text ! 0 \<noteq> 0x2F \<or> (length text > 1 \<and> text ! 1 = 0x2F)") auto
    ultimately show ?thesis by (simp add: Let_def)
  next
    case False
    have "filter (\<lambda>i. length text \<le> length (cmd_name (commands ! i)) \<and> take (length text) (cmd_name (commands ! i)) = text) [0..<8] = ?m"
      using False filter_guards(4) [OF _ mem] by (auto intro!: filter_cong)
    moreover have "length ?m \<le> 8" by (rule order_trans [OF length_filter_le]) simp
    ultimately show ?thesis using False unfolding oi_cli_command_filter_def
      by (subst if_not_P, blast, subst if_not_P, blast) (simp add: Let_def)
  qed
qed

text \<open>
  The menu offers, in the order of the table, exactly the commands whose name starts with what has been
  typed, and nothing when nothing has: the guards of the code (a second slash, a space) exclude no command.
\<close>

theorem command_filter_prefixes:
  "oi_cli_command_filter text 8 =
     (let matching = filter (\<lambda>i. text \<noteq> [] \<and> take (length text) (cmd_name (commands ! i)) = text) [0..<8]
      in (length matching, matching))"
  by (rule filter_prefixes)

text \<open>
  A submitted line of a command's name, then blanks, arguments that neither begin nor end with a blank, and
  blanks, is that command with exactly those arguments.
\<close>

theorem command_line_parsed:
  assumes "c \<in> set commands" and "list_all is_space before" and "list_all is_space after"
    and "arguments \<noteq> [] \<Longrightarrow> before \<noteq> [] \<and> \<not> is_space (hd arguments) \<and> \<not> is_space (last arguments)"
  shows "oi_cli_command_parse_text (cmd_name c @ before @ arguments @ after) =
    \<lparr>parse_kind = PARSE_COMMAND, parse_command = Some c, parse_arguments = Some arguments\<rparr>"
proof -
  note c = command_name [OF assms(1)]
  let ?rest = "before @ arguments @ after" and ?text = "cmd_name c @ before @ arguments @ after"
  have first: "\<not> (?text = [] \<or> ?text ! 0 \<noteq> 0x2F)" "\<not> (length ?text > 1 \<and> ?text ! 1 = 0x2F)"
    using c(1-4) by (simp_all add: nth_append)
  have blank: "?rest = [] \<or> is_space (hd ?rest)"
    using assms(2-4) by (cases before; cases arguments; cases after) auto
  have token: "takeWhile (\<lambda>b. \<not> is_space b) ?text = cmd_name c"
  proof -
    have "takeWhile (\<lambda>b. \<not> is_space b) ?rest = []" using blank by (cases ?rest) auto
    moreover have "\<And>b. b \<in> set (cmd_name c) \<Longrightarrow> \<not> is_space b" using c(5) by (simp add: list_ex_iff)
    ultimately show ?thesis by (simp add: takeWhile_append2)
  qed
  have drops: "dropWhile is_space (bs @ xs) = dropWhile is_space xs" if "list_all is_space bs" for bs xs
    using that by (induction bs) auto
  have kept: "dropWhile is_space xs = xs" if "xs = [] \<or> \<not> is_space (hd xs)" for xs
    using that by (cases xs) auto
  have "rev (dropWhile is_space (rev (dropWhile is_space ?rest))) = arguments"
  proof (cases "arguments = []")
    case True
    have "dropWhile is_space (before @ after) = []" using assms(2,3) by (simp add: list_all_iff)
    with True show ?thesis by (simp del: dropWhile_eq_Nil_conv)
  next
    case False
    have "dropWhile is_space ?rest = arguments @ after"
      using drops [OF assms(2)] kept [of "arguments @ after"] assms(4) False by simp
    moreover have "dropWhile is_space (rev after @ rev arguments) = rev arguments"
      using drops [of "rev after" "rev arguments"] kept [of "rev arguments"] assms(3,4) False by (simp add: hd_rev)
    ultimately show ?thesis by simp
  qed
  with first token find_command [OF assms(1)] show ?thesis
    by (simp add: oi_cli_command_parse_text_def Let_def)
qed

theorem command_line_parsed_witness:
  "oi_cli_command_parse_text (bytes_of ''/cwd  a b '') =
    \<lparr>parse_kind = PARSE_COMMAND, parse_command = Some (commands ! 7), parse_arguments = Some (bytes_of ''a b'')\<rparr>"
proof -
  have "commands ! 7 \<in> set commands" by (simp add: commands_def)
  moreover have "list_all is_space (bytes_of ''  '')" "list_all is_space (bytes_of '' '')"
    by (simp_all add: bytes_of_def is_space_def)
  moreover have "bytes_of ''  '' \<noteq> [] \<and> \<not> is_space (hd (bytes_of ''a b'')) \<and> \<not> is_space (last (bytes_of ''a b''))"
    by (simp add: bytes_of_def is_space_def)
  ultimately have "oi_cli_command_parse_text (cmd_name (commands ! 7) @ bytes_of ''  '' @ bytes_of ''a b'' @ bytes_of '' '') =
    \<lparr>parse_kind = PARSE_COMMAND, parse_command = Some (commands ! 7), parse_arguments = Some (bytes_of ''a b'')\<rparr>"
    by (rule command_line_parsed)
  moreover have "cmd_name (commands ! 7) @ bytes_of ''  '' @ bytes_of ''a b'' @ bytes_of '' '' = bytes_of ''/cwd  a b ''"
    by (simp add: commands_def command_def bytes_of_def)
  ultimately show ?thesis by simp
qed

end
