(* ===== verification/Selector.thy ===== *)
theory Selector
  imports Input
begin

text \<open>
  \<open>src/cli_selector.c\<close>: choosing one of some options with the arrow keys, Enter, Escape or a digit. An answer is
  the status, the selected option and the action.
\<close>

datatype oi_cli_selector_action = SELECTOR_NONE | SELECTOR_REDRAW | SELECTOR_CONFIRM | SELECTOR_CANCEL

definition oi_cli_selector_apply ::
  "oi_cli_input_event \<Rightarrow> nat \<Rightarrow> nat \<Rightarrow> oi_status \<times> nat \<times> oi_cli_selector_action" where
  "oi_cli_selector_apply ev option_count selected =
     (if option_count = 0 \<or> selected \<ge> option_count then (OI_ERR_INVAL, selected, SELECTOR_NONE)
      else (case ev_type ev of
          INPUT_UP \<Rightarrow>
            if option_count > 1 then (OI_OK, if selected = 0 then option_count - 1 else selected - 1, SELECTOR_REDRAW)
            else (OI_OK, selected, SELECTOR_NONE)
        | INPUT_DOWN \<Rightarrow>
            if option_count > 1 then (OI_OK, (selected + 1) mod option_count, SELECTOR_REDRAW)
            else (OI_OK, selected, SELECTOR_NONE)
        | INPUT_ENTER \<Rightarrow> (OI_OK, selected, SELECTOR_CONFIRM)
        | INPUT_ESCAPE \<Rightarrow> (OI_OK, selected, SELECTOR_CANCEL)
        | INPUT_CTRL_C \<Rightarrow> (OI_OK, selected, SELECTOR_CANCEL)
        | INPUT_TEXT \<Rightarrow>
            if length (ev_text ev) = 1 \<and> 0x31 \<le> ev_text ev ! 0 \<and> ev_text ev ! 0 \<le> 0x39
               \<and> unat (ev_text ev ! 0 - 0x31) < option_count
            then (OI_OK, unat (ev_text ev ! 0 - 0x31), SELECTOR_CONFIRM)
            else (OI_OK, selected, SELECTOR_NONE)
        | _ \<Rightarrow> (OI_OK, selected, SELECTOR_NONE)))"

text \<open>The selection stays one of the options, and going up undoes going down.\<close>

lemma selector_in_range:
  "selected < option_count \<Longrightarrow> oi_cli_selector_apply ev option_count selected = (st, selected', a) \<Longrightarrow>
   st = OI_OK \<and> selected' < option_count"
  by (auto simp: oi_cli_selector_apply_def split: oi_cli_input_event_type.splits if_split_asm)

lemma selector_up_down:
  assumes "selected < option_count" and "ev_type up = INPUT_UP" and "ev_type down = INPUT_DOWN"
  shows "fst (snd (oi_cli_selector_apply up option_count (fst (snd (oi_cli_selector_apply down option_count selected))))) = selected"
proof (cases "selected + 1 = option_count")
  case True
  with assms show ?thesis by (auto simp: oi_cli_selector_apply_def)
next
  case False
  with assms(1) have "(selected + 1) mod option_count = selected + 1" by (intro mod_less) simp
  with assms False show ?thesis by (auto simp: oi_cli_selector_apply_def)
qed

end
