(* ===== verification/Prompt_State.thy ===== *)
theory Prompt_State
  imports Editor Input Input_History Commands
begin

text \<open>
  \<open>src/cli_prompt_state.c\<close>: what the keys do at the prompt. The state owns the editor and, for as long as it
  lives, the history it was given. \<open>command_match_count\<close> is the length of \<open>ps_matches\<close>; an answer is the status,
  the action for the caller and the new state.
\<close>

datatype oi_cli_prompt_action = PROMPT_NONE | PROMPT_REDRAW | PROMPT_SUBMIT | PROMPT_EXIT

record oi_cli_prompt_state =
  ps_editor :: oi_cli_editor
  ps_history :: oi_cli_input_history
  ps_pasting :: bool
  ps_matches :: "nat list"
  ps_selection :: nat
  ps_heap :: heap

type_synonym applied = "oi_status \<times> oi_cli_prompt_action \<times> oi_cli_prompt_state"

definition refresh_commands :: "oi_cli_prompt_state \<Rightarrow> oi_cli_prompt_state" where
  "refresh_commands s =
     (let matches = snd (oi_cli_command_filter (ed_data (ps_editor s)) 8) in
      s\<lparr>ps_matches := matches, ps_selection := (if ps_selection s \<ge> length matches then 0 else ps_selection s)\<rparr>)"

definition complete_selected_command :: "oi_cli_prompt_state \<Rightarrow> oi_status \<times> oi_cli_prompt_state" where
  "complete_selected_command s =
     (if ps_matches s = [] then (OI_ERR_NOTFOUND, s)
      else (case oi_cli_command_at (ps_matches s ! ps_selection s) of
          None \<Rightarrow> (OI_ERR_INVAL, s)
        | Some c \<Rightarrow>
            (case oi_cli_editor_set (ps_editor s) (cmd_name c) of (st, e) \<Rightarrow>
               if st \<noteq> OI_OK then (st, s\<lparr>ps_editor := e\<rparr>)
               else (case oi_cli_editor_insert e [0x20] of (st, e') \<Rightarrow>
                 if st \<noteq> OI_OK then (st, s\<lparr>ps_editor := e'\<rparr>)
                 else (OI_OK, refresh_commands (s\<lparr>ps_editor := e'\<rparr>))))))"

definition apply_history :: "oi_cli_prompt_state \<Rightarrow> bool \<Rightarrow> applied" where
  "apply_history s previous =
     (case (if previous then oi_cli_input_history_previous (ps_history s) (ed_data (ps_editor s))
            else oi_cli_input_history_next (ps_history s)) of
        (Inl OI_ERR_NOTFOUND, h) \<Rightarrow> (OI_OK, PROMPT_NONE, s\<lparr>ps_history := h\<rparr>)
      | (Inl st, h) \<Rightarrow> (st, PROMPT_NONE, s\<lparr>ps_history := h\<rparr>)
      | (Inr text, h) \<Rightarrow>
          (case oi_cli_editor_set (ps_editor s) text of (st, e) \<Rightarrow>
             let s' = s\<lparr>ps_history := h, ps_editor := e\<rparr> in
             if st = OI_OK then (OI_OK, PROMPT_REDRAW, refresh_commands s') else (st, PROMPT_NONE, s')))"

definition oi_cli_prompt_state_init :: "oi_cli_input_history \<Rightarrow> heap \<Rightarrow> heap \<Rightarrow> oi_cli_prompt_state" where
  "oi_cli_prompt_state_init history editor_heap h =
     \<lparr>ps_editor = oi_cli_editor_init editor_heap, ps_history = history, ps_pasting = False, ps_matches = [],
      ps_selection = 0, ps_heap = h\<rparr>"

text \<open>How a case ends that leaves the \<open>switch\<close> by \<open>break\<close>, after an editor operation and maybe a refresh.\<close>

definition finish_apply :: "oi_status \<times> oi_cli_prompt_state \<Rightarrow> applied" where
  "finish_apply x = (case x of (st, s) \<Rightarrow>
     (st, if st = OI_OK \<and> \<not> ps_pasting s then PROMPT_REDRAW else PROMPT_NONE, s))"

definition edit_prompt :: "oi_cli_prompt_state \<Rightarrow> bool \<Rightarrow> oi_status \<times> oi_cli_editor \<Rightarrow> oi_status \<times> oi_cli_prompt_state" where
  "edit_prompt s refresh x = (case x of (st, e) \<Rightarrow>
     let s' = s\<lparr>ps_editor := e\<rparr> in (st, if st = OI_OK \<and> refresh then refresh_commands s' else s'))"

definition oi_cli_prompt_state_apply :: "oi_cli_prompt_state \<Rightarrow> oi_cli_input_event \<Rightarrow> applied" where
  "oi_cli_prompt_state_apply s ev =
     (let e = ps_editor s in
      case ev_type ev of
        INPUT_TEXT \<Rightarrow>
          if ev_text ev = [] \<or> length (ev_text ev) > 4 then (OI_ERR_INVAL, PROMPT_NONE, s)
          else finish_apply (edit_prompt s True (oi_cli_editor_insert e (ev_text ev)))
      | INPUT_ENTER \<Rightarrow>
          if ps_matches s \<noteq> [] then
            (if map_option cmd_name (oi_cli_command_at (ps_matches s ! ps_selection s)) = Some (ed_data e)
             then (OI_OK, PROMPT_SUBMIT, s)
             else (case complete_selected_command s of
                 (st, s') \<Rightarrow> (st, if st = OI_OK then PROMPT_REDRAW else PROMPT_NONE, s')))
          else (OI_OK, if ed_data e \<noteq> [] then PROMPT_SUBMIT else PROMPT_NONE, s)
      | INPUT_NEWLINE \<Rightarrow> finish_apply (edit_prompt s True (oi_cli_editor_insert e [0x0A]))
      | INPUT_LEFT \<Rightarrow> finish_apply (edit_prompt s False (oi_cli_editor_move_left e))
      | INPUT_RIGHT \<Rightarrow> finish_apply (edit_prompt s False (oi_cli_editor_move_right e))
      | INPUT_UP \<Rightarrow>
          if ps_matches s \<noteq> [] then
            (OI_OK, PROMPT_REDRAW,
             s\<lparr>ps_selection := (if ps_selection s = 0 then length (ps_matches s) - 1 else ps_selection s - 1)\<rparr>)
          else apply_history s True
      | INPUT_DOWN \<Rightarrow>
          if ps_matches s \<noteq> [] then
            (OI_OK, PROMPT_REDRAW, s\<lparr>ps_selection := (ps_selection s + 1) mod length (ps_matches s)\<rparr>)
          else apply_history s False
      | INPUT_HOME \<Rightarrow> finish_apply (edit_prompt s False (OI_OK, oi_cli_editor_move_line_start e))
      | INPUT_END \<Rightarrow> finish_apply (edit_prompt s False (OI_OK, oi_cli_editor_move_line_end e))
      | INPUT_BACKSPACE \<Rightarrow> finish_apply (edit_prompt s True (oi_cli_editor_backspace e))
      | INPUT_DELETE \<Rightarrow> finish_apply (edit_prompt s True (oi_cli_editor_delete e))
      | INPUT_TAB \<Rightarrow>
          (case complete_selected_command s of
             (st, s') \<Rightarrow> if st = OI_ERR_NOTFOUND then (OI_OK, PROMPT_NONE, s') else finish_apply (st, s'))
      | INPUT_CTRL_C \<Rightarrow>
          (OI_OK, PROMPT_REDRAW, refresh_commands (s\<lparr>ps_editor := oi_cli_editor_clear e, ps_pasting := False\<rparr>))
      | INPUT_CTRL_D \<Rightarrow>
          if ed_data e = [] then (OI_OK, PROMPT_EXIT, s)
          else finish_apply (edit_prompt s True (oi_cli_editor_delete e))
      | INPUT_PASTE_BEGIN \<Rightarrow> (OI_OK, PROMPT_NONE, s\<lparr>ps_pasting := True\<rparr>)
      | INPUT_PASTE_END \<Rightarrow> (OI_OK, PROMPT_REDRAW, s\<lparr>ps_pasting := False\<rparr>)
      | INPUT_ESCAPE \<Rightarrow> (OI_OK, PROMPT_NONE, s)
      | INPUT_INVALID \<Rightarrow> (OI_OK, PROMPT_NONE, s)
      | INPUT_NONE \<Rightarrow> (OI_OK, PROMPT_NONE, s))"

definition oi_cli_prompt_state_commit :: "oi_cli_prompt_state \<Rightarrow> (oi_status + bytes) \<times> oi_cli_prompt_state" where
  "oi_cli_prompt_state_commit s =
     (let text = ed_data (ps_editor s); s' = s\<lparr>ps_heap := stl (ps_heap s)\<rparr> in
      if text = [] then (Inl OI_ERR_INVAL, s)
      else if \<not> shd (ps_heap s) then (Inl OI_ERR_NOMEM, s')
      else (case oi_cli_input_history_append (ps_history s) text of (st, h) \<Rightarrow>
        if st \<noteq> OI_OK then (Inl st, s'\<lparr>ps_history := h\<rparr>)
        else (Inr text, refresh_commands (s'\<lparr>ps_history := h, ps_editor := oi_cli_editor_clear (ps_editor s)\<rparr>))))"

section \<open>The invariant\<close>

definition editor_ok :: "oi_cli_editor \<Rightarrow> bool" where
  "editor_ok e \<longleftrightarrow> (\<exists>us vs. editor_rep e (us, vs))"

text \<open>The menu is in range, and current for the texts \<open>current\<close> holds of: all but one that was put in behind its back.\<close>

definition menu_ok :: "(bytes \<Rightarrow> bool) \<Rightarrow> bytes \<Rightarrow> nat list \<Rightarrow> nat \<Rightarrow> bool" where
  "menu_ok current text matches selection \<longleftrightarrow> (current text \<longrightarrow> matches = snd (oi_cli_command_filter text 8))
     \<and> list_all (\<lambda>i. i < 8) matches \<and> (if matches = [] then selection = 0 else selection < length matches)"

definition prompt_ok :: "(bytes \<Rightarrow> bool) \<Rightarrow> oi_cli_prompt_state \<Rightarrow> bool" where
  "prompt_ok cur s \<longleftrightarrow> editor_ok (ps_editor s) \<and> history_ok (ps_history s)
     \<and> menu_ok cur (ed_data (ps_editor s)) (ps_matches s) (ps_selection s)"

lemma editor_okI: "editor_rep e t \<Longrightarrow> editor_ok e"
  by (cases t) (auto simp: editor_ok_def)

lemma editor_okE:
  assumes "editor_ok e"
  obtains t where "editor_rep e t"
  using assms by (auto simp: editor_ok_def)

lemma filter_indices: "i \<in> set (snd (oi_cli_command_filter text 8)) \<Longrightarrow> i < 8"
  unfolding oi_cli_command_filter_def by (auto simp: Let_def dest: in_set_takeD split: if_split_asm)

lemma refresh_ok:
  "editor_ok (ps_editor s) \<Longrightarrow> history_ok (ps_history s) \<Longrightarrow> prompt_ok cur (refresh_commands s)"
  by (auto simp: prompt_ok_def menu_ok_def refresh_commands_def Let_def list_all_iff dest: filter_indices)

lemma prompt_okD:
  assumes "prompt_ok cur s"
  obtains t where "editor_rep (ps_editor s) t" "history_ok (ps_history s)"
  using assms by (auto simp: prompt_ok_def elim: editor_okE)

lemma edit_prompt_ok:
  assumes "prompt_ok cur s" and "edit_apply op (ps_editor s) = x" and "edit_prompt s refresh x = (st, s')"
    and "refresh \<or> op \<in> {Ed_left, Ed_right, Ed_line_start, Ed_line_end}"
  shows "prompt_ok cur s'"
proof -
  obtain t where t: "editor_rep (ps_editor s) t" and h: "history_ok (ps_history s)" by (rule prompt_okD [OF assms(1)])
  obtain st1 e where x: "x = (st1, e)" by fastforce
  note r = edit_refines [OF t, of op st1 e]
  have st: "st = st1" "s' = (if st = OI_OK \<and> refresh then refresh_commands (s\<lparr>ps_editor := e\<rparr>) else s\<lparr>ps_editor := e\<rparr>)"
    using assms(3) by (auto simp: edit_prompt_def x Let_def)
  show ?thesis
  proof (cases "st1 = OI_OK \<and> refresh")
    case True
    then show ?thesis using refresh_ok [of "s\<lparr>ps_editor := e\<rparr>"] r assms(2) x st h by (simp add: editor_okI)
  next
    case False
    have "editor_ok e \<and> ed_data e = ed_data (ps_editor s)"
    proof (cases "st1 = OI_OK")
      case True
      obtain us vs where s: "t = (us, vs)" by fastforce
      have rep: "editor_rep e (edit_spec op t)" using r assms(2) x True by simp
      have "fst (edit_spec op t) @ snd (edit_spec op t) = us @ vs"
        using False True assms(4) unfolding s
        by (auto simp: Let_def) (metis append_take_drop_id rev_append rev_rev_ident takeWhile_dropWhile_id
            append_eq_conv_conj length_append length_rev add_diff_cancel_right')
      then have "ed_data e = encode_text (us @ vs)"
        using rep unfolding editor_rep_def by (metis concat_append map_append)
      moreover have "ed_data (ps_editor s) = encode_text (us @ vs)"
        using rep_parts(1) [OF t [unfolded s]] by simp
      ultimately show ?thesis using editor_okI [OF rep] by simp
    next
      case False
      with r assms(2) x show ?thesis by (auto intro: editor_okI)
    qed
    with False st assms(1) show ?thesis by (auto simp: prompt_ok_def)
  qed
qed

lemma complete_ok:
  assumes "prompt_ok cur s" and "complete_selected_command s = (st, s')"
  shows "prompt_ok cur s'"
proof -
  obtain t where t: "editor_rep (ps_editor s) t" and h: "history_ok (ps_history s)" by (rule prompt_okD [OF assms(1)])
  show ?thesis
  proof (cases "ps_matches s = []")
    case True
    with assms show ?thesis by (simp add: complete_selected_command_def)
  next
    case False
    let ?i = "ps_matches s ! ps_selection s"
    have i: "?i < 8"
      using False assms(1) nth_mem [of "ps_selection s" "ps_matches s"] unfolding prompt_ok_def menu_ok_def list_all_iff by auto
    let ?c = "commands ! ?i"
    have c: "?c \<in> set commands" "oi_cli_command_at ?i = Some ?c"
      using i command_count by (simp_all add: oi_cli_command_at_def oi_cli_command_count_def del: command_count)
    obtain st1 e where e: "oi_cli_editor_set (ps_editor s) (cmd_name ?c) = (st1, e)" by fastforce
    note r = set_refines [OF t e]
    show ?thesis
    proof (cases "st1 = OI_OK")
      case False
      with r assms c e \<open>ps_matches s \<noteq> []\<close> have "ps_editor s' = e" "ps_matches s' = ps_matches s" "ps_selection s' = ps_selection s"
          "ps_history s' = ps_history s" by (auto simp: complete_selected_command_def)
      with r False assms(1) h show ?thesis by (auto simp: prompt_ok_def intro: editor_okI)
    next
      case ok: True
      obtain st2 e2 where e2: "oi_cli_editor_insert e [0x20] = (st2, e2)" by fastforce
      have rep: "editor_rep e (edit_spec (Ed_set (cmd_name ?c)) t)" using r ok by simp
      have data: "ed_data e = cmd_name ?c" "ed_cursor e = length (cmd_name ?c)" "64 \<le> ed_cap e"
      proof -
        have v: "validate_editor_text (cmd_name ?c) = OI_OK" using e ok by (auto simp: oi_cli_editor_set_def Let_def split: if_split_asm)
        obtain st3 e3 where e3: "editor_reserve (ps_editor s) (length (cmd_name ?c)) = (st3, e3)" by fastforce
        have "st3 = OI_OK" using e ok v e3 by (auto simp: oi_cli_editor_set_def Let_def split: if_split_asm)
        with reserve_cases [OF t e3] e v e3 show "ed_data e = cmd_name ?c" "ed_cursor e = length (cmd_name ?c)" "64 \<le> ed_cap e"
          by (auto simp: oi_cli_editor_set_def Let_def)
      qed
      have "validate_editor_text [0x20] = OI_OK"
        using validate_text [OF ascii_text, of "[0x20]"] by (simp add: validate_editor_text_def oi_cli_editor_max_bytes_def)
      then have "st2 = OI_OK"
        using e2 data command_name(6) [OF c(1)] unfolding oi_cli_editor_insert_def editor_reserve_def
        by (auto simp: oi_cli_editor_max_bytes_def Let_def split: if_split_asm)
      moreover from insert_refines [OF rep e2] this have "editor_ok e2" by (simp add: editor_okI)
      ultimately show ?thesis
        using refresh_ok [of "s\<lparr>ps_editor := e2\<rparr>"] assms(2) False c e ok e2 h by (auto simp: complete_selected_command_def)
    qed
  qed
qed

lemma apply_history_ok:
  assumes "prompt_ok cur s" and "apply_history s previous = (st, a, s')"
  shows "prompt_ok cur s'"
proof -
  obtain t where t: "editor_rep (ps_editor s) t" and h: "history_ok (ps_history s)" by (rule prompt_okD [OF assms(1)])
  obtain x h' where x: "(if previous then oi_cli_input_history_previous (ps_history s) (ed_data (ps_editor s))
            else oi_cli_input_history_next (ps_history s)) = (x, h')" by fastforce
  have h': "history_ok h'" using x previous_cases [OF h] next_cases [OF h] by (metis (full_types))
  show ?thesis
  proof (cases x)
    case (Inl e)
    then have "s' = s\<lparr>ps_history := h'\<rparr>" using assms(2) x by (cases e) (auto simp: apply_history_def)
    with assms(1) h' show ?thesis by (simp add: prompt_ok_def)
  next
    case (Inr entry)
    obtain st1 e where e: "oi_cli_editor_set (ps_editor s) entry = (st1, e)" by fastforce
    note r = set_refines [OF t e]
    let ?s = "s\<lparr>ps_history := h', ps_editor := e\<rparr>"
    have s': "s' = (if st1 = OI_OK then refresh_commands ?s else ?s)"
      using assms(2) x Inr e by (auto simp: apply_history_def Let_def)
    show ?thesis
    proof (cases "st1 = OI_OK")
      case True
      then show ?thesis using refresh_ok [of ?s] r h' s' by (simp add: editor_okI)
    next
      case False
      then show ?thesis using r h' s' assms(1) by (auto simp: prompt_ok_def intro: editor_okI)
    qed
  qed
qed


lemma finish_apply_state: "snd (snd (finish_apply x)) = snd x"
  by (simp add: finish_apply_def split: prod.split)

lemma edit_apply_ok:
  assumes "prompt_ok cur s" and "finish_apply (edit_prompt s refresh (edit_apply op (ps_editor s))) = (st, a, s')"
    and "refresh \<or> op \<in> {Ed_left, Ed_right, Ed_line_start, Ed_line_end}"
  shows "prompt_ok cur s'"
  using edit_prompt_ok [OF assms(1) refl _ assms(3)] finish_apply_state assms(2) by (metis prod.collapse snd_conv)

lemma apply_ok:
  assumes "prompt_ok cur s" and "oi_cli_prompt_state_apply s ev = (st, a, s')"
  shows "prompt_ok cur s'"
proof -
  note ed = edit_apply_ok [OF assms(1)]
  have sel: "prompt_ok cur (s\<lparr>ps_selection := i\<rparr>)" if "i < length (ps_matches s)" for i
    using assms(1) that by (auto simp: prompt_ok_def menu_ok_def)
  have flags: "prompt_ok cur (s\<lparr>ps_pasting := p\<rparr>)" for p using assms(1) by (simp add: prompt_ok_def)
  show ?thesis
  proof (cases "ev_type ev")
    case INPUT_TEXT
    with assms ed [of True "Ed_insert (ev_text ev)"] show ?thesis
      by (auto simp: oi_cli_prompt_state_apply_def Let_def split: if_split_asm)
  next
    case INPUT_ENTER
    show ?thesis
    proof (cases "s' = s")
      case False
      then have "s' = snd (complete_selected_command s)"
        using assms(2) INPUT_ENTER by (auto simp: oi_cli_prompt_state_apply_def Let_def split: if_split_asm prod.splits)
      with complete_ok [OF assms(1)] show ?thesis by (metis prod.collapse)
    qed (use assms(1) in simp)
  next
    case INPUT_UP
    show ?thesis
    proof (cases "ps_matches s = []")
      case True
      with INPUT_UP assms show ?thesis by (auto simp: oi_cli_prompt_state_apply_def Let_def intro: apply_history_ok)
    next
      case False
      then have "0 < length (ps_matches s)" "ps_selection s < length (ps_matches s)"
        using assms(1) unfolding prompt_ok_def menu_ok_def by auto
      with INPUT_UP assms(2) False show ?thesis
        by (auto simp: oi_cli_prompt_state_apply_def Let_def intro!: sel)
    qed
  next
    case INPUT_DOWN
    show ?thesis
    proof (cases "ps_matches s = []")
      case True
      with INPUT_DOWN assms show ?thesis by (auto simp: oi_cli_prompt_state_apply_def Let_def intro: apply_history_ok)
    next
      case False
      with INPUT_DOWN assms(2) show ?thesis by (auto simp: oi_cli_prompt_state_apply_def Let_def intro!: sel)
    qed
  next
    case INPUT_TAB
    have "s' = snd (complete_selected_command s)"
      using assms(2) INPUT_TAB by (auto simp: oi_cli_prompt_state_apply_def finish_apply_def Let_def split: if_split_asm prod.splits)
    with complete_ok [OF assms(1)] show ?thesis by (metis prod.collapse)
  next
    case INPUT_CTRL_C
    obtain t where t: "editor_rep (ps_editor s) t" and h: "history_ok (ps_history s)" by (rule prompt_okD [OF assms(1)])
    have "editor_ok (oi_cli_editor_clear (ps_editor s))"
      using edit_refines [OF t, of Ed_clear OI_OK] by (auto intro: editor_okI)
    with INPUT_CTRL_C assms(2) h show ?thesis by (auto simp: oi_cli_prompt_state_apply_def Let_def intro!: refresh_ok)
  next
    case INPUT_NEWLINE
    with assms ed [of True "Ed_insert [0x0A]"] show ?thesis by (simp add: oi_cli_prompt_state_apply_def Let_def)
  next
    case INPUT_LEFT
    with assms ed [of False Ed_left] show ?thesis by (simp add: oi_cli_prompt_state_apply_def Let_def)
  next
    case INPUT_RIGHT
    with assms ed [of False Ed_right] show ?thesis by (simp add: oi_cli_prompt_state_apply_def Let_def)
  next
    case INPUT_HOME
    with assms ed [of False Ed_line_start] show ?thesis by (simp add: oi_cli_prompt_state_apply_def Let_def)
  next
    case INPUT_END
    with assms ed [of False Ed_line_end] show ?thesis by (simp add: oi_cli_prompt_state_apply_def Let_def)
  next
    case INPUT_BACKSPACE
    with assms ed [of True Ed_backspace] show ?thesis by (simp add: oi_cli_prompt_state_apply_def Let_def)
  next
    case INPUT_DELETE
    with assms ed [of True Ed_delete] show ?thesis by (simp add: oi_cli_prompt_state_apply_def Let_def)
  next
    case INPUT_CTRL_D
    with assms ed [of True Ed_delete] show ?thesis
      by (auto simp: oi_cli_prompt_state_apply_def Let_def split: if_split_asm)
  qed (use assms flags in \<open>auto simp: oi_cli_prompt_state_apply_def\<close>)
qed

lemma commit_cases:
  assumes "prompt_ok cur s" and "oi_cli_prompt_state_commit s = (x, s')"
  shows "prompt_ok cur s' \<and> (case x of
      Inl st \<Rightarrow> st \<noteq> OI_OK \<and> ps_editor s' = ps_editor s \<and> ih_entries (ps_history s') = ih_entries (ps_history s)
        \<and> ps_matches s' = ps_matches s \<and> ps_selection s' = ps_selection s
    | Inr t \<Rightarrow> t = ed_data (ps_editor s) \<and> t \<noteq> [] \<and> ed_data (ps_editor s') = [] \<and> last (ih_entries (ps_history s')) = t
        \<and> ih_entries (ps_history s') \<noteq> [])"
proof -
  obtain t where t: "editor_rep (ps_editor s) t" and h: "history_ok (ps_history s)" by (rule prompt_okD [OF assms(1)])
  let ?text = "ed_data (ps_editor s)"
  show ?thesis
  proof (cases "?text = [] \<or> \<not> shd (ps_heap s)")
    case True
    with assms show ?thesis by (auto simp: oi_cli_prompt_state_commit_def Let_def prompt_ok_def split: if_split_asm)
  next
    case False
    obtain st h' where a: "oi_cli_input_history_append (ps_history s) ?text = (st, h')" by fastforce
    note c = append_cases [OF h a]
    show ?thesis
    proof (cases "st = OI_OK")
      case True
      have x: "x = Inr ?text" "s' = refresh_commands (s\<lparr>ps_heap := stl (ps_heap s), ps_history := h',
          ps_editor := oi_cli_editor_clear (ps_editor s)\<rparr>)"
        using assms(2) False a True by (auto simp: oi_cli_prompt_state_commit_def Let_def)
      have "editor_ok (oi_cli_editor_clear (ps_editor s))"
        using edit_refines [OF t, of Ed_clear OI_OK] by (auto intro: editor_okI)
      then have "prompt_ok cur s'" unfolding x(2) using c by (intro refresh_ok) simp_all
      moreover have "ih_entries h' \<noteq> [] \<and> last (ih_entries h') = ?text"
        using c True h keep_recent_last [of "ih_entries (ps_history s) @ [?text]"]
        by (auto simp: history_ok_def split: if_split_asm)
      ultimately show ?thesis using x False by (simp add: refresh_commands_def oi_cli_editor_clear_def Let_def)
    next
      case st: False
      have x: "x = Inl st" "s' = s\<lparr>ps_heap := stl (ps_heap s), ps_history := h'\<rparr>"
        using assms(2) False a st by (auto simp: oi_cli_prompt_state_commit_def Let_def)
      with c st assms(1) show ?thesis by (simp add: prompt_ok_def)
    qed
  qed
qed

section \<open>Properties\<close>

text \<open>
  What can happen to a prompt: keys, submissions, and a draft that \<open>oi_cli_composer_set_draft\<close> puts into its editor. The
  argument is the draft put in last.
\<close>

inductive reachable_prompt :: "bytes option \<Rightarrow> oi_cli_prompt_state \<Rightarrow> bool" where
  started: "history_run ops (oi_cli_input_history_init h0) = (log, hist) \<Longrightarrow>
              reachable_prompt None (oi_cli_prompt_state_init hist h1 h2)"
| event: "reachable_prompt d s \<Longrightarrow> oi_cli_prompt_state_apply s ev = (st, a, s') \<Longrightarrow> reachable_prompt d s'"
| commit: "reachable_prompt d s \<Longrightarrow> oi_cli_prompt_state_commit s = (x, s') \<Longrightarrow> reachable_prompt d s'"
| draft: "reachable_prompt d s \<Longrightarrow> oi_cli_editor_set (ps_editor s) t = (st, e) \<Longrightarrow>
            reachable_prompt (if st = OI_OK then Some t else d) (s\<lparr>ps_editor := e\<rparr>)"

lemma history_run_init_ok: "history_run ops (oi_cli_input_history_init h0) = (log, hist) \<Longrightarrow> history_ok hist"
  using history_run_ok [OF history_init_ok, of h0 "[]" ops log hist] by (simp add: oi_cli_input_history_init_def)

lemma init_prompt_ok: "history_ok hist \<Longrightarrow> prompt_ok (\<lambda>_. True) (oi_cli_prompt_state_init hist h1 h2)"
  using editor_okI [OF init_rep, of h1]
  by (simp add: prompt_ok_def menu_ok_def oi_cli_prompt_state_init_def oi_cli_command_filter_def oi_cli_editor_init_def)

lemma draft_ok:
  assumes "prompt_ok (\<lambda>text. d \<noteq> Some text) s" "oi_cli_editor_set (ps_editor s) t = (st, e)"
  shows "prompt_ok (\<lambda>text. (if st = OI_OK then Some t else d) \<noteq> Some text) (s\<lparr>ps_editor := e\<rparr>)"
proof -
  obtain x where x: "editor_rep (ps_editor s) x" by (rule prompt_okD [OF assms(1)])
  note r = set_refines [OF x assms(2)]
  have "st = OI_OK \<Longrightarrow> ed_data e = t"
    using assms(2) by (auto simp: oi_cli_editor_set_def Let_def split: if_split_asm prod.splits)
  with r assms(1) show ?thesis by (cases "st = OI_OK") (auto simp: prompt_ok_def menu_ok_def intro: editor_okI)
qed

lemma reachable_prompt_ok: "reachable_prompt d s \<Longrightarrow> prompt_ok (\<lambda>text. d \<noteq> Some text) s"
proof (induction rule: reachable_prompt.induct)
  case (started ops h0 log hist h1 h2)
  then show ?case using init_prompt_ok [OF history_run_init_ok] by simp
qed (use draft_ok in \<open>auto intro: apply_ok dest: commit_cases\<close>)

text \<open>
  C34. In every state the keys, the submissions and the drafts put in place can bring a prompt to, whatever the allocator
  does: the text is well-formed UTF-8 without NUL of at most 1 MiB, the cursor stands between two characters, every entry
  of the menu is a command and the selection is one of them. Unless the text is the draft put in last, the menu lists
  exactly the commands that start with the text.
\<close>

theorem prompt_stays_consistent:
  assumes "reachable_prompt d s"
  shows "let text = ed_data (ps_editor s); cursor = ed_cursor (ps_editor s) in
     utf8_text (take cursor text) \<and> utf8_text (drop cursor text) \<and> cursor \<le> length text
   \<and> 0 \<notin> set text \<and> length text \<le> oi_cli_editor_max_bytes
   \<and> (d \<noteq> Some text \<longrightarrow>
        ps_matches s = filter (\<lambda>i. text \<noteq> [] \<and> take (length text) (cmd_name (commands ! i)) = text) [0..<8])
   \<and> (\<forall>i \<in> set (ps_matches s). i < 8)
   \<and> (if ps_matches s = [] then ps_selection s = 0 else ps_selection s < length (ps_matches s))"
proof -
  have ok: "prompt_ok (\<lambda>text. d \<noteq> Some text) s" by (rule reachable_prompt_ok [OF assms])
  then obtain us vs where rep: "editor_rep (ps_editor s) (us, vs)" by (auto simp: prompt_ok_def editor_ok_def)
  note p = rep_parts [OF rep]
  have t: "utf8_text (encode_text us)" "utf8_text (encode_text vs)" using p(5,6) by (auto simp: utf8_text_def)
  have cut: "take (ed_cursor (ps_editor s)) (ed_data (ps_editor s)) = encode_text us"
    "drop (ed_cursor (ps_editor s)) (ed_data (ps_editor s)) = encode_text vs"
    by (simp_all add: p(1,2) del: length_concat)
  have zero: "0 \<notin> set (ed_data (ps_editor s))"
  proof
    assume "0 \<in> set (ed_data (ps_editor s))"
    then obtain cp where "cp \<in> set (us @ vs)" "0 \<in> set (utf8_encode cp)" by (auto simp: p(1))
    with p(4) ascii_in_encode [of cp 0] show False by (auto simp: text_points_def)
  qed
  have len: "length (ed_data (ps_editor s)) \<le> oi_cli_editor_max_bytes"
    using rep unfolding editor_rep_def editor_buffer_ok_def by blast
  have menu: "menu_ok (\<lambda>text. d \<noteq> Some text) (ed_data (ps_editor s)) (ps_matches s) (ps_selection s)"
    using ok by (simp add: prompt_ok_def)
  then have "d \<noteq> Some (ed_data (ps_editor s)) \<longrightarrow> ps_matches s
      = filter (\<lambda>i. ed_data (ps_editor s) \<noteq> [] \<and> take (length (ed_data (ps_editor s))) (cmd_name (commands ! i)) = ed_data (ps_editor s)) [0..<8]"
    unfolding menu_ok_def by (simp add: filter_prefixes Let_def)
  with t cut zero len menu p(3) show ?thesis unfolding Let_def cut menu_ok_def list_all_iff by (intro conjI) auto
qed


lemma validate_ascii: "list_all (\<lambda>b. b < 0x80 \<and> b \<noteq> 0) t \<Longrightarrow> length t \<le> oi_cli_editor_max_bytes \<Longrightarrow> validate_editor_text t = OI_OK"
  using validate_text [OF ascii_text, of t] by (auto simp: validate_editor_text_def list_all_iff)

lemma start_empty: "reachable_prompt None (oi_cli_prompt_state_init (oi_cli_input_history_init h0) h1 h2)"
  by (rule reachable_prompt.started [of "[]"]) simp

theorem prompt_stays_consistent_witness:
  "let s = snd (snd (oi_cli_prompt_state_apply (oi_cli_prompt_state_init (oi_cli_input_history_init heap_ok) heap_ok heap_ok)
       \<lparr>ev_type = INPUT_TEXT, ev_text = [0x2F], ev_pasted = False\<rparr>)) in
   ed_data (ps_editor s) = [0x2F]
   \<and> ps_matches s = filter (\<lambda>i. [0x2F] \<noteq> ([] :: bytes) \<and> take 1 (cmd_name (commands ! i)) = [0x2F]) [0..<8]"
proof -
  let ?x = "oi_cli_prompt_state_apply (oi_cli_prompt_state_init (oi_cli_input_history_init heap_ok) heap_ok heap_ok)
       \<lparr>ev_type = INPUT_TEXT, ev_text = [0x2F], ev_pasted = False\<rparr>"
  let ?s = "snd (snd ?x)"
  have v: "validate_editor_text [0x2F] = OI_OK" by (rule validate_ascii) (simp_all add: oi_cli_editor_max_bytes_def)
  have d: "ed_data (ps_editor ?s) = [0x2F]"
    by (simp add: oi_cli_prompt_state_apply_def oi_cli_prompt_state_init_def oi_cli_editor_init_def oi_cli_editor_insert_def v
        editor_reserve_def oi_cli_editor_max_bytes_def Let_def edit_prompt_def finish_apply_def refresh_commands_def)
  have "?x = (fst ?x, fst (snd ?x), ?s)" by simp
  then have r: "reachable_prompt None ?s" by (rule reachable_prompt.event [OF start_empty])
  from prompt_stays_consistent [OF r] have "ps_matches ?s = filter (\<lambda>i. ed_data (ps_editor ?s) \<noteq> []
      \<and> take (length (ed_data (ps_editor ?s))) (cmd_name (commands ! i)) = ed_data (ps_editor ?s)) [0..<8]"
    unfolding Let_def by blast
  then have "ps_matches ?s = filter (\<lambda>i. [0x2F] \<noteq> ([] :: bytes) \<and> take 1 (cmd_name (commands ! i)) = [0x2F]) [0..<8]"
    unfolding d by (simp only: list.size add_0 One_nat_def)
  with d show ?thesis unfolding Let_def by blast
qed

text \<open>
  Submitting: when \<open>oi_cli_prompt_state_commit\<close> fails, the editor, the menu and the entries of the history
  are as before; when it succeeds, the answer is exactly the text that was in the editor, which is then empty, and
  the text is the newest entry of the history.
\<close>

theorem prompt_commit_all_or_nothing:
  assumes "reachable_prompt d s" and "oi_cli_prompt_state_commit s = (x, s')"
  shows "case x of
      Inl st \<Rightarrow> st \<noteq> OI_OK \<and> ps_editor s' = ps_editor s \<and> ih_entries (ps_history s') = ih_entries (ps_history s)
        \<and> ps_matches s' = ps_matches s \<and> ps_selection s' = ps_selection s
    | Inr t \<Rightarrow> t = ed_data (ps_editor s) \<and> t \<noteq> [] \<and> ed_data (ps_editor s') = [] \<and> last (ih_entries (ps_history s')) = t
        \<and> ih_entries (ps_history s') \<noteq> []"
  using commit_cases [OF reachable_prompt_ok [OF assms(1)] assms(2)] by simp

theorem prompt_commit_all_or_nothing_witness:
  "\<exists>s s'. oi_cli_prompt_state_commit s = (Inr [0x61], s') \<and> ed_data (ps_editor s') = []
     \<and> last (ih_entries (ps_history s')) = [0x61]"
proof -
  let ?x = "oi_cli_prompt_state_apply (oi_cli_prompt_state_init (oi_cli_input_history_init heap_ok) heap_ok heap_ok)
       \<lparr>ev_type = INPUT_TEXT, ev_text = [0x61], ev_pasted = False\<rparr>"
  let ?s = "snd (snd ?x)" and ?c = "oi_cli_prompt_state_commit (snd (snd ?x))"
  have v: "validate_editor_text [0x61] = OI_OK" by (rule validate_ascii) (simp_all add: oi_cli_editor_max_bytes_def)
  have h: "validate_history_text [0x61] False = OI_OK"
    using validate_text [OF ascii_text, of "[0x61]"] by (simp add: validate_history_text_def history_max_bytes_def)
  have c: "fst ?c = Inr [0x61]"
    by (simp add: oi_cli_prompt_state_apply_def oi_cli_prompt_state_init_def oi_cli_editor_init_def oi_cli_editor_insert_def v
        editor_reserve_def oi_cli_editor_max_bytes_def Let_def edit_prompt_def finish_apply_def refresh_commands_def
        oi_cli_prompt_state_commit_def oi_cli_input_history_append_def h oi_cli_input_history_init_def make_room.simps
        reserve_entries_def)
  have "?x = (fst ?x, fst (snd ?x), ?s)" by simp
  then have r: "reachable_prompt None ?s" by (rule reachable_prompt.event [OF start_empty])
  have s: "?c = (Inr [0x61], snd ?c)" using c by (metis prod.collapse)
  from prompt_commit_all_or_nothing [OF r s] s show ?thesis by (intro exI) auto
qed

end
