(* ===== verification/Composer.thy ===== *)
theory Composer
  imports Prompt_State Selector
begin

text \<open>
  \<open>src/cli_composer.c\<close>: the prompt on a terminal. What the descriptors deliver is an argument: \<open>read_answer\<close> is
  what one \<open>read\<close> gives (retried while interrupted), \<open>poll_answer\<close> what one \<open>poll\<close> and the reads after it give.
  The terminal mode and the renderer are outside the model; \<open>co_draws\<close> holds the statuses its draw calls answer.
  \<open>input_len\<close> is the length of \<open>co_input\<close>.
\<close>

definition composer_input_cap :: nat where "composer_input_cap = 4096"

record oi_cli_composer =
  co_decoder :: oi_cli_input_decoder
  co_state :: oi_cli_prompt_state
  co_input :: bytes
  co_draws :: "oi_status stream"

text \<open>\<open>read\<close> stores at most the bytes it is asked for.\<close>

datatype read_answer = Read_bytes bytes | Read_eof | Read_again | Read_failed

definition draw :: "oi_cli_composer \<Rightarrow> oi_status \<times> oi_cli_composer" where
  "draw c = (shd (co_draws c), c\<lparr>co_draws := stl (co_draws c)\<rparr>)"

definition consume_input :: "nat \<Rightarrow> oi_cli_composer \<Rightarrow> oi_cli_composer" where
  "consume_input n c = c\<lparr>co_input := drop n (co_input c)\<rparr>"

definition oi_cli_composer_init :: "oi_cli_input_history \<Rightarrow> heap \<Rightarrow> heap \<Rightarrow> oi_status stream \<Rightarrow> oi_cli_composer" where
  "oi_cli_composer_init history h1 h2 draws =
     \<lparr>co_decoder = oi_cli_input_decoder_init, co_state = oi_cli_prompt_state_init history h1 h2, co_input = [],
      co_draws = draws\<rparr>"

section \<open>Waiting for a line\<close>

text \<open>The local variables of \<open>oi_cli_composer_wait_submit\<close> and what they point to.\<close>

record wait =
  w_status :: oi_status
  w_done :: bool
  w_text :: "bytes option"
  w_exit :: bool
  w_terminate :: int
  w_composer :: oi_cli_composer

definition apply_event :: "oi_cli_input_event \<Rightarrow> wait \<Rightarrow> wait" where
  "apply_event ev w =
     (let c = w_composer w in
      case oi_cli_prompt_state_apply (co_state c) ev of (status, action, s) \<Rightarrow>
        let c' = c\<lparr>co_state := s\<rparr> in
        if status \<noteq> OI_OK then w\<lparr>w_status := status, w_composer := c'\<rparr>
        else (case action of
            PROMPT_NONE \<Rightarrow> w\<lparr>w_status := OI_OK, w_composer := c'\<rparr>
          | PROMPT_REDRAW \<Rightarrow> (case draw c' of (st, c'') \<Rightarrow> w\<lparr>w_status := st, w_composer := c''\<rparr>)
          | PROMPT_SUBMIT \<Rightarrow> (case oi_cli_prompt_state_commit s of
                (Inl st, s') \<Rightarrow> w\<lparr>w_status := st, w_composer := c\<lparr>co_state := s'\<rparr>\<rparr>
              | (Inr text, s') \<Rightarrow> w\<lparr>w_status := OI_OK, w_done := True, w_text := Some text,
                                    w_composer := c\<lparr>co_state := s'\<rparr>\<rparr>)
          | PROMPT_EXIT \<Rightarrow> w\<lparr>w_status := OI_OK, w_exit := True, w_done := True, w_composer := c'\<rparr>))"

lemma apply_event_input [simp]:
  "co_input (w_composer (apply_event ev w)) = co_input (w_composer w)"
  "co_decoder (w_composer (apply_event ev w)) = co_decoder (w_composer w)"
  by (simp_all add: apply_event_def draw_def Let_def split: prod.split oi_cli_prompt_action.split sum.split)

text \<open>The inner loop; the flag tells that it left by \<open>goto cleanup\<close>.\<close>

function wait_inner :: "wait \<Rightarrow> bool \<times> wait" where
  "wait_inner w =
     (let c = w_composer w in
      if co_input c = [] then (False, w)
      else (case oi_cli_input_decode (co_decoder c) (co_input c) of (status, n, ev, d) \<Rightarrow>
        let w' = w\<lparr>w_status := status, w_composer := c\<lparr>co_decoder := d\<rparr>\<rparr> in
        if status = OI_ERR_AGAIN then (False, w')
        else if status \<noteq> OI_OK then (True, w')
        else let w'' = apply_event ev (w'\<lparr>w_composer := consume_input n (w_composer w')\<rparr>) in
          if w_status w'' \<noteq> OI_OK \<or> w_done w'' then (False, w'') else wait_inner w''))"
  by pat_completeness auto
termination
  by (relation "measure (\<lambda>w. length (co_input (w_composer w)))") (auto simp: consume_input_def dest: decode_shrinks)

declare wait_inner.simps [simp del]

definition oi_cli_composer_escape_pending :: "oi_cli_composer \<Rightarrow> bool" where
  "oi_cli_composer_escape_pending c \<longleftrightarrow> co_input c \<noteq> [] \<and> co_input c ! 0 = 0x1B \<and> \<not> dec_pasting (co_decoder c)"

text \<open>
  One \<open>poll\<close> and what is read after it: the signals found (a resize, a terminating signal), or what \<open>read\<close>
  on the terminal gives. \<open>Poll_other\<close> wakes for nothing the code looks at. \<open>poll\<close> only times out when it is
  given a time-out, that is when an Escape is pending.
\<close>

datatype poll_answer = Poll_failed | Poll_timeout | Poll_signals bool int | Poll_input_error | Poll_read read_answer | Poll_other

definition wait_poll :: "poll_answer \<Rightarrow> wait \<Rightarrow> bool \<times> wait" where
  "wait_poll k w =
     (let c = w_composer w in
      case k of
        Poll_failed \<Rightarrow> (True, w\<lparr>w_status := OI_ERR_IO\<rparr>)
      | Poll_timeout \<Rightarrow>
          if oi_cli_composer_escape_pending c then
            (case oi_cli_input_decode_escape of (n, ev) \<Rightarrow>
               (False, apply_event ev (w\<lparr>w_composer := consume_input n c\<rparr>)))
          else (False, w)
      | Poll_signals resize terminate \<Rightarrow>
          if terminate \<noteq> 0 then (False, w\<lparr>w_terminate := terminate, w_done := True\<rparr>)
          else if resize then
            (case draw c of (st, c') \<Rightarrow> (st \<noteq> OI_OK, w\<lparr>w_status := st, w_composer := c'\<rparr>))
          else (False, w)
      | Poll_input_error \<Rightarrow> (True, w\<lparr>w_status := OI_ERR_IO\<rparr>)
      | Poll_read r \<Rightarrow>
          if length (co_input c) = composer_input_cap then (True, w\<lparr>w_status := OI_ERR_PARSE\<rparr>)
          else (case r of
              Read_bytes bs \<Rightarrow>
                (False, w\<lparr>w_composer := c\<lparr>co_input := co_input c @ take (composer_input_cap - length (co_input c)) bs\<rparr>\<rparr>)
            | Read_eof \<Rightarrow> (True, w\<lparr>w_status := OI_ERR_CLOSED\<rparr>)
            | _ \<Rightarrow> (True, w\<lparr>w_status := OI_ERR_IO\<rparr>))
      | Poll_other \<Rightarrow> (False, w))"

text \<open>The outer loop, over the answers of the polls; \<open>None\<close> while it still waits.\<close>

fun wait_loop :: "poll_answer list \<Rightarrow> wait \<Rightarrow> wait option" where
  "wait_loop ks w =
     (if w_done w then Some w
      else (case wait_inner w of (cleanup, w1) \<Rightarrow>
        if cleanup then Some w1
        else let w2 = (if w_status w1 = OI_ERR_AGAIN then w1\<lparr>w_status := OI_OK\<rparr> else w1) in
          if w_status w2 \<noteq> OI_OK \<or> w_done w2 then Some w2
          else (case ks of
              [] \<Rightarrow> None
            | k # ks' \<Rightarrow> (case wait_poll k w2 of (leave, w3) \<Rightarrow> if leave then Some w3 else wait_loop ks' w3))))"

declare wait_loop.simps [simp del]

text \<open>
  The whole call: the first draw, the signals pending before it, the loop, and the last draw. \<open>signals\<close> is
  \<open>None\<close> without a signal descriptor.
\<close>

definition wait_cleanup :: "wait \<Rightarrow> wait" where
  "wait_cleanup w =
     (case draw (w_composer w) of (st, c) \<Rightarrow>
        let status = (if st \<noteq> OI_OK \<and> w_status w = OI_OK then OI_ERR_IO else w_status w);
            w' = w\<lparr>w_status := status, w_composer := c\<rparr> in
        if status \<noteq> OI_OK then w'\<lparr>w_text := None, w_exit := False\<rparr> else w')"

definition oi_cli_composer_wait_submit ::
  "(bool \<times> int) option \<Rightarrow> poll_answer list \<Rightarrow> oi_cli_composer \<Rightarrow> wait option" where
  "oi_cli_composer_wait_submit signals ks c =
     (case draw c of (st, c') \<Rightarrow>
        let w = \<lparr>w_status = st, w_done = False, w_text = None, w_exit = False, w_terminate = 0, w_composer = c'\<rparr> in
        if st \<noteq> OI_OK then Some (wait_cleanup w)
        else (case signals of
            Some (resize, terminate) \<Rightarrow>
              if terminate \<noteq> 0 then Some (wait_cleanup (w\<lparr>w_terminate := terminate\<rparr>))
              else map_option wait_cleanup (wait_loop ks w)
          | None \<Rightarrow> map_option wait_cleanup (wait_loop ks w)))"

section \<open>Keys during a turn\<close>

datatype oi_cli_composer_action = COMPOSER_NONE | COMPOSER_SUBMIT | COMPOSER_EXIT | COMPOSER_CTRL_C

definition classify_event ::
  "oi_cli_composer \<Rightarrow> oi_cli_input_event \<Rightarrow> oi_status \<times> oi_cli_composer_action \<times> oi_cli_composer" where
  "classify_event c ev =
     (case oi_cli_prompt_state_apply (co_state c) ev of (status, action, s) \<Rightarrow>
        let c' = c\<lparr>co_state := s\<rparr> in
        if status \<noteq> OI_OK then (status, COMPOSER_NONE, c')
        else if ev_type ev = INPUT_CTRL_C then (OI_OK, COMPOSER_CTRL_C, c')
        else if ev_type ev = INPUT_ENTER \<and> action = PROMPT_SUBMIT then (OI_OK, COMPOSER_SUBMIT, c')
        else if ev_type ev = INPUT_CTRL_D \<and> action = PROMPT_EXIT then (OI_OK, COMPOSER_EXIT, c')
        else (OI_OK, COMPOSER_NONE, c'))"

lemma classify_event_input [simp]: "co_input (snd (snd (classify_event c ev))) = co_input c"
  by (simp add: classify_event_def Let_def split: prod.split)

text \<open>The read both feeds begin with: the status to return at once, or the composer with the new bytes.\<close>

definition composer_read :: "read_answer \<Rightarrow> oi_cli_composer \<Rightarrow> oi_status + oi_cli_composer" where
  "composer_read r c =
     (if length (co_input c) = composer_input_cap then Inl OI_ERR_PARSE
      else (case r of
          Read_eof \<Rightarrow> Inl OI_ERR_CLOSED
        | Read_again \<Rightarrow> Inl OI_OK
        | Read_failed \<Rightarrow> Inl OI_ERR_IO
        | Read_bytes bs \<Rightarrow> Inr (c\<lparr>co_input := co_input c @ take (composer_input_cap - length (co_input c)) bs\<rparr>)))"

function feed_loop :: "oi_cli_composer \<Rightarrow> oi_status \<times> oi_cli_composer_action \<times> oi_cli_composer" where
  "feed_loop c =
     (if co_input c = [] then (OI_OK, COMPOSER_NONE, c)
      else (case oi_cli_input_decode (co_decoder c) (co_input c) of (status, n, ev, d) \<Rightarrow>
        let c' = c\<lparr>co_decoder := d\<rparr> in
        if status = OI_ERR_AGAIN then (OI_OK, COMPOSER_NONE, c')
        else if status \<noteq> OI_OK then (status, COMPOSER_NONE, c')
        else let x = classify_event (consume_input n c') ev in
          if fst x \<noteq> OI_OK then (fst x, COMPOSER_NONE, snd (snd x))
          else if fst (snd x) \<noteq> COMPOSER_NONE then (OI_OK, fst (snd x), snd (snd x))
          else feed_loop (snd (snd x))))"
  by pat_completeness auto
termination
  by (relation "measure (\<lambda>c. length (co_input c))") (auto simp: consume_input_def dest: decode_shrinks)

declare feed_loop.simps [simp del]

definition oi_cli_composer_feed ::
  "read_answer \<Rightarrow> oi_cli_composer \<Rightarrow> oi_status \<times> oi_cli_composer_action \<times> oi_cli_composer" where
  "oi_cli_composer_feed r c =
     (case composer_read r c of Inl st \<Rightarrow> (st, COMPOSER_NONE, c) | Inr c' \<Rightarrow> feed_loop c')"

definition oi_cli_composer_resolve_escape ::
  "oi_cli_composer \<Rightarrow> oi_status \<times> oi_cli_composer_action \<times> oi_cli_composer" where
  "oi_cli_composer_resolve_escape c =
     (case oi_cli_input_decode_escape of (n, ev) \<Rightarrow> classify_event (consume_input n c) ev)"

definition oi_cli_composer_commit_draft :: "oi_cli_composer \<Rightarrow> (oi_status + bytes) \<times> oi_cli_composer" where
  "oi_cli_composer_commit_draft c =
     (case oi_cli_prompt_state_commit (co_state c) of (x, s) \<Rightarrow> (x, c\<lparr>co_state := s\<rparr>))"

definition oi_cli_composer_set_draft :: "oi_cli_composer \<Rightarrow> bytes \<Rightarrow> oi_status \<times> oi_cli_composer" where
  "oi_cli_composer_set_draft c text =
     (case oi_cli_editor_set (ps_editor (co_state c)) text of
        (st, e) \<Rightarrow> (st, c\<lparr>co_state := (co_state c)\<lparr>ps_editor := e\<rparr>\<rparr>))"

text \<open>The callback of the raw feed: a client state and whether to stop.\<close>

function feed_raw_loop ::
  "('u \<Rightarrow> oi_cli_input_event \<Rightarrow> bool \<times> 'u) \<Rightarrow> 'u \<Rightarrow> oi_cli_composer \<Rightarrow> oi_status \<times> 'u \<times> oi_cli_composer" where
  "feed_raw_loop on_event u c =
     (if co_input c = [] then (OI_OK, u, c)
      else (case oi_cli_input_decode (co_decoder c) (co_input c) of (status, n, ev, d) \<Rightarrow>
        let c' = c\<lparr>co_decoder := d\<rparr> in
        if status = OI_ERR_AGAIN then (OI_OK, u, c')
        else if status \<noteq> OI_OK then (status, u, c')
        else (case on_event u ev of (stop, u') \<Rightarrow>
          if stop then (OI_OK, u', consume_input n c') else feed_raw_loop on_event u' (consume_input n c'))))"
  by pat_completeness auto
termination
  by (relation "measure (\<lambda>(f, u, c). length (co_input c))") (auto simp: consume_input_def dest: decode_shrinks)

declare feed_raw_loop.simps [simp del]

definition oi_cli_composer_feed_raw ::
  "('u \<Rightarrow> oi_cli_input_event \<Rightarrow> bool \<times> 'u) \<Rightarrow> 'u \<Rightarrow> read_answer \<Rightarrow> oi_cli_composer \<Rightarrow> oi_status \<times> 'u \<times> oi_cli_composer" where
  "oi_cli_composer_feed_raw on_event u r c =
     (case composer_read r c of Inl st \<Rightarrow> (st, u, c) | Inr c' \<Rightarrow> feed_raw_loop on_event u c')"

definition oi_cli_composer_resolve_escape_raw ::
  "('u \<Rightarrow> oi_cli_input_event \<Rightarrow> bool \<times> 'u) \<Rightarrow> 'u \<Rightarrow> oi_cli_composer \<Rightarrow> oi_status \<times> 'u \<times> oi_cli_composer" where
  "oi_cli_composer_resolve_escape_raw on_event u c =
     (case oi_cli_input_decode_escape of (n, ev) \<Rightarrow> (OI_OK, snd (on_event u ev), consume_input n c))"

section \<open>Choosing an option\<close>

record selecting =
  sl_status :: oi_status
  sl_done :: bool
  sl_selected :: nat
  sl_cancelled :: bool
  sl_terminate :: int
  sl_composer :: oi_cli_composer

text \<open>What follows a successful \<open>oi_cli_selector_apply\<close>.\<close>

definition select_action :: "oi_cli_selector_action \<Rightarrow> selecting \<Rightarrow> selecting" where
  "select_action action s =
     (case action of
        SELECTOR_NONE \<Rightarrow> s
      | SELECTOR_REDRAW \<Rightarrow> (case draw (sl_composer s) of (st, c) \<Rightarrow> s\<lparr>sl_status := st, sl_composer := c\<rparr>)
      | SELECTOR_CONFIRM \<Rightarrow> s\<lparr>sl_done := True\<rparr>
      | SELECTOR_CANCEL \<Rightarrow> s\<lparr>sl_cancelled := True, sl_done := True\<rparr>)"

lemma select_action_input [simp]: "co_input (sl_composer (select_action a s)) = co_input (sl_composer s)"
  by (simp add: select_action_def draw_def split: oi_cli_selector_action.split)

function select_inner :: "nat \<Rightarrow> selecting \<Rightarrow> bool \<times> selecting" where
  "select_inner option_count s =
     (let c = sl_composer s in
      if co_input c = [] then (False, s)
      else (case oi_cli_input_decode (co_decoder c) (co_input c) of (status, n, ev, d) \<Rightarrow>
        let s' = s\<lparr>sl_status := status, sl_composer := c\<lparr>co_decoder := d\<rparr>\<rparr> in
        if status = OI_ERR_AGAIN then (False, s')
        else if status \<noteq> OI_OK then (True, s')
        else (case oi_cli_selector_apply ev option_count (sl_selected s) of (st, selected, action) \<Rightarrow>
          let s'' = s'\<lparr>sl_status := st, sl_selected := selected, sl_composer := consume_input n (sl_composer s')\<rparr> in
          if st \<noteq> OI_OK then (True, s'')
          else let s3 = select_action action s'' in
            if sl_status s3 \<noteq> OI_OK \<or> sl_done s3 then (False, s3) else select_inner option_count s3)))"
  by pat_completeness auto
termination
  by (relation "measure (\<lambda>(n, s). length (co_input (sl_composer s)))") (auto simp: consume_input_def dest: decode_shrinks)

declare select_inner.simps [simp del]

definition select_poll :: "nat \<Rightarrow> poll_answer \<Rightarrow> selecting \<Rightarrow> bool \<times> selecting" where
  "select_poll option_count k s =
     (let c = sl_composer s in
      case k of
        Poll_failed \<Rightarrow> (True, s\<lparr>sl_status := OI_ERR_IO\<rparr>)
      | Poll_timeout \<Rightarrow>
          if oi_cli_composer_escape_pending c then
            (case oi_cli_input_decode_escape of (n, ev) \<Rightarrow>
               (case oi_cli_selector_apply ev option_count (sl_selected s) of (st, selected, action) \<Rightarrow>
                  let s' = s\<lparr>sl_status := st, sl_selected := selected, sl_composer := consume_input n c\<rparr> in
                  (False, if st = OI_OK then select_action action s' else s')))
          else (False, s)
      | Poll_signals resize terminate \<Rightarrow>
          if terminate \<noteq> 0 then (False, s\<lparr>sl_terminate := terminate, sl_done := True\<rparr>)
          else if resize then
            (case draw c of (st, c') \<Rightarrow> (st \<noteq> OI_OK, s\<lparr>sl_status := st, sl_composer := c'\<rparr>))
          else (False, s)
      | Poll_input_error \<Rightarrow> (True, s\<lparr>sl_status := OI_ERR_IO\<rparr>)
      | Poll_read r \<Rightarrow>
          if length (co_input c) = composer_input_cap then (True, s\<lparr>sl_status := OI_ERR_PARSE\<rparr>)
          else (case r of
              Read_bytes bs \<Rightarrow>
                (False, s\<lparr>sl_composer := c\<lparr>co_input := co_input c @ take (composer_input_cap - length (co_input c)) bs\<rparr>\<rparr>)
            | Read_eof \<Rightarrow> (True, s\<lparr>sl_status := OI_ERR_CLOSED\<rparr>)
            | _ \<Rightarrow> (True, s\<lparr>sl_status := OI_ERR_IO\<rparr>))
      | Poll_other \<Rightarrow> (False, s))"

fun select_loop :: "nat \<Rightarrow> poll_answer list \<Rightarrow> selecting \<Rightarrow> selecting option" where
  "select_loop option_count ks s =
     (if sl_done s then Some s
      else (case select_inner option_count s of (cleanup, s1) \<Rightarrow>
        if cleanup then Some s1
        else let s2 = (if sl_status s1 = OI_ERR_AGAIN then s1\<lparr>sl_status := OI_OK\<rparr> else s1) in
          if sl_status s2 \<noteq> OI_OK \<or> sl_done s2 then Some s2
          else (case ks of
              [] \<Rightarrow> None
            | k # ks' \<Rightarrow> (case select_poll option_count k s2 of (leave, s3) \<Rightarrow>
                if leave then Some s3 else select_loop option_count ks' s3))))"

declare select_loop.simps [simp del]

definition oi_cli_composer_select ::
  "(bool \<times> int) option \<Rightarrow> nat \<Rightarrow> nat \<Rightarrow> poll_answer list \<Rightarrow> oi_cli_composer \<Rightarrow> selecting option" where
  "oi_cli_composer_select signals option_count default_selected ks c =
     (let s = \<lparr>sl_status = OI_OK, sl_done = False, sl_selected = default_selected, sl_cancelled = False,
               sl_terminate = 0, sl_composer = c\<rparr> in
      if option_count = 0 \<or> default_selected \<ge> option_count then Some (s\<lparr>sl_status := OI_ERR_INVAL\<rparr>)
      else if (case signals of None \<Rightarrow> False | Some (_, terminate) \<Rightarrow> terminate \<noteq> 0)
      then Some (s\<lparr>sl_terminate := snd (the signals)\<rparr>)
      else (case draw c of (st, c') \<Rightarrow>
        let s' = s\<lparr>sl_status := st, sl_composer := c'\<rparr> in
        if st \<noteq> OI_OK then Some s' else select_loop option_count ks s'))"

section \<open>The invariant\<close>

definition composer_ok :: "oi_cli_composer \<Rightarrow> bool" where
  "composer_ok c \<longleftrightarrow> prompt_ok (\<lambda>_. False) (co_state c) \<and> length (co_input c) < composer_input_cap"

text \<open>The same while a loop runs, with the buffer possibly full.\<close>

definition loop_ok :: "oi_cli_composer \<Rightarrow> bool" where
  "loop_ok c \<longleftrightarrow> prompt_ok (\<lambda>_. False) (co_state c) \<and> length (co_input c) \<le> composer_input_cap"

lemma composer_loop_ok: "composer_ok c \<Longrightarrow> loop_ok c"
  by (simp add: composer_ok_def loop_ok_def)

lemma short_composer_ok: "loop_ok c \<Longrightarrow> length (co_input c) < 6 \<Longrightarrow> composer_ok c"
  by (simp add: composer_ok_def loop_ok_def composer_input_cap_def)

lemma apply_event_prompt_ok:
  assumes "prompt_ok (\<lambda>_. False) (co_state (w_composer w))"
  shows "prompt_ok (\<lambda>_. False) (co_state (w_composer (apply_event ev w)))"
proof -
  obtain st a s where a: "oi_cli_prompt_state_apply (co_state (w_composer w)) ev = (st, a, s)" by (metis prod_cases3)
  note s = apply_ok [OF assms a]
  obtain x s' where c: "oi_cli_prompt_state_commit s = (x, s')" by fastforce
  have "prompt_ok (\<lambda>_. False) s'" using commit_cases [OF s c] by simp
  with s show ?thesis
    by (auto simp: apply_event_def Let_def a c draw_def split: oi_cli_prompt_action.split sum.split)
qed

lemma decode_consumes:
  assumes "oi_cli_input_decode (co_decoder c) (co_input c) = (OI_OK, n, ev, d)" and "loop_ok c"
  shows "composer_ok (consume_input n (c\<lparr>co_decoder := d\<rparr>))"
  using decode_cases [OF assms(1)] assms(2)
  by (auto simp: composer_ok_def loop_ok_def consume_input_def composer_input_cap_def)

lemma wait_inner_ok: "wait_inner w = (f, w') \<Longrightarrow> loop_ok (w_composer w) \<Longrightarrow> \<not> f \<and> composer_ok (w_composer w')"
proof (induction w rule: wait_inner.induct)
  case (1 w)
  let ?c = "w_composer w"
  obtain st n ev d where dec: "oi_cli_input_decode (co_decoder ?c) (co_input ?c) = (st, n, ev, d)" by (metis prod_cases4)
  show ?case
  proof (cases "co_input ?c = []")
    case True
    with "1.prems" show ?thesis
      by (subst (asm) wait_inner.simps) (auto simp: composer_ok_def loop_ok_def composer_input_cap_def)
  next
    case ne: False
    show ?thesis
    proof (cases "st = OI_OK")
      case False
      with decode_cases [OF dec] have "st = OI_ERR_AGAIN" "length (co_input ?c) < 6" by auto
      with "1.prems" ne dec show ?thesis
        by (subst (asm) wait_inner.simps) (auto simp: Let_def composer_ok_def loop_ok_def composer_input_cap_def)
    next
      case True
      let ?w' = "w\<lparr>w_status := OI_OK, w_composer := ?c\<lparr>co_decoder := d\<rparr>\<rparr>"
      let ?w0 = "?w'\<lparr>w_composer := consume_input n (w_composer ?w')\<rparr>"
      let ?w'' = "apply_event ev ?w0"
      have c0: "composer_ok (w_composer ?w0)" using decode_consumes [OF dec [unfolded True] "1.prems"(2)] by simp
      then have c'': "composer_ok (w_composer ?w'')"
        using apply_event_prompt_ok [of ?w0 ev] by (simp add: composer_ok_def del: oi_cli_composer.simps)
      have eq: "wait_inner w = (if w_status ?w'' \<noteq> OI_OK \<or> w_done ?w'' then (False, ?w'') else wait_inner ?w'')"
        using ne dec True by (subst wait_inner.simps) (simp add: Let_def)
      show ?thesis
      proof (cases "w_status ?w'' \<noteq> OI_OK \<or> w_done ?w''")
        case True
        with eq "1.prems"(1) c'' show ?thesis by auto
      next
        case False
        then have w: "wait_inner ?w'' = (f, w')" using eq "1.prems"(1) by simp
        show ?thesis
          by (rule "1.IH" [OF refl ne dec [symmetric, unfolded True] refl refl refl _ _ refl False w composer_loop_ok [OF c'']]) simp_all
      qed
    qed
  qed
qed

lemma buffer_full:
  assumes "composer_ok c"
  shows "length (co_input c) \<noteq> composer_input_cap"
    and "loop_ok (c\<lparr>co_input := co_input c @ take (composer_input_cap - length (co_input c)) bs\<rparr>)"
  using assms by (auto simp: composer_ok_def loop_ok_def)

lemma consume_ok: "composer_ok c \<Longrightarrow> composer_ok (consume_input n c)"
  by (auto simp: composer_ok_def consume_input_def)

lemma draw_ok: "composer_ok (c\<lparr>co_draws := d\<rparr>) = composer_ok c"
  by (simp add: composer_ok_def)

lemma apply_event_ok: "composer_ok (w_composer w) \<Longrightarrow> composer_ok (w_composer (apply_event ev w))"
  using apply_event_prompt_ok [of w ev] by (simp add: composer_ok_def)

lemma wait_poll_ok:
  assumes "wait_poll k w = (f, w')" and "composer_ok (w_composer w)"
  shows "if f then composer_ok (w_composer w') else loop_ok (w_composer w')"
proof (cases k)
  case Poll_timeout
  show ?thesis
  proof (cases "oi_cli_composer_escape_pending (w_composer w)")
    case True
    with assms Poll_timeout apply_event_ok [of "w\<lparr>w_composer := consume_input 1 (w_composer w)\<rparr>"] consume_ok [OF assms(2), of 1]
    show ?thesis by (auto simp: wait_poll_def oi_cli_input_decode_escape_def Let_def intro: composer_loop_ok)
  next
    case False
    with assms Poll_timeout show ?thesis by (auto simp: wait_poll_def Let_def intro: composer_loop_ok)
  qed
next
  case (Poll_signals resize terminate)
  with assms show ?thesis
    by (auto simp: wait_poll_def Let_def draw_def draw_ok split: if_split_asm intro: composer_loop_ok)
next
  case (Poll_read r)
  with assms buffer_full [OF assms(2)] show ?thesis
    by (cases r) (auto simp: wait_poll_def Let_def intro: composer_loop_ok)
qed (use assms in \<open>auto simp: wait_poll_def Let_def intro: composer_loop_ok\<close>)

lemma wait_loop_ok: "wait_loop ks w = Some w' \<Longrightarrow> loop_ok (w_composer w) \<Longrightarrow> (w_done w \<Longrightarrow> composer_ok (w_composer w)) \<Longrightarrow>
   composer_ok (w_composer w')"
proof (induction ks arbitrary: w)
  case Nil
  obtain f w1 where i: "wait_inner w = (f, w1)" by fastforce
  with Nil wait_inner_ok [OF i Nil(2)] show ?case
    by (subst (asm) wait_loop.simps) (auto simp: Let_def split: if_split_asm)
next
  case (Cons k ks)
  obtain f w1 where i: "wait_inner w = (f, w1)" by fastforce
  note i_ok = wait_inner_ok [OF i Cons.prems(2)]
  define w2 where "w2 = (if w_status w1 = OI_ERR_AGAIN then w1\<lparr>w_status := OI_OK\<rparr> else w1)"
  have w2: "composer_ok (w_composer w2)" using i_ok by (simp add: w2_def)
  obtain leave w3 where p: "wait_poll k w2 = (leave, w3)" by fastforce
  have w3: "if leave then composer_ok (w_composer w3) else loop_ok (w_composer w3)"
    using wait_poll_ok [OF p w2] by simp
  have eq: "wait_loop (k # ks) w = (if w_done w then Some w else if w_status w2 \<noteq> OI_OK \<or> w_done w2 then Some w2
      else if leave then Some w3 else wait_loop ks w3)"
    using i i_ok p by (subst wait_loop.simps) (simp add: Let_def w2_def)
  show ?case
  proof (cases "w_done w \<or> w_status w2 \<noteq> OI_OK \<or> w_done w2 \<or> leave")
    case True
    with eq Cons.prems w2 w3 show ?thesis by (auto split: if_split_asm)
  next
    case False
    have "composer_ok (w_composer w3)" if "w_done w3"
    proof -
      have "\<not> w_done w2" using False by simp
      with p that have "(\<exists>r t. k = Poll_signals r t) \<or> k = Poll_timeout"
        by (cases k) (auto simp: wait_poll_def Let_def split: if_split_asm read_answer.splits)
      with p w2 False show ?thesis
        by (auto simp: wait_poll_def Let_def draw_def draw_ok oi_cli_input_decode_escape_def
            intro!: apply_event_ok consume_ok split: if_split_asm)
    qed
    with False eq Cons.prems(1) Cons.IH [of w3] w3 show ?thesis by simp
  qed
qed

lemma wait_cleanup_ok: "composer_ok (w_composer w) \<Longrightarrow> composer_ok (w_composer (wait_cleanup w))"
  by (simp add: wait_cleanup_def draw_def Let_def draw_ok)

lemma wait_submit_ok:
  assumes "oi_cli_composer_wait_submit signals ks c = Some w" and "composer_ok c"
  shows "composer_ok (w_composer w)"
proof -
  obtain st c' where d: "draw c = (st, c')" by fastforce
  have c': "composer_ok c'" using d assms(2) by (auto simp: draw_def draw_ok)
  show ?thesis
    using assms(1) c' by (auto simp: oi_cli_composer_wait_submit_def d Let_def split: if_split_asm option.splits prod.splits
        intro!: wait_cleanup_ok elim!: wait_loop_ok composer_loop_ok)
qed

lemma read_ok:
  assumes "composer_read r c = x" and "composer_ok c"
  shows "case x of Inl st \<Rightarrow> st \<noteq> OI_ERR_PARSE | Inr c' \<Rightarrow> loop_ok c'"
  using assms buffer_full [OF assms(2)] by (auto simp: composer_read_def split: read_answer.split)

lemma classify_ok:
  assumes "composer_ok c" and "classify_event c ev = (st, a, c')"
  shows "composer_ok c'"
proof -
  obtain st1 a1 s where p: "oi_cli_prompt_state_apply (co_state c) ev = (st1, a1, s)" by (metis prod_cases3)
  have "prompt_ok (\<lambda>_. False) s" using apply_ok [OF _ p] assms(1) by (simp add: composer_ok_def)
  moreover have "c' = c\<lparr>co_state := s\<rparr>"
    using assms(2) by (auto simp: classify_event_def p Let_def split: if_split_asm)
  ultimately show ?thesis using assms(1) by (simp add: composer_ok_def)
qed

lemma feed_loop_ok: "feed_loop c = (st, a, c') \<Longrightarrow> loop_ok c \<Longrightarrow> composer_ok c'"
proof (induction c rule: feed_loop.induct)
  case (1 c)
  obtain st1 n ev d where dec: "oi_cli_input_decode (co_decoder c) (co_input c) = (st1, n, ev, d)" by (metis prod_cases4)
  show ?case
  proof (cases "co_input c = []")
    case True
    with "1.prems" show ?thesis
      by (subst (asm) feed_loop.simps) (auto simp: composer_ok_def loop_ok_def composer_input_cap_def)
  next
    case ne: False
    show ?thesis
    proof (cases "st1 = OI_OK")
      case False
      with decode_cases [OF dec] have "st1 = OI_ERR_AGAIN" "length (co_input c) < 6" by auto
      with "1.prems" ne dec show ?thesis
        by (subst (asm) feed_loop.simps) (auto simp: Let_def composer_ok_def loop_ok_def composer_input_cap_def)
    next
      case True
      let ?c = "consume_input n (c\<lparr>co_decoder := d\<rparr>)"
      obtain st2 a2 c2 where x: "classify_event ?c ev = (st2, a2, c2)" by (metis prod_cases3)
      have c2: "composer_ok c2" by (rule classify_ok [OF decode_consumes [OF dec [unfolded True] "1.prems"(2)] x])
      have eq: "feed_loop c = (if st2 \<noteq> OI_OK then (st2, COMPOSER_NONE, c2)
          else if a2 \<noteq> COMPOSER_NONE then (OI_OK, a2, c2) else feed_loop c2)"
        using ne dec True x by (subst feed_loop.simps) (simp add: Let_def)
      show ?thesis
      proof (cases "st2 \<noteq> OI_OK \<or> a2 \<noteq> COMPOSER_NONE")
        case True
        with eq "1.prems"(1) c2 show ?thesis by (auto split: if_split_asm)
      next
        case False
        then have "feed_loop c2 = (st, a, c')" using eq "1.prems"(1) by simp
        with "1.IH" [OF ne dec [symmetric, unfolded True] refl refl refl _ _ x [symmetric]] False composer_loop_ok [OF c2]
        show ?thesis by simp
      qed
    qed
  qed
qed

lemma feed_raw_loop_ok: "feed_raw_loop f u c = (st, u', c') \<Longrightarrow> loop_ok c \<Longrightarrow> composer_ok c'"
proof (induction f u c rule: feed_raw_loop.induct)
  case (1 f u c)
  obtain st1 n ev d where dec: "oi_cli_input_decode (co_decoder c) (co_input c) = (st1, n, ev, d)" by (metis prod_cases4)
  obtain stop u1 where f: "f u ev = (stop, u1)" by fastforce
  show ?case
  proof (cases "co_input c = []")
    case True
    with "1.prems" show ?thesis
      by (subst (asm) feed_raw_loop.simps) (auto simp: composer_ok_def loop_ok_def composer_input_cap_def)
  next
    case ne: False
    show ?thesis
    proof (cases "st1 = OI_OK")
      case False
      with decode_cases [OF dec] have "st1 = OI_ERR_AGAIN" "length (co_input c) < 6" by auto
      with "1.prems" ne dec show ?thesis
        by (subst (asm) feed_raw_loop.simps) (auto simp: Let_def composer_ok_def loop_ok_def composer_input_cap_def)
    next
      case True
      let ?c = "consume_input n (c\<lparr>co_decoder := d\<rparr>)"
      have c: "composer_ok ?c" by (rule decode_consumes [OF dec [unfolded True] "1.prems"(2)])
      have eq: "feed_raw_loop f u c = (if stop then (OI_OK, u1, ?c) else feed_raw_loop f u1 ?c)"
        using ne dec True f by (subst feed_raw_loop.simps) (simp add: Let_def)
      show ?thesis
      proof (cases stop)
        case True
        with eq "1.prems"(1) c show ?thesis by auto
      next
        case False
        then have "feed_raw_loop f u1 ?c = (st, u', c')" using eq "1.prems"(1) by simp
        from "1.IH" [OF ne dec [symmetric, unfolded True] refl refl refl _ _ f [symmetric] False this composer_loop_ok [OF c]]
        show ?thesis by simp
      qed
    qed
  qed
qed

lemma select_action_sel [simp]:
  "sl_selected (select_action a s) = sl_selected s"
  "loop_ok (sl_composer (select_action a s)) = loop_ok (sl_composer s)"
  "composer_ok (sl_composer (select_action a s)) = composer_ok (sl_composer s)"
  by (simp_all add: select_action_def draw_def loop_ok_def composer_ok_def split: oi_cli_selector_action.split)

lemma select_inner_ok: "select_inner n s = (f, s') \<Longrightarrow> loop_ok (sl_composer s) \<Longrightarrow> sl_selected s < n \<Longrightarrow>
   \<not> f \<and> composer_ok (sl_composer s') \<and> sl_selected s' < n"
proof (induction n s rule: select_inner.induct)
  case (1 n s)
  let ?c = "sl_composer s"
  obtain st k ev d where dec: "oi_cli_input_decode (co_decoder ?c) (co_input ?c) = (st, k, ev, d)" by (metis prod_cases4)
  show ?case
  proof (cases "co_input ?c = []")
    case True
    with "1.prems" show ?thesis
      by (subst (asm) select_inner.simps) (auto simp: composer_ok_def loop_ok_def composer_input_cap_def)
  next
    case ne: False
    show ?thesis
    proof (cases "st = OI_OK")
      case False
      with decode_cases [OF dec] have "st = OI_ERR_AGAIN" "length (co_input ?c) < 6" by auto
      with "1.prems" ne dec show ?thesis
        by (subst (asm) select_inner.simps) (auto simp: Let_def composer_ok_def loop_ok_def composer_input_cap_def)
    next
      case True
      obtain st1 selected action where a: "oi_cli_selector_apply ev n (sl_selected s) = (st1, selected, action)" by (metis prod_cases3)
      note sel = selector_in_range [OF "1.prems"(3) a]
      let ?s0 = "s\<lparr>sl_status := OI_OK, sl_composer := ?c\<lparr>co_decoder := d\<rparr>\<rparr>"
      let ?s1 = "?s0\<lparr>sl_status := st1, sl_selected := selected, sl_composer := consume_input k (sl_composer ?s0)\<rparr>"
      let ?s3 = "select_action action ?s1"
      have c: "composer_ok (sl_composer ?s3)" using decode_consumes [OF dec [unfolded True] "1.prems"(2)] by simp
      have eq: "select_inner n s = (if sl_status ?s3 \<noteq> OI_OK \<or> sl_done ?s3 then (False, ?s3) else select_inner n ?s3)"
        using ne dec True a sel by (subst select_inner.simps) (simp add: Let_def)
      show ?thesis
      proof (cases "sl_status ?s3 \<noteq> OI_OK \<or> sl_done ?s3")
        case True
        with eq "1.prems"(1) c sel show ?thesis by auto
      next
        case False
        then have i: "select_inner n ?s3 = (f, s')" using eq "1.prems"(1) by simp
        show ?thesis
          by (rule "1.IH" [OF refl ne dec [symmetric, unfolded True] refl refl refl _ _ a [symmetric] refl refl _ refl False i composer_loop_ok [OF c]])
            (use sel in simp_all)
      qed
    qed
  qed
qed

lemma select_poll_ok:
  assumes "select_poll n k s = (f, s')" and "composer_ok (sl_composer s)" and "sl_selected s < n"
  shows "(if f then composer_ok (sl_composer s') else loop_ok (sl_composer s')) \<and> sl_selected s' < n
    \<and> (sl_done s' \<longrightarrow> \<not> sl_done s \<longrightarrow> composer_ok (sl_composer s'))"
proof (cases k)
  case Poll_timeout
  show ?thesis
  proof (cases "oi_cli_composer_escape_pending (sl_composer s)")
    case True
    obtain st selected action where a: "oi_cli_selector_apply (set_simple_event INPUT_ESCAPE) n (sl_selected s) = (st, selected, action)"
      by (metis prod_cases3)
    from selector_in_range [OF assms(3) a] assms Poll_timeout True a consume_ok [OF assms(2), of 1] show ?thesis
      by (auto simp: select_poll_def oi_cli_input_decode_escape_def Let_def intro: composer_loop_ok)
  next
    case False
    with assms Poll_timeout show ?thesis by (auto simp: select_poll_def Let_def intro: composer_loop_ok)
  qed
next
  case (Poll_signals resize terminate)
  with assms show ?thesis
    by (auto simp: select_poll_def Let_def draw_def draw_ok split: if_split_asm intro: composer_loop_ok)
next
  case (Poll_read r)
  with assms buffer_full [OF assms(2)] show ?thesis
    by (cases r) (auto simp: select_poll_def Let_def intro: composer_loop_ok)
qed (use assms in \<open>auto simp: select_poll_def Let_def intro: composer_loop_ok\<close>)

lemma select_loop_ok: "select_loop n ks s = Some s' \<Longrightarrow> loop_ok (sl_composer s) \<Longrightarrow> sl_selected s < n \<Longrightarrow>
   (sl_done s \<Longrightarrow> composer_ok (sl_composer s)) \<Longrightarrow> composer_ok (sl_composer s') \<and> sl_selected s' < n"
proof (induction ks arbitrary: s)
  case Nil
  obtain f s1 where i: "select_inner n s = (f, s1)" by fastforce
  with Nil select_inner_ok [OF i Nil(2,3)] show ?case
    by (subst (asm) select_loop.simps) (auto simp: Let_def split: if_split_asm)
next
  case (Cons k ks)
  obtain f s1 where i: "select_inner n s = (f, s1)" by fastforce
  note i_ok = select_inner_ok [OF i Cons.prems(2,3)]
  define s2 where "s2 = (if sl_status s1 = OI_ERR_AGAIN then s1\<lparr>sl_status := OI_OK\<rparr> else s1)"
  have s2: "composer_ok (sl_composer s2)" "sl_selected s2 < n" using i_ok by (simp_all add: s2_def)
  obtain leave s3 where p: "select_poll n k s2 = (leave, s3)" by fastforce
  note s3 = select_poll_ok [OF p s2]
  have eq: "select_loop n (k # ks) s = (if sl_done s then Some s else if sl_status s2 \<noteq> OI_OK \<or> sl_done s2 then Some s2
      else if leave then Some s3 else select_loop n ks s3)"
    using i i_ok p by (subst select_loop.simps) (simp add: Let_def s2_def)
  show ?case
  proof (cases "sl_done s \<or> sl_status s2 \<noteq> OI_OK \<or> sl_done s2 \<or> leave")
    case True
    with eq Cons.prems s2 s3 show ?thesis by (auto split: if_split_asm)
  next
    case False
    with eq Cons.prems(1) Cons.IH [of s3] s3 show ?thesis by simp
  qed
qed

lemma select_ok:
  assumes "oi_cli_composer_select signals n dflt ks c = Some s" and "composer_ok c"
  shows "composer_ok (sl_composer s) \<and> (dflt < n \<longrightarrow> sl_selected s < n)"
proof -
  obtain st c' where d: "draw c = (st, c')" by fastforce
  have c': "composer_ok c'" using d assms(2) by (auto simp: draw_def draw_ok)
  show ?thesis
  proof (cases "n = 0 \<or> dflt \<ge> n \<or> (case signals of None \<Rightarrow> False | Some (_, terminate) \<Rightarrow> terminate \<noteq> 0) \<or> st \<noteq> OI_OK")
    case True
    with assms c' d show ?thesis by (auto simp: oi_cli_composer_select_def Let_def split: if_split_asm)
  next
    case False
    let ?s = "\<lparr>sl_status = st, sl_done = False, sl_selected = dflt, sl_cancelled = False, sl_terminate = 0, sl_composer = c'\<rparr>"
    have "select_loop n ks ?s = Some s" using assms(1) False d by (simp add: oi_cli_composer_select_def Let_def)
    from select_loop_ok [OF this] composer_loop_ok [OF c'] False show ?thesis by simp
  qed
qed

lemma set_draft_ok:
  assumes "composer_ok c"
  shows "composer_ok (snd (oi_cli_composer_set_draft c t))"
proof -
  obtain st e where e: "oi_cli_editor_set (ps_editor (co_state c)) t = (st, e)" by fastforce
  obtain s where s: "editor_rep (ps_editor (co_state c)) s"
    using assms by (auto simp: composer_ok_def elim: prompt_okD)
  have "editor_ok e" using set_refines [OF s e] by (auto intro: editor_okI split: if_split_asm)
  with assms show ?thesis by (simp add: oi_cli_composer_set_draft_def e composer_ok_def prompt_ok_def menu_ok_def)
qed

section \<open>Properties\<close>

inductive reachable_composer :: "oi_cli_composer \<Rightarrow> bool" where
  init: "history_run ops (oi_cli_input_history_init h0) = (log, hist) \<Longrightarrow>
           reachable_composer (oi_cli_composer_init hist h1 h2 draws)"
| feed: "reachable_composer c \<Longrightarrow> oi_cli_composer_feed r c = (st, a, c') \<Longrightarrow> reachable_composer c'"
| feed_raw: "reachable_composer c \<Longrightarrow> oi_cli_composer_feed_raw (\<lambda>seen ev. (stop (ev # seen), ev # seen)) [] r c = (st, seen, c')
     \<Longrightarrow> reachable_composer c'"
| escape: "reachable_composer c \<Longrightarrow> oi_cli_composer_resolve_escape c = (st, a, c') \<Longrightarrow> reachable_composer c'"
| submit: "reachable_composer c \<Longrightarrow> oi_cli_composer_wait_submit signals ks c = Some w \<Longrightarrow> reachable_composer (w_composer w)"
| select: "reachable_composer c \<Longrightarrow> oi_cli_composer_select signals n dflt ks c = Some s \<Longrightarrow> reachable_composer (sl_composer s)"
| commit_draft: "reachable_composer c \<Longrightarrow> oi_cli_composer_commit_draft c = (x, c') \<Longrightarrow> reachable_composer c'"
| set_draft: "reachable_composer c \<Longrightarrow> reachable_composer (snd (oi_cli_composer_set_draft c t))"

lemma prompt_ok_weaken: "prompt_ok (\<lambda>_. True) s \<Longrightarrow> prompt_ok (\<lambda>_. False) s"
  unfolding prompt_ok_def menu_ok_def by blast

lemma reachable_composer_ok: "reachable_composer c \<Longrightarrow> composer_ok c"
proof (induction rule: reachable_composer.induct)
  case (init ops h0 log hist h1 h2 draws)
  have "prompt_ok (\<lambda>_. False) (oi_cli_prompt_state_init hist h1 h2)"
    by (rule prompt_ok_weaken [OF init_prompt_ok [OF history_run_init_ok [OF init]]])
  then show ?case by (simp add: composer_ok_def oi_cli_composer_init_def composer_input_cap_def)
next
  case (feed c r st a c')
  then show ?case using read_ok [OF refl feed(3), of r]
    by (auto simp: oi_cli_composer_feed_def split: sum.splits elim: feed_loop_ok)
next
  case (feed_raw c stop r st seen c')
  then show ?case using read_ok [OF refl feed_raw(3), of r]
    by (auto simp: oi_cli_composer_feed_raw_def split: sum.splits elim: feed_raw_loop_ok)
next
  case (escape c st a c')
  then show ?case
    by (auto simp: oi_cli_composer_resolve_escape_def oi_cli_input_decode_escape_def intro: classify_ok consume_ok)
next
  case (commit_draft c x c')
  then show ?case using commit_cases [of "\<lambda>_. False" "co_state c"]
    by (auto simp: oi_cli_composer_commit_draft_def composer_ok_def split: prod.splits)
qed (auto intro: wait_submit_ok set_draft_ok dest: select_ok)

text \<open>
  C35. Whatever the terminal delivers in whatever pieces, whatever signals come and however memory and drawing
  fail, between calls at most 4095 bytes are held, so a read always has room and the buffer never overflows, the
  text stays well-formed UTF-8 with the cursor between two characters, and every menu entry and the selection
  stay in range.
\<close>

theorem composer_stays_in_bounds:
  assumes "reachable_composer c"
  shows "length (co_input c) < composer_input_cap \<and> composer_read r c \<noteq> Inl OI_ERR_PARSE
    \<and> (let s = co_state c; text = ed_data (ps_editor s); cursor = ed_cursor (ps_editor s) in
         oi_cli_utf8_validate (take cursor text) = OI_OK \<and> oi_cli_utf8_validate (drop cursor text) = OI_OK
       \<and> list_all (\<lambda>i. i < oi_cli_command_count) (ps_matches s)
       \<and> (if ps_matches s = [] then ps_selection s = 0 else ps_selection s < length (ps_matches s)))"
proof -
  have ok: "composer_ok c" by (rule reachable_composer_ok [OF assms])
  then have p: "prompt_ok (\<lambda>_. False) (co_state c)" by (simp add: composer_ok_def)
  then obtain us vs where rep: "editor_rep (ps_editor (co_state c)) (us, vs)" by (auto simp: prompt_ok_def editor_ok_def)
  note e = rep_parts [OF rep]
  have "utf8_text (encode_text us)" "utf8_text (encode_text vs)" using e(5,6) by (auto simp: utf8_text_def)
  moreover have "take (ed_cursor (ps_editor (co_state c))) (ed_data (ps_editor (co_state c))) = encode_text us"
    "drop (ed_cursor (ps_editor (co_state c))) (ed_data (ps_editor (co_state c))) = encode_text vs"
    by (simp_all add: e(1,2) del: length_concat)
  moreover have "composer_read r c \<noteq> Inl OI_ERR_PARSE" using read_ok [OF refl ok, of r] by (auto split: sum.splits)
  moreover have "list_all (\<lambda>i. i < 8) (ps_matches (co_state c))"
      "if ps_matches (co_state c) = [] then ps_selection (co_state c) = 0 else ps_selection (co_state c) < length (ps_matches (co_state c))"
    using p unfolding prompt_ok_def menu_ok_def by blast+
  ultimately show ?thesis using ok by (simp add: composer_ok_def Let_def validate_text)
qed

theorem composer_stays_in_bounds_witness:
  "\<exists>c. oi_cli_composer_feed (Read_bytes [0x1B, 0x5B]) (oi_cli_composer_init (oi_cli_input_history_init heap_ok) heap_ok heap_ok (sconst OI_OK))
      = (OI_OK, COMPOSER_NONE, c) \<and> co_input c = [0x1B, 0x5B] \<and> composer_read Read_again c \<noteq> Inl OI_ERR_PARSE"
proof -
  let ?c = "oi_cli_composer_init (oi_cli_input_history_init heap_ok) heap_ok heap_ok (sconst OI_OK)"
  let ?x = "oi_cli_composer_feed (Read_bytes [0x1B, 0x5B]) ?c"
  have x: "?x = (OI_OK, COMPOSER_NONE, ?c\<lparr>co_input := [0x1B, 0x5B]\<rparr>)"
    by (simp add: oi_cli_composer_feed_def composer_read_def composer_input_cap_def oi_cli_composer_init_def
        feed_loop.simps oi_cli_input_decode_def oi_cli_input_decoder_init_def decode_escape_def escape_mappings_def)
  have "history_run [] (oi_cli_input_history_init heap_ok) = ([], oi_cli_input_history_init heap_ok)" by simp
  from reachable_composer.feed [OF reachable_composer.init [OF this] x]
  have "reachable_composer (?c\<lparr>co_input := [0x1B, 0x5B]\<rparr>)" .
  from composer_stays_in_bounds [OF this, of Read_again] x show ?thesis by auto
qed

section \<open>Events and reads\<close>

text \<open>Applying an event does not depend on the bytes still to decode.\<close>

definition set_io :: "bytes \<Rightarrow> oi_cli_input_decoder \<Rightarrow> wait \<Rightarrow> wait" where
  "set_io i d w = w\<lparr>w_composer := (w_composer w)\<lparr>co_input := i, co_decoder := d\<rparr>\<rparr>"

lemma set_io_sel [simp]:
  "w_status (set_io i d w) = w_status w" "w_done (set_io i d w) = w_done w" "w_text (set_io i d w) = w_text w"
  "w_exit (set_io i d w) = w_exit w" "w_terminate (set_io i d w) = w_terminate w"
  "co_input (w_composer (set_io i d w)) = i" "co_decoder (w_composer (set_io i d w)) = d"
  "co_state (w_composer (set_io i d w)) = co_state (w_composer w)"
  "co_draws (w_composer (set_io i d w)) = co_draws (w_composer w)"
  "set_io i d (set_io i' d' w) = set_io i d w"
  by (simp_all add: set_io_def)

lemma set_io_same: "set_io (co_input (w_composer w)) (co_decoder (w_composer w)) w = w"
  by (simp add: set_io_def)

lemma apply_set_io: "apply_event ev (set_io i d w) = set_io i d (apply_event ev w)"
  by (simp add: apply_event_def set_io_def draw_def Let_def split: prod.split oi_cli_prompt_action.split sum.split)

lemma apply_status: "apply_event ev (w\<lparr>w_status := st\<rparr>) = apply_event ev w"
  by (simp add: apply_event_def draw_def Let_def split: prod.split oi_cli_prompt_action.split sum.split)

definition apply_events :: "oi_cli_input_event list \<Rightarrow> wait \<Rightarrow> wait" where
  "apply_events evs w = fold apply_event evs w"

primrec quiet :: "oi_cli_input_event list \<Rightarrow> wait \<Rightarrow> bool" where
  "quiet [] w = True"
| "quiet (ev # evs) w = (w_status (apply_event ev w) = OI_OK \<and> \<not> w_done (apply_event ev w) \<and> quiet evs (apply_event ev w))"

lemma apply_events_simps [simp]:
  "apply_events [] w = w" "apply_events (ev # evs) w = apply_events evs (apply_event ev w)"
  "apply_events (evs @ evs') w = apply_events evs' (apply_events evs w)"
  by (simp_all add: apply_events_def)

lemma quiet_append [simp]: "quiet (evs @ evs') w \<longleftrightarrow> quiet evs w \<and> quiet evs' (apply_events evs w)"
  by (induction evs arbitrary: w) simp_all

lemma apply_events_set_io: "apply_events evs (set_io i d w) = set_io i d (apply_events evs w)"
  by (induction evs arbitrary: w) (simp_all add: apply_set_io)

lemma quiet_set_io [simp]: "quiet evs (set_io i d w) = quiet evs w"
  by (induction evs arbitrary: w) (simp_all add: apply_set_io)

lemma quiet_last: "quiet evs w \<Longrightarrow> evs \<noteq> [] \<Longrightarrow> w_status (apply_events evs w) = OI_OK \<and> \<not> w_done (apply_events evs w)"
proof (induction evs arbitrary: w)
  case (Cons ev evs)
  then show ?case by (cases "evs = []") simp_all
qed simp

lemma composer_swap: "c\<lparr>co_decoder := d, co_input := i\<rparr> = c\<lparr>co_input := i, co_decoder := d\<rparr>"
  by (cases c) simp

lemma wait_inner_step:
  assumes "oi_cli_input_decode (co_decoder (w_composer w)) (co_input (w_composer w)) = (OI_OK, n, ev, d)"
  shows "wait_inner w = (let w' = set_io (drop n (co_input (w_composer w))) d (apply_event ev w) in
    if w_status w' \<noteq> OI_OK \<or> w_done w' then (False, w') else wait_inner w')"
proof -
  have "co_input (w_composer w) \<noteq> []" using assms by (auto simp: oi_cli_input_decode_def)
  moreover have "apply_event ev (w\<lparr>w_status := OI_OK, w_composer := consume_input n ((w_composer w)\<lparr>co_decoder := d\<rparr>)\<rparr>)
      = set_io (drop n (co_input (w_composer w))) d (apply_event ev w)"
    using apply_set_io [of ev "drop n (co_input (w_composer w))" d "w\<lparr>w_status := OI_OK\<rparr>"]
    by (simp add: set_io_def consume_input_def apply_status composer_swap)
  ultimately show ?thesis using assms by (subst wait_inner.simps) (simp add: Let_def)
qed

text \<open>The inner loop applies the events of the input, up to one that ends it.\<close>

lemma wait_inner_quiet:
  "input_events (co_decoder (w_composer w)) (co_input (w_composer w)) = (evs, left, d') \<Longrightarrow> quiet evs w \<Longrightarrow>
   \<exists>st. wait_inner w = (False, (set_io left d' (apply_events evs w))\<lparr>w_status := st\<rparr>)
     \<and> (st = OI_ERR_AGAIN \<or> st = w_status (apply_events evs w))"
proof (induction evs arbitrary: w)
  case Nil
  let ?c = "w_composer w"
  obtain st n ev d where dec: "oi_cli_input_decode (co_decoder ?c) (co_input ?c) = (st, n, ev, d)" by (metis prod_cases4)
  have st: "st \<noteq> OI_OK" using Nil(1) input_events_step dec by fastforce
  with decode_cases [OF dec] have again: "st = OI_ERR_AGAIN" "d = co_decoder ?c" by auto
  have same: "left = co_input ?c" "d' = co_decoder ?c" using Nil(1) input_events_stop [OF dec st] by auto
  show ?case
  proof (cases "co_input ?c = []")
    case True
    then have "wait_inner w = (False, w)" by (subst wait_inner.simps) simp
    moreover have "w = (set_io left d' w)\<lparr>w_status := w_status w\<rparr>" using set_io_same [of w] by (simp add: same)
    ultimately show ?thesis by auto
  next
    case False
    then have "wait_inner w = (False, w\<lparr>w_status := OI_ERR_AGAIN\<rparr>)"
      using dec again by (subst wait_inner.simps) (simp add: Let_def)
    moreover have "w\<lparr>w_status := OI_ERR_AGAIN\<rparr> = (set_io left d' w)\<lparr>w_status := OI_ERR_AGAIN\<rparr>"
      using set_io_same [of w] by (simp add: same)
    ultimately show ?thesis by auto
  qed
next
  case (Cons ev evs)
  let ?c = "w_composer w"
  obtain st n ev' d where dec: "oi_cli_input_decode (co_decoder ?c) (co_input ?c) = (st, n, ev', d)" by (metis prod_cases4)
  have st: "st = OI_OK" using Cons.prems(1) input_events_stop [OF dec] by fastforce
  note dec = dec [unfolded st]
  have ev: "ev' = ev" "input_events d (drop n (co_input ?c)) = (evs, left, d')"
    using Cons.prems(1) input_events_step [OF dec] by (auto simp: prod_eq_iff)
  let ?w = "set_io (drop n (co_input ?c)) d (apply_event ev w)"
  have "wait_inner w = wait_inner ?w" using wait_inner_step [OF dec] Cons.prems(2) ev(1) by (simp add: Let_def)
  with Cons.IH [of ?w] ev(2) Cons.prems(2) show ?case by (simp add: apply_events_set_io)
qed

lemma wait_inner_done:
  "input_events (co_decoder (w_composer w)) (co_input (w_composer w)) = (evs @ ev # evs', left, d') \<Longrightarrow> quiet evs w \<Longrightarrow>
   w_done (apply_event ev (apply_events evs w)) \<Longrightarrow>
   \<exists>i d. wait_inner w = (False, set_io i d (apply_event ev (apply_events evs w)))"
proof (induction evs arbitrary: w)
  case Nil
  let ?c = "w_composer w"
  obtain st n ev1 d where dec: "oi_cli_input_decode (co_decoder ?c) (co_input ?c) = (st, n, ev1, d)" by (metis prod_cases4)
  have st: "st = OI_OK" using Nil.prems(1) input_events_stop [OF dec] by fastforce
  note dec = dec [unfolded st]
  have "ev1 = ev" using Nil.prems(1) input_events_step [OF dec] by auto
  with wait_inner_step [OF dec] Nil.prems(3) show ?case by (auto simp: Let_def)
next
  case (Cons e evs)
  let ?c = "w_composer w"
  obtain st n ev1 d where dec: "oi_cli_input_decode (co_decoder ?c) (co_input ?c) = (st, n, ev1, d)" by (metis prod_cases4)
  have st: "st = OI_OK" using Cons.prems(1) input_events_stop [OF dec] by fastforce
  note dec = dec [unfolded st]
  have ev: "ev1 = e" "input_events d (drop n (co_input ?c)) = (evs @ ev # evs', left, d')"
    using Cons.prems(1) input_events_step [OF dec] by (auto simp: prod_eq_iff)
  let ?w = "set_io (drop n (co_input ?c)) d (apply_event e w)"
  have eq: "wait_inner w = wait_inner ?w" using wait_inner_step [OF dec] Cons.prems(2) ev(1) by (simp add: Let_def)
  have "\<exists>i d. wait_inner ?w = (False, set_io i d (apply_event ev (apply_events evs ?w)))"
    by (rule Cons.IH) (use ev(2) Cons.prems(2,3) in \<open>simp_all add: apply_events_set_io apply_set_io\<close>)
  with eq show ?case by (simp add: apply_events_set_io apply_set_io)
qed


text \<open>The reads that bring a line, cut anywhere, give what its events give.\<close>

lemma wait_loop_reads:
  assumes "input_events (co_decoder (w_composer w)) (co_input (w_composer w) @ concat bss) = (evs @ [ev], x)"
    and "quiet evs w" and "w_done (apply_event ev (apply_events evs w))" and "w_status w = OI_OK" and "\<not> w_done w"
    and "w_status (apply_event ev (apply_events evs w)) = OI_OK" and "list_all (\<lambda>bs. length bs \<le> 4090) bss"
  shows "\<exists>i d. wait_loop (map (\<lambda>bs. Poll_read (Read_bytes bs)) bss) w = Some (set_io i d (apply_event ev (apply_events evs w)))"
  using assms
proof (induction bss arbitrary: w evs)
  case Nil
  then have "input_events (co_decoder (w_composer w)) (co_input (w_composer w)) = (evs @ ev # [], fst x, snd x)" by simp
  from wait_inner_done [OF this Nil.prems(2,3)] obtain i d
    where "wait_inner w = (False, set_io i d (apply_event ev (apply_events evs w)))" by blast
  with Nil.prems(3,5,6) show ?case by (intro exI [of _ i] exI [of _ d]) (simp add: wait_loop.simps Let_def)
next
  case (Cons bs bss)
  obtain e1 left d1 where e1: "input_events (co_decoder (w_composer w)) (co_input (w_composer w)) = (e1, left, d1)" by (metis prod_cases3)
  obtain e2 y where e2: "input_events d1 (left @ bs @ concat bss) = (e2, y)" by (rule prod.exhaust)
  have split: "e1 @ e2 = evs @ [ev]" "y = x"
    using Cons.prems(1) input_events_append [of "co_decoder (w_composer w)" "co_input (w_composer w)" "bs @ concat bss"] e1 e2 by simp_all
  show ?case
  proof (cases e2 rule: rev_cases)
    case Nil
    then have "input_events (co_decoder (w_composer w)) (co_input (w_composer w)) = (evs @ ev # [], left, d1)" using e1 split by simp
    from wait_inner_done [OF this Cons.prems(2,3)] obtain i d
      where "wait_inner w = (False, set_io i d (apply_event ev (apply_events evs w)))" by blast
    with Cons.prems(3,5,6) show ?thesis by (intro exI [of _ i] exI [of _ d]) (simp add: wait_loop.simps Let_def)
  next
    case (snoc e2' ev')
    then have evs: "evs = e1 @ e2'" "ev' = ev" using split by auto
    have q: "quiet e1 w" "quiet e2' (apply_events e1 w)" using Cons.prems(2) evs by simp_all
    obtain st where i: "wait_inner w = (False, (set_io left d1 (apply_events e1 w))\<lparr>w_status := st\<rparr>)"
      "st = OI_ERR_AGAIN \<or> st = w_status (apply_events e1 w)"
      using wait_inner_quiet [OF e1 q(1)] by blast
    have ok: "w_status (apply_events e1 w) = OI_OK" "\<not> w_done (apply_events e1 w)"
      using quiet_last [OF q(1)] Cons.prems(4,5) by (cases "e1 = []"; simp)+
    let ?w2 = "set_io left d1 (apply_events e1 w)"
    let ?w3 = "set_io (left @ bs) d1 (apply_events e1 w)"
    have w2: "(if st = OI_ERR_AGAIN then (?w2\<lparr>w_status := st\<rparr>)\<lparr>w_status := OI_OK\<rparr> else ?w2\<lparr>w_status := st\<rparr>) = ?w2"
      using i(2) ok by (cases "apply_events e1 w") (auto simp: set_io_def)
    have room: "length left < 6" using input_events_rest [OF e1] .
    have "length bs \<le> 4090" using Cons.prems(7) by simp
    with room have "length bs \<le> 4096 - length left" by linarith
    then have all: "take (4096 - length left) bs = bs" by simp
    have p: "wait_poll (Poll_read (Read_bytes bs)) ?w2 = (False, ?w3)"
      using room all by (simp add: wait_poll_def composer_input_cap_def Let_def set_io_def composer_swap)
    have "wait_loop (map (\<lambda>bs. Poll_read (Read_bytes bs)) (bs # bss)) w
        = wait_loop (map (\<lambda>bs. Poll_read (Read_bytes bs)) bss) ?w3"
      using i ok w2 p Cons.prems(5) by (subst wait_loop.simps) (auto simp: Let_def)
    moreover have "\<exists>i d. wait_loop (map (\<lambda>bs. Poll_read (Read_bytes bs)) bss) ?w3 = Some (set_io i d (apply_event ev (apply_events e2' ?w3)))"
      by (rule Cons.IH) (use e2 snoc evs split(2) Cons.prems ok q in \<open>simp_all add: apply_events_set_io apply_set_io\<close>)
    ultimately show ?thesis by (simp add: evs apply_events_set_io apply_set_io)
  qed
qed

section \<open>While memory lasts\<close>

lemma insert_total:
  assumes "editor_rep e (us, vs)" and "ed_heap e = heap_ok" and "validate_editor_text t = OI_OK"
    and "length (ed_data e) + length t \<le> oi_cli_editor_max_bytes"
  obtains e' where "oi_cli_editor_insert e t = (OI_OK, e')" "ed_heap e' = heap_ok" "editor_rep e' (us @ points t, vs)"
proof -
  obtain st e' where i: "oi_cli_editor_insert e t = (st, e')" by fastforce
  have "st = OI_OK \<and> ed_heap e' = heap_ok"
    using i rep_parts(3) [OF assms(1)] assms(2-4)
    by (auto simp: oi_cli_editor_insert_def editor_reserve_def Let_def split: if_split_asm prod.splits)
  moreover have "editor_rep e' (us @ points t, vs)" using insert_refines [OF assms(1) i] calculation by simp
  ultimately show thesis using i that by blast
qed

lemma history_append_total:
  assumes "ih_heap h = heap_ok" and "history_text t" and "history_ok h"
  obtains h' where "oi_cli_input_history_append h t = (OI_OK, h')" "ih_heap h' = heap_ok"
proof -
  have m: "ih_heap (make_room (length t) (h\<lparr>ih_heap := heap_ok\<rparr>)) = heap_ok"
    using make_room_keeps [of "h\<lparr>ih_heap := heap_ok\<rparr>" t] history_text_bounds [OF assms(2)] assms(3)
    by (simp add: history_ok_def)
  obtain st h' where r: "oi_cli_input_history_append h t = (st, h')" by fastforce
  have "st = OI_OK \<and> ih_heap h' = heap_ok"
    using r assms(1,2) m by (auto simp: oi_cli_input_history_append_def history_text_def reserve_entries_def reset_navigation_def
        Let_def split: if_split_asm prod.splits)
  with r that show thesis by blast
qed

definition typing :: "nat list \<Rightarrow> bool \<Rightarrow> wait \<Rightarrow> bool" where
  "typing us pasting w \<longleftrightarrow>
     (let c = w_composer w; s = co_state c in
      prompt_ok (\<lambda>_. True) s \<and> editor_rep (ps_editor s) (us, []) \<and> ps_pasting s = pasting
      \<and> ed_heap (ps_editor s) = heap_ok \<and> ih_heap (ps_history s) = heap_ok \<and> ps_heap s = heap_ok
      \<and> co_draws c = sconst OI_OK \<and> w_status w = OI_OK \<and> \<not> w_done w \<and> w_text w = None \<and> \<not> w_exit w \<and> w_terminate w = 0)"

lemma validate_encode_point:
  assumes "scalar_value cp" and "cp \<noteq> 0"
  shows "validate_editor_text (utf8_encode cp) = OI_OK" and "points (utf8_encode cp) = [cp]"
proof -
  have "oi_cli_utf8_validate (utf8_encode cp) = OI_OK" using validate_encode [OF assms(1), of "[]"] by (simp add: validate_Nil)
  moreover have "0 \<notin> set (utf8_encode cp)" using ascii_in_encode [OF assms(1), of 0] assms(2) by simp
  ultimately show "validate_editor_text (utf8_encode cp) = OI_OK"
    using utf8_encode_length(2) [of cp] by (simp add: validate_editor_text_def oi_cli_editor_max_bytes_def)
  show "points (utf8_encode cp) = [cp]" using points_encode [of "[cp]"] assms(1) by simp
qed

lemma type_point:
  assumes "typing us True w" and "scalar_value cp" and "cp \<noteq> 0" and "length (encode_text (us @ [cp])) \<le> oi_cli_editor_max_bytes"
  shows "typing (us @ [cp]) True (apply_event (text_event p cp) w)"
proof -
  let ?s = "co_state (w_composer w)" and ?ev = "text_event p cp"
  have t: "prompt_ok (\<lambda>_. True) ?s" "editor_rep (ps_editor ?s) (us, [])" "ps_pasting ?s" "ed_heap (ps_editor ?s) = heap_ok"
    using assms(1) by (simp_all add: typing_def Let_def)
  have "length (ed_data (ps_editor ?s)) + length (utf8_encode cp) \<le> oi_cli_editor_max_bytes"
    using rep_parts(1) [OF t(2)] assms(4) by simp
  from insert_total [OF t(2,4) validate_encode_point(1) [OF assms(2,3)] this] validate_encode_point(2) [OF assms(2,3)]
  obtain e' where e: "oi_cli_editor_insert (ps_editor ?s) (utf8_encode cp) = (OI_OK, e')" "ed_heap e' = heap_ok"
    "editor_rep e' (us @ [cp], [])" by metis
  have a: "oi_cli_prompt_state_apply ?s ?ev = (OI_OK, PROMPT_NONE, refresh_commands (?s\<lparr>ps_editor := e'\<rparr>))"
    using e t(3) utf8_encode_length [of cp]
    by (simp add: oi_cli_prompt_state_apply_def text_event_def finish_apply_def edit_prompt_def refresh_commands_def Let_def)
  have "prompt_ok (\<lambda>_. True) (refresh_commands (?s\<lparr>ps_editor := e'\<rparr>))" by (rule apply_ok [OF t(1) a])
  with assms(1) a e show ?thesis
    by (simp add: typing_def apply_event_def Let_def refresh_commands_def)
qed

lemma type_points:
  "typing us True w \<Longrightarrow> list_all (\<lambda>cp. scalar_value cp \<and> cp \<noteq> 0) cps \<Longrightarrow>
   length (encode_text (us @ cps)) \<le> oi_cli_editor_max_bytes \<Longrightarrow>
   typing (us @ cps) True (apply_events (map (text_event True) cps) w) \<and> quiet (map (text_event True) cps) w"
proof (induction cps arbitrary: us w)
  case (Cons cp cps)
  have "length (encode_text (us @ [cp])) \<le> oi_cli_editor_max_bytes" using Cons.prems(3) by simp
  with Cons.prems have t: "typing (us @ [cp]) True (apply_event (text_event True cp) w)" by (intro type_point) simp_all
  from Cons.IH [OF t] Cons.prems t show ?case by (simp add: typing_def Let_def)
qed simp

lemma paste_events_typed:
  assumes "typing [] False w" and "list_all (\<lambda>cp. scalar_value cp \<and> cp \<noteq> 0) cps"
    and "length (encode_text cps) \<le> oi_cli_editor_max_bytes"
  defines "evs \<equiv> set_simple_event INPUT_PASTE_BEGIN # map (text_event True) cps @ [set_simple_event INPUT_PASTE_END]"
  shows "typing cps False (apply_events evs w) \<and> quiet evs w"
proof -
  let ?w1 = "apply_event (set_simple_event INPUT_PASTE_BEGIN) w"
  have w1: "typing [] True ?w1"
    using assms(1) by (simp add: typing_def apply_event_def oi_cli_prompt_state_apply_def set_simple_event_def Let_def prompt_ok_def)
  note t = type_points [OF w1 assms(2), simplified, OF assms(3)]
  let ?w2 = "apply_events (map (text_event True) cps) ?w1"
  have "typing cps False (apply_event (set_simple_event INPUT_PASTE_END) ?w2)"
    using t by (simp add: typing_def apply_event_def oi_cli_prompt_state_apply_def set_simple_event_def Let_def prompt_ok_def draw_def)
  with t w1 show ?thesis by (simp add: evs_def typing_def Let_def)
qed

lemma rep_valid:
  assumes "editor_rep e (us, vs)"
  shows "validate_editor_text (ed_data e) = OI_OK"
proof -
  note p = rep_parts [OF assms]
  have d: "ed_data e = encode_text (us @ vs)" by (simp add: p(1))
  have "utf8_text (encode_text us)" "utf8_text (encode_text vs)" using p(5,6) by (auto simp: utf8_text_def)
  then have "utf8_text (ed_data e)" unfolding p(1) by (rule utf8_text_append)
  moreover have "0 \<notin> set (ed_data e)"
    using p(4) ascii_in_encode [of _ 0] unfolding d by (fastforce simp: text_points_def)
  moreover have "length (ed_data e) \<le> oi_cli_editor_max_bytes"
    using assms unfolding editor_rep_def editor_buffer_ok_def by blast
  ultimately show ?thesis by (simp add: validate_editor_text_def validate_text)
qed

lemma enter_submits:
  assumes "typing cps False w" and "cps \<noteq> []" and "snd (oi_cli_command_filter (encode_text cps) 8) = []"
  defines "w' \<equiv> apply_event (set_simple_event INPUT_ENTER) w"
  shows "w_status w' = OI_OK \<and> w_done w' \<and> w_text w' = Some (encode_text cps) \<and> \<not> w_exit w' \<and> w_terminate w' = 0
    \<and> co_draws (w_composer w') = sconst OI_OK \<and> ed_data (ps_editor (co_state (w_composer w'))) = []
    \<and> last (ih_entries (ps_history (co_state (w_composer w')))) = encode_text cps"
proof -
  let ?s = "co_state (w_composer w)"
  have t: "prompt_ok (\<lambda>_. True) ?s" "editor_rep (ps_editor ?s) (cps, [])" "ih_heap (ps_history ?s) = heap_ok" "ps_heap ?s = heap_ok"
    using assms(1) by (simp_all add: typing_def Let_def)
  have d: "ed_data (ps_editor ?s) = encode_text cps" using rep_parts(1) [OF t(2)] by simp
  then have ne: "ed_data (ps_editor ?s) \<noteq> []" using assms(2) by simp
  have m: "ps_matches ?s = []" using t(1) assms(3) unfolding prompt_ok_def menu_ok_def by (simp add: d)
  have a: "oi_cli_prompt_state_apply ?s (set_simple_event INPUT_ENTER) = (OI_OK, PROMPT_SUBMIT, ?s)"
    using m ne by (simp add: oi_cli_prompt_state_apply_def set_simple_event_def Let_def)
  have "validate_editor_text (encode_text cps) = OI_OK" using rep_valid [OF t(2)] by (simp add: d)
  then have ht: "history_text (ed_data (ps_editor ?s))"
    using ne by (auto simp: history_text_def validate_history_text_def validate_editor_text_def d history_max_bytes_def oi_cli_editor_max_bytes_def split: if_split_asm)
  have h: "history_ok (ps_history ?s)" using t(1) by (simp add: prompt_ok_def)
  obtain h' where "oi_cli_input_history_append (ps_history ?s) (ed_data (ps_editor ?s)) = (OI_OK, h')"
    by (rule history_append_total [OF t(3) ht h])
  then obtain s' where c: "oi_cli_prompt_state_commit ?s = (Inr (ed_data (ps_editor ?s)), s')"
    using ne t(4) by (simp add: oi_cli_prompt_state_commit_def Let_def)
  from commit_cases [OF t(1) c] assms(1) a c d show ?thesis
    by (simp add: w'_def apply_event_def Let_def typing_def)
qed


text \<open>A composer waiting at an empty prompt, while memory and drawing last.\<close>

definition at_empty_prompt :: "oi_cli_composer \<Rightarrow> bool" where
  "at_empty_prompt c \<longleftrightarrow> co_input c = [] \<and> \<not> dec_pasting (co_decoder c) \<and> co_draws c = sconst OI_OK
     \<and> (let s = co_state c in prompt_ok (\<lambda>_. True) s \<and> ed_data (ps_editor s) = [] \<and> \<not> ps_pasting s
          \<and> ed_heap (ps_editor s) = heap_ok \<and> ih_heap (ps_history s) = heap_ok \<and> ps_heap s = heap_ok)"

text \<open>
  C32. What is pasted at an empty prompt is what is submitted, while memory and drawing last: a bracketed paste of any
  non-empty well-formed text of at most 1 MiB without NUL (which the prompt discards) and Escape (which could end the
  paste) that is not the beginning of a command, followed by Enter, is returned byte for byte by the one call of
  \<open>oi_cli_composer_wait_submit\<close>, is the newest entry of the history and leaves the prompt empty, however the
  terminal cuts the bytes into reads of at most 4090 (also within the paste markers and within characters).
\<close>

theorem composer_delivers_paste:
  assumes "at_empty_prompt c" and "cps \<noteq> []" and "list_all (\<lambda>cp. scalar_value cp \<and> cp \<noteq> 0 \<and> cp \<noteq> 27) cps"
    and "length (encode_text cps) \<le> oi_cli_editor_max_bytes" and "snd (oi_cli_command_filter (encode_text cps) 8) = []"
    and "concat reads = paste_begin @ encode_text cps @ paste_end @ [0x0D]" and "list_all (\<lambda>bs. length bs \<le> 4090) reads"
  shows "\<exists>w. oi_cli_composer_wait_submit None (map (\<lambda>bs. Poll_read (Read_bytes bs)) reads) c = Some w
    \<and> w_status w = OI_OK \<and> w_text w = Some (encode_text cps) \<and> \<not> w_exit w \<and> w_terminate w = 0
    \<and> ed_data (ps_editor (co_state (w_composer w))) = []
    \<and> last (ih_entries (ps_history (co_state (w_composer w)))) = encode_text cps"
proof -
  let ?w = "\<lparr>w_status = OI_OK, w_done = False, w_text = None, w_exit = False, w_terminate = 0, w_composer = c\<rparr>"
  let ?evs = "set_simple_event INPUT_PASTE_BEGIN # map (text_event True) cps @ [set_simple_event INPUT_PASTE_END]"
  let ?enter = "set_simple_event INPUT_ENTER"
  have c: "co_input c = []" "\<not> dec_pasting (co_decoder c)" "co_draws c = sconst OI_OK" using assms(1) by (simp_all add: at_empty_prompt_def)
  have "\<forall>cp \<in> set cps. pastable cp" using assms(3) by (simp add: pastable_def list_all_iff)
  from bracketed_paste_events [OF this c(2), of "[0x0D]"]
  have events: "\<exists>x. input_events (co_decoder c) (co_input c @ concat reads) = (?evs @ [?enter], x)"
    using c(1,2) by (simp add: assms(6) input_events_step [of "co_decoder c" "[0x0D]" 1 ?enter "co_decoder c"]
        input_events_stop [of _ "[]" OI_ERR_AGAIN] oi_cli_input_decode_def)
  have start: "typing [] False ?w"
  proof -
    have p: "prompt_ok (\<lambda>_. True) (co_state c)" "ed_data (ps_editor (co_state c)) = []" using assms(1) by (simp_all add: at_empty_prompt_def Let_def)
    from p(1) obtain us vs where r: "editor_rep (ps_editor (co_state c)) (us, vs)" by (auto simp: prompt_ok_def editor_ok_def)
    with p(2) rep_parts(1) [OF r] have "us = [] \<and> vs = []" by simp
    with r assms(1) show ?thesis by (simp add: typing_def at_empty_prompt_def Let_def)
  qed
  have "list_all (\<lambda>cp. scalar_value cp \<and> cp \<noteq> 0) cps" using assms(3) by (simp add: list_all_iff)
  from paste_events_typed [OF start this assms(4)]
  have typed: "typing cps False (apply_events ?evs ?w)" "quiet ?evs ?w" by simp_all
  note submitted = enter_submits [OF typed(1) assms(2,5)]
  obtain x where x: "input_events (co_decoder c) (co_input c @ concat reads) = (?evs @ [?enter], x)" using events by blast
  have "\<exists>i d. wait_loop (map (\<lambda>bs. Poll_read (Read_bytes bs)) reads) ?w = Some (set_io i d (apply_event ?enter (apply_events ?evs ?w)))"
    by (rule wait_loop_reads [of _ _ _ _ x]) (use x typed submitted assms(7) in simp_all)
  then obtain i d f where w: "wait_loop (map (\<lambda>bs. Poll_read (Read_bytes bs)) reads) ?w = Some (set_io i d f)"
    and f: "w_status f = OI_OK" "w_text f = Some (encode_text cps)" "\<not> w_exit f" "w_terminate f = 0"
      "co_draws (w_composer f) = sconst OI_OK" "ed_data (ps_editor (co_state (w_composer f))) = []"
      "last (ih_entries (ps_history (co_state (w_composer f)))) = encode_text cps"
    using submitted by blast
  have drawn: "draw c = (OI_OK, c)" using c(3) by (simp add: draw_def)
  have "oi_cli_composer_wait_submit None (map (\<lambda>bs. Poll_read (Read_bytes bs)) reads) c = Some (wait_cleanup (set_io i d f))"
    using w by (simp add: oi_cli_composer_wait_submit_def drawn Let_def)
  moreover have "w_status (wait_cleanup (set_io i d f)) = OI_OK \<and> w_text (wait_cleanup (set_io i d f)) = Some (encode_text cps)
    \<and> \<not> w_exit (wait_cleanup (set_io i d f)) \<and> w_terminate (wait_cleanup (set_io i d f)) = 0
    \<and> co_state (w_composer (wait_cleanup (set_io i d f))) = co_state (w_composer f)"
    using f by (simp add: wait_cleanup_def draw_def Let_def)
  ultimately show ?thesis using f by (intro exI [of _ "wait_cleanup (set_io i d f)"]) simp
qed


lemma new_composer_at_prompt:
  "at_empty_prompt (oi_cli_composer_init (oi_cli_input_history_init heap_ok) heap_ok heap_ok (sconst OI_OK))"
proof -
  have "prompt_ok (\<lambda>_. True) (oi_cli_prompt_state_init (oi_cli_input_history_init heap_ok) heap_ok heap_ok)"
    by (rule init_prompt_ok [OF history_init_ok])
  then show ?thesis
    by (simp add: at_empty_prompt_def oi_cli_composer_init_def oi_cli_input_decoder_init_def oi_cli_prompt_state_init_def
        oi_cli_editor_init_def oi_cli_input_history_init_def)
qed

theorem composer_delivers_paste_witness:
  "\<exists>w. oi_cli_composer_wait_submit None (map (\<lambda>bs. Poll_read (Read_bytes bs))
        [[0x1B, 0x5B, 0x32], [0x30, 0x30, 0x7E, 0xC3], [0xA9, 0x1B], [0x5B, 0x32, 0x30, 0x31, 0x7E, 0x0D]])
      (oi_cli_composer_init (oi_cli_input_history_init heap_ok) heap_ok heap_ok (sconst OI_OK)) = Some w
    \<and> w_status w = OI_OK \<and> w_text w = Some [0xC3, 0xA9]"
proof -
  let ?reads = "[[0x1B, 0x5B, 0x32], [0x30, 0x30, 0x7E, 0xC3], [0xA9, 0x1B], [0x5B, 0x32, 0x30, 0x31, 0x7E, 0x0D]] :: bytes list"
  have e: "encode_text [0xE9] = [0xC3, 0xA9]" by (simp add: utf8_encode_def)
  have "list_all (\<lambda>cp. scalar_value cp \<and> cp \<noteq> 0 \<and> cp \<noteq> 27) [0xE9]" by (simp add: scalar_value_def)
  moreover have "length (encode_text [0xE9]) \<le> oi_cli_editor_max_bytes" unfolding e by (simp add: oi_cli_editor_max_bytes_def)
  moreover have "snd (oi_cli_command_filter (encode_text [0xE9]) 8) = []" unfolding e by (simp add: oi_cli_command_filter_def)
  moreover have "concat ?reads = paste_begin @ encode_text [0xE9] @ paste_end @ [0x0D]"
    unfolding e by (simp add: paste_begin_def paste_end_def)
  ultimately have "\<exists>w. oi_cli_composer_wait_submit None (map (\<lambda>bs. Poll_read (Read_bytes bs)) ?reads)
      (oi_cli_composer_init (oi_cli_input_history_init heap_ok) heap_ok heap_ok (sconst OI_OK)) = Some w
    \<and> w_status w = OI_OK \<and> w_text w = Some (encode_text [0xE9]) \<and> \<not> w_exit w \<and> w_terminate w = 0
    \<and> ed_data (ps_editor (co_state (w_composer w))) = []
    \<and> last (ih_entries (ps_history (co_state (w_composer w)))) = encode_text [0xE9]"
    by (intro composer_delivers_paste new_composer_at_prompt) simp_all
  then show ?thesis unfolding e by blast
qed

text \<open>A draft put in place leaves the menu of the text before it.\<close>

lemma set_draft_keeps_menu:
  "ps_matches (co_state (snd (oi_cli_composer_set_draft c t))) = ps_matches (co_state c)"
  by (simp add: oi_cli_composer_set_draft_def split: prod.split)

end
