(* ===== verification/Message.thy ===== *)
theory Message
  imports Prelude
begin

text \<open>
  \<open>src/cli_message.c\<close>: model-visible messages. A \<open>struct oi_cli_string\<close> is the list of its bytes; where the
  code tells a \<open>NULL\<close> data pointer from an empty string it is an option. A setter replaces its destination
  only when it succeeds: it answers the new value, or the status with which it left the old one alone.
\<close>

definition sizeof_tool_call :: nat where "sizeof_tool_call = 48"
definition sizeof_message :: nat where "sizeof_message = 56"

datatype oi_cli_message_role = MESSAGE_NONE | MESSAGE_USER | MESSAGE_ASSISTANT | MESSAGE_TOOL

record oi_cli_tool_call_value =
  tc_id :: bytes
  tc_name :: bytes
  tc_arguments :: bytes

record oi_cli_message =
  msg_role :: oi_cli_message_role
  msg_content :: "bytes option"
  msg_tool_call_id :: "bytes option"
  msg_tool_calls :: "oi_cli_tool_call_value list"

record oi_cli_message_list =
  ml_items :: "oi_cli_message list"
  ml_cap :: nat

text \<open>No \<open>size_t\<close> is above \<open>SIZE_MAX\<close>, so its test for equality is this one.\<close>

definition oi_cli_string_set :: "heap \<Rightarrow> bytes \<Rightarrow> bytes alloc" where
  "oi_cli_string_set h data = (if length data \<ge> size_max then (Inl OI_ERR_NOMEM, h) else alloc_try h data)"

definition oi_cli_message_init :: oi_cli_message where
  "oi_cli_message_init = \<lparr>msg_role = MESSAGE_NONE, msg_content = None, msg_tool_call_id = None, msg_tool_calls = []\<rparr>"

definition message_set_content :: "heap \<Rightarrow> oi_cli_message_role \<Rightarrow> bytes \<Rightarrow> oi_cli_message alloc" where
  "message_set_content h role content =
     alloc_then (oi_cli_string_set h content)
       (\<lambda>s h. (Inr (oi_cli_message_init\<lparr>msg_role := role, msg_content := Some s\<rparr>), h))"

definition oi_cli_message_set_user :: "heap \<Rightarrow> bytes \<Rightarrow> oi_cli_message alloc" where
  "oi_cli_message_set_user h content = message_set_content h MESSAGE_USER content"

definition oi_cli_message_set_assistant :: "heap \<Rightarrow> bytes \<Rightarrow> oi_cli_message alloc" where
  "oi_cli_message_set_assistant h content = message_set_content h MESSAGE_ASSISTANT content"

definition oi_cli_message_set_tool :: "heap \<Rightarrow> bytes \<Rightarrow> bytes \<Rightarrow> oi_cli_message alloc" where
  "oi_cli_message_set_tool h tool_call_id content =
     (if tool_call_id = [] then (Inl OI_ERR_INVAL, h)
      else alloc_then (oi_cli_string_set h tool_call_id) (\<lambda>i h.
        alloc_then (oi_cli_string_set h content) (\<lambda>s h.
          (Inr (oi_cli_message_init\<lparr>msg_role := MESSAGE_TOOL, msg_tool_call_id := Some i,
                                   msg_content := Some s\<rparr>), h))))"

definition oi_cli_message_add_tool_call ::
  "heap \<Rightarrow> oi_cli_message \<Rightarrow> bytes \<Rightarrow> bytes \<Rightarrow> bytes \<Rightarrow> oi_cli_message alloc" where
  "oi_cli_message_add_tool_call h m i name arguments =
     (if msg_role m \<noteq> MESSAGE_ASSISTANT \<or> i = [] \<or> name = [] \<or> arguments = [] then (Inl OI_ERR_INVAL, h)
      else if length (msg_tool_calls m) = size_max div sizeof_tool_call then (Inl OI_ERR_NOMEM, h)
      else alloc_then (oi_cli_string_set h i) (\<lambda>i h.
        alloc_then (oi_cli_string_set h name) (\<lambda>name h.
        alloc_then (oi_cli_string_set h arguments) (\<lambda>arguments h.
        alloc_try h (m\<lparr>msg_tool_calls := msg_tool_calls m @
          [\<lparr>tc_id = i, tc_name = name, tc_arguments = arguments\<rparr>]\<rparr>)))))"

text \<open>A pointer to no tool calls is \<open>NULL\<close> when there are none. An empty and an absent field of a call fail alike.\<close>

definition call_is_valid :: "oi_cli_tool_call_value \<Rightarrow> bool" where
  "call_is_valid c \<longleftrightarrow> tc_id c \<noteq> [] \<and> tc_name c \<noteq> [] \<and> tc_arguments c \<noteq> []"

definition oi_cli_message_is_valid :: "oi_cli_message \<Rightarrow> bool" where
  "oi_cli_message_is_valid m \<longleftrightarrow> msg_content m \<noteq> None \<and>
     (case msg_role m of
        MESSAGE_USER \<Rightarrow> msg_tool_call_id m = None \<and> msg_tool_calls m = []
      | MESSAGE_ASSISTANT \<Rightarrow> msg_tool_call_id m = None \<and> list_all call_is_valid (msg_tool_calls m)
      | MESSAGE_TOOL \<Rightarrow> msg_tool_call_id m \<noteq> None \<and> msg_tool_call_id m \<noteq> Some [] \<and> msg_tool_calls m = []
      | MESSAGE_NONE \<Rightarrow> False)"

fun clone_calls :: "heap \<Rightarrow> oi_cli_message \<Rightarrow> oi_cli_tool_call_value list \<Rightarrow> oi_cli_message alloc" where
  "clone_calls h m [] = (Inr m, h)"
| "clone_calls h m (c # cs) =
     alloc_then (oi_cli_message_add_tool_call h m (tc_id c) (tc_name c) (tc_arguments c)) (\<lambda>m h. clone_calls h m cs)"

text \<open>The bytes of a string, empty when its data is \<open>NULL\<close>.\<close>

definition string_bytes :: "bytes option \<Rightarrow> bytes" where
  "string_bytes s = (case s of None \<Rightarrow> [] | Some bs \<Rightarrow> bs)"

definition oi_cli_message_clone :: "heap \<Rightarrow> oi_cli_message \<Rightarrow> oi_cli_message alloc" where
  "oi_cli_message_clone h m =
     (if \<not> oi_cli_message_is_valid m then (Inl OI_ERR_INVAL, h)
      else if msg_role m = MESSAGE_USER then oi_cli_message_set_user h (string_bytes (msg_content m))
      else if msg_role m = MESSAGE_ASSISTANT then
        alloc_then (oi_cli_message_set_assistant h (string_bytes (msg_content m)))
          (\<lambda>c h. clone_calls h c (msg_tool_calls m))
      else oi_cli_message_set_tool h (string_bytes (msg_tool_call_id m)) (string_bytes (msg_content m)))"

definition oi_cli_message_list_init :: oi_cli_message_list where
  "oi_cli_message_list_init = \<lparr>ml_items = [], ml_cap = 0\<rparr>"

definition oi_cli_message_list_append_take :: "heap \<Rightarrow> oi_cli_message_list \<Rightarrow> oi_cli_message \<Rightarrow> oi_cli_message_list alloc" where
  "oi_cli_message_list_append_take h l m =
     (if \<not> oi_cli_message_is_valid m then (Inl OI_ERR_INVAL, h)
      else if length (ml_items l) = size_max div sizeof_message then (Inl OI_ERR_NOMEM, h)
      else if length (ml_items l) = ml_cap l then
        (if ml_cap l \<noteq> 0 \<and> ml_cap l > size_max div 2 then (Inl OI_ERR_NOMEM, h)
         else let cap = (if ml_cap l = 0 then 8 else ml_cap l * 2) in
           alloc_try h \<lparr>ml_items = ml_items l @ [m], ml_cap = min cap (size_max div sizeof_message)\<rparr>)
      else (Inr (l\<lparr>ml_items := ml_items l @ [m]\<rparr>), h))"

definition oi_cli_message_list_append_clone :: "heap \<Rightarrow> oi_cli_message_list \<Rightarrow> oi_cli_message \<Rightarrow> oi_cli_message_list alloc" where
  "oi_cli_message_list_append_clone h l m =
     alloc_then (oi_cli_message_clone h m) (\<lambda>c h. oi_cli_message_list_append_take h l c)"

section \<open>What a setter leaves\<close>

text \<open>The values each setter can leave, whatever the allocator answered.\<close>

named_theorems set_result \<open>the value a setter that succeeds leaves\<close>

text \<open>\<open>short s\<close>: a string that fits the address space with its NUL.\<close>

definition short :: "bytes \<Rightarrow> bool" where
  "short s \<longleftrightarrow> length s < size_max"

lemma string_set_Inr [set_result]: "oi_cli_string_set h s = (Inr t, h') \<Longrightarrow> t = s \<and> short s"
  by (auto simp: oi_cli_string_set_def short_def split: if_splits)

lemma set_user_result [set_result]:
  "oi_cli_message_set_user h c = (Inr m, h') \<Longrightarrow>
     m = \<lparr>msg_role = MESSAGE_USER, msg_content = Some c, msg_tool_call_id = None, msg_tool_calls = []\<rparr>"
  by (auto simp: oi_cli_message_set_user_def message_set_content_def oi_cli_message_init_def dest!: string_set_Inr)

lemma set_assistant_result [set_result]:
  "oi_cli_message_set_assistant h c = (Inr m, h') \<Longrightarrow>
     m = \<lparr>msg_role = MESSAGE_ASSISTANT, msg_content = Some c, msg_tool_call_id = None, msg_tool_calls = []\<rparr>"
  by (auto simp: oi_cli_message_set_assistant_def message_set_content_def oi_cli_message_init_def dest!: string_set_Inr)

lemma set_tool_result [set_result]:
  "oi_cli_message_set_tool h i c = (Inr m, h') \<Longrightarrow> i \<noteq> [] \<and>
     m = \<lparr>msg_role = MESSAGE_TOOL, msg_content = Some c, msg_tool_call_id = Some i, msg_tool_calls = []\<rparr>"
  by (auto simp: oi_cli_message_set_tool_def oi_cli_message_init_def dest!: string_set_Inr split: if_splits)

lemma add_call_result [set_result]:
  "oi_cli_message_add_tool_call h m i n a = (Inr m', h') \<Longrightarrow>
     m' = m\<lparr>msg_tool_calls := msg_tool_calls m @ [\<lparr>tc_id = i, tc_name = n, tc_arguments = a\<rparr>]\<rparr>
     \<and> msg_role m = MESSAGE_ASSISTANT \<and> i \<noteq> [] \<and> n \<noteq> [] \<and> a \<noteq> []"
  by (auto simp: oi_cli_message_add_tool_call_def dest!: string_set_Inr split: if_splits)

lemma clone_calls_result [set_result]:
  "clone_calls h m cs = (Inr m', h') \<Longrightarrow> m' = m\<lparr>msg_tool_calls := msg_tool_calls m @ cs\<rparr>"
proof (induction cs arbitrary: h m)
  case (Cons c cs)
  then obtain m1 h1 where "oi_cli_message_add_tool_call h m (tc_id c) (tc_name c) (tc_arguments c) = (Inr m1, h1)"
    "clone_calls h1 m1 cs = (Inr m', h')" by auto
  from add_call_result [OF this(1)] Cons.IH [OF this(2)] show ?case by (cases c) simp
qed simp

lemma message_valid_eq:
  assumes "oi_cli_message_is_valid m"
  obtains (user) c where "m = \<lparr>msg_role = MESSAGE_USER, msg_content = Some c, msg_tool_call_id = None, msg_tool_calls = []\<rparr>"
  | (assistant) c cs where "m = \<lparr>msg_role = MESSAGE_ASSISTANT, msg_content = Some c, msg_tool_call_id = None, msg_tool_calls = cs\<rparr>"
      and "list_all call_is_valid cs"
  | (tool) i c where "m = \<lparr>msg_role = MESSAGE_TOOL, msg_content = Some c, msg_tool_call_id = Some i, msg_tool_calls = []\<rparr>"
      and "i \<noteq> []"
  using assms by (cases m; cases "msg_role m") (auto simp: oi_cli_message_is_valid_def)

lemma clone_result [set_result]: "oi_cli_message_clone h m = (Inr c, h') \<Longrightarrow> c = m \<and> oi_cli_message_is_valid m"
proof -
  assume c: "oi_cli_message_clone h m = (Inr c, h')"
  then have v: "oi_cli_message_is_valid m" by (auto simp: oi_cli_message_clone_def split: if_splits)
  from v show ?thesis using c v
    by (cases rule: message_valid_eq) (auto simp: oi_cli_message_clone_def string_bytes_def dest!: set_result)
qed

lemma list_append_clone_result:
  "oi_cli_message_list_append_clone h l m = (Inr l', h') \<Longrightarrow> ml_items l' = ml_items l @ [m] \<and> oi_cli_message_is_valid m"
  by (auto simp: oi_cli_message_list_append_clone_def oi_cli_message_list_append_take_def Let_def
      dest!: clone_result split: if_splits)

text \<open>While memory lasts a copy is made.\<close>

definition message_short :: "oi_cli_message \<Rightarrow> bool" where
  "message_short m \<longleftrightarrow> short (string_bytes (msg_content m)) \<and> short (string_bytes (msg_tool_call_id m))
     \<and> length (msg_tool_calls m) < size_max div sizeof_tool_call
     \<and> list_all (\<lambda>c. short (tc_id c) \<and> short (tc_name c) \<and> short (tc_arguments c)) (msg_tool_calls m)"

lemma string_set_ok [simp]: "short s \<Longrightarrow> oi_cli_string_set heap_ok s = (Inr s, heap_ok)"
  by (simp add: oi_cli_string_set_def short_def)

lemma clone_calls_ok:
  "msg_role m = MESSAGE_ASSISTANT \<Longrightarrow> list_all call_is_valid cs \<Longrightarrow>
   list_all (\<lambda>c. short (tc_id c) \<and> short (tc_name c) \<and> short (tc_arguments c)) cs \<Longrightarrow>
   length (msg_tool_calls m) + length cs < size_max div sizeof_tool_call \<Longrightarrow>
   clone_calls heap_ok m cs = (Inr (m\<lparr>msg_tool_calls := msg_tool_calls m @ cs\<rparr>), heap_ok)"
proof (induction cs arbitrary: m)
  case (Cons c cs)
  then have "oi_cli_message_add_tool_call heap_ok m (tc_id c) (tc_name c) (tc_arguments c)
      = (Inr (m\<lparr>msg_tool_calls := msg_tool_calls m @ [c]\<rparr>), heap_ok)"
    by (cases c) (simp add: oi_cli_message_add_tool_call_def call_is_valid_def)
  with Cons show ?case by simp
qed simp

lemma clone_ok:
  assumes "oi_cli_message_is_valid m" "message_short m"
  shows "oi_cli_message_clone heap_ok m = (Inr m, heap_ok)"
  using assms(1,1,2)
  by (cases rule: message_valid_eq)
     (auto simp: oi_cli_message_clone_def oi_cli_message_set_user_def oi_cli_message_set_assistant_def
       oi_cli_message_set_tool_def message_set_content_def oi_cli_message_init_def message_short_def
       string_bytes_def clone_calls_ok short_def)

end
