(* ===== verification/History.thy ===== *)
theory History
  imports Message
begin

text \<open>
  \<open>src/cli_history.c\<close>: the typed records of a session's log, what makes one valid, the setters (each answers
  the record that replaces the old one, or the status with which it left it alone), copies, and the list of
  records with consecutive ids.
\<close>

definition history_max_content :: nat where "history_max_content = 1048576"
definition history_max_record :: nat where "history_max_record = 8388608"
definition history_max_setting_value :: nat where "history_max_setting_value = 4096"
definition sizeof_record :: nat where "sizeof_record = 136"

type_synonym uint64 = "64 word"

definition uint64_max :: uint64 where "uint64_max = -1"

datatype session_setting_field = SETTING_MODEL | SETTING_CWD
datatype message_source = MESSAGE_NORMAL | MESSAGE_REPAIR
datatype tool_outcome = TOOL_OUTCOME_NONE | TOOL_COMPLETED | TOOL_OUTCOME_UNKNOWN | TOOL_NOT_EXECUTED
datatype queue_resolution = QUEUE_CONSUMED | QUEUE_DISCARDED

text \<open>\<open>has_raw_tool_output\<close> is that there is a raw output.\<close>

record oi_cli_history_message =
  hm_value :: oi_cli_message
  hm_source :: message_source
  hm_outcome :: tool_outcome
  hm_model :: "bytes option"
  hm_raw :: "bytes option"

datatype record_body =
    RECORD_NONE
  | RECORD_TRANSITION (legacy_record_count: uint64)
  | RECORD_MESSAGE oi_cli_history_message
  | RECORD_TOOL_STARTED (started_id: "bytes option")
  | RECORD_PARTIAL_ASSISTANT (partial_content: "bytes option") (partial_model: "bytes option")
  | RECORD_QUEUED_INPUT (queued_content: "bytes option")
  | RECORD_QUEUE_RESOLVED (queued_record_id: uint64) (resolution: queue_resolution)
  | RECORD_CHECKPOINT (summary: "bytes option") (checkpoint_model: "bytes option") (source_first: uint64) (source_last: uint64)
  | RECORD_SESSION_SETTING (setting_field: session_setting_field) (setting_value: "bytes option")

record oi_cli_history_record =
  rec_version :: nat
  record_id :: uint64
  turn_id :: uint64
  body :: record_body

definition oi_cli_history_record_init :: oi_cli_history_record where
  "oi_cli_history_record_init = \<lparr>rec_version = 0, record_id = 0, turn_id = 0, body = RECORD_NONE\<rparr>"

section \<open>Validity\<close>

text \<open>A string that is set, that is set and not empty, within a bound.\<close>

definition set_within :: "nat \<Rightarrow> bytes option \<Rightarrow> bool" where
  "set_within n s \<longleftrightarrow> (case s of None \<Rightarrow> False | Some bs \<Rightarrow> length bs \<le> n)"

definition nonempty_within :: "nat \<Rightarrow> bytes option \<Rightarrow> bool" where
  "nonempty_within n s \<longleftrightarrow> (case s of None \<Rightarrow> False | Some bs \<Rightarrow> bs \<noteq> [] \<and> length bs \<le> n)"

definition tool_result_is_valid :: "oi_cli_history_message \<Rightarrow> bool" where
  "tool_result_is_valid m \<longleftrightarrow>
     (if hm_model m \<noteq> None then False
      else if hm_outcome m = TOOL_OUTCOME_NONE then False
      else if hm_source m = MESSAGE_NORMAL then
        (if hm_outcome m = TOOL_COMPLETED then set_within history_max_content (hm_raw m)
         else if hm_outcome m = TOOL_OUTCOME_UNKNOWN
         then hm_raw m = None \<or> set_within history_max_content (hm_raw m)
         else hm_outcome m = TOOL_NOT_EXECUTED \<and> hm_raw m = None)
      else (hm_outcome m = TOOL_OUTCOME_UNKNOWN \<or> hm_outcome m = TOOL_NOT_EXECUTED) \<and> hm_raw m = None)"

definition history_message_is_valid :: "oi_cli_history_message \<Rightarrow> bool" where
  "history_message_is_valid m \<longleftrightarrow>
     (if \<not> oi_cli_message_is_valid (hm_value m)
        \<or> length (string_bytes (msg_content (hm_value m))) > history_max_content
        \<or> length (string_bytes (hm_model m)) > history_max_content then False
      else if \<not> list_all (\<lambda>c. length (tc_arguments c) \<le> history_max_content) (msg_tool_calls (hm_value m)) then False
      else if msg_role (hm_value m) = MESSAGE_USER then
        hm_source m = MESSAGE_NORMAL \<and> hm_model m = None \<and> hm_outcome m = TOOL_OUTCOME_NONE \<and> hm_raw m = None
      else if msg_role (hm_value m) = MESSAGE_ASSISTANT then
        (hm_source m = MESSAGE_NORMAL \<and> hm_model m \<noteq> None \<and> string_bytes (hm_model m) \<noteq> []
         \<or> hm_source m = MESSAGE_REPAIR \<and> hm_model m = None)
        \<and> hm_outcome m = TOOL_OUTCOME_NONE \<and> hm_raw m = None
      else tool_result_is_valid m)"

definition body_is_valid :: "oi_cli_history_record \<Rightarrow> bool" where
  "body_is_valid r \<longleftrightarrow>
     (case body r of
        RECORD_TRANSITION n \<Rightarrow> turn_id r = 0 \<and> n < uint64_max \<and> record_id r = n + 1
      | RECORD_MESSAGE m \<Rightarrow> turn_id r > 0 \<and> history_message_is_valid m
      | RECORD_TOOL_STARTED i \<Rightarrow> turn_id r > 0 \<and> nonempty_within history_max_content i
      | RECORD_PARTIAL_ASSISTANT c m \<Rightarrow>
          turn_id r > 0 \<and> set_within history_max_content c \<and> nonempty_within history_max_content m
      | RECORD_QUEUED_INPUT c \<Rightarrow> turn_id r > 0 \<and> set_within history_max_content c
      | RECORD_QUEUE_RESOLVED q _ \<Rightarrow> turn_id r > 0 \<and> q > 0 \<and> q < record_id r
      | RECORD_CHECKPOINT s m lo hi \<Rightarrow>
          turn_id r = 0 \<and> set_within history_max_content s \<and> nonempty_within history_max_content m
          \<and> lo > 0 \<and> lo \<le> hi \<and> hi < record_id r
      | RECORD_SESSION_SETTING f v \<Rightarrow> turn_id r = 0 \<and> nonempty_within history_max_setting_value v
      | RECORD_NONE \<Rightarrow> False)"

definition oi_cli_history_record_is_valid :: "oi_cli_history_record \<Rightarrow> bool" where
  "oi_cli_history_record_is_valid r \<longleftrightarrow> rec_version r = 1 \<and> record_id r \<noteq> 0 \<and> body_is_valid r"

section \<open>Setters\<close>

definition record_begin :: "uint64 \<Rightarrow> uint64 \<Rightarrow> record_body \<Rightarrow> oi_status + oi_cli_history_record" where
  "record_begin i t b = (if i = 0 then Inl OI_ERR_INVAL else Inr \<lparr>rec_version = 1, record_id = i, turn_id = t, body = b\<rparr>)"

text \<open>The end of a setter: the record begun with \<open>record_begin\<close> has its contents and must be valid.\<close>

definition record_finish :: "heap \<Rightarrow> uint64 \<Rightarrow> uint64 \<Rightarrow> record_body \<Rightarrow> oi_cli_history_record alloc" where
  "record_finish h i t b =
     (case record_begin i t b of
        Inl st \<Rightarrow> (Inl st, h)
      | Inr r \<Rightarrow> if oi_cli_history_record_is_valid r then (Inr r, h) else (Inl OI_ERR_INVAL, h))"

definition oi_cli_history_record_set_transition :: "heap \<Rightarrow> uint64 \<Rightarrow> uint64 \<Rightarrow> oi_cli_history_record alloc" where
  "oi_cli_history_record_set_transition h i n = (record_begin i 0 (RECORD_TRANSITION n), h)"

text \<open>An optional string is copied when there is one.\<close>

definition set_optional :: "heap \<Rightarrow> bytes option \<Rightarrow> bytes option alloc" where
  "set_optional h s =
     (case s of None \<Rightarrow> (Inr None, h) | Some bs \<Rightarrow> alloc_then (oi_cli_string_set h bs) (\<lambda>t h. (Inr (Some t), h)))"

definition bytes_set :: "heap \<Rightarrow> bytes \<Rightarrow> bytes alloc" where
  "bytes_set h data = alloc_try h data"

definition set_raw :: "heap \<Rightarrow> bytes option \<Rightarrow> bytes option alloc" where
  "set_raw h raw =
     (case raw of None \<Rightarrow> (Inr None, h) | Some bs \<Rightarrow> alloc_then (bytes_set h bs) (\<lambda>t h. (Inr (Some t), h)))"

definition oi_cli_history_record_set_message ::
  "heap \<Rightarrow> uint64 \<Rightarrow> uint64 \<Rightarrow> oi_cli_message \<Rightarrow> message_source \<Rightarrow> bytes option \<Rightarrow> tool_outcome \<Rightarrow> bytes option
     \<Rightarrow> oi_cli_history_record alloc" where
  "oi_cli_history_record_set_message h i t m source model outcome raw =
     (if i = 0 then (Inl OI_ERR_INVAL, h)
      else alloc_then (oi_cli_message_clone h m) (\<lambda>m h.
        alloc_then (set_optional h model) (\<lambda>model h.
        alloc_then (set_raw h raw) (\<lambda>raw h.
        record_finish h i t (RECORD_MESSAGE \<lparr>hm_value = m, hm_source = source, hm_outcome = outcome,
                                            hm_model = model, hm_raw = raw\<rparr>)))))"

definition oi_cli_history_record_set_tool_started :: "heap \<Rightarrow> uint64 \<Rightarrow> uint64 \<Rightarrow> bytes \<Rightarrow> oi_cli_history_record alloc" where
  "oi_cli_history_record_set_tool_started h i t tool_call_id =
     (if i = 0 then (Inl OI_ERR_INVAL, h)
      else alloc_then (oi_cli_string_set h tool_call_id) (\<lambda>s h. record_finish h i t (RECORD_TOOL_STARTED (Some s))))"

definition oi_cli_history_record_set_partial_assistant ::
  "heap \<Rightarrow> uint64 \<Rightarrow> uint64 \<Rightarrow> bytes \<Rightarrow> bytes option \<Rightarrow> oi_cli_history_record alloc" where
  "oi_cli_history_record_set_partial_assistant h i t content model =
     (if i = 0 then (Inl OI_ERR_INVAL, h)
      else alloc_then (oi_cli_string_set h content) (\<lambda>s h.
        alloc_then (set_optional h model) (\<lambda>m h.
        record_finish h i t (RECORD_PARTIAL_ASSISTANT (Some s) m))))"

definition oi_cli_history_record_set_queued_input :: "heap \<Rightarrow> uint64 \<Rightarrow> uint64 \<Rightarrow> bytes \<Rightarrow> oi_cli_history_record alloc" where
  "oi_cli_history_record_set_queued_input h i t content =
     (if i = 0 then (Inl OI_ERR_INVAL, h)
      else alloc_then (oi_cli_string_set h content) (\<lambda>s h. record_finish h i t (RECORD_QUEUED_INPUT (Some s))))"

definition oi_cli_history_record_set_queue_resolved ::
  "heap \<Rightarrow> uint64 \<Rightarrow> uint64 \<Rightarrow> uint64 \<Rightarrow> queue_resolution \<Rightarrow> oi_cli_history_record alloc" where
  "oi_cli_history_record_set_queue_resolved h i t q res = record_finish h i t (RECORD_QUEUE_RESOLVED q res)"

definition oi_cli_history_record_set_checkpoint ::
  "heap \<Rightarrow> uint64 \<Rightarrow> bytes \<Rightarrow> bytes option \<Rightarrow> uint64 \<Rightarrow> uint64 \<Rightarrow> oi_cli_history_record alloc" where
  "oi_cli_history_record_set_checkpoint h i content model lo hi =
     (if i = 0 then (Inl OI_ERR_INVAL, h)
      else alloc_then (oi_cli_string_set h content) (\<lambda>s h.
        alloc_then (set_optional h model) (\<lambda>m h.
        record_finish h i 0 (RECORD_CHECKPOINT (Some s) m lo hi))))"

definition oi_cli_history_record_set_session_setting ::
  "heap \<Rightarrow> uint64 \<Rightarrow> session_setting_field \<Rightarrow> bytes \<Rightarrow> oi_cli_history_record alloc" where
  "oi_cli_history_record_set_session_setting h i f v =
     (if i = 0 then (Inl OI_ERR_INVAL, h)
      else alloc_then (oi_cli_string_set h v) (\<lambda>s h. record_finish h i 0 (RECORD_SESSION_SETTING f (Some s))))"

definition oi_cli_history_record_clone :: "heap \<Rightarrow> oi_cli_history_record \<Rightarrow> oi_cli_history_record alloc" where
  "oi_cli_history_record_clone h r =
     (if \<not> oi_cli_history_record_is_valid r then (Inl OI_ERR_INVAL, h)
      else (case body r of
        RECORD_TRANSITION n \<Rightarrow> oi_cli_history_record_set_transition h (record_id r) n
      | RECORD_MESSAGE m \<Rightarrow> oi_cli_history_record_set_message h (record_id r) (turn_id r) (hm_value m) (hm_source m)
          (hm_model m) (hm_outcome m) (hm_raw m)
      | RECORD_TOOL_STARTED s \<Rightarrow> oi_cli_history_record_set_tool_started h (record_id r) (turn_id r) (string_bytes s)
      | RECORD_PARTIAL_ASSISTANT c m \<Rightarrow>
          oi_cli_history_record_set_partial_assistant h (record_id r) (turn_id r) (string_bytes c) m
      | RECORD_QUEUED_INPUT c \<Rightarrow> oi_cli_history_record_set_queued_input h (record_id r) (turn_id r) (string_bytes c)
      | RECORD_QUEUE_RESOLVED q res \<Rightarrow> oi_cli_history_record_set_queue_resolved h (record_id r) (turn_id r) q res
      | RECORD_CHECKPOINT s m lo hi \<Rightarrow>
          oi_cli_history_record_set_checkpoint h (record_id r) (string_bytes s) m lo hi
      | RECORD_SESSION_SETTING f v \<Rightarrow> oi_cli_history_record_set_session_setting h (record_id r) f (string_bytes v)
      | RECORD_NONE \<Rightarrow> (Inl OI_ERR_INVAL, h)))"

section \<open>The list\<close>

record oi_cli_history =
  hist_records :: "oi_cli_history_record list"
  hist_cap :: nat

definition oi_cli_history_init :: oi_cli_history where
  "oi_cli_history_init = \<lparr>hist_records = [], hist_cap = 0\<rparr>"

text \<open>When doubling would overflow, the capacity asked for.\<close>

definition double_to :: "nat \<Rightarrow> nat \<Rightarrow> nat" where
  "double_to cap capacity = (case grow_cap cap capacity of None \<Rightarrow> capacity | Some c \<Rightarrow> c)"

definition oi_cli_history_reserve :: "heap \<Rightarrow> oi_cli_history \<Rightarrow> nat \<Rightarrow> oi_cli_history alloc" where
  "oi_cli_history_reserve h l capacity =
     (if capacity \<le> hist_cap l then (Inr l, h)
      else if capacity > size_max div sizeof_record then (Inl OI_ERR_NOMEM, h)
      else let cap = double_to (if hist_cap l = 0 then 16 else hist_cap l) capacity;
               cap = (if cap > size_max div sizeof_record then capacity else cap) in
        alloc_try h (l\<lparr>hist_cap := cap\<rparr>))"

definition oi_cli_history_append_take :: "heap \<Rightarrow> oi_cli_history \<Rightarrow> oi_cli_history_record \<Rightarrow> oi_cli_history alloc" where
  "oi_cli_history_append_take h l r =
     (if \<not> oi_cli_history_record_is_valid r then (Inl OI_ERR_INVAL, h)
      else if hist_records l \<noteq> [] \<and> (record_id (last (hist_records l)) = uint64_max
                \<or> record_id r \<noteq> record_id (last (hist_records l)) + 1) then (Inl OI_ERR_INVAL, h)
      else if length (hist_records l) = size_max div sizeof_record then (Inl OI_ERR_NOMEM, h)
      else alloc_then (oi_cli_history_reserve h l (length (hist_records l) + 1))
        (\<lambda>l h. (Inr (l\<lparr>hist_records := hist_records l @ [r]\<rparr>), h)))"

definition oi_cli_history_append_clone :: "heap \<Rightarrow> oi_cli_history \<Rightarrow> oi_cli_history_record \<Rightarrow> oi_cli_history alloc" where
  "oi_cli_history_append_clone h l r =
     alloc_then (oi_cli_history_record_clone h r) (\<lambda>c h. oi_cli_history_append_take h l c)"

section \<open>What a setter leaves\<close>

lemma record_finish_result [set_result]:
  "record_finish h i t b = (Inr r, h') \<Longrightarrow>
     r = \<lparr>rec_version = 1, record_id = i, turn_id = t, body = b\<rparr> \<and> oi_cli_history_record_is_valid r \<and> h' = h"
  by (auto simp: record_finish_def record_begin_def split: if_splits)

lemma record_finish_ok:
  "oi_cli_history_record_is_valid \<lparr>rec_version = 1, record_id = i, turn_id = t, body = b\<rparr> \<Longrightarrow>
   record_finish h i t b = (Inr \<lparr>rec_version = 1, record_id = i, turn_id = t, body = b\<rparr>, h)"
  by (simp add: record_finish_def record_begin_def oi_cli_history_record_is_valid_def)

lemma set_optional_result [set_result]: "set_optional h s = (Inr t, h') \<Longrightarrow> t = s"
  by (auto simp: set_optional_def dest!: string_set_Inr split: option.splits)

lemma set_raw_result [set_result]: "set_raw h s = (Inr t, h') \<Longrightarrow> t = s"
  by (auto simp: set_raw_def bytes_set_def split: option.splits)

lemma set_message_result [set_result]:
  "oi_cli_history_record_set_message h i t m s model out raw = (Inr r, h') \<Longrightarrow>
     r = \<lparr>rec_version = 1, record_id = i, turn_id = t, body = RECORD_MESSAGE
       \<lparr>hm_value = m, hm_source = s, hm_outcome = out, hm_model = model, hm_raw = raw\<rparr>\<rparr>
     \<and> oi_cli_history_record_is_valid r"
  by (auto simp: oi_cli_history_record_set_message_def dest!: set_result split: if_splits)

lemma set_other_results [set_result]:
  "oi_cli_history_record_set_tool_started h i t c = (Inr r, h') \<Longrightarrow>
     r = \<lparr>rec_version = 1, record_id = i, turn_id = t, body = RECORD_TOOL_STARTED (Some c)\<rparr>
     \<and> oi_cli_history_record_is_valid r"
  "oi_cli_history_record_set_partial_assistant h i t c m = (Inr r, h') \<Longrightarrow>
     r = \<lparr>rec_version = 1, record_id = i, turn_id = t, body = RECORD_PARTIAL_ASSISTANT (Some c) m\<rparr>
     \<and> oi_cli_history_record_is_valid r"
  "oi_cli_history_record_set_queued_input h i t c = (Inr r, h') \<Longrightarrow>
     r = \<lparr>rec_version = 1, record_id = i, turn_id = t, body = RECORD_QUEUED_INPUT (Some c)\<rparr>
     \<and> oi_cli_history_record_is_valid r"
  "oi_cli_history_record_set_queue_resolved h i t q res = (Inr r, h') \<Longrightarrow>
     r = \<lparr>rec_version = 1, record_id = i, turn_id = t, body = RECORD_QUEUE_RESOLVED q res\<rparr>
     \<and> oi_cli_history_record_is_valid r"
  "oi_cli_history_record_set_checkpoint h i c m lo hi = (Inr r, h') \<Longrightarrow>
     r = \<lparr>rec_version = 1, record_id = i, turn_id = 0, body = RECORD_CHECKPOINT (Some c) m lo hi\<rparr>
     \<and> oi_cli_history_record_is_valid r"
  "oi_cli_history_record_set_session_setting h i f c = (Inr r, h') \<Longrightarrow>
     r = \<lparr>rec_version = 1, record_id = i, turn_id = 0, body = RECORD_SESSION_SETTING f (Some c)\<rparr>
     \<and> oi_cli_history_record_is_valid r"
  by (auto simp: oi_cli_history_record_set_tool_started_def oi_cli_history_record_set_partial_assistant_def
      oi_cli_history_record_set_queued_input_def oi_cli_history_record_set_queue_resolved_def
      oi_cli_history_record_set_checkpoint_def oi_cli_history_record_set_session_setting_def
      dest!: set_result split: if_splits)

lemma set_transition_result:
  "oi_cli_history_record_set_transition h i n = (Inr r, h') \<longleftrightarrow>
     i \<noteq> 0 \<and> r = \<lparr>rec_version = 1, record_id = i, turn_id = 0, body = RECORD_TRANSITION n\<rparr> \<and> h' = h"
  by (auto simp: oi_cli_history_record_set_transition_def record_begin_def)

text \<open>A valid record by its body: the strings that must be there are.\<close>

lemma record_clone_result:
  assumes "oi_cli_history_record_clone h r = (Inr c, h')"
  shows "c = r \<and> oi_cli_history_record_is_valid r"
proof -
  have v: "oi_cli_history_record_is_valid r" using assms by (auto simp: oi_cli_history_record_clone_def split: if_splits)
  obtain i t b where r: "r = \<lparr>rec_version = 1, record_id = i, turn_id = t, body = b\<rparr>"
    using v by (cases r) (auto simp: oi_cli_history_record_is_valid_def)
  have b: "body_is_valid r" using v by (simp add: oi_cli_history_record_is_valid_def)
  have "c = r"
  proof (cases b)
    case (RECORD_MESSAGE m)
    with assms v r show ?thesis by (cases m) (auto simp: oi_cli_history_record_clone_def dest!: set_result)
  qed (use assms v b r in \<open>auto simp: oi_cli_history_record_clone_def body_is_valid_def set_transition_result
      set_within_def nonempty_within_def string_bytes_def dest!: set_result split: option.splits\<close>)
  with v show ?thesis by blast
qed

text \<open>While memory lasts, a valid record is copied.\<close>

definition record_short :: "oi_cli_history_record \<Rightarrow> bool" where
  "record_short r \<longleftrightarrow> (case body r of RECORD_MESSAGE m \<Rightarrow> message_short (hm_value m) | _ \<Rightarrow> True)"

lemma short_content [simp]: "length s \<le> history_max_content \<Longrightarrow> short s"
  by (simp add: short_def history_max_content_def size_max_def)

lemma set_optional_ok [simp]:
  "length (string_bytes s) \<le> history_max_content \<Longrightarrow> set_optional heap_ok s = (Inr s, heap_ok)"
  by (auto simp: set_optional_def string_bytes_def split: option.splits)

lemma set_raw_ok [simp]: "set_raw heap_ok s = (Inr s, heap_ok)"
  by (auto simp: set_raw_def bytes_set_def split: option.splits)

lemma set_message_ok:
  assumes "oi_cli_history_record_is_valid \<lparr>rec_version = 1, record_id = i, turn_id = t, body = RECORD_MESSAGE
       \<lparr>hm_value = m, hm_source = s, hm_outcome = out, hm_model = model, hm_raw = raw\<rparr>\<rparr>"
    and "message_short m"
  shows "oi_cli_history_record_set_message heap_ok i t m s model out raw =
    (Inr \<lparr>rec_version = 1, record_id = i, turn_id = t, body = RECORD_MESSAGE
       \<lparr>hm_value = m, hm_source = s, hm_outcome = out, hm_model = model, hm_raw = raw\<rparr>\<rparr>, heap_ok)"
proof -
  from assms(1) have "i \<noteq> 0" "oi_cli_message_is_valid m" "length (string_bytes model) \<le> history_max_content"
    by (auto simp: oi_cli_history_record_is_valid_def body_is_valid_def history_message_is_valid_def split: if_splits)
  with assms show ?thesis by (simp add: oi_cli_history_record_set_message_def clone_ok record_finish_ok)
qed

lemma within_short: "set_within n s \<Longrightarrow> n \<le> history_max_content \<Longrightarrow> \<exists>bs. s = Some bs \<and> length bs \<le> history_max_content"
  "nonempty_within n s \<Longrightarrow> n \<le> history_max_content \<Longrightarrow> \<exists>bs. s = Some bs \<and> length bs \<le> history_max_content"
  by (auto simp: set_within_def nonempty_within_def split: option.splits)

lemma setting_within: "nonempty_within history_max_setting_value s \<Longrightarrow> \<exists>bs. s = Some bs \<and> length bs \<le> history_max_content"
  by (erule within_short) (simp add: history_max_setting_value_def history_max_content_def)

lemma record_clone_ok:
  assumes v: "oi_cli_history_record_is_valid r" and s: "record_short r"
  shows "oi_cli_history_record_clone heap_ok r = (Inr r, heap_ok)"
proof -
  obtain i t b where r: "r = \<lparr>rec_version = 1, record_id = i, turn_id = t, body = b\<rparr>" and i: "i \<noteq> 0"
    using v by (cases r) (auto simp: oi_cli_history_record_is_valid_def)
  have b: "body_is_valid r" using v by (simp add: oi_cli_history_record_is_valid_def)
  show ?thesis
  proof (cases b)
    case (RECORD_MESSAGE m)
    with v r s show ?thesis
      by (cases m) (simp add: oi_cli_history_record_clone_def set_message_ok record_short_def)
  qed (use v b r i in \<open>auto simp: oi_cli_history_record_clone_def body_is_valid_def set_transition_result
      oi_cli_history_record_set_tool_started_def oi_cli_history_record_set_partial_assistant_def
      oi_cli_history_record_set_queued_input_def oi_cli_history_record_set_queue_resolved_def
      oi_cli_history_record_set_checkpoint_def oi_cli_history_record_set_session_setting_def
      string_bytes_def record_finish_ok dest!: within_short [OF _ order.refl] setting_within\<close>)
qed

section \<open>The list\<close>

text \<open>The invariant: valid records with consecutive ids, none of which wraps.\<close>

definition next_to :: "oi_cli_history_record \<Rightarrow> oi_cli_history_record \<Rightarrow> bool" where
  "next_to r s \<longleftrightarrow> record_id r \<noteq> uint64_max \<and> record_id s = record_id r + 1"

definition records_ok :: "oi_cli_history_record list \<Rightarrow> bool" where
  "records_ok rs \<longleftrightarrow> list_all oi_cli_history_record_is_valid rs \<and> successively next_to rs"

lemma records_ok_snoc:
  "records_ok (rs @ [r]) \<longleftrightarrow> records_ok rs \<and> oi_cli_history_record_is_valid r \<and> (rs \<noteq> [] \<longrightarrow> next_to (last rs) r)"
  by (auto simp: records_ok_def successively_append_iff)

lemma append_take_result:
  "oi_cli_history_append_take h l r = (Inr l', h') \<Longrightarrow>
     hist_records l' = hist_records l @ [r] \<and> oi_cli_history_record_is_valid r
     \<and> (hist_records l \<noteq> [] \<longrightarrow> next_to (last (hist_records l)) r)"
  by (auto simp: oi_cli_history_append_take_def oi_cli_history_reserve_def next_to_def Let_def split: if_splits)

lemma append_take_ok:
  assumes "oi_cli_history_record_is_valid r" "hist_records l \<noteq> [] \<longrightarrow> next_to (last (hist_records l)) r"
    "length (hist_records l) < size_max div sizeof_record"
  shows "\<exists>l'. oi_cli_history_append_take heap_ok l r = (Inr l', heap_ok) \<and> hist_records l' = hist_records l @ [r]"
  using assms by (auto simp: oi_cli_history_append_take_def oi_cli_history_reserve_def next_to_def Let_def)

lemma append_keeps_records_ok:
  "records_ok (hist_records l) \<Longrightarrow> oi_cli_history_append_take h l r = (Inr l', h') \<Longrightarrow> records_ok (hist_records l')"
  using append_take_result by (simp add: records_ok_snoc)

end
