(* ===== verification/History_Replay.thy ===== *)
theory History_Replay
  imports History Json_Parse
begin

text \<open>
  \<open>src/cli_history_replay.c\<close>: a session's log, records checked one by one against the state machine of a
  conversation, rebuilt into the context a model sees. The builder is private to \<open>oi_cli_history_replay\<close> and
  dropped on every error: an operation answers the builder that follows, or the status. The calls the builder
  points to are values here; \<open>NULL\<close> legacy messages are no messages.
\<close>

definition sizeof_context_item :: nat where "sizeof_context_item = 64"
definition sizeof_replay_tool :: nat where "sizeof_replay_tool = 16"
definition sizeof_unresolved_tool :: nat where "sizeof_unresolved_tool = 24"

record context_item =
  ci_record_id :: uint64
  ci_message :: oi_cli_message

record unresolved_tool =
  ut_id :: bytes
  may_have_started :: bool

record replay_state =
  context_items :: "context_item list"
  context_cap :: nat
  pending_input :: bytes
  pending_input_record_id :: uint64
  pending_input_turn_id :: uint64
  has_pending_input :: bool
  unresolved_tools :: "unresolved_tool list"
  repair_turn_id :: uint64
  next_record_id :: uint64
  next_turn_id :: uint64
  needs_transition :: bool
  needs_repair :: bool
  has_partial_assistant :: bool
  last_model :: "bytes option"
  last_cwd :: "bytes option"
  checkpoint_first :: uint64
  checkpoint_last :: uint64
  has_checkpoint :: bool

datatype replay_phase = REPLAY_EXPECT_USER | REPLAY_EXPECT_ASSISTANT | REPLAY_EXPECT_TOOL_RESULTS

record replay_tool =
  rt_call :: oi_cli_tool_call_value
  started :: bool
  resolved :: bool

record replay_builder =
  rb_state :: replay_state
  phase :: replay_phase
  current_turn_id :: uint64
  last_started_turn_id :: uint64
  rb_tools :: "replay_tool list"
  partial_seen :: bool
  queue_consumed :: bool

definition oi_cli_history_replay_state_init :: replay_state where
  "oi_cli_history_replay_state_init =
     \<lparr>context_items = [], context_cap = 0, pending_input = [], pending_input_record_id = 0,
      pending_input_turn_id = 0, has_pending_input = False, unresolved_tools = [], repair_turn_id = 0,
      next_record_id = 0, next_turn_id = 0, needs_transition = False, needs_repair = False,
      has_partial_assistant = False, last_model = None, last_cwd = None, checkpoint_first = 0,
      checkpoint_last = 0, has_checkpoint = False\<rparr>"

section \<open>Tool calls\<close>

definition string_contains_nul :: "bytes \<Rightarrow> bool" where
  "string_contains_nul s \<longleftrightarrow> 0 \<in> set s"

text \<open>A text must be that of a JSON object; the arena is destroyed once the value is done with.\<close>

definition is_object_value :: "oi_json_value option \<Rightarrow> bool" where
  "is_object_value v \<longleftrightarrow> (case v of None \<Rightarrow> False | Some v \<Rightarrow> oi_json_type_of v = OI_JSON_OBJECT)"

definition parse_object :: "strtod \<Rightarrow> heap \<Rightarrow> nat \<Rightarrow> bytes \<Rightarrow> oi_json_value alloc" where
  "parse_object strtod h block_size t =
     (case oi_arena_create (heap_child h) (word_of_nat block_size) of
        None \<Rightarrow> (Inl OI_ERR_NOMEM, heap_rest h)
      | Some arena \<Rightarrow>
          (case oi_json_parser_create (heap_child (heap_rest h)) arena of
              None \<Rightarrow> (Inl OI_ERR_NOMEM, heap_rest (heap_rest h))
            | Some parser \<Rightarrow>
                (case oi_json_parser_feed strtod parser t of (st, parser) \<Rightarrow>
                   (case (if st = OI_OK then oi_json_parser_finish strtod parser else (st, parser)) of (st, parser) \<Rightarrow>
                      (if st \<noteq> OI_OK then Inl st
                       else if \<not> is_object_value (oi_json_parser_root parser) then Inl OI_ERR_PARSE
                       else Inr (the (oi_json_parser_root parser)), heap_rest (heap_rest h))))))"

definition validate_arguments :: "strtod \<Rightarrow> heap \<Rightarrow> oi_cli_tool_call_value \<Rightarrow> unit alloc" where
  "validate_arguments strtod h call =
     (if string_contains_nul (tc_id call) \<or> string_contains_nul (tc_name call) then (Inl OI_ERR_PARSE, h)
      else alloc_then (parse_object strtod h (history_max_content + 1) (tc_arguments call)) (\<lambda>_ h. (Inr (), h)))"

section \<open>The context\<close>

definition context_reserve :: "heap \<Rightarrow> replay_state \<Rightarrow> nat \<Rightarrow> replay_state alloc" where
  "context_reserve h s needed =
     (if needed \<le> context_cap s then (Inr s, h)
      else (case grow_cap (if context_cap s = 0 then 16 else context_cap s) needed of
          None \<Rightarrow> (Inl OI_ERR_NOMEM, h)
        | Some cap \<Rightarrow>
            if cap > size_max div sizeof_context_item then (Inl OI_ERR_NOMEM, h)
            else alloc_try h (s\<lparr>context_cap := cap\<rparr>)))"

definition context_append :: "heap \<Rightarrow> replay_state \<Rightarrow> uint64 \<Rightarrow> oi_cli_message \<Rightarrow> replay_state alloc" where
  "context_append h s i m =
     (if length (context_items s) = size_max then (Inl OI_ERR_NOMEM, h)
      else alloc_then (context_reserve h s (length (context_items s) + 1)) (\<lambda>s h.
        alloc_then (oi_cli_message_clone h m) (\<lambda>m h.
          (Inr (s\<lparr>context_items := context_items s @ [\<lparr>ci_record_id = i, ci_message = m\<rparr>]\<rparr>), h))))"

text \<open>\<open>context_append\<close> on the builder's state.\<close>

definition builder_append :: "heap \<Rightarrow> replay_builder \<Rightarrow> uint64 \<Rightarrow> oi_cli_message \<Rightarrow> replay_builder alloc" where
  "builder_append h b i m =
     alloc_then (context_append h (rb_state b) i m) (\<lambda>s h. (Inr (b\<lparr>rb_state := s\<rparr>), h))"

section \<open>Messages\<close>

text \<open>\<open>find_tool\<close> answers the index of the first call with the id.\<close>

fun find_tool :: "replay_tool list \<Rightarrow> bytes \<Rightarrow> nat option" where
  "find_tool [] i = None"
| "find_tool (t # ts) i = (if tc_id (rt_call t) = i then Some 0 else map_option Suc (find_tool ts i))"

definition all_tools_resolved :: "replay_builder \<Rightarrow> bool" where
  "all_tools_resolved b \<longleftrightarrow> list_all resolved (rb_tools b)"

fun collect_tools ::
  "strtod \<Rightarrow> heap \<Rightarrow> replay_tool list \<Rightarrow> oi_cli_tool_call_value list \<Rightarrow> replay_tool list alloc" where
  "collect_tools strtod h tools [] = (Inr tools, h)"
| "collect_tools strtod h tools (c # cs) =
     alloc_then (validate_arguments strtod h c) (\<lambda>_ h.
       if list_ex (\<lambda>t. tc_id (rt_call t) = tc_id c) tools then (Inl OI_ERR_PARSE, h)
       else collect_tools strtod h (tools @ [\<lparr>rt_call = c, started = False, resolved = False\<rparr>]) cs)"

definition begin_tool_results :: "strtod \<Rightarrow> heap \<Rightarrow> replay_builder \<Rightarrow> oi_cli_message \<Rightarrow> replay_builder alloc" where
  "begin_tool_results strtod h b m =
     (if length (msg_tool_calls m) > size_max div sizeof_replay_tool then (Inl OI_ERR_NOMEM, h)
      else alloc_then (alloc_try h ()) (\<lambda>_ h.
        alloc_then (collect_tools strtod h [] (msg_tool_calls m)) (\<lambda>tools h.
          (Inr (b\<lparr>rb_tools := tools, phase := REPLAY_EXPECT_TOOL_RESULTS\<rparr>), h))))"

definition drop_pending :: "replay_builder \<Rightarrow> replay_builder" where
  "drop_pending b = b\<lparr>rb_state := (rb_state b)\<lparr>pending_input := [], has_pending_input := False,
     pending_input_record_id := 0, pending_input_turn_id := 0\<rparr>, queue_consumed := False\<rparr>"

definition apply_user_message ::
  "heap \<Rightarrow> replay_builder \<Rightarrow> oi_cli_history_record \<Rightarrow> oi_cli_history_message \<Rightarrow> replay_builder alloc" where
  "apply_user_message h b r m =
     (if phase b \<noteq> REPLAY_EXPECT_USER \<or> turn_id r \<noteq> last_started_turn_id b + 1 \<or> turn_id r = 0
      then (Inl OI_ERR_PARSE, h)
      else if queue_consumed b
        \<and> (\<not> has_pending_input (rb_state b) \<or> turn_id r \<noteq> pending_input_turn_id (rb_state b)
           \<or> string_bytes (msg_content (hm_value m)) \<noteq> pending_input (rb_state b))
      then (Inl OI_ERR_PARSE, h)
      else let b = (if queue_consumed b then drop_pending b else b) in
        alloc_then (builder_append h b (record_id r) (hm_value m)) (\<lambda>b h.
          (Inr (b\<lparr>last_started_turn_id := turn_id r, current_turn_id := turn_id r,
                  phase := REPLAY_EXPECT_ASSISTANT, partial_seen := False\<rparr>), h)))"

definition apply_assistant_message ::
  "strtod \<Rightarrow> heap \<Rightarrow> replay_builder \<Rightarrow> oi_cli_history_record \<Rightarrow> oi_cli_history_message \<Rightarrow> replay_builder alloc" where
  "apply_assistant_message strtod h b r m =
     (if phase b \<noteq> REPLAY_EXPECT_ASSISTANT \<or> turn_id r \<noteq> current_turn_id b then (Inl OI_ERR_PARSE, h)
      else if hm_model m \<noteq> None \<and> string_contains_nul (string_bytes (hm_model m)) then (Inl OI_ERR_PARSE, h)
      else if partial_seen b \<and> hm_source m \<noteq> MESSAGE_REPAIR then (Inl OI_ERR_PARSE, h)
      else alloc_then (builder_append h b (record_id r) (hm_value m)) (\<lambda>b h.
        let b = b\<lparr>partial_seen := False\<rparr> in
        if msg_tool_calls (hm_value m) \<noteq> [] then begin_tool_results strtod h b (hm_value m)
        else (Inr (b\<lparr>rb_tools := [], phase := REPLAY_EXPECT_USER, current_turn_id := 0\<rparr>), h)))"

text \<open>The outcome a call may have: one that ran started, one that did not run did not start.\<close>

definition outcome_matches :: "tool_outcome \<Rightarrow> bool \<Rightarrow> bool" where
  "outcome_matches oc st \<longleftrightarrow>
     \<not> (oc = TOOL_COMPLETED \<and> \<not> st \<or> oc = TOOL_OUTCOME_UNKNOWN \<and> \<not> st \<or> oc = TOOL_NOT_EXECUTED \<and> st)"

definition apply_tool_message ::
  "heap \<Rightarrow> replay_builder \<Rightarrow> oi_cli_history_record \<Rightarrow> oi_cli_history_message \<Rightarrow> replay_builder alloc" where
  "apply_tool_message h b r m =
     (let i = string_bytes (msg_tool_call_id (hm_value m)) in
      if phase b \<noteq> REPLAY_EXPECT_TOOL_RESULTS \<or> turn_id r \<noteq> current_turn_id b \<or> string_contains_nul i
      then (Inl OI_ERR_PARSE, h)
      else (case find_tool (rb_tools b) i of
          None \<Rightarrow> (Inl OI_ERR_PARSE, h)
        | Some k \<Rightarrow>
            let tool = rb_tools b ! k in
            if resolved tool then (Inl OI_ERR_PARSE, h)
            else if \<not> outcome_matches (hm_outcome m) (started tool) then (Inl OI_ERR_PARSE, h)
            else alloc_then (builder_append h b (record_id r) (hm_value m)) (\<lambda>b h.
              let b = b\<lparr>rb_tools := (rb_tools b)[k := tool\<lparr>resolved := True\<rparr>]\<rparr> in
              (Inr (if all_tools_resolved b then b\<lparr>rb_tools := [], phase := REPLAY_EXPECT_ASSISTANT\<rparr> else b), h))))"

definition apply_message ::
  "strtod \<Rightarrow> heap \<Rightarrow> replay_builder \<Rightarrow> oi_cli_history_record \<Rightarrow> oi_cli_history_message \<Rightarrow> replay_builder alloc" where
  "apply_message strtod h b r m =
     (case msg_role (hm_value m) of
        MESSAGE_USER \<Rightarrow> apply_user_message h b r m
      | MESSAGE_ASSISTANT \<Rightarrow> apply_assistant_message strtod h b r m
      | MESSAGE_TOOL \<Rightarrow> apply_tool_message h b r m
      | MESSAGE_NONE \<Rightarrow> (Inl OI_ERR_PARSE, h))"

section \<open>The other records\<close>

definition apply_tool_started :: "heap \<Rightarrow> replay_builder \<Rightarrow> oi_cli_history_record \<Rightarrow> bytes \<Rightarrow> replay_builder alloc" where
  "apply_tool_started h b r i =
     (if phase b \<noteq> REPLAY_EXPECT_TOOL_RESULTS \<or> turn_id r \<noteq> current_turn_id b \<or> string_contains_nul i
      then (Inl OI_ERR_PARSE, h)
      else (case find_tool (rb_tools b) i of
          None \<Rightarrow> (Inl OI_ERR_PARSE, h)
        | Some k \<Rightarrow>
            let tool = rb_tools b ! k in
            if started tool \<or> resolved tool then (Inl OI_ERR_PARSE, h)
            else (Inr (b\<lparr>rb_tools := (rb_tools b)[k := tool\<lparr>started := True\<rparr>]\<rparr>), h)))"

definition apply_partial :: "heap \<Rightarrow> replay_builder \<Rightarrow> oi_cli_history_record \<Rightarrow> bytes \<Rightarrow> replay_builder alloc" where
  "apply_partial h b r model =
     (if phase b \<noteq> REPLAY_EXPECT_ASSISTANT \<or> turn_id r \<noteq> current_turn_id b \<or> partial_seen b
        \<or> string_contains_nul model then (Inl OI_ERR_PARSE, h)
      else (Inr (b\<lparr>partial_seen := True\<rparr>), h))"

definition apply_queued_input :: "heap \<Rightarrow> replay_builder \<Rightarrow> oi_cli_history_record \<Rightarrow> bytes \<Rightarrow> replay_builder alloc" where
  "apply_queued_input h b r content =
     (if phase b = REPLAY_EXPECT_USER \<or> has_pending_input (rb_state b) \<or> queue_consumed b
        \<or> turn_id r \<noteq> last_started_turn_id b + 1 then (Inl OI_ERR_PARSE, h)
      else alloc_then (oi_cli_string_set h content) (\<lambda>s h.
        (Inr (b\<lparr>rb_state := (rb_state b)\<lparr>pending_input := s, pending_input_record_id := record_id r,
                 pending_input_turn_id := turn_id r, has_pending_input := True\<rparr>\<rparr>), h)))"

definition apply_queue_resolved ::
  "heap \<Rightarrow> replay_builder \<Rightarrow> oi_cli_history_record \<Rightarrow> uint64 \<Rightarrow> queue_resolution \<Rightarrow> replay_builder alloc" where
  "apply_queue_resolved h b r queued res =
     (if phase b \<noteq> REPLAY_EXPECT_USER \<or> \<not> has_pending_input (rb_state b)
        \<or> turn_id r \<noteq> pending_input_turn_id (rb_state b) \<or> queued \<noteq> pending_input_record_id (rb_state b)
      then (Inl OI_ERR_PARSE, h)
      else if queue_consumed b then
        (if res \<noteq> QUEUE_DISCARDED then (Inl OI_ERR_PARSE, h) else (Inr (drop_pending b), h))
      else if res = QUEUE_CONSUMED then (Inr (b\<lparr>queue_consumed := True\<rparr>), h)
      else (Inr (drop_pending b), h))"

text \<open>How many items from the front have an id up to \<open>hi\<close>; \<open>None\<close> when one of them is below \<open>lo\<close>.\<close>

fun covered :: "uint64 \<Rightarrow> uint64 \<Rightarrow> context_item list \<Rightarrow> nat option" where
  "covered lo hi [] = Some 0"
| "covered lo hi (c # cs) =
     (if ci_record_id c \<le> hi then (if ci_record_id c < lo then None else map_option Suc (covered lo hi cs))
      else Some 0)"

definition apply_checkpoint ::
  "heap \<Rightarrow> replay_builder \<Rightarrow> oi_cli_history_record \<Rightarrow> bytes \<Rightarrow> bytes \<Rightarrow> uint64 \<Rightarrow> uint64 \<Rightarrow> replay_builder alloc" where
  "apply_checkpoint h b r content model lo hi =
     (let items = context_items (rb_state b) in
      if phase b \<noteq> REPLAY_EXPECT_USER \<or> has_pending_input (rb_state b) \<or> queue_consumed b \<or> items = []
        \<or> string_contains_nul model then (Inl OI_ERR_PARSE, h)
      else if lo > ci_record_id (hd items) \<or> hi < ci_record_id (hd items) then (Inl OI_ERR_PARSE, h)
      else (case covered lo hi items of
          None \<Rightarrow> (Inl OI_ERR_PARSE, h)
        | Some n \<Rightarrow>
            if n = 0 then (Inl OI_ERR_PARSE, h)
            else alloc_then (oi_cli_message_set_assistant h content) (\<lambda>m h.
              (Inr (b\<lparr>rb_state := (rb_state b)\<lparr>
                 context_items := \<lparr>ci_record_id = record_id r, ci_message = m\<rparr> # drop n items,
                 checkpoint_first := lo, checkpoint_last := hi, has_checkpoint := True\<rparr>\<rparr>), h))))"

definition apply_session_setting ::
  "heap \<Rightarrow> replay_builder \<Rightarrow> session_setting_field \<Rightarrow> bytes \<Rightarrow> replay_builder alloc" where
  "apply_session_setting h b f v =
     (if phase b \<noteq> REPLAY_EXPECT_USER \<or> has_pending_input (rb_state b) \<or> queue_consumed b
        \<or> string_contains_nul v then (Inl OI_ERR_PARSE, h)
      else alloc_then (oi_cli_string_set h v) (\<lambda>s h.
        (Inr (b\<lparr>rb_state := (if f = SETTING_MODEL then (rb_state b)\<lparr>last_model := Some s\<rparr>
                             else (rb_state b)\<lparr>last_cwd := Some s\<rparr>)\<rparr>), h)))"

text \<open>What may follow a queue entry that was consumed: its message, or that it is discarded after all.\<close>

definition follows_consumed :: "record_body \<Rightarrow> bool" where
  "follows_consumed r \<longleftrightarrow>
     (case r of
        RECORD_MESSAGE m \<Rightarrow> msg_role (hm_value m) = MESSAGE_USER
      | RECORD_QUEUE_RESOLVED _ res \<Rightarrow> res = QUEUE_DISCARDED
      | _ \<Rightarrow> False)"

definition apply_typed_record :: "strtod \<Rightarrow> heap \<Rightarrow> replay_builder \<Rightarrow> oi_cli_history_record \<Rightarrow> replay_builder alloc" where
  "apply_typed_record strtod h b r =
     (if queue_consumed b \<and> \<not> follows_consumed (body r) then (Inl OI_ERR_PARSE, h)
      else (case body r of
          RECORD_MESSAGE m \<Rightarrow> apply_message strtod h b r m
        | RECORD_TOOL_STARTED i \<Rightarrow> apply_tool_started h b r (string_bytes i)
        | RECORD_PARTIAL_ASSISTANT _ model \<Rightarrow> apply_partial h b r (string_bytes model)
        | RECORD_QUEUED_INPUT content \<Rightarrow> apply_queued_input h b r (string_bytes content)
        | RECORD_QUEUE_RESOLVED q res \<Rightarrow> apply_queue_resolved h b r q res
        | RECORD_CHECKPOINT content model lo hi \<Rightarrow>
            apply_checkpoint h b r (string_bytes content) (string_bytes model) lo hi
        | RECORD_SESSION_SETTING f v \<Rightarrow> apply_session_setting h b f (string_bytes v)
        | RECORD_NONE \<Rightarrow> (Inl OI_ERR_PARSE, h)
        | RECORD_TRANSITION _ \<Rightarrow> (Inl OI_ERR_PARSE, h)))"

section \<open>Replay\<close>

text \<open>\<open>i\<close> counts the legacy messages done.\<close>

fun legacy_loop :: "heap \<Rightarrow> replay_builder \<Rightarrow> nat \<Rightarrow> oi_cli_message list \<Rightarrow> replay_builder alloc" where
  "legacy_loop h b i [] = (Inr b, h)"
| "legacy_loop h b i (m # ms) =
     (if \<not> oi_cli_message_is_valid m
        \<or> msg_role m \<noteq> (if i mod 2 = 0 then MESSAGE_USER else MESSAGE_ASSISTANT)
        \<or> msg_tool_calls m \<noteq> [] then (Inl OI_ERR_PARSE, h)
      else alloc_then (builder_append h b (word_of_nat i + 1) m) (\<lambda>b h. legacy_loop h b (i + 1) ms))"

definition apply_legacy :: "heap \<Rightarrow> replay_builder \<Rightarrow> oi_cli_message list \<Rightarrow> replay_builder alloc" where
  "apply_legacy h b legacy =
     alloc_then (legacy_loop h b 0 legacy) (\<lambda>b h.
       (Inr (if legacy = [] then b
             else let b = b\<lparr>last_started_turn_id := (word_of_nat (length legacy) + 1) div 2\<rparr> in
               if length legacy mod 2 \<noteq> 0
               then b\<lparr>phase := REPLAY_EXPECT_ASSISTANT, current_turn_id := last_started_turn_id b\<rparr> else b), h))"

fun publish_loop :: "heap \<Rightarrow> replay_tool list \<Rightarrow> unresolved_tool list alloc" where
  "publish_loop h [] = (Inr [], h)"
| "publish_loop h (t # ts) =
     (if resolved t then publish_loop h ts
      else alloc_then (oi_cli_string_set h (tc_id (rt_call t))) (\<lambda>s h.
        alloc_then (publish_loop h ts) (\<lambda>us h.
          (Inr (\<lparr>ut_id = s, may_have_started = started t\<rparr> # us), h))))"

definition publish_unresolved :: "heap \<Rightarrow> replay_builder \<Rightarrow> replay_state \<Rightarrow> replay_state alloc" where
  "publish_unresolved h b s =
     (let count = length (filter (\<lambda>t. \<not> resolved t) (rb_tools b)) in
      if count = 0 then (Inr s, h)
      else if count > size_max div sizeof_unresolved_tool then (Inl OI_ERR_NOMEM, h)
      else alloc_then (alloc_try h ()) (\<lambda>_ h.
        alloc_then (publish_loop h (rb_tools b)) (\<lambda>us h. (Inr (s\<lparr>unresolved_tools := us\<rparr>), h))))"

definition new_builder :: replay_builder where
  "new_builder =
     \<lparr>rb_state = oi_cli_history_replay_state_init\<lparr>needs_transition := True\<rparr>, phase = REPLAY_EXPECT_USER,
      current_turn_id = 0, last_started_turn_id = 0, rb_tools = [], partial_seen = False, queue_consumed = False\<rparr>"

text \<open>The loop over the records after the transition; \<open>prev\<close> is the record before.\<close>

fun replay_records ::
  "strtod \<Rightarrow> heap \<Rightarrow> replay_builder \<Rightarrow> oi_cli_history_record \<Rightarrow> oi_cli_history_record list \<Rightarrow> replay_builder alloc" where
  "replay_records strtod h b prev [] = (Inr b, h)"
| "replay_records strtod h b prev (r # rs) =
     (if \<not> oi_cli_history_record_is_valid r \<or> record_id r \<noteq> record_id prev + 1 then (Inl OI_ERR_PARSE, h)
      else alloc_then (apply_typed_record strtod h b r) (\<lambda>b h. replay_records strtod h b r rs))"

definition is_transition_to :: "uint64 \<Rightarrow> oi_cli_history_record \<Rightarrow> bool" where
  "is_transition_to n r \<longleftrightarrow> oi_cli_history_record_is_valid r \<and> body r = RECORD_TRANSITION n"

text \<open>The records of a typed history, the first of which must be the transition.\<close>

definition replay_typed ::
  "strtod \<Rightarrow> heap \<Rightarrow> replay_builder \<Rightarrow> uint64 \<Rightarrow> oi_cli_history_record list \<Rightarrow> replay_builder alloc" where
  "replay_typed strtod h b legacy_count typed =
     (case typed of
        [] \<Rightarrow> (Inr b, h)
      | r # rs \<Rightarrow>
          if \<not> is_transition_to legacy_count r then (Inl OI_ERR_PARSE, h)
          else replay_records strtod h (b\<lparr>rb_state := (rb_state b)\<lparr>needs_transition := False\<rparr>\<rparr>) r rs)"

text \<open>The fields the end of \<open>oi_cli_history_replay\<close> publishes.\<close>

definition publish :: "heap \<Rightarrow> replay_builder \<Rightarrow> uint64 \<Rightarrow> replay_state alloc" where
  "publish h b last_record_id =
     (if last_record_id = uint64_max \<or> last_started_turn_id b = uint64_max then (Inl OI_ERR_PARSE, h)
      else publish_unresolved h b ((rb_state b)\<lparr>
        next_record_id := last_record_id + 1,
        next_turn_id := last_started_turn_id b + 1,
        needs_repair := phase b \<noteq> REPLAY_EXPECT_USER,
        repair_turn_id := (if phase b \<noteq> REPLAY_EXPECT_USER then current_turn_id b else 0),
        has_partial_assistant := partial_seen b\<rparr>))"

definition oi_cli_history_replay ::
  "strtod \<Rightarrow> heap \<Rightarrow> oi_cli_message list \<Rightarrow> oi_cli_history_record list \<Rightarrow> replay_state alloc" where
  "oi_cli_history_replay strtod h legacy typed =
     (let legacy_count = word_of_nat (length legacy) :: uint64 in
      alloc_then (apply_legacy h new_builder legacy) (\<lambda>b h.
      alloc_then (replay_typed strtod h b legacy_count typed) (\<lambda>b h.
        if typed = [] \<and> legacy_count = uint64_max then (Inl OI_ERR_PARSE, h)
        else publish h b (if typed \<noteq> [] then record_id (last typed) else legacy_count))))"

end
