(* ===== verification/History_Turns.thy ===== *)
theory History_Turns
  imports History_Replay
begin

text \<open>
  What a replayed log is: the conversation it stands for, the invariant of the builder of
  \<open>History_Replay\<close>, and the context it publishes.
\<close>

section \<open>Conversations\<close>

text \<open>
  The specification of a context, over messages alone: nothing is due, an answer is due, or results of the calls
  with these ids are due.
\<close>

datatype conv = Idle | Waiting | Calls "bytes list"

fun conv_step :: "conv \<Rightarrow> oi_cli_message \<Rightarrow> conv option" where
  "conv_step Idle m = (if msg_role m = MESSAGE_USER then Some Waiting else None)"
| "conv_step Waiting m =
     (if msg_role m \<noteq> MESSAGE_ASSISTANT then None
      else if msg_tool_calls m = [] then Some Idle
      else if distinct (map tc_id (msg_tool_calls m)) then Some (Calls (map tc_id (msg_tool_calls m))) else None)"
| "conv_step (Calls due) m =
     (let i = string_bytes (msg_tool_call_id m) in
      if msg_role m \<noteq> MESSAGE_TOOL \<or> i \<notin> set due then None
      else Some (if remove1 i due = [] then Waiting else Calls (remove1 i due)))"

fun conv_run :: "conv \<Rightarrow> oi_cli_message list \<Rightarrow> conv option" where
  "conv_run c [] = Some c"
| "conv_run c (m # ms) = (case conv_step c m of None \<Rightarrow> None | Some c \<Rightarrow> conv_run c ms)"

lemma conv_run_append: "conv_run c (ms @ ns) = (case conv_run c ms of None \<Rightarrow> None | Some c \<Rightarrow> conv_run c ns)"
  by (induction ms arbitrary: c) (simp_all split: option.split)

lemma conv_run_snoc: "conv_run c ms = Some c1 \<Longrightarrow> conv_step c1 m = Some c2 \<Longrightarrow> conv_run c (ms @ [m]) = Some c2"
  by (simp add: conv_run_append)

section \<open>The builder's invariant\<close>

definition due_ids :: "replay_tool list \<Rightarrow> bytes list" where
  "due_ids ts = map (\<lambda>t. tc_id (rt_call t)) (filter (\<lambda>t. \<not> resolved t) ts)"

definition abs_conv :: "replay_builder \<Rightarrow> conv" where
  "abs_conv b = (case phase b of REPLAY_EXPECT_USER \<Rightarrow> Idle | REPLAY_EXPECT_ASSISTANT \<Rightarrow> Waiting
     | REPLAY_EXPECT_TOOL_RESULTS \<Rightarrow> Calls (due_ids (rb_tools b)))"

definition tools_ok :: "replay_tool list \<Rightarrow> bool" where
  "tools_ok ts \<longleftrightarrow> distinct (map (\<lambda>t. tc_id (rt_call t)) ts)
     \<and> list_all (\<lambda>t. call_is_valid (rt_call t) \<and> 0 \<notin> set (tc_id (rt_call t))) ts"

definition builder_ok :: "replay_builder \<Rightarrow> bool" where
  "builder_ok b \<longleftrightarrow> tools_ok (rb_tools b)
     \<and> (if phase b = REPLAY_EXPECT_TOOL_RESULTS then due_ids (rb_tools b) \<noteq> [] else rb_tools b = [])
     \<and> (phase b \<noteq> REPLAY_EXPECT_USER \<longrightarrow> current_turn_id b = last_started_turn_id b \<and> current_turn_id b \<noteq> 0)
     \<and> (phase b \<noteq> REPLAY_EXPECT_ASSISTANT \<longrightarrow> \<not> partial_seen b)
     \<and> (queue_consumed b \<longrightarrow> phase b = REPLAY_EXPECT_USER \<and> has_pending_input (rb_state b))"

text \<open>The messages of the context; the message a record adds to the conversation.\<close>

abbreviation context_messages :: "replay_builder \<Rightarrow> oi_cli_message list" where
  "context_messages b \<equiv> map ci_message (context_items (rb_state b))"

lemma find_tool_Some: "find_tool ts i = Some k \<Longrightarrow> k < length ts \<and> tc_id (rt_call (ts ! k)) = i"
  by (induction ts arbitrary: k) (auto split: if_splits)

lemma find_tool_distinct:
  "distinct (map (\<lambda>t. tc_id (rt_call t)) ts) \<Longrightarrow> k < length ts \<Longrightarrow> find_tool ts (tc_id (rt_call (ts ! k))) = Some k"
proof (induction ts arbitrary: k)
  case (Cons t ts)
  show ?case
  proof (cases k)
    case (Suc n)
    with Cons.prems have "tc_id (rt_call (ts ! n)) \<in> (\<lambda>t. tc_id (rt_call t)) ` set ts" by simp
    with Suc Cons show ?thesis by auto
  qed simp
qed simp

lemma update_tool_calls:
  "k < length ts \<Longrightarrow> rt_call t = rt_call (ts ! k) \<Longrightarrow> map (\<lambda>t. f (rt_call t)) (ts[k := t]) = map (\<lambda>t. f (rt_call t)) ts"
  by (rule nth_equalityI) (auto simp: nth_list_update)

lemma update_tools_ok:
  assumes "tools_ok ts" "k < length ts" "rt_call t = rt_call (ts ! k)"
  shows "tools_ok (ts[k := t])"
proof -
  let ?P = "\<lambda>c. call_is_valid c \<and> 0 \<notin> set (tc_id c)"
  have l: "list_all (\<lambda>t. ?P (rt_call t)) us \<longleftrightarrow> list_all ?P (map rt_call us)" for us
    by (simp add: list_all_length)
  show ?thesis
    using assms update_tool_calls [of k ts t tc_id] update_tool_calls [of k ts t id]
    unfolding tools_ok_def l by simp
qed

lemma due_ids_started: "k < length ts \<Longrightarrow> due_ids (ts[k := (ts ! k)\<lparr>started := s\<rparr>]) = due_ids ts"
proof (induction ts arbitrary: k)
  case (Cons t ts)
  then show ?case by (cases k) (auto simp: due_ids_def)
qed simp

lemma due_ids_resolved:
  "distinct (map (\<lambda>t. tc_id (rt_call t)) ts) \<Longrightarrow> k < length ts \<Longrightarrow> \<not> resolved (ts ! k) \<Longrightarrow>
   due_ids (ts[k := (ts ! k)\<lparr>resolved := True\<rparr>]) = remove1 (tc_id (rt_call (ts ! k))) (due_ids ts)
   \<and> tc_id (rt_call (ts ! k)) \<in> set (due_ids ts)"
proof (induction ts arbitrary: k)
  case (Cons t ts)
  show ?case
  proof (cases k)
    case (Suc n)
    with Cons.prems have ne: "tc_id (rt_call t) \<noteq> tc_id (rt_call (ts ! n))" by auto
    with Suc Cons show ?thesis by (auto simp: due_ids_def)
  qed (use Cons.prems in \<open>auto simp: due_ids_def\<close>)
qed simp

lemma all_resolved_iff: "all_tools_resolved b \<longleftrightarrow> due_ids (rb_tools b) = []"
  by (auto simp: all_tools_resolved_def due_ids_def list_all_iff filter_empty_conv)

lemma context_append_result:
  "context_append h s i m = (Inr s', h') \<Longrightarrow>
     \<exists>cap. s' = s\<lparr>context_cap := cap, context_items := context_items s @ [\<lparr>ci_record_id = i, ci_message = m\<rparr>]\<rparr>"
  by (auto simp: context_append_def context_reserve_def dest!: clone_result split: if_splits option.splits)
     (metis replay_state.surjective replay_state.update_convs(2))+

lemma builder_append_result:
  "builder_append h b i m = (Inr b', h') \<Longrightarrow>
     \<exists>cap. b' = b\<lparr>rb_state := (rb_state b)\<lparr>context_cap := cap,
       context_items := context_items (rb_state b) @ [\<lparr>ci_record_id = i, ci_message = m\<rparr>]\<rparr>\<rparr>"
  by (auto simp: builder_append_def dest!: context_append_result)

section \<open>One record\<close>

definition new_tool :: "oi_cli_tool_call_value \<Rightarrow> replay_tool" where
  "new_tool c = \<lparr>rt_call = c, started = False, resolved = False\<rparr>"

lemma tools_ok_Nil [simp]: "tools_ok []"
  by (simp add: tools_ok_def)

lemma validate_no_nul: "validate_arguments strtod h c = (Inr x, h') \<Longrightarrow> 0 \<notin> set (tc_id c) \<and> 0 \<notin> set (tc_name c)"
  by (auto simp: validate_arguments_def string_contains_nul_def split: if_splits)

lemma collect_tools_result:
  "collect_tools strtod h tools cs = (Inr ts, h') \<Longrightarrow> tools_ok tools \<Longrightarrow> list_all call_is_valid cs \<Longrightarrow>
     ts = tools @ map new_tool cs \<and> tools_ok ts"
proof (induction cs arbitrary: h tools)
  case (Cons c cs)
  from Cons.prems(1) obtain x h1 where v: "validate_arguments strtod h c = (Inr x, h1)"
    and d: "\<not> list_ex (\<lambda>t. tc_id (rt_call t) = tc_id c) tools"
    and c: "collect_tools strtod h1 (tools @ [new_tool c]) cs = (Inr ts, h')"
    by (auto simp: new_tool_def split: if_splits)
  have "tools_ok (tools @ [new_tool c])"
    using Cons.prems(2,3) d validate_no_nul [OF v] by (auto simp: tools_ok_def new_tool_def list_ex_iff)
  from Cons.IH [OF c this] Cons.prems(3) show ?case by auto
qed (simp add: tools_ok_def)

lemma begin_tools_result:
  assumes "begin_tool_results strtod h b m = (Inr b', h')" "list_all call_is_valid (msg_tool_calls m)"
  shows "b' = b\<lparr>rb_tools := map new_tool (msg_tool_calls m), phase := REPLAY_EXPECT_TOOL_RESULTS\<rparr>
    \<and> tools_ok (rb_tools b')"
proof -
  from assms(1) obtain h1 ts h2 where "collect_tools strtod h1 [] (msg_tool_calls m) = (Inr ts, h2)"
    "b' = b\<lparr>rb_tools := ts, phase := REPLAY_EXPECT_TOOL_RESULTS\<rparr>"
    by (auto simp: begin_tool_results_def split: if_splits)
  with collect_tools_result [OF this(1) _ assms(2)] show ?thesis by auto
qed

lemma due_new: "due_ids (map new_tool cs) = map tc_id cs"
  by (induction cs) (auto simp: due_ids_def new_tool_def)

lemma tools_ok_new: "tools_ok (map new_tool cs) \<Longrightarrow> distinct (map tc_id cs)"
  by (simp add: tools_ok_def new_tool_def comp_def)

text \<open>What a record does to the conversation: it adds a message, or nothing.\<close>

definition adds_message :: "replay_builder \<Rightarrow> uint64 \<Rightarrow> oi_cli_message \<Rightarrow> replay_builder \<Rightarrow> bool" where
  "adds_message b i m b' \<longleftrightarrow> builder_ok b' \<and> conv_step (abs_conv b) m = Some (abs_conv b')
     \<and> context_items (rb_state b') = context_items (rb_state b) @ [\<lparr>ci_record_id = i, ci_message = m\<rparr>]
     \<and> has_checkpoint (rb_state b') = has_checkpoint (rb_state b)"

definition adds_nothing :: "replay_builder \<Rightarrow> replay_builder \<Rightarrow> bool" where
  "adds_nothing b b' \<longleftrightarrow> builder_ok b' \<and> abs_conv b' = abs_conv b
     \<and> context_items (rb_state b') = context_items (rb_state b)
     \<and> has_checkpoint (rb_state b') = has_checkpoint (rb_state b)"

lemma user_adds:
  assumes "builder_ok b" "msg_role (hm_value m) = MESSAGE_USER" "apply_user_message h b r m = (Inr b', h')"
  shows "adds_message b (record_id r) (hm_value m) b'"
  using assms
  by (auto simp: apply_user_message_def adds_message_def builder_ok_def abs_conv_def Let_def drop_pending_def
      dest!: builder_append_result split: if_splits)

lemma assistant_adds:
  assumes ok: "builder_ok b" and role: "msg_role (hm_value m) = MESSAGE_ASSISTANT"
    and v: "oi_cli_message_is_valid (hm_value m)"
    and a: "apply_assistant_message strtod h b r m = (Inr b', h')"
  shows "adds_message b (record_id r) (hm_value m) b'"
proof -
  have lv: "list_all call_is_valid (msg_tool_calls (hm_value m))"
    using v role by (simp add: oi_cli_message_is_valid_def)
  obtain b1 h1 where b1: "builder_append h b (record_id r) (hm_value m) = (Inr b1, h1)"
    and p: "phase b = REPLAY_EXPECT_ASSISTANT"
    and b': "(if msg_tool_calls (hm_value m) \<noteq> [] then begin_tool_results strtod h1 (b1\<lparr>partial_seen := False\<rparr>) (hm_value m)
       else (Inr (b1\<lparr>partial_seen := False, rb_tools := [], phase := REPLAY_EXPECT_USER, current_turn_id := 0\<rparr>), h1))
       = (Inr b', h')"
    using a by (auto simp: apply_assistant_message_def Let_def split: if_split_asm)
  show ?thesis
  proof (cases "msg_tool_calls (hm_value m) = []")
    case True
    with b1 b' p ok role show ?thesis
      by (auto simp: adds_message_def builder_ok_def abs_conv_def dest!: builder_append_result)
  next
    case False
    with b' begin_tools_result [OF _ lv] have
      e: "b' = b1\<lparr>partial_seen := False, rb_tools := map new_tool (msg_tool_calls (hm_value m)),
            phase := REPLAY_EXPECT_TOOL_RESULTS\<rparr>" and t: "tools_ok (rb_tools b')" by auto
    from e t have "tools_ok (map new_tool (msg_tool_calls (hm_value m)))" by simp
    with tools_ok_new [OF this] e b1 p ok role False show ?thesis
      by (auto simp: adds_message_def builder_ok_def abs_conv_def due_new dest!: builder_append_result)
  qed
qed

lemma tool_adds:
  assumes ok: "builder_ok b" and role: "msg_role (hm_value m) = MESSAGE_TOOL"
    and a: "apply_tool_message h b r m = (Inr b', h')"
  shows "adds_message b (record_id r) (hm_value m) b'"
proof -
  let ?i = "string_bytes (msg_tool_call_id (hm_value m))"
  obtain k b1 h1 where k: "find_tool (rb_tools b) ?i = Some k" "\<not> resolved (rb_tools b ! k)"
    and p: "phase b = REPLAY_EXPECT_TOOL_RESULTS"
    and b1: "builder_append h b (record_id r) (hm_value m) = (Inr b1, h1)"
    and b': "b' = (let b = b1\<lparr>rb_tools := (rb_tools b1)[k := (rb_tools b ! k)\<lparr>resolved := True\<rparr>]\<rparr> in
       if all_tools_resolved b then b\<lparr>rb_tools := [], phase := REPLAY_EXPECT_ASSISTANT\<rparr> else b)"
    using a by (auto simp: apply_tool_message_def Let_def split: if_split_asm option.splits)
  let ?ts = "(rb_tools b)[k := (rb_tools b ! k)\<lparr>resolved := True\<rparr>]"
  obtain cap where e: "b1 = b\<lparr>rb_state := (rb_state b)\<lparr>context_cap := cap,
       context_items := context_items (rb_state b) @ [\<lparr>ci_record_id = record_id r, ci_message = hm_value m\<rparr>]\<rparr>\<rparr>"
    using builder_append_result [OF b1] by blast
  have lt: "k < length (rb_tools b)" "tc_id (rt_call (rb_tools b ! k)) = ?i" using find_tool_Some [OF k(1)] by auto
  have "distinct (map (\<lambda>t. tc_id (rt_call t)) (rb_tools b))" using ok by (simp add: builder_ok_def tools_ok_def)
  from due_ids_resolved [OF this lt(1) k(2)] lt(2)
  have d: "due_ids ?ts = remove1 ?i (due_ids (rb_tools b))" "?i \<in> set (due_ids (rb_tools b))" by auto
  have "tools_ok ?ts" by (rule update_tools_ok) (use ok lt in \<open>auto simp: builder_ok_def\<close>)
  with ok p role d show ?thesis unfolding b' e
    by (auto simp: adds_message_def builder_ok_def abs_conv_def all_resolved_iff Let_def)
qed

lemma started_adds:
  assumes "builder_ok b" "apply_tool_started h b r i = (Inr b', h')"
  shows "adds_nothing b b'"
proof -
  obtain k where k: "find_tool (rb_tools b) i = Some k" "phase b = REPLAY_EXPECT_TOOL_RESULTS"
    and b': "b' = b\<lparr>rb_tools := (rb_tools b)[k := (rb_tools b ! k)\<lparr>started := True\<rparr>]\<rparr>"
    using assms(2) by (auto simp: apply_tool_started_def Let_def split: if_split_asm option.splits)
  have lt: "k < length (rb_tools b)" using find_tool_Some [OF k(1)] by simp
  have "tools_ok ((rb_tools b)[k := (rb_tools b ! k)\<lparr>started := True\<rparr>])"
    by (rule update_tools_ok) (use assms(1) lt in \<open>auto simp: builder_ok_def\<close>)
  with assms(1) k(2) due_ids_started [OF lt] show ?thesis
    unfolding b' by (auto simp: adds_nothing_def builder_ok_def abs_conv_def)
qed

lemma partial_adds: "builder_ok b \<Longrightarrow> apply_partial h b r s = (Inr b', h') \<Longrightarrow> adds_nothing b b'"
  by (auto simp: apply_partial_def adds_nothing_def builder_ok_def abs_conv_def split: if_split_asm)

lemma queued_adds: "builder_ok b \<Longrightarrow> apply_queued_input h b r s = (Inr b', h') \<Longrightarrow> adds_nothing b b'"
  unfolding apply_queued_input_def adds_nothing_def builder_ok_def abs_conv_def
  by (cases "phase b") (auto split: if_split_asm)

lemma drop_pending_adds: "builder_ok b \<Longrightarrow> adds_nothing b (drop_pending b)"
  by (cases "phase b") (auto simp: adds_nothing_def builder_ok_def abs_conv_def drop_pending_def)

lemma queue_resolved_adds:
  assumes "builder_ok b" "apply_queue_resolved h b r q res = (Inr b', h')"
  shows "adds_nothing b b'"
proof -
  from assms(2) have "phase b = REPLAY_EXPECT_USER" "has_pending_input (rb_state b)"
    "b' = drop_pending b \<or> b' = b\<lparr>queue_consumed := True\<rparr>"
    by (auto simp: apply_queue_resolved_def split: if_split_asm)
  with assms(1) drop_pending_adds [OF assms(1)] show ?thesis
    by (auto simp: adds_nothing_def builder_ok_def abs_conv_def)
qed

lemma setting_adds: "builder_ok b \<Longrightarrow> apply_session_setting h b f s = (Inr b', h') \<Longrightarrow> adds_nothing b b'"
  by (cases f) (auto simp: apply_session_setting_def adds_nothing_def builder_ok_def abs_conv_def split: if_split_asm)

text \<open>A checkpoint replaces a first part of the context by its summary.\<close>

definition summary_message :: "bytes \<Rightarrow> oi_cli_message" where
  "summary_message s = \<lparr>msg_role = MESSAGE_ASSISTANT, msg_content = Some s, msg_tool_call_id = None, msg_tool_calls = []\<rparr>"

definition replaces_prefix :: "replay_builder \<Rightarrow> bytes \<Rightarrow> replay_builder \<Rightarrow> bool" where
  "replaces_prefix b s b' \<longleftrightarrow> builder_ok b' \<and> abs_conv b' = abs_conv b \<and> has_checkpoint (rb_state b')
     \<and> (\<exists>n i. 0 < n \<and> context_items (rb_state b') =
           \<lparr>ci_record_id = i, ci_message = summary_message s\<rparr> # drop n (context_items (rb_state b)))"

lemma checkpoint_replaces:
  assumes "builder_ok b" "apply_checkpoint h b r content model lo hi = (Inr b', h')"
  shows "replaces_prefix b content b'"
proof -
  obtain n where n: "0 < n" and b': "b' = b\<lparr>rb_state := (rb_state b)\<lparr>
      context_items := \<lparr>ci_record_id = record_id r, ci_message = summary_message content\<rparr> # drop n (context_items (rb_state b)),
      checkpoint_first := lo, checkpoint_last := hi, has_checkpoint := True\<rparr>\<rparr>"
    using assms(2)
    by (auto simp: apply_checkpoint_def Let_def summary_message_def dest!: set_assistant_result
        split: if_split_asm option.splits)
  with assms(1) show ?thesis unfolding replaces_prefix_def b'
    by (cases "phase b") (auto simp: builder_ok_def abs_conv_def)
qed

lemma record_step:
  assumes ok: "builder_ok b" and v: "oi_cli_history_record_is_valid r"
    and a: "apply_typed_record strtod h b r = (Inr b', h')"
  shows "case body r of RECORD_MESSAGE m \<Rightarrow> adds_message b (record_id r) (hm_value m) b'
    | RECORD_CHECKPOINT s _ _ _ \<Rightarrow> replaces_prefix b (string_bytes s) b' | _ \<Rightarrow> adds_nothing b b'"
proof (cases "body r")
  case (RECORD_MESSAGE m)
  from v RECORD_MESSAGE have "oi_cli_message_is_valid (hm_value m)"
    by (auto simp: oi_cli_history_record_is_valid_def body_is_valid_def history_message_is_valid_def split: if_split_asm)
  with RECORD_MESSAGE a ok show ?thesis
    by (auto simp: apply_typed_record_def apply_message_def intro: user_adds assistant_adds tool_adds
        split: if_split_asm oi_cli_message_role.splits)
qed (use a ok in \<open>auto simp: apply_typed_record_def intro: started_adds partial_adds queued_adds
    queue_resolved_adds setting_adds checkpoint_replaces split: if_split_asm\<close>)

section \<open>A whole history\<close>

definition record_messages :: "oi_cli_history_record \<Rightarrow> oi_cli_message list" where
  "record_messages r = (case body r of RECORD_MESSAGE m \<Rightarrow> [hm_value m] | _ \<Rightarrow> [])"

definition latest_summary :: "bytes option \<Rightarrow> oi_cli_history_record \<Rightarrow> bytes option" where
  "latest_summary s r = (case body r of RECORD_CHECKPOINT c _ _ _ \<Rightarrow> Some (string_bytes c) | _ \<Rightarrow> s)"

text \<open>The context for a conversation \<open>ms\<close> and its latest summary: all of it, or the summary and some last part.\<close>

definition context_is :: "oi_cli_message list \<Rightarrow> bytes option \<Rightarrow> oi_cli_message list \<Rightarrow> bool" where
  "context_is ms s cs \<longleftrightarrow> (case s of None \<Rightarrow> cs = ms | Some t \<Rightarrow> \<exists>n. cs = summary_message t # drop n ms)"

definition rebuilt :: "oi_cli_message list \<Rightarrow> bytes option \<Rightarrow> replay_builder \<Rightarrow> bool" where
  "rebuilt ms s b \<longleftrightarrow> builder_ok b \<and> conv_run Idle ms = Some (abs_conv b) \<and> context_is ms s (context_messages b)
     \<and> has_checkpoint (rb_state b) = (s \<noteq> None)"

lemma context_is_snoc:
  assumes "context_is ms s cs" shows "context_is (ms @ [m]) s (cs @ [m])"
proof (cases s)
  case (Some t)
  with assms obtain n where "cs = summary_message t # drop n ms" by (auto simp: context_is_def)
  then have "cs @ [m] = summary_message t # drop (min n (length ms)) (ms @ [m])" by (simp add: min_def)
  with Some show ?thesis by (simp only: context_is_def option.case) (rule exI [of _ "min n (length ms)"], simp)
qed (use assms in \<open>simp add: context_is_def\<close>)

lemma context_is_summary:
  assumes "context_is ms s cs" "0 < n" shows "context_is ms (Some t) (summary_message t # drop n cs)"
  using assms by (cases n) (auto simp: context_is_def drop_drop split: option.splits)

lemma rebuilt_step:
  assumes "rebuilt ms s b" "oi_cli_history_record_is_valid r" "apply_typed_record strtod h b r = (Inr b', h')"
  shows "rebuilt (ms @ record_messages r) (latest_summary s r) b'"
proof -
  have ok: "builder_ok b" using assms(1) by (simp add: rebuilt_def)
  note st = record_step [OF ok assms(2,3)]
  show ?thesis
  proof (cases "body r")
    case (RECORD_MESSAGE m)
    with st assms(1) context_is_snoc [of ms s "context_messages b" "hm_value m"] show ?thesis
      by (simp add: rebuilt_def adds_message_def record_messages_def latest_summary_def conv_run_snoc)
  next
    case (RECORD_CHECKPOINT c m lo hi)
    with st obtain n i where n: "0 < n" "context_items (rb_state b') =
      \<lparr>ci_record_id = i, ci_message = summary_message (string_bytes c)\<rparr> # drop n (context_items (rb_state b))"
      and b': "builder_ok b'" "abs_conv b' = abs_conv b" "has_checkpoint (rb_state b')"
      by (auto simp: replaces_prefix_def)
    from n have "context_messages b' = summary_message (string_bytes c) # drop n (context_messages b)"
      by (simp add: drop_map)
    with context_is_summary [OF _ n(1), of ms s "context_messages b"] assms(1) b' RECORD_CHECKPOINT show ?thesis
      by (auto simp: rebuilt_def record_messages_def latest_summary_def)
  qed (use st assms(1) in \<open>simp_all add: rebuilt_def adds_nothing_def record_messages_def latest_summary_def\<close>)
qed

lemma rebuilt_records:
  "rebuilt ms s b \<Longrightarrow> replay_records strtod h b prev rs = (Inr b', h') \<Longrightarrow>
     rebuilt (ms @ concat (map record_messages rs)) (foldl latest_summary s rs) b'"
proof (induction rs arbitrary: ms s b prev h)
  case (Cons r rs)
  then obtain b1 h1 where v: "oi_cli_history_record_is_valid r"
    and a: "apply_typed_record strtod h b r = (Inr b1, h1)"
    and n: "replay_records strtod h1 b1 r rs = (Inr b', h')" by (auto split: if_split_asm)
  from Cons.IH [OF rebuilt_step [OF Cons.prems(1) v a] n] show ?case by simp
qed simp

text \<open>The alternating messages of a log from before the typed records.\<close>

lemma context_cap_bound:
  assumes "context_append h s i m = (Inr s', h')" "context_cap s \<le> size_max div sizeof_context_item"
  shows "context_cap s' \<le> size_max div sizeof_context_item \<and> length (context_items s') \<le> context_cap s'"
proof -
  obtain s1 h1 where r: "context_reserve h s (length (context_items s) + 1) = (Inr s1, h1)"
    and "context_items s' = context_items s1 @ [\<lparr>ci_record_id = i, ci_message = m\<rparr>]" "context_cap s' = context_cap s1"
    using assms(1) by (auto simp: context_append_def dest!: clone_result split: if_split_asm)
  moreover from r assms(2) have "context_cap s1 \<le> size_max div sizeof_context_item
      \<and> context_items s1 = context_items s \<and> length (context_items s) + 1 \<le> context_cap s1"
    by (auto simp: context_reserve_def dest: grow_cap_Some split: if_split_asm option.splits)
  ultimately show ?thesis by simp
qed

lemma legacy_loop_result:
  "legacy_loop h b i ms = (Inr b', h') \<Longrightarrow> context_cap (rb_state b) \<le> size_max div sizeof_context_item \<Longrightarrow>
     length (context_items (rb_state b)) \<le> context_cap (rb_state b) \<Longrightarrow>
     \<exists>items cap. b' = b\<lparr>rb_state := (rb_state b)\<lparr>context_cap := cap, context_items := context_items (rb_state b) @ items\<rparr>\<rparr>
       \<and> map ci_message items = ms \<and> length (context_items (rb_state b)) + length ms \<le> size_max div sizeof_context_item
       \<and> conv_run (if even i then Idle else Waiting) ms = Some (if even (i + length ms) then Idle else Waiting)"
proof (induction ms arbitrary: h b i)
  case Nil
  then show ?case by (intro exI [of _ "[]"] exI [of _ "context_cap (rb_state b)"]) auto
next
  case (Cons m ms)
  from Cons.prems(1) obtain b1 h1 where
    m: "msg_role m = (if even i then MESSAGE_USER else MESSAGE_ASSISTANT)" "msg_tool_calls m = []"
    and a: "builder_append h b (word_of_nat i + 1) m = (Inr b1, h1)"
    and l: "legacy_loop h1 b1 (i + 1) ms = (Inr b', h')"
    by (auto simp: even_iff_mod_2_eq_zero split: if_split_asm)
  from builder_append_result [OF a] obtain cap where b1: "b1 = b\<lparr>rb_state := (rb_state b)\<lparr>context_cap := cap,
       context_items := context_items (rb_state b) @ [\<lparr>ci_record_id = word_of_nat i + 1, ci_message = m\<rparr>]\<rparr>\<rparr>" by blast
  have c: "context_cap (rb_state b1) \<le> size_max div sizeof_context_item"
    "length (context_items (rb_state b1)) \<le> context_cap (rb_state b1)"
    using a context_cap_bound [OF _ Cons.prems(2)] by (auto simp: builder_append_def)
  from Cons.IH [OF l c] obtain items cap' where
    "b' = b1\<lparr>rb_state := (rb_state b1)\<lparr>context_cap := cap', context_items := context_items (rb_state b1) @ items\<rparr>\<rparr>"
    "map ci_message items = ms" "length (context_items (rb_state b1)) + length ms \<le> size_max div sizeof_context_item"
    "conv_run (if even (i + 1) then Idle else Waiting) ms = Some (if even (i + 1 + length ms) then Idle else Waiting)"
    by blast
  with m show ?case unfolding b1
    by (intro exI [of _ "\<lparr>ci_record_id = word_of_nat i + 1, ci_message = m\<rparr> # items"] exI [of _ cap']) auto
qed

lemma unat_uint64: "n < 2 ^ 64 \<Longrightarrow> unat (word_of_nat n :: uint64) = n"
  by (simp add: unsigned_of_nat take_bit_nat_eq_self)

lemma rebuilt_legacy:
  assumes "apply_legacy h new_builder ms = (Inr b, h')"
  shows "rebuilt ms None b"
proof -
  obtain b1 where l: "legacy_loop h new_builder 0 ms = (Inr b1, h')"
    and b: "b = (if ms = [] then b1
             else let b = b1\<lparr>last_started_turn_id := (word_of_nat (length ms) + 1) div 2\<rparr> in
               if length ms mod 2 \<noteq> 0
               then b\<lparr>phase := REPLAY_EXPECT_ASSISTANT, current_turn_id := last_started_turn_id b\<rparr> else b)"
    using assms by (auto simp: apply_legacy_def)
  from legacy_loop_result [OF l] obtain items cap where
    b1: "b1 = new_builder\<lparr>rb_state := (rb_state new_builder)\<lparr>context_cap := cap, context_items := items\<rparr>\<rparr>"
    and i: "map ci_message items = ms" "length ms \<le> size_max div sizeof_context_item"
    and c: "conv_run Idle ms = Some (if even (length ms) then Idle else Waiting)"
    by (auto simp: new_builder_def oi_cli_history_replay_state_init_def)
  have "(word_of_nat (length ms) + 1 :: uint64) div 2 \<noteq> 0" if "odd (length ms)"
  proof -
    have n: "unat (word_of_nat (length ms) + 1 :: uint64) = length ms + 1"
    proof -
      have "unat (word_of_nat (length ms + 1) :: uint64) = length ms + 1"
        by (rule unat_uint64) (use i(2) in \<open>simp add: size_max_def sizeof_context_item_def\<close>)
      then show ?thesis by (simp add: ac_simps)
    qed
    from that have "2 \<le> length ms + 1" by (cases "length ms") auto
    then have "unat ((word_of_nat (length ms) + 1 :: uint64) div 2) \<noteq> 0"
      by (simp add: unat_div n)
    then show ?thesis by force
  qed
  with b1 b i c show ?thesis
    by (auto simp: rebuilt_def builder_ok_def abs_conv_def context_is_def new_builder_def Let_def
        oi_cli_history_replay_state_init_def even_iff_mod_2_eq_zero)
qed

section \<open>What replay publishes\<close>

definition unresolved_of :: "replay_tool list \<Rightarrow> unresolved_tool list" where
  "unresolved_of ts = map (\<lambda>t. \<lparr>ut_id = tc_id (rt_call t), may_have_started = started t\<rparr>) (filter (\<lambda>t. \<not> resolved t) ts)"

lemma unresolved_due: "map ut_id (unresolved_of ts) = due_ids ts"
  by (simp add: unresolved_of_def due_ids_def)

lemma publish_loop_result:
  "publish_loop h ts = (Inr us, h') \<Longrightarrow> us = unresolved_of ts \<and> list_all (\<lambda>u. short (ut_id u)) us"
  by (induction ts arbitrary: h us) (auto simp: unresolved_of_def dest!: string_set_Inr split: if_split_asm)

lemma publish_unresolved_result:
  assumes "publish_unresolved h b s = (Inr s', h')" "unresolved_tools s = []"
  shows "s' = s\<lparr>unresolved_tools := unresolved_of (rb_tools b)\<rparr> \<and> list_all (\<lambda>u. short (ut_id u)) (unresolved_tools s')"
proof (cases "filter (\<lambda>t. \<not> resolved t) (rb_tools b) = []")
  case True
  with assms show ?thesis by (simp add: publish_unresolved_def unresolved_of_def)
next
  case False
  with assms show ?thesis
    by (auto simp: publish_unresolved_def Let_def dest!: publish_loop_result split: if_split_asm)
qed

definition published :: "replay_builder \<Rightarrow> uint64 \<Rightarrow> replay_state" where
  "published b last_id = (rb_state b)\<lparr>next_record_id := last_id + 1, next_turn_id := last_started_turn_id b + 1,
     needs_repair := phase b \<noteq> REPLAY_EXPECT_USER,
     repair_turn_id := (if phase b \<noteq> REPLAY_EXPECT_USER then current_turn_id b else 0),
     has_partial_assistant := partial_seen b, unresolved_tools := unresolved_of (rb_tools b)\<rparr>"

lemma publish_result:
  assumes "publish h b i = (Inr s, h')" "unresolved_tools (rb_state b) = []"
  shows "s = published b i \<and> i \<noteq> uint64_max \<and> last_started_turn_id b \<noteq> uint64_max
    \<and> list_all (\<lambda>u. short (ut_id u)) (unresolved_tools s)"
  using assms by (auto simp: publish_def published_def dest!: publish_unresolved_result split: if_split_asm)

text \<open>Nothing before the end touches the unresolved tools of the state.\<close>

lemma keeps_unresolved:
  assumes "apply_typed_record strtod h b r = (Inr b', h')"
  shows "unresolved_tools (rb_state b') = unresolved_tools (rb_state b)"
proof -
  have bt: "unresolved_tools (rb_state b2) = unresolved_tools (rb_state b1)"
    if "begin_tool_results strtod h1 b1 m = (Inr b2, h2)" for h1 b1 m b2 h2
    using that by (auto simp: begin_tool_results_def split: if_split_asm)
  show ?thesis
  proof (cases "body r")
    case (RECORD_MESSAGE m)
    show ?thesis
    proof (cases "msg_role (hm_value m)")
      case MESSAGE_USER
      with RECORD_MESSAGE assms show ?thesis
        by (auto simp: apply_typed_record_def apply_message_def apply_user_message_def Let_def drop_pending_def
            dest!: builder_append_result split: if_split_asm)
    next
      case MESSAGE_ASSISTANT
      with RECORD_MESSAGE assms show ?thesis
        by (auto simp: apply_typed_record_def apply_message_def apply_assistant_message_def Let_def
            dest!: builder_append_result bt split: if_split_asm)
    next
      case MESSAGE_TOOL
      with RECORD_MESSAGE assms show ?thesis
        by (auto simp: apply_typed_record_def apply_message_def apply_tool_message_def Let_def
            dest!: builder_append_result split: if_split_asm option.splits)
    qed (use RECORD_MESSAGE assms in \<open>simp add: apply_typed_record_def apply_message_def split: if_split_asm\<close>)
  next
    case (RECORD_CHECKPOINT c m lo hi)
    with assms show ?thesis
      by (auto simp: apply_typed_record_def apply_checkpoint_def Let_def split: if_split_asm option.splits)
  next
    case (RECORD_SESSION_SETTING f v)
    with assms show ?thesis
      by (cases f) (auto simp: apply_typed_record_def apply_session_setting_def split: if_split_asm)
  qed (use assms in \<open>auto simp: apply_typed_record_def apply_tool_started_def apply_partial_def Let_def
      apply_queued_input_def apply_queue_resolved_def drop_pending_def split: if_split_asm option.splits\<close>)
qed

lemma keeps_unresolved_records:
  "replay_records strtod h b prev rs = (Inr b', h') \<Longrightarrow> unresolved_tools (rb_state b') = unresolved_tools (rb_state b)"
proof (induction rs arbitrary: h b prev)
  case (Cons r rs)
  then show ?case by (fastforce dest: keeps_unresolved split: if_split_asm)
qed simp

lemma keeps_unresolved_legacy:
  assumes "apply_legacy h new_builder ms = (Inr b, h')"
  shows "unresolved_tools (rb_state b) = []"
proof -
  obtain b1 where l: "legacy_loop h new_builder 0 ms = (Inr b1, h')" and "rb_state b = rb_state b1"
    using assms by (auto simp: apply_legacy_def Let_def)
  with legacy_loop_result [OF l] show ?thesis
    by (auto simp: new_builder_def oi_cli_history_replay_state_init_def)
qed

text \<open>A replay that succeeds: the builder it ends with, and the state published from it.\<close>

lemma replay_typed_rebuilt:
  assumes "replay_typed strtod h b n typed = (Inr b', h')" "rebuilt ms None b"
  shows "rebuilt (ms @ concat (map record_messages typed)) (foldl latest_summary None typed) b'
    \<and> unresolved_tools (rb_state b') = unresolved_tools (rb_state b)"
proof (cases typed)
  case Nil
  with assms show ?thesis by (simp add: replay_typed_def)
next
  case (Cons r rs)
  let ?b = "b\<lparr>rb_state := (rb_state b)\<lparr>needs_transition := False\<rparr>\<rparr>"
  from assms(1) Cons have t: "is_transition_to n r" and rr: "replay_records strtod h ?b r rs = (Inr b', h')"
    by (auto simp: replay_typed_def split: if_split_asm)
  have "abs_conv ?b = abs_conv b" by (cases "phase b") (simp_all add: abs_conv_def)
  then have "rebuilt ms None ?b" using assms(2) by (auto simp: rebuilt_def builder_ok_def)
  from rebuilt_records [OF this rr] keeps_unresolved_records [OF rr] t Cons show ?thesis
    by (auto simp: is_transition_to_def record_messages_def latest_summary_def)
qed

definition last_id :: "oi_cli_message list \<Rightarrow> oi_cli_history_record list \<Rightarrow> uint64" where
  "last_id legacy typed = (if typed \<noteq> [] then record_id (last typed) else word_of_nat (length legacy))"

lemma replay_builder:
  assumes "oi_cli_history_replay strtod h legacy typed = (Inr s, h')"
  obtains b1 b h1 h2 where
    "apply_legacy h new_builder legacy = (Inr b1, h1)"
    "replay_typed strtod h1 b1 (word_of_nat (length legacy)) typed = (Inr b, h2)"
    "rebuilt (legacy @ concat (map record_messages typed)) (foldl latest_summary None typed) b"
    "s = published b (last_id legacy typed)" "last_id legacy typed \<noteq> uint64_max"
    "last_started_turn_id b \<noteq> uint64_max"
    "list_all (\<lambda>u. short (ut_id u)) (unresolved_tools s)" "unresolved_tools (rb_state b) = []"
proof -
  obtain b1 b h1 h2 where l: "apply_legacy h new_builder legacy = (Inr b1, h1)"
    and t: "replay_typed strtod h1 b1 (word_of_nat (length legacy)) typed = (Inr b, h2)"
    and p: "publish h2 b (last_id legacy typed) = (Inr s, h')"
    using assms by (auto simp: oi_cli_history_replay_def last_id_def Let_def split: if_split_asm)
  from replay_typed_rebuilt [OF t rebuilt_legacy [OF l]] keeps_unresolved_legacy [OF l]
  have r: "rebuilt (legacy @ concat (map record_messages typed)) (foldl latest_summary None typed) b"
    and u: "unresolved_tools (rb_state b) = []" by auto
  from publish_result [OF p u] that [OF l t r] u show thesis by blast
qed

section \<open>Property: what a rebuilt context is\<close>

definition calls_due :: "conv \<Rightarrow> bytes list" where
  "calls_due c = (case c of Calls due \<Rightarrow> due | _ \<Rightarrow> [])"

text \<open>
  C24. The context a model is given. When a log replays, its messages form a conversation: users and answers
  alternate, and every call of an answer gets exactly one result before the next answer. The rebuilt context is
  that conversation, or the latest checkpoint's summary followed by a last part of it; a repair is due exactly
  when the conversation is not finished, and the unresolved tools are the calls without a result, in order.
\<close>

theorem replay_rebuilds_conversation:
  assumes "oi_cli_history_replay strtod h legacy typed = (Inr s, h')"
  shows "\<exists>c. conv_run Idle (legacy @ concat (map record_messages typed)) = Some c
    \<and> context_is (legacy @ concat (map record_messages typed)) (foldl latest_summary None typed)
        (map ci_message (context_items s))
    \<and> needs_repair s = (c \<noteq> Idle) \<and> map ut_id (unresolved_tools s) = calls_due c"
proof -
  from assms obtain b where
    r: "rebuilt (legacy @ concat (map record_messages typed)) (foldl latest_summary None typed) b"
    and s: "s = published b (last_id legacy typed)" by (rule replay_builder)
  then show ?thesis
    by (cases "phase b") (auto simp: rebuilt_def abs_conv_def published_def calls_due_def unresolved_due
        builder_ok_def due_ids_def)
qed

lemma uint64_max_numeral: "uint64_max = 0xFFFFFFFFFFFFFFFF"
  by (simp add: uint64_max_def)

text \<open>A log whose only turn was interrupted before an answer.\<close>

definition sample_user :: oi_cli_message where
  "sample_user = \<lparr>msg_role = MESSAGE_USER, msg_content = Some [0x68, 0x69], msg_tool_call_id = None, msg_tool_calls = []\<rparr>"

definition sample_log :: "oi_cli_history_record list" where
  "sample_log = [\<lparr>rec_version = 1, record_id = 1, turn_id = 0, body = RECORD_TRANSITION 0\<rparr>,
     \<lparr>rec_version = 1, record_id = 2, turn_id = 1, body = RECORD_MESSAGE \<lparr>hm_value = sample_user,
        hm_source = MESSAGE_NORMAL, hm_outcome = TOOL_OUTCOME_NONE, hm_model = None, hm_raw = None\<rparr>\<rparr>]"

lemma sample_replays:
  "\<exists>s. oi_cli_history_replay strtod heap_ok [] sample_log = (Inr s, heap_ok) \<and> needs_repair s
     \<and> context_items s = [\<lparr>ci_record_id = 2, ci_message = sample_user\<rparr>] \<and> unresolved_tools s = [] \<and> next_record_id s = 3"
  by (simp add: oi_cli_history_replay_def apply_legacy_def replay_typed_def sample_log_def is_transition_to_def
      oi_cli_history_record_is_valid_def body_is_valid_def history_message_is_valid_def oi_cli_message_is_valid_def
      sample_user_def string_bytes_def history_max_content_def uint64_max_numeral new_builder_def
      oi_cli_history_replay_state_init_def apply_typed_record_def apply_message_def apply_user_message_def
      builder_append_def context_append_def context_reserve_def grow_cap.simps size_max_def sizeof_context_item_def
      oi_cli_message_clone_def oi_cli_message_set_user_def message_set_content_def oi_cli_string_set_def
      oi_cli_message_init_def publish_def publish_unresolved_def Let_def)

theorem replay_rebuilds_conversation_witness:
  "\<exists>s c. oi_cli_history_replay (\<lambda>_. (0, 0)) heap_ok [] sample_log = (Inr s, heap_ok)
     \<and> conv_run Idle [sample_user] = Some c \<and> c \<noteq> Idle \<and> needs_repair s \<and> map ut_id (unresolved_tools s) = calls_due c"
proof -
  obtain s where s: "oi_cli_history_replay (\<lambda>_. (0, 0)) heap_ok [] sample_log = (Inr s, heap_ok)" "needs_repair s"
    using sample_replays by blast
  have "concat (map record_messages sample_log) = [sample_user]" by (simp add: sample_log_def record_messages_def)
  with replay_rebuilds_conversation [OF s(1)] s show ?thesis by (auto simp: sample_user_def)
qed

end
