(* ===== verification/History_Repair.thy ===== *)
theory History_Repair
  imports History_Turns
begin

text \<open>
  \<open>src/cli_history_repair.c\<close>: the records that complete a turn the session did not live to finish, and that a
  replay accepts them.
\<close>

definition unknown_tool_text :: bytes where
  "unknown_tool_text = bytes_of ''[tool outcome unknown: the session ended after execution may have started]''"
definition unstarted_tool_text :: bytes where
  "unstarted_tool_text = bytes_of ''[tool not executed: the session ended before execution started]''"
definition interrupted_turn_text :: bytes where
  "interrupted_turn_text = bytes_of ''[assistant turn interrupted before completion]''"

definition append_repair_tool ::
  "heap \<Rightarrow> oi_cli_history \<Rightarrow> uint64 \<Rightarrow> uint64 \<Rightarrow> unresolved_tool \<Rightarrow> oi_cli_history alloc" where
  "append_repair_tool h repairs i t tool =
     (let content = (if may_have_started tool then unknown_tool_text else unstarted_tool_text);
          outcome = (if may_have_started tool then TOOL_OUTCOME_UNKNOWN else TOOL_NOT_EXECUTED) in
      alloc_then (oi_cli_message_set_tool h (ut_id tool) content) (\<lambda>m h.
      alloc_then (oi_cli_history_record_set_message h i t m MESSAGE_REPAIR None outcome None) (\<lambda>r h.
        oi_cli_history_append_take h repairs r)))"

definition append_interruption_marker :: "heap \<Rightarrow> oi_cli_history \<Rightarrow> uint64 \<Rightarrow> uint64 \<Rightarrow> oi_cli_history alloc" where
  "append_interruption_marker h repairs i t =
     alloc_then (oi_cli_message_set_assistant h interrupted_turn_text) (\<lambda>m h.
     alloc_then (oi_cli_history_record_set_message h i t m MESSAGE_REPAIR None TOOL_OUTCOME_NONE None) (\<lambda>r h.
       oi_cli_history_append_take h repairs r))"

fun repair_tools ::
  "heap \<Rightarrow> oi_cli_history \<Rightarrow> uint64 \<Rightarrow> uint64 \<Rightarrow> unresolved_tool list \<Rightarrow> (oi_cli_history \<times> uint64) alloc" where
  "repair_tools h repairs i t [] = (Inr (repairs, i), h)"
| "repair_tools h repairs i t (u # us) =
     alloc_then (append_repair_tool h repairs i t u) (\<lambda>repairs h. repair_tools h repairs (i + 1) t us)"

definition oi_cli_history_build_repairs :: "heap \<Rightarrow> replay_state \<Rightarrow> oi_cli_history alloc" where
  "oi_cli_history_build_repairs h s =
     (if \<not> needs_repair s \<or> repair_turn_id s = 0 \<or> next_record_id s = 0
        \<or> length (unresolved_tools s) = size_max then (Inl OI_ERR_INVAL, h)
      else if length (unresolved_tools s) > unat (uint64_max - next_record_id s) then (Inl OI_ERR_NOMEM, h)
      else alloc_then (repair_tools h oi_cli_history_init (next_record_id s) (repair_turn_id s) (unresolved_tools s))
        (\<lambda>(repairs, i) h. append_interruption_marker h repairs i (repair_turn_id s)))"

section \<open>The repairs\<close>

definition repair_message :: "uint64 \<Rightarrow> uint64 \<Rightarrow> oi_cli_message \<Rightarrow> tool_outcome \<Rightarrow> oi_cli_history_record" where
  "repair_message i t m oc = \<lparr>rec_version = 1, record_id = i, turn_id = t, body = RECORD_MESSAGE
     \<lparr>hm_value = m, hm_source = MESSAGE_REPAIR, hm_outcome = oc, hm_model = None, hm_raw = None\<rparr>\<rparr>"

definition tool_result :: "unresolved_tool \<Rightarrow> oi_cli_message" where
  "tool_result u = \<lparr>msg_role = MESSAGE_TOOL,
     msg_content = Some (if may_have_started u then unknown_tool_text else unstarted_tool_text),
     msg_tool_call_id = Some (ut_id u), msg_tool_calls = []\<rparr>"

definition repair_outcome :: "unresolved_tool \<Rightarrow> tool_outcome" where
  "repair_outcome u = (if may_have_started u then TOOL_OUTCOME_UNKNOWN else TOOL_NOT_EXECUTED)"

definition tool_record :: "uint64 \<Rightarrow> uint64 \<Rightarrow> unresolved_tool \<Rightarrow> oi_cli_history_record" where
  "tool_record i t u = repair_message i t (tool_result u) (repair_outcome u)"

definition marker_record :: "uint64 \<Rightarrow> uint64 \<Rightarrow> oi_cli_history_record" where
  "marker_record i t = repair_message i t (summary_message interrupted_turn_text) TOOL_OUTCOME_NONE"

fun tool_records :: "uint64 \<Rightarrow> uint64 \<Rightarrow> unresolved_tool list \<Rightarrow> oi_cli_history_record list" where
  "tool_records i t [] = []"
| "tool_records i t (u # us) = tool_record i t u # tool_records (i + 1) t us"

lemma repair_texts:
  "length unknown_tool_text \<le> history_max_content" "length unstarted_tool_text \<le> history_max_content"
  "length interrupted_turn_text \<le> history_max_content"
  by (simp_all add: unknown_tool_text_def unstarted_tool_text_def interrupted_turn_text_def bytes_of_def
      history_max_content_def)

lemma tool_record_valid: "i \<noteq> 0 \<Longrightarrow> t \<noteq> 0 \<Longrightarrow> ut_id u \<noteq> [] \<Longrightarrow> oi_cli_history_record_is_valid (tool_record i t u)"
  using repair_texts
  by (simp add: tool_record_def repair_message_def tool_result_def repair_outcome_def string_bytes_def
      oi_cli_history_record_is_valid_def body_is_valid_def history_message_is_valid_def tool_result_is_valid_def
      oi_cli_message_is_valid_def word_neq_0_conv)

lemma marker_record_valid: "i \<noteq> 0 \<Longrightarrow> t \<noteq> 0 \<Longrightarrow> oi_cli_history_record_is_valid (marker_record i t)"
  using repair_texts
  by (simp add: marker_record_def repair_message_def summary_message_def string_bytes_def
      oi_cli_history_record_is_valid_def body_is_valid_def history_message_is_valid_def
      oi_cli_message_is_valid_def word_neq_0_conv)

lemma set_tool_ok: "i \<noteq> [] \<Longrightarrow> short i \<Longrightarrow> short c \<Longrightarrow> oi_cli_message_set_tool heap_ok i c =
   (Inr \<lparr>msg_role = MESSAGE_TOOL, msg_content = Some c, msg_tool_call_id = Some i, msg_tool_calls = []\<rparr>, heap_ok)"
  by (simp add: oi_cli_message_set_tool_def oi_cli_message_init_def)

lemma set_assistant_ok: "short c \<Longrightarrow> oi_cli_message_set_assistant heap_ok c = (Inr (summary_message c), heap_ok)"
  by (simp add: oi_cli_message_set_assistant_def message_set_content_def oi_cli_message_init_def summary_message_def)

text \<open>The first id of a record list is the one it follows, or any.\<close>

definition follows :: "oi_cli_history_record list \<Rightarrow> uint64 \<Rightarrow> bool" where
  "follows rs i \<longleftrightarrow> rs \<noteq> [] \<longrightarrow> record_id (last rs) \<noteq> uint64_max \<and> i = record_id (last rs) + 1"

lemma append_tool_ok:
  assumes "i \<noteq> 0" "t \<noteq> 0" "ut_id u \<noteq> []" "short (ut_id u)" "follows (hist_records l) i"
    and "length (hist_records l) < size_max div sizeof_record"
  shows "\<exists>l'. append_repair_tool heap_ok l i t u = (Inr l', heap_ok)
    \<and> hist_records l' = hist_records l @ [tool_record i t u]"
proof -
  have v: "oi_cli_history_record_is_valid (tool_record i t u)" by (rule tool_record_valid [OF assms(1-3)])
  have sh: "message_short (tool_result u)"
    using assms(4) short_content [OF repair_texts(1)] short_content [OF repair_texts(2)]
    by (simp add: message_short_def tool_result_def string_bytes_def size_max_def sizeof_tool_call_def)
  have m: "oi_cli_message_set_tool heap_ok (ut_id u) (if may_have_started u then unknown_tool_text else unstarted_tool_text)
      = (Inr (tool_result u), heap_ok)"
    using set_tool_ok [OF assms(3,4)] short_content [OF repair_texts(1)] short_content [OF repair_texts(2)]
    by (simp add: tool_result_def)
  have r: "oi_cli_history_record_set_message heap_ok i t (tool_result u) MESSAGE_REPAIR None (repair_outcome u) None
      = (Inr (tool_record i t u), heap_ok)"
    using set_message_ok [OF v [unfolded tool_record_def repair_message_def] sh]
    by (simp add: tool_record_def repair_message_def)
  have "hist_records l \<noteq> [] \<longrightarrow> next_to (last (hist_records l)) (tool_record i t u)"
    using assms(5) by (simp add: follows_def next_to_def tool_record_def repair_message_def)
  from append_take_ok [OF v this assms(6)] m r show ?thesis
    by (simp add: append_repair_tool_def Let_def repair_outcome_def [symmetric] del: alloc_then_Inr)
qed

lemma append_marker_ok:
  assumes "i \<noteq> 0" "t \<noteq> 0" "follows (hist_records l) i"
    and "length (hist_records l) < size_max div sizeof_record"
  shows "\<exists>l'. append_interruption_marker heap_ok l i t = (Inr l', heap_ok)
    \<and> hist_records l' = hist_records l @ [marker_record i t]"
proof -
  have v: "oi_cli_history_record_is_valid (marker_record i t)" by (rule marker_record_valid [OF assms(1-2)])
  have sh: "message_short (summary_message interrupted_turn_text)"
    using short_content [OF repair_texts(3)]
    by (simp add: message_short_def summary_message_def string_bytes_def size_max_def sizeof_tool_call_def short_def)
  have r: "oi_cli_history_record_set_message heap_ok i t (summary_message interrupted_turn_text) MESSAGE_REPAIR None
      TOOL_OUTCOME_NONE None = (Inr (marker_record i t), heap_ok)"
    using set_message_ok [OF v [unfolded marker_record_def repair_message_def] sh]
    by (simp add: marker_record_def repair_message_def)
  have "hist_records l \<noteq> [] \<longrightarrow> next_to (last (hist_records l)) (marker_record i t)"
    using assms(3) by (simp add: follows_def next_to_def marker_record_def repair_message_def)
  from append_take_ok [OF v this assms(4)] r set_assistant_ok [OF short_content [OF repair_texts(3)]] show ?thesis
    by (simp add: append_interruption_marker_def del: alloc_then_Inr)
qed

lemma uint64_next: "i \<noteq> uint64_max \<Longrightarrow> unat (i + 1) = unat i + 1"
  unfolding uint64_max_def by (metis Suc_eq_plus1 add.commute unatSuc word_neq_0_conv add_eq_0_iff neg_equal_iff_equal)

lemma repair_tools_ok:
  assumes "t \<noteq> 0"
  shows "i \<noteq> 0 \<Longrightarrow> list_all (\<lambda>u. ut_id u \<noteq> [] \<and> short (ut_id u)) us \<Longrightarrow> follows (hist_records l) i \<Longrightarrow>
    unat i + length us \<le> unat uint64_max \<Longrightarrow> length (hist_records l) + length us < size_max div sizeof_record \<Longrightarrow>
    \<exists>l' j. repair_tools heap_ok l i t us = (Inr (l', j), heap_ok) \<and> hist_records l' = hist_records l @ tool_records i t us
      \<and> follows (hist_records l') j \<and> unat j = unat i + length us"
proof (induction us arbitrary: l i)
  case (Cons u us)
  from Cons.prems append_tool_ok [of i t u l] \<open>t \<noteq> 0\<close> obtain l1 where
    l1: "append_repair_tool heap_ok l i t u = (Inr l1, heap_ok)" "hist_records l1 = hist_records l @ [tool_record i t u]"
    by auto
  have ni: "i \<noteq> uint64_max" using Cons.prems(4) by auto
  note n = uint64_next [OF ni]
  have "i + 1 \<noteq> 0" using n by force
  moreover have "follows (hist_records l1) (i + 1)" using l1 ni by (simp add: follows_def tool_record_def repair_message_def)
  ultimately obtain l' j where "repair_tools heap_ok l1 (i + 1) t us = (Inr (l', j), heap_ok)"
    "hist_records l' = hist_records l1 @ tool_records (i + 1) t us" "follows (hist_records l') j"
    "unat j = unat (i + 1) + length us"
    using Cons.IH [of "i + 1" l1] Cons.prems l1(2) n by auto
  with l1 n show ?case by simp
qed (auto simp: follows_def)

text \<open>The list \<open>build_repairs\<close> makes, when memory lasts and there are ids left.\<close>

definition repair_records :: "replay_state \<Rightarrow> oi_cli_history_record list" where
  "repair_records s = tool_records (next_record_id s) (repair_turn_id s) (unresolved_tools s) @
     [marker_record (next_record_id s + word_of_nat (length (unresolved_tools s))) (repair_turn_id s)]"

lemma build_repairs_ok:
  assumes "needs_repair s" "repair_turn_id s \<noteq> 0" "next_record_id s \<noteq> 0"
    and "list_all (\<lambda>u. ut_id u \<noteq> [] \<and> short (ut_id u)) (unresolved_tools s)"
    and "unat (next_record_id s) + length (unresolved_tools s) \<le> unat uint64_max"
    and "length (unresolved_tools s) < size_max div sizeof_record"
  shows "\<exists>l. oi_cli_history_build_repairs heap_ok s = (Inr l, heap_ok) \<and> hist_records l = repair_records s"
proof -
  let ?us = "unresolved_tools s" and ?i = "next_record_id s" and ?t = "repair_turn_id s"
  from repair_tools_ok [OF assms(2,3,4), of oi_cli_history_init] assms(5,6) obtain l j where
    l: "repair_tools heap_ok oi_cli_history_init ?i ?t ?us = (Inr (l, j), heap_ok)" "hist_records l = tool_records ?i ?t ?us"
      "follows (hist_records l) j" and j: "unat j = unat ?i + length ?us"
    by (auto simp: oi_cli_history_init_def follows_def)
  have "j = word_of_nat (unat j)" by simp
  then have jj: "j = ?i + word_of_nat (length ?us)" unfolding j by simp
  have len: "length (tool_records i t us) = length us" for i t us by (induction us arbitrary: i) auto
  have "j \<noteq> 0" using j assms(3) by (auto simp: unat_eq_0)
  from append_marker_ok [OF this assms(2) l(3)] l(2) len assms(6) obtain l' where
    "append_interruption_marker heap_ok l j ?t = (Inr l', heap_ok)" "hist_records l' = repair_records s"
    by (auto simp: repair_records_def jj)
  moreover have "?i \<le> uint64_max" by (simp add: uint64_max_def)
  then have "\<not> length ?us > unat (uint64_max - ?i)" using assms(5) by (simp add: unat_sub)
  moreover have "length ?us \<noteq> size_max" using assms(6) by (auto simp: size_max_def sizeof_record_def)
  ultimately show ?thesis using l(1) assms(1-3) by (simp add: oi_cli_history_build_repairs_def)
qed

section \<open>Repairs are accepted\<close>

definition context_limit :: nat where "context_limit = size_max div 256"

lemma context_append_ok:
  assumes "length (context_items s) < context_limit" "oi_cli_message_is_valid m" "message_short m"
  shows "\<exists>cap. context_append heap_ok s i m = (Inr (s\<lparr>context_cap := cap,
    context_items := context_items s @ [\<lparr>ci_record_id = i, ci_message = m\<rparr>]\<rparr>), heap_ok)"
proof -
  let ?n = "length (context_items s) + 1" and ?c = "if context_cap s = 0 then 16 else context_cap s"
  have n: "2 * ?n \<le> size_max div sizeof_context_item" "?n \<le> size_max div 2" "?n \<noteq> size_max + 1"
    using assms(1) by (auto simp: context_limit_def size_max_def sizeof_context_item_def)
  have "\<exists>cap. context_reserve heap_ok s ?n = (Inr (s\<lparr>context_cap := cap\<rparr>), heap_ok)"
  proof (cases "?n \<le> context_cap s")
    case True
    then show ?thesis by (auto simp: context_reserve_def intro!: exI [of _ "context_cap s"])
  next
    case False
    have "0 < ?c" by simp
    from grow_cap_enough [OF this n(2)] obtain c where c: "grow_cap ?c ?n = Some c" by blast
    have "c \<le> size_max div sizeof_context_item"
    proof (cases "?c < ?n")
      case True
      with grow_cap_double [OF c] n(1) show ?thesis by auto
    next
      case False
      with \<open>\<not> ?n \<le> context_cap s\<close> c show ?thesis
        by (auto simp: grow_cap.simps [of 16] size_max_def sizeof_context_item_def split: if_split_asm)
    qed
    with c False show ?thesis by (auto simp: context_reserve_def)
  qed
  with n(3) clone_ok [OF assms(2,3)] show ?thesis by (auto simp: context_append_def)
qed

lemma builder_append_ok:
  assumes "length (context_items (rb_state b)) < context_limit" "oi_cli_message_is_valid m" "message_short m"
  obtains cap where "builder_append heap_ok b i m = (Inr (b\<lparr>rb_state := (rb_state b)\<lparr>context_cap := cap,
    context_items := context_items (rb_state b) @ [\<lparr>ci_record_id = i, ci_message = m\<rparr>]\<rparr>\<rparr>), heap_ok)"
  using context_append_ok [OF assms, of i] by (auto simp: builder_append_def)

lemma unresolved_of_resolve:
  "k < length ts \<Longrightarrow> distinct (map (\<lambda>t. tc_id (rt_call t)) ts) \<Longrightarrow> \<not> resolved (ts ! k) \<Longrightarrow>
   unresolved_of (ts[k := (ts ! k)\<lparr>resolved := True\<rparr>]) =
     remove1 \<lparr>ut_id = tc_id (rt_call (ts ! k)), may_have_started = started (ts ! k)\<rparr> (unresolved_of ts)"
proof (induction ts arbitrary: k)
  case (Cons t ts)
  show ?case
  proof (cases k)
    case (Suc n)
    with Cons.prems have "tc_id (rt_call (ts ! n)) \<in> (\<lambda>t. tc_id (rt_call t)) ` set ts" by simp
    with Suc Cons have ne: "tc_id (rt_call t) \<noteq> tc_id (rt_call (ts ! n))" by auto
    with Suc Cons show ?thesis by (auto simp: unresolved_of_def)
  qed (use Cons.prems in \<open>auto simp: unresolved_of_def\<close>)
qed simp

lemma apply_tool_repair:
  assumes ok: "builder_ok b" and p: "phase b = REPLAY_EXPECT_TOOL_RESULTS" and u: "unresolved_of (rb_tools b) = u # us"
    and t: "t = current_turn_id b" and short: "short (ut_id u)"
    and room: "length (context_items (rb_state b)) < context_limit"
  shows "\<exists>b' cap. apply_typed_record strtod heap_ok b (tool_record i t u) = (Inr b', heap_ok)
    \<and> rb_state b' = (rb_state b)\<lparr>context_cap := cap, context_items := context_items (rb_state b) @
         [\<lparr>ci_record_id = i, ci_message = tool_result u\<rparr>]\<rparr>
    \<and> current_turn_id b' = current_turn_id b \<and> last_started_turn_id b' = last_started_turn_id b
    \<and> (if us = [] then phase b' = REPLAY_EXPECT_ASSISTANT
       else phase b' = REPLAY_EXPECT_TOOL_RESULTS \<and> unresolved_of (rb_tools b') = us)"
proof -
  let ?ts = "rb_tools b"
  have d: "distinct (map (\<lambda>t. tc_id (rt_call t)) ?ts)" and q: "\<not> queue_consumed b"
    using ok p by (auto simp: builder_ok_def tools_ok_def)
  from u have "u \<in> set (unresolved_of ?ts)" by simp
  then obtain k where k: "k < length ?ts" "\<not> resolved (?ts ! k)"
    "u = \<lparr>ut_id = tc_id (rt_call (?ts ! k)), may_have_started = started (?ts ! k)\<rparr>"
    by (auto simp: unresolved_of_def in_set_conv_nth)
  have f: "find_tool ?ts (ut_id u) = Some k" using find_tool_distinct [OF d k(1)] k(3) by simp
  have "?ts ! k \<in> set ?ts" using k(1) by simp
  with ok k(3) have id: "0 \<notin> set (ut_id u)" "ut_id u \<noteq> []"
    by (auto simp: builder_ok_def tools_ok_def list_all_iff call_is_valid_def)
  have m: "oi_cli_message_is_valid (tool_result u)" "message_short (tool_result u)"
    using id short short_content [OF repair_texts(1)] short_content [OF repair_texts(2)]
    by (simp_all add: oi_cli_message_is_valid_def message_short_def tool_result_def string_bytes_def
        size_max_def sizeof_tool_call_def)
  obtain cap where a: "builder_append heap_ok b i (tool_result u) = (Inr (b\<lparr>rb_state := (rb_state b)\<lparr>context_cap := cap,
    context_items := context_items (rb_state b) @ [\<lparr>ci_record_id = i, ci_message = tool_result u\<rparr>]\<rparr>\<rparr>), heap_ok)"
    by (rule builder_append_ok [OF room m])
  have oc: "outcome_matches (repair_outcome u) (started (?ts ! k))"
    using k(3) by (simp add: outcome_matches_def repair_outcome_def)
  have rest: "unresolved_of (?ts[k := (?ts ! k)\<lparr>resolved := True\<rparr>]) = us"
    using unresolved_of_resolve [OF k(1) d k(2)] u k(3) by simp
  have all: "list_all resolved ts \<longleftrightarrow> unresolved_of ts = []" for ts
    by (auto simp: unresolved_of_def list_all_iff filter_empty_conv)
  have "apply_typed_record strtod heap_ok b (tool_record i t u) = apply_tool_message heap_ok b (tool_record i t u)
      \<lparr>hm_value = tool_result u, hm_source = MESSAGE_REPAIR, hm_outcome = repair_outcome u, hm_model = None, hm_raw = None\<rparr>"
    using q by (simp add: apply_typed_record_def apply_message_def tool_record_def repair_message_def tool_result_def)
  moreover have "turn_id (tool_record i t u) = t" "record_id (tool_record i t u) = i"
    "string_bytes (msg_tool_call_id (tool_result u)) = ut_id u"
    by (simp_all add: tool_record_def repair_message_def tool_result_def string_bytes_def)
  ultimately show ?thesis using p t f id(1) k(2) oc a rest
    by (auto simp: apply_tool_message_def string_contains_nul_def all_tools_resolved_def all Let_def)
qed

definition record_items :: "oi_cli_history_record \<Rightarrow> context_item list" where
  "record_items r = map (\<lambda>m. \<lparr>ci_record_id = record_id r, ci_message = m\<rparr>) (record_messages r)"

lemma repair_items [simp]:
  "record_items (tool_record i t u) = [\<lparr>ci_record_id = i, ci_message = tool_result u\<rparr>]"
  "record_items (marker_record i t) = [\<lparr>ci_record_id = i, ci_message = summary_message interrupted_turn_text\<rparr>]"
  by (simp_all add: record_items_def record_messages_def tool_record_def marker_record_def repair_message_def)

text \<open>A builder in the middle of a turn, with results of these calls due.\<close>

definition due :: "replay_builder \<Rightarrow> unresolved_tool list \<Rightarrow> bool" where
  "due b us \<longleftrightarrow> builder_ok b \<and> (if us = [] then phase b = REPLAY_EXPECT_ASSISTANT
     else phase b = REPLAY_EXPECT_TOOL_RESULTS \<and> unresolved_of (rb_tools b) = us)"

lemma due_ids_nonempty:
  assumes "builder_ok b" "u \<in> set (unresolved_of (rb_tools b))" shows "ut_id u \<noteq> []"
  using assms by (auto simp: unresolved_of_def builder_ok_def tools_ok_def list_all_iff call_is_valid_def)

definition state_adds :: "replay_state \<Rightarrow> context_item list \<Rightarrow> replay_state \<Rightarrow> bool" where
  "state_adds s items s' \<longleftrightarrow> (\<exists>cap. s' = s\<lparr>context_cap := cap, context_items := context_items s @ items\<rparr>)"

lemma state_adds_trans: "state_adds s xs s' \<Longrightarrow> state_adds s' ys s'' \<Longrightarrow> state_adds s (xs @ ys) s''"
  by (auto simp: state_adds_def)

lemma tools_repaired:
  "due b us \<Longrightarrow> t = current_turn_id b \<Longrightarrow> t \<noteq> 0 \<Longrightarrow> i = record_id prev + 1 \<Longrightarrow> i \<noteq> 0 \<Longrightarrow>
   unat i + length us \<le> unat uint64_max \<Longrightarrow> list_all (\<lambda>u. short (ut_id u)) us \<Longrightarrow>
   length (context_items (rb_state b)) + length us \<le> context_limit \<Longrightarrow>
   \<exists>b' prev'. replay_records strtod heap_ok b prev (tool_records i t us @ rs) = replay_records strtod heap_ok b' prev' rs
     \<and> due b' [] \<and> state_adds (rb_state b) (concat (map record_items (tool_records i t us))) (rb_state b')
     \<and> current_turn_id b' = t \<and> last_started_turn_id b' = last_started_turn_id b
     \<and> record_id prev' + 1 = i + word_of_nat (length us)"
proof (induction us arbitrary: b i prev)
  case Nil
  then show ?case by (intro exI [of _ b] exI [of _ prev]) (auto simp: state_adds_def intro: exI [of _ "context_cap (rb_state b)"])
next
  case (Cons u us)
  let ?r = "tool_record i t u"
  have d: "builder_ok b" "phase b = REPLAY_EXPECT_TOOL_RESULTS" "unresolved_of (rb_tools b) = u # us"
    using Cons.prems(1) by (auto simp: due_def)
  have room: "length (context_items (rb_state b)) < context_limit" "short (ut_id u)"
    using Cons.prems(7,8) by auto
  obtain b1 cap where a: "apply_typed_record strtod heap_ok b ?r = (Inr b1, heap_ok)"
    and s: "rb_state b1 = (rb_state b)\<lparr>context_cap := cap, context_items := context_items (rb_state b) @
         [\<lparr>ci_record_id = i, ci_message = tool_result u\<rparr>]\<rparr>"
    and c: "current_turn_id b1 = current_turn_id b" "last_started_turn_id b1 = last_started_turn_id b"
    and n: "if us = [] then phase b1 = REPLAY_EXPECT_ASSISTANT
       else phase b1 = REPLAY_EXPECT_TOOL_RESULTS \<and> unresolved_of (rb_tools b1) = us"
    using apply_tool_repair [OF d(1-3) Cons.prems(2) room(2,1), of strtod i] by blast
  have v: "oi_cli_history_record_is_valid ?r"
    by (rule tool_record_valid [OF Cons.prems(5,3) due_ids_nonempty [OF d(1)]]) (simp add: d(3))
  have "builder_ok b1" using record_step [OF d(1) v a] by (simp add: tool_record_def repair_message_def adds_message_def)
  with n have d1: "due b1 us" by (simp add: due_def)
  have ni: "i \<noteq> uint64_max" using Cons.prems(6) by auto
  note un = uint64_next [OF ni]
  have i1: "i + 1 \<noteq> 0" using un by force
  have id: "record_id ?r = i" by (simp add: tool_record_def repair_message_def)
  obtain b' prev' where
    r: "replay_records strtod heap_ok b1 ?r (tool_records (i + 1) t us @ rs) = replay_records strtod heap_ok b' prev' rs"
    and d': "due b' []" and s': "state_adds (rb_state b1) (concat (map record_items (tool_records (i + 1) t us))) (rb_state b')"
    and c': "current_turn_id b' = t" "last_started_turn_id b' = last_started_turn_id b1"
    and p: "record_id prev' + 1 = i + 1 + word_of_nat (length us)"
    using Cons.IH [of b1 "i + 1" ?r, OF d1 _ Cons.prems(3) _ i1] c Cons.prems un s id by auto
  have "state_adds (rb_state b) (record_items ?r) (rb_state b1)" using s by (auto simp: state_adds_def)
  from state_adds_trans [OF this s'] have "state_adds (rb_state b)
    (concat (map record_items (tool_records i t (u # us)))) (rb_state b')" by simp
  moreover have "replay_records strtod heap_ok b prev (tool_records i t (u # us) @ rs)
      = replay_records strtod heap_ok b' prev' rs"
    using v a Cons.prems(4) id r by simp
  moreover have "record_id prev' + 1 = i + word_of_nat (length (u # us))" using p by simp
  ultimately show ?case using c(2) d' c' by (metis (no_types))
qed

lemma marker_repairs:
  assumes d: "due b []" and t: "t = current_turn_id b" "t \<noteq> 0" and i: "i = record_id prev + 1" "i \<noteq> 0"
    and room: "length (context_items (rb_state b)) < context_limit"
  shows "\<exists>b'. replay_records strtod heap_ok b prev [marker_record i t] = (Inr b', heap_ok)
    \<and> phase b' = REPLAY_EXPECT_USER \<and> rb_tools b' = [] \<and> \<not> partial_seen b'
    \<and> state_adds (rb_state b) (record_items (marker_record i t)) (rb_state b')
    \<and> last_started_turn_id b' = last_started_turn_id b"
proof -
  let ?m = "summary_message interrupted_turn_text"
  have m: "oi_cli_message_is_valid ?m" "message_short ?m"
    using short_content [OF repair_texts(3)]
    by (simp_all add: oi_cli_message_is_valid_def message_short_def summary_message_def string_bytes_def
        size_max_def sizeof_tool_call_def short_def)
  obtain cap where a: "builder_append heap_ok b i ?m = (Inr (b\<lparr>rb_state := (rb_state b)\<lparr>context_cap := cap,
    context_items := context_items (rb_state b) @ [\<lparr>ci_record_id = i, ci_message = ?m\<rparr>]\<rparr>\<rparr>), heap_ok)"
    by (rule builder_append_ok [OF room m])
  have "apply_typed_record strtod heap_ok b (marker_record i t) = apply_assistant_message strtod heap_ok b (marker_record i t)
      \<lparr>hm_value = ?m, hm_source = MESSAGE_REPAIR, hm_outcome = TOOL_OUTCOME_NONE, hm_model = None, hm_raw = None\<rparr>"
    using d by (auto simp: due_def builder_ok_def apply_typed_record_def apply_message_def marker_record_def
        repair_message_def summary_message_def)
  moreover have "turn_id (marker_record i t) = t" "record_id (marker_record i t) = i" "msg_tool_calls ?m = []"
    by (simp_all add: marker_record_def repair_message_def summary_message_def)
  ultimately show ?thesis using d a t i(1) marker_record_valid [OF i(2) t(2)]
    by (auto simp: due_def apply_assistant_message_def Let_def state_adds_def)
qed

section \<open>An allocator that does not fail stays so\<close>

lemma alloc_then_lasts:
  "snd r = heap_ok \<Longrightarrow> (\<And>x. snd (k x heap_ok) = heap_ok) \<Longrightarrow> snd (alloc_then r k) = heap_ok"
  by (cases r) (auto simp: alloc_then_def split: sum.splits)

named_theorems lasts \<open>operations leave the allocator that never fails as it is\<close>

lemma message_lasts [lasts]:
  "snd (oi_cli_string_set heap_ok s) = heap_ok"
  "snd (oi_cli_message_set_user heap_ok s) = heap_ok"
  "snd (oi_cli_message_set_assistant heap_ok s) = heap_ok"
  "snd (oi_cli_message_set_tool heap_ok i s) = heap_ok"
  "snd (oi_cli_message_add_tool_call heap_ok m i s a) = heap_ok"
  by (simp_all add: oi_cli_string_set_def oi_cli_message_set_user_def oi_cli_message_set_assistant_def
      oi_cli_message_set_tool_def oi_cli_message_add_tool_call_def message_set_content_def alloc_then_lasts)

lemma clone_calls_lasts [lasts]: "snd (clone_calls heap_ok m cs) = heap_ok"
  by (induction cs arbitrary: m) (simp_all add: alloc_then_lasts lasts)

lemma clone_lasts [lasts]: "snd (oi_cli_message_clone heap_ok m) = heap_ok"
  by (simp add: oi_cli_message_clone_def alloc_then_lasts lasts)

lemma builder_append_lasts [lasts]: "snd (builder_append heap_ok b i m) = heap_ok"
  by (auto simp: builder_append_def context_append_def context_reserve_def alloc_then_lasts lasts split: option.split)

lemma parse_object_lasts: "snd (parse_object strtod heap_ok n t) = heap_ok"
  by (auto simp: parse_object_def split: option.split prod.split)

lemma validate_lasts [lasts]: "snd (validate_arguments strtod heap_ok c) = heap_ok"
  by (auto simp: validate_arguments_def alloc_then_lasts parse_object_lasts)

lemma collect_lasts [lasts]: "snd (collect_tools strtod heap_ok ts cs) = heap_ok"
  by (induction cs arbitrary: ts) (simp_all add: alloc_then_lasts lasts)

lemma apply_lasts [lasts]:
  "snd (apply_user_message heap_ok b r m) = heap_ok"
  "snd (apply_assistant_message strtod heap_ok b r m) = heap_ok"
  "snd (apply_tool_message heap_ok b r m) = heap_ok"
  "snd (apply_tool_started heap_ok b r i) = heap_ok"
  "snd (apply_partial heap_ok b r s) = heap_ok"
  "snd (apply_queued_input heap_ok b r s) = heap_ok"
  "snd (apply_queue_resolved heap_ok b r q res) = heap_ok"
  "snd (apply_checkpoint heap_ok b r c s lo hi) = heap_ok"
  "snd (apply_session_setting heap_ok b f s) = heap_ok"
  by (auto simp: apply_user_message_def apply_assistant_message_def begin_tool_results_def apply_tool_message_def
      apply_tool_started_def apply_partial_def apply_queued_input_def apply_queue_resolved_def
      apply_checkpoint_def apply_session_setting_def Let_def lasts split: option.split intro!: alloc_then_lasts)

lemma apply_record_lasts [lasts]: "snd (apply_typed_record strtod heap_ok b r) = heap_ok"
  by (simp add: apply_typed_record_def apply_message_def lasts split: record_body.split oi_cli_message_role.split)

lemma records_last [lasts]: "snd (replay_records strtod heap_ok b prev rs) = heap_ok"
  by (induction rs arbitrary: b prev) (simp_all add: alloc_then_lasts lasts)

lemma legacy_lasts [lasts]: "snd (legacy_loop heap_ok b i ms) = heap_ok"
  by (induction ms arbitrary: b i) (simp_all add: alloc_then_lasts lasts)

lemma typed_last [lasts]: "snd (replay_typed strtod heap_ok b n typed) = heap_ok"
  by (simp add: replay_typed_def lasts split: list.split)

lemma apply_legacy_lasts [lasts]: "snd (apply_legacy heap_ok b ms) = heap_ok"
  by (simp add: apply_legacy_def alloc_then_lasts lasts)

lemma publish_loop_lasts [lasts]: "snd (publish_loop heap_ok ts) = heap_ok"
  by (induction ts) (simp_all add: alloc_then_lasts lasts)

lemma publish_lasts [lasts]: "snd (publish heap_ok b i) = heap_ok"
  by (auto simp: publish_def publish_unresolved_def Let_def lasts intro!: alloc_then_lasts)

lemma replay_lasts [lasts]: "snd (oi_cli_history_replay strtod heap_ok legacy typed) = heap_ok"
  by (auto simp: oi_cli_history_replay_def Let_def lasts intro!: alloc_then_lasts)

lemma last_heap: "r = (x, h') \<Longrightarrow> snd r = heap_ok \<Longrightarrow> h' = heap_ok"
  by simp

section \<open>More records\<close>

lemma replay_records_append:
  "replay_records strtod h b prev (rs @ ss) =
     alloc_then (replay_records strtod h b prev rs) (\<lambda>b h. replay_records strtod h b (last (prev # rs)) ss)"
proof (induction rs arbitrary: h b prev)
  case (Cons r rs)
  show ?case
    by (auto simp: Cons.IH alloc_then_def split: prod.split sum.split)
qed simp

lemma replay_typed_append:
  assumes "typed \<noteq> []"
  shows "replay_typed strtod h b n (typed @ ss) =
     alloc_then (replay_typed strtod h b n typed) (\<lambda>b h. replay_records strtod h b (last typed) ss)"
  using assms by (cases typed) (simp_all add: replay_typed_def replay_records_append)

lemma replay_eq:
  assumes "apply_legacy heap_ok new_builder legacy = (Inr b1, heap_ok)"
    and "replay_typed strtod heap_ok b1 (word_of_nat (length legacy)) typed = (Inr b, heap_ok)" and "typed \<noteq> []"
    and "rb_tools b = []" "record_id (last typed) \<noteq> uint64_max" "last_started_turn_id b \<noteq> uint64_max"
    and "unresolved_tools (rb_state b) = []"
  shows "oi_cli_history_replay strtod heap_ok legacy typed = (Inr (published b (record_id (last typed))), heap_ok)"
  using assms by (simp add: oi_cli_history_replay_def publish_def publish_unresolved_def published_def
      unresolved_of_def Let_def)

lemma tool_items_length: "length (concat (map record_items (tool_records i t us))) = length us"
  by (induction us arbitrary: i) auto

text \<open>The repairs of a builder in the middle of a turn finish the turn.\<close>

lemma repairs_replay:
  assumes "due b us" "current_turn_id b \<noteq> 0" "i = record_id prev + 1" "i \<noteq> 0"
    and ids: "unat i + length us < unat uint64_max" and "list_all (\<lambda>u. short (ut_id u)) us"
    and room: "length (context_items (rb_state b)) + length us < context_limit"
  defines "m \<equiv> marker_record (i + word_of_nat (length us)) (current_turn_id b)"
  shows "\<exists>b'. replay_records strtod heap_ok b prev (tool_records i (current_turn_id b) us @ [m]) = (Inr b', heap_ok)
    \<and> phase b' = REPLAY_EXPECT_USER \<and> rb_tools b' = [] \<and> \<not> partial_seen b'
    \<and> state_adds (rb_state b) (concat (map record_items (tool_records i (current_turn_id b) us @ [m]))) (rb_state b')
    \<and> last_started_turn_id b' = last_started_turn_id b \<and> record_id m \<noteq> uint64_max"
proof -
  let ?t = "current_turn_id b" and ?j = "i + word_of_nat (length us)"
  have mx: "unat uint64_max < 2 ^ LENGTH(64)" by (rule unsigned_less)
  have "?j = word_of_nat (unat i + length us)" by simp
  also have "unat \<dots> = unat i + length us"
    by (rule unat_uint64) (use ids mx in simp)
  finally have j: "unat ?j = unat i + length us" .
  then have j0: "?j \<noteq> 0" using assms(4) by (auto simp: unat_eq_0)
  obtain b2 prev2 where r2: "replay_records strtod heap_ok b prev (tool_records i ?t us @ [m])
      = replay_records strtod heap_ok b2 prev2 [m]"
    and b2: "due b2 []" "state_adds (rb_state b) (concat (map record_items (tool_records i ?t us))) (rb_state b2)"
      "current_turn_id b2 = ?t" "last_started_turn_id b2 = last_started_turn_id b" "record_id prev2 + 1 = ?j"
    using tools_repaired [OF assms(1) refl assms(2,3,4) _ assms(6), of strtod "[m]"] ids room by auto
  have "length (context_items (rb_state b2)) < context_limit"
    using b2(2) room tool_items_length [of i ?t us] by (auto simp: state_adds_def)
  from marker_repairs [OF b2(1) b2(3) [symmetric] assms(2) b2(5) [symmetric] j0 this, of strtod] obtain b3 where
    "replay_records strtod heap_ok b2 prev2 [m] = (Inr b3, heap_ok)"
    "phase b3 = REPLAY_EXPECT_USER" "rb_tools b3 = []" "\<not> partial_seen b3"
    "state_adds (rb_state b2) (record_items m) (rb_state b3)" "last_started_turn_id b3 = last_started_turn_id b2"
    unfolding m_def by blast
  moreover have "record_id m \<noteq> uint64_max" using j ids by (auto simp: m_def marker_record_def repair_message_def)
  ultimately show ?thesis using state_adds_trans [OF b2(2)] r2 b2(4) by (intro exI [of _ b3]) simp
qed

section \<open>Property: repairs\<close>

text \<open>
  C25. An interrupted turn can always be completed. When memory lasts and there are identifiers left, the records
  built from the state of a log that needs a repair extend the log to one that replays, needs no repair and has no
  unresolved tool; the context grows by exactly the repairs' messages, and the queued input and the next turn
  stay as they were.
\<close>

theorem repairs_complete_turn:
  assumes rep: "oi_cli_history_replay strtod heap_ok legacy typed = (Inr s, h')" and ne: "typed \<noteq> []"
    and nr: "needs_repair s"
    and ids: "unat (next_record_id s) + length (unresolved_tools s) < unat uint64_max"
    and room: "length (context_items s) + length (unresolved_tools s) < context_limit"
  shows "\<exists>repairs s'. oi_cli_history_build_repairs heap_ok s = (Inr repairs, heap_ok)
    \<and> oi_cli_history_replay strtod heap_ok legacy (typed @ hist_records repairs) = (Inr s', heap_ok)
    \<and> \<not> needs_repair s' \<and> unresolved_tools s' = []
    \<and> context_items s' = context_items s @ concat (map record_items (hist_records repairs))
    \<and> next_turn_id s' = next_turn_id s \<and> has_pending_input s' = has_pending_input s
    \<and> pending_input s' = pending_input s \<and> pending_input_record_id s' = pending_input_record_id s"
proof -
  from rep obtain b1 b h1 h2 where l: "apply_legacy heap_ok new_builder legacy = (Inr b1, h1)"
    and ty: "replay_typed strtod h1 b1 (word_of_nat (length legacy)) typed = (Inr b, h2)"
    and reb: "rebuilt (legacy @ concat (map record_messages typed)) (foldl latest_summary None typed) b"
    and s: "s = published b (last_id legacy typed)" and li: "last_id legacy typed \<noteq> uint64_max"
    and ls: "last_started_turn_id b \<noteq> uint64_max"
    and sh: "list_all (\<lambda>u. short (ut_id u)) (unresolved_tools s)" and un: "unresolved_tools (rb_state b) = []"
    by (rule replay_builder)
  have h1: "h1 = heap_ok" by (rule last_heap [OF l]) (simp add: lasts)
  have h2: "h2 = heap_ok" by (rule last_heap [OF ty [unfolded h1]]) (simp add: lasts)
  have ok: "builder_ok b" using reb by (simp add: rebuilt_def)
  have ph: "phase b \<noteq> REPLAY_EXPECT_USER" using nr s by (simp add: published_def)
  let ?us = "unresolved_of (rb_tools b)" and ?t = "current_turn_id b" and ?i = "record_id (last typed) + 1"
  have sf: "next_record_id s = ?i" "repair_turn_id s = ?t" "unresolved_tools s = ?us"
    "context_items s = context_items (rb_state b)"
    using s ph ne by (simp_all add: published_def last_id_def)
  have t: "?t \<noteq> 0" using ok ph by (auto simp: builder_ok_def)
  have "unat ?i = unat (record_id (last typed)) + 1" using uint64_next li ne by (simp add: last_id_def)
  then have i: "?i \<noteq> 0" by force
  have us: "list_all (\<lambda>u. ut_id u \<noteq> [] \<and> short (ut_id u)) ?us"
    using due_ids_nonempty [OF ok] sh sf(3) by (auto simp: list_all_iff)
  have d: "due b ?us"
    using ok ph by (cases "phase b") (auto simp: due_def builder_ok_def unresolved_of_def due_ids_def)
  obtain repairs where br: "oi_cli_history_build_repairs heap_ok s = (Inr repairs, heap_ok)"
    and rr: "hist_records repairs = repair_records s"
    using build_repairs_ok [OF nr] sf t i us ids room
    by (force simp: context_limit_def size_max_def sizeof_record_def)
  let ?m = "marker_record (?i + word_of_nat (length ?us)) ?t"
  have re: "hist_records repairs = tool_records ?i ?t ?us @ [?m]" by (simp add: rr repair_records_def sf)
  have shu: "list_all (\<lambda>u. short (ut_id u)) ?us" using sh sf(3) by simp
  obtain b3 where r3: "replay_records strtod heap_ok b (last typed) (hist_records repairs) = (Inr b3, heap_ok)"
    and b3: "phase b3 = REPLAY_EXPECT_USER" "rb_tools b3 = []" "\<not> partial_seen b3"
      "state_adds (rb_state b) (concat (map record_items (hist_records repairs))) (rb_state b3)"
      "last_started_turn_id b3 = last_started_turn_id b" "record_id ?m \<noteq> uint64_max"
    unfolding re using repairs_replay [OF d t refl i _ shu, of strtod] ids room sf by auto
  let ?typed = "typed @ hist_records repairs"
  have ty3: "replay_typed strtod heap_ok b1 (word_of_nat (length legacy)) ?typed = (Inr b3, heap_ok)"
    using ty r3 ne h1 h2 by (simp add: replay_typed_append)
  have la: "last ?typed = ?m" "?typed \<noteq> []" by (simp_all add: re)
  have u3: "unresolved_tools (rb_state b3) = []" using un b3(4) by (auto simp: state_adds_def)
  have "oi_cli_history_replay strtod heap_ok legacy ?typed = (Inr (published b3 (record_id ?m)), heap_ok)"
    using replay_eq [OF l [unfolded h1] ty3 la(2) b3(2) _ _ u3] la(1) b3(5,6) ls by simp
  with br b3 s show ?thesis
    by (intro exI [of _ repairs] exI [of _ "published b3 (record_id ?m)"])
       (auto simp: published_def state_adds_def unresolved_of_def)
qed

theorem repairs_complete_turn_witness:
  "\<exists>s repairs s'. oi_cli_history_replay (\<lambda>_. (0, 0)) heap_ok [] sample_log = (Inr s, heap_ok) \<and> needs_repair s
     \<and> oi_cli_history_build_repairs heap_ok s = (Inr repairs, heap_ok)
     \<and> oi_cli_history_replay (\<lambda>_. (0, 0)) heap_ok [] (sample_log @ hist_records repairs) = (Inr s', heap_ok)
     \<and> \<not> needs_repair s'"
proof -
  obtain s where s: "oi_cli_history_replay (\<lambda>_. (0, 0)) heap_ok [] sample_log = (Inr s, heap_ok)" "needs_repair s"
    and f: "context_items s = [\<lparr>ci_record_id = 2, ci_message = sample_user\<rparr>]" "unresolved_tools s = []" "next_record_id s = 3"
    using sample_replays by blast
  have "\<exists>repairs s'. oi_cli_history_build_repairs heap_ok s = (Inr repairs, heap_ok)
    \<and> oi_cli_history_replay (\<lambda>_. (0, 0)) heap_ok [] (sample_log @ hist_records repairs) = (Inr s', heap_ok)
    \<and> \<not> needs_repair s' \<and> unresolved_tools s' = []
    \<and> context_items s' = context_items s @ concat (map record_items (hist_records repairs))
    \<and> next_turn_id s' = next_turn_id s \<and> has_pending_input s' = has_pending_input s
    \<and> pending_input s' = pending_input s \<and> pending_input_record_id s' = pending_input_record_id s"
    by (rule repairs_complete_turn [OF s(1) _ s(2)])
       (use f in \<open>simp_all add: sample_log_def uint64_max_numeral context_limit_def size_max_def\<close>)
  with s show ?thesis by blast
qed

end
