(* ===== verification/Base64.thy ===== *)
theory Base64
  imports History Utf8
begin

text \<open>
  The base64 of \<open>src/cli_history_codec.c\<close>, in which raw tool output is kept: the encoder, and the decoder that
  accepts exactly what the encoder writes.
\<close>

definition base64_alphabet :: bytes where
  "base64_alphabet = bytes_of ''ABCDEFGHIJKLMNOPQRSTUVWXYZabcdefghijklmnopqrstuvwxyz0123456789+/''"

definition base64_char :: "32 word \<Rightarrow> byte" where
  "base64_char v = base64_alphabet ! unat (v AND 0x3F)"

text \<open>The loop over groups of three bytes, and the one or two bytes that remain.\<close>

fun encode_groups :: "bytes \<Rightarrow> bytes" where
  "encode_groups (x # y # z # rest) =
     (let v = push_bit 16 (ucast x) OR push_bit 8 (ucast y) OR ucast z :: 32 word in
      base64_char (drop_bit 18 v) # base64_char (drop_bit 12 v) # base64_char (drop_bit 6 v) # base64_char v #
      encode_groups rest)"
| "encode_groups [x, y] =
     (let v = push_bit 16 (ucast x) OR push_bit 8 (ucast y) :: 32 word in
      [base64_char (drop_bit 18 v), base64_char (drop_bit 12 v), base64_char (drop_bit 6 v), 0x3D])"
| "encode_groups [x] =
     (let v = push_bit 16 (ucast x) :: 32 word in
      [base64_char (drop_bit 18 v), base64_char (drop_bit 12 v), 0x3D, 0x3D])"
| "encode_groups [] = []"

definition base64_encode :: "heap \<Rightarrow> bytes \<Rightarrow> bytes alloc" where
  "base64_encode h data =
     (if length data > (size_max - 2) div 3 then (Inl OI_ERR_NOMEM, h)
      else if (length data + 2) div 3 > (size_max - 1) div 4 then (Inl OI_ERR_NOMEM, h)
      else alloc_try h (encode_groups data))"

definition base64_value :: "byte \<Rightarrow> int" where
  "base64_value b =
     (if 0x41 \<le> b \<and> b \<le> 0x5A then uint b - 0x41
      else if 0x61 \<le> b \<and> b \<le> 0x7A then uint b - 0x61 + 26
      else if 0x30 \<le> b \<and> b \<le> 0x39 then uint b - 0x30 + 52
      else if b = 0x2B then 62
      else if b = 0x2F then 63
      else -1)"

text \<open>\<open>decoded[output++] = b\<close>, as long as there is room.\<close>

definition put_byte :: "nat \<Rightarrow> byte \<Rightarrow> bytes \<Rightarrow> bytes" where
  "put_byte n b out = (if length out < n then out @ [b] else out)"

fun decode_groups :: "nat \<Rightarrow> bytes \<Rightarrow> bytes \<Rightarrow> oi_status + bytes" where
  "decode_groups n out (t0 # t1 # t2 # t3 # rest) =
     (let a = base64_value t0; b = base64_value t1;
          c = (if t2 = 0x3D then 0 else base64_value t2);
          d = (if t3 = 0x3D then 0 else base64_value t3);
          final_group = (rest = []) in
      if a < 0 \<or> b < 0 \<or> c < 0 \<or> d < 0
        \<or> (t2 = 0x3D \<and> (\<not> final_group \<or> t3 \<noteq> 0x3D))
        \<or> (t3 = 0x3D \<and> \<not> final_group)
        \<or> (\<not> final_group \<and> (t2 = 0x3D \<or> t3 = 0x3D))
        \<or> (t2 = 0x3D \<and> b AND 0x0F \<noteq> 0)
        \<or> (t3 = 0x3D \<and> t2 \<noteq> 0x3D \<and> c AND 0x03 \<noteq> 0)
      then Inl OI_ERR_PARSE
      else let v = push_bit 18 (word_of_int a) OR push_bit 12 (word_of_int b) OR push_bit 6 (word_of_int c)
                     OR word_of_int d :: 32 word in
        decode_groups n (put_byte n (ucast v) (put_byte n (ucast (drop_bit 8 v)) (put_byte n (ucast (drop_bit 16 v)) out))) rest)"
| "decode_groups n out _ = Inr out"

definition base64_decode :: "heap \<Rightarrow> bytes \<Rightarrow> bytes alloc" where
  "base64_decode h t =
     (let len = length t;
          padding = (if len > 0 \<and> t ! (len - 1) = 0x3D then 1 else 0) + (if len > 1 \<and> t ! (len - 2) = 0x3D then 1 else 0);
          decoded_len = len div 4 * 3 - padding in
      if len mod 4 \<noteq> 0 then (Inl OI_ERR_PARSE, h)
      else if len div 4 > size_max div 3 then (Inl OI_ERR_NOMEM, h)
      else if decoded_len > history_max_content then (Inl OI_ERR_PARSE, h)
      else alloc_then (alloc_try h ()) (\<lambda>_ h. (decode_groups decoded_len [] t, h)))"

section \<open>Digits\<close>

lemma alphabet_list: "base64_alphabet = [0x41, 0x42, 0x43, 0x44, 0x45, 0x46, 0x47, 0x48, 0x49, 0x4A, 0x4B, 0x4C, 0x4D,
   0x4E, 0x4F, 0x50, 0x51, 0x52, 0x53, 0x54, 0x55, 0x56, 0x57, 0x58, 0x59, 0x5A,
   0x61, 0x62, 0x63, 0x64, 0x65, 0x66, 0x67, 0x68, 0x69, 0x6A, 0x6B, 0x6C, 0x6D,
   0x6E, 0x6F, 0x70, 0x71, 0x72, 0x73, 0x74, 0x75, 0x76, 0x77, 0x78, 0x79, 0x7A,
   0x30, 0x31, 0x32, 0x33, 0x34, 0x35, 0x36, 0x37, 0x38, 0x39, 0x2B, 0x2F]"
  by (simp add: base64_alphabet_def bytes_of_def)

lemma alphabet_length: "length base64_alphabet = 64"
  by (simp add: alphabet_list)

lemma alphabet_values: "map base64_value base64_alphabet = map int [0..<64]"
  by (simp add: alphabet_list base64_value_def upt_rec)

lemma alphabet_no_pad: "0x3D \<notin> set base64_alphabet"
  by (simp add: alphabet_list)

lemma alphabet_ranges: "set (map word_of_nat ([65..<91] @ [97..<123] @ [48..<58] @ [43, 47])) \<subseteq> set base64_alphabet"
  by (simp add: alphabet_list upt_rec)

lemma value_in_alphabet:
  assumes "0 \<le> base64_value c" shows "c \<in> set base64_alphabet"
proof -
  have "unat c \<in> {65..<91} \<union> {97..<123} \<union> {48..<58} \<union> {43, 47}"
    using assms by (simp add: base64_value_def word_le_nat_alt split: if_split_asm)
  then have "unat c \<in> set ([65..<91] @ [97..<123] @ [48..<58] @ [43, 47])"
    by (simp only: set_append set_upt) simp
  then have "word_of_nat (unat c) \<in> set (map word_of_nat ([65..<91] @ [97..<123] @ [48..<58] @ [43, 47]) :: byte list)"
    unfolding set_map by (rule imageI)
  with alphabet_ranges show ?thesis by auto
qed

lemma value_of_char: assumes "i < 64"
  shows "base64_value (base64_alphabet ! i) = int i" "base64_alphabet ! i \<noteq> 0x3D"
proof -
  have i: "i < length base64_alphabet" using assms alphabet_length by simp
  show "base64_value (base64_alphabet ! i) = int i"
    using arg_cong [OF alphabet_values, of "\<lambda>l. l ! i"] i assms by simp
  show "base64_alphabet ! i \<noteq> 0x3D" using nth_mem [OF i] alphabet_no_pad by metis
qed

lemma char_of_value:
  assumes "0 \<le> base64_value c"
  shows "base64_value c < 64 \<and> base64_alphabet ! nat (base64_value c) = c"
proof -
  from value_in_alphabet [OF assms] obtain i where "i < 64" "c = base64_alphabet ! i"
    using alphabet_length by (auto simp: in_set_conv_nth)
  with value_of_char [of i] show ?thesis by simp
qed

section \<open>Groups as numbers\<close>

lemma or_join: "unat p = m * 2 ^ k \<Longrightarrow> unat q < 2 ^ k \<Longrightarrow> unat (p OR q :: 32 word) = m * 2 ^ k + unat q"
  by (subst unat_or_disjoint [where k = k]) simp_all

lemma unat_digit: "d < 256 \<Longrightarrow> unat (word_of_nat d :: 32 word) = d"
  by (simp add: unsigned_of_nat take_bit_nat_eq_self)

lemma unat_push: "unat (w :: 32 word) < 256 \<Longrightarrow> k \<le> 18 \<Longrightarrow> unat (push_bit k w) = unat w * 2 ^ k"
proof -
  assume w: "unat w < 256" "k \<le> 18"
  then have "(2 :: nat) ^ k \<le> 2 ^ 18" by (intro power_increasing) simp_all
  then have "unat w * 2 ^ k < 2 ^ 32" using w(1) mult_le_mono [of "unat w" 255 "2 ^ k" "2 ^ 18"] by simp
  then show ?thesis by (subst unat_push_bit) simp_all
qed

lemma join_bytes:
  "unat (push_bit 16 (ucast (x :: byte)) OR push_bit 8 (ucast (y :: byte)) OR ucast (z :: byte) :: 32 word)
     = unat x * 65536 + unat y * 256 + unat z"
proof -
  define p q r where w: "p = push_bit 16 (ucast x :: 32 word)" "q = push_bit 8 (ucast y :: 32 word)"
    "r = (ucast z :: 32 word)"
  have u: "unat p = unat x * 2 ^ 16" "unat q = unat y * 2 ^ 8" "unat r = unat z"
    using unat_push [of "ucast x" 16] unat_push [of "ucast y" 8] byte_less_256 [of x] byte_less_256 [of y]
    by (simp_all only: w unat_ucast_byte)
  have "unat (q OR r) = unat y * 2 ^ 8 + unat z"
    using or_join [OF u(2), of r] byte_less_256 [of z] u(3) by simp
  with or_join [OF u(1), of "q OR r"] byte_less_256 [of y] byte_less_256 [of z]
  show ?thesis unfolding w [symmetric] by simp
qed

lemma join_digits:
  assumes "d0 < 64" "d1 < 64" "d2 < 64" "d3 < 64"
  shows "unat (push_bit 18 (word_of_nat d0) OR push_bit 12 (word_of_nat d1) OR push_bit 6 (word_of_nat d2)
      OR word_of_nat d3 :: 32 word) = d0 * 262144 + d1 * 4096 + d2 * 64 + d3"
proof -
  define p q r s where w: "p = push_bit 18 (word_of_nat d0 :: 32 word)" "q = push_bit 12 (word_of_nat d1 :: 32 word)"
    "r = push_bit 6 (word_of_nat d2 :: 32 word)" "s = (word_of_nat d3 :: 32 word)"
  have u: "unat p = d0 * 2 ^ 18" "unat q = d1 * 2 ^ 12" "unat r = d2 * 2 ^ 6" "unat s = d3"
    unfolding w using assms unat_digit unat_push by auto
  have 1: "unat (r OR s) = d2 * 2 ^ 6 + d3" using or_join [OF u(3), of s] assms u(4) by simp
  have 2: "unat (q OR r OR s) = d1 * 2 ^ 12 + (d2 * 2 ^ 6 + d3)"
    using or_join [OF u(2), of "r OR s"] assms 1 by simp
  from or_join [OF u(1), of "q OR r OR s"] assms 2 show ?thesis unfolding w [symmetric] by simp
qed

lemma low_byte: "(word_of_nat (m * 256 + n) :: byte) = word_of_nat n"
  by (rule word_of_nat_eq_iff [THEN iffD2]) (simp add: take_bit_eq_mod)

lemma split_bytes:
  assumes "unat (v :: 32 word) = a * 65536 + b * 256 + c" "a < 256" "b < 256" "c < 256"
  shows "(ucast (drop_bit 16 v) :: byte) = word_of_nat a" "(ucast (drop_bit 8 v) :: byte) = word_of_nat b"
    "(ucast v :: byte) = word_of_nat c"
proof -
  have d: "unat v div 65536 = a" "unat v div 256 = a * 256 + b" using assms by auto
  show "(ucast (drop_bit 16 v) :: byte) = word_of_nat a" by (rule ucast_nat) (use d in \<open>simp add: unat_drop\<close>)
  have "(ucast (drop_bit 8 v) :: byte) = word_of_nat (a * 256 + b)" by (rule ucast_nat) (use d in \<open>simp add: unat_drop\<close>)
  then show "(ucast (drop_bit 8 v) :: byte) = word_of_nat b" unfolding low_byte .
  have "(ucast v :: byte) = word_of_nat ((a * 256 + b) * 256 + c)" by (rule ucast_nat) (use assms(1) in simp)
  then show "(ucast v :: byte) = word_of_nat c" unfolding low_byte .
qed

lemma split_digits:
  assumes "unat (v :: 32 word) = d0 * 262144 + d1 * 4096 + d2 * 64 + d3" "d0 < 64" "d1 < 64" "d2 < 64" "d3 < 64"
  shows "base64_char (drop_bit 18 v) = base64_alphabet ! d0" "base64_char (drop_bit 12 v) = base64_alphabet ! d1"
    "base64_char (drop_bit 6 v) = base64_alphabet ! d2" "base64_char v = base64_alphabet ! d3"
proof -
  have m: "base64_char w = base64_alphabet ! (unat w mod 64)" for w
    using unat_and_mask [of w 6] by (simp add: base64_char_def mask_consts)
  have d: "unat v div 2 ^ 18 = d0" "unat v div 2 ^ 12 = d0 * 64 + d1" "unat v div 2 ^ 6 = (d0 * 64 + d1) * 64 + d2"
    "unat v = ((d0 * 64 + d1) * 64 + d2) * 64 + d3" using assms by auto
  show "base64_char (drop_bit 18 v) = base64_alphabet ! d0" "base64_char (drop_bit 12 v) = base64_alphabet ! d1"
    "base64_char (drop_bit 6 v) = base64_alphabet ! d2"
    unfolding m unat_drop d(1-3) mod_mult_self3 using assms(2-5) by simp_all
  show "base64_char v = base64_alphabet ! d3" unfolding m by (subst d(4)) (use assms(5) in \<open>simp only: mod_mult_self3 mod_less\<close>)
qed

text \<open>The four digits of three bytes, and back.\<close>

lemma digits_of_bytes:
  assumes "a < 256" "b < 256" "c < (256 :: nat)"
  shows "a * 65536 + b * 256 + c = a div 4 * 262144 + (a mod 4 * 16 + b div 16) * 4096 + (b mod 16 * 4 + c div 64) * 64 + c mod 64"
    "a div 4 < 64" "a mod 4 * 16 + b div 16 < 64" "b mod 16 * 4 + c div 64 < 64" "c mod 64 < 64"
proof -
  obtain p q r s t u where e: "p = a div 4" "q = a mod 4" "r = b div 16" "s = b mod 16" "t = c div 64" "u = c mod 64" by blast
  have "a = p * 4 + q" "b = r * 16 + s" "c = t * 64 + u" "q < 4" "s < 16" "u < 64" by (simp_all add: e)
  then show "a * 65536 + b * 256 + c = a div 4 * 262144 + (a mod 4 * 16 + b div 16) * 4096 + (b mod 16 * 4 + c div 64) * 64 + c mod 64"
    "a div 4 < 64" "a mod 4 * 16 + b div 16 < 64" "b mod 16 * 4 + c div 64 < 64" "c mod 64 < 64"
    unfolding e [symmetric] using assms by (simp_all (no_asm_simp))
qed

lemma bytes_of_digits:
  assumes "d0 < 64" "d1 < 64" "d2 < 64" "d3 < (64 :: nat)"
  shows "d0 * 262144 + d1 * 4096 + d2 * 64 + d3 = (d0 * 4 + d1 div 16) * 65536 + (d1 mod 16 * 16 + d2 div 4) * 256 + (d2 mod 4 * 64 + d3)"
    "d0 * 4 + d1 div 16 < 256" "d1 mod 16 * 16 + d2 div 4 < 256" "d2 mod 4 * 64 + d3 < 256"
proof -
  obtain p q r s where e: "p = d1 div 16" "q = d1 mod 16" "r = d2 div 4" "s = d2 mod 4" by blast
  have "d1 = p * 16 + q" "d2 = r * 4 + s" "q < 16" "s < 4" by (simp_all add: e)
  then show "d0 * 262144 + d1 * 4096 + d2 * 64 + d3 = (d0 * 4 + d1 div 16) * 65536 + (d1 mod 16 * 16 + d2 div 4) * 256 + (d2 mod 4 * 64 + d3)"
    "d0 * 4 + d1 div 16 < 256" "d1 mod 16 * 16 + d2 div 4 < 256" "d2 mod 4 * 64 + d3 < 256"
    unfolding e [symmetric] using assms by (simp_all (no_asm_simp))
qed

section \<open>Encoding and decoding a group\<close>

abbreviation digits :: "nat \<Rightarrow> nat \<Rightarrow> nat \<Rightarrow> nat \<Rightarrow> nat" where
  "digits d0 d1 d2 d3 \<equiv> d0 * 262144 + d1 * 4096 + d2 * 64 + d3"

abbreviation digit_char :: "nat \<Rightarrow> byte" where
  "digit_char d \<equiv> base64_alphabet ! d"

lemma encode_three:
  assumes "unat x * 65536 + unat y * 256 + unat z = digits d0 d1 d2 d3" "d0 < 64" "d1 < 64" "d2 < 64" "d3 < 64"
  shows "encode_groups (x # y # z # rest) =
    digit_char d0 # digit_char d1 # digit_char d2 # digit_char d3 # encode_groups rest"
  using split_digits [OF join_bytes [of x y z, unfolded assms(1)] assms(2-5)] by (simp only: encode_groups.simps Let_def)

lemma join_less:
  "unat (push_bit 16 (ucast (x :: byte)) OR push_bit 8 (ucast (y :: byte)) :: 32 word) = unat x * 65536 + unat y * 256"
  "unat (push_bit 16 (ucast (x :: byte)) :: 32 word) = unat x * 65536"
  using join_bytes [of x y 0] join_bytes [of x 0 0] by simp_all

lemma encode_two:
  assumes "unat x * 65536 + unat y * 256 = digits d0 d1 d2 0" "d0 < 64" "d1 < 64" "d2 < 64"
  shows "encode_groups [x, y] = [digit_char d0, digit_char d1, digit_char d2, 0x3D]"
  using split_digits [OF join_less(1) [of x y, unfolded assms(1)] assms(2-4)] by (simp only: encode_groups.simps Let_def)

lemma encode_one:
  assumes "unat x * 65536 = digits d0 d1 0 0" "d0 < 64" "d1 < 64"
  shows "encode_groups [x] = [digit_char d0, digit_char d1, 0x3D, 0x3D]"
  using split_digits [OF join_less(2) [of x, unfolded assms(1)] assms(2,3)] by (simp only: encode_groups.simps Let_def)

lemma low_bits: "(int d AND 0x0F = 0) = (d mod 16 = 0)" "(int d AND 0x03 = 0) = (d mod 4 = 0)"
proof -
  have "int d AND 0x0F = int d mod 2 ^ 4" "int d AND 0x03 = int d mod 2 ^ 2"
    by (simp_all only: take_bit_eq_mod [symmetric] take_bit_eq_mask) (simp_all add: mask_eq_exp_minus_1)
  then show "(int d AND 0x0F = 0) = (d mod 16 = 0)" "(int d AND 0x03 = 0) = (d mod 4 = 0)"
    by (simp_all add: zmod_int [symmetric, of d 16, simplified] zmod_int [symmetric, of d 4, simplified])
qed

lemma decode_three:
  assumes "d0 < 64" "d1 < 64" "d2 < 64" "d3 < 64"
    and "digits d0 d1 d2 d3 = a * 65536 + b * 256 + c" "a < 256" "b < 256" "c < 256"
  shows "decode_groups n out (digit_char d0 # digit_char d1 # digit_char d2 # digit_char d3 # rest) =
    decode_groups n (put_byte n (word_of_nat c) (put_byte n (word_of_nat b) (put_byte n (word_of_nat a) out))) rest"
  using value_of_char [OF assms(1)] value_of_char [OF assms(2)] value_of_char [OF assms(3)] value_of_char [OF assms(4)]
    split_bytes [OF join_digits [OF assms(1-4), unfolded assms(5)] assms(6-8)]
  by (simp add: Let_def)

lemma decode_two:
  assumes "d0 < 64" "d1 < 64" "d2 < 64" "d2 mod 4 = 0"
    and "digits d0 d1 d2 0 = a * 65536 + b * 256 + 0" "a < 256" "b < 256"
  shows "decode_groups n out [digit_char d0, digit_char d1, digit_char d2, 0x3D] =
    Inr (put_byte n 0 (put_byte n (word_of_nat b) (put_byte n (word_of_nat a) out)))"
  using value_of_char [OF assms(1)] value_of_char [OF assms(2)] value_of_char [OF assms(3)] assms(4)
    split_bytes [OF join_digits [OF assms(1-3), of 0, unfolded assms(5)] assms(6,7)]
  by (simp add: Let_def low_bits)

lemma decode_one:
  assumes "d0 < 64" "d1 < 64" "d1 mod 16 = 0"
    and "digits d0 d1 0 0 = a * 65536 + 0 * 256 + 0" "a < 256"
  shows "decode_groups n out [digit_char d0, digit_char d1, 0x3D, 0x3D] =
    Inr (put_byte n 0 (put_byte n 0 (put_byte n (word_of_nat a) out)))"
  using value_of_char [OF assms(1)] value_of_char [OF assms(2)] assms(3)
    split_bytes [OF join_digits [OF assms(1,2), of 0 0, unfolded assms(4)] assms(5)]
  by (simp add: Let_def low_bits)

lemma encode_groups_Nil [simp]: "encode_groups xs = [] \<longleftrightarrow> xs = []"
  by (cases xs rule: encode_groups.cases) (simp_all add: Let_def)

lemma digits_of_two:
  assumes "a < 256" "b < (256 :: nat)"
  shows "a div 4 < 64" "a mod 4 * 16 + b div 16 < 64" "b mod 16 * 4 < 64" "b mod 16 * 4 mod 4 = 0"
    "digits (a div 4) (a mod 4 * 16 + b div 16) (b mod 16 * 4) 0 = a * 65536 + b * 256 + 0"
  using digits_of_bytes [OF assms, of 0] by simp_all

lemma digits_of_one:
  assumes "a < (256 :: nat)"
  shows "a div 4 < 64" "a mod 4 * 16 < 64" "a mod 4 * 16 mod 16 = 0"
    "digits (a div 4) (a mod 4 * 16) 0 0 = a * 65536 + 0 * 256 + 0"
  using digits_of_bytes [OF assms, of 0 0] by simp_all

lemma encode_two_digits: "encode_groups [x, y] =
    [digit_char (unat x div 4), digit_char (unat x mod 4 * 16 + unat y div 16), digit_char (unat y mod 16 * 4), 0x3D]"
  using digits_of_two [OF byte_less_256 [of x] byte_less_256 [of y]] by (intro encode_two) simp_all

lemma encode_one_digits: "encode_groups [x] = [digit_char (unat x div 4), digit_char (unat x mod 4 * 16), 0x3D, 0x3D]"
  using digits_of_one [OF byte_less_256 [of x]] by (intro encode_one) simp_all

text \<open>The length of the text, and where its padding is.\<close>

lemma encode_groups_shape:
  "length (encode_groups xs) = 4 * ((length xs + 2) div 3) \<and>
   (xs \<noteq> [] \<longrightarrow> (encode_groups xs ! (length (encode_groups xs) - 1) = 0x3D) = (length xs mod 3 \<noteq> 0)
     \<and> (encode_groups xs ! (length (encode_groups xs) - 2) = 0x3D) = (length xs mod 3 = 1))"
proof (induction xs rule: encode_groups.induct)
  case (1 x y z rest)
  note b = byte_less_256 [of x] byte_less_256 [of y] byte_less_256 [of z]
  note d = digits_of_bytes [OF b]
  let ?t = "encode_groups rest"
  have l: "(5 + length rest) div 3 = (length rest + 2) div 3 + 1" "(3 + length rest) mod 3 = length rest mod 3"
    by presburger+
  show ?case
  proof (cases "rest = []")
    case True
    with value_of_char(2) d(4,5) show ?thesis unfolding encode_three [OF d] by simp
  next
    case False
    then have "3 \<le> length rest + 2" by (cases rest) auto
    then have "4 \<le> length ?t" using "1.IH" [OF refl] by auto
    then have n: "(c0 # c1 # c2 # c3 # ?t) ! (length (c0 # c1 # c2 # c3 # ?t) - k) = ?t ! (length ?t - k)"
      if "0 < k" "k < 4" for c0 c1 c2 c3 k
      using that nth_append [of "[c0, c1, c2, c3]" ?t "length ?t + 4 - k"] by auto
    show ?thesis unfolding encode_three [OF d]
      using conjunct1 [OF "1.IH" [OF refl]] conjunct2 [OF "1.IH" [OF refl]] False n [of 1] n [of 2] l by simp
  qed
next
  case (2 x y)
  show ?case using value_of_char(2) [OF digits_of_two(3) [OF byte_less_256 [of x] byte_less_256 [of y]]]
    unfolding encode_two_digits by simp
next
  case (3 x)
  show ?case unfolding encode_one_digits by simp
qed simp

lemma decode_encode_groups:
  "n = length out + length xs \<Longrightarrow> decode_groups n out (encode_groups xs) = Inr (out @ xs)"
proof (induction xs arbitrary: out rule: encode_groups.induct)
  case (1 x y z rest)
  note b = byte_less_256 [of x] byte_less_256 [of y] byte_less_256 [of z]
  note d = digits_of_bytes [OF b]
  show ?case
    unfolding encode_three [OF d] decode_three [OF d(2-5) d(1) [symmetric] b]
    using "1.IH" [OF refl, of "out @ [x, y, z]"] "1.prems" by (simp add: put_byte_def)
next
  case (2 x y)
  note b = byte_less_256 [of x] byte_less_256 [of y]
  note d = digits_of_two [OF b]
  show ?case unfolding encode_two_digits decode_two [OF d b] using "2.prems" by (simp add: put_byte_def)
next
  case (3 x)
  note d = digits_of_one [OF byte_less_256 [of x]]
  show ?case unfolding encode_one_digits decode_one [OF d byte_less_256] using "3.prems" by (simp add: put_byte_def)
qed simp

text \<open>A group that the decoder accepts is one that the encoder writes.\<close>

lemma value_digit:
  assumes "0 \<le> base64_value t" obtains d where "d < 64" "t = digit_char d" "base64_value t = int d"
  using char_of_value [OF assms] assms by (intro that [of "nat (base64_value t)"]) auto

lemma decoded_group:
  assumes "decode_groups n out (t0 # t1 # t2 # t3 # rest) = Inr r"
  shows "\<exists>xs out'. decode_groups n out' rest = Inr r \<and> (\<forall>ys. rest = encode_groups ys \<longrightarrow>
    t0 # t1 # t2 # t3 # rest = encode_groups (xs @ ys))"
proof -
  let ?d = "if t3 = 0x3D then 0 else base64_value t3" and ?c = "if t2 = 0x3D then 0 else base64_value t2"
  from assms have v: "0 \<le> base64_value t0" "0 \<le> base64_value t1" "0 \<le> ?c" "0 \<le> ?d"
    and p: "t2 = 0x3D \<longrightarrow> rest = [] \<and> t3 = 0x3D \<and> base64_value t1 AND 0x0F = 0"
      "t3 = 0x3D \<longrightarrow> rest = [] \<and> (t2 \<noteq> 0x3D \<longrightarrow> ?c AND 0x03 = 0)"
    and ex: "\<exists>out'. decode_groups n out' rest = Inr r"
    by (auto simp: Let_def split: if_split_asm)
  from ex obtain out' where r: "decode_groups n out' rest = Inr r" ..
  have last_group: ?thesis if "rest = []" "encode_groups xs = [t0, t1, t2, t3]" for xs
    using that r by (metis append_Nil2 encode_groups_Nil)
  from v(1) obtain d0 where d0: "d0 < 64" "t0 = digit_char d0" by (rule value_digit)
  from v(2) obtain d1 where d1: "d1 < 64" "t1 = digit_char d1" "base64_value t1 = int d1" by (rule value_digit)
  show ?thesis
  proof (cases "t2 = 0x3D")
    case True
    then have q: "rest = []" "t3 = 0x3D" "d1 mod 16 = 0" using p(1) d1(3) low_bits(1) [of d1] by auto
    let ?x = "word_of_nat (d0 * 4 + d1 div 16) :: byte"
    have "unat ?x = d0 * 4 + d1 div 16" using d0(1) d1(1) by (intro unat_small) auto
    then have "encode_groups [?x] = [t0, t1, 0x3D, 0x3D]"
      unfolding d0 d1 by (intro encode_one) (use q(3) d0 d1 in auto)
    then show ?thesis by (intro last_group [OF q(1)]) (simp only: q True)
  next
    case False
    with v(3) obtain d2 where d2: "d2 < 64" "t2 = digit_char d2" "base64_value t2 = int d2"
      by (auto intro: value_digit)
    show ?thesis
    proof (cases "t3 = 0x3D")
      case True
      then have q: "rest = []" "d2 mod 4 = 0" using p(2) False d2(3) low_bits(2) [of d2] by auto
      note b = bytes_of_digits [OF d0(1) d1(1) d2(1), of 0, simplified]
      let ?x = "word_of_nat (d0 * 4 + d1 div 16) :: byte" and ?y = "word_of_nat (d1 mod 16 * 16 + d2 div 4) :: byte"
      have "unat ?x = d0 * 4 + d1 div 16" "unat ?y = d1 mod 16 * 16 + d2 div 4"
        using b by (simp_all only: unat_small)
      then have "encode_groups [?x, ?y] = [t0, t1, t2, 0x3D]"
        unfolding d0 d1 d2 by (intro encode_two) (use q(2) d0 d1 d2 b in auto)
      then show ?thesis by (intro last_group [OF q(1)]) (simp only: q True)
    next
      case t3: False
      with v(4) obtain d3 where d3: "d3 < 64" "t3 = digit_char d3" by (auto intro: value_digit)
      note b = bytes_of_digits [OF d0(1) d1(1) d2(1) d3(1)]
      let ?x = "word_of_nat (d0 * 4 + d1 div 16) :: byte" and ?y = "word_of_nat (d1 mod 16 * 16 + d2 div 4) :: byte"
        and ?z = "word_of_nat (d2 mod 4 * 64 + d3) :: byte"
      have u: "unat ?x = d0 * 4 + d1 div 16" "unat ?y = d1 mod 16 * 16 + d2 div 4" "unat ?z = d2 mod 4 * 64 + d3"
        using b by (simp_all only: unat_small)
      have "encode_groups (?x # ?y # ?z # ys) = t0 # t1 # t2 # t3 # encode_groups ys" for ys
        unfolding d0(2) d1(2) d2(2) d3(2)
        by (rule encode_three) (simp_all only: u b(1) [symmetric] d0(1) d1(1) d2(1) d3(1))
      with r show ?thesis by (metis append_Cons append_Nil)
    qed
  qed
qed

lemma decoded_groups:
  "decode_groups n out t = Inr r \<Longrightarrow> length t mod 4 = 0 \<Longrightarrow> \<exists>xs. t = encode_groups xs"
proof (induction "length t" arbitrary: t out rule: less_induct)
  case less
  show ?case
  proof (cases "(n, out, t)" rule: decode_groups.cases)
    case (1 n out t0 t1 t2 t3 rest)
    with decoded_group [of n out t0 t1 t2 t3 rest r] less.prems obtain xs out' where
      "decode_groups n out' rest = Inr r" and e: "\<And>ys. rest = encode_groups ys \<Longrightarrow> t = encode_groups (xs @ ys)"
      by auto
    moreover have "length rest mod 4 = 0" using less.prems(2) 1 by simp
    ultimately obtain ys where "rest = encode_groups ys" using less.hyps [of rest out'] 1 by auto
    with e show ?thesis by blast
  qed (use less.prems(2) in \<open>auto intro: exI [of _ "[]"]\<close>)
qed

section \<open>Property: canonical base64\<close>

definition decoded_length :: "bytes \<Rightarrow> nat" where
  "decoded_length t = length t div 4 * 3
     - ((if length t > 0 \<and> t ! (length t - 1) = 0x3D then 1 else 0) + (if length t > 1 \<and> t ! (length t - 2) = 0x3D then 1 else 0))"

lemma decoded_length_encode: "decoded_length (encode_groups xs) = length xs"
proof (cases "xs = []")
  case False
  note s = encode_groups_shape [of xs]
  have l: "length (encode_groups xs) = 4 * ((length xs + 2) div 3)" using s by simp
  have p: "0 < length xs" using False by (cases xs) simp_all
  have "3 \<le> length xs + 2" using p by linarith
  then have "1 \<le> (length xs + 2) div 3" by auto
  then have g: "length (encode_groups xs) > 1" using l by simp
  have "decoded_length (encode_groups xs) = (length xs + 2) div 3 * 3
      - ((if length xs mod 3 \<noteq> 0 then 1 else 0) + (if length xs mod 3 = 1 then 1 else 0))"
    using s False g l unfolding decoded_length_def by simp
  also have "\<dots> = length xs" by presburger
  finally show ?thesis .
qed (simp add: decoded_length_def)

lemma base64_decode_ok:
  "length xs \<le> history_max_content \<Longrightarrow> base64_decode heap_ok (encode_groups xs) = (Inr xs, heap_ok)"
proof -
  assume l: "length xs \<le> history_max_content"
  have e: "length (encode_groups xs) = 4 * ((length xs + 2) div 3)" using encode_groups_shape [of xs] by simp
  then have "length (encode_groups xs) div 4 \<le> size_max div 3"
    using l by (simp add: history_max_content_def size_max_def)
  with e l decode_encode_groups [of "length xs" "[]" xs] decoded_length_encode [of xs, unfolded decoded_length_def]
  show ?thesis by (simp add: base64_decode_def Let_def)
qed

lemma base64_decode_Inr:
  "base64_decode h t = (Inr xs, h') \<Longrightarrow> t = encode_groups xs \<and> length xs \<le> history_max_content"
proof -
  assume d: "base64_decode h t = (Inr xs, h')"
  then have m: "length t mod 4 = 0" and n: "decoded_length t \<le> history_max_content"
    and g: "decode_groups (decoded_length t) [] t = Inr xs"
    by (auto simp: base64_decode_def decoded_length_def Let_def split: if_split_asm)
  obtain ys where ys: "t = encode_groups ys" using decoded_groups [OF g m] by blast
  with g n decode_encode_groups [of "length ys" "[]" ys] show ?thesis by (simp add: decoded_length_encode)
qed

lemma base64_encode_ok: "length xs \<le> history_max_content \<Longrightarrow> base64_encode heap_ok xs = (Inr (encode_groups xs), heap_ok)"
  by (simp add: base64_encode_def history_max_content_def size_max_def)

text \<open>
  C27. The decoder accepts exactly the canonical texts: while memory lasts, a text decodes to some bytes exactly
  when it is what the encoder writes for these bytes and they are at most a MiB.
\<close>

theorem base64_canonical:
  "base64_decode heap_ok t = (Inr xs, heap_ok)
     \<longleftrightarrow> base64_encode heap_ok xs = (Inr t, heap_ok) \<and> length xs \<le> history_max_content"
proof
  assume "base64_decode heap_ok t = (Inr xs, heap_ok)"
  from base64_decode_Inr [OF this] base64_encode_ok [of xs]
  show "base64_encode heap_ok xs = (Inr t, heap_ok) \<and> length xs \<le> history_max_content" by simp
next
  assume e: "base64_encode heap_ok xs = (Inr t, heap_ok) \<and> length xs \<le> history_max_content"
  with base64_encode_ok [of xs] have "t = encode_groups xs" by simp
  with e base64_decode_ok [of xs] show "base64_decode heap_ok t = (Inr xs, heap_ok)" by simp
qed

end
