(* ===== verification/History_Codec.thy ===== *)
theory History_Codec
  imports Base64 History_Replay Json_Roundtrip
begin

text \<open>
  \<open>src/cli_history_codec.c\<close>: a record of the history as one line of JSON, and the strict decoder. The writer
  has an allocator stream of its own, as the arena and the parser have.
\<close>

section \<open>Names\<close>

definition record_kind_name :: "record_body \<Rightarrow> bytes option" where
  "record_kind_name b = map_option bytes_of
     (case b of
        RECORD_TRANSITION _ \<Rightarrow> Some ''transition''
      | RECORD_MESSAGE _ \<Rightarrow> Some ''message''
      | RECORD_TOOL_STARTED _ \<Rightarrow> Some ''tool_started''
      | RECORD_PARTIAL_ASSISTANT _ _ \<Rightarrow> Some ''partial_assistant''
      | RECORD_QUEUED_INPUT _ \<Rightarrow> Some ''queued_input''
      | RECORD_QUEUE_RESOLVED _ _ \<Rightarrow> Some ''queue_resolved''
      | RECORD_CHECKPOINT _ _ _ _ \<Rightarrow> Some ''checkpoint''
      | RECORD_SESSION_SETTING _ _ \<Rightarrow> Some ''session_setting''
      | RECORD_NONE \<Rightarrow> None)"

definition session_setting_field_name :: "session_setting_field \<Rightarrow> bytes" where
  "session_setting_field_name f = bytes_of (case f of SETTING_MODEL \<Rightarrow> ''model'' | SETTING_CWD \<Rightarrow> ''cwd'')"

definition message_role_name :: "oi_cli_message_role \<Rightarrow> bytes option" where
  "message_role_name r = map_option bytes_of
     (case r of
        MESSAGE_USER \<Rightarrow> Some ''user''
      | MESSAGE_ASSISTANT \<Rightarrow> Some ''assistant''
      | MESSAGE_TOOL \<Rightarrow> Some ''tool''
      | MESSAGE_NONE \<Rightarrow> None)"

definition tool_outcome_name :: "tool_outcome \<Rightarrow> bytes option" where
  "tool_outcome_name o' = map_option bytes_of
     (case o' of
        TOOL_COMPLETED \<Rightarrow> Some ''completed''
      | TOOL_OUTCOME_UNKNOWN \<Rightarrow> Some ''outcome_unknown''
      | TOOL_NOT_EXECUTED \<Rightarrow> Some ''not_executed''
      | TOOL_OUTCOME_NONE \<Rightarrow> None)"

definition source_name :: "message_source \<Rightarrow> bytes" where
  "source_name s = bytes_of (if s = MESSAGE_NORMAL then ''normal'' else ''repair'')"

definition resolution_name :: "queue_resolution \<Rightarrow> bytes" where
  "resolution_name r = bytes_of (if r = QUEUE_CONSUMED then ''consumed'' else ''discarded'')"

section \<open>Encoding\<close>

text \<open>
  The calls \<open>write_key\<close> and \<open>oi_json_write_string\<close> of a member. The decimal text of a 64-bit number has at
  most 20 digits, so it always fits the buffer of \<open>write_uint64_string\<close>.
\<close>

definition string_member :: "string \<Rightarrow> bytes \<Rightarrow> w_op list" where
  "string_member key s = [W_key (bytes_of key), W_string s]"

definition uint64_member :: "string \<Rightarrow> uint64 \<Rightarrow> w_op list" where
  "uint64_member key n = string_member key (decimal (unat n))"

definition write_tool_calls :: "oi_cli_message \<Rightarrow> w_op list" where
  "write_tool_calls m =
     W_key (bytes_of ''tool_calls'') # W_array_begin #
     concat (map (\<lambda>c. W_object_begin # string_member ''id'' (tc_id c) @ string_member ''name'' (tc_name c)
       @ string_member ''arguments'' (tc_arguments c) @ [W_object_end]) (msg_tool_calls m)) @ [W_array_end]"

text \<open>The part of \<open>write_message\<close> for the result of a tool, after the members of every message.\<close>

definition write_tool_result ::
  "fmt \<Rightarrow> heap \<Rightarrow> oi_status \<times> oi_json_writer \<Rightarrow> oi_cli_history_message \<Rightarrow> (oi_status \<times> oi_json_writer) \<times> heap" where
  "write_tool_result fmt h r m =
     (let r = wr_then r (\<lambda>w. write_calls fmt w
                (string_member ''tool_call_id'' (string_bytes (msg_tool_call_id (hm_value m))))) in
      case tool_outcome_name (hm_outcome m) of
        None \<Rightarrow> (wr_then r (\<lambda>w. (OI_ERR_INVAL, w)), h)
      | Some name \<Rightarrow>
          (case wr_then r (\<lambda>w. write_calls fmt w (string_member ''tool_outcome'' name)) of (st, w) \<Rightarrow>
             (case hm_raw m of
                None \<Rightarrow> ((st, w), h)
              | Some raw \<Rightarrow>
                  if st \<noteq> OI_OK then ((st, w), h)
                  else (case base64_encode h raw of
                      (Inl st, h) \<Rightarrow> ((st, w), h)
                    | (Inr encoded, h) \<Rightarrow> (write_calls fmt w (string_member ''raw_output_base64'' encoded), h)))))"

definition write_message ::
  "fmt \<Rightarrow> heap \<Rightarrow> oi_json_writer \<Rightarrow> oi_cli_history_message \<Rightarrow> (oi_status \<times> oi_json_writer) \<times> heap" where
  "write_message fmt h w m =
     (case message_role_name (msg_role (hm_value m)) of
        None \<Rightarrow> ((OI_ERR_INVAL, w), h)
      | Some name \<Rightarrow>
          (let r = write_calls fmt w (string_member ''role'' name
                @ string_member ''content'' (string_bytes (msg_content (hm_value m)))
                @ string_member ''source'' (source_name (hm_source m))
                @ (case hm_model m of None \<Rightarrow> [] | Some s \<Rightarrow> string_member ''model'' s)
                @ (if msg_role (hm_value m) = MESSAGE_ASSISTANT \<and> msg_tool_calls (hm_value m) \<noteq> []
                   then write_tool_calls (hm_value m) else [])) in
           if msg_role (hm_value m) = MESSAGE_TOOL then write_tool_result fmt h r m else (r, h)))"

definition write_payload ::
  "fmt \<Rightarrow> heap \<Rightarrow> oi_json_writer \<Rightarrow> oi_cli_history_record \<Rightarrow> (oi_status \<times> oi_json_writer) \<times> heap" where
  "write_payload fmt h w r =
     (case body r of
        RECORD_TRANSITION n \<Rightarrow> (write_calls fmt w (uint64_member ''legacy_record_count'' n), h)
      | RECORD_MESSAGE m \<Rightarrow> write_message fmt h w m
      | RECORD_TOOL_STARTED i \<Rightarrow> (write_calls fmt w (string_member ''tool_call_id'' (string_bytes i)), h)
      | RECORD_PARTIAL_ASSISTANT c m \<Rightarrow>
          (write_calls fmt w (string_member ''content'' (string_bytes c) @ string_member ''model'' (string_bytes m)), h)
      | RECORD_QUEUED_INPUT c \<Rightarrow> (write_calls fmt w (string_member ''content'' (string_bytes c)), h)
      | RECORD_QUEUE_RESOLVED q res \<Rightarrow>
          (write_calls fmt w (uint64_member ''queued_record_id'' q @ string_member ''resolution'' (resolution_name res)), h)
      | RECORD_CHECKPOINT s m lo hi \<Rightarrow>
          (write_calls fmt w (string_member ''summary'' (string_bytes s) @ string_member ''model'' (string_bytes m)
             @ uint64_member ''source_first_record_id'' lo @ uint64_member ''source_last_record_id'' hi), h)
      | RECORD_SESSION_SETTING f v \<Rightarrow>
          (write_calls fmt w (string_member ''field'' (session_setting_field_name f)
             @ string_member ''value'' (string_bytes v)), h)
      | RECORD_NONE \<Rightarrow> ((OI_ERR_INVAL, w), h))"

text \<open>The \<open>double\<close> that the version of a valid record, 1, is written as.\<close>

definition schema_version :: double where
  "schema_version = 0x3FF0000000000000"

definition oi_cli_history_record_encode :: "fmt \<Rightarrow> heap \<Rightarrow> oi_cli_history_record \<Rightarrow> bytes alloc" where
  "oi_cli_history_record_encode fmt h r =
     (if \<not> oi_cli_history_record_is_valid r then (Inl OI_ERR_INVAL, h)
      else (case record_kind_name (body r) of
        None \<Rightarrow> (Inl OI_ERR_INVAL, h)
      | Some kind \<Rightarrow>
          (case oi_json_writer_create (heap_child h) of
             None \<Rightarrow> (Inl OI_ERR_NOMEM, heap_rest h)
           | Some w \<Rightarrow>
               (case write_calls fmt w ([W_object_begin, W_key (bytes_of ''version''), W_number schema_version]
                       @ uint64_member ''record_id'' (record_id r) @ uint64_member ''turn_id'' (turn_id r)
                       @ string_member ''type'' kind) of (st, w) \<Rightarrow>
               (case (if st = OI_OK then write_payload fmt (heap_rest h) w r else ((st, w), heap_rest h)) of (r, h) \<Rightarrow>
               (case wr_then r oi_json_write_object_end of (st, w) \<Rightarrow>
                  (let json = oi_json_writer_data w in
                   if st \<noteq> OI_OK then (Inl st, h)
                   else if length json > history_max_record then (Inl OI_ERR_NOMEM, h)
                   else alloc_try h json)))))))"

section \<open>Decoding\<close>

definition string_equals :: "bytes \<Rightarrow> string \<Rightarrow> bool" where
  "string_equals v expected \<longleftrightarrow> v = bytes_of expected"

definition get_string_field :: "oi_json_value \<Rightarrow> string \<Rightarrow> oi_status + bytes" where
  "get_string_field obj key =
     (case oi_json_object_get (Some obj) (bytes_of key) of
        None \<Rightarrow> Inl OI_ERR_PARSE
      | Some v \<Rightarrow> (case oi_json_get_string (Some v) of Inl _ \<Rightarrow> Inl OI_ERR_PARSE | Inr s \<Rightarrow> Inr s))"

text \<open>The loop over the digits.\<close>

fun parse_digits :: "uint64 \<Rightarrow> bytes \<Rightarrow> oi_status + uint64" where
  "parse_digits n [] = Inr n"
| "parse_digits n (c # cs) =
     (if c < 0x30 \<or> c > 0x39 then Inl OI_ERR_PARSE
      else let digit = ucast (c - 0x30) in
        if n > (uint64_max - digit) div 10 then Inl OI_ERR_PARSE else parse_digits (n * 10 + digit) cs)"

definition parse_uint64_field :: "oi_json_value \<Rightarrow> string \<Rightarrow> oi_status + uint64" where
  "parse_uint64_field obj key =
     (case get_string_field obj key of
        Inl _ \<Rightarrow> Inl OI_ERR_PARSE
      | Inr t \<Rightarrow>
          if length t = 0 \<or> length t > 20 \<or> length t > 1 \<and> t ! 0 = 0x30 then Inl OI_ERR_PARSE
          else parse_digits 0 t)"

definition parse_source :: "oi_json_value \<Rightarrow> oi_status + message_source" where
  "parse_source obj =
     (case get_string_field obj ''source'' of
        Inl _ \<Rightarrow> Inl OI_ERR_PARSE
      | Inr s \<Rightarrow> if string_equals s ''normal'' then Inr MESSAGE_NORMAL
                 else if string_equals s ''repair'' then Inr MESSAGE_REPAIR
                 else Inl OI_ERR_PARSE)"

fun parse_calls :: "heap \<Rightarrow> oi_cli_message \<Rightarrow> oi_json_value list \<Rightarrow> oi_cli_message alloc" where
  "parse_calls h m [] = (Inr m, h)"
| "parse_calls h m (call # calls) =
     (if oi_json_type_of call \<noteq> OI_JSON_OBJECT \<or> oi_json_object_len (Some call) \<noteq> 3 then (Inl OI_ERR_PARSE, h)
      else alloc_then (get_string_field call ''id'', h) (\<lambda>i h.
        alloc_then (get_string_field call ''name'', h) (\<lambda>name h.
        alloc_then (get_string_field call ''arguments'', h) (\<lambda>arguments h.
          (case oi_cli_message_add_tool_call h m i name arguments of
             (Inl st, h) \<Rightarrow> (Inl (if st = OI_ERR_NOMEM then st else OI_ERR_PARSE), h)
           | (Inr m, h) \<Rightarrow> parse_calls h m calls)))))"

definition parse_tool_calls :: "heap \<Rightarrow> oi_json_value \<Rightarrow> oi_cli_message \<Rightarrow> oi_cli_message alloc" where
  "parse_tool_calls h obj m =
     (case oi_json_object_get (Some obj) (bytes_of ''tool_calls'') of
        Some (JSON_ARRAY calls _) \<Rightarrow> if calls = [] then (Inl OI_ERR_PARSE, h) else parse_calls h m calls
      | _ \<Rightarrow> (Inl OI_ERR_PARSE, h))"

definition inval_to_parse :: "'a alloc \<Rightarrow> 'a alloc" where
  "inval_to_parse r = (case r of (Inl st, h) \<Rightarrow> (Inl (if st = OI_ERR_INVAL then OI_ERR_PARSE else st), h) | (Inr x, h) \<Rightarrow> (Inr x, h))"

text \<open>The parts of \<open>decode_message\<close>: its end, an assistant's message, a tool's result.\<close>

definition finish_message ::
  "heap \<Rightarrow> uint64 \<Rightarrow> uint64 \<Rightarrow> oi_cli_message \<Rightarrow> message_source \<Rightarrow> bytes option \<Rightarrow> tool_outcome \<Rightarrow> bytes option
     \<Rightarrow> oi_cli_history_record alloc" where
  "finish_message h i t m source model outcome raw =
     inval_to_parse (oi_cli_history_record_set_message h i t m source model outcome raw)"

definition decode_assistant ::
  "heap \<Rightarrow> oi_json_value \<Rightarrow> uint64 \<Rightarrow> uint64 \<Rightarrow> bytes \<Rightarrow> message_source \<Rightarrow> oi_cli_history_record alloc" where
  "decode_assistant h obj i t content source =
     (let calls = oi_json_object_get (Some obj) (bytes_of ''tool_calls'');
          len = oi_json_object_len (Some obj) in
      alloc_then
        (if source = MESSAGE_NORMAL then
           (if len \<noteq> (if calls = None then 8 else 9) then Inl OI_ERR_PARSE
            else map_sum id Some (get_string_field obj ''model''))
         else if len \<noteq> 7 \<or> calls \<noteq> None then Inl OI_ERR_PARSE
         else Inr None, h) (\<lambda>model h.
      alloc_then (oi_cli_message_set_assistant h content) (\<lambda>m h.
      alloc_then (if calls \<noteq> None then parse_tool_calls h obj m else (Inr m, h)) (\<lambda>m h.
        finish_message h i t m source model TOOL_OUTCOME_NONE None))))"

definition parse_outcome :: "bytes \<Rightarrow> oi_status + tool_outcome" where
  "parse_outcome s =
     (if string_equals s ''completed'' then Inr TOOL_COMPLETED
      else if string_equals s ''outcome_unknown'' then Inr TOOL_OUTCOME_UNKNOWN
      else if string_equals s ''not_executed'' then Inr TOOL_NOT_EXECUTED
      else Inl OI_ERR_PARSE)"

definition decode_raw ::
  "heap \<Rightarrow> oi_json_value \<Rightarrow> message_source \<Rightarrow> tool_outcome \<Rightarrow> bytes option alloc" where
  "decode_raw h obj source outcome =
     (let raw_value = oi_json_object_get (Some obj) (bytes_of ''raw_output_base64'') in
      if source = MESSAGE_NORMAL then
        (if outcome = TOOL_COMPLETED \<and> raw_value = None \<or> outcome = TOOL_NOT_EXECUTED \<and> raw_value \<noteq> None
         then (Inl OI_ERR_PARSE, h)
         else if raw_value \<noteq> None then
           alloc_then (get_string_field obj ''raw_output_base64'', h) (\<lambda>encoded h.
           alloc_then (base64_decode h encoded) (\<lambda>raw h. (Inr (Some raw), h)))
         else (Inr None, h))
      else if outcome \<noteq> TOOL_OUTCOME_UNKNOWN \<and> outcome \<noteq> TOOL_NOT_EXECUTED then (Inl OI_ERR_PARSE, h)
      else (Inr None, h))"

definition decode_tool ::
  "heap \<Rightarrow> oi_json_value \<Rightarrow> uint64 \<Rightarrow> uint64 \<Rightarrow> bytes \<Rightarrow> message_source \<Rightarrow> oi_cli_history_record alloc" where
  "decode_tool h obj i t content source =
     (let raw_value = oi_json_object_get (Some obj) (bytes_of ''raw_output_base64'') in
      if oi_json_object_len (Some obj) \<noteq> (if raw_value = None then 9 else 10) then (Inl OI_ERR_PARSE, h)
      else alloc_then (get_string_field obj ''tool_call_id'', h) (\<lambda>tool_call_id h.
        alloc_then (get_string_field obj ''tool_outcome'', h) (\<lambda>outcome h.
        alloc_then (parse_outcome outcome, h) (\<lambda>outcome h.
        alloc_then (decode_raw h obj source outcome) (\<lambda>raw h.
        alloc_then (oi_cli_message_set_tool h tool_call_id content) (\<lambda>m h.
          finish_message h i t m source None outcome raw))))))"

definition decode_message :: "heap \<Rightarrow> oi_json_value \<Rightarrow> uint64 \<Rightarrow> uint64 \<Rightarrow> oi_cli_history_record alloc" where
  "decode_message h obj i t =
     alloc_then (get_string_field obj ''role'', h) (\<lambda>role h.
     alloc_then (get_string_field obj ''content'', h) (\<lambda>content h.
     alloc_then (parse_source obj, h) (\<lambda>source h.
       if string_equals role ''user'' then
         (if oi_json_object_len (Some obj) \<noteq> 7 \<or> source \<noteq> MESSAGE_NORMAL then (Inl OI_ERR_PARSE, h)
          else alloc_then (oi_cli_message_set_user h content) (\<lambda>m h.
            finish_message h i t m source None TOOL_OUTCOME_NONE None))
       else if string_equals role ''assistant'' then decode_assistant h obj i t content source
       else if string_equals role ''tool'' then decode_tool h obj i t content source
       else (Inl OI_ERR_PARSE, h))))"

definition parse_resolution :: "bytes \<Rightarrow> oi_status + queue_resolution" where
  "parse_resolution s =
     (if string_equals s ''consumed'' then Inr QUEUE_CONSUMED
      else if string_equals s ''discarded'' then Inr QUEUE_DISCARDED
      else Inl OI_ERR_PARSE)"

definition parse_setting_field :: "bytes \<Rightarrow> oi_status + session_setting_field" where
  "parse_setting_field s =
     (if string_equals s ''model'' then Inr SETTING_MODEL
      else if string_equals s ''cwd'' then Inr SETTING_CWD
      else Inl OI_ERR_PARSE)"

text \<open>The test of the number of members that each kind of record makes first.\<close>

definition with_members :: "nat \<Rightarrow> heap \<Rightarrow> oi_json_value \<Rightarrow> (heap \<Rightarrow> 'a alloc) \<Rightarrow> 'a alloc" where
  "with_members n h obj k = (if oi_json_object_len (Some obj) = n then k h else (Inl OI_ERR_PARSE, h))"

definition decode_payload :: "heap \<Rightarrow> oi_json_value \<Rightarrow> bytes \<Rightarrow> uint64 \<Rightarrow> uint64 \<Rightarrow> oi_cli_history_record alloc" where
  "decode_payload h obj kind i t = inval_to_parse
     (if string_equals kind ''transition'' then
        with_members 5 h obj (\<lambda>h.
          alloc_then (parse_uint64_field obj ''legacy_record_count'', h) (\<lambda>n h.
            oi_cli_history_record_set_transition h i n))
      else if string_equals kind ''message'' then decode_message h obj i t
      else if string_equals kind ''tool_started'' then
        with_members 5 h obj (\<lambda>h.
          alloc_then (get_string_field obj ''tool_call_id'', h) (\<lambda>s h.
            oi_cli_history_record_set_tool_started h i t s))
      else if string_equals kind ''partial_assistant'' then
        with_members 6 h obj (\<lambda>h.
          alloc_then (get_string_field obj ''content'', h) (\<lambda>content h.
          alloc_then (get_string_field obj ''model'', h) (\<lambda>model h.
            oi_cli_history_record_set_partial_assistant h i t content (Some model))))
      else if string_equals kind ''queued_input'' then
        with_members 5 h obj (\<lambda>h.
          alloc_then (get_string_field obj ''content'', h) (\<lambda>content h.
            oi_cli_history_record_set_queued_input h i t content))
      else if string_equals kind ''queue_resolved'' then
        with_members 6 h obj (\<lambda>h.
          alloc_then (parse_uint64_field obj ''queued_record_id'', h) (\<lambda>q h.
          alloc_then (get_string_field obj ''resolution'', h) (\<lambda>s h.
          alloc_then (parse_resolution s, h) (\<lambda>res h.
            oi_cli_history_record_set_queue_resolved h i t q res))))
      else if string_equals kind ''checkpoint'' then
        with_members 8 h obj (\<lambda>h.
          alloc_then (get_string_field obj ''summary'', h) (\<lambda>s h.
          alloc_then (get_string_field obj ''model'', h) (\<lambda>model h.
          alloc_then (parse_uint64_field obj ''source_first_record_id'', h) (\<lambda>lo h.
          alloc_then (parse_uint64_field obj ''source_last_record_id'', h) (\<lambda>hi h.
            oi_cli_history_record_set_checkpoint h i s (Some model) lo hi)))))
      else if string_equals kind ''session_setting'' then
        with_members 6 h obj (\<lambda>h.
          alloc_then (get_string_field obj ''field'', h) (\<lambda>f h.
          alloc_then (get_string_field obj ''value'', h) (\<lambda>v h.
          alloc_then (parse_setting_field f, h) (\<lambda>f h.
            oi_cli_history_record_set_session_setting h i f v))))
      else (Inl OI_ERR_PARSE, h))"

definition check_version :: "oi_json_value \<Rightarrow> oi_status + unit" where
  "check_version obj =
     (case oi_json_get_number (oi_json_object_get (Some obj) (bytes_of ''version'')) of
        Inl _ \<Rightarrow> Inl OI_ERR_PARSE
      | Inr d \<Rightarrow> if d \<noteq> schema_version then Inl OI_ERR_PARSE else Inr ())"

definition oi_cli_history_record_decode :: "strtod \<Rightarrow> heap \<Rightarrow> bytes \<Rightarrow> oi_cli_history_record alloc" where
  "oi_cli_history_record_decode strtod h json =
     (if length json = 0 \<or> length json > history_max_record then (Inl OI_ERR_INVAL, h)
      else alloc_then (parse_object strtod h history_max_record json) (\<lambda>obj h.
        alloc_then (check_version obj, h) (\<lambda>_ h.
        alloc_then (parse_uint64_field obj ''record_id'', h) (\<lambda>i h.
        alloc_then (parse_uint64_field obj ''turn_id'', h) (\<lambda>t h.
        alloc_then (get_string_field obj ''type'', h) (\<lambda>kind h.
          decode_payload h obj kind i t))))))"

section \<open>The value a record is written as\<close>

abbreviation string_value :: "string \<Rightarrow> bytes \<Rightarrow> bytes \<times> oi_json_value" where
  "string_value key s \<equiv> (bytes_of key, JSON_STRING s)"

abbreviation uint64_value :: "string \<Rightarrow> uint64 \<Rightarrow> bytes \<times> oi_json_value" where
  "uint64_value key n \<equiv> string_value key (decimal (unat n))"

definition call_value :: "oi_cli_tool_call_value \<Rightarrow> oi_json_value" where
  "call_value c = JSON_OBJECT [string_value ''id'' (tc_id c), string_value ''name'' (tc_name c),
                               string_value ''arguments'' (tc_arguments c)]"

definition message_members :: "oi_cli_history_message \<Rightarrow> (bytes \<times> oi_json_value) list" where
  "message_members m =
     [string_value ''role'' (the (message_role_name (msg_role (hm_value m)))),
      string_value ''content'' (string_bytes (msg_content (hm_value m))),
      string_value ''source'' (source_name (hm_source m))]
     @ (case hm_model m of None \<Rightarrow> [] | Some s \<Rightarrow> [string_value ''model'' s])
     @ (if msg_role (hm_value m) = MESSAGE_ASSISTANT \<and> msg_tool_calls (hm_value m) \<noteq> []
        then [(bytes_of ''tool_calls'', JSON_ARRAY (map call_value (msg_tool_calls (hm_value m)))
                (value_cap (length (msg_tool_calls (hm_value m)))))] else [])
     @ (if msg_role (hm_value m) = MESSAGE_TOOL
        then [string_value ''tool_call_id'' (string_bytes (msg_tool_call_id (hm_value m))),
              string_value ''tool_outcome'' (the (tool_outcome_name (hm_outcome m)))]
           @ (case hm_raw m of None \<Rightarrow> [] | Some raw \<Rightarrow> [string_value ''raw_output_base64'' (encode_groups raw)])
        else [])"

definition payload_members :: "record_body \<Rightarrow> (bytes \<times> oi_json_value) list" where
  "payload_members b =
     (case b of
        RECORD_TRANSITION n \<Rightarrow> [uint64_value ''legacy_record_count'' n]
      | RECORD_MESSAGE m \<Rightarrow> message_members m
      | RECORD_TOOL_STARTED i \<Rightarrow> [string_value ''tool_call_id'' (string_bytes i)]
      | RECORD_PARTIAL_ASSISTANT c m \<Rightarrow> [string_value ''content'' (string_bytes c), string_value ''model'' (string_bytes m)]
      | RECORD_QUEUED_INPUT c \<Rightarrow> [string_value ''content'' (string_bytes c)]
      | RECORD_QUEUE_RESOLVED q res \<Rightarrow> [uint64_value ''queued_record_id'' q, string_value ''resolution'' (resolution_name res)]
      | RECORD_CHECKPOINT s m lo hi \<Rightarrow>
          [string_value ''summary'' (string_bytes s), string_value ''model'' (string_bytes m),
           uint64_value ''source_first_record_id'' lo, uint64_value ''source_last_record_id'' hi]
      | RECORD_SESSION_SETTING f v \<Rightarrow>
          [string_value ''field'' (session_setting_field_name f), string_value ''value'' (string_bytes v)]
      | RECORD_NONE \<Rightarrow> [])"

definition record_members :: "oi_cli_history_record \<Rightarrow> (bytes \<times> oi_json_value) list" where
  "record_members r =
     [(bytes_of ''version'', JSON_NUMBER schema_version), uint64_value ''record_id'' (record_id r),
      uint64_value ''turn_id'' (turn_id r), string_value ''type'' (the (record_kind_name (body r)))]
     @ payload_members (body r)"

definition record_value :: "oi_cli_history_record \<Rightarrow> oi_json_value" where
  "record_value r = JSON_OBJECT (record_members r)"

abbreviation members_ops :: "(bytes \<times> oi_json_value) list \<Rightarrow> w_op list" where
  "members_ops ms \<equiv> concat (map (\<lambda>(k, v). W_key k # ops_of v) ms)"

lemma write_append_ok:
  "write_calls fmt w (xs @ ys) = (OI_OK, w') \<longleftrightarrow>
     (\<exists>w1. write_calls fmt w xs = (OI_OK, w1) \<and> write_calls fmt w1 ys = (OI_OK, w'))"
  by (simp add: write_calls_append wr_then_ok)

lemma member_ops:
  "string_member k s = members_ops [string_value k s]" "uint64_member k n = members_ops [uint64_value k n]"
  by (simp_all add: string_member_def uint64_member_def)

lemma tool_calls_ops:
  "write_tool_calls m = members_ops [(bytes_of ''tool_calls'', JSON_ARRAY (map call_value (msg_tool_calls m)) c)]"
  by (simp add: write_tool_calls_def call_value_def string_member_def comp_def)

lemma base64_encode_result: "base64_encode h raw = (Inr e, h') \<Longrightarrow> e = encode_groups raw"
  "base64_encode h raw \<noteq> (Inl OI_OK, h')"
  by (auto simp: base64_encode_def alloc_try_def split: if_splits)

lemma tool_result_ok:
  assumes "write_tool_result fmt h (write_calls fmt w ops) m = ((OI_OK, w'), h')"
  shows "write_calls fmt w (ops @ string_member ''tool_call_id'' (string_bytes (msg_tool_call_id (hm_value m)))
      @ string_member ''tool_outcome'' (the (tool_outcome_name (hm_outcome m)))
      @ (case hm_raw m of None \<Rightarrow> [] | Some raw \<Rightarrow> string_member ''raw_output_base64'' (encode_groups raw)))
    = (OI_OK, w') \<and> tool_outcome_name (hm_outcome m) \<noteq> None"
  using assms
  by (auto simp: write_tool_result_def Let_def wr_then_def write_append_ok
      base64_encode_result
      split: option.splits prod.splits sum.splits if_splits dest!: base64_encode_result(1))

lemma write_message_ok:
  assumes "write_message fmt h w m = ((OI_OK, w'), h')"
  shows "write_calls fmt w (members_ops (message_members m)) = (OI_OK, w')"
proof -
  obtain name where n: "message_role_name (msg_role (hm_value m)) = Some name"
    using assms by (auto simp: write_message_def split: option.splits)
  let ?m = "hm_value m"
  let ?ops = "string_member ''role'' name @ string_member ''content'' (string_bytes (msg_content ?m))
    @ string_member ''source'' (source_name (hm_source m))
    @ (case hm_model m of None \<Rightarrow> [] | Some s \<Rightarrow> string_member ''model'' s)
    @ (if msg_role ?m = MESSAGE_ASSISTANT \<and> msg_tool_calls ?m \<noteq> [] then write_tool_calls ?m else [])"
  have mem: "members_ops (message_members m) = ?ops @ (if msg_role ?m = MESSAGE_TOOL then
      string_member ''tool_call_id'' (string_bytes (msg_tool_call_id ?m))
      @ string_member ''tool_outcome'' (the (tool_outcome_name (hm_outcome m)))
      @ (case hm_raw m of None \<Rightarrow> [] | Some raw \<Rightarrow> string_member ''raw_output_base64'' (encode_groups raw)) else [])"
    by (simp add: message_members_def n member_ops tool_calls_ops [where c = "value_cap (length (msg_tool_calls ?m))"]
        split: option.split)
  show ?thesis
  proof (cases "msg_role ?m = MESSAGE_TOOL")
    case True
    with assms n have "write_tool_result fmt h (write_calls fmt w ?ops) m = ((OI_OK, w'), h')"
      by (simp add: write_message_def)
    from tool_result_ok [OF this] show ?thesis unfolding mem using True by simp
  next
    case False
    with assms n show ?thesis unfolding mem by (simp add: write_message_def)
  qed
qed

lemma write_payload_ok:
  "write_payload fmt h w r = ((OI_OK, w'), h') \<Longrightarrow> write_calls fmt w (members_ops (payload_members (body r))) = (OI_OK, w')"
  by (cases "body r")
     (auto simp: write_payload_def payload_members_def member_ops write_message_ok simp del: write_calls.simps)

lemma encode_result:
  assumes "oi_cli_history_record_encode fmt h r = (Inr t, h')"
  shows "oi_cli_history_record_is_valid r \<and> length t \<le> history_max_record
    \<and> (writable fmt (record_value r) \<longrightarrow> t = render fmt (record_value r))"
proof -
  obtain kind where k: "record_kind_name (body r) = Some kind"
    using assms by (auto simp: oi_cli_history_record_encode_def split: option.splits if_splits)
  let ?head = "[W_object_begin, W_key (bytes_of ''version''), W_number schema_version]
    @ uint64_member ''record_id'' (record_id r) @ uint64_member ''turn_id'' (turn_id r) @ string_member ''type'' kind"
  from assms k obtain w0 w1 w2 w3 h1 where w: "oi_json_writer_create (heap_child h) = Some w0"
    "write_calls fmt w0 ?head = (OI_OK, w1)" "write_payload fmt (heap_rest h) w1 r = ((OI_OK, w2), h1)"
    "oi_json_write_object_end w2 = (OI_OK, w3)" "t = oi_json_writer_data w3"
    and v: "oi_cli_history_record_is_valid r" "length t \<le> history_max_record"
    by (auto simp: oi_cli_history_record_encode_def Let_def wr_then_def
        split: option.splits if_splits prod.splits simp del: write_calls.simps)
  have "write_calls fmt w2 [W_object_end] = (OI_OK, w3)" using w(4) by (simp add: wr_then_def)
  with w(2) write_payload_ok [OF w(3)]
  have c: "write_calls fmt w0 (?head @ members_ops (payload_members (body r)) @ [W_object_end]) = (OI_OK, w3)"
    by (simp only: write_append_ok) blast
  have e: "?head @ members_ops (payload_members (body r)) @ [W_object_end] = ops_of (record_value r)"
    by (simp add: record_value_def record_members_def k string_member_def uint64_member_def)
  from written_text [OF w(1) c [unfolded e]] w(5) v show ?thesis by simp
qed

section \<open>The text of a record fits the arena\<close>

lemma writable_record:
  assumes "printf_strtod_roundtrip fmt strtod" shows "writable fmt (record_value r)"
proof -
  have "isfinite schema_version" by (simp add: isfinite_def schema_version_def)
  with assms have "isfinite schema_version \<and> length (fmt schema_version) < 64"
    by (auto simp: printf_strtod_roundtrip_def number_text_def)
  then show ?thesis
    by (auto simp: record_value_def record_members_def payload_members_def message_members_def call_value_def
        split: record_body.splits option.splits if_splits)
qed

lemma fold_max_one: "fold (\<lambda>x. max (Suc 0)) xs a \<le> max a 1"
proof (induction xs arbitrary: a)
  case (Cons x xs)
  from Cons.IH [of "max (Suc 0) a"] show ?case by simp
qed simp

lemma depth_record: "json_depth (record_value r) \<le> 4"
proof -
  have "fold (\<lambda>x. max (Suc 0)) xs 0 \<le> 2" for xs :: "oi_cli_tool_call_value list"
    using fold_max_one [of xs 0] by simp
  then show ?thesis
    by (auto simp: record_value_def record_members_def payload_members_def message_members_def call_value_def
        comp_def fold_map split: record_body.splits option.splits if_splits)
qed

lemma comma_join_least: "(\<And>x. x \<in> set xs \<Longrightarrow> k \<le> length x) \<Longrightarrow> k * length xs \<le> length (comma_join xs)"
proof (induction xs)
  case (Cons x xs)
  then have "k * length xs \<le> length (comma_join xs)" "k \<le> length x" by simp_all
  then show ?case by (cases "xs = []") (simp_all add: comma_join_Cons)
qed simp

lemma object_fits:
  assumes "length (render fmt (JSON_OBJECT ms)) \<le> N"
    and "\<And>m. m \<in> set ms \<Longrightarrow> length (render fmt (snd m)) + 5 + length (fst m) \<le> N \<Longrightarrow>
      (\<exists>s. snd m = JSON_STRING s) \<or> fits N (snd m)"
  shows "fits N (JSON_OBJECT ms)"
proof -
  have "length (fst m) + 4 \<le> N \<and> fits N (snd m)" if m: "m \<in> set ms" for m
  proof -
    from member_in_text [OF m, of fmt] quote_length [of "fst m"] assms(1)
    have l: "length (render fmt (snd m)) + 5 + length (fst m) \<le> N" by simp
    then show ?thesis
    proof (cases "\<exists>s. snd m = JSON_STRING s")
      case True
      then obtain s where "snd m = JSON_STRING s" by blast
      with l quote_length [of s] show ?thesis by simp
    next
      case False
      with l assms(2) [OF m l] show ?thesis by simp
    qed
  qed
  then show ?thesis by simp
qed

lemma call_length: "34 \<le> length (render fmt (call_value c))"
  using quote_length [of "tc_id c"] quote_length [of "tc_name c"] quote_length [of "tc_arguments c"]
    quote_length [of "bytes_of ''id''"] quote_length [of "bytes_of ''name''"] quote_length [of "bytes_of ''arguments''"]
  by (simp add: call_value_def bytes_of_def)

lemma call_fits: "length (render fmt (call_value c)) \<le> N \<Longrightarrow> fits N (call_value c)"
  unfolding call_value_def by (rule object_fits) auto

lemma calls_fit:
  assumes "length (render fmt (JSON_ARRAY (map call_value cs) c)) + 15 \<le> N" "cs \<noteq> []"
  shows "fits N (JSON_ARRAY (map call_value cs) c)"
proof -
  have l: "length (comma_join (map (render fmt) (map call_value cs))) + 17 \<le> N" using assms(1) by simp
  have "34 * length (map (render fmt) (map call_value cs)) \<le> length (comma_join (map (render fmt) (map call_value cs)))"
    by (rule comma_join_least) (auto simp: call_length)
  with l assms(2) have "16 * length cs + 32 \<le> N" by (cases cs) simp_all
  moreover have "fits N (call_value x)" if "x \<in> set cs" for x
    using l comma_join_length [of "render fmt (call_value x)" "map (render fmt) (map call_value cs)"] that
    by (intro call_fits [where fmt = fmt]) simp
  ultimately show ?thesis by simp
qed

lemma record_fits:
  assumes "length (render fmt (record_value r)) \<le> N" shows "fits N (record_value r)"
  unfolding record_value_def
proof (rule object_fits [OF assms [unfolded record_value_def]])
  fix m assume "m \<in> set (record_members r)" and l: "length (render fmt (snd m)) + 5 + length (fst m) \<le> N"
  then show "(\<exists>s. snd m = JSON_STRING s) \<or> fits N (snd m)"
    by (auto simp: record_members_def payload_members_def message_members_def bytes_of_def simp del: render.simps fits.simps(2,3)
        intro!: calls_fit [where fmt = fmt] split: record_body.splits option.splits if_splits)
qed

section \<open>Reading the members back\<close>

lemma bytes_of_eq: "bytes_of s = bytes_of t \<longleftrightarrow> s = t"
proof -
  have "inj (of_char :: char \<Rightarrow> byte)"
  proof (rule injI)
    fix c d :: char assume "(of_char c :: byte) = of_char d"
    then have "(word_of_nat (of_char c) :: byte) = word_of_nat (of_char d)" unfolding of_nat_of_char .
    then have "(of_char c :: nat) = of_char d" by (simp add: word_of_nat_eq_iff take_bit_nat_eq_self)
    then show "c = d" by simp
  qed
  then show ?thesis by (simp add: bytes_of_def inj_map_eq_map)
qed

lemma get_field:
  "get_string_field (JSON_OBJECT ms) key =
     (case map_of ms (c_string (bytes_of key)) of Some (JSON_STRING s) \<Rightarrow> Inr s | _ \<Rightarrow> Inl OI_ERR_PARSE)"
  by (simp add: get_string_field_def object_scan_map_of split: option.split oi_json_value.split)

lemma key_bytes: "CHR 0x00 \<notin> set key \<Longrightarrow> c_string (bytes_of key) = bytes_of key"
proof (rule c_string_id)
  assume "CHR 0x00 \<notin> set key"
  moreover have "c = CHR 0x00" if "of_char c = (0 :: byte)" for c
    using bytes_of_eq [of "[c]" "[CHR 0x00]"] that by (simp add: bytes_of_def)
  ultimately show "0 \<notin> set (bytes_of key)" by (auto simp: bytes_of_def)
qed

text \<open>The text of a number is read back.\<close>

abbreviation add_digit :: "nat \<Rightarrow> byte \<Rightarrow> nat" where
  "add_digit n d \<equiv> 10 * n + (unat d - 0x30)"

lemma add_digits_mono: "n \<le> foldl add_digit n ds"
proof (induction ds arbitrary: n)
  case (Cons d ds)
  from Cons.IH [of "add_digit n d"] show ?case by simp
qed simp

lemma digit_value: "is_digit d \<Longrightarrow> unat (ucast (d - 0x30) :: uint64) = unat d - 0x30"
proof -
  have "unat d - 0x30 < 2 ^ 64" by (rule le_less_trans [OF diff_le_self less_trans [OF byte_less_256]]) simp
  then show "is_digit d \<Longrightarrow> ?thesis" by (simp add: is_digit_def unat_sub unsigned_ucast_eq take_bit_nat_eq_self)
qed

lemma digit_fits:
  assumes "10 * unat v + unat d < 2 ^ 64"
  shows "unat (v * 10 + d :: uint64) = 10 * unat v + unat d" "\<not> v > (uint64_max - d) div 10"
proof -
  have m: "unat (v * 10) = 10 * unat v" using assms by (subst unat_mult_lem [THEN iffD1]) simp_all
  with assms show "unat (v * 10 + d :: uint64) = 10 * unat v + unat d"
    by (subst unat_add_lem [THEN iffD1]) simp_all
  have "unat uint64_max = 2 ^ 64 - 1" unfolding uint64_max_def by (simp add: unsigned_minus_1_eq_mask mask_eq_exp_minus_1)
  moreover have "unat d < 2 ^ LENGTH(64)" by (rule unsigned_less)
  ultimately have "unat (uint64_max - d) = 2 ^ 64 - 1 - unat d"
    by (subst unat_sub) (simp_all add: word_le_nat_alt)
  with assms show "\<not> v > (uint64_max - d) div 10" by (simp add: word_less_nat_alt unat_div)
qed

lemma parse_digits_ok:
  "list_all is_digit ds \<Longrightarrow> foldl add_digit (unat v) ds < 2 ^ 64 \<Longrightarrow>
   parse_digits v ds = Inr (word_of_nat (foldl add_digit (unat v) ds))"
proof (induction ds arbitrary: v)
  case (Cons d ds)
  have d: "is_digit d" "\<not> (d < 0x30 \<or> d > 0x39)" using Cons.prems(1) by (auto simp: is_digit_def)
  let ?d = "ucast (d - 0x30) :: uint64"
  note u = digit_value [OF d(1)]
  have lt: "10 * unat v + unat ?d < 2 ^ 64"
    using add_digits_mono [of "add_digit (unat v) d" ds] Cons.prems(2) u by simp
  note f = digit_fits [OF lt]
  have "parse_digits (v * 10 + ?d) ds = Inr (word_of_nat (foldl add_digit (add_digit (unat v) d) ds))"
    using Cons.IH [of "v * 10 + ?d"] Cons.prems f(1) u by simp
  then show ?case using d(2) f(2) by (simp add: Let_def)
qed simp

lemma parse_uint64_text:
  assumes "get_string_field obj key = Inr (decimal (unat (n :: uint64)))"
  shows "parse_uint64_field obj key = Inr n"
proof -
  let ?t = "decimal (unat n)"
  have "unat n < 2 ^ LENGTH(64)" by (rule unsigned_less)
  then have u: "unat n < 2 ^ 64" by simp
  have l: "length ?t \<le> 20" by (rule decimal_length) (use u in simp_all)
  have t: "foldl add_digit 0 ?t = unat n" "digits1 ?t" "0 < unat n \<longrightarrow> hd ?t \<noteq> 0x30"
    using decimal_correct [of "unat n"] by (simp_all add: of_decimal_def)
  have "\<not> (length ?t > 1 \<and> ?t ! 0 = 0x30)"
  proof (cases "unat n = 0")
    case True
    then show ?thesis by (subst (1 2) decimal.simps) simp
  next
    case False
    with t(2,3) show ?thesis by (simp add: hd_conv_nth digits1_def)
  qed
  moreover have "parse_digits 0 ?t = Inr n"
    using parse_digits_ok [of ?t 0] t u by (simp add: digits1_def list_all_iff)
  ultimately show ?thesis using assms l t(2) by (simp add: parse_uint64_field_def digits1_def)
qed

lemma inval_to_parse_Inr [simp]: "inval_to_parse (Inr x, h) = (Inr x, h)"
  by (simp add: inval_to_parse_def)

lemma parse_uint64_member:
  assumes "map_of ms (c_string (bytes_of key)) = Some (JSON_STRING (decimal (unat n)))"
  shows "parse_uint64_field (JSON_OBJECT ms) key = Inr n"
  by (rule parse_uint64_text) (simp add: get_field assms)

lemma parse_names [simp]:
  "parse_resolution (resolution_name res) = Inr res" "parse_setting_field (session_setting_field_name f) = Inr f"
  by (cases res; simp add: parse_resolution_def resolution_name_def string_equals_def bytes_of_eq)
     (cases f; simp add: parse_setting_field_def session_setting_field_name_def string_equals_def bytes_of_eq)

lemma decode_other:
  assumes v: "oi_cli_history_record_is_valid r" and m: "\<And>m. body r \<noteq> RECORD_MESSAGE m"
    and s: "record_short r"
  shows "decode_payload heap_ok (record_value r) (the (record_kind_name (body r))) (record_id r) (turn_id r) = (Inr r, heap_ok)"
proof -
  note c = record_clone_ok [OF v s]
  have b: "body_is_valid r" using v by (simp add: oi_cli_history_record_is_valid_def)
  show ?thesis
    using c v b m
    by (cases "body r")
       (auto simp: decode_payload_def record_value_def record_members_def payload_members_def record_kind_name_def
        string_equals_def bytes_of_eq with_members_def get_field key_bytes parse_uint64_member oi_cli_history_record_clone_def
        body_is_valid_def set_within_def nonempty_within_def string_bytes_def split: option.splits)
qed

lemma calls_parsed: "clone_calls h m cs = (Inr m', h') \<Longrightarrow> parse_calls h m (map call_value cs) = (Inr m', h')"
proof (induction cs arbitrary: h m)
  case (Cons c cs)
  then obtain m1 h1 where 1: "oi_cli_message_add_tool_call h m (tc_id c) (tc_name c) (tc_arguments c) = (Inr m1, h1)"
    "clone_calls h1 m1 cs = (Inr m', h')" by auto
  with Cons.IH [OF 1(2)] show ?case
    by (simp add: call_value_def get_field key_bytes bytes_of_eq)
qed simp

lemma parse_source_name: "parse_source (JSON_OBJECT ms) = Inr s"
  if "map_of ms (c_string (bytes_of ''source'')) = Some (JSON_STRING (source_name s))"
  using that by (cases s) (simp_all add: parse_source_def get_field source_name_def string_equals_def bytes_of_eq)

lemma parse_outcome_name: "tool_outcome_name o' = Some s \<Longrightarrow> parse_outcome s = Inr o'"
  by (cases o') (auto simp: parse_outcome_def tool_outcome_name_def string_equals_def bytes_of_eq)

text \<open>The messages that are valid and written but not read back: a repair by the assistant that has tool calls.\<close>

definition repair_with_calls :: "oi_cli_history_record \<Rightarrow> bool" where
  "repair_with_calls r \<longleftrightarrow>
     (case body r of
        RECORD_MESSAGE m \<Rightarrow> hm_source m = MESSAGE_REPAIR \<and> msg_role (hm_value m) = MESSAGE_ASSISTANT
          \<and> msg_tool_calls (hm_value m) \<noteq> []
      | _ \<Rightarrow> False)"

lemma decode_message_ok:
  assumes v: "oi_cli_history_record_is_valid r" and m: "body r = RECORD_MESSAGE m" and s: "record_short r"
    and n: "\<not> repair_with_calls r"
  shows "decode_message heap_ok (record_value r) (record_id r) (turn_id r) = (Inr r, heap_ok)"
proof -
  obtain x source outcome model raw where hm: "m = \<lparr>hm_value = x, hm_source = source, hm_outcome = outcome,
      hm_model = model, hm_raw = raw\<rparr>" by (cases m)
  have b: "history_message_is_valid m" and mv: "oi_cli_message_is_valid x"
    using v m hm by (auto simp: oi_cli_history_record_is_valid_def body_is_valid_def history_message_is_valid_def
        split: if_splits)
  have c: "oi_cli_message_clone heap_ok x = (Inr x, heap_ok)"
    using clone_ok [OF mv] s m hm by (simp add: record_short_def)
  have f: "finish_message heap_ok (record_id r) (turn_id r) x source model outcome raw = (Inr r, heap_ok)"
    using record_clone_ok [OF v s] v m hm by (simp add: finish_message_def oi_cli_history_record_clone_def)
  note vals = record_value_def record_members_def payload_members_def message_members_def message_role_name_def m hm
    get_field key_bytes bytes_of_eq parse_source_name string_bytes_def object_scan_map_of
  from mv show ?thesis
  proof (cases rule: message_valid_eq)
    case (user t)
    with b hm have src: "source = MESSAGE_NORMAL" "model = None" "outcome = TOOL_OUTCOME_NONE" "raw = None"
      by (auto simp: history_message_is_valid_def split: if_splits)
    with user mv c f show ?thesis
      by (simp add: decode_message_def vals string_equals_def oi_cli_message_clone_def)
  next
    case (assistant t cs)
    with b hm n m have src: "source = MESSAGE_NORMAL \<and> model \<noteq> None \<or> source = MESSAGE_REPAIR \<and> model = None"
      "outcome = TOOL_OUTCOME_NONE" "raw = None" "source = MESSAGE_REPAIR \<longrightarrow> cs = []"
      by (auto simp: history_message_is_valid_def repair_with_calls_def split: if_splits)
    from c assistant obtain y where y: "oi_cli_message_set_assistant heap_ok t = (Inr y, heap_ok)"
      "clone_calls heap_ok y cs = (Inr x, heap_ok)"
      using mv by (auto simp: oi_cli_message_clone_def string_bytes_def oi_cli_message_set_assistant_def
          message_set_content_def oi_cli_string_set_def split: if_splits)
    have p: "alloc_then (oi_cli_message_set_assistant heap_ok t)
        (\<lambda>m h. if cs \<noteq> [] then parse_calls h m (map call_value cs) else (Inr m, h)) = (Inr x, heap_ok)"
      using y calls_parsed [OF y(2)] by (cases "cs = []") auto
    from src(1) show ?thesis
      using assistant b f src(2,3,4) p
      by (auto simp: decode_message_def decode_assistant_def parse_tool_calls_def Let_def vals string_equals_def)
  next
    case (tool i t)
    with b hm have raw: "tool_result_is_valid m" by (auto simp: history_message_is_valid_def split: if_splits)
    then obtain name where n: "tool_outcome_name outcome = Some name"
      by (cases outcome) (auto simp: tool_result_is_valid_def tool_outcome_name_def hm split: if_splits)
    have st: "oi_cli_message_set_tool heap_ok i t = (Inr x, heap_ok)"
      using c mv tool by (simp add: oi_cli_message_clone_def string_bytes_def)
    have mo: "model = None" using raw by (auto simp: tool_result_is_valid_def hm split: if_splits)
    have r: "decode_raw heap_ok (record_value r) source outcome = (Inr raw, heap_ok)"
      using raw tool n mo
      by (auto simp: decode_raw_def Let_def vals set_within_def base64_decode_ok tool_result_is_valid_def
          split: if_splits option.splits)
    show ?thesis
      using tool n st f r mo
      by (cases raw) (auto simp: decode_message_def decode_tool_def Let_def vals string_equals_def parse_outcome_name)
  qed
qed

lemma decode_refused:
  assumes v: "oi_cli_history_record_is_valid r" and n: "repair_with_calls r"
  shows "decode_message heap_ok (record_value r) (record_id r) (turn_id r) = (Inl OI_ERR_PARSE, heap_ok)"
proof -
  obtain m where m: "body r = RECORD_MESSAGE m" "hm_source m = MESSAGE_REPAIR" "msg_role (hm_value m) = MESSAGE_ASSISTANT"
    "msg_tool_calls (hm_value m) \<noteq> []" using n by (auto simp: repair_with_calls_def split: record_body.splits)
  with v have "hm_model m = None"
    by (auto simp: oi_cli_history_record_is_valid_def body_is_valid_def history_message_is_valid_def split: if_splits)
  with m show ?thesis
    by (simp add: decode_message_def decode_assistant_def Let_def record_value_def record_members_def payload_members_def
        message_members_def message_role_name_def get_field key_bytes bytes_of_eq parse_source_name string_equals_def
        object_scan_map_of)
qed

lemma fits_call: "fits history_max_record (call_value c) \<Longrightarrow> short (tc_id c) \<and> short (tc_name c) \<and> short (tc_arguments c)"
  by (simp add: call_value_def short_def history_max_record_def size_max_def)

lemma fits_short:
  assumes "fits history_max_record (record_value r)" "oi_cli_history_record_is_valid r"
  shows "record_short r"
proof (cases "body r")
  case (RECORD_MESSAGE m)
  then have "oi_cli_message_is_valid (hm_value m)"
    using assms(2) by (auto simp: oi_cli_history_record_is_valid_def body_is_valid_def history_message_is_valid_def
        split: if_splits)
  then show ?thesis
  proof (cases rule: message_valid_eq)
    case (assistant t cs)
    with assms(1) RECORD_MESSAGE show ?thesis using fits_call
      by (cases "cs = []")
         (auto simp: record_short_def message_short_def record_value_def record_members_def payload_members_def
          message_members_def string_bytes_def short_def history_max_record_def size_max_def sizeof_tool_call_def
          list_all_iff)
  qed (use assms(1) RECORD_MESSAGE in \<open>auto simp: record_short_def message_short_def record_value_def record_members_def
      payload_members_def message_members_def string_bytes_def short_def history_max_record_def size_max_def
      sizeof_tool_call_def\<close>)
qed (simp_all add: record_short_def)

lemma parse_object_text:
  assumes F: "printf_strtod_roundtrip fmt strtod" and n: "32 \<le> n" "n < 2 ^ 62"
    and v: "writable fmt (JSON_OBJECT ms)" "json_depth (JSON_OBJECT ms) \<le> oi_json_max_depth" "fits n (JSON_OBJECT ms)"
  shows "parse_object strtod heap_ok n (render fmt (JSON_OBJECT ms)) = (Inr (JSON_OBJECT ms), heap_ok)"
proof -
  have "0 < n" using n(1) by simp
  then obtain a where a: "oi_arena_create heap_ok (word_of_nat n) = Some a" "roomy n a"
    using block_arena n(2) by blast
  obtain p0 where p0: "oi_json_parser_create heap_ok a = Some p0" using create_room [OF a(2)] by blast
  have "n \<le> size_max div 2" using n(2) by (simp add: size_max_def)
  from json_read_back [OF F p0 a(2) this n(1) v] obtain p q where
    "oi_json_parser_feed strtod p0 (render fmt (JSON_OBJECT ms)) = (OI_OK, p)"
    "oi_json_parser_finish strtod p = (OI_OK, q)" "oi_json_parser_root q = Some (JSON_OBJECT ms)" by blast
  then show ?thesis by (simp add: parse_object_def a(1) p0 is_object_value_def del: render.simps)
qed

lemma parse_record:
  assumes F: "printf_strtod_roundtrip fmt strtod" and l: "length (render fmt (record_value r)) \<le> history_max_record"
  shows "parse_object strtod heap_ok history_max_record (render fmt (record_value r)) = (Inr (record_value r), heap_ok)"
proof -
  have "json_depth (record_value r) \<le> oi_json_max_depth" using depth_record [of r] by (simp add: oi_json_max_depth_def)
  with parse_object_text [OF F _ _ _ _ record_fits [OF l, unfolded record_value_def]] writable_record [OF F, of r]
  show ?thesis unfolding record_value_def by (simp add: history_max_record_def del: render.simps fits.simps)
qed

lemma head_members:
  "check_version (record_value r) = Inr ()" "parse_uint64_field (record_value r) ''record_id'' = Inr (record_id r)"
  "parse_uint64_field (record_value r) ''turn_id'' = Inr (turn_id r)"
  "get_string_field (record_value r) ''type'' = Inr (the (record_kind_name (body r)))"
  by (simp_all add: record_value_def record_members_def check_version_def get_field key_bytes bytes_of_eq
      parse_uint64_member object_scan_map_of)

lemma decode_record_value:
  assumes F: "printf_strtod_roundtrip fmt strtod" and l: "length (render fmt (record_value r)) \<le> history_max_record"
  shows "oi_cli_history_record_decode strtod heap_ok (render fmt (record_value r))
    = decode_payload heap_ok (record_value r) (the (record_kind_name (body r))) (record_id r) (turn_id r)"
proof -
  have "render fmt (record_value r) \<noteq> []" by (simp add: record_value_def)
  with l parse_record [OF F l] show ?thesis by (simp add: oi_cli_history_record_decode_def head_members)
qed

text \<open>While memory lasts, a valid record of at most 8 MiB is written.\<close>

lemma write_tool_result_done:
  assumes "tool_outcome_name (hm_outcome m) = Some name" "\<And>raw. hm_raw m = Some raw \<Longrightarrow> length raw \<le> history_max_content"
    and "write_calls fmt w (ops @ string_member ''tool_call_id'' (string_bytes (msg_tool_call_id (hm_value m)))
      @ string_member ''tool_outcome'' name
      @ (case hm_raw m of None \<Rightarrow> [] | Some raw \<Rightarrow> string_member ''raw_output_base64'' (encode_groups raw)))
    = (OI_OK, w')"
  shows "write_tool_result fmt heap_ok (write_calls fmt w ops) m = ((OI_OK, w'), heap_ok)"
  using assms
  by (cases "hm_raw m")
     (auto simp: write_tool_result_def Let_def wr_then_def write_append_ok base64_encode_ok)

lemma tool_message_valid:
  assumes "history_message_is_valid m" "msg_role (hm_value m) = MESSAGE_TOOL"
  shows "\<exists>name. tool_outcome_name (hm_outcome m) = Some name" "hm_raw m = Some raw \<Longrightarrow> length raw \<le> history_max_content"
  using assms
  by (auto simp: history_message_is_valid_def tool_result_is_valid_def tool_outcome_name_def set_within_def
      split: if_splits tool_outcome.splits)

lemma message_ops:
  "members_ops (message_members m) = (string_member ''role'' (the (message_role_name (msg_role (hm_value m))))
      @ string_member ''content'' (string_bytes (msg_content (hm_value m)))
      @ string_member ''source'' (source_name (hm_source m))
      @ (case hm_model m of None \<Rightarrow> [] | Some s \<Rightarrow> string_member ''model'' s)
      @ (if msg_role (hm_value m) = MESSAGE_ASSISTANT \<and> msg_tool_calls (hm_value m) \<noteq> []
         then write_tool_calls (hm_value m) else []))
    @ (if msg_role (hm_value m) = MESSAGE_TOOL then
        string_member ''tool_call_id'' (string_bytes (msg_tool_call_id (hm_value m)))
        @ string_member ''tool_outcome'' (the (tool_outcome_name (hm_outcome m)))
        @ (case hm_raw m of None \<Rightarrow> [] | Some raw \<Rightarrow> string_member ''raw_output_base64'' (encode_groups raw)) else [])"
  by (simp add: message_members_def member_ops split: option.split)
     (simp add: tool_calls_ops [where c = "value_cap (length (msg_tool_calls (hm_value m)))"])

lemma write_payload_done:
  assumes v: "oi_cli_history_record_is_valid r"
    and w: "write_calls fmt w (members_ops (payload_members (body r))) = (OI_OK, w')"
  shows "write_payload fmt heap_ok w r = ((OI_OK, w'), heap_ok)"
proof (cases "body r")
  case (RECORD_MESSAGE m)
  with v have m: "history_message_is_valid m" by (simp add: oi_cli_history_record_is_valid_def body_is_valid_def)
  then obtain name where n: "message_role_name (msg_role (hm_value m)) = Some name"
    by (auto simp: history_message_is_valid_def oi_cli_message_is_valid_def message_role_name_def
        split: if_splits oi_cli_message_role.splits)
  show ?thesis
  proof (cases "msg_role (hm_value m) = MESSAGE_TOOL")
    case True
    obtain oc where "tool_outcome_name (hm_outcome m) = Some oc" using tool_message_valid(1) [OF m True] by blast
    from write_tool_result_done [OF this tool_message_valid(2) [OF m True]] True RECORD_MESSAGE w n this
    show ?thesis
      by (simp add: write_payload_def write_message_def payload_members_def message_ops)
  next
    case False
    with RECORD_MESSAGE w n show ?thesis
      by (simp add: write_payload_def write_message_def payload_members_def message_ops)
  qed
qed (use assms in \<open>auto simp: write_payload_def payload_members_def member_ops oi_cli_history_record_is_valid_def
      body_is_valid_def simp del: write_calls.simps\<close>)

lemma encode_ok:
  assumes F: "printf_strtod_roundtrip fmt strtod" and v: "oi_cli_history_record_is_valid r"
    and l: "length (render fmt (record_value r)) \<le> history_max_record"
  shows "oi_cli_history_record_encode fmt heap_ok r = (Inr (render fmt (record_value r)), heap_ok)"
proof -
  obtain kind where k: "record_kind_name (body r) = Some kind"
    using v by (cases "body r") (auto simp: oi_cli_history_record_is_valid_def body_is_valid_def record_kind_name_def)
  obtain w0 where w0: "oi_json_writer_create heap_ok = Some w0" by (simp add: oi_json_writer_create_def)
  let ?head = "[W_object_begin, W_key (bytes_of ''version''), W_number schema_version]
    @ uint64_member ''record_id'' (record_id r) @ uint64_member ''turn_id'' (turn_id r) @ string_member ''type'' kind"
  have e: "ops_of (record_value r) = ?head @ members_ops (payload_members (body r)) @ [W_object_end]"
    by (simp add: record_value_def record_members_def k string_member_def uint64_member_def)
  from written_value [OF w0 writable_record [OF F, of r]] l obtain w where
    "write_calls fmt w0 (ops_of (record_value r)) = (OI_OK, w)" "oi_json_writer_data w = render fmt (record_value r)"
    by (auto simp: history_max_record_def text_limit_def size_max_def)
  then obtain w1 w2 where "write_calls fmt w0 ?head = (OI_OK, w1)"
    "write_calls fmt w1 (members_ops (payload_members (body r))) = (OI_OK, w2)"
    "write_calls fmt w2 [W_object_end] = (OI_OK, w)" unfolding e write_append_ok by blast
  moreover from this(3) have "oi_json_write_object_end w2 = (OI_OK, w)"
    by (auto simp: wr_then_def split: prod.splits if_splits)
  ultimately show ?thesis
    using write_payload_done [OF v, of fmt w1 w2] v k w0 l \<open>oi_json_writer_data w = _\<close>
    by (simp add: oi_cli_history_record_encode_def wr_then_def Let_def del: write_calls.simps)
qed

lemma decode_encoded:
  assumes F: "printf_strtod_roundtrip fmt strtod" and e: "oi_cli_history_record_encode fmt h r = (Inr t, h')"
  shows "oi_cli_history_record_decode strtod heap_ok t = (if repair_with_calls r then Inl OI_ERR_PARSE else Inr r, heap_ok)"
proof -
  note w = writable_record [OF F, of r]
  from encode_result [OF e] w have v: "oi_cli_history_record_is_valid r" and l: "length t \<le> history_max_record"
    and t: "t = render fmt (record_value r)" by auto
  note d = decode_record_value [OF F l [unfolded t], folded t]
  note s = fits_short [OF record_fits [OF l [unfolded t]] v]
  show ?thesis
  proof (cases "\<exists>m. body r = RECORD_MESSAGE m")
    case True
    then obtain m where m: "body r = RECORD_MESSAGE m" by blast
    then have "decode_payload heap_ok (record_value r) (the (record_kind_name (body r))) (record_id r) (turn_id r)
        = inval_to_parse (decode_message heap_ok (record_value r) (record_id r) (turn_id r))"
      by (simp add: decode_payload_def record_kind_name_def string_equals_def bytes_of_eq)
    with d decode_message_ok [OF v m s] decode_refused [OF v] show ?thesis by (simp add: inval_to_parse_def)
  next
    case False
    with decode_other [OF v _ s] d show ?thesis by (auto simp: repair_with_calls_def split: record_body.splits)
  qed
qed

text \<open>
  C26. A record that is written is read back. Whatever the allocator answers while a record is encoded: when the
  call succeeds, decoding its text while memory lasts gives the record, with all its fields, or, for a repair by
  the assistant that has tool calls, \<open>OI_ERR_PARSE\<close>: such a record is valid and is written, and its text is
  refused. The C library is assumed to print finite doubles as JSON numbers that \<open>strtod\<close> reads back exactly.
\<close>

theorem record_codec_roundtrip:
  assumes "printf_strtod_roundtrip fmt strtod" and "oi_cli_history_record_encode fmt h r = (Inr t, h')"
  shows "oi_cli_history_record_decode strtod heap_ok t = (if repair_with_calls r then Inl OI_ERR_PARSE else Inr r, heap_ok)"
  by (rule decode_encoded [OF assms])

definition sample_queued :: oi_cli_history_record where
  "sample_queued = \<lparr>rec_version = 1, record_id = 2, turn_id = 1, body = RECORD_QUEUED_INPUT (Some [0x68, 0x0A])\<rparr>"

definition sample_repair_calls :: oi_cli_history_record where
  "sample_repair_calls = \<lparr>rec_version = 1, record_id = 3, turn_id = 1, body = RECORD_MESSAGE
     \<lparr>hm_value = \<lparr>msg_role = MESSAGE_ASSISTANT, msg_content = Some [], msg_tool_call_id = None,
        msg_tool_calls = [\<lparr>tc_id = [0x61], tc_name = [0x62], tc_arguments = [0x7B, 0x7D]\<rparr>]\<rparr>,
      hm_source = MESSAGE_REPAIR, hm_outcome = TOOL_OUTCOME_NONE, hm_model = None, hm_raw = None\<rparr>\<rparr>"

abbreviation sample_fmt :: fmt where "sample_fmt \<equiv> \<lambda>d. decimal (unat d)"
abbreviation sample_strtod :: strtod where "sample_strtod \<equiv> \<lambda>t. (word_of_nat (of_decimal t), length t)"

lemma samples_short:
  "length (render sample_fmt (record_value sample_queued)) \<le> history_max_record"
  "length (render sample_fmt (record_value sample_repair_calls)) \<le> history_max_record"
proof -
  have "length (decimal (unat schema_version)) \<le> 20" by (rule decimal_length) (simp_all add: schema_version_def)
  then show "length (render sample_fmt (record_value sample_queued)) \<le> history_max_record"
    "length (render sample_fmt (record_value sample_repair_calls)) \<le> history_max_record"
    by (simp_all add: record_value_def record_members_def sample_queued_def sample_repair_calls_def payload_members_def
        message_members_def call_value_def record_kind_name_def message_role_name_def source_name_def string_bytes_def
        bytes_of_def quote_def escape_byte_def decimal.simps history_max_record_def)
qed

lemma samples_valid: "oi_cli_history_record_is_valid sample_queued" "oi_cli_history_record_is_valid sample_repair_calls"
  by (simp_all add: sample_queued_def sample_repair_calls_def oi_cli_history_record_is_valid_def body_is_valid_def
      set_within_def history_max_content_def history_message_is_valid_def oi_cli_message_is_valid_def
      call_is_valid_def string_bytes_def)

lemmas samples_encoded =
  encode_ok [OF decimal_roundtrip samples_valid(1) samples_short(1)]
  encode_ok [OF decimal_roundtrip samples_valid(2) samples_short(2)]

lemma samples_kind: "\<not> repair_with_calls sample_queued" "repair_with_calls sample_repair_calls"
  by (simp_all add: repair_with_calls_def sample_queued_def sample_repair_calls_def)

theorem record_codec_roundtrip_witness:
  "\<exists>fmt strtod t u. oi_cli_history_record_encode fmt heap_ok sample_queued = (Inr t, heap_ok)
    \<and> oi_cli_history_record_decode strtod heap_ok t = (Inr sample_queued, heap_ok)
    \<and> oi_cli_history_record_encode fmt heap_ok sample_repair_calls = (Inr u, heap_ok)
    \<and> oi_cli_history_record_decode strtod heap_ok u = (Inl OI_ERR_PARSE, heap_ok)"
  using samples_encoded samples_kind record_codec_roundtrip [OF decimal_roundtrip samples_encoded(1)]
    record_codec_roundtrip [OF decimal_roundtrip samples_encoded(2)]
  by (intro exI [of _ sample_fmt] exI [of _ sample_strtod]) simp

section \<open>What the decoder accepts\<close>

lemma decode_payload_valid:
  assumes "decode_payload h obj kind i t = (Inr r, h')"
  shows "oi_cli_history_record_is_valid r
    \<or> rec_version r = 1 \<and> record_id r \<noteq> 0 \<and> turn_id r = 0 \<and> (\<exists>n. body r = RECORD_TRANSITION n)"
proof -
  have [dest!]: "inval_to_parse x = (Inr r, h') \<Longrightarrow> x = (Inr r, h')" for x :: "oi_cli_history_record alloc"
    by (auto simp: inval_to_parse_def split: prod.splits sum.splits)
  show ?thesis using assms
    by (auto simp: decode_payload_def with_members_def decode_message_def decode_assistant_def decode_tool_def
        finish_message_def Let_def set_transition_result dest!: set_message_result set_other_results
        split: if_splits)
qed

text \<open>
  A record that is read is valid, whatever the text and the allocator: its version is 1, its ids and
  attribution have the shape of its kind, and its strings are within their bounds. The exception is a transition,
  whose count of legacy records the decoder does not compare with its id.
\<close>

theorem decoded_record_valid:
  "oi_cli_history_record_decode strtod h t = (Inr r, h') \<Longrightarrow>
   oi_cli_history_record_is_valid r
   \<or> rec_version r = 1 \<and> record_id r \<noteq> 0 \<and> turn_id r = 0 \<and> (\<exists>n. body r = RECORD_TRANSITION n)"
  by (auto simp: oi_cli_history_record_decode_def split: if_splits dest!: decode_payload_valid)

theorem decoded_record_valid_witness:
  "\<exists>strtod t. oi_cli_history_record_decode strtod heap_ok t = (Inr sample_queued, heap_ok)
    \<and> oi_cli_history_record_is_valid sample_queued"
proof -
  obtain strtod t where d: "oi_cli_history_record_decode strtod heap_ok t = (Inr sample_queued, heap_ok)"
    using decode_encoded [OF decimal_roundtrip samples_encoded(1)] samples_kind by auto
  from decoded_record_valid [OF this] have "oi_cli_history_record_is_valid sample_queued"
    by (simp add: sample_queued_def)
  with d show ?thesis by blast
qed

text \<open>
  What the decoder lets pass. A transition is decoded with any turn id and with any count of legacy records:
  the turn id is dropped, and the record that comes back need not be valid.
\<close>

theorem transition_decoded_unchecked:
  assumes F: "printf_strtod_roundtrip fmt strtod" and i: "i \<noteq> 0"
  shows "oi_cli_history_record_decode strtod heap_ok (render fmt (JSON_OBJECT
      [(bytes_of ''version'', JSON_NUMBER schema_version), uint64_value ''record_id'' i, uint64_value ''turn_id'' t,
       string_value ''type'' (bytes_of ''transition''), uint64_value ''legacy_record_count'' n]))
    = (Inr \<lparr>rec_version = 1, record_id = i, turn_id = 0, body = RECORD_TRANSITION n\<rparr>, heap_ok)"
proof -
  let ?r = "\<lparr>rec_version = 1, record_id = i, turn_id = t, body = RECORD_TRANSITION n\<rparr>"
  let ?v = "record_value ?r"
  have v: "?v = JSON_OBJECT
      [(bytes_of ''version'', JSON_NUMBER schema_version), uint64_value ''record_id'' i, uint64_value ''turn_id'' t,
       string_value ''type'' (bytes_of ''transition''), uint64_value ''legacy_record_count'' n]"
    by (simp add: record_value_def record_members_def payload_members_def record_kind_name_def)
  have q: "length (quote s) \<le> 6 * length s + 2" for s
    by (induction s) (auto simp: quote_def escape_byte_def u_escape_def)
  have d: "length (quote (decimal (unat m))) \<le> 122" for m :: uint64
  proof -
    have "unat m < 2 ^ LENGTH(64)" by (rule unsigned_less)
    then have "length (decimal (unat m)) \<le> 20" by (intro decimal_length) simp_all
    with q [of "decimal (unat m)"] show ?thesis by simp
  qed
  have f: "length (fmt schema_version) < 64" using writable_record [OF F, of ?r] unfolding v by simp
  have "length (render fmt ?v) \<le> 1000"
    unfolding v using d [of i] d [of t] d [of n] f by (simp add: bytes_of_def quote_def escape_byte_def)
  then have l: "length (render fmt ?v) \<le> history_max_record" by (simp add: history_max_record_def)
  have "oi_cli_history_record_decode strtod heap_ok (render fmt ?v)
      = decode_payload heap_ok ?v (bytes_of ''transition'') i t"
    using decode_record_value [OF F l] by (simp add: record_kind_name_def)
  also have "\<dots> = (Inr \<lparr>rec_version = 1, record_id = i, turn_id = 0, body = RECORD_TRANSITION n\<rparr>, heap_ok)"
    unfolding v using i by (simp add: decode_payload_def string_equals_def bytes_of_eq with_members_def get_field key_bytes
        parse_uint64_member oi_cli_history_record_set_transition_def record_begin_def)
  finally show ?thesis unfolding v .
qed

theorem transition_decoded_unchecked_witness:
  "\<exists>fmt strtod. oi_cli_history_record_decode strtod heap_ok (render fmt (JSON_OBJECT
      [(bytes_of ''version'', JSON_NUMBER schema_version), uint64_value ''record_id'' 5, uint64_value ''turn_id'' 9,
       string_value ''type'' (bytes_of ''transition''), uint64_value ''legacy_record_count'' 0]))
    = (Inr \<lparr>rec_version = 1, record_id = 5, turn_id = 0, body = RECORD_TRANSITION 0\<rparr>, heap_ok)
    \<and> \<not> oi_cli_history_record_is_valid \<lparr>rec_version = 1, record_id = 5, turn_id = 0, body = RECORD_TRANSITION 0\<rparr>"
  using transition_decoded_unchecked [OF decimal_roundtrip, of 5 9 0]
  by (intro exI [of _ sample_fmt] exI [of _ sample_strtod])
     (simp add: oi_cli_history_record_is_valid_def body_is_valid_def del: render.simps)

end
