(* ===== verification/History_Store.thy ===== *)
theory History_Store
  imports History_Codec History_Repair Sesslog
begin

text \<open>
  \<open>src/cli_history_store.c\<close>: the records of a log file, kept in memory and replayed with every record that is appended. The log is
  the content of its file, changed by the system calls whose answers are an argument.
\<close>

record history_store =
  legacy_messages :: oi_cli_message_list
  typed_history :: oi_cli_history

definition oi_cli_history_store_init :: history_store where
  "oi_cli_history_store_init = \<lparr>legacy_messages = oi_cli_message_list_init, typed_history = oi_cli_history_init\<rparr>"

section \<open>Loading\<close>

record load_context =
  lc_store :: history_store
  lc_status :: oi_status
  saw_transition :: bool

definition has_typed_prefix :: "bytes \<Rightarrow> bool" where
  "has_typed_prefix data \<longleftrightarrow> take (length (bytes_of ''{\"version\"'')) data = bytes_of ''{\"version\"''"

definition append_legacy :: "heap \<Rightarrow> history_store \<Rightarrow> bytes \<Rightarrow> history_store alloc" where
  "append_legacy h s data =
     (if length data > history_max_content then (Inl OI_ERR_PARSE, h)
      else alloc_then
        (if length (ml_items (legacy_messages s)) mod 2 = 0 then oi_cli_message_set_user h data
         else oi_cli_message_set_assistant h data) (\<lambda>m h.
      alloc_then (oi_cli_message_list_append_take h (legacy_messages s) m) (\<lambda>l h.
        (Inr (s\<lparr>legacy_messages := l\<rparr>), h))))"

text \<open>\<open>oi_cli_history_append_take\<close> on the store's records.\<close>

definition store_take :: "heap \<Rightarrow> history_store \<Rightarrow> oi_cli_history_record \<Rightarrow> history_store alloc" where
  "store_take h s r =
     alloc_then (oi_cli_history_append_take h (typed_history s) r) (\<lambda>l h. (Inr (s\<lparr>typed_history := l\<rparr>), h))"

text \<open>A record whose decoding succeeded, before the transition has been seen.\<close>

definition load_first :: "heap \<Rightarrow> history_store \<Rightarrow> oi_cli_history_record \<Rightarrow> history_store alloc" where
  "load_first h s r =
     (case body r of
        RECORD_TRANSITION n \<Rightarrow>
          if unat n \<noteq> length (ml_items (legacy_messages s)) then (Inl OI_ERR_PARSE, h) else store_take h s r
      | _ \<Rightarrow> (Inl OI_ERR_PARSE, h))"

definition is_transition :: "record_body \<Rightarrow> bool" where
  "is_transition b \<longleftrightarrow> (case b of RECORD_TRANSITION _ \<Rightarrow> True | _ \<Rightarrow> False)"

definition load_status :: "load_context \<Rightarrow> bool \<Rightarrow> history_store alloc \<Rightarrow> load_context \<times> heap" where
  "load_status c saw r =
     (case r of
        (Inl st, h) \<Rightarrow> (c\<lparr>lc_status := st\<rparr>, h)
      | (Inr s, h) \<Rightarrow> (c\<lparr>lc_store := s, saw_transition := saw\<rparr>, h))"

definition load_record :: "strtod \<Rightarrow> heap \<Rightarrow> load_context \<Rightarrow> bytes \<Rightarrow> load_context \<times> heap" where
  "load_record strtod h c data =
     (if lc_status c \<noteq> OI_OK then (c, h)
      else (case oi_cli_history_record_decode strtod h data of
          (Inr r, h) \<Rightarrow>
            if \<not> saw_transition c then load_status c True (load_first h (lc_store c) r)
            else if is_transition (body r) then (c\<lparr>lc_status := OI_ERR_PARSE\<rparr>, h)
            else load_status c True (store_take h (lc_store c) r)
        | (Inl st, h) \<Rightarrow>
            if \<not> saw_transition c \<and> (st = OI_ERR_PARSE \<or> st = OI_ERR_INVAL) then
              (if has_typed_prefix data then (c\<lparr>lc_status := OI_ERR_PARSE\<rparr>, h)
               else load_status c False (append_legacy h (lc_store c) data))
            else (c\<lparr>lc_status := st\<rparr>, h)))"

text \<open>The calls that \<open>oi_sesslog_replay\<close> makes of its callback.\<close>

fun load_records :: "strtod \<Rightarrow> heap \<Rightarrow> load_context \<Rightarrow> bytes list \<Rightarrow> load_context \<times> heap" where
  "load_records strtod h c [] = (c, h)"
| "load_records strtod h c (d # ds) = (case load_record strtod h c d of (c, h) \<Rightarrow> load_records strtod h c ds)"

definition load_init :: load_context where
  "load_init = \<lparr>lc_store = oi_cli_history_store_init, lc_status = OI_OK, saw_transition = False\<rparr>"

definition store_replay :: "strtod \<Rightarrow> heap \<Rightarrow> history_store \<Rightarrow> replay_state alloc" where
  "store_replay strtod h s =
     oi_cli_history_replay strtod h (ml_items (legacy_messages s)) (hist_records (typed_history s))"

definition oi_cli_history_store_load ::
  "strtod \<Rightarrow> syscalls \<Rightarrow> heap \<Rightarrow> bytes \<Rightarrow> (history_store \<times> replay_state) alloc" where
  "oi_cli_history_store_load strtod c h log =
     (case oi_sesslog_replay c log of (st, ds) \<Rightarrow>
      (case load_records strtod h load_init ds of (ctx, h) \<Rightarrow>
         if st \<noteq> OI_OK then (Inl st, h)
         else if lc_status ctx \<noteq> OI_OK then (Inl (lc_status ctx), h)
         else alloc_then (store_replay strtod h (lc_store ctx)) (\<lambda>state h. (Inr (lc_store ctx, state), h))))"

section \<open>Appending\<close>

definition typed_history_pop :: "oi_cli_history \<Rightarrow> oi_cli_history" where
  "typed_history_pop l = (if hist_records l = [] then l else l\<lparr>hist_records := butlast (hist_records l)\<rparr>)"

definition store_pop :: "history_store \<Rightarrow> history_store" where
  "store_pop s = s\<lparr>typed_history := typed_history_pop (typed_history s)\<rparr>"

text \<open>What an append leaves: the status, the store, the caller's replay state and the log.\<close>

record append_result =
  ar_status :: oi_status
  ar_store :: history_store
  ar_state :: replay_state
  ar_log :: bytes
  ar_heap :: heap

text \<open>The end of an append, once the record is in the list: replay, encode, write; or take it out again.\<close>

definition append_durably ::
  "fmt \<Rightarrow> strtod \<Rightarrow> syscalls \<Rightarrow> heap \<Rightarrow> history_store \<Rightarrow> replay_state \<Rightarrow> bytes \<Rightarrow> oi_cli_history_record
     \<Rightarrow> append_result option" where
  "append_durably fmt strtod c h s state log r =
     (let failed = (\<lambda>st log h. \<lparr>ar_status = st, ar_store = store_pop s, ar_state = state, ar_log = log, ar_heap = h\<rparr>) in
      case store_replay strtod h s of
        (Inl st, h) \<Rightarrow> Some (failed st log h)
      | (Inr state', h) \<Rightarrow>
          (case oi_cli_history_record_encode fmt h r of
             (Inl st, h) \<Rightarrow> Some (failed st log h)
           | (Inr json, h) \<Rightarrow>
               (case oi_sesslog_append c log json of
                  None \<Rightarrow> None
                | Some (st, log') \<Rightarrow>
                    Some (if st \<noteq> OI_OK then failed st log' h
                          else \<lparr>ar_status = OI_OK, ar_store = s, ar_state = state', ar_log = log', ar_heap = h\<rparr>))))"

definition oi_cli_history_store_append ::
  "fmt \<Rightarrow> strtod \<Rightarrow> syscalls \<Rightarrow> heap \<Rightarrow> history_store \<Rightarrow> replay_state \<Rightarrow> bytes \<Rightarrow> oi_cli_history_record
     \<Rightarrow> append_result option" where
  "oi_cli_history_store_append fmt strtod c h s state log r =
     (let failed = (\<lambda>st s h. Some \<lparr>ar_status = st, ar_store = s, ar_state = state, ar_log = log, ar_heap = h\<rparr>) in
      if \<not> oi_cli_history_record_is_valid r then failed OI_ERR_INVAL s h
      else (case oi_cli_history_record_clone h r of
          (Inl st, h) \<Rightarrow> failed st s h
        | (Inr clone, h) \<Rightarrow>
            (case oi_cli_history_reserve h (typed_history s) (length (hist_records (typed_history s)) + 1) of
               (Inl st, h) \<Rightarrow> failed st s h
             | (Inr l, h) \<Rightarrow>
                 (case oi_cli_history_append_take h l clone of
                    (Inl st, h) \<Rightarrow> failed st (s\<lparr>typed_history := l\<rparr>) h
                  | (Inr l, h) \<Rightarrow> append_durably fmt strtod c h (s\<lparr>typed_history := l\<rparr>) state log r))))"

section \<open>While memory lasts, it lasts\<close>

lemma set_record_lasts [lasts]:
  "snd (record_finish heap_ok i t b) = heap_ok"
  "snd (oi_cli_history_record_set_transition heap_ok i n) = heap_ok"
  "snd (oi_cli_history_record_set_message heap_ok i t m s model out raw) = heap_ok"
  "snd (oi_cli_history_record_set_tool_started heap_ok i t c) = heap_ok"
  "snd (oi_cli_history_record_set_partial_assistant heap_ok i t c mo) = heap_ok"
  "snd (oi_cli_history_record_set_queued_input heap_ok i t c) = heap_ok"
  "snd (oi_cli_history_record_set_queue_resolved heap_ok i t q res) = heap_ok"
  "snd (oi_cli_history_record_set_checkpoint heap_ok i c mo lo hi) = heap_ok"
  "snd (oi_cli_history_record_set_session_setting heap_ok i f c) = heap_ok"
  by (auto simp: record_finish_def oi_cli_history_record_set_transition_def oi_cli_history_record_set_message_def
      oi_cli_history_record_set_tool_started_def oi_cli_history_record_set_partial_assistant_def
      oi_cli_history_record_set_queued_input_def oi_cli_history_record_set_queue_resolved_def
      oi_cli_history_record_set_checkpoint_def oi_cli_history_record_set_session_setting_def
      set_optional_def set_raw_def bytes_set_def alloc_then_lasts lasts split: sum.split option.split)

lemma base64_decode_lasts [lasts]: "snd (base64_decode heap_ok t) = heap_ok"
  by (simp add: base64_decode_def Let_def)

lemma inval_lasts [lasts]: "snd (inval_to_parse r) = snd r"
  by (auto simp: inval_to_parse_def split: prod.split sum.split)

lemma parse_calls_lasts [lasts]: "snd (parse_calls heap_ok m cs) = heap_ok"
proof (induction cs arbitrary: m)
  case (Cons c cs)
  have "snd (case oi_cli_message_add_tool_call heap_ok m i n a of
      (Inl st, h) \<Rightarrow> (Inl (if st = OI_ERR_NOMEM then st else OI_ERR_PARSE), h)
    | (Inr m, h) \<Rightarrow> parse_calls h m cs) = heap_ok" for i n a
    using message_lasts(5) [of m i n a] Cons.IH
    by (auto split: prod.split sum.split)
  then show ?case by (simp add: alloc_then_lasts)
qed simp

lemma decode_lasts [lasts]: "snd (oi_cli_history_record_decode strtod heap_ok t) = heap_ok"
  by (auto simp: oi_cli_history_record_decode_def decode_payload_def with_members_def decode_message_def
      decode_assistant_def decode_tool_def decode_raw_def finish_message_def parse_tool_calls_def Let_def
      alloc_then_lasts lasts parse_object_lasts split: option.split oi_json_value.split)

lemma take_lasts [lasts]: "snd (oi_cli_history_append_take heap_ok l r) = heap_ok"
  "snd (oi_cli_message_list_append_take heap_ok ml m) = heap_ok"
  by (auto simp: oi_cli_history_append_take_def oi_cli_history_reserve_def oi_cli_message_list_append_take_def
      Let_def alloc_then_lasts)

lemma store_lasts [lasts]: "snd (store_take heap_ok s r) = heap_ok" "snd (append_legacy heap_ok s d) = heap_ok"
  "snd (load_first heap_ok s r) = heap_ok"
  by (auto simp: store_take_def append_legacy_def load_first_def alloc_then_lasts lasts split: record_body.split)

lemma load_status_lasts: "snd (load_status c saw r) = snd r"
  by (auto simp: load_status_def split: prod.split sum.split)

lemma decode_result: obtains x where "oi_cli_history_record_decode strtod heap_ok d = (x, heap_ok)"
  using decode_lasts [of strtod d] by (cases "oi_cli_history_record_decode strtod heap_ok d") auto

lemma load_record_lasts: "snd (load_record strtod heap_ok c d) = heap_ok"
proof -
  obtain x where "oi_cli_history_record_decode strtod heap_ok d = (x, heap_ok)" by (rule decode_result)
  then show ?thesis by (cases x) (simp_all add: load_record_def load_status_lasts lasts)
qed

lemma load_record_result: obtains c' where "load_record strtod heap_ok c d = (c', heap_ok)"
  using load_record_lasts [of strtod c d] by (cases "load_record strtod heap_ok c d") auto

lemma load_records_lasts: "snd (load_records strtod heap_ok c ds) = heap_ok"
proof (induction ds arbitrary: c)
  case (Cons d ds)
  obtain c' where "load_record strtod heap_ok c d = (c', heap_ok)" by (rule load_record_result)
  with Cons show ?case by simp
qed simp

lemma load_records_snoc:
  "load_records strtod heap_ok c (ds @ [d]) = load_record strtod heap_ok (fst (load_records strtod heap_ok c ds)) d"
proof (induction ds arbitrary: c)
  case (Cons e ds)
  obtain c' where "load_record strtod heap_ok c e = (c', heap_ok)" by (rule load_record_result)
  with Cons show ?case by simp
qed (simp add: load_record_lasts split: prod.split)

section \<open>What is loaded\<close>

text \<open>
  As long as the loading goes on, a transition was seen exactly when there is a record, and both lists stay
  within what memory can hold.
\<close>

definition lists_fit :: "history_store \<Rightarrow> bool" where
  "lists_fit s \<longleftrightarrow> length (ml_items (legacy_messages s)) \<le> size_max div sizeof_message
     \<and> length (hist_records (typed_history s)) \<le> size_max div sizeof_record
     \<and> hist_cap (typed_history s) \<le> size_max div sizeof_record"

definition load_ok :: "load_context \<Rightarrow> bool" where
  "load_ok c \<longleftrightarrow> (saw_transition c \<longleftrightarrow> hist_records (typed_history (lc_store c)) \<noteq> []) \<and> lists_fit (lc_store c)"

lemma list_take_bound:
  "oi_cli_message_list_append_take h l m = (Inr l', h') \<Longrightarrow> length (ml_items l) \<le> size_max div sizeof_message \<Longrightarrow>
   length (ml_items l') \<le> size_max div sizeof_message"
  by (auto simp: oi_cli_message_list_append_take_def Let_def split: if_splits)

lemma reserve_bound:
  "oi_cli_history_reserve h l n = (Inr l', h') \<Longrightarrow> hist_cap l \<le> size_max div sizeof_record \<Longrightarrow>
   hist_cap l' \<le> size_max div sizeof_record \<and> n \<le> size_max div sizeof_record \<and> hist_records l' = hist_records l"
  by (auto simp: oi_cli_history_reserve_def Let_def split: if_splits)

lemma store_take_result:
  "store_take h s r = (Inr s', h') \<Longrightarrow>
     hist_records (typed_history s') = hist_records (typed_history s) @ [r] \<and> legacy_messages s' = legacy_messages s
     \<and> (lists_fit s \<longrightarrow> lists_fit s')"
  by (auto simp: store_take_def oi_cli_history_append_take_def lists_fit_def split: if_splits dest: reserve_bound)
     (auto simp: oi_cli_history_reserve_def Let_def split: if_splits)

lemma append_legacy_result:
  "append_legacy h s d = (Inr s', h') \<Longrightarrow> typed_history s' = typed_history s \<and> (lists_fit s \<longrightarrow> lists_fit s')"
  by (auto simp: append_legacy_def lists_fit_def dest!: list_take_bound split: if_splits)

lemma load_first_result: "load_first h s r = (Inr s', h') \<Longrightarrow> store_take h s r = (Inr s', h')"
  by (auto simp: load_first_def split: record_body.splits if_splits)

lemma load_record_ok: "load_ok c \<Longrightarrow> load_record strtod h c d = (c', h') \<Longrightarrow> load_ok c'"
  by (auto simp: load_record_def load_ok_def load_status_def
      dest!: store_take_result append_legacy_result load_first_result split: prod.splits sum.splits if_splits)

lemma load_records_ok: "load_ok c \<Longrightarrow> load_records strtod h c ds = (c', h') \<Longrightarrow> load_ok c'"
  by (induction ds arbitrary: c h) (auto dest: load_record_ok split: prod.splits)

lemma load_init_ok: "load_ok load_init"
  by (simp add: load_init_def load_ok_def lists_fit_def oi_cli_history_store_init_def oi_cli_history_init_def oi_cli_message_list_init_def)

section \<open>A failure has a status\<close>

named_theorems fails \<open>an operation that fails does not answer OI_OK\<close>

lemma alloc_then_fails:
  "fst r \<noteq> Inl OI_OK \<Longrightarrow> (\<And>x h. fst (k x h) \<noteq> Inl OI_OK) \<Longrightarrow> fst (alloc_then r k) \<noteq> Inl OI_OK"
  by (cases r) (auto simp: alloc_then_def split: sum.splits)

lemma alloc_try_fails [fails]: "fst (alloc_try h x) \<noteq> Inl OI_OK"
  by (simp add: alloc_try_def)

lemma message_fails [fails]:
  "fst (oi_cli_string_set h s) \<noteq> Inl OI_OK"
  "fst (oi_cli_message_set_user h s) \<noteq> Inl OI_OK"
  "fst (oi_cli_message_set_assistant h s) \<noteq> Inl OI_OK"
  "fst (oi_cli_message_set_tool h i s) \<noteq> Inl OI_OK"
  "fst (oi_cli_message_add_tool_call h m i s a) \<noteq> Inl OI_OK"
  by (simp_all add: oi_cli_string_set_def oi_cli_message_set_user_def oi_cli_message_set_assistant_def
      oi_cli_message_set_tool_def oi_cli_message_add_tool_call_def message_set_content_def alloc_then_fails fails)

lemma clone_calls_fails [fails]: "fst (clone_calls h m cs) \<noteq> Inl OI_OK"
  by (induction cs arbitrary: h m) (simp_all add: alloc_then_fails fails)

lemma clone_fails [fails]: "fst (oi_cli_message_clone h m) \<noteq> Inl OI_OK"
  by (simp add: oi_cli_message_clone_def alloc_then_fails fails)

lemma set_record_fails [fails]:
  "fst (record_finish h i t b) \<noteq> Inl OI_OK"
  "fst (oi_cli_history_record_clone h r) \<noteq> Inl OI_OK"
  by (auto simp: record_finish_def record_begin_def oi_cli_history_record_clone_def oi_cli_history_record_set_transition_def
      oi_cli_history_record_set_message_def
      oi_cli_history_record_set_tool_started_def oi_cli_history_record_set_partial_assistant_def
      oi_cli_history_record_set_queued_input_def oi_cli_history_record_set_queue_resolved_def
      oi_cli_history_record_set_checkpoint_def oi_cli_history_record_set_session_setting_def
      set_optional_def set_raw_def bytes_set_def alloc_then_fails fails split: sum.split option.split record_body.split)

lemma take_fails [fails]: "fst (oi_cli_history_reserve h l n) \<noteq> Inl OI_OK" "fst (oi_cli_history_append_take h l r) \<noteq> Inl OI_OK"
  by (auto simp: oi_cli_history_append_take_def oi_cli_history_reserve_def Let_def alloc_then_fails fails)

lemma builder_append_fails [fails]: "fst (builder_append h b i m) \<noteq> Inl OI_OK"
  by (auto simp: builder_append_def context_append_def context_reserve_def alloc_then_fails fails split: option.split)

lemma parse_object_fails [fails]: "fst (parse_object strtod h n t) \<noteq> Inl OI_OK"
  by (auto simp: parse_object_def split: option.split prod.split)

lemma collect_fails [fails]: "fst (collect_tools strtod h ts cs) \<noteq> Inl OI_OK"
  by (induction cs arbitrary: h ts) (simp_all add: validate_arguments_def alloc_then_fails fails)

lemma apply_fails [fails]: "fst (apply_typed_record strtod h b r) \<noteq> Inl OI_OK"
  by (cases "body r")
     (auto simp: apply_typed_record_def apply_message_def apply_user_message_def apply_assistant_message_def
      apply_tool_message_def apply_tool_started_def apply_partial_def apply_queued_input_def apply_queue_resolved_def
      apply_checkpoint_def apply_session_setting_def begin_tool_results_def Let_def alloc_then_fails fails
      split: option.split oi_cli_message_role.split)

lemma records_fail [fails]: "fst (replay_records strtod h b prev rs) \<noteq> Inl OI_OK"
  by (induction rs arbitrary: h b prev) (simp_all add: alloc_then_fails fails)

lemma legacy_fails [fails]: "fst (legacy_loop h b i ms) \<noteq> Inl OI_OK"
  by (induction ms arbitrary: h b i) (simp_all add: alloc_then_fails fails)

lemma publish_loop_fails [fails]: "fst (publish_loop h ts) \<noteq> Inl OI_OK"
  by (induction ts arbitrary: h) (simp_all add: alloc_then_fails fails)

lemma replay_fails [fails]: "fst (store_replay strtod h s) \<noteq> Inl OI_OK"
  by (auto simp: store_replay_def oi_cli_history_replay_def apply_legacy_def replay_typed_def publish_def
      publish_unresolved_def Let_def alloc_then_fails fails split: list.split)

lemma encode_fails [fails]: "fst (oi_cli_history_record_encode fmt h r) \<noteq> Inl OI_OK"
  by (auto simp: oi_cli_history_record_encode_def Let_def fails split: option.split prod.split)

lemma fails_Inl: "fst r \<noteq> Inl OI_OK \<Longrightarrow> r = (Inl st, h) \<Longrightarrow> st \<noteq> OI_OK"
  by auto

section \<open>What an append does\<close>

definition same_store :: "history_store \<Rightarrow> history_store \<Rightarrow> bool" where
  "same_store s s' \<longleftrightarrow> legacy_messages s' = legacy_messages s
     \<and> hist_records (typed_history s') = hist_records (typed_history s)"

lemma clone_record_lasts [lasts]: "snd (oi_cli_history_record_clone heap_ok r) = heap_ok"
  by (simp add: oi_cli_history_record_clone_def lasts split: record_body.split)

lemma reserve_lasts [lasts]: "snd (oi_cli_history_reserve heap_ok l n) = heap_ok"
  by (simp add: oi_cli_history_reserve_def Let_def)

lemma reserve_result: "oi_cli_history_reserve h l n = (Inr l', h') \<Longrightarrow> hist_records l' = hist_records l"
  by (auto simp: oi_cli_history_reserve_def Let_def split: if_splits)

lemma durably_cases:
  assumes "append_durably fmt strtod c h s state log r = Some res"
  shows "(\<exists>h1 h2 json. ar_status res = OI_OK \<and> ar_store res = s \<and> store_replay strtod h s = (Inr (ar_state res), h1)
        \<and> oi_cli_history_record_encode fmt h1 r = (Inr json, h2) \<and> oi_sesslog_append c log json = Some (OI_OK, ar_log res))
    \<or> ar_status res \<noteq> OI_OK \<and> ar_store res = store_pop s \<and> ar_state res = state
        \<and> (\<exists>t. torn t \<and> ar_log res = log @ t) \<and> (sys_truncate c \<longrightarrow> ar_log res = log)"
proof (cases "store_replay strtod h s")
  case (Pair x h1)
  show ?thesis
  proof (cases x)
    case (Inl st)
    with Pair fails_Inl [OF replay_fails] assms show ?thesis
      by (auto simp: append_durably_def Let_def intro: exI [of _ "[]"])
  next
    case (Inr state')
    show ?thesis
    proof (cases "oi_cli_history_record_encode fmt h1 r")
      case e: (Pair y h2)
      show ?thesis
      proof (cases y)
        case (Inl st)
        with e Pair Inr fails_Inl [OF encode_fails] assms show ?thesis
          by (auto simp: append_durably_def Let_def intro: exI [of _ "[]"])
      next
        case j: (Inr json)
        with e Pair Inr assms obtain st log' where a: "oi_sesslog_append c log json = Some (st, log')"
          by (auto simp: append_durably_def Let_def split: option.splits)
        with e j Pair Inr assms append_result [OF a] show ?thesis
          by (cases "st = OI_OK") (auto simp: append_durably_def Let_def)
      qed
    qed
  qed
qed

lemma store_append_cases:
  assumes a: "oi_cli_history_store_append fmt strtod c h s state log r = Some res"
  shows "(\<exists>h1 h2 h3 json. ar_status res = OI_OK \<and> oi_cli_history_record_is_valid r
        \<and> legacy_messages (ar_store res) = legacy_messages s
        \<and> hist_records (typed_history (ar_store res)) = hist_records (typed_history s) @ [r]
        \<and> (hist_records (typed_history s) \<noteq> [] \<longrightarrow> next_to (last (hist_records (typed_history s))) r)
        \<and> length (hist_records (typed_history s)) \<noteq> size_max div sizeof_record
        \<and> store_replay strtod h1 (ar_store res) = (Inr (ar_state res), h2) \<and> (h = heap_ok \<longrightarrow> h1 = heap_ok)
        \<and> oi_cli_history_record_encode fmt h2 r = (Inr json, h3)
        \<and> oi_sesslog_append c log json = Some (OI_OK, ar_log res))
    \<or> ar_status res \<noteq> OI_OK \<and> same_store s (ar_store res) \<and> ar_state res = state
        \<and> (\<exists>t. torn t \<and> ar_log res = log @ t) \<and> (sys_truncate c \<longrightarrow> ar_log res = log)"
proof -
  let ?early = "ar_status res \<noteq> OI_OK \<and> same_store s (ar_store res) \<and> ar_state res = state \<and> ar_log res = log"
  have early: ?thesis if ?early using that by (auto intro: exI [of _ "[]"])
  show ?thesis
  proof (cases "oi_cli_history_record_is_valid r")
    case False
    with a have ?early by (auto simp: oi_cli_history_store_append_def same_store_def)
    then show ?thesis by (rule early)
  next
    case v: True
    obtain x h1 where c: "oi_cli_history_record_clone h r = (x, h1)" by fastforce
    show ?thesis
    proof (cases x)
      case (Inl st)
      with a v c fails_Inl [OF set_record_fails(2) c [unfolded Inl]] have ?early
        by (auto simp: oi_cli_history_store_append_def same_store_def)
      then show ?thesis by (rule early)
    next
      case (Inr c')
      with record_clone_result [of h r c' h1] c have c': "oi_cli_history_record_clone h r = (Inr r, h1)" by auto
      let ?l = "typed_history s"
      obtain y h2 where e: "oi_cli_history_reserve h1 ?l (length (hist_records ?l) + 1) = (y, h2)" by fastforce
      show ?thesis
      proof (cases y)
        case (Inl st)
        with a v c' e fails_Inl [OF take_fails(1) e [unfolded Inl]] have ?early
          by (auto simp: oi_cli_history_store_append_def same_store_def)
        then show ?thesis by (rule early)
      next
        case l: (Inr l)
        note rl = reserve_result [OF e [unfolded l]]
        obtain z h3 where t: "oi_cli_history_append_take h2 l r = (z, h3)" by fastforce
        show ?thesis
        proof (cases z)
          case (Inl st)
          with a v c' e l t rl fails_Inl [OF take_fails(2) t [unfolded Inl]] have ?early
            by (auto simp: oi_cli_history_store_append_def same_store_def)
          then show ?thesis by (rule early)
        next
          case l': (Inr l')
          let ?s = "s\<lparr>typed_history := l'\<rparr>"
          from a v c' e l t l' have d: "append_durably fmt strtod c h3 ?s state log r = Some res"
            by (simp add: oi_cli_history_store_append_def)
          from append_take_result [OF t [unfolded l']] rl
          have tl: "hist_records l' = hist_records ?l @ [r]" "hist_records ?l \<noteq> [] \<longrightarrow> next_to (last (hist_records ?l)) r"
            by auto
          have len: "length (hist_records ?l) \<noteq> size_max div sizeof_record"
            using t l' rl by (auto simp: oi_cli_history_append_take_def split: if_splits)
          have h3: "h = heap_ok \<longrightarrow> h3 = heap_ok"
            using c e t clone_record_lasts reserve_lasts take_lasts(1) by (metis snd_conv)
          have "same_store s (store_pop ?s)"
            using tl(1) by (simp add: same_store_def store_pop_def typed_history_pop_def)
          with durably_cases [OF d] tl v len h3 show ?thesis by fastforce
        qed
      qed
    qed
  qed
qed


section \<open>Loading what was appended\<close>

text \<open>What loading a well-formed log gives, on a file that can be read while memory lasts.\<close>

definition readable :: "syscalls \<Rightarrow> bool" where
  "readable c \<longleftrightarrow> sys_fstat c \<and> sys_malloc c = heap_ok \<and> full_reads (sys_pread c)"

definition loaded :: "strtod \<Rightarrow> bytes list \<Rightarrow> history_store \<Rightarrow> bool" where
  "loaded strtod ds s \<longleftrightarrow>
     (\<exists>c. load_records strtod heap_ok load_init ds = (c, heap_ok) \<and> lc_status c = OI_OK \<and> same_store s (lc_store c))"

lemma load_result:
  assumes "list_all valid_record ds" "readable c"
  shows "oi_cli_history_store_load strtod c heap_ok (log_bytes ds) = (Inr (s, st), h) \<longleftrightarrow>
    (\<exists>ctx. load_records strtod heap_ok load_init ds = (ctx, heap_ok) \<and> lc_status ctx = OI_OK \<and> lc_store ctx = s
      \<and> store_replay strtod heap_ok s = (Inr st, h))"
proof -
  obtain ctx where l: "load_records strtod heap_ok load_init ds = (ctx, heap_ok)"
    using load_records_lasts [of strtod load_init ds] by (cases "load_records strtod heap_ok load_init ds") auto
  have r: "oi_sesslog_replay c (log_bytes ds) = (OI_OK, ds)"
    using assms by (auto simp: readable_def intro: replay_log)
  show ?thesis by (auto simp: oi_cli_history_store_load_def r l)
qed

lemma same_replay: "same_store s s' \<Longrightarrow> store_replay strtod h s' = store_replay strtod h s"
  by (simp add: same_store_def store_replay_def)

text \<open>A record that replays in front of others is no transition.\<close>

lemma replay_later:
  assumes "store_replay strtod h s = (Inr st, h')" "hist_records (typed_history s) = rs @ [r]" "rs \<noteq> []"
  shows "\<not> is_transition (body r)"
proof
  assume t: "is_transition (body r)"
  have "replay_records strtod h b prev (qs @ [r]) \<noteq> (Inr b', h')" for b prev qs h b' h'
    using t
  proof (induction qs arbitrary: h b prev)
    case Nil
    then show ?case by (auto simp: apply_typed_record_def is_transition_def split: record_body.splits)
  qed auto
  with assms show False
    by (cases rs) (auto simp: store_replay_def oi_cli_history_replay_def replay_typed_def Let_def split: if_splits)
qed

lemma replay_first:
  assumes "store_replay strtod h s = (Inr st, h')" "hist_records (typed_history s) = [r]"
  shows "body r = RECORD_TRANSITION (word_of_nat (length (ml_items (legacy_messages s))))"
  using assms
  by (auto simp: store_replay_def oi_cli_history_replay_def replay_typed_def Let_def is_transition_to_def split: if_splits)

lemma store_take_ok:
  assumes "oi_cli_history_record_is_valid r" "lists_fit s" "length (hist_records (typed_history s)) \<noteq> size_max div sizeof_record"
    and "hist_records (typed_history s) \<noteq> [] \<longrightarrow> next_to (last (hist_records (typed_history s))) r"
  shows "\<exists>s'. store_take heap_ok s r = (Inr s', heap_ok)"
proof -
  have "length (hist_records (typed_history s)) < size_max div sizeof_record"
    using assms(2,3) by (simp add: lists_fit_def)
  from append_take_ok [OF assms(1,4) this] show ?thesis by (auto simp: store_take_def)
qed

lemma reload_step:
  assumes F: "printf_strtod_roundtrip fmt strtod" and l: "loaded strtod ds s"
    and s': "legacy_messages s' = legacy_messages s" "hist_records (typed_history s') = hist_records (typed_history s) @ [r]"
      "hist_records (typed_history s) \<noteq> [] \<longrightarrow> next_to (last (hist_records (typed_history s))) r"
      "length (hist_records (typed_history s)) \<noteq> size_max div sizeof_record"
    and rep: "store_replay strtod h1 s' = (Inr st, h2)" and e: "oi_cli_history_record_encode fmt h3 r = (Inr json, h4)"
  shows "if repair_with_calls r
    then \<exists>c. load_records strtod heap_ok load_init (ds @ [json]) = (c, heap_ok) \<and> lc_status c = OI_ERR_PARSE
    else loaded strtod (ds @ [json]) s'"
proof -
  obtain ctx where ctx: "load_records strtod heap_ok load_init ds = (ctx, heap_ok)" "lc_status ctx = OI_OK"
    "same_store s (lc_store ctx)" using l by (auto simp: loaded_def)
  let ?t = "lc_store ctx"
  have ok: "saw_transition ctx \<longleftrightarrow> hist_records (typed_history s) \<noteq> []" "lists_fit ?t"
    using load_records_ok [OF load_init_ok ctx(1)] ctx(3) by (auto simp: load_ok_def same_store_def)
  have same: "hist_records (typed_history ?t) = hist_records (typed_history s)" "legacy_messages ?t = legacy_messages s"
    using ctx(3) by (auto simp: same_store_def)
  have v: "oi_cli_history_record_is_valid r" using encode_result [OF e] by simp
  note d = decode_encoded [OF F e]
  have first: "\<exists>n. body r = RECORD_TRANSITION n \<and> unat n = length (ml_items (legacy_messages s))"
    if n: "hist_records (typed_history s) = []"
  proof -
    have "body r = RECORD_TRANSITION (word_of_nat (length (ml_items (legacy_messages s))))"
      using replay_first [OF rep] s'(1,2) n by simp
    moreover have "length (ml_items (legacy_messages s)) < 2 ^ 64"
      using ok(2) same(2) by (simp add: lists_fit_def size_max_def sizeof_message_def)
    ultimately show ?thesis by (simp add: unat_uint64)
  qed
  have later: "\<not> is_transition (body r)" if "hist_records (typed_history s) \<noteq> []"
    by (rule replay_later [OF rep s'(2) that])
  show ?thesis
  proof (cases "repair_with_calls r")
    case True
    with first have "hist_records (typed_history s) \<noteq> []" by (auto simp: repair_with_calls_def)
    with True ctx d ok(1) show ?thesis by (simp add: load_records_snoc load_record_def)
  next
    case False
    from store_take_ok [OF v ok(2)] s'(3,4) same obtain t' where t': "store_take heap_ok ?t r = (Inr t', heap_ok)" by auto
    have "same_store s' t'" using store_take_result [OF t'] s'(1,2) same by (simp add: same_store_def)
    moreover have "\<exists>c. load_record strtod heap_ok ctx json = (c, heap_ok) \<and> lc_status c = OI_OK \<and> lc_store c = t'"
    proof (cases "hist_records (typed_history s) = []")
      case True
      with first same(2) t' have "load_first heap_ok ?t r = (Inr t', heap_ok)" by (auto simp: load_first_def)
      with False True ctx(2) d ok(1) show ?thesis by (simp add: load_record_def load_status_def)
    next
      case nonempty: False
      with False later t' ctx(2) d ok(1) show ?thesis by (simp add: load_record_def load_status_def)
    qed
    ultimately show ?thesis using False ctx(1) by (auto simp: loaded_def load_records_snoc)
  qed
qed

text \<open>A run of appends; there is no result if one never returns.\<close>

fun store_run ::
  "fmt \<Rightarrow> strtod \<Rightarrow> (syscalls \<times> oi_cli_history_record) list \<Rightarrow> history_store \<Rightarrow> replay_state \<Rightarrow> bytes
     \<Rightarrow> (history_store \<times> replay_state \<times> bytes) option" where
  "store_run fmt strtod [] s state log = Some (s, state, log)"
| "store_run fmt strtod ((c, r) # ops) s state log =
     (case oi_cli_history_store_append fmt strtod c heap_ok s state log r of
        None \<Rightarrow> None
      | Some res \<Rightarrow> store_run fmt strtod ops (ar_store res) (ar_state res) (ar_log res))"

definition stored :: "strtod \<Rightarrow> history_store \<Rightarrow> replay_state \<Rightarrow> bytes \<Rightarrow> bool" where
  "stored strtod s state log \<longleftrightarrow>
     (\<exists>ds. log = log_bytes ds \<and> list_all valid_record ds \<and> loaded strtod ds s)
     \<and> store_replay strtod heap_ok s = (Inr state, heap_ok)"

text \<open>An append, successful or not, keeps memory and log in step.\<close>

lemma append_stored:
  assumes F: "printf_strtod_roundtrip fmt strtod" and st: "stored strtod s state log"
    and c: "sys_truncate c" "\<not> repair_with_calls r"
    and a: "oi_cli_history_store_append fmt strtod c heap_ok s state log r = Some res"
  shows "stored strtod (ar_store res) (ar_state res) (ar_log res)"
proof -
  from st obtain ds where ds: "log = log_bytes ds" "list_all valid_record ds" "loaded strtod ds s"
    "store_replay strtod heap_ok s = (Inr state, heap_ok)" by (auto simp: stored_def)
  from store_append_cases [OF a] show ?thesis
  proof (elim disjE exE conjE)
    fix h1 h2 h3 json
    assume b: "legacy_messages (ar_store res) = legacy_messages s"
      "hist_records (typed_history (ar_store res)) = hist_records (typed_history s) @ [r]"
      "hist_records (typed_history s) \<noteq> [] \<longrightarrow> next_to (last (hist_records (typed_history s))) r"
      "length (hist_records (typed_history s)) \<noteq> size_max div sizeof_record"
      and rep: "store_replay strtod h1 (ar_store res) = (Inr (ar_state res), h2)" "heap_ok = heap_ok \<longrightarrow> h1 = heap_ok"
      and e: "oi_cli_history_record_encode fmt h2 r = (Inr json, h3)"
      and w: "oi_sesslog_append c log json = Some (OI_OK, ar_log res)"
    have "loaded strtod (ds @ [json]) (ar_store res)"
      using reload_step [OF F ds(3) b rep(1) e] c by simp
    moreover have "valid_record json" "ar_log res = log_bytes (ds @ [json])"
      using append_result [OF w] ds(1) by (simp_all add: log_bytes_snoc)
    moreover have "store_replay strtod heap_ok (ar_store res) = (Inr (ar_state res), heap_ok)"
      using rep replay_lasts [of strtod] by (metis store_replay_def snd_conv)
    ultimately show ?thesis using ds(2) unfolding stored_def by (intro conjI exI [of _ "ds @ [json]"]) simp_all
  next
    assume "same_store s (ar_store res)" "ar_state res = state" "sys_truncate c \<longrightarrow> ar_log res = log"
    moreover from this have "loaded strtod ds (ar_store res)" using ds(3) by (auto simp: loaded_def same_store_def)
    ultimately show ?thesis using ds same_replay [of s "ar_store res" strtod heap_ok] c
      by (auto simp: stored_def)
  qed
qed

lemma run_stored:
  assumes F: "printf_strtod_roundtrip fmt strtod"
  shows "\<forall>op \<in> set ops. sys_truncate (fst op) \<and> \<not> repair_with_calls (snd op) \<Longrightarrow> stored strtod s state log \<Longrightarrow>
    store_run fmt strtod ops s state log = Some (s', state', log') \<Longrightarrow> stored strtod s' state' log'"
proof (induction ops arbitrary: s state log)
  case (Cons op ops)
  obtain c r where op: "op = (c, r)" by fastforce
  with Cons.prems(3) obtain res where a: "oi_cli_history_store_append fmt strtod c heap_ok s state log r = Some res"
    and run: "store_run fmt strtod ops (ar_store res) (ar_state res) (ar_log res) = Some (s', state', log')"
    by (auto split: option.splits)
  have "stored strtod (ar_store res) (ar_state res) (ar_log res)"
    by (rule append_stored [OF F Cons.prems(2) _ _ a]) (use Cons.prems(1) op in auto)
  with Cons.IH [OF _ this run] Cons.prems(1) show ?case by simp
qed simp

text \<open>What an append that succeeds adds to the context.\<close>

lemma replay_records_snoc:
  "replay_records strtod h b prev (rs @ [r]) = alloc_then (replay_records strtod h b prev rs) (\<lambda>b h.
     replay_records strtod h b (last (prev # rs)) [r])"
proof (induction rs arbitrary: h b prev)
  case (Cons q qs)
  show ?case
  proof (cases "\<not> oi_cli_history_record_is_valid q \<or> record_id q \<noteq> record_id prev + 1")
    case False
    obtain x k where "apply_typed_record strtod h b q = (x, k)" by fastforce
    with Cons.IH False show ?thesis by (cases x) auto
  qed auto
qed simp

definition is_checkpoint :: "record_body \<Rightarrow> bool" where
  "is_checkpoint b \<longleftrightarrow> (case b of RECORD_CHECKPOINT _ _ _ _ \<Rightarrow> True | _ \<Rightarrow> False)"

text \<open>The replay of one record more is the record applied where the replay before it ended.\<close>

lemma replay_one_more:
  assumes "oi_cli_history_replay strtod h legacy typed = (Inr s, h1)"
    and "oi_cli_history_replay strtod h legacy (typed @ [r]) = (Inr s', h2)" and "\<not> is_transition (body r)"
  obtains b b' k k' where "builder_ok b" "oi_cli_history_record_is_valid r" "apply_typed_record strtod k b r = (Inr b', k')"
    "context_items s = context_items (rb_state b)" "context_items s' = context_items (rb_state b')"
    "next_record_id s = record_id r"
proof -
  from assms(1) obtain b1 b h3 h4 where
    f: "apply_legacy h new_builder legacy = (Inr b1, h3)" "replay_typed strtod h3 b1 (word_of_nat (length legacy)) typed = (Inr b, h4)"
      "rebuilt (legacy @ concat (map record_messages typed)) (foldl latest_summary None typed) b"
      "s = published b (last_id legacy typed)" by (rule replay_builder)
  from assms(2) obtain b2 b' h5 h6 where
    g: "apply_legacy h new_builder legacy = (Inr b2, h5)"
      "replay_typed strtod h5 b2 (word_of_nat (length legacy)) (typed @ [r]) = (Inr b', h6)"
      "s' = published b' (last_id legacy (typed @ [r]))" by (rule replay_builder)
  have e: "b2 = b1" "h5 = h3" using f(1) g(1) by simp_all
  show thesis
  proof (cases typed)
    case Nil
    with g(2) assms(3) show ?thesis by (auto simp: replay_typed_def is_transition_to_def is_transition_def split: if_splits)
  next
    case (Cons t ts)
    let ?b = "b1\<lparr>rb_state := (rb_state b1)\<lparr>needs_transition := False\<rparr>\<rparr>"
    from f(2) Cons have r1: "replay_records strtod h3 ?b t ts = (Inr b, h4)" by (auto simp: replay_typed_def split: if_splits)
    from g(2) Cons e have "replay_records strtod h3 ?b t (ts @ [r]) = (Inr b', h6)" by (auto simp: replay_typed_def split: if_splits)
    then have r2: "oi_cli_history_record_is_valid r" "record_id r = record_id (last (t # ts)) + 1"
      "apply_typed_record strtod h4 b r = (Inr b', h6)"
      unfolding replay_records_snoc r1 by (auto split: if_splits)
    show thesis
    proof (rule that)
      show "builder_ok b" using f(3) by (simp add: rebuilt_def)
    qed (use r2 f(4) g(3) Cons in \<open>simp_all add: published_def last_id_def\<close>)
  qed
qed

lemma replay_adds:
  assumes "oi_cli_history_replay strtod h legacy typed = (Inr s, h1)"
    and "oi_cli_history_replay strtod h legacy (typed @ [r]) = (Inr s', h2)" and "\<not> is_transition (body r)" "\<not> is_checkpoint (body r)"
  shows "map ci_message (context_items s') = map ci_message (context_items s) @ record_messages r"
proof -
  from assms(1-3) obtain b b' k k' where b: "builder_ok b" "oi_cli_history_record_is_valid r"
    "apply_typed_record strtod k b r = (Inr b', k')" "context_items s = context_items (rb_state b)"
    "context_items s' = context_items (rb_state b')" by (rule replay_one_more)
  from record_step [OF b(1-3)] assms(4) b(4,5) show ?thesis
    by (auto simp: is_checkpoint_def record_messages_def adds_message_def adds_nothing_def split: record_body.splits)
qed

lemma append_adds:
  assumes "stored strtod s state log" "\<not> is_transition (body r)" "\<not> is_checkpoint (body r)"
    and a: "oi_cli_history_store_append fmt strtod c heap_ok s state log r = Some res"
  shows "map ci_message (context_items (ar_state res))
    = map ci_message (context_items state) @ (if ar_status res = OI_OK then record_messages r else [])"
proof -
  from store_append_cases [OF a] show ?thesis
  proof (elim disjE exE conjE)
    fix h1 h2
    assume "ar_status res = OI_OK" "legacy_messages (ar_store res) = legacy_messages s"
      "hist_records (typed_history (ar_store res)) = hist_records (typed_history s) @ [r]"
      "store_replay strtod h1 (ar_store res) = (Inr (ar_state res), h2)" "heap_ok = heap_ok \<longrightarrow> h1 = heap_ok"
    with assms(1-3) show ?thesis by (auto simp: stored_def store_replay_def intro: replay_adds)
  qed simp
qed

section \<open>Properties\<close>

lemma load_stored:
  assumes "list_all valid_record ds" "readable c" "oi_cli_history_store_load strtod c heap_ok (log_bytes ds) = (Inr (s, state), h)"
  shows "stored strtod s state (log_bytes ds)"
  using load_result [OF assms(1,2), of strtod s state h] assms(1,3) replay_lasts [of strtod]
  unfolding stored_def loaded_def same_store_def store_replay_def by (metis snd_conv)

text \<open>
  C23. The history survives crashes. A log is opened and loaded; records are appended, each append with any answers
  of its system calls but a working roll-back, and each accepted or refused; then the process dies in the middle of
  a write, leaving any torn record behind. When the log is opened and loaded again, while memory lasts, it gives
  the same legacy messages, the same records and the same replay state that the store had when the process died.
  Repairs by the assistant that have tool calls are excluded.
\<close>

theorem history_survives_crash:
  assumes "printf_strtod_roundtrip fmt strtod"
    and "oi_sesslog_open c0 img = (OI_OK, log)" and "readable c1"
    and "oi_cli_history_store_load strtod c1 heap_ok log = (Inr (s, state), h)"
    and "\<forall>op \<in> set ops. sys_truncate (fst op) \<and> \<not> repair_with_calls (snd op)"
    and "store_run fmt strtod ops s state log = Some (s', state', log')"
    and "torn t" and "oi_sesslog_open c2 (log' @ t) = (OI_OK, log2)" and "full_reads (sys_pread c2)"
    and "readable c3"
  shows "\<exists>s2. oi_cli_history_store_load strtod c3 heap_ok log2 = (Inr (s2, state'), heap_ok) \<and> same_store s' s2"
proof -
  obtain ds where ds: "list_all valid_record ds" "log = log_bytes ds" using open_wellformed [OF assms(2)] by auto
  from run_stored [OF assms(1,5) load_stored [OF ds(1) assms(3)]] assms(4,6) ds(2)
  have "stored strtod s' state' log'" by simp
  then obtain es c where es: "log' = log_bytes es" "list_all valid_record es"
    "load_records strtod heap_ok load_init es = (c, heap_ok)" "lc_status c = OI_OK" "same_store s' (lc_store c)"
    "store_replay strtod heap_ok s' = (Inr state', heap_ok)" by (auto simp: stored_def loaded_def)
  have "log2 = log_bytes es" using open_recovers [OF es(2) assms(7,9)] assms(8) es(1) by simp
  with es load_result [OF es(2) assms(10), of strtod "lc_store c" state' heap_ok] same_replay [OF es(5)]
  show ?thesis by auto
qed

text \<open>
  C28. An append is all or nothing, whatever the allocator and the system calls answer. When it succeeds the store
  has exactly the one record more, the published state is the replay of all of it, and the log has the record's
  text behind what it had. Otherwise store and published state are as they were, and so is the log if the roll-back
  worked, while a roll-back that failed leaves no more than a torn record.
\<close>

theorem store_append_atomic:
  assumes "oi_cli_history_store_append fmt strtod c h s state log r = Some res"
  shows "if ar_status res = OI_OK
    then legacy_messages (ar_store res) = legacy_messages s
      \<and> hist_records (typed_history (ar_store res)) = hist_records (typed_history s) @ [r]
      \<and> (\<exists>h1 h2. store_replay strtod h1 (ar_store res) = (Inr (ar_state res), h2))
      \<and> (\<exists>h1 json h2. oi_cli_history_record_encode fmt h1 r = (Inr json, h2) \<and> ar_log res = log @ record_bytes json)
    else same_store s (ar_store res) \<and> ar_state res = state
      \<and> (\<exists>t. torn t \<and> ar_log res = log @ t) \<and> (sys_truncate c \<longrightarrow> ar_log res = log)"
  using store_append_cases [OF assms]
proof (elim disjE exE conjE)
  fix h1 h2 h3 json
  assume *: "ar_status res = OI_OK" "legacy_messages (ar_store res) = legacy_messages s"
    "hist_records (typed_history (ar_store res)) = hist_records (typed_history s) @ [r]"
    "store_replay strtod h1 (ar_store res) = (Inr (ar_state res), h2)"
    "oi_cli_history_record_encode fmt h2 r = (Inr json, h3)" "oi_sesslog_append c log json = Some (OI_OK, ar_log res)"
  from append_result [OF *(6)] have "ar_log res = log @ record_bytes json" by simp
  with * show ?thesis by auto
qed auto

text \<open>
  C29. An append can spoil a session. The history accepts a repair by the assistant that has tool calls: the append
  succeeds and its text is in the log, but loading the log from then on answers \<open>OI_ERR_PARSE\<close>.
\<close>

theorem append_spoils_log:
  assumes F: "printf_strtod_roundtrip fmt strtod" and "oi_sesslog_open c0 img = (OI_OK, log)" and "readable c1"
    and "oi_cli_history_store_load strtod c1 heap_ok log = (Inr (s, state), h)"
    and r: "repair_with_calls r" and a: "oi_cli_history_store_append fmt strtod c heap_ok s state log r = Some res"
    and ok: "ar_status res = OI_OK" and c2: "readable c2"
  shows "oi_cli_history_store_load strtod c2 heap_ok (ar_log res) = (Inl OI_ERR_PARSE, heap_ok)"
proof -
  obtain ds where ds: "list_all valid_record ds" "log = log_bytes ds" using open_wellformed [OF assms(2)] by auto
  have l: "loaded strtod ds s"
    using load_result [OF ds(1) assms(3), of strtod s state h] assms(4) ds(2) by (auto simp: loaded_def same_store_def)
  from store_append_cases [OF a] ok obtain h1 h2 h3 json where
    b: "legacy_messages (ar_store res) = legacy_messages s"
      "hist_records (typed_history (ar_store res)) = hist_records (typed_history s) @ [r]"
      "hist_records (typed_history s) \<noteq> [] \<longrightarrow> next_to (last (hist_records (typed_history s))) r"
      "length (hist_records (typed_history s)) \<noteq> size_max div sizeof_record"
    and rep: "store_replay strtod h1 (ar_store res) = (Inr (ar_state res), h2)"
    and e: "oi_cli_history_record_encode fmt h2 r = (Inr json, h3)"
    and w: "oi_sesslog_append c log json = Some (OI_OK, ar_log res)" by blast
  have v: "list_all valid_record (ds @ [json])" "ar_log res = log_bytes (ds @ [json])"
    using append_result [OF w] ds by (simp_all add: log_bytes_snoc)
  from reload_step [OF F l b rep e] r obtain ctx where
    "load_records strtod heap_ok load_init (ds @ [json]) = (ctx, heap_ok)" "lc_status ctx = OI_ERR_PARSE" by auto
  moreover have "oi_sesslog_replay c2 (log_bytes (ds @ [json])) = (OI_OK, ds @ [json])"
    using c2 v(1) by (auto simp: readable_def intro!: replay_log)
  ultimately show ?thesis by (simp add: oi_cli_history_store_load_def v(2))
qed

section \<open>Witnesses\<close>

text \<open>An append to a well-formed log with memory and a disk that works.\<close>

lemma append_accepted:
  assumes F: "printf_strtod_roundtrip fmt strtod" and v: "oi_cli_history_record_is_valid r" "record_short r"
    and l: "length (render fmt (record_value r)) \<le> history_max_record"
    and n: "hist_records (typed_history s) \<noteq> [] \<longrightarrow> next_to (last (hist_records (typed_history s))) r"
      "length (hist_records (typed_history s)) < size_max div sizeof_record"
    and rep: "oi_cli_history_replay strtod heap_ok (ml_items (legacy_messages s)) (hist_records (typed_history s) @ [r])
      = (Inr state', heap_ok)"
  shows "\<exists>res. oi_cli_history_store_append fmt strtod good_calls heap_ok s state log r = Some res
    \<and> ar_status res = OI_OK \<and> legacy_messages (ar_store res) = legacy_messages s
    \<and> hist_records (typed_history (ar_store res)) = hist_records (typed_history s) @ [r]
    \<and> ar_log res = log @ record_bytes (render fmt (record_value r))"
proof -
  let ?l = "typed_history s"
  have "\<exists>l1. oi_cli_history_reserve heap_ok ?l (length (hist_records ?l) + 1) = (Inr l1, heap_ok)"
    using n(2) by (simp add: oi_cli_history_reserve_def Let_def)
  then obtain l1 where l1: "oi_cli_history_reserve heap_ok ?l (length (hist_records ?l) + 1) = (Inr l1, heap_ok)" by blast
  note rl = reserve_result [OF l1]
  obtain l2 where l2: "oi_cli_history_append_take heap_ok l1 r = (Inr l2, heap_ok)" "hist_records l2 = hist_records ?l @ [r]"
    using append_take_ok [OF v(1), of l1] n rl by auto
  let ?s = "s\<lparr>typed_history := l2\<rparr>"
  have "store_replay strtod heap_ok ?s = (Inr state', heap_ok)" using rep l2(2) by (simp add: store_replay_def)
  moreover have "valid_record (render fmt (record_value r))"
    using l by (simp add: valid_record_def history_max_record_def oi_sesslog_max_record_def)
  ultimately have "append_durably fmt strtod good_calls heap_ok ?s state log r = Some \<lparr>ar_status = OI_OK, ar_store = ?s,
      ar_state = state', ar_log = log @ record_bytes (render fmt (record_value r)), ar_heap = heap_ok\<rparr>"
    by (simp add: append_durably_def Let_def encode_ok [OF F v(1) l] good_append)
  then show ?thesis
    using l1 l2 v record_clone_ok [OF v] by (simp add: oi_cli_history_store_append_def)
qed

abbreviation "sample_open \<equiv> hd sample_log"
abbreviation "sample_turn \<equiv> sample_log ! 1"

lemma sample_records_ok:
  "oi_cli_history_record_is_valid sample_open" "oi_cli_history_record_is_valid sample_turn"
  "record_short sample_open" "record_short sample_turn" "record_short sample_repair_calls"
  by (simp_all add: sample_log_def sample_user_def sample_repair_calls_def oi_cli_history_record_is_valid_def body_is_valid_def
      set_within_def history_max_content_def history_message_is_valid_def oi_cli_message_is_valid_def uint64_max_numeral
      call_is_valid_def string_bytes_def record_short_def message_short_def short_def size_max_def sizeof_tool_call_def)

lemma sample_records_short:
  "length (render sample_fmt (record_value sample_open)) \<le> history_max_record"
  "length (render sample_fmt (record_value sample_turn)) \<le> history_max_record"
proof -
  have "length (decimal (unat schema_version)) \<le> 20" by (rule decimal_length) (simp_all add: schema_version_def)
  then show "length (render sample_fmt (record_value sample_open)) \<le> history_max_record"
    "length (render sample_fmt (record_value sample_turn)) \<le> history_max_record"
    by (simp_all add: record_value_def record_members_def sample_log_def sample_user_def payload_members_def
        message_members_def record_kind_name_def message_role_name_def source_name_def string_bytes_def
        bytes_of_def quote_def escape_byte_def decimal.simps history_max_record_def)
qed

lemma sample_open_replays: "\<exists>s. oi_cli_history_replay strtod heap_ok [] [sample_open] = (Inr s, heap_ok)"
  by (simp add: oi_cli_history_replay_def apply_legacy_def replay_typed_def sample_log_def is_transition_to_def
      oi_cli_history_record_is_valid_def body_is_valid_def uint64_max_numeral new_builder_def
      oi_cli_history_replay_state_init_def publish_def publish_unresolved_def Let_def)

text \<open>A log in which a turn has begun, and the repair that spoils it.\<close>

lemma sample_repair_replays:
  "\<exists>s. oi_cli_history_replay sample_strtod heap_ok [] (sample_log @ [sample_repair_calls]) = (Inr s, heap_ok)"
proof -
  have "parse_object sample_strtod heap_ok (history_max_content + 1) (render sample_fmt (JSON_OBJECT []))
      = (Inr (JSON_OBJECT []), heap_ok)"
    by (rule parse_object_text [OF decimal_roundtrip]) (simp_all add: history_max_content_def oi_json_max_depth_def)
  then have "parse_object sample_strtod heap_ok 1048577 [0x7B, 0x7D] = (Inr (JSON_OBJECT []), heap_ok)"
    by (simp add: history_max_content_def)
  then show ?thesis
    by (simp add: oi_cli_history_replay_def apply_legacy_def replay_typed_def sample_log_def is_transition_to_def
      sample_repair_calls_def call_is_valid_def validate_arguments_def string_contains_nul_def
      oi_cli_history_record_is_valid_def body_is_valid_def history_message_is_valid_def oi_cli_message_is_valid_def
      sample_user_def string_bytes_def history_max_content_def uint64_max_numeral new_builder_def
      oi_cli_history_replay_state_init_def apply_typed_record_def apply_message_def apply_user_message_def
      apply_assistant_message_def begin_tool_results_def sizeof_replay_tool_def oi_cli_message_add_tool_call_def
      builder_append_def context_append_def context_reserve_def grow_cap.simps size_max_def sizeof_context_item_def
      oi_cli_message_clone_def oi_cli_message_set_user_def oi_cli_message_set_assistant_def message_set_content_def
      oi_cli_string_set_def sizeof_tool_call_def sizeof_unresolved_tool_def
      oi_cli_message_init_def publish_def publish_unresolved_def Let_def)
qed

lemma readable_good: "readable good_calls"
  by (simp add: readable_def good_calls_def full_reads_const)

lemma sample_begins:
  "\<exists>s state s' state' log'. oi_cli_history_store_load sample_strtod good_calls heap_ok header_bytes = (Inr (s, state), heap_ok)
    \<and> store_run sample_fmt sample_strtod [(good_calls, sample_open), (good_calls, sample_turn)] s state header_bytes
        = Some (s', state', log')
    \<and> hist_records (typed_history s') = sample_log \<and> legacy_messages s' = legacy_messages oi_cli_history_store_init
    \<and> (\<exists>ds. list_all valid_record ds \<and> log' = log_bytes ds)"
proof -
  let ?s = "oi_cli_history_store_init"
  have e: "header_bytes = log_bytes []" by (simp add: log_bytes_def)
  have i: "ml_items (legacy_messages ?s) = []" "hist_records (typed_history ?s) = []"
    by (simp_all add: oi_cli_history_store_init_def oi_cli_message_list_init_def oi_cli_history_init_def)
  obtain st where "store_replay sample_strtod heap_ok ?s = (Inr st, heap_ok)"
    by (simp add: store_replay_def i oi_cli_history_replay_def apply_legacy_def replay_typed_def new_builder_def
        oi_cli_history_replay_state_init_def publish_def publish_unresolved_def Let_def uint64_max_numeral)
  then have ld: "oi_cli_history_store_load sample_strtod good_calls heap_ok header_bytes = (Inr (?s, st), heap_ok)"
    unfolding e by (subst load_result) (simp_all add: readable_good load_init_def)
  obtain st1 where "oi_cli_history_replay sample_strtod heap_ok [] [sample_open] = (Inr st1, heap_ok)"
    using sample_open_replays by blast
  then obtain res1 where 1: "oi_cli_history_store_append sample_fmt sample_strtod good_calls heap_ok ?s st header_bytes sample_open
      = Some res1" "hist_records (typed_history (ar_store res1)) = [sample_open]"
      "legacy_messages (ar_store res1) = legacy_messages ?s"
      "ar_log res1 = log_bytes [render sample_fmt (record_value sample_open)]"
    using append_accepted [OF decimal_roundtrip sample_records_ok(1,3) sample_records_short(1),
        where s = ?s and state' = st1 and state = st and log = header_bytes] i
    by (auto simp: size_max_def sizeof_record_def log_bytes_def)
  obtain st2 where r2: "oi_cli_history_replay sample_strtod heap_ok [] sample_log = (Inr st2, heap_ok)"
    using sample_replays by blast
  have sl: "[sample_open, sample_turn] = sample_log" "next_to sample_open sample_turn"
    by (simp_all add: sample_log_def next_to_def uint64_max_numeral)
  obtain res2 where 2: "oi_cli_history_store_append sample_fmt sample_strtod good_calls heap_ok (ar_store res1) (ar_state res1)
        (ar_log res1) sample_turn = Some res2" "hist_records (typed_history (ar_store res2)) = sample_log"
      "legacy_messages (ar_store res2) = legacy_messages ?s"
      "ar_log res2 = ar_log res1 @ record_bytes (render sample_fmt (record_value sample_turn))"
    using append_accepted [OF decimal_roundtrip sample_records_ok(2,4) sample_records_short(2),
        where s = "ar_store res1" and state' = st2 and state = "ar_state res1" and log = "ar_log res1"] i 1(2,3) r2 sl
    by (auto simp: size_max_def sizeof_record_def)
  define ds where "ds = [render sample_fmt (record_value sample_open), render sample_fmt (record_value sample_turn)]"
  have "list_all valid_record ds"
    using sample_records_short by (simp add: ds_def valid_record_def history_max_record_def oi_sesslog_max_record_def)
  moreover have "ar_log res2 = log_bytes ds" using 1(4) 2(4) by (simp add: ds_def log_bytes_def)
  ultimately have d: "\<exists>ds. list_all valid_record ds \<and> ar_log res2 = log_bytes ds" by blast
  have "store_run sample_fmt sample_strtod [(good_calls, sample_open), (good_calls, sample_turn)] ?s st header_bytes
      = Some (ar_store res2, ar_state res2, ar_log res2)" using 1(1) 2(1) by simp
  with ld d 2(2,3) show ?thesis by blast
qed

lemma sample_reloads:
  "\<exists>s state log. oi_sesslog_open good_calls log = (OI_OK, log)
    \<and> oi_cli_history_store_load sample_strtod good_calls heap_ok log = (Inr (s, state), heap_ok)
    \<and> hist_records (typed_history s) = sample_log \<and> legacy_messages s = legacy_messages oi_cli_history_store_init"
proof -
  obtain s state s' state' log' ds where b: "oi_cli_history_store_load sample_strtod good_calls heap_ok (log_bytes []) = (Inr (s, state), heap_ok)"
    "store_run sample_fmt sample_strtod [(good_calls, sample_open), (good_calls, sample_turn)] s state (log_bytes [])
        = Some (s', state', log')"
    "hist_records (typed_history s') = sample_log" "legacy_messages s' = legacy_messages oi_cli_history_store_init"
    "list_all valid_record ds" "log' = log_bytes ds"
    using sample_begins by (auto simp: log_bytes_def)
  have n: "\<forall>op \<in> set [(good_calls, sample_open), (good_calls, sample_turn)]. sys_truncate (fst op) \<and> \<not> repair_with_calls (snd op)"
    by (simp add: good_calls_def sample_log_def repair_with_calls_def)
  have "list_all valid_record []" by simp
  from run_stored [OF decimal_roundtrip n load_stored [OF this readable_good b(1)] b(2)] obtain es c where
    es: "log' = log_bytes es" "list_all valid_record es" "load_records sample_strtod heap_ok load_init es = (c, heap_ok)"
    "lc_status c = OI_OK" "same_store s' (lc_store c)" "store_replay sample_strtod heap_ok s' = (Inr state', heap_ok)"
    by (auto simp: stored_def loaded_def)
  then have "oi_cli_history_store_load sample_strtod good_calls heap_ok log' = (Inr (lc_store c, state'), heap_ok)"
    using load_result [OF es(2) readable_good, of sample_strtod "lc_store c" state' heap_ok] same_replay [OF es(5)] by auto
  moreover have "oi_sesslog_open good_calls log' = (OI_OK, log')" using good_open [OF es(2) torn_nil] es(1) by simp
  ultimately show ?thesis using es(5) b(3,4) by (auto simp: same_store_def)
qed

theorem history_survives_crash_witness:
  "\<exists>fmt strtod s state s' state' log' s2. oi_cli_history_store_load strtod good_calls heap_ok header_bytes = (Inr (s, state), heap_ok)
    \<and> store_run fmt strtod [(good_calls, sample_open), (good_calls, sample_turn)] s state header_bytes = Some (s', state', log')
    \<and> hist_records (typed_history s') = sample_log
    \<and> oi_cli_history_store_load strtod good_calls heap_ok log' = (Inr (s2, state'), heap_ok) \<and> same_store s' s2"
proof -
  obtain s state s' state' log' ds where b: "oi_cli_history_store_load sample_strtod good_calls heap_ok header_bytes = (Inr (s, state), heap_ok)"
    "store_run sample_fmt sample_strtod [(good_calls, sample_open), (good_calls, sample_turn)] s state header_bytes
        = Some (s', state', log')"
    "hist_records (typed_history s') = sample_log" "list_all valid_record ds" "log' = log_bytes ds"
    using sample_begins by blast
  define t where "t = take 6 (record_bytes [7, 8, 9])"
  have t: "torn t" unfolding t_def by (rule take_torn) (simp_all add: valid_record_def oi_sesslog_max_record_def)
  have o: "oi_sesslog_open good_calls (log' @ t) = (OI_OK, log')" unfolding b(5) by (rule good_open [OF b(4) t])
  have n: "\<forall>op \<in> set [(good_calls, sample_open), (good_calls, sample_turn)]. sys_truncate (fst op) \<and> \<not> repair_with_calls (snd op)"
    by (simp add: good_calls_def sample_log_def repair_with_calls_def)
  have "\<exists>s2. oi_cli_history_store_load sample_strtod good_calls heap_ok log' = (Inr (s2, state'), heap_ok) \<and> same_store s' s2"
    by (rule history_survives_crash [OF decimal_roundtrip good_open_new readable_good b(1) n b(2) t o _ readable_good])
       (simp add: good_calls_def full_reads_const)
  with b(1-3) show ?thesis by blast
qed

theorem append_spoils_log_witness:
  "\<exists>fmt strtod log s state res. oi_cli_history_store_load strtod good_calls heap_ok log = (Inr (s, state), heap_ok)
    \<and> oi_cli_history_store_append fmt strtod good_calls heap_ok s state log sample_repair_calls = Some res
    \<and> ar_status res = OI_OK
    \<and> oi_cli_history_store_load strtod good_calls heap_ok (ar_log res) = (Inl OI_ERR_PARSE, heap_ok)"
proof -
  obtain s state log where s: "oi_sesslog_open good_calls log = (OI_OK, log)"
    "oi_cli_history_store_load sample_strtod good_calls heap_ok log = (Inr (s, state), heap_ok)"
    "hist_records (typed_history s) = sample_log" "legacy_messages s = legacy_messages oi_cli_history_store_init"
    using sample_reloads by blast
  obtain st where st: "oi_cli_history_replay sample_strtod heap_ok [] (sample_log @ [sample_repair_calls]) = (Inr st, heap_ok)"
    using sample_repair_replays by blast
  have nx: "next_to (last sample_log) sample_repair_calls"
    by (simp add: sample_log_def sample_repair_calls_def next_to_def uint64_max_numeral)
  have "\<exists>res. oi_cli_history_store_append sample_fmt sample_strtod good_calls heap_ok s state log sample_repair_calls = Some res
      \<and> ar_status res = OI_OK"
    using append_accepted [OF decimal_roundtrip samples_valid(2) sample_records_ok(5) samples_short(2),
        where s = s and state' = st and state = state and log = log] s(3,4) st nx
    by (auto simp: size_max_def sizeof_record_def sample_log_def oi_cli_history_store_init_def oi_cli_message_list_init_def)
  then obtain res where a: "oi_cli_history_store_append sample_fmt sample_strtod good_calls heap_ok s state log sample_repair_calls = Some res"
    "ar_status res = OI_OK" by blast
  from append_spoils_log [OF decimal_roundtrip s(1) readable_good s(2) samples_kind(2) a readable_good] s(2) a
  show ?thesis by blast
qed

theorem store_append_atomic_witness:
  "\<exists>fmt strtod state res. oi_cli_history_store_append fmt strtod good_calls heap_ok oi_cli_history_store_init state header_bytes sample_open
      = Some res \<and> ar_status res = OI_OK \<and> hist_records (typed_history (ar_store res)) = [sample_open]"
proof -
  let ?s = oi_cli_history_store_init
  have i: "ml_items (legacy_messages ?s) = []" "hist_records (typed_history ?s) = []"
    by (simp_all add: oi_cli_history_store_init_def oi_cli_message_list_init_def oi_cli_history_init_def)
  obtain st where "oi_cli_history_replay sample_strtod heap_ok [] [sample_open] = (Inr st, heap_ok)"
    using sample_open_replays by blast
  then obtain res where a: "oi_cli_history_store_append sample_fmt sample_strtod good_calls heap_ok ?s st header_bytes sample_open
      = Some res" "ar_status res = OI_OK"
    using append_accepted [OF decimal_roundtrip sample_records_ok(1,3) sample_records_short(1),
        where s = ?s and state' = st and state = st and log = header_bytes] i
    by (auto simp: size_max_def sizeof_record_def)
  from store_append_atomic [OF a(1)] a i show ?thesis by auto
qed

end
