(* ===== verification/Llm.thy ===== *)
theory Llm
  imports Http Sse Json_Roundtrip
begin

text \<open>
  \<open>src/llm.c\<close>: a streaming chat request over one connection. The client's callbacks are functions of the
  client's state that also say whether they called \<open>oi_llm_request_cancel\<close>; \<open>on_delta\<close> and \<open>on_event\<close> may be
  absent. A request that was freed keeps the client's state and nothing else; \<open>rq_misused\<close> records that freed
  memory was used. The connection (\<open>llm_conn.c\<close>) is the list of what it calls back with.
\<close>

section \<open>The client\<close>

record oi_llm_config =
  cfg_host :: "bytes option"
  cfg_port :: "16 word"
  cfg_use_tls :: bool
  cfg_ca_file :: "bytes option"
  cfg_api_key :: "bytes option"
  cfg_path :: "bytes option"
  cfg_timeout_ms :: int

record oi_llm_client =
  cl_host :: bytes
  cl_port :: "16 word"
  cl_use_tls :: bool
  cl_ca_file :: "bytes option"
  cl_api_key :: "bytes option"
  cl_path :: bytes
  cl_timeout_ms :: int

definition valid_http_host :: "bytes \<Rightarrow> bool" where
  "valid_http_host host \<longleftrightarrow> host \<noteq> [] \<and> list_all (\<lambda>p. \<not> (p \<le> 0x20 \<or> p = 0x7F)) host"

definition valid_http_path :: "bytes \<Rightarrow> bool" where
  "valid_http_path path \<longleftrightarrow> path \<noteq> [] \<and> hd path = 0x2F \<and> list_all (\<lambda>p. \<not> (p \<le> 0x20 \<or> p = 0x7F)) path"

definition valid_http_field_value :: "bytes \<Rightarrow> bool" where
  "valid_http_field_value v \<longleftrightarrow> list_all (\<lambda>p. \<not> (p < 0x20 \<or> p = 0x7F)) v"

text \<open>The client and its four strings are requested one after the other, absent ones not at all.\<close>

definition strdup_opt :: "heap \<Rightarrow> bytes option \<Rightarrow> bytes option alloc" where
  "strdup_opt h s = (case s of None \<Rightarrow> (Inr None, h) | Some s \<Rightarrow> alloc_try h (Some s))"

definition oi_llm_client_create :: "heap \<Rightarrow> oi_llm_config \<Rightarrow> oi_llm_client option" where
  "oi_llm_client_create h cfg =
     (case (cfg_host cfg, cfg_path cfg) of
        (Some host, Some path) \<Rightarrow>
          if cfg_port cfg = 0 \<or> cfg_timeout_ms cfg < 0 \<or> \<not> valid_http_host host \<or> \<not> valid_http_path path
             \<or> (case cfg_api_key cfg of None \<Rightarrow> False | Some k \<Rightarrow> \<not> valid_http_field_value k) then None
          else if \<not> shd h then None
          else (case strdup_opt (stl h) (Some host) of (c_host, h) \<Rightarrow>
               (case strdup_opt h (Some path) of (c_path, h) \<Rightarrow>
               (case strdup_opt h (cfg_ca_file cfg) of (c_ca, h) \<Rightarrow>
               (case strdup_opt h (cfg_api_key cfg) of (c_key, h) \<Rightarrow>
                 (case (c_host, c_path, c_ca, c_key) of
                    (Inr _, Inr _, Inr ca, Inr key) \<Rightarrow>
                      Some \<lparr>cl_host = host, cl_port = cfg_port cfg, cl_use_tls = cfg_use_tls cfg, cl_ca_file = ca,
                            cl_api_key = key, cl_path = path, cl_timeout_ms = cfg_timeout_ms cfg\<rparr>
                  | _ \<Rightarrow> None)))))
      | _ \<Rightarrow> None)"

section \<open>The request\<close>

definition oi_llm_max_error_body :: nat where
  "oi_llm_max_error_body = 64 * 1024"

text \<open>A text, or the fragments of a tool call: its index, and its id, name and arguments where present.\<close>

datatype oi_llm_event =
    OI_LLM_EVENT_TEXT bytes
  | OI_LLM_EVENT_TOOL_CALL nat "bytes option" "bytes option" "bytes option"

record 'u llm_callbacks =
  on_delta :: "('u \<Rightarrow> bytes \<Rightarrow> 'u \<times> bool) option"
  on_event :: "('u \<Rightarrow> oi_llm_event \<Rightarrow> 'u \<times> bool) option"
  on_done :: "('u \<Rightarrow> oi_status \<Rightarrow> nat \<Rightarrow> bytes option \<Rightarrow> 'u) option"

record oi_llm_tool_state =
  lt_index :: nat
  lt_id :: bytes
  lt_name :: bytes
  lt_arguments :: bytes

record 'u oi_llm_request =
  rq_client :: oi_llm_client
  rq_callbacks :: "'u llm_callbacks"
  rq_user :: 'u
  rq_http :: oi_llm_http_parser
  rq_sse :: "oi_llm_sse_parser option"
  rq_json :: oi_json_parser
  rq_body :: bytes
  rq_http_status :: nat
  rq_success :: bool
  rq_error_buf :: bytes
  rq_error_cap :: nat
  rq_failed :: bool
  rq_failed_status :: oi_status
  rq_saw_done :: bool
  rq_tools :: "oi_llm_tool_state list"
  rq_finished :: bool
  rq_freed :: bool
  rq_misused :: bool
  rq_sent :: "bytes list"
  rq_heap :: heap

text \<open>Everything the request owns is gone; the connection is closed and the timer cancelled.\<close>

definition request_teardown :: "'u oi_llm_request \<Rightarrow> 'u oi_llm_request" where
  "request_teardown r = r\<lparr>rq_freed := True\<rparr>"

definition finish :: "'u oi_llm_request \<Rightarrow> oi_status \<Rightarrow> nat \<Rightarrow> bytes option \<Rightarrow> 'u oi_llm_request" where
  "finish r status http_status error_body =
     (if rq_finished r then r
      else request_teardown (r\<lparr>rq_finished := True, rq_user :=
             (case on_done (rq_callbacks r) of
                None \<Rightarrow> rq_user r
              | Some f \<Rightarrow> f (rq_user r) status http_status error_body)\<rparr>))"

definition oi_llm_request_cancel :: "'u oi_llm_request \<Rightarrow> 'u oi_llm_request" where
  "oi_llm_request_cancel r = (if rq_finished r then r else request_teardown (r\<lparr>rq_finished := True\<rparr>))"

text \<open>The error body as it is passed on: \<open>NULL\<close> when no buffer was requested.\<close>

definition error_body :: "'u oi_llm_request \<Rightarrow> bytes option" where
  "error_body r = (if rq_error_cap r = 0 then None else Some (rq_error_buf r))"

definition request_timed_out :: "'u oi_llm_request \<Rightarrow> 'u oi_llm_request" where
  "request_timed_out r = finish r OI_ERR_TIMEOUT (rq_http_status r) (error_body r)"

text \<open>The doubling loop has no overflow check: the needed size is at most 64 KiB.\<close>

function double_until :: "nat \<Rightarrow> nat \<Rightarrow> nat" where
  "double_until cap needed = (if cap < needed \<and> 0 < cap then double_until (cap * 2) needed else cap)"
  by pat_completeness auto
termination
  by (relation "measure (\<lambda>(cap, needed). needed - cap)") auto

declare double_until.simps [simp del]

definition error_buf_append :: "'u oi_llm_request \<Rightarrow> bytes \<Rightarrow> oi_status \<times> 'u oi_llm_request" where
  "error_buf_append r data =
     (if length (rq_error_buf r) \<ge> oi_llm_max_error_body then (OI_OK, r)
      else
        let taken = min (length data) (oi_llm_max_error_body - length (rq_error_buf r));
            needed = length (rq_error_buf r) + taken;
            grown = r\<lparr>rq_error_buf := rq_error_buf r @ take taken data\<rparr> in
        if needed > rq_error_cap r then
          (if \<not> shd (rq_heap r) then (OI_ERR_NOMEM, r\<lparr>rq_heap := stl (rq_heap r)\<rparr>)
           else (OI_OK, grown\<lparr>rq_error_cap := double_until (if rq_error_cap r = 0 then 256 else rq_error_cap r) needed,
                              rq_heap := stl (rq_heap r)\<rparr>))
        else (OI_OK, grown))"


section \<open>Tool calls\<close>

text \<open>
  \<open>(size_t)-1\<close> as a double is \<open>2\<^sup>6\<^sup>4\<close>, so the check lets \<open>2\<^sup>6\<^sup>4\<close> itself pass, whose conversion C leaves
  undefined: \<open>huge\<close> is what it gives, and it is equal to the number again when it rounds to it. A double is its
  bits; an infinity or a fraction is refused, and so is a NaN, which no conversion equals.
\<close>

definition json_size_index :: "nat \<Rightarrow> oi_json_value option \<Rightarrow> oi_status + nat" where
  "json_size_index huge v =
     (case oi_json_get_number v of
        Inl _ \<Rightarrow> Inl OI_ERR_PARSE
      | Inr d \<Rightarrow>
          let e = unat (drop_bit 52 d AND 0x7FF); m = unat (d AND mask 52) in
          if e = 0 \<and> m = 0 then Inr 0
          else if bit d 63 \<or> e = 0 \<or> e = 0x7FF then Inl OI_ERR_PARSE
          else if e \<ge> 1087 then
            (if e = 1087 \<and> m = 0 \<and> 2 ^ 64 - 1024 \<le> huge \<and> huge < 2 ^ 64 then Inr huge else Inl OI_ERR_PARSE)
          else if e \<ge> 1075 then Inr ((2 ^ 52 + m) * 2 ^ (e - 1075))
          else if (2 ^ 52 + m) mod 2 ^ (1075 - e) = 0 then Inr ((2 ^ 52 + m) div 2 ^ (1075 - e))
          else Inl OI_ERR_PARSE)"

definition optional_string :: "oi_json_value option \<Rightarrow> string \<Rightarrow> oi_status + bytes option" where
  "optional_string obj key =
     (case oi_json_object_get obj (bytes_of key) of
        None \<Rightarrow> Inr None
      | Some v \<Rightarrow> (case oi_json_get_string (Some v) of Inr s \<Rightarrow> Inr (Some s) | Inl _ \<Rightarrow> Inl OI_ERR_PARSE))"

text \<open>The fragments of one tool call: the checks of \<open>handle_tool_calls\<close>.\<close>

definition call_fragments ::
  "nat \<Rightarrow> oi_json_value \<Rightarrow> (nat \<times> bytes option \<times> bytes option \<times> bytes option) option" where
  "call_fragments huge call =
     (let f = oi_json_object_get (Some call) (bytes_of ''function'') in
      if oi_json_type_of call \<noteq> OI_JSON_OBJECT \<or> (case f of None \<Rightarrow> False | Some f \<Rightarrow> oi_json_type_of f \<noteq> OI_JSON_OBJECT)
      then None
      else (case (json_size_index huge (oi_json_object_get (Some call) (bytes_of ''index'')),
                  optional_string (Some call) ''id'', optional_string (Some call) ''type'',
                  if f = None then Inr None else optional_string f ''name'',
                  if f = None then Inr None else optional_string f ''arguments'') of
          (Inr index, Inr i, Inr type, Inr name, Inr arguments) \<Rightarrow>
            if type = None \<or> type = Some (bytes_of ''function'') then Some (index, i, name, arguments) else None
        | _ \<Rightarrow> None))"

definition sizeof_tool_state :: nat where
  "sizeof_tool_state = 56"

fun find_tool_state :: "nat \<Rightarrow> oi_llm_tool_state list \<Rightarrow> nat \<Rightarrow> nat option" where
  "find_tool_state i [] index = None"
| "find_tool_state i (t # ts) index = (if lt_index t = index then Some i else find_tool_state (Suc i) ts index)"

text \<open>The state of the call with this index, added at the end when it is new: its place in the array.\<close>

definition tool_state :: "heap \<Rightarrow> oi_llm_tool_state list \<Rightarrow> nat \<Rightarrow> (oi_llm_tool_state list \<times> nat) alloc" where
  "tool_state h ts index =
     (case find_tool_state 0 ts index of
        Some i \<Rightarrow> (Inr (ts, i), h)
      | None \<Rightarrow>
          if length ts = size_max div sizeof_tool_state then (Inl OI_ERR_NOMEM, h)
          else alloc_try h (ts @ [\<lparr>lt_index = index, lt_id = [], lt_name = [], lt_arguments = []\<rparr>], length ts))"

definition append_fragment :: "heap \<Rightarrow> bytes \<Rightarrow> bytes \<Rightarrow> bytes alloc" where
  "append_fragment h buf data =
     (if length data > size_max - length buf - 1 then (Inl OI_ERR_NOMEM, h) else alloc_try h (buf @ data))"

text \<open>A fragment that may be absent: the status, and the field as it is then.\<close>

definition append_optional :: "heap \<Rightarrow> bytes \<Rightarrow> bytes option \<Rightarrow> oi_status \<times> bytes \<times> heap" where
  "append_optional h buf d =
     (case d of
        None \<Rightarrow> (OI_OK, buf, h)
      | Some d \<Rightarrow> (case append_fragment h buf d of (Inl st, h) \<Rightarrow> (st, buf, h) | (Inr b, h) \<Rightarrow> (OI_OK, b, h)))"

definition append_fragments ::
  "heap \<Rightarrow> oi_llm_tool_state \<Rightarrow> bytes option \<Rightarrow> bytes option \<Rightarrow> bytes option \<Rightarrow> oi_status \<times> oi_llm_tool_state \<times> heap" where
  "append_fragments h t i name arguments =
     (case append_optional h (lt_id t) i of (st, b, h) \<Rightarrow>
       let t = t\<lparr>lt_id := b\<rparr> in
       if st \<noteq> OI_OK then (st, t, h)
       else (case append_optional h (lt_name t) name of (st, b, h) \<Rightarrow>
         let t = t\<lparr>lt_name := b\<rparr> in
         if st \<noteq> OI_OK then (st, t, h)
         else (case append_optional h (lt_arguments t) arguments of (st, b, h) \<Rightarrow> (st, t\<lparr>lt_arguments := b\<rparr>, h))))"

text \<open>The answer of \<open>emit_event\<close> is whether the request is gone.\<close>

definition client_answers :: "'u oi_llm_request \<Rightarrow> 'u \<times> bool \<Rightarrow> 'u oi_llm_request" where
  "client_answers r a = (case a of (u, cancelled) \<Rightarrow>
     if cancelled then oi_llm_request_cancel (r\<lparr>rq_user := u\<rparr>) else r\<lparr>rq_user := u\<rparr>)"

definition emit_event :: "'u oi_llm_request \<Rightarrow> oi_llm_event \<Rightarrow> 'u oi_llm_request \<times> bool" where
  "emit_event r ev =
     (case on_event (rq_callbacks r) of
        None \<Rightarrow> (r, False)
      | Some f \<Rightarrow> let r' = client_answers r (f (rq_user r) ev) in (r', rq_freed r'))"

fun handle_calls :: "nat \<Rightarrow> 'u oi_llm_request \<Rightarrow> oi_json_value list \<Rightarrow> oi_status \<times> 'u oi_llm_request" where
  "handle_calls huge r [] = (OI_OK, r)"
| "handle_calls huge r (call # calls) =
     (case call_fragments huge call of
        None \<Rightarrow> (OI_ERR_PARSE, r)
      | Some (index, i, name, arguments) \<Rightarrow>
          (case tool_state (rq_heap r) (rq_tools r) index of
             (Inl st, h) \<Rightarrow> (OI_ERR_NOMEM, r\<lparr>rq_heap := h\<rparr>)
           | (Inr (ts, k), h) \<Rightarrow>
               (case append_fragments h (ts ! k) i name arguments of (st, t, h) \<Rightarrow>
                  let r = r\<lparr>rq_tools := ts[k := t], rq_heap := h\<rparr> in
                  if st \<noteq> OI_OK then (st, r)
                  else (case emit_event r (OI_LLM_EVENT_TOOL_CALL index i name arguments) of
                      (r, gone) \<Rightarrow> if gone then (OI_ERR_CLOSED, r) else handle_calls huge r calls))))"

definition handle_tool_calls :: "nat \<Rightarrow> 'u oi_llm_request \<Rightarrow> oi_json_value option \<Rightarrow> oi_status \<times> 'u oi_llm_request" where
  "handle_tool_calls huge r tool_calls =
     (case tool_calls of
        None \<Rightarrow> (OI_OK, r)
      | Some (JSON_ARRAY calls _) \<Rightarrow> handle_calls huge r calls
      | Some _ \<Rightarrow> (OI_ERR_PARSE, r))"

definition object_root :: "oi_json_parser \<Rightarrow> bool" where
  "object_root p \<longleftrightarrow> (case oi_json_parser_root p of Some (JSON_OBJECT _) \<Rightarrow> True | _ \<Rightarrow> False)"

text \<open>One text through the request's parser: reset, feed, finish.\<close>

definition parse_text :: "strtod \<Rightarrow> oi_json_parser \<Rightarrow> bytes \<Rightarrow> oi_status \<times> oi_json_parser" where
  "parse_text strtod p t =
     (case oi_json_parser_feed strtod (oi_json_parser_reset p) t of
        (st, p) \<Rightarrow> if st = OI_OK then oi_json_parser_finish strtod p else (st, p))"

fun validate_calls :: "strtod \<Rightarrow> oi_json_parser \<Rightarrow> oi_llm_tool_state list \<Rightarrow> oi_status \<times> oi_json_parser" where
  "validate_calls strtod p [] = (OI_OK, p)"
| "validate_calls strtod p (t # ts) =
     (if lt_id t = [] \<or> lt_name t = [] \<or> lt_arguments t = [] then (OI_ERR_PARSE, p)
      else (case parse_text strtod p (lt_arguments t) of
          (st, p) \<Rightarrow> if st \<noteq> OI_OK \<or> \<not> oi_json_parser_done p \<or> \<not> object_root p then (OI_ERR_PARSE, p)
                      else validate_calls strtod p ts))"

definition validate_tool_calls :: "strtod \<Rightarrow> 'u oi_llm_request \<Rightarrow> oi_status \<times> 'u oi_llm_request" where
  "validate_tool_calls strtod r =
     (case validate_calls strtod (rq_json r) (rq_tools r) of (st, p) \<Rightarrow> (st, r\<lparr>rq_json := p\<rparr>))"

section \<open>Events\<close>

definition fail_body :: "oi_status \<Rightarrow> 'u oi_llm_request \<Rightarrow> 'u oi_llm_request" where
  "fail_body st r = r\<lparr>rq_failed := True, rq_failed_status := st\<rparr>"

text \<open>
  After the text has been passed on. A client that cancelled in \<open>on_delta\<close> has freed the request: a \<open>tool_calls\<close>
  member that is not an empty array is then looked up, or its refusal noted, in freed memory.
\<close>

definition deliver_calls :: "nat \<Rightarrow> oi_json_value option \<Rightarrow> 'u oi_llm_request \<Rightarrow> 'u oi_llm_request" where
  "deliver_calls huge tool_calls r =
     (if rq_freed r then
        (case tool_calls of
           None \<Rightarrow> r
         | Some (JSON_ARRAY calls _) \<Rightarrow> if calls = [] then r else r\<lparr>rq_misused := True\<rparr>
         | Some _ \<Rightarrow> r\<lparr>rq_misused := True\<rparr>)
      else (case handle_tool_calls huge r tool_calls of
          (st, r) \<Rightarrow> if st = OI_ERR_CLOSED \<or> st = OI_OK then r else fail_body st r))"

definition deliver_delta :: "nat \<Rightarrow> oi_json_value option \<Rightarrow> 'u oi_llm_request \<Rightarrow> 'u oi_llm_request" where
  "deliver_delta huge delta r =
     (let content = oi_json_object_get delta (bytes_of ''content'');
          tool_calls = oi_json_object_get delta (bytes_of ''tool_calls'') in
      case oi_json_get_string content of
        Inl _ \<Rightarrow> deliver_calls huge tool_calls r
      | Inr t \<Rightarrow>
          (case emit_event r (OI_LLM_EVENT_TEXT t) of
             (r, gone) \<Rightarrow>
               if gone then r
               else deliver_calls huge tool_calls
                 (case on_delta (rq_callbacks r) of None \<Rightarrow> r | Some f \<Rightarrow> client_answers r (f (rq_user r) t))))"

text \<open>\<open>choices[0].delta\<close>\<close>

definition choice_delta :: "oi_json_value option \<Rightarrow> oi_json_value option" where
  "choice_delta root = oi_json_object_get (oi_json_array_get (oi_json_object_get root (bytes_of ''choices'')) 0) (bytes_of ''delta'')"

definition handle_sse_event :: "strtod \<Rightarrow> nat \<Rightarrow> 'u oi_llm_request \<Rightarrow> bytes \<Rightarrow> 'u oi_llm_request" where
  "handle_sse_event strtod huge r data =
     (if rq_failed r then r
      else if data = bytes_of ''[DONE]'' then
        (if rq_saw_done r then fail_body OI_ERR_PARSE r
         else (case validate_tool_calls strtod r of
             (st, r) \<Rightarrow> if st \<noteq> OI_OK then fail_body st r else r\<lparr>rq_saw_done := True\<rparr>))
      else if rq_saw_done r then fail_body OI_ERR_PARSE r
      else (case parse_text strtod (rq_json r) data of
          (st, p) \<Rightarrow>
            let r = r\<lparr>rq_json := p\<rparr> in
            if st \<noteq> OI_OK \<or> \<not> oi_json_parser_done p then fail_body OI_ERR_PARSE r
            else deliver_delta huge (choice_delta (oi_json_parser_root p)) r))"

text \<open>What the two parsers call back: the parsers go with the request.\<close>

definition on_sse :: "strtod \<Rightarrow> nat \<Rightarrow> ('u oi_llm_request) sse_callback" where
  "on_sse strtod huge = Some (\<lambda>r d. let r = handle_sse_event strtod huge r d in (r, rq_freed r))"

definition req_on_headers_done :: "'u oi_llm_request \<Rightarrow> nat \<Rightarrow> 'u oi_llm_request" where
  "req_on_headers_done r code =
     (let r = r\<lparr>rq_http_status := code, rq_success := (200 \<le> code \<and> code < 300)\<rparr> in
      if rq_success r then
        (case oi_llm_sse_parser_create (heap_child (rq_heap r)) of
           None \<Rightarrow> fail_body OI_ERR_NOMEM (r\<lparr>rq_sse := None, rq_heap := heap_rest (rq_heap r)\<rparr>)
         | Some s \<Rightarrow> r\<lparr>rq_sse := Some s, rq_heap := heap_rest (rq_heap r)\<rparr>)
      else r)"

text \<open>The answer of a parser that the callback may have destroyed with the request; one that was never created
  refuses the call.\<close>

definition sse_answers ::
  "oi_status \<times> oi_llm_sse_parser option \<times> 'u oi_llm_request \<Rightarrow> oi_status \<times> 'u oi_llm_request" where
  "sse_answers a = (case a of (st, s, r) \<Rightarrow> (st, if rq_freed r then r else r\<lparr>rq_sse := s\<rparr>))"

definition req_on_body :: "strtod \<Rightarrow> nat \<Rightarrow> 'u oi_llm_request \<Rightarrow> bytes \<Rightarrow> 'u oi_llm_request" where
  "req_on_body strtod huge r data =
     (if rq_failed r then r
      else case (if rq_success r then
                   (case rq_sse r of
                      None \<Rightarrow> (OI_ERR_INVAL, r)
                    | Some s \<Rightarrow> sse_answers (oi_llm_sse_parser_feed (on_sse strtod huge) s r data))
                 else error_buf_append r data) of
        (st, r) \<Rightarrow> if st \<noteq> OI_OK then fail_body st r else r)"

definition on_http :: "strtod \<Rightarrow> nat \<Rightarrow> ('u oi_llm_request) http_handler" where
  "on_http strtod huge r ev =
     (case ev of
        Headers_done code \<Rightarrow> (req_on_headers_done r code, False)
      | Body data \<Rightarrow> let r = req_on_body strtod huge r data in (r, rq_freed r))"

section \<open>The connection\<close>

definition request_line :: "string \<Rightarrow> bytes \<Rightarrow> bytes" where
  "request_line name v = bytes_of name @ v @ [0x0D, 0x0A]"

text \<open>What \<open>snprintf\<close> writes, \<open>decimal\<close> being \<open>%zu\<close>.\<close>

definition request_header :: "oi_llm_client \<Rightarrow> nat \<Rightarrow> bytes" where
  "request_header c n =
     bytes_of ''POST '' @ cl_path c @ bytes_of '' HTTP/1.1'' @ [0x0D, 0x0A]
     @ request_line ''Host: '' (cl_host c)
     @ request_line ''Content-Type: application/json'' []
     @ request_line ''Content-Length: '' (decimal n)
     @ (case cl_api_key c of None \<Rightarrow> [] | Some k \<Rightarrow> request_line ''Authorization: Bearer '' k)
     @ request_line ''Connection: close'' []
     @ [0x0D, 0x0A]"

definition request_header_size :: nat where
  "request_header_size = 1024"

text \<open>The two writes and what they answer.\<close>

definition req_on_connected :: "oi_status \<Rightarrow> oi_status \<Rightarrow> 'u oi_llm_request \<Rightarrow> 'u oi_llm_request" where
  "req_on_connected w1 w2 r =
     (let header = request_header (rq_client r) (length (rq_body r)) in
      if length header \<ge> request_header_size then finish r OI_ERR_INVAL 0 None
      else if w1 \<noteq> OI_OK then finish r w1 0 None
      else let r = r\<lparr>rq_sent := rq_sent r @ [header]\<rparr> in
        if w2 \<noteq> OI_OK then finish r w2 0 None else r\<lparr>rq_sent := rq_sent r @ [rq_body r]\<rparr>)"

text \<open>The end of \<open>req_on_data\<close>, once the body is done.\<close>

definition body_done :: "strtod \<Rightarrow> nat \<Rightarrow> 'u oi_llm_request \<Rightarrow> 'u oi_llm_request" where
  "body_done strtod huge r =
     (if rq_success r then
        (case (case rq_sse r of
                 None \<Rightarrow> (OI_ERR_INVAL, r)
               | Some s \<Rightarrow> sse_answers (oi_llm_sse_parser_finish (on_sse strtod huge) s r)) of
           (st, r) \<Rightarrow>
             if rq_freed r then r
             else if st \<noteq> OI_OK then finish r st (rq_http_status r) None
             else if rq_failed r then finish r (rq_failed_status r) (rq_http_status r) None
             else if \<not> rq_saw_done r then finish r OI_ERR_PARSE (rq_http_status r) None
             else finish r OI_OK (rq_http_status r) None)
      else finish r OI_ERR_IO (rq_http_status r) (error_body r))"

definition req_on_data :: "strtod \<Rightarrow> nat \<Rightarrow> 'u oi_llm_request \<Rightarrow> bytes \<Rightarrow> 'u oi_llm_request" where
  "req_on_data strtod huge r data =
     (case oi_llm_http_parser_feed (on_http strtod huge) (rq_http r) r data of
        (st, p, r) \<Rightarrow>
          if rq_freed r then r
          else let r = (case p of None \<Rightarrow> r | Some p \<Rightarrow> r\<lparr>rq_http := p\<rparr>) in
            if st \<noteq> OI_OK then finish r st (rq_http_status r) (error_body r)
            else if rq_failed r then finish r (rq_failed_status r) (rq_http_status r) (error_body r)
            else if oi_llm_http_parser_body_done (rq_http r) then body_done strtod huge r
            else r)"

definition req_on_error :: "oi_status \<Rightarrow> 'u oi_llm_request \<Rightarrow> 'u oi_llm_request" where
  "req_on_error reason r = finish r reason (rq_http_status r) (error_body r)"

text \<open>
  Starting: the request, its copy of the body and its two parsers are requested; \<open>connect\<close> and \<open>timer\<close> are the
  answers of \<open>oi_llm_conn_connect\<close> and, when there is a deadline, \<open>oi_reactor_timer_start\<close>.
\<close>

definition request_start ::
  "heap \<Rightarrow> oi_status \<Rightarrow> oi_status \<Rightarrow> oi_llm_client \<Rightarrow> oi_arena \<Rightarrow> bytes \<Rightarrow> 'u llm_callbacks \<Rightarrow> 'u \<Rightarrow> oi_status + 'u oi_llm_request" where
  "request_start h connect timer c arena text cbs u =
     (if \<not> shd h then Inl OI_ERR_NOMEM
      else if \<not> shd (stl h) then Inl OI_ERR_NOMEM
      else let h = stl (stl h) in
        (case oi_llm_http_parser_create (heap_child h) of
           None \<Rightarrow> Inl OI_ERR_NOMEM
         | Some http \<Rightarrow>
             (case oi_json_parser_create (heap_child (heap_rest h)) arena of
                None \<Rightarrow> Inl OI_ERR_NOMEM
              | Some json \<Rightarrow>
                  if connect \<noteq> OI_OK then Inl connect
                  else if cl_timeout_ms c > 0 \<and> timer \<noteq> OI_OK then Inl timer
                  else Inr \<lparr>rq_client = c, rq_callbacks = cbs, rq_user = u, rq_http = http, rq_sse = None, rq_json = json,
                     rq_body = text, rq_http_status = 0, rq_success = False, rq_error_buf = [], rq_error_cap = 0,
                     rq_failed = False, rq_failed_status = OI_OK, rq_saw_done = False, rq_tools = [],
                     rq_finished = False, rq_freed = False, rq_misused = False, rq_sent = [],
                     rq_heap = heap_rest (heap_rest h)\<rparr>)))"

definition oi_llm_request_start ::
  "heap \<Rightarrow> oi_status \<Rightarrow> oi_status \<Rightarrow> oi_llm_client \<Rightarrow> oi_arena \<Rightarrow> bytes \<Rightarrow> ('u \<Rightarrow> bytes \<Rightarrow> 'u \<times> bool) option
     \<Rightarrow> ('u \<Rightarrow> oi_status \<Rightarrow> nat \<Rightarrow> bytes option \<Rightarrow> 'u) option \<Rightarrow> 'u \<Rightarrow> oi_status + 'u oi_llm_request" where
  "oi_llm_request_start h connect timer c arena text delta dn u =
     request_start h connect timer c arena text \<lparr>on_delta = delta, on_event = None, on_done = dn\<rparr> u"

definition oi_llm_request_start_events ::
  "heap \<Rightarrow> oi_status \<Rightarrow> oi_status \<Rightarrow> oi_llm_client \<Rightarrow> oi_arena \<Rightarrow> bytes \<Rightarrow> ('u \<Rightarrow> oi_llm_event \<Rightarrow> 'u \<times> bool) option
     \<Rightarrow> ('u \<Rightarrow> oi_status \<Rightarrow> nat \<Rightarrow> bytes option \<Rightarrow> 'u) option \<Rightarrow> 'u \<Rightarrow> oi_status + 'u oi_llm_request" where
  "oi_llm_request_start_events h connect timer c arena text event dn u =
     request_start h connect timer c arena text \<lparr>on_delta = None, on_event = event, on_done = dn\<rparr> u"

text \<open>
  What the connection, the timer and the client do with a request; nothing when it is gone, since its connection
  is closed and its timer cancelled.
\<close>

datatype llm_input =
    Connected oi_status oi_status
  | Received bytes
  | Conn_error oi_status
  | Timed_out
  | Cancelled

definition request_input :: "strtod \<Rightarrow> nat \<Rightarrow> 'u oi_llm_request \<Rightarrow> llm_input \<Rightarrow> 'u oi_llm_request" where
  "request_input strtod huge r i =
     (if rq_freed r then r
      else case i of
        Connected w1 w2 \<Rightarrow> req_on_connected w1 w2 r
      | Received data \<Rightarrow> req_on_data strtod huge r data
      | Conn_error reason \<Rightarrow> req_on_error reason r
      | Timed_out \<Rightarrow> request_timed_out r
      | Cancelled \<Rightarrow> oi_llm_request_cancel r)"

definition request_run :: "strtod \<Rightarrow> nat \<Rightarrow> 'u oi_llm_request \<Rightarrow> llm_input list \<Rightarrow> 'u oi_llm_request" where
  "request_run strtod huge r is = foldl (request_input strtod huge) r is"

section \<open>Callbacks under an invariant\<close>

text \<open>What every callback keeps, a feed keeps, until a callback destroys the parser.\<close>

lemma sse_feed_keeps:
  assumes step: "\<And>u d. P u \<Longrightarrow> if snd (f u d) then Q (fst (f u d)) else P (fst (f u d))"
  shows "P u \<Longrightarrow> oi_llm_sse_parser_feed (Some f) p u bs = (st, p', u') \<Longrightarrow> if p' = None then Q u' else P u'"
proof (induction bs arbitrary: p u)
  case (Cons c cs)
  have "if snd (process_line (Some f) u l) then Q (fst (process_line (Some f) u l)) else P (fst (process_line (Some f) u l))" for l
    using step Cons.prems(1) by (auto simp: process_line_def split: option.splits)
  from this [of "strip_cr (sse_line p)"] Cons show ?case by (auto split: if_splits prod.splits)
qed auto

lemma sse_finish_keeps:
  assumes "\<And>u d. P u \<Longrightarrow> if snd (f u d) then Q (fst (f u d)) else P (fst (f u d))"
    and "P u" and "oi_llm_sse_parser_finish (Some f) p u = (st, p', u')"
  shows "if p' = None then Q u' else P u'"
  using assms(1) [OF assms(2), of "the (sse_payload (sse_line p))"] assms(2,3)
  by (auto simp: oi_llm_sse_parser_finish_def process_line_def split: option.splits prod.splits if_splits)

lemma finish_headers_keeps:
  assumes "\<And>u e. P u \<Longrightarrow> if snd (f u e) then Q (fst (f u e)) else P (fst (f u e))" and "P u"
    and "finish_headers f p u = (st, p', u', gone)"
  shows "if gone then Q u' else P u'"
  using assms(1) [OF assms(2), of "Headers_done (status_code p)"] assms(2,3)
  by (auto simp: finish_headers_def Let_def split: prod.splits if_splits)

lemma header_line_keeps:
  assumes "\<And>u e. P u \<Longrightarrow> if snd (f u e) then Q (fst (f u e)) else P (fst (f u e))" and "P u"
    and "handle_header_line f p u = (st, p', u', gone)"
  shows "if gone then Q u' else P u'"
  using finish_headers_keeps [of P f Q, OF assms(1,2)] assms(2,3)
  by (auto simp: handle_header_line_def Let_def split: prod.splits if_splits option.splits)

lemma line_complete_keeps:
  assumes "\<And>u e. P u \<Longrightarrow> if snd (f u e) then Q (fst (f u e)) else P (fst (f u e))" and "P u"
    and "on_line_complete f p u = (st, p', u')"
  shows "if p' = None then Q u' else P u'"
  using header_line_keeps [of P f Q, OF assms(1,2)] assms(2,3)
  by (auto simp: on_line_complete_def Let_def split: prod.splits if_splits http_state.splits)

lemma http_feed_keeps:
  assumes step: "\<And>u e. P u \<Longrightarrow> if snd (f u e) then Q (fst (f u e)) else P (fst (f u e))"
  shows "P u \<Longrightarrow> oi_llm_http_parser_feed f p u bs = (st, p', u') \<Longrightarrow> if p' = None then Q u' else P u'"
  using step
proof (induction f p u bs rule: oi_llm_http_parser_feed.induct)
  case (2 f p u c cs)
  let ?n = "min (remaining p) (length (c # cs))"
  note step = "2.prems"(3) and feed = "2.prems"(2) [unfolded oi_llm_http_parser_feed.simps(2) [of f p u c cs]]
  consider (stopped) "http_state p = ST_ERROR \<or> http_state p = ST_DONE"
    | (nl) "http_state p \<noteq> ST_ERROR" "http_state p \<noteq> ST_DONE" "is_line_state (http_state p)" "c = 0x0A"
    | (ch) "http_state p \<noteq> ST_ERROR" "http_state p \<noteq> ST_DONE" "is_line_state (http_state p)" "c \<noteq> 0x0A"
    | (body) "http_state p \<noteq> ST_ERROR" "http_state p \<noteq> ST_DONE" "\<not> is_line_state (http_state p)" by blast
  then show ?case
  proof cases
    case stopped
    with feed "2.prems"(1) show ?thesis by (auto split: if_splits)
  next
    case nl
    obtain st1 p1 u1 where l: "on_line_complete f (http_strip_cr p) u = (st1, p1, u1)" by (metis prod_cases3)
    from line_complete_keeps [of P f Q, OF step "2.prems"(1) l] have k: "if p1 = None then Q u1 else P u1" .
    show ?thesis
    proof (cases "p1 = None \<or> st1 \<noteq> OI_OK")
      case True
      with feed nl l k show ?thesis by (auto split: option.splits)
    next
      case False
      then obtain q where q: "p1 = Some q" "st1 = OI_OK" by auto
      with feed nl l have "oi_llm_http_parser_feed f q u1 cs = (st, p', u')" by simp
      from "2.IH"(1) [OF nl l [symmetric] refl q(1) _ _ this step] q k show ?thesis by simp
    qed
  next
    case ch
    obtain st1 p1 where l: "http_line_append p c = (st1, p1)" by fastforce
    show ?thesis
    proof (cases "st1 = OI_OK")
      case True
      with feed ch l have "oi_llm_http_parser_feed f p1 u cs = (st, p', u')" by simp
      from "2.IH"(2) [OF ch l [symmetric] _ "2.prems"(1) this step] True show ?thesis by simp
    next
      case False
      with feed ch l "2.prems"(1) show ?thesis by auto
    qed
  next
    case body
    obtain u1 gone where l: "f u (Body (take ?n (c # cs))) = (u1, gone)" by fastforce
    have k: "if gone then Q u1 else P u1"
      using step [OF "2.prems"(1), of "Body (take ?n (c # cs))"] unfolding l by (cases gone) simp_all
    show ?thesis
    proof (cases gone)
      case True
      with feed body l k show ?thesis by (auto simp: Let_def)
    next
      case False
      with feed body l have "oi_llm_http_parser_feed f (take_body p ?n) u1 (drop ?n (c # cs)) = (st, p', u')"
        by (simp add: Let_def)
      from "2.IH"(3) [OF body refl l [symmetric] False _ this step] k False show ?thesis by simp
    qed
  qed
qed (auto simp: oi_llm_http_parser_feed.simps)

section \<open>What a client sees\<close>

text \<open>
  The client that records its callbacks and cancels as soon as \<open>stop\<close> holds of the record: as the callbacks are
  determined by what happened before, every client is of this kind. \<open>events\<close> is the variant of the start function.
\<close>

datatype llm_output =
    Out_delta bytes
  | Out_event oi_llm_event
  | Out_done oi_status nat "bytes option"

definition recording :: "(llm_output list \<Rightarrow> bool) \<Rightarrow> bool \<Rightarrow> (llm_output list) llm_callbacks" where
  "recording stop events =
     \<lparr>on_delta = (if events then None else Some (\<lambda>u t. (u @ [Out_delta t], stop (u @ [Out_delta t])))),
      on_event = (if events then Some (\<lambda>u e. (u @ [Out_event e], stop (u @ [Out_event e]))) else None),
      on_done = Some (\<lambda>u st code b. u @ [Out_done st code b])\<rparr>"

fun is_done :: "llm_output \<Rightarrow> bool" where
  "is_done (Out_done st code b) = True"
| "is_done _ = False"

text \<open>A record that ends the request: its last callback was \<open>on_done\<close>, or the client cancelled in it.\<close>

definition ends :: "(llm_output list \<Rightarrow> bool) \<Rightarrow> llm_output list \<Rightarrow> bool" where
  "ends stop tr \<longleftrightarrow> tr \<noteq> [] \<and> (is_done (last tr) \<or> stop tr)"

definition ends_last :: "(llm_output list \<Rightarrow> bool) \<Rightarrow> llm_output list \<Rightarrow> bool" where
  "ends_last stop tr \<longleftrightarrow> (\<forall>n < length tr. \<not> ends stop (take n tr))"

text \<open>The fragments a client has received for the call with an index, joined; \<open>sel\<close> says which of the three.\<close>

fun call_of :: "llm_output \<Rightarrow> (nat \<times> bytes option \<times> bytes option \<times> bytes option) option" where
  "call_of (Out_event (OI_LLM_EVENT_TOOL_CALL index i name arguments)) = Some (index, i, name, arguments)"
| "call_of _ = None"

definition bytes_in :: "bytes option \<Rightarrow> bytes" where
  "bytes_in d = (case d of None \<Rightarrow> [] | Some d \<Rightarrow> d)"

definition joined :: "(bytes option \<times> bytes option \<times> bytes option \<Rightarrow> bytes option) \<Rightarrow> nat \<Rightarrow> llm_output list \<Rightarrow> bytes" where
  "joined sel index tr = concat (map (\<lambda>out. case call_of out of None \<Rightarrow> []
     | Some (j, fs) \<Rightarrow> if j = index then bytes_in (sel fs) else []) tr)"

definition call_indices :: "llm_output list \<Rightarrow> nat set" where
  "call_indices tr = fst ` (\<Union>out \<in> set tr. set_option (call_of out))"

abbreviation joined_id where "joined_id \<equiv> joined (\<lambda>(i, name, arguments). i)"
abbreviation joined_name where "joined_name \<equiv> joined (\<lambda>(i, name, arguments). name)"
abbreviation joined_arguments where "joined_arguments \<equiv> joined (\<lambda>(i, name, arguments). arguments)"

text \<open>A text that the parser takes for an object, in some state of its memory.\<close>

definition object_text :: "strtod \<Rightarrow> bytes \<Rightarrow> bool" where
  "object_text strtod t \<longleftrightarrow> (\<exists>p. case parse_text strtod p t of (st, q) \<Rightarrow> st = OI_OK \<and> object_root q)"

definition call_complete :: "strtod \<Rightarrow> bytes \<Rightarrow> bytes \<Rightarrow> bytes \<Rightarrow> bool" where
  "call_complete strtod i name arguments \<longleftrightarrow> i \<noteq> [] \<and> name \<noteq> [] \<and> arguments \<noteq> [] \<and> object_text strtod arguments"

definition calls_complete :: "strtod \<Rightarrow> llm_output list \<Rightarrow> bool" where
  "calls_complete strtod tr \<longleftrightarrow> (\<forall>index \<in> call_indices tr.
     call_complete strtod (joined_id index tr) (joined_name index tr) (joined_arguments index tr))"

text \<open>The request's own copy of the calls.\<close>

definition tools_match :: "llm_output list \<Rightarrow> oi_llm_tool_state list \<Rightarrow> bool" where
  "tools_match tr ts \<longleftrightarrow> distinct (map lt_index ts) \<and> lt_index ` set ts = call_indices tr
     \<and> (\<forall>t \<in> set ts. lt_id t = joined_id (lt_index t) tr \<and> lt_name t = joined_name (lt_index t) tr
                      \<and> lt_arguments t = joined_arguments (lt_index t) tr)"

definition tools_complete :: "strtod \<Rightarrow> oi_llm_tool_state list \<Rightarrow> bool" where
  "tools_complete strtod ts \<longleftrightarrow> (\<forall>t \<in> set ts. call_complete strtod (lt_id t) (lt_name t) (lt_arguments t))"

lemma complete_calls:
  assumes m: "tools_match tr ts" and c: "tools_complete strtod ts"
  shows "calls_complete strtod tr"
  unfolding calls_complete_def
proof
  fix index assume "index \<in> call_indices tr"
  then have "index \<in> lt_index ` set ts" using m by (simp add: tools_match_def)
  then obtain t where t: "t \<in> set ts" "index = lt_index t" by (rule imageE)
  with m c show "call_complete strtod (joined_id index tr) (joined_name index tr) (joined_arguments index tr)"
    by (simp add: tools_match_def tools_complete_def)
qed

section \<open>The invariant of a request\<close>

text \<open>\<open>outside\<close>: the client has cancelled outside the callbacks.\<close>

definition request_ok ::
  "bool \<Rightarrow> (llm_output list \<Rightarrow> bool) \<Rightarrow> bool \<Rightarrow> strtod \<Rightarrow> (llm_output list) oi_llm_request \<Rightarrow> bool" where
  "request_ok outside stop events strtod r \<longleftrightarrow>
     rq_callbacks r = recording stop events \<and> rq_finished r = rq_freed r
   \<and> ends_last stop (rq_user r)
   \<and> (ends stop (rq_user r) \<longrightarrow> rq_freed r) \<and> (rq_freed r \<longrightarrow> ends stop (rq_user r) \<or> outside)
   \<and> (events \<longrightarrow> \<not> rq_misused r)
   \<and> length (rq_error_buf r) \<le> oi_llm_max_error_body
   \<and> (rq_failed r \<longrightarrow> rq_failed_status r \<noteq> OI_OK)
   \<and> (rq_success r \<longrightarrow> 200 \<le> rq_http_status r \<and> rq_http_status r < 300)
   \<and> (events \<and> \<not> rq_freed r \<and> \<not> rq_failed r \<longrightarrow> tools_match (rq_user r) (rq_tools r))
   \<and> (\<not> rq_freed r \<and> \<not> rq_failed r \<and> rq_saw_done r \<longrightarrow> tools_complete strtod (rq_tools r))
   \<and> (\<forall>st code b. Out_done st code b \<in> set (rq_user r) \<longrightarrow>
        length (bytes_in b) \<le> oi_llm_max_error_body
        \<and> (st = OI_OK \<longrightarrow> 200 \<le> code \<and> code < 300 \<and> b = None \<and> (events \<longrightarrow> calls_complete strtod (rq_user r))))"

lemma ends_last_snoc:
  "ends_last stop tr \<Longrightarrow> \<not> ends stop tr \<Longrightarrow> ends_last stop (tr @ [x])"
  by (auto simp: ends_last_def less_Suc_eq)

lemma ends_snoc: "ends stop (tr @ [x]) \<longleftrightarrow> is_done x \<or> stop (tr @ [x])"
  by (simp add: ends_def)

lemma joined_snoc:
  "joined sel index (tr @ [x]) = joined sel index tr
     @ (case call_of x of None \<Rightarrow> [] | Some (j, fs) \<Rightarrow> if j = index then bytes_in (sel fs) else [])"
  by (simp add: joined_def)

lemma call_indices_snoc:
  "call_indices (tr @ [x]) = call_indices tr \<union> fst ` set_option (call_of x)"
  by (auto simp: call_indices_def)

lemma match_other: "call_of x = None \<Longrightarrow> tools_match (tr @ [x]) ts \<longleftrightarrow> tools_match tr ts"
  by (simp add: tools_match_def joined_snoc call_indices_snoc)

lemma calls_other: "call_of x = None \<Longrightarrow> calls_complete strtod (tr @ [x]) \<longleftrightarrow> calls_complete strtod tr"
  by (simp add: calls_complete_def joined_snoc call_indices_snoc)

lemma find_tool_none: "find_tool_state i ts index = None \<longleftrightarrow> index \<notin> lt_index ` set ts"
  by (induction i ts index rule: find_tool_state.induct) auto

lemma find_tool_some:
  "find_tool_state i ts index = Some k \<Longrightarrow> i \<le> k \<and> k - i < length ts \<and> lt_index (ts ! (k - i)) = index"
proof (induction i ts index rule: find_tool_state.induct)
  case (2 i t ts index)
  show ?case
  proof (cases "lt_index t = index")
    case False
    with 2 have "Suc i \<le> k \<and> k - Suc i < length ts \<and> lt_index (ts ! (k - Suc i)) = index" by simp
    moreover from this have "k - i = Suc (k - Suc i)" by arith
    ultimately show ?thesis by simp
  qed (use 2 in auto)
qed simp

lemma append_optional_ok: "append_optional h b d = (OI_OK, b', h') \<Longrightarrow> b' = b @ bytes_in d"
  by (auto simp: append_optional_def append_fragment_def alloc_try_def bytes_in_def split: option.splits if_splits)

lemma append_optional_status: "append_optional h b d = (st, b', h') \<Longrightarrow> st = OI_OK \<or> st = OI_ERR_NOMEM"
  by (auto simp: append_optional_def append_fragment_def alloc_try_def split: option.splits if_splits)

lemma append_fragments_ok:
  assumes "append_fragments h t i name arguments = (OI_OK, t', h')"
  shows "t' = t\<lparr>lt_id := lt_id t @ bytes_in i, lt_name := lt_name t @ bytes_in name,
    lt_arguments := lt_arguments t @ bytes_in arguments\<rparr>"
  using assms by (auto simp: append_fragments_def Let_def split: prod.splits if_splits dest!: append_optional_ok)

lemma append_fragments_status:
  "append_fragments h t i name arguments = (st, t', h') \<Longrightarrow> st = OI_OK \<or> st = OI_ERR_NOMEM"
  by (auto simp: append_fragments_def Let_def split: prod.splits if_splits dest: append_optional_status)

text \<open>The state of the call is the one with its index, and all calls keep theirs.\<close>

lemma tool_state_result:
  assumes "tool_state h ts index = (Inr (ts', k), h')"
  shows "k < length ts'" and "lt_index (ts' ! k) = index"
    and "ts' = ts \<and> index \<in> lt_index ` set ts
      \<or> ts' = ts @ [\<lparr>lt_index = index, lt_id = [], lt_name = [], lt_arguments = []\<rparr>] \<and> index \<notin> lt_index ` set ts \<and> k = length ts"
  using assms find_tool_some [of 0 ts index k] find_tool_none [of 0 ts index]
  by (auto simp: tool_state_def split: option.splits if_splits)

lemma joined_absent: "index \<notin> call_indices tr \<Longrightarrow> joined sel index tr = []"
proof -
  assume a: "index \<notin> call_indices tr"
  have "(case call_of out of None \<Rightarrow> [] | Some (j, fs) \<Rightarrow> if j = index then bytes_in (sel fs) else []) = []"
    if "out \<in> set tr" for out
    using a that by (cases "call_of out") (auto simp: call_indices_def image_iff)
  then show ?thesis by (simp add: joined_def)
qed

lemma fragments_match:
  assumes m: "tools_match tr ts" and s: "tool_state h ts index = (Inr (ts', k), h1)"
    and a: "append_fragments h1 (ts' ! k) i name arguments = (OI_OK, t, h2)"
  shows "tools_match (tr @ [Out_event (OI_LLM_EVENT_TOOL_CALL index i name arguments)]) (ts'[k := t])"
proof -
  note r = tool_state_result [OF s] and t = append_fragments_ok [OF a]
  have i: "lt_index t = index" using t r(2) by simp
  have m': "distinct (map lt_index ts')" "lt_index ` set ts' = insert index (call_indices tr)"
    "\<forall>t \<in> set ts'. lt_id t = joined_id (lt_index t) tr \<and> lt_name t = joined_name (lt_index t) tr
      \<and> lt_arguments t = joined_arguments (lt_index t) tr"
    using r(3) m joined_absent [of index tr] by (auto simp: tools_match_def) blast
  have d: "map lt_index (ts'[k := t]) = map lt_index ts'"
    using r(1,2) i by (simp add: map_update list_update_same_conv)
  have o: "x = t \<or> x \<in> set ts' \<and> lt_index x \<noteq> index" if "x \<in> set (ts'[k := t])" for x
  proof -
    from that obtain j where j: "j < length ts'" "x = ts'[k := t] ! j" by (auto simp: in_set_conv_nth)
    show ?thesis
    proof (cases "j = k")
      case False
      with j r(1,2) m'(1) have "lt_index x \<noteq> index" by (auto simp: distinct_conv_nth)
      with False j show ?thesis by simp
    qed (use j in simp)
  qed
  have "ts' ! k \<in> set ts'" using r(1) by simp
  with m'(3) r(2) have k: "lt_id (ts' ! k) = joined_id index tr" "lt_name (ts' ! k) = joined_name index tr"
    "lt_arguments (ts' ! k) = joined_arguments index tr" by auto
  have f: "lt_id t = joined_id index tr @ bytes_in i" "lt_name t = joined_name index tr @ bytes_in name"
    "lt_arguments t = joined_arguments index tr @ bytes_in arguments" using t k by simp_all
  let ?x = "Out_event (OI_LLM_EVENT_TOOL_CALL index i name arguments)"
  have j: "joined sel j (tr @ [?x]) = (if j = index then joined sel j tr @ bytes_in (sel (i, name, arguments)) else joined sel j tr)"
    for sel j by (simp add: joined_snoc)
  have "lt_id x = joined_id (lt_index x) (tr @ [?x]) \<and> lt_name x = joined_name (lt_index x) (tr @ [?x])
      \<and> lt_arguments x = joined_arguments (lt_index x) (tr @ [?x])" if "x \<in> set (ts'[k := t])" for x
    using o [OF that]
  proof
    assume "x = t"
    then show ?thesis using f i by (simp add: j)
  next
    assume "x \<in> set ts' \<and> lt_index x \<noteq> index"
    then show ?thesis using m'(3) by (simp add: j)
  qed
  moreover have "lt_index ` set (ts'[k := t]) = lt_index ` set ts'" using d by (metis set_map)
  then have "lt_index ` set (ts'[k := t]) = call_indices (tr @ [?x])" using m'(2) by (simp add: call_indices_snoc)
  ultimately show ?thesis using d m'(1) by (simp only: tools_match_def) blast
qed

lemma no_done: "ends_last stop tr \<Longrightarrow> \<not> ends stop tr \<Longrightarrow> Out_done st code b \<notin> set tr"
proof
  assume e: "ends_last stop tr" "\<not> ends stop tr" "Out_done st code b \<in> set tr"
  then obtain n where n: "n < length tr" "tr ! n = Out_done st code b" by (auto simp: in_set_conv_nth)
  then have t: "ends stop (take (Suc n) tr)" by (simp add: ends_def take_Suc_conv_app_nth)
  show False
  proof (cases "Suc n < length tr")
    case True
    with t e(1) show False by (simp add: ends_last_def)
  next
    case False
    with t n(1) e(2) show False by simp
  qed
qed

lemma ok_live:
  assumes "request_ok outside stop events strtod r" and "\<not> rq_freed r"
  shows "\<not> ends stop (rq_user r)" and "Out_done st code b \<notin> set (rq_user r)" and "\<not> rq_finished r"
  using assms no_done [of stop "rq_user r" st code b] by (auto simp: request_ok_def)

lemma ok_fields [simp]:
  "request_ok outside stop events strtod (r\<lparr>rq_http := p\<rparr>) = request_ok outside stop events strtod r"
  "request_ok outside stop events strtod (r\<lparr>rq_sse := s\<rparr>) = request_ok outside stop events strtod r"
  "request_ok outside stop events strtod (r\<lparr>rq_json := j\<rparr>) = request_ok outside stop events strtod r"
  "request_ok outside stop events strtod (r\<lparr>rq_heap := h\<rparr>) = request_ok outside stop events strtod r"
  "request_ok outside stop events strtod (r\<lparr>rq_error_cap := n\<rparr>) = request_ok outside stop events strtod r"
  "request_ok outside stop events strtod (r\<lparr>rq_sent := w\<rparr>) = request_ok outside stop events strtod r"
  by (simp_all add: request_ok_def)

lemma finish_ok:
  assumes "request_ok outside stop events strtod r" and "\<not> rq_freed r" and "length (bytes_in b) \<le> oi_llm_max_error_body"
    and "st = OI_OK \<Longrightarrow> 200 \<le> code \<and> code < 300 \<and> b = None \<and> (events \<longrightarrow> calls_complete strtod (rq_user r))"
  shows "request_ok outside stop events strtod (finish r st code b)" and "rq_freed (finish r st code b)"
  using assms ok_live [OF assms(1,2)]
  by (auto simp: finish_def request_teardown_def request_ok_def recording_def calls_other ends_snoc ends_last_snoc)

lemma answers_ok:
  assumes "request_ok outside stop events strtod r" and "\<not> rq_freed r" and "\<not> is_done x"
    and "events \<Longrightarrow> \<not> rq_failed r \<Longrightarrow> tools_match (rq_user r @ [x]) ts"
    and "\<not> rq_failed r \<Longrightarrow> rq_saw_done r \<Longrightarrow> tools_complete strtod ts"
  shows "request_ok outside stop events strtod
    (client_answers (r\<lparr>rq_tools := ts, rq_heap := h\<rparr>) (rq_user r @ [x], stop (rq_user r @ [x])))"
  using assms ok_live [OF assms(1,2)]
  by (cases x)
     (auto simp: client_answers_def oi_llm_request_cancel_def request_teardown_def request_ok_def recording_def
        ends_snoc ends_last_snoc)

lemma answers_plain_ok:
  assumes "request_ok outside stop events strtod r" and "\<not> rq_freed r" and "\<not> is_done x" and "call_of x = None"
  shows "request_ok outside stop events strtod (client_answers r (rq_user r @ [x], stop (rq_user r @ [x])))"
  using answers_ok [OF assms(1,2,3), of "rq_tools r" "rq_heap r"] assms
  by (simp add: match_other request_ok_def)

lemma answers_keep [simp]:
  "rq_failed (client_answers r a) = rq_failed r" "rq_saw_done (client_answers r a) = rq_saw_done r"
  "rq_callbacks (client_answers r a) = rq_callbacks r" "rq_misused (client_answers r a) = rq_misused r"
  by (simp_all add: client_answers_def oi_llm_request_cancel_def request_teardown_def split: prod.splits)

lemma fail_body_ok:
  assumes "request_ok outside stop events strtod r" and "st \<noteq> OI_OK"
  shows "request_ok outside stop events strtod (fail_body st r)"
  using assms by (auto simp: request_ok_def fail_body_def)

lemma fail_keep [simp]: "rq_freed (fail_body st r) = rq_freed r"
  by (simp add: fail_body_def)

lemma cancel_ok:
  assumes "request_ok outside stop events strtod r"
  shows "request_ok True stop events strtod (oi_llm_request_cancel r)" and "rq_freed (oi_llm_request_cancel r)"
  using assms by (auto simp: request_ok_def oi_llm_request_cancel_def request_teardown_def)

lemma error_body_bound:
  "request_ok outside stop events strtod r \<Longrightarrow> length (bytes_in (error_body r)) \<le> oi_llm_max_error_body"
  by (simp add: request_ok_def error_body_def bytes_in_def)

lemma ok_error_buf:
  "request_ok outside stop events strtod r \<Longrightarrow> length b \<le> oi_llm_max_error_body \<Longrightarrow>
   request_ok outside stop events strtod (r\<lparr>rq_error_buf := b\<rparr>)"
  by (simp add: request_ok_def)

lemma error_append_ok:
  assumes "request_ok outside stop events strtod r" and "error_buf_append r data = (st, r')"
  shows "request_ok outside stop events strtod r'" and "rq_freed r' = rq_freed r"
proof -
  have l: "length (rq_error_buf r @ take (min (length data) (oi_llm_max_error_body - length (rq_error_buf r))) data)
      \<le> oi_llm_max_error_body" if "length (rq_error_buf r) < oi_llm_max_error_body"
    using that by simp
  show "request_ok outside stop events strtod r'"
    using assms ok_error_buf [OF assms(1) l] by (auto simp: error_buf_append_def Let_def split: if_splits)
  show "rq_freed r' = rq_freed r"
    using assms(2) by (auto simp: error_buf_append_def Let_def split: if_splits)
qed

lemma ok_recording: "request_ok outside stop events strtod r \<Longrightarrow> rq_callbacks r = recording stop events"
  by (simp add: request_ok_def)

lemma ok_tools_free:
  assumes "request_ok outside stop events strtod r" and "rq_failed r \<or> rq_freed r"
  shows "request_ok outside stop events strtod (r\<lparr>rq_tools := ts\<rparr>)"
  using assms by (auto simp: request_ok_def)

lemma tool_match_kept:
  "request_ok outside stop events strtod r \<Longrightarrow> \<not> rq_freed r \<Longrightarrow> \<not> rq_failed r \<Longrightarrow> events \<Longrightarrow> tools_match (rq_user r) (rq_tools r)"
  by (simp add: request_ok_def)

text \<open>After a failure the calls may be in disorder: the request is marked as failed at once.\<close>

definition calls_settled :: "oi_status \<Rightarrow> 'u oi_llm_request \<Rightarrow> 'u oi_llm_request" where
  "calls_settled st r = (if st = OI_ERR_CLOSED \<or> st = OI_OK then r else fail_body st r)"

lemma fail_tools:
  assumes "request_ok outside stop events strtod r" and "st \<noteq> OI_OK"
  shows "request_ok outside stop events strtod (fail_body st (r\<lparr>rq_tools := ts, rq_heap := h\<rparr>))"
  using assms by (auto simp: request_ok_def fail_body_def)

lemma handle_calls_ok:
  assumes "request_ok outside stop events strtod r" and "\<not> rq_freed r" and "\<not> rq_failed r" and "\<not> rq_saw_done r"
    and "handle_calls huge r calls = (st, r')"
  shows "request_ok outside stop events strtod (calls_settled st r')"
  using assms
proof (induction calls arbitrary: r)
  case (Cons call calls)
  show ?case
  proof (cases "call_fragments huge call")
    case None
    with Cons.prems show ?thesis by (auto simp: calls_settled_def intro: fail_body_ok)
  next
    case (Some c)
    then obtain index i name arguments where c: "call_fragments huge call = Some (index, i, name, arguments)"
      by (metis prod_cases4)
    obtain res h where t: "tool_state (rq_heap r) (rq_tools r) index = (res, h)" by fastforce
    show ?thesis
    proof (cases res)
      case (Inl st')
      with c t Cons.prems(1,5) show ?thesis by (auto simp: calls_settled_def intro: fail_body_ok)
    next
      case (Inr tk)
      then obtain ts k where tk: "tool_state (rq_heap r) (rq_tools r) index = (Inr (ts, k), h)" using t by (cases tk) auto
      obtain st1 t1 h1 where a: "append_fragments h (ts ! k) i name arguments = (st1, t1, h1)" by (metis prod_cases3)
      let ?r = "r\<lparr>rq_tools := ts[k := t1], rq_heap := h1\<rparr>" and ?e = "OI_LLM_EVENT_TOOL_CALL index i name arguments"
      show ?thesis
      proof (cases "st1 = OI_OK")
        case False
        with c tk a Cons.prems(1,5) append_fragments_status [OF a] show ?thesis
          by (auto simp: calls_settled_def intro: fail_tools)
      next
        case True
        obtain r2 gone where e: "emit_event ?r ?e = (r2, gone)" by fastforce
        have m: "tools_match (rq_user r @ [Out_event ?e]) (ts[k := t1])" if events
          using fragments_match [OF tool_match_kept [OF Cons.prems(1,2,3) that] tk] a True by simp
        have s: "handle_calls huge r (call # calls) = (if gone then (OI_ERR_CLOSED, r2) else handle_calls huge r2 calls)"
          using c tk a True e by simp
        have r2: "request_ok outside stop events strtod r2 \<and> rq_failed r2 = rq_failed r \<and> rq_saw_done r2 = rq_saw_done r
          \<and> gone = rq_freed r2"
        proof (cases events)
          case True
          have "r2 = client_answers ?r (rq_user r @ [Out_event ?e], stop (rq_user r @ [Out_event ?e])) \<and> gone = rq_freed r2"
            using e True ok_recording [OF Cons.prems(1)] by (auto simp: emit_event_def recording_def Let_def)
          moreover have "request_ok outside stop events strtod
            (client_answers ?r (rq_user r @ [Out_event ?e], stop (rq_user r @ [Out_event ?e])))"
            by (rule answers_ok [OF Cons.prems(1,2)]) (use m Cons.prems(4) in auto)
          ultimately show ?thesis by auto
        next
          case False
          then have "r2 = ?r" "\<not> gone" using e ok_recording [OF Cons.prems(1)] by (auto simp: emit_event_def recording_def)
          moreover have "request_ok outside stop events strtod ?r"
            using Cons.prems(1,2,4) False by (auto simp: request_ok_def)
          ultimately show ?thesis using Cons.prems(2) by simp
        qed
        show ?thesis
        proof (cases gone)
          case True
          with s r2 Cons.prems(5) show ?thesis by (auto simp: calls_settled_def)
        next
          case False
          with s r2 Cons.prems show ?thesis by (intro Cons.IH [of r2]) auto
        qed
      qed
    qed
  qed
qed (simp add: calls_settled_def)

lemma handle_tool_calls_ok:
  assumes "request_ok outside stop events strtod r" and "\<not> rq_freed r" and "\<not> rq_failed r" and "\<not> rq_saw_done r"
    and "handle_tool_calls huge r calls = (st, r')"
  shows "request_ok outside stop events strtod (calls_settled st r')"
proof (cases "\<exists>xs c. calls = Some (JSON_ARRAY xs c)")
  case True
  with assms(5) handle_calls_ok [OF assms(1-4)] show ?thesis by (auto simp: handle_tool_calls_def)
next
  case False
  with assms(5) have "r' = r \<and> (st = OI_OK \<or> st = OI_ERR_PARSE)"
    by (auto simp: handle_tool_calls_def split: option.splits oi_json_value.splits)
  with assms(1) show ?thesis by (auto simp: calls_settled_def intro: fail_body_ok)
qed

lemma deliver_calls_ok:
  assumes "request_ok outside stop events strtod r" and "\<not> rq_failed r" and "\<not> rq_saw_done r"
    and "events \<Longrightarrow> \<not> rq_freed r"
  shows "request_ok outside stop events strtod (deliver_calls huge calls r)"
proof (cases "rq_freed r")
  case True
  then have "\<not> events" using assms(4) by blast
  with assms(1) have "request_ok outside stop events strtod (r\<lparr>rq_misused := True\<rparr>)" by (simp add: request_ok_def)
  with True assms(1) show ?thesis by (simp add: deliver_calls_def split: option.splits oi_json_value.splits)
next
  case False
  obtain st r' where h: "handle_tool_calls huge r calls = (st, r')" by fastforce
  from handle_tool_calls_ok [OF assms(1) False assms(2,3) h] h False show ?thesis
    by (simp add: deliver_calls_def calls_settled_def)
qed

lemma deliver_delta_ok:
  assumes "request_ok outside stop events strtod r" and "\<not> rq_freed r" and "\<not> rq_failed r" and "\<not> rq_saw_done r"
  shows "request_ok outside stop events strtod (deliver_delta huge delta r)"
proof (cases "oi_json_get_string (oi_json_object_get delta (bytes_of ''content''))")
  case (Inl st)
  with assms deliver_calls_ok [OF assms(1,3,4)] show ?thesis by (simp add: deliver_delta_def)
next
  case (Inr t)
  show ?thesis
  proof (cases events)
    case True
    have "request_ok outside stop events strtod (client_answers r (rq_user r @ [Out_event (OI_LLM_EVENT_TEXT t)],
        stop (rq_user r @ [Out_event (OI_LLM_EVENT_TEXT t)])))" (is "request_ok _ _ _ _ ?r")
      by (rule answers_plain_ok [OF assms(1,2)]) simp_all
    with deliver_calls_ok [of outside stop events strtod ?r] assms Inr True ok_recording [OF assms(1)] show ?thesis
      by (auto simp: deliver_delta_def emit_event_def recording_def Let_def)
  next
    case False
    have "request_ok outside stop events strtod (client_answers r (rq_user r @ [Out_delta t],
        stop (rq_user r @ [Out_delta t])))" (is "request_ok _ _ _ _ ?r")
      by (rule answers_plain_ok [OF assms(1,2)]) simp_all
    with deliver_calls_ok [of outside stop events strtod ?r] assms Inr False ok_recording [OF assms(1)] show ?thesis
      by (auto simp: deliver_delta_def emit_event_def recording_def Let_def)
  qed
qed

lemma validate_complete: "validate_calls strtod p ts = (OI_OK, q) \<Longrightarrow> tools_complete strtod ts"
proof (induction strtod p ts rule: validate_calls.induct)
  case (2 strtod p t ts)
  obtain st p1 where s: "parse_text strtod p (lt_arguments t) = (st, p1)" by fastforce
  with 2 have "call_complete strtod (lt_id t) (lt_name t) (lt_arguments t)"
    by (auto simp: call_complete_def object_text_def split: if_splits intro!: exI [of _ p])
  moreover from 2 s have "tools_complete strtod ts" by (auto split: if_splits)
  ultimately show ?case by (simp add: tools_complete_def)
qed (simp add: tools_complete_def)

lemma live_saw_done:
  assumes "request_ok outside stop events strtod r" and "tools_complete strtod (rq_tools r)"
  shows "request_ok outside stop events strtod (r\<lparr>rq_saw_done := True\<rparr>)"
  using assms by (simp add: request_ok_def)

lemma handle_sse_event_ok:
  assumes "request_ok outside stop events strtod r" and "\<not> rq_freed r"
  shows "request_ok outside stop events strtod (handle_sse_event strtod huge r data)"
proof -
  obtain st p where v: "validate_calls strtod (rq_json r) (rq_tools r) = (st, p)" by fastforce
  then have "st = OI_OK \<Longrightarrow> tools_complete strtod (rq_tools r)" by (simp add: validate_complete)
  with assms v have d: "request_ok outside stop events strtod
      (case validate_tool_calls strtod r of (st, r) \<Rightarrow> if st \<noteq> OI_OK then fail_body st r else r\<lparr>rq_saw_done := True\<rparr>)"
    by (auto simp: validate_tool_calls_def intro: fail_body_ok live_saw_done)
  obtain st q where q: "parse_text strtod (rq_json r) data = (st, q)" by fastforce
  have "request_ok outside stop events strtod (deliver_delta huge delta (r\<lparr>rq_json := q\<rparr>))"
    if "\<not> rq_failed r" "\<not> rq_saw_done r" for delta
    by (rule deliver_delta_ok) (use assms that in simp_all)
  with assms d q show ?thesis
    by (auto simp: handle_sse_event_def Let_def intro: fail_body_ok)
qed

text \<open>The request is as it should be, and of a status of success if it was; \<open>gone\<close> says whether it was freed.\<close>

definition kept ::
  "bool \<Rightarrow> (llm_output list \<Rightarrow> bool) \<Rightarrow> bool \<Rightarrow> strtod \<Rightarrow> bool \<Rightarrow> bool \<Rightarrow> (llm_output list) oi_llm_request \<Rightarrow> bool" where
  "kept outside stop events strtod success gone r \<longleftrightarrow>
     request_ok outside stop events strtod r \<and> rq_freed r = gone \<and> rq_success r = success"

lemma handle_calls_success: "handle_calls huge r calls = (st, r') \<Longrightarrow> rq_success r' = rq_success r"
proof (induction calls arbitrary: r)
  case (Cons call calls)
  then show ?case
    by (auto simp: emit_event_def client_answers_def oi_llm_request_cancel_def request_teardown_def Let_def
        split: option.splits prod.splits sum.splits if_splits)
qed simp

lemma deliver_calls_success: "rq_success (deliver_calls huge calls r) = rq_success r"
  by (auto simp: deliver_calls_def handle_tool_calls_def fail_body_def dest: handle_calls_success
      split: option.splits oi_json_value.splits prod.splits)

lemma answers_success [simp]: "rq_success (client_answers r a) = rq_success r"
  by (simp add: client_answers_def oi_llm_request_cancel_def request_teardown_def split: prod.splits)

lemma deliver_delta_success: "rq_success (deliver_delta huge delta r) = rq_success r"
  by (auto simp: deliver_delta_def emit_event_def deliver_calls_success Let_def split: option.splits sum.splits)

lemma handle_sse_event_success: "rq_success (handle_sse_event strtod huge r data) = rq_success r"
  by (auto simp: handle_sse_event_def validate_tool_calls_def fail_body_def deliver_delta_success Let_def split: prod.splits)

lemma on_sse_kept:
  assumes "kept outside stop events strtod success False r"
  shows "if snd (the (on_sse strtod huge) r d)
    then kept outside stop events strtod success True (fst (the (on_sse strtod huge) r d))
    else kept outside stop events strtod success False (fst (the (on_sse strtod huge) r d))"
  using assms handle_sse_event_ok [of outside stop events strtod r]
  by (simp add: on_sse_def kept_def handle_sse_event_success Let_def)

lemma sse_answers_ok:
  assumes "if s = None then kept outside stop events strtod success True r else kept outside stop events strtod success False r"
    and "sse_answers (st, s, r) = (st', r')"
  shows "request_ok outside stop events strtod r'" and "rq_success r' = success"
  using assms by (auto simp: sse_answers_def kept_def split: if_splits)

lemma sse_parser_ok:
  assumes "request_ok outside stop events strtod r" and "\<not> rq_freed r"
    and "sse_answers (oi_llm_sse_parser_feed (on_sse strtod huge) s r data) = (st, r')
      \<or> sse_answers (oi_llm_sse_parser_finish (on_sse strtod huge) s r) = (st, r')"
  shows "request_ok outside stop events strtod r'" and "rq_success r' = rq_success r"
proof -
  let ?f = "the (on_sse strtod huge)"
  have f: "on_sse strtod huge = Some ?f" by (simp add: on_sse_def)
  have r: "kept outside stop events strtod (rq_success r) False r" using assms(1,2) by (simp add: kept_def)
  obtain st1 s1 r1 where a: "if s1 = None then kept outside stop events strtod (rq_success r) True r1
      else kept outside stop events strtod (rq_success r) False r1" "sse_answers (st1, s1, r1) = (st, r')"
  proof -
    obtain st1 s1 r1 where 1: "oi_llm_sse_parser_feed (Some ?f) s r data = (st1, s1, r1)" by (metis prod_cases3)
    obtain st2 s2 r2 where 2: "oi_llm_sse_parser_finish (Some ?f) s r = (st2, s2, r2)" by (metis prod_cases3)
    note k = on_sse_kept [where outside = outside and stop = stop and events = events and strtod = strtod
        and huge = huge and success = "rq_success r"]
    from sse_feed_keeps [OF k r 1] sse_finish_keeps [OF k r 2] assms(3) 1 2 f that show ?thesis by metis
  qed
  from sse_answers_ok [OF a] show "request_ok outside stop events strtod r'" and "rq_success r' = rq_success r" .
qed

lemma headers_ok:
  assumes "request_ok outside stop events strtod r" and "\<not> rq_freed r"
  shows "request_ok outside stop events strtod (req_on_headers_done r code)" and "\<not> rq_freed (req_on_headers_done r code)"
  using assms by (auto simp: req_on_headers_done_def request_ok_def fail_body_def Let_def split: option.splits)

lemma body_ok:
  assumes "request_ok outside stop events strtod r" and "\<not> rq_freed r"
  shows "request_ok outside stop events strtod (req_on_body strtod huge r data)"
proof (cases "rq_failed r")
  case False
  let ?res = "if rq_success r then (case rq_sse r of None \<Rightarrow> (OI_ERR_INVAL, r)
      | Some s \<Rightarrow> sse_answers (oi_llm_sse_parser_feed (on_sse strtod huge) s r data)) else error_buf_append r data"
  obtain st r' where s: "?res = (st, r')" by fastforce
  then have "request_ok outside stop events strtod r'"
    using assms(1)
    by (auto split: option.splits if_splits dest: sse_parser_ok(1) [OF assms disjI1] error_append_ok(1) [OF assms(1)])
  with s False show ?thesis by (auto simp: req_on_body_def intro: fail_body_ok)
qed (use assms in \<open>simp add: req_on_body_def\<close>)

lemma http_feed_ok:
  assumes "request_ok outside stop events strtod r" and "\<not> rq_freed r"
    and "oi_llm_http_parser_feed (on_http strtod huge) p r data = (st, p', r')"
  shows "request_ok outside stop events strtod r'"
proof -
  let ?P = "\<lambda>r. request_ok outside stop events strtod r \<and> \<not> rq_freed r"
    and ?Q = "\<lambda>r. request_ok outside stop events strtod r \<and> rq_freed r"
  have k: "?P u \<Longrightarrow> if snd (on_http strtod huge u e) then ?Q (fst (on_http strtod huge u e)) else ?P (fst (on_http strtod huge u e))" for u e
    using headers_ok [of outside stop events strtod u] body_ok [of outside stop events strtod u]
    by (cases e) (auto simp: on_http_def Let_def)
  from http_feed_keeps [of ?P _ ?Q, OF k _ assms(3)] assms(1,2) show ?thesis by (auto split: if_splits)
qed

lemma body_done_ok:
  assumes "request_ok outside stop events strtod r" and "\<not> rq_freed r"
  shows "request_ok outside stop events strtod (body_done strtod huge r)"
proof (cases "rq_success r")
  case False
  have "request_ok outside stop events strtod (finish r OI_ERR_IO (rq_http_status r) (error_body r))"
    by (rule finish_ok(1) [OF assms(1,2) error_body_bound [OF assms(1)]]) simp
  with False show ?thesis by (simp add: body_done_def)
next
  case True
  let ?res = "case rq_sse r of None \<Rightarrow> (OI_ERR_INVAL, r)
      | Some s \<Rightarrow> sse_answers (oi_llm_sse_parser_finish (on_sse strtod huge) s r)"
  obtain st r' where s: "?res = (st, r')" by fastforce
  then have r: "request_ok outside stop events strtod r'" and u: "rq_success r'"
    using assms(1) True by (auto split: option.splits dest: sse_parser_ok [OF assms disjI2])
  show ?thesis
  proof (cases "rq_freed r'")
    case True
    with r s \<open>rq_success r\<close> show ?thesis by (simp add: body_done_def)
  next
    case False
    have f: "request_ok outside stop events strtod (finish r' st' code None)" if "st' \<noteq> OI_OK" for st' code
      by (rule finish_ok(1) [OF r False]) (use that in \<open>simp_all add: bytes_in_def\<close>)
    have n: "rq_failed_status r' \<noteq> OI_OK" if "rq_failed r'" using r that by (simp add: request_ok_def)
    have "calls_complete strtod (rq_user r')" if "\<not> rq_failed r'" "rq_saw_done r'" events
      using r False that complete_calls by (auto simp: request_ok_def)
    then have "request_ok outside stop events strtod (finish r' OI_OK (rq_http_status r') None)"
      if "\<not> rq_failed r'" "rq_saw_done r'"
      by (intro finish_ok(1) [OF r False]) (use that r u in \<open>auto simp: bytes_in_def request_ok_def\<close>)
    with f n s \<open>rq_success r\<close> False show ?thesis by (simp add: body_done_def)
  qed
qed

lemma data_ok:
  assumes "request_ok outside stop events strtod r" and "\<not> rq_freed r"
  shows "request_ok outside stop events strtod (req_on_data strtod huge r data)"
proof -
  obtain st p r1 where f: "oi_llm_http_parser_feed (on_http strtod huge) (rq_http r) r data = (st, p, r1)" by (metis prod_cases3)
  note r1 = http_feed_ok [OF assms f]
  let ?r = "case p of None \<Rightarrow> r1 | Some p \<Rightarrow> r1\<lparr>rq_http := p\<rparr>"
  have r: "request_ok outside stop events strtod ?r" "rq_freed ?r = rq_freed r1" using r1 by (simp_all split: option.split)
  show ?thesis
  proof (cases "rq_freed r1")
    case True
    with f r1 show ?thesis by (simp add: req_on_data_def)
  next
    case False
    with r have n: "\<not> rq_freed ?r" by simp
    have e: "request_ok outside stop events strtod (finish ?r st' (rq_http_status ?r) (error_body ?r))" if "st' \<noteq> OI_OK" for st'
      by (rule finish_ok(1) [OF r(1) n error_body_bound [OF r(1)]]) (use that in simp)
    have "rq_failed_status ?r \<noteq> OI_OK" if "rq_failed ?r" using r(1) that by (simp add: request_ok_def)
    with e body_done_ok [OF r(1) n] r(1) f False show ?thesis by (simp add: req_on_data_def Let_def)
  qed
qed

lemma finish_sent: "finish (r\<lparr>rq_sent := x\<rparr>) st code b = (finish r st code b)\<lparr>rq_sent := x\<rparr>"
  by (cases r) (simp add: finish_def request_teardown_def split: option.split)

lemma input_ok:
  assumes "request_ok outside stop events strtod r" and "i \<noteq> Conn_error OI_OK"
  shows "request_ok (outside \<or> i = Cancelled) stop events strtod (request_input strtod huge r i)"
    and "i = Timed_out \<or> i = Cancelled \<or> (\<exists>reason. i = Conn_error reason) \<Longrightarrow> rq_freed (request_input strtod huge r i)"
    and "rq_freed r \<Longrightarrow> rq_freed (request_input strtod huge r i)"
proof -
  have fin: "request_ok outside stop events strtod (finish r st code b) \<and> rq_freed (finish r st code b)"
    if "\<not> rq_freed r" "length (bytes_in b) \<le> oi_llm_max_error_body" "st \<noteq> OI_OK" for st code b
    by (intro conjI finish_ok [OF assms(1) that(1,2)]) (use that(3) in simp_all)
  note over = fin [OF _ error_body_bound [OF assms(1)]] fin [where b = None]
  have gone: "request_ok True stop events strtod r" if "rq_freed r" using assms(1) that by (simp add: request_ok_def)
  show "request_ok (outside \<or> i = Cancelled) stop events strtod (request_input strtod huge r i)"
  proof (cases "rq_freed r")
    case True
    with gone assms(1) show ?thesis by (cases "i = Cancelled") (simp_all add: request_input_def)
  next
    case False
    show ?thesis
    proof (cases i)
      case (Connected w1 w2)
      with False over(2) assms(1) show ?thesis
        by (simp add: request_input_def req_on_connected_def bytes_in_def finish_sent Let_def)
    next
      case (Received data)
      with False data_ok [OF assms(1)] show ?thesis by (simp add: request_input_def)
    next
      case (Conn_error reason)
      with False over(1) assms(2) show ?thesis by (simp add: request_input_def req_on_error_def)
    next
      case Timed_out
      with False over(1) show ?thesis by (simp add: request_input_def request_timed_out_def)
    next
      case Cancelled
      with False cancel_ok(1) [OF assms(1)] show ?thesis by (simp add: request_input_def)
    qed
  qed
  show "rq_freed (request_input strtod huge r i)" if "i = Timed_out \<or> i = Cancelled \<or> (\<exists>reason. i = Conn_error reason)"
    using that assms(2) cancel_ok(2) [OF assms(1)]
    by (auto simp: request_input_def req_on_error_def request_timed_out_def intro: over(1) [THEN conjunct2])
  show "rq_freed (request_input strtod huge r i)" if "rq_freed r" using that by (simp add: request_input_def)
qed

lemma run_ok:
  assumes "request_ok outside stop events strtod r" and "Conn_error OI_OK \<notin> set is"
  shows "request_ok (outside \<or> Cancelled \<in> set is) stop events strtod (request_run strtod huge r is)
    \<and> (rq_freed r \<or> Timed_out \<in> set is \<or> Cancelled \<in> set is \<or> (\<exists>reason. Conn_error reason \<in> set is)
        \<longrightarrow> rq_freed (request_run strtod huge r is))"
  using assms
proof (induction "is" arbitrary: outside r)
  case (Cons i "is")
  have i: "i \<noteq> Conn_error OI_OK" "Conn_error OI_OK \<notin> set is" using Cons.prems(2) by auto
  note s = input_ok [OF Cons.prems(1) i(1), of huge]
  have "request_run strtod huge r (i # is) = request_run strtod huge (request_input strtod huge r i) is"
    by (simp add: request_run_def)
  moreover have "(outside \<or> Cancelled \<in> set (i # is)) = ((outside \<or> i = Cancelled) \<or> Cancelled \<in> set is)" by auto
  ultimately show ?case using Cons.IH [OF s(1) i(2)] s(2,3) by auto
qed (simp add: request_run_def)

lemma start_ok:
  assumes "request_start h connect timer c arena text (recording stop events) [] = Inr r"
  shows "request_ok False stop events strtod r" and "\<not> rq_freed r"
  using assms
  by (auto simp: request_start_def request_ok_def ends_last_def ends_def tools_match_def call_indices_def
      oi_llm_max_error_body_def Let_def split: if_splits option.splits)

section \<open>The request text\<close>

text \<open>The lines of the request, without their ends.\<close>

definition request_lines :: "oi_llm_client \<Rightarrow> nat \<Rightarrow> bytes list" where
  "request_lines c n =
     [bytes_of ''POST '' @ cl_path c @ bytes_of '' HTTP/1.1'', bytes_of ''Host: '' @ cl_host c,
      bytes_of ''Content-Type: application/json'', bytes_of ''Content-Length: '' @ decimal n]
     @ (case cl_api_key c of None \<Rightarrow> [] | Some k \<Rightarrow> [bytes_of ''Authorization: Bearer '' @ k])
     @ [bytes_of ''Connection: close'']"

lemma header_is_lines: "request_header c n = concat (map crlf (request_lines c n)) @ crlf []"
  by (simp add: request_header_def request_lines_def request_line_def crlf_def split: option.split)

definition one_line :: "bytes \<Rightarrow> bool" where
  "one_line l \<longleftrightarrow> 0x0D \<notin> set l \<and> 0x0A \<notin> set l"

lemma one_line_append [simp]: "one_line (a @ b) \<longleftrightarrow> one_line a \<and> one_line b"
  by (auto simp: one_line_def)

lemma one_line_printable: "list_all (\<lambda>p. \<not> (p < 0x20 \<or> p = 0x7F)) l \<Longrightarrow> one_line l"
  by (auto simp: one_line_def list_all_iff)

lemma created_one_line:
  assumes "oi_llm_client_create h cfg = Some c"
  shows "one_line (cl_host c)" and "one_line (cl_path c)" and "\<And>k. cl_api_key c = Some k \<Longrightarrow> one_line k"
proof -
  have w: "list_all (\<lambda>p :: byte. \<not> (p \<le> 0x20 \<or> p = 0x7F)) l \<Longrightarrow> one_line l" for l
    by (auto simp: one_line_def list_all_iff)
  show "one_line (cl_host c)" and "one_line (cl_path c)" and "\<And>k. cl_api_key c = Some k \<Longrightarrow> one_line k"
    using assms w one_line_printable
    by (auto simp: oi_llm_client_create_def valid_http_host_def valid_http_path_def valid_http_field_value_def
        strdup_opt_def alloc_try_def split: option.splits if_splits prod.splits sum.splits)
qed

lemma decimal_one_line: "one_line (decimal n)"
proof -
  have "\<forall>d \<in> set (decimal n). is_digit d" using decimal_correct [of n] by (simp add: digits1_def)
  then show ?thesis by (auto simp: one_line_def is_digit_def)
qed

lemma lines_one_line:
  assumes "oi_llm_client_create h cfg = Some c"
  shows "list_all one_line (request_lines c n)"
  using created_one_line [OF assms] decimal_one_line [of n]
  by (auto simp: request_lines_def bytes_of_def one_line_def split: option.splits)

section \<open>A response, as the record of the HTTP parser\<close>

text \<open>A client that follows the record of the response, step by step, through a feed.\<close>

abbreviation recorder :: "(nat list \<times> bytes) http_handler" where
  "recorder \<equiv> http_record (\<lambda>_. False)"

definition extends :: "nat list \<times> bytes \<Rightarrow> nat list \<times> bytes \<Rightarrow> bool" where
  "extends u v \<longleftrightarrow> (\<exists>x y. fst v = fst u @ x \<and> snd v = snd u @ y)"

lemma extends_refl [simp]: "extends u u"
  by (simp add: extends_def)

lemma extends_trans: "extends u v \<Longrightarrow> extends v w \<Longrightarrow> extends u w"
  by (auto simp: extends_def)

lemma recorder_extends: "extends u (fst (recorder v e)) \<and> \<not> snd (recorder v e)" if "extends u v"
  using that by (cases v; cases e) (auto simp: extends_def)

lemma record_grows: "oi_llm_http_parser_feed recorder p u bs = (st, q, v) \<Longrightarrow> extends u v"
  using http_feed_keeps [of "extends u" recorder "extends u" u p bs st q v] recorder_extends [of u] by auto

definition before_body :: "oi_llm_http_parser \<Rightarrow> bool" where
  "before_body p \<longleftrightarrow> http_state p = ST_STATUS_LINE \<or> http_state p = ST_HEADER_LINE"

text \<open>\<open>H u r\<close>: the client's state is \<open>r\<close> when the record is \<open>u\<close>.\<close>

definition follows ::
  "'u http_handler \<Rightarrow> (nat list \<times> bytes \<Rightarrow> 'u \<Rightarrow> bool) \<Rightarrow> nat list \<times> bytes \<Rightarrow> bool" where
  "follows f H v \<longleftrightarrow> (\<forall>u r e. H u r \<longrightarrow> extends (fst (recorder u e)) v \<longrightarrow> (\<forall>d. e = Body d \<longrightarrow> fst u \<noteq> [])
     \<longrightarrow> \<not> snd (f r e) \<and> H (fst (recorder u e)) (fst (f r e)))"

text \<open>A line either calls back with the status code or leaves the client alone, whoever it is.\<close>

definition notes_call :: "bool http_handler" where
  "notes_call called e = (True, False)"

lemma header_line_calls:
  "handle_header_line cb p u = (case handle_header_line notes_call p False of (st, q, called, gone) \<Rightarrow>
     if called then (case cb u (Headers_done (status_code p)) of (u', gone) \<Rightarrow> (OI_OK, q, u', gone)) else (st, q, u, False))"
  "handle_header_line notes_call p False = (st, q, called, gone) \<Longrightarrow> \<not> gone \<and> (called \<longrightarrow> st = OI_OK)"
  "handle_header_line notes_call p False = (OI_OK, q, called, gone) \<Longrightarrow> called \<or> before_body q"
  by (auto simp: handle_header_line_def finish_headers_def http_fail_def Let_def notes_call_def before_body_def
      split: prod.split option.splits if_splits)

lemma line_calls:
  "on_line_complete cb p u = (case on_line_complete notes_call p False of (st, q, called) \<Rightarrow>
     if called then (case cb u (Headers_done (status_code p)) of (u', gone) \<Rightarrow> (OI_OK, if gone then None else q, u')) else (st, q, u))"
proof (cases "http_state p = ST_HEADER_LINE")
  case True
  then show ?thesis
    using header_line_calls(1) [of cb p u] header_line_calls(2) [of p]
    by (auto simp: on_line_complete_def Let_def split: prod.splits if_splits)
next
  case False
  then show ?thesis
    by (cases "http_state p") (auto simp: on_line_complete_def Let_def split: prod.splits)
qed

lemma line_follows:
  assumes f: "follows f H v" and H: "H u r" and b: "fst u = [] \<longrightarrow> before_body p"
    and l: "on_line_complete recorder p u = (st, Some q, u')" and v: "extends u' v"
  shows "\<exists>r'. on_line_complete f p r = (st, Some q, r') \<and> H u' r' \<and> (st = OI_OK \<longrightarrow> fst u' = [] \<longrightarrow> before_body q)"
proof -
  obtain codes body where u: "u = (codes, body)" by fastforce
  obtain st1 q1 called where c: "on_line_complete notes_call p False = (st1, q1, called)" by (metis prod_cases3)
  show ?thesis
  proof (cases called)
    case True
    have "u' = (codes @ [status_code p], body)" "st = OI_OK" "q1 = Some q"
      using l True unfolding u line_calls [of recorder p "(codes, body)"] c by auto
    with f [unfolded follows_def, rule_format, OF H, of "Headers_done (status_code p)"] v u
    have "\<not> snd (f r (Headers_done (status_code p))) \<and> H u' (fst (f r (Headers_done (status_code p))))" by simp
    with \<open>u' = _\<close> \<open>st = OI_OK\<close> \<open>q1 = Some q\<close> c True show ?thesis
      by (auto simp: line_calls [of f p r] split: prod.split)
  next
    case False
    with l c have r: "u' = u" "st = st1" "q1 = Some q" by (simp_all add: line_calls [of recorder p u])
    have "before_body q" if "st1 = OI_OK" "before_body p"
      using c False r(3) that header_line_calls(3) [of p]
      by (auto simp: on_line_complete_def before_body_def handle_status_line_def http_fail_def Let_def
          split: prod.splits if_splits)
    with r c H b False show ?thesis by (auto simp: line_calls [of f p r])
  qed
qed

lemma feed_follows:
  assumes f: "follows f H v"
  shows "oi_llm_http_parser_feed recorder p u bs = (st, Some q, v) \<Longrightarrow> H u r \<Longrightarrow> fst u = [] \<longrightarrow> before_body p \<Longrightarrow>
    \<exists>r'. oi_llm_http_parser_feed f p r bs = (st, Some q, r') \<and> H v r' \<and> (st = OI_OK \<longrightarrow> fst v = [] \<longrightarrow> before_body q)"
proof (induction recorder p u bs arbitrary: r rule: oi_llm_http_parser_feed.induct)
  case (2 p u c cs)
  note feed = "2.prems"(1)
  consider (stopped) "http_state p = ST_ERROR \<or> http_state p = ST_DONE"
    | (nl) "http_state p \<noteq> ST_ERROR" "http_state p \<noteq> ST_DONE" "is_line_state (http_state p)" "c = 0x0A"
    | (ch) "http_state p \<noteq> ST_ERROR" "http_state p \<noteq> ST_DONE" "is_line_state (http_state p)" "c \<noteq> 0x0A"
    | (body) "http_state p \<noteq> ST_ERROR" "http_state p \<noteq> ST_DONE" "\<not> is_line_state (http_state p)" by blast
  then show ?case
  proof cases
    case stopped
    with "2.prems" show ?thesis by (auto simp: feed_stopped before_body_def)
  next
    case nl
    obtain st1 p1 u1 where l: "on_line_complete recorder (http_strip_cr p) u = (st1, p1, u1)" by (metis prod_cases3)
    from feed nl l obtain q1 where q1: "p1 = Some q1" by (cases p1) (auto simp: feed_newline http_then_def)
    have g: "extends u1 v"
      using feed nl l q1 record_grows [of q1 u1 cs] by (auto simp: feed_newline http_then_def split: if_splits)
    have b: "before_body (http_strip_cr p) = before_body p" by (simp add: before_body_def http_strip_cr_def)
    from line_follows [OF f "2.prems"(2) _ l [unfolded q1] g] "2.prems"(3) b obtain r1 where
      r1: "on_line_complete f (http_strip_cr p) r = (st1, Some q1, r1)" "H u1 r1"
      "st1 = OI_OK \<longrightarrow> fst u1 = [] \<longrightarrow> before_body q1" by auto
    show ?thesis
    proof (cases "st1 = OI_OK")
      case True
      with feed nl l q1 have "oi_llm_http_parser_feed recorder q1 u1 cs = (st, Some q, v)" by (simp add: feed_newline)
      from "2.hyps"(1) [OF nl l [symmetric] refl q1 _ this r1(2)] r1 True nl show ?thesis by (simp add: feed_newline)
    next
      case False
      with feed nl l q1 r1 show ?thesis by (simp add: feed_newline http_then_def)
    qed
  next
    case ch
    obtain st1 p1 where l: "http_line_append p c = (st1, p1)" by fastforce
    have b: "st1 = OI_OK \<Longrightarrow> before_body p \<Longrightarrow> before_body p1"
      using l by (auto simp: http_line_append_def http_fail_def before_body_def split: if_splits)
    show ?thesis
    proof (cases "st1 = OI_OK")
      case True
      with feed ch l have "oi_llm_http_parser_feed recorder p1 u cs = (st, Some q, v)" by (simp add: feed_char)
      from "2.hyps"(2) [OF ch l [symmetric] _ this "2.prems"(2)] b "2.prems"(3) True ch l show ?thesis by (simp add: feed_char)
    next
      case False
      with feed ch l "2.prems" show ?thesis by (simp add: feed_char)
    qed
  next
    case body
    let ?n = "min (remaining p) (length (c # cs))"
    obtain codes b where u: "u = (codes, b)" by fastforce
    let ?d = "take ?n (c # cs)"
    have n: "fst u \<noteq> []" using "2.prems"(3) body by (auto simp: before_body_def is_line_state_def)
    have rest: "oi_llm_http_parser_feed recorder (take_body p ?n) (fst (recorder u (Body ?d))) (drop ?n (c # cs)) = (st, Some q, v)"
      using feed body u by (subst (asm) feed_body) auto
    from f "2.prems"(2) n record_grows [OF rest] have s: "\<not> snd (f r (Body ?d)) \<and> H (fst (recorder u (Body ?d))) (fst (f r (Body ?d)))"
      unfolding follows_def by blast
    have "fst (fst (recorder u (Body ?d))) \<noteq> []" using n u by simp
    with "2.hyps"(3) [OF body refl _ _ rest, of False "fst (f r (Body ?d))"] s u show ?thesis
      by (subst feed_body) (use body in \<open>auto split: prod.split\<close>)
  qed
qed auto

section \<open>A response in pieces\<close>

lemma run_freed: "rq_freed r \<Longrightarrow> request_run strtod huge r is = r"
  by (induction "is") (simp_all add: request_run_def request_input_def)

lemma recorder_stays:
  assumes "oi_llm_http_parser_feed recorder p u bs = (st, q, v)"
  shows "q \<noteq> None"
proof -
  have "if snd (recorder u e) then False else True" for u e using recorder_extends [of u u e] by simp
  from http_feed_keeps [of "\<lambda>_. True" recorder "\<lambda>_. False", OF this _ assms] show ?thesis by (cases q) simp_all
qed

text \<open>However the bytes of a complete response arrive, the request goes through the same states.\<close>

lemma received_follows:
  assumes f: "follows (on_http strtod huge) H v"
    and upd: "\<And>u r p. H u r \<Longrightarrow> H u (r\<lparr>rq_http := p\<rparr>)"
    and live: "\<And>u r. H u r \<Longrightarrow> \<not> rq_freed r \<and> \<not> rq_failed r"
    and over: "\<And>r. H v r \<Longrightarrow> rq_freed (body_done strtod huge r) \<and> F (body_done strtod huge r)"
  shows "oi_llm_http_parser_feed recorder p u (concat ds) = (OI_OK, Some q, v) \<Longrightarrow> oi_llm_http_parser_body_done q \<Longrightarrow>
    \<not> oi_llm_http_parser_body_done p \<Longrightarrow> H u r \<Longrightarrow> rq_http r = p \<Longrightarrow> fst u = [] \<longrightarrow> before_body p \<Longrightarrow>
    F (request_run strtod huge r (map Received ds))"
proof (induction ds arbitrary: p u r)
  case (Cons d ds)
  obtain st p1 u1 where d: "oi_llm_http_parser_feed recorder p u d = (st, p1, u1)" by (metis prod_cases3)
  obtain q1 where q1: "p1 = Some q1" using recorder_stays [OF d] by auto
  have s: "st = OI_OK" "oi_llm_http_parser_feed recorder q1 u1 (concat ds) = (OI_OK, Some q, v)"
    using Cons.prems(1) d q1 by (auto simp: http_feed_append http_then_def split: if_splits)
  have "follows (on_http strtod huge) H u1"
    using f record_grows [OF s(2)] extends_trans unfolding follows_def by blast
  from feed_follows [OF this d [unfolded q1] Cons.prems(4,6)] s(1) obtain r1 where
    r1: "oi_llm_http_parser_feed (on_http strtod huge) p r d = (OI_OK, Some q1, r1)" "H u1 r1"
    "fst u1 = [] \<longrightarrow> before_body q1" by auto
  let ?r = "r1\<lparr>rq_http := q1\<rparr>"
  have data: "request_input strtod huge r (Received d) = (if oi_llm_http_parser_body_done q1 then body_done strtod huge ?r else ?r)"
    using r1(1) Cons.prems(4,5) live [OF Cons.prems(4)] live [OF r1(2)]
    by (simp add: request_input_def req_on_data_def)
  have run: "request_run strtod huge r (map Received (d # ds)) = request_run strtod huge (request_input strtod huge r (Received d)) (map Received ds)"
    by (simp add: request_run_def)
  show ?case
  proof (cases "oi_llm_http_parser_body_done q1")
    case True
    then have "v = u1" using s(2) by (simp add: oi_llm_http_parser_body_done_def feed_stopped)
    with over upd [OF r1(2)] run data True show ?thesis by (simp add: run_freed)
  next
    case False
    from Cons.IH [OF s(2) Cons.prems(2) False upd [OF r1(2)] _ r1(3)] run data False show ?thesis by simp
  qed
qed simp

section \<open>A stream of texts\<close>

lemma split_lines_append:
  "split_lines l (xs @ ys) = (case split_lines l xs of (ls, r) \<Rightarrow> case split_lines r ys of (ls', r') \<Rightarrow> (ls @ ls', r'))"
  by (induction l xs rule: split_lines.induct) (auto split: prod.split)

lemma sse_events_append: "sse_events (ls @ ls') = sse_events ls @ sse_events ls'"
  by (simp add: sse_events_def map_filter_def)

text \<open>A callback that goes through the events \<open>ds\<close>, \<open>P k\<close> holding after \<open>k\<close> of them.\<close>

definition steps_through :: "('u \<Rightarrow> bytes \<Rightarrow> 'u \<times> bool) \<Rightarrow> bytes list \<Rightarrow> (nat \<Rightarrow> 'u \<Rightarrow> bool) \<Rightarrow> bool" where
  "steps_through f ds P \<longleftrightarrow> (\<forall>k < length ds. \<forall>u. P k u \<longrightarrow> \<not> snd (f u (ds ! k)) \<and> P (Suc k) (fst (f u (ds ! k))))"

definition sse_at :: "bytes \<Rightarrow> oi_llm_sse_parser \<Rightarrow> bool" where
  "sse_at line p \<longleftrightarrow> sse_inv p \<and> sse_heap p = heap_ok \<and> sse_line p = line"

lemma sse_feed_steps:
  assumes s: "steps_through f ds P"
  shows "sse_at line p \<Longrightarrow> split_lines line bs = (ls, r) \<Longrightarrow> \<forall>l \<in> set (r # ls). length l \<le> oi_sse_max_line \<Longrightarrow>
   drop i ds = sse_events ls @ rest \<Longrightarrow> P i u \<Longrightarrow>
   \<exists>p' u'. oi_llm_sse_parser_feed (Some f) p u bs = (OI_OK, Some p', u') \<and> sse_at r p' \<and> P (i + length (sse_events ls)) u'"
proof (induction bs arbitrary: p u ls line i)
  case Nil
  then show ?case by (auto simp: sse_events_def map_filter_simps)
next
  case (Cons c cs)
  have line: "sse_line p = line" using Cons.prems(1) by (simp add: sse_at_def)
  show ?case
  proof (cases "c = 0x0A")
    case True
    with Cons.prems(2) obtain ls' where l: "split_lines [] cs = (ls', r)" "ls = line # ls'"
      by (auto split: prod.splits)
    let ?p = "p\<lparr>sse_line := []\<rparr>"
    have p: "sse_at [] ?p" using Cons.prems(1) by (simp add: sse_at_def sse_inv_def)
    show ?thesis
    proof (cases "sse_payload (strip_cr line)")
      case None
      then have e: "sse_events ls = sse_events ls'" by (simp add: l(2) sse_events_def map_filter_simps)
      from Cons.IH [OF p l(1) _ _ Cons.prems(5)] Cons.prems(3,4) l(2) e None True line show ?thesis
        by (simp add: process_line_def)
    next
      case (Some d)
      then have e: "sse_events ls = d # sse_events ls'" by (simp add: l(2) sse_events_def map_filter_simps)
      with Cons.prems(4) have d: "i < length ds" "ds ! i = d" "drop (Suc i) ds = sse_events ls' @ rest"
        by (metis append_Cons drop_eq_Nil leI list.distinct(1)) (use Cons.prems(4) e in \<open>metis append_Cons nth_via_drop\<close>,
          use Cons.prems(4) e in \<open>metis append_Cons drop_Suc tl_drop list.sel(3)\<close>)
      from s d(1,2) Cons.prems(5) have u: "\<not> snd (f u d)" "P (Suc i) (fst (f u d))" by (auto simp: steps_through_def)
      from Cons.IH [OF p l(1) _ d(3) u(2)] Cons.prems(3) l(2) e Some True line u(1) show ?thesis
        by (cases "f u d") (simp add: process_line_def)
    qed
  next
    case False
    with Cons.prems(2) have l: "split_lines (line @ [c]) cs = (ls, r)" by simp
    have "length (sse_line p) < oi_sse_max_line"
    proof -
      have "\<exists>t. (line @ [c]) @ t \<in> set (r # ls)" using l split_first [of "line @ [c]" cs] by simp
      then obtain t where "(line @ [c]) @ t \<in> set (r # ls)" ..
      with Cons.prems(3) have "length ((line @ [c]) @ t) \<le> oi_sse_max_line" by blast
      then show ?thesis using line by simp
    qed
    with sse_append_ok [of p c] Cons.prems(1) obtain p' where
      p': "sse_line_append p c = (OI_OK, p')" "sse_line p' = line @ [c]" "sse_heap p' = heap_ok" by (auto simp: sse_at_def)
    then have "sse_at (line @ [c]) p'" using sse_append_inv [OF _ p'(1)] Cons.prems(1) by (simp add: sse_at_def)
    from Cons.IH [OF this l Cons.prems(3-5)] p' False show ?thesis by simp
  qed
qed

lemma parse_again:
  assumes "printf_strtod_roundtrip fmt strtod" and p: "ps_room N p" and N: "N \<le> size_max div 2" "32 \<le> N"
    and v: "writable fmt v" "json_depth v \<le> oi_json_max_depth" "fits N v"
  shows "\<exists>q. parse_text strtod p (render fmt v) = (OI_OK, q) \<and> oi_json_parser_root q = Some v \<and> oi_json_parser_done q
    \<and> ps_room N q"
proof -
  have "ps_room N (oi_json_parser_reset p)" using p reset_json_inv
    by (simp add: ps_room_def) (simp add: oi_json_parser_reset_def reset_transient_def)
  moreover have "ps_state (oi_json_parser_reset p) = PS_VALUE" "ps_frames (oi_json_parser_reset p) = []"
    by (simp_all add: oi_json_parser_reset_def reset_transient_def)
  ultimately obtain p1 q where "oi_json_parser_feed strtod (oi_json_parser_reset p) (render fmt v) = (OI_OK, p1)"
    "oi_json_parser_finish strtod p1 = (OI_OK, q)" "oi_json_parser_root q = Some v" "ps_room N q"
    using value_read_back [OF assms(1) _ _ _ N v] by blast
  then show ?thesis
    by (auto simp: parse_text_def oi_json_parser_root_def oi_json_parser_done_def split: if_splits)
qed

text \<open>
  What a server sends: a reply is an object, framed as an event; the stream ends with \<open>[DONE]\<close>. \<open>reply_texts\<close> is the
  text in it, if any.
\<close>

definition done_mark :: bytes where
  "done_mark = bytes_of ''[DONE]''"

definition reply_texts :: "(bytes \<times> oi_json_value) list \<Rightarrow> bytes list" where
  "reply_texts ms = (case oi_json_get_string (oi_json_object_get (choice_delta (Some (JSON_OBJECT ms))) (bytes_of ''content'')) of
     Inr t \<Rightarrow> [t] | Inl _ \<Rightarrow> [])"

definition reply_ok :: "fmt \<Rightarrow> nat \<Rightarrow> (bytes \<times> oi_json_value) list \<Rightarrow> bool" where
  "reply_ok fmt N ms \<longleftrightarrow> writable fmt (JSON_OBJECT ms) \<and> json_depth (JSON_OBJECT ms) \<le> oi_json_max_depth \<and> fits N (JSON_OBJECT ms)
     \<and> sse_data (render fmt (JSON_OBJECT ms))
     \<and> oi_json_object_get (choice_delta (Some (JSON_OBJECT ms))) (bytes_of ''tool_calls'') = None"

definition stream_body :: "fmt \<Rightarrow> (bytes \<times> oi_json_value) list list \<Rightarrow> bytes" where
  "stream_body fmt replies = concat (map sse_frame (map (\<lambda>ms. render fmt (JSON_OBJECT ms)) replies @ [done_mark]))"

definition text_output :: "bool \<Rightarrow> bytes \<Rightarrow> llm_output" where
  "text_output events t = (if events then Out_event (OI_LLM_EVENT_TEXT t) else Out_delta t)"

text \<open>The request after \<open>k\<close> events of the stream, its client never cancelling; \<open>status\<close> is what the headers said.\<close>

definition streaming ::
  "bool \<times> nat \<Rightarrow> bool \<Rightarrow> nat \<Rightarrow> (bytes \<times> oi_json_value) list list \<Rightarrow> nat \<Rightarrow> (llm_output list) oi_llm_request \<Rightarrow> bool" where
  "streaming status events N replies k r \<longleftrightarrow>
     status = (rq_success r, rq_http_status r) \<and> rq_callbacks r = recording (\<lambda>_. False) events \<and> \<not> rq_freed r \<and> \<not> rq_finished r \<and> \<not> rq_failed r
   \<and> rq_heap r = heap_ok \<and> rq_tools r = [] \<and> ps_room N (rq_json r) \<and> k \<le> Suc (length replies)
   \<and> (rq_saw_done r \<longleftrightarrow> length replies < k)
   \<and> rq_user r = map (text_output events) (concat (map reply_texts (take k replies)))"

lemma streaming_fields [simp]:
  "streaming status events N replies k (r\<lparr>rq_sse := s\<rparr>) = streaming status events N replies k r"
  "streaming status events N replies k (r\<lparr>rq_http := p\<rparr>) = streaming status events N replies k r"
  by (simp_all add: streaming_def)

lemma answers_go_on [simp]: "client_answers r (u, False) = r\<lparr>rq_user := u\<rparr>"
  by (simp add: client_answers_def)

lemma deliver_text:
  assumes "rq_callbacks r = recording (\<lambda>_. False) events" and "\<not> rq_freed r"
    and "oi_json_object_get delta (bytes_of ''tool_calls'') = None"
  shows "deliver_delta huge delta r = r\<lparr>rq_user := rq_user r @ (case oi_json_get_string (oi_json_object_get delta (bytes_of ''content''))
    of Inr t \<Rightarrow> [text_output events t] | Inl _ \<Rightarrow> [])\<rparr>"
  using assms
  by (auto simp: deliver_delta_def emit_event_def recording_def deliver_calls_def handle_tool_calls_def text_output_def Let_def
      split: sum.split)

lemma done_mark_object: "render fmt (JSON_OBJECT ms) \<noteq> bytes_of ''[DONE]''"
  by (simp add: bytes_of_def)

lemma stream_step:
  assumes F: "printf_strtod_roundtrip fmt strtod" and N: "N \<le> size_max div 2" "32 \<le> N"
    and ok: "\<forall>ms \<in> set replies. reply_ok fmt N ms"
  shows "steps_through (\<lambda>r d. let r = handle_sse_event strtod huge r d in (r, rq_freed r))
    (map (\<lambda>ms. render fmt (JSON_OBJECT ms)) replies @ [done_mark]) (streaming status events N replies)"
  unfolding steps_through_def
proof (intro allI impI)
  fix k and r :: "(llm_output list) oi_llm_request"
  let ?ds = "map (\<lambda>ms. render fmt (JSON_OBJECT ms)) replies @ [done_mark]"
  assume k: "k < length ?ds" and r: "streaming status events N replies k r"
  have "streaming status events N replies (Suc k) (handle_sse_event strtod huge r (?ds ! k))"
  proof (cases "k < length replies")
    case True
    let ?ms = "replies ! k"
    have o: "reply_ok fmt N ?ms" using ok True by simp
    then obtain q where q: "parse_text strtod (rq_json r) (render fmt (JSON_OBJECT ?ms)) = (OI_OK, q)"
      "oi_json_parser_root q = Some (JSON_OBJECT ?ms)" "oi_json_parser_done q" "ps_room N q"
      using parse_again [OF F _ N, of "rq_json r"] r unfolding reply_ok_def streaming_def by blast
    have "handle_sse_event strtod huge r (?ds ! k) = deliver_delta huge (choice_delta (Some (JSON_OBJECT ?ms))) (r\<lparr>rq_json := q\<rparr>)"
      using True q r done_mark_object [of fmt ?ms] by (simp add: handle_sse_event_def streaming_def nth_append Let_def del: render.simps)
    also have "\<dots> = r\<lparr>rq_json := q, rq_user := rq_user r @ map (text_output events) (reply_texts ?ms)\<rparr>"
      using r o deliver_text [of "r\<lparr>rq_json := q\<rparr>" events "choice_delta (Some (JSON_OBJECT ?ms))" huge]
      by (cases "oi_json_get_string (oi_json_object_get (choice_delta (Some (JSON_OBJECT ?ms))) (bytes_of ''content''))")
         (simp_all add: streaming_def reply_ok_def reply_texts_def del: render.simps writable.simps json_depth.simps fits.simps)
    finally show ?thesis using r True q(4) by (simp add: streaming_def take_Suc_conv_app_nth)
  next
    case False
    with k have e: "k = length replies" by simp
    with r have "handle_sse_event strtod huge r (?ds ! k) = r\<lparr>rq_saw_done := True\<rparr>"
      by (simp add: handle_sse_event_def validate_tool_calls_def streaming_def done_mark_def nth_append)
    with r e show ?thesis by (simp add: streaming_def)
  qed
  then show "\<not> snd (let r = handle_sse_event strtod huge r (?ds ! k) in (r, rq_freed r))
    \<and> streaming status events N replies (Suc k) (fst (let r = handle_sse_event strtod huge r (?ds ! k) in (r, rq_freed r)))"
    by (simp add: Let_def streaming_def)
qed

text \<open>The request when the record of its response is \<open>u\<close>.\<close>

definition streamed ::
  "nat \<Rightarrow> bool \<Rightarrow> nat \<Rightarrow> (bytes \<times> oi_json_value) list list \<Rightarrow> nat list \<times> bytes \<Rightarrow> (llm_output list) oi_llm_request \<Rightarrow> bool" where
  "streamed code events N replies u r \<longleftrightarrow>
     u = ([], []) \<and> streaming (False, 0) events N replies 0 r
   \<or> fst u = [code] \<and> (\<exists>s ls line. rq_sse r = Some s \<and> sse_at line s \<and> split_lines [] (snd u) = (ls, line)
        \<and> streaming (True, code) events N replies (length (sse_events ls)) r)"

lemma headers_streamed:
  assumes "200 \<le> code" "code < 300" and "streaming (False, 0) events N replies 0 r"
  shows "streamed code events N replies ([code], []) (req_on_headers_done r code)"
proof -
  obtain s where s: "oi_llm_sse_parser_create heap_ok = Some s" by (simp add: oi_llm_sse_parser_create_def)
  then have "sse_at [] s" using sse_create_inv [OF s] by (auto simp: sse_at_def oi_llm_sse_parser_create_def split: if_splits)
  with assms s show ?thesis
    by (auto simp: req_on_headers_done_def streamed_def streaming_def sse_events_def map_filter_simps Let_def)
qed

lemma stream_lines:
  assumes ok: "\<forall>ms \<in> set replies. reply_ok fmt N ms" and b: "stream_body fmt replies = body @ d @ y"
    and l: "split_lines [] body = (ls, line)" "split_lines line d = (ls', line')"
  shows "\<exists>rest. drop (length (sse_events ls)) (map (\<lambda>ms. render fmt (JSON_OBJECT ms)) replies @ [done_mark]) = sse_events ls' @ rest
    \<and> (y = [] \<longrightarrow> rest = [] \<and> line' = [])"
    and "\<forall>x \<in> set (line' # ls'). length x \<le> oi_sse_max_line"
proof -
  let ?ds = "map (\<lambda>ms. render fmt (JSON_OBJECT ms)) replies @ [done_mark]"
  have "\<forall>x \<in> set ?ds. sse_data x" using ok
    by (auto simp: reply_ok_def done_mark_def sse_data_def bytes_of_def oi_sse_max_line_def simp del: render.simps)
  from split_frames [OF this] obtain lb where lb: "split_lines [] (stream_body fmt replies) = (lb, [])"
    "sse_events lb = ?ds" "\<forall>x \<in> set lb. length x \<le> oi_sse_max_line" unfolding stream_body_def by blast
  obtain l3 r3 where l3: "split_lines line' y = (l3, r3)" by fastforce
  have "split_lines [] (body @ d @ y) = (ls @ ls' @ l3, r3)" using l l3 by (simp add: split_lines_append)
  then have e: "lb = ls @ ls' @ l3" "r3 = []" using lb(1) b by simp_all
  then have "?ds = sse_events ls @ sse_events ls' @ sse_events l3" using lb(2) by (simp add: sse_events_append)
  then show "\<exists>rest. drop (length (sse_events ls)) ?ds = sse_events ls' @ rest \<and> (y = [] \<longrightarrow> rest = [] \<and> line' = [])"
    using l3 e(2) by (intro exI [of _ "sse_events l3"]) (auto simp: sse_events_def map_filter_simps)
  obtain t where t: "line' @ t \<in> set ([] # l3)" using split_first [of line' y] l3 e(2) by auto
  have "\<forall>x \<in> set ([] # l3). length x \<le> oi_sse_max_line" using lb(3) e(1) by (simp add: oi_sse_max_line_def)
  with t have "length (line' @ t) \<le> oi_sse_max_line" by blast
  then show "\<forall>x \<in> set (line' # ls'). length x \<le> oi_sse_max_line" using lb(3) e(1) by simp
qed

lemma body_streamed:
  assumes F: "printf_strtod_roundtrip fmt strtod" and N: "N \<le> size_max div 2" "32 \<le> N"
    and ok: "\<forall>ms \<in> set replies. reply_ok fmt N ms" and b: "stream_body fmt replies = body @ d @ y"
    and s: "streamed code events N replies ([code], body) r"
  shows "streamed code events N replies ([code], body @ d) (req_on_body strtod huge r d)"
proof -
  from s obtain p ls line where p: "rq_sse r = Some p" "sse_at line p" "split_lines [] body = (ls, line)"
    and r: "streaming (True, code) events N replies (length (sse_events ls)) r" by (auto simp: streamed_def)
  obtain ls' line' where l: "split_lines line d = (ls', line')" by fastforce
  let ?f = "\<lambda>r d. let r = handle_sse_event strtod huge r d in (r, rq_freed r)"
  from stream_lines [OF ok b p(3) l] sse_feed_steps [OF stream_step [OF F N ok] p(2) l _ _ r] obtain p' r' where
    r': "oi_llm_sse_parser_feed (Some ?f) p r d = (OI_OK, Some p', r')" "sse_at line' p'"
      "streaming (True, code) events N replies (length (sse_events ls) + length (sse_events ls')) r'" by blast
  have "req_on_body strtod huge r d = r'\<lparr>rq_sse := Some p'\<rparr>"
    using r r' p(1) by (simp add: req_on_body_def sse_answers_def on_sse_def streaming_def)
  with r' p(3) l show ?thesis by (auto simp: streamed_def split_lines_append sse_events_append)
qed

lemma response_follows:
  assumes F: "printf_strtod_roundtrip fmt strtod" and N: "N \<le> size_max div 2" "32 \<le> N"
    and ok: "\<forall>ms \<in> set replies. reply_ok fmt N ms" and c: "200 \<le> code" "code < 300"
  shows "follows (on_http strtod huge) (streamed code events N replies) ([code], stream_body fmt replies)"
  unfolding follows_def
proof (intro allI impI)
  fix u r e
  assume s: "streamed code events N replies u r" and x: "extends (fst (recorder u e)) ([code], stream_body fmt replies)"
    and n: "\<forall>d. e = Body d \<longrightarrow> fst u \<noteq> []"
  obtain codes body where u: "u = (codes, body)" by fastforce
  show "\<not> snd (on_http strtod huge r e) \<and> streamed code events N replies (fst (recorder u e)) (fst (on_http strtod huge r e))"
  proof (cases e)
    case (Headers_done m)
    with x u have "codes = []" "m = code" by (cases codes; auto simp: extends_def)+
    with s u have "streaming (False, 0) events N replies 0 r" "body = []" by (auto simp: streamed_def)
    from headers_streamed [OF c this(1)] this(2) Headers_done u \<open>codes = []\<close> \<open>m = code\<close> show ?thesis
      by (simp add: on_http_def)
  next
    case (Body d)
    with n s u have "codes = [code]" by (auto simp: streamed_def)
    moreover obtain y where "stream_body fmt replies = body @ d @ y" using x u Body by (auto simp: extends_def)
    ultimately have b: "streamed code events N replies ([code], body @ d) (req_on_body strtod huge r d)"
      using body_streamed [OF F N ok, of body d y] s u by simp
    then have "\<not> rq_freed (req_on_body strtod huge r d)" by (auto simp: streamed_def streaming_def)
    with b Body u \<open>codes = [code]\<close> show ?thesis by (simp add: on_http_def Let_def)
  qed
qed

lemma stream_over:
  assumes ok: "\<forall>ms \<in> set replies. reply_ok fmt N ms" and s: "streamed code events N replies ([code], stream_body fmt replies) r"
  shows "rq_freed (body_done strtod huge r)
    \<and> rq_user (body_done strtod huge r) = map (text_output events) (concat (map reply_texts replies)) @ [Out_done OI_OK code None]"
proof -
  from s obtain p ls line where p: "rq_sse r = Some p" "sse_at line p" "split_lines [] (stream_body fmt replies) = (ls, line)"
    and r: "streaming (True, code) events N replies (length (sse_events ls)) r" by (auto simp: streamed_def)
  from stream_lines(1) [OF ok, of "[]" "stream_body fmt replies" "[]" "[]" "[]" ls line] p(3)
  have e: "sse_events ls = map (\<lambda>ms. render fmt (JSON_OBJECT ms)) replies @ [done_mark]" "line = []"
    by (auto simp: sse_events_def map_filter_simps)
  then have "length (sse_events ls) = Suc (length replies)" by simp
  with r p(1,2) e(2) show ?thesis
    by (simp add: body_done_def oi_llm_sse_parser_finish_def sse_at_def sse_answers_def streaming_def finish_def
        request_teardown_def recording_def)
qed

lemma stream_delivered:
  assumes "printf_strtod_roundtrip fmt strtod" and "roomy N arena" and "32 \<le> N" and "N \<le> size_max div 2"
    and "request_start heap_ok OI_OK OI_OK client arena text (recording (\<lambda>_. False) events) [] = Inr r"
    and "length (request_header client (length text)) < request_header_size"
    and "status_ok a b c reason" and "200 \<le> code_of a b c" and "code_of a b c < 300"
    and "\<forall>h \<in> set hs1 \<union> set hs2. plain_header h" and "chunked_header ch" and "\<forall>x \<in> set cs. chunk_ok x"
    and "\<forall>ms \<in> set replies. reply_ok fmt N ms"
    and "concat (map (\<lambda>(hs, ext, d). d) cs) = stream_body fmt replies"
    and "concat pieces = crlf (status_line a b c reason) @ header_lines hs1 @ crlf (header ch) @ header_lines hs2 @ crlf []
        @ concat (map chunk_text cs) @ crlf [0x30] @ crlf [] @ rest"
  shows "rq_freed (request_run strtod huge r (Connected OI_OK OI_OK # map Received pieces))
    \<and> rq_user (request_run strtod huge r (Connected OI_OK OI_OK # map Received pieces))
      = map (text_output events) (concat (map reply_texts replies)) @ [Out_done OI_OK (code_of a b c) None]"
proof -
  let ?c = "code_of a b c" and ?r = "req_on_connected OI_OK OI_OK r"
  let ?F = "\<lambda>r. rq_freed r \<and> rq_user r = map (text_output events) (concat (map reply_texts replies)) @ [Out_done OI_OK ?c None]"
  from create_room [OF assms(2)] obtain json where json: "oi_json_parser_create heap_ok arena = Some json" "ps_room N json" by blast
  obtain p where p: "oi_llm_http_parser_create heap_ok = Some p" by (simp add: oi_llm_http_parser_create_def)
  from chunked_delivered [OF p assms(7,10,11,12), of "\<lambda>_. False" rest] assms(14,15) obtain q where
    q: "oi_llm_http_parser_feed recorder p ([], []) (concat pieces) = (OI_OK, Some q, ([?c], stream_body fmt replies))"
      "oi_llm_http_parser_body_done q" by auto
  have r: "rq_http ?r = p" "streamed ?c events N replies ([], []) ?r" "\<not> rq_freed r"
    using assms(5,6) json p
    by (auto simp: request_start_def req_on_connected_def streamed_def streaming_def Let_def split: if_splits)
  have b: "before_body p" "\<not> oi_llm_http_parser_body_done p"
    using p by (auto simp: oi_llm_http_parser_create_def before_body_def oi_llm_http_parser_body_done_def split: if_splits)
  have "?F (request_run strtod huge ?r (map Received pieces))"
  proof (rule received_follows [where H = "streamed ?c events N replies" and F = ?F])
    show "follows (on_http strtod huge) (streamed ?c events N replies) ([?c], stream_body fmt replies)"
      by (rule response_follows [OF assms(1,4,3,13,8,9)])
    show "streamed ?c events N replies u (r\<lparr>rq_http := p\<rparr>)" if "streamed ?c events N replies u r" for u r p
      using that by (simp add: streamed_def)
    show "\<not> rq_freed r \<and> \<not> rq_failed r" if "streamed ?c events N replies u r" for u r
      using that by (auto simp: streamed_def streaming_def)
    show "rq_freed (body_done strtod huge r) \<and> ?F (body_done strtod huge r)"
      if "streamed ?c events N replies ([?c], stream_body fmt replies) r" for r
      using stream_over [OF assms(13) that] by blast
  qed (use q r b in \<open>auto simp del: oi_llm_http_parser_feed.simps\<close>)
  then show ?thesis using r(3) by (simp add: request_run_def request_input_def)
qed

section \<open>Properties\<close>

lemma request_after:
  assumes "request_start h connect timer c arena text (recording stop events) [] = Inr r0" and "Conn_error OI_OK \<notin> set is"
  shows "request_ok (Cancelled \<in> set is) stop events strtod (request_run strtod huge r0 is)"
    and "Timed_out \<in> set is \<or> Cancelled \<in> set is \<or> (\<exists>reason. Conn_error reason \<in> set is) \<Longrightarrow> rq_freed (request_run strtod huge r0 is)"
  using run_ok [OF start_ok(1) [OF assms(1)] assms(2), of strtod huge] by auto

text \<open>A cancellation from outside calls nothing back, and nothing is called back after it.\<close>

lemma run_cancelled:
  assumes "request_start h connect timer c arena text (recording stop events) [] = Inr r0" and "Conn_error OI_OK \<notin> set (pre @ Cancelled # post)"
  shows "rq_freed (request_run strtod huge r0 (pre @ [Cancelled]))"
    and "rq_user (request_run strtod huge r0 (pre @ Cancelled # post)) = rq_user (request_run strtod huge r0 pre)"
proof -
  let ?r = "request_run strtod huge r0 pre"
  have run: "request_run strtod huge r0 (pre @ Cancelled # is) = request_run strtod huge (request_input strtod huge ?r Cancelled) is" for "is"
    by (simp add: request_run_def)
  have "Conn_error OI_OK \<notin> set (pre @ [Cancelled])" using assms(2) by simp
  from request_after(2) [OF assms(1) this] have "rq_freed (request_run strtod huge r0 (pre @ [Cancelled]))" by simp
  then show freed: "rq_freed (request_run strtod huge r0 (pre @ [Cancelled]))" .
  have "rq_freed (request_input strtod huge ?r Cancelled)" using freed run [of "[]"] by (simp add: request_run_def)
  then show "rq_user (request_run strtod huge r0 (pre @ Cancelled # post)) = rq_user ?r"
    by (simp add: run run_freed) (simp add: request_input_def oi_llm_request_cancel_def request_teardown_def Let_def)
qed

text \<open>
  C5. Whatever the connection, the timer, the allocator and the client do, nothing is called back once the request is
  over: \<open>on_done\<close> comes at most once and last, and never after the client cancelled from inside a callback. When the client
  cancels from outside, the request is over at once and what was called back is what had been called back before. The
  request is also over when the connection fails or is closed, or the deadline expires; then \<open>on_done\<close> has come unless the
  client cancelled.
\<close>

theorem llm_request_ends:
  assumes "request_start h connect timer c arena text (recording stop events) [] = Inr r0"
    and "Conn_error OI_OK \<notin> set is" and "r = request_run strtod huge r0 is"
  shows "(\<forall>n < length (rq_user r). \<not> ends stop (take n (rq_user r)))
    \<and> (ends stop (rq_user r) \<longrightarrow> rq_freed r) \<and> (rq_freed r \<longrightarrow> ends stop (rq_user r) \<or> Cancelled \<in> set is)
    \<and> (Timed_out \<in> set is \<or> (\<exists>reason. Conn_error reason \<in> set is) \<longrightarrow> rq_freed r)
    \<and> (\<forall>pre post. is = pre @ Cancelled # post \<longrightarrow> rq_freed r \<and> rq_freed (request_run strtod huge r0 (pre @ [Cancelled]))
        \<and> rq_user r = rq_user (request_run strtod huge r0 pre))"
proof -
  have "rq_freed r \<and> rq_freed (request_run strtod huge r0 (pre @ [Cancelled])) \<and> rq_user r = rq_user (request_run strtod huge r0 pre)"
    if "is = pre @ Cancelled # post" for pre post
    using run_cancelled [OF assms(1), of pre post strtod huge] request_after(2) [OF assms(1,2), of strtod huge] assms(2) that
    by (simp add: assms(3))
  then show ?thesis
    using request_after(1) [OF assms(1,2), of strtod huge] request_after(2) [OF assms(1,2), of strtod huge]
    unfolding assms(3) request_ok_def ends_last_def by blast
qed

text \<open>
  C6. \<open>on_done\<close> tells the truth, whatever arrives: with \<open>OI_OK\<close> the status is one of success, there is no error body,
  and every tool call whose fragments the client was given, joined by its index, has an id, a name and arguments that
  parse as an object; an error body has at most 64 KiB.
\<close>

theorem llm_done_truthful:
  assumes "request_start h connect timer c arena text (recording stop True) [] = Inr r0"
    and "Conn_error OI_OK \<notin> set is" and "Out_done st code b \<in> set (rq_user (request_run strtod huge r0 is))"
  shows "length (bytes_in b) \<le> oi_llm_max_error_body \<and> (st = OI_OK \<longrightarrow> 200 \<le> code \<and> code < 300 \<and> b = None
    \<and> (\<forall>index \<in> call_indices (rq_user (request_run strtod huge r0 is)).
         call_complete strtod (joined_id index (rq_user (request_run strtod huge r0 is)))
           (joined_name index (rq_user (request_run strtod huge r0 is)))
           (joined_arguments index (rq_user (request_run strtod huge r0 is)))))"
  using request_after(1) [OF assms(1,2), of strtod huge] assms(3) unfolding request_ok_def calls_complete_def by blast

text \<open>With \<open>on_event\<close> a request that a callback cancelled is never used again.\<close>

lemma llm_events_never_misuse:
  assumes "request_start h connect timer c arena text (recording stop True) [] = Inr r0" and "Conn_error OI_OK \<notin> set is"
  shows "\<not> rq_misused (request_run strtod huge r0 is)"
  using request_after(1) [OF assms] unfolding request_ok_def by blast

text \<open>
  C38. With \<open>on_delta\<close> it is: when the client cancels in \<open>on_delta\<close>, which \<open>llm.h\<close> allows, and the reply has tool calls
  beside the text, they are handled on the request that was just freed.
\<close>

theorem llm_cancel_in_delta_misuse:
  assumes "printf_strtod_roundtrip fmt strtod" and "ps_room N (rq_json r)" and "N \<le> size_max div 2" and "32 \<le> N"
    and "writable fmt (JSON_OBJECT ms)" and "json_depth (JSON_OBJECT ms) \<le> oi_json_max_depth" and "fits N (JSON_OBJECT ms)"
    and "oi_json_object_get (choice_delta (Some (JSON_OBJECT ms))) (bytes_of ''content'') = Some (JSON_STRING t)"
    and "oi_json_object_get (choice_delta (Some (JSON_OBJECT ms))) (bytes_of ''tool_calls'') = Some (JSON_ARRAY (call # calls) cap)"
    and "rq_callbacks r = recording stop False" and "stop (rq_user r @ [Out_delta t])"
    and "\<not> rq_freed r" and "\<not> rq_finished r" and "\<not> rq_failed r" and "\<not> rq_saw_done r"
  shows "rq_misused (handle_sse_event strtod huge r (render fmt (JSON_OBJECT ms)))"
proof -
  from parse_again [OF assms(1-7)] obtain q where q: "parse_text strtod (rq_json r) (render fmt (JSON_OBJECT ms)) = (OI_OK, q)"
    "oi_json_parser_root q = Some (JSON_OBJECT ms)" "oi_json_parser_done q" by blast
  have "handle_sse_event strtod huge r (render fmt (JSON_OBJECT ms)) = deliver_delta huge (choice_delta (Some (JSON_OBJECT ms))) (r\<lparr>rq_json := q\<rparr>)"
    using q assms(14,15) done_mark_object [of fmt ms] by (simp add: handle_sse_event_def Let_def del: render.simps)
  with assms(8-13) show ?thesis
    by (simp add: deliver_delta_def emit_event_def recording_def client_answers_def oi_llm_request_cancel_def
        request_teardown_def deliver_calls_def Let_def)
qed

text \<open>
  C37. A client that was created cannot be made to send anything but one request: what is queued when the connection
  stands is the request's lines, none of them with a carriage return or a newline inside whatever host, path and key
  were configured, an empty line and the body, whose length is announced; or, if the head does not fit its
  buffer, nothing, and \<open>on_done\<close> gets \<open>OI_ERR_INVAL\<close>.
\<close>

theorem llm_request_framed:
  assumes "oi_llm_client_create h cfg = Some c" and "rq_client r = c" and "rq_sent r = []" and "\<not> rq_finished r"
  shows "list_all one_line (request_lines c (length (rq_body r))) \<and> of_decimal (decimal (length (rq_body r))) = length (rq_body r)
    \<and> (if length (request_header c (length (rq_body r))) < request_header_size
       then req_on_connected OI_OK OI_OK r
         = r\<lparr>rq_sent := [concat (map crlf (request_lines c (length (rq_body r)))) @ crlf [], rq_body r]\<rparr>
       else req_on_connected OI_OK OI_OK r = finish r OI_ERR_INVAL 0 None)"
  using lines_one_line [OF assms(1)] decimal_correct assms(2,3)
  by (simp add: req_on_connected_def header_is_lines Let_def)

text \<open>
  C4. A response that is a stream of texts is delivered, however the connection cuts it into reads: the client gets the
  texts of the replies, in order and unchanged, and then \<open>on_done\<close> with \<open>OI_OK\<close> and the status code, and the request is
  gone. The server sends a status of success, any other headers, and a chunked body cut anyhow, in which every reply is
  an object framed as an event and the last event is \<open>[DONE]\<close>; memory lasts, the client does not cancel and the
  replies hold no tool calls.
\<close>

theorem llm_stream_delivered:
  assumes "printf_strtod_roundtrip fmt strtod" and "roomy N arena" and "32 \<le> N" and "N \<le> size_max div 2"
    and "request_start heap_ok OI_OK OI_OK client arena text (recording (\<lambda>_. False) events) [] = Inr r"
    and "length (request_header client (length text)) < request_header_size"
    and "status_ok a b c reason" and "200 \<le> code_of a b c" and "code_of a b c < 300"
    and "\<forall>h \<in> set hs1 \<union> set hs2. plain_header h" and "chunked_header ch" and "\<forall>x \<in> set cs. chunk_ok x"
    and "\<forall>ms \<in> set replies. reply_ok fmt N ms"
    and "concat (map (\<lambda>(hs, ext, d). d) cs) = stream_body fmt replies"
    and "concat pieces = crlf (status_line a b c reason) @ header_lines hs1 @ crlf (header ch) @ header_lines hs2 @ crlf []
        @ concat (map chunk_text cs) @ crlf [0x30] @ crlf [] @ rest"
  shows "rq_freed (request_run strtod huge r (Connected OI_OK OI_OK # map Received pieces))
    \<and> rq_user (request_run strtod huge r (Connected OI_OK OI_OK # map Received pieces))
      = map (text_output events) (concat (map reply_texts replies)) @ [Out_done OI_OK (code_of a b c) None]"
  by (rule stream_delivered [OF assms])

section \<open>Samples\<close>

definition sample_config :: oi_llm_config where
  "sample_config = \<lparr>cfg_host = Some [0x68], cfg_port = 443, cfg_use_tls = True, cfg_ca_file = None,
     cfg_api_key = Some [0x6B], cfg_path = Some [0x2F], cfg_timeout_ms = 0\<rparr>"

definition sample_client :: oi_llm_client where
  "sample_client = \<lparr>cl_host = [0x68], cl_port = 443, cl_use_tls = True, cl_ca_file = None,
     cl_api_key = Some [0x6B], cl_path = [0x2F], cl_timeout_ms = 0\<rparr>"

lemma sample_created: "oi_llm_client_create heap_ok sample_config = Some sample_client"
  by (simp add: oi_llm_client_create_def sample_config_def sample_client_def valid_http_host_def valid_http_path_def
      valid_http_field_value_def strdup_opt_def)

lemma sample_header_fits: "length (request_header sample_client (length [0x7B, 0x7D :: byte])) < request_header_size"
  by (simp add: request_header_def request_line_def sample_client_def request_header_size_def bytes_of_def decimal.simps)

definition sample_delta :: "(bytes \<times> oi_json_value) list \<Rightarrow> (bytes \<times> oi_json_value) list" where
  "sample_delta calls = [(bytes_of ''choices'', JSON_ARRAY [JSON_OBJECT [(bytes_of ''delta'',
     JSON_OBJECT ((bytes_of ''content'', JSON_STRING [0x68, 0x69]) # calls))]] (value_cap 1))]"

lemma sample_started:
  "\<exists>r arena. roomy 1024 arena \<and> request_start heap_ok OI_OK OI_OK sample_client arena [0x7B, 0x7D] (recording stop events) [] = Inr r
    \<and> ps_room 1024 (rq_json r) \<and> rq_callbacks r = recording stop events \<and> rq_user r = [] \<and> rq_client r = sample_client
    \<and> \<not> rq_freed r \<and> \<not> rq_finished r \<and> \<not> rq_failed r \<and> \<not> rq_saw_done r \<and> rq_sent r = []"
proof -
  obtain arena where a: "roomy 1024 arena" using fresh_arena by blast
  from create_room [OF a] obtain json where j: "oi_json_parser_create heap_ok arena = Some json" "ps_room 1024 json" by blast
  obtain p where p: "oi_llm_http_parser_create heap_ok = Some p" by (simp add: oi_llm_http_parser_create_def)
  from a j p show ?thesis
    by (subst ex_comm, intro exI [of _ arena]) (simp add: request_start_def sample_client_def Let_def)
qed

lemma sample_reply_ok: "reply_ok fmt 1024 (sample_delta [])"
  by (simp add: reply_ok_def sample_delta_def choice_delta_def bytes_of_def sse_data_def oi_sse_max_line_def oi_json_max_depth_def
      c_string_def quote_def escape_byte_def)

definition sample_print :: fmt where
  "sample_print d = decimal (unat d)"

definition sample_scan :: strtod where
  "sample_scan t = (word_of_nat (of_decimal t), length t)"

lemma sample_library: "printf_strtod_roundtrip sample_print sample_scan"
  using decimal_roundtrip unfolding sample_print_def [abs_def] sample_scan_def [abs_def] .

definition sample_pieces :: "fmt \<Rightarrow> bytes list" where
  "sample_pieces fmt = [[0x48], tl (crlf (status_line 0x32 0x30 0x30 []) @ header_lines []
     @ crlf (header (bytes_of ''Transfer-encoding'', bytes_of '' Chunked'')) @ header_lines [] @ crlf []
     @ concat (map chunk_text (map (\<lambda>b. ([0x31], [], [b])) (stream_body fmt [sample_delta []]))) @ crlf [0x30] @ crlf [] @ [])]"

text \<open>Everything the delivery needs, at the sample.\<close>

lemma sample_response:
  "concat (sample_pieces sample_print) = crlf (status_line 0x32 0x30 0x30 []) @ header_lines []
     @ crlf (header (bytes_of ''Transfer-encoding'', bytes_of '' Chunked'')) @ header_lines [] @ crlf []
     @ concat (map chunk_text (map (\<lambda>b. ([0x31], [], [b])) (stream_body sample_print [sample_delta []]))) @ crlf [0x30] @ crlf [] @ []"
  "concat (map (\<lambda>(hs, ext, d). d) (map (\<lambda>b. ([0x31], [], [b])) (stream_body sample_print [sample_delta []]))) = stream_body sample_print [sample_delta []]"
  "\<forall>x \<in> set (map (\<lambda>b. ([0x31], [], [b])) (stream_body sample_print [sample_delta []])). chunk_ok x"
  "status_ok 0x32 0x30 0x30 []" "200 \<le> code_of 0x32 0x30 0x30" "code_of 0x32 0x30 0x30 < 300"
  "chunked_header (bytes_of ''Transfer-encoding'', bytes_of '' Chunked'')"
  "\<forall>h \<in> set [] \<union> set []. plain_header h" "\<forall>ms \<in> set [sample_delta []]. reply_ok sample_print 1024 ms" "1024 \<le> size_max div 2" "(32 :: nat) \<le> 1024"
proof -
  show "concat (sample_pieces sample_print) = crlf (status_line 0x32 0x30 0x30 []) @ header_lines []
     @ crlf (header (bytes_of ''Transfer-encoding'', bytes_of '' Chunked'')) @ header_lines [] @ crlf []
     @ concat (map chunk_text (map (\<lambda>b. ([0x31], [], [b])) (stream_body sample_print [sample_delta []]))) @ crlf [0x30] @ crlf [] @ []"
    by (simp add: sample_pieces_def crlf_def status_line_def bytes_of_def)
  show "concat (map (\<lambda>(hs, ext, d). d) (map (\<lambda>b. ([0x31], [], [b])) (stream_body sample_print [sample_delta []]))) = stream_body sample_print [sample_delta []]"
    by (simp add: comp_def)
  show "\<forall>x \<in> set (map (\<lambda>b. ([0x31], [], [b])) (stream_body sample_print [sample_delta []])). chunk_ok x"
    by (simp add: chunk_ok_def hex_string_def hex_number_def hex_value_def fits_line_def oi_http_max_line_def oi_http_max_body_value_def)
  show "status_ok 0x32 0x30 0x30 []" "200 \<le> code_of 0x32 0x30 0x30" "code_of 0x32 0x30 0x30 < 300"
    by (simp_all add: status_ok_def status_line_def bytes_of_def fits_line_def is_digit_c_def oi_http_max_line_def
        code_of_def digit_value_def)
  show "chunked_header (bytes_of ''Transfer-encoding'', bytes_of '' Chunked'')"
    by (simp add: chunked_header_def header_def fits_line_def oi_http_max_line_def equals_ignore_case_def bytes_of_def lower_char_def)
qed (use sample_reply_ok in \<open>simp_all add: size_max_def\<close>)

lemma sample_texts: "map (text_output True) (concat (map reply_texts [sample_delta []])) = [Out_event (OI_LLM_EVENT_TEXT [0x68, 0x69])]"
  by (simp add: reply_texts_def sample_delta_def choice_delta_def text_output_def bytes_of_def c_string_def)

lemma sample_code: "code_of 0x32 0x30 0x30 = 200"
  by (simp add: code_of_def digit_value_def)

theorem llm_stream_delivered_witness:
  "\<exists>fmt strtod arena r. request_start heap_ok OI_OK OI_OK sample_client arena [0x7B, 0x7D] (recording (\<lambda>_. False) True) [] = Inr r
    \<and> rq_user (request_run strtod 0 r (Connected OI_OK OI_OK # map Received (sample_pieces fmt)))
      = [Out_event (OI_LLM_EVENT_TEXT [0x68, 0x69]), Out_done OI_OK 200 None]"
proof -
  obtain r arena where r: "roomy 1024 arena"
    "request_start heap_ok OI_OK OI_OK sample_client arena [0x7B, 0x7D] (recording (\<lambda>_. False) True) [] = Inr r"
    using sample_started by blast
  note s = sample_response
  from llm_stream_delivered [OF sample_library r(1) s(11,10) r(2) sample_header_fits s(4,5,6,8,7,3,9,2,1), of 0] r(2)
  show ?thesis unfolding sample_texts sample_code append.simps by blast
qed

theorem llm_request_ends_witness:
  "\<exists>arena r. request_start heap_ok OI_OK OI_OK sample_client arena [0x7B, 0x7D] (recording (\<lambda>_. False) True) [] = Inr r
    \<and> rq_freed (request_run (\<lambda>_. (0, 0)) 0 r [Timed_out])
    \<and> rq_user (request_run (\<lambda>_. (0, 0)) 0 r [Cancelled, Timed_out]) = rq_user r"
proof -
  obtain r arena where r: "request_start heap_ok OI_OK OI_OK sample_client arena [0x7B, 0x7D] (recording (\<lambda>_. False) True) [] = Inr r"
    using sample_started by blast
  from llm_request_ends [OF r _ refl, of "[Timed_out]" "\<lambda>_. (0, 0)" 0] have "rq_freed (request_run (\<lambda>_. (0, 0)) 0 r [Timed_out])" by simp
  moreover from llm_request_ends [OF r _ refl, of "[Cancelled, Timed_out]" "\<lambda>_. (0, 0)" 0]
  have "rq_user (request_run (\<lambda>_. (0, 0)) 0 r ([] @ Cancelled # [Timed_out])) = rq_user (request_run (\<lambda>_. (0, 0)) 0 r [])"
    by fastforce
  ultimately show ?thesis using r by (auto simp: request_run_def)
qed

theorem llm_done_truthful_witness:
  "\<exists>fmt strtod arena r. request_start heap_ok OI_OK OI_OK sample_client arena [0x7B, 0x7D] (recording (\<lambda>_. False) True) [] = Inr r
    \<and> Out_done OI_OK 200 None \<in> set (rq_user (request_run strtod 0 r (Connected OI_OK OI_OK # map Received (sample_pieces fmt))))
    \<and> 200 \<le> (200 :: nat)"
proof -
  obtain r arena where r: "roomy 1024 arena"
    "request_start heap_ok OI_OK OI_OK sample_client arena [0x7B, 0x7D] (recording (\<lambda>_. False) True) [] = Inr r"
    using sample_started by blast
  note s = sample_response
  from stream_delivered [OF sample_library r(1) s(11,10) r(2) sample_header_fits s(4,5,6,8,7,3,9,2,1), of 0]
  have d: "Out_done OI_OK 200 None \<in> set (rq_user (request_run sample_scan 0 r
      (Connected OI_OK OI_OK # map Received (sample_pieces sample_print))))"
    unfolding sample_texts sample_code by simp
  have "Conn_error OI_OK \<notin> set (Connected OI_OK OI_OK # map Received (sample_pieces sample_print))" by auto
  from llm_done_truthful [OF r(2) this d] r(2) d show ?thesis by blast
qed

theorem llm_cancel_in_delta_misuse_witness:
  "\<exists>fmt strtod arena r. request_start heap_ok OI_OK OI_OK sample_client arena [0x7B, 0x7D] (recording (\<lambda>_. True) False) [] = Inr r
    \<and> rq_misused (handle_sse_event strtod 0 r (render fmt (JSON_OBJECT (sample_delta [(bytes_of ''tool_calls'', JSON_ARRAY [JSON_NULL] (value_cap 1))]))))"
proof -
  obtain r arena where r: "request_start heap_ok OI_OK OI_OK sample_client arena [0x7B, 0x7D] (recording (\<lambda>_. True) False) [] = Inr r"
    "ps_room 1024 (rq_json r)" "rq_callbacks r = recording (\<lambda>_. True) False" "\<not> rq_freed r" "\<not> rq_finished r" "\<not> rq_failed r" "\<not> rq_saw_done r"
    using sample_started by blast
  let ?ms = "sample_delta [(bytes_of ''tool_calls'', JSON_ARRAY [JSON_NULL] (value_cap 1))]"
  have v: "writable fmt (JSON_OBJECT ?ms)" "json_depth (JSON_OBJECT ?ms) \<le> oi_json_max_depth" "fits 1024 (JSON_OBJECT ?ms)" for fmt
    by (simp_all add: sample_delta_def oi_json_max_depth_def bytes_of_def c_string_def)
  have c: "oi_json_object_get (choice_delta (Some (JSON_OBJECT ?ms))) (bytes_of ''content'') = Some (JSON_STRING [0x68, 0x69])"
    "oi_json_object_get (choice_delta (Some (JSON_OBJECT ?ms))) (bytes_of ''tool_calls'') = Some (JSON_ARRAY [JSON_NULL] (value_cap 1))"
    by (simp_all add: sample_delta_def choice_delta_def bytes_of_def c_string_def)
  from llm_cancel_in_delta_misuse [OF sample_library r(2) _ _ v c r(3) _ r(4-7), of 0] r(1)
  show ?thesis by (auto simp: size_max_def)
qed

theorem llm_request_framed_witness:
  "\<exists>arena r. request_start heap_ok OI_OK OI_OK sample_client arena [0x7B, 0x7D] (recording (\<lambda>_. False) True) [] = Inr r
    \<and> rq_sent (req_on_connected OI_OK OI_OK r)
      = [concat (map crlf (request_lines sample_client (length (rq_body r)))) @ crlf [], [0x7B, 0x7D]]"
proof -
  obtain r arena where r: "request_start heap_ok OI_OK OI_OK sample_client arena [0x7B, 0x7D] (recording (\<lambda>_. False) True) [] = Inr r"
    "rq_client r = sample_client" "\<not> rq_finished r" "rq_sent r = []"
    using sample_started by blast
  then have "rq_body r = [0x7B, 0x7D]" by (auto simp: request_start_def Let_def split: if_splits option.splits)
  with llm_request_framed [OF sample_created r(2,4,3)] sample_header_fits r(1) show ?thesis
    by (intro exI [of _ arena] exI [of _ r]) simp
qed

end
