(* ===== verification/Conversation.thy ===== *)
theory Conversation
  imports History_Store Llm Utf8_Stream
begin

text \<open>
  \<open>src/cli_conversation.c\<close>: one conversation with a model, turn by turn. The embedder's event callback is a function of its
  state that also says whether it called \<open>oi_cli_conversation_cancel\<close> before it returned, which is looked at for the
  events during which something is in flight: a delta, output of a tool, and the two that precede a tool call. The
  request and the tool call in flight are flags; \<open>cv_trace\<close> lists what is asked of the modules below, and the events.
  What these modules answer is an argument of each operation.
\<close>

section \<open>Types\<close>

datatype conversation_tool_outcome =
    CONVERSATION_TOOL_NONE | CONVERSATION_TOOL_COMPLETED | CONVERSATION_TOOL_FAILED | CONVERSATION_TOOL_DENIED
  | CONVERSATION_TOOL_OUTCOME_UNKNOWN | CONVERSATION_TOOL_NOT_EXECUTED

datatype conversation_activity =
    ACTIVITY_UNKNOWN | ACTIVITY_IDLE | ACTIVITY_STREAMING | ACTIVITY_AWAITING_PERMISSION | ACTIVITY_TOOL_RUNNING
  | ACTIVITY_CANCELLING | ACTIVITY_WORKING | ACTIVITY_FAILED

record message_event =
  me_value :: oi_cli_message
  me_model :: "bytes option"
  me_outcome :: conversation_tool_outcome
  me_raw :: "bytes option"
  me_is_repair :: bool

datatype conversation_event =
    EVENT_ASSISTANT_DELTA bytes
  | EVENT_MESSAGE message_event
  | EVENT_AWAITING_PERMISSION oi_cli_tool_call_value
  | EVENT_TOOL_STARTING oi_cli_tool_call_value
  | EVENT_TOOL_OUTPUT bytes
  | EVENT_PARTIAL_ASSISTANT bytes
  | EVENT_RESPONSE_DONE
  | EVENT_MODEL_ERROR nat bytes
  | EVENT_TURN_DONE oi_status nat

text \<open>\<open>oi_tool_decision\<close> and \<open>oi_tool_exit_kind\<close> of \<open>include/oi/tool.h\<close>.\<close>

datatype oi_tool_decision = OI_TOOL_ALLOW | OI_TOOL_DENY | OI_TOOL_ASK

datatype oi_tool_exit_kind = OI_TOOL_EXIT_NORMAL | OI_TOOL_EXIT_SIGNALED | OI_TOOL_EXIT_FAILED | OI_TOOL_EXIT_TIMEOUT

record 'u conversation_config =
  cc_max_model_steps :: int
  cc_tool_timeout_ms :: int
  cc_permission :: "(bytes \<Rightarrow> oi_json_value \<Rightarrow> 'u \<Rightarrow> oi_tool_decision \<times> 'u) option"
  cc_on_event :: "(conversation_event \<Rightarrow> 'u \<Rightarrow> oi_status \<times> bool \<times> 'u) option"

text \<open>\<open>struct buffer\<close>: its data is \<open>NULL\<close> when its capacity is 0.\<close>

record cbuffer =
  cb_data :: bytes
  cb_cap :: nat

record streamed_tool_call =
  st_index :: nat
  st_id :: cbuffer
  st_name :: cbuffer
  st_arguments :: cbuffer

text \<open>What the conversation asks of the arena, the client, the tools, and tells the embedder.\<close>

datatype conversation_call =
    Emitted conversation_event
  | Arena_reset
  | Request_started bytes
  | Request_cancelled
  | Tool_staged bytes oi_json_value
  | Tool_spawned
  | Tool_denied
  | Tool_timed int
  | Tool_stdin_closed
  | Tool_cancelled

record 'u oi_cli_conversation =
  cv_config :: "'u conversation_config"
  cv_user :: 'u
  cv_model :: bytes
  cv_messages :: oi_cli_message_list
  cv_request :: bool
  cv_tool :: bool
  cv_busy :: bool
  cv_cancelled :: bool
  cv_last_status :: oi_status
  cv_http_status :: nat
  cv_model_steps :: int
  cv_assistant :: cbuffer
  cv_streamed_calls :: "streamed_tool_call list"
  cv_assistant_message_index :: nat
  cv_tool_index :: nat
  cv_tool_output :: cbuffer
  cv_assistant_committed :: bool
  cv_steering :: bool
  cv_pending_permission_tool :: bool
  cv_cancelling :: bool
  cv_trace :: "conversation_call list"
  cv_heap :: heap

text \<open>
  What the modules below answer during one operation: the start of a request, of a staged tool call, of its process,
  of its timer, the closing of its input, and the arena, which they share, as it is when arguments are parsed.
\<close>

record conversation_answers =
  an_request :: oi_status
  an_stage :: oi_status
  an_resolve :: oi_status
  an_timeout :: oi_status
  an_stdin :: oi_status
  an_arena :: oi_arena

definition traced :: "conversation_call \<Rightarrow> 'u oi_cli_conversation \<Rightarrow> 'u oi_cli_conversation" where
  "traced x c = c\<lparr>cv_trace := cv_trace c @ [x]\<rparr>"

section \<open>Buffers\<close>

definition buffer_empty :: cbuffer where
  "buffer_empty = \<lparr>cb_data = [], cb_cap = 0\<rparr>"

definition buffer_append :: "heap \<Rightarrow> cbuffer \<Rightarrow> bytes \<Rightarrow> nat \<Rightarrow> cbuffer alloc" where
  "buffer_append h b data limit =
     (if length (cb_data b) > limit \<or> length data > limit - length (cb_data b)
         \<or> length data > size_max - length (cb_data b) - 1 then (Inl OI_ERR_NOMEM, h)
      else
        let needed = length (cb_data b) + length data + 1; grown = b\<lparr>cb_data := cb_data b @ data\<rparr> in
        if needed > cb_cap b then
          (case grow_cap (if cb_cap b = 0 then 256 else cb_cap b) needed of
             None \<Rightarrow> (Inl OI_ERR_NOMEM, h)
           | Some cap \<Rightarrow> alloc_try h (grown\<lparr>cb_cap := cap\<rparr>))
        else (Inr grown, h))"

text \<open>An append to a buffer of the conversation: the status and the buffer, as it was when the append failed.\<close>

definition appended :: "cbuffer \<Rightarrow> cbuffer alloc \<Rightarrow> oi_status \<times> cbuffer \<times> heap" where
  "appended b r = (case r of (Inl st, h) \<Rightarrow> (st, b, h) | (Inr b', h) \<Rightarrow> (OI_OK, b', h))"

definition clear_streamed_response :: "'u oi_cli_conversation \<Rightarrow> 'u oi_cli_conversation" where
  "clear_streamed_response c = c\<lparr>cv_assistant := buffer_empty, cv_streamed_calls := []\<rparr>"

section \<open>Events and messages\<close>

text \<open>\<open>emit_open\<close> also answers whether the callback cancelled.\<close>

definition emit_open :: "'u oi_cli_conversation \<Rightarrow> conversation_event \<Rightarrow> oi_status \<times> bool \<times> 'u oi_cli_conversation" where
  "emit_open c ev =
     (case cc_on_event (cv_config c) of
        None \<Rightarrow> (OI_OK, False, c)
      | Some f \<Rightarrow> (case f ev (cv_user c) of (st, cancels, u) \<Rightarrow> (st, cancels, traced (Emitted ev) (c\<lparr>cv_user := u\<rparr>))))"

definition emit :: "'u oi_cli_conversation \<Rightarrow> conversation_event \<Rightarrow> oi_status \<times> 'u oi_cli_conversation" where
  "emit c ev = (case emit_open c ev of (st, _, c) \<Rightarrow> (st, c))"

definition finish_turn :: "'u oi_cli_conversation \<Rightarrow> oi_status \<Rightarrow> 'u oi_cli_conversation" where
  "finish_turn c status =
     (if \<not> cv_busy c then c
      else snd (emit (c\<lparr>cv_busy := False, cv_cancelling := False, cv_last_status := status\<rparr>)
                     (EVENT_TURN_DONE status (cv_http_status c))))"

definition emit_message ::
  "'u oi_cli_conversation \<Rightarrow> oi_cli_message \<Rightarrow> conversation_tool_outcome \<Rightarrow> bytes option \<Rightarrow> bool
     \<Rightarrow> oi_status \<times> 'u oi_cli_conversation" where
  "emit_message c m outcome raw is_repair =
     emit c (EVENT_MESSAGE \<lparr>me_value = m,
       me_model = (if msg_role m = MESSAGE_ASSISTANT \<and> \<not> is_repair then Some (cv_model c) else None),
       me_outcome = outcome, me_raw = raw, me_is_repair = is_repair\<rparr>)"

definition commit_message ::
  "'u oi_cli_conversation \<Rightarrow> oi_cli_message \<Rightarrow> conversation_tool_outcome \<Rightarrow> bytes option \<Rightarrow> bool
     \<Rightarrow> oi_status \<times> 'u oi_cli_conversation" where
  "commit_message c m outcome raw is_repair =
     (case emit_message c m outcome raw is_repair of (st, c) \<Rightarrow>
        if st \<noteq> OI_OK then (st, c)
        else (case oi_cli_message_list_append_take (cv_heap c) (cv_messages c) m of
            (Inl st, h) \<Rightarrow> (st, c\<lparr>cv_heap := h\<rparr>)
          | (Inr l, h) \<Rightarrow> (OI_OK, c\<lparr>cv_messages := l, cv_heap := h\<rparr>)))"

text \<open>A message that was set, or could not be, is committed: the end of every function that makes one.\<close>

definition commit_set ::
  "'u oi_cli_conversation \<Rightarrow> oi_cli_message alloc \<Rightarrow> conversation_tool_outcome \<Rightarrow> bytes option \<Rightarrow> bool
     \<Rightarrow> oi_status \<times> 'u oi_cli_conversation" where
  "commit_set c r outcome raw is_repair =
     (case r of
        (Inl st, h) \<Rightarrow> (st, c\<lparr>cv_heap := h\<rparr>)
      | (Inr m, h) \<Rightarrow> commit_message (c\<lparr>cv_heap := h\<rparr>) m outcome raw is_repair)"

definition commit_tool_text ::
  "'u oi_cli_conversation \<Rightarrow> oi_cli_tool_call_value \<Rightarrow> bytes \<Rightarrow> conversation_tool_outcome \<Rightarrow> bytes option \<Rightarrow> bool
     \<Rightarrow> oi_status \<times> 'u oi_cli_conversation" where
  "commit_tool_text c call t outcome raw is_repair =
     commit_set c (oi_cli_message_set_tool (cv_heap c) (tc_id call) t) outcome raw is_repair"

definition commit_assistant_text :: "'u oi_cli_conversation \<Rightarrow> bytes \<Rightarrow> oi_status \<times> 'u oi_cli_conversation" where
  "commit_assistant_text c t =
     commit_set c (oi_cli_message_set_assistant (cv_heap c) t) CONVERSATION_TOOL_NONE None True"

section \<open>The request\<close>

text \<open>The calls of the writer, in their order; the first that fails ends the building.\<close>

definition write_tool_definition :: "w_op list" where
  "write_tool_definition =
     W_object_begin # string_member ''type'' (bytes_of ''function'') @
     [W_key (bytes_of ''function''), W_object_begin] @ string_member ''name'' (bytes_of ''shell'') @
     string_member ''description'' (bytes_of ''Execute a shell command'') @
     [W_key (bytes_of ''parameters''), W_object_begin] @ string_member ''type'' (bytes_of ''object'') @
     [W_key (bytes_of ''properties''), W_object_begin, W_key (bytes_of ''command''), W_object_begin] @
     string_member ''type'' (bytes_of ''string'') @ [W_object_end, W_object_end,
      W_key (bytes_of ''required''), W_array_begin, W_string (bytes_of ''command''), W_array_end,
      W_key (bytes_of ''additionalProperties''), W_bool False,
      W_object_end, W_object_end, W_object_end]"

definition request_role :: "oi_cli_message_role \<Rightarrow> bytes" where
  "request_role r = bytes_of (if r = MESSAGE_USER then ''user'' else if r = MESSAGE_ASSISTANT then ''assistant'' else ''tool'')"

definition write_request_call :: "oi_cli_tool_call_value \<Rightarrow> w_op list" where
  "write_request_call call =
     W_object_begin # string_member ''id'' (tc_id call) @ string_member ''type'' (bytes_of ''function'') @
     [W_key (bytes_of ''function''), W_object_begin] @ string_member ''name'' (tc_name call) @
     string_member ''arguments'' (tc_arguments call) @ [W_object_end, W_object_end]"

definition write_request_message :: "oi_cli_message \<Rightarrow> w_op list" where
  "write_request_message m =
     W_object_begin # string_member ''role'' (request_role (msg_role m)) @
     string_member ''content'' (string_bytes (msg_content m)) @
     (if msg_role m = MESSAGE_TOOL then string_member ''tool_call_id'' (string_bytes (msg_tool_call_id m)) else []) @
     (if msg_tool_calls m \<noteq> []
      then [W_key (bytes_of ''tool_calls''), W_array_begin] @ concat (map write_request_call (msg_tool_calls m)) @ [W_array_end]
      else []) @ [W_object_end]"

definition write_request :: "bytes \<Rightarrow> oi_cli_message list \<Rightarrow> w_op list" where
  "write_request model ms =
     W_object_begin # string_member ''model'' model @ [W_key (bytes_of ''stream''), W_bool True,
      W_key (bytes_of ''messages''), W_array_begin] @ concat (map write_request_message ms) @
     [W_array_end, W_key (bytes_of ''tools''), W_array_begin] @ write_tool_definition @ [W_array_end, W_object_end]"

definition build_request_body :: "fmt \<Rightarrow> heap \<Rightarrow> bytes \<Rightarrow> oi_cli_message list \<Rightarrow> bytes alloc" where
  "build_request_body fmt h model ms =
     (case oi_json_writer_create (heap_child h) of
        None \<Rightarrow> (Inl OI_ERR_NOMEM, heap_rest h)
      | Some w \<Rightarrow> (case write_calls fmt w (write_request model ms) of
          (st, w) \<Rightarrow> (if st \<noteq> OI_OK then Inl st else Inr (oi_json_writer_data w), heap_rest h)))"

text \<open>A request in flight that its start has put there, or not.\<close>

definition start_model_request ::
  "fmt \<Rightarrow> conversation_answers \<Rightarrow> 'u oi_cli_conversation \<Rightarrow> oi_status \<times> 'u oi_cli_conversation" where
  "start_model_request fmt an c =
     (let c = c\<lparr>cv_assistant_committed := False\<rparr> in
      if cv_model_steps c \<ge> cc_max_model_steps (cv_config c) then (OI_ERR_INVAL, c)
      else (case build_request_body fmt (cv_heap c) (cv_model c) (ml_items (cv_messages c)) of
          (Inl st, h) \<Rightarrow> (st, c\<lparr>cv_heap := h\<rparr>)
        | (Inr text, h) \<Rightarrow>
            (an_request an, traced (Request_started text)
              (c\<lparr>cv_heap := h, cv_model_steps := cv_model_steps c + 1, cv_request := (an_request an = OI_OK)\<rparr>))))"

section \<open>The streamed reply\<close>

definition sizeof_streamed_tool_call :: nat where
  "sizeof_streamed_tool_call = 80"

fun find_streamed_call :: "nat \<Rightarrow> streamed_tool_call list \<Rightarrow> nat \<Rightarrow> nat option" where
  "find_streamed_call i [] index = None"
| "find_streamed_call i (t # ts) index =
     (if st_index t = index then Some i else find_streamed_call (Suc i) ts index)"

text \<open>The place of the call with this index in the array, which it is added to when it is new.\<close>

definition find_or_add_streamed_call ::
  "heap \<Rightarrow> streamed_tool_call list \<Rightarrow> nat \<Rightarrow> (streamed_tool_call list \<times> nat) option \<times> heap" where
  "find_or_add_streamed_call h ts index =
     (case find_streamed_call 0 ts index of
        Some i \<Rightarrow> (Some (ts, i), h)
      | None \<Rightarrow>
          if length ts = size_max div sizeof_streamed_tool_call then (None, h)
          else (if shd h
                then Some (ts @ [\<lparr>st_index = index, st_id = buffer_empty, st_name = buffer_empty,
                                  st_arguments = buffer_empty\<rparr>], length ts)
                else None, stl h))"

text \<open>The indices in the array differ, so there is one way to sort it.\<close>

fun add_streamed_calls :: "heap \<Rightarrow> oi_cli_message \<Rightarrow> nat \<Rightarrow> streamed_tool_call list \<Rightarrow> oi_cli_message alloc" where
  "add_streamed_calls h m i [] = (Inr m, h)"
| "add_streamed_calls h m i (t # ts) =
     (if st_index t \<noteq> i \<or> cb_data (st_id t) = [] \<or> cb_data (st_name t) = [] \<or> cb_data (st_arguments t) = []
      then (Inl OI_ERR_PARSE, h)
      else alloc_then
        (oi_cli_message_add_tool_call h m (cb_data (st_id t)) (cb_data (st_name t)) (cb_data (st_arguments t)))
        (\<lambda>m h. add_streamed_calls h m (Suc i) ts))"

definition build_assistant_message :: "'u oi_cli_conversation \<Rightarrow> oi_cli_message alloc" where
  "build_assistant_message c =
     alloc_then (oi_cli_message_set_assistant (cv_heap c) (cb_data (cv_assistant c)))
       (\<lambda>m h. add_streamed_calls h m 0 (sort_key st_index (cv_streamed_calls c)))"

definition append_call_fragments ::
  "heap \<Rightarrow> streamed_tool_call \<Rightarrow> bytes \<Rightarrow> bytes \<Rightarrow> bytes \<Rightarrow> oi_status \<times> streamed_tool_call \<times> heap" where
  "append_call_fragments h t i name arguments =
     (case appended (st_id t) (buffer_append h (st_id t) i history_max_content) of (st, b, h) \<Rightarrow>
       let t = t\<lparr>st_id := b\<rparr> in
       if st \<noteq> OI_OK then (st, t, h)
       else (case appended (st_name t) (buffer_append h (st_name t) name history_max_content) of (st, b, h) \<Rightarrow>
         let t = t\<lparr>st_name := b\<rparr> in
         if st \<noteq> OI_OK then (st, t, h)
         else (case appended (st_arguments t) (buffer_append h (st_arguments t) arguments history_max_content) of
             (st, b, h) \<Rightarrow> (st, t\<lparr>st_arguments := b\<rparr>, h))))"

section \<open>Texts\<close>

definition valid_utf8_sequence :: "bytes \<Rightarrow> nat" where
  "valid_utf8_sequence data =
     (let len = length data; b = (\<lambda>i. data ! i); cont = (\<lambda>i. data ! i AND 0xC0 = 0x80) in
      if len = 0 \<or> b 0 < 0x80 then (if len = 0 then 0 else 1)
      else if 0xC2 \<le> b 0 \<and> b 0 \<le> 0xDF \<and> len \<ge> 2 \<and> cont 1 then 2
      else if 0xE0 \<le> b 0 \<and> b 0 \<le> 0xEF \<and> len \<ge> 3 \<and> cont 1 \<and> cont 2
        \<and> \<not> (b 0 = 0xE0 \<and> b 1 < 0xA0) \<and> \<not> (b 0 = 0xED \<and> b 1 \<ge> 0xA0) then 3
      else if 0xF0 \<le> b 0 \<and> b 0 \<le> 0xF4 \<and> len \<ge> 4 \<and> cont 1 \<and> cont 2 \<and> cont 3
        \<and> \<not> (b 0 = 0xF0 \<and> b 1 < 0x90) \<and> \<not> (b 0 = 0xF4 \<and> b 1 \<ge> 0x90) then 4
      else 0)"

definition utf8_replacement :: bytes where
  "utf8_replacement = [0xEF, 0xBF, 0xBD]"

function normalize_utf8 :: "heap \<Rightarrow> bytes \<Rightarrow> cbuffer \<Rightarrow> cbuffer alloc" where
  "normalize_utf8 h data b =
     (if data = [] then buffer_append h b [] history_max_content
      else let n = valid_utf8_sequence data in
        alloc_then (buffer_append h b (if n = 0 then utf8_replacement else take n data) history_max_content)
          (\<lambda>b h. normalize_utf8 h (drop (if n = 0 then 1 else n) data) b))"
  by pat_completeness auto
termination
  by (relation "measure (\<lambda>(h, data, b). length data)") auto

declare normalize_utf8.simps [simp del]

definition decimal_int :: "int \<Rightarrow> bytes" where
  "decimal_int n = (if n < 0 then 0x2D # decimal (nat (- n)) else decimal (nat n))"

fun exit_kind_number :: "oi_tool_exit_kind \<Rightarrow> int" where
  "exit_kind_number OI_TOOL_EXIT_NORMAL = 0"
| "exit_kind_number OI_TOOL_EXIT_SIGNALED = 1"
| "exit_kind_number OI_TOOL_EXIT_FAILED = 2"
| "exit_kind_number OI_TOOL_EXIT_TIMEOUT = 3"

definition exit_status_text :: "oi_tool_exit_kind \<Rightarrow> int \<Rightarrow> bytes" where
  "exit_status_text kind code = [0x0A] @ bytes_of ''[tool exit kind='' @ decimal_int (exit_kind_number kind)
     @ bytes_of '' code='' @ decimal_int code @ bytes_of '']'' @ [0x0A]"

text \<open>The text of a tool's result: its output made well-formed, with a line on an abnormal end.\<close>

definition tool_result_text :: "heap \<Rightarrow> bytes \<Rightarrow> oi_tool_exit_kind \<Rightarrow> int \<Rightarrow> cbuffer alloc" where
  "tool_result_text h raw kind code =
     alloc_then (normalize_utf8 h raw buffer_empty) (\<lambda>b h.
       if kind \<noteq> OI_TOOL_EXIT_NORMAL \<or> code \<noteq> 0 then
         (if length (exit_status_text kind code) \<ge> 96 then (Inl OI_ERR_NOMEM, h)
          else buffer_append h b (exit_status_text kind code) history_max_content)
       else (Inr b, h))"

section \<open>How a turn is closed\<close>

definition cancelled_tool_unknown_text :: bytes where
  "cancelled_tool_unknown_text = bytes_of ''[tool outcome unknown: cancelled while it may have already started]''"
definition cancelled_tool_not_executed_text :: bytes where
  "cancelled_tool_not_executed_text = bytes_of ''[tool not executed: cancelled before it started]''"
definition steered_tool_not_executed_text :: bytes where
  "steered_tool_not_executed_text = bytes_of ''[tool not executed: skipped because a new message was queued]''"
definition denied_tool_not_executed_text :: bytes where
  "denied_tool_not_executed_text = bytes_of ''[tool not executed: denied by user]''"
definition steered_turn_ended_text :: bytes where
  "steered_turn_ended_text = bytes_of ''[assistant turn ended: a new message was queued]''"
definition interrupted_text :: bytes where
  "interrupted_text = bytes_of ''[assistant turn interrupted before completion]''"

definition first_status :: "oi_status \<Rightarrow> oi_status \<Rightarrow> oi_status" where
  "first_status st st' = (if st \<noteq> OI_OK then st else st')"

definition assistant_calls :: "'u oi_cli_conversation \<Rightarrow> oi_cli_tool_call_value list" where
  "assistant_calls c = msg_tool_calls (ml_items (cv_messages c) ! cv_assistant_message_index c)"

text \<open>The loop of \<open>repair_dangling_tool_calls\<close> over the calls that are left; only its first may have started.\<close>

fun repair_calls ::
  "bool \<Rightarrow> oi_status \<Rightarrow> 'u oi_cli_conversation \<Rightarrow> oi_cli_tool_call_value list \<Rightarrow> oi_status \<times> 'u oi_cli_conversation" where
  "repair_calls spawned st c [] = (st, c)"
| "repair_calls spawned st c (call # calls) =
     (case (if spawned
            then commit_tool_text c call cancelled_tool_unknown_text CONVERSATION_TOOL_OUTCOME_UNKNOWN
                   (Some (cb_data (cv_tool_output c))) False
            else commit_tool_text c call cancelled_tool_not_executed_text CONVERSATION_TOOL_NOT_EXECUTED None False) of
        (st', c) \<Rightarrow> repair_calls False (first_status st st') c calls)"

definition repair_dangling_tool_calls :: "'u oi_cli_conversation \<Rightarrow> bool \<Rightarrow> oi_status \<times> 'u oi_cli_conversation" where
  "repair_dangling_tool_calls c spawned =
     (case repair_calls spawned OI_OK c (drop (cv_tool_index c) (assistant_calls c)) of
        (st, c) \<Rightarrow> (st, c\<lparr>cv_tool_output := buffer_empty\<rparr>))"

fun skip_calls ::
  "oi_status \<Rightarrow> 'u oi_cli_conversation \<Rightarrow> oi_cli_tool_call_value list \<Rightarrow> oi_status \<times> 'u oi_cli_conversation" where
  "skip_calls st c [] = (st, c)"
| "skip_calls st c (call # calls) =
     (case commit_tool_text c call steered_tool_not_executed_text CONVERSATION_TOOL_NOT_EXECUTED None False of
        (st', c) \<Rightarrow> skip_calls (first_status st st') c calls)"

definition skip_steered_tool_calls :: "'u oi_cli_conversation \<Rightarrow> oi_status \<times> 'u oi_cli_conversation" where
  "skip_steered_tool_calls c = skip_calls OI_OK c (drop (cv_tool_index c) (assistant_calls c))"

definition close_out_steered_turn :: "'u oi_cli_conversation \<Rightarrow> oi_status \<times> 'u oi_cli_conversation" where
  "close_out_steered_turn c = commit_assistant_text c steered_turn_ended_text"

definition repair_interrupted_turn :: "'u oi_cli_conversation \<Rightarrow> oi_status \<times> 'u oi_cli_conversation" where
  "repair_interrupted_turn c = commit_assistant_text c interrupted_text"

definition close_out_incomplete_turn :: "'u oi_cli_conversation \<Rightarrow> bool \<Rightarrow> oi_status \<times> 'u oi_cli_conversation" where
  "close_out_incomplete_turn c spawned =
     (case (if cv_assistant_committed c \<and> cv_tool_index c < length (assistant_calls c)
            then repair_dangling_tool_calls c spawned else (OI_OK, c)) of
        (st, c) \<Rightarrow> if st = OI_OK then repair_interrupted_turn c else (st, c))"

definition finish_turn_with_repair :: "'u oi_cli_conversation \<Rightarrow> oi_status \<Rightarrow> bool \<Rightarrow> 'u oi_cli_conversation" where
  "finish_turn_with_repair c status spawned =
     (case close_out_incomplete_turn c spawned of (repair, c) \<Rightarrow> finish_turn c (first_status repair status))"

text \<open>What is in flight is detached before it is cancelled; the reply streamed so far is reported.\<close>

definition cancel_request :: "'u oi_cli_conversation \<Rightarrow> 'u oi_cli_conversation" where
  "cancel_request c =
     (if cv_request c then
        traced Request_cancelled
          (if cb_data (cv_assistant c) \<noteq> []
           then snd (emit (c\<lparr>cv_request := False\<rparr>) (EVENT_PARTIAL_ASSISTANT (cb_data (cv_assistant c))))
           else c\<lparr>cv_request := False\<rparr>)
      else c)"

definition cancel_pending :: "'u oi_cli_conversation \<Rightarrow> 'u oi_cli_conversation" where
  "cancel_pending c =
     (if cv_pending_permission_tool c then traced Tool_cancelled (c\<lparr>cv_pending_permission_tool := False\<rparr>) else c)"

definition cancel_tool :: "'u oi_cli_conversation \<Rightarrow> 'u oi_cli_conversation" where
  "cancel_tool c = (if cv_tool c then traced Tool_cancelled (c\<lparr>cv_tool := False\<rparr>) else c)"

definition oi_cli_conversation_cancel :: "'u oi_cli_conversation \<Rightarrow> 'u oi_cli_conversation" where
  "oi_cli_conversation_cancel c =
     (if \<not> cv_busy c then c
      else let c = cancel_pending (cancel_request (c\<lparr>cv_cancelling := True\<rparr>)) in
        (case close_out_incomplete_turn (cancel_tool c) (cv_tool c) of
           (st, c) \<Rightarrow> if st = OI_OK then finish_turn (c\<lparr>cv_cancelled := True\<rparr>) OI_ERR_CLOSED else finish_turn c st))"

text \<open>An event during which the callback may cancel.\<close>

definition emit_reentrant :: "'u oi_cli_conversation \<Rightarrow> conversation_event \<Rightarrow> oi_status \<times> 'u oi_cli_conversation" where
  "emit_reentrant c ev =
     (case emit_open c ev of (st, cancels, c) \<Rightarrow> (st, if cancels then oi_cli_conversation_cancel c else c))"

section \<open>Tools\<close>

text \<open>The process of the call in flight is cancelled and the turn closed.\<close>

definition abort_tool :: "'u oi_cli_conversation \<Rightarrow> oi_status \<Rightarrow> 'u oi_cli_conversation" where
  "abort_tool c st =
     finish_turn_with_repair (cancel_tool c) st True"

definition on_tool_output :: "'u oi_cli_conversation \<Rightarrow> bytes \<Rightarrow> 'u oi_cli_conversation" where
  "on_tool_output c data =
     (case appended (cv_tool_output c) (buffer_append (cv_heap c) (cv_tool_output c) data history_max_content) of
        (st, b, h) \<Rightarrow>
          (case (if st = OI_OK then emit_reentrant (c\<lparr>cv_tool_output := b, cv_heap := h\<rparr>) (EVENT_TOOL_OUTPUT data)
                 else (st, c\<lparr>cv_heap := h\<rparr>)) of
             (st, c) \<Rightarrow> if st \<noteq> OI_OK then abort_tool c st else c))"

text \<open>The deadline of a process that has been started, and the end of its input.\<close>

definition arm_tool :: "conversation_answers \<Rightarrow> 'u oi_cli_conversation \<Rightarrow> oi_status \<times> 'u oi_cli_conversation" where
  "arm_tool an c =
     (case (if cc_tool_timeout_ms (cv_config c) > 0
            then (an_timeout an, traced (Tool_timed (cc_tool_timeout_ms (cv_config c))) c) else (OI_OK, c)) of
        (st, c) \<Rightarrow> if st = OI_OK then (an_stdin an, traced Tool_stdin_closed c) else (st, c))"

definition resolve_permission_body ::
  "conversation_answers \<Rightarrow> 'u oi_cli_conversation \<Rightarrow> oi_cli_tool_call_value \<Rightarrow> bool \<Rightarrow> 'u oi_cli_conversation" where
  "resolve_permission_body an c call allow =
     (if \<not> allow then
        (case commit_tool_text (traced Tool_denied c) call denied_tool_not_executed_text CONVERSATION_TOOL_DENIED None False of
           (st, c) \<Rightarrow> finish_turn_with_repair (c\<lparr>cv_tool_index := cv_tool_index c + 1\<rparr>)
                        (if st \<noteq> OI_OK then st else OI_ERR_DENIED) False)
      else (case emit_reentrant c (EVENT_TOOL_STARTING call) of (st, c) \<Rightarrow>
        if st \<noteq> OI_OK then finish_turn_with_repair (traced Tool_cancelled c) st False
        else if \<not> cv_busy c then traced Tool_cancelled c
        else if an_resolve an \<noteq> OI_OK then finish_turn_with_repair (c\<lparr>cv_tool := False\<rparr>) (an_resolve an) True
        else (case arm_tool an (traced Tool_spawned (c\<lparr>cv_tool := True\<rparr>)) of
            (st, c) \<Rightarrow> if st \<noteq> OI_OK then abort_tool c st else c)))"

definition request_tool_call ::
  "conversation_answers \<Rightarrow> 'u oi_cli_conversation \<Rightarrow> oi_cli_tool_call_value \<Rightarrow> oi_json_value \<Rightarrow> 'u oi_cli_conversation" where
  "request_tool_call an c call arguments =
     (case (case cc_permission (cv_config c) of
              None \<Rightarrow> (OI_TOOL_ALLOW, cv_user c)
            | Some f \<Rightarrow> f (c_string (tc_name call)) arguments (cv_user c)) of
        (decision, u) \<Rightarrow>
          let c = c\<lparr>cv_user := u\<rparr> in
          if decision = OI_TOOL_ASK then
            (case emit_reentrant (c\<lparr>cv_pending_permission_tool := True\<rparr>) (EVENT_AWAITING_PERMISSION call) of
               (st, c) \<Rightarrow>
                 if st \<noteq> OI_OK
                 then finish_turn_with_repair (traced Tool_cancelled (c\<lparr>cv_pending_permission_tool := False\<rparr>)) st False
                 else c)
          else resolve_permission_body an c call (decision = OI_TOOL_ALLOW))"

definition parse_arguments :: "strtod \<Rightarrow> heap \<Rightarrow> oi_arena \<Rightarrow> bytes \<Rightarrow> oi_json_value alloc" where
  "parse_arguments strtod h arena t =
     (case oi_json_parser_create (heap_child h) arena of
        None \<Rightarrow> (Inl OI_ERR_NOMEM, heap_rest h)
      | Some parser \<Rightarrow>
          (case oi_json_parser_feed strtod parser t of (st, parser) \<Rightarrow>
          (case (if st = OI_OK then oi_json_parser_finish strtod parser else (st, parser)) of (st, parser) \<Rightarrow>
             (if st \<noteq> OI_OK then Inl st
              else if \<not> is_object_value (oi_json_parser_root parser) then Inl OI_ERR_PARSE
              else Inr (the (oi_json_parser_root parser)), heap_rest h))))"

text \<open>Every path through the body of the loop ends it.\<close>

definition start_next_tool ::
  "fmt \<Rightarrow> strtod \<Rightarrow> conversation_answers \<Rightarrow> 'u oi_cli_conversation \<Rightarrow> 'u oi_cli_conversation" where
  "start_next_tool fmt strtod an c =
     (if \<not> cv_busy c then c
      else if cv_steering c then
        (case skip_steered_tool_calls c of (st, c) \<Rightarrow>
        (case (if st = OI_OK then close_out_steered_turn c else (st, c)) of (st, c) \<Rightarrow> finish_turn c st))
      else if cv_tool_index c \<ge> length (assistant_calls c) then
        (case start_model_request fmt an c of
           (st, c) \<Rightarrow> if st \<noteq> OI_OK then finish_turn_with_repair c st False else c)
      else
        let call = assistant_calls c ! cv_tool_index c in
        (case parse_arguments strtod (cv_heap c) (an_arena an) (tc_arguments call) of
           (Inl st, h) \<Rightarrow> finish_turn_with_repair (c\<lparr>cv_heap := h\<rparr>) st False
         | (Inr arguments, h) \<Rightarrow>
             let c = c\<lparr>cv_heap := h\<rparr> in
             if an_stage an \<noteq> OI_OK then finish_turn_with_repair c (an_stage an) False
             else request_tool_call an (traced (Tool_staged (c_string (tc_name call)) arguments) c) call arguments))"

definition on_tool_done ::
  "fmt \<Rightarrow> strtod \<Rightarrow> conversation_answers \<Rightarrow> 'u oi_cli_conversation \<Rightarrow> oi_tool_exit_kind \<Rightarrow> int \<Rightarrow> 'u oi_cli_conversation" where
  "on_tool_done fmt strtod an c kind code =
     (let c = c\<lparr>cv_tool := False\<rparr>; raw = cb_data (cv_tool_output c);
          outcome = (if kind = OI_TOOL_EXIT_NORMAL \<and> code = 0 then CONVERSATION_TOOL_COMPLETED else CONVERSATION_TOOL_FAILED) in
      case (case tool_result_text (cv_heap c) raw kind code of
              (Inl st, h) \<Rightarrow> (st, c\<lparr>cv_heap := h\<rparr>)
            | (Inr t, h) \<Rightarrow> commit_tool_text (c\<lparr>cv_heap := h\<rparr>) (assistant_calls c ! cv_tool_index c) (cb_data t) outcome (Some raw) False) of
        (st, c) \<Rightarrow>
          let c = c\<lparr>cv_tool_output := buffer_empty\<rparr> in
          if st \<noteq> OI_OK then finish_turn_with_repair c st True
          else start_next_tool fmt strtod an (c\<lparr>cv_tool_index := cv_tool_index c + 1\<rparr>))"

section \<open>The model's reply\<close>

definition detach_request :: "'u oi_cli_conversation \<Rightarrow> 'u oi_cli_conversation" where
  "detach_request c = (if cv_request c then traced Request_cancelled (c\<lparr>cv_request := False\<rparr>) else c)"

definition abort_request :: "'u oi_cli_conversation \<Rightarrow> oi_status \<Rightarrow> 'u oi_cli_conversation" where
  "abort_request c st = finish_turn_with_repair (detach_request c) st False"

definition on_llm_event :: "'u oi_cli_conversation \<Rightarrow> oi_llm_event \<Rightarrow> 'u oi_cli_conversation" where
  "on_llm_event c event =
     (case (case event of
              OI_LLM_EVENT_TEXT data \<Rightarrow>
                (case appended (cv_assistant c) (buffer_append (cv_heap c) (cv_assistant c) data history_max_content) of
                   (st, b, h) \<Rightarrow>
                     if st = OI_OK
                     then emit_reentrant (c\<lparr>cv_assistant := b, cv_heap := h\<rparr>) (EVENT_ASSISTANT_DELTA data)
                     else (st, c\<lparr>cv_heap := h\<rparr>))
            | OI_LLM_EVENT_TOOL_CALL index i name arguments \<Rightarrow>
                (case find_or_add_streamed_call (cv_heap c) (cv_streamed_calls c) index of
                   (None, h) \<Rightarrow> (OI_ERR_NOMEM, c\<lparr>cv_heap := h\<rparr>)
                 | (Some (ts, k), h) \<Rightarrow>
                     (case append_call_fragments h (ts ! k) (string_bytes i) (string_bytes name) (string_bytes arguments) of
                        (st, t, h) \<Rightarrow> (st, c\<lparr>cv_streamed_calls := ts[k := t], cv_heap := h\<rparr>)))) of
        (st, c) \<Rightarrow> if st \<noteq> OI_OK then abort_request c st else c)"

text \<open>A request that failed: its error body and what had been streamed are reported.\<close>

definition report_failure ::
  "'u oi_cli_conversation \<Rightarrow> oi_status \<Rightarrow> bytes option \<Rightarrow> oi_status \<times> 'u oi_cli_conversation" where
  "report_failure c status failure_body =
     (case (case failure_body of
              Some b \<Rightarrow> if b = [] then (OI_OK, c) else emit c (EVENT_MODEL_ERROR (cv_http_status c) b)
            | None \<Rightarrow> (OI_OK, c)) of
        (st, c) \<Rightarrow>
          let status = first_status st status in
          (case (if cb_data (cv_assistant c) \<noteq> [] then emit c (EVENT_PARTIAL_ASSISTANT (cb_data (cv_assistant c)))
                 else (OI_OK, c)) of
             (st, c) \<Rightarrow> (first_status st status, c)))"

definition on_llm_done ::
  "fmt \<Rightarrow> strtod \<Rightarrow> conversation_answers \<Rightarrow> 'u oi_cli_conversation \<Rightarrow> oi_status \<Rightarrow> nat \<Rightarrow> bytes option
     \<Rightarrow> 'u oi_cli_conversation" where
  "on_llm_done fmt strtod an c status http_status failure_body =
     (let c = c\<lparr>cv_request := False, cv_http_status := http_status\<rparr> in
      if status \<noteq> OI_OK then
        (case report_failure c status failure_body of (status, c) \<Rightarrow> finish_turn_with_repair c status False)
      else
        (case commit_set (c\<lparr>cv_streamed_calls := sort_key st_index (cv_streamed_calls c)\<rparr>) (build_assistant_message c)
                CONVERSATION_TOOL_NONE None False of
           (st, c) \<Rightarrow>
             if st \<noteq> OI_OK then finish_turn_with_repair c st False
             else
               let c = clear_streamed_response (c\<lparr>cv_assistant_message_index := length (ml_items (cv_messages c)) - 1,
                     cv_assistant_committed := True, cv_tool_index := 0\<rparr>) in
               (case emit c EVENT_RESPONSE_DONE of
                  (st, c) \<Rightarrow>
                    if st \<noteq> OI_OK then finish_turn_with_repair c st False
                    else if assistant_calls c = [] then finish_turn c OI_OK
                    else start_next_tool fmt strtod an c)))"

section \<open>The embedder's calls\<close>

fun clone_context :: "heap \<Rightarrow> oi_cli_message_list \<Rightarrow> oi_cli_message list \<Rightarrow> oi_cli_message_list alloc" where
  "clone_context h l [] = (Inr l, h)"
| "clone_context h l (m # ms) =
     alloc_then (oi_cli_message_list_append_clone h l m) (\<lambda>l h. clone_context h l ms)"

definition oi_cli_conversation_create ::
  "heap \<Rightarrow> 'u conversation_config \<Rightarrow> 'u \<Rightarrow> bytes \<Rightarrow> oi_cli_message_list option \<Rightarrow> oi_status + 'u oi_cli_conversation" where
  "oi_cli_conversation_create h cfg u model initial_context =
     (if model = [] \<or> cc_max_model_steps cfg \<le> 0 \<or> cc_tool_timeout_ms cfg < 0 then Inl OI_ERR_INVAL
      else case alloc_then (alloc_try h ()) (\<lambda>_ h.
             alloc_then (oi_cli_string_set h model) (\<lambda>model h.
             alloc_then (case initial_context of
                 None \<Rightarrow> (Inr oi_cli_message_list_init, h)
               | Some l \<Rightarrow> clone_context h oi_cli_message_list_init (ml_items l)) (\<lambda>l h. (Inr (model, l), h)))) of
        (Inl st, h) \<Rightarrow> Inl st
      | (Inr (model, l), h) \<Rightarrow> Inr \<lparr>cv_config = cfg, cv_user = u, cv_model = model, cv_messages = l, cv_request = False,
          cv_tool = False, cv_busy = False, cv_cancelled = False, cv_last_status = OI_OK, cv_http_status = 0,
          cv_model_steps = 0, cv_assistant = buffer_empty, cv_streamed_calls = [], cv_assistant_message_index = 0,
          cv_tool_index = 0, cv_tool_output = buffer_empty, cv_assistant_committed = False, cv_steering = False,
          cv_pending_permission_tool = False, cv_cancelling = False, cv_trace = [], cv_heap = h\<rparr>)"

text \<open>The model's name is a C string followed by its length; an empty one is refused by its first byte.\<close>

definition oi_cli_conversation_set_model ::
  "'u oi_cli_conversation \<Rightarrow> bytes \<Rightarrow> nat \<Rightarrow> oi_status \<times> 'u oi_cli_conversation" where
  "oi_cli_conversation_set_model c model len =
     (if model = [] then (OI_ERR_INVAL, c)
      else (case oi_cli_string_set (cv_heap c) (take len model) of
          (Inl st, h) \<Rightarrow> (st, c\<lparr>cv_heap := h\<rparr>)
        | (Inr s, h) \<Rightarrow> (OI_OK, c\<lparr>cv_model := s, cv_heap := h\<rparr>)))"

text \<open>What is in flight is cancelled; the object is gone.\<close>

definition oi_cli_conversation_destroy :: "'u oi_cli_conversation \<Rightarrow> conversation_call list" where
  "oi_cli_conversation_destroy c = cv_trace c @ (if cv_request c then [Request_cancelled] else [])
     @ (if cv_tool c then [Tool_cancelled] else []) @ (if cv_pending_permission_tool c then [Tool_cancelled] else [])"

definition oi_cli_conversation_start ::
  "fmt \<Rightarrow> conversation_answers \<Rightarrow> 'u oi_cli_conversation \<Rightarrow> bytes \<Rightarrow> oi_status \<times> 'u oi_cli_conversation" where
  "oi_cli_conversation_start fmt an c content =
     (if length content > history_max_content then (OI_ERR_INVAL, c)
      else if cv_busy c then (OI_ERR_EXISTS, c)
      else
        let c = clear_streamed_response (traced Arena_reset c)\<lparr>cv_tool_output := buffer_empty, cv_last_status := OI_OK,
              cv_http_status := 0, cv_model_steps := 0, cv_cancelled := False, cv_cancelling := False,
              cv_steering := False, cv_busy := True\<rparr> in
        (case commit_set c (oi_cli_message_set_user (cv_heap c) content) CONVERSATION_TOOL_NONE None False of
           (st, c) \<Rightarrow>
        (case (if st = OI_OK then start_model_request fmt an c else (st, c)) of
           (st, c) \<Rightarrow> (st, if st \<noteq> OI_OK then finish_turn c st else c))))"

definition oi_cli_conversation_is_busy :: "'u oi_cli_conversation option \<Rightarrow> bool" where
  "oi_cli_conversation_is_busy c \<longleftrightarrow> (case c of None \<Rightarrow> False | Some c \<Rightarrow> cv_busy c)"

definition oi_cli_conversation_activity :: "'u oi_cli_conversation option \<Rightarrow> conversation_activity" where
  "oi_cli_conversation_activity c =
     (case c of
        None \<Rightarrow> ACTIVITY_IDLE
      | Some c \<Rightarrow>
          if \<not> cv_busy c then (if cv_last_status c = OI_OK \<or> cv_cancelled c then ACTIVITY_IDLE else ACTIVITY_FAILED)
          else if cv_cancelling c then ACTIVITY_CANCELLING
          else if cv_request c then ACTIVITY_STREAMING
          else if cv_pending_permission_tool c then ACTIVITY_AWAITING_PERMISSION
          else if cv_tool c then ACTIVITY_TOOL_RUNNING
          else ACTIVITY_WORKING)"

definition oi_cli_conversation_was_cancelled :: "'u oi_cli_conversation option \<Rightarrow> bool" where
  "oi_cli_conversation_was_cancelled c \<longleftrightarrow> (case c of None \<Rightarrow> False | Some c \<Rightarrow> cv_cancelled c)"

definition oi_cli_conversation_steer :: "'u oi_cli_conversation \<Rightarrow> 'u oi_cli_conversation" where
  "oi_cli_conversation_steer c = (if \<not> cv_busy c then c else c\<lparr>cv_steering := True\<rparr>)"

definition oi_cli_conversation_resolve_permission ::
  "conversation_answers \<Rightarrow> 'u oi_cli_conversation \<Rightarrow> bool \<Rightarrow> oi_status \<times> 'u oi_cli_conversation" where
  "oi_cli_conversation_resolve_permission an c allow =
     (if \<not> cv_pending_permission_tool c then (OI_ERR_INVAL, c)
      else let c = c\<lparr>cv_pending_permission_tool := False\<rparr> in
        (OI_OK, resolve_permission_body an c (assistant_calls c ! cv_tool_index c) allow))"

text \<open>The summary moves into the first place of the list; nothing is requested.\<close>

definition oi_cli_conversation_apply_checkpoint_take_summary ::
  "'u oi_cli_conversation \<Rightarrow> nat \<Rightarrow> bytes option \<Rightarrow> oi_status \<times> 'u oi_cli_conversation" where
  "oi_cli_conversation_apply_checkpoint_take_summary c prefix_count summ =
     (case summ of
        None \<Rightarrow> (OI_ERR_INVAL, c)
      | Some s \<Rightarrow>
          if cv_busy c \<or> prefix_count = 0 \<or> prefix_count > length (ml_items (cv_messages c)) then (OI_ERR_INVAL, c)
          else (OI_OK, c\<lparr>cv_messages := (cv_messages c)\<lparr>ml_items :=
                  oi_cli_message_init\<lparr>msg_role := MESSAGE_ASSISTANT, msg_content := Some s\<rparr>
                    # drop prefix_count (ml_items (cv_messages c))\<rparr>\<rparr>))"

definition oi_cli_conversation_apply_checkpoint ::
  "'u oi_cli_conversation \<Rightarrow> nat \<Rightarrow> bytes \<Rightarrow> oi_status \<times> 'u oi_cli_conversation" where
  "oi_cli_conversation_apply_checkpoint c prefix_count summ =
     (if cv_busy c \<or> prefix_count = 0 \<or> prefix_count > length (ml_items (cv_messages c)) then (OI_ERR_INVAL, c)
      else (case oi_cli_message_set_assistant (cv_heap c) summ of
          (Inl st, h) \<Rightarrow> (st, c\<lparr>cv_heap := h\<rparr>)
        | (Inr m, h) \<Rightarrow>
            oi_cli_conversation_apply_checkpoint_take_summary (c\<lparr>cv_heap := h\<rparr>) prefix_count (msg_content m)))"

text \<open>
  What can happen to a conversation: calls by the embedder, and the callbacks of the request and the tool call in
  flight, which come only while they are.
\<close>

datatype conversation_input =
    Start bytes | Cancel | Steer | Resolve_permission bool | Set_model bytes nat | Apply_checkpoint nat bytes
  | Model_event oi_llm_event | Model_done oi_status nat "bytes option"
  | Tool_output_read bytes | Tool_exited oi_tool_exit_kind int

fun conversation_step ::
  "fmt \<Rightarrow> strtod \<Rightarrow> 'u oi_cli_conversation \<Rightarrow> conversation_input \<times> conversation_answers \<Rightarrow> 'u oi_cli_conversation" where
  "conversation_step fmt strtod c (i, an) =
     (case i of
        Start content \<Rightarrow> snd (oi_cli_conversation_start fmt an c content)
      | Cancel \<Rightarrow> oi_cli_conversation_cancel c
      | Steer \<Rightarrow> oi_cli_conversation_steer c
      | Resolve_permission allow \<Rightarrow> snd (oi_cli_conversation_resolve_permission an c allow)
      | Set_model model len \<Rightarrow> snd (oi_cli_conversation_set_model c model len)
      | Apply_checkpoint n s \<Rightarrow> snd (oi_cli_conversation_apply_checkpoint c n s)
      | Model_event ev \<Rightarrow> if cv_request c then on_llm_event c ev else c
      | Model_done st code b \<Rightarrow> if cv_request c then on_llm_done fmt strtod an c st code b else c
      | Tool_output_read data \<Rightarrow> if cv_tool c then on_tool_output c data else c
      | Tool_exited kind code \<Rightarrow> if cv_tool c then on_tool_done fmt strtod an c kind code else c)"

definition conversation_run ::
  "fmt \<Rightarrow> strtod \<Rightarrow> 'u oi_cli_conversation \<Rightarrow> (conversation_input \<times> conversation_answers) list \<Rightarrow> 'u oi_cli_conversation" where
  "conversation_run fmt strtod c is = foldl (conversation_step fmt strtod) c is"

section \<open>What committing changes\<close>

text \<open>A turn is waited for by nobody, by one of the modules below, or by the user.\<close>

definition idle :: "'u oi_cli_conversation \<Rightarrow> bool" where
  "idle c \<longleftrightarrow> \<not> cv_busy c \<and> \<not> cv_request c \<and> \<not> cv_tool c \<and> \<not> cv_pending_permission_tool c"

definition calls_left :: "'u oi_cli_conversation \<Rightarrow> bool" where
  "calls_left c \<longleftrightarrow> cv_assistant_committed c \<and> cv_assistant_message_index c < length (ml_items (cv_messages c))
     \<and> cv_tool_index c < length (assistant_calls c)"

definition waiting :: "'u oi_cli_conversation \<Rightarrow> bool" where
  "waiting c \<longleftrightarrow> cv_busy c \<and> \<not> cv_cancelling c \<and>
     (cv_request c \<and> \<not> cv_assistant_committed c \<and> \<not> cv_tool c \<and> \<not> cv_pending_permission_tool c
      \<or> \<not> cv_request c \<and> cv_tool c \<and> \<not> cv_pending_permission_tool c \<and> calls_left c
      \<or> \<not> cv_request c \<and> \<not> cv_tool c \<and> cv_pending_permission_tool c \<and> calls_left c)"

text \<open>Committing messages adds to the list, and changes the embedder's state, the trace and the answers of memory.\<close>

definition commits :: "'u oi_cli_conversation \<Rightarrow> 'u oi_cli_conversation \<Rightarrow> bool" where
  "commits c c' \<longleftrightarrow> (\<exists>ms. ml_items (cv_messages c') = ml_items (cv_messages c) @ ms)
     \<and> c' = c\<lparr>cv_user := cv_user c', cv_trace := cv_trace c', cv_messages := cv_messages c', cv_heap := cv_heap c',
              cv_tool_output := cv_tool_output c'\<rparr>"

lemma commits_refl [intro, simp]: "commits c c"
  by (simp add: commits_def)

lemma commits_same:
  assumes "commits c c'"
  shows "cv_config c' = cv_config c" "cv_model c' = cv_model c" "cv_request c' = cv_request c" "cv_tool c' = cv_tool c"
    "cv_busy c' = cv_busy c" "cv_cancelled c' = cv_cancelled c" "cv_last_status c' = cv_last_status c"
    "cv_http_status c' = cv_http_status c" "cv_model_steps c' = cv_model_steps c" "cv_assistant c' = cv_assistant c"
    "cv_streamed_calls c' = cv_streamed_calls c" "cv_assistant_message_index c' = cv_assistant_message_index c"
    "cv_tool_index c' = cv_tool_index c" "cv_assistant_committed c' = cv_assistant_committed c"
    "cv_steering c' = cv_steering c" "cv_pending_permission_tool c' = cv_pending_permission_tool c"
    "cv_cancelling c' = cv_cancelling c"
  using assms unfolding commits_def by (cases c; cases c'; simp)+

lemma commits_items: "commits c c' \<Longrightarrow> \<exists>ms. ml_items (cv_messages c') = ml_items (cv_messages c) @ ms"
  by (simp add: commits_def)

lemma commits_trans [trans]: "commits a b \<Longrightarrow> commits b c \<Longrightarrow> commits a c"
  by (cases a; cases b; cases c) (auto simp: commits_def)

lemma commits_update [simp]:
  "commits c (c\<lparr>cv_user := u\<rparr>)" "commits c (c\<lparr>cv_heap := h\<rparr>)" "commits c (c\<lparr>cv_tool_output := out\<rparr>)"
  "commits c (traced x c)" "commits c (traced x (c\<lparr>cv_user := u\<rparr>))"
  "ml_items l = ml_items (cv_messages c) @ ms \<Longrightarrow> commits c (c\<lparr>cv_messages := l, cv_heap := h\<rparr>)"
  by (simp_all add: commits_def traced_def)

lemma commits_calls:
  "commits c c' \<Longrightarrow> cv_assistant_message_index c < length (ml_items (cv_messages c)) \<Longrightarrow> assistant_calls c' = assistant_calls c"
  using commits_items [of c c'] by (auto simp: assistant_calls_def commits_same nth_append)

lemma commits_calls_left: "commits c c' \<Longrightarrow> calls_left c \<Longrightarrow> calls_left c'"
  using commits_items [of c c'] by (auto simp: calls_left_def commits_calls commits_same)

lemma commits_waiting: "commits c c' \<Longrightarrow> waiting c \<Longrightarrow> waiting c'"
  by (auto simp: waiting_def commits_same commits_calls_left)

named_theorems commits_step \<open>operations that only commit\<close>

lemma emit_open_commits [commits_step]: "emit_open c ev = (st, b, c') \<Longrightarrow> commits c c'"
  by (auto simp: emit_open_def split: option.splits prod.splits)

lemma emit_commits [commits_step]: "emit c ev = (st, c') \<Longrightarrow> commits c c'"
  by (auto simp: emit_def split: prod.splits dest: commits_step)

lemma take_items: "oi_cli_message_list_append_take h l m = (Inr l', h') \<Longrightarrow> ml_items l' = ml_items l @ [m]"
  by (auto simp: oi_cli_message_list_append_take_def Let_def split: if_splits)

lemma commit_message_commits [commits_step]:
  assumes "commit_message c m oc raw rep = (st, c')"
  shows "commits c c'"
proof -
  obtain s c1 where e: "emit_message c m oc raw rep = (s, c1)" by fastforce
  then have "commits c c1" by (auto simp: emit_message_def dest: emit_commits)
  moreover have "commits c1 c'"
    using assms e take_items [of "cv_heap c1" "cv_messages c1" m]
    by (auto simp: commit_message_def split: if_splits prod.splits sum.splits)
  ultimately show ?thesis by (rule commits_trans)
qed

lemma commit_set_commits [commits_step]: "commit_set c r oc raw rep = (st, c') \<Longrightarrow> commits c c'"
  by (auto simp: commit_set_def split: prod.splits sum.splits
      dest!: commit_message_commits intro: commits_trans [OF commits_update(2)])

lemma commit_text_commits [commits_step]:
  "commit_tool_text c call t oc raw rep = (st, c') \<Longrightarrow> commits c c'" "commit_assistant_text c t = (st, c') \<Longrightarrow> commits c c'"
  by (simp_all add: commit_tool_text_def commit_assistant_text_def commit_set_commits)

lemma repair_calls_commits [commits_step]: "repair_calls b st c calls = (st', c') \<Longrightarrow> commits c c'"
  by (induction calls arbitrary: b st c) (auto split: prod.splits if_splits dest!: commit_text_commits(1) intro: commits_trans)

lemma skip_calls_commits [commits_step]: "skip_calls st c calls = (st', c') \<Longrightarrow> commits c c'"
  by (induction calls arbitrary: st c) (auto split: prod.splits dest!: commit_text_commits(1) intro: commits_trans)

lemma dangling_commits [commits_step]:
  "repair_dangling_tool_calls c b = (st, c') \<Longrightarrow> commits c c'" "skip_steered_tool_calls c = (st, c') \<Longrightarrow> commits c c'"
  by (auto simp: repair_dangling_tool_calls_def skip_steered_tool_calls_def split: prod.splits
      dest: commits_step intro: commits_trans)

lemma close_out_commits [commits_step]:
  "close_out_incomplete_turn c b = (st, c') \<Longrightarrow> commits c c'"
  by (auto simp: close_out_incomplete_turn_def repair_interrupted_turn_def split: prod.splits if_splits
      dest!: dangling_commits(1) commit_text_commits(2) intro: commits_trans)

section \<open>A turn that ends\<close>

lemma finish_turn_idle:
  "\<not> cv_request c \<Longrightarrow> \<not> cv_tool c \<Longrightarrow> \<not> cv_pending_permission_tool c \<Longrightarrow> idle (finish_turn c st)"
  by (cases "emit (c\<lparr>cv_busy := False, cv_cancelling := False, cv_last_status := st\<rparr>) (EVENT_TURN_DONE st (cv_http_status c))")
     (auto simp: finish_turn_def idle_def commits_same dest!: emit_commits)

lemma finish_with_repair_idle:
  assumes "\<not> cv_request c" "\<not> cv_tool c" "\<not> cv_pending_permission_tool c"
  shows "idle (finish_turn_with_repair c st b)"
proof -
  obtain r c' where c': "close_out_incomplete_turn c b = (r, c')" by fastforce
  from assms commits_same [OF close_out_commits [OF c']] c' show ?thesis
    by (simp add: finish_turn_with_repair_def finish_turn_idle)
qed

lemma cancel_request_same:
  "\<not> cv_request (cancel_request c)" "cv_busy (cancel_request c) = cv_busy c"
  "\<not> cv_tool (cancel_tool c)" "cv_request (cancel_tool c) = cv_request c" "cv_pending_permission_tool (cancel_tool c) = cv_pending_permission_tool c"
  "\<not> cv_pending_permission_tool (cancel_pending c)" "cv_request (cancel_pending c) = cv_request c"
proof -
  have "cv_request (snd (emit c ev)) = cv_request c" "cv_busy (snd (emit c ev)) = cv_busy c" for c :: "'a oi_cli_conversation" and ev
    by (rule commits_same(3,5) [OF emit_commits [OF surjective_pairing]])+
  then show "\<not> cv_request (cancel_request c)" "cv_busy (cancel_request c) = cv_busy c"
    by (simp_all add: cancel_request_def traced_def)
qed (simp_all add: cancel_tool_def cancel_pending_def traced_def)

lemma cancel_idle:
  assumes "cv_busy c"
  shows "idle (oi_cli_conversation_cancel c)"
proof -
  let ?c = "cancel_pending (cancel_request (c\<lparr>cv_cancelling := True\<rparr>))"
  obtain st c' where c': "close_out_incomplete_turn (cancel_tool ?c) (cv_tool ?c) = (st, c')" by fastforce
  with assms commits_same [OF close_out_commits [OF c']] show ?thesis
    by (simp add: oi_cli_conversation_cancel_def Let_def finish_turn_idle cancel_request_same)
qed

lemma emit_reentrant_cases:
  assumes "emit_reentrant c ev = (st, c')"
  obtains (kept) "commits c c'" | (cancelled) "cv_busy c" "idle c'"
proof -
  obtain b c1 where e: "emit_open c ev = (st, b, c1)" "c' = (if b then oi_cli_conversation_cancel c1 else c1)"
    using assms by (auto simp: emit_reentrant_def split: prod.splits)
  note k = emit_open_commits [OF e(1)]
  show thesis
  proof (cases "b \<and> cv_busy c")
    case True
    with e(2) cancel_idle [of c1] commits_same [OF k] cancelled show ?thesis by simp
  next
    case False
    with e(2) commits_same [OF k] have "c' = c1" by (auto simp: oi_cli_conversation_cancel_def)
    with kept k show ?thesis by simp
  qed
qed

section \<open>A turn that goes on waits for something\<close>

text \<open>Nothing is in flight.\<close>

definition free_handed :: "'u oi_cli_conversation \<Rightarrow> bool" where
  "free_handed c \<longleftrightarrow> \<not> cv_request c \<and> \<not> cv_tool c \<and> \<not> cv_pending_permission_tool c"

lemma finish_idle: "free_handed c \<Longrightarrow> idle (finish_turn c st)" "free_handed c \<Longrightarrow> idle (finish_turn_with_repair c st b)"
  by (simp_all add: free_handed_def finish_turn_idle finish_with_repair_idle)

lemma free_handed_commits: "commits c c' \<Longrightarrow> free_handed c \<Longrightarrow> free_handed c'"
  by (simp add: free_handed_def commits_same)

lemma free_handed_update [simp]:
  "free_handed (c\<lparr>cv_heap := h\<rparr>) = free_handed c" "free_handed (c\<lparr>cv_user := u\<rparr>) = free_handed c"
  "free_handed (c\<lparr>cv_tool_index := k\<rparr>) = free_handed c" "free_handed (c\<lparr>cv_tool_output := b\<rparr>) = free_handed c"
  "free_handed (c\<lparr>cv_http_status := n\<rparr>) = free_handed c" "free_handed (c\<lparr>cv_streamed_calls := ts\<rparr>) = free_handed c"
  "free_handed (c\<lparr>cv_assistant_message_index := k\<rparr>) = free_handed c" "free_handed (c\<lparr>cv_assistant_committed := x1\<rparr>) = free_handed c"
  "free_handed (traced x c) = free_handed c" "free_handed (clear_streamed_response c) = free_handed c"
  by (simp_all add: free_handed_def traced_def clear_streamed_response_def)

lemma idle_free: "idle c \<Longrightarrow> free_handed c"
  by (simp add: idle_def free_handed_def)

lemma abort_idle:
  "\<not> cv_request c \<Longrightarrow> \<not> cv_pending_permission_tool c \<Longrightarrow> idle (abort_tool c st)"
  "\<not> cv_tool c \<Longrightarrow> \<not> cv_pending_permission_tool c \<Longrightarrow> idle (abort_request c st)"
  by (simp_all add: abort_tool_def abort_request_def detach_request_def finish_with_repair_idle cancel_request_same traced_def)

definition at_rest :: "'u oi_cli_conversation \<Rightarrow> bool" where
  "at_rest c \<longleftrightarrow> idle c \<or> waiting c"

text \<open>A turn between two waits.\<close>

definition working :: "'u oi_cli_conversation \<Rightarrow> bool" where
  "working c \<longleftrightarrow> free_handed c \<and> cv_busy c \<and> \<not> cv_cancelling c"

lemma working_commits: "commits c c' \<Longrightarrow> working c \<Longrightarrow> working c'"
  by (simp add: working_def free_handed_commits commits_same)

lemma working_update [simp]:
  "working (c\<lparr>cv_heap := h\<rparr>) = working c" "working (c\<lparr>cv_user := u\<rparr>) = working c"
  "working (c\<lparr>cv_tool_index := k\<rparr>) = working c" "working (c\<lparr>cv_tool_output := b\<rparr>) = working c"
  "working (c\<lparr>cv_http_status := n\<rparr>) = working c" "working (c\<lparr>cv_streamed_calls := ts\<rparr>) = working c"
  "working (c\<lparr>cv_assistant_message_index := k\<rparr>) = working c" "working (c\<lparr>cv_assistant_committed := x1\<rparr>) = working c"
  "working (traced x c) = working c" "working (clear_streamed_response c) = working c"
  by (simp_all add: working_def) (simp_all add: traced_def clear_streamed_response_def)

lemma calls_left_update [simp]:
  "calls_left (c\<lparr>cv_heap := h\<rparr>) = calls_left c" "calls_left (c\<lparr>cv_user := u\<rparr>) = calls_left c"
  "calls_left (c\<lparr>cv_tool_output := b\<rparr>) = calls_left c" "calls_left (traced x c) = calls_left c"
  "calls_left (c\<lparr>cv_tool := x'\<rparr>) = calls_left c" "calls_left (c\<lparr>cv_pending_permission_tool := x'\<rparr>) = calls_left c"
  by (simp_all add: calls_left_def assistant_calls_def traced_def)

lemma start_request_rests:
  assumes "start_model_request fmt an c = (st, c')" "working c"
  shows "if st = OI_OK then waiting c' else working c'"
  using assms
  by (auto simp: start_model_request_def Let_def working_def free_handed_def waiting_def traced_def build_request_body_def
      split: if_splits prod.splits sum.splits option.splits)

lemma arm_tool_result: "arm_tool an c = (st, c') \<Longrightarrow> c' = c\<lparr>cv_trace := cv_trace c'\<rparr>"
  by (auto simp: arm_tool_def traced_def split: if_splits)

lemma traced_again: "c' = c\<lparr>cv_trace := t\<rparr> \<Longrightarrow> commits c c'"
  by (simp add: commits_def)

lemma resolve_rests:
  assumes "working c" "calls_left c"
  shows "at_rest (resolve_permission_body an c call allow)"
proof (cases allow)
  case False
  obtain st c1 where c1: "commit_tool_text (traced Tool_denied c) call denied_tool_not_executed_text CONVERSATION_TOOL_DENIED None False
      = (st, c1)" by fastforce
  have "free_handed c1"
    using free_handed_commits [OF commit_text_commits(1) [OF c1]] assms by (simp add: working_def)
  with False c1 show ?thesis by (simp add: resolve_permission_body_def at_rest_def finish_idle)
next
  case True
  obtain st c1 where c1: "emit_reentrant c (EVENT_TOOL_STARTING call) = (st, c1)" by fastforce
  then have w: "working c1 \<and> calls_left c1 \<or> idle c1"
    by (cases rule: emit_reentrant_cases) (use assms in \<open>auto dest: working_commits commits_calls_left\<close>)
  then have f: "free_handed c1" by (auto simp: working_def idle_free)
  consider (st) "st \<noteq> OI_OK" | (gone) "st = OI_OK" "\<not> cv_busy c1" | (no) "st = OI_OK" "cv_busy c1" "an_resolve an \<noteq> OI_OK"
    | (yes) "st = OI_OK" "cv_busy c1" "an_resolve an = OI_OK" by blast
  then show ?thesis
  proof cases
    case st with c1 True f show ?thesis by (simp add: resolve_permission_body_def at_rest_def finish_idle)
  next
    case gone
    with w have "idle (traced Tool_cancelled c1)" by (auto simp: working_def idle_def traced_def)
    with c1 True gone show ?thesis by (simp add: resolve_permission_body_def at_rest_def)
  next
    case no
    have "free_handed (c1\<lparr>cv_tool := False\<rparr>)" using f by (simp add: free_handed_def)
    with c1 True no show ?thesis by (simp add: resolve_permission_body_def at_rest_def finish_idle)
  next
    case yes
    let ?c = "traced Tool_spawned (c1\<lparr>cv_tool := True\<rparr>)"
    obtain st2 c2 where c2: "arm_tool an ?c = (st2, c2)" by fastforce
    from yes w have "working c1" "calls_left c1" by (auto simp: idle_def)
    then have "waiting ?c"
      by (simp add: waiting_def) (simp add: working_def free_handed_def traced_def)
    from commits_waiting [OF traced_again [OF arm_tool_result [OF c2]] this] have w2: "waiting c2" .
    have "\<not> cv_request c2 \<Longrightarrow> \<not> cv_pending_permission_tool c2 \<Longrightarrow> idle (abort_tool c2 st2)" by (rule abort_idle)
    moreover have "\<not> cv_request c2" "\<not> cv_pending_permission_tool c2"
      using f commits_same [OF traced_again [OF arm_tool_result [OF c2]]] by (simp_all add: free_handed_def traced_def)
    ultimately show ?thesis using c1 c2 True yes w2 by (simp add: resolve_permission_body_def at_rest_def)
  qed
qed

lemma request_call_rests:
  assumes "working c" "calls_left c"
  shows "at_rest (request_tool_call an c call arguments)"
proof -
  obtain d u where p: "(case cc_permission (cv_config c) of None \<Rightarrow> (OI_TOOL_ALLOW, cv_user c)
      | Some f \<Rightarrow> f (c_string (tc_name call)) arguments (cv_user c)) = (d, u)" by fastforce
  let ?c = "c\<lparr>cv_user := u\<rparr>"
  show ?thesis
  proof (cases "d = OI_TOOL_ASK")
    case False
    with p resolve_rests [of ?c an call "d = OI_TOOL_ALLOW"] assms show ?thesis by (simp add: request_tool_call_def Let_def)
  next
    case True
    let ?p = "?c\<lparr>cv_pending_permission_tool := True\<rparr>"
    have wp: "waiting ?p" using assms by (simp add: working_def waiting_def free_handed_def)
    obtain st c1 where c1: "emit_reentrant ?p (EVENT_AWAITING_PERMISSION call) = (st, c1)" by fastforce
    then have r: "at_rest c1" "\<not> cv_request c1" "\<not> cv_tool c1"
      using assms
      by (cases rule: emit_reentrant_cases; use commits_waiting [OF _ wp] in
          \<open>auto simp: at_rest_def commits_same working_def free_handed_def idle_def\<close>)+
    then have "free_handed (traced Tool_cancelled (c1\<lparr>cv_pending_permission_tool := False\<rparr>))"
      by (simp add: free_handed_def traced_def)
    from finish_idle(2) [OF this] r(1) p c1 True show ?thesis
      by (simp add: request_tool_call_def Let_def at_rest_def)
  qed
qed

lemma skipped_commits:
  assumes "skip_steered_tool_calls c = (st, c1)"
    and "(if st = OI_OK then close_out_steered_turn c1 else (st, c1)) = (st', c')"
  shows "commits c c'"
  using commits_trans [OF dangling_commits(2) [OF assms(1)]] commit_text_commits(2) [of c1 _ st' c'] assms(2)
    dangling_commits(2) [OF assms(1)]
  by (auto simp: close_out_steered_turn_def split: if_splits)

lemma next_tool_rests:
  assumes "working c" "cv_assistant_committed c" "cv_assistant_message_index c < length (ml_items (cv_messages c))"
  shows "at_rest (start_next_tool fmt strtod an c)"
proof -
  have b: "cv_busy c" using assms by (simp add: working_def)
  consider (steer) "cv_steering c" | (none) "\<not> cv_steering c" "cv_tool_index c \<ge> length (assistant_calls c)"
    | (call) "\<not> cv_steering c" "cv_tool_index c < length (assistant_calls c)" by linarith
  then show ?thesis
  proof cases
    case steer
    obtain st c1 where c1: "skip_steered_tool_calls c = (st, c1)" by fastforce
    obtain st' c2 where c2: "(if st = OI_OK then close_out_steered_turn c1 else (st, c1)) = (st', c2)" by fastforce
    have "free_handed c2" using free_handed_commits [OF skipped_commits [OF c1 c2]] assms(1) by (simp add: working_def)
    from finish_idle(1) [OF this] show ?thesis using b steer c1 c2 by (simp add: start_next_tool_def at_rest_def)
  next
    case none
    obtain st c1 where c1: "start_model_request fmt an c = (st, c1)" by fastforce
    from start_request_rests [OF c1 assms(1)] b none c1 show ?thesis
      by (auto simp: start_next_tool_def at_rest_def working_def finish_idle split: if_splits)
  next
    case call
    let ?call = "assistant_calls c ! cv_tool_index c"
    obtain r h where p: "parse_arguments strtod (cv_heap c) (an_arena an) (tc_arguments ?call) = (r, h)" by fastforce
    have l: "calls_left (c\<lparr>cv_heap := h\<rparr>)" using call assms by (simp add: calls_left_def assistant_calls_def)
    show ?thesis
    proof (cases r)
      case (Inl st)
      with b call p assms show ?thesis by (simp add: start_next_tool_def at_rest_def finish_idle working_def Let_def)
    next
      case (Inr v)
      have "at_rest (request_tool_call an (traced (Tool_staged (c_string (tc_name ?call)) v) (c\<lparr>cv_heap := h\<rparr>)) ?call v)"
        by (rule request_call_rests) (use l assms in simp_all)
      with Inr b call p assms show ?thesis
        by (simp add: start_next_tool_def Let_def) (simp add: at_rest_def finish_idle working_def)
    qed
  qed
qed

lemma tool_done_rests:
  assumes "waiting c" "cv_tool c"
  shows "at_rest (on_tool_done fmt strtod an c kind code)"
proof -
  let ?c = "c\<lparr>cv_tool := False\<rparr>"
  have w: "working ?c" and l: "calls_left ?c" using assms by (auto simp: waiting_def working_def free_handed_def)
  define oc where "oc = (if kind = OI_TOOL_EXIT_NORMAL \<and> code = 0 then CONVERSATION_TOOL_COMPLETED else CONVERSATION_TOOL_FAILED)"
  define r where "r = (case tool_result_text (cv_heap ?c) (cb_data (cv_tool_output ?c)) kind code of
      (Inl st, h) \<Rightarrow> (st, ?c\<lparr>cv_heap := h\<rparr>)
    | (Inr t, h) \<Rightarrow> commit_tool_text (?c\<lparr>cv_heap := h\<rparr>) (assistant_calls ?c ! cv_tool_index ?c) (cb_data t) oc (Some (cb_data (cv_tool_output ?c))) False)"
  obtain st c1 where c1: "r = (st, c1)" by fastforce
  have k: "commits ?c c1"
    using c1 unfolding r_def
    by (auto split: prod.splits sum.splits dest!: commit_text_commits(1) intro: commits_trans [OF commits_update(2)])
  have w1: "working (c1\<lparr>cv_tool_output := buffer_empty\<rparr>)" using working_commits [OF k w] by simp
  have l1: "calls_left (c1\<lparr>cv_tool_output := buffer_empty\<rparr>)" using commits_calls_left [OF k l] by simp
  have "at_rest (start_next_tool fmt strtod an (c1\<lparr>cv_tool_output := buffer_empty, cv_tool_index := cv_tool_index c1 + 1\<rparr>))"
    by (rule next_tool_rests) (use w1 l1 in \<open>auto simp: calls_left_def\<close>)
  moreover have "idle (finish_turn_with_repair (c1\<lparr>cv_tool_output := buffer_empty\<rparr>) st True)"
    using w1 by (simp add: working_def finish_idle)
  moreover have "on_tool_done fmt strtod an c kind code = (case r of (st, c) \<Rightarrow>
      let c = c\<lparr>cv_tool_output := buffer_empty\<rparr> in
      if st \<noteq> OI_OK then finish_turn_with_repair c st True
      else start_next_tool fmt strtod an (c\<lparr>cv_tool_index := cv_tool_index c + 1\<rparr>))"
    unfolding on_tool_done_def Let_def r_def oc_def ..
  ultimately show ?thesis using c1 by (simp add: at_rest_def Let_def)
qed

lemma tool_output_rests:
  assumes "waiting c" "cv_tool c"
  shows "at_rest (on_tool_output c data)"
proof -
  obtain st b h where a: "appended (cv_tool_output c) (buffer_append (cv_heap c) (cv_tool_output c) data history_max_content) = (st, b, h)"
    by (metis prod_cases3)
  obtain st' c1 where e: "(if st = OI_OK then emit_reentrant (c\<lparr>cv_tool_output := b, cv_heap := h\<rparr>) (EVENT_TOOL_OUTPUT data)
      else (st, c\<lparr>cv_heap := h\<rparr>)) = (st', c1)" by fastforce
  have w: "waiting (c\<lparr>cv_heap := h\<rparr>)" "waiting (c\<lparr>cv_tool_output := b, cv_heap := h\<rparr>)"
    using assms by (simp_all add: waiting_def calls_left_def assistant_calls_def)
  have "(waiting c1 \<and> cv_tool c1) \<or> idle c1"
  proof (cases "st = OI_OK")
    case True
    with e have "emit_reentrant (c\<lparr>cv_tool_output := b, cv_heap := h\<rparr>) (EVENT_TOOL_OUTPUT data) = (st', c1)" by simp
    then show ?thesis
      by (cases rule: emit_reentrant_cases) (use assms commits_waiting w(2) in \<open>auto simp: commits_same\<close>)
  qed (use e w assms in auto)
  then have "at_rest c1" "\<not> cv_request c1" "\<not> cv_pending_permission_tool c1" by (auto simp: at_rest_def waiting_def idle_def)
  with a e show ?thesis by (simp add: on_tool_output_def at_rest_def abort_idle)
qed

lemma llm_event_rests:
  assumes "waiting c" "cv_request c"
  shows "at_rest (on_llm_event c event)"
proof -
  define r where "r = (case event of
              OI_LLM_EVENT_TEXT data \<Rightarrow>
                (case appended (cv_assistant c) (buffer_append (cv_heap c) (cv_assistant c) data history_max_content) of
                   (st, b, h) \<Rightarrow>
                     if st = OI_OK
                     then emit_reentrant (c\<lparr>cv_assistant := b, cv_heap := h\<rparr>) (EVENT_ASSISTANT_DELTA data)
                     else (st, c\<lparr>cv_heap := h\<rparr>))
            | OI_LLM_EVENT_TOOL_CALL index i name arguments \<Rightarrow>
                (case find_or_add_streamed_call (cv_heap c) (cv_streamed_calls c) index of
                   (None, h) \<Rightarrow> (OI_ERR_NOMEM, c\<lparr>cv_heap := h\<rparr>)
                 | (Some (ts, k), h) \<Rightarrow>
                     (case append_call_fragments h (ts ! k) (string_bytes i) (string_bytes name) (string_bytes arguments) of
                        (st, t, h) \<Rightarrow> (st, c\<lparr>cv_streamed_calls := ts[k := t], cv_heap := h\<rparr>))))"
  obtain st c1 where c1: "r = (st, c1)" by fastforce
  have w: "waiting (c\<lparr>cv_heap := h\<rparr>)" "waiting (c\<lparr>cv_assistant := b, cv_heap := h\<rparr>)"
    "waiting (c\<lparr>cv_streamed_calls := ts, cv_heap := h\<rparr>)" for h b ts
    using assms by (simp_all add: waiting_def calls_left_def assistant_calls_def)
  have "(waiting c1 \<and> cv_request c1) \<or> idle c1"
  proof (cases event)
    case (OI_LLM_EVENT_TEXT data)
    obtain st b h where a: "appended (cv_assistant c) (buffer_append (cv_heap c) (cv_assistant c) data history_max_content) = (st, b, h)"
      by (metis prod_cases3)
    show ?thesis
    proof (cases "st = OI_OK")
      case True
      with a OI_LLM_EVENT_TEXT c1 have "emit_reentrant (c\<lparr>cv_assistant := b, cv_heap := h\<rparr>) (EVENT_ASSISTANT_DELTA data) = (fst r, c1)"
        by (simp add: r_def)
      then show ?thesis
        by (cases rule: emit_reentrant_cases) (use assms commits_waiting w(2) in \<open>auto simp: commits_same\<close>)
    qed (use a OI_LLM_EVENT_TEXT c1 w(1) assms in \<open>auto simp: r_def\<close>)
  next
    case (OI_LLM_EVENT_TOOL_CALL index i name arguments)
    with c1 w assms show ?thesis by (auto simp: r_def split: prod.splits option.splits)
  qed
  then have "at_rest c1" "\<not> cv_tool c1" "\<not> cv_pending_permission_tool c1" by (auto simp: at_rest_def waiting_def idle_def)
  moreover have "on_llm_event c event = (if st \<noteq> OI_OK then abort_request c1 st else c1)"
    using c1 unfolding r_def on_llm_event_def by simp
  ultimately show ?thesis by (simp add: at_rest_def abort_idle)
qed

lemma take_message_fails: "fst (oi_cli_message_list_append_take h l m) \<noteq> Inl OI_OK"
  by (simp add: oi_cli_message_list_append_take_def Let_def fails)

lemma commit_set_grows:
  assumes "commit_set c r oc raw rep = (OI_OK, c')" "fst r \<noteq> Inl OI_OK"
  obtains m h where "r = (Inr m, h)" "ml_items (cv_messages c') = ml_items (cv_messages c) @ [m]"
proof -
  obtain m h where r: "r = (Inr m, h)" using assms by (cases r) (auto simp: commit_set_def split: sum.splits)
  obtain st c1 where e: "emit_message (c\<lparr>cv_heap := h\<rparr>) m oc raw rep = (st, c1)" by fastforce
  obtain x h' where t: "oi_cli_message_list_append_take (cv_heap c1) (cv_messages c1) m = (x, h')" by fastforce
  have "cv_messages c1 = cv_messages c"
    using e by (auto simp: emit_message_def emit_def emit_open_def traced_def split: option.splits prod.splits)
  moreover from assms(1) r e t take_message_fails [of "cv_heap c1" "cv_messages c1" m]
  obtain l where "x = Inr l" "c' = c1\<lparr>cv_messages := l, cv_heap := h'\<rparr>"
    by (auto simp: commit_set_def commit_message_def split: if_splits sum.splits)
  ultimately show thesis using r take_items [of "cv_heap c1" "cv_messages c1" m l h'] t that by simp
qed

lemma add_calls_fails [fails]: "fst (add_streamed_calls h m i ts) \<noteq> Inl OI_OK"
  by (induction ts arbitrary: h m i) (simp_all add: alloc_then_fails fails)

lemma build_assistant_fails [fails]: "fst (build_assistant_message c) \<noteq> Inl OI_OK"
  by (simp add: build_assistant_message_def alloc_then_fails fails)

lemma llm_done_rests:
  assumes "waiting c" "cv_request c"
  shows "at_rest (on_llm_done fmt strtod an c status http_status failure_body)"
proof -
  let ?c = "c\<lparr>cv_request := False, cv_http_status := http_status\<rparr>"
  have w: "working ?c" using assms by (auto simp: waiting_def working_def free_handed_def)
  show ?thesis
  proof (cases "status = OI_OK")
    case False
    obtain st c1 where c1: "report_failure ?c status failure_body = (st, c1)" by fastforce
    have "commits ?c c1"
      using c1
      by (auto simp: report_failure_def split: option.splits prod.splits if_splits dest!: emit_commits intro: commits_trans)
    from free_handed_commits [OF this] w False c1 show ?thesis
      by (simp add: on_llm_done_def at_rest_def finish_idle working_def)
  next
    case True
    let ?s = "?c\<lparr>cv_streamed_calls := sort_key st_index (cv_streamed_calls ?c)\<rparr>"
    obtain st c1 where c1: "commit_set ?s (build_assistant_message ?c) CONVERSATION_TOOL_NONE None False = (st, c1)" by fastforce
    have w1: "working c1" using working_commits [OF commit_set_commits [OF c1]] w by simp
    show ?thesis
    proof (cases "st = OI_OK")
      case False
      with True c1 w1 show ?thesis by (simp add: on_llm_done_def Let_def at_rest_def finish_idle working_def)
    next
      case ok: True
      from commit_set_grows [OF c1 [unfolded ok] build_assistant_fails]
      have n: "ml_items (cv_messages c1) \<noteq> []" by (metis append_is_Nil_conv not_Cons_self2)
      let ?r = "clear_streamed_response (c1\<lparr>cv_assistant_message_index := length (ml_items (cv_messages c1)) - 1,
                     cv_assistant_committed := True, cv_tool_index := 0\<rparr>)"
      obtain st' c2 where c2: "emit ?r EVENT_RESPONSE_DONE = (st', c2)" by fastforce
      note k = emit_commits [OF c2]
      have w2: "working c2" using working_commits [OF k] w1 by simp
      have "cv_assistant_committed c2 \<and> cv_assistant_message_index c2 < length (ml_items (cv_messages c2))"
        using n commits_items [OF k] by (cases "ml_items (cv_messages c1)") (auto simp: commits_same [OF k] clear_streamed_response_def)
      with next_tool_rests [OF w2] have "at_rest (start_next_tool fmt strtod an c2)" by blast
      then show ?thesis
        using True c1 ok c2 w2 by (simp add: on_llm_done_def Let_def) (simp add: at_rest_def finish_idle working_def)
    qed
  qed
qed

lemma start_rests:
  assumes "idle c"
  shows "at_rest (snd (oi_cli_conversation_start fmt an c content))"
proof (cases "length content > history_max_content")
  case False
  let ?c = "clear_streamed_response (traced Arena_reset c)\<lparr>cv_tool_output := buffer_empty, cv_last_status := OI_OK,
              cv_http_status := 0, cv_model_steps := 0, cv_cancelled := False, cv_cancelling := False,
              cv_steering := False, cv_busy := True\<rparr>"
  have w: "working ?c" using assms by (simp add: working_def idle_def free_handed_def clear_streamed_response_def traced_def)
  obtain st c1 where c1: "commit_set ?c (oi_cli_message_set_user (cv_heap ?c) content) CONVERSATION_TOOL_NONE None False = (st, c1)" by fastforce
  have w1: "working c1" using working_commits [OF commit_set_commits [OF c1] w] .
  obtain st' c2 where c2: "(if st = OI_OK then start_model_request fmt an c1 else (st, c1)) = (st', c2)" by fastforce
  have "if st' = OI_OK then waiting c2 else working c2"
    using c2 start_request_rests [of fmt an c1 st' c2] w1 by (auto split: if_splits)
  moreover have "oi_cli_conversation_start fmt an c content = (st', if st' \<noteq> OI_OK then finish_turn c2 st' else c2)"
    using False assms c1 c2 by (simp add: oi_cli_conversation_start_def idle_def Let_def)
  ultimately show ?thesis by (auto simp: at_rest_def working_def finish_idle split: if_splits)
qed (use assms in \<open>simp add: oi_cli_conversation_start_def at_rest_def\<close>)

lemma at_rest_waiting: "at_rest c \<Longrightarrow> cv_request c \<or> cv_tool c \<Longrightarrow> waiting c"
  by (auto simp: at_rest_def idle_def)

lemma step_rests: "at_rest c \<Longrightarrow> at_rest (conversation_step fmt strtod c (i, an))"
proof (cases i)
  case (Start content)
  show "at_rest c \<Longrightarrow> ?thesis" unfolding Start
    using start_rests [of c fmt an content]
    by (auto simp: at_rest_def oi_cli_conversation_start_def waiting_def)
next
  case (Resolve_permission allow)
  show "at_rest c \<Longrightarrow> ?thesis"
  proof (cases "cv_pending_permission_tool c")
    case True
    let ?c = "c\<lparr>cv_pending_permission_tool := False\<rparr>"
    assume "at_rest c"
    with True have "working ?c" "calls_left ?c" by (auto simp: at_rest_def idle_def waiting_def working_def free_handed_def)
    from resolve_rests [OF this] True show ?thesis
      unfolding Resolve_permission by (simp add: oi_cli_conversation_resolve_permission_def Let_def)
  qed (simp add: Resolve_permission oi_cli_conversation_resolve_permission_def)
next
  case (Apply_checkpoint n s)
  show "at_rest c \<Longrightarrow> ?thesis" unfolding Apply_checkpoint
    by (auto simp: oi_cli_conversation_apply_checkpoint_def oi_cli_conversation_apply_checkpoint_take_summary_def
        at_rest_def idle_def waiting_def split: prod.split sum.split option.split)
next
  case (Set_model m n)
  show "at_rest c \<Longrightarrow> ?thesis" unfolding Set_model
    by (auto simp: oi_cli_conversation_set_model_def at_rest_def idle_def waiting_def calls_left_def assistant_calls_def
        split: prod.split sum.split)
next
  case Cancel
  show "at_rest c \<Longrightarrow> ?thesis" using cancel_idle [of c] unfolding Cancel
    by (auto simp: oi_cli_conversation_cancel_def at_rest_def)
next
  case Steer
  show "at_rest c \<Longrightarrow> ?thesis" unfolding Steer
    by (cases "cv_busy c") (auto simp: oi_cli_conversation_steer_def at_rest_def idle_def waiting_def calls_left_def assistant_calls_def)
qed (use at_rest_waiting [of c] llm_event_rests [of c] llm_done_rests [of c] tool_output_rests [of c] tool_done_rests [of c] in auto)

lemma run_rests: "at_rest c \<Longrightarrow> at_rest (conversation_run fmt strtod c is)"
  unfolding conversation_run_def by (induction "is" arbitrary: c) (auto intro: step_rests)

lemma create_idle: "oi_cli_conversation_create h cfg u model ctx = Inr c \<Longrightarrow> idle c"
  by (auto simp: oi_cli_conversation_create_def idle_def split: if_splits prod.splits sum.splits)

section \<open>Texts of tools\<close>

lemma valid_sequence: "valid_utf8_sequence data = (case oi_cli_utf8_sequence_length data of Inr n \<Rightarrow> n | Inl _ \<Rightarrow> 0)"
proof (cases "data = []")
  case False
  then show ?thesis
    by (simp add: valid_utf8_sequence_def oi_cli_utf8_sequence_length_def oi_cli_utf8_lead_length_def Let_def
        is_continuation_def byte_nat)
      (auto split: if_splits)
qed (simp add: valid_utf8_sequence_def oi_cli_utf8_sequence_length_def)

function normalized :: "bytes \<Rightarrow> bytes" where
  "normalized data =
     (if data = [] then []
      else let n = valid_utf8_sequence data in
        (if n = 0 then utf8_replacement else take n data) @ normalized (drop (if n = 0 then 1 else n) data))"
  by pat_completeness auto
termination by (relation "measure length") auto

declare normalized.simps [simp del]

lemma normalized_Nil: "normalized [] = []"
  by (subst normalized.simps) simp

lemma buffer_append_Inr:
  assumes "buffer_append h b data limit = (Inr b', h')"
  shows "cb_data b' = cb_data b @ data \<and> length (cb_data b') \<le> limit \<and> cb_cap b' \<noteq> 0"
  using assms
  by (auto simp: buffer_append_def Let_def split: if_splits option.splits dest: grow_cap_pos)

lemma normalize_result:
  "normalize_utf8 h data b = (Inr b', h') \<Longrightarrow> cb_data b' = cb_data b @ normalized data \<and> length (cb_data b') \<le> history_max_content"
proof (induction h data b rule: normalize_utf8.induct)
  case (1 h data b)
  show ?case
  proof (cases "data = []")
    case True
    with 1(2) buffer_append_Inr [of h b "[]" history_max_content b' h'] show ?thesis
      by (auto simp: normalize_utf8.simps [of h "[]" b] normalized_Nil)
  next
    case False
    let ?n = "valid_utf8_sequence data"
    let ?x = "if ?n = 0 then utf8_replacement else take ?n data" and ?r = "drop (if ?n = 0 then 1 else ?n) data"
    from 1(2) False obtain b1 h1 where b: "buffer_append h b ?x history_max_content = (Inr b1, h1)"
      "normalize_utf8 h1 ?r b1 = (Inr b', h')"
      by (auto simp: normalize_utf8.simps [of h data b] Let_def)
    have n: "normalized data = ?x @ normalized ?r" using False by (simp add: normalized.simps [of data] Let_def)
    note ih = 1(1) [OF False refl b(2)] and x = buffer_append_Inr [OF b(1)]
    show ?thesis
    proof
      show "cb_data b' = cb_data b @ normalized data" unfolding n using ih x by (simp only: append_assoc)
      show "length (cb_data b') \<le> history_max_content" using ih by (rule conjunct2)
    qed
  qed
qed

lemma normalized_text: "utf8_text (normalized data)"
proof (induction data rule: normalized.induct)
  case (1 data)
  show ?case
  proof (cases "data = []")
    case False
    let ?n = "valid_utf8_sequence data"
    have "utf8_text (if ?n = 0 then utf8_replacement else take ?n data)"
    proof (cases "oi_cli_utf8_sequence_length data")
      case (Inl e)
      then show ?thesis using replacement_text by (simp add: valid_sequence utf8_replacement_def replacement_def)
    next
      case (Inr n)
      from sequence_length_decode [OF Inr] obtain cp where "scalar_value cp" "take n data = utf8_encode cp" by auto
      with Inr sequence_length_range [OF Inr] utf8_text_encode [OF _ utf8_text_Nil, of cp] show ?thesis
        by (simp add: valid_sequence)
    qed
    with 1 [OF False refl] False show ?thesis by (simp add: normalized.simps [of data] Let_def utf8_text_append del: One_nat_def)
  qed (simp add: normalized_Nil)
qed

lemma normalized_id: "utf8_text data \<Longrightarrow> normalized data = data"
proof -
  assume "utf8_text data"
  then obtain cps where c: "\<forall>cp \<in> set cps. scalar_value cp" "data = concat (map utf8_encode cps)"
    by (auto simp: utf8_text_def)
  from c(1) have "normalized (concat (map utf8_encode cps)) = concat (map utf8_encode cps)"
  proof (induction cps)
    case (Cons cp cps)
    then have n: "valid_utf8_sequence (utf8_encode cp @ concat (map utf8_encode cps)) = length (utf8_encode cp)"
      by (simp add: valid_sequence sequence_length_encode)
    from Cons show ?case
      by (simp add: normalized.simps [of "utf8_encode cp @ concat (map utf8_encode cps)"] n Let_def)
  qed (simp add: normalized_Nil)
  with c(2) show ?thesis by simp
qed

text \<open>While memory lasts, an append fails only for the limit.\<close>

lemma buffer_append_ok:
  assumes "length (cb_data b) + length data \<le> limit" "limit \<le> history_max_content"
  obtains cap where "buffer_append heap_ok b data limit = (Inr \<lparr>cb_data = cb_data b @ data, cb_cap = cap\<rparr>, heap_ok)"
proof -
  let ?n = "length (cb_data b) + length data + 1" and ?c = "if cb_cap b = 0 then 256 else cb_cap b"
  have "?n \<le> size_max div 2" "0 < ?c" using assms by (auto simp: size_max_def history_max_content_def)
  from grow_cap_enough [OF this(2,1)] obtain c where g: "grow_cap ?c ?n = Some c" by blast
  have s: "\<not> length data > size_max - length (cb_data b) - 1" using assms by (simp add: size_max_def history_max_content_def)
  have e: "b\<lparr>cb_data := x, cb_cap := c\<rparr> = \<lparr>cb_data = x, cb_cap = c\<rparr>" "b\<lparr>cb_data := x\<rparr> = \<lparr>cb_data = x, cb_cap = cb_cap b\<rparr>" for x c
    by (cases b; simp)+
  from g s assms that [of c] that [of "cb_cap b"] show thesis
    by (cases "?n > cb_cap b") (auto simp: buffer_append_def Let_def e)
qed

lemma normalize_ok:
  "length (cb_data b) + length (normalized data) \<le> history_max_content \<Longrightarrow>
     \<exists>cap. normalize_utf8 heap_ok data b = (Inr \<lparr>cb_data = cb_data b @ normalized data, cb_cap = cap\<rparr>, heap_ok)"
proof (induction "length data" arbitrary: data b rule: less_induct)
  case less
  show ?case
  proof (cases "data = []")
    case True
    with less(2) buffer_append_ok [of b "[]" history_max_content] show ?thesis
      by (auto simp: normalize_utf8.simps [of heap_ok "[]" b] normalized_Nil)
  next
    case False
    let ?n = "valid_utf8_sequence data"
    let ?x = "if ?n = 0 then utf8_replacement else take ?n data" and ?r = "drop (if ?n = 0 then 1 else ?n) data"
    have n: "normalized data = ?x @ normalized ?r" using False by (simp add: normalized.simps [of data] Let_def)
    with less(2) have l: "length (cb_data b) + length ?x \<le> history_max_content" by simp
    from buffer_append_ok [OF l order_refl] obtain cap where
      b: "buffer_append heap_ok b ?x history_max_content = (Inr \<lparr>cb_data = cb_data b @ ?x, cb_cap = cap\<rparr>, heap_ok)" .
    have "length ?r < length data" using False by simp
    from less(1) [OF this, of "\<lparr>cb_data = cb_data b @ ?x, cb_cap = cap\<rparr>"] less(2) n
    show ?thesis using False b by (auto simp: normalize_utf8.simps [of heap_ok data b] Let_def)
  qed
qed

section \<open>The body of a request\<close>

text \<open>The value a request is written as.\<close>

definition tool_definition_value :: oi_json_value where
  "tool_definition_value = JSON_OBJECT [string_value ''type'' (bytes_of ''function''), (bytes_of ''function'', JSON_OBJECT
     [string_value ''name'' (bytes_of ''shell''), string_value ''description'' (bytes_of ''Execute a shell command''),
      (bytes_of ''parameters'', JSON_OBJECT [string_value ''type'' (bytes_of ''object''),
         (bytes_of ''properties'', JSON_OBJECT [(bytes_of ''command'', JSON_OBJECT [string_value ''type'' (bytes_of ''string'')])]),
         (bytes_of ''required'', JSON_ARRAY [JSON_STRING (bytes_of ''command'')] (value_cap 1)),
         (bytes_of ''additionalProperties'', JSON_BOOL False)])])]"

definition request_call_value :: "oi_cli_tool_call_value \<Rightarrow> oi_json_value" where
  "request_call_value call = JSON_OBJECT [string_value ''id'' (tc_id call), string_value ''type'' (bytes_of ''function''),
     (bytes_of ''function'', JSON_OBJECT [string_value ''name'' (tc_name call), string_value ''arguments'' (tc_arguments call)])]"

definition array_value :: "oi_json_value list \<Rightarrow> oi_json_value" where
  "array_value vs = JSON_ARRAY vs (value_cap (length vs))"

definition request_message_value :: "oi_cli_message \<Rightarrow> oi_json_value" where
  "request_message_value m = JSON_OBJECT
     ([string_value ''role'' (request_role (msg_role m)), string_value ''content'' (string_bytes (msg_content m))]
      @ (if msg_role m = MESSAGE_TOOL then [string_value ''tool_call_id'' (string_bytes (msg_tool_call_id m))] else [])
      @ (if msg_tool_calls m \<noteq> [] then [(bytes_of ''tool_calls'', array_value (map request_call_value (msg_tool_calls m)))]
         else []))"

definition request_value :: "bytes \<Rightarrow> oi_cli_message list \<Rightarrow> oi_json_value" where
  "request_value model ms = JSON_OBJECT [string_value ''model'' model, (bytes_of ''stream'', JSON_BOOL True),
     (bytes_of ''messages'', array_value (map request_message_value ms)),
     (bytes_of ''tools'', array_value [tool_definition_value])]"

lemma ops_of_array: "ops_of (array_value vs) = W_array_begin # concat (map ops_of vs) @ [W_array_end]"
  by (simp add: array_value_def)

lemma request_ops: "write_request model ms = ops_of (request_value model ms)"
proof -
  have c: "map write_request_call cs = map (\<lambda>c. ops_of (request_call_value c)) cs" for cs
    by (simp add: write_request_call_def request_call_value_def string_member_def)
  have m: "map write_request_message ms = map (\<lambda>m. ops_of (request_message_value m)) ms"
    by (simp add: write_request_message_def request_message_value_def string_member_def c ops_of_array comp_def)
  have t: "write_tool_definition = ops_of tool_definition_value"
    by (simp add: write_tool_definition_def tool_definition_value_def string_member_def)
  show ?thesis
    by (simp add: write_request_def request_value_def string_member_def ops_of_array m t comp_def)
qed

lemma request_writable: "writable fmt (request_value model ms)"
  by (auto simp: request_value_def array_value_def request_message_value_def request_call_value_def tool_definition_value_def)

lemma fold_max_le: "\<forall>x \<in> set xs. x \<le> n \<Longrightarrow> a \<le> n \<Longrightarrow> fold max xs a \<le> (n :: nat)"
  by (induction xs arbitrary: a) auto

lemma depth_array: "(\<And>v. v \<in> set vs \<Longrightarrow> json_depth v \<le> n) \<Longrightarrow> json_depth (array_value vs) \<le> Suc n"
  by (simp add: array_value_def fold_max_le)

lemma request_depth: "json_depth (request_value model ms) \<le> 7"
proof -
  have c: "json_depth (request_call_value c) \<le> 2" for c by (simp add: request_call_value_def)
  have "json_depth (array_value (map request_call_value cs)) \<le> 3" for cs
    using depth_array [of "map request_call_value cs" 2] c by auto
  then have m: "json_depth (request_message_value m) \<le> 4" for m by (simp add: request_message_value_def)
  have "json_depth (array_value (map request_message_value ms)) \<le> 5"
    using depth_array [of "map request_message_value ms" 4] m by auto
  moreover have "json_depth (array_value [tool_definition_value]) \<le> 6"
    using depth_array [of "[tool_definition_value]" 5] by (simp add: tool_definition_value_def)
  ultimately show ?thesis by (simp add: request_value_def)
qed

lemma request_text:
  "build_request_body fmt h model ms = (Inr t, h') \<Longrightarrow> t = render fmt (request_value model ms)"
  using written_text [OF _ _ request_writable]
  by (auto simp: build_request_body_def request_ops split: option.splits prod.splits if_splits)

lemma request_read_back:
  assumes "printf_strtod_roundtrip fmt strtod"
    and "build_request_body fmt h model ms = (Inr t, h')"
    and "ps_room N p0" "ps_state p0 = PS_VALUE" "ps_frames p0 = []" "N \<le> size_max div 2" "16 * length t + 64 \<le> N"
  shows "\<exists>p q. oi_json_parser_feed strtod p0 t = (OI_OK, p) \<and> oi_json_parser_finish strtod p = (OI_OK, q)
    \<and> oi_json_parser_root q = Some (request_value model ms)"
proof -
  note t = request_text [OF assms(2)]
  have "fits N (request_value model ms)" using assms(7) unfolding t by (rule fits_of_length)
  with value_read_back [OF assms(1,3,4,5,6) _ request_writable, of model ms] request_depth [of model ms] assms(7)
  show ?thesis unfolding t by (auto simp: oi_json_max_depth_def)
qed

text \<open>The value determines what was said.\<close>

lemma array_value_inj: "array_value vs = array_value ws \<longleftrightarrow> vs = ws"
  by (auto simp: array_value_def)

lemma request_call_inj: "request_call_value c = request_call_value d \<longleftrightarrow> c = d"
  by (cases c; cases d) (auto simp: request_call_value_def)

lemma request_message_inj:
  assumes "oi_cli_message_is_valid m" "oi_cli_message_is_valid n" "request_message_value m = request_message_value n"
  shows "m = n"
proof -
  have i: "map request_call_value cs = map request_call_value ds \<longleftrightarrow> cs = ds" for cs ds
    by (rule inj_map_eq_map) (auto simp: inj_def request_call_inj)
  note d = request_message_value_def request_role_def bytes_of_def string_bytes_def array_value_inj i
  from assms(1) show ?thesis
  proof (cases rule: message_valid_eq)
    case user
    from assms(2) show ?thesis by (cases rule: message_valid_eq) (use assms(3) user in \<open>auto simp: d split: if_splits\<close>)
  next
    case assistant
    from assms(2) show ?thesis by (cases rule: message_valid_eq) (use assms(3) assistant in \<open>auto simp: d split: if_splits\<close>)
  next
    case tool
    from assms(2) show ?thesis by (cases rule: message_valid_eq) (use assms(3) tool in \<open>auto simp: d split: if_splits\<close>)
  qed
qed

lemma request_value_inj:
  assumes "list_all oi_cli_message_is_valid ms" "list_all oi_cli_message_is_valid ns"
    and "request_value a ms = request_value b ns"
  shows "a = b \<and> ms = ns"
proof -
  have "map request_message_value ms = map request_message_value ns" "a = b"
    using assms(3) by (simp_all add: request_value_def array_value_inj)
  moreover have "inj_on request_message_value (set ms \<union> set ns)"
    using assms(1,2) by (auto simp: inj_on_def list_all_iff intro: request_message_inj)
  ultimately show ?thesis using map_inj_on by blast
qed

lemma request_body_ok:
  assumes "length (render fmt (request_value model ms)) \<le> text_limit"
  shows "build_request_body fmt heap_ok model ms = (Inr (render fmt (request_value model ms)), heap_ok)"
proof -
  obtain w0 where w0: "oi_json_writer_create heap_ok = Some w0" by (simp add: oi_json_writer_create_def)
  from written_value [OF w0 request_writable assms] obtain w where
    "write_calls fmt w0 (ops_of (request_value model ms)) = (OI_OK, w)"
    "oi_json_writer_data w = render fmt (request_value model ms)" by auto
  with w0 show ?thesis by (simp add: build_request_body_def request_ops)
qed

section \<open>What every operation keeps\<close>

text \<open>The configuration stays, and messages are only added.\<close>

definition grows :: "'u oi_cli_conversation \<Rightarrow> 'u oi_cli_conversation \<Rightarrow> bool" where
  "grows c c' \<longleftrightarrow> cv_config c' = cv_config c \<and> (\<exists>ms. ml_items (cv_messages c') = ml_items (cv_messages c) @ ms)"

lemma grows_refl [simp]: "grows c c"
  by (simp add: grows_def)

lemma grows_trans [trans]: "grows a b \<Longrightarrow> grows b c \<Longrightarrow> grows a c"
  by (auto simp: grows_def)

lemma commits_grows: "commits c c' \<Longrightarrow> grows c c'"
  by (simp add: grows_def commits_same commits_items)

lemma grows_traced [simp]: "grows c (traced x d) = grows c d" "grows (traced x c) d = grows c d"
  by (simp_all add: grows_def traced_def)

lemma grows_clear [simp]: "grows c (clear_streamed_response d) = grows c d" "grows (clear_streamed_response c) d = grows c d"
  by (simp_all add: grows_def clear_streamed_response_def)

lemma grows_update [simp]:
  "grows c (d\<lparr>cv_user := u\<rparr>) = grows c d" "grows c (d\<lparr>cv_model := m\<rparr>) = grows c d"
  "grows c (d\<lparr>cv_request := b\<rparr>) = grows c d" "grows c (d\<lparr>cv_tool := b\<rparr>) = grows c d"
  "grows c (d\<lparr>cv_busy := b\<rparr>) = grows c d" "grows c (d\<lparr>cv_cancelled := b\<rparr>) = grows c d"
  "grows c (d\<lparr>cv_last_status := st\<rparr>) = grows c d" "grows c (d\<lparr>cv_http_status := k\<rparr>) = grows c d"
  "grows c (d\<lparr>cv_model_steps := z\<rparr>) = grows c d" "grows c (d\<lparr>cv_assistant := a\<rparr>) = grows c d"
  "grows c (d\<lparr>cv_streamed_calls := ts\<rparr>) = grows c d" "grows c (d\<lparr>cv_assistant_message_index := k\<rparr>) = grows c d"
  "grows c (d\<lparr>cv_tool_index := k\<rparr>) = grows c d" "grows c (d\<lparr>cv_tool_output := a\<rparr>) = grows c d"
  "grows c (d\<lparr>cv_assistant_committed := b\<rparr>) = grows c d" "grows c (d\<lparr>cv_steering := b\<rparr>) = grows c d"
  "grows c (d\<lparr>cv_pending_permission_tool := b\<rparr>) = grows c d" "grows c (d\<lparr>cv_cancelling := b\<rparr>) = grows c d"
  "grows c (d\<lparr>cv_heap := h\<rparr>) = grows c d"
  by (simp_all add: grows_def)

lemma grows_updated [simp]:
  "grows (c\<lparr>cv_user := u\<rparr>) d = grows c d" "grows (c\<lparr>cv_request := b\<rparr>) d = grows c d" "grows (c\<lparr>cv_tool := b\<rparr>) d = grows c d"
  "grows (c\<lparr>cv_busy := b\<rparr>) d = grows c d" "grows (c\<lparr>cv_cancelled := b\<rparr>) d = grows c d"
  "grows (c\<lparr>cv_last_status := st\<rparr>) d = grows c d" "grows (c\<lparr>cv_http_status := k\<rparr>) d = grows c d"
  "grows (c\<lparr>cv_model_steps := z\<rparr>) d = grows c d" "grows (c\<lparr>cv_assistant := a\<rparr>) d = grows c d"
  "grows (c\<lparr>cv_streamed_calls := ts\<rparr>) d = grows c d" "grows (c\<lparr>cv_assistant_message_index := k\<rparr>) d = grows c d"
  "grows (c\<lparr>cv_tool_index := k\<rparr>) d = grows c d" "grows (c\<lparr>cv_tool_output := a\<rparr>) d = grows c d"
  "grows (c\<lparr>cv_assistant_committed := b\<rparr>) d = grows c d" "grows (c\<lparr>cv_steering := b\<rparr>) d = grows c d"
  "grows (c\<lparr>cv_pending_permission_tool := b\<rparr>) d = grows c d" "grows (c\<lparr>cv_cancelling := b\<rparr>) d = grows c d"
  "grows (c\<lparr>cv_heap := h\<rparr>) d = grows c d"
  by (simp_all add: grows_def)

named_theorems growing \<open>operations that only add messages\<close>

lemma grows_emit [growing]: "emit c ev = (st, c') \<Longrightarrow> grows c c'" "emit_open c ev = (st, b, c') \<Longrightarrow> grows c c'"
  by (auto intro: commits_grows commits_step)

lemma grows_finish [growing]: "grows c (finish_turn c st)"
  using grows_emit(1) [OF surjective_pairing, of "c\<lparr>cv_busy := False, cv_cancelling := False, cv_last_status := st\<rparr>"]
  by (simp add: finish_turn_def)

lemma grows_with_repair [growing]: "grows c (finish_turn_with_repair c st b)"
proof -
  obtain r c1 where "close_out_incomplete_turn c b = (r, c1)" by fastforce
  with commits_grows [OF close_out_commits [OF this]] grows_finish [of c1] show ?thesis
    by (auto simp: finish_turn_with_repair_def intro: grows_trans)
qed

lemma grows_detached [simp]:
  "grows c (cancel_tool d) = grows c d" "grows (cancel_tool c) d = grows c d"
  "grows c (cancel_pending d) = grows c d" "grows (cancel_pending c) d = grows c d"
  "grows c (detach_request d) = grows c d" "grows (detach_request c) d = grows c d"
  by (simp_all add: cancel_tool_def cancel_pending_def detach_request_def)

lemma grows_cancel [growing]: "grows c (oi_cli_conversation_cancel c)"
proof -
  let ?d = "cancel_request (c\<lparr>cv_cancelling := True\<rparr>)"
  obtain st c1 where c1: "close_out_incomplete_turn (cancel_tool (cancel_pending ?d)) (cv_tool (cancel_pending ?d)) = (st, c1)" by fastforce
  have "grows c ?d"
    using grows_emit(1) [OF surjective_pairing, of "c\<lparr>cv_cancelling := True, cv_request := False\<rparr>"]
    by (simp add: cancel_request_def)
  also have "grows ?d c1" using commits_grows [OF close_out_commits [OF c1]] by simp
  finally have "grows c c1" .
  with c1 grows_finish [of c1] grows_finish [of "c1\<lparr>cv_cancelled := True\<rparr>"] show ?thesis
    by (auto simp: oi_cli_conversation_cancel_def Let_def intro: grows_trans)
qed

lemma grows_reentrant [growing]: "emit_reentrant c ev = (st, c') \<Longrightarrow> grows c c'"
  by (auto simp: emit_reentrant_def split: prod.splits if_splits dest!: grows_emit(2) intro: grows_trans grows_cancel)

lemma grows_abort [growing]: "grows c (abort_tool c st)" "grows c (abort_request c st)"
  using grows_with_repair [of "cancel_tool c" st True] grows_with_repair [of "detach_request c" st False]
  by (simp_all add: abort_tool_def abort_request_def)

lemma grows_arm [growing]: "arm_tool an c = (st, c') \<Longrightarrow> grows c c'"
  by (auto simp: arm_tool_def split: if_splits)

lemma grows_resolve [growing]: "grows c (resolve_permission_body an c call allow)"
proof (cases allow)
  case False
  obtain st c1 where c1: "commit_tool_text (traced Tool_denied c) call denied_tool_not_executed_text CONVERSATION_TOOL_DENIED None False
      = (st, c1)" by fastforce
  have "grows c c1" using commits_grows [OF commit_text_commits(1) [OF c1]] by simp
  also have "grows c1 (finish_turn_with_repair (c1\<lparr>cv_tool_index := cv_tool_index c1 + 1\<rparr>) st' False)" for st'
    using grows_with_repair [of "c1\<lparr>cv_tool_index := cv_tool_index c1 + 1\<rparr>"] by simp
  finally show ?thesis using False c1 by (simp add: resolve_permission_body_def)
next
  case True
  obtain st c1 where c1: "emit_reentrant c (EVENT_TOOL_STARTING call) = (st, c1)" by fastforce
  obtain st2 c2 where c2: "arm_tool an (traced Tool_spawned (c1\<lparr>cv_tool := True\<rparr>)) = (st2, c2)" by fastforce
  have 2: "grows c1 c2" using grows_arm [OF c2] by simp
  have "grows c1 (resolve_permission_body an c call allow)"
    using True c1 c2 grows_with_repair [of "traced Tool_cancelled c1"] grows_with_repair [of "c1\<lparr>cv_tool := False\<rparr>"]
      grows_trans [OF 2 grows_abort(1), of st2] 2
    by (simp add: resolve_permission_body_def)
  with grows_reentrant [OF c1] show ?thesis by (rule grows_trans)
qed

lemma grows_request_call [growing]: "grows c (request_tool_call an c call arguments)"
proof -
  obtain d u where p: "(case cc_permission (cv_config c) of None \<Rightarrow> (OI_TOOL_ALLOW, cv_user c)
      | Some f \<Rightarrow> f (c_string (tc_name call)) arguments (cv_user c)) = (d, u)" by fastforce
  obtain st c1 where c1: "emit_reentrant (c\<lparr>cv_user := u, cv_pending_permission_tool := True\<rparr>) (EVENT_AWAITING_PERMISSION call) = (st, c1)"
    by fastforce
  have "grows c c1" using grows_reentrant [OF c1] by simp
  moreover from this have "grows c (finish_turn_with_repair (traced Tool_cancelled (c1\<lparr>cv_pending_permission_tool := False\<rparr>)) st False)"
    using grows_with_repair [of "traced Tool_cancelled (c1\<lparr>cv_pending_permission_tool := False\<rparr>)" st False] by (simp add: grows_trans)
  moreover have "grows c (resolve_permission_body an (c\<lparr>cv_user := u\<rparr>) call b)" for b
    using grows_resolve [of "c\<lparr>cv_user := u\<rparr>"] by simp
  ultimately show ?thesis using p c1 by (simp add: request_tool_call_def Let_def)
qed

lemma grows_start_request [growing]: "start_model_request fmt an c = (st, c') \<Longrightarrow> grows c c'"
  by (auto simp: start_model_request_def Let_def split: if_splits prod.splits sum.splits)

lemma grows_next [growing]: "grows c (start_next_tool fmt strtod an c)"
proof -
  let ?call = "assistant_calls c ! cv_tool_index c"
  obtain st c1 where c1: "skip_steered_tool_calls c = (st, c1)" by fastforce
  obtain st' c2 where c2: "(if st = OI_OK then close_out_steered_turn c1 else (st, c1)) = (st', c2)" by fastforce
  obtain st3 c3 where c3: "start_model_request fmt an c = (st3, c3)" by fastforce
  obtain x h where p: "parse_arguments strtod (cv_heap c) (an_arena an) (tc_arguments ?call) = (x, h)" by fastforce
  have "grows c (finish_turn c2 st')"
    using commits_grows [OF skipped_commits [OF c1 c2]] grows_finish by (rule grows_trans)
  moreover have "grows c (finish_turn_with_repair c3 st3 False)" "grows c c3"
    using grows_start_request [OF c3] grows_with_repair by (blast intro: grows_trans)+
  moreover have "grows c (finish_turn_with_repair (c\<lparr>cv_heap := h\<rparr>) st4 False)" for st4
    using grows_with_repair [of "c\<lparr>cv_heap := h\<rparr>" st4 False] by simp
  moreover have "grows c (request_tool_call an (traced t (c\<lparr>cv_heap := h\<rparr>)) ?call v)" for t v
    using grows_request_call [of "traced t (c\<lparr>cv_heap := h\<rparr>)"] by simp
  ultimately show ?thesis using c1 c2 c3 p by (cases x) (simp_all add: start_next_tool_def Let_def)
qed

lemma grows_tool_done [growing]: "grows c (on_tool_done fmt strtod an c kind code)"
proof -
  let ?c = "c\<lparr>cv_tool := False\<rparr>"
  define oc where "oc = (if kind = OI_TOOL_EXIT_NORMAL \<and> code = 0 then CONVERSATION_TOOL_COMPLETED else CONVERSATION_TOOL_FAILED)"
  obtain st c1 where c1: "(case tool_result_text (cv_heap ?c) (cb_data (cv_tool_output ?c)) kind code of
      (Inl st, h) \<Rightarrow> (st, ?c\<lparr>cv_heap := h\<rparr>)
    | (Inr t, h) \<Rightarrow> commit_tool_text (?c\<lparr>cv_heap := h\<rparr>) (assistant_calls ?c ! cv_tool_index ?c) (cb_data t) oc (Some (cb_data (cv_tool_output ?c))) False)
    = (st, c1)" by fastforce
  let ?o = "c1\<lparr>cv_tool_output := buffer_empty\<rparr>" and ?n = "c1\<lparr>cv_tool_output := buffer_empty, cv_tool_index := cv_tool_index c1 + 1\<rparr>"
  have r: "on_tool_done fmt strtod an c kind code = (if st \<noteq> OI_OK then finish_turn_with_repair ?o st True else start_next_tool fmt strtod an ?n)"
    using c1 unfolding on_tool_done_def Let_def oc_def by simp
  have "grows c c1" using c1 by (auto split: prod.splits sum.splits dest!: commit_text_commits(1) commits_grows)
  then show ?thesis
    unfolding r using grows_with_repair [of ?o st True] grows_next [of ?n fmt strtod an] by (simp add: grows_trans)
qed

lemma grows_tool_output [growing]: "grows c (on_tool_output c data)"
proof -
  obtain st b h where a: "appended (cv_tool_output c) (buffer_append (cv_heap c) (cv_tool_output c) data history_max_content) = (st, b, h)"
    by (metis prod_cases3)
  obtain st' c1 where e: "(if st = OI_OK then emit_reentrant (c\<lparr>cv_tool_output := b, cv_heap := h\<rparr>) (EVENT_TOOL_OUTPUT data)
      else (st, c\<lparr>cv_heap := h\<rparr>)) = (st', c1)" by fastforce
  have "grows c c1" using e by (auto split: if_splits dest!: grows_reentrant)
  with a e grows_trans [OF this grows_abort(1)] show ?thesis by (simp add: on_tool_output_def)
qed

lemma grows_llm_event [growing]: "grows c (on_llm_event c event)"
proof -
  have a: "grows c d \<Longrightarrow> grows c (abort_request d st)" for d st by (rule grows_trans [OF _ grows_abort(2)])
  show ?thesis
    by (auto simp: on_llm_event_def a split: oi_llm_event.split prod.split option.split dest!: grows_reentrant)
qed

lemma grows_report [growing]: "report_failure c st b = (st', c') \<Longrightarrow> grows c c'"
  by (auto simp: report_failure_def split: option.splits prod.splits if_splits dest!: grows_emit(1) intro: grows_trans)

lemma grows_llm_done [growing]: "grows c (on_llm_done fmt strtod an c status http_status failure_body)"
proof -
  let ?c = "c\<lparr>cv_request := False, cv_http_status := http_status\<rparr>" and ?r = "on_llm_done fmt strtod an c status http_status failure_body"
  obtain st0 c0 where c0: "report_failure ?c status failure_body = (st0, c0)" by fastforce
  have 0: "grows c (finish_turn_with_repair c0 st0 False)"
    using grows_report [OF c0] grows_with_repair [of c0 st0 False] by (auto intro: grows_trans)
  let ?s = "?c\<lparr>cv_streamed_calls := sort_key st_index (cv_streamed_calls ?c)\<rparr>"
  obtain st c1 where c1: "commit_set ?s (build_assistant_message ?c) CONVERSATION_TOOL_NONE None False = (st, c1)" by fastforce
  have 1: "grows c c1" using commits_grows [OF commit_set_commits [OF c1]] by simp
  let ?d = "clear_streamed_response (c1\<lparr>cv_assistant_message_index := length (ml_items (cv_messages c1)) - 1,
                   cv_assistant_committed := True, cv_tool_index := 0\<rparr>)"
  obtain st' c2 where c2: "emit ?d EVENT_RESPONSE_DONE = (st', c2)" by fastforce
  have 2: "grows c c2" using grows_emit(1) [OF c2] 1 by (simp add: grows_trans)
  show ?thesis
    using 0 c0 c1 c2 grows_trans [OF 1 grows_with_repair] grows_trans [OF 2 grows_with_repair]
      grows_trans [OF 2 grows_finish] grows_trans [OF 2 grows_next]
    by (simp add: on_llm_done_def Let_def)
qed

lemma grows_start [growing]: "grows c (snd (oi_cli_conversation_start fmt an c content))"
proof -
  let ?c = "clear_streamed_response (traced Arena_reset c)\<lparr>cv_tool_output := buffer_empty, cv_last_status := OI_OK,
              cv_http_status := 0, cv_model_steps := 0, cv_cancelled := False, cv_cancelling := False,
              cv_steering := False, cv_busy := True\<rparr>"
  obtain st c1 where c1: "commit_set ?c (oi_cli_message_set_user (cv_heap ?c) content) CONVERSATION_TOOL_NONE None False = (st, c1)" by fastforce
  have 1: "grows c c1" using commits_grows [OF commit_set_commits [OF c1]] by simp
  obtain st' c2 where c2: "(if st = OI_OK then start_model_request fmt an c1 else (st, c1)) = (st', c2)" by fastforce
  have 2: "grows c c2" using c2 1 by (auto split: if_splits dest!: grows_start_request intro: grows_trans)
  show ?thesis using 2 c1 c2 grows_trans [OF 2 grows_finish] by (simp add: oi_cli_conversation_start_def Let_def)
qed

definition no_checkpoint :: "conversation_input \<times> conversation_answers \<Rightarrow> bool" where
  "no_checkpoint x \<longleftrightarrow> (case x of (Apply_checkpoint _ _, _) \<Rightarrow> False | _ \<Rightarrow> True)"

lemma grows_step [growing]: "no_checkpoint (i, an) \<Longrightarrow> grows c (conversation_step fmt strtod c (i, an))"
proof (cases i)
  case (Set_model m k)
  show ?thesis unfolding Set_model by (auto simp: oi_cli_conversation_set_model_def split: prod.split sum.split)
next
  case (Resolve_permission b)
  show ?thesis unfolding Resolve_permission
    using grows_resolve [of "c\<lparr>cv_pending_permission_tool := False\<rparr>"]
    by (simp add: oi_cli_conversation_resolve_permission_def Let_def)
qed (simp_all add: no_checkpoint_def growing oi_cli_conversation_steer_def)

lemma grows_run: "list_all no_checkpoint is \<Longrightarrow> grows c (conversation_run fmt strtod c is)"
  unfolding conversation_run_def
proof (induction "is" arbitrary: c)
  case (Cons x xs)
  obtain i an where x: "x = (i, an)" by fastforce
  from Cons grows_step [of i an c fmt strtod] show ?case unfolding x by (auto intro: grows_trans)
qed simp

section \<open>Results and requests\<close>

lemma buffer_append_status: "buffer_append h b data limit = (Inl st, h') \<Longrightarrow> st = OI_ERR_NOMEM"
  by (auto simp: buffer_append_def Let_def alloc_try_def split: if_splits option.splits)

lemma normalize_status: "normalize_utf8 h data b = (Inl st, h') \<Longrightarrow> st = OI_ERR_NOMEM"
proof (induction h data b rule: normalize_utf8.induct)
  case (1 h data b)
  show ?case
  proof (cases "data = []")
    case True
    with "1.prems" show ?thesis by (auto simp: normalize_utf8.simps [of h "[]" b] dest: buffer_append_status)
  next
    case False
    let ?n = "valid_utf8_sequence data"
    obtain r k where r: "buffer_append h b (if ?n = 0 then utf8_replacement else take ?n data) history_max_content = (r, k)"
      by fastforce
    with "1.prems" "1.IH" [OF False refl] False show ?thesis
      by (cases r) (auto simp: normalize_utf8.simps [of h data b] Let_def dest: buffer_append_status)
  qed
qed

lemma decimal_ascii: "\<forall>b \<in> set (decimal n). b < 0x80"
proof -
  have "\<forall>d \<in> set (decimal n). is_digit d" using decimal_correct [of n] by (simp add: digits1_def)
  then show ?thesis by (auto simp: is_digit_def word_le_nat_alt word_less_nat_alt)
qed

lemma exit_text_ascii: "utf8_text (exit_status_text kind code)"
  using decimal_ascii by (intro ascii_text) (auto simp: exit_status_text_def decimal_int_def bytes_of_def)

lemma exit_text_length:
  assumes "- (2 ^ 31) \<le> code" "code < 2 ^ 31"
  shows "length (exit_status_text kind code) < 96"
proof -
  have "length (decimal n) \<le> 10" if "n \<le> 2 ^ 31" for n using that by (intro decimal_length) auto
  from this [of "nat code"] this [of "nat (- code)"] assms have "length (decimal_int code) \<le> 11"
    by (cases "code < 0") (simp_all add: decimal_int_def nat_le_iff)
  moreover have "length (decimal_int (exit_kind_number kind)) = 1"
    by (cases kind) (simp_all add: decimal_int_def decimal.simps)
  ultimately show ?thesis by (simp add: exit_status_text_def bytes_of_def)
qed

text \<open>The line that an abnormal end adds.\<close>

definition exit_line :: "oi_tool_exit_kind \<Rightarrow> int \<Rightarrow> bytes" where
  "exit_line kind code = (if kind = OI_TOOL_EXIT_NORMAL \<and> code = 0 then [] else exit_status_text kind code)"

lemma tool_result_exact:
  assumes "- (2 ^ 31) \<le> code" "code < 2 ^ 31" "tool_result_text heap_ok raw kind code = (r, h)"
  shows "if length (normalized raw @ exit_line kind code) \<le> history_max_content
    then \<exists>b. r = Inr b \<and> cb_data b = normalized raw @ exit_line kind code else r = Inl OI_ERR_NOMEM"
proof (cases "length (normalized raw) \<le> history_max_content")
  case True
  with normalize_ok [of buffer_empty raw] obtain cap where
    n: "normalize_utf8 heap_ok raw buffer_empty = (Inr \<lparr>cb_data = normalized raw, cb_cap = cap\<rparr>, heap_ok)"
    by (auto simp: buffer_empty_def)
  let ?b = "\<lparr>cb_data = normalized raw, cb_cap = cap\<rparr>"
  show ?thesis
  proof (cases "kind = OI_TOOL_EXIT_NORMAL \<and> code = 0")
    case False
    then have r: "buffer_append heap_ok ?b (exit_status_text kind code) history_max_content = (r, h)"
      using assms(3) n exit_text_length [OF assms(1,2), of kind] by (auto simp: tool_result_text_def)
    have "exit_line kind code = exit_status_text kind code" using False by (auto simp: exit_line_def)
    moreover have "\<exists>b. r = Inr b \<and> cb_data b = normalized raw @ exit_status_text kind code"
      if l: "length (normalized raw @ exit_status_text kind code) \<le> history_max_content"
    proof -
      from l have "length (cb_data ?b) + length (exit_status_text kind code) \<le> history_max_content" by simp
      from buffer_append_ok [OF this order_refl] r show ?thesis by force
    qed
    moreover have "r = Inl OI_ERR_NOMEM" if "\<not> length (normalized raw @ exit_status_text kind code) \<le> history_max_content"
      using r that buffer_append_Inr [of heap_ok ?b _ history_max_content _ h] buffer_append_status [of heap_ok ?b _ history_max_content _ h]
      by (cases r) fastforce+
    ultimately show ?thesis by simp
  qed (use assms(3) n True in \<open>auto simp: tool_result_text_def exit_line_def\<close>)
next
  case False
  obtain x k where n: "normalize_utf8 heap_ok raw buffer_empty = (x, k)" by fastforce
  with normalize_result [of heap_ok raw buffer_empty] False have "\<exists>e. x = Inl e"
    by (cases x) (auto simp: buffer_empty_def)
  with n normalize_status [of heap_ok raw buffer_empty] have "x = Inl OI_ERR_NOMEM" by auto
  with n assms(3) False show ?thesis by (auto simp: tool_result_text_def)
qed

text \<open>
  C10. What the model is told about a tool that ran: its output with every byte that is not part of a character
  replaced by U+FFFD, and a status line unless it ended normally with 0; always well-formed UTF-8, the
  output itself when that is well formed, and refused exactly when this is more than 1 MiB.
\<close>

theorem tool_result_wellformed:
  assumes "- (2 ^ 31) \<le> code" "code < 2 ^ 31" "tool_result_text heap_ok raw kind code = (r, h)"
  shows "(if length (normalized raw @ exit_line kind code) \<le> history_max_content
     then \<exists>b. r = Inr b \<and> cb_data b = normalized raw @ exit_line kind code else r = Inl OI_ERR_NOMEM)
   \<and> utf8_text (normalized raw @ exit_line kind code) \<and> (utf8_text raw \<longrightarrow> normalized raw = raw)"
  using tool_result_exact [OF assms] utf8_text_append [OF normalized_text [of raw] exit_text_ascii [of kind code]]
    normalized_text [of raw] normalized_id [of raw]
  by (auto simp: exit_line_def)

theorem tool_result_wellformed_witness:
  "\<exists>b h. tool_result_text heap_ok [0x6F, 0x6B, 0xFF] OI_TOOL_EXIT_SIGNALED 9 = (Inr b, h)
    \<and> cb_data b = [0x6F, 0x6B, 0xEF, 0xBF, 0xBD] @ exit_status_text OI_TOOL_EXIT_SIGNALED 9 \<and> utf8_text (cb_data b)"
proof -
  have n: "normalized [0x6F, 0x6B, 0xFF] = [0x6F, 0x6B, 0xEF, 0xBF, 0xBD]"
    by (simp add: normalized.simps [of "_ # _"] normalized_Nil valid_utf8_sequence_def utf8_replacement_def Let_def)
  have s: "exit_line OI_TOOL_EXIT_SIGNALED 9 = exit_status_text OI_TOOL_EXIT_SIGNALED 9" by (simp add: exit_line_def)
  obtain r h where t: "tool_result_text heap_ok [0x6F, 0x6B, 0xFF] OI_TOOL_EXIT_SIGNALED 9 = (r, h)" by fastforce
  have "length (exit_status_text OI_TOOL_EXIT_SIGNALED 9) < 96" by (rule exit_text_length) simp_all
  then have "length (normalized [0x6F, 0x6B, 0xFF] @ exit_line OI_TOOL_EXIT_SIGNALED 9) \<le> history_max_content"
    unfolding n s by (simp add: history_max_content_def)
  with tool_result_wellformed [OF _ _ t] n s t show ?thesis by auto
qed

text \<open>
  C9. Round trip of a request. The body that is sent is JSON that the parser reads back as the value of the
  model and the conversation, and no other model or conversation of valid messages has this body.
\<close>

theorem request_body_is_conversation:
  assumes "printf_strtod_roundtrip fmt strtod" and "list_all oi_cli_message_is_valid ms"
    and "build_request_body fmt h model ms = (Inr t, h')"
    and "oi_json_parser_create heap_ok a = Some p0" "roomy N a" "N \<le> size_max div 2" "16 * length t + 64 \<le> N"
  shows "(\<exists>p q. oi_json_parser_feed strtod p0 t = (OI_OK, p) \<and> oi_json_parser_finish strtod p = (OI_OK, q)
      \<and> oi_json_parser_root q = Some (request_value model ms))
    \<and> (\<forall>h1 h2 model' ms'. build_request_body fmt h1 model' ms' = (Inr t, h2) \<longrightarrow> list_all oi_cli_message_is_valid ms'
        \<longrightarrow> model' = model \<and> ms' = ms)"
proof -
  note F = assms(1) and N = assms(6,7)
  obtain p where p: "oi_json_parser_create heap_ok a = Some p" "ps_room N p" "ps_state p = PS_VALUE" "ps_frames p = []"
    using create_room [OF assms(5)] by blast
  then have p0: "ps_room N p0" "ps_state p0 = PS_VALUE" "ps_frames p0 = []" using assms(4) by simp_all
  from request_read_back [OF F assms(3) p0 N] obtain p q where
    r: "oi_json_parser_feed strtod p0 t = (OI_OK, p)" "oi_json_parser_finish strtod p = (OI_OK, q)"
      "oi_json_parser_root q = Some (request_value model ms)" by blast
  have "model' = model \<and> ms' = ms"
    if b: "build_request_body fmt h1 model' ms' = (Inr t, h2)" and v: "list_all oi_cli_message_is_valid ms'" for h1 h2 model' ms'
    using request_read_back [OF F b p0 N] r request_value_inj [OF v assms(2), of model' model] by auto
  with r show ?thesis by blast
qed

theorem request_body_is_conversation_witness:
  "\<exists>fmt strtod ms t a p0 p q. ms = [summary_message [0x6F, 0x6B]] \<and> build_request_body fmt heap_ok [0x6D] ms = (Inr t, heap_ok)
    \<and> oi_json_parser_create heap_ok a = Some p0 \<and> oi_json_parser_feed strtod p0 t = (OI_OK, p)
    \<and> oi_json_parser_finish strtod p = (OI_OK, q) \<and> oi_json_parser_root q = Some (request_value [0x6D] ms)"
proof -
  let ?ms = "[summary_message [0x6F, 0x6B]]" and ?n = "2 ^ 16 :: nat"
  have l: "length (render sample_fmt (request_value [0x6D] ?ms)) \<le> 1000"
    by (simp add: request_value_def array_value_def request_message_value_def tool_definition_value_def summary_message_def
        request_role_def string_bytes_def bytes_of_def quote_def escape_byte_def)
  then have "length (render sample_fmt (request_value [0x6D] ?ms)) \<le> text_limit" by (simp add: text_limit_def size_max_def)
  note b = request_body_ok [OF this]
  have "\<exists>a. oi_arena_create heap_ok (2 ^ 16) = Some a \<and> arena_heap a = heap_ok \<and> ar_block_size a = 2 ^ 16"
    by (simp add: oi_arena_create_def block_alloc_def sizeof_block_def)
  then obtain a where a: "roomy ?n a" using create_inv by (fastforce simp: roomy_def)
  obtain p0 where p0: "oi_json_parser_create heap_ok a = Some p0" using create_room [OF a] by blast
  have v: "list_all oi_cli_message_is_valid ?ms" by (simp add: summary_message_def oi_cli_message_is_valid_def)
  have "16 * length (render sample_fmt (request_value [0x6D] ?ms)) + 64 \<le> ?n" using l by simp
  from request_body_is_conversation [OF decimal_roundtrip v b p0 a _ this]
  have "\<exists>p q. oi_json_parser_feed sample_strtod p0 (render sample_fmt (request_value [0x6D] ?ms)) = (OI_OK, p)
      \<and> oi_json_parser_finish sample_strtod p = (OI_OK, q) \<and> oi_json_parser_root q = Some (request_value [0x6D] ?ms)"
    by (simp add: size_max_def)
  with b p0 show ?thesis by blast
qed

end
