(* ===== verification/Conversation_Turns.thy ===== *)
theory Conversation_Turns
  imports Conversation
begin

text \<open>
  What a turn of a conversation adds to its messages, and when it can be left open.
\<close>

section \<open>Turns\<close>

text \<open>
  The protocol of a turn, stricter than \<open>conv_step\<close>: the results come in the order of the calls.
\<close>

definition results_due :: "bytes list \<Rightarrow> conv" where
  "results_due ids = (if ids = [] then Waiting else Calls ids)"

fun turn_step :: "conv \<Rightarrow> oi_cli_message \<Rightarrow> conv option" where
  "turn_step Idle m = (if msg_role m = MESSAGE_USER then Some Waiting else None)"
| "turn_step Waiting m =
     (if msg_role m \<noteq> MESSAGE_ASSISTANT then None
      else if msg_tool_calls m = [] then Some Idle else Some (Calls (map tc_id (msg_tool_calls m))))"
| "turn_step (Calls ids) m =
     (if msg_role m = MESSAGE_TOOL \<and> ids \<noteq> [] \<and> msg_tool_call_id m = Some (hd ids) then Some (results_due (tl ids)) else None)"

fun turn_run :: "conv \<Rightarrow> oi_cli_message list \<Rightarrow> conv option" where
  "turn_run s [] = Some s"
| "turn_run s (m # ms) = (case turn_step s m of None \<Rightarrow> None | Some s \<Rightarrow> turn_run s ms)"

lemma turn_run_append: "turn_run s (ms @ ns) = (case turn_run s ms of None \<Rightarrow> None | Some s \<Rightarrow> turn_run s ns)"
  by (induction ms arbitrary: s) (simp_all split: option.split)

text \<open>When the calls of every reply have different ids, the strict protocol is that of a replay.\<close>

definition distinct_ids :: "oi_cli_message \<Rightarrow> bool" where
  "distinct_ids m \<longleftrightarrow> distinct (map tc_id (msg_tool_calls m))"

fun phase_distinct :: "conv \<Rightarrow> bool" where
  "phase_distinct (Calls ids) \<longleftrightarrow> distinct ids"
| "phase_distinct _ \<longleftrightarrow> True"

lemma turn_is_conv_step:
  assumes "turn_step s m = Some s'" "phase_distinct s" "distinct_ids m"
  shows "conv_step s m = Some s' \<and> phase_distinct s'"
proof (cases s)
  case (Calls ids)
  with assms show ?thesis
    by (cases ids) (auto simp: results_due_def string_bytes_def split: if_splits)
qed (use assms in \<open>auto simp: distinct_ids_def split: if_splits\<close>)

lemma turn_is_conv_run:
  "turn_run s ms = Some s' \<Longrightarrow> phase_distinct s \<Longrightarrow> list_all distinct_ids ms \<Longrightarrow> conv_run s ms = Some s'"
proof (induction ms arbitrary: s)
  case (Cons m ms)
  then obtain s1 where s1: "turn_step s m = Some s1" "turn_run s1 ms = Some s'" by (auto split: option.splits)
  with turn_is_conv_step [OF s1(1)] Cons show ?case by simp
qed simp

section \<open>Commits that succeed\<close>

text \<open>The embedder takes every message and the end of every reply; memory lasts, and the list has a size it can have.\<close>

definition accepting :: "'u conversation_config \<Rightarrow> bool" where
  "accepting cfg \<longleftrightarrow> (\<forall>f u. cc_on_event cfg = Some f \<longrightarrow>
     (\<forall>e. fst (f (EVENT_MESSAGE e) u) = OI_OK) \<and> fst (f EVENT_RESPONSE_DONE u) = OI_OK)"

abbreviation item_limit :: nat where
  "item_limit \<equiv> size_max div sizeof_message"

definition sound :: "'u oi_cli_conversation \<Rightarrow> bool" where
  "sound c \<longleftrightarrow> accepting (cv_config c) \<and> cv_heap c = heap_ok \<and> ml_cap (cv_messages c) \<le> item_limit"

definition size_of :: "'u oi_cli_conversation \<Rightarrow> nat" where
  "size_of c = length (ml_items (cv_messages c))"

text \<open>The messages added to the first \<open>n\<close> bring the protocol from its start to \<open>s\<close>.\<close>

definition in_phase :: "nat \<Rightarrow> 'u oi_cli_conversation \<Rightarrow> conv \<Rightarrow> bool" where
  "in_phase n c s \<longleftrightarrow> n \<le> size_of c \<and> turn_run Idle (drop n (ml_items (cv_messages c))) = Some s"

lemma in_phase_update [simp]:
  "in_phase n (c\<lparr>cv_user := u\<rparr>) = in_phase n c" "in_phase n (c\<lparr>cv_heap := h\<rparr>) = in_phase n c"
  "in_phase n (c\<lparr>cv_tool_output := b\<rparr>) = in_phase n c" "in_phase n (traced x c) = in_phase n c"
  by (auto simp: in_phase_def size_of_def traced_def)

lemma sound_update [simp]:
  "sound (c\<lparr>cv_user := u\<rparr>) = sound c" "sound (c\<lparr>cv_tool_output := b\<rparr>) = sound c" "sound (traced x c) = sound c"
  by (simp_all add: sound_def traced_def)

lemma emit_accepted:
  assumes "sound c" "emit c ev = (st, c')"
  shows "sound c' \<and> cv_messages c' = cv_messages c \<and> ((\<exists>e. ev = EVENT_MESSAGE e) \<or> ev = EVENT_RESPONSE_DONE \<longrightarrow> st = OI_OK)"
proof (cases "cc_on_event (cv_config c)")
  case (Some f)
  obtain a b u where "f ev (cv_user c) = (a, b, u)" by (metis prod_cases3)
  with assms Some show ?thesis
    by (auto simp: emit_def emit_open_def sound_def accepting_def traced_def split: prod.splits) (metis fst_conv)+
qed (use assms in \<open>auto simp: emit_def emit_open_def\<close>)

lemma take_ok:
  assumes "oi_cli_message_list_append_take heap_ok l m = (r, h)" "oi_cli_message_is_valid m" "ml_cap l \<le> item_limit"
    and "length (ml_items l) < item_limit"
  shows "\<exists>l'. r = Inr l' \<and> h = heap_ok \<and> ml_items l' = ml_items l @ [m] \<and> ml_cap l' \<le> item_limit"
proof -
  have "\<not> ml_cap l > size_max div 2" using assms(3) by (simp add: size_max_def sizeof_message_def)
  with assms show ?thesis
    by (auto simp: oi_cli_message_list_append_take_def Let_def split: if_splits)
qed

lemma commit_set_ok:
  assumes "sound c" "r = (Inr m, heap_ok)" "oi_cli_message_is_valid m" "commit_set c r oc raw rep = (st, c')"
    and "size_of c' < item_limit"
  shows "st = OI_OK \<and> sound c' \<and> ml_items (cv_messages c') = ml_items (cv_messages c) @ [m]"
proof -
  have s: "sound (c\<lparr>cv_heap := heap_ok\<rparr>)" using assms(1) by (simp add: sound_def)
  obtain st1 c1 where e: "emit_message (c\<lparr>cv_heap := heap_ok\<rparr>) m oc raw rep = (st1, c1)" by fastforce
  from emit_accepted [OF s e [unfolded emit_message_def]] have c1: "sound c1" "cv_messages c1 = cv_messages c" "st1 = OI_OK" by auto
  have h: "cv_heap c1 = heap_ok" "ml_cap (cv_messages c1) \<le> item_limit" using c1(1) by (simp_all add: sound_def)
  have "commits c c'" using commit_set_commits [OF assms(4)] .
  with commits_items have "size_of c \<le> size_of c'" by (fastforce simp: size_of_def)
  with assms(5) c1(2) have l: "length (ml_items (cv_messages c1)) < item_limit" by (simp add: size_of_def)
  obtain x h' where t: "oi_cli_message_list_append_take heap_ok (cv_messages c1) m = (x, h')" by fastforce
  from take_ok [OF t assms(3) h(2) l] obtain l' where
    "x = Inr l'" "h' = heap_ok" "ml_items l' = ml_items (cv_messages c1) @ [m]" "ml_cap l' \<le> item_limit" by blast
  with assms(2,4) e t h c1 show ?thesis
    by (auto simp: commit_set_def commit_message_def sound_def)
qed

lemma in_phase_add:
  assumes "in_phase n c s" "turn_step s m = Some s'" "ml_items (cv_messages c') = ml_items (cv_messages c) @ [m]"
  shows "in_phase n c' s'"
  using assms by (auto simp: in_phase_def size_of_def turn_run_append)

lemma grows_size: "grows c c' \<Longrightarrow> size_of c \<le> size_of c'"
  by (auto simp: grows_def size_of_def)

lemma commits_size: "commits c c' \<Longrightarrow> size_of c \<le> size_of c'"
  by (rule grows_size [OF commits_grows])

text \<open>\<open>good_call\<close>: a tool call that a result can be set for.\<close>

definition good_call :: "oi_cli_tool_call_value \<Rightarrow> bool" where
  "good_call call \<longleftrightarrow> tc_id call \<noteq> [] \<and> short (tc_id call)"

lemma commit_tool_ok:
  assumes "sound c" "in_phase n c (results_due (tc_id call # ids))" "good_call call" "short t"
    and "commit_tool_text c call t oc raw rep = (st, c')" "size_of c' < item_limit"
  shows "st = OI_OK \<and> sound c' \<and> in_phase n c' (results_due ids)"
proof -
  let ?m = "\<lparr>msg_role = MESSAGE_TOOL, msg_content = Some t, msg_tool_call_id = Some (tc_id call), msg_tool_calls = []\<rparr>"
  have r: "oi_cli_message_set_tool (cv_heap c) (tc_id call) t = (Inr ?m, heap_ok)"
    using assms set_tool_ok [of "tc_id call" t] by (simp add: sound_def good_call_def)
  have "oi_cli_message_is_valid ?m" using assms by (simp add: oi_cli_message_is_valid_def good_call_def)
  from commit_set_ok [OF assms(1) r this assms(5) [unfolded commit_tool_text_def] assms(6)]
    in_phase_add [OF assms(2), of ?m "results_due ids" c']
  show ?thesis by (simp add: results_due_def)
qed

lemma commit_assistant_ok:
  assumes "sound c" "in_phase n c Waiting" "short t" "commit_assistant_text c t = (st, c')" "size_of c' < item_limit"
  shows "st = OI_OK \<and> sound c' \<and> in_phase n c' Idle"
proof -
  have r: "oi_cli_message_set_assistant (cv_heap c) t = (Inr (summary_message t), heap_ok)"
    using assms set_assistant_ok [of t] by (simp add: sound_def)
  have "oi_cli_message_is_valid (summary_message t)" by (simp add: oi_cli_message_is_valid_def summary_message_def)
  from commit_set_ok [OF assms(1) r this assms(4) [unfolded commit_assistant_text_def] assms(5)]
    in_phase_add [OF assms(2), of "summary_message t" Idle c']
  show ?thesis by (simp add: summary_message_def)
qed

lemma texts_short:
  "short cancelled_tool_unknown_text" "short cancelled_tool_not_executed_text" "short steered_tool_not_executed_text"
  "short denied_tool_not_executed_text" "short steered_turn_ended_text" "short interrupted_text"
  by (simp_all add: short_def size_max_def bytes_of_def cancelled_tool_unknown_text_def cancelled_tool_not_executed_text_def
      steered_tool_not_executed_text_def denied_tool_not_executed_text_def steered_turn_ended_text_def interrupted_text_def)

lemma repair_calls_ok:
  "sound c \<Longrightarrow> in_phase n c (results_due (map tc_id calls)) \<Longrightarrow> list_all good_call calls \<Longrightarrow>
   repair_calls b OI_OK c calls = (st, c') \<Longrightarrow> size_of c' < item_limit \<Longrightarrow> st = OI_OK \<and> sound c' \<and> in_phase n c' Waiting"
proof (induction calls arbitrary: b c)
  case (Cons call calls)
  let ?t = "if b then cancelled_tool_unknown_text else cancelled_tool_not_executed_text"
  obtain oc raw where r: "(if b
            then commit_tool_text c call cancelled_tool_unknown_text CONVERSATION_TOOL_OUTCOME_UNKNOWN (Some (cb_data (cv_tool_output c))) False
            else commit_tool_text c call cancelled_tool_not_executed_text CONVERSATION_TOOL_NOT_EXECUTED None False)
      = commit_tool_text c call ?t oc raw False" by (cases b) auto
  obtain st1 c1 where c1: "commit_tool_text c call ?t oc raw False = (st1, c1)" by fastforce
  have rest: "repair_calls False (first_status OI_OK st1) c1 calls = (st, c')" using Cons.prems(4) c1 r by simp
  have "size_of c1 < item_limit" using commits_size [OF repair_calls_commits [OF rest]] Cons.prems(5) by simp
  with commit_tool_ok [of c n call "map tc_id calls" ?t oc raw False st1 c1] Cons.prems c1 texts_short
  have "st1 = OI_OK" "sound c1" "in_phase n c1 (results_due (map tc_id calls))" by auto
  with Cons.IH [of c1 False] rest Cons.prems show ?case by (simp add: first_status_def)
qed (simp add: results_due_def)

lemma skip_calls_ok:
  "sound c \<Longrightarrow> in_phase n c (results_due (map tc_id calls)) \<Longrightarrow> list_all good_call calls \<Longrightarrow>
   skip_calls OI_OK c calls = (st, c') \<Longrightarrow> size_of c' < item_limit \<Longrightarrow> st = OI_OK \<and> sound c' \<and> in_phase n c' Waiting"
proof (induction calls arbitrary: c)
  case (Cons call calls)
  obtain st1 c1 where c1: "commit_tool_text c call steered_tool_not_executed_text CONVERSATION_TOOL_NOT_EXECUTED None False = (st1, c1)"
    by fastforce
  have rest: "skip_calls (first_status OI_OK st1) c1 calls = (st, c')" using Cons.prems(4) c1 by simp
  have "size_of c1 < item_limit" using commits_size [OF skip_calls_commits [OF rest]] Cons.prems(5) by simp
  with commit_tool_ok [of c n call "map tc_id calls" _ _ _ False st1 c1] Cons.prems c1 texts_short
  have "st1 = OI_OK" "sound c1" "in_phase n c1 (results_due (map tc_id calls))" by auto
  with Cons.IH [of c1] rest Cons.prems show ?case by (simp add: first_status_def)
qed (simp add: results_due_def)

section \<open>How turns end\<close>

definition calls_ahead :: "'u oi_cli_conversation \<Rightarrow> oi_cli_tool_call_value list" where
  "calls_ahead c = (if cv_assistant_committed c then drop (cv_tool_index c) (assistant_calls c) else [])"

text \<open>The turn is open: what is due are the results of the calls ahead, then an answer.\<close>

definition open_turn :: "nat \<Rightarrow> 'u oi_cli_conversation \<Rightarrow> bool" where
  "open_turn n c \<longleftrightarrow> sound c \<and> in_phase n c (results_due (map tc_id (calls_ahead c))) \<and> list_all good_call (calls_ahead c)
     \<and> (cv_assistant_committed c \<longrightarrow> cv_assistant_message_index c < size_of c)"

definition closed_turn :: "nat \<Rightarrow> 'u oi_cli_conversation \<Rightarrow> bool" where
  "closed_turn n c \<longleftrightarrow> sound c \<and> in_phase n c Idle"

lemma open_turn_update [simp]:
  "open_turn n (c\<lparr>cv_user := u\<rparr>) = open_turn n c" "open_turn n (c\<lparr>cv_tool_output := b\<rparr>) = open_turn n c"
  "open_turn n (traced x c) = open_turn n c" "open_turn n (c\<lparr>cv_request := b1\<rparr>) = open_turn n c"
  "open_turn n (c\<lparr>cv_tool := b1\<rparr>) = open_turn n c" "open_turn n (c\<lparr>cv_pending_permission_tool := b1\<rparr>) = open_turn n c"
  "open_turn n (c\<lparr>cv_cancelling := b1\<rparr>) = open_turn n c" "open_turn n (c\<lparr>cv_http_status := k\<rparr>) = open_turn n c"
  "open_turn n (c\<lparr>cv_streamed_calls := ts\<rparr>) = open_turn n c" "open_turn n (c\<lparr>cv_assistant := b\<rparr>) = open_turn n c"
  "open_turn n (c\<lparr>cv_steering := b1\<rparr>) = open_turn n c" "open_turn n (c\<lparr>cv_model := m\<rparr>) = open_turn n c"
  by (simp_all add: open_turn_def sound_def in_phase_def size_of_def calls_ahead_def assistant_calls_def traced_def)

lemma closed_turn_update [simp]:
  "closed_turn n (c\<lparr>cv_cancelled := b1\<rparr>) = closed_turn n c" "closed_turn n (traced x c) = closed_turn n c"
  "closed_turn n (c\<lparr>cv_model := m\<rparr>) = closed_turn n c"
  by (simp_all add: closed_turn_def sound_def in_phase_def size_of_def traced_def)

lemma open_turn_kept:
  assumes "open_turn n c" "commits c c'" "sound c'" "cv_messages c' = cv_messages c"
  shows "open_turn n c'"
proof -
  have "calls_ahead c' = calls_ahead c"
    by (simp add: calls_ahead_def assistant_calls_def assms(4) commits_same [OF assms(2)])
  with assms(1,3) show ?thesis
    by (simp add: open_turn_def in_phase_def size_of_def assms(4) commits_same [OF assms(2)])
qed

lemma open_turn_emit: "open_turn n c \<Longrightarrow> emit c ev = (st, c') \<Longrightarrow> open_turn n c'"
  using emit_accepted [of c ev st c'] emit_commits [of c ev st c'] open_turn_kept [of n c c'] by (simp add: open_turn_def)

lemma close_out_ok:
  assumes "open_turn n c" "close_out_incomplete_turn c b = (st, c')" "size_of c' < item_limit"
  shows "st = OI_OK \<and> closed_turn n c'"
proof -
  obtain st1 c1 where c1: "(if cv_assistant_committed c \<and> cv_tool_index c < length (assistant_calls c)
      then repair_dangling_tool_calls c b else (OI_OK, c)) = (st1, c1)" by fastforce
  have l: "size_of c1 \<le> size_of c'"
    using assms(2) c1
    by (auto simp: close_out_incomplete_turn_def repair_interrupted_turn_def split: if_splits dest!: commit_text_commits(2) intro: commits_size)
  have "st1 = OI_OK \<and> sound c1 \<and> in_phase n c1 Waiting"
  proof (cases "cv_assistant_committed c \<and> cv_tool_index c < length (assistant_calls c)")
    case True
    obtain st2 c2 where r: "repair_calls b OI_OK c (calls_ahead c) = (st2, c2)" by fastforce
    with True c1 have e: "st1 = st2" "c1 = c2\<lparr>cv_tool_output := buffer_empty\<rparr>"
      by (auto simp: repair_dangling_tool_calls_def calls_ahead_def)
    have "size_of c2 < item_limit" using l assms(3) e by (simp add: size_of_def)
    with repair_calls_ok [OF _ _ _ r, of n] assms(1) e show ?thesis by (simp add: open_turn_def)
  next
    case False
    then have "calls_ahead c = []" by (auto simp: calls_ahead_def)
    with False c1 assms(1) show ?thesis by (auto simp: open_turn_def results_due_def)
  qed
  with assms(2,3) c1 commit_assistant_ok [of c1 n interrupted_text st c'] texts_short show ?thesis
    by (simp add: close_out_incomplete_turn_def repair_interrupted_turn_def closed_turn_def)
qed

lemma finish_turn_messages: "cv_messages (finish_turn c st) = cv_messages c" "sound c \<Longrightarrow> sound (finish_turn c st)"
proof -
  let ?c = "c\<lparr>cv_busy := False, cv_cancelling := False, cv_last_status := st\<rparr>"
  obtain st1 c1 where e: "emit ?c (EVENT_TURN_DONE st (cv_http_status c)) = (st1, c1)" by fastforce
  then have "cv_messages c1 = cv_messages c"
    by (auto simp: emit_def emit_open_def traced_def split: option.splits prod.splits)
  with e show "cv_messages (finish_turn c st) = cv_messages c" by (simp add: finish_turn_def)
  assume "sound c"
  then have "sound ?c" by (simp add: sound_def)
  from emit_accepted [OF this e] e \<open>sound c\<close> show "sound (finish_turn c st)" by (simp add: finish_turn_def)
qed

lemma finish_turn_closed: "closed_turn n c \<Longrightarrow> closed_turn n (finish_turn c st)"
  by (simp add: closed_turn_def finish_turn_messages in_phase_def size_of_def)

lemma size_finish [simp]: "size_of (finish_turn c st) = size_of c"
  by (simp add: size_of_def finish_turn_messages)

lemma finish_with_repair_closed:
  assumes "open_turn n c" "size_of (finish_turn_with_repair c st b) < item_limit"
  shows "closed_turn n (finish_turn_with_repair c st b)"
proof -
  obtain r c1 where "close_out_incomplete_turn c b = (r, c1)" by fastforce
  with close_out_ok [OF assms(1) this] assms(2) show ?thesis by (simp add: finish_turn_with_repair_def finish_turn_closed)
qed

lemma cancel_steps_open: "open_turn n c \<Longrightarrow> open_turn n (cancel_request c)" "open_turn n (cancel_pending c) = open_turn n c"
  "open_turn n (cancel_tool c) = open_turn n c"
  using open_turn_emit [OF _ surjective_pairing, of n "c\<lparr>cv_request := False\<rparr>" "EVENT_PARTIAL_ASSISTANT (cb_data (cv_assistant c))"]
  by (simp_all add: cancel_request_def cancel_pending_def cancel_tool_def)

lemma cancel_closed:
  assumes "open_turn n c" "cv_busy c" "size_of (oi_cli_conversation_cancel c) < item_limit"
  shows "closed_turn n (oi_cli_conversation_cancel c)"
proof -
  let ?c = "cancel_pending (cancel_request (c\<lparr>cv_cancelling := True\<rparr>))"
  obtain st c1 where c1: "close_out_incomplete_turn (cancel_tool ?c) (cv_tool ?c) = (st, c1)" by fastforce
  have o: "open_turn n (cancel_tool ?c)" using cancel_steps_open(1) [of n "c\<lparr>cv_cancelling := True\<rparr>"] assms(1) by (simp add: cancel_steps_open)
  have e: "oi_cli_conversation_cancel c
      = (if st = OI_OK then finish_turn (c1\<lparr>cv_cancelled := True\<rparr>) OI_ERR_CLOSED else finish_turn c1 st)"
    using c1 assms(2) by (simp add: oi_cli_conversation_cancel_def Let_def)
  have "size_of c1 < item_limit" using assms(3) unfolding e by (simp add: size_of_def finish_turn_messages split: if_splits)
  from close_out_ok [OF o c1 this] show ?thesis by (simp add: e finish_turn_closed)
qed

lemma reentrant_kept:
  assumes "emit_reentrant c ev = (st, c')" "open_turn n c" "cv_busy c" "size_of c' < item_limit"
  shows "commits c c' \<and> cv_busy c' \<and> open_turn n c' \<or> idle c' \<and> closed_turn n c'"
proof -
  obtain b c1 where e: "emit_open c ev = (st, b, c1)" "c' = (if b then oi_cli_conversation_cancel c1 else c1)"
    using assms(1) by (auto simp: emit_reentrant_def split: prod.splits)
  then have "emit c ev = (st, c1)" by (simp add: emit_def)
  then have o: "open_turn n c1" "commits c c1" "cv_busy c1" using open_turn_emit [OF assms(2)] emit_commits commits_same(5) assms(3) by metis+
  show ?thesis using e(2) o cancel_idle [of c1] cancel_closed [OF o(1)] assms(4) by (cases b) auto
qed

text \<open>Closing a turn again when it has been cancelled in an event would add to it: a callback that cancels must not also fail.\<close>

definition steady :: "'u conversation_config \<Rightarrow> bool" where
  "steady cfg \<longleftrightarrow> (\<forall>f ev u. cc_on_event cfg = Some f \<longrightarrow> fst (snd (f ev u)) \<longrightarrow> fst (f ev u) = OI_OK)"

text \<open>
  The callback cancels only in the events during which something is in flight or about to be: the events in which the model
  looks at its flag. (A cancellation in the user's message, in the end of a reply or in the report of a failure acts on a
  turn whose next step is already decided; it is not modelled.)
\<close>

definition cancels_in_flight :: "'u conversation_config \<Rightarrow> bool" where
  "cancels_in_flight cfg \<longleftrightarrow> (\<forall>f ev u. cc_on_event cfg = Some f \<longrightarrow> fst (snd (f ev u)) \<longrightarrow>
     (case ev of EVENT_ASSISTANT_DELTA _ \<Rightarrow> True | EVENT_TOOL_OUTPUT _ \<Rightarrow> True | EVENT_AWAITING_PERMISSION _ \<Rightarrow> True
        | EVENT_TOOL_STARTING _ \<Rightarrow> True | _ \<Rightarrow> False))"

lemma size_update [simp]:
  "size_of (c\<lparr>cv_user := u\<rparr>) = size_of c" "size_of (c\<lparr>cv_tool_output := b\<rparr>) = size_of c"
  "size_of (traced x c) = size_of c" "size_of (c\<lparr>cv_request := b1\<rparr>) = size_of c" "size_of (c\<lparr>cv_heap := h\<rparr>) = size_of c"
  "size_of (c\<lparr>cv_tool := b1\<rparr>) = size_of c" "size_of (c\<lparr>cv_pending_permission_tool := b1\<rparr>) = size_of c"
  "size_of (c\<lparr>cv_tool_index := k\<rparr>) = size_of c" "size_of (c\<lparr>cv_cancelled := b1\<rparr>) = size_of c"
  "size_of (c\<lparr>cv_streamed_calls := ts\<rparr>) = size_of c" "size_of (c\<lparr>cv_http_status := k\<rparr>) = size_of c"
  "size_of (c\<lparr>cv_cancelling := b1\<rparr>) = size_of c" "size_of (c\<lparr>cv_assistant := b\<rparr>) = size_of c"
  by (simp_all add: size_of_def traced_def)

lemma size_with_repair: "size_of c \<le> size_of (finish_turn_with_repair c st b)"
  by (rule grows_size [OF grows_with_repair])

lemma size_cancel_tool [simp]: "size_of (cancel_tool c) = size_of c"
  by (simp add: cancel_tool_def)

lemma size_abort: "size_of c \<le> size_of (abort_tool c st)" "size_of c \<le> size_of (abort_request c st)"
  by (rule grows_size [OF grows_abort(1)], rule grows_size [OF grows_abort(2)])

text \<open>Between two inputs.\<close>

definition turn_kept :: "nat \<Rightarrow> 'u oi_cli_conversation \<Rightarrow> bool" where
  "turn_kept n c \<longleftrightarrow> idle c \<and> closed_turn n c \<or> waiting c \<and> open_turn n c"

lemma kept_closed: "idle c \<Longrightarrow> closed_turn n c \<Longrightarrow> turn_kept n c"
  by (simp add: turn_kept_def)

lemma with_repair_kept:
  "free_handed c \<Longrightarrow> open_turn n c \<Longrightarrow> size_of (finish_turn_with_repair c st b) < item_limit \<Longrightarrow>
   turn_kept n (finish_turn_with_repair c st b)"
  by (simp add: kept_closed finish_idle finish_with_repair_closed)

lemma abort_tool_kept:
  assumes "\<not> cv_request c" "\<not> cv_pending_permission_tool c" "open_turn n c" "size_of (abort_tool c st) < item_limit"
  shows "turn_kept n (abort_tool c st)"
proof (rule kept_closed)
  show "idle (abort_tool c st)" using assms by (simp add: abort_idle)
  show "closed_turn n (abort_tool c st)"
    using assms finish_with_repair_closed [of n "cancel_tool c" st True] by (simp add: abort_tool_def cancel_steps_open)
qed

lemma steady_reentrant:
  assumes "emit_reentrant c ev = (st, c')" "steady (cv_config c)" "cv_busy c" "\<not> cv_busy c'"
  shows "st = OI_OK"
proof -
  obtain b c1 where e: "emit_open c ev = (st, b, c1)" "c' = (if b then oi_cli_conversation_cancel c1 else c1)"
    using assms(1) by (auto simp: emit_reentrant_def split: prod.splits)
  with assms(3,4) commits_same(5) [OF emit_open_commits [OF e(1)]] have b by (cases b) auto
  then obtain f where "cc_on_event (cv_config c) = Some f" "f ev (cv_user c) = (st, True, cv_user c1)"
    using e(1) assms(3,4) e(2) by (auto simp: emit_open_def traced_def split: option.splits prod.splits)
  with assms(2) show ?thesis unfolding steady_def by (metis fst_conv snd_conv)
qed

lemma start_request_open:
  assumes "start_model_request fmt an c = (st, c')" "open_turn n c" "calls_ahead c = []"
  shows "open_turn n c' \<and> calls_ahead c' = [] \<and> size_of c' = size_of c"
proof -
  have h: "snd (build_request_body fmt heap_ok m ms) = heap_ok" for m ms
    by (auto simp: build_request_body_def split: option.split prod.split)
  from assms(2) have "cv_heap c = heap_ok" by (simp add: open_turn_def sound_def)
  with assms h [of "cv_model c" "ml_items (cv_messages c)"] show ?thesis
    by (auto simp: start_model_request_def Let_def open_turn_def calls_ahead_def sound_def in_phase_def size_of_def traced_def
        split: if_splits prod.splits sum.splits)
qed

lemma calls_left_ahead: "calls_left c \<Longrightarrow> calls_ahead c = assistant_calls c ! cv_tool_index c # drop (Suc (cv_tool_index c)) (assistant_calls c)"
  by (simp add: calls_left_def calls_ahead_def Cons_nth_drop_Suc)

text \<open>A result that is committed for the call ahead, which is then passed.\<close>

lemma commit_result_open:
  assumes "open_turn n c" "calls_left c" "short t"
    and "commit_tool_text c (assistant_calls c ! cv_tool_index c) t oc raw rep = (st, c1)" "size_of c1 < item_limit"
  shows "st = OI_OK \<and> open_turn n (c1\<lparr>cv_tool_index := cv_tool_index c1 + 1, cv_tool_output := b\<rparr>)"
proof -
  note k = commit_text_commits(1) [OF assms(4)]
  have i: "cv_assistant_message_index c < length (ml_items (cv_messages c))" using assms(2) by (simp add: calls_left_def)
  from commits_calls [OF k this] commits_same [OF k] have
    "calls_ahead (c1\<lparr>cv_tool_index := cv_tool_index c1 + 1, cv_tool_output := b\<rparr>) = tl (calls_ahead c)"
    using calls_left_ahead [OF assms(2)] assms(2)
    by (simp add: calls_ahead_def assistant_calls_def calls_left_def)
  moreover from assms(1) calls_left_ahead [OF assms(2)] commit_tool_ok [OF _ _ _ assms(3,4,5), of n "map tc_id (tl (calls_ahead c))"]
  have "st = OI_OK" "sound c1" "in_phase n c1 (results_due (map tc_id (tl (calls_ahead c))))" "list_all good_call (tl (calls_ahead c))"
    by (simp_all add: open_turn_def)
  moreover have "cv_assistant_message_index c1 < size_of c1"
    using i commits_size [OF k] commits_same [OF k] by (simp add: size_of_def)
  ultimately show ?thesis by (simp add: open_turn_def) (simp add: sound_def in_phase_def size_of_def)
qed

lemma denied_kept:
  assumes "working c" "calls_left c" "open_turn n c"
    and "size_of (resolve_permission_body an c (assistant_calls c ! cv_tool_index c) False) < item_limit"
  shows "turn_kept n (resolve_permission_body an c (assistant_calls c ! cv_tool_index c) False)"
proof -
  let ?call = "assistant_calls c ! cv_tool_index c"
  obtain st c1 where c1: "commit_tool_text (traced Tool_denied c) ?call denied_tool_not_executed_text CONVERSATION_TOOL_DENIED None False
      = (st, c1)" by fastforce
  let ?d = "c1\<lparr>cv_tool_index := cv_tool_index c1 + 1\<rparr>"
  have r: "resolve_permission_body an c ?call False = finish_turn_with_repair ?d (if st \<noteq> OI_OK then st else OI_ERR_DENIED) False"
    using c1 by (simp add: resolve_permission_body_def)
  have "size_of c1 \<le> size_of (resolve_permission_body an c ?call False)"
    unfolding r using size_with_repair [of ?d] by simp
  with assms(4) have s: "size_of c1 < item_limit" by simp
  have t: "assistant_calls (traced Tool_denied c) = assistant_calls c" "cv_tool_index (traced Tool_denied c) = cv_tool_index c"
    "calls_left (traced Tool_denied c)" using assms(2) by (simp_all add: traced_def assistant_calls_def calls_left_def)
  have "open_turn n (c1\<lparr>cv_tool_index := cv_tool_index c1 + 1, cv_tool_output := cv_tool_output c1\<rparr>)"
    by (rule commit_result_open [where c = "traced Tool_denied c", THEN conjunct2])
      (use assms(2,3) t texts_short c1 s in simp_all)
  then have "open_turn n ?d" by simp
  moreover have "free_handed ?d"
    using free_handed_commits [OF commit_text_commits(1) [OF c1]] assms(1) by (simp add: working_def)
  ultimately show ?thesis using assms(4) unfolding r by (intro with_repair_kept) simp_all
qed

lemma allowed_kept:
  assumes "working c" "calls_left c" "open_turn n c" "steady (cv_config c)"
    and "size_of (resolve_permission_body an c call True) < item_limit"
  shows "turn_kept n (resolve_permission_body an c call True)"
proof -
  let ?r = "resolve_permission_body an c call True"
  obtain st c1 where c1: "emit_reentrant c (EVENT_TOOL_STARTING call) = (st, c1)" by fastforce
  let ?t = "traced Tool_spawned (c1\<lparr>cv_tool := True\<rparr>)"
  obtain st2 c2 where c2: "arm_tool an ?t = (st2, c2)" by fastforce
  note k2 = traced_again [OF arm_tool_result [OF c2]]
  have m2: "cv_messages c2 = cv_messages c1" by (subst arm_tool_result [OF c2]) (simp add: traced_def)
  have "size_of c2 = size_of c1" using m2 by (simp add: size_of_def)
  then have "size_of c1 \<le> size_of ?r"
    using c1 c2 size_with_repair [of "traced Tool_cancelled c1"] size_with_repair [of "c1\<lparr>cv_tool := False\<rparr>"] size_abort(1) [of c2]
    by (simp add: resolve_permission_body_def)
  with assms(5) have s: "size_of c1 < item_limit" by simp
  have b: "cv_busy c" using assms(1) by (simp add: working_def)
  from reentrant_kept [OF c1 assms(3) b s] consider
    (gone) "idle c1" "closed_turn n c1" | (on) "commits c c1" "cv_busy c1" "open_turn n c1" by blast
  then show ?thesis
  proof cases
    case gone
    then have "\<not> cv_busy c1" "idle (traced Tool_cancelled c1)" by (simp_all add: idle_def traced_def)
    with steady_reentrant [OF c1 assms(4) b] c1 gone kept_closed [of "traced Tool_cancelled c1" n] show ?thesis
      by (simp add: resolve_permission_body_def)
  next
    case on
    have w: "working c1" "calls_left c1" using working_commits commits_calls_left on(1) assms(1,2) by blast+
    then have f: "\<not> cv_request c1" "\<not> cv_tool c1" "\<not> cv_pending_permission_tool c1" by (auto simp: working_def free_handed_def)
    consider (st) "st \<noteq> OI_OK" | (no) "st = OI_OK" "an_resolve an \<noteq> OI_OK" | (yes) "st = OI_OK" "an_resolve an = OI_OK" by blast
    then show ?thesis
    proof cases
      case st
      then have r: "?r = finish_turn_with_repair (traced Tool_cancelled c1) st False"
        using c1 by (simp add: resolve_permission_body_def)
      show ?thesis using assms(5) w on unfolding r by (intro with_repair_kept) (simp_all add: working_def)
    next
      case no
      then have r: "?r = finish_turn_with_repair (c1\<lparr>cv_tool := False\<rparr>) (an_resolve an) True"
        using c1 on by (simp add: resolve_permission_body_def)
      show ?thesis using assms(5) f on unfolding r by (intro with_repair_kept) (simp_all add: free_handed_def)
    next
      case yes
      have w2: "waiting ?t" using w by (simp add: waiting_def) (simp add: working_def free_handed_def traced_def)
      have o2: "open_turn n c2"
      proof (rule open_turn_kept [OF _ k2])
        show "open_turn n ?t" using on by simp
        show "sound c2" by (subst arm_tool_result [OF c2]) (use on in \<open>simp add: open_turn_def sound_def traced_def\<close>)
        show "cv_messages c2 = cv_messages ?t" using m2 by (simp add: traced_def)
      qed
      have q: "\<not> cv_request c2" "\<not> cv_pending_permission_tool c2" using f commits_same [OF k2] by (simp_all add: traced_def)
      have r: "?r = (if st2 \<noteq> OI_OK then abort_tool c2 st2 else c2)"
        using yes c1 c2 on by (simp add: resolve_permission_body_def)
      show ?thesis
        using assms(5) abort_tool_kept [OF q o2, of st2] commits_waiting [OF k2 w2] o2 unfolding r
        by (simp add: turn_kept_def split: if_splits)
    qed
  qed
qed

section \<open>Every input keeps the protocol\<close>

lemma conversation_lasts [lasts]:
  "snd (buffer_append heap_ok b d k) = heap_ok"
  "snd (parse_arguments strtod heap_ok a t) = heap_ok"
  "snd (add_streamed_calls heap_ok m i ts) = heap_ok"
  "snd (build_request_body fmt heap_ok model ms) = heap_ok"
  "snd (find_or_add_streamed_call heap_ok ts i) = heap_ok"
proof -
  show "snd (buffer_append heap_ok b d k) = heap_ok"
    by (auto simp: buffer_append_def Let_def split: option.split)
  show "snd (parse_arguments strtod heap_ok a t) = heap_ok"
    by (auto simp: parse_arguments_def split: option.split prod.split)
  show "snd (add_streamed_calls heap_ok m i ts) = heap_ok"
    by (induction ts arbitrary: m i) (auto simp: alloc_then_lasts lasts)
  show "snd (build_request_body fmt heap_ok model ms) = heap_ok"
    by (auto simp: build_request_body_def split: option.split prod.split)
  show "snd (find_or_add_streamed_call heap_ok ts i) = heap_ok"
    by (auto simp: find_or_add_streamed_call_def split: option.split)
qed

lemma normalize_lasts [lasts]: "snd (normalize_utf8 heap_ok data b) = heap_ok"
proof (induction "length data" arbitrary: data b rule: less_induct)
  case less
  show ?case
  proof (cases "data = []")
    case False
    let ?n = "valid_utf8_sequence data"
    have "length (drop (if ?n = 0 then 1 else ?n) data) < length data" using False by simp
    from less [OF this] show ?thesis using False
      by (simp add: normalize_utf8.simps [of heap_ok data b] Let_def alloc_then_lasts lasts)
  qed (simp add: normalize_utf8.simps [of heap_ok "[]" b] lasts)
qed

lemma tool_result_lasts [lasts]: "snd (tool_result_text heap_ok raw kind code) = heap_ok"
  by (auto simp: tool_result_text_def alloc_then_lasts lasts)

lemma assistant_lasts [lasts]: "cv_heap c = heap_ok \<Longrightarrow> snd (build_assistant_message c) = heap_ok"
  by (simp add: build_assistant_message_def alloc_then_lasts lasts)

lemma add_call_short:
  "oi_cli_message_add_tool_call h m i n a = (Inr m', h') \<Longrightarrow> short i"
  by (auto simp: oi_cli_message_add_tool_call_def dest!: string_set_Inr split: if_splits)

lemma add_calls_result:
  "add_streamed_calls h m k ts = (Inr m', h') \<Longrightarrow> list_all call_is_valid (msg_tool_calls m) \<Longrightarrow> list_all good_call (msg_tool_calls m) \<Longrightarrow>
   msg_role m' = msg_role m \<and> msg_content m' = msg_content m \<and> msg_tool_call_id m' = msg_tool_call_id m
   \<and> list_all call_is_valid (msg_tool_calls m') \<and> list_all good_call (msg_tool_calls m')"
proof (induction ts arbitrary: h m k)
  case (Cons t ts)
  then obtain m1 h1 where
    a: "oi_cli_message_add_tool_call h m (cb_data (st_id t)) (cb_data (st_name t)) (cb_data (st_arguments t)) = (Inr m1, h1)"
    and r: "add_streamed_calls h1 m1 (Suc k) ts = (Inr m', h')" by (auto split: if_splits)
  from Cons.IH [OF r] add_call_result [OF a] add_call_short [OF a] Cons.prems(2,3) show ?case
    by (simp add: call_is_valid_def good_call_def)
qed simp

lemma build_assistant_result:
  assumes "build_assistant_message c = (Inr m, h)"
  shows "oi_cli_message_is_valid m \<and> msg_role m = MESSAGE_ASSISTANT \<and> list_all good_call (msg_tool_calls m)"
proof -
  from assms obtain m0 h0 where "oi_cli_message_set_assistant (cv_heap c) (cb_data (cv_assistant c)) = (Inr m0, h0)"
    "add_streamed_calls h0 m0 0 (sort_key st_index (cv_streamed_calls c)) = (Inr m, h)"
    by (auto simp: build_assistant_message_def)
  with add_calls_result [OF this(2)] set_assistant_result [OF this(1)] show ?thesis
    by (auto simp: oi_cli_message_is_valid_def)
qed

lemma request_call_kept:
  assumes "working c" "calls_left c" "open_turn n c" "steady (cv_config c)" "call = assistant_calls c ! cv_tool_index c"
    and "size_of (request_tool_call an c call arguments) < item_limit"
  shows "turn_kept n (request_tool_call an c call arguments)"
proof -
  obtain d u where p: "(case cc_permission (cv_config c) of None \<Rightarrow> (OI_TOOL_ALLOW, cv_user c)
      | Some f \<Rightarrow> f (c_string (tc_name call)) arguments (cv_user c)) = (d, u)" by fastforce
  let ?c = "c\<lparr>cv_user := u\<rparr>"
  have c: "working ?c" "calls_left ?c" "open_turn n ?c" "steady (cv_config ?c)" "call = assistant_calls ?c ! cv_tool_index ?c"
    using assms by (simp_all add: assistant_calls_def)
  show ?thesis
  proof (cases "d = OI_TOOL_ASK")
    case False
    then have r: "request_tool_call an c call arguments = resolve_permission_body an ?c call (d = OI_TOOL_ALLOW)"
      using p by (simp add: request_tool_call_def Let_def)
    show ?thesis
      using assms(6) allowed_kept [OF c(1-4), of an call] denied_kept [OF c(1-3), of an] c(5) unfolding r
      by (cases "d = OI_TOOL_ALLOW") auto
  next
    case True
    let ?p = "?c\<lparr>cv_pending_permission_tool := True\<rparr>"
    have wp: "waiting ?p" using assms by (simp add: working_def waiting_def free_handed_def)
    obtain st c1 where c1: "emit_reentrant ?p (EVENT_AWAITING_PERMISSION call) = (st, c1)" by fastforce
    let ?d = "traced Tool_cancelled (c1\<lparr>cv_pending_permission_tool := False\<rparr>)"
    have r: "request_tool_call an c call arguments = (if st \<noteq> OI_OK then finish_turn_with_repair ?d st False else c1)"
      using p c1 True by (simp add: request_tool_call_def Let_def)
    have "size_of c1 \<le> size_of (request_tool_call an c call arguments)"
      unfolding r using size_with_repair [of ?d] by simp
    with assms(6) have s: "size_of c1 < item_limit" by simp
    have o: "open_turn n ?p" "cv_busy ?p" "steady (cv_config ?p)" using c by (simp_all add: working_def)
    from reentrant_kept [OF c1 o(1,2) s] show ?thesis
    proof (elim disjE conjE)
      assume i: "idle c1" "closed_turn n c1"
      then have "st = OI_OK" using steady_reentrant [OF c1 o(3,2)] by (simp add: idle_def)
      with i kept_closed [OF i] show ?thesis unfolding r by simp
    next
      assume k: "commits ?p c1" "open_turn n c1"
      have "free_handed ?d"
        using commits_same [OF k(1)] assms(1) by (simp add: working_def free_handed_def traced_def)
      with k with_repair_kept [of ?d n st False] commits_waiting [OF k(1) wp] assms(6) show ?thesis
        unfolding r by (simp add: turn_kept_def split: if_splits)
    qed
  qed
qed

lemma start_request_kept:
  assumes "start_model_request fmt an c = (st, c')" "working c" "open_turn n c" "calls_ahead c = []"
  shows "if st = OI_OK then turn_kept n c' else working c' \<and> open_turn n c'"
  using start_request_rests [OF assms(1,2)] start_request_open [OF assms(1,3,4)] by (auto simp: turn_kept_def)

lemma next_tool_kept:
  assumes "working c" "open_turn n c" "steady (cv_config c)" "cv_assistant_committed c"
    and "size_of (start_next_tool fmt strtod an c) < item_limit"
  shows "turn_kept n (start_next_tool fmt strtod an c)"
proof -
  have b: "cv_busy c" using assms by (simp add: working_def)
  have i: "cv_assistant_message_index c < length (ml_items (cv_messages c))"
    using assms(2,4) by (simp add: open_turn_def size_of_def)
  let ?r = "start_next_tool fmt strtod an c"
  consider (steer) "cv_steering c" | (none) "\<not> cv_steering c" "cv_tool_index c \<ge> length (assistant_calls c)"
    | (call) "\<not> cv_steering c" "cv_tool_index c < length (assistant_calls c)" by linarith
  then show ?thesis
  proof cases
    case steer
    obtain st c1 where c1: "skip_steered_tool_calls c = (st, c1)" by fastforce
    obtain st' c2 where c2: "(if st = OI_OK then close_out_steered_turn c1 else (st, c1)) = (st', c2)" by fastforce
    have r: "?r = finish_turn c2 st'" using b steer c1 c2 by (simp add: start_next_tool_def)
    have s2: "size_of c2 < item_limit" using assms(5) unfolding r by simp
    have "size_of c1 \<le> size_of c2"
      using c2 by (auto simp: close_out_steered_turn_def split: if_splits dest!: commit_text_commits(2) intro: commits_size)
    with s2 have s1: "size_of c1 < item_limit" by simp
    have "skip_calls OI_OK c (calls_ahead c) = (st, c1)" using c1 assms(4) by (simp add: skip_steered_tool_calls_def calls_ahead_def)
    from skip_calls_ok [OF _ _ _ this s1, of n] assms(2) have st: "st = OI_OK" "sound c1" "in_phase n c1 Waiting"
      by (simp_all add: open_turn_def)
    with c2 commit_assistant_ok [of c1 n steered_turn_ended_text st' c2] s2 texts_short
    have "closed_turn n c2" by (simp add: close_out_steered_turn_def closed_turn_def)
    moreover have "idle (finish_turn c2 st')"
      using free_handed_commits [OF skipped_commits [OF c1 c2]] assms(1) by (simp add: working_def finish_idle)
    ultimately show ?thesis unfolding r by (intro kept_closed finish_turn_closed)
  next
    case none
    obtain st c1 where c1: "start_model_request fmt an c = (st, c1)" by fastforce
    have "calls_ahead c = []" using none by (simp add: calls_ahead_def)
    from start_request_kept [OF c1 assms(1,2) this] b none c1 with_repair_kept [of c1 n st False] assms(5) show ?thesis
      by (auto simp: start_next_tool_def working_def split: if_splits)
  next
    case call
    let ?call = "assistant_calls c ! cv_tool_index c"
    obtain x h where p: "parse_arguments strtod (cv_heap c) (an_arena an) (tc_arguments ?call) = (x, h)" by fastforce
    have h: "h = heap_ok" using p assms(2) conversation_lasts(2) [of strtod "an_arena an" "tc_arguments ?call"]
      by (simp add: open_turn_def sound_def)
    have e: "c\<lparr>cv_heap := h\<rparr> = c" using h assms(2) by (simp add: open_turn_def sound_def)
    have l: "calls_left c" using call i assms(4) by (simp add: calls_left_def)
    have f: "free_handed c" using assms(1) by (simp add: working_def)
    show ?thesis
    proof (cases x)
      case (Inl st)
      then have r: "?r = finish_turn_with_repair c st False" using b call p e by (simp add: start_next_tool_def Let_def)
      show ?thesis using assms(5) unfolding r by (rule with_repair_kept [OF f assms(2)])
    next
      case (Inr v)
      let ?t = "traced (Tool_staged (c_string (tc_name ?call)) v) c"
      have r: "?r = (if an_stage an \<noteq> OI_OK then finish_turn_with_repair c (an_stage an) False else request_tool_call an ?t ?call v)"
        using Inr b call p e by (simp add: start_next_tool_def Let_def)
      have t: "working ?t" "calls_left ?t" "open_turn n ?t" "steady (cv_config ?t)" "?call = assistant_calls ?t ! cv_tool_index ?t"
        using assms l by (simp_all, simp_all add: traced_def assistant_calls_def)
      show ?thesis
      proof (cases "an_stage an = OI_OK")
        case True
        with r have r: "?r = request_tool_call an ?t ?call v" by simp
        show ?thesis using assms(5) unfolding r by (rule request_call_kept [OF t])
      next
        case False
        with r have r: "?r = finish_turn_with_repair c (an_stage an) False" by simp
        show ?thesis using assms(5) unfolding r by (rule with_repair_kept [OF f assms(2)])
      qed
    qed
  qed
qed

lemma steady_config: "commits c c' \<Longrightarrow> steady (cv_config c) \<Longrightarrow> steady (cv_config c')"
  by (simp add: commits_same)

lemma size_next: "size_of c \<le> size_of (start_next_tool fmt strtod an c)"
  by (rule grows_size [OF grows_next])

lemma buffer_append_fails [fails]: "fst (buffer_append h b d k) \<noteq> Inl OI_OK"
  by (simp add: buffer_append_def Let_def fails split: option.split)

lemma normalize_fails [fails]: "fst (normalize_utf8 h data b) \<noteq> Inl OI_OK"
proof (induction "length data" arbitrary: h data b rule: less_induct)
  case less
  show ?case
  proof (cases "data = []")
    case False
    let ?n = "valid_utf8_sequence data"
    have "length (drop (if ?n = 0 then 1 else ?n) data) < length data" using False by simp
    from less [OF this] show ?thesis using False
      by (simp add: normalize_utf8.simps [of h data b] Let_def alloc_then_fails fails)
  qed (simp add: normalize_utf8.simps [of h "[]" b] fails)
qed

lemma tool_result_fails [fails]: "fst (tool_result_text h raw kind code) \<noteq> Inl OI_OK"
  by (auto simp: tool_result_text_def alloc_then_fails fails)

text \<open>The text of a tool's result: the output made well-formed, and a line on an abnormal end.\<close>

lemma tool_result_value:
  assumes "tool_result_text h raw kind code = (Inr t, h')"
  shows "cb_data t = normalized raw @ (if kind = OI_TOOL_EXIT_NORMAL \<and> code = 0 then [] else exit_status_text kind code)
    \<and> length (cb_data t) \<le> history_max_content"
  using assms by (auto simp: tool_result_text_def buffer_empty_def split: if_splits dest!: normalize_result buffer_append_Inr)

lemma tool_done_kept:
  assumes "waiting c" "cv_tool c" "open_turn n c" "steady (cv_config c)"
    and "size_of (on_tool_done fmt strtod an c kind code) < item_limit"
  shows "turn_kept n (on_tool_done fmt strtod an c kind code)"
proof -
  let ?c = "c\<lparr>cv_tool := False\<rparr>"
  let ?r = "on_tool_done fmt strtod an c kind code"
  have w: "working ?c" and l: "calls_left ?c" using assms by (auto simp: waiting_def working_def free_handed_def)
  have o: "open_turn n ?c" using assms by simp
  have hc: "cv_heap ?c = heap_ok" using assms(3) by (simp add: open_turn_def sound_def)
  define oc where "oc = (if kind = OI_TOOL_EXIT_NORMAL \<and> code = 0 then CONVERSATION_TOOL_COMPLETED else CONVERSATION_TOOL_FAILED)"
  obtain x h where x: "tool_result_text (cv_heap ?c) (cb_data (cv_tool_output ?c)) kind code = (x, h)" by fastforce
  have h: "h = heap_ok" using x tool_result_lasts [of "cb_data (cv_tool_output ?c)" kind code] hc by simp
  have e: "?c\<lparr>cv_heap := h\<rparr> = ?c" using h hc by simp
  obtain st c1 where c1: "(case tool_result_text (cv_heap ?c) (cb_data (cv_tool_output ?c)) kind code of
      (Inl st, h) \<Rightarrow> (st, ?c\<lparr>cv_heap := h\<rparr>)
    | (Inr t, h) \<Rightarrow> commit_tool_text (?c\<lparr>cv_heap := h\<rparr>) (assistant_calls ?c ! cv_tool_index ?c) (cb_data t) oc (Some (cb_data (cv_tool_output ?c))) False)
    = (st, c1)" by fastforce
  let ?o = "c1\<lparr>cv_tool_output := buffer_empty\<rparr>" and ?n = "c1\<lparr>cv_tool_output := buffer_empty, cv_tool_index := cv_tool_index c1 + 1\<rparr>"
  have r: "?r = (if st \<noteq> OI_OK then finish_turn_with_repair ?o st True else start_next_tool fmt strtod an ?n)"
    using c1 unfolding on_tool_done_def Let_def oc_def by simp
  have "size_of c1 \<le> size_of ?r"
    unfolding r using size_with_repair [of ?o st True] size_next [of ?n fmt strtod an] by simp
  with assms(5) have s: "size_of c1 < item_limit" by simp
  show ?thesis
  proof (cases x)
    case (Inl st')
    with c1 x e have "st' = st" "c1 = ?c" by simp_all
    moreover from this have "st \<noteq> OI_OK" using x Inl tool_result_fails [of "cv_heap ?c" "cb_data (cv_tool_output ?c)" kind code] by auto
    ultimately show ?thesis using with_repair_kept [of ?o n st True] assms(5) o w unfolding r by (simp add: working_def)
  next
    case (Inr t)
    have t: "short (cb_data t)"
      by (rule short_content [OF conjunct2 [OF tool_result_value]]) (use x Inr in simp)
    have k: "commit_tool_text ?c (assistant_calls ?c ! cv_tool_index ?c) (cb_data t) oc (Some (cb_data (cv_tool_output ?c))) False = (st, c1)"
      using c1 x Inr e by simp
    note cm = commit_text_commits(1) [OF k]
    have "?n = c1\<lparr>cv_tool_index := cv_tool_index c1 + 1, cv_tool_output := buffer_empty\<rparr>" by simp
    with commit_result_open [OF o l t k s, of buffer_empty] have st: "st = OI_OK" and on: "open_turn n ?n" by metis+
    have "working ?n" using working_commits [OF cm w] by simp
    moreover have "steady (cv_config ?n)" using commits_same(1) [OF cm] assms(4) by simp
    moreover have "cv_assistant_committed ?n" using commits_same(14) [OF cm] l by (simp add: calls_left_def)
    ultimately show ?thesis using next_tool_kept [of ?n n fmt strtod an] on st assms(5) unfolding r by simp
  qed
qed

lemma tool_output_kept:
  assumes "waiting c" "cv_tool c" "open_turn n c" "steady (cv_config c)" "size_of (on_tool_output c data) < item_limit"
  shows "turn_kept n (on_tool_output c data)"
proof -
  obtain st b h where a: "appended (cv_tool_output c) (buffer_append (cv_heap c) (cv_tool_output c) data history_max_content) = (st, b, h)"
    by (metis prod_cases3)
  have h: "h = cv_heap c"
    using a conversation_lasts(1) [of "cv_tool_output c" data history_max_content] assms(3)
    by (auto simp: appended_def open_turn_def sound_def split: prod.splits sum.splits)
  let ?b = "c\<lparr>cv_tool_output := b\<rparr>"
  obtain st' c1 where e: "(if st = OI_OK then emit_reentrant ?b (EVENT_TOOL_OUTPUT data) else (st, c)) = (st', c1)" by fastforce
  have r: "on_tool_output c data = (if st' \<noteq> OI_OK then abort_tool c1 st' else c1)"
    using a e h by (simp add: on_tool_output_def split: if_splits)
  have "size_of c1 \<le> size_of (on_tool_output c data)" unfolding r using size_abort(1) [of c1] by simp
  with assms(5) have s: "size_of c1 < item_limit" by simp
  have wb: "waiting ?b" "open_turn n ?b" "cv_busy ?b" "steady (cv_config ?b)" "cv_tool ?b"
    using assms by (simp_all add: waiting_def calls_left_def assistant_calls_def)
  have "(waiting c1 \<and> cv_tool c1 \<and> open_turn n c1) \<or> (st' = OI_OK \<and> idle c1 \<and> closed_turn n c1)"
  proof (cases "st = OI_OK")
    case True
    with e have e: "emit_reentrant ?b (EVENT_TOOL_OUTPUT data) = (st', c1)" by simp
    from reentrant_kept [OF e wb(2,3) s] show ?thesis
      using steady_reentrant [OF e wb(4,3)] commits_waiting [OF _ wb(1)] commits_same(4) [of ?b c1] wb(5) by (auto simp: idle_def)
  qed (use e assms in auto)
  then show ?thesis
  proof (elim disjE conjE)
    assume k: "waiting c1" "cv_tool c1" "open_turn n c1"
    then have "\<not> cv_request c1" "\<not> cv_pending_permission_tool c1" by (auto simp: waiting_def)
    from abort_tool_kept [OF this k(3), of st'] assms(5) k show ?thesis unfolding r by (cases "st' = OI_OK") (simp_all add: turn_kept_def)
  qed (simp add: r kept_closed)
qed

lemma appended_lasts: "appended b (buffer_append heap_ok b d k) = (st, b', h') \<Longrightarrow> h' = heap_ok"
  using conversation_lasts(1) [of b d k] by (auto simp: appended_def split: prod.splits sum.splits)

lemma fragments_lasts: "append_call_fragments heap_ok t i n a = (st, t', h') \<Longrightarrow> h' = heap_ok"
  by (auto simp: append_call_fragments_def Let_def split: prod.splits if_splits dest!: appended_lasts)

lemma llm_event_kept:
  assumes "waiting c" "cv_request c" "open_turn n c" "steady (cv_config c)" "size_of (on_llm_event c event) < item_limit"
  shows "turn_kept n (on_llm_event c event)"
proof -
  have hc: "cv_heap c = heap_ok" using assms(3) by (simp add: open_turn_def sound_def)
  let ?r = "on_llm_event c event"
  have abort: "turn_kept n (abort_request d st)"
    if "\<not> cv_tool d" "\<not> cv_pending_permission_tool d" "open_turn n d" "size_of (abort_request d st) < item_limit"
    for d :: "'a oi_cli_conversation" and st
  proof (rule kept_closed)
    show "idle (abort_request d st)" using that by (simp add: abort_idle)
    have "open_turn n (detach_request d)" using that by (simp add: detach_request_def)
    from finish_with_repair_closed [OF this, of st False] that show "closed_turn n (abort_request d st)" by (simp add: abort_request_def)
  qed
  have f: "\<not> cv_tool c" "\<not> cv_pending_permission_tool c" "cv_busy c" using assms(1,2) by (auto simp: waiting_def)
  show ?thesis
  proof (cases event)
    case (OI_LLM_EVENT_TEXT data)
    obtain st b h where a: "appended (cv_assistant c) (buffer_append (cv_heap c) (cv_assistant c) data history_max_content) = (st, b, h)"
      by (metis prod_cases3)
    have h: "h = cv_heap c"
      using a conversation_lasts(1) [of "cv_assistant c" data history_max_content] hc
      by (auto simp: appended_def split: prod.splits sum.splits)
    let ?b = "c\<lparr>cv_assistant := b\<rparr>"
    obtain st' c1 where e: "(if st = OI_OK then emit_reentrant ?b (EVENT_ASSISTANT_DELTA data) else (st, c)) = (st', c1)" by fastforce
    have r: "?r = (if st' \<noteq> OI_OK then abort_request c1 st' else c1)"
      using a e h OI_LLM_EVENT_TEXT by (simp add: on_llm_event_def split: if_splits)
    have "size_of c1 \<le> size_of ?r" unfolding r using size_abort(2) [of c1] by simp
    with assms(5) have s: "size_of c1 < item_limit" by simp
    have wb: "waiting ?b" "open_turn n ?b" "cv_busy ?b" "steady (cv_config ?b)" "cv_request ?b"
      using assms f by (simp_all add: waiting_def calls_left_def assistant_calls_def)
    have "(waiting c1 \<and> cv_request c1 \<and> open_turn n c1) \<or> (st' = OI_OK \<and> idle c1 \<and> closed_turn n c1)"
    proof (cases "st = OI_OK")
      case True
      with e have e: "emit_reentrant ?b (EVENT_ASSISTANT_DELTA data) = (st', c1)" by simp
      from reentrant_kept [OF e wb(2,3) s] show ?thesis
        using steady_reentrant [OF e wb(4,3)] commits_waiting [OF _ wb(1)] commits_same(3) [of ?b c1] wb(5) by (auto simp: idle_def)
    qed (use e assms in auto)
    then show ?thesis
    proof (elim disjE conjE)
      assume k: "waiting c1" "cv_request c1" "open_turn n c1"
      then have "\<not> cv_tool c1" "\<not> cv_pending_permission_tool c1" by (auto simp: waiting_def)
      from abort [OF this k(3), of st'] assms(5) k show ?thesis unfolding r by (cases "st' = OI_OK") (simp_all add: turn_kept_def)
    qed (simp add: r kept_closed)
  next
    case (OI_LLM_EVENT_TOOL_CALL index i name arguments)
    obtain x h where x: "find_or_add_streamed_call (cv_heap c) (cv_streamed_calls c) index = (x, h)" by fastforce
    with conversation_lasts(5) [of "cv_streamed_calls c" index] hc have h: "h = heap_ok" by simp
    obtain st ts where r: "?r = (if st \<noteq> OI_OK then abort_request (c\<lparr>cv_streamed_calls := ts\<rparr>) st else c\<lparr>cv_streamed_calls := ts\<rparr>)"
    proof (cases x)
      case None
      have e: "c\<lparr>cv_heap := h\<rparr> = c" using h hc by simp
      show ?thesis
        by (rule that [of OI_ERR_NOMEM "cv_streamed_calls c"])
          (simp add: on_llm_event_def OI_LLM_EVENT_TOOL_CALL x [unfolded None] e)
    next
      case (Some p)
      obtain ts k where p: "p = (ts, k)" by fastforce
      obtain st t h' where a: "append_call_fragments h (ts ! k) (string_bytes i) (string_bytes name) (string_bytes arguments) = (st, t, h')"
        by (metis prod_cases3)
      have "h' = heap_ok" using fragments_lasts [OF a [unfolded h]] .
      then have e: "c\<lparr>cv_streamed_calls := ts[k := t], cv_heap := h'\<rparr> = c\<lparr>cv_streamed_calls := ts[k := t]\<rparr>" using hc by simp
      show ?thesis
        by (rule that [of st "ts[k := t]"])
          (simp add: on_llm_event_def OI_LLM_EVENT_TOOL_CALL x [unfolded Some p] a e)
    qed
    have w: "waiting (c\<lparr>cv_streamed_calls := ts\<rparr>)"
      using assms(1) by (simp add: waiting_def calls_left_def assistant_calls_def)
    show ?thesis using abort [of "c\<lparr>cv_streamed_calls := ts\<rparr>" st] f assms(3,5) w unfolding r
      by (cases "st = OI_OK") (simp_all add: turn_kept_def)
  qed
qed

lemma report_failure_kept:
  assumes "report_failure c st b = (st', c')"
  shows "commits c c' \<and> (open_turn n c \<longrightarrow> open_turn n c')"
proof -
  obtain x c1 where 1: "(case b of Some b \<Rightarrow> if b = [] then (OI_OK, c) else emit c (EVENT_MODEL_ERROR (cv_http_status c) b)
      | None \<Rightarrow> (OI_OK, c)) = (x, c1)" by fastforce
  obtain y c2 where 2: "(if cb_data (cv_assistant c1) \<noteq> [] then emit c1 (EVENT_PARTIAL_ASSISTANT (cb_data (cv_assistant c1)))
      else (OI_OK, c1)) = (y, c2)" by fastforce
  have "c' = c2" using assms 1 2 unfolding report_failure_def Let_def by simp
  moreover have "commits c c1 \<and> (open_turn n c \<longrightarrow> open_turn n c1)"
    using 1 emit_commits open_turn_emit by (fastforce split: option.splits if_splits)
  moreover have "commits c1 c2 \<and> (open_turn n c1 \<longrightarrow> open_turn n c2)"
    using 2 emit_commits open_turn_emit by (fastforce split: if_splits)
  ultimately show ?thesis using commits_trans by blast
qed

lemma llm_done_kept:
  assumes "waiting c" "cv_request c" "open_turn n c" "steady (cv_config c)"
    and "size_of (on_llm_done fmt strtod an c status http_status failure_body) < item_limit"
  shows "turn_kept n (on_llm_done fmt strtod an c status http_status failure_body)"
proof -
  let ?c = "c\<lparr>cv_request := False, cv_http_status := http_status\<rparr>" and ?r = "on_llm_done fmt strtod an c status http_status failure_body"
  have w: "working ?c" and nc: "\<not> cv_assistant_committed c" using assms by (auto simp: waiting_def working_def free_handed_def)
  have o: "open_turn n ?c" using assms(3) by simp
  show ?thesis
  proof (cases "status = OI_OK")
    case False
    obtain st c1 where c1: "report_failure ?c status failure_body = (st, c1)" by fastforce
    have "open_turn n c1 \<and> commits ?c c1" using report_failure_kept [OF c1] o by blast
    moreover from this free_handed_commits [of ?c c1] w have "free_handed c1" by (simp add: working_def)
    moreover have r: "?r = finish_turn_with_repair c1 st False" using False c1 by (simp add: on_llm_done_def Let_def)
    ultimately show ?thesis using assms(5) unfolding r by (intro with_repair_kept) simp_all
  next
    case True
    let ?s = "?c\<lparr>cv_streamed_calls := sort_key st_index (cv_streamed_calls ?c)\<rparr>"
    obtain x h where x: "build_assistant_message ?c = (x, h)" by fastforce
    have h: "h = heap_ok" using x assistant_lasts [of ?c] assms(3) by (simp add: open_turn_def sound_def)
    obtain st c1 where c1: "commit_set ?s (x, h) CONVERSATION_TOOL_NONE None False = (st, c1)" by fastforce
    let ?d = "clear_streamed_response (c1\<lparr>cv_assistant_message_index := length (ml_items (cv_messages c1)) - 1,
                     cv_assistant_committed := True, cv_tool_index := 0\<rparr>)"
    obtain st' c2 where c2: "emit ?d EVENT_RESPONSE_DONE = (st', c2)" by fastforce
    have r: "?r = (if st \<noteq> OI_OK then finish_turn_with_repair c1 st False
        else if st' \<noteq> OI_OK then finish_turn_with_repair c2 st' False
        else if assistant_calls c2 = [] then finish_turn c2 OI_OK else start_next_tool fmt strtod an c2)"
      using True x c1 c2 by (simp add: on_llm_done_def Let_def)
    have "size_of c2 = size_of c1"
      using c2 by (auto simp: emit_def emit_open_def size_of_def traced_def clear_streamed_response_def split: option.splits prod.splits)
    then have "size_of c1 \<le> size_of ?r"
      unfolding r using size_with_repair [of c1] size_with_repair [of c2] size_next [of c2] by simp
    with assms(5) have s: "size_of c1 < item_limit" by simp
    have w1: "working c1" using working_commits [OF commit_set_commits [OF c1]] w by simp
    have os: "open_turn n ?s" "calls_ahead ?s = []" using o nc by (simp, simp add: calls_ahead_def)
    show ?thesis
    proof (cases x)
      case (Inl e)
      have "?s\<lparr>cv_heap := h\<rparr> = ?s" using h assms(3) by (simp add: open_turn_def sound_def)
      with c1 Inl have e: "st = e" "c1 = ?s" by (simp_all add: commit_set_def)
      moreover have "e \<noteq> OI_OK" using build_assistant_fails [of ?c] x Inl by auto
      ultimately have r: "?r = finish_turn_with_repair c1 st False" using r by simp
      show ?thesis using assms(5) w1 os e unfolding r by (intro with_repair_kept) (simp_all add: working_def)
    next
      case (Inr m)
      note m = build_assistant_result [OF x [unfolded Inr]]
      have "in_phase n ?s Waiting" using os by (simp add: open_turn_def results_due_def)
      moreover from commit_set_ok [OF _ _ _ c1 s, of m] os m Inr h have st: "st = OI_OK" and s1: "sound c1"
        and i: "ml_items (cv_messages c1) = ml_items (cv_messages ?s) @ [m]" by (auto simp: open_turn_def)
      moreover have "turn_step Waiting m = Some (if msg_tool_calls m = [] then Idle else Calls (map tc_id (msg_tool_calls m)))"
        using m by simp
      ultimately have p: "in_phase n c1 (if msg_tool_calls m = [] then Idle else Calls (map tc_id (msg_tool_calls m)))"
        by (rule_tac in_phase_add)
      have d: "sound ?d" "cv_messages ?d = cv_messages c1" "cv_assistant_committed ?d" "cv_tool_index ?d = 0" "working ?d"
        "cv_assistant_message_index ?d = size_of c1 - 1" "cv_config ?d = cv_config c1"
        using s1 w1 by (simp_all add: size_of_def clear_streamed_response_def sound_def) (simp_all add: working_def free_handed_def)
      note e2 = emit_accepted [OF d(1) c2] and k2 = commits_same [OF emit_commits [OF c2]]
      have a2: "assistant_calls c2 = msg_tool_calls m"
        using e2 k2(12) i by (simp add: assistant_calls_def clear_streamed_response_def)
      have w2: "working c2" using working_commits [OF emit_commits [OF c2] d(5)] .
      have st': "st' = OI_OK" using e2 by simp
      show ?thesis
      proof (cases "msg_tool_calls m = []")
        case True
        then have r: "?r = finish_turn c2 OI_OK" using r st st' a2 by simp
        have "closed_turn n c2" using e2 p True d(2) by (simp add: closed_turn_def in_phase_def size_of_def)
        then show ?thesis using w2 unfolding r by (intro kept_closed finish_turn_closed) (simp_all add: working_def finish_idle)
      next
        case False
        then have r: "?r = start_next_tool fmt strtod an c2" using r st st' a2 by simp
        have "open_turn n c2"
          using e2 p False m a2 k2(12,13,14) d i
          by (simp add: open_turn_def calls_ahead_def in_phase_def size_of_def results_due_def)
        moreover have "steady (cv_config c2)"
          using k2(1) d(7) commits_same(1) [OF commit_set_commits [OF c1]] assms(4) by simp
        ultimately show ?thesis using w2 k2(14) d(3) assms(5) unfolding r by (intro next_tool_kept) simp_all
      qed
    qed
  qed
qed

text \<open>A turn that begins is answered for: its first request is made, or it does not begin.\<close>

definition start_answered :: "fmt \<Rightarrow> 'u oi_cli_conversation \<Rightarrow> conversation_input \<times> conversation_answers \<Rightarrow> bool" where
  "start_answered fmt c x \<longleftrightarrow> (case x of
     (Start content, an) \<Rightarrow> cv_busy c \<or> length content > history_max_content
        \<or> fst (oi_cli_conversation_start fmt an c content) = OI_OK
   | _ \<Rightarrow> True)"

fun starts_answered ::
  "fmt \<Rightarrow> strtod \<Rightarrow> 'u oi_cli_conversation \<Rightarrow> (conversation_input \<times> conversation_answers) list \<Rightarrow> bool" where
  "starts_answered fmt strtod c [] \<longleftrightarrow> True"
| "starts_answered fmt strtod c (x # xs) \<longleftrightarrow>
     start_answered fmt c x \<and> no_checkpoint x \<and> starts_answered fmt strtod (conversation_step fmt strtod c x) xs"

lemma start_commits_user:
  assumes "idle c" "closed_turn n c" "length content \<le> history_max_content"
    and "size_of (snd (oi_cli_conversation_start fmt an c content)) < item_limit"
  obtains c1 where "working c1" "sound c1" "in_phase n c1 Waiting" "oi_cli_conversation_start fmt an c content
    = (case start_model_request fmt an c1 of (st, d) \<Rightarrow> (st, if st \<noteq> OI_OK then finish_turn d st else d))"
proof -
  let ?c = "clear_streamed_response (traced Arena_reset c)\<lparr>cv_tool_output := buffer_empty, cv_last_status := OI_OK,
              cv_http_status := 0, cv_model_steps := 0, cv_cancelled := False, cv_cancelling := False,
              cv_steering := False, cv_busy := True\<rparr>"
  have w: "working ?c" using assms by (simp add: working_def idle_def free_handed_def clear_streamed_response_def traced_def)
  have s: "sound ?c" "in_phase n ?c Idle"
    using assms(2) by (simp_all add: closed_turn_def sound_def in_phase_def size_of_def clear_streamed_response_def traced_def)
  obtain x h where x: "oi_cli_message_set_user (cv_heap ?c) content = (x, h)" by fastforce
  then have x': "x = Inr \<lparr>msg_role = MESSAGE_USER, msg_content = Some content, msg_tool_call_id = None, msg_tool_calls = []\<rparr>" (is "x = Inr ?m")
    and h: "h = heap_ok"
    using s(1) short_content [OF assms(3)]
    by (simp_all add: sound_def oi_cli_message_set_user_def message_set_content_def oi_cli_message_init_def)
  obtain st1 c1 where c1: "commit_set ?c (x, h) CONVERSATION_TOOL_NONE None False = (st1, c1)" by fastforce
  have r: "oi_cli_conversation_start fmt an c content = (case (if st1 = OI_OK then start_model_request fmt an c1 else (st1, c1)) of
      (st, d) \<Rightarrow> (st, if st \<noteq> OI_OK then finish_turn d st else d))"
    using assms(1,3) x c1 by (simp add: oi_cli_conversation_start_def idle_def Let_def)
  have "size_of c1 \<le> size_of (snd (oi_cli_conversation_start fmt an c content))"
    unfolding r by (auto split: prod.split dest!: grows_start_request intro: grows_size)
  then have sz: "size_of c1 < item_limit" using assms(4) by simp
  from commit_set_ok [OF s(1) _ _ c1 sz, of ?m] x' h
  have k: "st1 = OI_OK" "sound c1" "ml_items (cv_messages c1) = ml_items (cv_messages ?c) @ [?m]"
    by (simp_all add: oi_cli_message_is_valid_def)
  have "in_phase n c1 Waiting" by (rule in_phase_add [OF s(2) _ k(3)]) simp
  with that [OF working_commits [OF commit_set_commits [OF c1] w] k(2)] r k(1) show ?thesis by simp
qed

lemma start_kept:
  assumes "idle c" "closed_turn n c" "fst (oi_cli_conversation_start fmt an c content) = OI_OK" "length content \<le> history_max_content"
    and "size_of (snd (oi_cli_conversation_start fmt an c content)) < item_limit"
  shows "turn_kept n (snd (oi_cli_conversation_start fmt an c content))"
proof -
  from start_commits_user [OF assms(1,2,4,5)] obtain c1 where c1: "working c1" "sound c1" "in_phase n c1 Waiting"
    and r: "oi_cli_conversation_start fmt an c content
      = (case start_model_request fmt an c1 of (st, d) \<Rightarrow> (st, if st \<noteq> OI_OK then finish_turn d st else d))" .
  let ?d = "c1\<lparr>cv_assistant_committed := False\<rparr>"
  have "start_model_request fmt an ?d = start_model_request fmt an c1" by (simp add: start_model_request_def Let_def)
  moreover have "open_turn n ?d" "calls_ahead ?d = []" "working ?d"
    using c1 by (simp_all add: open_turn_def calls_ahead_def results_due_def sound_def in_phase_def size_of_def)
  ultimately show ?thesis
    using start_request_kept [of fmt an ?d OI_OK _ n] assms(3,5) by (auto simp: r split: prod.splits if_splits)
qed

text \<open>A start whose request cannot be sent ends the turn as it is.\<close>

lemma failed_start:
  assumes "idle c" "closed_turn n c" "oi_cli_conversation_start fmt an c content = (st, c')" "st \<noteq> OI_OK"
    and "length content \<le> history_max_content" "size_of c' < item_limit"
  shows "\<not> cv_busy c' \<and> in_phase n c' Waiting"
proof -
  from start_commits_user [OF assms(1,2,5), of fmt an] assms(3,6) obtain c1 where c1: "working c1" "sound c1" "in_phase n c1 Waiting"
    and r: "(st, c') = (case start_model_request fmt an c1 of (st, d) \<Rightarrow> (st, if st \<noteq> OI_OK then finish_turn d st else d))" by auto
  then obtain d where d: "start_model_request fmt an c1 = (st, d)" "c' = finish_turn d st"
    using assms(4) by (auto split: prod.splits if_splits)
  have "cv_messages d = cv_messages c1"
    using d(1) by (auto simp: start_model_request_def Let_def traced_def split: if_splits prod.splits sum.splits)
  with c1(3) have "in_phase n c' Waiting" by (simp add: d in_phase_def size_of_def finish_turn_messages)
  moreover have "working d" using start_request_rests [OF d(1) c1(1)] assms(4) by simp
  then have "idle c'" unfolding d(2) by (intro finish_idle) (simp add: working_def)
  ultimately show ?thesis by (simp add: idle_def)
qed

lemma kept_rest: "turn_kept n c \<Longrightarrow> at_rest c"
  by (auto simp: turn_kept_def at_rest_def)

lemma step_kept:
  assumes "turn_kept n c" "steady (cv_config c)" "start_answered fmt c (i, an)" "no_checkpoint (i, an)"
    and "size_of (conversation_step fmt strtod c (i, an)) < item_limit"
  shows "turn_kept n (conversation_step fmt strtod c (i, an))"
proof -
  have wait: "waiting c \<and> open_turn n c" if "cv_request c \<or> cv_tool c \<or> cv_pending_permission_tool c \<or> cv_busy c"
    using assms(1) that by (auto simp: turn_kept_def idle_def)
  show ?thesis
  proof (cases i)
    case (Start content)
    show ?thesis
    proof (cases "cv_busy c \<or> length content > history_max_content")
      case True
      then have "snd (oi_cli_conversation_start fmt an c content) = c" by (auto simp: oi_cli_conversation_start_def)
      with assms(1) Start show ?thesis by simp
    next
      case False
      then have "idle c" "closed_turn n c" using assms(1) by (auto simp: turn_kept_def waiting_def)
      with start_kept [of c n fmt an content] False assms(3,5) Start show ?thesis by (simp add: start_answered_def)
    qed
  next
    case Cancel
    show ?thesis
    proof (cases "cv_busy c")
      case True
      with wait cancel_closed [of n c] cancel_idle [of c] assms(5) Cancel show ?thesis by (simp add: kept_closed)
    qed (use assms(1) Cancel in \<open>simp add: oi_cli_conversation_cancel_def\<close>)
  next
    case Steer
    with assms(1) show ?thesis
      by (cases "cv_busy c")
        (auto simp: oi_cli_conversation_steer_def turn_kept_def idle_def waiting_def calls_left_def assistant_calls_def)
  next
    case (Resolve_permission allow)
    show ?thesis
    proof (cases "cv_pending_permission_tool c")
      case True
      let ?c = "c\<lparr>cv_pending_permission_tool := False\<rparr>"
      have w: "working ?c" "calls_left ?c" "open_turn n ?c" "steady (cv_config ?c)"
        using wait True assms(2) by (auto simp: waiting_def working_def free_handed_def)
      have r: "conversation_step fmt strtod c (i, an) = resolve_permission_body an ?c (assistant_calls ?c ! cv_tool_index ?c) allow"
        using True Resolve_permission by (simp add: oi_cli_conversation_resolve_permission_def Let_def assistant_calls_def)
      show ?thesis
        using assms(5) allowed_kept [OF w] denied_kept [OF w(1-3)] unfolding r by (cases allow) auto
    qed (use assms(1) Resolve_permission in \<open>simp add: oi_cli_conversation_resolve_permission_def\<close>)
  next
    case (Set_model m k)
    have "sound c" using assms(1) by (auto simp: turn_kept_def closed_turn_def open_turn_def)
    then have "snd (oi_cli_conversation_set_model c m k) = c\<lparr>cv_model := cv_model (snd (oi_cli_conversation_set_model c m k))\<rparr>"
      by (auto simp: oi_cli_conversation_set_model_def oi_cli_string_set_def sound_def)
    then obtain m' where "snd (oi_cli_conversation_set_model c m k) = c\<lparr>cv_model := m'\<rparr>" by blast
    with assms(1) Set_model show ?thesis
      by (auto simp: turn_kept_def idle_def waiting_def calls_left_def assistant_calls_def)
  next
    case (Apply_checkpoint k s)
    with assms(4) show ?thesis by (simp add: no_checkpoint_def)
  next
    case (Model_event ev)
    with llm_event_kept [of c n ev] wait assms show ?thesis by (cases "cv_request c") simp_all
  next
    case (Model_done st code b)
    with llm_done_kept [of c n fmt strtod an st code b] wait assms show ?thesis by (cases "cv_request c") simp_all
  next
    case (Tool_output_read data)
    with tool_output_kept [of c n data] wait assms show ?thesis by (cases "cv_tool c") simp_all
  next
    case (Tool_exited kind code)
    with tool_done_kept [of c n fmt strtod an kind code] wait assms show ?thesis by (cases "cv_tool c") simp_all
  qed
qed

lemma starts_no_checkpoint: "starts_answered fmt strtod c is \<Longrightarrow> list_all no_checkpoint is"
  by (induction "is" arbitrary: c) auto

lemma run_kept:
  "turn_kept n c \<Longrightarrow> steady (cv_config c) \<Longrightarrow> starts_answered fmt strtod c is \<Longrightarrow>
   size_of (conversation_run fmt strtod c is) < item_limit \<Longrightarrow> turn_kept n (conversation_run fmt strtod c is)"
proof (induction "is" arbitrary: c)
  case (Cons x xs)
  obtain i an where x: "x = (i, an)" by fastforce
  let ?c = "conversation_step fmt strtod c (i, an)"
  have r: "conversation_run fmt strtod c (x # xs) = conversation_run fmt strtod ?c xs" by (simp add: conversation_run_def x)
  have s: "start_answered fmt c (i, an)" "no_checkpoint (i, an)" "starts_answered fmt strtod ?c xs"
    using Cons.prems(3) x by simp_all
  have "size_of ?c < item_limit"
    using grows_size [OF grows_run [OF starts_no_checkpoint [OF s(3)], of ?c fmt strtod]] starts_no_checkpoint [OF s(3)]
      Cons.prems(4) unfolding r by (meson grows_run grows_size le_less_trans)
  from step_kept [OF Cons.prems(1,2) s(1,2) this] grows_step [OF s(2), of c fmt strtod] Cons.IH [of ?c] Cons.prems s(3)
  show ?case unfolding r by (simp add: grows_def)
qed (simp add: conversation_run_def)

lemma clone_context_result:
  "clone_context h l ms = (Inr l', h') \<Longrightarrow> ml_items l' = ml_items l @ ms \<and> list_all oi_cli_message_is_valid ms"
  by (induction ms arbitrary: h l) (auto dest!: list_append_clone_result)

lemma take_cap: "oi_cli_message_list_append_take h l m = (Inr l', h') \<Longrightarrow> ml_cap l \<le> item_limit \<Longrightarrow> ml_cap l' \<le> item_limit"
  by (auto simp: oi_cli_message_list_append_take_def Let_def split: if_splits)

lemma clone_context_cap: "clone_context h l ms = (Inr l', h') \<Longrightarrow> ml_cap l \<le> item_limit \<Longrightarrow> ml_cap l' \<le> item_limit"
  by (induction ms arbitrary: h l) (auto simp: oi_cli_message_list_append_clone_def dest: take_cap)

lemma clone_context_lasts [lasts]: "snd (clone_context heap_ok l ms) = heap_ok"
  by (induction ms arbitrary: l) (simp_all add: alloc_then_lasts lasts oi_cli_message_list_append_clone_def)

lemma create_result:
  assumes "oi_cli_conversation_create heap_ok cfg u model ctx = Inr c"
  shows "idle c \<and> cv_heap c = heap_ok \<and> cv_config c = cfg \<and> ml_cap (cv_messages c) \<le> item_limit
    \<and> ml_items (cv_messages c) = (case ctx of None \<Rightarrow> [] | Some l \<Rightarrow> ml_items l) \<and> list_all oi_cli_message_is_valid (ml_items (cv_messages c))"
proof -
  obtain m h1 l h where m: "oi_cli_string_set heap_ok model = (Inr m, h1)"
    and l: "(case ctx of None \<Rightarrow> (Inr oi_cli_message_list_init, h1) | Some l \<Rightarrow> clone_context h1 oi_cli_message_list_init (ml_items l)) = (Inr l, h)"
    and c: "cv_heap c = h" "cv_messages c = l" "cv_config c = cfg"
    using assms by (auto simp: oi_cli_conversation_create_def split: if_splits prod.splits sum.splits option.splits)
  have h1: "h1 = heap_ok" using m by (simp add: oi_cli_string_set_def split: if_splits)
  have "h = heap_ok \<and> ml_cap l \<le> item_limit \<and> ml_items l = (case ctx of None \<Rightarrow> [] | Some l \<Rightarrow> ml_items l)
      \<and> list_all oi_cli_message_is_valid (ml_items l)"
  proof (cases ctx)
    case None
    with l h1 show ?thesis by (auto simp: oi_cli_message_list_init_def)
  next
    case (Some a)
    with l h1 have k: "clone_context heap_ok oi_cli_message_list_init (ml_items a) = (Inr l, h)" by simp
    from clone_context_lasts [of oi_cli_message_list_init "ml_items a"] k have "h = heap_ok" by simp
    with clone_context_result [OF k] clone_context_cap [OF k] Some show ?thesis
      by (simp add: oi_cli_message_list_init_def)
  qed
  with create_idle [OF assms] show ?thesis unfolding c by blast
qed

section \<open>Whole conversations\<close>

text \<open>
  C8. Whatever is called, delivered and answered, in any order, a conversation is between calls either
  at rest, with nothing in flight, or waits for exactly one thing: the reply of a request, the end of a tool, or a
  decision of the user; so no turn is ever stuck, and the activity shown is never that of a moment inside a call.
\<close>

theorem conversation_waits:
  assumes "oi_cli_conversation_create h cfg u model ctx = Inr c0" and "c = conversation_run fmt strtod c0 is"
  shows "(if cv_busy c
      then (cv_request c, cv_tool c, cv_pending_permission_tool c) \<in> {(True, False, False), (False, True, False), (False, False, True)}
      else (cv_request c, cv_tool c, cv_pending_permission_tool c) = (False, False, False))
    \<and> oi_cli_conversation_activity (Some c) =
       (if cv_request c then ACTIVITY_STREAMING else if cv_tool c then ACTIVITY_TOOL_RUNNING
        else if cv_pending_permission_tool c then ACTIVITY_AWAITING_PERMISSION
        else if cv_last_status c = OI_OK \<or> cv_cancelled c then ACTIVITY_IDLE else ACTIVITY_FAILED)"
proof -
  have "at_rest c" unfolding assms(2) by (rule run_rests) (simp add: at_rest_def create_idle [OF assms(1)])
  then show ?thesis by (auto simp: at_rest_def idle_def waiting_def oi_cli_conversation_activity_def)
qed

lemma create_kept:
  assumes "oi_cli_conversation_create heap_ok cfg u model ctx = Inr c" "accepting cfg"
  shows "turn_kept (size_of c) c \<and> ml_items (cv_messages c) = (case ctx of None \<Rightarrow> [] | Some l \<Rightarrow> ml_items l)"
proof -
  have "in_phase (size_of c) c Idle" by (simp add: in_phase_def size_of_def)
  then show ?thesis using create_result [OF assms(1)] assms(2) by (simp add: turn_kept_def closed_turn_def sound_def)
qed

lemma completed:
  assumes "oi_cli_conversation_create heap_ok cfg u model ctx = Inr c0" "accepting cfg" "steady cfg"
    and "starts_answered fmt strtod c0 is" and "size_of (conversation_run fmt strtod c0 is) < item_limit"
  shows "turn_kept (size_of c0) (conversation_run fmt strtod c0 is)"
  using run_kept [of "size_of c0" c0] create_kept [OF assms(1,2)] create_result [OF assms(1)] assms by simp

text \<open>
  C7. The turns of a conversation are complete, under these conditions: memory lasts and the list of messages is not full;
  the embedder's callback takes every message and every end of a reply, cancels only while something is in flight, and
  does not fail where it cancels; every start that takes its message also sends the first request (C11 says what
  happens otherwise); and no checkpoint is applied. Then the messages added to the initial context are, whenever no turn
  runs, complete turns: a message of the user, replies whose tool calls all have their results, in order, and a last reply
  without calls. This holds however turns end: normally, cancelled, steered, denied, after a failure of the
  model, of a tool, of the parser or of a later request. If the calls of each reply have different ids, the replay of a log
  accepts these messages.
\<close>

theorem turns_complete:
  assumes "oi_cli_conversation_create heap_ok cfg u model ctx = Inr c0" "accepting cfg" "steady cfg" "cancels_in_flight cfg"
    and "starts_answered fmt strtod c0 is" and "c = conversation_run fmt strtod c0 is"
    and "length (ml_items (cv_messages c)) < item_limit" and "\<not> cv_busy c"
  shows "\<exists>ms. ml_items (cv_messages c) = (case ctx of None \<Rightarrow> [] | Some l \<Rightarrow> ml_items l) @ ms
    \<and> turn_run Idle ms = Some Idle \<and> (list_all distinct_ids ms \<longrightarrow> conv_run Idle ms = Some Idle)"
proof -
  let ?ms = "drop (size_of c0) (ml_items (cv_messages c))"
  have "turn_kept (size_of c0) c" using completed [OF assms(1-3,5)] assms(6,7) by (simp add: size_of_def)
  with assms(8) have t: "turn_run Idle ?ms = Some Idle" by (simp add: turn_kept_def waiting_def closed_turn_def in_phase_def)
  have "grows c0 c" unfolding assms(6) by (rule grows_run [OF starts_no_checkpoint [OF assms(5)]])
  then have "ml_items (cv_messages c) = ml_items (cv_messages c0) @ ?ms" by (auto simp: grows_def size_of_def)
  with create_kept [OF assms(1,2)] t turn_is_conv_run [OF t] show ?thesis by (intro exI [of _ ?ms]) simp
qed

abbreviation plain_config :: "unit conversation_config" where
  "plain_config \<equiv> \<lparr>cc_max_model_steps = 4, cc_tool_timeout_ms = 0, cc_permission = None, cc_on_event = None\<rparr>"

abbreviation plain_answers :: "oi_arena \<Rightarrow> conversation_answers" where
  "plain_answers a \<equiv> \<lparr>an_request = OI_OK, an_stage = OI_OK, an_resolve = OI_OK, an_timeout = OI_OK, an_stdin = OI_OK, an_arena = a\<rparr>"

abbreviation plain_user :: oi_cli_message where
  "plain_user \<equiv> \<lparr>msg_role = MESSAGE_USER, msg_content = Some [0x68, 0x69], msg_tool_call_id = None, msg_tool_calls = []\<rparr>"

lemma sample_body:
  "build_request_body sample_fmt heap_ok [0x6D] [plain_user] = (Inr (render sample_fmt (request_value [0x6D] [plain_user])), heap_ok)"
proof (rule request_body_ok)
  show "length (render sample_fmt (request_value [0x6D] [plain_user])) \<le> text_limit"
    by (simp add: request_value_def array_value_def request_message_value_def tool_definition_value_def
        request_role_def string_bytes_def bytes_of_def quote_def escape_byte_def text_limit_def size_max_def)
qed

lemmas conversation_evaluation =
  oi_cli_conversation_create_def oi_cli_string_set_def oi_cli_conversation_start_def
  clear_streamed_response_def traced_def Let_def commit_set_def commit_message_def emit_message_def emit_def emit_open_def
  oi_cli_message_set_user_def message_set_content_def oi_cli_message_init_def oi_cli_message_list_init_def
  oi_cli_message_list_append_take_def oi_cli_message_is_valid_def start_model_request_def
  buffer_append_def appended_def emit_reentrant_def on_llm_event_def on_llm_done_def build_assistant_message_def
  buffer_empty_def finish_turn_def assistant_calls_def sizeof_message_def history_max_content_def size_max_def grow_cap.simps [of 256 "Suc (Suc (Suc 0))"] conversation_run_def

abbreviation plain_inputs :: "oi_arena \<Rightarrow> (conversation_input \<times> conversation_answers) list" where
  "plain_inputs a \<equiv> [(Start [0x68, 0x69], plain_answers a), (Model_event (OI_LLM_EVENT_TEXT [0x6F, 0x6B]), plain_answers a),
     (Model_done OI_OK 200 None, plain_answers a)]"

abbreviation plain_state :: "bool \<Rightarrow> conversation_call list \<Rightarrow> bool \<Rightarrow> int \<Rightarrow> oi_cli_message_list \<Rightarrow> cbuffer \<Rightarrow> unit oi_cli_conversation" where
  "plain_state b tr q k l s \<equiv> \<lparr>cv_config = plain_config, cv_user = (), cv_model = [0x6D], cv_messages = l, cv_request = q,
     cv_tool = False, cv_busy = b, cv_cancelled = False, cv_last_status = OI_OK, cv_http_status = 0,
     cv_model_steps = k, cv_assistant = s, cv_streamed_calls = [], cv_assistant_message_index = 0,
     cv_tool_index = 0, cv_tool_output = buffer_empty, cv_assistant_committed = False, cv_steering = False,
     cv_pending_permission_tool = False, cv_cancelling = False, cv_trace = tr, cv_heap = heap_ok\<rparr>"

lemma plain_created:
  "oi_cli_conversation_create heap_ok plain_config () [0x6D] None = Inr (plain_state False [] False 0 oi_cli_message_list_init buffer_empty)"
  by (simp add: oi_cli_conversation_create_def oi_cli_string_set_def size_max_def)

lemma sample_sent:
  "\<exists>tr. oi_cli_conversation_start sample_fmt (plain_answers a) (plain_state False [] False 0 oi_cli_message_list_init buffer_empty) [0x68, 0x69]
     = (OI_OK, plain_state True tr True 1 \<lparr>ml_items = [plain_user], ml_cap = 8\<rparr> buffer_empty)"
  using sample_body by (simp add: conversation_evaluation)

lemma sample_delta:
  "\<exists>tr' cap'. on_llm_event (plain_state True tr True 1 \<lparr>ml_items = [plain_user], ml_cap = 8\<rparr> buffer_empty) (OI_LLM_EVENT_TEXT [0x6F, 0x6B])
     = plain_state True tr' True 1 \<lparr>ml_items = [plain_user], ml_cap = 8\<rparr> \<lparr>cb_data = [0x6F, 0x6B], cb_cap = cap'\<rparr>"
  by (simp add: conversation_evaluation)

lemma sample_done:
  "\<exists>d. on_llm_done sample_fmt sample_strtod an (plain_state True tr True 1 \<lparr>ml_items = [plain_user], ml_cap = 8\<rparr> \<lparr>cb_data = [0x6F, 0x6B], cb_cap = cap'\<rparr>)
     OI_OK 200 None = d \<and> \<not> cv_busy d \<and> length (ml_items (cv_messages d)) = 2"
  by (simp add: conversation_evaluation oi_cli_message_set_assistant_def)

lemma sample_turn:
  obtains c0 where "oi_cli_conversation_create heap_ok plain_config () [0x6D] None = Inr c0"
    "starts_answered sample_fmt sample_strtod c0 (plain_inputs a)"
    "\<not> cv_busy (conversation_run sample_fmt sample_strtod c0 (plain_inputs a))"
    "length (ml_items (cv_messages (conversation_run sample_fmt sample_strtod c0 (plain_inputs a)))) = 2"
proof (rule that [OF plain_created])
  let ?c = "plain_state False [] False 0 oi_cli_message_list_init buffer_empty"
  obtain tr where s: "oi_cli_conversation_start sample_fmt (plain_answers a) ?c [0x68, 0x69]
     = (OI_OK, plain_state True tr True 1 \<lparr>ml_items = [plain_user], ml_cap = 8\<rparr> buffer_empty)" using sample_sent by blast
  obtain tr' cap' where d: "on_llm_event (plain_state True tr True 1 \<lparr>ml_items = [plain_user], ml_cap = 8\<rparr> buffer_empty) (OI_LLM_EVENT_TEXT [0x6F, 0x6B])
     = plain_state True tr' True 1 \<lparr>ml_items = [plain_user], ml_cap = 8\<rparr> \<lparr>cb_data = [0x6F, 0x6B], cb_cap = cap'\<rparr>"
    using sample_delta by blast
  from s show "starts_answered sample_fmt sample_strtod ?c (plain_inputs a)" by (simp add: start_answered_def no_checkpoint_def)
  have r: "conversation_run sample_fmt sample_strtod ?c (plain_inputs a) = on_llm_done sample_fmt sample_strtod (plain_answers a)
     (plain_state True tr' True 1 \<lparr>ml_items = [plain_user], ml_cap = 8\<rparr> \<lparr>cb_data = [0x6F, 0x6B], cb_cap = cap'\<rparr>) OI_OK 200 None"
    using s d by (simp add: conversation_run_def)
  from sample_done show "\<not> cv_busy (conversation_run sample_fmt sample_strtod ?c (plain_inputs a))"
    "length (ml_items (cv_messages (conversation_run sample_fmt sample_strtod ?c (plain_inputs a)))) = 2" unfolding r by blast+
qed

theorem conversation_waits_witness:
  "\<exists>a c0 c. oi_arena_create heap_ok 1024 = Some a \<and> oi_cli_conversation_create heap_ok plain_config () [0x6D] None = Inr c0
    \<and> c = conversation_run sample_fmt sample_strtod c0 [(Start [0x68, 0x69], plain_answers a)]
    \<and> cv_busy c \<and> (cv_request c, cv_tool c, cv_pending_permission_tool c) \<in> {(True, False, False), (False, True, False), (False, False, True)}"
proof -
  obtain a where a: "oi_arena_create heap_ok 1024 = Some a" using fresh_arena by blast
  let ?c = "plain_state False [] False 0 oi_cli_message_list_init buffer_empty"
  let ?d = "conversation_run sample_fmt sample_strtod ?c [(Start [0x68, 0x69], plain_answers a)]"
  have b: "cv_busy ?d" using sample_sent [of a] by (auto simp: conversation_run_def)
  from conversation_waits [OF plain_created refl, of sample_fmt sample_strtod "[(Start [0x68, 0x69], plain_answers a)]"]
  have "(cv_request ?d, cv_tool ?d, cv_pending_permission_tool ?d) \<in> {(True, False, False), (False, True, False), (False, False, True)}"
    by (simp only: b if_True)
  with b a plain_created show ?thesis by (intro exI [of _ a] exI [of _ ?c] exI [of _ ?d] conjI refl)
qed

theorem turns_complete_witness:
  "\<exists>a c0 c ms. oi_arena_create heap_ok 1024 = Some a \<and> oi_cli_conversation_create heap_ok plain_config () [0x6D] None = Inr c0
    \<and> c = conversation_run sample_fmt sample_strtod c0 (plain_inputs a) \<and> \<not> cv_busy c
    \<and> ml_items (cv_messages c) = ms \<and> length ms = 2 \<and> turn_run Idle ms = Some Idle"
proof -
  obtain a where a: "oi_arena_create heap_ok 1024 = Some a" using fresh_arena by blast
  obtain c0 where c0: "oi_cli_conversation_create heap_ok plain_config () [0x6D] None = Inr c0"
    "starts_answered sample_fmt sample_strtod c0 (plain_inputs a)"
    "\<not> cv_busy (conversation_run sample_fmt sample_strtod c0 (plain_inputs a))"
    "length (ml_items (cv_messages (conversation_run sample_fmt sample_strtod c0 (plain_inputs a)))) = 2" by (rule sample_turn)
  let ?d = "conversation_run sample_fmt sample_strtod c0 (plain_inputs a)"
  have cfg: "accepting plain_config" "steady plain_config" "cancels_in_flight plain_config"
    by (simp_all add: accepting_def steady_def cancels_in_flight_def)
  have "length (ml_items (cv_messages ?d)) < item_limit" unfolding c0(4) by (simp add: size_max_def sizeof_message_def)
  from turns_complete [OF c0(1) cfg c0(2) refl this c0(3)]
  have "turn_run Idle (ml_items (cv_messages ?d)) = Some Idle" by (auto simp del: turn_run.simps)
  with c0 a show ?thesis by (intro exI [of _ a] exI [of _ c0] exI [of _ ?d] exI [of _ "ml_items (cv_messages ?d)"] conjI refl)
qed

text \<open>
  C14. A start that fails after it has taken the message (the request cannot be written or sent, whatever the reason) ends
  the turn without an answer: the conversation is at rest with the user's message as its last one, no next
  message of a user can follow it, and the replay of a log refuses one.
\<close>

theorem failed_start_leaves_turn_open:
  assumes "oi_cli_conversation_create heap_ok cfg u model ctx = Inr c0" "accepting cfg" "steady cfg"
    and "starts_answered fmt strtod c0 is" and "\<not> cv_busy (conversation_run fmt strtod c0 is)"
    and "oi_cli_conversation_start fmt an (conversation_run fmt strtod c0 is) content = (st, c)" "st \<noteq> OI_OK"
    and "length content \<le> history_max_content" and "length (ml_items (cv_messages c)) < item_limit"
  shows "\<not> cv_busy c \<and> (\<exists>ms. ml_items (cv_messages c) = (case ctx of None \<Rightarrow> [] | Some l \<Rightarrow> ml_items l) @ ms
    \<and> turn_run Idle ms = Some Waiting \<and> (\<forall>m. msg_role m = MESSAGE_USER \<longrightarrow>
        turn_run Idle (ms @ [m]) = None \<and> (list_all distinct_ids ms \<longrightarrow> conv_run Idle (ms @ [m]) = None)))"
proof -
  let ?c = "conversation_run fmt strtod c0 is" and ?ms = "drop (size_of c0) (ml_items (cv_messages c))"
  have g: "grows c0 ?c" by (rule grows_run [OF starts_no_checkpoint [OF assms(4)]])
  moreover have g': "grows ?c c" using grows_start [of ?c fmt an content] assms(6) by simp
  ultimately have "grows c0 c" by (rule grows_trans)
  then have i: "ml_items (cv_messages c) = ml_items (cv_messages c0) @ ?ms" by (auto simp: grows_def size_of_def)
  have "size_of ?c < item_limit" using grows_size [OF g'] assms(9) by (simp add: size_of_def)
  with completed [OF assms(1-4)] assms(5) have "idle ?c" "closed_turn (size_of c0) ?c"
    by (auto simp: turn_kept_def waiting_def)
  from failed_start [OF this assms(6,7,8)] assms(9) have f: "\<not> cv_busy c" "turn_run Idle ?ms = Some Waiting"
    by (simp_all add: size_of_def in_phase_def)
  have "turn_run Idle (?ms @ [m]) = None \<and> (list_all distinct_ids ?ms \<longrightarrow> conv_run Idle (?ms @ [m]) = None)"
    if "msg_role m = MESSAGE_USER" for m
    using that f(2) turn_is_conv_run [OF f(2)] by (simp add: turn_run_append conv_run_append)
  with f create_kept [OF assms(1,2)] i show ?thesis by (intro conjI exI [of _ ?ms]) auto
qed

theorem failed_start_leaves_turn_open_witness:
  "\<exists>a c0 st c ms. oi_arena_create heap_ok 1024 = Some a \<and> oi_cli_conversation_create heap_ok plain_config () [0x6D] None = Inr c0
    \<and> oi_cli_conversation_start sample_fmt ((plain_answers a)\<lparr>an_request := OI_ERR_NOMEM\<rparr>) c0 [0x68, 0x69] = (st, c)
    \<and> st = OI_ERR_NOMEM \<and> ml_items (cv_messages c) = ms \<and> turn_run Idle ms = Some Waiting"
proof -
  obtain a where a: "oi_arena_create heap_ok 1024 = Some a" using fresh_arena by blast
  let ?c0 = "plain_state False [] False 0 oi_cli_message_list_init buffer_empty"
  have "\<exists>c. oi_cli_conversation_start sample_fmt ((plain_answers a)\<lparr>an_request := OI_ERR_NOMEM\<rparr>) ?c0 [0x68, 0x69] = (OI_ERR_NOMEM, c)
    \<and> length (ml_items (cv_messages c)) = 1"
    using sample_body by (simp add: conversation_evaluation)
  then obtain c where c: "oi_cli_conversation_start sample_fmt ((plain_answers a)\<lparr>an_request := OI_ERR_NOMEM\<rparr>) ?c0 [0x68, 0x69] = (OI_ERR_NOMEM, c)"
    "length (ml_items (cv_messages c)) = 1" by blast
  have cfg: "accepting plain_config" "steady plain_config" by (simp_all add: accepting_def steady_def)
  have r: "conversation_run sample_fmt sample_strtod ?c0 [] = ?c0" by (simp add: conversation_run_def)
  have "length (ml_items (cv_messages c)) < item_limit" unfolding c(2) by (simp add: size_max_def sizeof_message_def)
  from failed_start_leaves_turn_open [OF plain_created cfg, of sample_fmt sample_strtod "[]", unfolded r, OF _ _ c(1) _ _ this]
  have "turn_run Idle (ml_items (cv_messages c)) = Some Waiting" by (auto simp: history_max_content_def simp del: turn_run.simps)
  with a plain_created c(1) show ?thesis
    by (intro exI [of _ a] exI [of _ ?c0] exI [of _ OI_ERR_NOMEM] exI [of _ c] exI [of _ "ml_items (cv_messages c)"] conjI refl)
qed

end
