(* ===== verification/Conversation_Kept.thy ===== *)
theory Conversation_Kept
  imports Conversation_Turns
begin

text \<open>
  What holds of a conversation through every input: an interface that asks for what emitting an event, committing a message,
  beginning a turn and sending a request do to a predicate, and gives that every operation keeps it.
\<close>

section \<open>Requests of a turn\<close>

text \<open>The requests sent since the last turn began, which resets the arena.\<close>

fun requests_sent :: "conversation_call list \<Rightarrow> nat" where
  "requests_sent [] = 0"
| "requests_sent (x # xs) = (if Arena_reset \<in> set xs then requests_sent xs
     else (case x of Request_started _ \<Rightarrow> Suc (requests_sent xs) | _ \<Rightarrow> requests_sent xs))"

definition plain_call :: "conversation_call \<Rightarrow> bool" where
  "plain_call x \<longleftrightarrow> x \<noteq> Arena_reset \<and> (\<forall>b. x \<noteq> Request_started b)"

lemma requests_snoc:
  "requests_sent (xs @ [x]) = (if x = Arena_reset then 0 else if plain_call x then requests_sent xs else Suc (requests_sent xs))"
  by (induction xs) (auto simp: plain_call_def split: conversation_call.split)

lemma plain_calls [simp]:
  "plain_call (Emitted ev)" "plain_call Request_cancelled" "plain_call (Tool_staged n v)" "plain_call Tool_spawned"
  "plain_call Tool_denied" "plain_call (Tool_timed k)" "plain_call Tool_stdin_closed" "plain_call Tool_cancelled"
  by (simp_all add: plain_call_def)

section \<open>The interface\<close>

definition begun :: "'u oi_cli_conversation \<Rightarrow> 'u oi_cli_conversation" where
  "begun c = (traced Arena_reset c)\<lparr>cv_model_steps := 0\<rparr>"

locale conversation_invariant =
  fixes P :: "'u oi_cli_conversation \<Rightarrow> bool" and good :: "heap \<Rightarrow> bool"
  assumes memory: "(\<forall>h. good h) \<or> good = (\<lambda>h. h = heap_ok)"
    and P_good: "P c \<Longrightarrow> good (cv_heap c)"
    and P_heap: "P c \<Longrightarrow> good h \<Longrightarrow> P (c\<lparr>cv_heap := h\<rparr>)"
    and P_same: "P c \<Longrightarrow> cv_config c' = cv_config c \<Longrightarrow> cv_user c' = cv_user c \<Longrightarrow> cv_messages c' = cv_messages c \<Longrightarrow>
      cv_heap c' = cv_heap c \<Longrightarrow> cv_model_steps c' = cv_model_steps c \<Longrightarrow>
      requests_sent (cv_trace c') = requests_sent (cv_trace c) \<Longrightarrow> P c'"
    and P_event: "P c \<Longrightarrow> (\<And>e. ev \<noteq> EVENT_MESSAGE e) \<Longrightarrow> emit_open c ev = (st, b, c') \<Longrightarrow> P c'"
    and P_commit: "P c \<Longrightarrow> rep \<longrightarrow> msg_tool_calls m = [] \<Longrightarrow> commit_message c m oc raw rep = (st, c') \<Longrightarrow> P c'"
    and P_permission: "P c \<Longrightarrow> cc_permission (cv_config c) = Some f \<Longrightarrow> f n v (cv_user c) = (d, u) \<Longrightarrow> P (c\<lparr>cv_user := u\<rparr>)"
    and P_begun: "P c \<Longrightarrow> P (begun c)"
    and P_request: "P c \<Longrightarrow> start_model_request fmt an c = (st, c') \<Longrightarrow> P c'"
begin

lemma good_after: "good h \<Longrightarrow> snd (f heap_ok) = heap_ok \<Longrightarrow> good (snd (f h))"
  using memory by auto

lemma P_update [simp]:
  "P (c\<lparr>cv_request := b\<rparr>) = P c" "P (c\<lparr>cv_tool := b\<rparr>) = P c" "P (c\<lparr>cv_busy := b\<rparr>) = P c" "P (c\<lparr>cv_cancelled := b\<rparr>) = P c"
  "P (c\<lparr>cv_last_status := st\<rparr>) = P c" "P (c\<lparr>cv_http_status := k\<rparr>) = P c" "P (c\<lparr>cv_assistant := a\<rparr>) = P c"
  "P (c\<lparr>cv_streamed_calls := ts\<rparr>) = P c" "P (c\<lparr>cv_assistant_message_index := k\<rparr>) = P c" "P (c\<lparr>cv_tool_index := k\<rparr>) = P c"
  "P (c\<lparr>cv_tool_output := a\<rparr>) = P c" "P (c\<lparr>cv_assistant_committed := b\<rparr>) = P c" "P (c\<lparr>cv_steering := b\<rparr>) = P c"
  "P (c\<lparr>cv_pending_permission_tool := b\<rparr>) = P c" "P (c\<lparr>cv_cancelling := b\<rparr>) = P c" "P (c\<lparr>cv_model := m\<rparr>) = P c"
  "P (clear_streamed_response c) = P c"
  by (auto simp: clear_streamed_response_def elim!: P_same)

lemma P_update_heap [simp]:
  "P (c\<lparr>cv_tool_output := a, cv_heap := h\<rparr>) = P (c\<lparr>cv_heap := h\<rparr>)" "P (c\<lparr>cv_assistant := a, cv_heap := h\<rparr>) = P (c\<lparr>cv_heap := h\<rparr>)"
  "P (c\<lparr>cv_model := m, cv_heap := h\<rparr>) = P (c\<lparr>cv_heap := h\<rparr>)" "P (c\<lparr>cv_streamed_calls := ts, cv_heap := h\<rparr>) = P (c\<lparr>cv_heap := h\<rparr>)"
  by (auto elim!: P_same)

lemma P_traced [simp]: "plain_call x \<Longrightarrow> P (traced x c) = P c"
  by (cases "x = Arena_reset") (auto simp: plain_call_def traced_def requests_snoc elim!: P_same)

lemma keeps_emit: "P c \<Longrightarrow> (\<And>e. ev \<noteq> EVENT_MESSAGE e) \<Longrightarrow> emit c ev = (st, c') \<Longrightarrow> P c'"
  by (auto simp: emit_def split: prod.splits intro: P_event)

lemma keeps_finish: "P c \<Longrightarrow> P (finish_turn c st)"
  using keeps_emit [of "c\<lparr>cv_busy := False, cv_cancelling := False, cv_last_status := st\<rparr>" "EVENT_TURN_DONE st (cv_http_status c)"]
  by (simp add: finish_turn_def surj_pair [THEN exE] prod_eq_iff)

lemma keeps_commit_set:
  assumes "P c" "good (snd r)" "commit_set c r oc raw rep = (st, c')" "\<And>m h. rep \<Longrightarrow> r = (Inr m, h) \<Longrightarrow> msg_tool_calls m = []"
  shows "P c'"
proof -
  obtain x h where r: "r = (x, h)" by fastforce
  have "P (c\<lparr>cv_heap := h\<rparr>)" using assms(1,2) r by (simp add: P_heap)
  with assms(3,4) r P_commit show ?thesis by (fastforce simp: commit_set_def split: sum.splits)
qed

lemma keeps_texts:
  "P c \<Longrightarrow> commit_tool_text c call t oc raw rep = (st, c') \<Longrightarrow> P c'"
  "P c \<Longrightarrow> commit_assistant_text c t = (st, c') \<Longrightarrow> P c'"
proof -
  assume P: "P c"
  have g: "good (snd (oi_cli_message_set_tool (cv_heap c) (tc_id call) t))" "good (snd (oi_cli_message_set_assistant (cv_heap c) t))"
    using good_after [OF P_good [OF P], of "\<lambda>h. oi_cli_message_set_tool h (tc_id call) t"]
      good_after [OF P_good [OF P], of "\<lambda>h. oi_cli_message_set_assistant h t"] by (simp_all add: lasts)
  show "commit_tool_text c call t oc raw rep = (st, c') \<Longrightarrow> P c'" unfolding commit_tool_text_def
    by (erule keeps_commit_set [OF P g(1)]) (auto dest: set_tool_result)
  show "commit_assistant_text c t = (st, c') \<Longrightarrow> P c'" unfolding commit_assistant_text_def
    by (erule keeps_commit_set [OF P g(2)]) (auto dest: set_assistant_result)
qed

lemma keeps_repair_calls: "P c \<Longrightarrow> repair_calls b st c calls = (st', c') \<Longrightarrow> P c'"
  by (induction calls arbitrary: b st c) (auto split: prod.splits if_splits dest: keeps_texts(1))

lemma keeps_skip_calls: "P c \<Longrightarrow> skip_calls st c calls = (st', c') \<Longrightarrow> P c'"
  by (induction calls arbitrary: st c) (auto split: prod.splits dest: keeps_texts(1))

lemma keeps_dangling:
  "P c \<Longrightarrow> repair_dangling_tool_calls c b = (st, c') \<Longrightarrow> P c'" "P c \<Longrightarrow> skip_steered_tool_calls c = (st, c') \<Longrightarrow> P c'"
  by (auto simp: repair_dangling_tool_calls_def skip_steered_tool_calls_def split: prod.splits
      dest: keeps_repair_calls keeps_skip_calls)

lemma keeps_close_out: "P c \<Longrightarrow> close_out_incomplete_turn c b = (st, c') \<Longrightarrow> P c'"
  by (auto simp: close_out_incomplete_turn_def repair_interrupted_turn_def split: prod.splits if_splits
      dest: keeps_dangling(1) keeps_texts(2))

lemma keeps_with_repair: "P c \<Longrightarrow> P (finish_turn_with_repair c st b)"
  by (auto simp: finish_turn_with_repair_def split: prod.split dest: keeps_close_out keeps_finish)

lemma keeps_cancel_steps: "P c \<Longrightarrow> P (cancel_request c)" "P (cancel_pending c) = P c" "P (cancel_tool c) = P c"
  using keeps_emit [of "c\<lparr>cv_request := False\<rparr>" "EVENT_PARTIAL_ASSISTANT (cb_data (cv_assistant c))"]
  by (auto simp: cancel_request_def cancel_pending_def cancel_tool_def prod_eq_iff)

lemma keeps_cancel: "P c \<Longrightarrow> P (oi_cli_conversation_cancel c)"
  using keeps_cancel_steps(1) [of "c\<lparr>cv_cancelling := True\<rparr>"]
  by (auto simp: oi_cli_conversation_cancel_def Let_def keeps_cancel_steps split: prod.split dest!: keeps_close_out [rotated]
      intro!: keeps_finish)

lemma keeps_reentrant: "P c \<Longrightarrow> (\<And>e. ev \<noteq> EVENT_MESSAGE e) \<Longrightarrow> emit_reentrant c ev = (st, c') \<Longrightarrow> P c'"
  by (auto simp: emit_reentrant_def split: prod.splits if_splits dest: P_event keeps_cancel)

lemma keeps_abort: "P c \<Longrightarrow> P (abort_tool c st)" "P c \<Longrightarrow> P (abort_request c st)"
  by (auto simp: abort_tool_def abort_request_def detach_request_def keeps_cancel_steps intro: keeps_with_repair)

lemma good_heaps:
  assumes "P c"
  shows "good (snd (buffer_append (cv_heap c) b d k))" "good (snd (parse_arguments strtod (cv_heap c) a t))"
    "good (snd (find_or_add_streamed_call (cv_heap c) ts i))" "good (snd (tool_result_text (cv_heap c) raw kind code))"
    "good (snd (build_assistant_message c))" "good (snd (oi_cli_message_set_user (cv_heap c) t'))"
    "good (snd (oi_cli_string_set (cv_heap c) t''))"
proof -
  note g = good_after [OF P_good [OF assms]]
  show "good (snd (buffer_append (cv_heap c) b d k))" by (rule g) (rule lasts)
  show "good (snd (parse_arguments strtod (cv_heap c) a t))" by (rule g [of "\<lambda>h. parse_arguments strtod h a t"]) (rule lasts)
  show "good (snd (find_or_add_streamed_call (cv_heap c) ts i))" by (rule g [of "\<lambda>h. find_or_add_streamed_call h ts i"]) (rule lasts)
  show "good (snd (tool_result_text (cv_heap c) raw kind code))" by (rule g [of "\<lambda>h. tool_result_text h raw kind code"]) (rule lasts)
  show "good (snd (build_assistant_message c))" using memory P_good [OF assms] assistant_lasts [of c] by auto
  show "good (snd (oi_cli_message_set_user (cv_heap c) t'))" by (rule g [of "\<lambda>h. oi_cli_message_set_user h t'"]) (simp add: lasts)
  show "good (snd (oi_cli_string_set (cv_heap c) t''))" by (rule g [of "\<lambda>h. oi_cli_string_set h t''"]) (simp add: lasts oi_cli_string_set_def)
qed

lemma keeps_heap_update:
  "P c \<Longrightarrow> buffer_append (cv_heap c) b d k = (x, h) \<Longrightarrow> P (c\<lparr>cv_heap := h\<rparr>)"
  "P c \<Longrightarrow> parse_arguments strtod (cv_heap c) a t = (y, h) \<Longrightarrow> P (c\<lparr>cv_heap := h\<rparr>)"
  "P c \<Longrightarrow> find_or_add_streamed_call (cv_heap c) ts i = (z, h) \<Longrightarrow> P (c\<lparr>cv_heap := h\<rparr>)"
  "P c \<Longrightarrow> tool_result_text (cv_heap c) raw kind code = (w, h) \<Longrightarrow> P (c\<lparr>cv_heap := h\<rparr>)"
  using good_heaps by (metis P_heap snd_conv)+

lemma keeps_appended:
  "P c \<Longrightarrow> appended b (buffer_append (cv_heap c) b d k) = (st, b', h) \<Longrightarrow> P (c\<lparr>cv_heap := h\<rparr>)"
  by (auto simp: appended_def split: prod.splits sum.splits dest: keeps_heap_update(1))

lemma keeps_tool_output: "P c \<Longrightarrow> P (on_tool_output c data)"
proof -
  assume P: "P c"
  obtain st b h where a: "appended (cv_tool_output c) (buffer_append (cv_heap c) (cv_tool_output c) data history_max_content) = (st, b, h)"
    by (metis prod_cases3)
  note p = keeps_appended [OF P a]
  obtain st' c1 where e: "(if st = OI_OK then emit_reentrant (c\<lparr>cv_tool_output := b, cv_heap := h\<rparr>) (EVENT_TOOL_OUTPUT data)
      else (st, c\<lparr>cv_heap := h\<rparr>)) = (st', c1)" by fastforce
  have "P (c\<lparr>cv_tool_output := b, cv_heap := h\<rparr>)" using p by simp
  with e p have "P c1" by (auto split: if_splits dest: keeps_reentrant [rotated 2])
  with a e show ?thesis by (simp add: on_tool_output_def keeps_abort)
qed

lemma keeps_arm: "P c \<Longrightarrow> arm_tool an c = (st, c') \<Longrightarrow> P c'"
  by (auto simp: arm_tool_def split: if_splits)

lemma keeps_resolve: "P c \<Longrightarrow> P (resolve_permission_body an c call allow)"
proof (cases allow)
  case False
  assume "P c"
  obtain st c1 where c1: "commit_tool_text (traced Tool_denied c) call denied_tool_not_executed_text CONVERSATION_TOOL_DENIED None False
      = (st, c1)" by fastforce
  then have "P c1" using \<open>P c\<close> keeps_texts(1) [OF _ c1] by simp
  with False c1 show ?thesis by (simp add: resolve_permission_body_def keeps_with_repair)
next
  case True
  assume "P c"
  obtain st c1 where c1: "emit_reentrant c (EVENT_TOOL_STARTING call) = (st, c1)" by fastforce
  then have "P c1" using \<open>P c\<close> by (auto dest: keeps_reentrant [rotated 2])
  moreover obtain st2 c2 where c2: "arm_tool an (traced Tool_spawned (c1\<lparr>cv_tool := True\<rparr>)) = (st2, c2)" by fastforce
  moreover have "P c2" using keeps_arm [OF _ c2] \<open>P c1\<close> by simp
  ultimately show ?thesis using True c1 by (simp add: resolve_permission_body_def keeps_with_repair keeps_abort)
qed

lemma keeps_request_call: "P c \<Longrightarrow> P (request_tool_call an c call arguments)"
proof -
  assume P: "P c"
  obtain d u where p: "(case cc_permission (cv_config c) of None \<Rightarrow> (OI_TOOL_ALLOW, cv_user c)
      | Some f \<Rightarrow> f (c_string (tc_name call)) arguments (cv_user c)) = (d, u)" by fastforce
  have u: "P (c\<lparr>cv_user := u\<rparr>)"
    using p P P_permission [OF P] by (auto split: option.splits)
  obtain st c1 where c1: "emit_reentrant (c\<lparr>cv_user := u, cv_pending_permission_tool := True\<rparr>) (EVENT_AWAITING_PERMISSION call) = (st, c1)"
    by fastforce
  have "P c1" using keeps_reentrant [OF _ _ c1] u by simp
  with p c1 u show ?thesis by (simp add: request_tool_call_def Let_def keeps_resolve keeps_with_repair)
qed

lemma keeps_next: "P c \<Longrightarrow> P (start_next_tool fmt strtod an c)"
proof -
  assume P: "P c"
  let ?call = "assistant_calls c ! cv_tool_index c"
  obtain st c1 where c1: "skip_steered_tool_calls c = (st, c1)" by fastforce
  obtain st' c2 where c2: "(if st = OI_OK then close_out_steered_turn c1 else (st, c1)) = (st', c2)" by fastforce
  obtain st3 c3 where c3: "start_model_request fmt an c = (st3, c3)" by fastforce
  obtain x h where p: "parse_arguments strtod (cv_heap c) (an_arena an) (tc_arguments ?call) = (x, h)" by fastforce
  have "P c1" by (rule keeps_dangling(2) [OF P c1])
  then have "P c2" using c2 by (auto simp: close_out_steered_turn_def split: if_splits dest: keeps_texts(2))
  moreover have "P c3" by (rule P_request [OF P c3])
  moreover have "P (c\<lparr>cv_heap := h\<rparr>)" by (rule keeps_heap_update(2) [OF P p])
  ultimately show ?thesis using P c1 c2 c3 p
    by (cases x) (simp_all add: start_next_tool_def Let_def keeps_finish keeps_with_repair keeps_request_call)
qed

lemma keeps_tool_done: "P c \<Longrightarrow> P (on_tool_done fmt strtod an c kind code)"
proof -
  assume P: "P c"
  let ?c = "c\<lparr>cv_tool := False\<rparr>"
  define oc where "oc = (if kind = OI_TOOL_EXIT_NORMAL \<and> code = 0 then CONVERSATION_TOOL_COMPLETED else CONVERSATION_TOOL_FAILED)"
  obtain x h where x: "tool_result_text (cv_heap ?c) (cb_data (cv_tool_output ?c)) kind code = (x, h)" by fastforce
  have h: "P (?c\<lparr>cv_heap := h\<rparr>)" by (rule keeps_heap_update(4) [OF _ x]) (simp add: P)
  obtain st c1 where c1: "(case (x, h) of
      (Inl st, h) \<Rightarrow> (st, ?c\<lparr>cv_heap := h\<rparr>)
    | (Inr t, h) \<Rightarrow> commit_tool_text (?c\<lparr>cv_heap := h\<rparr>) (assistant_calls ?c ! cv_tool_index ?c) (cb_data t) oc (Some (cb_data (cv_tool_output ?c))) False)
    = (st, c1)" by fastforce
  then have "P c1" using h by (auto split: sum.splits dest: keeps_texts(1))
  with x c1 show ?thesis unfolding on_tool_done_def Let_def oc_def [symmetric]
    by (simp add: keeps_with_repair keeps_next)
qed

lemma fragments_heap:
  "append_call_fragments (cv_heap c) t i n a = (st, t', h) \<Longrightarrow> P c \<Longrightarrow> P (c\<lparr>cv_heap := h\<rparr>)"
  using memory P_good [of c] fragments_lasts [of t i n a st t' h] by (auto intro: P_heap)

lemma keeps_llm_event: "P c \<Longrightarrow> P (on_llm_event c event)"
proof -
  assume P: "P c"
  show ?thesis
  proof (cases event)
    case (OI_LLM_EVENT_TEXT data)
    obtain st b h where a: "appended (cv_assistant c) (buffer_append (cv_heap c) (cv_assistant c) data history_max_content) = (st, b, h)"
      by (metis prod_cases3)
    note p = keeps_appended [OF P a]
    obtain st' c1 where e: "emit_reentrant (c\<lparr>cv_assistant := b, cv_heap := h\<rparr>) (EVENT_ASSISTANT_DELTA data) = (st', c1)" by fastforce
    have "P (c\<lparr>cv_assistant := b, cv_heap := h\<rparr>)" using p by simp
    then have "P c1" using keeps_reentrant [OF _ _ e] by simp
    with OI_LLM_EVENT_TEXT a e p show ?thesis by (simp add: on_llm_event_def keeps_abort)
  next
    case (OI_LLM_EVENT_TOOL_CALL index i n a)
    obtain x h where x: "find_or_add_streamed_call (cv_heap c) (cv_streamed_calls c) index = (x, h)" by fastforce
    note p = keeps_heap_update(3) [OF P x]
    show ?thesis
    proof (cases x)
      case (Some r)
      obtain ts k where r: "r = (ts, k)" by fastforce
      obtain st t h' where f: "append_call_fragments h (ts ! k) (string_bytes i) (string_bytes n) (string_bytes a) = (st, t, h')"
        by (metis prod_cases3)
      have "P (c\<lparr>cv_heap := h, cv_heap := h'\<rparr>)" using fragments_heap [OF _ p] f by simp
      then have "P (c\<lparr>cv_streamed_calls := ts[k := t], cv_heap := h'\<rparr>)" by simp
      with OI_LLM_EVENT_TOOL_CALL x Some r f show ?thesis by (simp add: on_llm_event_def keeps_abort)
    qed (use OI_LLM_EVENT_TOOL_CALL x p in \<open>simp add: on_llm_event_def keeps_abort\<close>)
  qed
qed

lemma keeps_report: "P c \<Longrightarrow> report_failure c st b = (st', c') \<Longrightarrow> P c'"
  by (auto simp: report_failure_def Let_def split: option.splits prod.splits if_splits dest: keeps_emit [rotated 2])

lemma keeps_llm_done: "P c \<Longrightarrow> P (on_llm_done fmt strtod an c status http_status failure_body)"
proof -
  assume P: "P c"
  let ?c = "c\<lparr>cv_request := False, cv_http_status := http_status\<rparr>"
  obtain st0 c0 where c0: "report_failure ?c status failure_body = (st0, c0)" by fastforce
  have 0: "P c0" by (rule keeps_report [OF _ c0]) (simp add: P)
  let ?s = "?c\<lparr>cv_streamed_calls := sort_key st_index (cv_streamed_calls ?c)\<rparr>"
  obtain st c1 where c1: "commit_set ?s (build_assistant_message ?c) CONVERSATION_TOOL_NONE None False = (st, c1)" by fastforce
  have 1: "P c1" by (rule keeps_commit_set [OF _ _ c1]) (use P good_heaps(5) [of ?c] in simp_all)
  let ?d = "clear_streamed_response (c1\<lparr>cv_assistant_message_index := length (ml_items (cv_messages c1)) - 1,
                   cv_assistant_committed := True, cv_tool_index := 0\<rparr>)"
  obtain st' c2 where c2: "emit ?d EVENT_RESPONSE_DONE = (st', c2)" by fastforce
  have 2: "P c2" by (rule keeps_emit [OF _ _ c2]) (simp_all add: 1)
  show ?thesis
    using 0 1 2 c0 c1 c2 by (simp add: on_llm_done_def Let_def keeps_with_repair keeps_finish keeps_next)
qed

lemma keeps_start: "P c \<Longrightarrow> P (snd (oi_cli_conversation_start fmt an c content))"
proof -
  assume P: "P c"
  let ?c = "clear_streamed_response (traced Arena_reset c)\<lparr>cv_tool_output := buffer_empty, cv_last_status := OI_OK,
              cv_http_status := 0, cv_model_steps := 0, cv_cancelled := False, cv_cancelling := False,
              cv_steering := False, cv_busy := True\<rparr>"
  have "?c = clear_streamed_response (begun c)\<lparr>cv_tool_output := buffer_empty, cv_last_status := OI_OK,
              cv_http_status := 0, cv_cancelled := False, cv_cancelling := False, cv_steering := False, cv_busy := True\<rparr>"
    by (simp add: begun_def clear_streamed_response_def)
  then have b: "P ?c" using P_begun [OF P] by simp
  obtain st c1 where c1: "commit_set ?c (oi_cli_message_set_user (cv_heap ?c) content) CONVERSATION_TOOL_NONE None False = (st, c1)" by fastforce
  have 1: "P c1" by (rule keeps_commit_set [OF b good_heaps(6) [OF b] c1]) simp
  obtain st' c2 where c2: "(if st = OI_OK then start_model_request fmt an c1 else (st, c1)) = (st', c2)" by fastforce
  then have "P c2" using 1 by (auto split: if_splits dest: P_request)
  with P c1 c2 show ?thesis by (simp add: oi_cli_conversation_start_def Let_def keeps_finish)
qed

lemma keeps_set_model: "P c \<Longrightarrow> P (snd (oi_cli_conversation_set_model c m k))"
proof -
  assume P: "P c"
  obtain x h where x: "oi_cli_string_set (cv_heap c) (take k m) = (x, h)" by fastforce
  have "P (c\<lparr>cv_heap := h\<rparr>)" using P_heap [OF P good_heaps(7) [OF P, of "take k m"]] x by simp
  then show ?thesis using P x
    by (cases x) (auto simp: oi_cli_conversation_set_model_def)
qed

lemma keeps_step: "no_checkpoint (i, an) \<Longrightarrow> P c \<Longrightarrow> P (conversation_step fmt strtod c (i, an))"
  by (cases i) (simp_all add: no_checkpoint_def keeps_start keeps_cancel keeps_set_model keeps_llm_event keeps_llm_done
      keeps_tool_output keeps_tool_done oi_cli_conversation_steer_def oi_cli_conversation_resolve_permission_def Let_def keeps_resolve)

lemma keeps_run: "list_all no_checkpoint is \<Longrightarrow> P c \<Longrightarrow> P (conversation_run fmt strtod c is)"
  unfolding conversation_run_def
proof (induction "is" arbitrary: c)
  case (Cons x xs)
  obtain i an where x: "x = (i, an)" by fastforce
  from Cons keeps_step [of i an c fmt strtod] show ?case unfolding x by simp
qed simp

end

section \<open>The requests of a turn\<close>

definition counted :: "'u oi_cli_conversation \<Rightarrow> bool" where
  "counted c \<longleftrightarrow> int (requests_sent (cv_trace c)) = cv_model_steps c
     \<and> cv_model_steps c \<le> cc_max_model_steps (cv_config c) \<and> 0 \<le> cc_max_model_steps (cv_config c)"

lemma counted_traced: "plain_call x \<Longrightarrow> counted (traced x c) = counted c"
  by (cases "x = Arena_reset") (auto simp: counted_def traced_def requests_snoc plain_call_def)

interpretation counted_turn: conversation_invariant counted "\<lambda>_. True"
proof unfold_locales
  fix c c' :: "'a oi_cli_conversation" and ev st b m oc raw rep
  show "counted c \<Longrightarrow> emit_open c ev = (st, b, c') \<Longrightarrow> counted c'" if "\<And>e. ev \<noteq> EVENT_MESSAGE e"
    by (auto simp: emit_open_def counted_def traced_def requests_snoc plain_call_def split: option.splits prod.splits)
  show "counted c \<Longrightarrow> commit_message c m oc raw rep = (st, c') \<Longrightarrow> counted c'"
    by (auto simp: commit_message_def emit_message_def emit_def emit_open_def counted_def traced_def requests_snoc plain_call_def
        split: option.splits prod.splits sum.splits if_splits)
next
  fix c c' :: "'a oi_cli_conversation" and fmt an st
  show "counted c \<Longrightarrow> start_model_request fmt an c = (st, c') \<Longrightarrow> counted c'"
    by (auto simp: start_model_request_def Let_def counted_def traced_def requests_snoc plain_call_def
        split: prod.splits sum.splits if_splits)
qed (auto simp: counted_def begun_def traced_def requests_snoc)

lemma create_counted: "oi_cli_conversation_create h cfg u model ctx = Inr c \<Longrightarrow> counted c \<and> cv_config c = cfg"
  by (auto simp: oi_cli_conversation_create_def counted_def split: if_splits prod.splits sum.splits)

text \<open>
  C13. A turn ends after a bounded number of requests: whatever the model answers, however the tools end and however
  memory fails, no turn of a conversation sends more requests than its configuration allows. As everywhere in the model a
  callback cancels in the events of a delta, tool output, permission and tool start; no checkpoint is applied from outside.
\<close>

theorem turn_requests_bounded:
  assumes "oi_cli_conversation_create h cfg u model ctx = Inr c0" and "list_all no_checkpoint is"
  shows "int (requests_sent (cv_trace (conversation_run fmt strtod c0 is))) \<le> cc_max_model_steps cfg"
proof -
  let ?c = "conversation_run fmt strtod c0 is"
  have "counted ?c" using counted_turn.keeps_run [OF assms(2)] create_counted [OF assms(1)] by blast
  moreover have "cv_config ?c = cfg"
    using grows_run [OF assms(2), of c0 fmt strtod] create_counted [OF assms(1)] by (simp add: grows_def)
  ultimately show ?thesis by (simp add: counted_def)
qed

theorem turn_requests_bounded_witness:
  "\<exists>a c0 c. oi_arena_create heap_ok 1024 = Some a \<and> oi_cli_conversation_create heap_ok plain_config () [0x6D] None = Inr c0
    \<and> c = conversation_run sample_fmt sample_strtod c0 (plain_inputs a) \<and> int (requests_sent (cv_trace c)) \<le> 4"
proof -
  obtain a where a: "oi_arena_create heap_ok 1024 = Some a" using fresh_arena by blast
  have "list_all no_checkpoint (plain_inputs a)" by (simp add: no_checkpoint_def)
  from turn_requests_bounded [OF plain_created this, of sample_fmt sample_strtod] a plain_created show ?thesis by fastforce
qed

end
