(* ===== verification/History_Order.thy ===== *)
theory History_Order
  imports History_Store
begin

text \<open>
  The ids of a context: ascending but for the summary in front, and all taken. It decides which checkpoints a replay accepts.
\<close>

section \<open>The ids of a context\<close>

definition item_ids :: "context_item list \<Rightarrow> nat list" where
  "item_ids xs = map (\<lambda>x. unat (ci_record_id x)) xs"

definition ids_ok :: "nat \<Rightarrow> nat list \<Rightarrow> bool" where
  "ids_ok n xs \<longleftrightarrow> sorted_wrt (<) (tl xs) \<and> distinct xs \<and> (\<forall>i \<in> set xs. i \<le> n)"

lemma ids_ok_mono: "ids_ok n xs \<Longrightarrow> n \<le> m \<Longrightarrow> ids_ok m xs"
  by (fastforce simp: ids_ok_def)

lemma ids_ok_snoc: "ids_ok n xs \<Longrightarrow> ids_ok (Suc n) (xs @ [Suc n])"
  by (cases xs) (fastforce simp: ids_ok_def sorted_wrt_append)+

lemma ids_ok_summary:
  assumes "ids_ok n xs" "0 < k"
  shows "ids_ok (Suc n) (Suc n # drop k xs)"
proof -
  have "drop k xs = drop (k - 1) (tl xs)" using assms(2) by (cases xs; cases k) auto
  moreover have "sorted_wrt (<) (drop (k - 1) (tl xs))" using assms(1) sorted_wrt_drop by (simp add: ids_ok_def)
  ultimately have "sorted_wrt (<) (drop k xs)" by simp
  moreover have "i \<le> n" if "i \<in> set (drop k xs)" for i using assms(1) in_set_dropD [OF that] by (simp add: ids_ok_def)
  ultimately show ?thesis using assms(1) by (fastforce simp: ids_ok_def)
qed

section \<open>They are in order\<close>

lemma checkpoint_exact:
  assumes "apply_checkpoint h b r content model lo hi = (Inr b', h')"
  shows "\<exists>n. covered lo hi (context_items (rb_state b)) = Some n \<and> 0 < n
    \<and> context_items (rb_state b')
        = \<lparr>ci_record_id = record_id r, ci_message = summary_message content\<rparr> # drop n (context_items (rb_state b))"
  using assms by (auto simp: apply_checkpoint_def Let_def summary_message_def dest!: set_assistant_result
      split: if_split_asm option.splits)

lemma checkpoint_record:
  assumes "apply_typed_record strtod h b r = (Inr b', h')" "body r = RECORD_CHECKPOINT s m lo hi"
  shows "\<exists>n. covered lo hi (context_items (rb_state b)) = Some n \<and> 0 < n
    \<and> context_items (rb_state b')
        = \<lparr>ci_record_id = record_id r, ci_message = summary_message (string_bytes s)\<rparr> # drop n (context_items (rb_state b))"
  using assms by (auto simp: apply_typed_record_def split: if_split_asm dest!: checkpoint_exact)

lemma record_ids:
  assumes ok: "builder_ok b" and v: "oi_cli_history_record_is_valid r" and a: "apply_typed_record strtod h b r = (Inr b', h')"
    and i: "ids_ok n (item_ids (context_items (rb_state b)))" "unat (record_id r) = Suc n"
  shows "ids_ok (Suc n) (item_ids (context_items (rb_state b')))"
proof (cases "is_checkpoint (body r)")
  case True
  then obtain s m lo hi where "body r = RECORD_CHECKPOINT s m lo hi" by (auto simp: is_checkpoint_def split: record_body.splits)
  from checkpoint_record [OF a this] ids_ok_summary [OF i(1)] i(2) show ?thesis
    by (auto simp: item_ids_def drop_map)
next
  case False
  with record_step [OF ok v a] ids_ok_snoc [OF i(1)] ids_ok_mono [OF i(1), of "Suc n"] i(2) show ?thesis
    by (auto simp: is_checkpoint_def adds_message_def adds_nothing_def item_ids_def split: record_body.splits)
qed

lemma record_keeps_ok:
  assumes "builder_ok b" "oi_cli_history_record_is_valid r" "apply_typed_record strtod h b r = (Inr b', h')"
  shows "builder_ok b'"
  using record_step [OF assms] by (auto simp: adds_message_def adds_nothing_def replaces_prefix_def split: record_body.splits)

lemma unat_next: "(r :: uint64) = p + 1 \<Longrightarrow> r \<noteq> 0 \<Longrightarrow> unat r = Suc (unat p)"
  by (simp add: unatSuc add.commute)

lemma records_ids:
  "replay_records strtod h b prev rs = (Inr b', h') \<Longrightarrow> builder_ok b \<Longrightarrow>
     ids_ok (unat (record_id prev)) (item_ids (context_items (rb_state b))) \<Longrightarrow>
     ids_ok (unat (record_id (last (prev # rs)))) (item_ids (context_items (rb_state b')))"
proof (induction rs arbitrary: h b prev)
  case (Cons r rs)
  from Cons.prems(1) obtain b1 h1 where v: "oi_cli_history_record_is_valid r" "record_id r = record_id prev + 1"
    and a: "apply_typed_record strtod h b r = (Inr b1, h1)" and l: "replay_records strtod h1 b1 r rs = (Inr b', h')"
    by (auto split: if_split_asm)
  have u: "unat (record_id r) = Suc (unat (record_id prev))"
    by (rule unat_next [OF v(2)]) (use v(1) in \<open>simp add: oi_cli_history_record_is_valid_def\<close>)
  from Cons.IH [OF l record_keeps_ok [OF Cons.prems(2) v(1) a]] record_ids [OF Cons.prems(2) v(1) a Cons.prems(3) u] u
  show ?case by simp
qed simp

lemma legacy_ids:
  "legacy_loop h b i ms = (Inr b', h') \<Longrightarrow> i + length ms < 2 ^ 64 \<Longrightarrow> ids_ok i (item_ids (context_items (rb_state b))) \<Longrightarrow>
     ids_ok (i + length ms) (item_ids (context_items (rb_state b')))"
proof (induction ms arbitrary: h b i)
  case (Cons m ms)
  from Cons.prems(1) obtain b1 h1 where a: "builder_append h b (word_of_nat i + 1) m = (Inr b1, h1)"
    and l: "legacy_loop h1 b1 (i + 1) ms = (Inr b', h')" by (auto split: if_split_asm)
  have u: "unat (word_of_nat i + 1 :: uint64) = Suc i"
  proof -
    have "(word_of_nat i + 1 :: uint64) = word_of_nat (Suc i)" by simp
    then show ?thesis using Cons.prems(2) by (simp only: unat_of_nat) simp
  qed
  obtain cap where "b1 = b\<lparr>rb_state := (rb_state b)\<lparr>context_cap := cap,
       context_items := context_items (rb_state b) @ [\<lparr>ci_record_id = word_of_nat i + 1, ci_message = m\<rparr>]\<rparr>\<rparr>"
    using builder_append_result [OF a] by blast
  then have "item_ids (context_items (rb_state b1)) = item_ids (context_items (rb_state b)) @ [Suc i]"
    using u by (simp add: item_ids_def)
  with Cons.IH [OF l] Cons.prems(2) ids_ok_snoc [OF Cons.prems(3)] show ?case by simp
qed simp

text \<open>Every replay that succeeds leaves the ids in order, and the next id is above them.\<close>

definition state_ids_ok :: "replay_state \<Rightarrow> bool" where
  "state_ids_ok s \<longleftrightarrow> (\<exists>n. ids_ok n (item_ids (context_items s)) \<and> unat (next_record_id s) = Suc n)"

lemma replay_ids:
  assumes "oi_cli_history_replay strtod h legacy typed = (Inr s, h')"
  shows "state_ids_ok s"
proof -
  obtain b1 b h1 h2 where l: "apply_legacy h new_builder legacy = (Inr b1, h1)"
    and t: "replay_typed strtod h1 b1 (word_of_nat (length legacy)) typed = (Inr b, h2)"
    and s: "s = published b (last_id legacy typed)" "last_id legacy typed \<noteq> uint64_max"
    using assms by (rule replay_builder)
  obtain b0 where b0: "legacy_loop h new_builder 0 legacy = (Inr b0, h1)" "context_items (rb_state b1) = context_items (rb_state b0)"
    using l by (auto simp: apply_legacy_def Let_def)
  have n: "length legacy < 2 ^ 64"
    using legacy_loop_result [OF b0(1)] by (auto simp: new_builder_def oi_cli_history_replay_state_init_def size_max_def sizeof_context_item_def)
  have i1: "ids_ok (length legacy) (item_ids (context_items (rb_state b1)))"
    using legacy_ids [OF b0(1)] n b0(2) by (simp add: new_builder_def oi_cli_history_replay_state_init_def ids_ok_def item_ids_def)
  have "ids_ok (unat (last_id legacy typed)) (item_ids (context_items (rb_state b)))"
  proof (cases typed)
    case Nil
    with t i1 n show ?thesis by (simp add: replay_typed_def last_id_def unat_of_nat)
  next
    case (Cons r rs)
    let ?b = "b1\<lparr>rb_state := (rb_state b1)\<lparr>needs_transition := False\<rparr>\<rparr>"
    from t Cons have r: "replay_records strtod h1 ?b r rs = (Inr b, h2)" "is_transition_to (word_of_nat (length legacy)) r"
      by (auto simp: replay_typed_def split: if_split_asm)
    have "builder_ok b1" using rebuilt_legacy [OF l] by (simp add: rebuilt_def)
    then have ok: "builder_ok ?b" by (cases "phase b1") (auto simp: builder_ok_def)
    have "unat (record_id r) = Suc (length legacy)"
      using unat_next [of "record_id r" "word_of_nat (length legacy)"] r(2) n
      by (auto simp: is_transition_to_def oi_cli_history_record_is_valid_def body_is_valid_def unat_of_nat)
    with ids_ok_mono [OF i1, of "unat (record_id r)"] records_ids [OF r(1) ok] Cons show ?thesis
      by (simp add: last_id_def)
  qed
  moreover have "unat (last_id legacy typed + 1) = Suc (unat (last_id legacy typed))"
    using s(2) by (intro unat_next [OF refl]) (metis add_diff_cancel_right' diff_0 uint64_max_def)
  ultimately show ?thesis by (auto simp: s(1) state_ids_ok_def published_def)
qed


section \<open>Which checkpoints a replay accepts\<close>

lemma covered_ascending:
  "sorted_wrt (<) (item_ids xs) \<Longrightarrow> \<forall>x \<in> set xs. lo \<le> ci_record_id x \<Longrightarrow> 0 < k \<Longrightarrow> k \<le> length xs \<Longrightarrow>
     covered lo (ci_record_id (xs ! (k - 1))) xs = Some k"
proof (induction xs arbitrary: k)
  case (Cons x xs)
  have up: "\<forall>y \<in> set xs. ci_record_id x < ci_record_id y" using Cons.prems(1) by (simp add: item_ids_def word_less_nat_alt)
  show ?case
  proof (cases "k = 1")
    case True
    with Cons.prems(2) up show ?thesis by (cases xs) (auto simp: not_le)
  next
    case False
    with Cons.prems(3) obtain j where k: "k = Suc j" "0 < j" by (cases k) auto
    with Cons.prems(4) have m: "xs ! (j - 1) \<in> set xs" by simp
    from Cons.IH [of j] Cons.prems k have "covered lo (ci_record_id (xs ! (j - 1))) xs = Some j" by (simp add: item_ids_def)
    moreover have "(x # xs) ! (k - 1) = xs ! (j - 1)" using k by (cases j) auto
    moreover have "ci_record_id x \<le> ci_record_id (xs ! (j - 1))" "lo \<le> ci_record_id x" using up m Cons.prems(2) by (auto intro: less_imp_le)
    ultimately show ?thesis using k by (auto simp: not_less)
  qed
qed simp

text \<open>With the summary of an earlier checkpoint in front of older messages, none.\<close>

lemma covered_none:
  "ci_record_id b < ci_record_id a \<Longrightarrow> ci_record_id a \<le> hi \<Longrightarrow> covered (ci_record_id a) hi (a # b # xs) = None"
  by auto

lemma covered_prefix:
  assumes "ids_ok n (item_ids xs)" "0 < k" "k \<le> length xs" "ci_record_id (xs ! 0) \<le> ci_record_id (xs ! (k - 1))"
    and "covered (ci_record_id (xs ! 0)) (ci_record_id (xs ! (k - 1))) xs = Some j"
  shows "j = k \<and> sorted_wrt (<) (item_ids xs)"
proof -
  obtain a r where xs: "xs = a # r" using assms(2,3) by (cases xs) auto
  have s: "sorted_wrt (<) (item_ids xs)"
  proof (cases r)
    case (Cons b q)
    have "\<not> ci_record_id b < ci_record_id a" using covered_none [of b a _ q] assms(4,5) xs Cons by fastforce
    moreover have "ci_record_id b \<noteq> ci_record_id a" using assms(1) xs Cons by (auto simp: ids_ok_def item_ids_def)
    ultimately have "unat (ci_record_id a) < unat (ci_record_id b)" by (simp add: word_less_nat_alt [symmetric])
    with assms(1) xs Cons show ?thesis by (auto simp: ids_ok_def item_ids_def dest: order.strict_trans)
  qed (simp add: xs item_ids_def)
  then have "\<forall>x \<in> set xs. ci_record_id (xs ! 0) \<le> ci_record_id x"
    unfolding xs by (auto simp: item_ids_def word_le_nat_alt intro: less_imp_le)
  from covered_ascending [OF s this assms(2,3)] assms(5) s show ?thesis by simp
qed

end
