(* ===== verification/Persistence.thy ===== *)
theory Persistence
  imports Conversation_Kept History_Order
begin

text \<open>
  What a client does with the events of a conversation: \<open>src/cli.c\<close> makes them durable, \<open>src/cli_present.c\<close> shows them, \<open>src/cli_tools.c\<close>
  decides about tools. What drawing and printing answer is an argument.
\<close>

section \<open>Making events durable\<close>

text \<open>
  The session's store, the state it replays to and its log; \<open>pc_calls\<close> are the answers of the system calls of the next
  appends. \<open>pc_attached\<close>: there is a session to write to.
\<close>

record persistence_context =
  pc_attached :: bool
  pc_store :: history_store
  pc_state :: replay_state
  pc_log :: bytes
  pc_turn_id :: uint64
  pc_model :: bytes
  pc_last_error :: oi_status
  pc_calls :: "syscalls stream"
  pc_heap :: heap

fun history_tool_outcome :: "conversation_tool_outcome \<Rightarrow> tool_outcome" where
  "history_tool_outcome CONVERSATION_TOOL_COMPLETED = TOOL_COMPLETED"
| "history_tool_outcome CONVERSATION_TOOL_FAILED = TOOL_COMPLETED"
| "history_tool_outcome CONVERSATION_TOOL_DENIED = TOOL_NOT_EXECUTED"
| "history_tool_outcome CONVERSATION_TOOL_OUTCOME_UNKNOWN = TOOL_OUTCOME_UNKNOWN"
| "history_tool_outcome CONVERSATION_TOOL_NOT_EXECUTED = TOOL_NOT_EXECUTED"
| "history_tool_outcome CONVERSATION_TOOL_NONE = TOOL_OUTCOME_NONE"

text \<open>A record that could be made is appended; there is no result when a write is interrupted for ever.\<close>

definition append_made ::
  "fmt \<Rightarrow> strtod \<Rightarrow> persistence_context \<Rightarrow> oi_cli_history_record alloc \<Rightarrow> (oi_status \<times> persistence_context) option" where
  "append_made fmt strtod p r =
     (case r of
        (Inl st, h) \<Rightarrow> Some (st, p\<lparr>pc_heap := h\<rparr>)
      | (Inr x, h) \<Rightarrow>
          (case oi_cli_history_store_append fmt strtod (shd (pc_calls p)) h (pc_store p) (pc_state p) (pc_log p) x of
             None \<Rightarrow> None
           | Some res \<Rightarrow> Some (ar_status res, p\<lparr>pc_store := ar_store res, pc_state := ar_state res, pc_log := ar_log res,
                 pc_calls := stl (pc_calls p), pc_heap := ar_heap res\<rparr>)))"

text \<open>An append that failed is remembered.\<close>

definition append_noted ::
  "fmt \<Rightarrow> strtod \<Rightarrow> persistence_context \<Rightarrow> oi_cli_history_record alloc \<Rightarrow> (oi_status \<times> persistence_context) option" where
  "append_noted fmt strtod p r =
     map_option (\<lambda>(st, p). (st, if st \<noteq> OI_OK then p\<lparr>pc_last_error := st\<rparr> else p)) (append_made fmt strtod p r)"

definition persist_conversation_event ::
  "fmt \<Rightarrow> strtod \<Rightarrow> conversation_event \<Rightarrow> persistence_context \<Rightarrow> (oi_status \<times> persistence_context) option" where
  "persist_conversation_event fmt strtod event p =
     (let i = next_record_id (pc_state p); t = pc_turn_id p in
      case event of
        EVENT_MESSAGE e \<Rightarrow>
          append_noted fmt strtod p (oi_cli_history_record_set_message (pc_heap p) i t (me_value e)
            (if me_is_repair e then MESSAGE_REPAIR else MESSAGE_NORMAL)
            (if msg_role (me_value e) = MESSAGE_ASSISTANT then me_model e else None)
            (history_tool_outcome (me_outcome e)) (me_raw e))
      | EVENT_TOOL_STARTING call \<Rightarrow>
          append_noted fmt strtod p (oi_cli_history_record_set_tool_started (pc_heap p) i t (tc_id call))
      | EVENT_PARTIAL_ASSISTANT data \<Rightarrow>
          append_noted fmt strtod p (oi_cli_history_record_set_partial_assistant (pc_heap p) i t data (Some (pc_model p)))
      | EVENT_TURN_DONE _ _ \<Rightarrow> Some (OI_OK, p\<lparr>pc_turn_id := next_turn_id (pc_state p)\<rparr>)
      | _ \<Rightarrow> Some (OI_OK, p))"

definition persist_queued_input ::
  "fmt \<Rightarrow> strtod \<Rightarrow> persistence_context \<Rightarrow> bytes \<Rightarrow> (oi_status \<times> uint64 \<times> persistence_context) option" where
  "persist_queued_input fmt strtod p content =
     (if \<not> pc_attached p then Some (OI_OK, 0, p)
      else let i = next_record_id (pc_state p);
               r = oi_cli_history_record_set_queued_input (pc_heap p) i (next_turn_id (pc_state p)) content in
        map_option (\<lambda>(st, p). (st, case fst r of Inl _ \<Rightarrow> 0 | Inr _ \<Rightarrow> i, p)) (append_noted fmt strtod p r))"

definition persist_queue_resolved ::
  "fmt \<Rightarrow> strtod \<Rightarrow> persistence_context \<Rightarrow> uint64 \<Rightarrow> bool \<Rightarrow> (oi_status \<times> persistence_context) option" where
  "persist_queue_resolved fmt strtod p queued consumed =
     (if \<not> pc_attached p then Some (OI_OK, p)
      else append_noted fmt strtod p (oi_cli_history_record_set_queue_resolved (pc_heap p) (next_record_id (pc_state p))
             (pending_input_turn_id (pc_state p)) queued (if consumed then QUEUE_CONSUMED else QUEUE_DISCARDED)))"

text \<open>The range of a checkpoint is read off the records of the context.\<close>

definition persist_checkpoint ::
  "fmt \<Rightarrow> strtod \<Rightarrow> persistence_context \<Rightarrow> nat \<Rightarrow> bytes \<Rightarrow> bytes \<Rightarrow> (oi_status \<times> persistence_context) option" where
  "persist_checkpoint fmt strtod p prefix_count summ model =
     (let items = context_items (pc_state p) in
      if \<not> pc_attached p then Some (OI_OK, p)
      else if prefix_count = 0 \<or> prefix_count > length items then Some (OI_ERR_INVAL, p)
      else append_noted fmt strtod p (oi_cli_history_record_set_checkpoint (pc_heap p) (next_record_id (pc_state p)) summ
             (Some model) (ci_record_id (items ! 0)) (ci_record_id (items ! (prefix_count - 1)))))"

text \<open>Input that was queued when the process died comes back as a draft, and is marked as discarded first.\<close>

definition seed_pending_draft_from_replay ::
  "fmt \<Rightarrow> strtod \<Rightarrow> persistence_context \<Rightarrow> (oi_status \<times> bytes option \<times> persistence_context) option" where
  "seed_pending_draft_from_replay fmt strtod p =
     (let s = pc_state p in
      if \<not> has_pending_input s then Some (OI_OK, None, p)
      else (case oi_cli_string_set (pc_heap p) (pending_input s) of
          (Inl st, h) \<Rightarrow> Some (st, None, p\<lparr>pc_heap := h\<rparr>)
        | (Inr draft, h) \<Rightarrow>
            map_option (\<lambda>(st, p). (st, if st \<noteq> OI_OK then None else Some draft, p))
              (append_made fmt strtod (p\<lparr>pc_heap := h\<rparr>) (oi_cli_history_record_set_queue_resolved h (next_record_id s)
                 (pending_input_turn_id s) (pending_input_record_id s) QUEUE_DISCARDED))))"

definition persistence_has_failed :: "persistence_context \<Rightarrow> bool" where
  "persistence_has_failed p \<longleftrightarrow> pc_last_error p \<noteq> OI_OK"

section \<open>Showing events\<close>

text \<open>\<open>pr_shows\<close>: what the next calls that draw or print answer.\<close>

record oi_cli_present =
  pr_capture_assistant :: bool
  pr_styling_enabled :: bool
  pr_assistant :: cbuffer
  pr_done :: bool
  pr_status :: oi_status
  pr_shows :: "oi_status stream"
  pr_heap :: heap

definition shown :: "oi_cli_present \<Rightarrow> oi_status \<times> oi_cli_present" where
  "shown p = (shd (pr_shows p), p\<lparr>pr_shows := stl (pr_shows p)\<rparr>)"

definition oi_cli_present_init :: "bool \<Rightarrow> bool \<Rightarrow> oi_status stream \<Rightarrow> heap \<Rightarrow> oi_status + oi_cli_present" where
  "oi_cli_present_init capture styling shows h =
     (if shd shows \<noteq> OI_OK then Inl (shd shows)
      else Inr \<lparr>pr_capture_assistant = capture, pr_styling_enabled = styling, pr_assistant = buffer_empty, pr_done = False,
             pr_status = OI_OK, pr_shows = stl shows, pr_heap = h\<rparr>)"

text \<open>The loop of \<open>buffer_append\<close> without a limit.\<close>

definition assistant_append :: "oi_cli_present \<Rightarrow> bytes \<Rightarrow> oi_status \<times> oi_cli_present" where
  "assistant_append p data =
     (if \<not> pr_capture_assistant p then (OI_OK, p)
      else (case appended (pr_assistant p) (buffer_append (pr_heap p) (pr_assistant p) data size_max) of
          (st, b, h) \<Rightarrow> (st, p\<lparr>pr_assistant := b, pr_heap := h\<rparr>)))"

definition oi_cli_present_reset_turn :: "oi_cli_present \<Rightarrow> oi_cli_present" where
  "oi_cli_present_reset_turn p = p\<lparr>pr_done := False, pr_status := OI_OK, pr_assistant := (pr_assistant p)\<lparr>cb_data := []\<rparr>\<rparr>"

definition oi_cli_present_event ::
  "(conversation_event \<Rightarrow> 'u \<Rightarrow> oi_status \<times> 'u) option \<Rightarrow> conversation_event \<Rightarrow> oi_cli_present \<Rightarrow> 'u
     \<Rightarrow> oi_status \<times> oi_cli_present \<times> 'u" where
  "oi_cli_present_event external event p u =
     (case (case external of None \<Rightarrow> (OI_OK, u) | Some f \<Rightarrow> f event u) of (st, u) \<Rightarrow>
      if st \<noteq> OI_OK then (st, p, u)
      else (case (case event of
          EVENT_ASSISTANT_DELTA data \<Rightarrow>
            (case shown p of (st, p) \<Rightarrow> if st \<noteq> OI_OK then (st, p) else assistant_append p data)
        | EVENT_TOOL_STARTING _ \<Rightarrow> shown p
        | EVENT_RESPONSE_DONE \<Rightarrow>
            (case shown p of (st, p) \<Rightarrow>
               if st \<noteq> OI_OK then (st, p)
               else if pr_styling_enabled p then (OI_OK, p)
               else (case shown p of (st, p) \<Rightarrow> (if st \<noteq> OI_OK then OI_ERR_IO else OI_OK, p)))
        | EVENT_MODEL_ERROR _ _ \<Rightarrow> shown p
        | EVENT_TURN_DONE turn_status _ \<Rightarrow>
            (case shown p of (st, p) \<Rightarrow>
               (st, p\<lparr>pr_status := (if turn_status \<noteq> OI_OK then turn_status else st), pr_done := True\<rparr>))
        | _ \<Rightarrow> (OI_OK, p)) of (st, p) \<Rightarrow> (st, p, u)))"

definition oi_cli_present_take_assistant :: "oi_cli_present \<Rightarrow> (oi_status + bytes) \<times> oi_cli_present" where
  "oi_cli_present_take_assistant p =
     (if \<not> pr_capture_assistant p then (Inl OI_ERR_INVAL, p)
      else (case (if cb_cap (pr_assistant p) = 0 then assistant_append p [] else (OI_OK, p)) of
          (st, p) \<Rightarrow> if st \<noteq> OI_OK then (Inl st, p)
                     else (Inr (cb_data (pr_assistant p)), p\<lparr>pr_assistant := buffer_empty\<rparr>)))"

section \<open>Deciding about tools\<close>

datatype oi_cli_tool_policy = OI_CLI_TOOLS_ASK | OI_CLI_TOOLS_ALLOW | OI_CLI_TOOLS_DENY

fun oi_cli_tool_permission :: "oi_cli_tool_policy \<Rightarrow> oi_tool_decision" where
  "oi_cli_tool_permission OI_CLI_TOOLS_ALLOW = OI_TOOL_ALLOW"
| "oi_cli_tool_permission OI_CLI_TOOLS_DENY = OI_TOOL_DENY"
| "oi_cli_tool_permission OI_CLI_TOOLS_ASK = OI_TOOL_ASK"

fun oi_cli_tool_permission_noninteractive :: "oi_cli_tool_policy \<Rightarrow> oi_tool_decision" where
  "oi_cli_tool_permission_noninteractive OI_CLI_TOOLS_ALLOW = OI_TOOL_ALLOW"
| "oi_cli_tool_permission_noninteractive OI_CLI_TOOLS_DENY = OI_TOOL_DENY"
| "oi_cli_tool_permission_noninteractive OI_CLI_TOOLS_ASK = OI_TOOL_DENY"


section \<open>The client's callback\<close>

text \<open>
  The interactive client feeds its panel of the running tool first; what the panel answers is in \<open>rv_panel\<close>. Its policy about
  tools can change while it runs.
\<close>

record repl_view =
  rv_present :: oi_cli_present
  rv_panel :: "oi_status stream"
  rv_policy :: oi_cli_tool_policy

definition panel_event :: "conversation_event \<Rightarrow> repl_view \<Rightarrow> oi_status \<times> repl_view" where
  "panel_event event v =
     (let answered = (\<lambda>v. (shd (rv_panel v), v\<lparr>rv_panel := stl (rv_panel v)\<rparr>)) in
      case event of
        EVENT_AWAITING_PERMISSION _ \<Rightarrow> (case answered v of (st, v) \<Rightarrow> if st \<noteq> OI_OK then (st, v) else answered v)
      | EVENT_TOOL_STARTING _ \<Rightarrow> answered v
      | EVENT_TOOL_OUTPUT _ \<Rightarrow> answered v
      | _ \<Rightarrow> (OI_OK, v))"

definition repl_conversation_event ::
  "(conversation_event \<Rightarrow> 'u \<Rightarrow> oi_status \<times> 'u) option \<Rightarrow> conversation_event \<Rightarrow> repl_view \<Rightarrow> 'u \<Rightarrow> oi_status \<times> repl_view \<times> 'u" where
  "repl_conversation_event external event v u =
     (case panel_event event v of (st, v) \<Rightarrow>
        if st \<noteq> OI_OK then (st, v, u)
        else (case oi_cli_present_event external event (rv_present v) u of (st, p, u) \<Rightarrow> (st, v\<lparr>rv_present := p\<rparr>, u)))"

text \<open>
  When the append of an event never returns, the callback has no end. The model goes on with a failure there, so it does more
  than the code.
\<close>

definition durable_event ::
  "fmt \<Rightarrow> strtod \<Rightarrow> conversation_event \<Rightarrow> persistence_context \<Rightarrow> oi_status \<times> persistence_context" where
  "durable_event fmt strtod event p =
     (case persist_conversation_event fmt strtod event p of Some r \<Rightarrow> r | None \<Rightarrow> (OI_ERR_IO, p))"

text \<open>The configuration of a conversation in a session, interactive or not.\<close>

definition session_event ::
  "fmt \<Rightarrow> strtod \<Rightarrow> bool \<Rightarrow> conversation_event \<Rightarrow> repl_view \<times> persistence_context
     \<Rightarrow> oi_status \<times> bool \<times> repl_view \<times> persistence_context" where
  "session_event fmt strtod interactive event u =
     (case (if interactive then repl_conversation_event (Some (durable_event fmt strtod)) event (fst u) (snd u)
            else (case oi_cli_present_event (Some (durable_event fmt strtod)) event (rv_present (fst u)) (snd u) of
                    (st, pr, p) \<Rightarrow> (st, (fst u)\<lparr>rv_present := pr\<rparr>, p))) of
        (st, u) \<Rightarrow> (st, False, u))"

definition session_config ::
  "fmt \<Rightarrow> strtod \<Rightarrow> bool \<Rightarrow> int \<Rightarrow> int \<Rightarrow> (repl_view \<times> persistence_context) conversation_config" where
  "session_config fmt strtod interactive max_steps timeout_ms =
     \<lparr>cc_max_model_steps = max_steps, cc_tool_timeout_ms = timeout_ms,
      cc_permission = Some (\<lambda>_ _ u. (if interactive then oi_cli_tool_permission (rv_policy (fst u))
                                     else oi_cli_tool_permission_noninteractive (rv_policy (fst u)), u)),
      cc_on_event = Some (session_event fmt strtod interactive)\<rparr>"

section \<open>What an event adds to the log\<close>

definition durable_messages :: "persistence_context \<Rightarrow> oi_cli_message list" where
  "durable_messages p = map ci_message (context_items (pc_state p))"

definition consistent :: "strtod \<Rightarrow> persistence_context \<Rightarrow> bool" where
  "consistent strtod p \<longleftrightarrow> pc_attached p \<and> stored strtod (pc_store p) (pc_state p) (pc_log p) \<and> pc_heap p = heap_ok
     \<and> (\<forall>c \<in> sset (pc_calls p). sys_truncate c)"

lemma consistent_update [simp]:
  "consistent strtod (p\<lparr>pc_last_error := st\<rparr>) = consistent strtod p" "consistent strtod (p\<lparr>pc_turn_id := t\<rparr>) = consistent strtod p"
  "durable_messages (p\<lparr>pc_last_error := st\<rparr>) = durable_messages p" "durable_messages (p\<lparr>pc_turn_id := t\<rparr>) = durable_messages p"
  "pc_heap p = heap_ok \<Longrightarrow> consistent strtod (p\<lparr>pc_heap := heap_ok\<rparr>) = consistent strtod p"
  "durable_messages (p\<lparr>pc_heap := h\<rparr>) = durable_messages p"
  by (simp_all add: consistent_def durable_messages_def)

lemma base64_encode_lasts [lasts]: "snd (base64_encode heap_ok d) = heap_ok"
  by (simp add: base64_encode_def)

lemma write_lasts [lasts]:
  "snd (write_tool_result fmt heap_ok r m) = heap_ok" "snd (write_message fmt heap_ok w m) = heap_ok"
  "snd (write_payload fmt heap_ok w q) = heap_ok"
proof -
  have b: "\<exists>x. base64_encode heap_ok d = (x, heap_ok)" for d
    using base64_encode_lasts [of d] by (cases "base64_encode heap_ok d") simp
  show r: "snd (write_tool_result fmt heap_ok r m) = heap_ok" for r m
    using b [of "string_bytes (hm_raw m)"]
    by (auto simp: write_tool_result_def Let_def string_bytes_def split: option.splits prod.splits sum.splits)
  show m: "snd (write_message fmt heap_ok w m) = heap_ok" for m
    by (simp add: write_message_def Let_def r split: option.split)
  show "snd (write_payload fmt heap_ok w q) = heap_ok"
    by (simp add: write_payload_def m split: record_body.split)
qed

lemma encode_lasts [lasts]: "snd (oi_cli_history_record_encode fmt heap_ok q) = heap_ok"
proof -
  have k: "snd f = heap_ok \<Longrightarrow> (\<And>x. snd (K x heap_ok) = heap_ok) \<Longrightarrow> snd (case f of (x, h) \<Rightarrow> K x h) = heap_ok"
    for f :: "'b \<times> heap" and K :: "'b \<Rightarrow> heap \<Rightarrow> bytes alloc" by (cases f) simp
  have m: "snd (case f of (x, y) \<Rightarrow> L x y) = heap_ok" if "\<And>x y. snd (L x y) = heap_ok"
    for f :: "oi_status \<times> oi_json_writer" and L :: "oi_status \<Rightarrow> oi_json_writer \<Rightarrow> bytes alloc" using that by (cases f) simp
  have o: "snd (case f of None \<Rightarrow> (Inl e, heap_ok) | Some x \<Rightarrow> L x) = heap_ok" if "\<And>x. snd (L x) = heap_ok"
    for f :: "'c option" and L :: "'c \<Rightarrow> bytes alloc" and e using that by (cases f) simp_all
  show ?thesis unfolding oi_cli_history_record_encode_def Let_def heap_child_ok
    by (auto simp: write_lasts intro!: o m k)
qed

lemma durably_heap: "append_durably fmt strtod c heap_ok s state log r = Some res \<Longrightarrow> ar_heap res = heap_ok"
proof -
  assume a: "append_durably fmt strtod c heap_ok s state log r = Some res"
  obtain x where x: "store_replay strtod heap_ok s = (x, heap_ok)"
    using replay_lasts [of strtod] by (metis store_replay_def prod.collapse)
  obtain y where y: "oi_cli_history_record_encode fmt heap_ok r = (y, heap_ok)"
    using encode_lasts [of fmt r] by (metis prod.collapse)
  from a x y show ?thesis by (auto simp: append_durably_def Let_def split: sum.splits option.splits)
qed

lemma append_heap: "oi_cli_history_store_append fmt strtod c heap_ok s state log r = Some res \<Longrightarrow> ar_heap res = heap_ok"
proof -
  assume a: "oi_cli_history_store_append fmt strtod c heap_ok s state log r = Some res"
  obtain x where x: "oi_cli_history_record_clone heap_ok r = (x, heap_ok)"
    using clone_record_lasts [of r] by (metis prod.collapse)
  obtain y where y: "oi_cli_history_reserve heap_ok (typed_history s) (length (hist_records (typed_history s)) + 1) = (y, heap_ok)"
    using reserve_lasts by (metis prod.collapse)
  have z: "\<exists>z. oi_cli_history_append_take heap_ok l q = (z, heap_ok)" for l q
    using take_lasts(1) by (metis prod.collapse)
  show ?thesis
  proof (cases "oi_cli_history_record_is_valid r")
    case True
    with a x y z [of "projr y" "projr x"] show ?thesis
      by (auto simp: oi_cli_history_store_append_def dest!: durably_heap split: sum.splits)
  qed (use a in \<open>auto simp: oi_cli_history_store_append_def\<close>)
qed

lemma append_made_result:
  assumes F: "printf_strtod_roundtrip fmt strtod" and c: "consistent strtod p" and a: "append_made fmt strtod p r = Some (st, p')"
    and r: "snd r = heap_ok" "\<And>x h. r = (Inr x, h) \<Longrightarrow> \<not> repair_with_calls x \<and> \<not> is_transition (body x) \<and> \<not> is_checkpoint (body x)"
    and f: "fst r \<noteq> Inl OI_OK"
  shows "consistent strtod p' \<and> durable_messages p' = durable_messages p @ (if st = OI_OK then record_messages (projr (fst r)) else [])"
proof (cases "fst r")
  case (Inl e)
  with assms show ?thesis by (cases r) (auto simp: append_made_def consistent_def durable_messages_def)
next
  case (Inr x)
  then have rx: "r = (Inr x, heap_ok)" using r(1) by (cases r) auto
  with a obtain res where res: "oi_cli_history_store_append fmt strtod (shd (pc_calls p)) heap_ok (pc_store p) (pc_state p) (pc_log p) x = Some res"
    and p': "st = ar_status res" "p' = p\<lparr>pc_store := ar_store res, pc_state := ar_state res, pc_log := ar_log res,
                 pc_calls := stl (pc_calls p), pc_heap := ar_heap res\<rparr>"
    by (auto simp: append_made_def split: option.splits)
  have s: "stored strtod (pc_store p) (pc_state p) (pc_log p)" "\<forall>c \<in> sset (pc_calls p). sys_truncate c"
    using c by (simp_all add: consistent_def)
  have t: "sys_truncate (shd (pc_calls p))" "\<forall>c \<in> sset (stl (pc_calls p)). sys_truncate c"
    using s(2) by (metis shd_sset, metis stl_sset)
  from r(2) [OF rx] append_stored [OF F s(1) t(1) _ res] append_adds [OF s(1) _ _ res] append_heap [OF res] t(2) c
  show ?thesis unfolding p' by (simp add: consistent_def durable_messages_def Inr)
qed

definition event_messages :: "conversation_event \<Rightarrow> oi_cli_message list" where
  "event_messages ev = (case ev of EVENT_MESSAGE e \<Rightarrow> [me_value e] | _ \<Rightarrow> [])"

lemma set_more_fails [fails]:
  "fst (oi_cli_history_record_set_message h i t m s model out raw) \<noteq> Inl OI_OK"
  "fst (oi_cli_history_record_set_tool_started h i t c) \<noteq> Inl OI_OK"
  "fst (oi_cli_history_record_set_partial_assistant h i t c mo) \<noteq> Inl OI_OK"
  by (auto simp: oi_cli_history_record_set_message_def oi_cli_history_record_set_tool_started_def
      oi_cli_history_record_set_partial_assistant_def set_optional_def set_raw_def bytes_set_def alloc_then_fails fails
      split: option.split)

lemma append_noted_result:
  assumes "printf_strtod_roundtrip fmt strtod" "consistent strtod p" "append_noted fmt strtod p r = Some (st, p')"
    "snd r = heap_ok" "fst r \<noteq> Inl OI_OK"
    "\<And>x h. r = (Inr x, h) \<Longrightarrow> \<not> repair_with_calls x \<and> \<not> is_transition (body x) \<and> \<not> is_checkpoint (body x) \<and> record_messages x = ms
      \<and> list_all oi_cli_message_is_valid ms"
  shows "consistent strtod p' \<and> durable_messages p' = durable_messages p @ (if st = OI_OK then ms else [])
    \<and> (st = OI_OK \<longrightarrow> list_all oi_cli_message_is_valid ms)"
proof -
  from assms(3) obtain q where q: "append_made fmt strtod p r = Some (st, q)" "p' = (if st \<noteq> OI_OK then q\<lparr>pc_last_error := st\<rparr> else q)"
    by (auto simp: append_noted_def)
  have "st = OI_OK \<Longrightarrow> \<exists>x h. r = (Inr x, h)"
    using q(1) assms(5) by (cases r; cases "fst r") (auto simp: append_made_def)
  with append_made_result [OF assms(1,2) q(1) assms(4) _ assms(5)] assms(6) q(2) show ?thesis by fastforce
qed

lemma persist_result:
  assumes F: "printf_strtod_roundtrip fmt strtod" and c: "consistent strtod p"
    and e: "persist_conversation_event fmt strtod ev p = Some (st, p')"
    and m: "\<And>e. ev = EVENT_MESSAGE e \<Longrightarrow> me_is_repair e \<Longrightarrow> msg_tool_calls (me_value e) = []"
  shows "consistent strtod p' \<and> durable_messages p' = durable_messages p @ (if st = OI_OK then event_messages ev else [])
    \<and> (st = OI_OK \<longrightarrow> list_all oi_cli_message_is_valid (event_messages ev))"
proof -
  have h: "pc_heap p = heap_ok" using c by (simp add: consistent_def)
  note n = append_noted_result [OF F c]
  show ?thesis
  proof (cases ev)
    case (EVENT_MESSAGE me)
    with e have a: "append_noted fmt strtod p (oi_cli_history_record_set_message (pc_heap p) (next_record_id (pc_state p)) (pc_turn_id p)
        (me_value me) (if me_is_repair me then MESSAGE_REPAIR else MESSAGE_NORMAL)
        (if msg_role (me_value me) = MESSAGE_ASSISTANT then me_model me else None)
        (history_tool_outcome (me_outcome me)) (me_raw me)) = Some (st, p')" by (simp add: persist_conversation_event_def Let_def)
    show ?thesis unfolding event_messages_def EVENT_MESSAGE conversation_event.case
      by (rule n [OF a]) (use m [OF EVENT_MESSAGE] in \<open>auto simp: h lasts fails repair_with_calls_def is_transition_def is_checkpoint_def
          record_messages_def oi_cli_history_record_is_valid_def body_is_valid_def history_message_is_valid_def dest!: set_message_result split: if_splits\<close>)
  next
    case (EVENT_TOOL_STARTING call)
    with e have a: "append_noted fmt strtod p (oi_cli_history_record_set_tool_started (pc_heap p) (next_record_id (pc_state p))
        (pc_turn_id p) (tc_id call)) = Some (st, p')" by (simp add: persist_conversation_event_def Let_def)
    have "consistent strtod p' \<and> durable_messages p' = durable_messages p @ (if st = OI_OK then [] else [])
      \<and> (st = OI_OK \<longrightarrow> list_all oi_cli_message_is_valid [])"
      by (rule n [OF a]) (auto simp: h lasts fails repair_with_calls_def is_transition_def is_checkpoint_def
          record_messages_def dest!: set_other_results(1))
    then show ?thesis by (simp add: EVENT_TOOL_STARTING event_messages_def)
  next
    case (EVENT_PARTIAL_ASSISTANT data)
    with e have a: "append_noted fmt strtod p (oi_cli_history_record_set_partial_assistant (pc_heap p) (next_record_id (pc_state p))
        (pc_turn_id p) data (Some (pc_model p))) = Some (st, p')" by (simp add: persist_conversation_event_def Let_def)
    have "consistent strtod p' \<and> durable_messages p' = durable_messages p @ (if st = OI_OK then [] else [])
      \<and> (st = OI_OK \<longrightarrow> list_all oi_cli_message_is_valid [])"
      by (rule n [OF a]) (auto simp: h lasts fails repair_with_calls_def is_transition_def is_checkpoint_def
          record_messages_def dest!: set_other_results(2))
    then show ?thesis by (simp add: EVENT_PARTIAL_ASSISTANT event_messages_def)
  qed (use e c in \<open>auto simp: persist_conversation_event_def Let_def event_messages_def\<close>)
qed


section \<open>Checkpoints\<close>

lemma set_checkpoint_fails [fails]: "fst (oi_cli_history_record_set_checkpoint h i c m lo hi) \<noteq> Inl OI_OK"
  by (auto simp: oi_cli_history_record_set_checkpoint_def set_optional_def alloc_then_fails fails split: option.split)

lemma consistent_ids: "consistent strtod p \<Longrightarrow> state_ids_ok (pc_state p)"
  using replay_ids by (auto simp: consistent_def stored_def store_replay_def)

lemma checkpoint_appended:
  assumes s: "stored strtod s state log" and ids: "state_ids_ok state" and n: "0 < n" "n \<le> length (context_items state)"
    and r: "body r = RECORD_CHECKPOINT (Some t) m (ci_record_id (context_items state ! 0)) (ci_record_id (context_items state ! (n - 1)))"
    and a: "oi_cli_history_store_append fmt strtod c heap_ok s state log r = Some res" "ar_status res = OI_OK"
  shows "sorted_wrt (<) (item_ids (context_items state)) \<and> context_items (ar_state res)
    = \<lparr>ci_record_id = next_record_id state, ci_message = summary_message t\<rparr> # drop n (context_items state)"
proof -
  from store_append_cases [OF a(1)] a(2) obtain h1 h2 where b: "legacy_messages (ar_store res) = legacy_messages s"
    "hist_records (typed_history (ar_store res)) = hist_records (typed_history s) @ [r]"
    "store_replay strtod h1 (ar_store res) = (Inr (ar_state res), h2)" "h1 = heap_ok" by blast
  have rep: "oi_cli_history_replay strtod heap_ok (ml_items (legacy_messages s)) (hist_records (typed_history s)) = (Inr state, heap_ok)"
    using s by (simp add: stored_def store_replay_def)
  have rep2: "oi_cli_history_replay strtod heap_ok (ml_items (legacy_messages s)) (hist_records (typed_history s) @ [r])
      = (Inr (ar_state res), h2)" using b by (simp add: store_replay_def)
  have nt: "\<not> is_transition (body r)" by (simp add: r is_transition_def)
  obtain d d' k k' where d: "builder_ok d" "oi_cli_history_record_is_valid r" "apply_typed_record strtod k d r = (Inr d', k')"
    "context_items state = context_items (rb_state d)" "context_items (ar_state res) = context_items (rb_state d')"
    "next_record_id state = record_id r" by (rule replay_one_more [OF rep rep2 nt])
  from checkpoint_record [OF d(3) r] obtain j where
    j: "covered (ci_record_id (context_items state ! 0)) (ci_record_id (context_items state ! (n - 1))) (context_items state) = Some j"
    "context_items (ar_state res) = \<lparr>ci_record_id = next_record_id state, ci_message = summary_message t\<rparr> # drop j (context_items state)"
    by (auto simp: string_bytes_def d(4-6))
  from ids obtain z where z: "ids_ok z (item_ids (context_items state))" by (auto simp: state_ids_ok_def)
  have "ci_record_id (context_items state ! 0) \<le> ci_record_id (context_items state ! (n - 1))"
    using d(2) by (simp add: r oi_cli_history_record_is_valid_def body_is_valid_def)
  from covered_prefix [OF z n this j(1)] j(2) show ?thesis by simp
qed

text \<open>
  A checkpoint that is accepted puts its summary in place of exactly the messages it was asked for, and its own id above all
  others in front; one that is not leaves everything as it was.
\<close>

lemma checkpoint_result:
  assumes F: "printf_strtod_roundtrip fmt strtod" and c: "consistent strtod p"
    and e: "persist_checkpoint fmt strtod p n t m = Some (st, p')"
  shows "consistent strtod p' \<and> (if st = OI_OK
    then 0 < n \<and> n \<le> length (context_items (pc_state p)) \<and> sorted_wrt (<) (item_ids (context_items (pc_state p)))
      \<and> context_items (pc_state p') = \<lparr>ci_record_id = next_record_id (pc_state p), ci_message = summary_message t\<rparr>
          # drop n (context_items (pc_state p))
    else pc_state p' = pc_state p \<and> pc_log p' = pc_log p
      \<and> (0 < n \<and> n \<le> length (context_items (pc_state p)) \<longrightarrow> persistence_has_failed p'))"
proof (cases "n = 0 \<or> n > length (context_items (pc_state p))")
  case True
  with e c show ?thesis by (auto simp: persist_checkpoint_def consistent_def)
next
  case False
  have k: "pc_attached p" "pc_heap p = heap_ok" "stored strtod (pc_store p) (pc_state p) (pc_log p)"
    "\<forall>c \<in> sset (pc_calls p). sys_truncate c" using c by (simp_all add: consistent_def)
  have k4: "sys_truncate (shd (pc_calls p))" "\<forall>c \<in> sset (stl (pc_calls p)). sys_truncate c"
    using k(4) by (metis shd_sset, metis stl_sset)
  define lo hi where "lo = ci_record_id (context_items (pc_state p) ! 0)" and "hi = ci_record_id (context_items (pc_state p) ! (n - 1))"
  obtain x where x: "oi_cli_history_record_set_checkpoint heap_ok (next_record_id (pc_state p)) t (Some m) lo hi = (x, heap_ok)"
    using set_record_lasts(8) by (metis prod.collapse)
  have "persist_checkpoint fmt strtod p n t m = append_noted fmt strtod p (x, heap_ok)"
    using False k(1,2) x by (simp add: persist_checkpoint_def lo_def hi_def)
  with e obtain q where a: "append_made fmt strtod p (x, heap_ok) = Some (st, q)"
    and p': "p' = (if st \<noteq> OI_OK then q\<lparr>pc_last_error := st\<rparr> else q)"
    by (auto simp: append_noted_def)
  show ?thesis
  proof (cases x)
    case (Inl e)
    have "e \<noteq> OI_OK" using set_checkpoint_fails x Inl by (metis fst_conv)
    moreover have "st = e" "q = p\<lparr>pc_heap := heap_ok\<rparr>" using a Inl by (simp_all add: append_made_def)
    ultimately show ?thesis using c k(2) by (simp add: p' persistence_has_failed_def)
  next
    case (Inr r)
    from set_other_results(5) [OF x [unfolded Inr]] have r: "body r = RECORD_CHECKPOINT (Some t) (Some m) lo hi" by simp
    obtain res where res:
        "oi_cli_history_store_append fmt strtod (shd (pc_calls p)) heap_ok (pc_store p) (pc_state p) (pc_log p) r = Some res"
      and q: "st = ar_status res" "q = p\<lparr>pc_store := ar_store res, pc_state := ar_state res, pc_log := ar_log res,
               pc_calls := stl (pc_calls p), pc_heap := ar_heap res\<rparr>"
      using a Inr by (auto simp: append_made_def split: option.splits)
    have "stored strtod (ar_store res) (ar_state res) (ar_log res)"
      by (rule append_stored [OF F k(3) k4(1) _ res]) (simp add: r repair_with_calls_def)
    with k(1) k4(2) append_heap [OF res] have cq: "consistent strtod q" by (simp add: q consistent_def)
    show ?thesis
    proof (cases "ar_status res = OI_OK")
      case True
      from False have n: "0 < n" "n \<le> length (context_items (pc_state p))" by simp_all
      from checkpoint_appended [OF k(3) consistent_ids [OF c] n r [unfolded lo_def hi_def] res True] n cq True
      show ?thesis by (simp add: q p')
    next
      case st: False
      from store_append_cases [OF res] st k4(1) have "ar_state res = pc_state p" "ar_log res = pc_log p" by blast+
      with st cq show ?thesis by (simp add: q p' persistence_has_failed_def)
    qed
  qed
qed

section \<open>What the callback does\<close>

lemma session_event_result:
  assumes F: "printf_strtod_roundtrip fmt strtod" and c: "consistent strtod (snd u)"
    and e: "session_event fmt strtod interactive ev u = (st, b, u')"
    and m: "\<And>e. ev = EVENT_MESSAGE e \<Longrightarrow> me_is_repair e \<Longrightarrow> msg_tool_calls (me_value e) = []"
  shows "consistent strtod (snd u') \<and> durable_messages (snd u') = durable_messages (snd u) @ (if st = OI_OK then event_messages ev else [])
    \<and> (st = OI_OK \<longrightarrow> list_all oi_cli_message_is_valid (event_messages ev)) \<and> \<not> b"
proof -
  obtain s p where d: "durable_event fmt strtod ev (snd u) = (s, p)" by fastforce
  have dr: "consistent strtod p \<and> durable_messages p = durable_messages (snd u) @ (if s = OI_OK then event_messages ev else [])
      \<and> (s = OI_OK \<longrightarrow> list_all oi_cli_message_is_valid (event_messages ev))"
  proof (cases "persist_conversation_event fmt strtod ev (snd u)")
    case None
    with d c show ?thesis by (auto simp: durable_event_def)
  next
    case (Some r)
    with d have "persist_conversation_event fmt strtod ev (snd u) = Some (s, p)" by (simp add: durable_event_def)
    from persist_result [OF F c this m] show ?thesis by blast
  qed
  have p: "p' = p \<and> (\<forall>m. ev = EVENT_MESSAGE m \<longrightarrow> st' = s)"
    if "oi_cli_present_event (Some (durable_event fmt strtod)) ev q (snd u) = (st', q', p')" for q st' q' p'
    using that d by (auto simp: oi_cli_present_event_def split: prod.splits if_splits conversation_event.splits)
  show ?thesis
  proof (cases interactive)
    case False
    obtain st' q' p' where x: "oi_cli_present_event (Some (durable_event fmt strtod)) ev (rv_present (fst u)) (snd u) = (st', q', p')"
      by (metis prod_cases3)
    with e False have "st = st'" "snd u' = p'" "\<not> b" by (auto simp: session_event_def)
    with p [OF x] dr show ?thesis by (cases ev) (auto simp: event_messages_def)
  next
    case True
    obtain s0 v where v: "panel_event ev (fst u) = (s0, v)" by fastforce
    have v0: "ev = EVENT_MESSAGE m \<Longrightarrow> s0 = OI_OK" for m using v by (simp add: panel_event_def)
    obtain st' q' p' where x: "oi_cli_present_event (Some (durable_event fmt strtod)) ev (rv_present v) (snd u) = (st', q', p')"
      by (metis prod_cases3)
    with e True v have "\<not> b" "if s0 = OI_OK then st = st' \<and> snd u' = p' else st = s0 \<and> snd u' = snd u"
      by (auto simp: session_event_def repl_conversation_event_def split: if_splits)
    with p [OF x] dr c v0 show ?thesis by (cases ev) (auto simp: event_messages_def split: if_splits)
  qed
qed

end
