(* ===== verification/Durable.thy ===== *)
theory Durable
  imports Persistence
begin

text \<open>
  A whole session of \<open>src/cli.c\<close> and \<open>src/cli_repl.c\<close>: the conversation, its view and its log together. What is in
  memory is what is on disk, through compactions, changes of the policy and queued input; and a compaction that kept
  turns is the last one.
\<close>

text \<open>What was stored is loaded again, behind whatever torn record.\<close>

lemma reloaded:
  assumes "stored strtod s state log" "torn t" "oi_sesslog_open c (log @ t) = (OI_OK, log')" "full_reads (sys_pread c)" "readable d"
  shows "\<exists>s2. oi_cli_history_store_load strtod d heap_ok log' = (Inr (s2, state), heap_ok) \<and> same_store s s2"
proof -
  from assms(1) obtain es k where es: "log = log_bytes es" "list_all valid_record es"
    "load_records strtod heap_ok load_init es = (k, heap_ok)" "lc_status k = OI_OK" "same_store s (lc_store k)"
    "store_replay strtod heap_ok s = (Inr state, heap_ok)" by (auto simp: stored_def loaded_def)
  have "log' = log_bytes es" using open_recovers [OF es(2) assms(2,4)] assms(3) es(1) by simp
  with es load_result [OF es(2) assms(5), of strtod "lc_store k" state heap_ok] same_replay [OF es(5)]
  show ?thesis by auto
qed

section \<open>A conversation in a session\<close>

text \<open>
  What the interactive client does beside the inputs of the conversation: it makes the next input durable while a turn runs,
  and the end of its waiting; it takes the choice of the user about a tool, the policy of the command \<open>/permissions\<close>, and,
  between turns, \<open>/compact\<close>: a count of messages, their summary and the model that wrote it.
\<close>

datatype session_input =
    Converse conversation_input conversation_answers
  | Queue_input bytes
  | Resolve_queue uint64 bool
  | Confirm nat conversation_answers
  | Permissions oi_cli_tool_policy
  | Compact nat bytes bytes

type_synonym session_conversation = "(repl_view \<times> persistence_context) oi_cli_conversation"

definition noted_by :: "session_conversation \<Rightarrow> persistence_context \<Rightarrow> session_conversation" where
  "noted_by c p = c\<lparr>cv_user := (fst (cv_user c), p)\<rparr>"

definition set_policy :: "oi_cli_tool_policy \<Rightarrow> session_conversation \<Rightarrow> session_conversation" where
  "set_policy policy c = c\<lparr>cv_user := ((fst (cv_user c))\<lparr>rv_policy := policy\<rparr>, snd (cv_user c))\<rparr>"

text \<open>
  The case of a confirmed choice: 0 allows the call, 1 every call from now on, 2 denies it, and so does dismissing
  the prompt. A choice that comes too late changes nothing.
\<close>

definition permission_selector_key :: "nat \<Rightarrow> conversation_answers \<Rightarrow> session_conversation \<Rightarrow> session_conversation" where
  "permission_selector_key selected an c =
     (case oi_cli_conversation_resolve_permission an c (selected \<noteq> 2) of (st, c) \<Rightarrow>
        if st \<noteq> OI_OK then c else if selected = 1 then set_policy OI_CLI_TOOLS_ALLOW c else c)"

text \<open>The log takes the checkpoint first; then the conversation does, or neither.\<close>

definition compact_session ::
  "fmt \<Rightarrow> strtod \<Rightarrow> nat \<Rightarrow> bytes \<Rightarrow> bytes \<Rightarrow> session_conversation \<Rightarrow> (oi_status \<times> session_conversation) option" where
  "compact_session fmt strtod n summ model c =
     map_option (\<lambda>(st, p). if st \<noteq> OI_OK then (st, noted_by c p)
       else oi_cli_conversation_apply_checkpoint_take_summary (noted_by c p) n (Some summ))
       (persist_checkpoint fmt strtod (snd (cv_user c)) n summ model)"

definition session_step ::
  "fmt \<Rightarrow> strtod \<Rightarrow> session_input \<Rightarrow> session_conversation \<Rightarrow> session_conversation option" where
  "session_step fmt strtod x c =
     (case x of
        Converse i an \<Rightarrow> Some (conversation_step fmt strtod c (i, an))
      | Queue_input t \<Rightarrow> map_option (\<lambda>(_, _, p). noted_by c p) (persist_queued_input fmt strtod (snd (cv_user c)) t)
      | Resolve_queue n b \<Rightarrow> map_option (\<lambda>(_, p). noted_by c p) (persist_queue_resolved fmt strtod (snd (cv_user c)) n b)
      | Confirm n an \<Rightarrow> Some (permission_selector_key n an c)
      | Permissions policy \<Rightarrow> Some (set_policy policy c)
      | Compact n summ model \<Rightarrow> if cv_busy c then Some c else map_option snd (compact_session fmt strtod n summ model c))"

fun session_run :: "fmt \<Rightarrow> strtod \<Rightarrow> session_input list \<Rightarrow> session_conversation \<Rightarrow> session_conversation option" where
  "session_run fmt strtod [] c = Some c"
| "session_run fmt strtod (x # xs) c = (case session_step fmt strtod x c of None \<Rightarrow> None | Some c \<Rightarrow> session_run fmt strtod xs c)"

text \<open>While the list of messages has room, the messages of the log are those of the conversation.\<close>

definition in_step :: "strtod \<Rightarrow> session_conversation \<Rightarrow> bool" where
  "in_step strtod c \<longleftrightarrow> (size_of c < item_limit \<longrightarrow> ml_cap (cv_messages c) \<le> item_limit
     \<and> consistent strtod (snd (cv_user c)) \<and> ml_items (cv_messages c) = durable_messages (snd (cv_user c)))"

definition of_session :: "fmt \<Rightarrow> strtod \<Rightarrow> (repl_view \<times> persistence_context) conversation_config \<Rightarrow> bool" where
  "of_session fmt strtod cfg \<longleftrightarrow> (\<exists>interactive k t. cfg = session_config fmt strtod interactive k t)"

definition in_session :: "fmt \<Rightarrow> strtod \<Rightarrow> session_conversation \<Rightarrow> bool" where
  "in_session fmt strtod c \<longleftrightarrow> printf_strtod_roundtrip fmt strtod \<and> cv_heap c = heap_ok
     \<and> of_session fmt strtod (cv_config c) \<and> in_step strtod c"

lemma session_emit:
  assumes s: "in_session fmt strtod c" and e: "emit_open c ev = (st, b, c')"
    and m: "\<And>e. ev = EVENT_MESSAGE e \<Longrightarrow> me_is_repair e \<Longrightarrow> msg_tool_calls (me_value e) = []"
  shows "cv_heap c' = heap_ok \<and> cv_config c' = cv_config c \<and> cv_messages c' = cv_messages c
    \<and> (size_of c < item_limit \<longrightarrow> ml_cap (cv_messages c) \<le> item_limit \<and> consistent strtod (snd (cv_user c'))
        \<and> durable_messages (snd (cv_user c')) = ml_items (cv_messages c) @ (if st = OI_OK then event_messages ev else [])
        \<and> (st = OI_OK \<longrightarrow> list_all oi_cli_message_is_valid (event_messages ev)))"
proof -
  from s obtain interactive k t where F: "printf_strtod_roundtrip fmt strtod" and h: "cv_heap c = heap_ok"
    and g: "cv_config c = session_config fmt strtod interactive k t" and i: "in_step strtod c" by (auto simp: in_session_def of_session_def)
  from g e obtain u where u: "session_event fmt strtod interactive ev (cv_user c) = (st, b, u)" "c' = traced (Emitted ev) (c\<lparr>cv_user := u\<rparr>)"
    by (auto simp: emit_open_def session_config_def split: prod.splits)
  show ?thesis
  proof (cases "size_of c < item_limit")
    case True
    with i have k: "consistent strtod (snd (cv_user c))" "ml_items (cv_messages c) = durable_messages (snd (cv_user c))"
      "ml_cap (cv_messages c) \<le> item_limit" by (simp_all add: in_step_def)
    from session_event_result [OF F k(1) u(1) m] k(2,3) h show ?thesis by (simp add: u(2) traced_def)
  qed (use h in \<open>simp add: u(2) traced_def\<close>)
qed

lemma request_body_lasts [lasts]: "snd (build_request_body fmt heap_ok m ms) = heap_ok"
  by (simp add: build_request_body_def split: option.split prod.split)

lemma list_take_lasts: "snd (oi_cli_message_list_append_take heap_ok l m) = heap_ok"
  by (simp add: oi_cli_message_list_append_take_def Let_def)

lemma session_commit:
  assumes s: "in_session fmt strtod c" and r: "rep \<longrightarrow> msg_tool_calls m = []" and e: "commit_message c m oc raw rep = (st, c')"
  shows "in_session fmt strtod c'"
proof -
  obtain st1 b c1 where e1: "emit_open c (EVENT_MESSAGE \<lparr>me_value = m,
      me_model = (if msg_role m = MESSAGE_ASSISTANT \<and> \<not> rep then Some (cv_model c) else None),
      me_outcome = oc, me_raw = raw, me_is_repair = rep\<rparr>) = (st1, b, c1)" by (metis prod_cases3)
  from session_emit [OF s e1] r have k: "cv_heap c1 = heap_ok" "cv_config c1 = cv_config c" "cv_messages c1 = cv_messages c"
    "size_of c < item_limit \<Longrightarrow> ml_cap (cv_messages c) \<le> item_limit \<and> consistent strtod (snd (cv_user c1))
       \<and> durable_messages (snd (cv_user c1)) = ml_items (cv_messages c) @ (if st1 = OI_OK then [m] else [])
       \<and> (st1 = OI_OK \<longrightarrow> oi_cli_message_is_valid m)"
    by (auto simp: event_messages_def)
  have z: "size_of c1 = size_of c" by (simp add: size_of_def k(3))
  from e e1 have c': "(st, c') = (if st1 \<noteq> OI_OK then (st1, c1)
      else (case oi_cli_message_list_append_take (cv_heap c1) (cv_messages c1) m of
            (Inl st, h) \<Rightarrow> (st, c1\<lparr>cv_heap := h\<rparr>)
          | (Inr l, h) \<Rightarrow> (OI_OK, c1\<lparr>cv_messages := l, cv_heap := h\<rparr>)))"
    by (simp add: commit_message_def emit_message_def emit_def)
  obtain x where x: "oi_cli_message_list_append_take heap_ok (cv_messages c1) m = (x, heap_ok)"
    using list_take_lasts by (metis prod.collapse)
  show ?thesis
  proof (cases "st1 = OI_OK \<and> size_of c < item_limit")
    case True
    with k(4) have v: "oi_cli_message_is_valid m" "ml_cap (cv_messages c1) \<le> item_limit" by (simp_all add: k(3))
    from take_ok [OF x v] True z obtain l where "x = Inr l" "ml_items l = ml_items (cv_messages c1) @ [m]" "ml_cap l \<le> item_limit"
      by (auto simp: size_of_def)
    with True c' x k s show ?thesis by (auto simp: in_session_def in_step_def)
  next
    case False
    show ?thesis
    proof (cases "st1 = OI_OK")
      case True
      with False have "\<not> size_of c < item_limit" by simp
      moreover from True c' x k(1) have "size_of c \<le> size_of c'"
        using z by (auto simp: size_of_def oi_cli_message_list_append_take_def Let_def alloc_try_def split: sum.splits if_splits)
      ultimately show ?thesis using c' True x k(1,2) s by (auto simp: in_session_def in_step_def split: sum.splits)
    qed (use c' k s z in \<open>auto simp: in_session_def in_step_def\<close>)
  qed
qed

interpretation session_kept: conversation_invariant "in_session fmt strtod" "\<lambda>h. h = heap_ok" for fmt strtod
proof unfold_locales
  fix c c' :: "session_conversation" and ev st b
  assume "in_session fmt strtod c" "\<And>e. ev \<noteq> EVENT_MESSAGE e" "emit_open c ev = (st, b, c')"
  with session_emit [OF this(1,3)] have "cv_heap c' = heap_ok \<and> cv_config c' = cv_config c \<and> cv_messages c' = cv_messages c
    \<and> (size_of c < item_limit \<longrightarrow> ml_cap (cv_messages c) \<le> item_limit \<and> consistent strtod (snd (cv_user c'))
        \<and> durable_messages (snd (cv_user c')) = ml_items (cv_messages c) @ (if st = OI_OK then event_messages ev else []))" by blast
  moreover have "event_messages ev = []" using \<open>\<And>e. ev \<noteq> EVENT_MESSAGE e\<close> by (auto simp: event_messages_def split: conversation_event.split)
  ultimately show "in_session fmt strtod c'" using \<open>in_session fmt strtod c\<close> by (auto simp: in_session_def in_step_def size_of_def)
next
  fix c c' :: "session_conversation" and f an st
  assume c: "in_session fmt strtod c" and e: "start_model_request f an c = (st, c')"
  obtain x where x: "build_request_body f heap_ok (cv_model c) (ml_items (cv_messages c)) = (x, heap_ok)"
    using request_body_lasts by (metis prod.collapse)
  with c e show "in_session fmt strtod c'"
    by (auto simp: start_model_request_def Let_def in_session_def in_step_def size_of_def traced_def split: if_splits sum.splits)
next
  fix c :: "session_conversation" and f n v d u
  assume "in_session fmt strtod c" "cc_permission (cv_config c) = Some f" "f n v (cv_user c) = (d, u)"
  then show "in_session fmt strtod (c\<lparr>cv_user := u\<rparr>)"
    by (auto simp: in_session_def in_step_def size_of_def of_session_def session_config_def)
next
  fix c c' :: "session_conversation" and m oc raw rep st
  show "in_session fmt strtod c \<Longrightarrow> rep \<longrightarrow> msg_tool_calls m = [] \<Longrightarrow> commit_message c m oc raw rep = (st, c') \<Longrightarrow>
    in_session fmt strtod c'" by (rule session_commit)
qed (auto simp: in_session_def in_step_def size_of_def begun_def traced_def)


lemma set_queue_fails [fails]:
  "fst (oi_cli_history_record_set_queued_input h i t c) \<noteq> Inl OI_OK"
  "fst (oi_cli_history_record_set_queue_resolved h i t q res) \<noteq> Inl OI_OK"
  by (simp_all add: oi_cli_history_record_set_queued_input_def oi_cli_history_record_set_queue_resolved_def alloc_then_fails fails)

lemma queue_result:
  assumes F: "printf_strtod_roundtrip fmt strtod" and c: "consistent strtod p"
  shows "persist_queued_input fmt strtod p t = Some (st, n, p') \<Longrightarrow> consistent strtod p' \<and> durable_messages p' = durable_messages p"
    and "persist_queue_resolved fmt strtod p q b = Some (st, p') \<Longrightarrow> consistent strtod p' \<and> durable_messages p' = durable_messages p"
proof -
  have h: "pc_heap p = heap_ok" using c by (simp add: consistent_def)
  have n: "consistent strtod p' \<and> durable_messages p' = durable_messages p"
    if "append_noted fmt strtod p r = Some (st, p')" "snd r = heap_ok" "fst r \<noteq> Inl OI_OK"
      "\<And>x h. r = (Inr x, h) \<Longrightarrow> \<not> repair_with_calls x \<and> \<not> is_transition (body x) \<and> \<not> is_checkpoint (body x) \<and> record_messages x = []" for r
    using append_noted_result [OF F c that(1-3), of "[]"] that(4) by simp
  show "persist_queued_input fmt strtod p t = Some (st, n, p') \<Longrightarrow> consistent strtod p' \<and> durable_messages p' = durable_messages p"
  proof (cases "pc_attached p")
    case True
    assume "persist_queued_input fmt strtod p t = Some (st, n, p')"
    with True have a: "append_noted fmt strtod p (oi_cli_history_record_set_queued_input (pc_heap p) (next_record_id (pc_state p))
      (next_turn_id (pc_state p)) t) = Some (st, p')" by (auto simp: persist_queued_input_def Let_def)
    show ?thesis by (rule n [OF a]) (auto simp: h lasts fails repair_with_calls_def is_transition_def is_checkpoint_def
          record_messages_def dest!: set_other_results(3))
  qed (use c in \<open>simp add: persist_queued_input_def\<close>)
  show "persist_queue_resolved fmt strtod p q b = Some (st, p') \<Longrightarrow> consistent strtod p' \<and> durable_messages p' = durable_messages p"
  proof (cases "pc_attached p")
    case True
    assume "persist_queue_resolved fmt strtod p q b = Some (st, p')"
    with True have a: "append_noted fmt strtod p (oi_cli_history_record_set_queue_resolved (pc_heap p) (next_record_id (pc_state p))
      (pending_input_turn_id (pc_state p)) q (if b then QUEUE_CONSUMED else QUEUE_DISCARDED)) = Some (st, p')"
      by (simp add: persist_queue_resolved_def)
    show ?thesis by (rule n [OF a]) (auto simp: h lasts fails repair_with_calls_def is_transition_def is_checkpoint_def
          record_messages_def dest!: set_other_results(4))
  qed (use c in \<open>simp add: persist_queue_resolved_def\<close>)
qed

lemma noted_in_session:
  assumes "in_session fmt strtod c"
    and "consistent strtod (snd (cv_user c)) \<Longrightarrow> consistent strtod p \<and> durable_messages p = durable_messages (snd (cv_user c))"
  shows "in_session fmt strtod (noted_by c p)"
  using assms by (auto simp: in_session_def in_step_def noted_by_def size_of_def)

lemma policy_in_session: "in_session fmt strtod c \<Longrightarrow> in_session fmt strtod (set_policy policy c)"
  by (simp add: in_session_def in_step_def set_policy_def size_of_def)

lemma compact_result:
  assumes s: "in_session fmt strtod c" "size_of c < item_limit" "\<not> cv_busy c"
    and e: "compact_session fmt strtod n t m c = Some (st, c')"
  shows "in_session fmt strtod c' \<and> (if st = OI_OK then ml_items (cv_messages c') = summary_message t # drop n (ml_items (cv_messages c))
    else cv_messages c' = cv_messages c)"
proof -
  have F: "printf_strtod_roundtrip fmt strtod" using s(1) by (simp add: in_session_def)
  from s(1,2) have k: "consistent strtod (snd (cv_user c))" "ml_items (cv_messages c) = durable_messages (snd (cv_user c))"
    by (simp_all add: in_session_def in_step_def)
  from e obtain st1 p where p: "persist_checkpoint fmt strtod (snd (cv_user c)) n t m = Some (st1, p)"
    "(st, c') = (if st1 \<noteq> OI_OK then (st1, noted_by c p)
       else oi_cli_conversation_apply_checkpoint_take_summary (noted_by c p) n (Some t))"
    by (auto simp: compact_session_def)
  note r = checkpoint_result [OF F k(1) p(1)]
  show ?thesis
  proof (cases "st1 = OI_OK")
    case True
    with r have n: "0 < n" "n \<le> length (ml_items (cv_messages c))"
      and d: "durable_messages p = summary_message t # drop n (durable_messages (snd (cv_user c)))" "consistent strtod p"
      by (auto simp: k(2) durable_messages_def drop_map)
    with True p(2) s(3) have "st = OI_OK"
      "c' = (noted_by c p)\<lparr>cv_messages := (cv_messages c)\<lparr>ml_items := summary_message t # drop n (ml_items (cv_messages c))\<rparr>\<rparr>"
      by (simp_all add: oi_cli_conversation_apply_checkpoint_take_summary_def noted_by_def summary_message_def oi_cli_message_init_def)
    with s(1,2) d k(2) show ?thesis by (auto simp: in_session_def in_step_def noted_by_def size_of_def)
  next
    case False
    with r have "consistent strtod p" "durable_messages p = durable_messages (snd (cv_user c))" by (auto simp: durable_messages_def)
    with noted_in_session [OF s(1)] False p(2) show ?thesis by (auto simp: noted_by_def)
  qed
qed

text \<open>The commands that \<open>Converse\<close> does not pass on itself: a checkpoint comes from \<open>Compact\<close>.\<close>

definition session_command :: "session_input \<Rightarrow> bool" where
  "session_command x \<longleftrightarrow> (case x of Converse i an \<Rightarrow> no_checkpoint (i, an) | _ \<Rightarrow> True)"

lemma session_step_kept:
  assumes s: "in_session fmt strtod c" "size_of c < item_limit" and x: "session_command x" and e: "session_step fmt strtod x c = Some c'"
  shows "in_session fmt strtod c'"
proof (cases x)
  case (Converse i an)
  with x e session_kept.keeps_step [OF _ s(1)] show ?thesis by (auto simp: session_command_def session_step_def)
next
  case (Queue_input t)
  have F: "printf_strtod_roundtrip fmt strtod" using s(1) by (simp add: in_session_def)
  from Queue_input e show ?thesis
    by (auto simp: session_step_def intro!: noted_in_session [OF s(1)] dest: queue_result(1) [OF F])
next
  case (Resolve_queue n b)
  have F: "printf_strtod_roundtrip fmt strtod" using s(1) by (simp add: in_session_def)
  from Resolve_queue e show ?thesis
    by (auto simp: session_step_def intro!: noted_in_session [OF s(1)] dest: queue_result(2) [OF F])
next
  case (Confirm n an)
  obtain st d where d: "oi_cli_conversation_resolve_permission an c (n \<noteq> 2) = (st, d)" by fastforce
  have "no_checkpoint (Resolve_permission (n \<noteq> 2), an)" by (simp add: no_checkpoint_def)
  from session_kept.keeps_step [OF this s(1), of fmt strtod] have "in_session fmt strtod d" by (simp add: d)
  with d policy_in_session e Confirm show ?thesis
    by (auto simp: session_step_def permission_selector_key_def split: if_splits)
next
  case (Permissions policy)
  with policy_in_session [OF s(1)] e show ?thesis by (auto simp: session_step_def)
next
  case (Compact n t m)
  with compact_result [OF s] e s(1) show ?thesis by (auto simp: session_step_def split: if_splits)
qed

text \<open>No state of the run has as many messages as a list can hold.\<close>

definition never_full :: "fmt \<Rightarrow> strtod \<Rightarrow> session_input list \<Rightarrow> session_conversation \<Rightarrow> bool" where
  "never_full fmt strtod xs c \<longleftrightarrow> (\<forall>n c'. session_run fmt strtod (take n xs) c = Some c' \<longrightarrow> size_of c' < item_limit)"

lemma never_full_step:
  assumes "never_full fmt strtod (x # xs) c"
  shows "size_of c < item_limit" "session_step fmt strtod x c = Some d \<Longrightarrow> never_full fmt strtod xs d"
proof -
  have n: "session_run fmt strtod (take n (x # xs)) c = Some c' \<Longrightarrow> size_of c' < item_limit" for n c'
    using assms by (simp add: never_full_def)
  from n [of 0] show "size_of c < item_limit" by simp
  show "never_full fmt strtod xs d" if "session_step fmt strtod x c = Some d"
    unfolding never_full_def using n [of "Suc k" for k] that by simp
qed

lemma session_run_kept:
  "in_session fmt strtod c \<Longrightarrow> list_all session_command xs \<Longrightarrow> never_full fmt strtod xs c \<Longrightarrow> session_run fmt strtod xs c = Some c'
     \<Longrightarrow> in_session fmt strtod c'"
proof (induction xs arbitrary: c)
  case (Cons x xs)
  from Cons.prems(4) obtain d where d: "session_step fmt strtod x c = Some d" "session_run fmt strtod xs d = Some c'"
    by (auto split: option.splits)
  note f = never_full_step [OF Cons.prems(3)]
  have "in_session fmt strtod d" using session_step_kept [OF Cons.prems(1) f(1) _ d(1)] Cons.prems(2) by simp
  with Cons.IH [OF _ _ f(2) [OF d(1)] d(2)] Cons.prems(2) show ?case by simp
qed simp

lemma never_full_end: "never_full fmt strtod xs c \<Longrightarrow> session_run fmt strtod xs c = Some c' \<Longrightarrow> size_of c' < item_limit"
  unfolding never_full_def using take_all [OF order_refl, of xs] by metis

lemma created_in_session:
  assumes F: "printf_strtod_roundtrip fmt strtod" and "consistent strtod p"
    and "oi_cli_conversation_create heap_ok (session_config fmt strtod interactive k t) (v, p) model ctx = Inr c"
    and "durable_messages p = (case ctx of None \<Rightarrow> [] | Some l \<Rightarrow> ml_items l)"
  shows "in_session fmt strtod c"
proof -
  have "cv_user c = (v, p)"
    using assms(3) by (auto simp: oi_cli_conversation_create_def split: if_splits prod.splits sum.splits)
  with create_result [OF assms(3)] assms show ?thesis
    by (auto simp: in_session_def in_step_def of_session_def)
qed

text \<open>
  C11. The session loses and invents nothing. A log is opened and loaded and a conversation is created on the context it
  replays to, as the client does. Then anything is called, delivered and answered, in any order: turns with whatever end,
  decisions about tools, queued input, compactions; every append meets any system calls in which rolling back a failed
  write works, drawing fails or not, and at last the process dies in the middle of the write that would come next. While
  memory lasts, numbers print so that they are read back, the log can be read in full and the list of messages is never
  full, when the log is opened and loaded again, its context is exactly the messages the conversation had.
\<close>

theorem conversation_is_durable:
  assumes F: "printf_strtod_roundtrip fmt strtod"
    and "oi_sesslog_open c0 img = (OI_OK, log)" and "readable c1"
    and "oi_cli_history_store_load strtod c1 heap_ok log = (Inr (s, state), h)"
    and "pc_attached p" "pc_store p = s" "pc_state p = state" "pc_log p = log" "pc_heap p = heap_ok"
    and "\<forall>c \<in> sset (pc_calls p). sys_truncate c"
    and "oi_cli_conversation_create heap_ok (session_config fmt strtod interactive k ms) (v, p) model ctx = Inr start"
    and "(case ctx of None \<Rightarrow> [] | Some l \<Rightarrow> ml_items l) = map ci_message (context_items state)"
    and "list_all session_command is" and "session_run fmt strtod is start = Some c" and "never_full fmt strtod is start"
    and "torn t" and "oi_sesslog_open c2 (pc_log (snd (cv_user c)) @ t) = (OI_OK, log2)" and "full_reads (sys_pread c2)"
    and "readable c3"
  shows "\<exists>s2 state2. oi_cli_history_store_load strtod c3 heap_ok log2 = (Inr (s2, state2), heap_ok)
    \<and> map ci_message (context_items state2) = ml_items (cv_messages c)"
proof -
  obtain ds where ds: "list_all valid_record ds" "log = log_bytes ds" using open_wellformed [OF assms(2)] by auto
  have "consistent strtod p" using load_stored [OF ds(1) assms(3)] assms(4-10) ds(2) by (simp add: consistent_def)
  then have "in_session fmt strtod start"
    by (rule created_in_session [OF F _ assms(11)]) (simp add: durable_messages_def assms(7,12))
  from session_run_kept [OF this assms(13,15,14)] never_full_end [OF assms(15,14)]
  have k: "stored strtod (pc_store (snd (cv_user c))) (pc_state (snd (cv_user c))) (pc_log (snd (cv_user c)))"
    "ml_items (cv_messages c) = map ci_message (context_items (pc_state (snd (cv_user c))))"
    by (auto simp: in_session_def in_step_def consistent_def durable_messages_def)
  from reloaded [OF k(1) assms(16-19)] k(2) show ?thesis by auto
qed


abbreviation sample_view :: repl_view where
  "sample_view \<equiv> \<lparr>rv_present = \<lparr>pr_capture_assistant = False, pr_styling_enabled = True, pr_assistant = buffer_empty, pr_done = False,
     pr_status = OI_OK, pr_shows = sconst OI_OK, pr_heap = heap_ok\<rparr>, rv_panel = sconst OI_OK, rv_policy = OI_CLI_TOOLS_ASK\<rparr>"

abbreviation sample_session :: "history_store \<Rightarrow> replay_state \<Rightarrow> bytes \<Rightarrow> persistence_context" where
  "sample_session s state log \<equiv> \<lparr>pc_attached = True, pc_store = s, pc_state = state, pc_log = log, pc_turn_id = 1, pc_model = [0x6D],
     pc_last_error = OI_OK, pc_calls = sconst good_calls, pc_heap = heap_ok\<rparr>"

abbreviation sample_config :: "(repl_view \<times> persistence_context) conversation_config" where
  "sample_config \<equiv> session_config sample_fmt sample_strtod True 4 0"

abbreviation sample_message :: conversation_event where
  "sample_message \<equiv> EVENT_MESSAGE \<lparr>me_value = sample_user, me_model = None, me_outcome = CONVERSATION_TOOL_NONE, me_raw = None,
     me_is_repair = False\<rparr>"

lemma sample_opened:
  "\<exists>s state log ds. log = log_bytes ds \<and> list_all valid_record ds
    \<and> oi_cli_history_store_load sample_strtod good_calls heap_ok log = (Inr (s, state), heap_ok)
    \<and> hist_records (typed_history s) = [sample_open] \<and> ml_items (legacy_messages s) = []
    \<and> context_items state = [] \<and> next_record_id state = 2"
proof -
  let ?s = "oi_cli_history_store_init" and ?d = "render sample_fmt (record_value sample_open)"
  have i: "ml_items (legacy_messages ?s) = []" "hist_records (typed_history ?s) = []"
    by (simp_all add: oi_cli_history_store_init_def oi_cli_message_list_init_def oi_cli_history_init_def)
  obtain st where st: "store_replay sample_strtod heap_ok ?s = (Inr st, heap_ok)"
    by (simp add: store_replay_def i oi_cli_history_replay_def apply_legacy_def replay_typed_def new_builder_def
        oi_cli_history_replay_state_init_def publish_def publish_unresolved_def Let_def uint64_max_numeral)
  obtain st1 where r: "oi_cli_history_replay sample_strtod heap_ok [] [sample_open] = (Inr st1, heap_ok)"
      "context_items st1 = []" "next_record_id st1 = 2"
    by (simp add: oi_cli_history_replay_def apply_legacy_def replay_typed_def sample_log_def is_transition_to_def
      oi_cli_history_record_is_valid_def body_is_valid_def uint64_max_numeral new_builder_def
      oi_cli_history_replay_state_init_def publish_def publish_unresolved_def Let_def)
  obtain res where res: "oi_cli_history_store_append sample_fmt sample_strtod good_calls heap_ok ?s st (log_bytes []) sample_open = Some res"
      "ar_status res = OI_OK" "hist_records (typed_history (ar_store res)) = [sample_open]"
      "legacy_messages (ar_store res) = legacy_messages ?s" "ar_log res = log_bytes [?d]"
    using append_accepted [OF decimal_roundtrip sample_records_ok(1,3) sample_records_short(1),
        where s = ?s and state' = st1 and state = st and log = "log_bytes []"] i r(1)
    by (auto simp: size_max_def sizeof_record_def log_bytes_def)
  have v: "list_all valid_record [?d]"
    using sample_records_short(1) by (simp add: valid_record_def history_max_record_def oi_sesslog_max_record_def)
  have l: "oi_cli_history_store_load sample_strtod good_calls heap_ok (log_bytes []) = (Inr (?s, st), heap_ok)"
    using st by (subst load_result) (simp_all add: readable_good load_init_def)
  have "list_all valid_record []" by simp
  note st0 = load_stored [OF this readable_good l]
  have "stored sample_strtod (ar_store res) (ar_state res) (log_bytes [?d])"
    using append_stored [OF decimal_roundtrip st0 _ _ res(1)] res(5) by (simp add: good_calls_def repair_with_calls_def sample_log_def)
  note k = this
  then have "\<exists>s2. oi_cli_history_store_load sample_strtod good_calls heap_ok (log_bytes [?d]) = (Inr (s2, ar_state res), heap_ok)
      \<and> same_store (ar_store res) s2"
    by (rule reloaded [OF _ torn_nil good_open [OF v torn_nil] _ readable_good]) (simp add: full_reads_const good_calls_def)
  then obtain s2 where s2: "oi_cli_history_store_load sample_strtod good_calls heap_ok (log_bytes [?d]) = (Inr (s2, ar_state res), heap_ok)"
    "hist_records (typed_history s2) = [sample_open]" "ml_items (legacy_messages s2) = []"
    using res(3,4) i by (auto simp: same_store_def)
  have "ar_state res = st1" using k res(3,4) r(1) i by (simp add: stored_def store_replay_def)
  with s2 v r(2,3) show ?thesis
    by (intro exI [of _ s2] exI [of _ st1] exI [of _ "log_bytes [?d]"] exI [of _ "[?d]"]) simp
qed

lemma sample_persisted:
  assumes "hist_records (typed_history s) = [sample_open]" "ml_items (legacy_messages s) = []" "next_record_id state = 2"
  shows "\<exists>p. persist_conversation_event sample_fmt sample_strtod sample_message (sample_session s state log) = Some (OI_OK, p)
    \<and> pc_log p = log @ record_bytes (render sample_fmt (record_value sample_turn))"
proof -
  have m: "oi_cli_history_record_set_message heap_ok 2 1 sample_user MESSAGE_NORMAL None TOOL_OUTCOME_NONE None = (Inr sample_turn, heap_ok)"
    using sample_records_ok(2) by (simp add: oi_cli_history_record_set_message_def oi_cli_message_clone_def sample_user_def sample_log_def
        oi_cli_message_is_valid_def string_bytes_def oi_cli_message_set_user_def message_set_content_def oi_cli_string_set_def
        oi_cli_message_init_def size_max_def set_optional_def set_raw_def record_finish_def record_begin_def)
  obtain st2 where r2: "oi_cli_history_replay sample_strtod heap_ok [] sample_log = (Inr st2, heap_ok)" using sample_replays by blast
  have sl: "[sample_open, sample_turn] = sample_log" "next_to sample_open sample_turn"
    by (simp_all add: sample_log_def next_to_def uint64_max_numeral)
  obtain res where "oi_cli_history_store_append sample_fmt sample_strtod good_calls heap_ok s state log sample_turn = Some res"
      "ar_status res = OI_OK" "ar_log res = log @ record_bytes (render sample_fmt (record_value sample_turn))"
    using append_accepted [OF decimal_roundtrip sample_records_ok(2,4) sample_records_short(2),
        where s = s and state' = st2 and state = state and log = log] assms r2 sl
    by (auto simp: size_max_def sizeof_record_def)
  then show ?thesis using m assms(3)
    by (simp add: persist_conversation_event_def append_noted_def append_made_def sample_user_def)
qed

lemma sample_started_session:
  assumes "persist_conversation_event sample_fmt sample_strtod sample_message p = Some (OI_OK, p')"
    and "oi_cli_conversation_create heap_ok sample_config (sample_view, p) [0x6D] None = Inr c0"
  shows "ml_items (cv_messages (conversation_step sample_fmt sample_strtod c0 (Start [0x68, 0x69], plain_answers a))) = [sample_user]
    \<and> snd (cv_user (conversation_step sample_fmt sample_strtod c0 (Start [0x68, 0x69], plain_answers a))) = p'"
proof -
  have e: "session_event sample_fmt sample_strtod True sample_message (sample_view, p) = (OI_OK, False, sample_view, p')"
    using assms(1) by (simp add: session_event_def repl_conversation_event_def panel_event_def oi_cli_present_event_def durable_event_def)
  show ?thesis using assms(2) e sample_body
    by (auto simp: conversation_evaluation session_config_def sample_user_def)
qed

theorem conversation_is_durable_witness:
  "\<exists>a ds s state c0 c t s2 state2. oi_arena_create heap_ok 1024 = Some a
    \<and> oi_cli_history_store_load sample_strtod good_calls heap_ok (log_bytes ds) = (Inr (s, state), heap_ok)
    \<and> oi_cli_conversation_create heap_ok sample_config (sample_view, sample_session s state (log_bytes ds)) [0x6D] None = Inr c0
    \<and> session_run sample_fmt sample_strtod [Converse (Start [0x68, 0x69]) (plain_answers a)] c0 = Some c
    \<and> torn t \<and> t \<noteq> [] \<and> oi_cli_history_store_load sample_strtod good_calls heap_ok
          (snd (oi_sesslog_open good_calls (pc_log (snd (cv_user c)) @ t))) = (Inr (s2, state2), heap_ok)
    \<and> ml_items (cv_messages c) = [sample_user] \<and> map ci_message (context_items state2) = [sample_user]"
proof -
  obtain a where a: "oi_arena_create heap_ok 1024 = Some a" using fresh_arena by blast
  obtain s state log ds where o: "log = log_bytes ds" "list_all valid_record ds"
    "oi_cli_history_store_load sample_strtod good_calls heap_ok log = (Inr (s, state), heap_ok)"
    "hist_records (typed_history s) = [sample_open]" "ml_items (legacy_messages s) = []" "context_items state = []" "next_record_id state = 2"
    using sample_opened by blast
  let ?p = "sample_session s state log" and ?is = "[Converse (Start [0x68, 0x69]) (plain_answers a)]"
  obtain p where p: "persist_conversation_event sample_fmt sample_strtod sample_message ?p = Some (OI_OK, p)"
    "pc_log p = log_bytes (ds @ [render sample_fmt (record_value sample_turn)])"
    using sample_persisted [OF o(4,5,7), of log] o(1) by (auto simp: log_bytes_snoc)
  obtain c0 where c0: "oi_cli_conversation_create heap_ok sample_config (sample_view, ?p) [0x6D] None = Inr c0"
    by (simp add: oi_cli_conversation_create_def oi_cli_string_set_def session_config_def size_max_def)
  define c where "c = conversation_step sample_fmt sample_strtod c0 (Start [0x68, 0x69], plain_answers a)"
  have r: "session_run sample_fmt sample_strtod ?is c0 = Some c" by (simp add: session_step_def c_def)
  have c: "ml_items (cv_messages c) = [sample_user]" "snd (cv_user c) = p"
    using sample_started_session [OF p(1) c0] by (simp_all add: c_def)
  define t where "t = take 6 (record_bytes [7, 8, 9])"
  have t: "torn t" "t \<noteq> []" unfolding t_def
    by (rule take_torn) (simp_all add: valid_record_def oi_sesslog_max_record_def record_bytes_def)
  have v: "list_all valid_record (ds @ [render sample_fmt (record_value sample_turn)])"
    using o(2) sample_records_short(2) by (simp add: valid_record_def history_max_record_def oi_sesslog_max_record_def)
  have op: "oi_sesslog_open good_calls (pc_log (snd (cv_user c)) @ t) = (OI_OK, log_bytes (ds @ [render sample_fmt (record_value sample_turn)]))"
    unfolding c(2) p(2) by (rule good_open [OF v t(1)])
  have l: "oi_sesslog_open good_calls log = (OI_OK, log)" using good_open [OF o(2) torn_nil] o(1) by simp
  have calls: "\<forall>c \<in> sset (pc_calls ?p). sys_truncate c" by (simp add: good_calls_def)
  have f: "full_reads (sys_pread good_calls)" by (simp add: full_reads_const good_calls_def)
  have n: "list_all session_command ?is" by (simp add: session_command_def no_checkpoint_def)
  have z: "size_of c0 < item_limit" "size_of c < item_limit"
    using create_result [OF c0] by (simp_all add: size_of_def c(1) size_max_def sizeof_message_def)
  have m: "never_full sample_fmt sample_strtod ?is c0"
    unfolding never_full_def
  proof (intro allI impI)
    fix n d
    assume d: "session_run sample_fmt sample_strtod (take n ?is) c0 = Some d"
    show "size_of d < item_limit"
    proof (cases n)
      case 0
      with d z(1) show ?thesis by simp
    next
      case (Suc k)
      then have "take n ?is = ?is" by simp
      with d r z(2) show ?thesis by simp
    qed
  qed
  have x: "(case None of None \<Rightarrow> [] | Some l \<Rightarrow> ml_items l) = map ci_message (context_items state)" by (simp add: o(6))
  have "\<exists>s2 state2. oi_cli_history_store_load sample_strtod good_calls heap_ok (log_bytes (ds @ [render sample_fmt (record_value sample_turn)]))
      = (Inr (s2, state2), heap_ok) \<and> map ci_message (context_items state2) = ml_items (cv_messages c)"
    by (rule conversation_is_durable [OF decimal_roundtrip l readable_good o(3) _ _ _ _ _ calls c0 x n r m t(1) op f readable_good])
      simp_all
  then obtain s2 state2 where "oi_cli_history_store_load sample_strtod good_calls heap_ok (log_bytes (ds @ [render sample_fmt (record_value sample_turn)]))
      = (Inr (s2, state2), heap_ok)" "map ci_message (context_items state2) = ml_items (cv_messages c)" by blast
  with a o(1,3) c0 r t c op show ?thesis
    by (intro exI [of _ a] exI [of _ ds] exI [of _ s] exI [of _ state] exI [of _ c0] exI [of _ c] exI [of _ t] exI [of _ s2]
        exI [of _ state2]) simp
qed


section \<open>A second compaction\<close>

text \<open>Records that are no checkpoints are added behind the items the context has.\<close>

lemma append_extends:
  assumes "stored strtod s state log" "\<not> is_transition (body r)" "\<not> is_checkpoint (body r)"
    and a: "oi_cli_history_store_append fmt strtod c heap_ok s state log r = Some res"
  shows "\<exists>xs. context_items (ar_state res) = context_items state @ xs"
  using store_append_cases [OF a]
proof (elim disjE exE conjE)
  fix h1 h2
  assume b: "legacy_messages (ar_store res) = legacy_messages s"
    "hist_records (typed_history (ar_store res)) = hist_records (typed_history s) @ [r]"
    "store_replay strtod h1 (ar_store res) = (Inr (ar_state res), h2)" "heap_ok = heap_ok \<longrightarrow> h1 = heap_ok"
  have rep: "oi_cli_history_replay strtod heap_ok (ml_items (legacy_messages s)) (hist_records (typed_history s)) = (Inr state, heap_ok)"
    using assms(1) by (simp add: stored_def store_replay_def)
  have rep2: "oi_cli_history_replay strtod heap_ok (ml_items (legacy_messages s)) (hist_records (typed_history s) @ [r])
      = (Inr (ar_state res), h2)" using b by (simp add: store_replay_def)
  obtain d d' k k' where d: "builder_ok d" "oi_cli_history_record_is_valid r" "apply_typed_record strtod k d r = (Inr d', k')"
    "context_items state = context_items (rb_state d)" "context_items (ar_state res) = context_items (rb_state d')"
    "next_record_id state = record_id r" by (rule replay_one_more [OF rep rep2 assms(2)])
  from record_step [OF d(1-3)] assms(3) show ?thesis unfolding d(4,5)
    by (auto simp: is_checkpoint_def adds_message_def adds_nothing_def split: record_body.splits)
qed simp

definition other_record :: "syscalls \<times> oi_cli_history_record \<Rightarrow> bool" where
  "other_record op \<longleftrightarrow> sys_truncate (fst op) \<and> \<not> repair_with_calls (snd op) \<and> \<not> is_transition (body (snd op))
     \<and> \<not> is_checkpoint (body (snd op))"

lemma run_extends:
  "printf_strtod_roundtrip fmt strtod \<Longrightarrow> list_all other_record ops \<Longrightarrow> stored strtod s state log \<Longrightarrow>
     store_run fmt strtod ops s state log = Some (s', state', log') \<Longrightarrow>
     stored strtod s' state' log' \<and> (\<exists>xs. context_items state' = context_items state @ xs)"
proof (induction ops arbitrary: s state log)
  case (Cons op ops)
  obtain c r where op: "op = (c, r)" by fastforce
  with Cons.prems(4) obtain res where a: "oi_cli_history_store_append fmt strtod c heap_ok s state log r = Some res"
    and run: "store_run fmt strtod ops (ar_store res) (ar_state res) (ar_log res) = Some (s', state', log')"
    by (auto split: option.splits)
  from Cons.prems(2) op have r: "sys_truncate c" "\<not> repair_with_calls r" "\<not> is_transition (body r)" "\<not> is_checkpoint (body r)"
    by (simp_all add: other_record_def)
  obtain xs where "context_items (ar_state res) = context_items state @ xs"
    using append_extends [OF Cons.prems(3) r(3,4) a] by blast
  moreover have "list_all other_record ops" using Cons.prems(2) by simp
  ultimately show ?case
    using Cons.IH [OF Cons.prems(1) _ append_stored [OF Cons.prems(1,3) r(1,2) a] run] by auto
qed simp

text \<open>
  C12. A session can be compacted once, unless the compaction keeps nothing. After a checkpoint that left some messages behind
  its summary, and any other records but assistant repairs with calls, while memory lasts and roll-backs work, no further checkpoint is ever accepted, whatever it covers: the summary in front has an
  id above that of the message behind it, so the range that \<open>persist_checkpoint\<close> reads off the context is none a
  replay accepts. The session and its log stay as they were, but the failure is remembered, and the client ends.
\<close>

theorem second_compaction_fails:
  assumes F: "printf_strtod_roundtrip fmt strtod" and p: "consistent strtod p"
    and first: "persist_checkpoint fmt strtod p n t m = Some (OI_OK, p1)" and kept: "n < length (context_items (pc_state p))"
    and ops: "list_all other_record ops"
    and run: "store_run fmt strtod ops (pc_store p1) (pc_state p1) (pc_log p1) = Some (s, state, log)"
    and second: "persist_checkpoint fmt strtod (p1\<lparr>pc_store := s, pc_state := state, pc_log := log\<rparr>) n' t' m' = Some (st, p2)"
  shows "st \<noteq> OI_OK \<and> pc_state p2 = state \<and> pc_log p2 = log
    \<and> (0 < n' \<and> n' \<le> length (context_items state) \<longrightarrow> persistence_has_failed p2)"
proof -
  let ?p = "p1\<lparr>pc_store := s, pc_state := state, pc_log := log\<rparr>" and ?items = "context_items (pc_state p)"
  from checkpoint_result [OF F p first] have c1: "consistent strtod p1"
    and i1: "context_items (pc_state p1) = \<lparr>ci_record_id = next_record_id (pc_state p), ci_message = summary_message t\<rparr> # drop n ?items"
    by simp_all
  from c1 have "stored strtod (pc_store p1) (pc_state p1) (pc_log p1)" by (simp add: consistent_def)
  from run_extends [OF F ops this run] obtain xs where r: "stored strtod s state log" "context_items state = context_items (pc_state p1) @ xs"
    by blast
  have c: "consistent strtod ?p" using c1 r(1) by (simp add: consistent_def)
  from consistent_ids [OF p] obtain z where z: "ids_ok z (item_ids ?items)" "unat (next_record_id (pc_state p)) = Suc z"
    by (auto simp: state_ids_ok_def)
  obtain x ys where x: "drop n ?items = x # ys" using kept by (cases "drop n ?items") auto
  then have "x \<in> set ?items" by (metis in_set_dropD list.set_intros(1))
  then have "unat (ci_record_id x) \<le> z" using z(1) by (simp add: ids_ok_def item_ids_def)
  then have n: "\<not> sorted_wrt (<) (item_ids (context_items state))" by (simp add: r(2) i1 x item_ids_def z(2))
  from checkpoint_result [OF F c second] n show ?thesis by (auto split: if_splits)
qed


definition sample_reply :: oi_cli_history_record where
  "sample_reply = \<lparr>rec_version = 1, record_id = 3, turn_id = 1, body = RECORD_MESSAGE \<lparr>hm_value = \<lparr>msg_role = MESSAGE_ASSISTANT,
     msg_content = Some [0x6F, 0x6B], msg_tool_call_id = None, msg_tool_calls = []\<rparr>, hm_source = MESSAGE_NORMAL,
     hm_outcome = TOOL_OUTCOME_NONE, hm_model = Some [0x6D], hm_raw = None\<rparr>\<rparr>"

definition sample_checkpoint :: oi_cli_history_record where
  "sample_checkpoint = \<lparr>rec_version = 1, record_id = 4, turn_id = 0, body = RECORD_CHECKPOINT (Some [0x73]) (Some [0x6D]) 2 2\<rparr>"

lemmas sample_replay_evaluation =
  oi_cli_history_replay_def apply_legacy_def replay_typed_def sample_log_def is_transition_to_def
  oi_cli_history_record_is_valid_def body_is_valid_def history_message_is_valid_def oi_cli_message_is_valid_def
  sample_user_def string_bytes_def history_max_content_def uint64_max_numeral new_builder_def set_within_def nonempty_within_def
  oi_cli_history_replay_state_init_def apply_typed_record_def apply_message_def apply_user_message_def
  apply_assistant_message_def apply_checkpoint_def string_contains_nul_def
  builder_append_def context_append_def context_reserve_def grow_cap.simps size_max_def sizeof_context_item_def
  oi_cli_message_clone_def oi_cli_message_set_user_def oi_cli_message_set_assistant_def message_set_content_def
  oi_cli_string_set_def oi_cli_message_init_def publish_def publish_unresolved_def Let_def

lemma sample_reply_replays:
  "\<exists>s. oi_cli_history_replay strtod heap_ok [] (sample_log @ [sample_reply]) = (Inr s, heap_ok)
     \<and> map ci_record_id (context_items s) = [2, 3] \<and> next_record_id s = 4"
  by (simp add: sample_replay_evaluation sample_reply_def sample_checkpoint_def)

lemma sample_checkpoint_replays:
  "\<exists>s. oi_cli_history_replay strtod heap_ok [] ((sample_log @ [sample_reply]) @ [sample_checkpoint]) = (Inr s, heap_ok)
     \<and> map ci_record_id (context_items s) = [4, 3] \<and> next_record_id s = 5"
  by (simp add: sample_replay_evaluation sample_reply_def sample_checkpoint_def)

lemma sample_more_ok:
  "oi_cli_history_record_is_valid sample_reply" "oi_cli_history_record_is_valid sample_checkpoint"
  "record_short sample_reply" "record_short sample_checkpoint"
  by (simp_all add: sample_reply_def sample_checkpoint_def oi_cli_history_record_is_valid_def body_is_valid_def set_within_def
      nonempty_within_def history_max_content_def
      history_message_is_valid_def oi_cli_message_is_valid_def string_bytes_def record_short_def message_short_def short_def size_max_def
      sizeof_tool_call_def)

lemma sample_more_short:
  "length (render sample_fmt (record_value sample_reply)) \<le> history_max_record"
  "length (render sample_fmt (record_value sample_checkpoint)) \<le> history_max_record"
proof -
  have "length (decimal (unat schema_version)) \<le> 20" by (rule decimal_length) (simp_all add: schema_version_def)
  then show "length (render sample_fmt (record_value sample_reply)) \<le> history_max_record"
    "length (render sample_fmt (record_value sample_checkpoint)) \<le> history_max_record"
    by (simp_all add: sample_reply_def sample_checkpoint_def record_value_def record_members_def payload_members_def
        message_members_def record_kind_name_def message_role_name_def source_name_def string_bytes_def
        bytes_of_def quote_def escape_byte_def decimal.simps history_max_record_def)
qed

text \<open>An append that is accepted, in a session that is in step.\<close>

lemma append_in_step:
  assumes st: "stored sample_strtod s state log" and v: "oi_cli_history_record_is_valid r" "record_short r" "\<not> repair_with_calls r"
    and l: "length (render sample_fmt (record_value r)) \<le> history_max_record"
    and h: "hist_records (typed_history s) = rs" "ml_items (legacy_messages s) = []" "rs \<noteq> [] \<longrightarrow> next_to (last rs) r" "length rs < 10"
    and rep: "oi_cli_history_replay sample_strtod heap_ok [] (rs @ [r]) = (Inr state', heap_ok)"
  shows "\<exists>s' log'. oi_cli_history_store_append sample_fmt sample_strtod good_calls heap_ok s state log r
      = Some \<lparr>ar_status = OI_OK, ar_store = s', ar_state = state', ar_log = log', ar_heap = heap_ok\<rparr>
    \<and> stored sample_strtod s' state' log' \<and> hist_records (typed_history s') = rs @ [r] \<and> ml_items (legacy_messages s') = []"
proof -
  have "length (hist_records (typed_history s)) < size_max div sizeof_record"
    using h(1,4) by (simp add: size_max_def sizeof_record_def)
  then obtain res where res: "oi_cli_history_store_append sample_fmt sample_strtod good_calls heap_ok s state log r = Some res"
    "ar_status res = OI_OK" "legacy_messages (ar_store res) = legacy_messages s" "hist_records (typed_history (ar_store res)) = rs @ [r]"
    using append_accepted [OF decimal_roundtrip v(1,2) l, where s = s and state' = state' and state = state and log = log] h rep by auto
  have k: "stored sample_strtod (ar_store res) (ar_state res) (ar_log res)"
    by (rule append_stored [OF decimal_roundtrip st _ v(3) res(1)]) (simp add: good_calls_def)
  moreover have "ar_state res = state'" using k res(3,4) rep h(2) by (simp add: stored_def store_replay_def)
  moreover have "res = \<lparr>ar_status = ar_status res, ar_store = ar_store res, ar_state = ar_state res, ar_log = ar_log res, ar_heap = ar_heap res\<rparr>"
    by simp
  ultimately show ?thesis using res append_heap [OF res(1)] h(2)
    by (intro exI [of _ "ar_store res"] exI [of _ "ar_log res"]) (simp add: append_result.equality)
qed


text \<open>A session with one turn, and its compaction that keeps the answer.\<close>

lemma sample_replied:
  "\<exists>s state log. stored sample_strtod s state log \<and> hist_records (typed_history s) = sample_log @ [sample_reply]
     \<and> ml_items (legacy_messages s) = [] \<and> map ci_record_id (context_items state) = [2, 3] \<and> next_record_id state = 4"
proof -
  obtain s state log ds where o: "log = log_bytes ds" "list_all valid_record ds"
    "oi_cli_history_store_load sample_strtod good_calls heap_ok log = (Inr (s, state), heap_ok)"
    "hist_records (typed_history s) = [sample_open]" "ml_items (legacy_messages s) = []" using sample_opened by blast
  have st: "stored sample_strtod s state log" using load_stored [OF o(2) readable_good] o(1,3) by simp
  have sl: "[sample_open] @ [sample_turn] = sample_log" by (simp add: sample_log_def)
  have p: "[sample_open] \<noteq> [] \<longrightarrow> next_to (last [sample_open]) sample_turn" "length [sample_open] < 10"
    "sample_log \<noteq> [] \<longrightarrow> next_to (last sample_log) sample_reply" "length sample_log < 10"
    by (simp_all add: sample_log_def sample_reply_def next_to_def uint64_max_numeral)
  obtain st2 where r2: "oi_cli_history_replay sample_strtod heap_ok [] sample_log = (Inr st2, heap_ok)" using sample_replays by blast
  have n: "\<not> repair_with_calls sample_turn" "\<not> repair_with_calls sample_reply" by (simp_all add: repair_with_calls_def sample_log_def sample_reply_def)
  have r2': "oi_cli_history_replay sample_strtod heap_ok [] ([sample_open] @ [sample_turn]) = (Inr st2, heap_ok)"
    by (subst sl) (rule r2)
  from append_in_step [OF st sample_records_ok(2,4) n(1) sample_records_short(2) o(4,5) p(1,2) r2']
  obtain s2 log2 where 2: "stored sample_strtod s2 st2 log2" "hist_records (typed_history s2) = [sample_open] @ [sample_turn]"
    "ml_items (legacy_messages s2) = []" by (elim exE conjE)
  have 3: "hist_records (typed_history s2) = sample_log" using 2(2) sl by (rule trans)
  obtain st3 where r3: "oi_cli_history_replay sample_strtod heap_ok [] (sample_log @ [sample_reply]) = (Inr st3, heap_ok)"
    "map ci_record_id (context_items st3) = [2, 3]" "next_record_id st3 = 4"
    using sample_reply_replays [of sample_strtod] by (elim exE conjE)
  from append_in_step [OF 2(1) sample_more_ok(1,3) n(2) sample_more_short(1) 3 2(3) p(3,4) r3(1)]
  obtain s3 log3 where "stored sample_strtod s3 st3 log3" "hist_records (typed_history s3) = sample_log @ [sample_reply]"
    "ml_items (legacy_messages s3) = []" by (elim exE conjE)
  with r3(2,3) show ?thesis by (intro exI [of _ s3] exI [of _ st3] exI [of _ log3] conjI)
qed

theorem second_compaction_fails_witness:
  "\<exists>p p1 p2 st. consistent sample_strtod p \<and> length (context_items (pc_state p)) = 2
    \<and> persist_checkpoint sample_fmt sample_strtod p 1 [0x73] [0x6D] = Some (OI_OK, p1)
    \<and> persist_checkpoint sample_fmt sample_strtod p1 2 [0x73] [0x6D] = Some (st, p2) \<and> st \<noteq> OI_OK \<and> persistence_has_failed p2"
proof -
  obtain s state log where s: "stored sample_strtod s state log" "hist_records (typed_history s) = sample_log @ [sample_reply]"
    "ml_items (legacy_messages s) = []" "map ci_record_id (context_items state) = [2, 3]" "next_record_id state = 4"
    using sample_replied by (elim exE conjE)
  let ?p = "sample_session s state log"
  have c: "consistent sample_strtod ?p" using s(1) by (simp add: consistent_def good_calls_def)
  have l: "length (context_items state) = 2" using arg_cong [OF s(4), of length] by simp
  then have ne: "context_items state \<noteq> []" by auto
  have i: "ci_record_id (context_items state ! 0) = 2" using arg_cong [OF s(4), of "\<lambda>xs. xs ! 0"] l by simp
  obtain st4 where r4: "oi_cli_history_replay sample_strtod heap_ok [] ((sample_log @ [sample_reply]) @ [sample_checkpoint]) = (Inr st4, heap_ok)"
    "map ci_record_id (context_items st4) = [4, 3]" "next_record_id st4 = 5"
    using sample_checkpoint_replays [of sample_strtod] by (elim exE conjE)
  have n: "\<not> repair_with_calls sample_checkpoint" "next_to sample_reply sample_checkpoint" "length (sample_log @ [sample_reply]) < 10"
    by (simp_all add: repair_with_calls_def next_to_def uint64_max_numeral sample_log_def sample_reply_def sample_checkpoint_def)
  have nn: "sample_log @ [sample_reply] \<noteq> [] \<longrightarrow> next_to (last (sample_log @ [sample_reply])) sample_checkpoint" using n(2) by simp
  from append_in_step [OF s(1) sample_more_ok(2,4) n(1) sample_more_short(2) s(2,3) nn n(3) r4(1)]
  obtain s' log' where a: "oi_cli_history_store_append sample_fmt sample_strtod good_calls heap_ok s state log sample_checkpoint
      = Some \<lparr>ar_status = OI_OK, ar_store = s', ar_state = st4, ar_log = log', ar_heap = heap_ok\<rparr>" by (elim exE conjE)
  have "oi_cli_history_record_set_checkpoint heap_ok 4 [0x73] (Some [0x6D]) 2 2 = (Inr sample_checkpoint, heap_ok)"
    using sample_more_ok(2) by (simp add: sample_checkpoint_def oi_cli_history_record_set_checkpoint_def oi_cli_string_set_def set_optional_def
        record_finish_def record_begin_def size_max_def)
  then have first: "persist_checkpoint sample_fmt sample_strtod ?p 1 [0x73] [0x6D] = Some (OI_OK, sample_session s' st4 log')"
    using l ne i s(5) a by (simp add: persist_checkpoint_def append_noted_def append_made_def Let_def)
  let ?q = "sample_session s' st4 log'"
  have l4: "length (context_items st4) = 2" using arg_cong [OF r4(2), of length] by simp
  have i4: "ci_record_id (context_items st4 ! 0) = 4" "ci_record_id (context_items st4 ! 1) = 3"
    using arg_cong [OF r4(2), of "\<lambda>xs. xs ! 0"] arg_cong [OF r4(2), of "\<lambda>xs. xs ! 1"] l4 by simp_all
  have "oi_cli_history_record_set_checkpoint heap_ok 5 [0x73] (Some [0x6D]) 4 3 = (Inl OI_ERR_INVAL, heap_ok)"
    by (simp add: oi_cli_history_record_set_checkpoint_def oi_cli_string_set_def set_optional_def
        record_finish_def record_begin_def size_max_def oi_cli_history_record_is_valid_def body_is_valid_def)
  then have "\<exists>st p2. persist_checkpoint sample_fmt sample_strtod ?q 2 [0x73] [0x6D] = Some (st, p2)"
    using l4 i4 r4(3) by (simp add: persist_checkpoint_def append_noted_def append_made_def Let_def)
  then obtain st p2 where second: "persist_checkpoint sample_fmt sample_strtod ?q 2 [0x73] [0x6D] = Some (st, p2)" by blast
  have q: "?q\<lparr>pc_store := s', pc_state := st4, pc_log := log'\<rparr> = ?q" by simp
  have k: "1 < length (context_items (pc_state ?p))" using l by simp
  have "list_all other_record []" by simp
  moreover have "store_run sample_fmt sample_strtod [] (pc_store ?q) (pc_state ?q) (pc_log ?q) = Some (s', st4, log')" by simp
  ultimately have "st \<noteq> OI_OK \<and> persistence_has_failed p2"
    using second_compaction_fails [OF decimal_roundtrip c first k] second l4 unfolding q by fastforce
  with c l first second show ?thesis by (intro exI [of _ ?p] exI [of _ ?q] exI [of _ p2] exI [of _ st]) simp
qed

end
