(* ===== verification/Spec2Isabelle.thy ===== *)
theory Spec2Isabelle
  imports Prelude Utf8 Bytebuf Byte_Filter Utf8_Stream Sanitize Arena Json_Value Json_Parse Json_Safety
    Json_Number Json_Write Json_Roundtrip Sse Http Sesslog Registry Tool_Registry
    Session Config Reactor Editor Input Input_History Commands Selector Prompt_State Composer Message History History_Replay History_Turns History_Repair Base64 History_Codec
    History_Store Llm Conversation Conversation_Turns Conversation_Kept History_Order Persistence Durable
begin

text \<open>
  A verification development for \<open>oi.c\<close>, a C library and command-line client for streaming chat completions.
  Paths are relative to \<open>src/\<close> of the repository.

  \<^bold>\<open>The program.\<close> The library (\<open>include/oi/\<close>) has an event loop over epoll (\<open>reactor.c\<close>), an arena (\<open>arena.c\<close>), an
  incremental JSON parser and a writer (\<open>json_*.c\<close>), a streaming HTTP client (\<open>llm.c\<close>, with the parsers \<open>llm_http.c\<close>
  and \<open>llm_sse.c\<close> over the connection \<open>llm_conn.c\<close>), a registry of tools and their execution (\<open>tool_registry.c\<close>,
  \<open>tool_exec.c\<close>), append-only logs (\<open>sesslog.c\<close>) and a registry of sessions that own one log and one arena each
  (\<open>session.c\<close>). The client (\<open>cli_*.c\<close>) reads keys (\<open>cli_input.c\<close>, \<open>cli_composer.c\<close>) into an editor with a menu of
  commands and an input history (\<open>cli_prompt_state.c\<close>), sends the conversation to the model, keeps every turn as
  typed records in the session's log (\<open>cli_history*.c\<close>, \<open>cli_message.c\<close>), and prints what comes back after removing
  what a terminal could be attacked with (\<open>cli_utf8_stream.c\<close>, \<open>cli_render_sanitize.c\<close>).

  \<^bold>\<open>Conventions.\<close> A struct is a record, an enum or tagged union a datatype, with the names of the source. Bytes are
  \<open>8 word\<close>, buffers and strings lists of them; a C string is the bytes before its terminator. \<open>len\<close> fields are the
  lengths of the lists, \<open>cap\<close> fields are kept where the code decides by them. Sizes are naturals compared with
  \<open>size_max\<close> where the code guards against overflow; identifiers, masks and offsets that wrap are words of their
  width. A fallible operation answers \<open>oi_status\<close> beside the new state, or \<open>oi_status + 'a\<close>. The allocator is a stream
  of answers (\<open>Prelude.heap\<close>): a statement for every heap covers every pattern of failures, \<open>heap_ok\<close> is memory that
  lasts; an object that is created gets a stream of its own (\<open>heap_child\<close>). System calls are arguments whose values
  are their answers (\<open>Sesslog.syscalls\<close>, the read and poll answers of \<open>Composer\<close>, the kernel events of \<open>Reactor\<close>).
  \<open>strtod\<close> and the \<open>%.17g\<close> of \<open>printf\<close> are parameters; where a round trip needs them they are assumed to print finite
  doubles as JSON numbers that are read back exactly, which a decimal print of the bits satisfies. Callbacks are
  functions on the client's state that also say whether they destroyed the object that called them. Guards against
  \<open>NULL\<close> arguments are not modelled: the model's values are never \<open>NULL\<close> unless they are of an option type. The
  \<open>free\<close> and \<open>destroy\<close> functions end the life of an object and are modelled where others can see it.

  \<^bold>\<open>The library.\<close>
  \<^item> \<open>Prelude\<close>: status codes, the allocator, the doubling loop of the growable buffers (\<open>grow_cap\<close>), words and bytes,
    and the interfaces \<open>append_buffer\<close> (an append adds all or nothing) and \<open>byte_machine\<close> (a loop over bytes, for which
    feeding \<open>xs @ ys\<close> is feeding \<open>xs\<close> and then \<open>ys\<close>).
  \<^item> \<open>Utf8\<close> (\<open>cli_utf8.c\<close>), \<open>Bytebuf\<close> (\<open>cli_bytebuf.c\<close>), \<open>Utf8_Stream\<close> (\<open>cli_utf8_stream.c\<close>), \<open>Sanitize\<close>
    (\<open>cli_render_sanitize.c\<close>); the last two share the interface \<open>Byte_Filter\<close>. Shown: validation is RFC 3629, encoding
    and decoding are inverse, the fixer's output is always well formed, the stripper emits no control but newline
    and tab, and what its length cap does to a character.
  \<^item> \<open>Arena\<close> (\<open>arena.c\<close>): the regions handed out are inside their blocks, aligned and disjoint after any run.
  \<^item> \<open>Json_Value\<close>, \<open>Json_Parse\<close>, \<open>Json_Write\<close> (\<open>json_*.c\<close>); \<open>Json_Safety\<close> is the invariant of the parser (depth 1000,
    numbers of 512 bytes, frames and scratch buffer), \<open>Json_Number\<close> its number grammar, \<open>Json_Roundtrip\<close> that what is
    written is read back; any accepted sequence of writer calls gives the text of a value.
  \<^item> \<open>Sse\<close>, \<open>Http\<close> (\<open>llm_sse.c\<close>, \<open>llm_http.c\<close>): framing, chunked and sized bodies, bounds, independence of how the
    bytes are cut. \<open>Llm\<close> (\<open>llm.c\<close>): a request from its start to \<open>on_done\<close>, over both parsers and the JSON parser;
    a stream of replies is delivered however the connection cuts it, nothing is called back after the end, success
    means complete tool calls, the head cannot be injected into.
  \<^item> \<open>Sesslog\<close> (\<open>sesslog.c\<close>): open with recovery, append with roll-back, replay; what a crash leaves.
  \<^item> \<open>Registry\<close>: the interface \<open>keyed_registry\<close> of \<open>Tool_Registry\<close> (\<open>tool_registry.c\<close>) and \<open>Session\<close> (\<open>session.c\<close>). A
    session is an object in a store; failing or destroying one leaves the others alone.
  \<^item> \<open>Config\<close> (\<open>config.c\<close>): options, environment, files; the key never comes from a file.
  \<^item> \<open>Reactor\<close> (\<open>reactor.c\<close>, \<open>reactor_epoll.c\<close>): registrations with generations, so that a stale event is dropped; the
    kernel's interest set is the table's.

  \<^bold>\<open>The client.\<close>
  \<^item> \<open>Editor\<close>, \<open>Input\<close>, \<open>Input_History\<close>, \<open>Commands\<close>, \<open>Selector\<close>, \<open>Prompt_State\<close>, \<open>Composer\<close> (the files \<open>cli_*.c\<close> of these
    names): the editor refines a text of code points with a cursor between two of them, the decoder does not depend
    on how the reads are cut, the menu lists the commands that match, except behind a restored draft, a paste arrives byte for byte. The
    composing loops poll as often as the list of answers is long: its end stands for a wait that goes on.
  \<^item> \<open>Message\<close>, \<open>History\<close>, \<open>History_Replay\<close> (the files of these names): messages, records and the replay of a log against
    the state machine of a session. \<open>History_Turns\<close> states the conversation a log stands for and the invariant of the
    replay; \<open>History_Repair\<close> (\<open>cli_history_repair.c\<close>) completes an interrupted turn.
  \<^item> \<open>Base64\<close>, \<open>History_Codec\<close> (\<open>cli_history_codec.c\<close>): records as JSON; what is encoded decodes to itself, except one
    kind of record, which is written and refused.
  \<^item> \<open>History_Store\<close> (\<open>cli_history_store.c\<close>): loading and appending over log, codec and replay: a session survives
    failed appends and a crash in the middle of a write.
  \<^item> \<open>Conversation\<close> (\<open>cli_conversation.c\<close>): one conversation with the model as a state machine driven by its embedder
    and by the callbacks of the request and the tool call in flight. Shown: between two calls it is at rest or
    waits for exactly one thing, the body of a request determines the conversation, the text of a tool's
    result is well formed. \<open>Conversation_Turns\<close>: however its turns end, the messages added are complete turns of the
    protocol that \<open>History_Turns\<close> states for a log; the one exception is a start that fails. \<open>Conversation_Kept\<close>: the
    interface \<open>conversation_invariant\<close>, by which every operation keeps what its basic steps keep, and that a turn sends a
    bounded number of requests.
  \<^item> \<open>Persistence\<close> (\<open>cli.c\<close>, \<open>cli_present.c\<close>, \<open>cli_tools.c\<close>, the callback of \<open>cli_repl.c\<close>): what the client does with the events of a
    conversation, over store, codec and log. \<open>History_Order\<close>: the record ids of a context, which decide what a checkpoint
    covers. \<open>Durable\<close> puts conversation and log together, with \<open>/compact\<close>, queued input and decisions about tools
    (\<open>cli_repl.c\<close>): the messages in memory are those on disk, and a compaction that kept turns is the last one.

  \<^bold>\<open>Bounds and fuel.\<close> No model has fuel of its own. Loops over input are recursive on it; the doubling loops terminate
  by their distance to the needed size; retried system calls take their answers from a list and answer \<open>None\<close> when
  every answer is an interruption; the loops of the reactor and the composer take one answer of the kernel per round.
  The depth of 1000, the line limits, the 64 KiB, 4 MiB and 8 MiB limits are the code's own.

  \<^bold>\<open>Not modelled.\<close>
  The connection (\<open>llm_conn.c\<close>) and tool execution (\<open>tool_exec.c\<close>) are sockets, a resolver thread, OpenSSL, subprocesses
  and pipes: their behaviour is that of the system calls. Session files and metadata (\<open>cli_session_*.c\<close>,
  \<open>cli_sessions.c\<close>) are mostly work on the file system. Rendering (\<open>cli_markdown*.c\<close>, \<open>cli_render*.c\<close>,
  \<open>cli_status.c\<close>, \<open>cli_tool_panel.c\<close>) prints; what that answers is an argument. The rest of the shell of the program (\<open>cli.c\<close>, \<open>cli_repl.c\<close>,
  \<open>cli_compact.c\<close>, \<open>cli_command_dispatch.c\<close>, \<open>cli_loop.c\<close>, \<open>cli_terminal.c\<close>) parses options and glues the components
  together. Memory is modelled by value: that the code frees what it owns exactly once is not stated, except where a
  callback destroys the object that called it.
\<close>

end
